(* ===== verification/Prelude.thy ===== *)
theory Prelude
  imports "HOL-Library.Multiset"
begin

text \<open>
  Shared vocabulary of the development: the lemma collections the component theories
  extend, list exchange (\<open>std::swap\<close> and \<open>std::iter_swap\<close> on two positions of a vector),
  the comparator contract that every template of the library with a \<open>Compare\<close> parameter
  relies on, and its two standard instances \<open>std::less\<close> and \<open>std::greater\<close>.
\<close>

named_theorems len_simps \<open>length of the result of an in-place operation\<close>
named_theorems mset_simps \<open>multiset of the result of an in-place operation\<close>

section \<open>Exchanging two cells of a vector\<close>

definition swap :: "'a list \<Rightarrow> nat \<Rightarrow> nat \<Rightarrow> 'a list" where
  "swap xs i j = xs[i := xs ! j, j := xs ! i]"

lemma length_swap [simp, len_simps]: "length (swap xs i j) = length xs"
  by (simp add: swap_def)

lemma mset_swap_cells [simp, mset_simps]:
  "i < length xs \<Longrightarrow> j < length xs \<Longrightarrow> mset (swap xs i j) = mset xs"
  by (simp add: swap_def mset_swap)

lemma nth_swap:
  "i < length xs \<Longrightarrow> j < length xs \<Longrightarrow> k < length xs \<Longrightarrow>
   swap xs i j ! k = (if k = i then xs ! j else if k = j then xs ! i else xs ! k)"
  by (auto simp: swap_def nth_list_update)

lemma nth_swap_other [simp]: "k \<noteq> i \<Longrightarrow> k \<noteq> j \<Longrightarrow> swap xs i j ! k = xs ! k"
  by (simp add: swap_def)

lemma nth_swap_left [simp]: "i < length xs \<Longrightarrow> j < length xs \<Longrightarrow> swap xs i j ! i = xs ! j"
  by (simp add: nth_swap)

lemma nth_swap_right [simp]: "i < length xs \<Longrightarrow> j < length xs \<Longrightarrow> swap xs i j ! j = xs ! i"
  by (simp add: nth_swap)

lemma swap_same [simp]: "swap xs i i = xs"
  by (simp add: swap_def)

section \<open>Comparators\<close>

text \<open>
  The C++ named requirement \<open>Compare\<close>: \<open>cmp x y\<close> reads "x is ordered before y", is a
  strict order, and incomparability is transitive (stated in its contrapositive form).
\<close>

locale comparator =
  fixes cmp :: "'a \<Rightarrow> 'a \<Rightarrow> bool"
  assumes irrefl: "\<not> cmp x x"
    and trans: "cmp x y \<Longrightarrow> cmp y z \<Longrightarrow> cmp x z"
    and weak: "cmp x z \<Longrightarrow> cmp x y \<or> cmp y z"
begin

lemma asym: "cmp x y \<Longrightarrow> \<not> cmp y x"
  using irrefl trans by blast

lemma cmp_le_trans: "\<not> cmp y x \<Longrightarrow> \<not> cmp z y \<Longrightarrow> \<not> cmp z x"
  using weak by blast

lemma cmp_less_le_trans: "cmp x y \<Longrightarrow> \<not> cmp z y \<Longrightarrow> cmp x z"
  using weak by blast

lemma cmp_le_less_trans: "\<not> cmp y x \<Longrightarrow> cmp y z \<Longrightarrow> cmp x z"
  using weak by blast

end

text \<open>A comparator with no ties, as \<open>std::less\<close> on a totally ordered type.\<close>

locale total_comparator = comparator +
  assumes total: "\<not> cmp x y \<Longrightarrow> \<not> cmp y x \<Longrightarrow> x = y"

text \<open>\<open>std::less<>{}\<close> and \<open>std::greater<>{}\<close>.\<close>

definition std_less :: "'a::linorder \<Rightarrow> 'a \<Rightarrow> bool" where
  "std_less x y = (x < y)"

definition std_greater :: "'a::linorder \<Rightarrow> 'a \<Rightarrow> bool" where
  "std_greater x y = (x > y)"

interpretation less: total_comparator "std_less :: 'a::linorder \<Rightarrow> 'a \<Rightarrow> bool"
  by unfold_locales (auto simp: std_less_def)

interpretation greater: total_comparator "std_greater :: 'a::linorder \<Rightarrow> 'a \<Rightarrow> bool"
  by unfold_locales (auto simp: std_greater_def)

text \<open>
  A sequence is sorted by \<open>cmp\<close> when no element is ordered before an earlier one.
\<close>

definition sorted_by :: "('a \<Rightarrow> 'a \<Rightarrow> bool) \<Rightarrow> 'a list \<Rightarrow> bool" where
  "sorted_by cmp xs \<longleftrightarrow> sorted_wrt (\<lambda>x y. \<not> cmp y x) xs"

lemma sorted_by_nth:
  "sorted_by cmp xs \<longleftrightarrow> (\<forall>i j. i < j \<longrightarrow> j < length xs \<longrightarrow> \<not> cmp (xs ! j) (xs ! i))"
  by (auto simp: sorted_by_def sorted_wrt_iff_nth_less)

lemma sorted_by_less: "sorted_by std_less xs \<longleftrightarrow> sorted xs"
  by (simp add: sorted_by_def std_less_def not_less)

lemma sorted_by_greater: "sorted_by std_greater xs \<longleftrightarrow> sorted (rev xs)"
  by (simp add: sorted_by_def std_greater_def not_less sorted_wrt_rev)

text \<open>
  Most loops establish sortedness of a prefix and extend it by one cell; the predicate
  speaks of the cells \<open>lo \<le> i < j < hi\<close>.
\<close>

definition sorted_seg :: "('a \<Rightarrow> 'a \<Rightarrow> bool) \<Rightarrow> nat \<Rightarrow> nat \<Rightarrow> 'a list \<Rightarrow> bool" where
  "sorted_seg cmp lo hi xs \<longleftrightarrow>
     (\<forall>i j. lo \<le> i \<longrightarrow> i < j \<longrightarrow> j < hi \<longrightarrow> \<not> cmp (xs ! j) (xs ! i))"

lemma sorted_seg_full: "sorted_seg cmp 0 (length xs) xs = sorted_by cmp xs"
  by (auto simp: sorted_seg_def sorted_by_nth)

lemma sorted_segD:
  "sorted_seg cmp lo hi xs \<Longrightarrow> lo \<le> i \<Longrightarrow> i < j \<Longrightarrow> j < hi \<Longrightarrow> \<not> cmp (xs ! j) (xs ! i)"
  by (simp add: sorted_seg_def)

lemma sorted_seg_trivial [simp]: "hi \<le> Suc lo \<Longrightarrow> sorted_seg cmp lo hi xs"
  by (auto simp: sorted_seg_def)

lemma sorted_seg_cong:
  "(\<And>k. lo \<le> k \<Longrightarrow> k < hi \<Longrightarrow> xs ! k = ys ! k) \<Longrightarrow>
   sorted_seg cmp lo hi xs = sorted_seg cmp lo hi ys"
  by (simp add: sorted_seg_def)

section \<open>Counting loops\<close>

text \<open>
  \<open>for (i = lo; i < hi; ++i) s = f(i, s)\<close> is \<open>fold f [lo..<hi] s\<close> and the loop that counts
  down from \<open>hi - 1\<close> to \<open>lo\<close> is \<open>fold f (rev [lo..<hi]) s\<close>. Both come with an invariant rule.
\<close>

lemma fold_upt_inv:
  assumes "P lo s" "lo \<le> hi"
    and step: "\<And>i s. lo \<le> i \<Longrightarrow> i < hi \<Longrightarrow> P i s \<Longrightarrow> P (Suc i) (f i s)"
  shows "P hi (fold f [lo..<hi] s)"
  using assms(2)
proof (induction hi rule: dec_induct)
  case base
  show ?case using assms(1) by simp
next
  case (step n)
  then show ?case using assms(3) [of n] by (simp add: assms)
qed

lemma fold_upt_rev_inv:
  assumes "P hi s" "lo \<le> hi"
    and "\<And>i s. lo \<le> i \<Longrightarrow> i < hi \<Longrightarrow> P (Suc i) s \<Longrightarrow> P i (f i s)"
  shows "P lo (fold f (rev [lo..<hi]) s)"
  using assms(2,1,3)
proof (induction hi arbitrary: s rule: dec_induct)
  case base
  then show ?case by simp
next
  case (step n)
  have "P lo (fold f (rev [lo..<n]) (f n s))"
    by (rule step.IH) (use step in auto)
  then show ?case using step.hyps by simp
qed

text \<open>The cells below \<open>n\<close>, as a multiset, when an operation keeps the rest.\<close>

lemma mset_take_eq:
  assumes "mset ys = mset xs" "\<And>k. n \<le> k \<Longrightarrow> k < length xs \<Longrightarrow> ys ! k = xs ! k"
  shows "mset (take n ys) = mset (take n xs)"
proof -
  have len: "length ys = length xs" using assms(1) by (metis size_mset)
  have "drop n ys = drop n xs" by (rule nth_equalityI) (use assms(2) len in auto)
  moreover have "mset (take n zs) + mset (drop n zs) = mset zs" for zs :: "'a list"
    by (metis append_take_drop_id mset_append)
  ultimately show ?thesis using assms(1) by (metis add_right_cancel)
qed

lemma take_mset_ex:
  assumes "mset (take n ys) = mset (take n xs)" "i < n" "i < length ys"
  shows "\<exists>j. j < n \<and> j < length xs \<and> ys ! i = xs ! j"
proof -
  have "ys ! i \<in> set (take n ys)" using assms(2,3) by (auto simp: in_set_conv_nth intro!: exI [of _ i])
  then have "ys ! i \<in> set (take n xs)" using assms(1) by (metis set_mset_mset)
  then show ?thesis by (auto simp: in_set_conv_nth)
qed

text \<open>
  \<open>seg_perm lo hi xs ys\<close>: \<open>ys\<close> is a permutation of \<open>xs\<close> that moves only the cells
  \<open>lo \<le> k < hi\<close>, the contract of an in-place operation on a subrange.
\<close>

definition seg_perm :: "nat \<Rightarrow> nat \<Rightarrow> 'a list \<Rightarrow> 'a list \<Rightarrow> bool" where
  "seg_perm lo hi xs ys \<longleftrightarrow> mset ys = mset xs \<and> length ys = length xs \<and>
     (\<forall>k < length xs. k < lo \<or> hi \<le> k \<longrightarrow> ys ! k = xs ! k)"

lemma seg_perm_refl [simp]: "seg_perm lo hi xs xs"
  by (simp add: seg_perm_def)

lemma seg_perm_trans:
  "seg_perm lo hi xs ys \<Longrightarrow> seg_perm lo hi ys zs \<Longrightarrow> seg_perm lo hi xs zs"
  by (auto simp: seg_perm_def)

lemma seg_perm_wider:
  "seg_perm lo hi xs ys \<Longrightarrow> lo' \<le> lo \<Longrightarrow> hi \<le> hi' \<Longrightarrow> seg_perm lo' hi' xs ys"
  by (auto simp: seg_perm_def)

lemma seg_perm_swap:
  "lo \<le> i \<Longrightarrow> i < hi \<Longrightarrow> lo \<le> j \<Longrightarrow> j < hi \<Longrightarrow> hi \<le> length xs \<Longrightarrow> seg_perm lo hi xs (swap xs i j)"
  by (auto simp: seg_perm_def nth_swap)

lemma seg_perm_length: "seg_perm lo hi xs ys \<Longrightarrow> length ys = length xs"
  by (simp add: seg_perm_def)

lemma seg_perm_out: "seg_perm lo hi xs ys \<Longrightarrow> k < length xs \<Longrightarrow> k < lo \<or> hi \<le> k \<Longrightarrow> ys ! k = xs ! k"
  by (auto simp: seg_perm_def)

lemma seg_perm_ex:
  assumes "seg_perm lo hi xs ys" "lo \<le> k" "k < hi" "hi \<le> length xs"
  shows "\<exists>j. lo \<le> j \<and> j < hi \<and> ys ! k = xs ! j"
proof -
  have eq: "mset ys = mset xs" and len: "length ys = length xs"
    and out: "\<And>k. k < length xs \<Longrightarrow> k < lo \<or> hi \<le> k \<Longrightarrow> ys ! k = xs ! k"
    using assms(1) by (auto simp: seg_perm_def)
  have "mset (take hi ys) = mset (take hi xs)"
    by (rule mset_take_eq) (use eq out in auto)
  moreover have "take lo (take hi ys) = take lo (take hi xs)"
    using out len assms(2-4) by (intro nth_equalityI) auto
  moreover have "mset (take lo zs) + mset (drop lo zs) = mset zs" for zs :: "'a list"
    by (metis append_take_drop_id mset_append)
  ultimately have "mset (drop lo (take hi ys)) = mset (drop lo (take hi xs))"
    by (metis add_left_cancel)
  then have "set (drop lo (take hi ys)) = set (drop lo (take hi xs))"
    by (metis set_mset_mset)
  moreover have "ys ! k \<in> set (drop lo (take hi ys))"
    using assms(2-4) len by (auto simp: in_set_conv_nth intro!: exI [of _ "k - lo"])
  ultimately obtain i where "i < hi - lo" "ys ! k = xs ! (lo + i)"
    using assms(4) by (auto simp: in_set_conv_nth)
  then show ?thesis by (intro exI [of _ "lo + i"]) auto
qed

end
