(* ===== verification/Sort_Simple.thy ===== *)
theory Sort_Simple
  imports Prelude
begin

text \<open>
  The quadratic sorts of \<open>dsac/algorithm\<close> that take a comparator: \<open>is_sorted\<close>, \<open>bubble_sort\<close>,
  \<open>insertion_sort\<close> and \<open>selection_sort\<close>, each with its loops as written in
  \<open>algorithm/detail\<close> and the public overloads of \<open>algorithm/*_sort/*_sort_seq.hpp\<close>.
  The iterator range \<open>[begin, end)\<close> is the list; an iterator is its distance from \<open>begin\<close>.
\<close>

section \<open>is_sorted\<close>

text \<open>The loop over a forward range: \<open>b\<close> is \<open>*begin\<close>, the list is what follows.\<close>

fun is_sorted_loop :: "('a \<Rightarrow> 'a \<Rightarrow> bool) \<Rightarrow> 'a \<Rightarrow> 'a list \<Rightarrow> bool" where
  "is_sorted_loop cmp b [] = True"
| "is_sorted_loop cmp b (n # ns) = (if cmp n b then False else is_sorted_loop cmp n ns)"

definition is_sorted :: "('a \<Rightarrow> 'a \<Rightarrow> bool) \<Rightarrow> 'a list \<Rightarrow> bool" where
  "is_sorted cmp xs = (case xs of [] \<Rightarrow> True | b # ns \<Rightarrow> is_sorted_loop cmp b ns)"

definition is_sorted_iter :: "'a::linorder list \<Rightarrow> bool" where
  "is_sorted_iter xs = is_sorted std_less xs"

definition is_sorted_range_by :: "'a list \<Rightarrow> ('a \<Rightarrow> 'a \<Rightarrow> bool) \<Rightarrow> bool" where
  "is_sorted_range_by xs cmp = is_sorted cmp xs"

definition is_sorted_range :: "'a::linorder list \<Rightarrow> bool" where
  "is_sorted_range xs = is_sorted std_less xs"

definition is_sorted_init_list :: "'a::linorder list \<Rightarrow> bool" where
  "is_sorted_init_list xs = is_sorted_iter xs"

definition is_sorted_init_list_by :: "'a list \<Rightarrow> ('a \<Rightarrow> 'a \<Rightarrow> bool) \<Rightarrow> bool" where
  "is_sorted_init_list_by xs cmp = is_sorted cmp xs"

section \<open>bubble_sort\<close>

text \<open>The inner loop \<open>for (j = begin; j < i; ++j)\<close>, then the outer loop over \<open>i\<close>.\<close>

definition bubble_inner :: "('a \<Rightarrow> 'a \<Rightarrow> bool) \<Rightarrow> nat \<Rightarrow> 'a list \<Rightarrow> 'a list" where
  "bubble_inner cmp i xs =
     fold (\<lambda>j ys. if cmp (ys ! i) (ys ! j) then swap ys i j else ys) [0..<i] xs"

definition bubble_sort :: "('a \<Rightarrow> 'a \<Rightarrow> bool) \<Rightarrow> 'a list \<Rightarrow> 'a list" where
  "bubble_sort cmp xs = fold (bubble_inner cmp) [0..<length xs] xs"

definition bubble_sort_iter :: "'a::linorder list \<Rightarrow> 'a list" where
  "bubble_sort_iter xs = bubble_sort std_less xs"

definition bubble_sort_range_by :: "'a list \<Rightarrow> ('a \<Rightarrow> 'a \<Rightarrow> bool) \<Rightarrow> 'a list" where
  "bubble_sort_range_by xs cmp = bubble_sort cmp xs"

definition bubble_sort_range :: "'a::linorder list \<Rightarrow> 'a list" where
  "bubble_sort_range xs = bubble_sort_range_by xs std_less"

section \<open>insertion_sort\<close>

text \<open>
  The \<open>while\<close> loop shifts greater elements to the right; \<open>i\<close> is the signed
  \<open>difference_type\<close> of the code and ends at \<open>-1\<close> when the key goes to the front. The
  assignment after the loop stores the key.
\<close>

function insertion_shift :: "('a \<Rightarrow> 'a \<Rightarrow> bool) \<Rightarrow> 'a \<Rightarrow> int \<Rightarrow> 'a list \<Rightarrow> 'a list" where
  "insertion_shift cmp key i xs =
     (if i \<ge> 0 \<and> cmp key (xs ! nat i)
      then insertion_shift cmp key (i - 1) (xs[nat (i + 1) := xs ! nat i])
      else xs[nat (i + 1) := key])"
  by pat_completeness auto
termination
  by (relation "measure (\<lambda>(cmp, key, i, xs). nat (i + 1))") auto

definition insertion_sort :: "('a \<Rightarrow> 'a \<Rightarrow> bool) \<Rightarrow> 'a list \<Rightarrow> 'a list" where
  "insertion_sort cmp xs =
     fold (\<lambda>j ys. insertion_shift cmp (ys ! j) (int j - 1) ys) [1..<length xs] xs"

definition insertion_sort_iter :: "'a::linorder list \<Rightarrow> 'a list" where
  "insertion_sort_iter xs = insertion_sort std_less xs"

definition insertion_sort_range_by :: "'a list \<Rightarrow> ('a \<Rightarrow> 'a \<Rightarrow> bool) \<Rightarrow> 'a list" where
  "insertion_sort_range_by xs cmp = insertion_sort cmp xs"

definition insertion_sort_range :: "'a::linorder list \<Rightarrow> 'a list" where
  "insertion_sort_range xs = insertion_sort_range_by xs std_less"

section \<open>selection_sort\<close>

definition selection_min :: "('a \<Rightarrow> 'a \<Rightarrow> bool) \<Rightarrow> nat \<Rightarrow> 'a list \<Rightarrow> nat" where
  "selection_min cmp i xs =
     fold (\<lambda>j m. if cmp (xs ! j) (xs ! m) then j else m) [i + 1..<length xs] i"

definition selection_sort :: "('a \<Rightarrow> 'a \<Rightarrow> bool) \<Rightarrow> 'a list \<Rightarrow> 'a list" where
  "selection_sort cmp xs =
     fold (\<lambda>i ys. swap ys i (selection_min cmp i ys)) [0..<length xs] xs"

definition selection_sort_iter :: "'a::linorder list \<Rightarrow> 'a list" where
  "selection_sort_iter xs = selection_sort std_less xs"

definition selection_sort_range_by :: "'a list \<Rightarrow> ('a \<Rightarrow> 'a \<Rightarrow> bool) \<Rightarrow> 'a list" where
  "selection_sort_range_by xs cmp = selection_sort cmp xs"

definition selection_sort_range :: "'a::linorder list \<Rightarrow> 'a list" where
  "selection_sort_range xs = selection_sort_range_by xs std_less"

section \<open>Permutation: every exchange keeps the multiset\<close>

lemma bubble_inner_mset:
  assumes "i < length xs"
  shows "mset (bubble_inner cmp i xs) = mset xs \<and> length (bubble_inner cmp i xs) = length xs"
  unfolding bubble_inner_def
  by (rule fold_upt_inv [where P = "\<lambda>_ ys. mset ys = mset xs \<and> length ys = length xs"])
     (use assms in auto)

lemma insertion_shift_length [simp, len_simps]:
  "length (insertion_shift cmp key i xs) = length xs"
  by (induction cmp key i xs rule: insertion_shift.induct)
     (subst insertion_shift.simps, simp del: insertion_shift.simps)

declare insertion_shift.simps [simp del]

text \<open>
  The shift loop keeps a hole: the list with the key written into the hole \<open>i + 1\<close> has
  the same multiset throughout.
\<close>

lemma insertion_shift_mset:
  assumes "-1 \<le> i" "i + 1 < int (length xs)"
  shows "mset (insertion_shift cmp key i xs) = mset (xs[nat (i + 1) := key])"
  using assms
proof (induction cmp key i xs rule: insertion_shift.induct)
  case (1 cmp key i xs)
  show ?case
  proof (cases "i \<ge> 0 \<and> cmp key (xs ! nat i)")
    case True
    define k where "k = nat i"
    have k: "nat (i + 1) = Suc k" "nat i = k" "Suc k < length xs" "0 \<le> i"
      using True "1.prems" by (auto simp: k_def)
    have "mset (insertion_shift cmp key i xs) =
        mset (insertion_shift cmp key (i - 1) (xs[Suc k := xs ! k]))"
      using True k by (subst insertion_shift.simps) simp
    also have "\<dots> = mset ((xs[Suc k := xs ! k])[k := key])"
      using "1.IH" [OF True] "1.prems" k by simp
    also have "\<dots> = mset (swap (xs[Suc k := key]) (Suc k) k)"
      using k by (simp add: swap_def)
    finally show ?thesis using k by simp
  next
    case False
    then show ?thesis by (subst insertion_shift.simps) auto
  qed
qed

lemma selection_min_bounds:
  assumes "i < length xs"
  shows "i \<le> selection_min cmp i xs \<and> selection_min cmp i xs < length xs"
  unfolding selection_min_def
  by (rule fold_upt_inv [where P = "\<lambda>_ m. i \<le> m \<and> m < length xs"]) (use assms in auto)

section \<open>Sortedness\<close>

context comparator
begin

lemma transp_le: "transp (\<lambda>x y. \<not> cmp y x)"
  by (auto intro!: transpI dest: cmp_le_trans)

lemma is_sorted_loop_iff: "is_sorted_loop cmp b ns = sorted_by cmp (b # ns)"
  by (induction ns arbitrary: b)
     (auto simp: sorted_by_def sorted_wrt1 sorted_wrt2 [OF transp_le] simp del: sorted_wrt.simps(2))

lemma is_sorted_sound: "is_sorted cmp xs = sorted_by cmp xs"
  by (auto simp: is_sorted_def is_sorted_loop_iff sorted_by_def split: list.splits)

lemma bubble_inner_sorted:
  assumes "i < length xs" "sorted_seg cmp 0 i xs"
  shows "sorted_seg cmp 0 (Suc i) (bubble_inner cmp i xs)"
proof -
  let ?P = "\<lambda>j ys. length ys = length xs \<and> sorted_seg cmp 0 i ys \<and> (\<forall>k<j. \<not> cmp (ys ! i) (ys ! k))"
  have "?P i (bubble_inner cmp i xs)"
    unfolding bubble_inner_def
  proof (rule fold_upt_inv [where P = ?P], goal_cases)
    case (3 j ys)
    show ?case
    proof (cases "cmp (ys ! i) (ys ! j)")
      case True
      let ?zs = "swap ys i j"
      have nth: "?zs ! k = (if k = j then ys ! i else ys ! k)" if "k < i" for k
        using 3 assms(1) that by (auto simp: nth_swap)
      have zi: "?zs ! i = ys ! j" using 3 assms(1) by (auto simp: nth_swap)
      have sorted: "\<not> cmp (ys ! q) (ys ! p)" if "p < q" "q < i" for p q
        using 3 that by (auto dest: sorted_segD)
      have "\<not> cmp (?zs ! q) (?zs ! p)" if "p < q" "q < i" for p q
      proof (cases "p = j")
        case p: True
        then have "cmp (ys ! i) (ys ! q)" using cmp_less_le_trans [OF True] sorted that by blast
        then show ?thesis using nth [of p] nth [of q] that p asym by simp
      qed (use 3 nth [of p] nth [of q] sorted [of p q] that in auto)
      moreover have "\<not> cmp (?zs ! i) (?zs ! k)" if "k < Suc j" for k
        using nth [of k] zi sorted [of k j] asym [OF True] that 3 by (cases "k = j") auto
      ultimately show ?thesis using 3 True by (simp add: sorted_seg_def)
    qed (use 3 in \<open>auto simp: less_Suc_eq\<close>)
  qed (use assms in auto)
  then show ?thesis by (auto simp: sorted_seg_def less_Suc_eq)
qed

lemma bubble_sort_inv:
  "mset (bubble_sort cmp xs) = mset xs \<and> sorted_seg cmp 0 (length xs) (bubble_sort cmp xs)"
proof -
  let ?P = "\<lambda>i ys. mset ys = mset xs \<and> length ys = length xs \<and> sorted_seg cmp 0 i ys"
  have "?P (length xs) (bubble_sort cmp xs)"
    unfolding bubble_sort_def
    by (rule fold_upt_inv [where P = ?P]) (auto simp: bubble_inner_mset bubble_inner_sorted)
  then show ?thesis by simp
qed

lemma insertion_close:
  assumes "k \<le> j" "j < length xs" "\<And>p. p < k \<Longrightarrow> \<not> cmp key (xs ! p)"
    and "\<And>p q. p < q \<Longrightarrow> q \<le> j \<Longrightarrow> p \<noteq> k \<Longrightarrow> q \<noteq> k \<Longrightarrow> \<not> cmp (xs ! q) (xs ! p)"
    and "\<And>q. k < q \<Longrightarrow> q \<le> j \<Longrightarrow> \<not> cmp (xs ! q) key"
  shows "sorted_seg cmp 0 (Suc j) (xs[k := key])"
  unfolding sorted_seg_def
proof (intro allI impI)
  fix p q assume "p < q" "q < Suc j"
  then show "\<not> cmp (xs[k := key] ! q) (xs[k := key] ! p)"
    using assms by (cases "q = k"; cases "p = k") auto
qed

text \<open>The shift loop: sorted around the hole \<open>k = i + 1\<close>, and the key precedes what was shifted.\<close>

lemma insertion_shift_sorted:
  assumes "i = int k - 1" "k \<le> j" "j < length xs"
    and "\<And>p q. p < q \<Longrightarrow> q \<le> j \<Longrightarrow> p \<noteq> k \<Longrightarrow> q \<noteq> k \<Longrightarrow> \<not> cmp (xs ! q) (xs ! p)"
    and "\<And>q. k < q \<Longrightarrow> q \<le> j \<Longrightarrow> \<not> cmp (xs ! q) key"
  shows "sorted_seg cmp 0 (Suc j) (insertion_shift cmp key i xs)"
  using assms
proof (induction k arbitrary: i xs)
  case 0
  then show ?case
    using insertion_close [of 0 j xs key] by (subst insertion_shift.simps) auto
next
  case (Suc k)
  have i: "i = int k" "nat i = k" "nat (i + 1) = Suc k" using Suc.prems(1) by auto
  show ?case
  proof (cases "cmp key (xs ! k)")
    case True
    let ?ys = "xs[Suc k := xs ! k]"
    have nth: "?ys ! q = (if q = Suc k then xs ! k else xs ! q)" for q
      using Suc.prems(2,3) by (simp add: nth_list_update)
    have "sorted_seg cmp 0 (Suc j) (insertion_shift cmp key (int k - 1) ?ys)"
    proof (rule Suc.IH [OF refl], goal_cases)
      case (3 p q)
      then show ?case using Suc.prems(2) Suc.prems(4) [of "if p = Suc k then k else p" "if q = Suc k then k else q"]
        by (auto simp: nth irrefl split: if_splits)
    next
      case (4 q)
      then show ?case using Suc.prems(5) [of q] True asym by (auto simp: nth)
    qed (use Suc.prems in auto)
    then show ?thesis using True i by (subst insertion_shift.simps) simp
  next
    case False
    have below: "\<not> cmp key (xs ! p)" if "p < Suc k" for p
      using that False Suc.prems(2) Suc.prems(4) [of p k] cmp_le_trans
      by (cases "p = k") auto
    have "sorted_seg cmp 0 (Suc j) (xs[Suc k := key])"
      by (rule insertion_close) (use Suc.prems below in auto)
    then show ?thesis using False i by (subst insertion_shift.simps) simp
  qed
qed

lemma insertion_sort_inv:
  "mset (insertion_sort cmp xs) = mset xs \<and> sorted_seg cmp 0 (length xs) (insertion_sort cmp xs)"
proof (cases "xs = []")
  case False
  let ?P = "\<lambda>i ys. mset ys = mset xs \<and> length ys = length xs \<and> sorted_seg cmp 0 i ys"
  have "?P (length xs) (insertion_sort cmp xs)"
    unfolding insertion_sort_def
  proof (rule fold_upt_inv [where P = ?P], goal_cases)
    case (3 j ys)
    have "sorted_seg cmp 0 (Suc j) (insertion_shift cmp (ys ! j) (int j - 1) ys)"
      by (rule insertion_shift_sorted [where k = j]) (use 3 in \<open>auto dest: sorted_segD\<close>)
    with 3 show ?case by (simp add: insertion_shift_mset)
  qed (use False in \<open>auto simp: Suc_le_eq\<close>)
  then show ?thesis by simp
qed (simp add: insertion_sort_def)

lemma selection_min_least:
  assumes "i < length xs" "i \<le> q" "q < length xs"
  shows "\<not> cmp (xs ! q) (xs ! selection_min cmp i xs)"
proof -
  let ?P = "\<lambda>n m. \<forall>q. i \<le> q \<longrightarrow> q < n \<longrightarrow> \<not> cmp (xs ! q) (xs ! m)"
  have "?P (length xs) (selection_min cmp i xs)"
    unfolding selection_min_def
  proof (rule fold_upt_inv [where P = ?P], goal_cases)
    case (3 j m)
    show ?case
    proof (intro allI impI)
      fix q assume q: "i \<le> q" "q < Suc j"
      show "\<not> cmp (xs ! q) (xs ! (if cmp (xs ! j) (xs ! m) then j else m))"
      proof (cases "q = j")
        case False
        with 3 q have "\<not> cmp (xs ! q) (xs ! m)" by simp
        then show ?thesis using trans [of "xs ! q" "xs ! j" "xs ! m"] by auto
      qed (use irrefl in auto)
    qed
  qed (use assms in \<open>auto simp: irrefl less_Suc_eq\<close>)
  with assms show ?thesis by blast
qed

lemma selection_step_sorted:
  assumes "i < length xs" "sorted_seg cmp 0 i xs"
    and front: "\<And>p q. p < i \<Longrightarrow> i \<le> q \<Longrightarrow> q < length xs \<Longrightarrow> \<not> cmp (xs ! q) (xs ! p)"
  defines "ys \<equiv> swap xs i (selection_min cmp i xs)"
  shows "sorted_seg cmp 0 (Suc i) ys"
    and "\<And>p q. p < Suc i \<Longrightarrow> Suc i \<le> q \<Longrightarrow> q < length xs \<Longrightarrow> \<not> cmp (ys ! q) (ys ! p)"
proof -
  let ?m = "selection_min cmp i xs"
  have m: "i \<le> ?m" "?m < length xs" using selection_min_bounds [OF assms(1)] by auto
  have nth: "ys ! k = (if k = i then xs ! ?m else if k = ?m then xs ! i else xs ! k)"
    if "k < length xs" for k
    using that m assms(1) by (simp add: ys_def nth_swap)
  show "sorted_seg cmp 0 (Suc i) ys"
    unfolding sorted_seg_def
    using nth m assms(1) front sorted_segD [OF assms(2)] by (auto simp: less_Suc_eq)
  show "\<not> cmp (ys ! q) (ys ! p)" if "p < Suc i" "Suc i \<le> q" "q < length xs" for p q
    using that nth [of q] nth [of p] m front [of p q] front [of p i]
      selection_min_least [OF assms(1), of q] selection_min_least [OF assms(1), of i] assms(1)
    by (auto simp: less_Suc_eq)
qed

lemma selection_sort_inv:
  "mset (selection_sort cmp xs) = mset xs \<and> sorted_seg cmp 0 (length xs) (selection_sort cmp xs)"
proof -
  let ?P = "\<lambda>i ys. mset ys = mset xs \<and> length ys = length xs \<and> sorted_seg cmp 0 i ys \<and>
      (\<forall>p q. p < i \<longrightarrow> i \<le> q \<longrightarrow> q < length xs \<longrightarrow> \<not> cmp (ys ! q) (ys ! p))"
  have "?P (length xs) (selection_sort cmp xs)"
    unfolding selection_sort_def
  proof (rule fold_upt_inv [where P = ?P], goal_cases)
    case (3 i ys)
    then have i: "i < length ys" by simp
    note step = selection_step_sorted [OF i]
    show ?case using 3 selection_min_bounds [OF i, of cmp] step by (auto simp: i)
  qed auto
  then show ?thesis by simp
qed

end

section \<open>Properties\<close>

text \<open>
  For every comparator in the sense of the C++ requirement, \<open>bubble_sort\<close>, \<open>insertion_sort\<close>
  and \<open>selection_sort\<close> return a permutation of their input that \<open>is_sorted\<close> accepts, and
  \<open>is_sorted\<close> accepts exactly the sequences in which no element is ordered before an earlier one.
\<close>

theorem comparison_sorts_correct:
  assumes "comparator cmp"
  shows "mset (bubble_sort cmp xs) = mset xs \<and> is_sorted cmp (bubble_sort cmp xs) \<and>
    mset (insertion_sort cmp xs) = mset xs \<and> is_sorted cmp (insertion_sort cmp xs) \<and>
    mset (selection_sort cmp xs) = mset xs \<and> is_sorted cmp (selection_sort cmp xs) \<and>
    (is_sorted cmp xs \<longleftrightarrow> (\<forall>j < length xs. \<forall>i < j. \<not> cmp (xs ! j) (xs ! i)))"
proof -
  note sound = comparator.is_sorted_sound [OF assms]
  have full: "is_sorted cmp ys" if "mset ys = mset xs" "sorted_seg cmp 0 (length xs) ys" for ys
    using that sorted_seg_full [of cmp ys] by (metis sound mset_eq_length)
  show ?thesis
    using full comparator.bubble_sort_inv [OF assms, of xs] comparator.insertion_sort_inv [OF assms, of xs]
      comparator.selection_sort_inv [OF assms, of xs]
    by (auto simp: sound [of xs] sorted_by_nth)
qed

theorem comparison_sorts_correct_witness:
  "mset (bubble_sort std_greater [2::int, 3, 1]) = mset [2, 3, 1] \<and> is_sorted std_greater (bubble_sort std_greater [2::int, 3, 1]) \<and>
    mset (insertion_sort std_greater [2::int, 3, 1]) = mset [2, 3, 1] \<and> is_sorted std_greater (insertion_sort std_greater [2::int, 3, 1]) \<and>
    mset (selection_sort std_greater [2::int, 3, 1]) = mset [2, 3, 1] \<and> is_sorted std_greater (selection_sort std_greater [2::int, 3, 1]) \<and>
    (is_sorted std_greater [2::int, 3, 1] \<longleftrightarrow>
      (\<forall>j < length [2::int, 3, 1]. \<forall>i < j. \<not> std_greater ([2::int, 3, 1] ! j) ([2, 3, 1] ! i)))"
  by (rule comparison_sorts_correct) (rule greater.comparator_axioms)

end
