(* ===== verification/Sort_Shaker.thy ===== *)
theory Sort_Shaker
  imports Prelude
begin

text \<open>
  \<open>ShakerSort\<close>, plain (\<open>v1\<close>) and with the position of the latest exchange (\<open>v2\<close>), of
  \<open>algorithm/shaker_sort.hpp\<close>, and \<open>ShellSort\<close> of \<open>algorithm/shell_sort.hpp\<close>. The \<open>int\<close> bounds of the code may become
  negative (an empty vector starts with \<open>right = -1\<close>); the cells that are accessed are not.
\<close>

section \<open>The loops\<close>

definition shake_up :: "'a::linorder list \<Rightarrow> int \<Rightarrow> int \<Rightarrow> 'a list" where
  "shake_up arr left right =
     fold (\<lambda>i a. if a ! i > a ! (i + 1) then swap a i (i + 1) else a) [nat left..<nat right] arr"

definition shake_down :: "'a::linorder list \<Rightarrow> int \<Rightarrow> int \<Rightarrow> 'a list" where
  "shake_down arr left right =
     fold (\<lambda>i a. if a ! (i - 1) > a ! i then swap a (i - 1) i else a) (rev [nat (left + 1)..<nat (right + 1)]) arr"

function shaker_loop_v1 :: "'a::linorder list \<Rightarrow> int \<Rightarrow> int \<Rightarrow> 'a list" where
  "shaker_loop_v1 arr left right =
     (let arr = shake_up arr left right; right = right - 1;
          arr = shake_down arr left right; left = left + 1
      in if left < right then shaker_loop_v1 arr left right else arr)"
  by pat_completeness auto
termination
  by (relation "measure (\<lambda>(arr, left, right). nat (right - left))") auto

definition shaker_sort_v1 :: "'a::linorder list \<Rightarrow> 'a list" where
  "shaker_sort_v1 arr = shaker_loop_v1 arr 0 (int (length arr) - 1)"

definition shake_up_latest :: "'a::linorder list \<Rightarrow> int \<Rightarrow> int \<Rightarrow> int \<Rightarrow> 'a list \<times> int" where
  "shake_up_latest arr left right latest_swap =
     fold (\<lambda>i (a, s). if a ! i > a ! (i + 1) then (swap a i (i + 1), int i) else (a, s)) [nat left..<nat right] (arr, latest_swap)"

definition shake_down_latest :: "'a::linorder list \<Rightarrow> int \<Rightarrow> int \<Rightarrow> int \<Rightarrow> 'a list \<times> int" where
  "shake_down_latest arr left right latest_swap =
     fold (\<lambda>i (a, s). if a ! (i - 1) > a ! i then (swap a (i - 1) i, int i) else (a, s))
       (rev [nat (left + 1)..<nat (right + 1)]) (arr, latest_swap)"

text \<open>\<open>None\<close>: the loop does not end.\<close>

partial_function (option) shaker_loop_v2 :: "'a::linorder list \<Rightarrow> int \<Rightarrow> int \<Rightarrow> int \<Rightarrow> 'a list option" where
  [code]: "shaker_loop_v2 arr left right latest_swap =
     (case shake_up_latest arr left right latest_swap of (arr, latest_swap) \<Rightarrow>
        let right = latest_swap in
        case shake_down_latest arr left right latest_swap of (arr, latest_swap) \<Rightarrow>
          let left = latest_swap in
          if left < right then shaker_loop_v2 arr left right latest_swap else Some arr)"

definition shaker_sort_v2 :: "'a::linorder list \<Rightarrow> 'a list option" where
  "shaker_sort_v2 arr = shaker_loop_v2 arr 0 (int (length arr) - 1) (int (length arr) - 1)"

text \<open>The innermost loop of \<open>ShellSort\<close>; it is entered with a positive \<open>d\<close> only.\<close>

function shell_inner :: "nat \<Rightarrow> nat \<Rightarrow> 'a::linorder list \<Rightarrow> 'a list" where
  "shell_inner d j arr =
     (if 0 < d \<and> d \<le> j
      then shell_inner d (j - d) (if arr ! j < arr ! (j - d) then swap arr j (j - d) else arr)
      else arr)"
  by pat_completeness auto
termination
  by (relation "measure (\<lambda>(d, j, arr). j)") auto

function shell_loop :: "nat \<Rightarrow> 'a::linorder list \<Rightarrow> 'a list" where
  "shell_loop d arr =
     (if 0 < d then shell_loop (d div 2) (fold (shell_inner d) [d..<length arr] arr) else arr)"
  by pat_completeness auto
termination
  by (relation "measure (\<lambda>(d, arr). d)") auto

definition shell_sort :: "'a::linorder list \<Rightarrow> 'a list" where
  "shell_sort arr = shell_loop (length arr div 2) arr"

declare shaker_loop_v1.simps [simp del] shell_inner.simps [simp del] shell_loop.simps [simp del]

section \<open>Shaking\<close>

text \<open>\<open>unordered_within lo hi\<close>: two cells that are out of order lie both between \<open>lo\<close> and \<open>hi\<close>.\<close>

definition unordered_within :: "int \<Rightarrow> int \<Rightarrow> 'a::linorder list \<Rightarrow> bool" where
  "unordered_within lo hi xs \<longleftrightarrow>
     (\<forall>p q. p < q \<longrightarrow> q < length xs \<longrightarrow> \<not> (lo \<le> int p \<and> int q \<le> hi) \<longrightarrow> xs ! p \<le> xs ! q)"

lemma unordered_withinD:
  "unordered_within lo hi xs \<Longrightarrow> p < q \<Longrightarrow> q < length xs \<Longrightarrow> int p < lo \<or> hi < int q \<Longrightarrow> xs ! p \<le> xs ! q"
  by (auto simp: unordered_within_def)

lemma unordered_within_sorted: "unordered_within lo hi xs \<Longrightarrow> hi \<le> lo \<Longrightarrow> sorted xs"
  unfolding sorted_iff_nth_mono_less unordered_within_def by (metis leD le_less_trans less_imp_le_nat of_nat_less_iff order_le_less_trans)

lemma unordered_within_wider: "unordered_within lo hi xs \<Longrightarrow> lo' \<le> lo \<Longrightarrow> hi \<le> hi' \<Longrightarrow> unordered_within lo' hi' xs"
  by (auto simp: unordered_within_def)

lemma unordered_within_all: "unordered_within 0 (int (length xs) - 1) xs"
  by (auto simp: unordered_within_def)

text \<open>An exchange of cells between \<open>lo\<close> and \<open>hi\<close> that puts two adjacent cells into order.\<close>

lemma unordered_within_swap:
  assumes "unordered_within lo hi xs" "lo \<le> int i" "int i + 1 \<le> hi" "Suc i < length xs"
  shows "unordered_within lo hi (swap xs i (Suc i))"
  unfolding unordered_within_def
proof (intro allI impI)
  fix p q
  assume pq: "p < q" "q < length (swap xs i (Suc i))" "\<not> (lo \<le> int p \<and> int q \<le> hi)"
  let ?t = "\<lambda>k. if k = i then Suc i else if k = Suc i then i else k"
  have "xs ! ?t p \<le> xs ! ?t q"
    by (rule unordered_withinD [OF assms(1)]) (use pq assms(2-4) in \<open>auto split: if_splits\<close>)
  moreover have "swap xs i (Suc i) ! k = xs ! ?t k" if "k < length xs" for k
    using assms(4) that by (auto simp: nth_swap)
  ultimately show "swap xs i (Suc i) ! p \<le> swap xs i (Suc i) ! q" using pq(1,2) by simp
qed

text \<open>
  After the upward pass with latest exchange \<open>s\<close> (none: \<open>s = left - 1\<close>) everything above \<open>s\<close> is in place.
\<close>

lemma shake_up_latest_correct:
  assumes "unordered_within (int l) (int r) xs" "l \<le> r" "r < length xs" "shake_up_latest xs (int l) (int r) s0 = (ys, s1)"
  shows "mset ys = mset xs \<and> (\<exists>s < int r. int l - 1 \<le> s \<and> unordered_within (int l) s ys \<and> (s1 = s \<and> int l \<le> s \<or> s = int l - 1 \<and> s1 = s0))"
proof -
  let ?P = "\<lambda>i (ys, s1). mset ys = mset xs \<and> unordered_within (int l) (int r) ys \<and>
      (\<exists>s < int i. int l - 1 \<le> s \<and> (s1 = s \<and> int l \<le> s \<or> s = int l - 1 \<and> s1 = s0) \<and>
         (\<forall>p q. l \<le> p \<longrightarrow> p < q \<longrightarrow> q \<le> i \<longrightarrow> s < int q \<longrightarrow> ys ! p \<le> ys ! q))"
  have "?P r (fold (\<lambda>i (a, s). if a ! i > a ! (i + 1) then (swap a i (i + 1), int i) else (a, s)) [l..<r] (xs, s0))"
  proof (rule fold_upt_inv [where P = ?P], goal_cases)
    case 1
    show ?case using assms(1) by (auto intro!: exI [of _ "int l - 1"])
  next
    case 2
    show ?case by (rule assms(2))
  next
    case (3 i st)
    obtain ys s1 where st: "st = (ys, s1)" by fastforce
    from 3(3) obtain s where inv: "mset ys = mset xs" "unordered_within (int l) (int r) ys" "s < int i" "int l - 1 \<le> s"
      "s1 = s \<and> int l \<le> s \<or> s = int l - 1 \<and> s1 = s0"
      and ord: "\<And>p q. l \<le> p \<Longrightarrow> p < q \<Longrightarrow> q \<le> i \<Longrightarrow> s < int q \<Longrightarrow> ys ! p \<le> ys ! q"
      by (auto simp: st)
    have len: "length ys = length xs" using inv(1) by (metis size_mset)
    show ?case
    proof (cases "ys ! i > ys ! (i + 1)")
      case True
      have "swap ys i (i + 1) ! p \<le> swap ys i (i + 1) ! q" if "l \<le> p" "p < q" "q \<le> Suc i" "i < q" for p q
      proof (cases "p = i")
        case True
        with that \<open>ys ! i > ys ! (i + 1)\<close> 3 assms(3) len show ?thesis by (auto simp: nth_swap)
      next
        case False
        with that ord [of p i] inv(3) 3 assms(3) len show ?thesis by (auto simp: nth_swap)
      qed
      moreover have "unordered_within (int l) (int r) (swap ys i (i + 1))"
        using unordered_within_swap [OF inv(2), of i] 3 assms(3) len by simp
      ultimately show ?thesis using True inv(1) 3 assms(3) len by (auto simp: st intro!: exI [of _ "int i"])
    next
      case False
      have "ys ! p \<le> ys ! q" if "l \<le> p" "p < q" "q \<le> Suc i" "s < int q" for p q
      proof (cases "q = Suc i")
        case True
        with that False ord [of p i] inv(3) show ?thesis by (cases "p = i") auto
      qed (use that ord in auto)
      with False inv show ?thesis by (auto simp: st intro!: exI [of _ s])
    qed
  qed
  then obtain s where s: "mset ys = mset xs" "unordered_within (int l) (int r) ys" "s < int r" "int l - 1 \<le> s"
      "s1 = s \<and> int l \<le> s \<or> s = int l - 1 \<and> s1 = s0"
      and ord: "\<And>p q. l \<le> p \<Longrightarrow> p < q \<Longrightarrow> q \<le> r \<Longrightarrow> s < int q \<Longrightarrow> ys ! p \<le> ys ! q"
    using assms(4) by (auto simp: shake_up_latest_def)
  have "unordered_within (int l) s ys"
    unfolding unordered_within_def
  proof (intro allI impI)
    fix p q assume "p < q" "q < length ys" "\<not> (int l \<le> int p \<and> int q \<le> s)"
    then show "ys ! p \<le> ys ! q"
      using ord [of p q] unordered_withinD [OF s(2), of p q] by (cases "l \<le> p \<and> q \<le> r") auto
  qed
  with s show ?thesis by blast
qed

lemma shake_down_latest_correct:
  assumes "unordered_within (int l) (int r) xs" "l \<le> r" "r < length xs" "shake_down_latest xs (int l) (int r) s0 = (ys, s1)"
  shows "mset ys = mset xs \<and>
    (\<exists>s > int l. s \<le> int r + 1 \<and> unordered_within s (int r) ys \<and> (s1 = s \<and> s \<le> int r \<or> s = int r + 1 \<and> s1 = s0))"
proof -
  let ?P = "\<lambda>i (ys, s1). mset ys = mset xs \<and> unordered_within (int l) (int r) ys \<and>
      (\<exists>s \<ge> int i. s \<le> int r + 1 \<and> (s1 = s \<and> s \<le> int r \<or> s = int r + 1 \<and> s1 = s0) \<and>
         (\<forall>p q. i \<le> Suc p \<longrightarrow> p < q \<longrightarrow> q \<le> r \<longrightarrow> int p < s \<longrightarrow> ys ! p \<le> ys ! q))"
  have "?P (l + 1) (fold (\<lambda>i (a, s). if a ! (i - 1) > a ! i then (swap a (i - 1) i, int i) else (a, s)) (rev [l + 1..<r + 1]) (xs, s0))"
  proof (rule fold_upt_rev_inv [where P = ?P], goal_cases)
    case 1
    show ?case using assms(1) by (auto intro!: exI [of _ "int r + 1"])
  next
    case 2
    show ?case using assms(2) by simp
  next
    case (3 k st)
    then obtain i where k: "k = Suc i" by (cases k) auto
    obtain ys s1 where st: "st = (ys, s1)" by fastforce
    obtain s where inv: "mset ys = mset xs" "unordered_within (int l) (int r) ys" "int (Suc k) \<le> s" "s \<le> int r + 1"
      "s1 = s \<and> s \<le> int r \<or> s = int r + 1 \<and> s1 = s0"
      and ord: "\<And>p q. Suc k \<le> Suc p \<Longrightarrow> p < q \<Longrightarrow> q \<le> r \<Longrightarrow> int p < s \<Longrightarrow> ys ! p \<le> ys ! q"
      using 3(3) unfolding st prod.case by blast
    have len: "length ys = length xs" using inv(1) by (metis size_mset)
    have i: "l \<le> i" "Suc i \<le> r" using 3 k by simp_all
    show ?case
    proof (cases "ys ! i > ys ! Suc i")
      case True
      have "swap ys i (Suc i) ! p \<le> swap ys i (Suc i) ! q" if "i \<le> p" "p < q" "q \<le> r" "p < Suc i" for p q
      proof (cases "q = Suc i")
        case True
        with that \<open>ys ! i > ys ! Suc i\<close> i assms(3) len show ?thesis by (simp add: nth_swap)
      next
        case False
        with that ord [of "Suc i" q] inv(3) i k assms(3) len show ?thesis by (simp add: nth_swap)
      qed
      moreover have "unordered_within (int l) (int r) (swap ys i (Suc i))"
        using unordered_within_swap [OF inv(2), of i] i assms(3) len by simp
      ultimately show ?thesis
        using True inv(1) i assms(3) len by (auto simp: st k intro!: exI [of _ "int (Suc i)"])
    next
      case False
      have "ys ! p \<le> ys ! q" if "i \<le> p" "p < q" "q \<le> r" "int p < s" for p q
      proof (cases "p = i")
        case True
        with that False ord [of "Suc i" q] inv(3) k show ?thesis by (cases "q = Suc i") auto
      qed (use that ord k in auto)
      with False inv show ?thesis by (auto simp: st k intro!: exI [of _ s])
    qed
  qed
  moreover have "nat (int k + 1) = k + 1" for k by simp
  ultimately have "?P (l + 1) (ys, s1)" using assms(4) unfolding shake_down_latest_def by simp
  then obtain s where s: "mset ys = mset xs" "unordered_within (int l) (int r) ys" "int (l + 1) \<le> s" "s \<le> int r + 1"
      "s1 = s \<and> s \<le> int r \<or> s = int r + 1 \<and> s1 = s0"
      and ord: "\<And>p q. l + 1 \<le> Suc p \<Longrightarrow> p < q \<Longrightarrow> q \<le> r \<Longrightarrow> int p < s \<Longrightarrow> ys ! p \<le> ys ! q"
    unfolding prod.case by blast
  have "unordered_within s (int r) ys"
    unfolding unordered_within_def
  proof (intro allI impI)
    fix p q assume "p < q" "q < length ys" "\<not> (s \<le> int p \<and> int q \<le> int r)"
    then show "ys ! p \<le> ys ! q"
      using ord [of p q] unordered_withinD [OF s(2), of p q] by (cases "l \<le> p \<and> q \<le> r") auto
  qed
  moreover have "int l < s" using s(3) by simp
  ultimately show ?thesis using s by blast
qed

lemma fold_fst:
  assumes "\<And>i a s. fst (g i (a, s)) = f i a"
  shows "fst (fold g is (a, s)) = fold f is a"
proof (induction "is" arbitrary: a s)
  case (Cons i "is")
  then show ?case using assms [of i a s] by (cases "g i (a, s)") auto
qed simp

lemma shake_fst:
  "shake_up arr left right = fst (shake_up_latest arr left right s)"
  "shake_down arr left right = fst (shake_down_latest arr left right s)"
  unfolding shake_up_def shake_down_def shake_up_latest_def shake_down_latest_def
  by (rule fold_fst [symmetric], simp)+

lemma shaker_loop_v1_correct:
  assumes "unordered_within (int l) (int r) xs" "l \<le> r" "r < length xs"
  shows "sorted (shaker_loop_v1 xs (int l) (int r)) \<and> mset (shaker_loop_v1 xs (int l) (int r)) = mset xs"
  using assms
proof (induction "r - l" arbitrary: l r xs rule: less_induct)
  case less
  let ?ys = "shake_up xs (int l) (int r)" let ?zs = "shake_down ?ys (int l) (int r - 1)"
  obtain s0 s1 where "shake_up_latest xs (int l) (int r) s0 = (?ys, s1)" using shake_fst(1) by (metis prod.collapse)
  from shake_up_latest_correct [OF less.prems this]
  have ys: "mset ?ys = mset xs" "unordered_within (int l) (int r - 1) ?ys" by (auto intro: unordered_within_wider)
  then have len: "length ?ys = length xs" by (metis size_mset)
  have loop: "shaker_loop_v1 xs (int l) (int r) =
      (if int l + 1 < int r - 1 then shaker_loop_v1 ?zs (int (Suc l)) (int (r - 1)) else ?zs)"
    using less.prems(2) by (subst shaker_loop_v1.simps) (simp add: Let_def of_nat_diff ac_simps)
  show ?case
  proof (cases "l = r")
    case True
    then have "?zs = ?ys" by (simp add: shake_down_def)
    with ys unordered_within_sorted [OF ys(2)] loop True show ?thesis by simp
  next
    case False
    then have r: "int r - 1 = int (r - 1)" "l \<le> r - 1" "r - 1 < length ?ys" using less.prems len by auto
    obtain t0 t1 where "shake_down_latest ?ys (int l) (int (r - 1)) t0 = (?zs, t1)" using shake_fst(2) r(1) by (metis prod.collapse)
    from shake_down_latest_correct [OF ys(2) [unfolded r(1)] r(2,3) this]
    have zs: "mset ?zs = mset xs" "unordered_within (int (Suc l)) (int (r - 1)) ?zs"
      using ys(1) by (auto intro: unordered_within_wider)
    show ?thesis
    proof (cases "int l + 1 < int r - 1")
      case True
      have "length ?zs = length xs" using zs(1) by (metis size_mset)
      have "sorted (shaker_loop_v1 ?zs (int (Suc l)) (int (r - 1))) \<and>
          mset (shaker_loop_v1 ?zs (int (Suc l)) (int (r - 1))) = mset ?zs"
        by (rule less.hyps) (use True zs(2) \<open>length ?zs = length xs\<close> less.prems in auto)
      with zs(1) True show ?thesis unfolding loop by (simp only: if_True simp_thms)
    next
      case False
      then have "int (r - 1) \<le> int (Suc l)" using r(1) by linarith
      with unordered_within_sorted [OF zs(2)] have "sorted ?zs" by blast
      with zs(1) False show ?thesis unfolding loop by (simp only: if_False simp_thms)
    qed
  qed
qed

lemma shaker_loop_v2_correct:
  assumes "unordered_within (int l) (int r) xs" "l \<le> r" "r < length xs" "int l \<le> s0" "s0 \<le> int r"
  shows "\<exists>ys. shaker_loop_v2 xs (int l) (int r) s0 = Some ys \<and> sorted ys \<and> mset ys = mset xs"
  using assms
proof (induction "r - l" arbitrary: l r xs s0 rule: less_induct)
  case less
  obtain ys s1 where up: "shake_up_latest xs (int l) (int r) s0 = (ys, s1)" by fastforce
  from shake_up_latest_correct [OF less.prems(1-3) up] obtain s where
    s: "mset ys = mset xs" "s < int r" "int l - 1 \<le> s" "unordered_within (int l) s ys"
      "s1 = s \<and> int l \<le> s \<or> s = int l - 1 \<and> s1 = s0" by blast
  define r1 where "r1 = nat s1"
  have r1: "s1 = int r1" "l \<le> r1" "r1 \<le> r" "r1 < length ys" "unordered_within (int l) (int r1) ys"
    using s less.prems mset_eq_length [OF s(1)] unordered_within_wider [OF s(4), of "int l" s1] by (auto simp: r1_def)
  obtain zs s2 where down: "shake_down_latest ys (int l) (int r1) s1 = (zs, s2)" by fastforce
  from shake_down_latest_correct [OF r1(5,2,4) down] obtain t where
    t: "mset zs = mset ys" "int l < t" "t \<le> int r1 + 1" "unordered_within t (int r1) zs"
      "s2 = t \<and> t \<le> int r1 \<or> t = int r1 + 1 \<and> s2 = s1" by blast
  have step: "shaker_loop_v2 xs (int l) (int r) s0 = (if s2 < s1 then shaker_loop_v2 zs s2 s1 s2 else Some zs)"
    using up down r1(1) by (subst shaker_loop_v2.simps) (simp add: Let_def)
  show ?case
  proof (cases "s2 < s1")
    case True
    with t(5) r1(1) have "s2 = t" by auto
    define l1 where "l1 = nat t"
    have l1: "t = int l1" "l < l1" "l1 < r1" using t(2) True r1(1) \<open>s2 = t\<close> by (auto simp: l1_def)
    have "\<exists>us. shaker_loop_v2 zs (int l1) (int r1) (int l1) = Some us \<and> sorted us \<and> mset us = mset zs"
      by (rule less.hyps) (use t(4) l1 r1(2-4) mset_eq_length [OF t(1)] in auto)
    with step True s(1) t(1) l1(1) r1(1) \<open>s2 = t\<close> show ?thesis by auto
  next
    case False
    have "sorted zs"
      by (rule unordered_within_sorted [OF t(4)]) (use t(5) False r1(1) in auto)
    with step False s(1) t(1) show ?thesis by simp
  qed
qed

section \<open>Shell sort\<close>

lemma shell_inner_mset: "j < length arr \<Longrightarrow> mset (shell_inner d j arr) = mset arr"
proof (induction d j arr rule: shell_inner.induct)
  case (1 d j arr)
  then show ?case by (subst shell_inner.simps) (auto simp: mset_swap_cells)
qed

lemma shell_pass_mset: "mset (fold (shell_inner d) [d..<length arr] arr) = mset arr"
proof (cases "d \<le> length arr")
  case True
  show ?thesis
    by (rule fold_upt_inv [where P = "\<lambda>_ a. mset a = mset arr", OF _ True])
       (simp_all, metis shell_inner_mset size_mset)
qed simp

text \<open>With \<open>d = 1\<close> the inner loop inserts the cell \<open>j\<close> into the ordered cells below it.\<close>

lemma shell_inner_one:
  assumes "k < length arr" "j \<le> k" "\<And>p q. p < q \<Longrightarrow> q \<le> k \<Longrightarrow> q \<noteq> j \<Longrightarrow> arr ! p \<le> arr ! q"
  shows "\<forall>p q. p < q \<longrightarrow> q \<le> k \<longrightarrow> shell_inner 1 j arr ! p \<le> shell_inner 1 j arr ! q"
  using assms
proof (induction j arbitrary: arr)
  case 0
  then show ?case by (subst (1 2) shell_inner.simps) auto
next
  case (Suc j)
  let ?b = "if arr ! Suc j < arr ! j then swap arr (Suc j) j else arr"
  have "shell_inner 1 (Suc j) arr = shell_inner 1 j ?b" by (subst shell_inner.simps) simp
  moreover have "?b ! p \<le> ?b ! q" if "p < q" "q \<le> k" "q \<noteq> j" for p q
  proof (cases "arr ! Suc j < arr ! j")
    case True
    have nth: "?b ! m = (if m = Suc j then arr ! j else if m = j then arr ! Suc j else arr ! m)" if "m \<le> k" for m
      using that True Suc.prems(1,2) by (auto simp: nth_swap)
    have "arr ! p' \<le> arr ! q'" if "p' < q'" "q' \<le> k" "q' \<noteq> Suc j" for p' q' using Suc.prems(3) that by blast
    then show ?thesis using that True Suc.prems(2) nth [of p] nth [of q] by (auto simp: less_Suc_eq)
  next
    case False
    show ?thesis
    proof (cases "q = Suc j")
      case True
      show ?thesis
      proof (cases "p = j")
        case False
        have "arr ! p \<le> arr ! j" using Suc.prems(2) Suc.prems(3) [of p j] False that True by simp
        with \<open>\<not> arr ! Suc j < arr ! j\<close> True show ?thesis by simp
      qed (use \<open>\<not> arr ! Suc j < arr ! j\<close> True in simp)
    qed (use Suc.prems(3) that \<open>\<not> arr ! Suc j < arr ! j\<close> in simp)
  qed
  ultimately show ?case using Suc.IH [of ?b] Suc.prems(1,2) by simp
qed

lemma shell_pass_one: "sorted (fold (shell_inner 1) [1..<length arr] arr)"
proof (cases "1 \<le> length arr")
  case True
  let ?P = "\<lambda>i a. mset a = mset arr \<and> (\<forall>p q. p < q \<longrightarrow> q < i \<longrightarrow> a ! p \<le> a ! q)"
  have "?P (length arr) (fold (shell_inner 1) [1..<length arr] arr)"
  proof (rule fold_upt_inv [where P = ?P, OF _ True], goal_cases)
    case 1
    show ?case by simp
  next
    case (2 i a)
    have len: "length a = length arr" using 2(3) by (metis size_mset)
    then have "mset (shell_inner 1 i a) = mset arr" using 2 shell_inner_mset [of i a 1] by simp
    moreover have "\<forall>p q. p < q \<longrightarrow> q \<le> i \<longrightarrow> shell_inner 1 i a ! p \<le> shell_inner 1 i a ! q"
      by (rule shell_inner_one) (use 2 len in auto)
    ultimately show ?case by (simp add: less_Suc_eq_le)
  qed
  then show ?thesis by (auto simp: sorted_iff_nth_mono_less dest: mset_eq_length)
qed (cases arr; simp)

lemma shell_loop_correct:
  "mset (shell_loop d arr) = mset arr \<and> (0 < d \<or> sorted arr \<longrightarrow> sorted (shell_loop d arr))"
proof (induction d arr rule: shell_loop.induct)
  case (1 d arr)
  show ?case
  proof (cases "0 < d")
    case True
    have "0 < d div 2 \<or> sorted (fold (shell_inner d) [d..<length arr] arr)"
    proof (cases "d = 1")
      case True
      then show ?thesis using shell_pass_one by simp
    qed (use True in \<open>simp add: div_greater_zero_iff\<close>)
    moreover have "shell_loop d arr = shell_loop (d div 2) (fold (shell_inner d) [d..<length arr] arr)"
      using True by (subst shell_loop.simps) simp
    ultimately show ?thesis using 1 [OF True] shell_pass_mset [of d arr] by simp
  next
    case False
    then show ?thesis by (subst (1 2) shell_loop.simps) simp
  qed
qed

text \<open>
  Both shaker sorts and the shell sort return the input's elements in ascending order; the second shaker sort,
  whose loop depends on the position of the latest exchange, always ends.
\<close>

theorem shaker_and_shell_sorts_correct:
  "sorted (shaker_sort_v1 arr) \<and> mset (shaker_sort_v1 arr) = mset arr \<and>
   (\<exists>brr. shaker_sort_v2 arr = Some brr \<and> sorted brr \<and> mset brr = mset arr) \<and>
   sorted (shell_sort arr) \<and> mset (shell_sort arr) = mset arr"
proof -
  have shell: "sorted (shell_sort arr) \<and> mset (shell_sort arr) = mset arr"
  proof (cases "length arr \<le> 1")
    case True
    then have "sorted arr" by (cases arr) auto
    then show ?thesis using shell_loop_correct [of "length arr div 2" arr] by (simp add: shell_sort_def)
  next
    case False
    then show ?thesis using shell_loop_correct [of "length arr div 2" arr] by (simp add: shell_sort_def div_greater_zero_iff)
  qed
  show ?thesis
  proof (cases "arr = []")
    case True
    have "shaker_sort_v1 arr = []" "shaker_sort_v2 arr = Some []"
      unfolding shaker_sort_v1_def shaker_sort_v2_def True
      by (subst shaker_loop_v1.simps, simp add: shake_up_def shake_down_def)
         (subst shaker_loop_v2.simps, simp add: shake_up_latest_def shake_down_latest_def)
    with shell True show ?thesis by simp
  next
    case False
    define r where "r = length arr - 1"
    have r: "int (length arr) - 1 = int r" "r < length arr" using False by (cases arr; simp add: r_def)+
    have "unordered_within (int 0) (int r) arr" using unordered_within_all [of arr] r(1) by simp
    then show ?thesis
      using shell shaker_loop_v1_correct [of 0 r arr] shaker_loop_v2_correct [of 0 r arr "int r"] r
      by (simp add: shaker_sort_v1_def shaker_sort_v2_def)
  qed
qed

end
