(* ===== verification/Heap_Order.thy ===== *)
theory Heap_Order
  imports Prelude
begin

text \<open>
  The implicit binary tree of an array (children of \<open>i\<close> at \<open>2 * i + 1\<close> and \<open>2 * i + 2\<close>) and
  the heap order on it, shared by \<open>HeapSort\<close> and \<open>BinaryHeap\<close>. \<open>heap_from\<close> is the heap order on
  the edges whose parent is at least \<open>lo\<close>; \<open>heap_but\<close> exempts the edges below one node \<open>h\<close>, which
  is the state between two rounds of sifting down, and \<open>heap_up\<close> exempts the edge above \<open>h\<close>,
  which is the state between two rounds of sifting up.
\<close>

definition par :: "nat \<Rightarrow> nat" where
  "par i = (i - 1) div 2"

lemma par_iff: "0 < i \<Longrightarrow> par i = h \<longleftrightarrow> i = 2 * h + 1 \<or> i = 2 * h + 2"
  unfolding par_def by presburger

lemma par_children [simp]:
  "par (2 * i + 1) = i" "par (2 * i + 2) = i" "par (Suc (2 * i)) = i" "par (Suc (Suc (2 * i))) = i"
  by (auto simp: par_def)

lemma par_less: "0 < i \<Longrightarrow> par i < i"
  by (auto simp: par_def)

lemma par_le [simp]: "par i \<le> i"
  by (auto simp: par_def)

definition heap_from :: "('a \<Rightarrow> 'a \<Rightarrow> bool) \<Rightarrow> nat \<Rightarrow> nat \<Rightarrow> 'a list \<Rightarrow> bool" where
  "heap_from cmp lo n xs \<longleftrightarrow>
     (\<forall>i. 0 < i \<longrightarrow> i < n \<longrightarrow> lo \<le> par i \<longrightarrow> \<not> cmp (xs ! i) (xs ! par i))"

definition heap_but :: "('a \<Rightarrow> 'a \<Rightarrow> bool) \<Rightarrow> nat \<Rightarrow> nat \<Rightarrow> nat \<Rightarrow> 'a list \<Rightarrow> bool" where
  "heap_but cmp lo n h xs \<longleftrightarrow>
     (\<forall>i. 0 < i \<longrightarrow> i < n \<longrightarrow> lo \<le> par i \<longrightarrow> par i \<noteq> h \<longrightarrow> \<not> cmp (xs ! i) (xs ! par i)) \<and>
     (\<forall>i. 0 < i \<longrightarrow> i < n \<longrightarrow> par i = h \<longrightarrow> 0 < h \<longrightarrow> lo \<le> par h \<longrightarrow> \<not> cmp (xs ! i) (xs ! par h))"

definition heap_up :: "('a \<Rightarrow> 'a \<Rightarrow> bool) \<Rightarrow> nat \<Rightarrow> nat \<Rightarrow> 'a list \<Rightarrow> bool" where
  "heap_up cmp n h xs \<longleftrightarrow>
     (\<forall>i. 0 < i \<longrightarrow> i < n \<longrightarrow> i \<noteq> h \<longrightarrow> \<not> cmp (xs ! i) (xs ! par i)) \<and>
     (\<forall>i. 0 < i \<longrightarrow> i < n \<longrightarrow> par i = h \<longrightarrow> 0 < h \<longrightarrow> \<not> cmp (xs ! i) (xs ! par h))"

lemma heap_fromD:
  "heap_from cmp lo n xs \<Longrightarrow> 0 < i \<Longrightarrow> i < n \<Longrightarrow> lo \<le> par i \<Longrightarrow> \<not> cmp (xs ! i) (xs ! par i)"
  by (simp add: heap_from_def)

lemma heap_from_Suc_but: "heap_from cmp (Suc lo) n xs \<Longrightarrow> heap_but cmp lo n lo xs"
  unfolding heap_from_def heap_but_def using par_less
  by (metis Suc_leI leD le_neq_implies_less)

lemma heap_from_leaves: "n \<le> 2 * lo + 1 \<Longrightarrow> heap_from cmp lo n xs"
  by (auto simp: heap_from_def par_def)

lemma heap_from_mono: "heap_from cmp lo n xs \<Longrightarrow> m \<le> n \<Longrightarrow> heap_from cmp lo m xs"
  by (simp add: heap_from_def)

lemma heap_but_stop:
  assumes "heap_but cmp lo n h xs"
    and "\<And>d. 0 < d \<Longrightarrow> d < n \<Longrightarrow> par d = h \<Longrightarrow> \<not> cmp (xs ! d) (xs ! h)"
  shows "heap_from cmp lo n xs"
  using assms unfolding heap_but_def heap_from_def by blast

context comparator
begin

text \<open>One round of sifting down: the child \<open>c\<close> that goes up bounds its sibling and its parent.\<close>

lemma heap_but_swap:
  assumes but: "heap_but cmp lo n h xs" and c: "0 < c" "c < n" "par c = h" and n: "n \<le> length xs"
    and lo: "lo \<le> h"
    and sib: "\<And>d. 0 < d \<Longrightarrow> d < n \<Longrightarrow> par d = h \<Longrightarrow> \<not> cmp (xs ! d) (xs ! c)"
    and top: "\<not> cmp (xs ! h) (xs ! c)"
  shows "heap_but cmp lo n c (swap xs h c)"
proof -
  let ?ys = "swap xs h c"
  have hc: "h < c" using c par_less by blast
  have nth: "?ys ! k = (if k = h then xs ! c else if k = c then xs ! h else xs ! k)" if "k < n" for k
    using that c hc n by (simp add: nth_swap)
  have keep: "\<not> cmp (xs ! i) (xs ! par i)" if "0 < i" "i < n" "lo \<le> par i" "par i \<noteq> h" for i
    using but that by (simp add: heap_but_def)
  have grand: "\<not> cmp (xs ! c) (xs ! par h)" if "0 < h" "lo \<le> par h"
    using but that c by (simp add: heap_but_def)
  have "\<not> cmp (?ys ! i) (?ys ! par i)" if i: "0 < i" "i < n" "lo \<le> par i" "par i \<noteq> c" for i
  proof -
    have pn: "par i < n" using i par_le le_less_trans by blast
    have pi: "par i \<noteq> i" using i par_less by (metis less_irrefl)
    show ?thesis
    proof (cases "par i = h")
      case True
      with nth [OF i(2)] nth [OF pn] pi show ?thesis
        using sib [OF i(1,2) True] top by (cases "i = c") simp_all
    next
      case False
      then have "i \<noteq> c" "?ys ! par i = xs ! par i" using c nth [OF pn] i by auto
      with nth [OF i(2)] show ?thesis
        using keep [OF i(1-3) False] grand i by (cases "i = h") simp_all
    qed
  qed
  moreover have "\<not> cmp (?ys ! i) (?ys ! par c)" if i: "0 < i" "i < n" "par i = c" for i
  proof -
    have "c < i" using i par_less by blast
    then show ?thesis
      using nth [OF i(2)] nth [of h] keep [OF i(1,2)] i c hc lo by simp
  qed
  ultimately show ?thesis by (simp add: heap_but_def)
qed

text \<open>One round of sifting up.\<close>

lemma heap_up_swap:
  assumes up: "heap_up cmp n h xs" and h: "0 < h" "h < n" and n: "n \<le> length xs"
    and less: "cmp (xs ! h) (xs ! par h)"
  shows "heap_up cmp n (par h) (swap xs (par h) h)"
proof -
  let ?p = "par h" and ?ys = "swap xs (par h) h"
  have ph: "?p < h" using h par_less by blast
  have nth: "?ys ! k = (if k = ?p then xs ! h else if k = h then xs ! ?p else xs ! k)" if "k < n" for k
    using that ph h n by (simp add: nth_swap)
  have keep: "\<not> cmp (xs ! i) (xs ! par i)" if "0 < i" "i < n" "i \<noteq> h" for i
    using up that by (simp add: heap_up_def)
  have "\<not> cmp (?ys ! i) (?ys ! par i)" if i: "0 < i" "i < n" "i \<noteq> ?p" for i
  proof -
    have pn: "par i < n" using i par_le le_less_trans by blast
    show ?thesis
    proof (cases "i = h")
      case True
      then show ?thesis using nth [OF h(2)] nth [of ?p] ph h less asym by auto
    next
      case False
      have "\<not> cmp (xs ! i) (xs ! ?p)" if "par i = h"
        using up that i h by (simp add: heap_up_def)
      moreover have "\<not> cmp (xs ! i) (xs ! h)" if "par i = ?p"
        using keep [OF i(1,2) False] that less cmp_less_le_trans trans by metis
      moreover have "?ys ! i = xs ! i" using nth [OF i(2)] i False by simp
      ultimately show ?thesis
        using nth [OF pn] keep [OF i(1,2) False] by (auto split: if_splits)
    qed
  qed
  moreover have "\<not> cmp (?ys ! i) (?ys ! par ?p)" if i: "0 < i" "i < n" "par i = ?p" "0 < ?p" for i
  proof -
    have pp: "par ?p < ?p" using i par_less by blast
    have p: "\<not> cmp (xs ! ?p) (xs ! par ?p)" using keep [of ?p] i ph h by auto
    have "\<not> cmp (xs ! i) (xs ! ?p)" if "i \<noteq> h" using keep i that by metis
    moreover have "i \<noteq> ?p" using i par_less by (metis less_irrefl)
    moreover have "?ys ! par ?p = xs ! par ?p" using nth [of "par ?p"] pp ph h by simp
    ultimately show ?thesis
      using nth [OF i(2)] p cmp_le_trans by (cases "i = h") auto
  qed
  ultimately show ?thesis by (simp add: heap_up_def)
qed

lemma heap_up_stop:
  assumes "heap_up cmp n h xs" and "0 < h \<Longrightarrow> h < n \<Longrightarrow> \<not> cmp (xs ! h) (xs ! par h)"
  shows "heap_from cmp 0 n xs"
  using assms by (auto simp: heap_up_def heap_from_def)

text \<open>The root of a heap is a first element.\<close>

lemma heap_root_first:
  assumes "heap_from cmp 0 n xs" "i < n"
  shows "\<not> cmp (xs ! i) (xs ! 0)"
  using assms(2)
proof (induction i rule: less_induct)
  case (less i)
  show ?case
  proof (cases "i = 0")
    case False
    then have "\<not> cmp (xs ! par i) (xs ! 0)" "\<not> cmp (xs ! i) (xs ! par i)"
      using less par_less heap_fromD [OF assms(1)] by (auto intro: less.IH less_trans)
    then show ?thesis using cmp_le_trans by blast
  qed (simp add: irrefl)
qed

end

end
