(* ===== verification/Sort_Heap.thy ===== *)
theory Sort_Heap
  imports Heap_Order
begin

text \<open>
  \<open>HeapSort\<close> of \<open>algorithm/heap_sort.hpp\<close>: \<open>heapify_at\<close> is the recursive overload
  \<open>Heapify(arr, size, root)\<close>, \<open>heapify\<close> the overload that builds the heap, \<open>heap_sort\<close>
  \<open>SortingTree::Sort\<close>. The \<open>int\<close> indices of the code are never negative where they index the
  array (the descending loops stop at 0), so they are \<open>nat\<close> here; arrays are shorter than
  \<open>INT_MAX / 2\<close> elements, so \<open>2 * root + 2\<close> does not overflow.
\<close>

definition heapify_child :: "'a::linorder list \<Rightarrow> nat \<Rightarrow> nat \<Rightarrow> nat" where
  "heapify_child arr sz root =
     (let left = 2 * root + 1;
          right = 2 * root + 2;
          largest = (if left < sz \<and> arr ! left > arr ! root then left else root)
      in if right < sz \<and> arr ! right > arr ! largest then right else largest)"

lemma heapify_child_cases:
  "heapify_child arr sz root \<noteq> root \<Longrightarrow>
     heapify_child arr sz root < sz \<and> root < heapify_child arr sz root \<and>
     par (heapify_child arr sz root) = root"
  by (auto simp: heapify_child_def Let_def split: if_splits)

function heapify_at :: "'a::linorder list \<Rightarrow> nat \<Rightarrow> nat \<Rightarrow> 'a list" where
  "heapify_at arr sz root =
     (let largest = heapify_child arr sz root
      in if largest \<noteq> root then heapify_at (swap arr root largest) sz largest else arr)"
  by pat_completeness auto
termination
  by (relation "measure (\<lambda>(arr, sz, root). sz - root)") (use heapify_child_cases in fastforce)+

declare heapify_at.simps [simp del]

definition heapify :: "'a::linorder list \<Rightarrow> 'a list" where
  "heapify arr = fold (\<lambda>i a. heapify_at a (length a) i) (rev [0..<length arr div 2]) arr"

definition heap_sort :: "'a::linorder list \<Rightarrow> 'a list" where
  "heap_sort arr =
     (let arr1 = heapify arr
      in fold (\<lambda>i a. heapify_at (swap a 0 i) i 0) (rev [0..<length arr1]) arr1)"

section \<open>Sifting down\<close>

lemma heapify_child_max:
  fixes arr :: "'a::linorder list"
  assumes "0 < d" "d < sz" "par d = root"
  shows "\<not> std_greater (arr ! d) (arr ! heapify_child arr sz root)"
  using assms unfolding par_iff [OF assms(1)]
  by (auto simp: heapify_child_def Let_def std_greater_def)

lemma heapify_child_root:
  fixes arr :: "'a::linorder list"
  shows "\<not> std_greater (arr ! root) (arr ! heapify_child arr sz root)"
  by (auto simp: heapify_child_def Let_def std_greater_def)

lemma heapify_at_frame:
  fixes arr :: "'a::linorder list"
  assumes "sz \<le> length arr"
  shows "mset (heapify_at arr sz root) = mset arr \<and>
     length (heapify_at arr sz root) = length arr \<and>
     (\<forall>k \<ge> sz. heapify_at arr sz root ! k = arr ! k)"
  using assms
proof (induction arr sz root rule: heapify_at.induct)
  case (1 arr sz root)
  let ?l = "heapify_child arr sz root"
  show ?case
  proof (cases "?l = root")
    case True
    then show ?thesis by (subst (1 2 3) heapify_at.simps) (simp add: Let_def)
  next
    case False
    note l = heapify_child_cases [OF False]
    have step: "heapify_at arr sz root = heapify_at (swap arr root ?l) sz ?l"
      using False by (subst heapify_at.simps) (simp add: Let_def)
    have "sz \<le> length (swap arr root ?l)" using "1.prems" by simp
    from "1.IH" [OF refl False this] show ?thesis
      using l "1.prems" unfolding step by auto
  qed
qed

lemma heapify_at_heap:
  fixes arr :: "'a::linorder list"
  assumes "sz \<le> length arr" "lo \<le> root" "heap_but std_greater lo sz root arr"
  shows "heap_from std_greater lo sz (heapify_at arr sz root)"
  using assms
proof (induction arr sz root rule: heapify_at.induct)
  case (1 arr sz root)
  let ?l = "heapify_child arr sz root"
  show ?case
  proof (cases "?l = root")
    case True
    have "heap_from std_greater lo sz arr"
      by (rule heap_but_stop [OF "1.prems"(3)]) (use heapify_child_max True in metis)
    then show ?thesis using True by (subst heapify_at.simps) (simp add: Let_def)
  next
    case False
    note l = heapify_child_cases [OF False]
    have "heap_but std_greater lo sz ?l (swap arr root ?l)"
      by (rule greater.heap_but_swap)
         (use l "1.prems" heapify_child_max in \<open>auto simp: heapify_child_root\<close>)
    then show ?thesis
      using "1.IH" [OF refl False] "1.prems" l False
      by (subst heapify_at.simps) (simp add: Let_def)
  qed
qed

lemma heapify_inv:
  fixes arr :: "'a::linorder list"
  shows "mset (heapify arr) = mset arr \<and> length (heapify arr) = length arr \<and>
     heap_from std_greater 0 (length arr) (heapify arr)"
proof -
  let ?P = "\<lambda>i a. mset a = mset arr \<and> length a = length arr \<and> heap_from std_greater i (length arr) a"
  have "?P 0 (heapify arr)"
    unfolding heapify_def
  proof (rule fold_upt_rev_inv [where P = ?P], goal_cases)
    case 1
    show ?case by (auto intro: heap_from_leaves)
  next
    case (3 i a)
    then show ?case
      using heapify_at_frame [of "length a" a i] heapify_at_heap [of "length a" a i i]
      by (auto intro: heap_from_Suc_but)
  qed simp
  then show ?thesis .
qed

section \<open>The selection phase\<close>

text \<open>
  Before round \<open>i\<close> the cells below \<open>n = i + 1\<close> are a heap, the others are sorted and not
  less than any of them.
\<close>

definition heap_sort_phase :: "nat \<Rightarrow> 'a::linorder list \<Rightarrow> bool" where
  "heap_sort_phase n a \<longleftrightarrow> n \<le> length a \<and> heap_from std_greater 0 n a \<and>
     sorted_seg std_less n (length a) a \<and>
     (\<forall>p q. p < n \<longrightarrow> n \<le> q \<longrightarrow> q < length a \<longrightarrow> a ! p \<le> a ! q)"

lemma heap_sort_round:
  fixes a :: "'a::linorder list"
  assumes "heap_sort_phase (Suc i) a"
  shows "heap_sort_phase i (heapify_at (swap a 0 i) i 0)"
proof -
  let ?b = "swap a 0 i" and ?c = "heapify_at (swap a 0 i) i 0"
  have i: "i < length a" "a \<noteq> []" and heap: "heap_from std_greater 0 (Suc i) a"
    using assms by (auto simp: heap_sort_phase_def)
  have root: "a ! k \<le> a ! 0" if "k < Suc i" for k
    using greater.heap_root_first [OF heap that] by (simp add: std_greater_def)
  have frame: "mset ?c = mset ?b" "length ?c = length a" "\<And>k. i \<le> k \<Longrightarrow> ?c ! k = ?b ! k"
    using heapify_at_frame [of i ?b 0] i by auto
  have above: "?c ! k = (if k = i then a ! 0 else a ! k)" if "i \<le> k" "k < length a" for k
    using frame(3) [OF that(1)] i that by (auto simp: nth_swap)
  have prefix: "mset (take i ?c) = mset (take i ?b)"
    by (rule mset_take_eq) (use frame i in auto)
  have below: "\<exists>j \<le> i. ?c ! p = a ! j" if p: "p < i" for p
  proof -
    obtain j where "j < i" "?c ! p = ?b ! j"
      using take_mset_ex [OF prefix p] frame(2) i p by auto
    then show ?thesis using i nth_swap [of 0 a i j]
      by (cases "j = 0") (auto intro: exI [of _ i] exI [of _ j])
  qed
  have "heap_from std_greater 0 i a" using heap heap_from_mono le_SucI by blast
  moreover have "?b ! k = a ! k" if "0 < k" "k < i" for k using that by simp
  ultimately have "heap_but std_greater 0 i 0 ?b"
    unfolding heap_but_def heap_from_def
    by (metis bot_nat_0.not_eq_extremum less_trans par_less zero_le)
  then have "heap_from std_greater 0 i ?c"
    using heapify_at_heap [of i ?b 0 0] i by simp
  moreover have "?c ! p \<le> ?c ! q" if pq: "p < q" "i \<le> q" "q < length a" for p q
  proof (cases "i \<le> p")
    case True
    have "a ! (if p = i then 0 else p) \<le> a ! q"
      using assms True pq sorted_segD [of std_less "Suc i" "length a" a p q]
      by (auto simp: heap_sort_phase_def std_less_def not_less)
    then show ?thesis using above [of p] above [of q] True pq by (auto split: if_splits)
  next
    case False
    then obtain j where "j \<le> i" "?c ! p = a ! j" using below [of p] by auto
    then show ?thesis
      using above [of q] pq root [of j] assms by (auto simp: heap_sort_phase_def)
  qed
  ultimately show ?thesis
    using i frame(2) by (auto simp: heap_sort_phase_def sorted_seg_def std_less_def not_less)
qed

lemma heap_sort_inv:
  fixes arr :: "'a::linorder list"
  shows "mset (heap_sort arr) = mset arr \<and> sorted (heap_sort arr)"
proof -
  let ?P = "\<lambda>i a. mset a = mset arr \<and> length a = length arr \<and> heap_sort_phase i a"
  have "?P 0 (heap_sort arr)"
    unfolding heap_sort_def Let_def
  proof (rule fold_upt_rev_inv [where P = ?P], goal_cases)
    case 1
    show ?case using heapify_inv [of arr] by (simp add: heap_sort_phase_def)
  next
    case (3 i a)
    then have "i < length a" using heapify_inv [of arr] by simp
    then have "mset (swap a 0 i) = mset a" by (auto intro!: mset_swap_cells)
    then show ?case
      using 3 heapify_at_frame [of i "swap a 0 i" 0] heap_sort_round [of i a] by (auto simp: heap_sort_phase_def)
  qed simp
  then show ?thesis
    using sorted_seg_full [of std_less "heap_sort arr"] sorted_by_less
    by (auto simp: heap_sort_phase_def)
qed

section \<open>Properties\<close>

text \<open>
  \<open>HeapSort\<close> returns the ascending permutation of its input.
\<close>

theorem heap_sort_correct: "heap_sort arr = sort (arr :: 'a::linorder list)"
  using heap_sort_inv [of arr] by (metis properties_for_sort)

end
