(* ===== verification/Sort_Merge.thy ===== *)
theory Sort_Merge
  imports Prelude
begin

text \<open>
  \<open>MergeSort\<close> of \<open>algorithm/merge_sort.hpp\<close>. \<open>merge_halves\<close> is \<open>Merge\<close> with its copy loops, its
  main loop and its two tail loops; \<open>merge_ref\<close> is the textbook merge of two lists, the
  reference the in-place version is proved equal to. \<open>merge_sort_impl\<close> keeps the signed bounds
  of \<open>MergeSortTopDownImpl\<close> (the upper one is \<open>-1\<close> on an empty array); the sum \<open>low + high\<close> is
  assumed to fit the code's \<open>int\<close>.
\<close>

text \<open>\<open>for (; k <= high; ++k)\<close> with its break, returning the array and \<open>i\<close>, \<open>j\<close>, \<open>k\<close>.\<close>

function merge_main :: "'a::linorder list \<Rightarrow> 'a list \<Rightarrow> nat \<Rightarrow> 'a list \<Rightarrow> nat \<Rightarrow> nat \<Rightarrow> nat \<Rightarrow>
    'a list \<times> nat \<times> nat \<times> nat" where
  "merge_main L R high arr i j k =
     (if k \<le> high
      then if i = length L \<or> j = length R then (arr, i, j, k)
           else if L ! i \<le> R ! j then merge_main L R high (arr[k := L ! i]) (i + 1) j (k + 1)
           else merge_main L R high (arr[k := R ! j]) i (j + 1) (k + 1)
      else (arr, i, j, k))"
  by pat_completeness auto
termination
  by (relation "measure (\<lambda>(L, R, high, arr, i, j, k). Suc high - k)") auto

declare merge_main.simps [simp del]

text \<open>\<open>for (; i < X.size(); ++i, ++k) arr[k] = X[i];\<close>\<close>

function merge_tail :: "'a list \<Rightarrow> 'a list \<Rightarrow> nat \<Rightarrow> nat \<Rightarrow> 'a list \<times> nat \<times> nat" where
  "merge_tail X arr i k =
     (if i < length X then merge_tail X (arr[k := X ! i]) (i + 1) (k + 1) else (arr, i, k))"
  by pat_completeness auto
termination
  by (relation "measure (\<lambda>(X, arr, i, k). length X - i)") auto

declare merge_tail.simps [simp del]

definition merge_tails :: "'a list \<Rightarrow> 'a list \<Rightarrow> 'a list \<times> nat \<times> nat \<times> nat \<Rightarrow> 'a list" where
  "merge_tails L R st =
     (case st of (arr, i, j, k) \<Rightarrow>
        let (arr1, j1, k1) = (if i = length L then merge_tail R arr j k else (arr, j, k));
            (arr2, i2, k2) = (if j1 = length R then merge_tail L arr1 i k1 else (arr1, i, k1))
        in arr2)"

definition merge_halves :: "'a::linorder list \<Rightarrow> nat \<Rightarrow> nat \<Rightarrow> nat \<Rightarrow> 'a list" where
  "merge_halves arr low mid high =
     (let n1 = mid - low + 1;
          n2 = high - mid;
          L = map (\<lambda>i. arr ! (low + i)) [0..<n1];
          R = map (\<lambda>i. arr ! (mid + i + 1)) [0..<n2]
      in merge_tails L R (merge_main L R high arr 0 0 low))"

function merge_sort_impl :: "'a::linorder list \<Rightarrow> int \<Rightarrow> int \<Rightarrow> 'a list" where
  "merge_sort_impl arr low high =
     (if low < high
      then let middle = (low + high) div 2;
               arr1 = merge_sort_impl arr low middle;
               arr2 = merge_sort_impl arr1 (middle + 1) high
           in merge_halves arr2 (nat low) (nat middle) (nat high)
      else arr)"
  by pat_completeness auto
termination
  by (relation "measure (\<lambda>(arr, low, high). nat (high - low))") auto

declare merge_sort_impl.simps [simp del]

definition merge_sort :: "'a::linorder list \<Rightarrow> 'a list" where
  "merge_sort arr = merge_sort_impl arr 0 (int (length arr) - 1)"

section \<open>The reference merge\<close>

fun merge_ref :: "'a::linorder list \<Rightarrow> 'a list \<Rightarrow> 'a list" where
  "merge_ref [] ys = ys"
| "merge_ref xs [] = xs"
| "merge_ref (x # xs) (y # ys) =
     (if x \<le> y then x # merge_ref xs (y # ys) else y # merge_ref (x # xs) ys)"

lemma merge_ref_Nil2 [simp]: "merge_ref xs [] = xs"
  by (cases xs) auto

lemma mset_merge_ref [simp, mset_simps]: "mset (merge_ref xs ys) = mset xs + mset ys"
  by (induction xs ys rule: merge_ref.induct) auto

lemma length_merge_ref [simp, len_simps]: "length (merge_ref xs ys) = length xs + length ys"
  by (metis mset_merge_ref size_mset size_union)

lemma set_merge_ref: "set (merge_ref xs ys) = set xs \<union> set ys"
  by (metis mset_merge_ref set_mset_mset set_mset_union)

lemma sorted_merge_ref: "sorted xs \<Longrightarrow> sorted ys \<Longrightarrow> sorted (merge_ref xs ys)"
  by (induction xs ys rule: merge_ref.induct) (auto simp: set_merge_ref)

lemma merge_ref_sort: "merge_ref (sort xs) (sort ys) = sort (xs @ ys)"
  by (rule properties_for_sort [symmetric]) (auto simp: sorted_merge_ref)

section \<open>The in-place loops\<close>

lemma list_update_split:
  "k < length arr \<Longrightarrow> take (Suc k) (arr[k := x]) = take k arr @ [x]"
  by (simp add: take_Suc_conv_app_nth)

lemma merge_tail_eq:
  assumes "i \<le> length X" "k + (length X - i) \<le> length arr"
  shows "merge_tail X arr i k =
     (take k arr @ drop i X @ drop (k + (length X - i)) arr, length X, k + (length X - i))"
  using assms
proof (induction X arr i k rule: merge_tail.induct)
  case (1 X arr i k)
  show ?case
  proof (cases "i < length X")
    case True
    then have k: "k < length arr" using "1.prems" by simp
    have "merge_tail X arr i k = merge_tail X (arr[k := X ! i]) (Suc i) (Suc k)"
      using True by (subst merge_tail.simps) simp
    also have "\<dots> = (take (Suc k) (arr[k := X ! i]) @ drop (Suc i) X @
        drop (k + (length X - i)) (arr[k := X ! i]), length X, k + (length X - i))"
      using "1.IH" [OF True] "1.prems" True by (simp add: Suc_diff_le Suc_diff_Suc)
    finally show ?thesis
      using True k by (simp add: list_update_split Cons_nth_drop_Suc)
  qed (use "1.prems" in \<open>subst merge_tail.simps; simp\<close>)
qed

lemma merge_loops_eq:
  assumes "i \<le> length L" "j \<le> length R" "Suc high + i + j = k + length L + length R"
    and "Suc high \<le> length arr"
  shows "merge_tails L R (merge_main L R high arr i j k) =
     take k arr @ merge_ref (drop i L) (drop j R) @ drop (Suc high) arr"
  using assms
proof (induction L R high arr i j k rule: merge_main.induct)
  case (1 L R high arr i j k)
  consider (L) "i = length L" | (R) "i < length L" "j = length R"
    | (le) "i < length L" "j < length R" "L ! i \<le> R ! j"
    | (gt) "i < length L" "j < length R" "\<not> L ! i \<le> R ! j"
    using "1.prems" by linarith
  then show ?case
  proof cases
    case L
    then have "k + (length R - j) = Suc high" using "1.prems" by simp
    moreover from L have "merge_main L R high arr i j k = (arr, i, j, k)" by (subst merge_main.simps) simp
    ultimately show ?thesis using L "1.prems" by (simp add: merge_tails_def merge_tail_eq)
  next
    case R
    then have "k + (length L - i) = Suc high" using "1.prems" by simp
    moreover from R have "merge_main L R high arr i j k = (arr, i, j, k)" by (subst merge_main.simps) simp
    ultimately show ?thesis using R "1.prems" by (simp add: merge_tails_def merge_tail_eq)
  next
    case le
    then have k: "k \<le> high" "k < length arr" using "1.prems" by auto
    have "merge_tails L R (merge_main L R high arr i j k) =
        merge_tails L R (merge_main L R high (arr[k := L ! i]) (i + 1) j (k + 1))"
      using le k by (subst merge_main.simps) simp
    also have "\<dots> = take (Suc k) (arr[k := L ! i]) @ merge_ref (drop (Suc i) L) (drop j R) @ drop (Suc high) arr"
      using "1.IH"(1) [OF k(1)] le "1.prems" by simp
    also have "\<dots> = take k arr @ (L ! i # merge_ref (drop (Suc i) L) (drop j R)) @ drop (Suc high) arr"
      using k by (simp add: list_update_split)
    also have "L ! i # merge_ref (drop (Suc i) L) (drop j R) = merge_ref (drop i L) (drop j R)"
      using le by (simp flip: Cons_nth_drop_Suc)
    finally show ?thesis .
  next
    case gt
    then have k: "k \<le> high" "k < length arr" using "1.prems" by auto
    have "merge_tails L R (merge_main L R high arr i j k) =
        merge_tails L R (merge_main L R high (arr[k := R ! j]) i (j + 1) (k + 1))"
      using gt k by (subst merge_main.simps) simp
    also have "\<dots> = take (Suc k) (arr[k := R ! j]) @ merge_ref (drop i L) (drop (Suc j) R) @ drop (Suc high) arr"
      using "1.IH"(2) [OF k(1)] gt "1.prems" by simp
    also have "\<dots> = take k arr @ (R ! j # merge_ref (drop i L) (drop (Suc j) R)) @ drop (Suc high) arr"
      using k by (simp add: list_update_split)
    also have "R ! j # merge_ref (drop i L) (drop (Suc j) R) = merge_ref (drop i L) (drop j R)"
      using gt by (simp flip: Cons_nth_drop_Suc)
    finally show ?thesis .
  qed
qed

lemma map_nth_middle: "map (\<lambda>i. (A @ B @ C) ! (length A + i)) [0..<length B] = B"
  by (rule nth_equalityI) (auto simp: nth_append)

lemma merge_halves_eq:
  assumes "L \<noteq> []" "R \<noteq> []"
  shows "merge_halves (A @ L @ R @ D) (length A) (length A + length L - 1)
      (length A + length L + length R - 1) = A @ merge_ref L R @ D"
proof -
  let ?arr = "A @ L @ R @ D" and ?mid = "length A + length L - 1"
    and ?high = "length A + length L + length R - 1"
  have pos: "0 < length L" "0 < length R" using assms by auto
  have L: "map (\<lambda>i. ?arr ! (length A + i)) [0..<?mid - length A + 1] = L"
    using map_nth_middle [of A L "R @ D"] pos by simp
  have idx: "?mid + i + 1 = length (A @ L) + i" for i using pos by simp
  have R: "map (\<lambda>i. ?arr ! (?mid + i + 1)) [0..<?high - ?mid] = R"
    unfolding idx using map_nth_middle [of "A @ L" R D] pos by simp
  show ?thesis
    using merge_loops_eq [of 0 L 0 R ?high "length A" ?arr] pos
    unfolding merge_halves_def Let_def L R by simp
qed

lemma merge_sort_impl_eq:
  "merge_sort_impl (A @ B @ D) (int (length A)) (int (length A + length B) - 1) = A @ sort B @ D"
proof (induction "length B" arbitrary: A B D rule: less_induct)
  case less
  let ?lo = "int (length A)" and ?hi = "int (length A + length B) - 1"
  show ?case
  proof (cases "length B \<le> 1")
    case True
    then show ?thesis
      by (subst merge_sort_impl.simps) (auto simp: le_Suc_eq length_Suc_conv)
  next
    case False
    define n where "n = (length B + 1) div 2"
    define B1 B2 where "B1 = take n B" and "B2 = drop n B"
    have n: "0 < n" "n < length B" using False by (auto simp: n_def)
    have B: "B = B1 @ B2" "length B1 = n" "length B2 = length B - n" "B1 \<noteq> []" "B2 \<noteq> []"
      using n by (auto simp: B1_def B2_def)
    have mid: "(?lo + ?hi) div 2 = int (length A + length B1) - 1"
      using B(2) False unfolding n_def by (simp add: zdiv_int [symmetric])
    have IH1: "merge_sort_impl (A @ B1 @ B2 @ D) ?lo (int (length A + length B1) - 1) = A @ sort B1 @ B2 @ D"
      using less [of B1 A "B2 @ D"] B(2) n by simp
    have IH2: "merge_sort_impl ((A @ sort B1) @ B2 @ D) (int (length A + length B1)) ?hi =
        A @ sort B1 @ sort B2 @ D"
      using less [of B2 "A @ sort B1" D] B(2,3) n by (simp add: add.assoc)
    let ?m = "int (length A + length B1) - 1"
    have "?lo < ?hi" using False by simp
    then have "merge_sort_impl (A @ B @ D) ?lo ?hi =
        merge_halves (merge_sort_impl (merge_sort_impl (A @ B @ D) ?lo ?m) (?m + 1) ?hi)
          (nat ?lo) (nat ?m) (nat ?hi)"
      unfolding merge_sort_impl.simps [of "A @ B @ D" ?lo ?hi] mid Let_def by simp
    also have "merge_sort_impl (A @ B @ D) ?lo ?m = A @ sort B1 @ B2 @ D"
      using IH1 B(1) by simp
    also have "merge_sort_impl (A @ sort B1 @ B2 @ D) (?m + 1) ?hi = A @ sort B1 @ sort B2 @ D"
      using IH2 by simp
    also have "nat ?lo = length A" by simp
    also have "nat ?m = length A + length B1 - 1" using B(2) n by simp
    also have "nat ?hi = length A + length B1 + length B2 - 1" using B(2,3) n by simp
    also have "merge_halves (A @ sort B1 @ sort B2 @ D) (length A) (length A + length B1 - 1)
        (length A + length B1 + length B2 - 1) = A @ merge_ref (sort B1) (sort B2) @ D"
      using merge_halves_eq [of "sort B1" "sort B2" A D] B(2,3) n
      by (simp add: length_0_conv [symmetric] del: length_0_conv)
    finally show ?thesis using B(1) by (simp add: merge_ref_sort)
  qed
qed

section \<open>Properties\<close>

text \<open>
  \<open>MergeSort\<close> returns the ascending permutation of its input, also for empty and
  one-element arrays, where the signed bounds cross.
\<close>

theorem merge_sort_correct: "merge_sort arr = sort (arr :: 'a::linorder list)"
  using merge_sort_impl_eq [of "[]" arr "[]"] by (simp add: merge_sort_def)

end
