(* ===== verification/Sort_Quick.thy ===== *)
theory Sort_Quick
  imports Prelude "HOL-Library.Monad_Syntax"
begin

text \<open>
  The two quick sorts of \<open>algorithm/quick_sort.hpp\<close>, on arrays of any linearly ordered element type. Both keep the pivot
  in a variable of type \<open>int\<close>: the parameter \<open>conv\<close> is what the conversion to \<open>int\<close>, and back to the common type when the
  pivot is compared, makes of an element (the identity for the values of \<open>int\<close> and of narrower types, a truncation for
  \<open>double\<close> or \<open>long long\<close>). \<open>v2\<close> is the Lomuto partition, whose loop bounds keep every index in range. \<open>v1\<close> is the Hoare
  partition: its two scans have no bound of their own and rely on a sentinel, so reading outside the array is \<open>None\<close> in
  the model, as is a recursion that does not end, and that neither happens is part of what is proved.
  Lower bounds are never negative and are \<open>nat\<close>; upper bounds may be \<open>-1\<close> and are \<open>int\<close>.
\<close>

section \<open>v2: the Lomuto partition\<close>

definition lomuto_loop :: "'a::linorder list \<Rightarrow> nat \<Rightarrow> nat \<Rightarrow> 'a \<Rightarrow> 'a list \<times> nat" where
  "lomuto_loop arr low high pivot =
     fold (\<lambda>i (a, left). if a ! i < pivot then (swap a left i, left + 1) else (a, left))
       [low..<high] (arr, low)"

definition lomuto_partition :: "('a::linorder \<Rightarrow> 'a) \<Rightarrow> 'a list \<Rightarrow> nat \<Rightarrow> nat \<Rightarrow> 'a list \<times> nat" where
  "lomuto_partition conv arr low high =
     (let pivot = conv (arr ! high);
          (arr1, left) = lomuto_loop arr low high pivot
      in (swap arr1 left high, left))"


lemma lomuto_left_bounds:
  assumes "low \<le> high"
  shows "low \<le> snd (lomuto_loop arr low high pivot) \<and> snd (lomuto_loop arr low high pivot) \<le> high"
proof -
  let ?P = "\<lambda>i (a, left). low \<le> left \<and> left \<le> i"
  have "?P high (lomuto_loop arr low high pivot)"
    unfolding lomuto_loop_def
    by (rule fold_upt_inv [where P = ?P]) (use assms in \<open>auto split: if_splits\<close>)
  then show ?thesis by (auto split: prod.splits)
qed

lemma lomuto_partition_bounds:
  "low \<le> high \<Longrightarrow> lomuto_partition conv arr low high = (a, left) \<Longrightarrow> low \<le> left \<and> left \<le> high"
  using lomuto_left_bounds [of low high arr "conv (arr ! high)"]
  by (auto simp: lomuto_partition_def Let_def split: prod.splits)

lemma lomuto_partition_call:
  "int low < high \<Longrightarrow> x = lomuto_partition conv arr low (nat high) \<Longrightarrow> (a, left) = x \<Longrightarrow>
     int low \<le> int left \<and> int left \<le> high"
proof -
  assume "int low < high" "x = lomuto_partition conv arr low (nat high)" "(a, left) = x"
  then have "low \<le> left \<and> left \<le> nat high"
    by (intro lomuto_partition_bounds [of low "nat high" conv arr a left]) auto
  with \<open>int low < high\<close> show ?thesis by linarith
qed

function quick_sort_v2_impl :: "('a::linorder \<Rightarrow> 'a) \<Rightarrow> 'a list \<Rightarrow> nat \<Rightarrow> int \<Rightarrow> 'a list" where
  "quick_sort_v2_impl conv arr low high =
     (if int low < high
      then let (arr1, left) = lomuto_partition conv arr low (nat high);
               arr2 = quick_sort_v2_impl conv arr1 low (int left - 1)
           in quick_sort_v2_impl conv arr2 (left + 1) high
      else arr)"
  by pat_completeness auto
termination
  by (relation "measure (\<lambda>(conv, arr, low, high). nat (high - int low))")
     (simp, (frule (2) lomuto_partition_call, simp)+)

declare quick_sort_v2_impl.simps [simp del]

definition quick_sort_v2 :: "('a::linorder \<Rightarrow> 'a) \<Rightarrow> 'a list \<Rightarrow> 'a list" where
  "quick_sort_v2 conv arr = quick_sort_v2_impl conv arr 0 (int (length arr) - 1)"


section \<open>Putting two sorted parts together\<close>




section \<open>v1: the Hoare partition\<close>

text \<open>\<open>while (arr[left] < pivot) ++left;\<close> and \<open>while (arr[right] > pivot) --right;\<close>\<close>

function scan_left :: "'a::linorder list \<Rightarrow> 'a \<Rightarrow> nat \<Rightarrow> nat option" where
  "scan_left arr pivot left =
     (if left < length arr
      then if arr ! left < pivot then scan_left arr pivot (left + 1) else Some left
      else None)"
  by pat_completeness auto
termination
  by (relation "measure (\<lambda>(arr, pivot, left). length arr - left)") auto

function scan_right :: "'a::linorder list \<Rightarrow> 'a \<Rightarrow> int \<Rightarrow> int option" where
  "scan_right arr pivot right =
     (if 0 \<le> right \<and> right < int (length arr)
      then if arr ! nat right > pivot then scan_right arr pivot (right - 1) else Some right
      else None)"
  by pat_completeness auto
termination
  by (relation "measure (\<lambda>(arr, pivot, right). nat (right + 1))") auto

declare scan_left.simps [simp del] scan_right.simps [simp del]

lemma scan_left_Some:
  "scan_left arr pivot left = Some l \<Longrightarrow>
     left \<le> l \<and> l < length arr \<and> pivot \<le> arr ! l \<and> (\<forall>k. left \<le> k \<longrightarrow> k < l \<longrightarrow> arr ! k < pivot)"
proof (induction arr pivot left rule: scan_left.induct)
  case (1 arr pivot left)
  from "1.prems" have left: "left < length arr"
    by (subst (asm) scan_left.simps) (simp split: if_splits)
  show ?case
  proof (cases "arr ! left < pivot")
    case True
    with "1.prems" left have "scan_left arr pivot (left + 1) = Some l"
      by (subst (asm) scan_left.simps) simp
    from "1.IH" [OF left True this] True show ?thesis
      by (metis Suc_eq_plus1 Suc_leI Suc_leD le_neq_implies_less)
  next
    case False
    with "1.prems" left show ?thesis by (subst (asm) scan_left.simps) auto
  qed
qed

lemma scan_right_Some:
  "scan_right arr pivot right = Some r \<Longrightarrow>
     r \<le> right \<and> 0 \<le> r \<and> arr ! nat r \<le> pivot \<and> (\<forall>k. r < int k \<longrightarrow> int k \<le> right \<longrightarrow> pivot < arr ! k)"
proof (induction arr pivot right rule: scan_right.induct)
  case (1 arr pivot right)
  from "1.prems" have right: "0 \<le> right \<and> right < int (length arr)"
    by (subst (asm) scan_right.simps) (simp split: if_splits)
  show ?case
  proof (cases "arr ! nat right > pivot")
    case True
    with "1.prems" right have "scan_right arr pivot (right - 1) = Some r"
      by (subst (asm) scan_right.simps) simp
    from "1.IH" [OF right True this] True show ?thesis
      by (metis nat_int order_le_less zle_diff1_eq zless_imp_add1_zle diff_add_cancel order_trans less_imp_le)
  next
    case False
    with "1.prems" right show ?thesis by (subst (asm) scan_right.simps) auto
  qed
qed



text \<open>The loop \<open>while (left <= right)\<close>.\<close>

function hoare_partition :: "'a::linorder list \<Rightarrow> 'a \<Rightarrow> nat \<Rightarrow> int \<Rightarrow> ('a list \<times> nat \<times> int) option" where
  "hoare_partition arr pivot left right =
     (if int left \<le> right
      then case scan_left arr pivot left of
        None \<Rightarrow> None
      | Some l \<Rightarrow>
          (case scan_right arr pivot right of
            None \<Rightarrow> None
          | Some r \<Rightarrow>
              if int l \<le> r
              then hoare_partition (swap arr l (nat r)) pivot (l + 1) (r - 1)
              else hoare_partition arr pivot l r)
      else Some (arr, left, right))"
  by pat_completeness auto
termination
  by (relation "measure (\<lambda>(arr, pivot, left, right). nat (right - int left + 1))")
     (simp, (frule scan_left_Some, frule scan_right_Some, simp)+)

declare hoare_partition.simps [simp del]



partial_function (option) quick_sort_v1_impl :: "('a::linorder \<Rightarrow> 'a) \<Rightarrow> 'a list \<Rightarrow> nat \<Rightarrow> int \<Rightarrow> 'a list option" where
  "quick_sort_v1_impl conv arr low high =
     (if int low < high
      then let mid = nat ((int low + high) div 2)
           in if mid < length arr
              then case hoare_partition arr (conv (arr ! mid)) low high of
                None \<Rightarrow> None
              | Some (arr1, left, right) \<Rightarrow>
                  do { arr2 \<leftarrow> quick_sort_v1_impl conv arr1 low right; quick_sort_v1_impl conv arr2 left high }
              else None
      else Some arr)"

declare quick_sort_v1_impl.simps [code]

definition quick_sort_v1 :: "('a::linorder \<Rightarrow> 'a) \<Rightarrow> 'a list \<Rightarrow> 'a list option" where
  "quick_sort_v1 conv arr = quick_sort_v1_impl conv arr 0 (int (length arr) - 1)"





section \<open>The conversion of the pivot\<close>

text \<open>What a conversion to a 32 bit \<open>int\<close> makes of a \<open>long long\<close>.\<close>

definition to_int32 :: "int \<Rightarrow> int" where
  "to_int32 v = (v + 2 ^ 31) mod 2 ^ 32 - 2 ^ 31"

lemma to_int32_id: "- (2 ^ 31) \<le> v \<Longrightarrow> v < 2 ^ 31 \<Longrightarrow> to_int32 v = v"
  by (simp add: to_int32_def)

text \<open>
  On wider elements the first version reads before the array and the second one does not sort. With fractions (\<open>double\<close>) it
  is the same; here in units of a tenth, the conversion rounds down to whole numbers.
\<close>

lemma quick_sort_pivot_truncates:
  "quick_sort_v1 to_int32 [2 ^ 32 + 2, 2 ^ 32 + 1] = None"
  "quick_sort_v2 to_int32 [5, 2 ^ 32 + 1] = [2 ^ 32 + 1, 5]"
  "quick_sort_v1 (\<lambda>v. v div 10 * 10) [5, 2 :: int] = None"
  by code_simp+

section \<open>Properties\<close>



end
