(* ===== verification/Binary_Heap.thy ===== *)
theory Binary_Heap
  imports Heap_Order
begin

text \<open>
  \<open>BinaryHeap<T, Compare>\<close> of \<open>container/heap\<close>: the record holds the vector \<open>storage_\<close>, the
  template argument \<open>Compare\<close> is the parameter \<open>cmp\<close> of the operations, \<open>std::out_of_range\<close>
  is the left summand of the result. The index helpers take C++ \<open>int\<close>s; their division
  truncates, so \<open>GetIndexParent(0)\<close> is 0 and \<open>ExistParent\<close> holds at the root: what ends
  \<open>HeapifyUp\<close> there is the irreflexivity of \<open>Compare\<close>. The loop is therefore a partial function,
  whose value \<open>None\<close> is "does not return". Storage is shorter than \<open>INT_MAX / 2\<close>.
\<close>

datatype heap_error = Out_Of_Range

record 'a binary_heap =
  storage :: "'a list"

definition get_index_left_child :: "nat \<Rightarrow> nat" where
  "get_index_left_child index = 2 * index + 1"

definition get_index_right_child :: "nat \<Rightarrow> nat" where
  "get_index_right_child index = 2 * index + 2"

definition get_index_parent :: "nat \<Rightarrow> nat" where
  "get_index_parent index = (if index = 0 then 0 else (index - 1) div 2)"

definition exist_left_child :: "'a list \<Rightarrow> nat \<Rightarrow> bool" where
  "exist_left_child st index = (get_index_left_child index < length st)"

definition exist_right_child :: "'a list \<Rightarrow> nat \<Rightarrow> bool" where
  "exist_right_child st index = (get_index_right_child index < length st)"

text \<open>\<open>GetIndexParent(index) >= 0\<close>: the truncating division never yields a negative number here.\<close>

definition exist_parent :: "nat \<Rightarrow> bool" where
  "exist_parent index = (int (get_index_parent index) \<ge> 0)"

definition get_left_child :: "'a list \<Rightarrow> nat \<Rightarrow> 'a" where
  "get_left_child st index = st ! get_index_left_child index"

definition get_right_child :: "'a list \<Rightarrow> nat \<Rightarrow> 'a" where
  "get_right_child st index = st ! get_index_right_child index"

definition get_parent :: "'a list \<Rightarrow> nat \<Rightarrow> 'a" where
  "get_parent st index = st ! get_index_parent index"

definition smaller_child_index :: "('a \<Rightarrow> 'a \<Rightarrow> bool) \<Rightarrow> 'a list \<Rightarrow> nat \<Rightarrow> nat" where
  "smaller_child_index cmp st index =
     (if exist_right_child st index \<and> cmp (get_right_child st index) (get_left_child st index)
      then get_index_right_child index else get_index_left_child index)"

lemma smaller_child_greater [simp]: "index < smaller_child_index cmp st index"
  by (simp add: smaller_child_index_def get_index_left_child_def get_index_right_child_def)

function heapify_down :: "('a \<Rightarrow> 'a \<Rightarrow> bool) \<Rightarrow> 'a list \<Rightarrow> nat \<Rightarrow> 'a list" where
  "heapify_down cmp st index =
     (if exist_left_child st index then
        let c = smaller_child_index cmp st index
        in if cmp (st ! index) (st ! c) then st
           else heapify_down cmp (swap st index c) c
      else st)"
  by pat_completeness auto
termination
  by (relation "measure (\<lambda>(cmp, st, index). length st - index)")
     (auto simp: exist_left_child_def get_index_left_child_def
           intro!: diff_less_mono2)

declare heapify_down.simps [simp del]

partial_function (option) heapify_up :: "('a \<Rightarrow> 'a \<Rightarrow> bool) \<Rightarrow> 'a list \<Rightarrow> nat \<Rightarrow> 'a list option" where
  "heapify_up cmp st last_index =
     (if exist_parent last_index \<and> cmp (st ! last_index) (get_parent st last_index)
      then heapify_up cmp (swap st (get_index_parent last_index) last_index) (get_index_parent last_index)
      else Some st)"

declare heapify_up.simps [code]

definition peek :: "'a binary_heap \<Rightarrow> heap_error + 'a" where
  "peek h = (case storage h of [] \<Rightarrow> Inl Out_Of_Range | x # _ \<Rightarrow> Inr x)"

definition is_empty :: "'a binary_heap \<Rightarrow> bool" where
  "is_empty h = (storage h = [])"

definition pool :: "('a \<Rightarrow> 'a \<Rightarrow> bool) \<Rightarrow> 'a binary_heap \<Rightarrow> heap_error + ('a \<times> 'a binary_heap)" where
  "pool cmp h =
     (case peek h of
        Inl e \<Rightarrow> Inl e
      | Inr min_value \<Rightarrow>
          let st1 = (storage h)[0 := last (storage h)];
              st2 = butlast st1
          in Inr (min_value, h\<lparr>storage := heapify_down cmp st2 0\<rparr>))"

definition insert_key :: "('a \<Rightarrow> 'a \<Rightarrow> bool) \<Rightarrow> 'a \<Rightarrow> 'a binary_heap \<Rightarrow> 'a binary_heap option" where
  "insert_key cmp key h =
     (let st = storage h @ [key]
      in map_option (\<lambda>s. h\<lparr>storage := s\<rparr>) (heapify_up cmp st (length st - 1)))"

definition empty_heap :: "'a binary_heap" where
  "empty_heap = \<lparr>storage = []\<rparr>"

section \<open>Index arithmetic in terms of the shared tree\<close>

lemma get_index_parent_par [simp]: "get_index_parent i = par i"
  by (simp add: get_index_parent_def par_def)

lemma exist_parent_True [simp]: "exist_parent i"
  by (simp add: exist_parent_def)

lemma smaller_child_par [simp]: "par (smaller_child_index cmp st i) = i"
  by (simp add: smaller_child_index_def get_index_left_child_def get_index_right_child_def)

lemma smaller_child_bound:
  "exist_left_child st i \<Longrightarrow> smaller_child_index cmp st i < length st"
  by (auto simp: smaller_child_index_def exist_left_child_def exist_right_child_def
      get_index_left_child_def get_index_right_child_def)

context comparator
begin

lemma smaller_child_first:
  assumes "0 < d" "d < length st" "par d = i"
  shows "\<not> cmp (st ! d) (st ! smaller_child_index cmp st i)"
  using assms unfolding par_iff [OF assms(1)]
  by (auto simp: smaller_child_index_def exist_right_child_def get_left_child_def
      get_right_child_def get_index_left_child_def get_index_right_child_def irrefl dest: asym)

section \<open>Sifting\<close>

lemma heapify_down_spec:
  assumes "heap_but cmp 0 (length st) i st" "i < length st \<or> st = []"
  shows "mset (heapify_down cmp st i) = mset st \<and>
     heap_from cmp 0 (length st) (heapify_down cmp st i)"
  using assms
proof (induction "length st - i" arbitrary: st i rule: less_induct)
  case less
  let ?c = "smaller_child_index cmp st i"
  note first = smaller_child_first [of _ st i]
  show ?case
  proof (cases "exist_left_child st i")
    case False
    then have "heapify_down cmp st i = st" by (subst heapify_down.simps) simp
    moreover have "heap_from cmp 0 (length st) st"
      by (rule heap_but_stop [OF less.prems(1)])
         (use False in \<open>auto simp: par_iff exist_left_child_def get_index_left_child_def\<close>)
    ultimately show ?thesis by simp
  next
    case True
    note c = smaller_child_bound [OF True, of cmp]
    have i: "i < length st" using c smaller_child_greater [of i cmp st] by linarith
    show ?thesis
    proof (cases "cmp (st ! i) (st ! ?c)")
      case stop: True
      then have "heapify_down cmp st i = st"
        using True by (subst heapify_down.simps) simp
      moreover have "heap_from cmp 0 (length st) st"
        by (rule heap_but_stop [OF less.prems(1)])
           (use stop first in \<open>blast dest: asym cmp_less_le_trans\<close>)
      ultimately show ?thesis by simp
    next
      case go: False
      then have step: "heapify_down cmp st i = heapify_down cmp (swap st i ?c) ?c"
        using True by (subst heapify_down.simps) (simp add: Let_def)
      have but: "heap_but cmp 0 (length (swap st i ?c)) ?c (swap st i ?c)"
        unfolding length_swap
        by (rule heap_but_swap [OF less.prems(1)])
           (use c first go i less_trans [OF _ smaller_child_greater [of i cmp st]] in
             \<open>auto intro: gr0I simp: smaller_child_index_def get_index_left_child_def get_index_right_child_def\<close>)
      have "length (swap st i ?c) - ?c < length st - i"
        using c i smaller_child_greater [of i cmp st] by (metis diff_less_mono2 length_swap)
      from less.hyps [OF this but] show ?thesis
        unfolding step using c i by simp
    qed
  qed
qed

lemma heapify_up_spec:
  assumes "heap_up cmp (length st) i st" "i < length st"
  shows "\<exists>st'. heapify_up cmp st i = Some st' \<and> mset st' = mset st \<and> heap_from cmp 0 (length st) st'"
  using assms
proof (induction i arbitrary: st rule: less_induct)
  case (less i)
  have pi: "par i < length st" using less.prems par_le le_less_trans by blast
  show ?case
  proof (cases "cmp (st ! i) (st ! par i)")
    case True
    then have "0 < i" using irrefl by (auto simp: par_def intro: gr0I)
    then have p: "par i < i" by (rule par_less)
    have "heap_up cmp (length (swap st (par i) i)) (par i) (swap st (par i) i)"
      unfolding length_swap
      by (rule heap_up_swap [OF less.prems(1) \<open>0 < i\<close> less.prems(2) _ True]) simp
    from less.IH [OF p this] pi less.prems True show ?thesis
      by (subst heapify_up.simps) (simp add: get_parent_def)
  next
    case False
    then show ?thesis
      using heap_up_stop [OF less.prems(1)]
      by (subst heapify_up.simps) (simp add: get_parent_def)
  qed
qed

end

section \<open>The contract: a priority queue\<close>

text \<open>
  What a client of the heap relies on: \<open>insert\<close> returns and adds the key, \<open>pool\<close> on a
  non-empty queue returns a first element and removes exactly it, on an empty one it throws.
\<close>

locale priority_queue = comparator cmp for cmp :: "'a \<Rightarrow> 'a \<Rightarrow> bool" +
  fixes valid :: "'q \<Rightarrow> bool"
    and elems :: "'q \<Rightarrow> 'a multiset"
    and ins :: "'a \<Rightarrow> 'q \<Rightarrow> 'q option"
    and pop :: "'q \<Rightarrow> heap_error + ('a \<times> 'q)"
  assumes ins_ok: "valid q \<Longrightarrow> \<exists>q'. ins x q = Some q' \<and> valid q' \<and> elems q' = add_mset x (elems q)"
    and pop_empty: "elems q = {#} \<Longrightarrow> pop q = Inl Out_Of_Range"
    and pop_ok: "valid q \<Longrightarrow> elems q \<noteq> {#} \<Longrightarrow>
      \<exists>x q'. pop q = Inr (x, q') \<and> valid q' \<and> elems q = add_mset x (elems q') \<and>
        (\<forall>y \<in># elems q'. \<not> cmp y x)"

text \<open>Inserting a list of keys, and pooling until the queue throws (at most \<open>n\<close> times).\<close>

fun insert_all :: "('a \<Rightarrow> 'q \<Rightarrow> 'q option) \<Rightarrow> 'a list \<Rightarrow> 'q \<Rightarrow> 'q option" where
  "insert_all ins [] q = Some q"
| "insert_all ins (x # xs) q = (case ins x q of None \<Rightarrow> None | Some q' \<Rightarrow> insert_all ins xs q')"

fun pool_times :: "('q \<Rightarrow> heap_error + ('a \<times> 'q)) \<Rightarrow> nat \<Rightarrow> 'q \<Rightarrow> 'a list \<times> 'q" where
  "pool_times pop 0 q = ([], q)"
| "pool_times pop (Suc n) q =
     (case pop q of Inl e \<Rightarrow> ([], q)
      | Inr (x, q') \<Rightarrow> (case pool_times pop n q' of (xs, q'') \<Rightarrow> (x # xs, q'')))"

context priority_queue
begin

lemma insert_all_ok:
  "valid q \<Longrightarrow> \<exists>q'. insert_all ins xs q = Some q' \<and> valid q' \<and> elems q' = mset xs + elems q"
proof (induction xs arbitrary: q)
  case (Cons x xs)
  from ins_ok [OF Cons.prems, of x] obtain q1 where
    q1: "ins x q = Some q1" "valid q1" "elems q1 = add_mset x (elems q)" by blast
  from Cons.IH [OF q1(2)] q1 show ?case by auto
qed simp

lemma pool_times_ok:
  "valid q \<Longrightarrow> size (elems q) \<le> n \<Longrightarrow>
   \<exists>xs q'. pool_times pop n q = (xs, q') \<and> mset xs = elems q \<and> sorted_by cmp xs \<and> elems q' = {#}"
proof (induction n arbitrary: q)
  case (Suc n)
  show ?case
  proof (cases "elems q = {#}")
    case True
    then show ?thesis using pop_empty by (simp add: sorted_by_def)
  next
    case False
    from pop_ok [OF Suc.prems(1) False] obtain x q1 where
      q1: "pop q = Inr (x, q1)" "valid q1" "elems q = add_mset x (elems q1)"
        "\<forall>y \<in># elems q1. \<not> cmp y x" by blast
    from Suc.IH [OF q1(2)] Suc.prems(2) q1(3) obtain xs q2 where
      r: "pool_times pop n q1 = (xs, q2)" "mset xs = elems q1" "sorted_by cmp xs" "elems q2 = {#}"
      by auto
    have "\<forall>y \<in> set xs. \<not> cmp y x" using q1(4) r(2) by (metis set_mset_mset)
    then show ?thesis using q1 r by (simp add: sorted_by_def)
  qed
qed (simp add: sorted_by_def)

end

section \<open>The heap implements the contract\<close>

definition heap_ok :: "('a \<Rightarrow> 'a \<Rightarrow> bool) \<Rightarrow> 'a binary_heap \<Rightarrow> bool" where
  "heap_ok cmp h = heap_from cmp 0 (length (storage h)) (storage h)"

definition heap_elems :: "'a binary_heap \<Rightarrow> 'a multiset" where
  "heap_elems h = mset (storage h)"

lemma empty_heap_ok [simp]: "heap_ok cmp empty_heap" "heap_elems empty_heap = {#}"
  by (simp_all add: heap_ok_def heap_elems_def empty_heap_def heap_from_leaves)

context comparator
begin

lemma insert_key_ok:
  assumes "heap_ok cmp h"
  shows "\<exists>h'. insert_key cmp x h = Some h' \<and> heap_ok cmp h' \<and> heap_elems h' = add_mset x (heap_elems h)"
proof -
  let ?st = "storage h @ [x]"
  have edge: "\<not> cmp (?st ! i) (?st ! par i)" if "0 < i" "i < length (storage h)" for i
    using heap_fromD [OF assms [unfolded heap_ok_def] that] par_less [OF that(1)] that
    by (simp add: nth_append)
  have "heap_up cmp (length ?st) (length ?st - 1) ?st"
    unfolding heap_up_def
  proof (intro conjI allI impI)
    fix i assume i: "0 < i" "i < length ?st" "i \<noteq> length ?st - 1"
    then show "\<not> cmp (?st ! i) (?st ! par i)" using edge [of i] by simp
  next
    fix i assume i: "0 < i" "i < length ?st" "par i = length ?st - 1"
    then show "\<not> cmp (?st ! i) (?st ! par (length ?st - 1))" using par_less [OF i(1)] by simp
  qed
  from heapify_up_spec [OF this] obtain st' where
    st': "heapify_up cmp ?st (length ?st - 1) = Some st'" "mset st' = mset ?st"
      "heap_from cmp 0 (length ?st) st'" by auto
  have "length st' = length ?st" using st'(2) by (metis size_mset)
  with st' show ?thesis by (simp add: insert_key_def Let_def heap_ok_def heap_elems_def)
qed

lemma pool_ok:
  assumes "heap_ok cmp h" "heap_elems h \<noteq> {#}"
  shows "\<exists>x h'. pool cmp h = Inr (x, h') \<and> heap_ok cmp h' \<and> heap_elems h = add_mset x (heap_elems h') \<and>
     (\<forall>y \<in># heap_elems h'. \<not> cmp y x)"
proof -
  obtain x st where h: "storage h = x # st"
    using assms(2) by (cases "storage h") (auto simp: heap_elems_def)
  define st2 where "st2 = butlast ((x # st)[0 := last (x # st)])"
  have len: "length st2 = length st" by (simp add: st2_def)
  have ms: "mset st2 = mset st"
    by (cases st rule: rev_cases) (auto simp: st2_def butlast_append)
  have nth: "st2 ! i = (x # st) ! i" if "0 < i" "i < length st2" for i
    using that by (cases st) (auto simp: st2_def nth_butlast nth_Cons' split: if_splits)
  have heap: "heap_from cmp 0 (Suc (length st)) (x # st)"
    using assms(1) h by (simp add: heap_ok_def)
  have "heap_but cmp 0 (length st2) 0 st2"
    unfolding heap_but_def
  proof (intro conjI allI impI)
    fix i assume i: "0 < i" "i < length st2" "par i \<noteq> 0"
    then have "par i < length st2" using par_less [of i] by linarith
    then show "\<not> cmp (st2 ! i) (st2 ! par i)"
      using heap_fromD [OF heap i(1)] i nth len by simp
  qed simp
  note down = heapify_down_spec [OF this]
  have "st2 \<noteq> [] \<longrightarrow> 0 < length st2" by simp
  with down have res: "mset (heapify_down cmp st2 0) = mset st2"
    "heap_from cmp 0 (length st2) (heapify_down cmp st2 0)" by auto
  have len': "length (heapify_down cmp st2 0) = length st2" using res(1) by (metis size_mset)
  have "\<forall>y \<in> set st. \<not> cmp y x"
    using heap_root_first [OF heap] by (auto simp: in_set_conv_nth) (metis Suc_less_eq nth_Cons_0 nth_Cons_Suc)
  then have "\<forall>y \<in># mset (heapify_down cmp st2 0). \<not> cmp y x"
    using res(1) ms by (metis set_mset_mset)
  moreover have "pool cmp h = Inr (x, h\<lparr>storage := heapify_down cmp st2 0\<rparr>)"
    unfolding st2_def by (simp only: pool_def peek_def h Let_def list.case sum.case)
  moreover have "mset (heapify_down cmp st2 0) = mset st" using res(1) ms by simp
  moreover have "set (heapify_down cmp st2 0) = set st"
    by (metis calculation(3) set_mset_mset)
  ultimately show ?thesis using res(2) len' h by (simp add: heap_ok_def heap_elems_def)
qed

sublocale heap_pq: priority_queue cmp "heap_ok cmp" heap_elems "insert_key cmp" "pool cmp"
  by unfold_locales (use insert_key_ok pool_ok in \<open>auto simp: pool_def peek_def heap_elems_def\<close>)

lemma heap_is_queue: "priority_queue cmp (heap_ok cmp) heap_elems (insert_key cmp) (pool cmp)"
  by (rule heap_pq.priority_queue_axioms)

end

interpretation min_heap: priority_queue "std_less :: 'a::linorder \<Rightarrow> 'a \<Rightarrow> bool"
    "heap_ok std_less" heap_elems "insert_key std_less" "pool std_less"
  by (rule less.heap_pq.priority_queue_axioms)

interpretation max_heap: priority_queue "std_greater :: 'a::linorder \<Rightarrow> 'a \<Rightarrow> bool"
    "heap_ok std_greater" heap_elems "insert_key std_greater" "pool std_greater"
  by (rule greater.heap_pq.priority_queue_axioms)

section \<open>Properties\<close>

text \<open>
  C25: \<open>BinaryHeap\<close> is a priority queue for every comparator: \<open>Insert\<close> always returns and keeps the
  heap order, and pooling everything after any insertions yields the inserted keys, each once, in the order of
  the comparator.
\<close>

theorem heap_drains_sorted:
  assumes "comparator cmp"
  shows "\<exists>h ys h'. insert_all (insert_key cmp) xs empty_heap = Some h \<and> heap_ok cmp h \<and>
    pool_times (pool cmp) (length xs) h = (ys, h') \<and> mset ys = mset xs \<and> sorted_by cmp ys \<and> is_empty h'"
proof -
  note queue = comparator.heap_is_queue [OF assms]
  from priority_queue.insert_all_ok [OF queue, of empty_heap xs] obtain h where
    h: "insert_all (insert_key cmp) xs empty_heap = Some h" "heap_ok cmp h" "heap_elems h = mset xs" by auto
  from priority_queue.pool_times_ok [OF queue h(2), of "length xs"] h(3) obtain ys h' where
    "pool_times (pool cmp) (length xs) h = (ys, h')" "mset ys = mset xs" "sorted_by cmp ys" "heap_elems h' = {#}"
    by auto
  with h show ?thesis by (auto simp: is_empty_def heap_elems_def)
qed

theorem heap_drains_sorted_witness:
  "\<exists>h ys h'. insert_all (insert_key std_less) [3::int, 1, 2] empty_heap = Some h \<and> heap_ok std_less h \<and>
    pool_times (pool std_less) (length [3::int, 1, 2]) h = (ys, h') \<and> mset ys = mset [3, 1, 2] \<and>
    sorted_by std_less ys \<and> is_empty h'"
  by (rule heap_drains_sorted) (rule less.comparator_axioms)

text \<open>
  On a heap in order, \<open>Peek\<close> and \<open>Pool\<close> throw \<open>std::out_of_range\<close> exactly when it is empty;
  otherwise both give a first element, \<open>Pool\<close> removes just that element and keeps the order.
\<close>

theorem heap_pool_correct:
  assumes "comparator cmp" "heap_ok cmp h"
  shows "if is_empty h then peek h = Inl Out_Of_Range \<and> pool cmp h = Inl Out_Of_Range
    else \<exists>x h'. peek h = Inr x \<and> pool cmp h = Inr (x, h') \<and> heap_ok cmp h' \<and>
      heap_elems h = add_mset x (heap_elems h') \<and> (\<forall>y \<in># heap_elems h. \<not> cmp y x)"
proof -
  show ?thesis
  proof (cases "is_empty h")
    case True
    then show ?thesis by (simp add: is_empty_def peek_def pool_def)
  next
    case False
    then have "heap_elems h \<noteq> {#}" by (simp add: is_empty_def heap_elems_def)
    from comparator.pool_ok [OF assms(1,2) this] obtain x h' where
      r: "pool cmp h = Inr (x, h')" "heap_ok cmp h'" "heap_elems h = add_mset x (heap_elems h')"
        "\<forall>y \<in># heap_elems h'. \<not> cmp y x" by blast
    have "peek h = Inr x" using r(1) by (auto simp: pool_def Let_def split: sum.splits)
    with r False comparator.irrefl [OF assms(1)] show ?thesis by auto
  qed
qed

theorem heap_pool_correct_witness:
  "if is_empty \<lparr>storage = [1::int, 3]\<rparr>
    then peek \<lparr>storage = [1::int, 3]\<rparr> = Inl Out_Of_Range \<and> pool std_less \<lparr>storage = [1::int, 3]\<rparr> = Inl Out_Of_Range
    else \<exists>x h'. peek \<lparr>storage = [1::int, 3]\<rparr> = Inr x \<and> pool std_less \<lparr>storage = [1, 3]\<rparr> = Inr (x, h') \<and>
      heap_ok std_less h' \<and> heap_elems \<lparr>storage = [1, 3]\<rparr> = add_mset x (heap_elems h') \<and>
      (\<forall>y \<in># heap_elems \<lparr>storage = [1, 3]\<rparr>. \<not> std_less y x)"
  by (rule heap_pool_correct [OF less.comparator_axioms])
     (auto simp: heap_ok_def heap_from_def par_def std_less_def nth_Cons')

end
