(* ===== verification/Set_Contract.thy ===== *)
theory Set_Contract
  imports Prelude
begin

text \<open>
  What the containers without duplicate keys (\<open>AVLTree\<close>, \<open>BinarySearchTree\<close>) promise:
  insertion of a fresh key returns true and adds it, of a present key returns false and
  changes nothing, and traversal yields the keys in increasing order. An operation whose value
  is \<open>None\<close> dereferences a null pointer.
\<close>

locale ordered_set =
  fixes valid :: "'t \<Rightarrow> bool"
    and keys :: "'t \<Rightarrow> 'a::linorder list"
    and ins :: "'a \<Rightarrow> 't \<Rightarrow> (bool \<times> 't) option"
  assumes ordered: "valid t \<Longrightarrow> sorted_wrt (<) (keys t)"
    and ins_law: "valid t \<Longrightarrow>
      \<exists>t'. ins x t = Some (x \<notin> set (keys t), t') \<and> valid t' \<and> set (keys t') = insert x (set (keys t))"

text \<open>A client that inserts a sequence of keys, as the tests and benchmarks do.\<close>

fun insert_list :: "('a \<Rightarrow> 't \<Rightarrow> (bool \<times> 't) option) \<Rightarrow> 'a list \<Rightarrow> 't \<Rightarrow> 't option" where
  "insert_list ins [] t = Some t"
| "insert_list ins (x # xs) t =
     (case ins x t of None \<Rightarrow> None | Some (_, t') \<Rightarrow> insert_list ins xs t')"

context ordered_set
begin

lemma insert_list_valid:
  "valid t \<Longrightarrow> \<exists>t'. insert_list ins xs t = Some t' \<and> valid t' \<and> set (keys t') = set xs \<union> set (keys t)"
proof (induction xs arbitrary: t)
  case (Cons x xs)
  from ins_law [OF Cons.prems, of x] obtain t1 where
    t1: "ins x t = Some (x \<notin> set (keys t), t1)" "valid t1" "set (keys t1) = insert x (set (keys t))"
    by blast
  from Cons.IH [OF t1(2)] t1 show ?case by auto
qed simp

text \<open>Traversal after a sequence of insertions lists the distinct keys in increasing order.\<close>

lemma insert_list_traversal:
  assumes "valid t" "keys t = []"
  shows "\<exists>t'. insert_list ins xs t = Some t' \<and> valid t' \<and> keys t' = sorted_list_of_set (set xs)"
proof -
  from insert_list_valid [OF assms(1), of xs] assms(2) obtain t' where
    t': "insert_list ins xs t = Some t'" "valid t'" "set (keys t') = set xs" by auto
  have "keys t' = sorted_list_of_set (set (keys t'))"
    using ordered [OF t'(2)]
    by (metis sorted_list_of_set.idem_if_sorted_distinct strict_sorted_iff)
  with t' show ?thesis by auto
qed

end

end
