(* ===== verification/AVL_Tree.thy ===== *)
theory AVL_Tree
  imports Set_Contract "HOL-Library.Monad_Syntax"
begin

text \<open>
  \<open>AVLTree<T>\<close> of \<open>container/tree/avl_tree.hpp\<close>. A node is reached through exactly one pointer
  (the root or one child field), so the pointer structure is the datatype \<open>avl_node\<close>; a
  function that takes \<open>Node*&\<close> returns the new value of the pointer. \<open>height_\<close> is the stored
  field, which rotations and rebalancing update where the code does and nowhere else. \<open>None\<close> is a
  dereference of a null pointer.
\<close>

datatype 'a avl_node =
    Null
  | Node (left: "'a avl_node") (key: 'a) (height: int) (right: "'a avl_node")

definition new_node :: "'a \<Rightarrow> 'a avl_node" where
  "new_node k = Node Null k 0 Null"

fun get_key :: "'a avl_node \<Rightarrow> 'a option" where
  "get_key Null = None"
| "get_key (Node _ k _ _) = Some k"

fun node_contains :: "'a avl_node \<Rightarrow> 'a \<Rightarrow> bool" where
  "node_contains Null x = False"
| "node_contains (Node l k _ r) x = (if x = k then True else node_contains l x \<or> node_contains r x)"

text \<open>\<open>GetMaxHeight\<close>: a missing child counts 0, a child one more than its stored height.\<close>

fun sub_height :: "'a avl_node \<Rightarrow> int" where
  "sub_height Null = 0"
| "sub_height (Node _ _ h _) = h + 1"

definition get_max_height :: "'a avl_node \<Rightarrow> 'a avl_node \<Rightarrow> int" where
  "get_max_height l r = max (sub_height l) (sub_height r)"

fun small_left_rotation :: "'a avl_node \<Rightarrow> 'a avl_node option" where
  "small_left_rotation (Node l k _ (Node rl rk _ rr)) =
     (let sub = Node l k (get_max_height l rl) rl
      in Some (Node sub rk (get_max_height sub rr) rr))"
| "small_left_rotation _ = None"

fun small_right_rotation :: "'a avl_node \<Rightarrow> 'a avl_node option" where
  "small_right_rotation (Node (Node ll lk _ lr) k _ r) =
     (let sub = Node lr k (get_max_height lr r) r
      in Some (Node ll lk (get_max_height ll sub) sub))"
| "small_right_rotation _ = None"

fun large_left_rotation :: "'a avl_node \<Rightarrow> 'a avl_node option" where
  "large_left_rotation (Node l k h r) =
     do { r' \<leftarrow> small_right_rotation r; small_left_rotation (Node l k h r') }"
| "large_left_rotation Null = None"

fun large_right_rotation :: "'a avl_node \<Rightarrow> 'a avl_node option" where
  "large_right_rotation (Node l k h r) =
     do { l' \<leftarrow> small_left_rotation l; small_right_rotation (Node l' k h r) }"
| "large_right_rotation Null = None"

fun set_height :: "'a avl_node \<Rightarrow> 'a avl_node option" where
  "set_height (Node l k _ r) = Some (Node l k (get_max_height l r) r)"
| "set_height Null = None"

text \<open>The flag is the value of \<open>comp(destination_key, source_key)\<close>.\<close>

fun balancing_subtree :: "'a avl_node \<Rightarrow> bool \<Rightarrow> 'a avl_node option" where
  "balancing_subtree Null inner = None"
| "balancing_subtree (Node l k h r) inner =
     (let left_depth = get_max_height l Null;
          right_depth = get_max_height Null r;
          balance_factor = left_depth - right_depth;
          t = Node l k h r
      in do {
           t' \<leftarrow> (if balance_factor = -2 then
                   (if inner then large_left_rotation t else small_left_rotation t)
                 else if balance_factor = 2 then
                   (if inner then large_right_rotation t else small_right_rotation t)
                 else Some t);
           set_height t' })"

fun insert_impl :: "'a::linorder avl_node \<Rightarrow> 'a \<Rightarrow> (bool \<times> 'a avl_node) option" where
  "insert_impl Null x = Some (True, new_node x)"
| "insert_impl (Node l k h r) x =
     (if x < k then
        do { (added, l') \<leftarrow> insert_impl l x;
             if added then
               do { source_key \<leftarrow> get_key l';
                    t \<leftarrow> balancing_subtree (Node l' k h r) (x > source_key);
                    Some (True, t) }
             else Some (False, Node l' k h r) }
      else if x > k then
        do { (added, r') \<leftarrow> insert_impl r x;
             if added then
               do { source_key \<leftarrow> get_key r';
                    t \<leftarrow> balancing_subtree (Node l k h r') (x < source_key);
                    Some (True, t) }
             else Some (False, Node l k h r') }
      else Some (False, Node l k h r))"

fun find_min_child :: "'a avl_node \<Rightarrow> 'a option" where
  "find_min_child Null = None"
| "find_min_child (Node Null k _ _) = Some k"
| "find_min_child (Node (Node l k h r) _ _ _) = find_min_child (Node l k h r)"

text \<open>
  The minimum is unlinked from its subtree and keeps its stored height: the pair is the
  remaining subtree and the height field of the unlinked node.
\<close>

fun min_child_height :: "'a avl_node \<Rightarrow> int" where
  "min_child_height Null = 0"
| "min_child_height (Node Null _ h _) = h"
| "min_child_height (Node (Node l k h r) _ _ _) = min_child_height (Node l k h r)"

fun delete_min_child :: "'a avl_node \<Rightarrow> 'a avl_node" where
  "delete_min_child Null = Null"
| "delete_min_child (Node Null _ _ r) = r"
| "delete_min_child (Node (Node ll lk lh lr) k h r) =
     Node (delete_min_child (Node ll lk lh lr)) k h r"

fun delete_impl :: "'a::linorder avl_node \<Rightarrow> 'a \<Rightarrow> 'a avl_node option" where
  "delete_impl Null x = Some Null"
| "delete_impl (Node l k h r) x =
     (if x < k then
        do { l' \<leftarrow> delete_impl l x; balancing_subtree (Node l' k h r) (x > k) }
      else if x > k then
        do { r' \<leftarrow> delete_impl r x; balancing_subtree (Node l k h r') (x < k) }
      else if r = Null then Some l
      else do { m \<leftarrow> find_min_child r;
                Some (Node l m (min_child_height r) (delete_min_child r)) })"

fun visit_impl :: "'a avl_node \<Rightarrow> ('a \<Rightarrow> 's \<Rightarrow> 's) \<Rightarrow> 's \<Rightarrow> 's" where
  "visit_impl Null visitor s = s"
| "visit_impl (Node l k _ r) visitor s = visit_impl r visitor (visitor k (visit_impl l visitor s))"

text \<open>\<open>Node::Destroy\<close>: the order in which the keys' nodes are passed to \<open>delete\<close>.\<close>

fun node_destroy :: "'a avl_node \<Rightarrow> 'a list" where
  "node_destroy Null = []"
| "node_destroy (Node l _ _ r) =
     (case l of Null \<Rightarrow> [] | Node _ lk _ _ \<Rightarrow> node_destroy l @ [lk]) @
     (case r of Null \<Rightarrow> [] | Node _ rk _ _ \<Rightarrow> node_destroy r @ [rk])"

record 'a avl_tree =
  root :: "'a avl_node"

definition avl_contains :: "'a avl_tree \<Rightarrow> 'a \<Rightarrow> bool" where
  "avl_contains t x = node_contains (root t) x"

definition avl_insert :: "'a::linorder \<Rightarrow> 'a avl_tree \<Rightarrow> (bool \<times> 'a avl_tree) option" where
  "avl_insert x t =
     (if \<not> avl_contains t x
      then do { (b, n) \<leftarrow> insert_impl (root t) x; Some (b, t\<lparr>root := n\<rparr>) }
      else Some (False, t))"

definition avl_delete :: "'a::linorder \<Rightarrow> 'a avl_tree \<Rightarrow> 'a avl_tree option" where
  "avl_delete x t = do { n \<leftarrow> delete_impl (root t) x; Some (t\<lparr>root := n\<rparr>) }"

definition avl_visit :: "'a avl_tree \<Rightarrow> ('a \<Rightarrow> 's \<Rightarrow> 's) \<Rightarrow> 's \<Rightarrow> 's" where
  "avl_visit t visitor s = visit_impl (root t) visitor s"

definition avl_depth :: "'a avl_tree \<Rightarrow> int" where
  "avl_depth t = (case root t of Null \<Rightarrow> -1 | Node _ _ h _ \<Rightarrow> h)"

definition avl_destroy :: "'a avl_tree \<Rightarrow> 'a list" where
  "avl_destroy t = (case root t of Null \<Rightarrow> [] | Node _ k _ _ \<Rightarrow> node_destroy (root t) @ [k])"

definition empty_avl :: "'a avl_tree" where
  "empty_avl = \<lparr>root = Null\<rparr>"

section \<open>Keys, order and balance\<close>

fun inorder :: "'a avl_node \<Rightarrow> 'a list" where
  "inorder Null = []"
| "inorder (Node l k _ r) = inorder l @ k # inorder r"

text \<open>\<open>avl t\<close>: every stored height is the real one and siblings differ by at most one level.\<close>

fun levels :: "'a avl_node \<Rightarrow> nat" where
  "levels Null = 0"
| "levels (Node l _ _ r) = Suc (max (levels l) (levels r))"

fun avl :: "'a avl_node \<Rightarrow> bool" where
  "avl Null = True"
| "avl (Node l k h r) =
     (avl l \<and> avl r \<and> h = max (sub_height l) (sub_height r) \<and> \<bar>sub_height l - sub_height r\<bar> \<le> 1)"

definition bst :: "'a::linorder avl_node \<Rightarrow> bool" where
  "bst t = sorted_wrt (<) (inorder t)"

definition avl_ok :: "'a::linorder avl_tree \<Rightarrow> bool" where
  "avl_ok t = (bst (root t) \<and> avl (root t))"

definition avl_keys :: "'a avl_tree \<Rightarrow> 'a list" where
  "avl_keys t = inorder (root t)"

lemma node_contains_iff: "node_contains t x \<longleftrightarrow> x \<in> set (inorder t)"
  by (induction t) auto

lemma visit_inorder: "visit_impl t visitor s = fold visitor (inorder t) s"
  by (induction t arbitrary: s) auto

lemma node_destroy_mset:
  "t \<noteq> Null \<Longrightarrow> mset (node_destroy t) + {#key t#} = mset (inorder t)"
proof (induction t)
  case (Node l k h r)
  have child: "(case c of Null \<Rightarrow> [] | Node _ ck _ _ \<Rightarrow> node_destroy c @ [ck]) =
      (if c = Null then [] else node_destroy c @ [key c])" for c :: "'a avl_node"
    by (cases c) (simp_all del: node_destroy.simps)
  show ?case using Node unfolding node_destroy.simps child by auto
qed simp

lemma sub_height_levels: "avl t \<Longrightarrow> sub_height t = int (levels t)"
  by (induction t) auto

lemma sub_height_nonneg: "avl t \<Longrightarrow> 0 \<le> sub_height t"
  by (simp add: sub_height_levels)

lemma sub_height_zero: "avl t \<Longrightarrow> sub_height t = 0 \<longleftrightarrow> t = Null"
  by (cases t) (auto simp: max_def dest: sub_height_nonneg)

section \<open>Rotations\<close>

lemmas rotation_defs = Let_def get_max_height_def

lemma small_left_inorder: "small_left_rotation t = Some t' \<Longrightarrow> inorder t' = inorder t"
  by (induction t rule: small_left_rotation.induct) (auto simp: Let_def)

lemma small_right_inorder: "small_right_rotation t = Some t' \<Longrightarrow> inorder t' = inorder t"
  by (induction t rule: small_right_rotation.induct) (auto simp: Let_def)

lemma large_left_inorder: "large_left_rotation t = Some t' \<Longrightarrow> inorder t' = inorder t"
  by (cases t) (auto simp: Option.bind_eq_Some_conv dest!: small_left_inorder small_right_inorder)

lemma large_right_inorder: "large_right_rotation t = Some t' \<Longrightarrow> inorder t' = inorder t"
  by (cases t) (auto simp: Option.bind_eq_Some_conv dest!: small_left_inorder small_right_inorder)

lemma set_height_inorder: "set_height t = Some t' \<Longrightarrow> inorder t' = inorder t"
  by (cases t) auto

lemmas rotation_inorder = small_left_inorder small_right_inorder large_left_inorder
  large_right_inorder set_height_inorder

lemma balancing_inorder: "balancing_subtree t b = Some t' \<Longrightarrow> inorder t' = inorder t"
  by (cases t) (auto simp: Let_def Option.bind_eq_Some_conv
      dest!: rotation_inorder split: if_splits)


section \<open>Insertion\<close>

text \<open>
  The result of a rebalancing step, from a left subtree that grew: when it is two levels
  higher than its sibling, its heavy side is the side of the inserted key.
\<close>

definition grew_at :: "'a::linorder \<Rightarrow> 'a avl_node \<Rightarrow> bool" where
  "grew_at x t = (case t of Null \<Rightarrow> False
     | Node l k h r \<Rightarrow> (x < k \<and> sub_height l = sub_height r + 1) \<or>
                        (k < x \<and> sub_height r = sub_height l + 1))"

lemma balance_left:
  assumes "avl l" "avl r" "sub_height l - sub_height r \<in> {-1, 0, 1, 2}"
    and "sub_height l - sub_height r = 2 \<Longrightarrow> grew_at x l"
    and "get_key l = Some lk" "x < k"
  shows "\<exists>t. balancing_subtree (Node l k h r) (x > lk) = Some t \<and> avl t \<and>
    (if sub_height l - sub_height r = 2 then sub_height t = sub_height l
     else sub_height t = max (sub_height l) (sub_height r) + 1) \<and>
    (sub_height l - sub_height r = 1 \<longrightarrow> grew_at x t)"
proof (cases "sub_height l - sub_height r = 2")
  case False
  then show ?thesis using assms sub_height_nonneg [OF assms(1)] sub_height_nonneg [OF assms(2)]
    by (auto simp: rotation_defs grew_at_def max_def)
next
  case two: True
  obtain ll lh lr where l: "l = Node ll lk lh lr" using assms(5) by (cases l) auto
  from two assms(4) l have grew: "x < lk \<and> sub_height ll = sub_height lr + 1 \<or>
      lk < x \<and> sub_height lr = sub_height ll + 1" by (simp add: grew_at_def)
  show ?thesis
  proof (cases "x < lk")
    case True
    then show ?thesis using grew two assms l sub_height_nonneg [OF assms(2)]
      by (auto simp: rotation_defs max_def)
  next
    case False
    then have lr: "lk < x" "sub_height lr = sub_height ll + 1" using grew by auto
    have "avl ll" "avl lr" using assms(1) l by auto
    then obtain lrl m mh lrr where "lr = Node lrl m mh lrr"
      using lr(2) by (cases lr) (auto dest: sub_height_nonneg)
    then show ?thesis using lr two assms l sub_height_nonneg [OF assms(2)]
      by (auto simp: rotation_defs max_def split: if_splits)
  qed
qed

lemma balance_right:
  assumes "avl l" "avl r" "sub_height r - sub_height l \<in> {-1, 0, 1, 2}"
    and "sub_height r - sub_height l = 2 \<Longrightarrow> grew_at x r"
    and "get_key r = Some rk" "k < x"
  shows "\<exists>t. balancing_subtree (Node l k h r) (x < rk) = Some t \<and> avl t \<and>
    (if sub_height r - sub_height l = 2 then sub_height t = sub_height r
     else sub_height t = max (sub_height l) (sub_height r) + 1) \<and>
    (sub_height r - sub_height l = 1 \<longrightarrow> grew_at x t)"
proof (cases "sub_height r - sub_height l = 2")
  case False
  then show ?thesis using assms sub_height_nonneg [OF assms(1)] sub_height_nonneg [OF assms(2)]
    by (auto simp: rotation_defs grew_at_def max_def)
next
  case two: True
  obtain rl rh rr where r: "r = Node rl rk rh rr" using assms(5) by (cases r) auto
  from two assms(4) r have grew: "rk < x \<and> sub_height rr = sub_height rl + 1 \<or>
      x < rk \<and> sub_height rl = sub_height rr + 1" by (auto simp: grew_at_def)
  show ?thesis
  proof (cases "rk < x")
    case True
    then show ?thesis using grew two assms r sub_height_nonneg [OF assms(1)]
      by (auto simp: rotation_defs max_def)
  next
    case False
    then have rl: "x < rk" "sub_height rl = sub_height rr + 1" using grew by auto
    have "avl rl" "avl rr" using assms(2) r by auto
    then obtain rll m mh rlr where "rl = Node rll m mh rlr"
      using rl(2) by (cases rl) (auto dest: sub_height_nonneg)
    then show ?thesis using rl two assms r sub_height_nonneg [OF assms(1)]
      by (auto simp: rotation_defs max_def split: if_splits)
  qed
qed

lemma insert_node_spec:
  assumes "avl t" "bst t" "x \<notin> set (inorder t)"
  shows "\<exists>t'. insert_impl t x = Some (True, t') \<and> avl t' \<and> bst t' \<and>
    set (inorder t') = insert x (set (inorder t)) \<and>
    (sub_height t' = sub_height t \<or> sub_height t' = sub_height t + 1 \<and> (t = Null \<or> grew_at x t'))"
  using assms
proof (induction t)
  case Null
  then show ?case by (simp add: new_node_def bst_def)
next
  case (Node l k h r)
  have b: "bst l" "bst r" "\<forall>y \<in> set (inorder l). y < k" "\<forall>y \<in> set (inorder r). k < y"
    "\<forall>y \<in> set (inorder l). \<forall>z \<in> set (inorder r). y < z"
    using Node.prems(2) by (auto simp: bst_def sorted_wrt_append)
  have a: "avl l" "avl r" "h = max (sub_height l) (sub_height r)" "\<bar>sub_height l - sub_height r\<bar> \<le> 1"
    using Node.prems(1) by auto
  consider "x < k" | "k < x" using Node.prems(3) by (auto simp: neq_iff)
  then show ?case
  proof cases
    case 1
    from Node.IH(1) a b Node.prems(3) obtain l' where
      l': "insert_impl l x = Some (True, l')" "avl l'" "bst l'"
        "set (inorder l') = insert x (set (inorder l))"
        "sub_height l' = sub_height l \<or> sub_height l' = sub_height l + 1 \<and> (l = Null \<or> grew_at x l')"
      by auto
    obtain lk where lk: "get_key l' = Some lk" using l'(4) by (cases l') auto
    have "sub_height l' - sub_height r \<in> {-1, 0, 1, 2}"
      using a l'(5) sub_height_nonneg [OF a(2)] by auto
    moreover have "grew_at x l'" if "sub_height l' - sub_height r = 2"
      using that a l'(5) sub_height_nonneg [OF a(2)] by auto
    ultimately obtain t where t: "balancing_subtree (Node l' k h r) (x > lk) = Some t" "avl t"
        "if sub_height l' - sub_height r = 2 then sub_height t = sub_height l'
         else sub_height t = max (sub_height l') (sub_height r) + 1"
        "sub_height l' - sub_height r = 1 \<longrightarrow> grew_at x t"
      using balance_left [OF l'(2) a(2) _ _ lk 1] by blast
    have "inorder t = inorder l' @ k # inorder r" using balancing_inorder [OF t(1)] by simp
    then have "bst t" "set (inorder t) = insert x (set (inorder (Node l k h r)))"
      using l'(3,4) b 1 by (auto simp: bst_def sorted_wrt_append)
    moreover have "sub_height t = sub_height (Node l k h r) \<or>
        sub_height t = sub_height (Node l k h r) + 1 \<and> grew_at x t"
      using t(3,4) l'(5) a(3,4) by (auto split: if_splits)
    ultimately show ?thesis using 1 l'(1) lk t(1,2) by (simp del: balancing_subtree.simps)
  next
    case 2
    from Node.IH(2) a b Node.prems(3) obtain r' where
      r': "insert_impl r x = Some (True, r')" "avl r'" "bst r'"
        "set (inorder r') = insert x (set (inorder r))"
        "sub_height r' = sub_height r \<or> sub_height r' = sub_height r + 1 \<and> (r = Null \<or> grew_at x r')"
      by auto
    obtain rk where rk: "get_key r' = Some rk" using r'(4) by (cases r') auto
    have "sub_height r' - sub_height l \<in> {-1, 0, 1, 2}"
      using a r'(5) sub_height_nonneg [OF a(1)] by auto
    moreover have "grew_at x r'" if "sub_height r' - sub_height l = 2"
      using that a r'(5) sub_height_nonneg [OF a(1)] by auto
    ultimately obtain t where t: "balancing_subtree (Node l k h r') (x < rk) = Some t" "avl t"
        "if sub_height r' - sub_height l = 2 then sub_height t = sub_height r'
         else sub_height t = max (sub_height l) (sub_height r') + 1"
        "sub_height r' - sub_height l = 1 \<longrightarrow> grew_at x t"
      using balance_right [OF a(1) r'(2) _ _ rk 2] by blast
    have "inorder t = inorder l @ k # inorder r'" using balancing_inorder [OF t(1)] by simp
    then have "bst t" "set (inorder t) = insert x (set (inorder (Node l k h r)))"
      using r'(3,4) b 2 by (auto simp: bst_def sorted_wrt_append)
    moreover have "sub_height t = sub_height (Node l k h r) \<or>
        sub_height t = sub_height (Node l k h r) + 1 \<and> grew_at x t"
      using t(3,4) r'(5) a(3,4) by (auto split: if_splits)
    ultimately show ?thesis using 2 not_less_iff_gr_or_eq [of x k] r'(1) rk t(1,2)
      by (simp del: balancing_subtree.simps)
  qed
qed

interpretation avl_set: ordered_set avl_ok avl_keys avl_insert
proof unfold_locales
  fix t :: "'a::linorder avl_tree" and x
  show "avl_ok t \<Longrightarrow> sorted_wrt (<) (avl_keys t)"
    by (simp add: avl_ok_def avl_keys_def bst_def)
  assume ok: "avl_ok t"
  show "\<exists>t'. avl_insert x t = Some (x \<notin> set (avl_keys t), t') \<and> avl_ok t' \<and>
      set (avl_keys t') = insert x (set (avl_keys t))"
  proof (cases "x \<in> set (avl_keys t)")
    case True
    then show ?thesis using ok
      by (auto simp: avl_insert_def avl_contains_def node_contains_iff avl_keys_def)
  next
    case False
    with insert_node_spec [of "root t" x] ok obtain n where
      "insert_impl (root t) x = Some (True, n)" "avl n" "bst n"
      "set (inorder n) = insert x (set (inorder (root t)))"
      by (auto simp: avl_ok_def avl_keys_def)
    with False show ?thesis
      by (simp add: avl_insert_def avl_contains_def node_contains_iff avl_keys_def avl_ok_def)
  qed
qed


section \<open>Deletion\<close>

lemma delete_min_inorder:
  "t \<noteq> Null \<Longrightarrow> \<exists>m. find_min_child t = Some m \<and> inorder t = m # inorder (delete_min_child t)"
  by (induction t rule: find_min_child.induct) auto

text \<open>
  On the paths \<open>DeleteImpl\<close> takes the rotation is always a small one, and the stored
  heights, exact or not, never make it dereference a missing child.
\<close>

lemma balancing_small_defined: "t \<noteq> Null \<Longrightarrow> \<exists>t'. balancing_subtree t False = Some t'"
proof (cases t)
  case (Node l k h r)
  have "r \<noteq> Null" if "get_max_height l Null - get_max_height Null r = -2"
    using that by (auto simp: get_max_height_def)
  moreover have "l \<noteq> Null" if "get_max_height l Null - get_max_height Null r = 2"
    using that by (auto simp: get_max_height_def)
  ultimately show ?thesis using Node by (cases l; cases r) (auto simp: Let_def)
qed simp

lemma delete_impl_spec:
  "bst t \<Longrightarrow> \<exists>t'. delete_impl t x = Some t' \<and> inorder t' = filter (\<lambda>y. y \<noteq> x) (inorder t)"
proof (induction t)
  case (Node l k h r)
  have b: "bst l" "bst r" "\<forall>y \<in> set (inorder l). y < k" "\<forall>y \<in> set (inorder r). k < y"
    using Node.prems by (auto simp: bst_def sorted_wrt_append)
  have keep: "filter (\<lambda>y. y \<noteq> x) ys = ys" if "x \<notin> set ys" for ys
    using that by (intro filter_True) auto
  consider "x < k" | "k < x" | "x = k" by (rule linorder_cases)
  then show ?case
  proof cases
    case 1
    obtain l' where l': "delete_impl l x = Some l'" "inorder l' = filter (\<lambda>y. y \<noteq> x) (inorder l)"
      using Node.IH(1) b by auto
    obtain t where t: "balancing_subtree (Node l' k h r) False = Some t"
      using balancing_small_defined [of "Node l' k h r"] by blast
    moreover have "x \<notin> set (inorder r)" using b 1 by auto
    moreover have "\<not> k < x" "k \<noteq> x" using 1 by auto
    ultimately show ?thesis
      using 1 l' keep balancing_inorder [OF t] by (simp del: balancing_subtree.simps)
  next
    case 2
    obtain r' where r': "delete_impl r x = Some r'" "inorder r' = filter (\<lambda>y. y \<noteq> x) (inorder r)"
      using Node.IH(2) b by auto
    obtain t where t: "balancing_subtree (Node l k h r') False = Some t"
      using balancing_small_defined [of "Node l k h r'"] by blast
    moreover have "x \<notin> set (inorder l)" using b 2 by auto
    moreover have "\<not> x < k" "k \<noteq> x" using 2 by auto
    ultimately show ?thesis
      using 2 r' keep balancing_inorder [OF t]
      by (simp del: balancing_subtree.simps)
  next
    case 3
    then have "x \<notin> set (inorder l)" "x \<notin> set (inorder r)" using b by auto
    then show ?thesis using 3 keep delete_min_inorder [of r] by (cases "r = Null") auto
  qed
qed simp

section \<open>Depth\<close>

lemma avl_min_size: "avl t \<Longrightarrow> 2 ^ (levels t div 2) \<le> length (inorder t) + 1"
proof (induction t)
  case (Node l k h r)
  have a: "avl l" "avl r" "\<bar>int (levels l) - int (levels r)\<bar> \<le> 1"
    using Node.prems sub_height_levels [of l] sub_height_levels [of r] by auto
  let ?m = "max (levels l) (levels r)"
  have "(2::nat) ^ (Suc ?m div 2) \<le> 2 ^ (levels l div 2) + 2 ^ (levels r div 2)"
  proof (cases "even ?m")
    case True
    then have "Suc ?m div 2 = ?m div 2" by presburger
    then show ?thesis by (auto simp: max_def)
  next
    case False
    then have e: "Suc ?m div 2 = Suc (?m div 2)" by presburger
    have "?m div 2 \<le> levels l div 2" "?m div 2 \<le> levels r div 2"
      using a(3) False by (auto simp: max_def split: if_splits) presburger+
    then have "(2::nat) ^ (?m div 2) \<le> 2 ^ (levels l div 2)" "(2::nat) ^ (?m div 2) \<le> 2 ^ (levels r div 2)"
      by (auto intro: power_increasing)
    then have "2 * (2::nat) ^ (?m div 2) \<le> 2 ^ (levels l div 2) + 2 ^ (levels r div 2)" by linarith
    then show ?thesis unfolding e power_Suc .
  qed
  also have "\<dots> \<le> length (inorder (Node l k h r)) + 1" using Node.IH a by fastforce
  finally show ?case by simp
qed simp

section \<open>Properties\<close>

text \<open>The tree after inserting 3 and 1.\<close>

definition two_keys :: "int avl_tree" where
  "two_keys = \<lparr>root = Node (Node Null 1 0 Null) 3 1 Null\<rparr>"

text \<open>
  C4: after any sequence of insertions into an empty AVL tree no null pointer was
  dereferenced, the tree is a search tree whose stored heights are exact and whose siblings differ by at
  most one level, and \<open>Visit\<close> passes the distinct keys to the visitor in increasing order.
\<close>

theorem avl_insert_sequence:
  fixes xs :: "'a::linorder list"
  shows "\<exists>t. insert_list avl_insert xs empty_avl = Some t \<and> avl_ok t \<and>
     (\<forall>visitor s. avl_visit t visitor s = fold visitor (sorted_list_of_set (set xs)) s)"
proof -
  have "avl_ok (empty_avl :: 'a avl_tree)" "avl_keys (empty_avl :: 'a avl_tree) = []"
    by (simp_all add: avl_ok_def avl_keys_def empty_avl_def bst_def)
  from avl_set.insert_list_traversal [OF this, of xs] show ?thesis
    by (auto simp: avl_visit_def visit_inorder avl_keys_def)
qed

text \<open>
  One \<open>Insert\<close> into a valid tree returns whether the key was absent, keeps the
  AVL and search-tree invariants and adds exactly that key; \<open>Contains\<close> afterwards agrees.
\<close>

theorem avl_insert_correct:
  assumes "avl_ok t"
  shows "\<exists>t'. avl_insert x t = Some (\<not> avl_contains t x, t') \<and> avl_ok t' \<and>
     (\<forall>y. avl_contains t' y \<longleftrightarrow> y = x \<or> avl_contains t y)"
  using avl_set.ins_law [OF assms, of x]
  by (auto simp: avl_contains_def node_contains_iff avl_keys_def)

theorem avl_insert_correct_witness:
  "\<exists>t'. avl_insert (2::int) two_keys =
      Some (\<not> avl_contains two_keys 2, t') \<and> avl_ok t' \<and>
      (\<forall>y. avl_contains t' y \<longleftrightarrow> y = 2 \<or> avl_contains two_keys y)"
  by (rule avl_insert_correct) (simp add: two_keys_def avl_ok_def bst_def)

text \<open>
  \<open>Depth\<close> of a valid AVL tree is logarithmic in the number of keys:
  \<open>2 ^ ((Depth + 1) / 2)\<close> is at most one more than the number of keys.
\<close>

theorem avl_depth_logarithmic:
  assumes "avl_ok t"
  shows "-1 \<le> avl_depth t \<and> 2 ^ (nat (avl_depth t + 1) div 2) \<le> length (avl_keys t) + 1"
proof -
  have a: "avl (root t)" using assms by (simp add: avl_ok_def)
  have "avl_depth t + 1 = sub_height (root t)" by (cases "root t") (auto simp: avl_depth_def)
  then have "avl_depth t + 1 = int (levels (root t))" using sub_height_levels [OF a] by simp
  then show ?thesis using avl_min_size [OF a] by (simp add: avl_keys_def)
qed

theorem avl_depth_logarithmic_witness:
  "-1 \<le> avl_depth two_keys \<and>
   2 ^ (nat (avl_depth two_keys + 1) div 2) \<le>
     length (avl_keys two_keys) + 1"
  by (rule avl_depth_logarithmic) (simp add: two_keys_def avl_ok_def bst_def)

text \<open>
  \<open>Delete\<close> on a search tree, balanced or not and whatever the stored heights
  are, never dereferences a null pointer and removes exactly the given key, keeping the order.
\<close>

theorem avl_delete_keys:
  assumes "bst (root t)"
  shows "\<exists>t'. avl_delete x t = Some t' \<and> avl_keys t' = filter (\<lambda>y. y \<noteq> x) (avl_keys t) \<and> bst (root t')"
  using delete_impl_spec [OF assms, of x] assms
  by (auto simp: avl_delete_def avl_keys_def bst_def sorted_wrt_filter)

theorem avl_delete_keys_witness:
  "\<exists>t'. avl_delete (3::int) two_keys = Some t' \<and>
     avl_keys t' = filter (\<lambda>y. y \<noteq> 3) (avl_keys two_keys) \<and>
     bst (root t')"
  by (rule avl_delete_keys) (simp add: two_keys_def bst_def)

text \<open>
  \<open>Delete\<close> does not keep the tree balanced: deleting 4 from the tree that the
  insertions 3, 1, 4, 2 build leaves siblings that differ by two levels, because \<open>DeleteImpl\<close> compares
  the deleted key with the root's key and so never chooses the large rotation.
\<close>

theorem avl_delete_unbalanced:
  "\<exists>t t'. insert_list avl_insert [3::int, 1, 4, 2] empty_avl = Some t \<and> avl_ok t \<and>
     avl_delete 4 t = Some t' \<and> \<not> avl_ok t'"
  by (simp add: avl_insert_def empty_avl_def avl_contains_def new_node_def avl_ok_def bst_def
      avl_delete_def rotation_defs)

text \<open>
  The destructor passes every node to \<open>delete\<close> exactly once.
\<close>

theorem avl_destroy_once: "mset (avl_destroy t) = mset (avl_keys t)"
  using node_destroy_mset [of "root t"]
  by (cases "root t") (auto simp: avl_destroy_def avl_keys_def simp del: node_destroy.simps)

end
