(* ===== verification/Map_Contract.thy ===== *)
theory Map_Contract
  imports Prelude
begin

text \<open>
  What the associative containers promise (\<open>HashTable\<close>, \<open>ExtendibleHashTable\<close>): the container
  denotes a finite map, \<open>Insert\<close> overwrites, \<open>Remove\<close> erases, lookups read the map.
\<close>

locale map_container =
  fixes valid :: "'t \<Rightarrow> bool"
    and denotes :: "'t \<Rightarrow> 'k \<Rightarrow> 'v option"
    and ins :: "'k \<Rightarrow> 'v \<Rightarrow> 't \<Rightarrow> 't"
    and rem :: "'k \<Rightarrow> 't \<Rightarrow> 't"
    and has :: "'t \<Rightarrow> 'k \<Rightarrow> bool"
  assumes ins_law: "valid t \<Longrightarrow> valid (ins k v t) \<and> denotes (ins k v t) = (denotes t)(k \<mapsto> v)"
    and rem_law: "valid t \<Longrightarrow> valid (rem k t) \<and> denotes (rem k t) = (denotes t)(k := None)"
    and has_law: "valid t \<Longrightarrow> has t k \<longleftrightarrow> k \<in> dom (denotes t)"

text \<open>A history of calls, as a client makes them, and its meaning on maps.\<close>

datatype ('k, 'v) map_call = Call_Insert 'k 'v | Call_Remove 'k

fun run_calls :: "('k \<Rightarrow> 'v \<Rightarrow> 't \<Rightarrow> 't) \<Rightarrow> ('k \<Rightarrow> 't \<Rightarrow> 't) \<Rightarrow> ('k, 'v) map_call list \<Rightarrow> 't \<Rightarrow> 't" where
  "run_calls ins rem [] t = t"
| "run_calls ins rem (Call_Insert k v # cs) t = run_calls ins rem cs (ins k v t)"
| "run_calls ins rem (Call_Remove k # cs) t = run_calls ins rem cs (rem k t)"

abbreviation map_calls :: "('k, 'v) map_call list \<Rightarrow> ('k \<Rightarrow> 'v option) \<Rightarrow> 'k \<Rightarrow> 'v option" where
  "map_calls \<equiv> run_calls (\<lambda>k v m. m(k \<mapsto> v)) (\<lambda>k m. m(k := None))"

context map_container
begin

lemma run_calls_refines:
  "valid t \<Longrightarrow> valid (run_calls ins rem cs t) \<and>
     denotes (run_calls ins rem cs t) = map_calls cs (denotes t)"
proof (induction cs arbitrary: t)
  case (Cons c cs)
  then show ?case by (cases c) (simp_all add: ins_law rem_law)
qed simp

lemma has_after_calls:
  "valid t \<Longrightarrow> has (run_calls ins rem cs t) k \<longleftrightarrow> k \<in> dom (map_calls cs (denotes t))"
  using run_calls_refines [of t cs] has_law by simp

end

end
