(* ===== verification/Hash_Table.thy ===== *)
theory Hash_Table
  imports Map_Contract
begin

text \<open>
  \<open>HashTable<Key, Value, Hash>\<close> of \<open>container/hash/hashtable.hpp\<close>: a vector of chains. A chain is
  reached through one pointer only, so it is the list of its nodes. \<open>Hash\<close> is a template argument, here
  the parameter \<open>hash\<close>. The load factor \<open>alpha > 0.75\<close> divides by a power of two
  (\<open>default_size_\<close> doubled), which is exact in \<open>double\<close>, so it is \<open>4 * buffer_size > 3 * buckets\<close>.
\<close>

datatype table_error = Key_Out_Of_Range

type_synonym ('k, 'v) chain = "('k \<times> 'v) list"

record ('k, 'v) hash_table =
  hashtable :: "('k, 'v) chain list"
  buffer_size :: int

definition default_size :: nat where
  "default_size = 8"

definition new_table :: "('k, 'v) hash_table" where
  "new_table = \<lparr>hashtable = replicate default_size [], buffer_size = 0\<rparr>"

definition hashing :: "('k \<Rightarrow> nat) \<Rightarrow> ('k, 'v) hash_table \<Rightarrow> 'k \<Rightarrow> nat" where
  "hashing hash t k = hash k mod length (hashtable t)"

text \<open>
  The walk along a chain of \<open>InsertImpl\<close>: an equal key has its value replaced, otherwise a
  node is linked behind the last one. The flag says whether a node was added.
\<close>

fun chain_insert :: "'k \<Rightarrow> 'v \<Rightarrow> ('k, 'v) chain \<Rightarrow> ('k, 'v) chain \<times> bool" where
  "chain_insert k v [] = ([(k, v)], True)"
| "chain_insert k v ((k', v') # c) =
     (if k' \<noteq> k then (case chain_insert k v c of (c', added) \<Rightarrow> ((k', v') # c', added))
      else ((k', v) # c, False))"

fun chain_remove :: "'k \<Rightarrow> ('k, 'v) chain \<Rightarrow> ('k, 'v) chain \<times> bool" where
  "chain_remove k [] = ([], False)"
| "chain_remove k ((k', v') # c) =
     (if k' \<noteq> k then (case chain_remove k c of (c', removed) \<Rightarrow> ((k', v') # c', removed))
      else (c, True))"

fun chain_contains :: "'k \<Rightarrow> ('k, 'v) chain \<Rightarrow> bool" where
  "chain_contains k [] = False"
| "chain_contains k ((k', v') # c) = (if k' = k then True else chain_contains k c)"

fun chain_get :: "'k \<Rightarrow> ('k, 'v) chain \<Rightarrow> table_error + 'v" where
  "chain_get k [] = Inl Key_Out_Of_Range"
| "chain_get k ((k', v') # c) = (if k' = k then Inr v' else chain_get k c)"

definition insert_impl :: "('k \<Rightarrow> nat) \<Rightarrow> 'k \<Rightarrow> 'v \<Rightarrow> ('k, 'v) hash_table \<Rightarrow> ('k, 'v) hash_table" where
  "insert_impl hash k v t =
     (let h = hashing hash t k
      in case chain_insert k v (hashtable t ! h) of (c, added) \<Rightarrow>
        t\<lparr>hashtable := (hashtable t)[h := c],
          buffer_size := (if added then buffer_size t + 1 else buffer_size t)\<rparr>)"

text \<open>\<open>Rehash\<close> inserts every node of the old vector again, bucket by bucket, chain by chain.\<close>

definition rehash :: "('k \<Rightarrow> nat) \<Rightarrow> ('k, 'v) hash_table \<Rightarrow> ('k, 'v) hash_table" where
  "rehash hash t =
     fold (fold (\<lambda>(k, v). insert_impl hash k v)) (hashtable t)
       (t\<lparr>hashtable := replicate (length (hashtable t) * 2) []\<rparr>)"

definition try_rehash :: "('k \<Rightarrow> nat) \<Rightarrow> ('k, 'v) hash_table \<Rightarrow> ('k, 'v) hash_table" where
  "try_rehash hash t =
     (if 4 * buffer_size t > 3 * int (length (hashtable t)) then rehash hash t else t)"

definition table_insert :: "('k \<Rightarrow> nat) \<Rightarrow> 'k \<Rightarrow> 'v \<Rightarrow> ('k, 'v) hash_table \<Rightarrow> ('k, 'v) hash_table" where
  "table_insert hash k v t = insert_impl hash k v (try_rehash hash t)"

definition table_contains :: "('k \<Rightarrow> nat) \<Rightarrow> ('k, 'v) hash_table \<Rightarrow> 'k \<Rightarrow> bool" where
  "table_contains hash t k = chain_contains k (hashtable t ! hashing hash t k)"

definition get_value :: "('k \<Rightarrow> nat) \<Rightarrow> ('k, 'v) hash_table \<Rightarrow> 'k \<Rightarrow> table_error + 'v" where
  "get_value hash t k = chain_get k (hashtable t ! hashing hash t k)"

definition table_remove :: "('k \<Rightarrow> nat) \<Rightarrow> 'k \<Rightarrow> ('k, 'v) hash_table \<Rightarrow> ('k, 'v) hash_table" where
  "table_remove hash k t =
     (let h = hashing hash t k
      in case chain_remove k (hashtable t ! h) of (c, removed) \<Rightarrow>
        t\<lparr>hashtable := (hashtable t)[h := c],
          buffer_size := (if removed then buffer_size t - 1 else buffer_size t)\<rparr>)"

section \<open>Chains as maps\<close>

lemma chain_contains_iff: "chain_contains k c \<longleftrightarrow> map_of c k \<noteq> None"
  by (induction k c rule: chain_contains.induct) auto

lemma chain_get_map_of:
  "chain_get k c = (case map_of c k of None \<Rightarrow> Inl Key_Out_Of_Range | Some v \<Rightarrow> Inr v)"
  by (induction k c rule: chain_get.induct) auto

lemma chain_insert_spec:
  "chain_insert k v c = (c', added) \<Longrightarrow>
     map_of c' = (map_of c)(k \<mapsto> v) \<and> fst ` set c' = insert k (fst ` set c) \<and>
     (distinct (map fst c) \<longrightarrow> distinct (map fst c')) \<and> added = (k \<notin> fst ` set c) \<and>
     length c' = (if added then length c + 1 else length c)"
proof (induction k v c arbitrary: c' added rule: chain_insert.induct)
  case (2 k v k' v' c)
  show ?case
  proof (cases "k' = k")
    case True
    then show ?thesis using 2(2) by auto
  next
    case False
    then obtain c1 where "chain_insert k v c = (c1, added)" "c' = (k', v') # c1"
      using 2(2) by (auto split: prod.splits)
    with False 2(1) [OF False this(1)] show ?thesis by auto
  qed
qed auto

lemma chain_remove_spec:
  "chain_remove k c = (c', removed) \<Longrightarrow> distinct (map fst c) \<Longrightarrow>
     map_of c' = (map_of c)(k := None) \<and> fst ` set c' = fst ` set c - {k} \<and>
     distinct (map fst c') \<and> removed = (k \<in> fst ` set c) \<and>
     length c = (if removed then length c' + 1 else length c')"
proof (induction k c arbitrary: c' removed rule: chain_remove.induct)
  case (2 k k' v' c)
  show ?case
  proof (cases "k' = k")
    case True
    then show ?thesis using 2(2,3) by (force simp: map_of_eq_None_iff)
  next
    case False
    then obtain c1 where "chain_remove k c = (c1, removed)" "c' = (k', v') # c1"
      using 2(2) by (auto split: prod.splits)
    with False 2(1) [OF False this(1)] 2(3) show ?thesis by auto
  qed
qed auto

section \<open>The table as a map\<close>

definition entries :: "('k, 'v) hash_table \<Rightarrow> nat" where
  "entries t = sum_list (map length (hashtable t))"

definition table_map :: "('k \<Rightarrow> nat) \<Rightarrow> ('k, 'v) hash_table \<Rightarrow> 'k \<Rightarrow> 'v option" where
  "table_map hash t k = map_of (hashtable t ! hashing hash t k) k"

text \<open>Every key sits in the bucket of its hash, once; there is at least one bucket.\<close>

definition chained :: "('k \<Rightarrow> nat) \<Rightarrow> ('k, 'v) hash_table \<Rightarrow> bool" where
  "chained hash t \<longleftrightarrow> hashtable t \<noteq> [] \<and>
     (\<forall>i < length (hashtable t). distinct (map fst (hashtable t ! i)) \<and>
        (\<forall>k \<in> fst ` set (hashtable t ! i). hashing hash t k = i))"

lemma chained_distinct:
  "chained hash t \<Longrightarrow> i < length (hashtable t) \<Longrightarrow> distinct (map fst (hashtable t ! i))"
  by (simp add: chained_def)

lemma chained_hash:
  "chained hash t \<Longrightarrow> i < length (hashtable t) \<Longrightarrow> k \<in> fst ` set (hashtable t ! i) \<Longrightarrow>
   hashing hash t k = i"
  unfolding chained_def by blast

lemma hashing_less: "hashtable t \<noteq> [] \<Longrightarrow> hashing hash t k < length (hashtable t)"
  by (simp add: hashing_def)

lemma sum_list_update_length:
  "i < length xs \<Longrightarrow> sum_list (map length (xs[i := c])) + length (xs ! i) = sum_list (map length xs) + length c"
  by (induction xs arbitrary: i) (auto simp: nth_Cons split: nat.splits)

text \<open>Replacing the chain of \<open>k\<close>'s bucket: the effect on the map and on the layout.\<close>

lemma replace_chain:
  assumes "chained hash t" "h = hashing hash t k"
    and "distinct (map fst c)" "fst ` set c \<subseteq> insert k (fst ` set (hashtable t ! h))"
    and "map_of c = (map_of (hashtable t ! h))(k := r)"
    and t': "hashtable t' = (hashtable t)[h := c]"
  shows "chained hash t' \<and> table_map hash t' = (table_map hash t)(k := r) \<and>
     entries t' + length (hashtable t ! h) = entries t + length c"
proof -
  have hashing: "hashing hash t' = hashing hash t"
    by (rule ext) (simp add: hashing_def t')
  have h: "h < length (hashtable t)" using assms(1,2) by (simp add: chained_def hashing_less)
  have "chained hash t'" unfolding chained_def hashing t'
  proof (intro conjI allI impI)
    show "(hashtable t)[h := c] \<noteq> []" using assms(1) by (simp add: chained_def)
    fix i assume "i < length ((hashtable t)[h := c])"
    then have i: "i < length (hashtable t)" by simp
    with assms(1,3) show "distinct (map fst ((hashtable t)[h := c] ! i))"
      by (cases "i = h") (simp_all add: chained_distinct)
    show "\<forall>k \<in> fst ` set ((hashtable t)[h := c] ! i). hashing hash t k = i"
    proof
      fix k' assume k': "k' \<in> fst ` set ((hashtable t)[h := c] ! i)"
      show "hashing hash t k' = i"
      proof (cases "i = h")
        case True
        then have "k' = k \<or> k' \<in> fst ` set (hashtable t ! h)" using k' h assms(4) by auto
        then show ?thesis using True assms(2) chained_hash [OF assms(1) h] by blast
      next
        case False
        then show ?thesis using k' i chained_hash [OF assms(1) i] by simp
      qed
    qed
  qed
  moreover have "table_map hash t' k' = ((table_map hash t)(k := r)) k'" for k'
    using h assms(2,5) unfolding table_map_def hashing t'
    by (cases "hashing hash t k' = h") (auto simp: nth_list_update)
  moreover have "entries t' + length (hashtable t ! h) = entries t + length c"
    using sum_list_update_length [OF h, of c] by (simp add: entries_def t')
  ultimately show ?thesis by auto
qed

lemma insert_impl_spec:
  assumes "chained hash t"
  shows "chained hash (insert_impl hash k v t) \<and>
     table_map hash (insert_impl hash k v t) = (table_map hash t)(k \<mapsto> v) \<and>
     length (hashtable (insert_impl hash k v t)) = length (hashtable t) \<and>
     int (entries (insert_impl hash k v t)) - buffer_size (insert_impl hash k v t) =
       int (entries t) - buffer_size t \<and>
     entries (insert_impl hash k v t) =
       (if table_map hash t k = None then entries t + 1 else entries t)"
proof -
  let ?h = "hashing hash t k"
  obtain c added where c: "chain_insert k v (hashtable t ! ?h) = (c, added)" by fastforce
  note spec = chain_insert_spec [OF c]
  have h: "?h < length (hashtable t)" using assms by (simp add: chained_def hashing_less)
  let ?t = "t\<lparr>hashtable := (hashtable t)[?h := c],
          buffer_size := (if added then buffer_size t + 1 else buffer_size t)\<rparr>"
  have eq: "insert_impl hash k v t = ?t"
    by (simp add: insert_impl_def Let_def c)
  have d: "distinct (map fst c)" using spec chained_distinct [OF assms h] by blast
  have k: "fst ` set c \<subseteq> insert k (fst ` set (hashtable t ! ?h))" using spec by blast
  have m: "map_of c = (map_of (hashtable t ! ?h))(k := Some v)" using spec by blast
  have "chained hash ?t \<and> table_map hash ?t = (table_map hash t)(k \<mapsto> v) \<and>
      entries ?t + length (hashtable t ! ?h) = entries t + length c"
    by (rule replace_chain [OF assms refl d k m]) simp
  moreover have "added = (table_map hash t k = None)"
    using spec by (simp add: table_map_def map_of_eq_None_iff)
  ultimately show ?thesis unfolding eq using spec by auto
qed

section \<open>Counting\<close>

lemma dom_table_map:
  assumes "chained hash t"
  shows "dom (table_map hash t) = (\<Union>i < length (hashtable t). fst ` set (hashtable t ! i))"
proof -
  have "k \<in> fst ` set (hashtable t ! hashing hash t k)"
    if "i < length (hashtable t)" "k \<in> fst ` set (hashtable t ! i)" for k i
    using chained_hash [OF assms that] that by simp
  moreover have "hashing hash t k < length (hashtable t)" for k
    using assms by (simp add: chained_def hashing_less)
  ultimately show ?thesis
    by (auto simp: dom_def table_map_def map_of_eq_None_iff simp flip: not_None_eq)
qed

lemma entries_card:
  assumes "chained hash t"
  shows "entries t = card (dom (table_map hash t))"
proof -
  have "card (dom (table_map hash t)) = (\<Sum>i < length (hashtable t). card (fst ` set (hashtable t ! i)))"
    unfolding dom_table_map [OF assms]
  proof (rule card_UN_disjoint)
    show "\<forall>i \<in> {..<length (hashtable t)}. \<forall>j \<in> {..<length (hashtable t)}. i \<noteq> j \<longrightarrow>
        fst ` set (hashtable t ! i) \<inter> fst ` set (hashtable t ! j) = {}"
      using chained_hash [OF assms] by blast
  qed auto
  also have "\<dots> = (\<Sum>i < length (hashtable t). length (hashtable t ! i))"
    using chained_distinct [OF assms] by (intro sum.cong refl) (metis distinct_card length_map lessThan_iff set_map)
  also have "\<dots> = entries t"
    by (simp add: entries_def sum_list_sum_nth atLeast0LessThan)
  finally show ?thesis by simp
qed

section \<open>Rehash\<close>

lemma fold_fold_concat: "fold (fold f) xss s = fold f (concat xss) s"
  by (induction xss arbitrary: s) auto

lemma insert_pairs_spec:
  assumes "chained hash t" "\<forall>(k, v) \<in> set ps. m k = Some v"
  defines "t' \<equiv> fold (\<lambda>(k, v). insert_impl hash k v) ps t"
  shows "chained hash t' \<and> length (hashtable t') = length (hashtable t) \<and>
    int (entries t') - buffer_size t' = int (entries t) - buffer_size t \<and>
    table_map hash t' = (\<lambda>k. if k \<in> fst ` set ps then m k else table_map hash t k)"
  using assms(1,2) unfolding t'_def
proof (induction ps arbitrary: t)
  case (Cons p ps)
  obtain k v where p: "p = (k, v)" by fastforce
  let ?t1 = "insert_impl hash k v t"
  note t1 = insert_impl_spec [OF Cons.prems(1), of k v]
  have "chained hash ?t1" "\<forall>(k, v) \<in> set ps. m k = Some v" "m k = Some v"
    using t1 Cons.prems(2) p by auto
  with Cons.IH [OF this(1,2)] t1 show ?case
    by (auto simp: p fun_eq_iff)
qed auto

lemma chained_empty: "0 < n \<Longrightarrow> chained hash \<lparr>hashtable = replicate n [], buffer_size = b\<rparr>"
  by (simp add: chained_def)

lemma rehash_spec:
  fixes t :: "('k, 'v) hash_table"
  assumes "chained hash t"
  shows "chained hash (rehash hash t) \<and> table_map hash (rehash hash t) = table_map hash t \<and>
    length (hashtable (rehash hash t)) = 2 * length (hashtable t) \<and>
    entries (rehash hash t) = entries t \<and>
    buffer_size (rehash hash t) = buffer_size t + int (entries t)"
proof -
  let ?n = "length (hashtable t)"
  let ?e = "\<lparr>hashtable = replicate (?n * 2) [], buffer_size = buffer_size t\<rparr> :: ('k, 'v) hash_table"
  let ?ps = "concat (hashtable t)"
  have pairs: "table_map hash t k = Some v" if "(k, v) \<in> set ?ps" for k v
  proof -
    from that obtain i where i: "i < ?n" "(k, v) \<in> set (hashtable t ! i)"
      by (auto simp: in_set_conv_nth [of _ "hashtable t"])
    with assms have "hashing hash t k = i" "distinct (map fst (hashtable t ! i))"
      by (force intro: chained_hash chained_distinct)+
    with i(2) show ?thesis by (simp add: table_map_def)
  qed
  have empty: "table_map hash ?e k = None" for k
  proof -
    have "hashtable ?e ! hashing hash ?e k = []"
      using assms by (simp add: hashing_def chained_def)
    then show ?thesis unfolding table_map_def by (simp only: map_of.simps)
  qed
  have "chained hash ?e" using assms by (intro chained_empty) (simp add: chained_def)
  moreover have "rehash hash t = fold (\<lambda>(k, v). insert_impl hash k v) ?ps ?e"
    by (cases t) (simp add: rehash_def fold_fold_concat)
  ultimately
  have r: "chained hash (rehash hash t)" "length (hashtable (rehash hash t)) = ?n * 2"
      "int (entries (rehash hash t)) - buffer_size (rehash hash t) = int (entries ?e) - buffer_size t"
      "table_map hash (rehash hash t) = (\<lambda>k. if k \<in> fst ` set ?ps then table_map hash t k else None)"
    using insert_pairs_spec [of hash ?e ?ps "table_map hash t"] pairs
    by (simp_all add: empty case_prod_unfold cong: if_cong)
  moreover have "table_map hash (rehash hash t) = table_map hash t"
  proof
    fix k
    show "table_map hash (rehash hash t) k = table_map hash t k"
    proof (cases "table_map hash t k")
      case (Some v)
      then have "(k, v) \<in> set (hashtable t ! hashing hash t k)"
        by (simp add: table_map_def map_of_SomeD)
      moreover have "hashtable t ! hashing hash t k \<in> set (hashtable t)"
        using assms by (intro nth_mem hashing_less) (simp add: chained_def)
      ultimately have "(k, v) \<in> set ?ps" by auto
      then show ?thesis using r(4) by force
    qed (simp add: r(4))
  qed
  moreover have "entries ?e = 0" by (simp add: entries_def)
  ultimately show ?thesis using entries_card [OF assms] entries_card [OF r(1)] by simp
qed

section \<open>The table implements a map\<close>

text \<open>
  \<open>load_ok\<close>: the counter is at least the number of entries, and the entries are at most
  one more than three quarters of the buckets.
\<close>

definition load_ok :: "('k, 'v) hash_table \<Rightarrow> bool" where
  "load_ok t \<longleftrightarrow> 8 \<le> length (hashtable t) \<and> int (entries t) \<le> buffer_size t \<and>
     4 * entries t \<le> 3 * length (hashtable t) + 4"

definition table_ok :: "('k \<Rightarrow> nat) \<Rightarrow> ('k, 'v) hash_table \<Rightarrow> bool" where
  "table_ok hash t = (chained hash t \<and> load_ok t)"

lemma new_table_ok [simp]: "table_ok hash new_table" "table_map hash new_table = Map.empty"
  by (auto simp: table_ok_def new_table_def default_size_def load_ok_def entries_def
      chained_def table_map_def hashing_def sum_list_replicate)

lemma try_rehash_spec:
  assumes "table_ok hash t"
  shows "chained hash (try_rehash hash t) \<and> table_map hash (try_rehash hash t) = table_map hash t \<and>
    8 \<le> length (hashtable (try_rehash hash t)) \<and>
    int (entries (try_rehash hash t)) \<le> buffer_size (try_rehash hash t) \<and>
    4 * entries (try_rehash hash t) \<le> 3 * length (hashtable (try_rehash hash t))"
  using assms rehash_spec [of hash t] by (auto simp: try_rehash_def table_ok_def load_ok_def)

lemma table_insert_spec:
  assumes "table_ok hash t"
  shows "table_ok hash (table_insert hash k v t) \<and>
    table_map hash (table_insert hash k v t) = (table_map hash t)(k \<mapsto> v)"
proof -
  let ?t = "try_rehash hash t"
  note t = try_rehash_spec [OF assms]
  then have "chained hash ?t" by blast
  from insert_impl_spec [OF this, of k v] t show ?thesis
    by (auto simp: table_insert_def table_ok_def load_ok_def)
qed

lemma table_remove_spec:
  assumes "table_ok hash t"
  shows "table_ok hash (table_remove hash k t) \<and>
    table_map hash (table_remove hash k t) = (table_map hash t)(k := None)"
proof -
  let ?h = "hashing hash t k"
  have ch: "chained hash t" using assms by (simp add: table_ok_def)
  then have h: "?h < length (hashtable t)" by (simp add: chained_def hashing_less)
  obtain c removed where c: "chain_remove k (hashtable t ! ?h) = (c, removed)" by fastforce
  note spec = chain_remove_spec [OF c chained_distinct [OF ch h]]
  let ?t = "t\<lparr>hashtable := (hashtable t)[?h := c],
          buffer_size := (if removed then buffer_size t - 1 else buffer_size t)\<rparr>"
  have eq: "table_remove hash k t = ?t" by (simp add: table_remove_def Let_def c)
  have d: "distinct (map fst c)" and m: "map_of c = (map_of (hashtable t ! ?h))(k := None)"
    and k: "fst ` set c \<subseteq> insert k (fst ` set (hashtable t ! ?h))" using spec by blast+
  have r: "chained hash ?t \<and> table_map hash ?t = (table_map hash t)(k := None) \<and>
      entries ?t + length (hashtable t ! ?h) = entries t + length c"
    by (rule replace_chain [OF ch refl d k m]) simp
  have "length (hashtable t ! ?h) = (if removed then length c + 1 else length c)"
    using spec by blast
  with r have n: "entries t = (if removed then entries ?t + 1 else entries ?t)"
    by (cases removed) auto
  have "load_ok t" using assms by (simp add: table_ok_def)
  with n have "load_ok ?t" by (cases removed) (auto simp: load_ok_def)
  with r show ?thesis unfolding eq table_ok_def by blast
qed

lemma table_contains_spec: "table_contains hash t k \<longleftrightarrow> k \<in> dom (table_map hash t)"
  by (auto simp: table_contains_def chain_contains_iff table_map_def)

interpretation table: map_container "table_ok hash" "table_map hash" "table_insert hash"
    "table_remove hash" "table_contains hash" for hash :: "'k \<Rightarrow> nat"
  by unfold_locales (simp_all add: table_insert_spec table_remove_spec table_contains_spec)

section \<open>Properties\<close>

text \<open>
  C11: after any history of \<open>Insert\<close> and \<open>Remove\<close> calls on a new table, whatever the hash
  function (collisions included) and however many rehashes happened, \<open>GetValue\<close> returns what the history
  means on a finite map, throws \<open>std::out_of_range\<close> exactly for the absent keys, and \<open>Contains\<close>
  says which.
\<close>

theorem hash_table_refines_map:
  "get_value hash (run_calls (table_insert hash) (table_remove hash) cs new_table) k =
     (case map_calls cs Map.empty k of None \<Rightarrow> Inl Key_Out_Of_Range | Some v \<Rightarrow> Inr v) \<and>
   table_contains hash (run_calls (table_insert hash) (table_remove hash) cs new_table) k =
     (map_calls cs Map.empty k \<noteq> None)"
  using table.run_calls_refines [of hash new_table cs] table.has_after_calls [of hash new_table cs k]
  by (auto simp: get_value_def chain_get_map_of simp flip: table_map_def)

text \<open>
  Over every history the chains hold each key once, in the bucket of its hash, the
  entries never exceed three quarters of the buckets by more than one, and \<open>buffer_size_\<close> is never below the
  number of entries.
\<close>

theorem hash_table_load_factor:
  "table_ok hash (run_calls (table_insert hash) (table_remove hash) cs new_table)"
  using table.run_calls_refines [of hash new_table cs] by simp

text \<open>
  \<open>Rehash\<close> doubles the buckets and keeps every binding, but adds the number of entries to
  \<open>buffer_size_\<close>, because \<open>InsertImpl\<close> counts each moved node again and the counter is not
  reset: after a rehash the counter no longer is the number of entries.
\<close>

theorem rehash_recounts:
  assumes "table_ok hash t"
  shows "table_map hash (rehash hash t) = table_map hash t \<and>
    length (hashtable (rehash hash t)) = 2 * length (hashtable t) \<and>
    entries (rehash hash t) = entries t \<and>
    buffer_size (rehash hash t) = buffer_size t + int (entries t)"
  using rehash_spec [of hash t] assms by (simp add: table_ok_def)

theorem rehash_recounts_witness:
  "table_map id (rehash id (new_table :: (nat, int) hash_table)) = table_map id (new_table :: (nat, int) hash_table) \<and>
   length (hashtable (rehash id (new_table :: (nat, int) hash_table))) = 2 * length (hashtable (new_table :: (nat, int) hash_table)) \<and>
   entries (rehash id (new_table :: (nat, int) hash_table)) = entries (new_table :: (nat, int) hash_table) \<and>
   buffer_size (rehash id (new_table :: (nat, int) hash_table)) =
     buffer_size (new_table :: (nat, int) hash_table) + int (entries (new_table :: (nat, int) hash_table))"
  by (rule rehash_recounts) simp

end
