(* ===== verification/Disjoint_Set.thy ===== *)
theory Disjoint_Set
  imports Prelude "HOL-Library.Monad_Syntax"
begin

text \<open>
  \<open>DisjointSet\<close> of \<open>src/container/graph/disjoint_set_union.cpp\<close>: the vector
  \<open>parent_vertex_\<close>. The two loops of \<open>Find\<close> follow parents and need not return on an arbitrary
  vector, so they are partial functions (\<open>None\<close>: does not return); the exception
  \<open>DisjointSetOutOfRange\<close> is the left summand.
\<close>

datatype disjoint_set_error = Disjoint_Set_Out_Of_Range

record disjoint_set =
  parent_vertex :: "nat list"

definition new_disjoint_set :: "nat \<Rightarrow> disjoint_set" where
  "new_disjoint_set size_set = \<lparr>parent_vertex = [0..<size_set]\<rparr>"

text \<open>Step 1 of \<open>Find\<close>: the root of a vertex.\<close>

partial_function (option) find_root :: "nat list \<Rightarrow> nat \<Rightarrow> nat option" where
  "find_root p vertex =
     (let parent = p ! vertex
      in if parent \<noteq> vertex then find_root p parent else Some parent)"

text \<open>Step 2: every vertex on the route gets the root as its parent.\<close>

partial_function (option) compress :: "nat list \<Rightarrow> nat \<Rightarrow> nat \<Rightarrow> nat list option" where
  "compress p vertex parent =
     (let old_parent = p ! vertex
      in if old_parent \<noteq> parent then compress (p[vertex := parent]) old_parent parent else Some p)"

declare find_root.simps [code] compress.simps [code]

definition find_set :: "nat \<Rightarrow> disjoint_set \<Rightarrow> (disjoint_set_error + (nat \<times> disjoint_set)) option" where
  "find_set vertex d =
     (if vertex \<ge> length (parent_vertex d) then Some (Inl Disjoint_Set_Out_Of_Range)
      else do {
        parent \<leftarrow> find_root (parent_vertex d) vertex;
        p \<leftarrow> compress (parent_vertex d) vertex parent;
        Some (Inr (parent, d\<lparr>parent_vertex := p\<rparr>)) })"

definition is_connected :: "nat \<Rightarrow> nat \<Rightarrow> disjoint_set \<Rightarrow> (disjoint_set_error + (bool \<times> disjoint_set)) option" where
  "is_connected vertex1 vertex2 d =
     do { r1 \<leftarrow> find_set vertex1 d;
          case r1 of Inl e \<Rightarrow> Some (Inl e)
          | Inr (p1, d1) \<Rightarrow>
              do { r2 \<leftarrow> find_set vertex2 d1;
                   case r2 of Inl e \<Rightarrow> Some (Inl e)
                   | Inr (p2, d2) \<Rightarrow> Some (Inr (p1 = p2, d2)) } }"

definition union_sets :: "nat \<Rightarrow> nat \<Rightarrow> disjoint_set \<Rightarrow> (disjoint_set_error + disjoint_set) option" where
  "union_sets vertex1 vertex2 d =
     do { c \<leftarrow> is_connected vertex1 vertex2 d;
          case c of Inl e \<Rightarrow> Some (Inl e)
          | Inr (True, d0) \<Rightarrow> Some (Inr d0)
          | Inr (False, d0) \<Rightarrow>
              do { r1 \<leftarrow> find_set vertex1 d0;
                   case r1 of Inl e \<Rightarrow> Some (Inl e)
                   | Inr (parent1, d1) \<Rightarrow>
                       do { r2 \<leftarrow> find_set vertex2 d1;
                            case r2 of Inl e \<Rightarrow> Some (Inl e)
                            | Inr (parent2, d2) \<Rightarrow>
                                Some (Inr (d2\<lparr>parent_vertex := (parent_vertex d2)[parent2 := parent1]\<rparr>)) } } }"

section \<open>Routes to the root\<close>

text \<open>\<open>route p v r n\<close>: following \<open>n\<close> parent links from \<open>v\<close> ends in the root \<open>r\<close>.\<close>

inductive route :: "nat list \<Rightarrow> nat \<Rightarrow> nat \<Rightarrow> nat \<Rightarrow> bool" for p :: "nat list" where
  root: "p ! r = r \<Longrightarrow> route p r r 0"
| step: "p ! v \<noteq> v \<Longrightarrow> route p (p ! v) r n \<Longrightarrow> route p v r (Suc n)"

inductive_cases route_Suc: "route p v r (Suc n)"

lemma route_root: "route p v r n \<Longrightarrow> p ! r = r"
  by (induction rule: route.induct)

lemma route_unique: "route p v r n \<Longrightarrow> route p v s m \<Longrightarrow> r = s \<and> n = m"
  by (induction arbitrary: m rule: route.induct) (auto elim: route.cases)

definition forest :: "nat list \<Rightarrow> bool" where
  "forest p \<longleftrightarrow> (\<forall>v < length p. p ! v < length p \<and> (\<exists>r n. route p v r n))"

definition root_of :: "nat list \<Rightarrow> nat \<Rightarrow> nat \<Rightarrow> bool" where
  "root_of p v r \<longleftrightarrow> (\<exists>n. route p v r n)"

lemma root_of_unique: "root_of p v r \<Longrightarrow> root_of p v s \<Longrightarrow> r = s"
  unfolding root_of_def using route_unique by blast

lemma root_of_self: "p ! r = r \<Longrightarrow> root_of p r r"
  unfolding root_of_def using route.root by blast

lemma root_of_fixed: "root_of p v r \<Longrightarrow> p ! r = r"
  unfolding root_of_def using route_root by blast

lemma root_of_parent: "p ! v \<noteq> v \<Longrightarrow> root_of p v r = root_of p (p ! v) r"
  unfolding root_of_def by (blast elim: route.cases intro: route.intros)

lemma forest_bound: "forest p \<Longrightarrow> v < length p \<Longrightarrow> p ! v < length p"
  by (simp add: forest_def)

lemma forest_root: "forest p \<Longrightarrow> v < length p \<Longrightarrow> \<exists>r. root_of p v r"
  by (auto simp: forest_def root_of_def)

lemma route_bound: "route p v r n \<Longrightarrow> forest p \<Longrightarrow> v < length p \<Longrightarrow> r < length p"
  by (induction rule: route.induct) (auto dest: forest_bound)

lemma root_bound: "root_of p v r \<Longrightarrow> forest p \<Longrightarrow> v < length p \<Longrightarrow> r < length p"
  unfolding root_of_def using route_bound by blast

text \<open>Short-cutting one link to the root keeps every route's end and makes no route longer.\<close>

lemma shortcut_route:
  assumes "route p w s m" "route p u r k" "u \<noteq> r" "u < length p"
  shows "\<exists>m' \<le> m. route (p[u := r]) w s m'"
  using assms(1)
proof (induction rule: route.induct)
  case (root w)
  have "w \<noteq> u" using root assms(2,3) by (auto elim: route.cases)
  then show ?case using root by (intro exI [of _ 0]) (simp add: route.root)
next
  case (step w s n)
  show ?case
  proof (cases "w = u")
    case True
    then have "s = r" using route.step [OF step.hyps] route_unique [OF assms(2)] by blast
    have "route (p[u := r]) r r 0" using route_root [OF assms(2)] assms(3) by (simp add: route.root)
    then have "route (p[u := r]) u r 1" using assms(3,4) by (auto intro: route.step)
    with True \<open>s = r\<close> show ?thesis by auto
  next
    case False
    then have w: "p[u := r] ! w = p ! w" by simp
    from step.IH obtain m' where "m' \<le> n" "route (p[u := r]) (p ! w) s m'" by blast
    then show ?thesis using step.hyps(1) w route.step [of "p[u := r]" w s m'] by auto
  qed
qed

lemma shortcut_root_of:
  assumes "forest p" "root_of p u r" "u \<noteq> r" "u < length p"
  shows "forest (p[u := r])" and "\<And>v s. v < length p \<Longrightarrow> root_of (p[u := r]) v s = root_of p v s"
proof -
  from assms(2) obtain k where k: "route p u r k" by (auto simp: root_of_def)
  have to: "root_of (p[u := r]) v s" if "root_of p v s" for v s
    using that shortcut_route [OF _ k assms(3,4)] unfolding root_of_def by blast
  have r: "r < length p" by (rule root_bound [OF assms(2,1,4)])
  have "p[u := r] ! v < length p" if "v < length p" for v
    using that r forest_bound [OF assms(1)] by (cases "v = u") auto
  moreover have "\<exists>s. root_of (p[u := r]) v s" if "v < length p" for v
    using forest_root [OF assms(1) that] to by blast
  ultimately show "forest (p[u := r])" unfolding forest_def root_of_def by simp
  show "root_of (p[u := r]) v s = root_of p v s" if "v < length p" for v s
    using forest_root [OF assms(1) that] to root_of_unique by blast
qed

section \<open>The two loops\<close>

lemma find_root_route: "route p v r n \<Longrightarrow> find_root p v = Some r"
  by (induction rule: route.induct) (subst find_root.simps, simp add: Let_def)+

lemma compress_route:
  assumes "forest p" "route p v r n" "v < length p"
  shows "\<exists>q. compress p v r = Some q \<and> forest q \<and> length q = length p \<and>
    (\<forall>w < length p. \<forall>s. root_of q w s = root_of p w s)"
  using assms
proof (induction n arbitrary: p v rule: less_induct)
  case (less n)
  show ?case
  proof (cases "p ! v = r")
    case True
    then show ?thesis using less.prems(1) by (subst compress.simps) (simp add: Let_def)
  next
    case False
    have vr: "v \<noteq> r" using False route_root [OF less.prems(2)] by auto
    obtain m where m: "n = Suc m" "route p (p ! v) r m"
      using less.prems(2) vr by (cases rule: route.cases) auto
    note m = m vr
    let ?p = "p[v := r]"
    have rv: "root_of p v r" using less.prems(2) by (auto simp: root_of_def)
    note sc = shortcut_root_of [OF less.prems(1) rv m(3) less.prems(3)]
    obtain m' where "m' \<le> m" "route ?p (p ! v) r m'"
      using shortcut_route [OF m(2) less.prems(2) m(3) less.prems(3)] by blast
    moreover have "p ! v < length ?p" using forest_bound [OF less.prems(1,3)] by simp
    ultimately obtain q where q: "compress ?p (p ! v) r = Some q" "forest q" "length q = length ?p"
        "\<forall>w < length ?p. \<forall>s. root_of q w s = root_of ?p w s"
      using less.IH [of m' ?p "p ! v"] m(1) sc(1) by auto
    have "compress p v r = Some q" using q(1) False by (subst compress.simps) (simp add: Let_def)
    then show ?thesis using q sc(2) by simp
  qed
qed

section \<open>Operations\<close>

definition dsu_ok :: "disjoint_set \<Rightarrow> bool" where
  "dsu_ok d = forest (parent_vertex d)"

definition dsu_size :: "disjoint_set \<Rightarrow> nat" where
  "dsu_size d = length (parent_vertex d)"

definition same_set :: "disjoint_set \<Rightarrow> nat \<Rightarrow> nat \<Rightarrow> bool" where
  "same_set d u v \<longleftrightarrow> u < dsu_size d \<and> v < dsu_size d \<and>
     (\<exists>r. root_of (parent_vertex d) u r \<and> root_of (parent_vertex d) v r)"

text \<open>\<open>same_roots d d'\<close>: what path compression guarantees.\<close>

definition same_roots :: "disjoint_set \<Rightarrow> disjoint_set \<Rightarrow> bool" where
  "same_roots d d' \<longleftrightarrow> dsu_ok d' \<and> dsu_size d' = dsu_size d \<and>
     (\<forall>v < dsu_size d. \<forall>r. root_of (parent_vertex d') v r = root_of (parent_vertex d) v r)"

lemma same_roots_trans: "same_roots d d1 \<Longrightarrow> same_roots d1 d2 \<Longrightarrow> same_roots d d2"
  by (simp add: same_roots_def)

lemma same_roots_same_set: "same_roots d d' \<Longrightarrow> same_set d' u v = same_set d u v"
  by (auto simp: same_roots_def same_set_def)

lemma find_set_spec:
  assumes "dsu_ok d" "v < dsu_size d"
  shows "\<exists>r d'. find_set v d = Some (Inr (r, d')) \<and> root_of (parent_vertex d) v r \<and> same_roots d d'"
proof -
  let ?p = "parent_vertex d"
  have f: "forest ?p" and v: "v < length ?p" using assms by (auto simp: dsu_ok_def dsu_size_def)
  then obtain r n where r: "route ?p v r n" by (auto simp: forest_def)
  from compress_route [OF f r v] obtain q where
    "compress ?p v r = Some q" "forest q" "length q = length ?p"
    "\<forall>w < length ?p. \<forall>s. root_of q w s = root_of ?p w s" by blast
  then show ?thesis using v find_root_route [OF r] r
    by (auto simp: find_set_def same_roots_def dsu_ok_def dsu_size_def root_of_def)
qed

lemma find_set_out_of_range:
  "dsu_size d \<le> v \<Longrightarrow> find_set v d = Some (Inl Disjoint_Set_Out_Of_Range)"
  by (simp add: find_set_def dsu_size_def)

lemma same_roots_bounds: "same_roots d d' \<Longrightarrow> dsu_ok d' \<and> dsu_size d' = dsu_size d"
  by (simp add: same_roots_def)

lemma is_connected_spec:
  assumes "dsu_ok d" "u < dsu_size d" "v < dsu_size d"
  shows "\<exists>d'. is_connected u v d = Some (Inr (same_set d u v, d')) \<and> same_roots d d'"
proof -
  from find_set_spec [OF assms(1,2)] obtain r1 d1 where
    1: "find_set u d = Some (Inr (r1, d1))" "root_of (parent_vertex d) u r1" "same_roots d d1" by blast
  have "dsu_ok d1" "v < dsu_size d1" using same_roots_bounds [OF 1(3)] assms by auto
  from find_set_spec [OF this] obtain r2 d2 where
    2: "find_set v d1 = Some (Inr (r2, d2))" "root_of (parent_vertex d1) v r2" "same_roots d1 d2"
    by blast
  have "root_of (parent_vertex d) v r2" using 2(2) 1(3) assms(3) by (simp add: same_roots_def)
  then have "same_set d u v = (r1 = r2)"
    using 1(2) assms(2,3) by (auto simp: same_set_def dest: root_of_unique [OF 1(2)] root_of_unique)
  then show ?thesis using 1 2 same_roots_trans [OF 1(3) 2(3)] by (simp add: is_connected_def)
qed

section \<open>Linking two roots\<close>

lemma link_root_of:
  assumes "forest p" "p ! r1 = r1" "p ! r2 = r2" "r1 \<noteq> r2" "r1 < length p" "r2 < length p"
  shows "forest (p[r2 := r1])"
    and "\<And>v s. v < length p \<Longrightarrow>
      root_of (p[r2 := r1]) v s = (if root_of p v r2 then s = r1 else root_of p v s)"
proof -
  let ?q = "p[r2 := r1]"
  have to: "root_of ?q v (if s = r2 then r1 else s)" if "route p v s n" for v s n
    using that
  proof (induction rule: route.induct)
    case (root w)
    have "root_of ?q r1 r1" using assms by (intro root_of_self) simp
    then have "root_of ?q r2 r1" using root_of_parent [of ?q r2] assms by simp
    then show ?case using root by (auto intro: root_of_self)
  next
    case (step v s n)
    then have "v \<noteq> r2" using assms(3) by auto
    then show ?case using step root_of_parent [of ?q v] by simp
  qed
  have to': "root_of ?q v (if s = r2 then r1 else s)" if "root_of p v s" for v s
    using that to unfolding root_of_def by blast
  have "?q ! v < length p" if "v < length p" for v
    using that assms forest_bound [OF assms(1)] by (cases "v = r2") auto
  moreover have "\<exists>s. root_of ?q v s" if "v < length p" for v
    using forest_root [OF assms(1) that] to' by blast
  ultimately show "forest ?q" unfolding forest_def root_of_def by simp
  show "root_of ?q v s = (if root_of p v r2 then s = r1 else root_of p v s)" if "v < length p" for v s
    using forest_root [OF assms(1) that] to' root_of_unique by (metis (full_types))
qed

definition merged :: "disjoint_set \<Rightarrow> nat \<Rightarrow> nat \<Rightarrow> disjoint_set \<Rightarrow> bool" where
  "merged d a b d' \<longleftrightarrow> (\<forall>u v. same_set d' u v \<longleftrightarrow> same_set d u v \<or>
     same_set d u a \<and> same_set d b v \<or> same_set d u b \<and> same_set d a v)"

lemma same_set_sym: "same_set d u v \<Longrightarrow> same_set d v u"
  by (auto simp: same_set_def)

lemma same_set_trans: "same_set d u v \<Longrightarrow> same_set d v w \<Longrightarrow> same_set d u w"
  by (auto simp: same_set_def dest: root_of_unique)

lemma same_set_refl: "dsu_ok d \<Longrightarrow> same_set d v v \<longleftrightarrow> v < dsu_size d"
  using forest_root by (auto simp: same_set_def dsu_ok_def dsu_size_def)

lemma link_merges:
  assumes d: "dsu_ok d" "a < dsu_size d" "b < dsu_size d"
    and r: "root_of (parent_vertex d) a r1" "root_of (parent_vertex d) b r2" "r1 \<noteq> r2"
  defines "d' \<equiv> d\<lparr>parent_vertex := (parent_vertex d)[r2 := r1]\<rparr>"
  shows "dsu_ok d' \<and> dsu_size d' = dsu_size d \<and> merged d a b d'"
proof -
  let ?p = "parent_vertex d"
  have f: "forest ?p" and ab: "a < length ?p" "b < length ?p"
    using d by (simp_all add: dsu_ok_def dsu_size_def)
  note link = link_root_of [OF f root_of_fixed [OF r(1)] root_of_fixed [OF r(2)] r(3)
      root_bound [OF r(1) f ab(1)] root_bound [OF r(2) f ab(2)]]
  have sa: "same_set d u a \<longleftrightarrow> u < length ?p \<and> root_of ?p u r1" for u
    using r(1) ab root_of_unique by (auto simp: same_set_def dsu_size_def)
  have sb: "same_set d u b \<longleftrightarrow> u < length ?p \<and> root_of ?p u r2" for u
    using r(2) ab root_of_unique by (auto simp: same_set_def dsu_size_def)
  have "same_set d' u v \<longleftrightarrow> same_set d u v \<or>
     same_set d u a \<and> same_set d v b \<or> same_set d u b \<and> same_set d v a" for u v
  proof (cases "u < length ?p \<and> v < length ?p")
    case True
    then obtain ru rv where ru: "root_of ?p u ru" and rv: "root_of ?p v rv"
      using forest_root [OF f] by blast
    have eq: "root_of ?p u s \<longleftrightarrow> s = ru" "root_of ?p v s \<longleftrightarrow> s = rv" for s
      using ru rv root_of_unique by blast+
    show ?thesis unfolding sa sb using True r(3)
      by (auto simp: same_set_def dsu_size_def d'_def link(2) eq)
  qed (auto simp: same_set_def dsu_size_def d'_def)
  then have "merged d a b d'" unfolding merged_def using same_set_sym by blast
  then show ?thesis using link(1) by (simp add: d'_def dsu_ok_def dsu_size_def)
qed

lemma union_sets_spec:
  assumes "dsu_ok d" "a < dsu_size d" "b < dsu_size d"
  shows "\<exists>d'. union_sets a b d = Some (Inr d') \<and> dsu_ok d' \<and> dsu_size d' = dsu_size d \<and> merged d a b d'"
proof -
  from is_connected_spec [OF assms] obtain d0 where
    0: "is_connected a b d = Some (Inr (same_set d a b, d0))" "same_roots d d0" by blast
  have ok0: "dsu_ok d0" "dsu_size d0 = dsu_size d" using same_roots_bounds [OF 0(2)] by auto
  show ?thesis
  proof (cases "same_set d a b")
    case True
    then have "merged d a b d0"
      unfolding merged_def same_roots_same_set [OF 0(2)] using same_set_sym same_set_trans by blast
    then show ?thesis using True 0 ok0 by (simp add: union_sets_def)
  next
    case False
    from find_set_spec [of d0 a] ok0 assms(2) obtain r1 d1 where
      1: "find_set a d0 = Some (Inr (r1, d1))" "root_of (parent_vertex d0) a r1" "same_roots d0 d1"
      by auto
    have ok1: "dsu_ok d1" "dsu_size d1 = dsu_size d" using same_roots_bounds [OF 1(3)] ok0 by auto
    from find_set_spec [of d1 b] ok1 assms(3) obtain r2 d2 where
      2: "find_set b d1 = Some (Inr (r2, d2))" "root_of (parent_vertex d1) b r2" "same_roots d1 d2"
      by auto
    have ok2: "dsu_ok d2" "dsu_size d2 = dsu_size d" using same_roots_bounds [OF 2(3)] ok1 by auto
    have sr: "same_roots d d2" using 0(2) 1(3) 2(3) same_roots_trans by blast
    have r: "root_of (parent_vertex d2) a r1" "root_of (parent_vertex d2) b r2"
      using 1 2 0(2) assms by (auto simp: same_roots_def)
    then have "r1 \<noteq> r2" using False assms ok2 same_roots_same_set [OF sr, of a b]
      by (auto simp: same_set_def)
    from link_merges [OF ok2(1) _ _ r this] assms ok2(2) show ?thesis
      using False 0(1) 1(1) 2(1)
      by (auto simp: union_sets_def merged_def same_roots_same_set [OF sr])
  qed
qed

section \<open>The contract: an incremental equivalence\<close>

locale equivalence_builder =
  fixes valid :: "'s \<Rightarrow> bool" and vertices :: "'s \<Rightarrow> nat"
    and same :: "'s \<Rightarrow> nat \<Rightarrow> nat \<Rightarrow> bool"
    and unite :: "nat \<Rightarrow> nat \<Rightarrow> 's \<Rightarrow> ('e + 's) option"
  assumes unite_law: "valid d \<Longrightarrow> a < vertices d \<Longrightarrow> b < vertices d \<Longrightarrow>
      \<exists>d'. unite a b d = Some (Inr d') \<and> valid d' \<and> vertices d' = vertices d \<and>
        (\<forall>u v. same d' u v \<longleftrightarrow> same d u v \<or> same d u a \<and> same d b v \<or> same d u b \<and> same d a v)"
    and same_equiv: "valid d \<Longrightarrow> equiv {..<vertices d} {(u, v). same d u v}"

fun unite_all :: "(nat \<Rightarrow> nat \<Rightarrow> 's \<Rightarrow> ('e + 's) option) \<Rightarrow> (nat \<times> nat) list \<Rightarrow> 's \<Rightarrow> ('e + 's) option" where
  "unite_all unite [] d = Some (Inr d)"
| "unite_all unite ((a, b) # es) d =
     (case unite a b d of None \<Rightarrow> None | Some (Inl e) \<Rightarrow> Some (Inl e) | Some (Inr d') \<Rightarrow> unite_all unite es d')"

text \<open>The least equivalence above \<open>R\<close> that also relates the ends of every edge of \<open>E\<close>.\<close>

abbreviation joined :: "(nat \<times> nat) set \<Rightarrow> (nat \<times> nat) set \<Rightarrow> (nat \<times> nat) set" where
  "joined R E \<equiv> (R \<union> E \<union> E\<inverse>)\<^sup>+"

context equivalence_builder
begin

lemma unite_all_closure:
  assumes "valid d" "\<forall>(a, b) \<in> set es. a < vertices d \<and> b < vertices d"
  shows "\<exists>d'. unite_all unite es d = Some (Inr d') \<and> valid d' \<and> vertices d' = vertices d \<and>
    {(u, v). same d' u v} = joined {(u, v). same d u v} (set es)"
  using assms
proof (induction es arbitrary: d)
  case Nil
  then have "trans {(u, v). same d u v}" using same_equiv by (simp add: equiv_def)
  then show ?case using Nil by (simp add: trancl_id)
next
  case (Cons e es)
  obtain a b where e: "e = (a, b)" by fastforce
  let ?R = "{(u, v). same d u v}"
  from unite_law [OF Cons.prems(1), of a b] Cons.prems(2) e obtain d1 where
    1: "unite a b d = Some (Inr d1)" "valid d1" "vertices d1 = vertices d"
      "\<And>u v. same d1 u v \<longleftrightarrow> same d u v \<or> same d u a \<and> same d b v \<or> same d u b \<and> same d a v"
    by auto
  from Cons.IH [OF 1(2)] Cons.prems(2) 1(3) obtain d2 where
    2: "unite_all unite es d1 = Some (Inr d2)" "valid d2" "vertices d2 = vertices d1"
      "{(u, v). same d2 u v} = joined {(u, v). same d1 u v} (set es)" by auto
  have refl: "same d a a" "same d b b"
    using same_equiv [OF Cons.prems(1)] Cons.prems(2) e by (auto simp: equiv_def refl_on_def)
  let ?S = "{(u, v). same d1 u v}" and ?T = "joined ?R (set (e # es))"
  have "?S \<subseteq> ?T"
  proof clarify
    fix u v assume "same d1 u v"
    then consider "same d u v" | "same d u a" "same d b v" | "same d u b" "same d a v" using 1(4) by blast
    then show "(u, v) \<in> ?T"
    proof cases
      case 2
      then have "(u, a) \<in> ?T" "(a, b) \<in> ?T" "(b, v) \<in> ?T" using e by auto
      then show ?thesis by (meson trancl_trans)
    next
      case 3
      then have "(u, b) \<in> ?T" "(b, a) \<in> ?T" "(a, v) \<in> ?T" using e by auto
      then show ?thesis by (meson trancl_trans)
    qed auto
  qed
  moreover have "set es \<subseteq> ?T" "(set es)\<inverse> \<subseteq> ?T" by auto
  ultimately have "joined ?S (set es) \<subseteq> ?T\<^sup>+" by (intro trancl_mono_subset) auto
  moreover have "?R \<union> set (e # es) \<union> (set (e # es))\<inverse> \<subseteq> joined ?S (set es)"
    using 1(4) refl e by auto
  then have "?T \<subseteq> (joined ?S (set es))\<^sup>+" by (rule trancl_mono_subset)
  ultimately have "joined ?S (set es) = ?T" by simp
  with 1 2 e show ?case by simp
qed

end

interpretation dsu: equivalence_builder dsu_ok dsu_size same_set union_sets
proof unfold_locales
  fix d a b assume "dsu_ok d" "a < dsu_size d" "b < dsu_size d"
  from union_sets_spec [OF this] show "\<exists>d'. union_sets a b d = Some (Inr d') \<and> dsu_ok d' \<and>
      dsu_size d' = dsu_size d \<and> (\<forall>u v. same_set d' u v \<longleftrightarrow> same_set d u v \<or>
        same_set d u a \<and> same_set d b v \<or> same_set d u b \<and> same_set d a v)"
    by (simp add: merged_def)
next
  fix d assume "dsu_ok d"
  moreover have "{(u, v). same_set d u v} \<subseteq> {..<dsu_size d} \<times> {..<dsu_size d}"
    by (auto simp: same_set_def)
  ultimately show "equiv {..<dsu_size d} {(u, v). same_set d u v}"
    by (auto simp: equiv_def refl_on_def same_set_refl intro!: symI transI
        intro: same_set_sym same_set_trans)
qed

lemma new_disjoint_set_ok [simp]:
  "dsu_ok (new_disjoint_set n)" "dsu_size (new_disjoint_set n) = n"
  "{(u, v). same_set (new_disjoint_set n) u v} = Id_on {..<n}"
proof -
  have root: "root_of [0..<n] v r \<longleftrightarrow> r = v" if "v < n" for v r
    using that root_of_self [of "[0..<n]" v] root_of_unique by auto
  have "\<exists>r k. route [0..<n] v r k" if "v < n" for v
    using root [OF that] unfolding root_of_def by blast
  then show "dsu_ok (new_disjoint_set n)"
    by (simp add: dsu_ok_def new_disjoint_set_def forest_def)
  show "dsu_size (new_disjoint_set n) = n" by (simp add: dsu_size_def new_disjoint_set_def)
  show "{(u, v). same_set (new_disjoint_set n) u v} = Id_on {..<n}"
    using root by (auto simp: same_set_def dsu_size_def new_disjoint_set_def)
qed

section \<open>Properties\<close>

text \<open>
  C13: after \<open>Union\<close> on every edge of a list, on a new system of \<open>n\<close> sets, every call has
  returned, and \<open>IsConnected\<close> says exactly whether a path of edges leads from one vertex to the other; it
  returns as well, and the path compression it does changes no answer.
\<close>

theorem disjoint_set_connectivity:
  assumes "\<forall>(a, b) \<in> set es. a < n \<and> b < n" "u < n" "v < n"
  shows "\<exists>d. unite_all union_sets es (new_disjoint_set n) = Some (Inr d) \<and>
    (\<exists>d'. is_connected u v d = Some (Inr ((u, v) \<in> (set es \<union> (set es)\<inverse>)\<^sup>*, d')) \<and>
      (\<forall>x y. same_set d' x y = same_set d x y))"
proof -
  from dsu.unite_all_closure [of "new_disjoint_set n" es] assms(1) obtain d where
    d: "unite_all union_sets es (new_disjoint_set n) = Some (Inr d)" "dsu_ok d" "dsu_size d = n"
      "{(u, v). same_set d u v} = joined (Id_on {..<n}) (set es)" by auto
  let ?E = "set es \<union> (set es)\<inverse>"
  have "same_set d u v \<longleftrightarrow> (u, v) \<in> joined (Id_on {..<n}) (set es)" using d(4) by blast
  also have "\<dots> \<longleftrightarrow> (u, v) \<in> ?E\<^sup>*"
  proof
    have "joined (Id_on {..<n}) (set es) \<subseteq> (?E\<^sup>*)\<^sup>+" by (intro trancl_mono_subset) auto
    then show "(u, v) \<in> joined (Id_on {..<n}) (set es) \<Longrightarrow> (u, v) \<in> ?E\<^sup>*" by auto
    have "?E\<^sup>+ \<subseteq> joined (Id_on {..<n}) (set es)" by (intro trancl_mono_subset) auto
    moreover have "(u, u) \<in> joined (Id_on {..<n}) (set es)" using assms(2) by auto
    ultimately show "(u, v) \<in> ?E\<^sup>* \<Longrightarrow> (u, v) \<in> joined (Id_on {..<n}) (set es)"
      by (auto simp: rtrancl_eq_or_trancl)
  qed
  finally show ?thesis using d is_connected_spec [OF d(2), of u v] assms(2,3) same_roots_same_set
    by fastforce
qed

theorem disjoint_set_connectivity_witness:
  "\<exists>d. unite_all union_sets [(0, 1), (2, 1)] (new_disjoint_set 4) = Some (Inr d) \<and>
    (\<exists>d'. is_connected 0 2 d =
        Some (Inr ((0, 2 :: nat) \<in> (set [(0, 1), (2, 1)] \<union> (set [(0, 1), (2, 1)])\<inverse>)\<^sup>*, d')) \<and>
      (\<forall>x y. same_set d' x y = same_set d x y))"
  by (rule disjoint_set_connectivity) simp_all

text \<open>
  \<open>Find\<close> on a vertex outside the system throws \<open>DisjointSetOutOfRange\<close>; on a vertex of a
  valid system it returns a root, compresses the route without changing any set, and keeps the system valid.
\<close>

theorem find_set_correct:
  assumes "dsu_ok d"
  shows "if v < dsu_size d
    then \<exists>r d'. find_set v d = Some (Inr (r, d')) \<and> parent_vertex d ! r = r \<and> same_set d v r \<and>
      dsu_ok d' \<and> dsu_size d' = dsu_size d \<and> (\<forall>x y. same_set d' x y = same_set d x y)
    else find_set v d = Some (Inl Disjoint_Set_Out_Of_Range)"
proof (cases "v < dsu_size d")
  case True
  from find_set_spec [OF assms True] obtain r d' where
    r: "find_set v d = Some (Inr (r, d'))" "root_of (parent_vertex d) v r" "same_roots d d'" by blast
  have "parent_vertex d ! r = r" by (rule root_of_fixed [OF r(2)])
  moreover have "same_set d v r"
    using True r(2) root_bound [OF r(2)] assms root_of_self [OF calculation]
    by (auto simp: same_set_def dsu_ok_def dsu_size_def)
  ultimately show ?thesis using True r same_roots_bounds [OF r(3)] same_roots_same_set [OF r(3)] by auto
next
  case False
  then show ?thesis by (simp add: find_set_out_of_range)
qed

theorem find_set_correct_witness:
  "if (2::nat) < dsu_size (new_disjoint_set 3)
   then \<exists>r d'. find_set 2 (new_disjoint_set 3) = Some (Inr (r, d')) \<and>
      parent_vertex (new_disjoint_set 3) ! r = r \<and> same_set (new_disjoint_set 3) 2 r \<and>
      dsu_ok d' \<and> dsu_size d' = dsu_size (new_disjoint_set 3) \<and>
      (\<forall>x y. same_set d' x y = same_set (new_disjoint_set 3) x y)
   else find_set 2 (new_disjoint_set 3) = Some (Inl Disjoint_Set_Out_Of_Range)"
  by (rule find_set_correct) simp

end
