(* ===== verification/Intrusive_List.thy ===== *)
theory Intrusive_List
  imports Prelude "HOL-Library.Monad_Syntax"
begin

text \<open>
  The doubly linked ring of \<open>container/intrusive/list.hpp\<close>. Nodes live in memory and are
  named by their addresses; the heap holds the two pointer fields of every \<open>list_node_base\<close>
  (\<open>None\<close> is \<open>nullptr\<close>). A list is the address of its sentinel \<open>storage_\<close>. An operation whose
  result is \<open>None\<close> dereferences a null pointer.
\<close>

type_synonym addr = nat

record list_heap =
  prev_ptr :: "addr \<Rightarrow> addr option"
  next_ptr :: "addr \<Rightarrow> addr option"

definition get_prev :: "list_heap \<Rightarrow> addr \<Rightarrow> addr option" where
  "get_prev h n = prev_ptr h n"

definition get_next :: "list_heap \<Rightarrow> addr \<Rightarrow> addr option" where
  "get_next h n = next_ptr h n"

definition set_next :: "addr \<Rightarrow> addr option \<Rightarrow> list_heap \<Rightarrow> list_heap" where
  "set_next n p h = h\<lparr>next_ptr := (next_ptr h)(n := p)\<rparr>"

definition set_prev :: "addr \<Rightarrow> addr option \<Rightarrow> list_heap \<Rightarrow> list_heap" where
  "set_prev n p h = h\<lparr>prev_ptr := (prev_ptr h)(n := p)\<rparr>"

text \<open>
  \<open>attach\<close>: \<open>this\<close> takes over the predecessor of \<open>next\<close>, is linked behind it, and then
  before \<open>next\<close>.
\<close>

definition attach :: "addr \<Rightarrow> addr \<Rightarrow> list_heap \<Rightarrow> list_heap option" where
  "attach this next h =
     (let old = get_prev h next;
          h1 = set_prev next (Some this) h;
          h2 = set_prev this old h1
      in do {
           p \<leftarrow> get_prev h2 this;
           let h3 = set_next p (Some this) h2;
           Some (set_next this (Some next) h3) })"

definition detach :: "addr \<Rightarrow> list_heap \<Rightarrow> list_heap" where
  "detach this h =
     (let h1 = (case get_next h this of None \<Rightarrow> h | Some n \<Rightarrow> set_prev n (get_prev h this) h);
          h2 = (case get_prev h1 this of None \<Rightarrow> h1 | Some p \<Rightarrow> set_next p (get_next h1 this) h1)
      in set_prev this None (set_next this None h2))"

definition new_list :: "addr \<Rightarrow> list_heap \<Rightarrow> list_heap" where
  "new_list s h = set_prev s (Some s) (set_next s (Some s) h)"

definition list_empty :: "addr \<Rightarrow> list_heap \<Rightarrow> bool" where
  "list_empty s h = (get_next h s = Some s)"

definition push_back :: "addr \<Rightarrow> addr \<Rightarrow> list_heap \<Rightarrow> list_heap option" where
  "push_back s n h = attach n s h"

definition push_front :: "addr \<Rightarrow> addr \<Rightarrow> list_heap \<Rightarrow> list_heap option" where
  "push_front s n h = do { f \<leftarrow> get_next h s; attach n f h }"

text \<open>The popped node, or a null pointer from an empty list, and the heap.\<close>

definition pop_front :: "addr \<Rightarrow> list_heap \<Rightarrow> (addr option \<times> list_heap) option" where
  "pop_front s h =
     (if list_empty s h then Some (None, h)
      else do { front \<leftarrow> get_next h s; Some (Some front, detach front h) })"

definition pop_back :: "addr \<Rightarrow> list_heap \<Rightarrow> (addr option \<times> list_heap) option" where
  "pop_back s h =
     (if list_empty s h then Some (None, h)
      else do { back \<leftarrow> get_prev h s; Some (Some back, detach back h) })"

lemmas heap_access = get_prev_def get_next_def set_next_def set_prev_def

section \<open>Rings\<close>

definition linked :: "list_heap \<Rightarrow> addr \<Rightarrow> addr \<Rightarrow> bool" where
  "linked h a b \<longleftrightarrow> next_ptr h a = Some b \<and> prev_ptr h b = Some a"

fun links :: "list_heap \<Rightarrow> addr list \<Rightarrow> bool" where
  "links h (a # b # xs) = (linked h a b \<and> links h (b # xs))"
| "links h _ = True"

text \<open>The nodes \<open>xs\<close> follow the sentinel \<open>s\<close> and lead back to it, in both directions.\<close>

definition ring :: "list_heap \<Rightarrow> addr \<Rightarrow> addr list \<Rightarrow> bool" where
  "ring h s xs \<longleftrightarrow> distinct (s # xs) \<and> links h (s # xs @ [s])"

lemma links_append: "links h (xs @ a # ys) \<longleftrightarrow> links h (xs @ [a]) \<and> links h (a # ys)"
  by (induction xs rule: induct_list012) simp_all

lemma links_frame:
  assumes "links h xs"
    and "\<And>a. a \<in> set (butlast xs) \<Longrightarrow> next_ptr h' a = next_ptr h a"
    and "\<And>a. a \<in> set (tl xs) \<Longrightarrow> prev_ptr h' a = prev_ptr h a"
  shows "links h' xs"
  using assms by (induction h xs rule: links.induct) (auto simp: linked_def split: if_splits)

text \<open>
  A ring cut at a place into the two arcs \<open>s # ys\<close> and \<open>zs @ [s]\<close>: \<open>p\<close> ends the first, \<open>n\<close> begins
  the second. Relinking \<open>p\<close> forwards and \<open>n\<close> backwards disturbs neither arc.
\<close>

definition cut :: "addr \<Rightarrow> addr list \<Rightarrow> addr list \<Rightarrow> addr list \<Rightarrow> addr \<Rightarrow> addr \<Rightarrow> addr list \<Rightarrow> bool" where
  "cut s ys zs as p n bs \<longleftrightarrow> s # ys = as @ [p] \<and> zs @ [s] = n # bs \<and>
     p \<notin> set as \<and> n \<notin> set (tl (as @ [p])) \<and> p \<notin> set (butlast (n # bs)) \<and> n \<notin> set bs"

lemma cut_ex:
  assumes "distinct (s # ys @ zs)"
  shows "\<exists>as p n bs. cut s ys zs as p n bs"
proof -
  obtain as p where p: "s # ys = as @ [p]" by (metis list.distinct(1) rev_exhaust)
  obtain n bs where n: "zs @ [s] = n # bs" by (cases "zs @ [s]") auto
  have "distinct (s # ys)" "distinct (zs @ [s])" using assms by auto
  then have 1: "distinct (as @ [p])" "distinct (n # bs)" using p n by metis+
  have 2: "n \<notin> set (tl (as @ [p]))"
    unfolding p [symmetric] using n assms by (cases zs) auto
  have "p \<notin> set zs" using p assms by (cases ys rule: rev_cases) auto
  moreover have "butlast (n # bs) = zs" using n by (metis butlast_snoc)
  ultimately show ?thesis using p n 1 2 by (auto simp: cut_def)
qed

lemma cut_sets:
  "cut s ys zs as p n bs \<Longrightarrow> set (as @ [p]) = set (s # ys) \<and> set (n # bs) = insert s (set zs)"
  unfolding cut_def by (metis Un_commute insert_is_Un list.simps(15) set_append empty_set)

lemma cut_ring:
  assumes "cut s ys zs as p n bs"
  shows "links h (s # (ys @ ms @ zs) @ [s]) \<longleftrightarrow>
    links h (as @ [p]) \<and> links h (p # ms @ [n]) \<and> links h (n # bs)"
proof -
  have "s # (ys @ ms @ zs) @ [s] = (s # ys) @ ms @ zs @ [s]" by simp
  also have "\<dots> = as @ p # ms @ n # bs" using assms by (simp add: cut_def)
  finally show ?thesis
    using links_append [of h as p "ms @ n # bs"] links_append [of h "p # ms" n bs] by simp
qed

lemma cut_frame:
  assumes c: "cut s ys zs as p n bs" and x: "x \<notin> set (s # ys @ zs)"
    and l: "links h (as @ [p])" "links h (n # bs)"
    and f: "\<And>a. a \<noteq> p \<Longrightarrow> a \<noteq> x \<Longrightarrow> next_ptr h' a = next_ptr h a"
      "\<And>a. a \<noteq> n \<Longrightarrow> a \<noteq> x \<Longrightarrow> prev_ptr h' a = prev_ptr h a"
  shows "links h' (as @ [p]) \<and> links h' (n # bs)"
proof -
  have tl: "set (tl (as @ [p])) \<subseteq> set (as @ [p])" by (cases as) auto
  have bl: "set (butlast (n # bs)) \<subseteq> set (n # bs)" by (meson in_set_butlastD subsetI)
  note sets = cut_sets [OF c]
  have "links h' (as @ [p])"
  proof (rule links_frame [OF l(1)])
    fix a assume "a \<in> set (butlast (as @ [p]))"
    then have "a \<noteq> p" "a \<in> set (as @ [p])" using c by (auto simp: cut_def)
    then show "next_ptr h' a = next_ptr h a" using f(1) x sets by auto
  next
    fix a assume "a \<in> set (tl (as @ [p]))"
    then have "a \<noteq> n" "a \<in> set (as @ [p])" using c tl unfolding cut_def by blast+
    then show "prev_ptr h' a = prev_ptr h a" using f(2) x sets by auto
  qed
  moreover have "links h' (n # bs)"
  proof (rule links_frame [OF l(2)])
    fix a assume "a \<in> set (butlast (n # bs))"
    then have "a \<noteq> p" "a \<in> set (n # bs)" using c bl unfolding cut_def by blast+
    then show "next_ptr h' a = next_ptr h a" using f(1) x sets by auto
  next
    fix a assume "a \<in> set (tl (n # bs))"
    then have "a \<noteq> n" "a \<in> set (n # bs)" using c by (auto simp: cut_def)
    then show "prev_ptr h' a = prev_ptr h a" using f(2) x sets by auto
  qed
  ultimately show ?thesis by blast
qed

lemma ring_insert:
  assumes r: "ring h s (ys @ zs)" and x: "x \<notin> set (s # ys @ zs)"
  shows "\<exists>h'. attach x (hd (zs @ [s])) h = Some h' \<and> ring h' s (ys @ x # zs)"
proof -
  have d: "distinct (s # ys @ zs)" using r by (simp add: ring_def)
  obtain as p n bs where c: "cut s ys zs as p n bs" using cut_ex [OF d] by blast
  from r cut_ring [OF c, of h "[]"] have
    l: "links h (as @ [p])" "linked h p n" "links h (n # bs)" by (simp_all add: ring_def)
  define h' where "h' = \<lparr>prev_ptr = (prev_ptr h)(n := Some x, x := Some p),
      next_ptr = (next_ptr h)(p := Some x, x := Some n)\<rparr>"
  have np: "p \<noteq> x" "n \<noteq> x" using x cut_sets [OF c] by auto
  have at: "attach x n h = Some h'"
    using l(2) by (simp add: attach_def heap_access h'_def linked_def Let_def)
  have "links h' (as @ [p]) \<and> links h' (n # bs)"
    by (rule cut_frame [OF c x l(1,3)]) (simp_all add: h'_def)
  moreover have "links h' (p # [x] @ [n])" using np by (simp add: linked_def h'_def)
  ultimately have "links h' (s # (ys @ [x] @ zs) @ [s])" using cut_ring [OF c, of h' "[x]"] by blast
  then have "ring h' s (ys @ x # zs)" using d x by (auto simp: ring_def)
  moreover have "hd (zs @ [s]) = n" using c by (simp add: cut_def)
  ultimately show ?thesis using at by auto
qed

lemma ring_remove:
  assumes r: "ring h s (ys @ x # zs)"
  shows "ring (detach x h) s (ys @ zs) \<and> prev_ptr (detach x h) x = None \<and> next_ptr (detach x h) x = None"
proof -
  have d: "distinct (s # ys @ zs)" and x: "x \<notin> set (s # ys @ zs)" using r by (auto simp: ring_def)
  obtain as p n bs where c: "cut s ys zs as p n bs" using cut_ex [OF d] by blast
  from r cut_ring [OF c, of h "[x]"] have
    l: "links h (as @ [p])" "linked h p x" "linked h x n" "links h (n # bs)" by (simp_all add: ring_def)
  define h' where "h' = \<lparr>prev_ptr = (prev_ptr h)(n := Some p, x := None),
      next_ptr = (next_ptr h)(p := Some n, x := None)\<rparr>"
  have np: "p \<noteq> x" "n \<noteq> x" using x cut_sets [OF c] by auto
  have de: "detach x h = h'"
    using l(2,3) np by (simp add: detach_def heap_access h'_def linked_def Let_def)
  have "links h' (as @ [p]) \<and> links h' (n # bs)"
    by (rule cut_frame [OF c x l(1,4)]) (simp_all add: h'_def)
  moreover have "links h' (p # [] @ [n])" using np by (simp add: linked_def h'_def)
  ultimately have "links h' (s # (ys @ [] @ zs) @ [s])" using cut_ring [OF c, of h' "[]"] by blast
  then have "ring h' s (ys @ zs)" using d by (auto simp: ring_def)
  then show ?thesis by (simp add: de h'_def)
qed

lemma ring_first: "ring h s xs \<Longrightarrow> next_ptr h s = Some (hd (xs @ [s]))"
  by (cases xs) (auto simp: ring_def linked_def)

lemma ring_last: "ring h s xs \<Longrightarrow> prev_ptr h s = Some (last (s # xs))"
proof (cases xs rule: rev_cases)
  case (snoc ys y)
  assume "ring h s xs"
  then have "links h ((s # ys) @ y # [s])" using snoc by (simp add: ring_def)
  then have "links h (y # [s])" using links_append [of h "s # ys" y "[s]"] by blast
  then show ?thesis using snoc by (simp add: linked_def)
qed (auto simp: ring_def linked_def)

lemma ring_empty: "ring h s xs \<Longrightarrow> list_empty s h \<longleftrightarrow> xs = []"
  using ring_first [of h s xs] by (cases xs) (auto simp: list_empty_def heap_access ring_def)

section \<open>The contract: a sequence of nodes\<close>

text \<open>
  What the caches rely on. \<open>repr h xs\<close> says that the list consists of the nodes \<open>xs\<close>, and
  \<open>free h x\<close> that \<open>x\<close> may be linked.
\<close>

locale node_sequence =
  fixes repr :: "'h \<Rightarrow> addr list \<Rightarrow> bool"
    and free :: "addr \<Rightarrow> bool"
    and to_front :: "addr \<Rightarrow> 'h \<Rightarrow> 'h option"
    and to_back :: "addr \<Rightarrow> 'h \<Rightarrow> 'h option"
    and unlink :: "addr \<Rightarrow> 'h \<Rightarrow> 'h"
    and take_back :: "'h \<Rightarrow> (addr option \<times> 'h) option"
  assumes repr_distinct: "repr h xs \<Longrightarrow> distinct xs"
    and front_law: "repr h xs \<Longrightarrow> free x \<Longrightarrow> x \<notin> set xs \<Longrightarrow>
      \<exists>h'. to_front x h = Some h' \<and> repr h' (x # xs)"
    and back_law: "repr h xs \<Longrightarrow> free x \<Longrightarrow> x \<notin> set xs \<Longrightarrow>
      \<exists>h'. to_back x h = Some h' \<and> repr h' (xs @ [x])"
    and unlink_law: "repr h (ys @ x # zs) \<Longrightarrow> repr (unlink x h) (ys @ zs)"
    and take_back_law: "repr h xs \<Longrightarrow>
      \<exists>h'. take_back h = Some (if xs = [] then None else Some (last xs), h') \<and> repr h' (butlast xs)"
begin

text \<open>Promotion, the step both caches make on a hit: unlink, then link at the front.\<close>

lemma promote_law:
  assumes "repr h xs" "x \<in> set xs" "free x"
  shows "\<exists>h'. to_front x (unlink x h) = Some h' \<and> repr h' (x # remove1 x xs)"
proof -
  have "distinct xs" using assms(1) by (rule repr_distinct)
  from assms(2) obtain ys zs where xs: "xs = ys @ x # zs" "x \<notin> set ys" by (metis split_list_first)
  have "repr (unlink x h) (ys @ zs)" using assms(1) xs(1) by (auto intro: unlink_law)
  moreover note \<open>distinct xs\<close>
  moreover have "x \<notin> set (ys @ zs)" "remove1 x xs = ys @ zs"
    using xs \<open>distinct xs\<close> by (auto simp: remove1_append)
  ultimately show ?thesis using front_law [of "unlink x h" "ys @ zs" x] assms(3) by simp
qed

end

interpretation ring_list: node_sequence "\<lambda>h. ring h s" "\<lambda>x. x \<noteq> s" "push_front s" "push_back s"
    detach "pop_back s" for s
proof unfold_locales
  fix h xs x
  show "ring h s xs \<Longrightarrow> distinct xs" by (simp add: ring_def)
  show "\<exists>h'. push_front s x h = Some h' \<and> ring h' s (x # xs)"
    if "ring h s xs" "x \<noteq> s" "x \<notin> set xs"
    using ring_insert [of h s "[]" xs x] that ring_first [OF that(1)]
    by (simp add: push_front_def heap_access)
  show "\<exists>h'. push_back s x h = Some h' \<and> ring h' s (xs @ [x])"
    if "ring h s xs" "x \<noteq> s" "x \<notin> set xs"
    using ring_insert [of h s xs "[]" x] that by (simp add: push_back_def)
  show "\<exists>h'. pop_back s h = Some (if xs = [] then None else Some (last xs), h') \<and> ring h' s (butlast xs)"
    if r: "ring h s xs"
  proof (cases xs rule: rev_cases)
    case Nil
    then show ?thesis using r ring_empty [OF r] by (simp add: pop_back_def)
  next
    case (snoc ys y)
    then show ?thesis
      using r ring_empty [OF r] ring_last [OF r] ring_remove [of h s ys y "[]"]
      by (simp add: pop_back_def heap_access)
  qed
next
  fix h ys x zs
  show "ring h s (ys @ x # zs) \<Longrightarrow> ring (detach x h) s (ys @ zs)"
    using ring_remove by blast
qed

lemma new_list_ring: "ring (new_list s h) s []"
  by (simp add: ring_def new_list_def heap_access linked_def)

lemma pop_front_law:
  assumes "ring h s xs"
  shows "\<exists>h'. pop_front s h = Some (if xs = [] then None else Some (hd xs), h') \<and> ring h' s (tl xs)"
proof (cases xs)
  case Nil
  then show ?thesis using assms ring_empty [OF assms] by (simp add: pop_front_def)
next
  case (Cons y ys)
  then show ?thesis
    using assms ring_empty [OF assms] ring_first [OF assms] ring_remove [of h s "[]" y ys]
    by (simp add: pop_front_def heap_access)
qed

section \<open>Properties\<close>

text \<open>
  C39: on every ring of distinct nodes, the empty one included, the operations never dereference a null pointer and
  are those of a sequence: \<open>push_front\<close> and \<open>push_back\<close> add a node that is not in the list at the ends; \<open>pop_front\<close> and
  \<open>pop_back\<close> take the node at the ends, or give a null pointer and change nothing when the list is empty, which is what
  \<open>empty\<close> tests; \<open>detach\<close> removes a node from any place and clears its pointers; both directions of links stay
  consistent. A new list is the empty ring.
\<close>

theorem intrusive_list_is_sequence:
  assumes "ring h s xs" "n \<notin> set (s # xs)"
  shows "(\<exists>h'. push_front s n h = Some h' \<and> ring h' s (n # xs)) \<and>
    (\<exists>h'. push_back s n h = Some h' \<and> ring h' s (xs @ [n])) \<and>
    (if xs = [] then pop_front s h = Some (None, h) \<and> pop_back s h = Some (None, h)
     else (\<exists>h'. pop_front s h = Some (Some (hd xs), h') \<and> ring h' s (tl xs)) \<and>
       (\<exists>h'. pop_back s h = Some (Some (last xs), h') \<and> ring h' s (butlast xs))) \<and>
    (\<forall>ys x zs. xs = ys @ x # zs \<longrightarrow>
       ring (detach x h) s (ys @ zs) \<and> get_prev (detach x h) x = None \<and> get_next (detach x h) x = None) \<and>
    (list_empty s h \<longleftrightarrow> xs = []) \<and> ring (new_list s h) s []"
  using ring_list.front_law [OF assms(1), of n] ring_list.back_law [OF assms(1), of n]
    ring_list.take_back_law [OF assms(1)] pop_front_law [OF assms(1)] ring_empty [OF assms(1)] new_list_ring [of s h]
    ring_remove [of h s] assms
  by (auto simp: heap_access pop_front_def pop_back_def)

definition three_nodes :: list_heap where
  "three_nodes = \<lparr>prev_ptr = (\<lambda>a. if a = 1 then Some 0 else if a = 2 then Some 1 else if a = 3 then Some 2 else if a = 0 then Some 3 else None),
     next_ptr = (\<lambda>a. if a = 0 then Some 1 else if a = 1 then Some 2 else if a = 2 then Some 3 else if a = 3 then Some 0 else None)\<rparr>"

theorem intrusive_list_is_sequence_witness:
  "(\<exists>h'. push_front 0 4 three_nodes = Some h' \<and> ring h' 0 [4, 1, 2, 3]) \<and>
    (\<exists>h'. pop_back 0 three_nodes = Some (Some 3, h') \<and> ring h' 0 [1, 2]) \<and>
    ring (detach 2 three_nodes) 0 [1, 3] \<and>
    (\<exists>h'. push_back 0 4 (new_list 0 three_nodes) = Some h' \<and> ring h' 0 [4]) \<and>
    pop_front 0 (new_list 0 three_nodes) = Some (None, new_list 0 three_nodes)"
proof -
  have r: "ring three_nodes 0 [1, 2, 3]" by (simp add: ring_def linked_def three_nodes_def)
  have n: "(4::addr) \<notin> set (0 # [1, 2, 3])" "(4::addr) \<notin> set (0 # [])" by simp_all
  have "[1, 2, 3] = [1] @ (2::addr) # [3]" by simp
  with intrusive_list_is_sequence [OF r n(1)] have
    "ring (detach 2 three_nodes) 0 ([1] @ [3])" by blast
  with intrusive_list_is_sequence [OF r n(1)] intrusive_list_is_sequence [OF new_list_ring n(2), of three_nodes]
  show ?thesis by simp
qed

end
