(* ===== verification/Indexed_List.thy ===== *)
theory Indexed_List
  imports Intrusive_List
begin

text \<open>
  The pair of containers that both caches keep: an \<open>std::unordered_set<item>\<close> that owns the items
  and finds them by key, and an \<open>intrusive::list<item>\<close> through the same items in order of recency.
  \<open>items\<close> is the set's content, each key with the address and the value of its item; a node-based
  container never moves an item, and a new item gets an address that no live item has.
  The sentinel of the list has address 0.
\<close>

record ('k, 'v) indexed =
  list_of :: list_heap
  items :: "('k \<times> addr \<times> 'v) list"
  fresh :: addr

definition new_indexed :: "('k, 'v) indexed" where
  "new_indexed = \<lparr>list_of = new_list 0 \<lparr>prev_ptr = (\<lambda>_. None), next_ptr = (\<lambda>_. None)\<rparr>, items = [], fresh = 1\<rparr>"

definition index_size :: "('k, 'v) indexed \<Rightarrow> nat" where
  "index_size s = length (items s)"

definition index_find :: "'k \<Rightarrow> ('k, 'v) indexed \<Rightarrow> (addr \<times> 'v) option" where
  "index_find k s = map_of (items s) k"

text \<open>
  \<open>index.insert(item).first\<close>, which is the item already there when the set has the key, then
  \<open>cache.push_front\<close> of it.
\<close>

definition insert_front :: "'k \<Rightarrow> 'v \<Rightarrow> ('k, 'v) indexed \<Rightarrow> ('k, 'v) indexed option" where
  "insert_front k v s =
     (case index_find k s of
        Some (a, _) \<Rightarrow> do { h \<leftarrow> push_front 0 a (list_of s); Some (s\<lparr>list_of := h\<rparr>) }
      | None \<Rightarrow>
          do { h \<leftarrow> push_front 0 (fresh s) (list_of s);
               Some (s\<lparr>list_of := h, items := (k, fresh s, v) # items s, fresh := fresh s + 1\<rparr>) })"

text \<open>\<open>detach()\<close> and \<open>push_front\<close> of an item of the list.\<close>

definition promote :: "addr \<Rightarrow> ('k, 'v) indexed \<Rightarrow> ('k, 'v) indexed option" where
  "promote a s =
     do { h \<leftarrow> push_front 0 a (detach a (list_of s)); Some (s\<lparr>list_of := h\<rparr>) }"

text \<open>\<open>index.erase\<close> of the item at an address.\<close>

definition index_erase :: "addr \<Rightarrow> ('k, 'v) indexed \<Rightarrow> ('k, 'v) indexed" where
  "index_erase a s = s\<lparr>items := filter (\<lambda>(_, a', _). a' \<noteq> a) (items s)\<rparr>"

text \<open>\<open>pop_back()\<close> and erasing the popped item: from an empty list the null pointer is dereferenced.\<close>

definition evict_back :: "('k, 'v) indexed \<Rightarrow> ('k, 'v) indexed option" where
  "evict_back s =
     do { (back_item, h) \<leftarrow> pop_back 0 (list_of s);
          a \<leftarrow> back_item;
          Some (index_erase a (s\<lparr>list_of := h\<rparr>)) }"

definition remove_item :: "addr \<Rightarrow> ('k, 'v) indexed \<Rightarrow> ('k, 'v) indexed" where
  "remove_item a s = index_erase a (s\<lparr>list_of := detach a (list_of s)\<rparr>)"

section \<open>The abstract view: key-value pairs, most recent first\<close>

definition entry :: "addr \<times> 'k \<times> 'v \<Rightarrow> 'k \<times> addr \<times> 'v" where
  "entry = (\<lambda>(a, k, v). (k, a, v))"

definition tracks :: "('k, 'v) indexed \<Rightarrow> (addr \<times> 'k \<times> 'v) list \<Rightarrow> bool" where
  "tracks s es \<longleftrightarrow> ring (list_of s) 0 (map fst es) \<and> mset (items s) = mset (map entry es) \<and>
     distinct (map (fst \<circ> snd) es) \<and> (\<forall>e \<in> set es. fst e < fresh s) \<and> 0 < fresh s"

definition holds :: "('k, 'v) indexed \<Rightarrow> ('k \<times> 'v) list \<Rightarrow> bool" where
  "holds s kvs \<longleftrightarrow> (\<exists>es. tracks s es \<and> kvs = map snd es)"

lemma holdsI: "tracks s es \<Longrightarrow> kvs = map snd es \<Longrightarrow> holds s kvs"
  by (auto simp: holds_def)

lemma holds_distinct: "holds s kvs \<Longrightarrow> distinct (map fst kvs)"
  by (auto simp: holds_def tracks_def)

lemma new_indexed_holds [simp]: "holds new_indexed []"
  using new_list_ring by (auto simp: holds_def tracks_def new_indexed_def)

lemma index_size_holds: "holds s kvs \<Longrightarrow> index_size s = length kvs"
  unfolding holds_def tracks_def index_size_def by (metis length_map mset_eq_length)

lemma index_find_tracks:
  assumes "tracks s es"
  shows "index_find k s = Some (a, v) \<longleftrightarrow> (a, k, v) \<in> set es"
proof -
  have m: "mset (items s) = mset (map entry es)" and d: "distinct (map (fst \<circ> snd) es)"
    using assms by (auto simp: tracks_def)
  have "mset (map fst (items s)) = mset (map (fst \<circ> snd) es)"
    using arg_cong [OF m, of "image_mset fst"]
    by (simp add: entry_def case_prod_unfold multiset.map_comp comp_def)
  then have "distinct (map fst (items s))" using d by (metis mset_eq_imp_distinct_iff)
  then have "index_find k s = Some (a, v) \<longleftrightarrow> (k, a, v) \<in> set (items s)"
    by (simp add: index_find_def)
  also have "set (items s) = entry ` set es" using m by (metis set_map set_mset_mset)
  finally show ?thesis by (force simp: entry_def)
qed

lemma index_find_holds:
  "holds s kvs \<Longrightarrow> map_option snd (index_find k s) = map_of kvs k"
proof -
  assume h: "holds s kvs"
  then obtain es where es: "tracks s es" "kvs = map snd es" by (auto simp: holds_def)
  show ?thesis
  proof (cases "index_find k s")
    case None
    have "k \<notin> fst ` set kvs"
    proof
      assume "k \<in> fst ` set kvs"
      then obtain a v where "(a, k, v) \<in> set es" using es(2) by auto
      then show False using index_find_tracks [OF es(1)] None by force
    qed
    then show ?thesis using None by (metis map_of_eq_None_iff option.map(1))
  next
    case (Some p)
    then have "(k, snd p) \<in> set kvs"
      using index_find_tracks [OF es(1), of k "fst p" "snd p"] es(2) by force
    then show ?thesis using Some holds_distinct [OF h] by simp
  qed
qed

lemma insert_front_holds:
  assumes "holds s kvs" "k \<notin> fst ` set kvs"
  shows "\<exists>s'. insert_front k v s = Some s' \<and> holds s' ((k, v) # kvs)"
proof -
  from assms obtain es where es: "tracks s es" "kvs = map snd es" by (auto simp: holds_def)
  have "fresh s \<notin> set (map fst es)" "fresh s \<noteq> 0" using es(1) by (auto simp: tracks_def)
  with es(1) obtain h where h: "push_front 0 (fresh s) (list_of s) = Some h"
      "ring h 0 (fresh s # map fst es)"
    using ring_list.front_law [of "list_of s" 0 "map fst es" "fresh s"] by (auto simp: tracks_def)
  let ?s = "s\<lparr>list_of := h, items := (k, fresh s, v) # items s, fresh := fresh s + 1\<rparr>"
  have 1: "mset (items ?s) = mset (map entry ((fresh s, k, v) # es))"
    using es(1) by (simp add: tracks_def entry_def)
  have 2: "distinct (map (fst \<circ> snd) ((fresh s, k, v) # es))"
  proof -
    have "k \<notin> set (map (fst \<circ> snd) es)" using es(2) assms(2) by (simp add: image_comp)
    moreover have "distinct (map (fst \<circ> snd) es)" using es(1) by (simp add: tracks_def)
    ultimately show ?thesis by simp
  qed
  have 3: "\<forall>e \<in> set ((fresh s, k, v) # es). fst e < fresh ?s"
  proof -
    have "\<forall>e \<in> set es. fst e < fresh s" using es(1) unfolding tracks_def by blast
    then have "\<forall>e \<in> set es. fst e < Suc (fresh s)" by (blast intro: less_SucI)
    then show ?thesis by simp
  qed
  have 4: "ring (list_of ?s) 0 (map fst ((fresh s, k, v) # es))" "0 < fresh ?s" using h(2) by simp_all
  have "tracks ?s ((fresh s, k, v) # es)"
    unfolding tracks_def by (intro conjI 1 2 3 4)
  moreover have "(k, v) # kvs = map snd ((fresh s, k, v) # es)" using es(2) by simp
  ultimately have "holds ?s ((k, v) # kvs)" by (rule holdsI)
  moreover have "index_find k s = None"
    using index_find_holds [OF assms(1), of k] assms(2) by (metis map_of_eq_None_iff option.map_disc_iff)
  ultimately show ?thesis using h(1) by (simp add: insert_front_def)
qed

lemma tracks_split:
  assumes "tracks s es" "(a, k, v) \<in> set es"
  shows "\<exists>xs ys. es = xs @ (a, k, v) # ys \<and> a \<notin> fst ` set (xs @ ys) \<and> k \<notin> (fst \<circ> snd) ` set (xs @ ys)"
proof -
  from assms(2) obtain xs ys where es: "es = xs @ (a, k, v) # ys" by (meson split_list)
  have "distinct (map fst es)" "distinct (map (fst \<circ> snd) es)"
    using assms(1) by (auto simp: tracks_def ring_def)
  then show ?thesis using es by (intro exI [of _ xs] exI [of _ ys]) auto
qed

text \<open>Moving the pair of a key to the front.\<close>

definition to_top :: "'k \<Rightarrow> ('k \<times> 'v) list \<Rightarrow> ('k \<times> 'v) list" where
  "to_top k kvs = filter (\<lambda>e. fst e = k) kvs @ filter (\<lambda>e. fst e \<noteq> k) kvs"

lemma filter_key_split:
  "k \<notin> fst ` set (xs @ ys) \<Longrightarrow> filter (\<lambda>e. fst e = k) (xs @ (k, v) # ys) = [(k, v)] \<and>
     filter (\<lambda>e. fst e \<noteq> k) (xs @ (k, v) # ys) = xs @ ys"
proof -
  assume "k \<notin> fst ` set (xs @ ys)"
  then have "filter (\<lambda>e. fst e = k) xs = []" "filter (\<lambda>e. fst e = k) ys = []"
    "filter (\<lambda>e. fst e \<noteq> k) xs = xs" "filter (\<lambda>e. fst e \<noteq> k) ys = ys"
    by (auto simp: filter_empty_conv filter_id_conv)
  then show ?thesis by simp
qed

lemma promote_holds:
  assumes "holds s kvs" "index_find k s = Some (a, v)"
  shows "\<exists>s'. promote a s = Some s' \<and> holds s' (to_top k kvs) \<and> items s' = items s"
proof -
  from assms obtain es where es: "tracks s es" "kvs = map snd es" by (auto simp: holds_def)
  from index_find_tracks [OF es(1)] assms(2) have "(a, k, v) \<in> set es" by blast
  from tracks_split [OF es(1) this] obtain xs ys where
    sp: "es = xs @ (a, k, v) # ys" "a \<notin> fst ` set (xs @ ys)" "k \<notin> (fst \<circ> snd) ` set (xs @ ys)" by blast
  have r: "ring (list_of s) 0 (map fst es)" using es(1) by (simp add: tracks_def)
  have "a \<noteq> 0" using r sp(1) by (auto simp: ring_def)
  from ring_list.promote_law [OF r _ this] sp(1) obtain h where
    h: "push_front 0 a (detach a (list_of s)) = Some h" "ring h 0 (a # remove1 a (map fst es))" by auto
  have "a \<notin> set (map fst xs)" using sp(2) by auto
  then have "remove1 a (map fst es) = map fst (xs @ ys)" using sp(1) by (simp add: remove1_append)
  then have "tracks (s\<lparr>list_of := h\<rparr>) ((a, k, v) # xs @ ys)"
    using es(1) h(2) sp by (auto simp: tracks_def)
  moreover have "to_top k kvs = map snd ((a, k, v) # xs @ ys)"
    using filter_key_split [of k "map snd xs" "map snd ys" v] sp es(2)
    by (simp add: to_top_def image_Un image_comp)
  ultimately have "holds (s\<lparr>list_of := h\<rparr>) (to_top k kvs)" by (rule holdsI)
  then show ?thesis using h(1) by (simp add: promote_def)
qed

lemma erase_tracks:
  assumes "tracks s (xs @ (a, k, v) # ys)" "a \<notin> fst ` set (xs @ ys)" "ring h 0 (map fst (xs @ ys))"
  shows "tracks (index_erase a (s\<lparr>list_of := h\<rparr>)) (xs @ ys)"
proof -
  have "mset (filter (\<lambda>(_, a', _). a' \<noteq> a) (items s)) =
      filter_mset (\<lambda>(_, a', _). a' \<noteq> a) (mset (map entry (xs @ (a, k, v) # ys)))"
    using assms(1) by (simp add: tracks_def)
  also have "\<dots> = mset (filter (\<lambda>(_, a', _). a' \<noteq> a) (map entry (xs @ (a, k, v) # ys)))" by simp
  also have "filter (\<lambda>(_, a', _). a' \<noteq> a) (map entry (xs @ (a, k, v) # ys)) = map entry (xs @ ys)"
  proof -
    have "filter (\<lambda>e. fst e \<noteq> a) xs = xs" "filter (\<lambda>e. fst e \<noteq> a) ys = ys"
      using assms(2) by (auto simp: filter_id_conv)
    then show ?thesis by (simp add: filter_map comp_def entry_def case_prod_unfold)
  qed
  finally show ?thesis using assms by (auto simp: tracks_def index_erase_def)
qed

lemma evict_back_holds:
  assumes "holds s kvs" "kvs \<noteq> []"
  shows "\<exists>s'. evict_back s = Some s' \<and> holds s' (butlast kvs)"
proof -
  from assms obtain es where es: "tracks s es" "kvs = map snd es" by (auto simp: holds_def)
  with assms(2) obtain xs a k v where xs: "es = xs @ [(a, k, v)]" by (cases es rule: rev_cases) auto
  have r: "ring (list_of s) 0 (map fst es)" using es(1) by (simp add: tracks_def)
  from ring_list.take_back_law [OF r] xs obtain h where
    h: "pop_back 0 (list_of s) = Some (Some a, h)" "ring h 0 (map fst xs)" by auto
  have "a \<notin> fst ` set (xs @ [])" using r xs by (auto simp: ring_def)
  from erase_tracks [of s xs a k v "[]", OF _ this] es(1) xs h(2)
  have "tracks (index_erase a (s\<lparr>list_of := h\<rparr>)) xs" by simp
  then have "holds (index_erase a (s\<lparr>list_of := h\<rparr>)) (butlast kvs)"
    using es(2) xs by (auto simp: holds_def)
  then show ?thesis using h(1) by (simp add: evict_back_def)
qed

lemma evict_back_empty: "holds s [] \<Longrightarrow> evict_back s = None"
  using ring_list.take_back_law [of "list_of s" 0 "[]"]
  by (auto simp: holds_def tracks_def evict_back_def)

lemma remove_item_holds:
  assumes "holds s kvs" "index_find k s = Some (a, v)"
  shows "holds (remove_item a s) (filter (\<lambda>e. fst e \<noteq> k) kvs)"
proof -
  from assms obtain es where es: "tracks s es" "kvs = map snd es" by (auto simp: holds_def)
  from index_find_tracks [OF es(1)] assms(2) have "(a, k, v) \<in> set es" by blast
  from tracks_split [OF es(1) this] obtain xs ys where
    sp: "es = xs @ (a, k, v) # ys" "a \<notin> fst ` set (xs @ ys)" "k \<notin> (fst \<circ> snd) ` set (xs @ ys)" by blast
  have "ring (list_of s) 0 (map fst xs @ a # map fst ys)" using es(1) sp(1) by (simp add: tracks_def)
  then have "ring (detach a (list_of s)) 0 (map fst (xs @ ys))" using ring_remove by fastforce
  from erase_tracks [OF _ sp(2) this] es(1) sp(1) have "tracks (remove_item a s) (xs @ ys)"
    by (simp add: remove_item_def)
  moreover have "filter (\<lambda>e. fst e \<noteq> k) kvs = map snd (xs @ ys)"
    using filter_key_split [of k "map snd xs" "map snd ys" v] sp es(2) by (simp add: image_Un image_comp)
  ultimately show ?thesis by (rule holdsI)
qed


lemma to_top_length [simp, len_simps]: "length (to_top k kvs) = length kvs"
  by (simp add: to_top_def sum_length_filter_compl)

lemma to_top_keys: "k \<in> fst ` set kvs \<Longrightarrow> distinct (map fst kvs) \<Longrightarrow>
   map fst (to_top k kvs) = k # filter (\<lambda>x. x \<noteq> k) (map fst kvs)"
proof -
  assume "k \<in> fst ` set kvs" and d: "distinct (map fst kvs)"
  then obtain v where "(k, v) \<in> set kvs" by auto
  then obtain xs ys where kvs: "kvs = xs @ (k, v) # ys" by (meson split_list)
  with d have "k \<notin> fst ` set (xs @ ys)" by auto
  note f = filter_key_split [OF this, of v]
  have "filter (\<lambda>x. x \<noteq> k) (map fst kvs) = map fst (filter (\<lambda>e. fst e \<noteq> k) kvs)"
    by (simp add: filter_map comp_def)
  then show ?thesis using f unfolding to_top_def kvs by (simp only: map_append list.map fst_conv append_Cons append_Nil)
qed

lemma to_top_set [simp]: "set (to_top k kvs) = set kvs"
  by (auto simp: to_top_def)

lemma new_indexed_empty [simp]:
  "index_find k new_indexed = None" "index_size new_indexed = 0" "evict_back new_indexed = None"
  using evict_back_empty [OF new_indexed_holds]
  by (simp_all add: index_find_def index_size_def) (simp_all add: new_indexed_def)

end
