(* ===== verification/Lru_Cache.thy ===== *)
theory Lru_Cache
  imports Indexed_List
begin

text \<open>
  \<open>lru<Key, Value>\<close> of \<open>cache/lru.hpp\<close> over the indexed list. \<open>put\<close> of a present key promotes it
  and keeps the old value (the code has a TODO there). \<open>get\<close> returns a pointer to the value or a null
  pointer, here the value as an option. The result \<open>None\<close> is a null pointer dereference.
\<close>

record ('k, 'v) lru =
  capacity :: nat
  store :: "('k, 'v) indexed"

definition new_lru :: "nat \<Rightarrow> ('k, 'v) lru" where
  "new_lru cap = \<lparr>capacity = cap, store = new_indexed\<rparr>"

definition lru_size :: "('k, 'v) lru \<Rightarrow> nat" where
  "lru_size c = index_size (store c)"

definition lru_put :: "'k \<Rightarrow> 'v \<Rightarrow> ('k, 'v) lru \<Rightarrow> ('k, 'v) lru option" where
  "lru_put k v c =
     (case index_find k (store c) of
        None \<Rightarrow>
          do { s \<leftarrow> (if lru_size c = capacity c then evict_back (store c) else Some (store c));
               s' \<leftarrow> insert_front k v s;
               Some (c\<lparr>store := s'\<rparr>) }
      | Some (hit, _) \<Rightarrow> do { s \<leftarrow> promote hit (store c); Some (c\<lparr>store := s\<rparr>) })"

definition lru_get :: "'k \<Rightarrow> ('k, 'v) lru \<Rightarrow> ('v option \<times> ('k, 'v) lru) option" where
  "lru_get k c =
     (case index_find k (store c) of
        None \<Rightarrow> Some (None, c)
      | Some (hit, v) \<Rightarrow> do { s \<leftarrow> promote hit (store c); Some (Some v, c\<lparr>store := s\<rparr>) })"

lemma new_lru_sel [simp]: "capacity (new_lru cap) = cap" "store (new_lru cap) = new_indexed"
  by (simp_all add: new_lru_def)

section \<open>Specification: a bounded list in order of recency\<close>

definition spec_put :: "nat \<Rightarrow> 'k \<Rightarrow> 'v \<Rightarrow> ('k \<times> 'v) list \<Rightarrow> ('k \<times> 'v) list" where
  "spec_put cap k v kvs =
     (if k \<in> fst ` set kvs then to_top k kvs
      else (k, v) # (if length kvs = cap then butlast kvs else kvs))"

definition spec_get :: "'k \<Rightarrow> ('k \<times> 'v) list \<Rightarrow> ('k \<times> 'v) list" where
  "spec_get k kvs = (if k \<in> fst ` set kvs then to_top k kvs else kvs)"

lemma find_iff_key: "holds s kvs \<Longrightarrow> k \<in> fst ` set kvs \<longleftrightarrow> index_find k s \<noteq> None"
  using index_find_holds [of s kvs k] by (metis map_of_eq_None_iff option.map_disc_iff)

lemma lru_put_refines:
  assumes "holds (store c) kvs" "0 < capacity c"
  shows "\<exists>c'. lru_put k v c = Some c' \<and> capacity c' = capacity c \<and>
    holds (store c') (spec_put (capacity c) k v kvs)"
proof (cases "index_find k (store c)")
  case (Some p)
  obtain a v' where p: "index_find k (store c) = Some (a, v')" using Some by (cases p) simp
  moreover have "k \<in> fst ` set kvs" using find_iff_key [OF assms(1)] Some by blast
  ultimately show ?thesis using promote_holds [OF assms(1) p]
    by (auto simp: lru_put_def spec_put_def)
next
  case None
  then have k: "k \<notin> fst ` set kvs" using find_iff_key [OF assms(1)] by blast
  have len: "lru_size c = length kvs" by (simp add: lru_size_def index_size_holds [OF assms(1)])
  let ?rest = "if length kvs = capacity c then butlast kvs else kvs"
  obtain s where s: "(if lru_size c = capacity c then evict_back (store c) else Some (store c)) = Some s"
      "holds s ?rest"
  proof (cases "length kvs = capacity c")
    case True
    then have "kvs \<noteq> []" using assms(2) by auto
    from evict_back_holds [OF assms(1) this] True show ?thesis using that len by auto
  next
    case False
    then show ?thesis using that assms(1) len by auto
  qed
  have "k \<notin> fst ` set ?rest" using k by (auto dest: in_set_butlastD)
  from insert_front_holds [OF s(2) this, of v] obtain s' where
    "insert_front k v s = Some s'" "holds s' ((k, v) # ?rest)" by blast
  then show ?thesis using None s(1) k by (simp add: lru_put_def spec_put_def)
qed

lemma lru_get_refines:
  assumes "holds (store c) kvs"
  shows "\<exists>c'. lru_get k c = Some (map_of kvs k, c') \<and> capacity c' = capacity c \<and>
    holds (store c') (spec_get k kvs)"
proof (cases "index_find k (store c)")
  case (Some p)
  obtain a v where p: "index_find k (store c) = Some (a, v)" using Some by (cases p) simp
  moreover have "k \<in> fst ` set kvs" using find_iff_key [OF assms(1)] Some by blast
  moreover have "map_of kvs k = Some v" using index_find_holds [OF assms(1), of k] p by simp
  ultimately show ?thesis using promote_holds [OF assms(1) p]
    by (auto simp: lru_get_def spec_get_def)
next
  case None
  then have "k \<notin> fst ` set kvs" using find_iff_key [OF assms(1)] by blast
  moreover have "map_of kvs k = None" using calculation by (simp add: map_of_eq_None_iff)
  ultimately show ?thesis using None assms by (simp add: lru_get_def spec_get_def)
qed

section \<open>Histories\<close>

datatype ('k, 'v) cache_call = Put 'k 'v | Get 'k

fun run_lru :: "('k, 'v) cache_call list \<Rightarrow> ('k, 'v) lru \<Rightarrow> ('k, 'v) lru option" where
  "run_lru [] c = Some c"
| "run_lru (Put k v # cs) c = do { c' \<leftarrow> lru_put k v c; run_lru cs c' }"
| "run_lru (Get k # cs) c = do { (_, c') \<leftarrow> lru_get k c; run_lru cs c' }"

fun run_spec :: "nat \<Rightarrow> ('k, 'v) cache_call list \<Rightarrow> ('k \<times> 'v) list \<Rightarrow> ('k \<times> 'v) list" where
  "run_spec cap [] kvs = kvs"
| "run_spec cap (Put k v # cs) kvs = run_spec cap cs (spec_put cap k v kvs)"
| "run_spec cap (Get k # cs) kvs = run_spec cap cs (spec_get k kvs)"

lemma run_lru_refines:
  assumes "holds (store c) kvs" "0 < capacity c"
  shows "\<exists>c'. run_lru cs c = Some c' \<and> capacity c' = capacity c \<and>
    holds (store c') (run_spec (capacity c) cs kvs)"
  using assms
proof (induction cs arbitrary: c kvs)
  case (Cons call cs)
  show ?case
  proof (cases call)
    case (Put k v)
    from lru_put_refines [OF Cons.prems, of k v] obtain c1 where
      "lru_put k v c = Some c1" "capacity c1 = capacity c"
      "holds (store c1) (spec_put (capacity c) k v kvs)" by blast
    with Cons.IH [of c1] Cons.prems Put show ?thesis by fastforce
  next
    case (Get k)
    from lru_get_refines [OF Cons.prems(1), of k] obtain c1 where
      "lru_get k c = Some (map_of kvs k, c1)" "capacity c1 = capacity c"
      "holds (store c1) (spec_get k kvs)" by blast
    with Cons.IH [of c1] Cons.prems Get show ?thesis by fastforce
  qed
qed simp

text \<open>
  \<open>recent cap cs r\<close>: all keys ever used, most recently used first, starting from \<open>r\<close>. A \<open>put\<close> uses its
  key; a \<open>get\<close> uses its key when the key is among the \<open>cap\<close> most recent ones.
\<close>

definition use_key :: "'k \<Rightarrow> 'k list \<Rightarrow> 'k list" where
  "use_key k r = k # filter (\<lambda>x. x \<noteq> k) r"

fun recent :: "nat \<Rightarrow> ('k, 'v) cache_call list \<Rightarrow> 'k list \<Rightarrow> 'k list" where
  "recent cap [] r = r"
| "recent cap (Put k v # cs) r = recent cap cs (use_key k r)"
| "recent cap (Get k # cs) r = recent cap cs (if k \<in> set (take cap r) then use_key k r else r)"

lemma take_filter_out:
  "distinct r \<Longrightarrow> k \<in> set (take (Suc n) r) \<Longrightarrow>
   take n (filter (\<lambda>x. x \<noteq> k) r) = filter (\<lambda>x. x \<noteq> k) (take (Suc n) r)"
proof (induction r arbitrary: n)
  case (Cons x r)
  show ?case
  proof (cases "x = k")
    case True
    then have "k \<notin> set r" using Cons.prems(1) by auto
    then have "filter (\<lambda>x. x \<noteq> k) r = r" "filter (\<lambda>x. x \<noteq> k) (take n r) = take n r"
      by (auto simp: filter_id_conv dest: in_set_takeD)
    then show ?thesis using True by simp
  next
    case False
    then have "k \<in> set (take n r)" using Cons.prems(2) by auto
    then obtain m where "n = Suc m" by (cases n) auto
    then show ?thesis using False Cons by simp
  qed
qed simp

lemma take_use_key:
  assumes "distinct r" "k \<in> set (take (Suc n) r)"
  shows "take (Suc n) (use_key k r) = use_key k (take (Suc n) r)"
  using take_filter_out [OF assms] by (simp add: use_key_def)

lemma take_use_key_new:
  assumes "distinct r" "k \<notin> set (take (Suc n) r)"
  shows "take (Suc n) (use_key k r) = k # take n r"
proof -
  have "filter (\<lambda>x. x \<noteq> k) (take (Suc n) r) = take (Suc n) r"
    using assms(2) by (auto simp: filter_id_conv)
  then have f: "filter (\<lambda>x. x \<noteq> k) r = take (Suc n) r @ filter (\<lambda>x. x \<noteq> k) (drop (Suc n) r)"
    by (metis append_take_drop_id filter_append)
  show ?thesis
  proof (cases "length r \<le> n")
    case True
    then show ?thesis unfolding use_key_def f by simp
  next
    case False
    then show ?thesis unfolding use_key_def f by (simp add: min_def)
  qed
qed

lemma recent_distinct: "distinct r \<Longrightarrow> distinct (recent cap cs r)"
  by (induction cap cs r rule: recent.induct) (auto simp: use_key_def)

lemma run_spec_recent:
  assumes "map fst kvs = take (Suc n) r" "distinct r"
  shows "map fst (run_spec (Suc n) cs kvs) = take (Suc n) (recent (Suc n) cs r)"
  using assms
proof (induction cs arbitrary: kvs r)
  case (Cons call cs)
  have d: "distinct (map fst kvs)" using Cons.prems by (simp add: distinct_take)
  have mem: "k \<in> fst ` set kvs \<longleftrightarrow> k \<in> set (take (Suc n) r)" for k
    using Cons.prems(1) by (metis set_map)
  have hit: "map fst (to_top k kvs) = take (Suc n) (use_key k r)" if "k \<in> set (take (Suc n) r)" for k
    using to_top_keys [OF _ d, of k] that mem Cons.prems take_use_key [OF Cons.prems(2) that]
    by (simp add: use_key_def)
  have u: "distinct (use_key k r)" for k using Cons.prems(2) by (simp add: use_key_def)
  show ?case
  proof (cases call)
    case (Put k v)
    have "map fst (spec_put (Suc n) k v kvs) = take (Suc n) (use_key k r)"
    proof (cases "k \<in> set (take (Suc n) r)")
      case True
      then show ?thesis using hit mem by (simp add: spec_put_def)
    next
      case False
      have "map fst (if length kvs = Suc n then butlast kvs else kvs) = take n r"
      proof (cases "length kvs = Suc n")
        case True
        then have "map fst (butlast kvs) = butlast (take (Suc n) r)"
          using Cons.prems(1) by (simp add: map_butlast)
        moreover have "length (take (Suc n) r) = Suc n"
          using arg_cong [OF Cons.prems(1), of length] True by simp
        ultimately show ?thesis using True by (simp add: butlast_take)
      next
        case False
        then have "length (take (Suc n) r) < Suc n"
          using arg_cong [OF Cons.prems(1), of length] by simp
        then have "length r \<le> n" by simp
        then show ?thesis using False Cons.prems(1) by simp
      qed
      then show ?thesis using False mem take_use_key_new [OF Cons.prems(2) False]
        by (simp add: spec_put_def)
    qed
    from Cons.IH [OF this u] show ?thesis using Put by simp
  next
    case (Get k)
    then show ?thesis
      using Cons.IH [OF hit u, of k] Cons.IH [OF Cons.prems] mem by (auto simp: spec_get_def)
  qed
qed simp

section \<open>Properties\<close>

text \<open>
  C3: over every history of \<open>put\<close> and \<open>get\<close> calls on a cache of positive capacity, with the
  items in a hash set and a pointer ring, no null pointer is dereferenced, the cache behaves as the bounded
  recency list, holds exactly the \<open>capacity\<close> most recently used distinct keys in order of use, its size
  never exceeds the capacity, and \<open>get\<close> returns the value of the specification.
\<close>

theorem lru_keeps_most_recent:
  assumes "0 < cap"
  shows "\<exists>c kvs. run_lru cs (new_lru cap) = Some c \<and> holds (store c) kvs \<and>
    kvs = run_spec cap cs [] \<and> map fst kvs = take cap (recent cap cs []) \<and> lru_size c \<le> cap \<and>
    (\<forall>k. \<exists>c'. lru_get k c = Some (map_of kvs k, c'))"
proof -
  from run_lru_refines [of "new_lru cap" "[]" cs] assms obtain c where
    c: "run_lru cs (new_lru cap) = Some c" "holds (store c) (run_spec cap cs [])" by auto
  obtain n where n: "cap = Suc n" using assms by (cases cap) auto
  have keys: "map fst (run_spec cap cs []) = take cap (recent cap cs [])"
    unfolding n by (rule run_spec_recent) auto
  have "lru_size c \<le> cap"
    using index_size_holds [OF c(2)] arg_cong [OF keys, of length] by (simp add: lru_size_def)
  with c keys show ?thesis using lru_get_refines [OF c(2)] by blast
qed

theorem lru_keeps_most_recent_witness:
  "\<exists>c kvs. run_lru [Put 1 True, Put 2 False, Get 1, Put (3::nat) True] (new_lru 2) = Some c \<and> holds (store c) kvs \<and>
    kvs = run_spec 2 [Put 1 True, Put 2 False, Get 1, Put 3 True] [] \<and>
    map fst kvs = take 2 (recent 2 [Put 1 True, Put 2 False, Get 1, Put 3 True] []) \<and> lru_size c \<le> 2 \<and>
    (\<forall>k. \<exists>c'. lru_get k c = Some (map_of kvs k, c'))"
  by (rule lru_keeps_most_recent) simp

text \<open>
  A cache of capacity 0 is accepted by the constructor, but its first \<open>put\<close> dereferences
  the null pointer that \<open>pop_back\<close> returns from the empty list.
\<close>

theorem lru_capacity_zero: "lru_put k v (new_lru 0) = None"
  by (simp add: lru_put_def lru_size_def)

end
