(* ===== verification/Lru_K_Cache.thy ===== *)
theory Lru_K_Cache
  imports Lru_Cache
begin

text \<open>
  \<open>lru_k<Key, Value>\<close> of \<open>cache/lru-k.hpp\<close>: a history cache and a buffer cache, each an indexed
  list. An item never moves between the lists: \<open>move_to_buffer_cache_with_promote\<close> copies it. The two overflow
  tests subtract \<open>std::size_t\<close> values, so they hold modulo \<open>2 ^ 64\<close>.
\<close>

record ('k, 'v) lru_k =
  max_size :: nat
  k_limit :: nat
  history :: "('k, 'v) indexed"
  buffer :: "('k, 'v) indexed"

definition new_lru_k :: "nat \<Rightarrow> nat \<Rightarrow> ('k, 'v) lru_k" where
  "new_lru_k cap kk = \<lparr>max_size = cap, k_limit = kk, history = new_indexed, buffer = new_indexed\<rparr>"

definition lru_k_size :: "('k, 'v) lru_k \<Rightarrow> nat" where
  "lru_k_size c = index_size (history c) + index_size (buffer c)"

definition pop_at_history_cache_while_overflow :: "('k, 'v) lru_k \<Rightarrow> ('k, 'v) lru_k option" where
  "pop_at_history_cache_while_overflow c =
     (if (int (max_size c) - int (index_size (history c)) - int (index_size (buffer c))) mod 2 ^ 64 \<noteq> 0
      then Some c
      else do { h \<leftarrow> evict_back (history c); Some (c\<lparr>history := h\<rparr>) })"

definition pop_at_buffer_cache_while_overflow :: "('k, 'v) lru_k \<Rightarrow> ('k, 'v) lru_k option" where
  "pop_at_buffer_cache_while_overflow c =
     (if (int (k_limit c) - int (index_size (buffer c))) mod 2 ^ 64 \<noteq> 0 then Some c
      else do { b \<leftarrow> evict_back (buffer c); Some (c\<lparr>buffer := b\<rparr>) })"

definition promote_buffer :: "addr \<Rightarrow> ('k, 'v) lru_k \<Rightarrow> ('k, 'v) lru_k option" where
  "promote_buffer a c = do { b \<leftarrow> promote a (buffer c); Some (c\<lparr>buffer := b\<rparr>) }"

text \<open>Detach the history item, insert a copy of it into the buffer, erase it from the history.\<close>

definition move_to_buffer_cache_with_promote :: "'k \<Rightarrow> addr \<Rightarrow> 'v \<Rightarrow> ('k, 'v) lru_k \<Rightarrow> ('k, 'v) lru_k option" where
  "move_to_buffer_cache_with_promote k a v c =
     do { b \<leftarrow> insert_front k v (buffer c);
          Some (c\<lparr>buffer := b, history := remove_item a (history c)\<rparr>) }"

definition lru_k_put :: "'k \<Rightarrow> 'v \<Rightarrow> ('k, 'v) lru_k \<Rightarrow> ('k, 'v) lru_k option" where
  "lru_k_put k v c =
     (case index_find k (history c) of
        None \<Rightarrow>
          (case index_find k (buffer c) of
             None \<Rightarrow>
               do { c1 \<leftarrow> pop_at_history_cache_while_overflow c;
                    h \<leftarrow> insert_front k v (history c1);
                    Some (c1\<lparr>history := h\<rparr>) }
           | Some (buffer_hit, _) \<Rightarrow> promote_buffer buffer_hit c)
      | Some (history_hit, v') \<Rightarrow>
          do { c1 \<leftarrow> pop_at_buffer_cache_while_overflow c;
               move_to_buffer_cache_with_promote k history_hit v' c1 })"

definition lru_k_get :: "'k \<Rightarrow> ('k, 'v) lru_k \<Rightarrow> ('v option \<times> ('k, 'v) lru_k) option" where
  "lru_k_get k c =
     (case index_find k (history c) of
        None \<Rightarrow>
          (case index_find k (buffer c) of
             None \<Rightarrow> Some (None, c)
           | Some (buffer_hit, v) \<Rightarrow> do { c1 \<leftarrow> promote_buffer buffer_hit c; Some (Some v, c1) })
      | Some (history_hit, v) \<Rightarrow>
          do { c1 \<leftarrow> move_to_buffer_cache_with_promote k history_hit v c; Some (Some v, c1) })"

lemma new_lru_k_sel [simp]:
  "max_size (new_lru_k cap kk) = cap" "k_limit (new_lru_k cap kk) = kk"
  "history (new_lru_k cap kk) = new_indexed" "buffer (new_lru_k cap kk) = new_indexed"
  by (simp_all add: new_lru_k_def)

section \<open>Specification: two recency lists\<close>

definition without :: "'k \<Rightarrow> ('k \<times> 'v) list \<Rightarrow> ('k \<times> 'v) list" where
  "without k kvs = filter (\<lambda>e. fst e \<noteq> k) kvs"

fun spec_k_put :: "nat \<Rightarrow> nat \<Rightarrow> 'k \<Rightarrow> 'v \<Rightarrow> ('k \<times> 'v) list \<times> ('k \<times> 'v) list \<Rightarrow>
    ('k \<times> 'v) list \<times> ('k \<times> 'v) list" where
  "spec_k_put cap kk k v (hist, buf) =
     (case map_of hist k of
        Some v' \<Rightarrow> (without k hist, (k, v') # (if length buf = kk then butlast buf else buf))
      | None \<Rightarrow>
          if k \<in> fst ` set buf then (hist, to_top k buf)
          else ((k, v) # (if length hist + length buf = cap then butlast hist else hist), buf))"

definition lru_k_rel :: "('k, 'v) lru_k \<Rightarrow> ('k \<times> 'v) list \<times> ('k \<times> 'v) list \<Rightarrow> bool" where
  "lru_k_rel c hb \<longleftrightarrow> holds (history c) (fst hb) \<and> holds (buffer c) (snd hb) \<and>
     fst ` set (fst hb) \<inter> fst ` set (snd hb) = {}"

lemma overflow_test:
  "a < 2 ^ 64 \<Longrightarrow> b \<le> a \<Longrightarrow> (int a - int b) mod 2 ^ 64 \<noteq> 0 \<longleftrightarrow> a \<noteq> b"
proof -
  assume a: "a < 2 ^ 64" "b \<le> a"
  then have "0 \<le> int a - int b" "int a - int b < 2 ^ 64" by auto
  then have "(int a - int b) mod 2 ^ 64 = int a - int b" by simp
  then show ?thesis by simp
qed

lemma pop_history_spec:
  assumes "lru_k_rel c (hist, buf)" "max_size c < 2 ^ 64" "length hist + length buf \<le> max_size c"
    and "hist \<noteq> [] \<or> length hist + length buf < max_size c"
  shows "\<exists>h. pop_at_history_cache_while_overflow c = Some (c\<lparr>history := h\<rparr>) \<and>
    holds h (if length hist + length buf = max_size c then butlast hist else hist)"
proof -
  have h: "holds (history c) hist" and "holds (buffer c) buf" using assms(1) by (auto simp: lru_k_rel_def)
  then have len: "index_size (history c) = length hist" "index_size (buffer c) = length buf"
    by (simp_all add: index_size_holds)
  have test: "(int (max_size c) - int (length hist) - int (length buf)) mod 2 ^ 64 \<noteq> 0 \<longleftrightarrow>
      max_size c \<noteq> length hist + length buf"
    using overflow_test [OF assms(2,3)] by (simp add: diff_diff_eq)
  show ?thesis
  proof (cases "length hist + length buf = max_size c")
    case True
    then have "hist \<noteq> []" using assms(4) by auto
    from evict_back_holds [OF h this] True show ?thesis
      unfolding pop_at_history_cache_while_overflow_def len using test by auto
  next
    case False
    then have "pop_at_history_cache_while_overflow c = Some (c\<lparr>history := history c\<rparr>)"
      unfolding pop_at_history_cache_while_overflow_def len using test by simp
    then show ?thesis using h False by (intro exI [of _ "history c"]) simp
  qed
qed

lemma pop_buffer_spec:
  assumes "lru_k_rel c (hist, buf)" "k_limit c < 2 ^ 64" "length buf \<le> k_limit c" "0 < k_limit c"
  shows "\<exists>b. pop_at_buffer_cache_while_overflow c = Some (c\<lparr>buffer := b\<rparr>) \<and>
    holds b (if length buf = k_limit c then butlast buf else buf)"
proof -
  have b: "holds (buffer c) buf" using assms(1) by (auto simp: lru_k_rel_def)
  then have len: "index_size (buffer c) = length buf" by (simp add: index_size_holds)
  note test = overflow_test [OF assms(2,3)]
  show ?thesis
  proof (cases "length buf = k_limit c")
    case True
    then have "buf \<noteq> []" using assms(4) by auto
    from evict_back_holds [OF b this] True show ?thesis
      using test by (auto simp: pop_at_buffer_cache_while_overflow_def len)
  next
    case False
    then show ?thesis using b test
      by (auto simp: pop_at_buffer_cache_while_overflow_def len intro!: exI [of _ "buffer c"])
  qed
qed

lemma move_to_buffer_spec:
  assumes h: "holds (history c) hist" "index_find k (history c) = Some (a, v)"
    and b: "holds (buffer c) buf" "k \<notin> fst ` set buf"
  shows "\<exists>c'. move_to_buffer_cache_with_promote k a v c = Some c' \<and>
    max_size c' = max_size c \<and> k_limit c' = k_limit c \<and>
    holds (history c') (without k hist) \<and> holds (buffer c') ((k, v) # buf)"
  using insert_front_holds [OF b, of v] remove_item_holds [OF h]
  by (auto simp: move_to_buffer_cache_with_promote_def without_def)

lemma fst_without: "fst ` set (without k kvs) = fst ` set kvs - {k}"
  by (auto simp: without_def)

lemma lru_k_put_refines:
  assumes rel: "lru_k_rel c (hist, buf)" and cap: "max_size c < 2 ^ 64" "length hist + length buf \<le> max_size c"
    and kk: "length buf \<le> k_limit c" "0 < k_limit c" "k_limit c < max_size c"
  shows "\<exists>c'. lru_k_put k v c = Some c' \<and> max_size c' = max_size c \<and> k_limit c' = k_limit c \<and>
    lru_k_rel c' (spec_k_put (max_size c) (k_limit c) k v (hist, buf))"
proof -
  have h: "holds (history c) hist" and b: "holds (buffer c) buf"
    and dj: "fst ` set hist \<inter> fst ` set buf = {}" using rel by (auto simp: lru_k_rel_def)
  have k64: "k_limit c < 2 ^ 64" using cap(1) kk(3) by linarith
  show ?thesis
  proof (cases "index_find k (history c)")
    case (Some p)
    then obtain a v' where p: "index_find k (history c) = Some (a, v')" by (cases p) auto
    have m: "map_of hist k = Some v'" using index_find_holds [OF h, of k] p by simp
    then have "k \<in> fst ` set hist" by (force dest: map_of_SomeD)
    with dj have kb: "k \<notin> fst ` set buf" by blast
    let ?buf = "if length buf = k_limit c then butlast buf else buf"
    from pop_buffer_spec [OF rel k64 kk(1,2)] obtain b' where
      b': "pop_at_buffer_cache_while_overflow c = Some (c\<lparr>buffer := b'\<rparr>)" "holds b' ?buf" by blast
    have sub: "fst ` set ?buf \<subseteq> fst ` set buf" by (auto dest: in_set_butlastD)
    then have "k \<notin> fst ` set ?buf" using kb by blast
    with move_to_buffer_spec [of "c\<lparr>buffer := b'\<rparr>" hist k a v' ?buf] h p b'(2) obtain c' where
      c': "move_to_buffer_cache_with_promote k a v' (c\<lparr>buffer := b'\<rparr>) = Some c'" "max_size c' = max_size c"
        "k_limit c' = k_limit c" "holds (history c') (without k hist)" "holds (buffer c') ((k, v') # ?buf)"
      by auto
    have "fst ` set (without k hist) \<inter> fst ` set ((k, v') # ?buf) = {}"
      using dj sub unfolding fst_without by (simp only: list.set image_insert fst_conv) blast
    then have "lru_k_rel c' (spec_k_put (max_size c) (k_limit c) k v (hist, buf))"
      using c'(4,5) m by (simp add: lru_k_rel_def)
    then show ?thesis using p b'(1) c'(1-3) by (simp add: lru_k_put_def)
  next
    case None
    have m: "map_of hist k = None" "k \<notin> fst ` set hist"
      using index_find_holds [OF h, of k] None find_iff_key [OF h, of k] by auto
    show ?thesis
    proof (cases "index_find k (buffer c)")
      case (Some p)
      then obtain a v' where p: "index_find k (buffer c) = Some (a, v')" by (cases p) auto
      have kb: "k \<in> fst ` set buf" using find_iff_key [OF b, of k] p by simp
      from promote_holds [OF b p] obtain b' where
        b': "promote a (buffer c) = Some b'" "holds b' (to_top k buf)" by blast
      have "lru_k_rel (c\<lparr>buffer := b'\<rparr>) (spec_k_put (max_size c) (k_limit c) k v (hist, buf))"
        using h b'(2) m kb dj by (simp add: lru_k_rel_def)
      then show ?thesis using None p b'(1) by (simp add: lru_k_put_def promote_buffer_def)
    next
      case None': None
      have kb: "k \<notin> fst ` set buf" using find_iff_key [OF b, of k] None' by simp
      let ?hist = "if length hist + length buf = max_size c then butlast hist else hist"
      have "hist \<noteq> [] \<or> length hist + length buf < max_size c" using kk by (cases hist) auto
      from pop_history_spec [OF rel cap this] obtain h' where
        h': "pop_at_history_cache_while_overflow c = Some (c\<lparr>history := h'\<rparr>)" "holds h' ?hist" by blast
      have sub: "fst ` set ?hist \<subseteq> fst ` set hist" by (auto dest: in_set_butlastD)
      then have "k \<notin> fst ` set ?hist" using m(2) by blast
      from insert_front_holds [OF h'(2) this, of v] obtain h'' where
        h'': "insert_front k v h' = Some h''" "holds h'' ((k, v) # ?hist)" by blast
      have "fst ` set ((k, v) # ?hist) \<inter> fst ` set buf = {}"
        using dj sub kb by (simp only: list.set image_insert fst_conv) blast
      then have "lru_k_rel (c\<lparr>history := h''\<rparr>) (spec_k_put (max_size c) (k_limit c) k v (hist, buf))"
        using h''(2) b m(1) kb by (simp add: lru_k_rel_def)
      then show ?thesis using None None' h'(1) h''(1) by (simp add: lru_k_put_def)
    qed
  qed
qed

section \<open>Sequences of put\<close>

fun put_all :: "('k \<times> 'v) list \<Rightarrow> ('k, 'v) lru_k \<Rightarrow> ('k, 'v) lru_k option" where
  "put_all [] c = Some c"
| "put_all ((k, v) # kvs) c = do { c' \<leftarrow> lru_k_put k v c; put_all kvs c' }"

lemma spec_k_put_bounds:
  assumes "length hist + length buf \<le> cap" "length buf \<le> kk" "0 < kk" "kk < cap"
    and "spec_k_put cap kk k v (hist, buf) = (hist', buf')"
  shows "length hist' + length buf' \<le> cap \<and> length buf' \<le> kk"
proof (cases "map_of hist k")
  case (Some v')
  then have "(k, v') \<in> set hist" by (rule map_of_SomeD)
  then have "length (without k hist) < length hist"
    unfolding without_def by (rule length_filter_less) simp
  moreover have "length (if length buf = kk then butlast buf else buf) < kk" using assms(2,3) by auto
  moreover have "length (if length buf = kk then butlast buf else buf) \<le> length buf" by simp
  ultimately show ?thesis using assms(1,5) Some by (auto split: if_splits)
next
  case None
  show ?thesis
  proof (cases "k \<in> fst ` set buf")
    case True
    then show ?thesis using assms None by auto
  next
    case False
    have "hist \<noteq> []" if "length hist + length buf = cap" using that assms(2,4) by auto
    then have "length (if length hist + length buf = cap then butlast hist else hist) + length buf < cap"
      using assms(1) by (cases hist) auto
    then show ?thesis using assms(2,5) None False by auto
  qed
qed

lemma put_all_refines:
  assumes "lru_k_rel c hb" "max_size c < 2 ^ 64" "length (fst hb) + length (snd hb) \<le> max_size c"
    and "length (snd hb) \<le> k_limit c" "0 < k_limit c" "k_limit c < max_size c"
  defines "final \<equiv> \<lambda>kvs. fold (\<lambda>(k, v). spec_k_put (max_size c) (k_limit c) k v) kvs hb"
  shows "\<exists>c'. put_all kvs c = Some c' \<and> lru_k_rel c' (final kvs) \<and>
    length (fst (final kvs)) + length (snd (final kvs)) \<le> max_size c \<and> length (snd (final kvs)) \<le> k_limit c"
  using assms(1-6) unfolding final_def
proof (induction kvs arbitrary: c hb)
  case (Cons kv kvs)
  obtain k v where kv: "kv = (k, v)" by fastforce
  obtain hist buf where hb: "hb = (hist, buf)" by fastforce
  obtain hist' buf' where hb': "spec_k_put (max_size c) (k_limit c) k v hb = (hist', buf')" by fastforce
  from lru_k_put_refines [of c hist buf k v] Cons.prems hb obtain c1 where
    c1: "lru_k_put k v c = Some c1" "max_size c1 = max_size c" "k_limit c1 = k_limit c"
      "lru_k_rel c1 (hist', buf')" using hb' by auto
  have "length hist' + length buf' \<le> max_size c \<and> length buf' \<le> k_limit c"
    by (rule spec_k_put_bounds [where hist = hist and buf = buf and k = k and v = v])
       (use Cons.prems hb hb' in auto)
  then have "\<exists>c'. put_all kvs c1 = Some c' \<and>
      lru_k_rel c' (fold (\<lambda>(k, v). spec_k_put (max_size c) (k_limit c) k v) kvs (hist', buf')) \<and>
      length (fst (fold (\<lambda>(k, v). spec_k_put (max_size c) (k_limit c) k v) kvs (hist', buf'))) +
      length (snd (fold (\<lambda>(k, v). spec_k_put (max_size c) (k_limit c) k v) kvs (hist', buf'))) \<le> max_size c \<and>
      length (snd (fold (\<lambda>(k, v). spec_k_put (max_size c) (k_limit c) k v) kvs (hist', buf'))) \<le> k_limit c"
    using Cons.IH [OF c1(4)] Cons.prems(2,5,6) unfolding c1(2,3) by simp
  then show ?case using kv hb' c1(1) by simp
qed auto

section \<open>Properties\<close>

text \<open>
  C37: for \<open>0 < k < capacity\<close>, every sequence of \<open>put\<close> calls on a new LRU-K cache returns
  without dereferencing a null pointer, keeps at most \<open>capacity\<close> items of which at most \<open>k\<close> in the buffer,
  keeps the two caches disjoint, and evicts and promotes as the two recency lists of the specification.
\<close>

theorem lru_k_put_sequence:
  assumes "0 < kk" "kk < cap" "cap < 2 ^ 64"
  shows "\<exists>c hb. put_all kvs (new_lru_k cap kk) = Some c \<and> lru_k_rel c hb \<and>
    hb = fold (\<lambda>(k, v). spec_k_put cap kk k v) kvs ([], []) \<and>
    lru_k_size c \<le> cap \<and> index_size (buffer c) \<le> kk"
proof -
  define hb where "hb = fold (\<lambda>(k, v). spec_k_put cap kk k v) kvs ([], [])"
  have "lru_k_rel (new_lru_k cap kk) ([], [])" by (simp add: lru_k_rel_def)
  from put_all_refines [OF this, of kvs] assms obtain c where
    c: "put_all kvs (new_lru_k cap kk) = Some c" "lru_k_rel c hb"
      "length (fst hb) + length (snd hb) \<le> cap" "length (snd hb) \<le> kk" unfolding hb_def by auto
  have "index_size (history c) = length (fst hb)" "index_size (buffer c) = length (snd hb)"
    using c(2) by (simp_all add: lru_k_rel_def index_size_holds)
  then have "lru_k_size c \<le> cap" "index_size (buffer c) \<le> kk"
    using c(3,4) by (simp_all add: lru_k_size_def)
  then show ?thesis using c(1,2) hb_def by blast
qed

theorem lru_k_put_sequence_witness:
  "\<exists>c hb. put_all [(1::nat, True), (2, False), (1, True)] (new_lru_k 3 2) = Some c \<and> lru_k_rel c hb \<and>
    hb = fold (\<lambda>(k, v). spec_k_put 3 2 k v) [(1, True), (2, False), (1, True)] ([], []) \<and>
    lru_k_size c \<le> 3 \<and> index_size (buffer c) \<le> 2"
  by (rule lru_k_put_sequence) simp_all

text \<open>
  \<open>get\<close> breaks the bound of the buffer: a hit in the history moves the item to the buffer
  without evicting, so with \<open>k = 1\<close> two such hits leave two items in the buffer; and with \<open>k = capacity\<close> a
  \<open>put\<close> can find the history empty and dereferences the null pointer of \<open>pop_back\<close>.
\<close>

theorem lru_k_get_overfills_buffer:
  "\<exists>c c1 c2. put_all [(1::nat, True), (2, True)] (new_lru_k 3 1) = Some c \<and>
     lru_k_get 1 c = Some (Some True, c1) \<and> lru_k_get 2 c1 = Some (Some True, c2) \<and>
     index_size (buffer c2) = 2 \<and> k_limit c2 = 1 \<and>
     put_all [(1::nat, True), (1, True), (2, True)] (new_lru_k 1 1) = None"
  by (simp add: lru_k_put_def lru_k_get_def new_lru_k_def new_indexed_def index_find_def index_size_def
      insert_front_def pop_at_history_cache_while_overflow_def pop_at_buffer_cache_while_overflow_def
      move_to_buffer_cache_with_promote_def remove_item_def index_erase_def evict_back_def
      pop_back_def list_empty_def push_front_def attach_def detach_def new_list_def heap_access Let_def)

end
