(* ===== verification/Shared_State.thy ===== *)
theory Shared_State
  imports Prelude
begin

text \<open>
  \<open>result<T>\<close> and \<open>shared_state<T>\<close> of \<open>concurrency/futures\<close>: the meeting point of a producer that
  calls \<open>set_result\<close> once and a consumer that calls \<open>set_executor\<close> and \<open>set_callback\<close> once. Each
  thread is a sequence of atomic steps, one per access to a shared field, and \<open>shared_step\<close> interleaves
  them arbitrarily (sequentially consistent). Callbacks and executors are opaque values;
  \<open>runs\<close> records the calls of \<open>do_callback\<close>: the executor it was submitted to (none: called in place), the
  callback and the data.
\<close>

section \<open>result\<close>

datatype ('e, 'a) result = Value 'a | Exception 'e

fun has_value :: "('e, 'a) result \<Rightarrow> bool" where
  "has_value (Value _) = True"
| "has_value (Exception _) = False"

fun has_exception :: "('e, 'a) result \<Rightarrow> bool" where
  "has_exception (Value _) = False"
| "has_exception (Exception _) = True"

text \<open>The left summand is the rethrown exception.\<close>

fun value_or_throw :: "('e, 'a) result \<Rightarrow> 'e + 'a" where
  "value_or_throw (Exception e) = Inl e"
| "value_or_throw (Value v) = Inr v"

section \<open>The state word and the fields\<close>

datatype st = Start | Only_Result | Only_Callback | Done

record ('r, 'c, 'x) shared =
  word :: st
  res :: "'r option"
  cb :: "'c option"
  exec :: "'x option"
  runs :: "('x option \<times> 'c \<times> 'r) list"

definition new_shared :: "('r, 'c, 'x) shared" where
  "new_shared = \<lparr>word = Start, res = None, cb = None, exec = None, runs = []\<rparr>"

text \<open>The bit tests \<open>current_state & (only_result | done)\<close> and \<open>current_state & (only_callback | done)\<close>.\<close>

definition has_result :: "('r, 'c, 'x) shared \<Rightarrow> bool" where
  "has_result s = (word s = Only_Result \<or> word s = Done)"

definition has_callback :: "('r, 'c, 'x) shared \<Rightarrow> bool" where
  "has_callback s = (word s = Only_Callback \<or> word s = Done)"

text \<open>\<open>get_result\<close> spins until \<open>has_result\<close>; \<open>None\<close> is another round of the loop.\<close>

definition get_result :: "('r, 'c, 'x) shared \<Rightarrow> 'r option" where
  "get_result s = (if has_result s then res s else None)"

definition set_executor :: "'x \<Rightarrow> ('r, 'c, 'x) shared \<Rightarrow> ('r, 'c, 'x) shared" where
  "set_executor x s = s\<lparr>exec := Some x\<rparr>"

text \<open>\<open>do_callback\<close> dereferences both optionals: \<open>None\<close> is undefined behaviour.\<close>

definition do_callback :: "('r, 'c, 'x) shared \<Rightarrow> ('r, 'c, 'x) shared option" where
  "do_callback s =
     (if word s \<noteq> Done then None
      else case (res s, cb s) of
        (Some data, Some c) \<Rightarrow> Some (s\<lparr>runs := runs s @ [(exec s, c, data)]\<rparr>)
      | _ \<Rightarrow> None)"

section \<open>The threads\<close>

text \<open>
  Program points, in the order of the code: before \<open>emplace\<close>, before the load, before the
  compare-exchange, before the store of \<open>done\<close>, before \<open>do_callback\<close>, returned. \<open>Throws\<close> is the
  exception \<open>shared_state_unexpected_state\<close>, \<open>Fails\<close> a failed assertion or an empty optional.
\<close>

datatype 'd point = Emplace 'd | Load | Cas | Store_Done | Call | Return | Throws | Fails

record ('r, 'c, 'x) system =
  shared_of :: "('r, 'c, 'x) shared"
  producer :: "'r point"
  consumer :: "'c point"
  via :: "'x option"

definition set_result_step :: "'r point \<Rightarrow> ('r, 'c, 'x) shared \<Rightarrow> ('r point \<times> ('r, 'c, 'x) shared) option" where
  "set_result_step pc s =
     (case pc of
        Emplace r \<Rightarrow> Some (if has_result s then (Fails, s) else (Load, s\<lparr>res := Some r\<rparr>))
      | Load \<Rightarrow> Some ((case word s of Start \<Rightarrow> Cas | Only_Callback \<Rightarrow> Store_Done | _ \<Rightarrow> Throws), s)
      | Cas \<Rightarrow> Some (if word s = Start then (Return, s\<lparr>word := Only_Result\<rparr>)
                     else if word s = Only_Callback then (Store_Done, s) else (Fails, s))
      | Store_Done \<Rightarrow> Some (Call, s\<lparr>word := Done\<rparr>)
      | Call \<Rightarrow> Some (case do_callback s of Some s' \<Rightarrow> (Return, s') | None \<Rightarrow> (Fails, s))
      | _ \<Rightarrow> None)"

definition set_callback_step :: "'c point \<Rightarrow> ('r, 'c, 'x) shared \<Rightarrow> ('c point \<times> ('r, 'c, 'x) shared) option" where
  "set_callback_step pc s =
     (case pc of
        Emplace c \<Rightarrow> Some (if has_callback s then (Fails, s) else (Load, s\<lparr>cb := Some c\<rparr>))
      | Load \<Rightarrow> Some ((case word s of Start \<Rightarrow> Cas | Only_Result \<Rightarrow> Store_Done | _ \<Rightarrow> Throws), s)
      | Cas \<Rightarrow> Some (if word s = Start then (Return, s\<lparr>word := Only_Callback\<rparr>)
                     else if word s = Only_Result then (Store_Done, s) else (Fails, s))
      | Store_Done \<Rightarrow> Some (Call, s\<lparr>word := Done\<rparr>)
      | Call \<Rightarrow> Some (case do_callback s of Some s' \<Rightarrow> (Return, s') | None \<Rightarrow> (Fails, s))
      | _ \<Rightarrow> None)"

text \<open>
  The consumer may set its executor before it emplaces the callback (\<open>via\<close> holds the one it
  still has to set), as \<open>future::via\<close> before \<open>future::subscribe\<close>.
\<close>

inductive shared_step :: "('r, 'c, 'x) system \<Rightarrow> ('r, 'c, 'x) system \<Rightarrow> bool" where
  produce: "set_result_step (producer y) (shared_of y) = Some (pc, s) \<Longrightarrow>
    shared_step y (y\<lparr>shared_of := s, producer := pc\<rparr>)"
| set_exec: "via y = Some x \<Longrightarrow>
    shared_step y (y\<lparr>shared_of := set_executor x (shared_of y), via := None\<rparr>)"
| consume: "via y = None \<Longrightarrow> set_callback_step (consumer y) (shared_of y) = Some (pc, s) \<Longrightarrow>
    shared_step y (y\<lparr>shared_of := s, consumer := pc\<rparr>)"

inductive_cases shared_stepE: "shared_step y z"

definition start_system :: "'r \<Rightarrow> 'c \<Rightarrow> 'x option \<Rightarrow> ('r, 'c, 'x) system" where
  "start_system r c x = \<lparr>shared_of = new_shared, producer = Emplace r, consumer = Emplace c, via = x\<rparr>"

abbreviation shared_reach :: "('r, 'c, 'x) system \<Rightarrow> ('r, 'c, 'x) system \<Rightarrow> bool" where
  "shared_reach \<equiv> shared_step\<^sup>*\<^sup>*"

section \<open>Invariant\<close>

text \<open>
  \<open>agree r c x y\<close> ties the word to the program points: what each value of the word says about the
  producer and the consumer.
\<close>

definition agree :: "'r \<Rightarrow> 'c \<Rightarrow> 'x option \<Rightarrow> ('r, 'c, 'x) system \<Rightarrow> bool" where
  "agree r c x y \<longleftrightarrow>
     (let s = shared_of y; p = producer y; q = consumer y in
      res s = (if p = Emplace r then None else Some r) \<and>
      cb s = (if q = Emplace c then None else Some c) \<and>
      (via y = None \<and> exec s = x \<or> via y = x \<and> q = Emplace c \<and> exec s = None) \<and>
      (case word s of
         Start \<Rightarrow> p \<in> {Emplace r, Load, Cas} \<and> q \<in> {Emplace c, Load, Cas} \<and> runs s = []
       | Only_Result \<Rightarrow> p = Return \<and> q \<in> {Emplace c, Load, Cas, Store_Done} \<and> runs s = []
       | Only_Callback \<Rightarrow> q = Return \<and> p \<in> {Emplace r, Load, Cas, Store_Done} \<and> runs s = []
       | Done \<Rightarrow> (p = Call \<and> q = Return \<or> p = Return \<and> q = Call) \<and> runs s = [] \<or>
                 p = Return \<and> q = Return \<and> runs s = [(x, c, r)]))"

lemma agree_start: "agree r c x (start_system r c x)"
  by (auto simp: agree_def start_system_def new_shared_def)

lemma agree_step:
  assumes "shared_step y z" "agree r c x y"
  shows "agree r c x z"
  using assms(1)
proof (cases rule: shared_step.cases)
  case (produce pc s)
  then show ?thesis using assms(2)
    by (auto simp: agree_def set_result_step_def do_callback_def has_result_def Let_def
        split: st.splits point.splits if_splits option.splits)
next
  case (set_exec x')
  then show ?thesis using assms(2)
    by (auto simp: agree_def set_executor_def Let_def split: st.splits)
next
  case (consume pc s)
  then show ?thesis using assms(2)
    by (auto simp: agree_def set_callback_step_def do_callback_def has_callback_def Let_def
        split: st.splits point.splits if_splits option.splits)
qed

lemma agree_reach: "shared_reach (start_system r c x) y \<Longrightarrow> agree r c x y"
  by (induction rule: rtranclp_induct) (auto intro: agree_start agree_step)

text \<open>Every step uses up one of at most eleven: the run always ends.\<close>

fun point_left :: "'d point \<Rightarrow> nat" where
  "point_left (Emplace _) = 5"
| "point_left Load = 4"
| "point_left Cas = 3"
| "point_left Store_Done = 2"
| "point_left Call = 1"
| "point_left _ = 0"

definition steps_left :: "('r, 'c, 'x) system \<Rightarrow> nat" where
  "steps_left y = point_left (producer y) + point_left (consumer y) + (if via y = None then 0 else 1)"

lemma step_decreases: "shared_step y z \<Longrightarrow> steps_left z < steps_left y"
  by (cases rule: shared_step.cases, assumption)
     (auto simp: steps_left_def set_result_step_def set_callback_step_def
       split: point.splits st.splits if_splits option.splits)

lemma stuck_returned:
  assumes "agree r c x y" "\<not> (\<exists>z. shared_step y z)"
  shows "producer y = Return \<and> consumer y = Return \<and> via y = None"
proof -
  have v: "via y = None" using assms(2) shared_step.set_exec [of y] by (cases "via y") blast+
  have p: "set_result_step (producer y) (shared_of y) = None"
    using assms(2) shared_step.produce [of y] by (cases "set_result_step (producer y) (shared_of y)") auto
  have q: "set_callback_step (consumer y) (shared_of y) = None"
    using assms(2) shared_step.consume [OF v] by (cases "set_callback_step (consumer y) (shared_of y)") auto
  have "producer y \<in> {Return, Throws, Fails}" using p
    by (auto simp: set_result_step_def split: point.splits)
  moreover have "consumer y \<in> {Return, Throws, Fails}" using q
    by (auto simp: set_callback_step_def split: point.splits)
  ultimately show ?thesis using assms(1) v
    by (auto simp: agree_def Let_def split: st.splits)
qed

lemma reach_length: "(shared_step ^^ n) y z \<Longrightarrow> n + steps_left z \<le> steps_left y"
proof (induction n arbitrary: z)
  case (Suc n)
  then obtain w where "(shared_step ^^ n) y w" "shared_step w z" by auto
  then show ?case using Suc.IH [of w] step_decreases [of w z] by simp
qed simp

text \<open>An executable scheduler: 0 runs the producer, 1 sets the executor, 2 runs the consumer.\<close>

fun schedule :: "nat list \<Rightarrow> ('r, 'c, 'x) system \<Rightarrow> ('r, 'c, 'x) system option" where
  "schedule [] y = Some y"
| "schedule (w # ws) y =
     (if w = 0 then
        (case set_result_step (producer y) (shared_of y) of
           Some (pc, s) \<Rightarrow> schedule ws (y\<lparr>shared_of := s, producer := pc\<rparr>) | None \<Rightarrow> None)
      else if w = 1 then
        (case via y of
           Some x \<Rightarrow> schedule ws (y\<lparr>shared_of := set_executor x (shared_of y), via := None\<rparr>) | None \<Rightarrow> None)
      else if via y \<noteq> None then None
      else
        (case set_callback_step (consumer y) (shared_of y) of
           Some (pc, s) \<Rightarrow> schedule ws (y\<lparr>shared_of := s, consumer := pc\<rparr>) | None \<Rightarrow> None))"

lemma schedule_steps: "schedule ws y = Some z \<Longrightarrow> (shared_step ^^ length ws) y z"
proof (induction ws arbitrary: y)
  case (Cons w ws)
  then obtain y1 where "shared_step y y1" "schedule ws y1 = Some z"
    by (fastforce split: if_splits option.splits intro: shared_step.intros)
  then show ?case using Cons.IH [of y1] relpowp_Suc_I2 by (metis length_Cons)
qed simp

lemma example_schedule:
  "\<exists>y. schedule [0, 1, 2, 2, 0, 2, 0, 0] (start_system True (7::int) (Some (1::nat))) = Some y"
  "\<exists>y. schedule [0, 1, 2, 2, 0, 2, 0, 0, 0] (start_system True (7::int) (Some (1::nat))) = Some y"
  by (simp_all add: start_system_def new_shared_def set_result_step_def set_callback_step_def
      has_result_def has_callback_def set_executor_def do_callback_def)

section \<open>Properties\<close>

text \<open>
  In every interleaving of one \<open>set_result\<close> with one \<open>set_executor\<close>/\<open>set_callback\<close>, no
  assertion fails, no exception is thrown and no empty optional is read; at most one call of the callback
  happens, and only with the result that was set, on the executor that was set.
\<close>

theorem shared_state_safety:
  assumes "shared_reach (start_system r c x) y"
  shows "producer y \<notin> {Throws, Fails} \<and> consumer y \<notin> {Throws, Fails} \<and>
    (runs (shared_of y) = [] \<or> runs (shared_of y) = [(x, c, r)]) \<and>
    (has_result (shared_of y) \<longrightarrow> get_result (shared_of y) = Some r)"
  using agree_reach [OF assms]
  by (auto simp: agree_def Let_def get_result_def has_result_def split: st.splits)

theorem shared_state_safety_witness:
  "\<exists>y. schedule [0, 1, 2, 2, 0, 2, 0, 0] (start_system True (7::int) (Some (1::nat))) = Some y \<and>
     producer y \<notin> {Throws, Fails} \<and> consumer y \<notin> {Throws, Fails} \<and>
     (runs (shared_of y) = [] \<or> runs (shared_of y) = [(Some 1, 7, True)]) \<and>
     (has_result (shared_of y) \<longrightarrow> get_result (shared_of y) = Some True)"
proof -
  obtain y where y: "schedule [0, 1, 2, 2, 0, 2, 0, 0] (start_system True (7::int) (Some (1::nat))) = Some y"
    using example_schedule by blast
  from shared_state_safety [OF relpowp_imp_rtranclp [OF schedule_steps [OF y]]] y show ?thesis by blast
qed

text \<open>
  C1: every run of the two threads ends after at most eleven atomic steps, and when no
  step is left both calls have returned and the callback was called exactly once, with the result and
  on the executor.
\<close>

theorem shared_state_exactly_once:
  assumes "(shared_step ^^ n) (start_system r c x) y"
  shows "n \<le> 11 \<and> ((\<nexists>z. shared_step y z) \<longrightarrow>
    producer y = Return \<and> consumer y = Return \<and> runs (shared_of y) = [(x, c, r)])"
proof -
  have "shared_reach (start_system r c x) y" using assms by (rule relpowp_imp_rtranclp)
  then have a: "agree r c x y" by (rule agree_reach)
  have "steps_left (start_system r c x) \<le> 11" by (simp add: steps_left_def start_system_def)
  then have "n \<le> 11" using reach_length [OF assms] by simp
  moreover have "producer y = Return \<and> consumer y = Return \<and> runs (shared_of y) = [(x, c, r)]"
    if "\<nexists>z. shared_step y z"
    using stuck_returned [OF a that] a by (auto simp: agree_def Let_def split: st.splits)
  ultimately show ?thesis by blast
qed

theorem shared_state_exactly_once_witness:
  "\<exists>y. schedule [0, 1, 2, 2, 0, 2, 0, 0, 0] (start_system True (7::int) (Some (1::nat))) = Some y \<and>
     (9::nat) \<le> 11 \<and> ((\<nexists>z. shared_step y z) \<longrightarrow>
       producer y = Return \<and> consumer y = Return \<and> runs (shared_of y) = [(Some 1, 7, True)])"
proof -
  obtain y where y: "schedule [0, 1, 2, 2, 0, 2, 0, 0, 0] (start_system True (7::int) (Some (1::nat))) = Some y"
    using example_schedule by blast
  have "(shared_step ^^ 9) (start_system True (7::int) (Some (1::nat))) y"
    using schedule_steps [OF y] by (simp only: list.size) (simp add: eval_nat_numeral)
  from shared_state_exactly_once [OF this] y show ?thesis by blast
qed

end
