(* ===== verification/Future.thy ===== *)
theory Future
  imports Shared_State
begin

text \<open>
  \<open>promise<T>\<close>, \<open>future<T>\<close>, \<open>then\<close>, \<open>via\<close>, \<open>subscribe\<close>, \<open>make_future_on_error\<close> and \<open>async_via\<close>: the
  sequential interface over shared states. Shared states are cells of \<open>cells\<close>, a
  \<open>shared_ptr<shared_state<T>>\<close> is an index or null; moving a handle leaves null. A callback is a
  user's function, here a tag that is logged with its argument, or the lambda that \<open>then\<close> builds. A task
  submitted to an executor waits in \<open>queue\<close> until \<open>run_task\<close>. A continuation returns or throws
  (\<open>Inl\<close>); the members of \<open>ferror\<close> are the exceptions of the code, a read of an empty optional and the failed
  assertion of \<open>release_state\<close>.
\<close>

datatype ferror = Future_No_Executor | Future_No_Callback | Future_Already_Exposed | Unexpected_State
  | Empty_Optional | Null_State

datatype ('e, 'a) callback =
    User nat
  | Then "('e, 'a) result \<Rightarrow> 'e + 'a" nat

type_synonym ('e, 'a) cell = "(('e, 'a) result, ('e, 'a) callback, nat) shared"

record ('e, 'a) world =
  cells :: "('e, 'a) cell list"
  called :: "(nat \<times> ('e, 'a) result) list"
  queue :: "(nat \<times> ('e, 'a) callback \<times> ('e, 'a) result) list"

record promise =
  p_state :: "nat option"
  extracted :: bool

record future =
  f_state :: "nat option"

definition empty_world :: "('e, 'a) world" where
  "empty_world = \<lparr>cells = [], called = [], queue = []\<rparr>"

definition make_shared_state :: "('e, 'a) world \<Rightarrow> nat \<times> ('e, 'a) world" where
  "make_shared_state w = (length (cells w), w\<lparr>cells := cells w @ [new_shared]\<rparr>)"

definition make_promise :: "('e, 'a) world \<Rightarrow> promise \<times> ('e, 'a) world" where
  "make_promise w = (case make_shared_state w of (n, w') \<Rightarrow> (\<lparr>p_state = Some n, extracted = False\<rparr>, w'))"

definition make_future :: "promise \<Rightarrow> ferror + (future \<times> promise)" where
  "make_future p =
     (if extracted p then Inl Future_Already_Exposed
      else Inr (\<lparr>f_state = p_state p\<rparr>, p\<lparr>extracted := True\<rparr>))"

text \<open>\<open>set_result\<close> and \<open>set_callback\<close> run without interruption: the callback to call, if any.\<close>

definition set_result :: "('e, 'a) result \<Rightarrow> ('e, 'a) cell \<Rightarrow>
    ferror + (('e, 'a) cell \<times> (('e, 'a) callback \<times> ('e, 'a) result) option)" where
  "set_result r s =
     (let s1 = s\<lparr>res := Some r\<rparr>
      in case word s of
        Start \<Rightarrow> Inr (s1\<lparr>word := Only_Result\<rparr>, None)
      | Only_Callback \<Rightarrow>
          (case cb s1 of Some c \<Rightarrow> Inr (s1\<lparr>word := Done\<rparr>, Some (c, r)) | None \<Rightarrow> Inl Empty_Optional)
      | _ \<Rightarrow> Inl Unexpected_State)"

definition set_callback :: "('e, 'a) callback \<Rightarrow> ('e, 'a) cell \<Rightarrow>
    ferror + (('e, 'a) cell \<times> (('e, 'a) callback \<times> ('e, 'a) result) option)" where
  "set_callback c s =
     (let s1 = s\<lparr>cb := Some c\<rparr>
      in case word s of
        Start \<Rightarrow> Inr (s1\<lparr>word := Only_Callback\<rparr>, None)
      | Only_Result \<Rightarrow>
          (case res s1 of Some r \<Rightarrow> Inr (s1\<lparr>word := Done\<rparr>, Some (c, r)) | None \<Rightarrow> Inl Empty_Optional)
      | _ \<Rightarrow> Inl Unexpected_State)"

text \<open>What the lambda of \<open>then\<close> gives to its promise: the value, or the caught exception.\<close>

definition continue :: "(('e, 'a) result \<Rightarrow> 'e + 'a) \<Rightarrow> ('e, 'a) result \<Rightarrow> ('e, 'a) result" where
  "continue f r = (case f r of Inr v \<Rightarrow> Value v | Inl e \<Rightarrow> Exception e)"

text \<open>
  \<open>invoke\<close> is the call of a callback: a lambda of \<open>then\<close> sets the result of the next cell, which
  may call the next callback in place or submit it. The calls chain, so it is a partial function.
\<close>

partial_function (option) invoke ::
  "('e, 'a) callback \<Rightarrow> ('e, 'a) result \<Rightarrow> ('e, 'a) world \<Rightarrow> (ferror + ('e, 'a) world) option" where
  "invoke c r w =
     (case c of
        User t \<Rightarrow> Some (Inr (w\<lparr>called := called w @ [(t, r)]\<rparr>))
      | Then f n \<Rightarrow>
          (case set_result (continue f r) (cells w ! n) of
             Inl e \<Rightarrow> Some (Inl e)
           | Inr (s, None) \<Rightarrow> Some (Inr (w\<lparr>cells := (cells w)[n := s]\<rparr>))
           | Inr (s, Some (c', r')) \<Rightarrow>
               (case exec s of
                  None \<Rightarrow> invoke c' r' (w\<lparr>cells := (cells w)[n := s]\<rparr>)
                | Some x \<Rightarrow> Some (Inr (w\<lparr>cells := (cells w)[n := s], queue := queue w @ [(x, c', r')]\<rparr>)))))"

declare invoke.simps [code]

text \<open>\<open>do_callback\<close>: submit to the cell's executor, or call in place.\<close>

definition dispatch :: "nat \<Rightarrow> ferror + (('e, 'a) cell \<times> (('e, 'a) callback \<times> ('e, 'a) result) option) \<Rightarrow>
    ('e, 'a) world \<Rightarrow> (ferror + ('e, 'a) world) option" where
  "dispatch n outcome w =
     (case outcome of
        Inl e \<Rightarrow> Some (Inl e)
      | Inr (s, None) \<Rightarrow> Some (Inr (w\<lparr>cells := (cells w)[n := s]\<rparr>))
      | Inr (s, Some (c, r)) \<Rightarrow>
          (case exec s of
             None \<Rightarrow> invoke c r (w\<lparr>cells := (cells w)[n := s]\<rparr>)
           | Some x \<Rightarrow> Some (Inr (w\<lparr>cells := (cells w)[n := s], queue := queue w @ [(x, c, r)]\<rparr>))))"

text \<open>\<open>promise::set\<close> in its three overloads; the promise is left without a state.\<close>

definition promise_set :: "promise \<Rightarrow> ('e, 'a) result \<Rightarrow> ('e, 'a) world \<Rightarrow>
    (ferror + (promise \<times> ('e, 'a) world)) option" where
  "promise_set p r w =
     (case p_state p of
        None \<Rightarrow> Some (Inl Null_State)
      | Some n \<Rightarrow>
          map_option (\<lambda>o'. case o' of Inl e \<Rightarrow> Inl e | Inr w' \<Rightarrow> Inr (p\<lparr>p_state := None\<rparr>, w'))
            (dispatch n (set_result r (cells w ! n)) w))"

definition future_via :: "future \<Rightarrow> nat option \<Rightarrow> ('e, 'a) world \<Rightarrow> ferror + (future \<times> ('e, 'a) world)" where
  "future_via f exec' w =
     (case exec' of
        None \<Rightarrow> Inl Future_No_Executor
      | Some x \<Rightarrow>
          (case f_state f of
             None \<Rightarrow> Inl Null_State
           | Some n \<Rightarrow> Inr (f, w\<lparr>cells := (cells w)[n := set_executor x (cells w ! n)]\<rparr>)))"

definition future_subscribe :: "future \<Rightarrow> ('e, 'a) callback option \<Rightarrow> ('e, 'a) world \<Rightarrow>
    (ferror + (future \<times> ('e, 'a) world)) option" where
  "future_subscribe f callback w =
     (case callback of
        None \<Rightarrow> Some (Inl Future_No_Callback)
      | Some c \<Rightarrow>
          (case f_state f of
             None \<Rightarrow> Some (Inl Null_State)
           | Some n \<Rightarrow>
               map_option (\<lambda>o'. case o' of Inl e \<Rightarrow> Inl e | Inr w' \<Rightarrow> Inr (f, w'))
                 (dispatch n (set_callback c (cells w ! n)) w)))"

definition future_then :: "future \<Rightarrow> (('e, 'a) result \<Rightarrow> 'e + 'a) \<Rightarrow> ('e, 'a) world \<Rightarrow>
    (ferror + (future \<times> ('e, 'a) world)) option" where
  "future_then f continuation w =
     (case make_promise w of (p, w1) \<Rightarrow>
        (case make_future p of
           Inl e \<Rightarrow> Some (Inl e)
         | Inr (f', p') \<Rightarrow>
             (case p_state p' of
                None \<Rightarrow> Some (Inl Null_State)
              | Some n \<Rightarrow>
                  map_option (\<lambda>o'. case o' of Inl e \<Rightarrow> Inl e | Inr (_, w2) \<Rightarrow> Inr (f', w2))
                    (future_subscribe f (Some (Then continuation n)) w1))))"

text \<open>\<open>get\<close>: \<open>None\<close> is a further round of the waiting loop.\<close>

definition future_get :: "future \<Rightarrow> ('e, 'a) world \<Rightarrow> (ferror + ('e, 'a) result) option" where
  "future_get f w =
     (case f_state f of None \<Rightarrow> Some (Inl Null_State) | Some n \<Rightarrow> map_option Inr (get_result (cells w ! n)))"

definition make_future_on_error :: "'e \<Rightarrow> ('e, 'a) world \<Rightarrow> ferror + (future \<times> ('e, 'a) world)" where
  "make_future_on_error message w =
     (case make_shared_state w of (n, w1) \<Rightarrow>
        (case set_result (Exception message) (cells w1 ! n) of
           Inl e \<Rightarrow> Inl e
         | Inr (s, _) \<Rightarrow> Inr (\<lparr>f_state = Some n\<rparr>, w1\<lparr>cells := (cells w1)[n := s]\<rparr>)))"

text \<open>One task of the executor's queue.\<close>

definition run_task :: "('e, 'a) world \<Rightarrow> (ferror + ('e, 'a) world) option" where
  "run_task w = (case queue w of [] \<Rightarrow> Some (Inr w) | (_, c, r) # ts \<Rightarrow> invoke c r (w\<lparr>queue := ts\<rparr>))"

text \<open>
  \<open>async_via\<close>: the promise's future runs on the executor, and the submitted task sets the promise
  to what the routine returned or threw: the outcome of the routine waits as the task's argument.
\<close>

definition async_via :: "nat option \<Rightarrow> ('e, 'a) result \<Rightarrow> ('e, 'a) world \<Rightarrow> ferror + (future \<times> ('e, 'a) world)" where
  "async_via executor routine w =
     (case make_promise w of (p, w1) \<Rightarrow>
        (case make_future p of
           Inl e \<Rightarrow> Inl e
         | Inr (f, p') \<Rightarrow>
             (case future_via f executor w1 of
                Inl e \<Rightarrow> Inl e
              | Inr (f', w2) \<Rightarrow>
                  (case (executor, p_state p') of
                     (Some x, Some n) \<Rightarrow>
                       Inr (f', w2\<lparr>queue := queue w2 @ [(x, Then value_or_throw n, routine)]\<rparr>)
                   | _ \<Rightarrow> Inl Null_State))))"

section \<open>Chains of continuations\<close>

lemma invoke_then:
  "invoke (Then f n) r w = dispatch n (set_result (continue f r) (cells w ! n)) w"
  by (subst invoke.simps) (simp add: dispatch_def)

text \<open>
  \<open>pending w n fs m\<close>: cell \<open>n\<close> waits for a result, the continuations \<open>fs\<close> hang below it, and cell
  \<open>m\<close> is the last one. \<open>settled w m r\<close>: cell \<open>m\<close> has the result and no callback.
\<close>

fun pending :: "('e, 'a) world \<Rightarrow> nat \<Rightarrow> (('e, 'a) result \<Rightarrow> 'e + 'a) list \<Rightarrow> nat \<Rightarrow> bool" where
  "pending w n [] m \<longleftrightarrow> n = m \<and> n < length (cells w) \<and> word (cells w ! n) = Start \<and> exec (cells w ! n) = None"
| "pending w n (f # fs) m \<longleftrightarrow> n < length (cells w) \<and> word (cells w ! n) = Only_Callback \<and>
     exec (cells w ! n) = None \<and> (\<exists>n'. cb (cells w ! n) = Some (Then f n') \<and> n < n' \<and> pending w n' fs m)"

definition settled :: "('e, 'a) world \<Rightarrow> nat \<Rightarrow> ('e, 'a) result \<Rightarrow> bool" where
  "settled w m r \<longleftrightarrow> m < length (cells w) \<and> word (cells w ! m) = Only_Result \<and>
     res (cells w ! m) = Some r \<and> exec (cells w ! m) = None"

lemma pending_le: "pending w n fs m \<Longrightarrow> n \<le> m \<and> m < length (cells w) \<and>
    word (cells w ! m) = Start \<and> exec (cells w ! m) = None"
proof (induction fs arbitrary: n)
  case (Cons f fs)
  then obtain n' where "n < n'" "pending w n' fs m" by auto
  with Cons.IH show ?case by fastforce
qed auto

lemma pending_frame:
  "pending w n fs m \<Longrightarrow> k < n \<Longrightarrow> pending (w\<lparr>cells := (cells w)[k := s]\<rparr>) n fs m"
proof (induction fs arbitrary: n)
  case (Cons f fs)
  then obtain n' where "cb (cells w ! n) = Some (Then f n')" "n < n'" "pending w n' fs m" by auto
  then show ?case using Cons.IH [of n'] Cons.prems by auto
qed simp

lemma pending_snoc:
  assumes "pending w n fs m" "l = length (cells w)"
  shows "pending (w\<lparr>cells := (cells w)[m := (cells w ! m)\<lparr>cb := Some (Then g l), word := Only_Callback\<rparr>]
    @ [new_shared]\<rparr>) n (fs @ [g]) l"
  using assms(1)
proof (induction fs arbitrary: n)
  case Nil
  then show ?case using assms(2) by (auto simp: nth_append new_shared_def)
next
  case (Cons f fs)
  then obtain n' where n': "cb (cells w ! n) = Some (Then f n')" "n < n'" "pending w n' fs m" by auto
  have "n \<noteq> m" using pending_le [OF n'(3)] n'(2) by simp
  then show ?case using Cons.IH [OF n'(3)] Cons.prems n' by (simp add: nth_append)
qed

lemma then_pending:
  assumes "pending w n fs m" "f_state f = Some m"
  shows "\<exists>f' w' m'. future_then f g w = Some (Inr (f', w')) \<and> f_state f' = Some m' \<and>
    pending w' n (fs @ [g]) m'"
proof -
  let ?l = "length (cells w)"
  have m: "m < ?l" "word (cells w ! m) = Start" "exec (cells w ! m) = None"
    using pending_le [OF assms(1)] by auto
  let ?c = "(cells w ! m)\<lparr>cb := Some (Then g ?l), word := Only_Callback\<rparr>"
  let ?w = "w\<lparr>cells := (cells w)[m := ?c] @ [new_shared]\<rparr>"
  have "future_then f g w = Some (Inr (\<lparr>f_state = Some ?l\<rparr>, ?w))"
    using m assms(2)
    by (simp add: future_then_def make_promise_def make_shared_state_def make_future_def
        future_subscribe_def set_callback_def dispatch_def nth_append list_update_append Let_def)
  then show ?thesis using pending_snoc [OF assms(1) refl, of g]
    by (intro exI [of _ "\<lparr>f_state = Some ?l\<rparr>"] exI [of _ ?w] exI [of _ ?l]) simp
qed

lemma deliver_pending:
  assumes "pending w n fs m"
  shows "\<exists>w'. dispatch n (set_result r (cells w ! n)) w = Some (Inr w') \<and> settled w' m (fold continue fs r)"
  using assms
proof (induction fs arbitrary: w n r)
  case Nil
  then show ?case by (auto simp: dispatch_def set_result_def settled_def Let_def)
next
  case (Cons f fs)
  then obtain n' where n': "cb (cells w ! n) = Some (Then f n')" "n < n'" "pending w n' fs m" by auto
  let ?w = "w\<lparr>cells := (cells w)[n := (cells w ! n)\<lparr>res := Some r, word := Done\<rparr>]\<rparr>"
  have "dispatch n (set_result r (cells w ! n)) w = invoke (Then f n') r ?w"
    using Cons.prems n'(1) by (simp add: dispatch_def set_result_def Let_def)
  then show ?case
    using Cons.IH [OF pending_frame [OF n'(3,2)], of "continue f r"] by (simp add: invoke_then)
qed

lemma then_settled:
  assumes "settled w m r" "f_state f = Some m"
  shows "\<exists>f' w' m'. future_then f g w = Some (Inr (f', w')) \<and> f_state f' = Some m' \<and>
    settled w' m' (continue g r)"
proof -
  let ?l = "length (cells w)"
  have m: "m < ?l" "word (cells w ! m) = Only_Result" "res (cells w ! m) = Some r" "exec (cells w ! m) = None"
    using assms(1) by (auto simp: settled_def)
  let ?c = "(cells w ! m)\<lparr>cb := Some (Then g ?l), word := Done\<rparr>"
  let ?w1 = "w\<lparr>cells := (cells w)[m := ?c] @ [new_shared]\<rparr>"
  let ?w = "?w1\<lparr>cells := (cells ?w1)[?l := new_shared\<lparr>res := Some (continue g r), word := Only_Result\<rparr>]\<rparr>"
  have "invoke (Then g ?l) r ?w1 = Some (Inr ?w)"
    by (simp add: invoke_then dispatch_def set_result_def nth_append new_shared_def Let_def)
  then have "future_then f g w = Some (Inr (\<lparr>f_state = Some ?l\<rparr>, ?w))"
    using m assms(2)
    by (simp add: future_then_def make_promise_def make_shared_state_def make_future_def
        future_subscribe_def set_callback_def dispatch_def nth_append list_update_append Let_def)
  moreover have "settled ?w ?l (continue g r)"
    by (simp add: settled_def nth_append new_shared_def)
  ultimately show ?thesis by fastforce
qed

fun then_all :: "(('e, 'a) result \<Rightarrow> 'e + 'a) list \<Rightarrow> future \<Rightarrow> ('e, 'a) world \<Rightarrow>
    (ferror + (future \<times> ('e, 'a) world)) option" where
  "then_all [] f w = Some (Inr (f, w))"
| "then_all (g # gs) f w =
     (case future_then f g w of
        Some (Inr (f', w')) \<Rightarrow> then_all gs f' w' | Some (Inl e) \<Rightarrow> Some (Inl e) | None \<Rightarrow> None)"

lemma then_all_pending:
  "pending w n fs m \<Longrightarrow> f_state f = Some m \<Longrightarrow>
   \<exists>f' w' m'. then_all gs f w = Some (Inr (f', w')) \<and> f_state f' = Some m' \<and> pending w' n (fs @ gs) m'"
proof (induction gs arbitrary: w fs m f)
  case (Cons g gs)
  from then_pending [OF Cons.prems, of g] obtain f1 w1 m1 where
    "future_then f g w = Some (Inr (f1, w1))" "f_state f1 = Some m1" "pending w1 n (fs @ [g]) m1" by blast
  with Cons.IH [OF this(3,2)] show ?case by simp
qed auto

lemma then_all_settled:
  "settled w m r \<Longrightarrow> f_state f = Some m \<Longrightarrow>
   \<exists>f' w' m'. then_all gs f w = Some (Inr (f', w')) \<and> f_state f' = Some m' \<and> settled w' m' (fold continue gs r)"
proof (induction gs arbitrary: w r m f)
  case (Cons g gs)
  from then_settled [OF Cons.prems, of g] obtain f1 w1 m1 where
    "future_then f g w = Some (Inr (f1, w1))" "f_state f1 = Some m1" "settled w1 m1 (continue g r)" by blast
  with Cons.IH [OF this(3,2)] show ?case by simp
qed auto

section \<open>Properties\<close>

text \<open>
  C26: a chain of \<open>then\<close> calls is independent of when the promise is set: with the
  continuations \<open>fs\<close> attached before \<open>promise.set\<close> and \<open>gs\<close> after it, every call returns without an exception,
  and \<open>get\<close> on the last future yields the result passed through all continuations in order, a thrown
  exception reaching the next continuation as an exceptional result.
\<close>

theorem then_chain:
  assumes "make_promise w = (p, w1)" "make_future p = Inr (f, p')"
  shows "\<exists>f1 w2 p'' w3 f2 w4. then_all fs f w1 = Some (Inr (f1, w2)) \<and>
    promise_set p' r w2 = Some (Inr (p'', w3)) \<and> p_state p'' = None \<and>
    then_all gs f1 w3 = Some (Inr (f2, w4)) \<and>
    future_get f2 w4 = Some (Inr (fold continue (fs @ gs) r))"
proof -
  let ?n = "length (cells w)"
  have p: "f_state f = Some ?n" "p_state p' = Some ?n" "pending w1 ?n [] ?n"
    using assms by (auto simp: make_promise_def make_shared_state_def make_future_def new_shared_def)
  from then_all_pending [OF p(3,1), of fs] obtain f1 w2 m1 where
    1: "then_all fs f w1 = Some (Inr (f1, w2))" "f_state f1 = Some m1" "pending w2 ?n fs m1" by auto
  from deliver_pending [OF 1(3), of r] obtain w3 where
    2: "dispatch ?n (set_result r (cells w2 ! ?n)) w2 = Some (Inr w3)" "settled w3 m1 (fold continue fs r)"
    by blast
  from then_all_settled [OF 2(2) 1(2), of gs] obtain f2 w4 m2 where
    3: "then_all gs f1 w3 = Some (Inr (f2, w4))" "f_state f2 = Some m2"
      "settled w4 m2 (fold continue gs (fold continue fs r))" by blast
  have "future_get f2 w4 = Some (Inr (fold continue (fs @ gs) r))"
    using 3(2,3) by (simp add: future_get_def settled_def get_result_def has_result_def)
  moreover have "promise_set p' r w2 = Some (Inr (p'\<lparr>p_state := None\<rparr>, w3))"
    using p(2) 2(1) by (simp add: promise_set_def)
  ultimately show ?thesis using 1(1) 3(1) by fastforce
qed

definition half :: "(string, int) result \<Rightarrow> string + int" where
  "half r = (case r of Value v \<Rightarrow> if v mod 2 = 0 then Inr (v div 2) else Inl ''odd'' | Exception e \<Rightarrow> Inl e)"

theorem then_chain_witness:
  "\<exists>f1 w2 p'' w3 f2 w4.
    then_all [half, half] \<lparr>f_state = Some 0\<rparr> \<lparr>cells = [new_shared], called = [], queue = []\<rparr> = Some (Inr (f1, w2)) \<and>
    promise_set \<lparr>p_state = Some 0, extracted = True\<rparr> (Value 6) w2 = Some (Inr (p'', w3)) \<and> p_state p'' = None \<and>
    then_all [half] f1 w3 = Some (Inr (f2, w4)) \<and>
    future_get f2 w4 = Some (Inr (fold continue ([half, half] @ [half]) (Value 6)))"
  by (rule then_chain [where w = empty_world and p = "\<lparr>p_state = Some 0, extracted = False\<rparr>"])
     (simp_all add: make_promise_def make_shared_state_def empty_world_def make_future_def)

text \<open>
  Misuse is reported as the code does: a second \<open>make_future\<close> throws
  \<open>future_already_exposed\<close>, \<open>via\<close> without an executor and \<open>subscribe\<close> without a callback throw, a second
  \<open>set\<close> finds the state released, and \<open>get\<close> on a future whose state was moved away fails its assertion.
\<close>

theorem future_misuse:
  "make_future p = Inr (f, p') \<Longrightarrow>
     make_future p' = Inl Future_Already_Exposed \<and>
     future_via f None w = Inl Future_No_Executor \<and>
     future_subscribe f None w = Some (Inl Future_No_Callback) \<and>
     promise_set (p\<lparr>p_state := None\<rparr>) r w = Some (Inl Null_State) \<and>
     future_get (f\<lparr>f_state := None\<rparr>) w = Some (Inl Null_State)"
  by (auto simp: make_future_def future_via_def future_subscribe_def promise_set_def future_get_def split: if_splits)

theorem future_misuse_witness:
  "make_future \<lparr>p_state = Some 0, extracted = True\<rparr> = Inl Future_Already_Exposed \<and>
   future_via \<lparr>f_state = Some 0\<rparr> None (empty_world :: (string, int) world) = Inl Future_No_Executor \<and>
   future_subscribe \<lparr>f_state = Some 0\<rparr> None (empty_world :: (string, int) world) = Some (Inl Future_No_Callback) \<and>
   promise_set (\<lparr>p_state = Some 0, extracted = False\<rparr>\<lparr>p_state := None\<rparr>) (Value 1) (empty_world :: (string, int) world) = Some (Inl Null_State) \<and>
   future_get (\<lparr>f_state = Some 0\<rparr>\<lparr>f_state := None\<rparr>) (empty_world :: (string, int) world) = Some (Inl Null_State)"
  by (rule future_misuse [where p = "\<lparr>p_state = Some 0, extracted = False\<rparr>"]) (simp add: make_future_def)

end
