(* ===== verification/Coroutine.thy ===== *)
theory Coroutine
  imports Future
begin

text \<open>
  Coroutines that return and await futures (\<open>concurrency/coroutines/futures\<close>), on the world of shared states of \<open>Future\<close>.
  What the compiler generates is the body as a continuation after each \<open>co_await\<close>; a suspended frame is kept under a handle,
  and the callback that \<open>await_suspend\<close> subscribes is the user function of that number. A callback resumes its frame when
  the step that called it ends, as nothing follows the call there. The frame is gone when the body has returned or thrown:
  \<open>final_suspend\<close> never suspends. The property: a coroutine completes its future exactly as the body would run
  sequentially on the awaited results, however the awaited futures are set.
\<close>

section \<open>The code\<close>

text \<open>The body gets the result of the awaited future: \<open>await_resume\<close> gives the value or throws, and the body may catch.\<close>

datatype ('e, 'a) coroutine =
    Co_Return 'a
  | Co_Throw 'e
  | Co_Await future "('e, 'a) result \<Rightarrow> ('e, 'a) coroutine"

record ('e, 'a) coroutines =
  co_world :: "('e, 'a) world"
  co_frames :: "(nat \<times> promise \<times> (('e, 'a) result \<Rightarrow> ('e, 'a) coroutine)) list"
  co_handles :: nat
  co_resumed :: nat

definition no_coroutines :: "('e, 'a) world \<Rightarrow> ('e, 'a) coroutines" where
  "no_coroutines w = \<lparr>co_world = w, co_frames = [], co_handles = 0, co_resumed = length (called w)\<rparr>"

definition in_world :: "(ferror + ('b \<times> ('e, 'a) world)) option \<Rightarrow> ('e, 'a) coroutines \<Rightarrow> (ferror + ('e, 'a) coroutines) option" where
  "in_world x s = map_option (\<lambda>o'. case o' of Inl e \<Rightarrow> Inl e | Inr (_, w) \<Rightarrow> Inr (s\<lparr>co_world := w\<rparr>)) x"

definition return_value :: "promise \<Rightarrow> 'a \<Rightarrow> ('e, 'a) coroutines \<Rightarrow> (ferror + ('e, 'a) coroutines) option" where
  "return_value p u s = in_world (promise_set p (Value u) (co_world s)) s"

definition set_exception :: "promise \<Rightarrow> 'e \<Rightarrow> ('e, 'a) coroutines \<Rightarrow> (ferror + ('e, 'a) coroutines) option" where
  "set_exception p e s = in_world (promise_set p (Exception e) (co_world s)) s"

text \<open>It does what \<open>set_exception\<close> does, with the exception in flight.\<close>

definition unhandled_exception :: "promise \<Rightarrow> 'e \<Rightarrow> ('e, 'a) coroutines \<Rightarrow> (ferror + ('e, 'a) coroutines) option" where
  "unhandled_exception p e s = in_world (promise_set p (Exception e) (co_world s)) s"

definition await_suspend :: "future \<Rightarrow> nat \<Rightarrow> ('e, 'a) coroutines \<Rightarrow> (ferror + ('e, 'a) coroutines) option" where
  "await_suspend f h s = in_world (future_subscribe f (Some (User h)) (co_world s)) s"

text \<open>The body up to its end or to its next suspension; \<open>await_ready\<close> is always false.\<close>

fun run_body :: "promise \<Rightarrow> ('e, 'a) coroutine \<Rightarrow> ('e, 'a) coroutines \<Rightarrow> (ferror + ('e, 'a) coroutines) option" where
  "run_body p (Co_Return u) s = return_value p u s"
| "run_body p (Co_Throw e) s = unhandled_exception p e s"
| "run_body p (Co_Await f k) s =
     await_suspend f (co_handles s) (s\<lparr>co_frames := (co_handles s, p, k) # co_frames s, co_handles := co_handles s + 1\<rparr>)"

text \<open>The callbacks called since the last time resume their frames.\<close>

partial_function (option) drive :: "('e, 'a) coroutines \<Rightarrow> (ferror + ('e, 'a) coroutines) option" where
  "drive s =
     (if co_resumed s < length (called (co_world s)) then
        (case map_of (co_frames s) (fst (called (co_world s) ! co_resumed s)) of
           None \<Rightarrow> drive (s\<lparr>co_resumed := co_resumed s + 1\<rparr>)
         | Some (p, k) \<Rightarrow>
             (case run_body p (k (snd (called (co_world s) ! co_resumed s)))
                 (s\<lparr>co_resumed := co_resumed s + 1,
                    co_frames := filter (\<lambda>x. fst x \<noteq> fst (called (co_world s) ! co_resumed s)) (co_frames s)\<rparr>) of
                None \<Rightarrow> None
              | Some (Inl e) \<Rightarrow> Some (Inl e)
              | Some (Inr s) \<Rightarrow> drive s))
      else Some (Inr s))"

declare drive.simps [code]

definition and_drive :: "(ferror + ('e, 'a) coroutines) option \<Rightarrow> (ferror + ('e, 'a) coroutines) option" where
  "and_drive x = (case x of Some (Inr s) \<Rightarrow> drive s | _ \<Rightarrow> x)"

text \<open>The call of a coroutine: \<open>get_return_object\<close>, then the body without initial suspension.\<close>

definition co_start :: "('e, 'a) coroutine \<Rightarrow> ('e, 'a) coroutines \<Rightarrow> (ferror + (future \<times> ('e, 'a) coroutines)) option" where
  "co_start body s =
     (case make_promise (co_world s) of (p, w) \<Rightarrow>
        (case make_future p of
           Inl e \<Rightarrow> Some (Inl e)
         | Inr (f, p) \<Rightarrow>
             map_option (\<lambda>o'. case o' of Inl e \<Rightarrow> Inl e | Inr s \<Rightarrow> Inr (f, s)) (and_drive (run_body p body (s\<lparr>co_world := w\<rparr>)))))"

text \<open>A producer sets a promise.\<close>

definition co_set :: "promise \<Rightarrow> ('e, 'a) result \<Rightarrow> ('e, 'a) coroutines \<Rightarrow> (ferror + ('e, 'a) coroutines) option" where
  "co_set p r s = and_drive (in_world (promise_set p r (co_world s)) s)"

section \<open>What a coroutine computes\<close>

text \<open>The body run from the results \<open>results n\<close> of the cells, as if it never had to wait.\<close>

primrec outcome :: "(nat \<Rightarrow> ('e, 'a) result) \<Rightarrow> ('e, 'a) coroutine \<Rightarrow> ('e, 'a) result" where
  "outcome results (Co_Return u) = Value u"
| "outcome results (Co_Throw e) = Exception e"
| "outcome results (Co_Await f k) = outcome results (k (results (the (f_state f))))"

text \<open>The body awaits only futures of the cells \<open>A\<close>, each at most once (a future is moved into its awaiter).\<close>

primrec awaits_in :: "('e, 'a) coroutine \<Rightarrow> nat set \<Rightarrow> bool" where
  "awaits_in (Co_Return u) A \<longleftrightarrow> True"
| "awaits_in (Co_Throw e) A \<longleftrightarrow> True"
| "awaits_in (Co_Await f k) A \<longleftrightarrow> (\<exists>n \<in> A. f_state f = Some n \<and> (\<forall>r. awaits_in (k r) (A - {n})))"

text \<open>A cell without result and callback, and a cell that waits for its result with the resumption of a frame.\<close>

definition blank :: "('e, 'a) world \<Rightarrow> nat \<Rightarrow> bool" where
  "blank w n \<longleftrightarrow> n < length (cells w) \<and> word (cells w ! n) = Start \<and> exec (cells w ! n) = None"

definition awaited :: "('e, 'a) world \<Rightarrow> nat \<Rightarrow> nat \<Rightarrow> bool" where
  "awaited w n h \<longleftrightarrow> n < length (cells w) \<and> word (cells w ! n) = Only_Callback \<and> cb (cells w ! n) = Some (User h) \<and>
     exec (cells w ! n) = None"

definition quiet :: "('e, 'a) coroutines \<Rightarrow> bool" where
  "quiet s \<longleftrightarrow> co_resumed s = length (called (co_world s))"

definition finished :: "('e, 'a) coroutines \<Rightarrow> nat \<Rightarrow> ('e, 'a) result \<Rightarrow> bool" where
  "finished s m r \<longleftrightarrow> settled (co_world s) m r \<and> co_frames s = [] \<and> quiet s"

definition waiting :: "(nat \<Rightarrow> ('e, 'a) result) \<Rightarrow> ('e, 'a) coroutines \<Rightarrow> nat set \<Rightarrow> nat \<Rightarrow> nat \<Rightarrow> ('e, 'a) result \<Rightarrow> bool" where
  "waiting results s A n m r \<longleftrightarrow>
     (\<exists>h p k. co_frames s = [(h, p, k)] \<and> p_state p = Some m \<and> awaited (co_world s) n h \<and> blank (co_world s) m \<and>
        (\<forall>r. awaits_in (k r) A) \<and> outcome results (k (results n)) = r) \<and> n \<noteq> m \<and> n \<notin> A \<and> m \<notin> A \<and> quiet s"

text \<open>The cells \<open>U\<close> are still to be set, the other cells of \<open>A\<close> have their results.\<close>

definition cells_ok :: "(nat \<Rightarrow> ('e, 'a) result) \<Rightarrow> ('e, 'a) world \<Rightarrow> nat set \<Rightarrow> nat set \<Rightarrow> bool" where
  "cells_ok results w A U \<longleftrightarrow> (\<forall>u \<in> U. blank w u) \<and> (\<forall>a \<in> A - U. settled w a (results a))"

definition progress :: "(nat \<Rightarrow> ('e, 'a) result) \<Rightarrow> ('e, 'a) coroutines \<Rightarrow> nat set \<Rightarrow> nat \<Rightarrow> ('e, 'a) result \<Rightarrow> bool" where
  "progress results s U m r \<longleftrightarrow> m \<notin> U \<and>
     (finished s m r \<and> cells_ok results (co_world s) {} U \<or>
      (\<exists>n \<in> U. \<exists>A. waiting results s A n m r \<and> cells_ok results (co_world s) A (U - {n})))"

lemma drive_quiet: "quiet s \<Longrightarrow> drive s = Some (Inr s)"
  by (subst drive.simps) (simp add: quiet_def)

text \<open>Steps of the world on one cell.\<close>

lemma set_blank:
  assumes "blank w n" "p_state p = Some n"
  shows "promise_set p r w = Some (Inr (p\<lparr>p_state := None\<rparr>, w\<lparr>cells := (cells w)[n := (cells w ! n)\<lparr>res := Some r, word := Only_Result\<rparr>]\<rparr>))"
  using assms by (simp add: promise_set_def set_result_def dispatch_def blank_def Let_def)

lemma set_awaited:
  assumes "awaited w n h" "p_state p = Some n"
  shows "promise_set p r w = Some (Inr (p\<lparr>p_state := None\<rparr>,
    w\<lparr>cells := (cells w)[n := (cells w ! n)\<lparr>res := Some r, word := Done\<rparr>], called := called w @ [(h, r)]\<rparr>))"
  using assms by (simp add: promise_set_def set_result_def dispatch_def awaited_def Let_def) (subst invoke.simps, simp)

lemma subscribe_blank:
  assumes "blank w n" "f_state f = Some n"
  shows "future_subscribe f (Some (User h)) w =
    Some (Inr (f, w\<lparr>cells := (cells w)[n := (cells w ! n)\<lparr>cb := Some (User h), word := Only_Callback\<rparr>]\<rparr>))"
  using assms by (simp add: future_subscribe_def set_callback_def dispatch_def blank_def Let_def)

lemma subscribe_settled:
  assumes "settled w n r" "f_state f = Some n"
  shows "future_subscribe f (Some (User h)) w =
    Some (Inr (f, w\<lparr>cells := (cells w)[n := (cells w ! n)\<lparr>cb := Some (User h), word := Done\<rparr>], called := called w @ [(h, r)]\<rparr>))"
  using assms by (simp add: future_subscribe_def set_callback_def dispatch_def settled_def Let_def) (subst invoke.simps, simp)

lemma blank_other: "u \<noteq> n \<Longrightarrow> blank (w\<lparr>cells := (cells w)[n := c]\<rparr>) u = blank w u"
  "u \<noteq> n \<Longrightarrow> blank (w\<lparr>cells := (cells w)[n := c], called := cs\<rparr>) u = blank w u"
  by (simp_all add: blank_def)

lemma settled_other: "u \<noteq> n \<Longrightarrow> settled (w\<lparr>cells := (cells w)[n := c]\<rparr>) u r = settled w u r"
  "u \<noteq> n \<Longrightarrow> settled (w\<lparr>cells := (cells w)[n := c], called := cs\<rparr>) u r = settled w u r"
  by (simp_all add: settled_def)

lemma cells_ok_update:
  assumes "cells_ok results w A U" "n \<notin> A \<union> U"
  shows "cells_ok results (w\<lparr>cells := (cells w)[n := c]\<rparr>) A U" "cells_ok results (w\<lparr>cells := (cells w)[n := c], called := cs\<rparr>) A U"
  unfolding cells_ok_def
proof safe
  fix u assume "u \<in> U"
  then have "u \<noteq> n" "blank w u" using assms by (auto simp: cells_ok_def)
  then show "blank (w\<lparr>cells := (cells w)[n := c]\<rparr>) u" "blank (w\<lparr>cells := (cells w)[n := c], called := cs\<rparr>) u"
    by (simp_all add: blank_other)
next
  fix a assume "a \<in> A" "a \<notin> U"
  then have "a \<noteq> n" "settled w a (results a)" using assms by (auto simp: cells_ok_def)
  then show "settled (w\<lparr>cells := (cells w)[n := c]\<rparr>) a (results a)"
    "settled (w\<lparr>cells := (cells w)[n := c], called := cs\<rparr>) a (results a)" by (simp_all add: settled_other)
qed

lemma run_settles:
  assumes "blank (co_world s) m" "p_state p = Some m" "m \<notin> A \<union> U" "quiet s" "co_frames s = []" "cells_ok results (co_world s) A U"
  shows "\<exists>s'. and_drive (in_world (promise_set p r (co_world s)) s) = Some (Inr s') \<and> progress results s' U m r"
proof -
  let ?w = "(co_world s)\<lparr>cells := (cells (co_world s))[m := (cells (co_world s) ! m)\<lparr>res := Some r, word := Only_Result\<rparr>]\<rparr>"
  let ?s = "s\<lparr>co_world := ?w\<rparr>"
  have "quiet ?s" using assms(4) by (simp add: quiet_def)
  then have "and_drive (in_world (promise_set p r (co_world s)) s) = Some (Inr ?s)"
    using set_blank [OF assms(1,2), of r] drive_quiet [of ?s] by (simp add: in_world_def and_drive_def)
  moreover have "cells_ok results ?w {} U" using cells_ok_update(1) [OF assms(6,3)] by (simp add: cells_ok_def)
  moreover have "settled ?w m r" using assms(1) by (simp add: settled_def blank_def)
  ultimately show ?thesis using \<open>quiet ?s\<close> assms(3,5) by (intro exI [of _ ?s]) (simp add: progress_def finished_def)
qed

text \<open>The body runs to its end or waits for a cell that is still to be set, whatever it awaits before.\<close>

lemma run_progress:
  assumes "blank (co_world s) m" "p_state p = Some m" "m \<notin> A \<union> U" "quiet s" "co_frames s = []" "cells_ok results (co_world s) A U"
    "awaits_in body A"
  shows "\<exists>s'. and_drive (run_body p body s) = Some (Inr s') \<and> progress results s' U m (outcome results body)"
  using assms
proof (induction body arbitrary: s A)
  case (Co_Return u)
  then show ?case using run_settles [of s m p A U results "Value u"] by (simp add: return_value_def)
next
  case (Co_Throw e)
  then show ?case using run_settles [of s m p A U results "Exception e"] by (simp add: unhandled_exception_def)
next
  case (Co_Await f k)
  from Co_Await.prems(7) obtain n where n: "n \<in> A" "f_state f = Some n" "\<forall>r. awaits_in (k r) (A - {n})" by auto
  have nm: "n \<noteq> m" using n(1) Co_Await.prems(3) by auto
  let ?h = "co_handles s" and ?w = "co_world s"
  let ?s = "s\<lparr>co_frames := [(?h, p, k)], co_handles := ?h + 1\<rparr>"
  show ?case
  proof (cases "n \<in> U")
    case True
    then have b: "blank ?w n" using Co_Await.prems(6) by (simp add: cells_ok_def)
    let ?w1 = "?w\<lparr>cells := (cells ?w)[n := (cells ?w ! n)\<lparr>cb := Some (User ?h), word := Only_Callback\<rparr>]\<rparr>"
    let ?s1 = "?s\<lparr>co_world := ?w1\<rparr>"
    have q: "quiet ?s1" using Co_Await.prems(4) by (simp add: quiet_def)
    have "and_drive (run_body p (Co_Await f k) s) = Some (Inr ?s1)"
      using subscribe_blank [OF b n(2), of ?h] drive_quiet [OF q] Co_Await.prems(5)
      by (simp add: await_suspend_def in_world_def and_drive_def)
    moreover have "cells_ok results ?w1 (A - {n}) (U - {n})"
      by (rule cells_ok_update(1)) (use Co_Await.prems(6) in \<open>auto simp: cells_ok_def\<close>)
    moreover have "waiting results ?s1 (A - {n}) n m (outcome results (Co_Await f k))"
      using b n nm q Co_Await.prems(1-3) by (auto simp: waiting_def awaited_def blank_def)
    ultimately show ?thesis using True Co_Await.prems(3)
      by (intro exI [of _ ?s1]) (auto simp: progress_def)
  next
    case False
    then have b: "settled ?w n (results n)" using Co_Await.prems(6) n(1) by (simp add: cells_ok_def)
    let ?w1 = "?w\<lparr>cells := (cells ?w)[n := (cells ?w ! n)\<lparr>cb := Some (User ?h), word := Done\<rparr>], called := called ?w @ [(?h, results n)]\<rparr>"
    let ?s1 = "?s\<lparr>co_world := ?w1\<rparr>"
    let ?s2 = "?s1\<lparr>co_resumed := co_resumed s + 1, co_frames := []\<rparr>"
    have "run_body p (Co_Await f k) s = Some (Inr ?s1)"
      using subscribe_settled [OF b n(2), of ?h] Co_Await.prems(5) by (simp add: await_suspend_def in_world_def)
    moreover have "drive ?s1 = and_drive (run_body p (k (results n)) ?s2)"
      using Co_Await.prems(4) by (subst drive.simps) (simp add: quiet_def nth_append and_drive_def split: option.splits sum.splits)
    ultimately have run: "and_drive (run_body p (Co_Await f k) s) = and_drive (run_body p (k (results n)) ?s2)"
      by (simp add: and_drive_def)
    have "\<exists>s'. and_drive (run_body p (k (results n)) ?s2) = Some (Inr s') \<and> progress results s' U m (outcome results (k (results n)))"
    proof (rule Co_Await.IH [of _ ?s2 "A - {n}"])
      show "cells_ok results (co_world ?s2) (A - {n}) U"
        using cells_ok_update(2) [of results ?w "A - {n}" U n] Co_Await.prems(6) False by (simp add: cells_ok_def)
      show "blank (co_world ?s2) m" using Co_Await.prems(1) nm by (simp add: blank_def)
    qed (use Co_Await.prems n(3) in \<open>auto simp: quiet_def\<close>)
    then show ?thesis using run n(2) by simp
  qed
qed

text \<open>A cell is set: the coroutine that waits for it goes on.\<close>

lemma set_progress:
  assumes "progress results s U m r" "n \<in> U" "p_state p = Some n"
  shows "\<exists>s'. co_set p (results n) s = Some (Inr s') \<and> progress results s' (U - {n}) m r"
proof -
  let ?w = "co_world s"
  have nm: "n \<noteq> m" and m: "m \<notin> U - {n}" using assms(1,2) by (auto simp: progress_def)
  consider "finished s m r" "cells_ok results ?w {} U" |
    i A where "i \<in> U" "waiting results s A i m r" "cells_ok results ?w A (U - {i})"
    using assms(1) by (auto simp: progress_def)
  then show ?thesis
  proof cases
    case 1
    let ?w1 = "?w\<lparr>cells := (cells ?w)[n := (cells ?w ! n)\<lparr>res := Some (results n), word := Only_Result\<rparr>]\<rparr>"
    let ?s = "s\<lparr>co_world := ?w1\<rparr>"
    have "blank ?w n" using 1(2) assms(2) by (simp add: cells_ok_def)
    moreover have q: "quiet ?s" using 1(1) by (simp add: finished_def quiet_def)
    ultimately have "co_set p (results n) s = Some (Inr ?s)"
      using set_blank [of ?w n p] assms(3) drive_quiet [OF q] by (simp add: co_set_def in_world_def and_drive_def)
    moreover have "finished ?s m r" using 1(1) q nm by (auto simp: finished_def settled_def)
    moreover have "cells_ok results ?w1 {} (U - {n})"
      by (rule cells_ok_update(1)) (use 1(2) in \<open>auto simp: cells_ok_def\<close>)
    ultimately show ?thesis using m by (intro exI [of _ ?s]) (simp add: progress_def)
  next
    case 2
    then obtain h q k where f: "co_frames s = [(h, q, k)]" "p_state q = Some m" "awaited ?w i h" "blank ?w m"
      "\<forall>r. awaits_in (k r) A" "outcome results (k (results i)) = r" "i \<noteq> m" "i \<notin> A" "m \<notin> A" "quiet s"
      by (auto simp: waiting_def)
    show ?thesis
    proof (cases "n = i")
      case True
      let ?w1 = "?w\<lparr>cells := (cells ?w)[n := (cells ?w ! n)\<lparr>res := Some (results n), word := Done\<rparr>], called := called ?w @ [(h, results n)]\<rparr>"
      let ?s1 = "s\<lparr>co_world := ?w1\<rparr>"
      let ?s2 = "?s1\<lparr>co_resumed := co_resumed s + 1, co_frames := []\<rparr>"
      have "drive ?s1 = and_drive (run_body q (k (results n)) ?s2)"
        using f(1,10) by (subst drive.simps) (simp add: quiet_def nth_append and_drive_def split: option.splits sum.splits)
      then have run: "co_set p (results n) s = and_drive (run_body q (k (results n)) ?s2)"
        using set_awaited [of ?w n h p] f(3) True assms(3) by (simp add: co_set_def in_world_def and_drive_def)
      have "\<exists>s'. and_drive (run_body q (k (results n)) ?s2) = Some (Inr s') \<and> progress results s' (U - {n}) m (outcome results (k (results n)))"
      proof (rule run_progress [where A = A])
        show "cells_ok results (co_world ?s2) A (U - {n})"
          using cells_ok_update(2) [OF 2(3), of i] f(8) True by simp
        show "blank (co_world ?s2) m" using f(4) nm by (simp add: blank_def)
      qed (use f m in \<open>auto simp: quiet_def\<close>)
      then show ?thesis using run f(6) True by simp
    next
      case False
      let ?w1 = "?w\<lparr>cells := (cells ?w)[n := (cells ?w ! n)\<lparr>res := Some (results n), word := Only_Result\<rparr>]\<rparr>"
      let ?s = "s\<lparr>co_world := ?w1\<rparr>"
      have b: "blank ?w n" using 2(3) assms(2) False by (simp add: cells_ok_def)
      have q: "quiet ?s" using f(10) by (simp add: quiet_def)
      have "co_set p (results n) s = Some (Inr ?s)"
        using set_blank [OF b assms(3)] drive_quiet [OF q] by (simp add: co_set_def in_world_def and_drive_def)
      moreover have "waiting results ?s A i m r"
        using f q False nm by (auto simp: waiting_def awaited_def blank_def)
      moreover have "cells_ok results ?w1 A (U - {n} - {i})"
        using 2(3) b by (auto simp: cells_ok_def blank_def settled_def nth_list_update)
      ultimately show ?thesis using m 2(1) False by (intro exI [of _ ?s]) (auto simp: progress_def)
    qed
  qed
qed


text \<open>Producers set the cells \<open>ns\<close> in this order.\<close>

primrec co_set_all :: "(nat \<Rightarrow> ('e, 'a) result) \<Rightarrow> nat list \<Rightarrow> ('e, 'a) coroutines \<Rightarrow> (ferror + ('e, 'a) coroutines) option" where
  "co_set_all results [] s = Some (Inr s)"
| "co_set_all results (n # ns) s =
     (case co_set \<lparr>p_state = Some n, extracted = True\<rparr> (results n) s of
        Some (Inr s) \<Rightarrow> co_set_all results ns s
      | x \<Rightarrow> x)"

lemma set_all_progress:
  assumes "progress results s U m r" "distinct ns" "set ns \<subseteq> U"
  shows "\<exists>s'. co_set_all results ns s = Some (Inr s') \<and> progress results s' (U - set ns) m r"
  using assms
proof (induction ns arbitrary: s U)
  case (Cons n ns)
  obtain s1 where s1: "co_set \<lparr>p_state = Some n, extracted = True\<rparr> (results n) s = Some (Inr s1)" "progress results s1 (U - {n}) m r"
    using set_progress [OF Cons.prems(1), of n "\<lparr>p_state = Some n, extracted = True\<rparr>"] Cons.prems(3) by auto
  with Cons.IH [OF s1(2)] Cons.prems(2,3) show ?case by (auto simp: Diff_insert2 [symmetric] Diff_insert [symmetric])
qed simp

lemma start_progress:
  assumes "awaits_in body A" "cells_ok results w A U" "\<forall>n \<in> A \<union> U. n < length (cells w)"
  shows "\<exists>s. co_start body (no_coroutines w) = Some (Inr (\<lparr>f_state = Some (length (cells w))\<rparr>, s)) \<and>
    progress results s U (length (cells w)) (outcome results body)"
proof -
  let ?m = "length (cells w)" and ?p = "\<lparr>p_state = Some (length (cells w)), extracted = True\<rparr>"
  let ?w = "w\<lparr>cells := cells w @ [new_shared]\<rparr>"
  let ?s = "(no_coroutines w)\<lparr>co_world := ?w\<rparr>"
  have "cells_ok results ?w A U"
    using assms(2,3) by (auto simp: cells_ok_def blank_def settled_def nth_append intro: less_SucI)
  then obtain s where s: "and_drive (run_body ?p body ?s) = Some (Inr s)" "progress results s U ?m (outcome results body)"
    using run_progress [of ?s ?m ?p A U results body] assms(1,3)
    by (force simp: no_coroutines_def quiet_def blank_def new_shared_def nth_append)
  then show ?thesis
    by (simp add: co_start_def make_promise_def make_shared_state_def make_future_def no_coroutines_def)
qed

text \<open>Before the cells it awaits are set, a reader of the coroutine's future waits; afterwards it gets the outcome.\<close>

lemma waiting_blocks:
  "waiting results s A n m r \<Longrightarrow> future_get \<lparr>f_state = Some m\<rparr> (co_world s) = None"
  by (auto simp: waiting_def blank_def future_get_def get_result_def has_result_def)

lemma finished_get:
  "finished s m r \<Longrightarrow> future_get \<lparr>f_state = Some m\<rparr> (co_world s) = Some (Inr r)"
  by (auto simp: finished_def settled_def future_get_def get_result_def has_result_def)

section \<open>Property\<close>

text \<open>
  C19: a coroutine that awaits, each at most once, futures of which some have their result when it is called and the others
  (\<open>ns\<close>) are set afterwards in an order of their own, completes when the last of them is set: no call throws, its future gives
  the value the body returns, or the exception that leaves it, for the results it awaited, and no frame is left suspended.
\<close>

theorem coroutine_completes:
  assumes "awaits_in body A" "distinct ns" "\<forall>n \<in> set ns. blank w n" "\<forall>n \<in> A - set ns. settled w n (results n)"
  shows "\<exists>f s s'. co_start body (no_coroutines w) = Some (Inr (f, s)) \<and> co_set_all results ns s = Some (Inr s') \<and>
    future_get f (co_world s') = Some (Inr (outcome results body)) \<and> co_frames s' = []"
proof -
  let ?m = "length (cells w)"
  have ok: "cells_ok results w A (set ns)" using assms(3,4) by (simp add: cells_ok_def)
  have "\<forall>n \<in> A \<union> set ns. n < ?m" using assms(3,4) by (auto simp: blank_def settled_def)
  from start_progress [OF assms(1) ok this] obtain s where
    s: "co_start body (no_coroutines w) = Some (Inr (\<lparr>f_state = Some ?m\<rparr>, s))" "progress results s (set ns) ?m (outcome results body)"
    by blast
  from set_all_progress [OF s(2) assms(2)] obtain s' where
    s': "co_set_all results ns s = Some (Inr s')" "progress results s' {} ?m (outcome results body)" by auto
  then have "finished s' ?m (outcome results body)" by (simp add: progress_def)
  then show ?thesis using s(1) s'(1) finished_get by (fastforce simp: finished_def)
qed

text \<open>A body that adds two futures and returns \<open>-1\<close> when the second throws; the second is set before the first.\<close>

definition add_futures :: "(string, int) coroutine" where
  "add_futures =
     Co_Await \<lparr>f_state = Some 0\<rparr> (\<lambda>x. case x of
        Exception e \<Rightarrow> Co_Throw e
      | Value a \<Rightarrow> Co_Await \<lparr>f_state = Some 1\<rparr> (\<lambda>y. case y of Exception e \<Rightarrow> Co_Return (-1) | Value b \<Rightarrow> Co_Return (a + b)))"

theorem coroutine_completes_witness:
  "\<exists>f s s'. co_start add_futures (no_coroutines (empty_world\<lparr>cells := [new_shared, new_shared]\<rparr>)) = Some (Inr (f, s)) \<and>
    co_set_all (\<lambda>n. Value (int n + 3)) [1, 0] s = Some (Inr s') \<and>
    future_get f (co_world s') = Some (Inr (outcome (\<lambda>n. Value (int n + 3)) add_futures)) \<and> co_frames s' = []"
  by (rule coroutine_completes [where A = "{0, 1}"])
     (auto simp: add_futures_def empty_world_def blank_def new_shared_def split: result.splits)

end
