(* ===== verification/Counting.thy ===== *)
theory Counting
  imports Main
begin

text \<open>
  Counting the threads (or callbacks) that are at a given kind of program point: a system of
  threads is the list of their points, and a step replaces one entry.
\<close>

definition cnt :: "('a \<Rightarrow> bool) \<Rightarrow> 'a list \<Rightarrow> nat" where
  "cnt P xs = length (filter P xs)"

lemma cnt_update:
  "i < length xs \<Longrightarrow> cnt P (xs[i := y]) + (if P (xs ! i) then 1 else 0) = cnt P xs + (if P y then 1 else 0)"
proof (induction xs arbitrary: i)
  case (Cons x xs)
  then show ?case by (cases i) (auto simp: cnt_def)
qed simp

lemma cnt_upd:
  "i < length xs \<Longrightarrow> cnt P (xs[i := y]) =
     cnt P xs + (if P y then 1 else 0) - (if P (xs ! i) then 1 else 0)"
  using cnt_update [of i xs P y] by linarith

lemma cnt_pos: "i < length xs \<Longrightarrow> P (xs ! i) \<Longrightarrow> 0 < cnt P xs"
  unfolding cnt_def by (metis length_greater_0_conv filter_empty_conv nth_mem)

lemma cnt_zero: "cnt P xs = 0 \<longleftrightarrow> (\<forall>x \<in> set xs. \<not> P x)"
  by (simp add: cnt_def filter_empty_conv)

lemma cnt_ex: "0 < cnt P xs \<longleftrightarrow> (\<exists>i < length xs. P (xs ! i))"
  by (metis cnt_pos cnt_zero in_set_conv_nth less_numeral_extra(3) not_gr_zero)

lemma cnt_mono: "(\<And>x. P x \<Longrightarrow> Q x) \<Longrightarrow> cnt P xs \<le> cnt Q xs"
  unfolding cnt_def by (induction xs) auto

lemma cnt_le_length: "cnt P xs \<le> length xs"
  by (simp add: cnt_def)

lemma length_filter_mono_on:
  "(\<And>x. x \<in> set xs \<Longrightarrow> P x \<Longrightarrow> Q x) \<Longrightarrow> length (filter P xs) \<le> length (filter Q xs)"
  by (induction xs) auto

lemma cnt_split: "cnt P xs = cnt (\<lambda>x. P x \<and> Q x) xs + cnt (\<lambda>x. P x \<and> \<not> Q x) xs"
  unfolding cnt_def by (induction xs) auto

lemma cnt_index: "cnt P xs = length (filter (\<lambda>i. P (xs ! i)) [0..<length xs])"
proof -
  have "filter P xs = map (nth xs) (filter (\<lambda>i. P (xs ! i)) [0..<length xs])"
    by (metis (no_types, lifting) comp_apply filter_cong filter_map map_nth)
  then show ?thesis by (metis cnt_def length_map)
qed

lemma cnt_replicate: "cnt P (replicate n x) = (if P x then n else 0)"
  by (simp add: cnt_def)

text \<open>Two positions that both satisfy \<open>P\<close> are the same when at most one does.\<close>

lemma cnt_one_unique:
  assumes "cnt P xs \<le> 1" "i < length xs" "j < length xs" "P (xs ! i)" "P (xs ! j)"
  shows "i = j"
proof (rule ccontr)
  assume "i \<noteq> j"
  have "{i, j} \<subseteq> set (filter (\<lambda>i. P (xs ! i)) [0..<length xs])" using assms by auto
  moreover have "card (set (filter (\<lambda>i. P (xs ! i)) [0..<length xs])) = cnt P xs"
    unfolding cnt_index by (rule distinct_card) simp
  ultimately have "card {i, j} \<le> cnt P xs" by (metis card_mono List.finite_set)
  then show False using \<open>i \<noteq> j\<close> assms(1) by simp
qed

end
