(* ===== verification/First_N.thy ===== *)
theory First_N
  imports Prelude Counting
begin

text \<open>
  The combinators \<open>first_n\<close> and \<open>first_of\<close> of \<open>concurrency/futures/combine\<close>. The caller's thread
  subscribes to the futures one after the other and finally calls \<open>make_future\<close> on the promise of the
  context; the callback of a subscribed future runs at any time after its subscription, at once if the
  future is ready, and never if the future never gets a result (\<open>None\<close> in \<open>inputs\<close>). The callbacks and
  the caller interleave at every access to a field of the shared context.
\<close>

section \<open>first_n\<close>

text \<open>
  Program points of a callback: before \<open>completed.fetch_add\<close>; returned because enough were
  completed; before the write of \<open>v[i]\<close>; before \<open>stored.fetch_add\<close>; returned because results are missing;
  before the loop over \<open>v\<close>; before \<open>promise_.set\<close>; returned after it; dereferenced the null state of the promise.
\<close>

datatype 'r cpoint = Idle | Skipped | Got | Kept | Early | Gather | Set "'r list" | Finished | Crashed

record 'r fn_context =
  inputs :: "'r option list"
  minimum :: nat
  points :: "'r cpoint list"
  slots :: "'r option list"
  completed :: nat
  stored :: nat
  has_state :: bool
  promise_result :: "'r list option"
  subscribed :: nat
  exposed :: "bool option"

text \<open>
  \<open>std::move(*this).release_state()\<close> of \<open>promise::set\<close> leaves a null \<open>state_\<close> behind, and
  \<open>make_future\<close> copies \<open>state_\<close>, null or not: \<open>exposed = Some False\<close> is a future without a state.
\<close>

definition make_context :: "'r option list \<Rightarrow> nat \<Rightarrow> 'r fn_context" where
  "make_context rs n = \<lparr>inputs = rs, minimum = n, points = replicate (length rs) Idle,
     slots = replicate (length rs) None, completed = 0, stored = 0, has_state = True,
     promise_result = None, subscribed = 0, exposed = None\<rparr>"

text \<open>\<open>futures.size() < n\<close> is refused with an error future.\<close>

definition first_n_start :: "'r option list \<Rightarrow> nat \<Rightarrow> string + 'r fn_context" where
  "first_n_start rs n =
     (if length rs < n then Inl ''not enough futures'' else Inr (make_context rs n))"

definition gathered :: "'r option list \<Rightarrow> 'r list" where
  "gathered vs = map the (filter (\<lambda>entry. entry \<noteq> None) vs)"

fun callback_step :: "nat \<Rightarrow> 'r fn_context \<Rightarrow> 'r fn_context option" where
  "callback_step i c =
     (if i < subscribed c \<and> i < length (points c) then
        (case points c ! i of
           Idle \<Rightarrow>
             (if inputs c ! i = None then None
              else let k = completed c + 1
                   in Some (c\<lparr>completed := k,
                              points := (points c)[i := if k > minimum c then Skipped else Got]\<rparr>))
         | Got \<Rightarrow> Some (c\<lparr>slots := (slots c)[i := inputs c ! i], points := (points c)[i := Kept]\<rparr>)
         | Kept \<Rightarrow>
             (let s = stored c + 1
              in Some (c\<lparr>stored := s,
                         points := (points c)[i := if s < minimum c then Early else Gather]\<rparr>))
         | Gather \<Rightarrow> Some (c\<lparr>points := (points c)[i := Set (gathered (slots c))]\<rparr>)
         | Set ys \<Rightarrow>
             Some (if has_state c
                   then c\<lparr>has_state := False, promise_result := Some ys, points := (points c)[i := Finished]\<rparr>
                   else c\<lparr>points := (points c)[i := Crashed]\<rparr>)
         | _ \<Rightarrow> None)
      else None)"

definition caller_step :: "'r fn_context \<Rightarrow> 'r fn_context option" where
  "caller_step c =
     (if subscribed c < length (inputs c) then Some (c\<lparr>subscribed := subscribed c + 1\<rparr>)
      else if exposed c = None then Some (c\<lparr>exposed := Some (has_state c)\<rparr>)
      else None)"

declare callback_step.simps [simp del]

inductive first_n_step :: "'r fn_context \<Rightarrow> 'r fn_context \<Rightarrow> bool" where
  callback: "callback_step i c = Some c' \<Longrightarrow> first_n_step c c'"
| caller: "caller_step c = Some c' \<Longrightarrow> first_n_step c c'"

abbreviation first_n_reach :: "'r fn_context \<Rightarrow> 'r fn_context \<Rightarrow> bool" where
  "first_n_reach \<equiv> first_n_step\<^sup>*\<^sup>*"

section \<open>Kinds of program points\<close>

fun started :: "'r cpoint \<Rightarrow> bool" where "started p = (p \<noteq> Idle)"
fun entered :: "'r cpoint \<Rightarrow> bool" where "entered p = (p \<noteq> Idle \<and> p \<noteq> Skipped)"
fun has_kept :: "'r cpoint \<Rightarrow> bool" where "has_kept p = (p \<noteq> Idle \<and> p \<noteq> Skipped \<and> p \<noteq> Got)"
fun counted :: "'r cpoint \<Rightarrow> bool" where "counted p = (p \<noteq> Idle \<and> p \<noteq> Skipped \<and> p \<noteq> Got \<and> p \<noteq> Kept)"
fun last_one :: "'r cpoint \<Rightarrow> bool" where
  "last_one p = (case p of Gather \<Rightarrow> True | Set _ \<Rightarrow> True | Finished \<Rightarrow> True | Crashed \<Rightarrow> True | _ \<Rightarrow> False)"

section \<open>Invariant\<close>

definition fn_inv :: "'r option list \<Rightarrow> nat \<Rightarrow> 'r fn_context \<Rightarrow> bool" where
  "fn_inv rs n c \<longleftrightarrow>
     inputs c = rs \<and> minimum c = n \<and> length (points c) = length rs \<and> length (slots c) = length rs \<and>
     subscribed c \<le> length rs \<and>
     completed c = cnt started (points c) \<and>
     cnt entered (points c) = min (completed c) n \<and>
     stored c = cnt counted (points c) \<and>
     cnt last_one (points c) = (if 0 < n \<and> stored c = n then 1 else 0) \<and>
     (\<forall>i < length rs. slots c ! i = (if has_kept (points c ! i) then rs ! i else None)) \<and>
     (\<forall>i < length rs. points c ! i \<noteq> Idle \<longrightarrow> rs ! i \<noteq> None) \<and>
     (\<forall>i < length rs. \<forall>ys. points c ! i = Set ys \<longrightarrow> ys = gathered (slots c)) \<and>
     cnt (\<lambda>p. p = Crashed) (points c) = 0 \<and>
     has_state c = (cnt (\<lambda>p. p = Finished) (points c) = 0) \<and>
     promise_result c = (if has_state c then None else Some (gathered (slots c)))"

lemma fn_inv_start: "length rs \<ge> n \<Longrightarrow> fn_inv rs n (make_context rs n)"
  by (auto simp: fn_inv_def make_context_def cnt_def)

text \<open>Once the last result is stored no callback is on the way: the array no longer changes.\<close>

lemma all_counted:
  assumes "fn_inv rs n c" "stored c = n" "0 < n" "p \<in> set (points c)"
  shows "p \<noteq> Got \<and> p \<noteq> Kept"
proof -
  have "cnt counted (points c) \<le> cnt entered (points c)" by (rule cnt_mono) simp
  then have eq: "cnt counted (points c) = n" "cnt entered (points c) = n"
    using assms(1,2) by (auto simp: fn_inv_def)
  have "cnt entered (points c) = cnt (\<lambda>p. entered p \<and> counted p) (points c) + cnt (\<lambda>p. entered p \<and> \<not> counted p) (points c)"
    by (rule cnt_split)
  moreover have "(\<lambda>p :: 'a cpoint. entered p \<and> counted p) = counted" by auto
  ultimately have "cnt (\<lambda>p. entered p \<and> \<not> counted p) (points c) = 0" using eq by simp
  then show ?thesis using assms(4) by (auto simp: cnt_zero)
qed

lemma fn_inv_caller: "fn_inv rs n c \<Longrightarrow> caller_step c = Some c' \<Longrightarrow> fn_inv rs n c'"
proof -
  assume inv: "fn_inv rs n c" and step: "caller_step c = Some c'"
  from step consider "subscribed c < length (inputs c)" "c' = c\<lparr>subscribed := subscribed c + 1\<rparr>"
    | "c' = c\<lparr>exposed := Some (has_state c)\<rparr>"
    by (auto simp: caller_step_def split: if_splits)
  then show ?thesis
  proof cases
    case 1
    then have "subscribed c' \<le> length rs" using inv by (simp add: fn_inv_def)
    then show ?thesis using inv 1(2) unfolding fn_inv_def by simp
  next
    case 2
    then show ?thesis using inv unfolding fn_inv_def by simp
  qed
qed

text \<open>The six kinds of callback step, as rules on the program point.\<close>

lemma callback_stepE:
  assumes "callback_step i c = Some c'"
  obtains
    (skip) "points c ! i = Idle" "inputs c ! i \<noteq> None" "minimum c < completed c + 1"
      "c' = c\<lparr>completed := completed c + 1, points := (points c)[i := Skipped]\<rparr>"
  | (enter) "points c ! i = Idle" "inputs c ! i \<noteq> None" "completed c + 1 \<le> minimum c"
      "c' = c\<lparr>completed := completed c + 1, points := (points c)[i := Got]\<rparr>"
  | (keep) "points c ! i = Got"
      "c' = c\<lparr>slots := (slots c)[i := inputs c ! i], points := (points c)[i := Kept]\<rparr>"
  | (early) "points c ! i = Kept" "stored c + 1 < minimum c"
      "c' = c\<lparr>stored := stored c + 1, points := (points c)[i := Early]\<rparr>"
  | (last) "points c ! i = Kept" "minimum c \<le> stored c + 1"
      "c' = c\<lparr>stored := stored c + 1, points := (points c)[i := Gather]\<rparr>"
  | (gather) "points c ! i = Gather" "c' = c\<lparr>points := (points c)[i := Set (gathered (slots c))]\<rparr>"
  | (set) ys where "points c ! i = Set ys" "has_state c"
      "c' = c\<lparr>has_state := False, promise_result := Some ys, points := (points c)[i := Finished]\<rparr>"
  | (crash) ys where "points c ! i = Set ys" "\<not> has_state c" "c' = c\<lparr>points := (points c)[i := Crashed]\<rparr>"
proof -
  have b: "i < subscribed c" "i < length (points c)"
    using assms by (simp_all add: callback_step.simps split: if_splits)
  note step = assms [unfolded callback_step.simps, simplified b Let_def]
  show thesis
  proof (cases "points c ! i")
    case Idle
    with step show ?thesis using skip enter
      by (cases "minimum c < completed c + 1") (auto split: if_splits)
  next
    case Got
    with step show ?thesis using keep by simp
  next
    case Kept
    with step show ?thesis using early last by (cases "stored c + 1 < minimum c") auto
  next
    case Gather
    with step show ?thesis using gather by simp
  next
    case (Set ys)
    with step show ?thesis using set crash by (cases "has_state c") auto
  qed (use step in simp_all)
qed

lemma callback_step_bound: "callback_step i c = Some c' \<Longrightarrow> i < subscribed c \<and> i < length (points c)"
  by (simp add: callback_step.simps split: if_splits)

lemma fn_inv_entered: "fn_inv rs n c \<Longrightarrow> cnt entered (points c) = min (completed c) n"
  by (simp add: fn_inv_def)

lemma fn_inv_counts:
  assumes "fn_inv rs n c" "i < length (points c)" "points c ! i = Kept"
  shows "0 < n \<and> stored c < n"
proof -
  have "cnt counted (points c) + cnt (\<lambda>p. p = Kept) (points c) \<le> cnt entered (points c)"
  proof -
    have "cnt entered (points c) = cnt (\<lambda>p. entered p \<and> counted p) (points c) + cnt (\<lambda>p. entered p \<and> \<not> counted p) (points c)"
      by (rule cnt_split)
    moreover have "(\<lambda>p :: 'a cpoint. entered p \<and> counted p) = counted" by auto
    moreover have "cnt (\<lambda>p. p = Kept) (points c) \<le> cnt (\<lambda>p. entered p \<and> \<not> counted p) (points c)"
      by (rule cnt_mono) simp
    ultimately show ?thesis by simp
  qed
  moreover have "0 < cnt (\<lambda>p. p = Kept) (points c)" using assms(2,3) by (auto intro: cnt_pos)
  ultimately show ?thesis using assms(1) by (auto simp: fn_inv_def)
qed

lemma fn_inv_callback:
  assumes inv: "fn_inv rs n c" and step: "callback_step i c = Some c'"
  shows "fn_inv rs n c'"
proof -
  have i: "i < length (points c)" "i < length (slots c)" "i < length rs"
    using callback_step_bound [OF step] inv by (auto simp: fn_inv_def)
  note upd = cnt_upd [OF i(1)] nth_list_update
  from step show ?thesis
  proof (cases rule: callback_stepE)
    case skip
    then show ?thesis using inv i by (auto simp: fn_inv_def upd)
  next
    case enter
    then show ?thesis using inv i by (auto simp: fn_inv_def upd)
  next
    case keep
    have "stored c \<noteq> n \<or> n = 0"
      using all_counted [OF inv _ _ nth_mem [OF i(1)]] keep(1) by auto
    have no: "points c ! j \<noteq> Set ys \<and> points c ! j \<noteq> Finished" if "j < length rs" for j ys
    proof -
      have "cnt last_one (points c) = 0" using inv \<open>stored c \<noteq> n \<or> n = 0\<close> by (auto simp: fn_inv_def)
      moreover have "j < length (points c)" using that inv by (simp add: fn_inv_def)
      ultimately show ?thesis by (auto simp: cnt_zero dest: nth_mem split: cpoint.splits)
    qed
    then have st: "has_state c" using inv by (auto simp: fn_inv_def cnt_zero in_set_conv_nth)
    show ?thesis using inv i keep no st by (auto simp: fn_inv_def upd)
  next
    case early
    then show ?thesis using inv i by (auto simp: fn_inv_def upd)
  next
    case last
    have "0 < n" "stored c < n" using fn_inv_counts [OF inv i(1) last(1)] by auto
    moreover have "minimum c = n" using inv by (simp add: fn_inv_def)
    ultimately have "stored c + 1 = n" using last(2) by simp
    then show ?thesis using inv i last by (auto simp: fn_inv_def upd)
  next
    case gather
    then show ?thesis using inv i by (auto simp: fn_inv_def upd)
  next
    case (set ys)
    then have "ys = gathered (slots c)" using inv i by (simp add: fn_inv_def)
    note set = set [unfolded this]
    have j: "ys' = gathered (slots c)" if "points c ! j = Set ys'" "j < length rs" for j ys'
      using inv that by (simp add: fn_inv_def)
    show ?thesis using inv i set(1,2) unfolding set(3) by (auto simp: fn_inv_def upd j)
  next
    case (crash ys)
    have "0 < cnt (\<lambda>p. p = Finished) (points c)" using inv crash(2) by (simp add: fn_inv_def)
    moreover have "0 < cnt (\<lambda>p. case p of Set _ \<Rightarrow> True | _ \<Rightarrow> False) (points c)"
      using crash(1) i(1) by (auto intro: cnt_pos)
    moreover have "cnt (\<lambda>p. p = Finished) ps + cnt (\<lambda>p. case p of Set _ \<Rightarrow> True | _ \<Rightarrow> False) ps
        \<le> cnt last_one ps" for ps :: "'a cpoint list"
      unfolding cnt_def by (induction ps) (auto split: cpoint.splits)
    from this [of "points c"] calculation
    have "2 \<le> cnt last_one (points c)" by linarith
    moreover have "cnt last_one (points c) \<le> 1" using inv by (auto simp: fn_inv_def)
    ultimately show ?thesis by simp
  qed
qed

lemma fn_inv_reach:
  assumes "first_n_reach (make_context rs n) c" "n \<le> length rs"
  shows "fn_inv rs n c"
  using assms(1)
  by (induction rule: rtranclp_induct)
     (auto intro: fn_inv_start assms(2) fn_inv_callback fn_inv_caller elim: first_n_step.cases)

section \<open>What the promise receives\<close>

lemma gathered_index:
  "gathered vs = map (\<lambda>i. the (vs ! i)) (filter (\<lambda>i. vs ! i \<noteq> None) [0..<length vs])"
proof -
  have "filter (\<lambda>e. e \<noteq> None) vs = map (nth vs) (filter (\<lambda>i. vs ! i \<noteq> None) [0..<length vs])"
    by (metis (no_types, lifting) comp_apply filter_cong filter_map map_nth)
  then show ?thesis by (simp add: gathered_def)
qed

text \<open>\<open>picks rs n ys\<close>: \<open>ys\<close> are the results of \<open>n\<close> distinct inputs that have one, in input order.\<close>

definition picks :: "'r option list \<Rightarrow> nat \<Rightarrow> 'r list \<Rightarrow> bool" where
  "picks rs n ys \<longleftrightarrow> (\<exists>is. sorted_wrt (<) is \<and> length is = n \<and>
     (\<forall>i \<in> set is. i < length rs \<and> rs ! i \<noteq> None) \<and> ys = map (\<lambda>i. the (rs ! i)) is)"

lemma gathered_picks:
  assumes inv: "fn_inv rs n c" and full: "stored c = n" "0 < n"
  shows "picks rs n (gathered (slots c))"
proof -
  let ?is = "filter (\<lambda>i. slots c ! i \<noteq> None) [0..<length (slots c)]"
  have len: "length (slots c) = length rs" "length (points c) = length rs"
    and slot: "\<And>i. i < length rs \<Longrightarrow> slots c ! i = (if has_kept (points c ! i) then rs ! i else None)"
    and ready: "\<And>i. i < length rs \<Longrightarrow> points c ! i \<noteq> Idle \<Longrightarrow> rs ! i \<noteq> None"
    using inv unfolding fn_inv_def by blast+
  have kept: "slots c ! i \<noteq> None \<longleftrightarrow> entered (points c ! i)" if "i < length rs" for i
    using slot [OF that] ready [OF that] all_counted [OF inv full nth_mem, of i] that len by auto
  have "length ?is = length (filter (\<lambda>i. entered (points c ! i)) [0..<length (points c)])"
    using kept len by (intro arg_cong [of _ _ length] filter_cong) auto
  then have "length ?is = cnt entered (points c)" by (simp add: cnt_index)
  moreover have "cnt entered (points c) = n"
  proof -
    have "cnt counted (points c) \<le> cnt entered (points c)" by (rule cnt_mono) simp
    then show ?thesis using inv full by (simp add: fn_inv_def)
  qed
  moreover have "the (slots c ! i) = the (rs ! i)" "i < length rs" "rs ! i \<noteq> None" if "i \<in> set ?is" for i
    using that slot [of i] len by (auto split: if_splits)
  moreover have "sorted_wrt (<) ?is" by (simp add: sorted_wrt_filter)
  ultimately show ?thesis
    unfolding picks_def gathered_index by (intro exI [of _ ?is]) auto
qed

lemma last_one_full:
  assumes "fn_inv rs n c" "p \<in> set (points c)" "last_one p"
  shows "stored c = n \<and> 0 < n"
proof -
  have "0 < cnt last_one (points c)" using assms(2,3) cnt_zero [of last_one "points c"] by auto
  then show ?thesis using assms(1) by (auto simp: fn_inv_def split: if_splits)
qed

lemma promise_picks:
  assumes "fn_inv rs n c" "promise_result c = Some ys"
  shows "picks rs n ys"
proof -
  have "\<not> has_state c" "ys = gathered (slots c)" using assms by (auto simp: fn_inv_def split: if_splits)
  moreover from this obtain p where "p \<in> set (points c)" "p = Finished"
    using assms(1) by (auto simp: fn_inv_def cnt_zero)
  ultimately show ?thesis using gathered_picks [OF assms(1)] last_one_full [OF assms(1)] by auto
qed

section \<open>Termination and the final state\<close>

fun weight :: "'r cpoint \<Rightarrow> nat" where
  "weight Idle = 5" | "weight Got = 4" | "weight Kept = 3" | "weight Gather = 2" | "weight (Set _) = 1"
| "weight _ = 0"

definition work :: "'r fn_context \<Rightarrow> nat" where
  "work c = sum_list (map weight (points c)) + (length (inputs c) - subscribed c) +
     (if exposed c = None then 1 else 0)"

lemma sum_weight_update:
  "i < length ps \<Longrightarrow> weight p < weight (ps ! i) \<Longrightarrow>
   sum_list (map weight (ps[i := p])) < sum_list (map weight ps)"
proof (induction ps arbitrary: i)
  case (Cons q ps)
  then show ?case by (cases i) auto
qed simp

lemma work_decreases:
  assumes "first_n_step c c'"
  shows "work c' < work c"
  using assms
proof cases
  case (callback i)
  have i: "i < length (points c)" using callback_step_bound [OF callback] by simp
  from callback show ?thesis
    by (cases rule: callback_stepE)
       (auto simp: work_def intro: sum_weight_update [OF i])
next
  case caller
  then show ?thesis by (auto simp: caller_step_def work_def split: if_splits)
qed

lemma stuck_result:
  assumes inv: "fn_inv rs n c" and stuck: "\<nexists>c'. first_n_step c c'"
    and ready: "n \<le> cnt (\<lambda>r. r \<noteq> None) rs" "0 < n"
  shows "\<exists>ys. promise_result c = Some ys"
proof -
  have ins: "inputs c = rs" and len: "length (points c) = length rs" using inv by (auto simp: fn_inv_def)
  have "caller_step c = None" using stuck first_n_step.caller by (metis not_None_eq)
  then have sub: "subscribed c = length rs"
    using inv by (auto simp: caller_step_def ins fn_inv_def split: if_splits)
  have at: "callback_step i c = None" for i
    using stuck first_n_step.callback by (metis not_None_eq)
  have pt: "points c ! i \<in> {Skipped, Early, Finished, Crashed} \<or> points c ! i = Idle \<and> rs ! i = None"
    if "i < length rs" for i
    using at [of i] that sub len ins
    by (auto simp: callback_step.simps Let_def split: cpoint.splits if_splits)
  have "cnt (\<lambda>r. r \<noteq> None) rs \<le> cnt started (points c)"
    unfolding cnt_index len
  proof (rule length_filter_mono_on)
    fix i assume "i \<in> set [0..<length rs]" "rs ! i \<noteq> None"
    then show "started (points c ! i)" using pt [of i] by auto
  qed
  then have "cnt entered (points c) = n" using inv ready by (auto simp: fn_inv_def)
  then obtain p where "p \<in> set (points c)" "entered p"
    using ready(2) cnt_zero [of entered "points c"] by auto
  have "cnt counted (points c) = cnt entered (points c)"
    unfolding cnt_index
  proof (intro arg_cong [of _ _ length] filter_cong refl)
    fix i assume "i \<in> set [0..<length (points c)]"
    then show "counted (points c ! i) = entered (points c ! i)" using pt [of i] len by auto
  qed
  then have "stored c = n" using inv \<open>cnt entered (points c) = n\<close> by (auto simp: fn_inv_def)
  then have "cnt last_one (points c) = 1" using inv ready(2) by (simp add: fn_inv_def)
  then obtain q where q: "q \<in> set (points c)" "last_one q"
    using cnt_zero [of last_one "points c"] by auto
  then obtain i where i: "i < length rs" "points c ! i = q" using len by (auto simp: in_set_conv_nth)
  have "q \<noteq> Crashed" using inv q(1) by (auto simp: fn_inv_def cnt_zero)
  then have "q = Finished" using pt [OF i(1)] i(2) q(2) by auto
  then have "\<not> has_state c" using inv q(1) by (auto simp: fn_inv_def cnt_zero)
  then show ?thesis using inv by (simp add: fn_inv_def)
qed

section \<open>first_of\<close>

text \<open>
  The callbacks of \<open>first_of\<close> exchange the flag \<open>done_\<close> and the one that saw false sets the
  promise: program points before the exchange, before \<open>promise_.set\<close>, returned, null state.
\<close>

datatype opoint = O_Idle | O_Won | O_Return | O_Crashed

record 'r of_context =
  of_inputs :: "'r option list"
  of_points :: "opoint list"
  done_flag :: bool
  of_state :: bool
  of_result :: "'r option"
  of_subscribed :: nat

definition make_of_context :: "'r option list \<Rightarrow> 'r of_context" where
  "make_of_context rs = \<lparr>of_inputs = rs, of_points = replicate (length rs) O_Idle, done_flag = False,
     of_state = True, of_result = None, of_subscribed = 0\<rparr>"

definition of_callback_step :: "nat \<Rightarrow> 'r of_context \<Rightarrow> 'r of_context option" where
  "of_callback_step i c =
     (if i < of_subscribed c \<and> i < length (of_points c) then
        (case of_points c ! i of
           O_Idle \<Rightarrow>
             (if of_inputs c ! i = None then None
              else Some (c\<lparr>done_flag := True,
                           of_points := (of_points c)[i := if done_flag c then O_Return else O_Won]\<rparr>))
         | O_Won \<Rightarrow>
             Some (if of_state c
                   then c\<lparr>of_state := False, of_result := of_inputs c ! i, of_points := (of_points c)[i := O_Return]\<rparr>
                   else c\<lparr>of_points := (of_points c)[i := O_Crashed]\<rparr>)
         | _ \<Rightarrow> None)
      else None)"

inductive first_of_step :: "'r of_context \<Rightarrow> 'r of_context \<Rightarrow> bool" where
  of_callback: "of_callback_step i c = Some c' \<Longrightarrow> first_of_step c c'"
| of_subscribe: "of_subscribed c < length (of_inputs c) \<Longrightarrow>
    first_of_step c (c\<lparr>of_subscribed := of_subscribed c + 1\<rparr>)"

definition of_inv :: "'r option list \<Rightarrow> 'r of_context \<Rightarrow> bool" where
  "of_inv rs c \<longleftrightarrow> of_inputs c = rs \<and> length (of_points c) = length rs \<and> of_subscribed c \<le> length rs \<and>
     cnt (\<lambda>p. p = O_Crashed) (of_points c) = 0 \<and>
     cnt (\<lambda>p. p = O_Won) (of_points c) = (if done_flag c \<and> of_state c then 1 else 0) \<and>
     (\<not> done_flag c \<longrightarrow> of_state c \<and> cnt (\<lambda>p. p = O_Return) (of_points c) = 0) \<and>
     (\<forall>i < length rs. of_points c ! i \<noteq> O_Idle \<longrightarrow> rs ! i \<noteq> None) \<and>
     (if of_state c then of_result c = None else of_result c \<noteq> None \<and> of_result c \<in> set rs)"

lemma of_inv_step:
  assumes "first_of_step c c'" "of_inv rs c"
  shows "of_inv rs c'"
  using assms(1)
proof cases
  case (of_callback i)
  then have i: "i < length (of_points c)" "i < length rs"
    using assms(2) by (auto simp: of_callback_step_def of_inv_def split: if_splits)
  note upd = cnt_upd [OF i(1)] nth_list_update
  show ?thesis
  proof (cases "of_points c ! i")
    case O_Idle
    then show ?thesis using of_callback assms(2) i cnt_pos [OF i(1), of "\<lambda>p. p = O_Won"]
      by (auto simp: of_callback_step_def of_inv_def upd split: if_splits)
  next
    case O_Won
    then have "of_state c \<and> done_flag c" using cnt_pos [OF i(1), of "\<lambda>p. p = O_Won"] assms(2)
      by (auto simp: of_inv_def split: if_splits)
    moreover have "rs ! i \<noteq> None" "rs ! i \<in> set rs" using O_Won assms(2) i by (auto simp: of_inv_def)
    ultimately show ?thesis using O_Won of_callback assms(2) i
      by (auto simp: of_callback_step_def of_inv_def upd split: if_splits)
  qed (use of_callback in \<open>auto simp: of_callback_step_def split: if_splits\<close>)
next
  case of_subscribe
  then show ?thesis using assms(2) by (auto simp: of_inv_def)
qed

lemma of_inv_reach: "first_of_step\<^sup>*\<^sup>* (make_of_context rs) c \<Longrightarrow> of_inv rs c"
proof (induction rule: rtranclp_induct)
  case base
  then show ?case by (auto simp: of_inv_def make_of_context_def cnt_def)
qed (blast intro: of_inv_step)

lemma of_stuck:
  assumes inv: "of_inv rs c" and stuck: "\<nexists>c'. first_of_step c c'" and ready: "i < length rs" "rs ! i \<noteq> None"
  shows "of_result c \<noteq> None \<and> of_result c \<in> set rs"
proof -
  have sub: "of_subscribed c = length rs"
    using stuck first_of_step.of_subscribe [of c] inv by (force simp: of_inv_def)
  have at: "of_callback_step j c = None" for j
    using stuck first_of_step.of_callback by (metis not_None_eq)
  have pt: "of_points c ! j \<in> {O_Return, O_Crashed} \<or> of_points c ! j = O_Idle \<and> rs ! j = None"
    if "j < length rs" for j
    using at [of j] that sub inv
    by (auto simp: of_callback_step_def of_inv_def split: opoint.splits if_splits)
  have "of_points c ! i \<noteq> O_Crashed" using inv ready(1) by (auto simp: of_inv_def cnt_zero)
  then have r: "of_points c ! i = O_Return" using pt [OF ready(1)] ready(2) by auto
  have "i < length (of_points c)" using inv ready(1) by (simp add: of_inv_def)
  then have "cnt (\<lambda>p. p = O_Return) (of_points c) \<noteq> 0" using r cnt_pos [of i "of_points c" "\<lambda>p. p = O_Return"] by simp
  then have "done_flag c" using inv by (auto simp: of_inv_def)
  moreover have "cnt (\<lambda>p. p = O_Won) (of_points c) = 0"
    unfolding cnt_zero
  proof
    fix p assume "p \<in> set (of_points c)"
    then obtain j where "j < length (of_points c)" "of_points c ! j = p" by (metis in_set_conv_nth)
    moreover have "length (of_points c) = length rs" using inv by (simp add: of_inv_def)
    ultimately show "p \<noteq> O_Won" using pt [of j] by auto
  qed
  ultimately show ?thesis using inv by (auto simp: of_inv_def split: if_splits)
qed

section \<open>Properties\<close>

text \<open>An executable scheduler: entry \<open>Some i\<close> runs the callback of future \<open>i\<close>, \<open>None\<close> the caller.\<close>

fun fn_schedule :: "nat option list \<Rightarrow> 'r fn_context \<Rightarrow> 'r fn_context option" where
  "fn_schedule [] c = Some c"
| "fn_schedule (w # ws) c =
     (case (case w of Some i \<Rightarrow> callback_step i c | None \<Rightarrow> caller_step c) of
        None \<Rightarrow> None | Some c' \<Rightarrow> fn_schedule ws c')"

lemma fn_schedule_reach: "fn_schedule ws c = Some c' \<Longrightarrow> first_n_reach c c'"
  by (induction ws arbitrary: c)
     (auto split: option.splits intro: converse_rtranclp_into_rtranclp first_n_step.intros)

text \<open>One future, ready before it is subscribed to, and \<open>n = 1\<close>.\<close>

definition ready_first :: "nat option list" where
  "ready_first = [None, Some 0, Some 0, Some 0, Some 0, Some 0, None]"

lemma ready_first_run: "fn_schedule ready_first (make_context [Some (5::int)] 1) =
  Some \<lparr>inputs = [Some 5], minimum = 1, points = [Finished], slots = [Some 5], completed = 1, stored = 1,
    has_state = False, promise_result = Some [5], subscribed = 1, exposed = Some False\<rparr>"
  by (simp add: ready_first_def make_context_def caller_step_def callback_step.simps gathered_def)

text \<open>
  C2: in every interleaving of the callbacks of \<open>first_n\<close> with each other and with the
  subscribing thread, the promise is set at most once (no callback finds its state moved away) and only
  with exactly \<open>n\<close> results, of distinct futures that have one, in the order of the futures; every step
  reduces the work left, and when nothing can move any more and at least \<open>n > 0\<close> futures
  have a result, the promise has been set.
\<close>

theorem first_n_quorum:
  assumes "first_n_start rs n = Inr c0" "first_n_reach c0 c"
  shows "Crashed \<notin> set (points c) \<and> (\<forall>ys. promise_result c = Some ys \<longrightarrow> picks rs n ys) \<and>
    (\<forall>c'. first_n_step c c' \<longrightarrow> work c' < work c) \<and>
    ((\<nexists>c'. first_n_step c c') \<and> 0 < n \<and> n \<le> cnt (\<lambda>r. r \<noteq> None) rs \<longrightarrow> promise_result c \<noteq> None)"
proof -
  have n: "n \<le> length rs" "c0 = make_context rs n"
    using assms(1) by (auto simp: first_n_start_def split: if_splits)
  have inv: "fn_inv rs n c" using fn_inv_reach assms(2) n by blast
  then have "Crashed \<notin> set (points c)" by (auto simp: fn_inv_def cnt_zero)
  then show ?thesis using promise_picks [OF inv] stuck_result [OF inv] work_decreases by fastforce
qed

theorem first_n_quorum_witness:
  "\<exists>c. fn_schedule ready_first (make_context [Some (5::int)] 1) = Some c \<and>
    Crashed \<notin> set (points c) \<and> (\<forall>ys. promise_result c = Some ys \<longrightarrow> picks [Some 5] 1 ys) \<and>
    (\<forall>c'. first_n_step c c' \<longrightarrow> work c' < work c) \<and>
    ((\<nexists>c'. first_n_step c c') \<and> (0::nat) < 1 \<and> 1 \<le> cnt (\<lambda>r. r \<noteq> None) [Some (5::int)] \<longrightarrow> promise_result c \<noteq> None)"
proof -
  have "first_n_start [Some (5::int)] 1 = Inr (make_context [Some 5] 1)" by (simp add: first_n_start_def)
  from first_n_quorum [OF this fn_schedule_reach [OF ready_first_run]] ready_first_run show ?thesis by blast
qed

text \<open>
  \<open>first_n\<close> can return a future without a shared state: when enough futures are ready
  while it still subscribes, \<open>promise_.set\<close> moves the state out of the promise before \<open>make_future\<close>
  copies it. And with \<open>n = 0\<close> the promise is never set, whatever the futures do.
\<close>

theorem first_n_null_future:
  "(\<exists>c. first_n_reach (make_context [Some (5::int)] 1) c \<and> exposed c = Some False \<and> promise_result c = Some [5]) \<and>
   (\<forall>rs c. first_n_reach (make_context rs 0) c \<longrightarrow> promise_result (c :: int fn_context) = None)"
proof (intro conjI allI impI)
  show "\<exists>c. first_n_reach (make_context [Some (5::int)] 1) c \<and> exposed c = Some False \<and> promise_result c = Some [5]"
    using fn_schedule_reach [OF ready_first_run] by force
  fix rs and c :: "int fn_context"
  assume "first_n_reach (make_context rs 0) c"
  then have inv: "fn_inv rs 0 c" by (rule fn_inv_reach) simp
  show "promise_result c = None"
  proof (rule ccontr)
    assume "promise_result c \<noteq> None"
    then have "\<not> has_state c" using inv by (auto simp: fn_inv_def)
    then obtain p where "p \<in> set (points c)" "p = Finished" using inv by (auto simp: fn_inv_def cnt_zero)
    then show False using last_one_full [OF inv, of p] by simp
  qed
qed

theorem first_n_null_future_witness:
  "\<exists>c. first_n_reach (make_context [Some (5::int)] 1) c \<and> exposed c = Some False \<and>
    first_n_reach (make_context [Some 5] 0) (make_context [Some (5::int)] 0) \<and>
    promise_result (make_context [Some (5::int)] 0) = None"
  using first_n_null_future by blast

text \<open>
  In every interleaving of the callbacks of \<open>first_of\<close> the promise is set at most once,
  with the result of one of the futures, and when nothing can move any more and some future has a result,
  it has been set.
\<close>

theorem first_of_one:
  assumes "first_of_step\<^sup>*\<^sup>* (make_of_context rs) c"
  shows "O_Crashed \<notin> set (of_points c) \<and> (of_result c \<noteq> None \<longrightarrow> of_result c \<in> set rs) \<and>
    ((\<nexists>c'. first_of_step c c') \<and> (\<exists>r \<in> set rs. r \<noteq> None) \<longrightarrow> of_result c \<noteq> None)"
proof -
  have inv: "of_inv rs c" by (rule of_inv_reach [OF assms])
  have "of_result c \<noteq> None \<longrightarrow> of_result c \<in> set rs" using inv by (auto simp: of_inv_def split: if_splits)
  moreover have "of_result c \<noteq> None" if "\<nexists>c'. first_of_step c c'" "r \<in> set rs" "r \<noteq> None" for r
    using of_stuck [OF inv that(1)] that(2,3) by (metis in_set_conv_nth)
  moreover have "O_Crashed \<notin> set (of_points c)" using inv by (auto simp: of_inv_def cnt_zero)
  ultimately show ?thesis by blast
qed

theorem first_of_one_witness:
  "\<exists>c. first_of_step\<^sup>*\<^sup>* (make_of_context [Some True]) c \<and> of_subscribed c = 1 \<and>
    O_Crashed \<notin> set (of_points c) \<and> (of_result c \<noteq> None \<longrightarrow> of_result c \<in> set [Some True]) \<and>
    ((\<nexists>c'. first_of_step c c') \<and> (\<exists>r \<in> set [Some True]. r \<noteq> None) \<longrightarrow> of_result c \<noteq> None)"
proof -
  let ?c = "(make_of_context [Some True])\<lparr>of_subscribed := 1\<rparr>"
  have "first_of_step\<^sup>*\<^sup>* (make_of_context [Some True]) ?c"
    using first_of_step.of_subscribe [of "make_of_context [Some True]"] by (auto simp: make_of_context_def)
  from first_of_one [OF this] this show ?thesis by (intro exI [of _ ?c]) simp
qed

end
