(* ===== verification/Locks.thy ===== *)
theory Locks
  imports Prelude Counting
begin

text \<open>
  \<open>mutex\<close> (a three-state futex lock) and \<open>critical_section\<close> (a spin lock) of
  \<open>concurrency/synchronization\<close>, for any number of threads that lock and unlock again and again. A
  step is one atomic operation or system call. The kernel's futex is modelled by its documented contract:
  \<open>FUTEX_WAIT\<close> puts the caller to sleep if the word still has the given value, \<open>FUTEX_WAKE\<close> with
  count 1 wakes one sleeper if there is one; a sleeper may also wake up spuriously.
\<close>

section \<open>The contract: mutual exclusion\<close>

text \<open>
  A lock is a step relation over systems of threads, with the threads that are inside.
  The client's lemma is what \<open>unique_lock\<close> and every user of a lock rests on: two threads inside are
  the same thread.
\<close>

locale exclusive_lock =
  fixes initial :: "nat \<Rightarrow> 's"
    and lstep :: "'s \<Rightarrow> 's \<Rightarrow> bool"
    and threads :: "'s \<Rightarrow> 'p list"
    and inside :: "'p \<Rightarrow> bool"
    and inv :: "'s \<Rightarrow> bool"
  assumes initial_inv: "inv (initial n)"
    and step_inv: "inv s \<Longrightarrow> lstep s s' \<Longrightarrow> inv s'"
    and inv_one: "inv s \<Longrightarrow> cnt inside (threads s) \<le> 1"
begin

lemma reach_inv: "lstep\<^sup>*\<^sup>* (initial n) s \<Longrightarrow> inv s"
  by (induction rule: rtranclp_induct) (auto intro: initial_inv step_inv)

lemma exclusion:
  "lstep\<^sup>*\<^sup>* (initial n) s \<Longrightarrow> i < length (threads s) \<Longrightarrow> j < length (threads s) \<Longrightarrow>
   inside (threads s ! i) \<Longrightarrow> inside (threads s ! j) \<Longrightarrow> i = j"
  using cnt_one_unique inv_one reach_inv by blast

end

section \<open>mutex\<close>

text \<open>
  Program points of \<open>lock\<close>: the first compare-and-set; the test \<open>c == 2 || cas(1, 2) != 0\<close> with the
  value \<open>c\<close>; the call of \<open>FUTEX_WAIT\<close>; asleep; the compare-and-set of the loop condition. Of
  \<open>unlock\<close>: \<open>fetch_sub\<close>, \<open>store(0)\<close>, \<open>FUTEX_WAKE\<close>. \<open>M_Out\<close> and \<open>M_In\<close> are the client's code outside and
  inside the lock.
\<close>

datatype mpoint = M_Out | M_Cas | M_Test int | M_Wait | M_Sleep | M_Retry | M_In | M_Sub | M_Store | M_Wake

record mutex =
  word :: int
  points :: "mpoint list"

definition new_mutex :: "nat \<Rightarrow> mutex" where
  "new_mutex n = \<lparr>word = 0, points = replicate n M_Out\<rparr>"

text \<open>\<open>compare_and_set\<close>: the old value and the new word.\<close>

definition compare_and_set :: "int \<Rightarrow> int \<Rightarrow> int \<Rightarrow> int \<times> int" where
  "compare_and_set atom expected desired = (atom, if atom = expected then desired else atom)"

definition lock_step :: "mpoint \<Rightarrow> int \<Rightarrow> (mpoint \<times> int) option" where
  "lock_step p w =
     (case p of
        M_Cas \<Rightarrow>
          (case compare_and_set w 0 1 of (c, w') \<Rightarrow> Some (if c \<noteq> 0 then M_Test c else M_In, w'))
      | M_Test c \<Rightarrow>
          (if c = 2 then Some (M_Wait, w)
           else (case compare_and_set w 1 2 of (d, w') \<Rightarrow> Some (if d \<noteq> 0 then M_Wait else M_Retry, w')))
      | M_Wait \<Rightarrow> Some (if w = 2 then M_Sleep else M_Retry, w)
      | M_Retry \<Rightarrow>
          (case compare_and_set w 0 2 of (c, w') \<Rightarrow> Some (if c \<noteq> 0 then M_Test c else M_In, w'))
      | _ \<Rightarrow> None)"

definition unlock_step :: "mpoint \<Rightarrow> int \<Rightarrow> (mpoint \<times> int) option" where
  "unlock_step p w =
     (case p of
        M_Sub \<Rightarrow> Some (if w \<noteq> 1 then M_Store else M_Out, w - 1)
      | M_Store \<Rightarrow> Some (M_Wake, 0)
      | _ \<Rightarrow> None)"

text \<open>\<open>FUTEX_WAKE\<close> wakes one sleeping thread, any of them, or nobody when none sleeps.\<close>

inductive mutex_step :: "mutex \<Rightarrow> mutex \<Rightarrow> bool" where
  call_lock: "i < length (points m) \<Longrightarrow> points m ! i = M_Out \<Longrightarrow>
    mutex_step m (m\<lparr>points := (points m)[i := M_Cas]\<rparr>)"
| call_unlock: "i < length (points m) \<Longrightarrow> points m ! i = M_In \<Longrightarrow>
    mutex_step m (m\<lparr>points := (points m)[i := M_Sub]\<rparr>)"
| lock: "i < length (points m) \<Longrightarrow> lock_step (points m ! i) (word m) = Some (p, w) \<Longrightarrow>
    mutex_step m (m\<lparr>word := w, points := (points m)[i := p]\<rparr>)"
| unlock: "i < length (points m) \<Longrightarrow> unlock_step (points m ! i) (word m) = Some (p, w) \<Longrightarrow>
    mutex_step m (m\<lparr>word := w, points := (points m)[i := p]\<rparr>)"
| wake: "i < length (points m) \<Longrightarrow> points m ! i = M_Wake \<Longrightarrow>
    j < length (points m) \<Longrightarrow> points m ! j = M_Sleep \<Longrightarrow>
    mutex_step m (m\<lparr>points := (points m)[i := M_Out, j := M_Retry]\<rparr>)"
| wake_none: "i < length (points m) \<Longrightarrow> points m ! i = M_Wake \<Longrightarrow> M_Sleep \<notin> set (points m) \<Longrightarrow>
    mutex_step m (m\<lparr>points := (points m)[i := M_Out]\<rparr>)"
| spurious: "j < length (points m) \<Longrightarrow> points m ! j = M_Sleep \<Longrightarrow>
    mutex_step m (m\<lparr>points := (points m)[j := M_Retry]\<rparr>)"

text \<open>The owner is inside or has not yet released the word; an active thread will look at the word again.\<close>

fun m_owner :: "mpoint \<Rightarrow> bool" where
  "m_owner p = (p = M_In \<or> p = M_Sub \<or> p = M_Store)"

fun m_active :: "mpoint \<Rightarrow> bool" where
  "m_active p = (case p of M_Test _ \<Rightarrow> True | M_Wait \<Rightarrow> True | M_Retry \<Rightarrow> True | M_Store \<Rightarrow> True | M_Wake \<Rightarrow> True | _ \<Rightarrow> False)"

definition mutex_inv :: "mutex \<Rightarrow> bool" where
  "mutex_inv m \<longleftrightarrow> word m \<in> {0, 1, 2} \<and>
     cnt m_owner (points m) = (if word m = 0 then 0 else 1) \<and>
     (0 < cnt (\<lambda>p. p = M_Sleep) (points m) \<longrightarrow> word m = 2 \<or> 0 < cnt m_active (points m))"

lemma new_mutex_inv: "mutex_inv (new_mutex n)"
  by (simp add: mutex_inv_def new_mutex_def cnt_replicate)

lemma owner_word: "mutex_inv m \<Longrightarrow> i < length (points m) \<Longrightarrow> m_owner (points m ! i) \<Longrightarrow>
    word m \<noteq> 0 \<and> cnt m_owner (points m) = 1"
  using cnt_pos [of i "points m" m_owner] by (auto simp: mutex_inv_def split: if_splits)

text \<open>A step of thread \<open>i\<close>, as conditions on the counts.\<close>

lemma mutex_update:
  assumes inv: "mutex_inv m" and i: "i < length (points m)" and w: "w \<in> {0, 1, 2}"
    and own: "cnt m_owner (points m) + (if m_owner q then 1 else 0) =
      (if w = 0 then 0 else 1) + (if m_owner (points m ! i) then 1 else 0)"
    and act: "w = 2 \<or> m_active q \<or> q \<noteq> M_Sleep \<and> \<not> m_active (points m ! i) \<and> word m \<noteq> 2"
  shows "mutex_inv (m\<lparr>word := w, points := (points m)[i := q]\<rparr>)"
proof -
  note upd = cnt_update [OF i]
  have "cnt m_owner ((points m)[i := q]) = (if w = 0 then 0 else 1)"
    using upd [of m_owner q] own by linarith
  moreover have "w = 2 \<or> 0 < cnt m_active ((points m)[i := q])"
    if "0 < cnt (\<lambda>p. p = M_Sleep) ((points m)[i := q])"
    using act
  proof (elim disjE)
    assume "m_active q"
    then show ?thesis using cnt_pos [of i "(points m)[i := q]" m_active] i by simp
  next
    assume a: "q \<noteq> M_Sleep \<and> \<not> m_active (points m ! i) \<and> word m \<noteq> 2"
    then have "0 < cnt (\<lambda>p. p = M_Sleep) (points m)"
      using upd [of "\<lambda>p. p = M_Sleep" q] that by (auto split: if_splits)
    then have "0 < cnt m_active (points m)" using inv a by (simp add: mutex_inv_def)
    then show ?thesis using upd [of m_active q] a by (auto split: if_splits)
  qed blast
  ultimately show ?thesis using w by (simp add: mutex_inv_def)
qed

lemma mutex_point_update:
  assumes "mutex_inv m" "i < length (points m)" "m_owner q = m_owner (points m ! i)"
    and "word m = 2 \<or> m_active q \<or> q \<noteq> M_Sleep \<and> \<not> m_active (points m ! i)"
  shows "mutex_inv (m\<lparr>points := (points m)[i := q]\<rparr>)"
proof -
  have "mutex_inv (m\<lparr>word := word m, points := (points m)[i := q]\<rparr>)"
    by (rule mutex_update [OF assms(1,2)]) (use assms in \<open>auto simp: mutex_inv_def\<close>)
  then show ?thesis by simp
qed

lemma mutex_inv_step:
  assumes "mutex_step m m'" "mutex_inv m"
  shows "mutex_inv m'"
  using assms(1)
proof cases
  case (call_lock i)
  then show ?thesis using mutex_point_update [OF assms(2), of i M_Cas] by simp
next
  case (call_unlock i)
  then show ?thesis using mutex_point_update [OF assms(2), of i M_Sub] by simp
next
  case (lock i p w)
  have word: "word m \<in> {0, 1, 2}" "cnt m_owner (points m) = (if word m = 0 then 0 else 1)"
    using assms(2) by (auto simp: mutex_inv_def)
  show ?thesis unfolding lock(1)
    by (rule mutex_update [OF assms(2) lock(2)])
       (use lock(3) word in \<open>auto simp: lock_step_def compare_and_set_def split: mpoint.splits if_splits\<close>)
next
  case (unlock i p w)
  have word: "word m \<in> {0, 1, 2}" using assms(2) by (auto simp: mutex_inv_def)
  have own: "word m \<noteq> 0 \<and> cnt m_owner (points m) = 1" if "m_owner (points m ! i)"
    using owner_word [OF assms(2) unlock(2) that] .
  show ?thesis unfolding unlock(1)
    by (rule mutex_update [OF assms(2) unlock(2)])
       (use unlock(3) word own in \<open>auto simp: unlock_step_def split: mpoint.splits if_splits\<close>)
next
  case (wake i j)
  let ?m = "m\<lparr>points := (points m)[j := M_Retry]\<rparr>"
  have m: "mutex_inv ?m" using mutex_point_update [OF assms(2) wake(4), of M_Retry] wake(5) by simp
  have ij: "i \<noteq> j" using wake by auto
  let ?ps = "(points m)[i := M_Out, j := M_Retry]"
  have ps: "?ps = (points ?m)[i := M_Out]" using ij by (simp add: list_update_swap)
  have "cnt m_owner ?ps = cnt m_owner (points ?m)"
    unfolding ps using cnt_update [of i "points ?m" m_owner M_Out] wake ij by simp
  moreover have "0 < cnt m_active ?ps"
    by (rule cnt_pos [of j]) (use wake in simp_all)
  ultimately show ?thesis using m unfolding wake(1) by (simp add: mutex_inv_def)
next
  case (wake_none i)
  have "cnt (\<lambda>p. p = M_Sleep) ((points m)[i := M_Out]) = 0"
    using wake_none by (auto simp: cnt_zero dest!: set_update_subset_insert [THEN subsetD])
  moreover have "cnt m_owner ((points m)[i := M_Out]) = cnt m_owner (points m)"
    using cnt_update [OF wake_none(2), of m_owner M_Out] wake_none(3) by simp
  ultimately show ?thesis using assms(2) unfolding wake_none(1) by (simp add: mutex_inv_def)
next
  case (spurious j)
  then show ?thesis using mutex_point_update [OF assms(2), of j M_Retry] by simp
qed

interpretation futex_lock: exclusive_lock new_mutex mutex_step points "\<lambda>p. p = M_In" mutex_inv
proof unfold_locales
  fix m assume "mutex_inv m"
  moreover have "cnt (\<lambda>p. p = M_In) (points m) \<le> cnt m_owner (points m)" by (rule cnt_mono) simp
  ultimately show "cnt (\<lambda>p. p = M_In) (points m) \<le> 1" by (auto simp: mutex_inv_def split: if_splits)
qed (auto intro: new_mutex_inv mutex_inv_step)

section \<open>critical_section\<close>

text \<open>Before \<open>exchange\<close>, in the inner loop on \<open>load\<close>, inside, before the store of \<open>unlock\<close>.\<close>

datatype cpoint = C_Out | C_Exchange | C_Spin | C_In | C_Store

record critical_section =
  locked :: bool
  cpoints :: "cpoint list"

definition new_section :: "nat \<Rightarrow> critical_section" where
  "new_section n = \<lparr>locked = False, cpoints = replicate n C_Out\<rparr>"

definition section_step_of :: "cpoint \<Rightarrow> bool \<Rightarrow> cpoint \<times> bool" where
  "section_step_of p l =
     (case p of
        C_Out \<Rightarrow> (C_Exchange, l)
      | C_Exchange \<Rightarrow> (if l then C_Spin else C_In, True)
      | C_Spin \<Rightarrow> (if l then C_Spin else C_Exchange, l)
      | C_In \<Rightarrow> (C_Store, l)
      | C_Store \<Rightarrow> (C_Out, False))"

inductive section_step :: "critical_section \<Rightarrow> critical_section \<Rightarrow> bool" where
  "i < length (cpoints s) \<Longrightarrow> section_step_of (cpoints s ! i) (locked s) = (p, l) \<Longrightarrow>
    section_step s (s\<lparr>locked := l, cpoints := (cpoints s)[i := p]\<rparr>)"

fun c_owner :: "cpoint \<Rightarrow> bool" where
  "c_owner p = (p = C_In \<or> p = C_Store)"

definition section_inv :: "critical_section \<Rightarrow> bool" where
  "section_inv s \<longleftrightarrow> cnt c_owner (cpoints s) = (if locked s then 1 else 0)"

lemma section_inv_step:
  assumes "section_step s s'" "section_inv s"
  shows "section_inv s'"
  using assms(1)
proof cases
  case (1 i p l)
  then show ?thesis using assms(2) cnt_pos [OF 1(2), of c_owner]
    by (cases "cpoints s ! i") (auto simp: section_inv_def section_step_of_def cnt_upd split: if_splits)
qed

interpretation spin_lock: exclusive_lock new_section section_step cpoints "\<lambda>p. p = C_In" section_inv
proof unfold_locales
  fix s assume "section_inv s"
  moreover have "cnt (\<lambda>p. p = C_In) (cpoints s) \<le> cnt c_owner (cpoints s)" by (rule cnt_mono) simp
  ultimately show "cnt (\<lambda>p. p = C_In) (cpoints s) \<le> 1" by (auto simp: section_inv_def split: if_splits)
next
  fix n show "section_inv (new_section n)" by (simp add: section_inv_def new_section_def cnt_replicate)
qed (rule section_inv_step)

section \<open>unique_lock\<close>

text \<open>
  Handles on mutexes, by index in a list of handles; \<open>held\<close> says which mutexes are locked. The value
  \<open>None\<close> is a call that cannot complete: locking a mutex that is held (it blocks), unlocking one that is not, or
  a null \<open>mutex_\<close>.
\<close>

record unique_lock =
  mutex_ref :: "nat option"
  is_locked :: bool

record lock_world =
  held :: "nat \<Rightarrow> bool"
  handles :: "unique_lock list"

definition ul_lock :: "nat \<Rightarrow> lock_world \<Rightarrow> lock_world option" where
  "ul_lock i w =
     (case mutex_ref (handles w ! i) of
        None \<Rightarrow> None
      | Some m \<Rightarrow>
          if held w m then None
          else Some (w\<lparr>held := (held w)(m := True), handles := (handles w)[i := (handles w ! i)\<lparr>is_locked := True\<rparr>]\<rparr>))"

definition ul_unlock :: "nat \<Rightarrow> lock_world \<Rightarrow> lock_world option" where
  "ul_unlock i w =
     (case mutex_ref (handles w ! i) of
        None \<Rightarrow> None
      | Some m \<Rightarrow>
          if \<not> held w m then None
          else Some (w\<lparr>held := (held w)(m := False), handles := (handles w)[i := (handles w ! i)\<lparr>is_locked := False\<rparr>]\<rparr>))"

text \<open>The constructors append a handle; the moved-from handle is left empty.\<close>

definition ul_new :: "nat \<Rightarrow> lock_world \<Rightarrow> lock_world option" where
  "ul_new m w =
     ul_lock (length (handles w)) (w\<lparr>handles := handles w @ [\<lparr>mutex_ref = Some m, is_locked = False\<rparr>]\<rparr>)"

definition ul_move :: "nat \<Rightarrow> lock_world \<Rightarrow> lock_world" where
  "ul_move j w =
     w\<lparr>handles := (handles w)[j := \<lparr>mutex_ref = None, is_locked = False\<rparr>] @ [handles w ! j]\<rparr>"

text \<open>The destructor: the handle is dead afterwards, an empty one in the list.\<close>

definition ul_destroy :: "nat \<Rightarrow> lock_world \<Rightarrow> lock_world option" where
  "ul_destroy i w =
     map_option (\<lambda>w'. w'\<lparr>handles := (handles w')[i := \<lparr>mutex_ref = None, is_locked = False\<rparr>]\<rparr>)
       (if is_locked (handles w ! i) then ul_unlock i w else Some w)"

text \<open>
  \<open>operator=\<close>: unlock if locked, move \<open>other\<close> into a temporary, swap it with \<open>*this\<close>; the
  temporary, now with the old fields of \<open>*this\<close>, which is not locked, is destroyed.
\<close>

definition ul_assign :: "nat \<Rightarrow> nat \<Rightarrow> lock_world \<Rightarrow> lock_world option" where
  "ul_assign i j w =
     map_option (\<lambda>w'.
         let tmp = handles w' ! j;
             hs = (handles w')[j := \<lparr>mutex_ref = None, is_locked = False\<rparr>]
         in w'\<lparr>handles := hs[i := tmp]\<rparr>)
       (if is_locked (handles w ! i) then ul_unlock i w else Some w)"

definition owns :: "nat \<Rightarrow> unique_lock \<Rightarrow> bool" where
  "owns m l \<longleftrightarrow> is_locked l \<and> mutex_ref l = Some m"

definition locks_ok :: "lock_world \<Rightarrow> bool" where
  "locks_ok w \<longleftrightarrow> (\<forall>m. cnt (owns m) (handles w) = (if held w m then 1 else 0)) \<and>
     (\<forall>l \<in> set (handles w). is_locked l \<longrightarrow> mutex_ref l \<noteq> None)"

lemma cnt_append: "cnt P (xs @ ys) = cnt P xs + cnt P ys"
  by (simp add: cnt_def)

lemma cnt_one_elem: "cnt P [x] = (if P x then 1 else 0)"
  by (simp add: cnt_def)

lemma locks_ok_held:
  assumes "locks_ok w" "i < length (handles w)" "is_locked (handles w ! i)"
  shows "\<exists>m. mutex_ref (handles w ! i) = Some m \<and> held w m"
proof -
  have "handles w ! i \<in> set (handles w)" using assms(2) by simp
  then obtain m where m: "mutex_ref (handles w ! i) = Some m" using assms(1,3) by (force simp: locks_ok_def)
  then have "0 < cnt (owns m) (handles w)" using assms(2,3) by (auto intro: cnt_pos simp: owns_def)
  then show ?thesis using m assms(1) by (auto simp: locks_ok_def split: if_splits)
qed

lemma ul_unlock_ok:
  assumes "locks_ok w" "i < length (handles w)" "is_locked (handles w ! i)"
  shows "\<exists>w'. ul_unlock i w = Some w' \<and> locks_ok w' \<and> length (handles w') = length (handles w) \<and>
    \<not> is_locked (handles w' ! i)"
proof -
  from locks_ok_held [OF assms] obtain m where m: "mutex_ref (handles w ! i) = Some m" "held w m" by blast
  let ?l = "(handles w ! i)\<lparr>is_locked := False\<rparr>"
  let ?w = "w\<lparr>held := (held w)(m := False), handles := (handles w)[i := ?l]\<rparr>"
  have "cnt (owns k) (handles ?w) = (if held ?w k then 1 else 0)" for k
    using cnt_update [OF assms(2), of "owns k" ?l] assms(1,3) m
    by (auto simp: locks_ok_def owns_def split: if_splits)
  moreover have "is_locked l \<longrightarrow> mutex_ref l \<noteq> None" if "l \<in> set (handles ?w)" for l
    using that assms(1) by (auto simp: locks_ok_def dest!: set_update_subset_insert [THEN subsetD])
  ultimately have "locks_ok ?w" by (simp add: locks_ok_def)
  then show ?thesis using m assms(2) by (simp add: ul_unlock_def)
qed

text \<open>Replacing a handle that owns nothing by another that owns nothing, or moving ownership around.\<close>

lemma locks_ok_transfer:
  assumes "locks_ok w" "\<And>m. cnt (owns m) hs = cnt (owns m) (handles w)"
    and "\<And>l. l \<in> set hs \<Longrightarrow> l \<in> set (handles w) \<or> \<not> is_locked l"
  shows "locks_ok (w\<lparr>handles := hs\<rparr>)"
  using assms unfolding locks_ok_def by simp metis

lemma ul_destroy_ok:
  assumes "locks_ok w" "i < length (handles w)"
  shows "\<exists>w'. ul_destroy i w = Some w' \<and> locks_ok w' \<and> length (handles w') = length (handles w) \<and>
    \<not> is_locked (handles w' ! i)"
proof -
  obtain w1 where w1: "(if is_locked (handles w ! i) then ul_unlock i w else Some w) = Some w1"
      "locks_ok w1" "length (handles w1) = length (handles w)" "\<not> is_locked (handles w1 ! i)"
    using ul_unlock_ok [OF assms] assms(1) by (cases "is_locked (handles w ! i)") auto
  let ?e = "\<lparr>mutex_ref = None, is_locked = False\<rparr>"
  have "locks_ok (w1\<lparr>handles := (handles w1)[i := ?e]\<rparr>)"
  proof (rule locks_ok_transfer [OF w1(2)])
    fix m show "cnt (owns m) ((handles w1)[i := ?e]) = cnt (owns m) (handles w1)"
      using cnt_update [of i "handles w1" "owns m" ?e] assms(2) w1(3,4) by (simp add: owns_def)
  qed (auto dest!: set_update_subset_insert [THEN subsetD])
  then show ?thesis using w1 assms(2) by (simp add: ul_destroy_def)
qed

lemma ul_new_ok:
  assumes "locks_ok w" "\<not> held w m"
  shows "\<exists>w'. ul_new m w = Some w' \<and> locks_ok w' \<and> held w' = (held w)(m := True) \<and>
    length (handles w') = length (handles w) + 1"
proof -
  let ?l = "\<lparr>mutex_ref = Some m, is_locked = True\<rparr>"
  let ?w = "w\<lparr>held := (held w)(m := True), handles := handles w @ [?l]\<rparr>"
  have "ul_new m w = Some ?w" using assms(2) by (simp add: ul_new_def ul_lock_def)
  moreover have "locks_ok ?w"
    using assms by (auto simp: locks_ok_def cnt_append cnt_one_elem owns_def)
  ultimately show ?thesis by simp
qed

lemma ul_move_ok:
  assumes "locks_ok w" "j < length (handles w)"
  shows "locks_ok (ul_move j w) \<and> held (ul_move j w) = held w \<and>
    length (handles (ul_move j w)) = length (handles w) + 1"
proof -
  let ?e = "\<lparr>mutex_ref = None, is_locked = False\<rparr>"
  let ?hs = "(handles w)[j := ?e] @ [handles w ! j]"
  have "locks_ok (w\<lparr>handles := ?hs\<rparr>)"
  proof (rule locks_ok_transfer [OF assms(1)])
    fix m show "cnt (owns m) ?hs = cnt (owns m) (handles w)"
      using cnt_update [OF assms(2), of "owns m" ?e]
      by (simp add: cnt_append cnt_one_elem owns_def)
  qed (use assms(2) in \<open>auto dest!: set_update_subset_insert [THEN subsetD]\<close>)
  then show ?thesis by (simp add: ul_move_def)
qed

lemma ul_assign_ok:
  assumes "locks_ok w" "i < length (handles w)" "j < length (handles w)" "i \<noteq> j"
  shows "\<exists>w'. ul_assign i j w = Some w' \<and> locks_ok w' \<and> length (handles w') = length (handles w)"
proof -
  obtain w1 where w1: "(if is_locked (handles w ! i) then ul_unlock i w else Some w) = Some w1"
      "locks_ok w1" "length (handles w1) = length (handles w)" "\<not> is_locked (handles w1 ! i)"
    using ul_unlock_ok [OF assms(1,2)] assms(1) by (cases "is_locked (handles w ! i)") auto
  let ?e = "\<lparr>mutex_ref = None, is_locked = False\<rparr>" and ?t = "handles w1 ! j"
  let ?hs = "(handles w1)[j := ?e, i := ?t]"
  have "locks_ok (w1\<lparr>handles := ?hs\<rparr>)"
  proof (rule locks_ok_transfer [OF w1(2)])
    fix m
    have "cnt (owns m) ?hs = cnt (owns m) ((handles w1)[j := ?e]) + (if owns m ?t then 1 else 0)"
      using cnt_update [of i "(handles w1)[j := ?e]" "owns m" ?t] assms w1(3,4) by (simp add: owns_def)
    also have "\<dots> = cnt (owns m) (handles w1)"
      using cnt_update [of j "handles w1" "owns m" ?e] assms w1(3) by (simp add: owns_def)
    finally show "cnt (owns m) ?hs = cnt (owns m) (handles w1)" .
  next
    fix l assume "l \<in> set ?hs"
    then have "l = ?t \<or> l = ?e \<or> l \<in> set (handles w1)"
      by (meson insertE set_update_subset_insert subsetD)
    then show "l \<in> set (handles w1) \<or> \<not> is_locked l" using assms(3) w1(3) by auto
  qed
  then show ?thesis using w1 by (simp add: ul_assign_def)
qed

text \<open>Leaving every scope.\<close>

fun destroy_first :: "nat \<Rightarrow> lock_world \<Rightarrow> lock_world option" where
  "destroy_first 0 w = Some w"
| "destroy_first (Suc n) w = (case destroy_first n w of None \<Rightarrow> None | Some w' \<Rightarrow> ul_destroy n w')"

lemma ul_destroy_others:
  assumes "ul_destroy i w = Some w'" "k \<noteq> i"
  shows "handles w' ! k = handles w ! k"
  using assms by (auto simp: ul_destroy_def ul_unlock_def split: if_splits option.splits)

lemma destroy_first_ok:
  assumes "locks_ok w" "n \<le> length (handles w)"
  shows "\<exists>w'. destroy_first n w = Some w' \<and> locks_ok w' \<and> length (handles w') = length (handles w) \<and>
    (\<forall>i < n. \<not> is_locked (handles w' ! i))"
  using assms(2)
proof (induction n)
  case (Suc n)
  then obtain w1 where w1: "destroy_first n w = Some w1" "locks_ok w1" "length (handles w1) = length (handles w)"
      "\<forall>i < n. \<not> is_locked (handles w1 ! i)" by auto
  from ul_destroy_ok [OF w1(2), of n] Suc.prems w1(3) obtain w2 where
    w2: "ul_destroy n w1 = Some w2" "locks_ok w2" "length (handles w2) = length (handles w1)"
      "\<not> is_locked (handles w2 ! n)" by auto
  have "\<not> is_locked (handles w2 ! i)" if "i < Suc n" for i
    using that w1(4) w2(4) ul_destroy_others [OF w2(1), of i] by (cases "i = n") auto
  with w1 w2 show ?case by simp
qed (use assms(1) in simp)

section \<open>Properties\<close>

text \<open>
  C14: in every interleaving of any number of threads, the futex mutex admits at most one
  thread at a time, and it loses no wake-up: whenever a thread sleeps in the kernel, some thread holds the lock, is
  releasing it, or is awake in \<open>lock\<close> and will look at the word again.
\<close>

theorem mutex_safe:
  assumes "mutex_step\<^sup>*\<^sup>* (new_mutex n) m"
  shows "(\<forall>i < length (points m). \<forall>j < length (points m). points m ! i = M_In \<longrightarrow> points m ! j = M_In \<longrightarrow> i = j) \<and>
    (M_Sleep \<in> set (points m) \<longrightarrow> (\<exists>p \<in> set (points m). m_owner p \<or> m_active p))"
proof -
  have inv: "mutex_inv m" by (rule futex_lock.reach_inv [OF assms])
  have "\<exists>p \<in> set (points m). m_owner p \<or> m_active p" if "M_Sleep \<in> set (points m)"
  proof -
    have "0 < cnt (\<lambda>p. p = M_Sleep) (points m)" using that cnt_zero [of "\<lambda>p. p = M_Sleep" "points m"] by auto
    then have "0 < cnt m_owner (points m) \<or> 0 < cnt m_active (points m)"
      using inv by (auto simp: mutex_inv_def)
    then show ?thesis unfolding cnt_ex by (metis nth_mem)
  qed
  then show ?thesis using futex_lock.exclusion [OF assms] by blast
qed

text \<open>Thread 0 takes the lock, thread 1 fails and goes to sleep.\<close>

lemma contended_run:
  "mutex_step\<^sup>*\<^sup>* (new_mutex 2) \<lparr>word = 2, points = [M_In, M_Sleep]\<rparr>"
proof -
  have "mutex_step (new_mutex 2) \<lparr>word = 0, points = [M_Cas, M_Out]\<rparr>"
    using mutex_step.call_lock [of 0 "new_mutex 2"] by (simp add: new_mutex_def numeral_2_eq_2)
  also have "mutex_step\<^sup>*\<^sup>* \<dots> \<lparr>word = 1, points = [M_In, M_Out]\<rparr>"
    using mutex_step.lock [of 0 "\<lparr>word = 0, points = [M_Cas, M_Out]\<rparr>"]
    by (simp add: lock_step_def compare_and_set_def r_into_rtranclp)
  also have "mutex_step\<^sup>*\<^sup>* \<dots> \<lparr>word = 1, points = [M_In, M_Cas]\<rparr>"
    using mutex_step.call_lock [of 1 "\<lparr>word = 1, points = [M_In, M_Out]\<rparr>"] by (simp add: r_into_rtranclp)
  also have "mutex_step\<^sup>*\<^sup>* \<dots> \<lparr>word = 1, points = [M_In, M_Test 1]\<rparr>"
    using mutex_step.lock [of 1 "\<lparr>word = 1, points = [M_In, M_Cas]\<rparr>"]
    by (simp add: lock_step_def compare_and_set_def r_into_rtranclp)
  also have "mutex_step\<^sup>*\<^sup>* \<dots> \<lparr>word = 2, points = [M_In, M_Wait]\<rparr>"
    using mutex_step.lock [of 1 "\<lparr>word = 1, points = [M_In, M_Test 1]\<rparr>"]
    by (simp add: lock_step_def compare_and_set_def r_into_rtranclp)
  also have "mutex_step\<^sup>*\<^sup>* \<dots> \<lparr>word = 2, points = [M_In, M_Sleep]\<rparr>"
    using mutex_step.lock [of 1 "\<lparr>word = 2, points = [M_In, M_Wait]\<rparr>"]
    by (simp add: lock_step_def r_into_rtranclp)
  finally show ?thesis .
qed

theorem mutex_safe_witness:
  "\<exists>m. mutex_step\<^sup>*\<^sup>* (new_mutex 2) m \<and> points m = [M_In, M_Sleep] \<and>
    (\<forall>i < length (points m). \<forall>j < length (points m). points m ! i = M_In \<longrightarrow> points m ! j = M_In \<longrightarrow> i = j) \<and>
    (M_Sleep \<in> set (points m) \<longrightarrow> (\<exists>p \<in> set (points m). m_owner p \<or> m_active p))"
  by (rule exI, rule conjI, rule contended_run, rule conjI, simp, rule mutex_safe [OF contended_run])

text \<open>
  In every interleaving the spin lock admits at most one thread at a time, and its flag
  is set exactly while a thread is inside or about to store false.
\<close>

theorem critical_section_safe:
  assumes "section_step\<^sup>*\<^sup>* (new_section n) s"
  shows "(\<forall>i < length (cpoints s). \<forall>j < length (cpoints s). cpoints s ! i = C_In \<longrightarrow> cpoints s ! j = C_In \<longrightarrow> i = j) \<and>
    (locked s \<longleftrightarrow> (\<exists>i < length (cpoints s). c_owner (cpoints s ! i)))"
proof -
  have "section_inv s" by (rule spin_lock.reach_inv [OF assms])
  then have "locked s \<longleftrightarrow> 0 < cnt c_owner (cpoints s)" by (simp add: section_inv_def)
  then show ?thesis using spin_lock.exclusion [OF assms] unfolding cnt_ex by blast
qed

theorem critical_section_safe_witness:
  "\<exists>s. section_step\<^sup>*\<^sup>* (new_section 1) s \<and> cpoints s = [C_Exchange] \<and>
    (\<forall>i < length (cpoints s). \<forall>j < length (cpoints s). cpoints s ! i = C_In \<longrightarrow> cpoints s ! j = C_In \<longrightarrow> i = j) \<and>
    (locked s \<longleftrightarrow> (\<exists>i < length (cpoints s). c_owner (cpoints s ! i)))"
proof -
  have "section_step (new_section 1) \<lparr>locked = False, cpoints = [C_Exchange]\<rparr>"
    using section_step.intros [of 0 "new_section 1" C_Exchange False]
    by (simp add: new_section_def section_step_of_def)
  then have "section_step\<^sup>*\<^sup>* (new_section 1) \<lparr>locked = False, cpoints = [C_Exchange]\<rparr>" ..
  from critical_section_safe [OF this] this show ?thesis
    by (intro exI [of _ "\<lparr>locked = False, cpoints = [C_Exchange]\<rparr>"]) simp
qed

text \<open>
  \<open>unique_lock\<close> releases every mutex it locked exactly once: from a state in which every
  held mutex has exactly one owning handle, constructing a handle on a free mutex, moving and move-assigning handles
  keep it so without a forbidden call, and once every handle is destroyed no mutex is held.
\<close>

theorem unique_lock_releases:
  assumes "locks_ok w" "\<not> held w m" "i < length (handles w)" "j < length (handles w)" "i \<noteq> j"
  shows "\<exists>w1 w2 w3. ul_new m w = Some w1 \<and> held w1 m \<and> ul_assign i j (ul_move j w1) = Some w2 \<and> locks_ok w2 \<and>
    destroy_first (length (handles w2)) w2 = Some w3 \<and> (\<forall>k. \<not> held w3 k)"
proof -
  from ul_new_ok [OF assms(1,2)] obtain w1 where
    w1: "ul_new m w = Some w1" "locks_ok w1" "held w1 = (held w)(m := True)"
      "length (handles w1) = length (handles w) + 1" by blast
  have j: "j < length (handles w1)" using assms(4) w1(4) by simp
  note mv = ul_move_ok [OF w1(2) j]
  from ul_assign_ok [of "ul_move j w1" i j] mv assms(3-5) w1(4) obtain w2 where
    w2: "ul_assign i j (ul_move j w1) = Some w2" "locks_ok w2" by auto
  from destroy_first_ok [OF w2(2), of "length (handles w2)"] obtain w3 where
    w3: "destroy_first (length (handles w2)) w2 = Some w3" "locks_ok w3"
      "length (handles w3) = length (handles w2)" "\<forall>i < length (handles w2). \<not> is_locked (handles w3 ! i)" by auto
  have "cnt (owns k) (handles w3) = 0" for k
    using w3(3,4) by (auto simp: cnt_zero owns_def in_set_conv_nth)
  then have "\<forall>k. \<not> held w3 k" using w3(2) by (auto simp: locks_ok_def split: if_splits)
  with w1 w2 w3 show ?thesis by auto
qed

definition two_handles :: lock_world where
  "two_handles = \<lparr>held = (\<lambda>m. m = 0),
     handles = [\<lparr>mutex_ref = Some 0, is_locked = True\<rparr>, \<lparr>mutex_ref = None, is_locked = False\<rparr>]\<rparr>"

theorem unique_lock_releases_witness:
  "\<exists>w1 w2 w3. ul_new 1 two_handles = Some w1 \<and> held w1 1 \<and> ul_assign 1 0 (ul_move 0 w1) = Some w2 \<and> locks_ok w2 \<and>
    destroy_first (length (handles w2)) w2 = Some w3 \<and> (\<forall>k. \<not> held w3 k)"
  by (rule unique_lock_releases)
     (auto simp: two_handles_def locks_ok_def cnt_def owns_def)

end
