(* ===== verification/Sync_Objects.thy ===== *)
theory Sync_Objects
  imports Prelude Counting
begin

text \<open>
  The blocking objects built on \<open>std::mutex\<close> and \<open>std::condition_variable\<close>: \<open>barrier\<close>,
  \<open>semaphore\<close> and \<open>mvar\<close>. A critical section under the object's \<open>std::mutex\<close> is one step of the model;
  \<open>cv.wait(lock, pred)\<close> is a step when the predicate holds and otherwise puts the thread to sleep.
  Waking is where they differ: \<open>barrier\<close> and \<open>mvar\<close> notify all under the mutex, so a sleeper may proceed
  whenever its predicate holds; \<open>semaphore\<close> notifies one without the mutex, so its sleep and wake-up are
  separate steps.
\<close>

section \<open>barrier\<close>

datatype bstate = Blocking | Unblocking

text \<open>A thread runs, or waits in \<open>cv_.wait\<close> for the given state; \<open>arrived\<close> and \<open>passed\<close> count its calls and returns.\<close>

datatype bpoint = B_Run | B_Wait bstate

record barrier =
  size_awaited_threads :: nat
  current_awaited_threads :: nat
  state :: bstate
  bpoints :: "bpoint list"
  arrived :: "nat list"
  passed :: "nat list"

definition new_barrier :: "nat \<Rightarrow> barrier" where
  "new_barrier n = \<lparr>size_awaited_threads = n, current_awaited_threads = n, state = Blocking,
     bpoints = replicate n B_Run, arrived = replicate n 0, passed = replicate n 0\<rparr>"

text \<open>\<open>arrive_and_wait\<close> of thread \<open>i\<close> up to its return or its wait.\<close>

definition arrive :: "nat \<Rightarrow> barrier \<Rightarrow> barrier" where
  "arrive i b =
     (let b1 = b\<lparr>arrived := (arrived b)[i := arrived b ! i + 1]\<rparr>;
          returned = b1\<lparr>passed := (passed b1)[i := passed b1 ! i + 1]\<rparr>
      in if state b = Blocking then
           (let c = current_awaited_threads b - 1
            in if c = 0 then returned\<lparr>current_awaited_threads := c, state := Unblocking\<rparr>
               else b1\<lparr>current_awaited_threads := c, bpoints := (bpoints b1)[i := B_Wait Unblocking]\<rparr>)
         else
           (let c = current_awaited_threads b + 1
            in if c = size_awaited_threads b then returned\<lparr>current_awaited_threads := c, state := Blocking\<rparr>
               else b1\<lparr>current_awaited_threads := c, bpoints := (bpoints b1)[i := B_Wait Blocking]\<rparr>))"

inductive barrier_step :: "barrier \<Rightarrow> barrier \<Rightarrow> bool" where
  arrives: "i < length (bpoints b) \<Longrightarrow> bpoints b ! i = B_Run \<Longrightarrow> barrier_step b (arrive i b)"
| returns: "i < length (bpoints b) \<Longrightarrow> bpoints b ! i = B_Wait (state b) \<Longrightarrow>
    barrier_step b (b\<lparr>bpoints := (bpoints b)[i := B_Run], passed := (passed b)[i := passed b ! i + 1]\<rparr>)"

text \<open>
  Phase \<open>p\<close>: the state is \<open>Blocking\<close> iff \<open>p\<close> is even. Every thread has arrived \<open>p\<close> or \<open>p + 1\<close>
  times; the latter wait for the next flip, the former run or wait for a flip that has happened.
\<close>

definition phase_state :: "nat \<Rightarrow> bstate" where
  "phase_state p = (if even p then Blocking else Unblocking)"

definition barrier_inv :: "nat \<Rightarrow> nat \<Rightarrow> barrier \<Rightarrow> bool" where
  "barrier_inv n p b \<longleftrightarrow> size_awaited_threads b = n \<and> length (bpoints b) = n \<and> length (arrived b) = n \<and>
     length (passed b) = n \<and> state b = phase_state p \<and>
     cnt (\<lambda>a. a = p + 1) (arrived b) < n \<and>
     current_awaited_threads b = (if even p then n - cnt (\<lambda>a. a = p + 1) (arrived b) else cnt (\<lambda>a. a = p + 1) (arrived b)) \<and>
     (\<forall>i < n.
        arrived b ! i = p \<and> (bpoints b ! i = B_Run \<and> passed b ! i = p \<or>
                             bpoints b ! i = B_Wait (phase_state p) \<and> passed b ! i + 1 = p) \<or>
        arrived b ! i = p + 1 \<and> bpoints b ! i = B_Wait (phase_state (p + 1)) \<and> passed b ! i = p)"

lemma phase_state_Suc: "phase_state (Suc p) \<noteq> phase_state p"
  by (simp add: phase_state_def)

lemma new_barrier_inv: "0 < n \<Longrightarrow> barrier_inv n 0 (new_barrier n)"
  by (simp add: barrier_inv_def new_barrier_def cnt_replicate phase_state_def)

lemma barrier_running: "barrier_inv n p b \<Longrightarrow> i < n \<Longrightarrow> bpoints b ! i = B_Run \<Longrightarrow>
    arrived b ! i = p \<and> passed b ! i = p"
  by (auto simp: barrier_inv_def)

lemma barrier_waiting: "barrier_inv n p b \<Longrightarrow> i < n \<Longrightarrow> bpoints b ! i = B_Wait (state b) \<Longrightarrow>
    arrived b ! i = p \<and> passed b ! i + 1 = p"
  using phase_state_Suc [of p] by (fastforce simp: barrier_inv_def)

text \<open>When the last thread arrives, all others have arrived in this phase and wait for the flip.\<close>

lemma last_arrival:
  assumes "barrier_inv n p b" "i < n" "bpoints b ! i = B_Run" "cnt (\<lambda>a. a = p + 1) (arrived b) + 1 = n"
    and "j < n" "j \<noteq> i"
  shows "arrived b ! j = p + 1"
proof (rule ccontr)
  assume "arrived b ! j \<noteq> p + 1"
  have len: "length (arrived b) = n" using assms(1) by (simp add: barrier_inv_def)
  have "arrived b ! i \<noteq> p + 1" using barrier_running [OF assms(1-3)] by simp
  then have "{i, j} \<inter> set (filter (\<lambda>k. arrived b ! k = p + 1) [0..<n]) = {}"
    using \<open>arrived b ! j \<noteq> p + 1\<close> by auto
  moreover have "card (set (filter (\<lambda>k. arrived b ! k = p + 1) [0..<n])) = cnt (\<lambda>a. a = p + 1) (arrived b)"
    unfolding cnt_index len by (rule distinct_card) simp
  ultimately have "card ({i, j} \<union> set (filter (\<lambda>k. arrived b ! k = p + 1) [0..<n])) = n + 1"
    using assms(4,6) by (subst card_Un_disjoint) auto
  moreover have "{i, j} \<union> set (filter (\<lambda>k. arrived b ! k = p + 1) [0..<n]) \<subseteq> {..<n}"
    using assms(2,5) by auto
  then have "card ({i, j} \<union> set (filter (\<lambda>k. arrived b ! k = p + 1) [0..<n])) \<le> n"
    using card_mono [of "{..<n}"] by fastforce
  ultimately show False by simp
qed

lemma barrier_arrive:
  assumes inv: "barrier_inv n p b" and i: "i < n" "bpoints b ! i = B_Run"
  shows "barrier_inv n p (arrive i b) \<or> barrier_inv n (p + 1) (arrive i b)"
proof -
  let ?k = "cnt (\<lambda>a. a = p + 1) (arrived b)"
  have len: "length (arrived b) = n" "length (passed b) = n" "length (bpoints b) = n"
    and st: "state b = phase_state p" and sz: "size_awaited_threads b = n" and k: "?k < n"
    and cur: "current_awaited_threads b = (if even p then n - ?k else ?k)"
    using inv by (simp_all add: barrier_inv_def)
  note run = barrier_running [OF inv i]
  have cnt': "cnt (\<lambda>a. a = p + 1) ((arrived b)[i := p + 1]) = ?k + 1"
    using cnt_update [of i "arrived b" "\<lambda>a. a = p + 1" "p + 1"] i len run by simp
  show ?thesis
  proof (cases "?k + 1 = n")
    case True
    note all = last_arrival [OF inv i True]
    have "cnt (\<lambda>a. a = p + 2) ((arrived b)[i := p + 1]) = 0"
    proof -
      have "(arrived b)[i := p + 1] ! j = p + 1" if "j < n" for j
        using all [OF that] len i(1) by (cases "j = i") auto
      then show ?thesis unfolding cnt_zero using len by (auto simp: in_set_conv_nth)
    qed
    moreover have "arrived b ! j = p + 1 \<and> bpoints b ! j = B_Wait (phase_state (p + 1)) \<and> passed b ! j = p"
      if "j < n" "j \<noteq> i" for j
      using inv all [OF that] that by (auto simp: barrier_inv_def)
    ultimately have "barrier_inv n (p + 1) (arrive i b)"
      using True run i len st sz cur k
      by (cases "even p")
         (auto simp: arrive_def Let_def barrier_inv_def phase_state_def nth_list_update)
    then show ?thesis ..
  next
    case False
    have rest: "arrived b ! j = p \<and> (bpoints b ! j = B_Run \<and> passed b ! j = p \<or>
                             bpoints b ! j = B_Wait (phase_state p) \<and> passed b ! j + 1 = p) \<or>
        arrived b ! j = p + 1 \<and> bpoints b ! j = B_Wait (phase_state (p + 1)) \<and> passed b ! j = p"
      if "j < n" for j using inv that unfolding barrier_inv_def by blast
    have eq: "arrive i b = b\<lparr>arrived := (arrived b)[i := p + 1],
        current_awaited_threads := (if even p then n - (?k + 1) else ?k + 1),
        bpoints := (bpoints b)[i := B_Wait (phase_state (p + 1))]\<rparr>"
      using False run st sz cur k by (auto simp: arrive_def Let_def phase_state_def)
    have "barrier_inv n p (arrive i b)"
      unfolding eq barrier_inv_def
      using False len st sz k cnt' rest run i by (simp add: nth_list_update)
    then show ?thesis ..
  qed
qed

lemma barrier_inv_step:
  assumes "barrier_step b b'" "barrier_inv n p b"
  shows "\<exists>q. barrier_inv n q b'"
  using assms(1)
proof cases
  case (arrives i)
  have "i < n" using arrives(2) assms(2) by (simp add: barrier_inv_def)
  from barrier_arrive [OF assms(2) this arrives(3)] arrives(1) show ?thesis by blast
next
  case (returns i)
  have i: "i < n" using returns(2) assms(2) by (simp add: barrier_inv_def)
  note w = barrier_waiting [OF assms(2) i returns(3)]
  have rest: "arrived b ! j = p \<and> (bpoints b ! j = B_Run \<and> passed b ! j = p \<or>
                             bpoints b ! j = B_Wait (phase_state p) \<and> passed b ! j + 1 = p) \<or>
        arrived b ! j = p + 1 \<and> bpoints b ! j = B_Wait (phase_state (p + 1)) \<and> passed b ! j = p"
    if "j < n" for j using assms(2) that unfolding barrier_inv_def by blast
  have "barrier_inv n p b'"
    unfolding returns(1) using assms(2) i w rest
    unfolding barrier_inv_def by (simp add: nth_list_update)
  then show ?thesis ..
qed

lemma barrier_reach:
  assumes "barrier_step\<^sup>*\<^sup>* (new_barrier n) b" "0 < n"
  shows "\<exists>p. barrier_inv n p b"
  using assms(1)
  by (induction rule: rtranclp_induct) (use new_barrier_inv [OF assms(2)] barrier_inv_step in blast)+

section \<open>semaphore\<close>

text \<open>
  A thread runs outside; has found \<open>tokens_\<close> zero in \<open>wait\<close> and holds the mutex, not yet asleep;
  sleeps; is awake again and wants the mutex; is between \<open>acquire\<close> and \<open>release\<close>; has incremented
  and not yet notified. A sleeper wakes by a notification or spuriously. Taking the mutex,
  testing the predicate and, when it holds, decrementing is one step, because every other
  decrement needs the mutex too; the increment of \<open>release\<close> does not take it.
\<close>

datatype spoint = S_Out | S_Zero | S_Sleep | S_Woken | S_In | S_Notify

record semaphore =
  tokens :: nat
  spoints :: "spoint list"

definition new_semaphore :: "nat \<Rightarrow> nat \<Rightarrow> semaphore" where
  "new_semaphore consumers n = \<lparr>tokens = consumers, spoints = replicate n S_Out\<rparr>"

text \<open>The mutex is held only at \<open>S_Zero\<close>, between the test of the predicate and the sleep.\<close>

definition mutex_free :: "semaphore \<Rightarrow> bool" where
  "mutex_free s = (S_Zero \<notin> set (spoints s))"

definition acquire_test :: "nat \<Rightarrow> semaphore \<Rightarrow> semaphore" where
  "acquire_test i s =
     (if tokens s \<noteq> 0 then s\<lparr>tokens := tokens s - 1, spoints := (spoints s)[i := S_In]\<rparr>
      else s\<lparr>spoints := (spoints s)[i := S_Zero]\<rparr>)"

inductive semaphore_step :: "semaphore \<Rightarrow> semaphore \<Rightarrow> bool" where
  acquire: "i < length (spoints s) \<Longrightarrow> spoints s ! i \<in> {S_Out, S_Woken} \<Longrightarrow> mutex_free s \<Longrightarrow>
    semaphore_step s (acquire_test i s)"
| sleep: "i < length (spoints s) \<Longrightarrow> spoints s ! i = S_Zero \<Longrightarrow>
    semaphore_step s (s\<lparr>spoints := (spoints s)[i := S_Sleep]\<rparr>)"
| release: "i < length (spoints s) \<Longrightarrow> spoints s ! i = S_In \<Longrightarrow>
    semaphore_step s (s\<lparr>tokens := tokens s + 1, spoints := (spoints s)[i := S_Notify]\<rparr>)"
| notify: "i < length (spoints s) \<Longrightarrow> spoints s ! i = S_Notify \<Longrightarrow>
    j < length (spoints s) \<Longrightarrow> spoints s ! j = S_Sleep \<Longrightarrow>
    semaphore_step s (s\<lparr>spoints := (spoints s)[i := S_Out, j := S_Woken]\<rparr>)"
| notify_none: "i < length (spoints s) \<Longrightarrow> spoints s ! i = S_Notify \<Longrightarrow> S_Sleep \<notin> set (spoints s) \<Longrightarrow>
    semaphore_step s (s\<lparr>spoints := (spoints s)[i := S_Out]\<rparr>)"
| spurious: "j < length (spoints s) \<Longrightarrow> spoints s ! j = S_Sleep \<Longrightarrow>
    semaphore_step s (s\<lparr>spoints := (spoints s)[j := S_Woken]\<rparr>)"

definition semaphore_inv :: "nat \<Rightarrow> semaphore \<Rightarrow> bool" where
  "semaphore_inv consumers s \<longleftrightarrow> tokens s + cnt (\<lambda>p. p = S_In) (spoints s) = consumers"

lemma acquire_test_inv:
  assumes "semaphore_inv n s" "i < length (spoints s)" "spoints s ! i \<noteq> S_In"
  shows "semaphore_inv n (acquire_test i s)"
  using assms cnt_update [OF assms(2), of "\<lambda>p. p = S_In" S_In] cnt_update [OF assms(2), of "\<lambda>p. p = S_In" S_Zero]
  by (auto simp: semaphore_inv_def acquire_test_def)

lemma semaphore_point:
  "semaphore_inv n s \<Longrightarrow> i < length (spoints s) \<Longrightarrow> spoints s ! i \<noteq> S_In \<Longrightarrow> q \<noteq> S_In \<Longrightarrow>
   semaphore_inv n (s\<lparr>spoints := (spoints s)[i := q]\<rparr>)"
  using cnt_update [of i "spoints s" "\<lambda>p. p = S_In" q] by (simp add: semaphore_inv_def)

lemma semaphore_inv_step:
  assumes "semaphore_step s s'" "semaphore_inv n s"
  shows "semaphore_inv n s'"
  using assms(1)
proof cases
  case (acquire i)
  then show ?thesis using acquire_test_inv [OF assms(2), of i] by auto
next
  case (sleep i)
  then show ?thesis using semaphore_point [OF assms(2), of i S_Sleep] by simp
next
  case (release i)
  then show ?thesis using assms(2) cnt_update [OF release(2), of "\<lambda>p. p = S_In" S_Notify]
    by (simp add: semaphore_inv_def)
next
  case (notify i j)
  have "semaphore_inv n (s\<lparr>spoints := (spoints s)[i := S_Out]\<rparr>)"
    using semaphore_point [OF assms(2), of i S_Out] notify by simp
  moreover have "i \<noteq> j" using notify by auto
  ultimately show ?thesis
    using semaphore_point [of n "s\<lparr>spoints := (spoints s)[i := S_Out]\<rparr>" j S_Woken] notify by simp
next
  case (notify_none i)
  then show ?thesis using semaphore_point [OF assms(2), of i S_Out] by simp
next
  case (spurious j)
  then show ?thesis using semaphore_point [OF assms(2), of j S_Woken] by simp
qed

section \<open>mvar\<close>

text \<open>
  \<open>put\<close> and \<open>take\<close> as critical sections: they complete when their predicate holds and
  otherwise wait (no step). \<open>put_log\<close> and \<open>take_log\<close> record the completed calls.
\<close>

record 'a mvar =
  storage :: "'a option"
  put_log :: "'a list"
  take_log :: "'a list"

definition new_mvar :: "'a option \<Rightarrow> 'a mvar" where
  "new_mvar v = \<lparr>storage = v, put_log = (case v of None \<Rightarrow> [] | Some x \<Rightarrow> [x]), take_log = []\<rparr>"

definition mvar_put :: "'a \<Rightarrow> 'a mvar \<Rightarrow> 'a mvar option" where
  "mvar_put x m =
     (if storage m = None then Some (m\<lparr>storage := Some x, put_log := put_log m @ [x]\<rparr>) else None)"

definition mvar_take :: "'a mvar \<Rightarrow> ('a \<times> 'a mvar) option" where
  "mvar_take m =
     (case storage m of None \<Rightarrow> None
      | Some x \<Rightarrow> Some (x, m\<lparr>storage := None, take_log := take_log m @ [x]\<rparr>))"

definition mvar_is_empty :: "'a mvar \<Rightarrow> bool" where
  "mvar_is_empty m = (storage m = None)"

definition mvar_read_only :: "'a mvar \<Rightarrow> 'a option" where
  "mvar_read_only m = storage m"

inductive mvar_step :: "'a mvar \<Rightarrow> 'a mvar \<Rightarrow> bool" where
  puts: "mvar_put x m = Some m' \<Longrightarrow> mvar_step m m'"
| takes: "mvar_take m = Some (x, m') \<Longrightarrow> mvar_step m m'"

lemma mvar_step_logs:
  "mvar_step m m' \<Longrightarrow> put_log m = take_log m @ (case storage m of None \<Rightarrow> [] | Some x \<Rightarrow> [x]) \<Longrightarrow>
   put_log m' = take_log m' @ (case storage m' of None \<Rightarrow> [] | Some x \<Rightarrow> [x])"
  by (induction rule: mvar_step.induct)
     (auto simp: mvar_put_def mvar_take_def split: if_splits option.splits)

subsection \<open>mvar of nothing\<close>

text \<open>\<open>mvar<void>\<close> keeps a flag instead of a value.\<close>

record mvar_void =
  contains :: bool

definition void_put :: "mvar_void \<Rightarrow> mvar_void option" where
  "void_put m = (if \<not> contains m then Some (m\<lparr>contains := True\<rparr>) else None)"

definition void_take :: "mvar_void \<Rightarrow> mvar_void option" where
  "void_take m = (if contains m then Some (m\<lparr>contains := False\<rparr>) else None)"

definition void_is_empty :: "mvar_void \<Rightarrow> bool" where
  "void_is_empty m = (\<not> contains m)"

definition void_read_only :: "mvar_void \<Rightarrow> unit option" where
  "void_read_only m = (if contains m then Some () else None)"

text \<open>It is the \<open>mvar\<close> of the unit type: the same calls wait, and those that complete lead to the same state.\<close>

definition void_of :: "unit mvar \<Rightarrow> mvar_void" where
  "void_of m = \<lparr>contains = (storage m \<noteq> None)\<rparr>"

lemma mvar_void_refines_mvar:
  "void_put (void_of m) = map_option void_of (mvar_put () m)"
  "void_take (void_of m) = map_option (void_of \<circ> snd) (mvar_take m)"
  "void_is_empty (void_of m) = mvar_is_empty m"
  "void_read_only (void_of m) = mvar_read_only m"
  by (cases "storage m"; simp add: void_of_def void_put_def void_take_def void_is_empty_def void_read_only_def mvar_put_def mvar_take_def
      mvar_is_empty_def mvar_read_only_def)+

section \<open>Properties\<close>

text \<open>
  C24: in every interleaving of \<open>n > 0\<close> threads on a barrier for \<open>n\<close>, a thread returns from its
  \<open>k\<close>-th \<open>arrive_and_wait\<close> only after every thread has made its \<open>k\<close>-th call, even when fast threads arrive
  again before slow ones have woken up; and a waiting thread whose round is complete finds its predicate true.
\<close>

theorem barrier_rounds:
  assumes "barrier_step\<^sup>*\<^sup>* (new_barrier n) b" "0 < n" "i < n" "j < n"
  shows "passed b ! i \<le> arrived b ! j \<and>
    ((\<forall>k < n. arrived b ! i \<le> arrived b ! k) \<and> bpoints b ! i \<noteq> B_Run \<longrightarrow> bpoints b ! i = B_Wait (state b))"
proof -
  from barrier_reach [OF assms(1,2)] obtain p where inv: "barrier_inv n p b" by blast
  have each: "arrived b ! k = p \<and> (bpoints b ! k = B_Run \<and> passed b ! k = p \<or>
                             bpoints b ! k = B_Wait (phase_state p) \<and> passed b ! k + 1 = p) \<or>
        arrived b ! k = p + 1 \<and> bpoints b ! k = B_Wait (phase_state (p + 1)) \<and> passed b ! k = p"
    if "k < n" for k using inv that unfolding barrier_inv_def by blast
  have st: "state b = phase_state p" "length (arrived b) = n" "cnt (\<lambda>a. a = p + 1) (arrived b) < n"
    using inv by (simp_all add: barrier_inv_def)
  have "passed b ! i \<le> p" "p \<le> arrived b ! j" using each assms(3,4) by fastforce+
  moreover have "bpoints b ! i = B_Wait (state b)"
    if all: "\<forall>k < n. arrived b ! i \<le> arrived b ! k" and w: "bpoints b ! i \<noteq> B_Run"
  proof -
    have "arrived b ! i \<noteq> p + 1"
    proof
      assume "arrived b ! i = p + 1"
      then have "arrived b ! k = p + 1" if "k < n" for k using all each [OF that] that by auto
      then have "filter (\<lambda>a. a = p + 1) (arrived b) = arrived b"
        using st(2) by (auto simp: filter_id_conv in_set_conv_nth)
      then show False using st(2,3) by (simp add: cnt_def)
    qed
    then show ?thesis using each [OF assms(3)] w st(1) by auto
  qed
  ultimately show ?thesis by auto
qed

theorem barrier_rounds_witness:
  "\<exists>b. barrier_step\<^sup>*\<^sup>* (new_barrier 2) b \<and> bpoints b = [B_Wait Unblocking, B_Run] \<and>
    passed b ! 1 \<le> arrived b ! 0 \<and>
    ((\<forall>k < 2. arrived b ! 1 \<le> arrived b ! k) \<and> bpoints b ! 1 \<noteq> B_Run \<longrightarrow> bpoints b ! 1 = B_Wait (state b))"
proof -
  let ?b1 = "arrive 0 (new_barrier 2)" and ?b2 = "arrive 1 (arrive 0 (new_barrier 2))"
  have "barrier_step (new_barrier 2) ?b1"
    by (rule barrier_step.arrives) (simp_all add: new_barrier_def numeral_2_eq_2)
  moreover have "barrier_step ?b1 ?b2"
    by (rule barrier_step.arrives) (simp_all add: new_barrier_def arrive_def numeral_2_eq_2)
  ultimately have r: "barrier_step\<^sup>*\<^sup>* (new_barrier 2) ?b2" by (meson r_into_rtranclp rtranclp_trans)
  have "bpoints ?b2 = [B_Wait Unblocking, B_Run]"
    by (simp add: new_barrier_def arrive_def numeral_2_eq_2)
  with barrier_rounds [OF r, of 1 0] r show ?thesis by (intro exI [of _ ?b2]) simp
qed

text \<open>
  In every interleaving, the tokens and the threads between \<open>acquire\<close> and \<open>release\<close> add up
  to the initial number, so at most that many threads are inside and the unsigned counter never wraps below zero.
\<close>

theorem semaphore_bounds:
  assumes "semaphore_step\<^sup>*\<^sup>* (new_semaphore consumers n) s"
  shows "tokens s + cnt (\<lambda>p. p = S_In) (spoints s) = consumers"
proof -
  have "semaphore_inv consumers s"
    using assms
    by (induction rule: rtranclp_induct)
       (auto simp: semaphore_inv_def new_semaphore_def cnt_replicate
         intro: semaphore_inv_step [unfolded semaphore_inv_def])
  then show ?thesis by (simp add: semaphore_inv_def)
qed

text \<open>The second thread finds no token; the first releases and notifies before the second sleeps.\<close>

definition lost_state :: semaphore where
  "lost_state = \<lparr>tokens = 1, spoints = [S_Out, S_Sleep]\<rparr>"

lemma lost_run: "semaphore_step\<^sup>*\<^sup>* (new_semaphore 1 2) lost_state"
proof -
  have "semaphore_step (new_semaphore 1 2) \<lparr>tokens = 0, spoints = [S_In, S_Out]\<rparr>"
    using semaphore_step.acquire [of 0 "new_semaphore 1 2"]
    by (simp add: new_semaphore_def mutex_free_def acquire_test_def numeral_2_eq_2)
  also have "semaphore_step\<^sup>*\<^sup>* \<dots> \<lparr>tokens = 0, spoints = [S_In, S_Zero]\<rparr>"
    using semaphore_step.acquire [of 1 "\<lparr>tokens = 0, spoints = [S_In, S_Out]\<rparr>"]
    by (simp add: mutex_free_def acquire_test_def r_into_rtranclp)
  also have "semaphore_step\<^sup>*\<^sup>* \<dots> \<lparr>tokens = 1, spoints = [S_Notify, S_Zero]\<rparr>"
    using semaphore_step.release [of 0 "\<lparr>tokens = 0, spoints = [S_In, S_Zero]\<rparr>"] by (simp add: r_into_rtranclp)
  also have "semaphore_step\<^sup>*\<^sup>* \<dots> \<lparr>tokens = 1, spoints = [S_Out, S_Zero]\<rparr>"
    using semaphore_step.notify_none [of 0 "\<lparr>tokens = 1, spoints = [S_Notify, S_Zero]\<rparr>"] by (simp add: r_into_rtranclp)
  also have "semaphore_step\<^sup>*\<^sup>* \<dots> lost_state"
    using semaphore_step.sleep [of 1 "\<lparr>tokens = 1, spoints = [S_Out, S_Zero]\<rparr>"]
    by (simp add: r_into_rtranclp lost_state_def)
  finally show ?thesis .
qed

theorem semaphore_bounds_witness:
  "semaphore_step\<^sup>*\<^sup>* (new_semaphore 1 2) lost_state \<and>
   tokens lost_state + cnt (\<lambda>p. p = S_In) (spoints lost_state) = 1"
  using semaphore_bounds [OF lost_run] lost_run by blast

text \<open>
  \<open>release\<close> can lose a wake-up, because it increments and notifies without the mutex: a
  thread that found no token and has not yet gone to sleep misses the notification, and sleeps although a
  token is there and no thread is about to notify.
\<close>

theorem semaphore_lost_wakeup:
  "\<exists>s. semaphore_step\<^sup>*\<^sup>* (new_semaphore 1 2) s \<and> tokens s = 1 \<and> S_Sleep \<in> set (spoints s) \<and>
     S_Notify \<notin> set (spoints s) \<and> S_In \<notin> set (spoints s)"
  using lost_run by (auto simp: lost_state_def)

text \<open>
  An \<open>mvar\<close> is a one-place channel: over every sequence of completed \<open>put\<close> and \<open>take\<close>
  calls the values taken are the values put, in order, but for the one still stored; \<open>put\<close> waits exactly while it is
  full and \<open>take\<close> exactly while it is empty.
\<close>

theorem mvar_channel:
  assumes "mvar_step\<^sup>*\<^sup>* (new_mvar v) m"
  shows "put_log m = take_log m @ (case mvar_read_only m of None \<Rightarrow> [] | Some x \<Rightarrow> [x]) \<and>
    (mvar_put y m = None \<longleftrightarrow> \<not> mvar_is_empty m) \<and> (mvar_take m = None \<longleftrightarrow> mvar_is_empty m)"
proof -
  have "put_log m = take_log m @ (case storage m of None \<Rightarrow> [] | Some x \<Rightarrow> [x])"
    using assms
  proof (induction rule: rtranclp_induct)
    case base
    then show ?case by (cases v) (simp_all add: new_mvar_def)
  qed (rule mvar_step_logs)
  then show ?thesis
    by (auto simp: mvar_read_only_def mvar_put_def mvar_take_def mvar_is_empty_def split: option.splits)
qed

theorem mvar_channel_witness:
  "\<exists>m. mvar_step\<^sup>*\<^sup>* (new_mvar (Some (1::int))) m \<and> take_log m = [1] \<and>
    put_log m = take_log m @ (case mvar_read_only m of None \<Rightarrow> [] | Some x \<Rightarrow> [x]) \<and>
    (mvar_put 2 m = None \<longleftrightarrow> \<not> mvar_is_empty m) \<and> (mvar_take m = None \<longleftrightarrow> mvar_is_empty m)"
proof -
  let ?m = "\<lparr>storage = None, put_log = [1], take_log = [1::int]\<rparr>"
  have "mvar_step\<^sup>*\<^sup>* (new_mvar (Some 1)) ?m"
    by (rule r_into_rtranclp, rule mvar_step.takes [of _ 1]) (simp add: mvar_take_def new_mvar_def)
  from mvar_channel [OF this, of 2] this show ?thesis by (intro exI [of _ ?m]) simp
qed

end
