(* ===== verification/Graph_Search.thy ===== *)
theory Graph_Search
  imports Prelude "HOL-Library.Monad_Syntax"
begin

text \<open>
  What the searches of the library share: a frontier of nodes to process, a set \<open>visited\<close> and a map
  \<open>possible_actions\<close> from a node to the node that discovered it. The searches differ in the container
  of the frontier (stack, queue, priority queue); the invariant below does not depend on it. \<open>level\<close> is
  the number of discoveries from the source to a node.
\<close>

text \<open>The successors that \<open>visited.emplace\<close> finds to be new, in the order of the loop.\<close>

fun discover :: "'n list \<Rightarrow> 'n set \<Rightarrow> 'n list" where
  "discover [] V = []"
| "discover (x # xs) V = (if x \<in> V then discover xs V else x # discover xs (insert x V))"

lemma discover_set [simp]: "set (discover xs V) = set xs - V"
  by (induction xs V rule: discover.induct) auto

lemma discover_distinct [simp]: "distinct (discover xs V)"
  by (induction xs V rule: discover.induct) auto

text \<open>
  The loop that rebuilds the path: while the front is not the source, its discoverer is put before it; it
  breaks off at a node that has none.
\<close>

partial_function (option) rebuild :: "('n \<rightharpoonup> 'n) \<Rightarrow> 'n \<Rightarrow> 'n list \<Rightarrow> 'n list option" where
  "rebuild possible_actions source path =
     (if hd path = source then Some path
      else case possible_actions (hd path) of
        None \<Rightarrow> Some path
      | Some previous \<Rightarrow> rebuild possible_actions source (previous # path))"

declare rebuild.simps [code]

section \<open>Walks\<close>

definition edge_rel :: "('n \<Rightarrow> 'n list) \<Rightarrow> ('n \<times> 'n) set" where
  "edge_rel succ = {(u, v). v \<in> set (succ u)}"

lemma edge_rel_iff [simp]: "(u, v) \<in> edge_rel succ \<longleftrightarrow> v \<in> set (succ u)"
  by (simp add: edge_rel_def)

definition walk :: "('n \<Rightarrow> 'n list) \<Rightarrow> 'n \<Rightarrow> 'n \<Rightarrow> 'n list \<Rightarrow> bool" where
  "walk succ u v p \<longleftrightarrow> p \<noteq> [] \<and> hd p = u \<and> last p = v \<and> successively (\<lambda>a b. b \<in> set (succ a)) p"

lemma walk_single [simp]: "walk succ u v [x] \<longleftrightarrow> u = x \<and> v = x"
  by (auto simp: walk_def)

lemma walk_snoc:
  "p \<noteq> [] \<Longrightarrow> walk succ u v (p @ [x]) \<longleftrightarrow> v = x \<and> x \<in> set (succ (last p)) \<and> walk succ u (last p) p"
  by (auto simp: walk_def successively_append_iff)

lemma walk_reachable: "walk succ u v p \<Longrightarrow> (u, v) \<in> (edge_rel succ)\<^sup>*"
proof (induction p arbitrary: v rule: rev_induct)
  case Nil
  then show ?case by (simp add: walk_def)
next
  case (snoc x p)
  show ?case
  proof (cases "p = []")
    case True
    with snoc.prems show ?thesis by simp
  next
    case False
    with snoc have "(u, last p) \<in> (edge_rel succ)\<^sup>*" "v \<in> set (succ (last p))"
      by (auto simp: walk_snoc)
    then show ?thesis by (auto intro: rtrancl_into_rtrancl)
  qed
qed

section \<open>The invariant of a search\<close>

text \<open>
  \<open>F\<close> frontier, \<open>V\<close> visited, \<open>P\<close> discoverers, \<open>l\<close> levels: everything visited and no longer in the frontier
  has been expanded and is not the target.
\<close>

definition search_inv ::
  "('n \<Rightarrow> 'n list) \<Rightarrow> 'n \<Rightarrow> 'n \<Rightarrow> 'n list \<Rightarrow> 'n set \<Rightarrow> ('n \<rightharpoonup> 'n) \<Rightarrow> ('n \<Rightarrow> nat) \<Rightarrow> bool" where
  "search_inv succ s t F V P l \<longleftrightarrow>
     s \<in> V \<and> distinct F \<and> set F \<subseteq> V \<and> t \<notin> V - set F \<and> (\<forall>v \<in> V - set F. set (succ v) \<subseteq> V) \<and>
     dom P = V \<and> l s = 0 \<and>
     (\<forall>v \<in> V. v \<noteq> s \<longrightarrow> (\<exists>u \<in> V. P v = Some u \<and> v \<in> set (succ u) \<and> l v = l u + 1))"

lemma search_inv_start: "search_inv succ s t [s] {s} [s \<mapsto> s] (\<lambda>_. 0)"
  by (auto simp: search_inv_def)

lemma search_invD:
  assumes "search_inv succ s t F V P l"
  shows "s \<in> V" "distinct F" "set F \<subseteq> V" "t \<notin> V - set F" "v \<in> V \<Longrightarrow> v \<notin> set F \<Longrightarrow> set (succ v) \<subseteq> V"
    "dom P = V" "l s = 0"
  using assms unfolding search_inv_def by blast+

lemma search_inv_parent:
  assumes "search_inv succ s t F V P l" "v \<in> V" "v \<noteq> s"
  obtains u where "u \<in> V" "P v = Some u" "v \<in> set (succ u)" "l v = l u + 1"
  using assms unfolding search_inv_def by blast

text \<open>Expanding one node \<open>c\<close> of the frontier.\<close>

abbreviation next_level :: "('n \<Rightarrow> 'n list) \<Rightarrow> 'n \<Rightarrow> 'n set \<Rightarrow> ('n \<Rightarrow> nat) \<Rightarrow> 'n \<Rightarrow> nat" where
  "next_level succ c V l \<equiv> (\<lambda>v. if v \<in> V then l v else l c + 1)"

lemma search_inv_expand:
  assumes inv: "search_inv succ s t F V P l" and c: "c \<in> set F" "c \<noteq> t"
    and F': "distinct F'" "set F' = (set F - {c}) \<union> (set (succ c) - V)"
    and P': "\<And>v. P' v = (if v \<in> set (succ c) - V then Some c else P v)"
  shows "search_inv succ s t F' (V \<union> set (succ c)) P' (next_level succ c V l)"
proof -
  note d = search_invD [OF inv]
  have parent: "\<exists>u \<in> V \<union> set (succ c). P' v = Some u \<and> v \<in> set (succ u) \<and>
      next_level succ c V l v = next_level succ c V l u + 1"
    if v: "v \<in> V \<union> set (succ c)" "v \<noteq> s" for v
  proof (cases "v \<in> V")
    case True
    with inv v obtain u where "u \<in> V" "P v = Some u" "v \<in> set (succ u)" "l v = l u + 1"
      by (auto elim: search_inv_parent)
    with True show ?thesis by (auto simp: P')
  next
    case False
    with v c d(3) show ?thesis by (auto simp: P')
  qed
  have "dom P' = V \<union> set (succ c)"
    using d(6) by (auto simp: P' dom_def split: if_splits)
  moreover have "set (succ v) \<subseteq> V \<union> set (succ c)" if "v \<in> V \<union> set (succ c) - set F'" for v
    using that d(5) [of v] F'(2) by blast
  moreover have "t \<notin> V \<union> set (succ c) - set F'" using d(4) c(2) F'(2) by blast
  moreover have "set F' \<subseteq> V \<union> set (succ c)" using d(3) F'(2) by blast
  ultimately show ?thesis
    unfolding search_inv_def using d(1,7) F'(1) parent by auto
qed

lemma search_exhausted:
  assumes "search_inv succ s t [] V P l"
  shows "(s, t) \<notin> (edge_rel succ)\<^sup>*" "t \<notin> V"
proof -
  note d = search_invD [OF assms]
  have "v \<in> V" if "(s, v) \<in> (edge_rel succ)\<^sup>*" for v
    using that by (induction rule: rtrancl_induct) (use d in auto)
  with d(4) show "(s, t) \<notin> (edge_rel succ)\<^sup>*" "t \<notin> V" by auto
qed

text \<open>The path rebuilt to a visited node is a simple walk of the node's level.\<close>

lemma rebuild_visited:
  assumes inv: "search_inv succ s t F V P l" and v: "v \<in> V"
  shows "\<exists>p. rebuild P s (v # rest) = Some (p @ rest) \<and> walk succ s v p \<and> length p = l v + 1 \<and>
    set p \<subseteq> V \<and> distinct p \<and> (\<forall>x \<in> set p. l x \<le> l v)"
  using v
proof (induction "l v" arbitrary: v rest rule: less_induct)
  case less
  show ?case
  proof (cases "v = s")
    case True
    then have "rebuild P s (v # rest) = Some ([s] @ rest)" by (simp add: rebuild.simps)
    moreover have "walk succ s v [s]" "length [s] = l v + 1" using True search_invD [OF inv] by auto
    ultimately show ?thesis using True less.prems by fastforce
  next
    case False
    with inv less.prems obtain u where u: "u \<in> V" "P v = Some u" "v \<in> set (succ u)" "l v = l u + 1"
      by (auto elim: search_inv_parent)
    from less.hyps [of u "v # rest"] u obtain p where
      p: "rebuild P s (u # v # rest) = Some (p @ v # rest)" "walk succ s u p" "length p = l u + 1"
        "set p \<subseteq> V" "distinct p" "\<forall>x \<in> set p. l x \<le> l u" by auto
    have ne: "p \<noteq> []" "last p = u" using p(2) by (auto simp: walk_def)
    have "rebuild P s (v # rest) = Some ((p @ [v]) @ rest)"
      using False u(2) p(1) by (subst rebuild.simps) simp
    moreover have "walk succ s v (p @ [v])" using ne p(2) u(3) by (simp add: walk_snoc)
    moreover have "v \<notin> set p" using p(6) u(4) by auto
    ultimately show ?thesis using p u less.prems by (intro exI [of _ "p @ [v]"]) auto
  qed
qed

lemma visited_reachable:
  "search_inv succ s t F V P l \<Longrightarrow> v \<in> V \<Longrightarrow> (s, v) \<in> (edge_rel succ)\<^sup>*"
  using rebuild_visited [of succ s t F V P l v "[]"] walk_reachable by fast

section \<open>Finite search spaces\<close>

text \<open>
  A search stays in a finite set of nodes that is closed under successors; what is left to do decreases
  with every expansion, whatever node of the frontier is expanded.
\<close>

definition effort :: "'n set \<Rightarrow> 'n list \<Rightarrow> 'n set \<Rightarrow> nat" where
  "effort U F V = 2 * card (U - V) + length F"

locale search_space =
  fixes succ :: "'n \<Rightarrow> 'n list" and s :: 'n and U :: "'n set"
  assumes finite_nodes: "finite U"
    and source_node: "s \<in> U"
    and closed_nodes: "u \<in> U \<Longrightarrow> set (succ u) \<subseteq> U"
begin

lemma visited_nodes: "search_inv succ s t F V P l \<Longrightarrow> V \<subseteq> U"
proof
  fix v assume "search_inv succ s t F V P l" "v \<in> V"
  then have "(s, v) \<in> (edge_rel succ)\<^sup>*" by (rule visited_reachable)
  then show "v \<in> U"
    by (induction rule: rtrancl_induct) (use source_node closed_nodes in auto)
qed

lemma effort_expand:
  assumes inv: "search_inv succ s t F V P l" and c: "c \<in> set F"
    and F': "length F' = length F - 1 + length (discover (succ c) V)"
  shows "effort U F' (V \<union> set (succ c)) < effort U F V"
proof -
  note V = visited_nodes [OF inv]
  from c search_invD(3) [OF inv] V have "c \<in> U" by auto
  with closed_nodes have sub: "set (succ c) - V \<subseteq> U - V" by auto
  have "U - (V \<union> set (succ c)) = (U - V) - (set (succ c) - V)" by auto
  then have "card (U - (V \<union> set (succ c))) = card (U - V) - card (set (succ c) - V)"
    using sub finite_nodes by (simp add: card_Diff_subset)
  moreover have "card (set (succ c) - V) \<le> card (U - V)"
    using sub finite_nodes by (intro card_mono) auto
  moreover have "length (discover (succ c) V) = card (set (succ c) - V)"
    using distinct_card [of "discover (succ c) V"] by simp
  moreover have "0 < length F" using c by (cases F) auto
  ultimately show ?thesis unfolding effort_def F' by linarith
qed

lemma level_bound:
  assumes inv: "search_inv succ s t F V P l" and v: "v \<in> V"
  shows "l v < card U"
proof -
  from rebuild_visited [OF inv v, of "[]"] obtain p where "length p = l v + 1" "set p \<subseteq> V" "distinct p" by auto
  then have "l v + 1 = card (set p)" by (simp add: distinct_card)
  also have "\<dots> \<le> card U"
    using \<open>set p \<subseteq> V\<close> visited_nodes [OF inv] finite_nodes by (intro card_mono) auto
  finally show ?thesis by simp
qed

end

section \<open>Breadth first: levels are distances\<close>

definition layered :: "('n \<Rightarrow> 'n list) \<Rightarrow> 'n list \<Rightarrow> 'n set \<Rightarrow> ('n \<Rightarrow> nat) \<Rightarrow> bool" where
  "layered succ F V l \<longleftrightarrow> sorted (map l F) \<and> (\<forall>v \<in> V. \<forall>f \<in> set F. l v \<le> l f + 1) \<and>
     (\<forall>v \<in> V - set F. \<forall>w \<in> set (succ v). l w \<le> l v + 1)"

lemma layered_start: "layered succ [s] {s} (\<lambda>_. 0)"
  by (simp add: layered_def)

lemma layered_expand:
  assumes inv: "search_inv succ s t (c # F) V P l" and lay: "layered succ (c # F) V l"
  shows "layered succ (F @ discover (succ c) V) (V \<union> set (succ c)) (next_level succ c V l)"
proof -
  note d = search_invD [OF inv]
  have srt: "sorted (map l F)" "\<forall>f \<in> set F. l c \<le> l f"
    and near: "\<forall>v \<in> V. \<forall>f \<in> insert c (set F). l v \<le> l f + 1"
    and expanded: "\<forall>v \<in> V - insert c (set F). \<forall>w \<in> set (succ v). l w \<le> l v + 1"
    using lay unfolding layered_def by auto
  have FV: "set F \<subseteq> V" "c \<in> V" using d(3) by auto
  have old: "map (next_level succ c V l) F = map l F" using FV by auto
  have new: "map (next_level succ c V l) (discover (succ c) V) = replicate (length (discover (succ c) V)) (l c + 1)"
    by (rule nth_equalityI) (use discover_set [of "succ c" V] nth_mem in \<open>fastforce+\<close>)
  have "sorted (map (next_level succ c V l) (F @ discover (succ c) V))"
    unfolding map_append old new sorted_append using srt near FV by auto
  moreover have "next_level succ c V l v \<le> next_level succ c V l f + 1"
    if "v \<in> V \<union> set (succ c)" "f \<in> set (F @ discover (succ c) V)" for v f
    using that near srt(2) FV by (auto split: if_splits)
  moreover have "next_level succ c V l w \<le> next_level succ c V l v + 1"
    if v: "v \<in> V \<union> set (succ c) - set (F @ discover (succ c) V)" and w: "w \<in> set (succ v)" for v w
  proof (cases "v = c")
    case True
    then show ?thesis using near FV by auto
  next
    case False
    with v have "v \<in> V - insert c (set F)" by auto
    with expanded w d(5) [of v] show ?thesis by auto
  qed
  ultimately show ?thesis unfolding layered_def by blast
qed

lemma layered_walk:
  assumes inv: "search_inv succ s t F V P l" and lay: "layered succ F V l" and p: "walk succ s v p"
  shows "(v \<in> V \<and> l v < length p) \<or> (\<exists>f \<in> set F. l f < length p)"
  using p
proof (induction p arbitrary: v rule: rev_induct)
  case Nil
  then show ?case by (simp add: walk_def)
next
  case (snoc x p)
  note d = search_invD [OF inv]
  show ?case
  proof (cases "p = []")
    case True
    with snoc.prems d(1,7) show ?thesis by simp
  next
    case False
    with snoc.prems have x: "v = x" "x \<in> set (succ (last p))" "walk succ s (last p) p"
      by (auto simp: walk_snoc)
    from snoc.IH [OF x(3)] consider "last p \<in> V" "last p \<notin> set F" "l (last p) < length p"
      | "\<exists>f \<in> set F. l f < length p" by auto
    then show ?thesis
    proof cases
      case 1
      with d(5) [of "last p"] lay x show ?thesis unfolding layered_def by fastforce
    next
      case 2
      then show ?thesis by fastforce
    qed
  qed
qed

lemma layered_shortest:
  assumes "search_inv succ s t (t # F) V P l" "layered succ (t # F) V l" "walk succ s t p"
  shows "l t < length p"
  using layered_walk [OF assms] assms(2) unfolding layered_def by fastforce

end
