(* ===== verification/Digraph.thy ===== *)
theory Digraph
  imports Graph_Search
begin

text \<open>
  The directed graph \<open>legacy_graph::Digraph\<close> (\<open>container/graph/directed_graph.hpp\<close>), an unordered map
  from a node to its successors, and the two searches on it: \<open>depth_first_search.cpp\<close> and
  \<open>dijkstra_search.cpp\<close>. The map is an association list in the order of its iteration, on which nothing
  depends. \<open>graph_[node]\<close> inserts an empty entry for an absent node, so the searches return the graph too.
\<close>

section \<open>The graph\<close>

type_synonym node = int

type_synonym digraph = "(node \<times> node list) list"

text \<open>\<open>graph_[node]\<close>: the entry and the graph with it.\<close>

definition entry_of :: "node \<Rightarrow> digraph \<Rightarrow> node list \<times> digraph" where
  "entry_of n g = (case map_of g n of Some ss \<Rightarrow> (ss, g) | None \<Rightarrow> ([], g @ [(n, [])]))"

fun set_entry :: "node \<Rightarrow> node list \<Rightarrow> digraph \<Rightarrow> digraph" where
  "set_entry n ss [] = []"
| "set_entry n ss ((m, ts) # g) = (if m = n then (m, ss) # g else (m, ts) # set_entry n ss g)"

definition add_edge :: "node \<Rightarrow> node \<Rightarrow> digraph \<Rightarrow> digraph" where
  "add_edge from_node to_node g =
     (case entry_of from_node g of (ss, g') \<Rightarrow> set_entry from_node (ss @ [to_node]) g')"

definition get_successors :: "node \<Rightarrow> digraph \<Rightarrow> node list \<times> digraph" where
  "get_successors n g = entry_of n g"

definition visit :: "(node \<Rightarrow> 's \<Rightarrow> 's) \<Rightarrow> digraph \<Rightarrow> 's \<Rightarrow> 's" where
  "visit visitor g = fold (\<lambda>(n, _). visitor n) g"

definition successors :: "digraph \<Rightarrow> node \<Rightarrow> node list" where
  "successors g n = (case map_of g n of Some ss \<Rightarrow> ss | None \<Rightarrow> [])"

section \<open>Depth first search\<close>

definition push_new :: "node \<Rightarrow> node list \<times> node set \<Rightarrow> node list \<times> node set" where
  "push_new successor = (\<lambda>(processing, visited).
     if successor \<in> visited then (processing, visited)
     else (successor # processing, insert successor visited))"

partial_function (option) dfs_exist_loop ::
  "node \<Rightarrow> node list \<Rightarrow> node set \<Rightarrow> digraph \<Rightarrow> (bool \<times> digraph) option" where
  "dfs_exist_loop to_node processing visited g =
     (case processing of
        [] \<Rightarrow> Some (False, g)
      | considered # rest \<Rightarrow>
          if considered = to_node then Some (True, g)
          else (case get_successors considered g of (ss, g') \<Rightarrow>
            (case fold push_new ss (rest, visited) of (processing', visited') \<Rightarrow>
               dfs_exist_loop to_node processing' visited' g')))"

definition dfs_is_path_exist :: "digraph \<Rightarrow> node \<Rightarrow> node \<Rightarrow> (bool \<times> digraph) option" where
  "dfs_is_path_exist g from_node to_node = dfs_exist_loop to_node [from_node] {from_node} g"

definition push_action :: "node \<Rightarrow> node \<Rightarrow> node list \<times> node set \<times> (node \<rightharpoonup> node) \<Rightarrow>
    node list \<times> node set \<times> (node \<rightharpoonup> node)" where
  "push_action considered successor = (\<lambda>(processing, visited, possible_actions).
     if successor \<in> visited then (processing, visited, possible_actions)
     else (successor # processing, insert successor visited, possible_actions(successor \<mapsto> considered)))"

partial_function (option) dfs_path_loop ::
  "node \<Rightarrow> node list \<Rightarrow> node set \<Rightarrow> (node \<rightharpoonup> node) \<Rightarrow> digraph \<Rightarrow> ((node \<rightharpoonup> node) \<times> digraph) option" where
  "dfs_path_loop to_node processing visited possible_actions g =
     (case processing of
        [] \<Rightarrow> Some (possible_actions, g)
      | considered # rest \<Rightarrow>
          if considered = to_node then Some (possible_actions, g)
          else (case get_successors considered g of (ss, g') \<Rightarrow>
            (case fold (push_action considered) ss (rest, visited, possible_actions) of
               (processing', visited', possible_actions') \<Rightarrow>
                 dfs_path_loop to_node processing' visited' possible_actions' g')))"

declare dfs_exist_loop.simps [code] dfs_path_loop.simps [code]

text \<open>The end of both \<open>ShortestPath\<close> functions: rebuild the path, and clear it when it does not reach back.\<close>

definition path_to :: "(node \<rightharpoonup> node) \<Rightarrow> node \<Rightarrow> node \<Rightarrow> node list option" where
  "path_to possible_actions from_node to_node =
     do { path \<leftarrow> rebuild possible_actions from_node [to_node];
          Some (if hd path = from_node then path else []) }"

definition dfs_shortest_path :: "digraph \<Rightarrow> node \<Rightarrow> node \<Rightarrow> (node list \<times> digraph) option" where
  "dfs_shortest_path g from_node to_node =
     do { (possible_actions, g') \<leftarrow>
            dfs_path_loop to_node [from_node] {from_node} [from_node \<mapsto> from_node] g;
          path \<leftarrow> path_to possible_actions from_node to_node;
          Some (path, g') }"

section \<open>Dijkstra search\<close>

text \<open>
  The priority queue is the list of its elements; \<open>pick\<close> gives the position of \<open>top()\<close>, one of the elements
  that none exceeds (\<open>operator<\<close> compares the distances, so the greatest comes first). Which one of equals
  is not specified by the standard, so \<open>pick\<close> is a parameter.
\<close>

type_synonym distances = "node \<Rightarrow> int option"

type_synonym queue = "(node \<times> int) list"

definition int_max :: int where
  "int_max = 2147483647"

definition picks_max :: "(queue \<Rightarrow> nat) \<Rightarrow> bool" where
  "picks_max pick \<longleftrightarrow> (\<forall>q. q \<noteq> [] \<longrightarrow> pick q < length q \<and> (\<forall>x \<in> set q. snd x \<le> snd (q ! pick q)))"

definition init_distances :: "digraph \<Rightarrow> distances" where
  "init_distances g = visit (\<lambda>n d. case d n of None \<Rightarrow> d(n \<mapsto> int_max) | Some _ \<Rightarrow> d) g Map.empty"

text \<open>\<open>distances[node]\<close>, which inserts 0 for an absent node.\<close>

definition distance_at :: "distances \<Rightarrow> node \<Rightarrow> int \<times> distances" where
  "distance_at d n = (case d n of Some x \<Rightarrow> (x, d) | None \<Rightarrow> (0, d(n \<mapsto> 0)))"

definition pop_at :: "nat \<Rightarrow> 'a list \<Rightarrow> 'a list" where
  "pop_at i q = take i q @ drop (i + 1) q"

definition relax :: "node \<Rightarrow> node \<Rightarrow> queue \<times> node set \<times> distances \<Rightarrow> queue \<times> node set \<times> distances" where
  "relax considered successor = (\<lambda>(processing, visited, d).
     if successor \<in> visited then (processing, visited, d)
     else (case distance_at d considered of (dist, d1) \<Rightarrow>
       (case distance_at d1 successor of (old_dist, d2) \<Rightarrow>
          let new_dist = dist + 1 in
          if new_dist < old_dist
          then (processing @ [(successor, new_dist)], insert successor visited, d2(successor \<mapsto> new_dist))
          else (processing, insert successor visited, d2))))"

partial_function (option) dijkstra_exist_loop ::
  "(queue \<Rightarrow> nat) \<Rightarrow> node \<Rightarrow> queue \<Rightarrow> node set \<Rightarrow> distances \<Rightarrow> digraph \<Rightarrow> (bool \<times> digraph) option" where
  "dijkstra_exist_loop pick to_node processing visited d g =
     (if processing = [] then Some (False, g)
      else (case processing ! pick processing of (considered, min_dist) \<Rightarrow>
        if considered = to_node then Some (True, g)
        else (case distance_at d considered of (dist, d0) \<Rightarrow>
          if dist \<ge> min_dist
          then (case get_successors considered g of (ss, g') \<Rightarrow>
            (case fold (relax considered) ss (pop_at (pick processing) processing, visited, d0) of
               (processing', visited', d') \<Rightarrow> dijkstra_exist_loop pick to_node processing' visited' d' g'))
          else dijkstra_exist_loop pick to_node (pop_at (pick processing) processing) visited d0 g)))"

definition dijkstra_is_path_exist :: "(queue \<Rightarrow> nat) \<Rightarrow> digraph \<Rightarrow> node \<Rightarrow> node \<Rightarrow> (bool \<times> digraph) option" where
  "dijkstra_is_path_exist pick g from_node to_node =
     dijkstra_exist_loop pick to_node [(from_node, 0)] {from_node} ((init_distances g)(from_node \<mapsto> 0)) g"

definition relax_action :: "node \<Rightarrow> node \<Rightarrow> queue \<times> node set \<times> distances \<times> (node \<rightharpoonup> node) \<Rightarrow>
    queue \<times> node set \<times> distances \<times> (node \<rightharpoonup> node)" where
  "relax_action considered successor = (\<lambda>(processing, visited, d, possible_actions).
     if successor \<in> visited then (processing, visited, d, possible_actions)
     else (case distance_at d considered of (dist, d1) \<Rightarrow>
       (case distance_at d1 successor of (old_dist, d2) \<Rightarrow>
          let new_dist = dist + 1 in
          if new_dist < old_dist
          then (processing @ [(successor, new_dist)], insert successor visited, d2(successor \<mapsto> new_dist),
                possible_actions(successor \<mapsto> considered))
          else (processing, insert successor visited, d2, possible_actions))))"

partial_function (option) dijkstra_path_loop ::
  "(queue \<Rightarrow> nat) \<Rightarrow> node \<Rightarrow> queue \<Rightarrow> node set \<Rightarrow> distances \<Rightarrow> (node \<rightharpoonup> node) \<Rightarrow> digraph \<Rightarrow>
     ((node \<rightharpoonup> node) \<times> digraph) option" where
  "dijkstra_path_loop pick to_node processing visited d possible_actions g =
     (if processing = [] then Some (possible_actions, g)
      else (case processing ! pick processing of (considered, min_dist) \<Rightarrow>
        if considered = to_node then Some (possible_actions, g)
        else (case distance_at d considered of (dist, d0) \<Rightarrow>
          if dist \<ge> min_dist
          then (case get_successors considered g of (ss, g') \<Rightarrow>
            (case fold (relax_action considered) ss
                    (pop_at (pick processing) processing, visited, d0, possible_actions) of
               (processing', visited', d', possible_actions') \<Rightarrow>
                 dijkstra_path_loop pick to_node processing' visited' d' possible_actions' g'))
          else dijkstra_path_loop pick to_node (pop_at (pick processing) processing) visited d0
                 possible_actions g)))"

definition dijkstra_shortest_path :: "(queue \<Rightarrow> nat) \<Rightarrow> digraph \<Rightarrow> node \<Rightarrow> node \<Rightarrow> (node list \<times> digraph) option" where
  "dijkstra_shortest_path pick g from_node to_node =
     do { (possible_actions, g') \<leftarrow>
            dijkstra_path_loop pick to_node [(from_node, 0)] {from_node}
              ((init_distances g)(from_node \<mapsto> 0)) [from_node \<mapsto> from_node] g;
          path \<leftarrow> path_to possible_actions from_node to_node;
          Some (path, g') }"

declare dijkstra_exist_loop.simps [code] dijkstra_path_loop.simps [code]

section \<open>The graph as a search space\<close>

lemma get_successors_eq: "fst (get_successors n g) = successors g n"
  by (simp add: get_successors_def entry_of_def successors_def split: option.split)

lemma get_successors_graph: "successors (snd (get_successors n g)) = successors g"
  by (auto simp: get_successors_def entry_of_def successors_def fun_eq_iff map_add_def split: option.split)

lemma get_successorsE:
  obtains g' where "get_successors n g = (successors g n, g')" "successors g' = successors g"
  using get_successors_eq [of n g] get_successors_graph [of n g] by (cases "get_successors n g") auto

lemma map_of_set_entry:
  "map_of (set_entry n ss g) m = (if m = n \<and> map_of g n \<noteq> None then Some ss else map_of g m)"
  by (induction n ss g rule: set_entry.induct) auto

lemma successors_add_edge:
  "successors (add_edge u v g) = (successors g)(u := successors g u @ [v])"
  by (auto simp: add_edge_def entry_of_def successors_def map_of_set_entry fun_eq_iff map_add_def
      split: option.split)

definition nodes_of :: "digraph \<Rightarrow> node set" where
  "nodes_of g = fst ` set g \<union> (\<Union>(_, ss) \<in> set g. set ss)"

lemma nodes_of_finite [simp]: "finite (nodes_of g)"
  by (auto simp: nodes_of_def)

lemma successors_nodes: "set (successors g n) \<subseteq> nodes_of g"
proof (cases "map_of g n")
  case (Some ss)
  from map_of_SomeD [OF this] have "set ss \<subseteq> nodes_of g" by (auto simp: nodes_of_def)
  with Some show ?thesis by (simp add: successors_def)
qed (simp add: successors_def)

interpretation digraph: search_space "successors g" s "insert s (nodes_of g)"
  by unfold_locales (use successors_nodes in auto)

text \<open>What a search leaves: its invariant, with the frontier exhausted or the target in it.\<close>

definition searched :: "(node \<Rightarrow> node list) \<Rightarrow> node \<Rightarrow> node \<Rightarrow> bool \<Rightarrow> (node \<rightharpoonup> node) \<Rightarrow> bool" where
  "searched S s t b P \<longleftrightarrow> (\<exists>F V l. search_inv S s t F V P l \<and> (if b then t \<in> set F else F = []))"

lemma searched_reachable: "searched S s t b P \<Longrightarrow> b \<longleftrightarrow> (s, t) \<in> (edge_rel S)\<^sup>*"
  unfolding searched_def using visited_reachable search_exhausted(1) search_invD(3)
  by (metis subsetD)

lemma searched_path:
  assumes "searched S s t b P"
  shows "\<exists>p. path_to P s t = Some p \<and> (if b then walk S s t p \<and> distinct p else p = [])"
proof -
  from assms obtain F V l where inv: "search_inv S s t F V P l" and F: "if b then t \<in> set F else F = []"
    unfolding searched_def by blast
  note d = search_invD [OF inv]
  show ?thesis
  proof (cases b)
    case True
    with F d(3) have "t \<in> V" by auto
    from rebuild_visited [OF inv this, of "[]"] obtain p where
      p: "rebuild P s [t] = Some p" "walk S s t p" "distinct p" by auto
    then have "path_to P s t = Some p" by (simp add: path_to_def walk_def)
    with p True show ?thesis by simp
  next
    case False
    with F have "F = []" by simp
    with inv have "t \<notin> V" by (auto dest: search_exhausted)
    with d(1,6) have "t \<noteq> s" "P t = None" by auto
    then have "rebuild P s [t] = Some [t]" by (simp add: rebuild.simps)
    with False \<open>t \<noteq> s\<close> show ?thesis by (simp add: path_to_def)
  qed
qed

end
