(* ===== verification/Digraph_Search.thy ===== *)
theory Digraph_Search
  imports Digraph
begin

text \<open>
  Correctness of the searches on \<open>legacy_graph::Digraph\<close>: both decide reachability and rebuild a walk;
  Dijkstra's only when every node has an entry of its own in the adjacency list.
\<close>

lemma searched_found: "search_inv S s t F V P l \<Longrightarrow> t \<in> set F \<Longrightarrow> \<exists>b. searched S s t b P"
  by (intro exI [of _ True]) (auto simp: searched_def)

lemma searched_none: "search_inv S s t [] V P l \<Longrightarrow> searched S s t False P"
  by (auto simp: searched_def)

lemma searched_true: "search_inv S s t F V P l \<Longrightarrow> t \<in> set F \<Longrightarrow> searched S s t True P"
  by (auto simp: searched_def)

section \<open>Depth first search\<close>

lemma fold_push_new:
  "fold push_new ss (F, V) = (rev (discover ss V) @ F, V \<union> set ss)"
  by (induction ss V arbitrary: F rule: discover.induct) (auto simp: push_new_def)

lemma fold_push_action:
  "fold (push_action c) ss (F, V, P) =
     (rev (discover ss V) @ F, V \<union> set ss, \<lambda>v. if v \<in> set ss - V then Some c else P v)"
  by (induction ss V arbitrary: F P rule: discover.induct) (auto simp: push_action_def fun_eq_iff)

lemma dfs_expand:
  assumes "search_inv S s t (c # F) V P l" "c \<noteq> t"
  shows "search_inv S s t (rev (discover (S c) V) @ F) (V \<union> set (S c))
    (\<lambda>v. if v \<in> set (S c) - V then Some c else P v) (next_level S c V l)"
  using assms(1)
  by (rule search_inv_expand [where c = c]) (use assms search_invD(2,3) [OF assms(1)] in auto)

lemma dfs_effort:
  assumes "search_inv (successors g) s t (c # F) V P l"
  shows "effort (insert s (nodes_of g)) (rev (discover (successors g c) V) @ F) (V \<union> set (successors g c)) <
    effort (insert s (nodes_of g)) (c # F) V"
  by (rule digraph.effort_expand [OF assms, of c]) simp_all

lemma dfs_exist_loop_correct:
  assumes "search_inv (successors g0) s t F V P l" "successors g = successors g0"
  shows "\<exists>b g' P'. dfs_exist_loop t F V g = Some (b, g') \<and> successors g' = successors g0 \<and>
    searched (successors g0) s t b P'"
  using assms
proof (induction "effort (insert s (nodes_of g0)) F V" arbitrary: F V P l g rule: less_induct)
  case less
  consider "F = []" | F' where "F = t # F'" | c F' where "F = c # F'" "c \<noteq> t" by (cases F) auto
  then show ?case
  proof cases
    case 1
    with less.prems searched_none show ?thesis by (fastforce simp: dfs_exist_loop.simps)
  next
    case 2
    with less.prems searched_true [OF less.prems(1)] show ?thesis by (auto simp: dfs_exist_loop.simps)
  next
    case 3
    obtain g' where g': "get_successors c g = (successors g0 c, g')" "successors g' = successors g0"
      using less.prems(2) by (auto intro: get_successorsE [of c g])
    note inv = less.prems(1) [unfolded 3(1)]
    from less.hyps [OF _ dfs_expand [OF inv 3(2)] g'(2)] dfs_effort [OF inv] g' 3
    show ?thesis by (subst dfs_exist_loop.simps) (simp add: fold_push_new)
  qed
qed

lemma dfs_path_loop_correct:
  assumes "search_inv (successors g0) s t F V P l" "successors g = successors g0"
  shows "\<exists>b g' P'. dfs_path_loop t F V P g = Some (P', g') \<and> successors g' = successors g0 \<and>
    searched (successors g0) s t b P'"
  using assms
proof (induction "effort (insert s (nodes_of g0)) F V" arbitrary: F V P l g rule: less_induct)
  case less
  consider "F = []" | F' where "F = t # F'" | c F' where "F = c # F'" "c \<noteq> t" by (cases F) auto
  then show ?case
  proof cases
    case 1
    with less.prems searched_none show ?thesis by (fastforce simp: dfs_path_loop.simps)
  next
    case 2
    with less.prems searched_found [OF less.prems(1)] show ?thesis by (auto simp: dfs_path_loop.simps)
  next
    case 3
    obtain g' where g': "get_successors c g = (successors g0 c, g')" "successors g' = successors g0"
      using less.prems(2) by (auto intro: get_successorsE [of c g])
    note inv = less.prems(1) [unfolded 3(1)]
    from less.hyps [OF _ dfs_expand [OF inv 3(2)] g'(2)] dfs_effort [OF inv] g' 3
    show ?thesis by (subst dfs_path_loop.simps) (simp add: fold_push_action)
  qed
qed

section \<open>Dijkstra\<close>

text \<open>Every node with an edge to it has an entry, so that no look-up of a distance inserts a 0.\<close>

definition closed_graph :: "digraph \<Rightarrow> bool" where
  "closed_graph g \<longleftrightarrow> (\<forall>(_, ss) \<in> set g. set ss \<subseteq> fst ` set g)"

definition distances_ok :: "digraph \<Rightarrow> queue \<Rightarrow> node set \<Rightarrow> distances \<Rightarrow> (node \<Rightarrow> nat) \<Rightarrow> bool" where
  "distances_ok g q V d l \<longleftrightarrow> (\<forall>(n, x) \<in> set q. x = int (l n)) \<and> (\<forall>v \<in> V. d v = Some (int (l v))) \<and>
     (\<forall>v \<in> fst ` set g - V. d v = Some int_max)"

lemma init_distances_eq:
  "init_distances g n = (if n \<in> fst ` set g then Some int_max else None)"
proof -
  have "visit (\<lambda>n d. case d n of None \<Rightarrow> d(n \<mapsto> int_max) | Some _ \<Rightarrow> d) g d n =
      (if d n \<noteq> None then d n else if n \<in> fst ` set g then Some int_max else None)" for d
    unfolding visit_def by (induction g arbitrary: d) (force split: option.splits)+
  then show ?thesis by (simp add: init_distances_def)
qed

lemma relax_action_new:
  assumes "d c = Some x" "a \<notin> V" "x + 1 < int_max" "d a = Some int_max"
  shows "relax_action c a (q, V, d, P) = (q @ [(a, x + 1)], insert a V, d(a \<mapsto> x + 1), P(a \<mapsto> c))"
    "relax c a (q, V, d) = (q @ [(a, x + 1)], insert a V, d(a \<mapsto> x + 1))"
  using assms by (simp_all add: relax_action_def relax_def distance_at_def Let_def)

lemma relax_action_old:
  "a \<in> V \<Longrightarrow> relax_action c a (q, V, d, P) = (q, V, d, P)" "a \<in> V \<Longrightarrow> relax c a (q, V, d) = (q, V, d)"
  by (simp_all add: relax_action_def relax_def)

lemma fold_relax_action:
  assumes "d c = Some x" "c \<in> V" "x + 1 < int_max" "\<forall>v \<in> set ss - V. d v = Some int_max"
  shows "fold (relax_action c) ss (q, V, d, P) =
    (q @ map (\<lambda>v. (v, x + 1)) (discover ss V), V \<union> set ss,
     (\<lambda>v. if v \<in> set ss - V then Some (x + 1) else d v),
     (\<lambda>v. if v \<in> set ss - V then Some c else P v))"
  using assms
proof (induction ss V arbitrary: q d P rule: discover.induct)
  case (2 a ss V)
  show ?case
  proof (cases "a \<in> V")
    case True
    with 2 show ?thesis by (auto simp: relax_action_old insert_absorb)
  next
    case False
    with 2 have "fold (relax_action c) ss (q @ [(a, x + 1)], insert a V, d(a \<mapsto> x + 1), P(a \<mapsto> c)) =
      ((q @ [(a, x + 1)]) @ map (\<lambda>v. (v, x + 1)) (discover ss (insert a V)), insert a V \<union> set ss,
       (\<lambda>v. if v \<in> set ss - insert a V then Some (x + 1) else (d(a \<mapsto> x + 1)) v),
       (\<lambda>v. if v \<in> set ss - insert a V then Some c else (P(a \<mapsto> c)) v))"
      by (intro "2.IH") auto
    with False 2 show ?thesis by (auto simp: relax_action_new [of d c x] fun_eq_iff)
  qed
qed simp

lemma fold_relax:
  assumes "d c = Some x" "c \<in> V" "x + 1 < int_max" "\<forall>v \<in> set ss - V. d v = Some int_max"
  shows "fold (relax c) ss (q, V, d) =
    (q @ map (\<lambda>v. (v, x + 1)) (discover ss V), V \<union> set ss,
     (\<lambda>v. if v \<in> set ss - V then Some (x + 1) else d v))"
  using assms
proof (induction ss V arbitrary: q d rule: discover.induct)
  case (2 a ss V)
  show ?case
  proof (cases "a \<in> V")
    case True
    with 2 show ?thesis by (auto simp: relax_action_old insert_absorb)
  next
    case False
    with 2 have "fold (relax c) ss (q @ [(a, x + 1)], insert a V, d(a \<mapsto> x + 1)) =
      ((q @ [(a, x + 1)]) @ map (\<lambda>v. (v, x + 1)) (discover ss (insert a V)), insert a V \<union> set ss,
       (\<lambda>v. if v \<in> set ss - insert a V then Some (x + 1) else (d(a \<mapsto> x + 1)) v))"
      by (intro "2.IH") auto
    with False 2 show ?thesis by (auto simp: relax_action_new [of d c x] fun_eq_iff)
  qed
qed simp

lemma pop_at_props:
  assumes "i < length q"
  shows "map f (pop_at i q) = pop_at i (map f q)" "length (pop_at i q) = length q - 1"
    "distinct q \<Longrightarrow> distinct (pop_at i q) \<and> set (pop_at i q) = set q - {q ! i}"
    "set (pop_at i q) \<subseteq> set q"
proof -
  show "map f (pop_at i q) = pop_at i (map f q)" by (simp add: pop_at_def take_map drop_map)
  show "length (pop_at i q) = length q - 1" using assms by (simp add: pop_at_def)
  have q: "q = take i q @ q ! i # drop (i + 1) q" using assms by (simp add: id_take_nth_drop)
  show "set (pop_at i q) \<subseteq> set q" by (auto simp: pop_at_def dest: in_set_takeD in_set_dropD)
  assume "distinct q"
  then have "distinct (take i q @ q ! i # drop (i + 1) q)" using q by simp
  moreover have "set q = insert (q ! i) (set (take i q) \<union> set (drop (i + 1) q))"
    by (subst q) simp
  ultimately show "distinct (pop_at i q) \<and> set (pop_at i q) = set q - {q ! i}"
    by (auto simp: pop_at_def)
qed

text \<open>The state of the loop, and its next state when it expands the element picked.\<close>

definition dijkstra_inv :: "digraph \<Rightarrow> node \<Rightarrow> node \<Rightarrow> queue \<Rightarrow> node set \<Rightarrow> distances \<Rightarrow> (node \<rightharpoonup> node) \<Rightarrow> (node \<Rightarrow> nat) \<Rightarrow> bool" where
  "dijkstra_inv g s t q V d P l \<longleftrightarrow>
     search_inv (successors g) s t (map fst q) V P l \<and> distances_ok g q V d l"

lemma dijkstra_inv_start: "dijkstra_inv g s t [(s, 0)] {s} ((init_distances g)(s \<mapsto> 0)) [s \<mapsto> s] (\<lambda>_. 0)"
  by (simp add: dijkstra_inv_def search_inv_start distances_ok_def init_distances_eq)

lemma closed_nodes_card:
  assumes "closed_graph g"
  shows "nodes_of g = fst ` set g" "card (insert s (nodes_of g)) \<le> length g + 1"
proof -
  show *: "nodes_of g = fst ` set g" using assms by (force simp: closed_graph_def nodes_of_def)
  have "card (nodes_of g) \<le> length g"
    unfolding * using card_image_le [of "set g" fst] card_length [of g] by simp
  then show "card (insert s (nodes_of g)) \<le> length g + 1"
    by (simp add: card_insert_if)
qed

lemma dijkstra_picked:
  assumes inv: "dijkstra_inv g s t q V d P l" and i: "i < length q" "q ! i = (c, x)"
  shows "c \<in> V" "x = int (l c)" "d c = Some x" "distance_at d c = (x, d)"
proof -
  from i have m: "(c, x) \<in> set q" by (auto simp: in_set_conv_nth)
  with inv search_invD(3) show c: "c \<in> V" unfolding dijkstra_inv_def by fastforce
  from inv m show x: "x = int (l c)" by (auto simp: dijkstra_inv_def distances_ok_def)
  with inv c show "d c = Some x" by (auto simp: dijkstra_inv_def distances_ok_def)
  then show "distance_at d c = (x, d)" by (simp add: distance_at_def)
qed

lemma dijkstra_room:
  assumes inv: "dijkstra_inv g s t q V d P l" and c: "c \<in> V"
    and g: "closed_graph g" "int (length g) + 1 < int_max"
  shows "int (l c) + 1 < int_max" "\<forall>v \<in> set (successors g c) - V. d v = Some int_max"
proof -
  from inv have "l c < card (insert s (nodes_of g))"
    unfolding dijkstra_inv_def using digraph.level_bound c by blast
  with closed_nodes_card(2) [OF g(1), of s] g(2) show "int (l c) + 1 < int_max" by linarith
  have "set (successors g c) \<subseteq> fst ` set g"
    using successors_nodes [of g c] closed_nodes_card(1) [OF g(1)] by simp
  moreover have "\<forall>v \<in> fst ` set g - V. d v = Some int_max"
    using inv by (simp add: dijkstra_inv_def distances_ok_def)
  ultimately show "\<forall>v \<in> set (successors g c) - V. d v = Some int_max" by blast
qed

lemma dijkstra_inv_expand:
  assumes inv: "dijkstra_inv g s t q V d P l" and i: "i < length q" "q ! i = (c, x)" "c \<noteq> t"
  shows "dijkstra_inv g s t (pop_at i q @ map (\<lambda>v. (v, x + 1)) (discover (successors g c) V))
      (V \<union> set (successors g c)) (\<lambda>v. if v \<in> set (successors g c) - V then Some (x + 1) else d v)
      (\<lambda>v. if v \<in> set (successors g c) - V then Some c else P v) (next_level (successors g) c V l)"
    and "effort (insert s (nodes_of g))
        (map fst (pop_at i q @ map (\<lambda>v. (v, x + 1)) (discover (successors g c) V)))
        (V \<union> set (successors g c)) < effort (insert s (nodes_of g)) (map fst q) V"
proof -
  from inv have si: "search_inv (successors g) s t (map fst q) V P l" and ok: "distances_ok g q V d l"
    by (simp_all add: dijkstra_inv_def)
  note p = dijkstra_picked [OF inv i(1,2)] and d = search_invD [OF si]
  have i': "i < length (map fst q)" "map fst q ! i = c" using i by auto
  then have c: "c \<in> set (map fst q)" using nth_mem by blast
  note pop = pop_at_props(3) [OF i'(1) d(2)] 
  have F': "map fst (pop_at i q @ map (\<lambda>v. (v, x + 1)) (discover (successors g c) V)) =
      pop_at i (map fst q) @ discover (successors g c) V"
    using pop_at_props(1) [OF i(1), of fst] by (simp add: comp_def)
  have "search_inv (successors g) s t (pop_at i (map fst q) @ discover (successors g c) V)
      (V \<union> set (successors g c)) (\<lambda>v. if v \<in> set (successors g c) - V then Some c else P v)
      (next_level (successors g) c V l)"
    by (rule search_inv_expand [OF si c i(3)]) (use pop d(3) i'(2) in auto)
  moreover have "distances_ok g (pop_at i q @ map (\<lambda>v. (v, x + 1)) (discover (successors g c) V))
      (V \<union> set (successors g c)) (\<lambda>v. if v \<in> set (successors g c) - V then Some (x + 1) else d v)
      (next_level (successors g) c V l)"
  proof -
    have "y = int (next_level (successors g) c V l n)"
      if "(n, y) \<in> set (pop_at i q @ map (\<lambda>v. (v, x + 1)) (discover (successors g c) V))" for n y
    proof -
      from that consider "(n, y) \<in> set q" | "n \<in> set (successors g c) - V" "y = x + 1"
        using pop_at_props(4) [OF i(1)] by auto
      then show ?thesis
      proof cases
        case 1
        with d(3) have "n \<in> V" by force
        with 1 ok show ?thesis by (auto simp: distances_ok_def)
      next
        case 2
        with p show ?thesis by simp
      qed
    qed
    moreover have "(if v \<in> set (successors g c) - V then Some (x + 1) else d v) =
        Some (int (next_level (successors g) c V l v))" if "v \<in> V \<union> set (successors g c)" for v
      using that ok p by (auto simp: distances_ok_def)
    moreover have "(if v \<in> set (successors g c) - V then Some (x + 1) else d v) = Some int_max"
      if "v \<in> fst ` set g - (V \<union> set (successors g c))" for v
      using that ok unfolding distances_ok_def by simp
    ultimately show ?thesis unfolding distances_ok_def by blast
  qed
  ultimately show "dijkstra_inv g s t (pop_at i q @ map (\<lambda>v. (v, x + 1)) (discover (successors g c) V))
      (V \<union> set (successors g c)) (\<lambda>v. if v \<in> set (successors g c) - V then Some (x + 1) else d v)
      (\<lambda>v. if v \<in> set (successors g c) - V then Some c else P v) (next_level (successors g) c V l)"
    unfolding dijkstra_inv_def F' by blast
  show "effort (insert s (nodes_of g))
        (map fst (pop_at i q @ map (\<lambda>v. (v, x + 1)) (discover (successors g c) V)))
        (V \<union> set (successors g c)) < effort (insert s (nodes_of g)) (map fst q) V"
    unfolding F' by (rule digraph.effort_expand [OF si c]) (simp add: pop_at_props(2) [OF i'(1)])
qed

lemma dijkstra_exist_loop_correct:
  assumes "picks_max pick" "closed_graph g0" "int (length g0) + 1 < int_max"
    and "dijkstra_inv g0 s t q V d P l" "successors g = successors g0"
  shows "\<exists>b g' P'. dijkstra_exist_loop pick t q V d g = Some (b, g') \<and> successors g' = successors g0 \<and>
    searched (successors g0) s t b P'"
  using assms(4,5)
proof (induction "effort (insert s (nodes_of g0)) (map fst q) V" arbitrary: q V d P l g rule: less_induct)
  case less
  have si: "search_inv (successors g0) s t (map fst q) V P l" using less.prems(1) by (simp add: dijkstra_inv_def)
  show ?case
  proof (cases "q = []")
    case True
    with si less.prems(2) searched_none show ?thesis by (fastforce simp: dijkstra_exist_loop.simps)
  next
    case False
    with assms(1) have i: "pick q < length q" by (simp add: picks_max_def)
    obtain c x where cx: "q ! pick q = (c, x)" by force
    note p = dijkstra_picked [OF less.prems(1) i cx]
    show ?thesis
    proof (cases "c = t")
      case True
      with cx i have "t \<in> set (map fst q)" by (metis fst_conv length_map nth_map nth_mem)
      from searched_true [OF si this] True False cx less.prems(2) show ?thesis
        by (auto simp: dijkstra_exist_loop.simps)
    next
      case neq: False
      obtain g' where g': "get_successors c g = (successors g0 c, g')" "successors g' = successors g0"
        using less.prems(2) by (auto intro: get_successorsE [of c g])
      note room = dijkstra_room [OF less.prems(1) p(1) assms(2,3)]
      note expanded = dijkstra_inv_expand [OF less.prems(1) i cx neq]
      from less.hyps [OF expanded(2,1) g'(2)] show ?thesis
        using False cx neq p g'(1) fold_relax [of d c x V "successors g0 c" "pop_at (pick q) q", OF p(3,1)] room p(2)
        by (subst dijkstra_exist_loop.simps) simp
    qed
  qed
qed

lemma dijkstra_path_loop_correct:
  assumes "picks_max pick" "closed_graph g0" "int (length g0) + 1 < int_max"
    and "dijkstra_inv g0 s t q V d P l" "successors g = successors g0"
  shows "\<exists>b g' P'. dijkstra_path_loop pick t q V d P g = Some (P', g') \<and> successors g' = successors g0 \<and>
    searched (successors g0) s t b P'"
  using assms(4,5)
proof (induction "effort (insert s (nodes_of g0)) (map fst q) V" arbitrary: q V d P l g rule: less_induct)
  case less
  have si: "search_inv (successors g0) s t (map fst q) V P l" using less.prems(1) by (simp add: dijkstra_inv_def)
  show ?case
  proof (cases "q = []")
    case True
    with si less.prems(2) searched_none show ?thesis by (fastforce simp: dijkstra_path_loop.simps)
  next
    case False
    with assms(1) have i: "pick q < length q" by (simp add: picks_max_def)
    obtain c x where cx: "q ! pick q = (c, x)" by force
    note p = dijkstra_picked [OF less.prems(1) i cx]
    show ?thesis
    proof (cases "c = t")
      case True
      with cx i have "t \<in> set (map fst q)" by (metis fst_conv length_map nth_map nth_mem)
      from searched_found [OF si this] True False cx less.prems(2) show ?thesis
        by (auto simp: dijkstra_path_loop.simps)
    next
      case neq: False
      obtain g' where g': "get_successors c g = (successors g0 c, g')" "successors g' = successors g0"
        using less.prems(2) by (auto intro: get_successorsE [of c g])
      note room = dijkstra_room [OF less.prems(1) p(1) assms(2,3)]
      note expanded = dijkstra_inv_expand [OF less.prems(1) i cx neq]
      from less.hyps [OF expanded(2,1) g'(2)] show ?thesis
        using False cx neq p g'(1) fold_relax_action [of d c x V "successors g0 c" "pop_at (pick q) q" P, OF p(3,1)] room p(2)
        by (subst dijkstra_path_loop.simps) simp
    qed
  qed
qed

section \<open>Properties\<close>

text \<open>
  C30: depth first search on any directed graph returns, decides whether the target is reachable from
  the source, and when it is, \<open>ShortestPath\<close> gives a walk without repetitions from one to the other
  (otherwise the empty path); the look-ups of successors change no edge of the graph.
\<close>

theorem dfs_correct:
  "\<exists>b g1 p g2. dfs_is_path_exist g s t = Some (b, g1) \<and> dfs_shortest_path g s t = Some (p, g2) \<and>
     (b \<longleftrightarrow> (s, t) \<in> (edge_rel (successors g))\<^sup>*) \<and>
     (if b then walk (successors g) s t p \<and> distinct p else p = []) \<and>
     successors g1 = successors g \<and> successors g2 = successors g"
proof -
  note start = search_inv_start [of "successors g" s t]
  from dfs_exist_loop_correct [OF start refl] obtain b g1 P1 where
    e: "dfs_exist_loop t [s] {s} g = Some (b, g1)" "successors g1 = successors g" "searched (successors g) s t b P1"
    by auto
  from dfs_path_loop_correct [OF start refl] obtain b' g2 P where
    p: "dfs_path_loop t [s] {s} [s \<mapsto> s] g = Some (P, g2)" "successors g2 = successors g" "searched (successors g) s t b' P"
    by blast
  note b = searched_reachable [OF e(3)] searched_reachable [OF p(3)]
  from searched_path [OF p(3)] e p b show ?thesis
    by (auto simp: dfs_is_path_exist_def dfs_shortest_path_def)
qed

text \<open>
  C29: Dijkstra's search, however the priority queue orders equal distances, returns, decides
  reachability and gives a walk without repetitions, on every graph in which each node with an edge to it has
  an entry in the adjacency list and the distances fit an \<open>int\<close>.
\<close>

theorem dijkstra_correct:
  assumes "picks_max pick" "closed_graph g" "int (length g) + 1 < int_max"
  shows "\<exists>b g1 p g2. dijkstra_is_path_exist pick g s t = Some (b, g1) \<and>
     dijkstra_shortest_path pick g s t = Some (p, g2) \<and>
     (b \<longleftrightarrow> (s, t) \<in> (edge_rel (successors g))\<^sup>*) \<and>
     (if b then walk (successors g) s t p \<and> distinct p else p = []) \<and>
     successors g1 = successors g \<and> successors g2 = successors g"
proof -
  note start = dijkstra_inv_start [of g s t]
  from dijkstra_exist_loop_correct [OF assms start refl] obtain b g1 P1 where
    e: "dijkstra_is_path_exist pick g s t = Some (b, g1)" "successors g1 = successors g"
      "searched (successors g) s t b P1"
    unfolding dijkstra_is_path_exist_def by auto
  from dijkstra_path_loop_correct [OF assms start refl] obtain b' g2 P where
    p: "dijkstra_path_loop pick t [(s, 0)] {s} ((init_distances g)(s \<mapsto> 0)) [s \<mapsto> s] g = Some (P, g2)"
      "successors g2 = successors g" "searched (successors g) s t b' P"
    by blast
  note b = searched_reachable [OF e(3)] searched_reachable [OF p(3)]
  from searched_path [OF p(3)] e p b show ?thesis
    by (auto simp: dijkstra_shortest_path_def)
qed

text \<open>One priority queue: the first of the greatest elements.\<close>

fun first_max :: "queue \<Rightarrow> nat" where
  "first_max [] = 0"
| "first_max [x] = 0"
| "first_max (x # xs) = (let i = first_max xs in if snd (xs ! i) \<le> snd x then 0 else i + 1)"

lemma first_max_picks: "picks_max first_max"
proof -
  have "first_max q < length q \<and> (\<forall>x \<in> set q. snd x \<le> snd (q ! first_max q))" if "q \<noteq> []" for q
    using that by (induction q rule: first_max.induct) (auto simp: Let_def)
  then show ?thesis by (simp add: picks_max_def)
qed

theorem dijkstra_correct_witness:
  "\<exists>b g1 p g2. dijkstra_is_path_exist first_max [(0, [1]), (1, [])] 0 1 = Some (b, g1) \<and>
     dijkstra_shortest_path first_max [(0, [1]), (1, [])] 0 1 = Some (p, g2) \<and>
     (b \<longleftrightarrow> (0, 1) \<in> (edge_rel (successors [(0, [1]), (1, [])]))\<^sup>*) \<and>
     (if b then walk (successors [(0, [1]), (1, [])]) 0 1 p \<and> distinct p else p = []) \<and>
     successors g1 = successors [(0, [1]), (1, [])] \<and> successors g2 = successors [(0, [1]), (1, [])]"
  by (rule dijkstra_correct [OF first_max_picks]) (simp_all add: closed_graph_def int_max_def)

text \<open>
  Dijkstra's search misses a target without outgoing edges: \<open>distances\<close> has no entry for it, the
  look-up inserts 0, and no distance is smaller. And with the greatest distance first it is not a shortest
  path search: for edges 0-1, 0-2, 1-4, 2-3, 3-4, 4-0 it may return 0, 2, 3, 4 instead of 0, 1, 4.
\<close>

theorem dijkstra_defects:
  "fst (the (dijkstra_is_path_exist first_max (add_edge 0 1 []) 0 1)) = False \<and>
   fst (the (dfs_is_path_exist (add_edge 0 1 []) 0 1)) = True \<and>
   fst (the (dijkstra_shortest_path first_max [(0, [2, 1]), (1, [4]), (2, [3]), (3, [4]), (4, [0])] 0 4)) = [0, 2, 3, 4] \<and>
   walk (successors [(0, [2, 1]), (1, [4]), (2, [3]), (3, [4]), (4, [0])]) 0 4 [0, 1, 4]"
  by (intro conjI) (code_simp | simp add: walk_def successors_def)+

end
