(* ===== verification/Directed_Graph.thy ===== *)
theory Directed_Graph
  imports Graph_Search
begin

text \<open>
  \<open>directed_graph\<close> (\<open>container/graph/directed_graph.hpp\<close>) and breadth first search on it
  (\<open>algorithm/detail/breadth_first_search-inl.hpp\<close>). Proxies are allocated on the heap, so the graph holds
  one list of node proxies and one of edge proxies, a pointer is a position in one of them, and an
  iterator is a pointer that may be null. The keys come from a specialisation of
  \<open>directed_graph_semantic\<close> that the client writes: two functions here.
\<close>

type_synonym ptr = nat

datatype graph_error = Loops_Not_Supported

record 'n proxy_node =
  node :: 'n
  out_edges :: "ptr list"

record 'e proxy_edge =
  edge :: 'e
  edge_from :: ptr
  edge_to :: "ptr option"

record ('n, 'e, 'nk, 'ek) directed_graph =
  node_heap :: "'n proxy_node list"
  edge_heap :: "'e proxy_edge list"
  nodes :: "('nk \<times> ptr) list"
  edges :: "('ek \<times> ptr) list"

definition empty_graph :: "('n, 'e, 'nk, 'ek) directed_graph" where
  "empty_graph = \<lparr>node_heap = [], edge_heap = [], nodes = [], edges = []\<rparr>"

definition insert_node :: "('n \<Rightarrow> 'nk) \<Rightarrow> 'n \<Rightarrow> ('n, 'e, 'nk, 'ek) directed_graph \<Rightarrow>
    (ptr option \<times> bool) \<times> ('n, 'e, 'nk, 'ek) directed_graph" where
  "insert_node node_key n g =
     (case map_of (nodes g) (node_key n) of
        Some p \<Rightarrow> ((Some p, False), g)
      | None \<Rightarrow>
          (let p = length (node_heap g)
           in ((Some p, True),
               g\<lparr>node_heap := node_heap g @ [\<lparr>node = n, out_edges = []\<rparr>], nodes := (node_key n, p) # nodes g\<rparr>)))"

definition get_node :: "'nk \<Rightarrow> ('n, 'e, 'nk, 'ek) directed_graph \<Rightarrow> ptr option" where
  "get_node key g = map_of (nodes g) key"

text \<open>
  The outer option is the dereference of a null \<open>from\<close>; \<open>to\<close> is only stored.
\<close>

definition insert_direct_edge :: "('e \<Rightarrow> 'ek) \<Rightarrow> ptr option \<Rightarrow> ptr option \<Rightarrow> 'e \<Rightarrow>
    ('n, 'e, 'nk, 'ek) directed_graph \<Rightarrow>
    (graph_error + ((ptr option \<times> bool) \<times> ('n, 'e, 'nk, 'ek) directed_graph)) option" where
  "insert_direct_edge edge_key from_node to_node e g =
     (if from_node = to_node then Some (Inl Loops_Not_Supported)
      else case map_of (edges g) (edge_key e) of
        Some p \<Rightarrow> Some (Inr ((Some p, False), g))
      | None \<Rightarrow>
          do { f \<leftarrow> from_node;
               let p = length (edge_heap g);
               Some (Inr ((Some p, True),
                 g\<lparr>edge_heap := edge_heap g @ [\<lparr>edge = e, edge_from = f, edge_to = to_node\<rparr>],
                   node_heap := (node_heap g)[f := (node_heap g ! f)\<lparr>out_edges := out_edges (node_heap g ! f) @ [p]\<rparr>],
                   edges := (edge_key e, p) # edges g\<rparr>)) })"

definition get_edge :: "'ek \<Rightarrow> ('n, 'e, 'nk, 'ek) directed_graph \<Rightarrow> ptr option" where
  "get_edge key g = map_of (edges g) key"

section \<open>Breadth first search\<close>

text \<open>
  The loop over \<open>considered->edges\<close>; \<open>visited.emplace\<close> of a null iterator would hash the key of a null
  node.
\<close>

fun scan_edges :: "('n, 'e, 'nk, 'ek) directed_graph \<Rightarrow> ptr \<Rightarrow> ptr list \<Rightarrow>
    ptr list \<times> ptr set \<times> (ptr \<rightharpoonup> ptr) \<Rightarrow> (ptr list \<times> ptr set \<times> (ptr \<rightharpoonup> ptr)) option" where
  "scan_edges g considered [] st = Some st"
| "scan_edges g considered (e # es) (processing, visited, possible_actions) =
     do { to_node \<leftarrow> edge_to (edge_heap g ! e);
          scan_edges g considered es
            (if to_node \<in> visited then (processing, visited, possible_actions)
             else (processing @ [to_node], insert to_node visited, possible_actions(to_node \<mapsto> considered))) }"

partial_function (option) bfs_loop :: "('n, 'e, 'nk, 'ek) directed_graph \<Rightarrow> ptr option \<Rightarrow>
    ptr list \<Rightarrow> ptr set \<Rightarrow> (ptr \<rightharpoonup> ptr) \<Rightarrow> (bool \<times> (ptr \<rightharpoonup> ptr)) option" where
  "bfs_loop g destination_node processing visited possible_actions =
     (case processing of
        [] \<Rightarrow> Some (False, possible_actions)
      | considered # rest \<Rightarrow>
          if Some considered = destination_node then Some (True, possible_actions)
          else do {
            (processing', visited', possible_actions') \<leftarrow>
              scan_edges g considered (out_edges (node_heap g ! considered)) (rest, visited, possible_actions);
            bfs_loop g destination_node processing' visited' possible_actions' })"

declare bfs_loop.simps [code]

text \<open>A null source is dereferenced when it is put into the hash map.\<close>

definition bfs :: "('n, 'e, 'nk, 'ek) directed_graph \<Rightarrow> 'nk \<Rightarrow> 'nk \<Rightarrow> ptr list option" where
  "bfs g source destination =
     do { source_node \<leftarrow> get_node source g;
          let destination_node = get_node destination g;
          (found, possible_actions) \<leftarrow>
            bfs_loop g destination_node [source_node] {source_node} [source_node \<mapsto> source_node];
          if \<not> found then Some []
          else do { d \<leftarrow> destination_node; rebuild possible_actions source_node [d] } }"

section \<open>Well-formed graphs\<close>

text \<open>
  The indices name each proxy once, under its key; a node's edges lead from it to a node of the graph.
\<close>

definition indexed :: "('k \<times> ptr) list \<Rightarrow> 'k list \<Rightarrow> bool" where
  "indexed idx ks \<longleftrightarrow> (\<forall>k i. map_of idx k = Some i \<longleftrightarrow> i < length ks \<and> ks ! i = k)"

definition node_keys :: "('n \<Rightarrow> 'nk) \<Rightarrow> ('n, 'e, 'nk, 'ek) directed_graph \<Rightarrow> 'nk list" where
  "node_keys node_key g = map (node_key \<circ> node) (node_heap g)"

definition edge_keys :: "('e \<Rightarrow> 'ek) \<Rightarrow> ('n, 'e, 'nk, 'ek) directed_graph \<Rightarrow> 'ek list" where
  "edge_keys edge_key g = map (edge_key \<circ> edge) (edge_heap g)"

definition links_ok :: "('n, 'e, 'nk, 'ek) directed_graph \<Rightarrow> bool" where
  "links_ok g \<longleftrightarrow>
     (\<forall>p < length (node_heap g). \<forall>e \<in> set (out_edges (node_heap g ! p)).
        e < length (edge_heap g) \<and> edge_from (edge_heap g ! e) = p) \<and>
     (\<forall>e < length (edge_heap g). edge_from (edge_heap g ! e) < length (node_heap g) \<and>
        (\<exists>q < length (node_heap g). edge_to (edge_heap g ! e) = Some q \<and> q \<noteq> edge_from (edge_heap g ! e)))"

definition graph_ok :: "('n \<Rightarrow> 'nk) \<Rightarrow> ('e \<Rightarrow> 'ek) \<Rightarrow> ('n, 'e, 'nk, 'ek) directed_graph \<Rightarrow> bool" where
  "graph_ok node_key edge_key g \<longleftrightarrow>
     indexed (nodes g) (node_keys node_key g) \<and> indexed (edges g) (edge_keys edge_key g) \<and> links_ok g"

text \<open>The successors of a node.\<close>

definition next_nodes :: "('n, 'e, 'nk, 'ek) directed_graph \<Rightarrow> ptr \<Rightarrow> ptr list" where
  "next_nodes g p =
     (if p < length (node_heap g)
      then map (\<lambda>e. the (edge_to (edge_heap g ! e))) (out_edges (node_heap g ! p)) else [])"

lemma indexed_snoc:
  assumes "indexed idx ks" "map_of idx k = None"
  shows "indexed ((k, length ks) # idx) (ks @ [k])"
proof -
  have new: "k \<notin> set ks"
    using assms unfolding indexed_def by (metis in_set_conv_nth option.distinct(1))
  show ?thesis
    unfolding indexed_def
  proof (intro allI)
    fix k' i
    show "map_of ((k, length ks) # idx) k' = Some i \<longleftrightarrow> i < length (ks @ [k]) \<and> (ks @ [k]) ! i = k'"
      using assms(1) new unfolding indexed_def
      by (cases "i = length ks") (auto simp: nth_append dest: nth_mem)
  qed
qed

lemma empty_graph_ok: "graph_ok node_key edge_key empty_graph"
  by (simp add: graph_ok_def empty_graph_def indexed_def links_ok_def node_keys_def edge_keys_def)

lemma get_node_bound:
  assumes "graph_ok node_key edge_key g" "get_node k g = Some p"
  shows "p < length (node_heap g)" "node_key (node (node_heap g ! p)) = k"
  using assms by (auto simp: graph_ok_def get_node_def indexed_def node_keys_def)

lemma insert_node_ok:
  assumes ok: "graph_ok node_key edge_key g"
  shows "\<exists>p g'. insert_node node_key n g = ((Some p, get_node (node_key n) g = None), g') \<and>
    graph_ok node_key edge_key g' \<and> next_nodes g' = next_nodes g \<and>
    get_node (node_key n) g' = Some p \<and> (\<forall>k. k \<noteq> node_key n \<longrightarrow> get_node k g' = get_node k g)"
proof (cases "map_of (nodes g) (node_key n)")
  case None
  let ?g = "g\<lparr>node_heap := node_heap g @ [\<lparr>node = n, out_edges = []\<rparr>],
    nodes := (node_key n, length (node_heap g)) # nodes g\<rparr>"
  from ok None have "indexed (nodes ?g) (node_keys node_key ?g)"
    using indexed_snoc [of "nodes g" "node_keys node_key g" "node_key n"]
    by (simp add: graph_ok_def node_keys_def)
  moreover have "links_ok ?g"
    using ok unfolding graph_ok_def links_ok_def by (auto simp: nth_append less_Suc_eq)
  ultimately have "graph_ok node_key edge_key ?g" using ok by (simp add: graph_ok_def edge_keys_def)
  moreover have "next_nodes ?g = next_nodes g" by (auto simp: next_nodes_def fun_eq_iff nth_append)
  ultimately show ?thesis using None by (simp add: insert_node_def get_node_def Let_def)
next
  case (Some p)
  with ok show ?thesis by (simp add: insert_node_def get_node_def)
qed

lemma insert_edge_ok:
  assumes ok: "graph_ok node_key edge_key g"
    and f: "f < length (node_heap g)" and t: "t < length (node_heap g)" "f \<noteq> t"
    and new: "get_edge (edge_key e) g = None"
  shows "\<exists>p g'. insert_direct_edge edge_key (Some f) (Some t) e g = Some (Inr ((Some p, True), g')) \<and>
    graph_ok node_key edge_key g' \<and> next_nodes g' = (next_nodes g)(f := next_nodes g f @ [t]) \<and>
    get_edge (edge_key e) g' = Some p \<and> (\<forall>k. get_node k g' = get_node k g)"
proof -
  let ?p = "length (edge_heap g)"
  let ?g = "g\<lparr>edge_heap := edge_heap g @ [\<lparr>edge = e, edge_from = f, edge_to = Some t\<rparr>],
    node_heap := (node_heap g)[f := (node_heap g ! f)\<lparr>out_edges := out_edges (node_heap g ! f) @ [?p]\<rparr>],
    edges := (edge_key e, ?p) # edges g\<rparr>"
  have links: "links_ok g" using ok by (simp add: graph_ok_def)
  have "indexed (edges ?g) (edge_keys edge_key ?g)"
    using ok new indexed_snoc [of "edges g" "edge_keys edge_key g" "edge_key e"]
    by (simp add: graph_ok_def edge_keys_def get_edge_def)
  moreover have "node_keys node_key ?g = node_keys node_key g"
    by (simp add: node_keys_def map_update, rule list_update_same_conv [THEN iffD2]) (simp_all add: f)
  moreover have "links_ok ?g"
    using links f t unfolding links_ok_def
    by (auto simp: nth_append nth_list_update less_Suc_eq split: if_splits)
  ultimately have "graph_ok node_key edge_key ?g" using ok by (simp add: graph_ok_def)
  moreover have "next_nodes ?g = (next_nodes g)(f := next_nodes g f @ [t])"
  proof
    fix p
    have "e' < ?p" if "p < length (node_heap g)" "e' \<in> set (out_edges (node_heap g ! p))" for e'
      using links that unfolding links_ok_def by blast
    then show "next_nodes ?g p = ((next_nodes g)(f := next_nodes g f @ [t])) p"
      using f by (auto simp: next_nodes_def nth_append nth_list_update)
  qed
  moreover have "insert_direct_edge edge_key (Some f) (Some t) e g = Some (Inr ((Some ?p, True), ?g))"
    using new t by (simp add: insert_direct_edge_def get_edge_def Let_def)
  ultimately show ?thesis by (auto simp: get_edge_def get_node_def)
qed

section \<open>The search\<close>

lemma next_nodes_closed: "links_ok g \<Longrightarrow> set (next_nodes g p) \<subseteq> {..<length (node_heap g)}"
  unfolding links_ok_def next_nodes_def by fastforce

lemma scan_edges_eq:
  assumes "\<forall>e \<in> set es. \<exists>q. edge_to (edge_heap g ! e) = Some q"
  shows "scan_edges g c es (F, V, P) =
    (let ss = map (\<lambda>e. the (edge_to (edge_heap g ! e))) es
     in Some (F @ discover ss V, V \<union> set ss, \<lambda>v. if v \<in> set ss - V then Some c else P v))"
  using assms
proof (induction es arbitrary: F V P)
  case (Cons e es)
  then obtain q where q: "edge_to (edge_heap g ! e) = Some q" by auto
  show ?case
  proof (cases "q \<in> V")
    case True
    with q Cons show ?thesis by (auto simp: Let_def insert_absorb)
  next
    case False
    with q Cons show ?thesis by (auto simp: Let_def fun_eq_iff)
  qed
qed (simp add: Let_def)

text \<open>What the loop leaves in every way it can end.\<close>

definition bfs_outcome :: "('n, 'e, 'nk, 'ek) directed_graph \<Rightarrow> ptr \<Rightarrow> ptr \<Rightarrow> (bool \<times> (ptr \<rightharpoonup> ptr)) option \<Rightarrow> bool" where
  "bfs_outcome g s t r \<longleftrightarrow> (\<exists>b P F V l. r = Some (b, P) \<and>
     search_inv (next_nodes g) s t F V P l \<and> layered (next_nodes g) F V l \<and>
     (if b then \<exists>F'. F = t # F' else F = []))"

lemma bfs_loop_correct:
  assumes links: "links_ok g" and s: "s < length (node_heap g)"
    and dest: "\<And>c. c < length (node_heap g) \<Longrightarrow> Some c = dest \<longleftrightarrow> c = t"
    and start: "search_inv (next_nodes g) s t F V P l" "layered (next_nodes g) F V l"
  shows "bfs_outcome g s t (bfs_loop g dest F V P)"
  using start
proof (induction "effort {..<length (node_heap g)} F V" arbitrary: F V P l rule: less_induct)
  case less
  have space: "search_space (next_nodes g) s {..<length (node_heap g)}"
    using s next_nodes_closed [OF links] by unfold_locales auto
  note d = search_invD [OF less.prems(1)]
  have nodes: "set F \<subseteq> {..<length (node_heap g)}"
    using search_space.visited_nodes [OF space less.prems(1)] d(3) by blast
  consider "F = []" | F' where "F = t # F'" | c F' where "F = c # F'" "c \<noteq> t" by (cases F) auto
  then show ?case
  proof cases
    case 1
    with less.prems show ?thesis unfolding bfs_outcome_def by (fastforce simp: bfs_loop.simps)
  next
    case 2
    with nodes dest [of t] have "Some t = dest" by auto
    with 2 less.prems show ?thesis unfolding bfs_outcome_def by (fastforce simp: bfs_loop.simps)
  next
    case 3
    let ?F = "F' @ discover (next_nodes g c) V" and ?V = "V \<union> set (next_nodes g c)"
    let ?P = "\<lambda>v. if v \<in> set (next_nodes g c) - V then Some c else P v"
    from 3 nodes have c: "c < length (node_heap g)" by auto
    have "search_inv (next_nodes g) s t ?F ?V ?P (next_level (next_nodes g) c V l)"
      by (rule search_inv_expand [OF less.prems(1), of c]) (use 3 d(2,3) in auto)
    moreover have "layered (next_nodes g) ?F ?V (next_level (next_nodes g) c V l)"
      using less.prems 3 by (auto intro: layered_expand)
    moreover have "effort {..<length (node_heap g)} ?F ?V < effort {..<length (node_heap g)} F V"
      by (rule search_space.effort_expand [OF space less.prems(1), of c]) (simp_all add: 3)
    ultimately have "bfs_outcome g s t (bfs_loop g dest ?F ?V ?P)"
      by (rule less.hyps [rotated])
    moreover have "\<forall>e \<in> set (out_edges (node_heap g ! c)). \<exists>q. edge_to (edge_heap g ! e) = Some q"
      using links c unfolding links_ok_def by blast
    ultimately show ?thesis
      using 3 c dest [OF c] scan_edges_eq [of "out_edges (node_heap g ! c)" g c F' V P]
      by (subst bfs_loop.simps) (simp add: Let_def next_nodes_def)
  qed
qed

section \<open>Properties\<close>

text \<open>
  C28: breadth first search on a well-formed graph, from a node that is in it, dereferences no null
  pointer and returns: a shortest walk to the destination, without repetitions, when there is one, and the
  empty path when there is none or the destination is no node of the graph.
\<close>

theorem bfs_shortest:
  assumes "graph_ok node_key edge_key g" "get_node source g = Some s"
  shows "\<exists>p. bfs g source destination = Some p \<and>
    (case get_node destination g of
       None \<Rightarrow> p = []
     | Some d \<Rightarrow>
         if (s, d) \<in> (edge_rel (next_nodes g))\<^sup>*
         then walk (next_nodes g) s d p \<and> distinct p \<and> (\<forall>q. walk (next_nodes g) s d q \<longrightarrow> length p \<le> length q)
         else p = [])"
proof -
  define t where "t = (case get_node destination g of None \<Rightarrow> length (node_heap g) | Some d \<Rightarrow> d)"
  have links: "links_ok g" using assms(1) by (simp add: graph_ok_def)
  have s: "s < length (node_heap g)" by (rule get_node_bound [OF assms])
  have dest: "Some c = get_node destination g \<longleftrightarrow> c = t" if "c < length (node_heap g)" for c
    using that by (auto simp: t_def split: option.splits)
  from bfs_loop_correct [OF links s dest search_inv_start layered_start] obtain b P F V l where
    loop: "bfs_loop g (get_node destination g) [s] {s} [s \<mapsto> s] = Some (b, P)"
    and inv: "search_inv (next_nodes g) s t F V P l" "layered (next_nodes g) F V l"
    and F: "if b then \<exists>F'. F = t # F' else F = []"
    unfolding bfs_outcome_def by blast
  show ?thesis
  proof (cases b)
    case False
    with F inv have "(s, t) \<notin> (edge_rel (next_nodes g))\<^sup>*" by (auto dest: search_exhausted)
    with False loop assms(2) show ?thesis by (auto simp: bfs_def t_def split: option.splits)
  next
    case True
    with F obtain F' where F': "F = t # F'" by auto
    with search_invD(3) [OF inv(1)] have tV: "t \<in> V" by auto
    have space: "search_space (next_nodes g) s {..<length (node_heap g)}"
      using s next_nodes_closed [OF links] by unfold_locales auto
    from search_space.visited_nodes [OF space inv(1)] tV dest [of t] have
      t: "get_node destination g = Some t" by auto
    from rebuild_visited [OF inv(1) tV, of "[]"] obtain p where
      p: "rebuild P s [t] = Some p" "walk (next_nodes g) s t p" "length p = l t + 1" "distinct p" by auto
    have "length p \<le> length q" if "walk (next_nodes g) s t q" for q
      using layered_shortest [of "next_nodes g" s t F' V P l q] inv F' that p(3) by simp
    with p t loop True assms(2) walk_reachable [OF p(2)] show ?thesis by (auto simp: bfs_def)
  qed
qed

definition two_nodes :: "(string, int, string, int) directed_graph" where
  "two_nodes = snd (insert_node id ''b'' (snd (insert_node id ''a'' empty_graph)))"

definition one_edge :: "(string, int, string, int) directed_graph" where
  "one_edge = (case insert_direct_edge id (Some 0) (Some 1) 7 two_nodes of Some (Inr (_, g)) \<Rightarrow> g)"

lemma one_edge_ok: "graph_ok id id one_edge"
proof -
  have two: "graph_ok id id two_nodes"
    unfolding two_nodes_def using insert_node_ok empty_graph_ok by (metis snd_conv)
  have len: "length (node_heap two_nodes) = 2" "get_edge (id 7) two_nodes = None"
    by (simp_all add: two_nodes_def insert_node_def empty_graph_def get_edge_def)
  from insert_edge_ok [OF two, of 0 1 7] len show ?thesis by (auto simp: one_edge_def)
qed

theorem bfs_shortest_witness:
  "\<exists>p. bfs one_edge ''a'' ''b'' = Some p \<and>
    (case get_node ''b'' one_edge of
       None \<Rightarrow> p = []
     | Some d \<Rightarrow>
         if (0, d) \<in> (edge_rel (next_nodes one_edge))\<^sup>*
         then walk (next_nodes one_edge) 0 d p \<and> distinct p \<and>
           (\<forall>q. walk (next_nodes one_edge) 0 d q \<longrightarrow> length p \<le> length q)
         else p = [])"
  by (rule bfs_shortest [OF one_edge_ok])
     (simp add: one_edge_def two_nodes_def insert_node_def insert_direct_edge_def empty_graph_def get_node_def Let_def)

text \<open>
  Inserting into a well-formed graph keeps it well-formed: \<open>insert_node\<close> finds or creates the node of
  a key and changes nothing else; \<open>insert_direct_edge\<close> between two of its nodes adds one successor under a
  new key, gives the old edge under a known one, and throws for a loop.
\<close>

theorem directed_graph_inserts:
  assumes "graph_ok node_key edge_key g"
    and "f < length (node_heap g)" "t < length (node_heap g)" "f \<noteq> t"
  shows "(\<exists>p g'. insert_node node_key n g = ((Some p, get_node (node_key n) g = None), g') \<and>
      graph_ok node_key edge_key g' \<and> next_nodes g' = next_nodes g \<and> get_node (node_key n) g' = Some p) \<and>
    (\<exists>p g'. insert_direct_edge edge_key (Some f) (Some t) e g =
        Some (Inr ((Some p, get_edge (edge_key e) g = None), g')) \<and>
      graph_ok node_key edge_key g' \<and> get_edge (edge_key e) g' = Some p \<and>
      next_nodes g' = (if get_edge (edge_key e) g = None then (next_nodes g)(f := next_nodes g f @ [t])
        else next_nodes g)) \<and>
    insert_direct_edge edge_key (Some f) (Some f) e g = Some (Inl Loops_Not_Supported)"
proof (intro conjI)
  show "\<exists>p g'. insert_node node_key n g = ((Some p, get_node (node_key n) g = None), g') \<and>
      graph_ok node_key edge_key g' \<and> next_nodes g' = next_nodes g \<and> get_node (node_key n) g' = Some p"
    using insert_node_ok [OF assms(1), of n] by blast
  show "\<exists>p g'. insert_direct_edge edge_key (Some f) (Some t) e g =
        Some (Inr ((Some p, get_edge (edge_key e) g = None), g')) \<and>
      graph_ok node_key edge_key g' \<and> get_edge (edge_key e) g' = Some p \<and>
      next_nodes g' = (if get_edge (edge_key e) g = None then (next_nodes g)(f := next_nodes g f @ [t])
        else next_nodes g)"
  proof (cases "get_edge (edge_key e) g")
    case None
    with insert_edge_ok [OF assms(1-4) None] show ?thesis by auto
  next
    case (Some p)
    with assms show ?thesis by (simp add: insert_direct_edge_def get_edge_def)
  qed
qed (simp add: insert_direct_edge_def)

theorem directed_graph_inserts_witness:
  "(\<exists>p g'. insert_node id ''c'' one_edge = ((Some p, get_node (id ''c'') one_edge = None), g') \<and>
      graph_ok id id g' \<and> next_nodes g' = next_nodes one_edge \<and> get_node (id ''c'') g' = Some p) \<and>
    (\<exists>p g'. insert_direct_edge id (Some 1) (Some 0) 8 one_edge =
        Some (Inr ((Some p, get_edge (id 8) one_edge = None), g')) \<and>
      graph_ok id id g' \<and> get_edge (id 8) g' = Some p \<and>
      next_nodes g' = (if get_edge (id 8) one_edge = None then (next_nodes one_edge)(1 := next_nodes one_edge 1 @ [0])
        else next_nodes one_edge)) \<and>
    insert_direct_edge id (Some 1) (Some 1) 8 one_edge = Some (Inl Loops_Not_Supported)"
  by (rule directed_graph_inserts [OF one_edge_ok])
     (simp_all add: one_edge_def two_nodes_def insert_node_def insert_direct_edge_def empty_graph_def Let_def)

end
