(* ===== verification/Graph_Lifetime.thy ===== *)
theory Graph_Lifetime
  imports Directed_Graph
begin

text \<open>
  Who owns the proxies of a \<open>directed_graph\<close>: what its destructor frees, what an exception of a constructor leaves behind,
  and what the copy that the compiler generates does.
\<close>

section \<open>The code\<close>

text \<open>
  \<open>make_proxy_entity_for\<close>: the blocks allocated and not freed, before and after; the entity's copy constructor
  (\<open>constructs\<close>) may throw.
\<close>

definition make_proxy_entity_for :: "bool \<Rightarrow> ptr \<Rightarrow> ptr list \<Rightarrow> ptr option \<times> ptr list" where
  "make_proxy_entity_for constructs pointer blocks =
     (let blocks = pointer # blocks
      in if constructs then (Some pointer, blocks) else (None, remove1 pointer blocks))"

text \<open>\<open>~directed_graph\<close>: the node proxies and the edge proxies it frees, in order.\<close>

definition destroy_graph :: "('n, 'e, 'nk, 'ek) directed_graph \<Rightarrow> ptr list \<times> ptr list" where
  "destroy_graph g = (map snd (nodes g), map snd (edges g))"

section \<open>Every proxy is freed once\<close>

datatype ('n, 'e) graph_op = Insert_Node 'n | Insert_Edge "ptr option" "ptr option" 'e

text \<open>An exception and the dereference of a null iterator leave the graph as it was.\<close>

definition graph_run :: "('n \<Rightarrow> 'nk) \<Rightarrow> ('e \<Rightarrow> 'ek) \<Rightarrow> ('n, 'e) graph_op \<Rightarrow> ('n, 'e, 'nk, 'ek) directed_graph \<Rightarrow>
    ('n, 'e, 'nk, 'ek) directed_graph" where
  "graph_run node_key edge_key p g =
     (case p of
        Insert_Node n \<Rightarrow> snd (insert_node node_key n g)
      | Insert_Edge f t e \<Rightarrow> (case insert_direct_edge edge_key f t e g of Some (Inr (_, g)) \<Rightarrow> g | _ \<Rightarrow> g))"

definition owns_heap :: "('n, 'e, 'nk, 'ek) directed_graph \<Rightarrow> bool" where
  "owns_heap g \<longleftrightarrow>
     mset (fst (destroy_graph g)) = mset [0..<length (node_heap g)] \<and> mset (snd (destroy_graph g)) = mset [0..<length (edge_heap g)]"

lemma owns_heap_run: "owns_heap g \<Longrightarrow> owns_heap (graph_run node_key edge_key p g)"
proof (cases p)
  case (Insert_Node n)
  then show "owns_heap g \<Longrightarrow> owns_heap (graph_run node_key edge_key p g)"
    by (auto simp: graph_run_def insert_node_def owns_heap_def destroy_graph_def Let_def simp del: mset_upt split: option.splits)
next
  case (Insert_Edge f t e)
  then show "owns_heap g \<Longrightarrow> owns_heap (graph_run node_key edge_key p g)"
    by (cases f) (auto simp: graph_run_def insert_direct_edge_def owns_heap_def destroy_graph_def Let_def simp del: mset_upt split: option.splits)
qed

lemma owns_heap_empty: "owns_heap empty_graph"
  by (simp add: owns_heap_def empty_graph_def destroy_graph_def)

text \<open>After any insertions the destructor frees every proxy that was made exactly once.\<close>

theorem graph_destroyed_once: "owns_heap (fold (graph_run node_key edge_key) ps empty_graph)"
  by (rule fold_invariant [where Q = "\<lambda>_. True"]) (auto intro: owns_heap_run owns_heap_empty)

lemma make_proxy_keeps_blocks: "make_proxy_entity_for False pointer blocks = (None, blocks)"
  by (simp add: make_proxy_entity_for_def)

text \<open>
  The class declares neither copy constructor nor assignment, so the copy shares the proxies of the original, and the two
  destructors free each of them twice.
\<close>

lemma graph_copy_double_free:
  assumes "owns_heap g" "p < length (node_heap g)"
  shows "count (mset (fst (destroy_graph g) @ fst (destroy_graph g))) p = 2"
proof -
  have "count (mset [0..<length (node_heap g)]) p = 1" using assms(2) by (simp add: count_mset_set)
  with assms(1) show ?thesis by (simp add: owns_heap_def)
qed

end
