(* ===== verification/Registry.thy ===== *)
theory Registry
  imports First_N Shared_State
begin

text \<open>
  The replicated register of \<open>examples/dist.registry.replication\<close>: the register of a replica (last
  writer wins by timestamp), the JSON requests between the nodes, and the coordinator that writes to and
  reads from a quorum. The bytes on the wire are not modelled: a JSON text parses to what was printed, a
  request to a node that is down has no response. The combination of the futures is the model of
  \<open>first_n\<close>: \<open>picks\<close> says which results it can deliver.
\<close>

section \<open>The register\<close>

record register_value_object =
  value_of :: int
  timestamp_of :: nat

definition register_greater :: "register_value_object \<Rightarrow> register_value_object \<Rightarrow> bool" where
  "register_greater lhs rhs = (timestamp_of lhs > timestamp_of rhs)"

definition register_equal :: "register_value_object \<Rightarrow> register_value_object \<Rightarrow> bool" where
  "register_equal lhs rhs = (timestamp_of lhs = timestamp_of rhs \<and> value_of lhs = value_of rhs)"

definition register_write :: "register_value_object \<Rightarrow> register_value_object option \<Rightarrow> register_value_object option" where
  "register_write new_register register =
     (let is_register_setup = (register \<noteq> None);
          is_register_olden =
            (is_register_setup \<and> timestamp_of (the register) < timestamp_of new_register)
      in if \<not> is_register_setup \<or> is_register_olden then Some new_register else register)"

definition register_read :: "register_value_object option \<Rightarrow> register_value_object option" where
  "register_read register = register"

definition register_reset :: "register_value_object option \<Rightarrow> register_value_object option" where
  "register_reset register = None"

section \<open>The cluster as the coordinator sees it\<close>

datatype snapshot_error = Snapshot_Not_Found

datatype cluster_error = Not_Found_Latest_Value | Not_Found_Latest_Timestamp

type_synonym snapshot = "snapshot_error + register_value_object"

record cluster_value_object =
  snapshots :: "snapshot list"
  fresh_snapshot :: snapshot

text \<open>One round of the loop of \<open>get_fresh_snapshot\<close>: it compares the values.\<close>

definition fresher :: "snapshot \<Rightarrow> snapshot \<Rightarrow> snapshot" where
  "fresher b f =
     (case b of
        Inl _ \<Rightarrow> f
      | Inr r \<Rightarrow> (case f of Inl _ \<Rightarrow> b | Inr r' \<Rightarrow> if value_of r > value_of r' then b else f))"

definition get_fresh_snapshot :: "snapshot list \<Rightarrow> snapshot" where
  "get_fresh_snapshot ss = (if ss = [] then Inl Snapshot_Not_Found else fold fresher ss (hd ss))"

definition restore_from_snapshots :: "snapshot list \<Rightarrow> cluster_value_object" where
  "restore_from_snapshots ss = \<lparr>snapshots = ss, fresh_snapshot = get_fresh_snapshot ss\<rparr>"

definition snapshot_equal :: "snapshot \<Rightarrow> snapshot \<Rightarrow> bool" where
  "snapshot_equal a b =
     (case (a, b) of
        (Inr x, Inr y) \<Rightarrow> register_equal x y
      | (Inl x, Inl y) \<Rightarrow> x = y
      | _ \<Rightarrow> False)"

definition is_consistent :: "cluster_value_object \<Rightarrow> bool" where
  "is_consistent c =
     (case fresh_snapshot c of
        Inl _ \<Rightarrow> True
      | Inr _ \<Rightarrow> list_all (\<lambda>s. snapshot_equal s (fresh_snapshot c)) (snapshots c))"

definition get_latest_value :: "cluster_value_object \<Rightarrow> cluster_error + int" where
  "get_latest_value c = (case fresh_snapshot c of Inl _ \<Rightarrow> Inl Not_Found_Latest_Value | Inr r \<Rightarrow> Inr (value_of r))"

definition get_latest_timestamp :: "cluster_value_object \<Rightarrow> cluster_error + nat" where
  "get_latest_timestamp c =
     (case fresh_snapshot c of Inl _ \<Rightarrow> Inl Not_Found_Latest_Timestamp | Inr r \<Rightarrow> Inr (timestamp_of r))"

text \<open>\<open>details::cast\<close> of the results of the read futures.\<close>

definition cast_snapshots :: "('x, register_value_object) result list \<Rightarrow> snapshot list" where
  "cast_snapshots = map (\<lambda>r. case r of Exception _ \<Rightarrow> Inl Snapshot_Not_Found | Value x \<Rightarrow> Inr x)"

definition majority :: "nat \<Rightarrow> nat" where
  "majority n = n div 2 + 1"

text \<open>
  \<open>restore_from_replicas\<close> and \<open>store_to_replicas\<close> from the outcome of \<open>first_n\<close> on: either the results of a
  quorum, or the error that there are fewer replicas than the quorum.
\<close>

definition restore_from_replicas :: "string + ('x, register_value_object) result list \<Rightarrow> string + cluster_value_object" where
  "restore_from_replicas responses =
     (case responses of Inl e \<Rightarrow> Inl e | Inr ys \<Rightarrow> Inr (restore_from_snapshots (cast_snapshots ys)))"

fun first_exception :: "('x, 'a) result list \<Rightarrow> 'x option" where
  "first_exception [] = None"
| "first_exception (Exception e # _) = Some e"
| "first_exception (Value _ # rs) = first_exception rs"

definition store_to_replicas :: "string + ('x, 'a) result list \<Rightarrow> (string + 'x) option" where
  "store_to_replicas responses =
     (case responses of Inl e \<Rightarrow> Some (Inl e) | Inr ys \<Rightarrow> map_option Inr (first_exception ys))"

text \<open>
  \<open>read_and_write_register_command_handler::handle\<close> on the cluster it has restored: the object it writes
  back when the cluster is not consistent, and its result (a cluster exception becomes \<open>std::nullopt\<close>).
\<close>

definition latest :: "cluster_value_object \<Rightarrow> cluster_error + register_value_object" where
  "latest c =
     (case get_latest_value c of
        Inl e \<Rightarrow> Inl e
      | Inr v \<Rightarrow> (case get_latest_timestamp c of Inl e \<Rightarrow> Inl e | Inr t \<Rightarrow> Inr \<lparr>value_of = v, timestamp_of = t\<rparr>))"

definition handle_read_and_write :: "cluster_value_object \<Rightarrow> register_value_object option \<times> register_value_object option" where
  "handle_read_and_write c =
     (if \<not> is_consistent c
      then (case latest c of Inl _ \<Rightarrow> (None, None) | Inr r \<Rightarrow> (Some r, Some r))
      else (case latest c of Inl _ \<Rightarrow> (None, None) | Inr r \<Rightarrow> (None, Some r)))"

section \<open>Requests between nodes\<close>

datatype json = J_Null | J_Int int | J_String string | J_Other | J_Object "(string \<times> json) list"

datatype presentation_error = Invalid_Argument string | Not_Found string | Service_Unavailable string

fun json_at :: "string \<Rightarrow> json \<Rightarrow> json option" where
  "json_at key (J_Object members) = map_of members key"
| "json_at key _ = None"

definition json_contains :: "string \<Rightarrow> json \<Rightarrow> bool" where
  "json_contains key j = (json_at key j \<noteq> None)"

fun is_number_integer :: "json option \<Rightarrow> bool" where
  "is_number_integer (Some (J_Int _)) = True"
| "is_number_integer _ = False"

fun is_number_unsigned :: "json option \<Rightarrow> bool" where
  "is_number_unsigned (Some (J_Int i)) = (i \<ge> 0)"
| "is_number_unsigned _ = False"

text \<open>\<open>get<std::int32_t>\<close> keeps the low 32 bits, \<open>get<std::size_t>\<close> the low 64.\<close>

fun get_int32 :: "json option \<Rightarrow> int" where
  "get_int32 (Some (J_Int i)) = signed_take_bit 31 i"
| "get_int32 _ = 0"

fun get_size :: "json option \<Rightarrow> nat" where
  "get_size (Some (J_Int i)) = nat (i mod 2 ^ 64)"
| "get_size _ = 0"

text \<open>The two \<open>from_json\<close> functions, of the replica's write handler and of the client, are the same.\<close>

definition register_from_json :: "json \<Rightarrow> presentation_error + register_value_object" where
  "register_from_json request =
     (if \<not> json_contains ''value'' request \<or> \<not> is_number_integer (json_at ''value'' request)
      then Inl (Invalid_Argument ''Input data is incorrect or the required field 'value' is missing'')
      else if \<not> json_contains ''timestamp'' request \<or> \<not> is_number_unsigned (json_at ''timestamp'' request)
      then Inl (Invalid_Argument ''Input data is incorrect or the required field 'timestamp' is missing'')
      else Inr \<lparr>value_of = get_int32 (json_at ''value'' request),
                timestamp_of = get_size (json_at ''timestamp'' request)\<rparr>)"

definition register_to_json :: "register_value_object \<Rightarrow> json" where
  "register_to_json r = J_Object [(''value'', J_Int (value_of r)), (''timestamp'', J_Int (int (timestamp_of r)))]"

text \<open>
  The coordinator's write request may name a quorum policy: \<open>construct\<close> is the policies' factory, and an
  unknown name gives the same null pointer as no name, so the default is taken.
\<close>

definition coordinator_write_request :: "(string \<Rightarrow> (nat \<Rightarrow> nat) option) \<Rightarrow> json \<Rightarrow>
    presentation_error + register_value_object \<times> (nat \<Rightarrow> nat)" where
  "coordinator_write_request construct request =
     (case register_from_json request of
        Inl e \<Rightarrow> Inl e
      | Inr r \<Rightarrow>
          (case json_at ''quorum_policy_base'' request of
             None \<Rightarrow> Inr (r, majority)
           | Some (J_String name) \<Rightarrow> Inr (r, case construct name of None \<Rightarrow> majority | Some policy \<Rightarrow> policy)
           | Some _ \<Rightarrow>
               Inl (Invalid_Argument ''Input data is incorrect or the required field 'quorum_policy_base' is missing'')))"

definition coordinator_read_response :: "register_value_object option \<Rightarrow> presentation_error + json" where
  "coordinator_read_response r =
     (case r of Some x \<Rightarrow> Inr (register_to_json x) | None \<Rightarrow> Inl (Not_Found ''The register is not initialized''))"

definition replica_write_handler :: "json \<Rightarrow> register_value_object option \<Rightarrow>
    (presentation_error + json) \<times> register_value_object option" where
  "replica_write_handler request register =
     (case register_from_json request of
        Inl e \<Rightarrow> (Inl e, register)
      | Inr r \<Rightarrow> (Inr J_Null, register_write r register))"

definition replica_read_handler :: "register_value_object option \<Rightarrow> presentation_error + json" where
  "replica_read_handler register =
     (case register_read register of
        Some r \<Rightarrow> Inr (register_to_json r)
      | None \<Rightarrow> Inl (Not_Found ''The register is not initialized''))"

definition replica_reset_handler :: "register_value_object option \<Rightarrow> json \<times> register_value_object option" where
  "replica_reset_handler register = (J_Null, register_reset register)"

text \<open>The server's status and body for what a controller returned or threw.\<close>

definition respond :: "presentation_error + json \<Rightarrow> nat \<times> json" where
  "respond r =
     (case r of
        Inr j \<Rightarrow> (200, j)
      | Inl (Invalid_Argument m) \<Rightarrow> (400, J_Object [(''error_message'', J_String m)])
      | Inl (Not_Found m) \<Rightarrow> (404, J_Object [(''error_message'', J_String m)])
      | Inl (Service_Unavailable m) \<Rightarrow> (503, J_Object [(''error_message'', J_String m)]))"

text \<open>A replica: whether it answers, and its register.\<close>

record replica =
  running :: bool
  register :: "register_value_object option"

definition async_write :: "register_value_object \<Rightarrow> replica \<Rightarrow> (presentation_error, unit) result \<times> replica" where
  "async_write r p =
     (if running p
      then (Value (), p\<lparr>register := snd (replica_write_handler (register_to_json r) (register p))\<rparr>)
      else (Value (), p))"

definition async_read :: "replica \<Rightarrow> (presentation_error, register_value_object) result" where
  "async_read p =
     (if \<not> running p then Exception (Service_Unavailable ''Failed to execute the request'')
      else case respond (replica_read_handler (register p)) of
        (status, body) \<Rightarrow>
          (let has_error_message = json_contains ''error_message'' body;
               not_found_register = (status = 404)
           in if has_error_message \<and> not_found_register
              then Exception (Not_Found (case json_at ''error_message'' body of Some (J_String m) \<Rightarrow> m | _ \<Rightarrow> []))
              else if has_error_message then Exception (Service_Unavailable ''Unexpected error response'')
              else case register_from_json body of Inl e \<Rightarrow> Exception e | Inr r \<Rightarrow> Value r))"

text \<open>A write reaching the \<open>i\<close>-th replica; the writes of one command reach the replicas in any order.\<close>

definition deliver :: "nat \<times> register_value_object \<Rightarrow> replica list \<Rightarrow> replica list" where
  "deliver = (\<lambda>(i, r) ps. ps[i := snd (async_write r (ps ! i))])"

section \<open>The register keeps the latest write\<close>

lemma register_write_Some:
  "register_write w (Some r) = Some (if timestamp_of r < timestamp_of w then w else r)"
  by (simp add: register_write_def)

lemma register_write_None [simp]: "register_write w None = Some w"
  by (simp add: register_write_def)

lemma register_writes:
  "\<exists>x. fold register_write ws (Some r) = Some x \<and> x \<in> insert r (set ws) \<and>
     (\<forall>w \<in> insert r (set ws). timestamp_of w \<le> timestamp_of x)"
proof (induction ws arbitrary: r)
  case (Cons w ws)
  from Cons.IH [of "if timestamp_of r < timestamp_of w then w else r"] show ?case
    by (fastforce simp: register_write_Some split: if_splits)
qed simp

lemma register_latest:
  assumes "ws \<noteq> []"
  shows "\<exists>x \<in> set ws. fold register_write ws None = Some x \<and> (\<forall>w \<in> set ws. timestamp_of w \<le> timestamp_of x)"
  using assms register_writes [of "tl ws" "hd ws"] by (cases ws) auto

section \<open>The freshest snapshot\<close>

lemma fresher_simps [simp]:
  "fresher (Inl e) f = f"
  "fresher (Inr r) (Inl e) = Inr r"
  "fresher (Inr r) (Inr r') = Inr (if value_of r > value_of r' then r else r')"
  by (simp_all add: fresher_def)

definition freshest :: "snapshot \<Rightarrow> snapshot set \<Rightarrow> bool" where
  "freshest s S \<longleftrightarrow> (\<exists>x. s = Inr x \<and> Inr x \<in> S \<and> (\<forall>y. Inr y \<in> S \<longrightarrow> value_of y \<le> value_of x))"

lemma fold_fresher:
  "Inr r \<in> insert f (set ss) \<Longrightarrow> freshest (fold fresher ss f) (insert f (set ss))"
proof (induction ss arbitrary: f r)
  case Nil
  then show ?case by (auto simp: freshest_def)
next
  case (Cons b ss)
  show ?case
  proof (cases b)
    case (Inl e)
    with Cons have "freshest (fold fresher ss f) (insert f (set ss))" by auto
    with Inl show ?thesis by (auto simp: freshest_def)
  next
    case b: (Inr y)
    show ?thesis
    proof (cases f)
      case (Inl e)
      from Cons.IH [of y "Inr y"] b Inl show ?thesis by (auto simp: freshest_def)
    next
      case (Inr r')
      from Cons.IH [of "if value_of y > value_of r' then y else r'" "fresher (Inr y) (Inr r')"] b Inr
      show ?thesis by (fastforce simp: freshest_def split: if_splits)
    qed
  qed
qed

lemma fresh_valid:
  assumes "Inr r \<in> set ss"
  shows "freshest (get_fresh_snapshot ss) (set ss)"
proof -
  from assms have "ss \<noteq> []" by auto
  then have "insert (hd ss) (set ss) = set ss" by (simp add: insert_absorb)
  with \<open>ss \<noteq> []\<close> fold_fresher [of r "hd ss" ss] assms show ?thesis by (simp add: get_fresh_snapshot_def)
qed

section \<open>Round trips between nodes\<close>

definition in_range :: "register_value_object \<Rightarrow> bool" where
  "in_range r \<longleftrightarrow> - (2 ^ 31) \<le> value_of r \<and> value_of r < 2 ^ 31 \<and> timestamp_of r < 2 ^ 64"

definition replica_ok :: "replica \<Rightarrow> bool" where
  "replica_ok p \<longleftrightarrow> (case register p of None \<Rightarrow> True | Some r \<Rightarrow> in_range r)"

lemma register_json_roundtrip:
  assumes "in_range r"
  shows "register_from_json (register_to_json r) = Inr r"
proof -
  have "signed_take_bit 31 (value_of r) = value_of r"
    using assms by (simp add: in_range_def signed_take_bit_int_eq_self_iff)
  moreover have "nat (int (timestamp_of r) mod 2 ^ 64) = timestamp_of r"
    using assms by (simp add: in_range_def)
  ultimately show ?thesis
    by (simp add: register_from_json_def register_to_json_def json_contains_def del: power_numeral)
qed

lemma register_from_json_range: "register_from_json j = Inr r \<Longrightarrow> in_range r"
proof -
  have "- 2147483648 \<le> signed_take_bit 31 i" "signed_take_bit 31 i < 2147483648" for i :: int
    using signed_take_bit_int_greater_eq_minus_exp [of 31 i] signed_take_bit_int_less_exp [of 31 i] by simp_all
  then show "register_from_json j = Inr r \<Longrightarrow> in_range r"
    by (cases j) (auto simp: register_from_json_def in_range_def json_contains_def nat_less_iff
      split: if_splits elim!: is_number_integer.elims is_number_unsigned.elims)
qed

lemma async_read_eq:
  assumes "replica_ok p"
  shows "async_read p =
    (if \<not> running p then Exception (Service_Unavailable ''Failed to execute the request'')
     else case register p of None \<Rightarrow> Exception (Not_Found ''The register is not initialized'') | Some r \<Rightarrow> Value r)"
proof (cases "register p")
  case None
  then show ?thesis
    by (simp add: async_read_def replica_read_handler_def register_read_def respond_def json_contains_def)
next
  case (Some r)
  with assms have "in_range r" by (simp add: replica_ok_def)
  from register_json_roundtrip [OF this] Some show ?thesis
    by (simp add: async_read_def replica_read_handler_def register_read_def respond_def)
       (simp add: json_contains_def register_to_json_def)
qed

lemma async_write_eq:
  assumes "in_range r" "running p"
  shows "async_write r p = (Value (), p\<lparr>register := register_write r (register p)\<rparr>)"
  using assms by (simp add: async_write_def replica_write_handler_def register_json_roundtrip)

lemma async_write_ok:
  assumes "replica_ok p"
  shows "replica_ok (snd (async_write r p))" "running (snd (async_write r p)) = running p"
proof -
  show "running (snd (async_write r p)) = running p" by (simp add: async_write_def)
  show "replica_ok (snd (async_write r p))"
    using assms register_from_json_range [of "register_to_json r"]
    by (auto simp: async_write_def replica_write_handler_def replica_ok_def register_write_def Let_def
        split: option.splits sum.splits if_splits)
qed

section \<open>Deliveries\<close>

text \<open>The replica answers, with a write of at least this timestamp.\<close>

definition at_least :: "nat \<Rightarrow> replica \<Rightarrow> bool" where
  "at_least t p \<longleftrightarrow> running p \<and> (\<exists>r. register p = Some r \<and> t \<le> timestamp_of r)"

lemma async_write_at_least:
  "at_least t p \<Longrightarrow> at_least t (snd (async_write r p))"
  by (auto simp: at_least_def async_write_def replica_write_handler_def register_write_Some split: sum.split)

lemma async_write_reaches:
  "in_range r \<Longrightarrow> running p \<Longrightarrow> at_least (timestamp_of r) (snd (async_write r p))"
  by (cases "register p") (auto simp: async_write_eq at_least_def register_write_Some)

lemma deliver_sel [simp]:
  "length (deliver d ps) = length ps"
  "j < length ps \<Longrightarrow> deliver d ps ! j = (if j = fst d then snd (async_write (snd d) (ps ! j)) else ps ! j)"
  by (cases d; auto simp: deliver_def nth_list_update)+

lemma deliveries:
  assumes "\<forall>p \<in> set ps. replica_ok p"
  shows "length (fold deliver ds ps) = length ps \<and> (\<forall>p \<in> set (fold deliver ds ps). replica_ok p)"
  using assms
proof (induction ds arbitrary: ps)
  case (Cons d ds)
  have "\<forall>p \<in> set (deliver d ps). replica_ok p"
    using Cons.prems by (auto simp: all_set_conv_all_nth async_write_ok(1))
  from Cons.IH [OF this] show ?case by simp
qed simp

lemma deliver_at_least:
  "j < length ps \<Longrightarrow> at_least t (ps ! j) \<Longrightarrow> at_least t (deliver d ps ! j)"
  by (cases "j = fst d") (simp_all add: async_write_at_least)

lemma deliveries_keep:
  "j < length ps \<Longrightarrow> at_least t (ps ! j) \<Longrightarrow> at_least t (fold deliver ds ps ! j)"
  by (induction ds arbitrary: ps) (simp_all add: deliver_at_least del: deliver_sel(2))

lemma deliveries_reach:
  "j < length ps \<Longrightarrow> running (ps ! j) \<Longrightarrow> in_range r \<Longrightarrow> (j, r) \<in> set ds \<Longrightarrow>
     at_least (timestamp_of r) (fold deliver ds ps ! j)"
proof (induction ds arbitrary: ps)
  case (Cons d ds)
  show ?case
  proof (cases "d = (j, r)")
    case True
    with Cons.prems have "at_least (timestamp_of r) (deliver d ps ! j)" by (simp add: async_write_reaches)
    with Cons.prems show ?thesis by (simp add: deliveries_keep)
  next
    case False
    with Cons.prems have "(j, r) \<in> set ds" "running (deliver d ps ! j)" by (auto simp: async_write_def)
    with Cons show ?thesis by simp
  qed
qed simp

section \<open>Quorums\<close>

lemma majorities_meet:
  assumes "A \<subseteq> {..<n}" "B \<subseteq> {..<n}" "card A = majority n" "card B = majority n"
  shows "A \<inter> B \<noteq> {}"
proof
  assume "A \<inter> B = {}"
  with assms have "card (A \<union> B) = 2 * majority n"
    by (simp add: card_Un_disjoint finite_subset [OF assms(1)] finite_subset [OF assms(2)])
  moreover have "card (A \<union> B) \<le> n" using assms card_mono [of "{..<n}" "A \<union> B"] by simp
  ultimately show False by (simp add: majority_def)
qed

lemma quorum_snapshot:
  assumes ok: "\<forall>p \<in> set ps. replica_ok p"
    and W: "W \<subseteq> {..<length ps}" "card W = majority (length ps)" "\<forall>i \<in> W. at_least t (ps ! i)"
    and ys: "picks (map (Some \<circ> async_read) ps) (majority (length ps)) ys"
  shows "\<exists>r. Inr r \<in> set (cast_snapshots ys) \<and> t \<le> timestamp_of r"
proof -
  from ys obtain rs where rs: "sorted_wrt (<) rs" "length rs = majority (length ps)" "set rs \<subseteq> {..<length ps}"
      "ys = map (\<lambda>i. async_read (ps ! i)) rs"
    unfolding picks_def by force
  then have "card (set rs) = majority (length ps)"
    by (metis distinct_card strict_sorted_iff)
  from majorities_meet [OF W(1) rs(3) W(2) this] obtain i where i: "i \<in> W" "i \<in> set rs" by auto
  with W(3) obtain r where r: "running (ps ! i)" "register (ps ! i) = Some r" "t \<le> timestamp_of r"
    unfolding at_least_def by blast
  from i rs(3) ok have "replica_ok (ps ! i)" by (auto simp: subset_iff)
  with r have "async_read (ps ! i) = Value r" by (simp add: async_read_eq)
  with i(2) rs(4) have "Value r \<in> set ys" by (metis (mono_tags, lifting) image_eqI image_set)
  then have "Inr r \<in> set (cast_snapshots ys)" by (force simp: cast_snapshots_def)
  with r(3) show ?thesis by blast
qed

lemma latest_eq: "latest (restore_from_snapshots ss) = (case get_fresh_snapshot ss of Inl _ \<Rightarrow> Inl Not_Found_Latest_Value | Inr r \<Rightarrow> Inr r)"
  by (auto simp: latest_def restore_from_snapshots_def get_latest_value_def get_latest_timestamp_def split: sum.split)

section \<open>Properties\<close>

text \<open>
  A replica's register holds the first of the latest writes it received, so two replicas that
  received the same writes, in any order and any number of times, hold the same value when no two different
  writes have the same timestamp.
\<close>

theorem register_converges:
  assumes "set ws = set ws'" "inj_on timestamp_of (set ws)"
  shows "fold register_write ws None = fold register_write ws' None"
proof (cases "ws = []")
  case False
  with assms(1) have "ws' \<noteq> []" by auto
  with register_latest [OF False] register_latest [of ws'] assms show ?thesis
    by (metis inj_onD le_antisym)
next
  case True
  with assms(1) show ?thesis by simp
qed

theorem register_converges_witness:
  "fold register_write [\<lparr>value_of = 5, timestamp_of = 2\<rparr>, \<lparr>value_of = 7, timestamp_of = 1\<rparr>] None =
   fold register_write [\<lparr>value_of = 7, timestamp_of = 1\<rparr>, \<lparr>value_of = 5, timestamp_of = 2\<rparr>] None"
  by (rule register_converges) auto

text \<open>
  A write and a read survive the round trip through JSON and the status codes: a running replica
  stores exactly the written register when it is newer, and a read gives the register, \<open>not_found\<close> when it is
  empty, \<open>service_unavailable\<close> when the replica does not answer.
\<close>

theorem replica_roundtrip:
  assumes "in_range r" "replica_ok p"
  shows "register (snd (async_write r p)) = (if running p then register_write r (register p) else register p) \<and>
    async_read p =
      (if \<not> running p then Exception (Service_Unavailable ''Failed to execute the request'')
       else case register p of
         None \<Rightarrow> Exception (Not_Found ''The register is not initialized'') | Some x \<Rightarrow> Value x)"
proof
  show "register (snd (async_write r p)) = (if running p then register_write r (register p) else register p)"
    using async_write_eq [OF assms(1)] by (cases "running p") (simp_all add: async_write_def)
  show "async_read p = (if \<not> running p then Exception (Service_Unavailable ''Failed to execute the request'')
       else case register p of
         None \<Rightarrow> Exception (Not_Found ''The register is not initialized'') | Some x \<Rightarrow> Value x)"
    by (rule async_read_eq [OF assms(2)])
qed

theorem replica_roundtrip_witness:
  "register (snd (async_write \<lparr>value_of = -5, timestamp_of = 3\<rparr> \<lparr>running = True, register = None\<rparr>)) =
      (if True then register_write \<lparr>value_of = -5, timestamp_of = 3\<rparr> None else None) \<and>
   async_read \<lparr>running = True, register = None\<rparr> =
      (if \<not> True then Exception (Service_Unavailable ''Failed to execute the request'')
       else case None of
         None \<Rightarrow> Exception (Not_Found ''The register is not initialized'') | Some x \<Rightarrow> Value x)"
  using replica_roundtrip [of "\<lparr>value_of = -5, timestamp_of = 3\<rparr>" "\<lparr>running = True, register = None\<rparr>"]
  by (simp add: in_range_def replica_ok_def)

text \<open>
  C27: quorum reads see quorum writes. Once a write has been delivered to a majority of running replicas,
  whatever other writes are delivered before, between and after, every majority of read results that \<open>first_n\<close>
  can collect contains a register at least as new; and where the values are ordered as their timestamps, the
  latest register that the coordinator extracts is at least as new.
\<close>

theorem quorum_read_after_write:
  assumes "\<forall>p \<in> set ps. replica_ok p" "in_range r"
    and "W \<subseteq> {..<length ps}" "card W = majority (length ps)"
    and "\<forall>i \<in> W. running (ps ! i) \<and> (i, r) \<in> set ds"
    and "picks (map (Some \<circ> async_read) (fold deliver ds ps)) (majority (length ps)) ys"
  shows "(\<exists>x. Inr x \<in> set (cast_snapshots ys) \<and> timestamp_of r \<le> timestamp_of x) \<and>
    ((\<forall>a b. Inr a \<in> set (cast_snapshots ys) \<and> Inr b \<in> set (cast_snapshots ys) \<and>
        timestamp_of a < timestamp_of b \<longrightarrow> value_of a < value_of b) \<longrightarrow>
     (\<exists>c x. restore_from_replicas (Inr ys) = Inr c \<and> latest c = Inr x \<and> timestamp_of r \<le> timestamp_of x))"
proof -
  let ?ps = "fold deliver ds ps"
  have len: "length ?ps = length ps" and ok: "\<forall>p \<in> set ?ps. replica_ok p"
    using deliveries [OF assms(1)] by blast+
  have "\<forall>i \<in> W. at_least (timestamp_of r) (?ps ! i)"
    using assms(2,3,5) by (auto intro!: deliveries_reach)
  with quorum_snapshot [of ?ps W "timestamp_of r" ys] ok assms(3,4,6) obtain x where
    x: "Inr x \<in> set (cast_snapshots ys)" "timestamp_of r \<le> timestamp_of x" unfolding len by blast
  from fresh_valid [OF x(1)] obtain z where z: "get_fresh_snapshot (cast_snapshots ys) = Inr z"
    "Inr z \<in> set (cast_snapshots ys)" "value_of x \<le> value_of z"
    using x(1) unfolding freshest_def by blast
  then have lt: "latest (restore_from_snapshots (cast_snapshots ys)) = Inr z" by (simp add: latest_eq)
  have newer: "timestamp_of r \<le> timestamp_of z"
    if ordered: "\<forall>a b. Inr a \<in> set (cast_snapshots ys) \<and> Inr b \<in> set (cast_snapshots ys) \<and>
        timestamp_of a < timestamp_of b \<longrightarrow> value_of a < value_of b"
  proof (rule ccontr)
    assume "\<not> timestamp_of r \<le> timestamp_of z"
    with x(2) have "timestamp_of z < timestamp_of x" by simp
    with ordered x(1) z(2) have "value_of z < value_of x" by blast
    with z(3) show False by simp
  qed
  have "restore_from_replicas (Inr ys) = Inr (restore_from_snapshots (cast_snapshots ys))"
    by (simp add: restore_from_replicas_def)
  with x lt newer show ?thesis by blast
qed

theorem quorum_read_after_write_witness:
  "\<exists>ps ds ys. length ps = 3 \<and> picks (map (Some \<circ> async_read) (fold deliver ds ps)) 2 ys \<and>
    (\<exists>x. Inr x \<in> set (cast_snapshots ys) \<and> timestamp_of \<lparr>value_of = 4, timestamp_of = 9\<rparr> \<le> timestamp_of x) \<and>
    ((\<forall>a b. Inr a \<in> set (cast_snapshots ys) \<and> Inr b \<in> set (cast_snapshots ys) \<and>
        timestamp_of a < timestamp_of b \<longrightarrow> value_of a < value_of b) \<longrightarrow>
     (\<exists>c x. restore_from_replicas (Inr ys) = Inr c \<and> latest c = Inr x \<and>
        timestamp_of \<lparr>value_of = 4, timestamp_of = 9\<rparr> \<le> timestamp_of x))"
proof -
  let ?r = "\<lparr>value_of = 4, timestamp_of = 9\<rparr>"
  let ?ps = "replicate 3 \<lparr>running = True, register = None\<rparr>"
  let ?ds = "[(0, ?r), (1, ?r)]"
  let ?ys = "map (\<lambda>i. async_read (fold deliver ?ds ?ps ! i)) [1, 2]"
  have 1: "\<forall>p \<in> set ?ps. replica_ok p" "in_range ?r" "{0, 1} \<subseteq> {..<length ?ps}"
    "card {0::nat, 1} = majority (length ?ps)"
    by (auto simp: replica_ok_def in_range_def majority_def)
  have 2: "\<forall>i \<in> {0, 1}. running (?ps ! i) \<and> (i, ?r) \<in> set ?ds" by simp
  have 3: "picks (map (Some \<circ> async_read) (fold deliver ?ds ?ps)) (majority (length ?ps)) ?ys"
    unfolding picks_def by (rule exI [of _ "[1, 2]"]) (simp add: majority_def)
  have m: "majority (length ?ps) = 2" by (simp add: majority_def)
  note c = quorum_read_after_write [OF 1 2 3]
  show ?thesis
    by (rule exI [of _ ?ps], rule exI [of _ ?ds], rule exI [of _ ?ys], intro conjI)
       (simp, rule 3 [unfolded m], rule conjunct1 [OF c], rule conjunct2 [OF c])
qed

text \<open>
  The freshest snapshot is chosen by value, not by timestamp: after the write of 3 at time 2 was
  stored by a majority, a majority read that meets one replica still holding 5 from time 1 returns 5, and
  repairs the replicas with it.
\<close>

theorem quorum_read_stale:
  "\<exists>ys. picks (map (Some \<circ> async_read)
      (fold deliver [(0, \<lparr>value_of = 3, timestamp_of = 2\<rparr>), (1, \<lparr>value_of = 3, timestamp_of = 2\<rparr>)]
        (replicate 3 \<lparr>running = True, register = Some \<lparr>value_of = 5, timestamp_of = 1\<rparr>\<rparr>))) (majority 3) ys \<and>
    handle_read_and_write (restore_from_snapshots (cast_snapshots ys)) =
      (Some \<lparr>value_of = 5, timestamp_of = 1\<rparr>, Some \<lparr>value_of = 5, timestamp_of = 1\<rparr>)"
proof (intro exI conjI)
  let ?w = "\<lparr>value_of = 3, timestamp_of = 2\<rparr>" and ?o = "\<lparr>value_of = 5, timestamp_of = 1\<rparr>"
  let ?ps = "fold deliver [(0, ?w), (1, ?w)] (replicate 3 \<lparr>running = True, register = Some ?o\<rparr>)"
  have ps: "?ps = [\<lparr>running = True, register = Some ?w\<rparr>, \<lparr>running = True, register = Some ?w\<rparr>,
      \<lparr>running = True, register = Some ?o\<rparr>]"
    by (simp add: deliver_def async_write_eq in_range_def register_write_Some numeral_3_eq_3)
  show "picks (map (Some \<circ> async_read) ?ps) (majority 3) [Value ?w, Value ?o]"
    unfolding picks_def ps
    by (rule exI [of _ "[1, 2]"]) (simp add: majority_def async_read_eq replica_ok_def in_range_def)
  show "handle_read_and_write (restore_from_snapshots (cast_snapshots [Value ?w, Value ?o])) = (Some ?o, Some ?o)"
    by (simp add: cast_snapshots_def handle_read_and_write_def latest_eq is_consistent_def
        restore_from_snapshots_def get_fresh_snapshot_def snapshot_equal_def register_equal_def)
       (simp add: latest_def get_latest_value_def get_latest_timestamp_def)
qed

text \<open>
  A write is acknowledged although no replica received it: the client's request discards the
  transport error, so with every replica down the quorum of results contains no exception.
\<close>

theorem write_without_replicas:
  assumes "\<forall>p \<in> set ps. \<not> running p" "picks (map (Some \<circ> fst \<circ> async_write r) ps) n ys"
  shows "store_to_replicas (Inr ys) = None \<and> map (snd \<circ> async_write r) ps = ps"
proof
  from assms have "\<forall>y \<in> set ys. y = Value ()" by (auto simp: picks_def async_write_def)
  then have "first_exception ys = None" by (induction ys) auto
  then show "store_to_replicas (Inr ys) = None" by (simp add: store_to_replicas_def)
  show "map (snd \<circ> async_write r) ps = ps"
    using assms(1) by (simp add: async_write_def map_idI)
qed

theorem write_without_replicas_witness:
  "store_to_replicas (Inr [Value (), Value ()] :: string + (presentation_error, unit) result list) = None \<and>
   map (snd \<circ> async_write \<lparr>value_of = 1, timestamp_of = 1\<rparr>) (replicate 3 \<lparr>running = False, register = None\<rparr>) =
     replicate 3 \<lparr>running = False, register = None\<rparr>"
proof (rule write_without_replicas [where n = 2])
  show "picks (map (Some \<circ> fst \<circ> async_write \<lparr>value_of = 1, timestamp_of = 1\<rparr>)
      (replicate 3 \<lparr>running = False, register = None\<rparr>)) 2 [Value (), Value ()]"
    unfolding picks_def by (rule exI [of _ "[0, 1]"]) (simp add: async_write_def)
qed simp

end
