(* ===== verification/BS_Tree.thy ===== *)
theory BS_Tree
  imports Set_Contract "HOL-Library.Tree" "HOL-Library.Monad_Syntax"
begin

text \<open>
  \<open>binary_search_tree\<close> of \<open>container/tree/bs_tree.hpp\<close>: nodes with child and parent pointers in memory.
  The memory maps the addresses of the live nodes to their contents; the allocator never gives an address
  twice, so a read through a pointer to a destroyed node finds nothing. An operation whose value is \<open>None\<close>
  dereferences a null or dangling pointer or does not end. Allocation and key construction succeed.
\<close>

type_synonym addr = nat

record 'a bst_node =
  key :: 'a
  left_child :: "addr option"
  right_child :: "addr option"
  parent :: "addr option"

type_synonym 'a memory = "addr \<rightharpoonup> 'a bst_node"

record 'a bst =
  memory :: "'a memory"
  next_addr :: addr
  root :: "addr option"
  bst_size :: nat

definition new_bst :: "'a bst" where
  "new_bst = \<lparr>memory = Map.empty, next_addr = 0, root = None, bst_size = 0\<rparr>"

section \<open>Nodes\<close>

definition construct_node :: "'a \<Rightarrow> 'a bst \<Rightarrow> addr \<times> 'a bst" where
  "construct_node k T =
     (next_addr T,
      T\<lparr>memory := (memory T)(next_addr T \<mapsto> \<lparr>key = k, left_child = None, right_child = None, parent = None\<rparr>),
        next_addr := next_addr T + 1\<rparr>)"

definition destroy_node :: "addr \<Rightarrow> 'a memory \<Rightarrow> 'a memory option" where
  "destroy_node a m = (if m a = None then None else Some (m(a := None)))"

definition set_left :: "addr \<Rightarrow> addr option \<Rightarrow> 'a memory \<Rightarrow> 'a memory option" where
  "set_left a p m = do { n \<leftarrow> m a; Some (m(a \<mapsto> n\<lparr>left_child := p\<rparr>)) }"

definition set_right :: "addr \<Rightarrow> addr option \<Rightarrow> 'a memory \<Rightarrow> 'a memory option" where
  "set_right a p m = do { n \<leftarrow> m a; Some (m(a \<mapsto> n\<lparr>right_child := p\<rparr>)) }"

definition set_parent :: "addr \<Rightarrow> addr option \<Rightarrow> 'a memory \<Rightarrow> 'a memory option" where
  "set_parent a p m = do { n \<leftarrow> m a; Some (m(a \<mapsto> n\<lparr>parent := p\<rparr>)) }"

definition set_key :: "addr \<Rightarrow> 'a \<Rightarrow> 'a memory \<Rightarrow> 'a memory option" where
  "set_key a k m = do { n \<leftarrow> m a; Some (m(a \<mapsto> n\<lparr>key := k\<rparr>)) }"

lemmas node_updates = set_left_def set_right_def set_parent_def set_key_def destroy_node_def

section \<open>Insertion and look-up\<close>

text \<open>
  The loop of \<open>InsertUniqueNode\<close>: the node with an equivalent key, or the last node before the null
  pointer (\<open>parent_before\<close>).
\<close>

partial_function (option) find_place :: "('a \<Rightarrow> 'a \<Rightarrow> bool) \<Rightarrow> 'a memory \<Rightarrow> 'a \<Rightarrow> addr option \<Rightarrow> addr \<Rightarrow>
    (addr + addr) option" where
  "find_place cmp m k p before =
     (case p of
        None \<Rightarrow> Some (Inr before)
      | Some a \<Rightarrow> do {
          n \<leftarrow> m a;
          if cmp k (key n) then find_place cmp m k (left_child n) a
          else if cmp (key n) k then find_place cmp m k (right_child n) a
          else Some (Inl a) })"

definition insert_unique_node :: "('a \<Rightarrow> 'a \<Rightarrow> bool) \<Rightarrow> addr \<Rightarrow> 'a bst \<Rightarrow> ((addr \<times> bool) \<times> 'a bst) option" where
  "insert_unique_node cmp inserted T =
     (case root T of
        None \<Rightarrow> Some ((inserted, True), T\<lparr>root := Some inserted, bst_size := bst_size T + 1\<rparr>)
      | Some r \<Rightarrow> do {
          n \<leftarrow> memory T inserted;
          place \<leftarrow> find_place cmp (memory T) (key n) (Some r) r;
          case place of
            Inl duplicate \<Rightarrow> do {
              m \<leftarrow> destroy_node inserted (memory T);
              Some ((duplicate, False), T\<lparr>memory := m\<rparr>) }
          | Inr before \<Rightarrow> do {
              b \<leftarrow> memory T before;
              m1 \<leftarrow> (if cmp (key n) (key b) then set_left before (Some inserted) (memory T)
                     else set_right before (Some inserted) (memory T));
              m2 \<leftarrow> set_parent inserted (Some before) m1;
              Some ((inserted, True), T\<lparr>memory := m2, bst_size := bst_size T + 1\<rparr>) } })"

definition bst_insert :: "('a \<Rightarrow> 'a \<Rightarrow> bool) \<Rightarrow> 'a \<Rightarrow> 'a bst \<Rightarrow> ((addr \<times> bool) \<times> 'a bst) option" where
  "bst_insert cmp k T = (case construct_node k T of (a, T') \<Rightarrow> insert_unique_node cmp a T')"

text \<open>The loop over a range of the constructor and of \<open>insert\<close>.\<close>

fun insert_range :: "('a \<Rightarrow> 'a \<Rightarrow> bool) \<Rightarrow> 'a list \<Rightarrow> 'a bst \<Rightarrow> 'a bst option" where
  "insert_range cmp [] T = Some T"
| "insert_range cmp (k # ks) T = do { (_, T') \<leftarrow> bst_insert cmp k T; insert_range cmp ks T' }"

partial_function (option) find_unique :: "('a \<Rightarrow> 'a \<Rightarrow> bool) \<Rightarrow> 'a memory \<Rightarrow> 'a \<Rightarrow> addr option \<Rightarrow> addr option option" where
  "find_unique cmp m k p =
     (case p of
        None \<Rightarrow> Some None
      | Some a \<Rightarrow> do {
          n \<leftarrow> m a;
          if cmp k (key n) then find_unique cmp m k (left_child n)
          else if cmp (key n) k then find_unique cmp m k (right_child n)
          else Some (Some a) })"

definition bst_find :: "('a \<Rightarrow> 'a \<Rightarrow> bool) \<Rightarrow> 'a \<Rightarrow> 'a bst \<Rightarrow> addr option option" where
  "bst_find cmp k T = find_unique cmp (memory T) k (root T)"

section \<open>Iteration\<close>

partial_function (option) leftmost :: "'a memory \<Rightarrow> addr \<Rightarrow> addr option" where
  "leftmost m a = do { n \<leftarrow> m a; case left_child n of None \<Rightarrow> Some a | Some b \<Rightarrow> leftmost m b }"

definition leftmost_node :: "'a memory \<Rightarrow> addr option \<Rightarrow> addr option option" where
  "leftmost_node m p = (case p of None \<Rightarrow> Some None | Some a \<Rightarrow> map_option Some (leftmost m a))"

definition bst_begin :: "'a bst \<Rightarrow> addr option option" where
  "bst_begin T = leftmost_node (memory T) (root T)"

definition is_left_child :: "'a memory \<Rightarrow> addr \<Rightarrow> bool option" where
  "is_left_child m a = do { n \<leftarrow> m a; p \<leftarrow> parent n; pn \<leftarrow> m p; Some (left_child pn = Some a) }"

text \<open>The second half of \<open>FindNextNode\<close>.\<close>

partial_function (option) climb :: "'a memory \<Rightarrow> addr \<Rightarrow> addr option option" where
  "climb m a = do {
     n \<leftarrow> m a;
     case parent n of
       None \<Rightarrow> Some None
     | Some p \<Rightarrow> do { l \<leftarrow> is_left_child m a; if l then Some (Some p) else climb m p } }"

definition find_next_node :: "'a memory \<Rightarrow> addr option \<Rightarrow> addr option option" where
  "find_next_node m p = do {
     a \<leftarrow> p;
     n \<leftarrow> m a;
     case right_child n of Some r \<Rightarrow> map_option Some (leftmost m r) | None \<Rightarrow> climb m a }"

text \<open>\<open>for (; it != End(); ++it)\<close> with the keys it reads.\<close>

partial_function (option) read_from :: "'a memory \<Rightarrow> addr option \<Rightarrow> 'a list option" where
  "read_from m p =
     (case p of
        None \<Rightarrow> Some []
      | Some a \<Rightarrow> do { n \<leftarrow> m a; p' \<leftarrow> find_next_node m p; ks \<leftarrow> read_from m p'; Some (key n # ks) })"

definition bst_read :: "'a bst \<Rightarrow> 'a list option" where
  "bst_read T = do { b \<leftarrow> bst_begin T; read_from (memory T) b }"

section \<open>Erasure and destruction\<close>

text \<open>Write \<open>child\<close> to the child field of \<open>p\<close> that points to \<open>a\<close> (the right one unless the left one does).\<close>

definition replace_child :: "addr \<Rightarrow> addr \<Rightarrow> addr option \<Rightarrow> 'a memory \<Rightarrow> 'a memory option" where
  "replace_child p a child m = do {
     n \<leftarrow> m p;
     if left_child n = Some a then set_left p child m else set_right p child m }"

definition erase_unique :: "('a \<Rightarrow> 'a \<Rightarrow> bool) \<Rightarrow> 'a \<Rightarrow> 'a bst \<Rightarrow> (bool \<times> 'a bst) option" where
  "erase_unique cmp k T = do {
     it \<leftarrow> bst_find cmp k T;
     case it of
       None \<Rightarrow> Some (False, T)
     | Some a \<Rightarrow> do {
         n \<leftarrow> memory T a;
         T' \<leftarrow>
           (case (left_child n, right_child n) of
              (None, None) \<Rightarrow>
                if Some a = root T then do { m \<leftarrow> destroy_node a (memory T); Some (T\<lparr>memory := m, root := None\<rparr>) }
                else do {
                  p \<leftarrow> parent n;
                  m1 \<leftarrow> replace_child p a None (memory T);
                  m2 \<leftarrow> destroy_node a m1;
                  Some (T\<lparr>memory := m2\<rparr>) }
            | (Some _, Some r) \<Rightarrow> do {
                c \<leftarrow> leftmost (memory T) r;
                cn \<leftarrow> memory T c;
                m1 \<leftarrow> set_key a (key cn) (memory T);
                p \<leftarrow> parent cn;
                m2 \<leftarrow> replace_child p c (right_child cn) m1;
                m3 \<leftarrow> destroy_node c m2;
                Some (T\<lparr>memory := m3\<rparr>) }
            | (l, r) \<Rightarrow>
                let child = (if l \<noteq> None then l else r) in
                if Some a = root T
                then do { m \<leftarrow> destroy_node a (memory T); Some (T\<lparr>memory := m, root := child\<rparr>) }
                else do {
                  p \<leftarrow> parent n;
                  m1 \<leftarrow> replace_child p a child (memory T);
                  m2 \<leftarrow> destroy_node a m1;
                  Some (T\<lparr>memory := m2\<rparr>) });
         Some (True, T'\<lparr>bst_size := bst_size T' - 1\<rparr>) } }"

text \<open>\<open>DestroySubtree\<close>: rotate to the right until there is no left child, destroy the node, go on with its right child.\<close>

partial_function (option) destroy_subtree :: "'a memory \<Rightarrow> addr option \<Rightarrow> 'a memory option" where
  "destroy_subtree m p =
     (case p of
        None \<Rightarrow> Some m
      | Some a \<Rightarrow> do {
          n \<leftarrow> m a;
          case left_child n of
            None \<Rightarrow> do { m' \<leftarrow> destroy_node a m; destroy_subtree m' (right_child n) }
          | Some b \<Rightarrow> do {
              bn \<leftarrow> m b;
              m1 \<leftarrow> set_left a (right_child bn) m;
              m2 \<leftarrow> set_right b (Some a) m1;
              destroy_subtree m2 (Some b) } })"

definition bst_clear :: "'a bst \<Rightarrow> 'a bst option" where
  "bst_clear T = do { m \<leftarrow> destroy_subtree (memory T) (root T); Some (T\<lparr>memory := m, root := None, bst_size := 0\<rparr>) }"

declare find_place.simps [code] find_unique.simps [code] leftmost.simps [code] climb.simps [code]
  read_from.simps [code] destroy_subtree.simps [code]

section \<open>The tree that the memory holds\<close>

text \<open>A tree of addresses and keys; \<open>links\<close> is about the child pointers, \<open>parents\<close> about the parent pointers.\<close>

type_synonym 'a ghost = "(addr \<times> 'a) tree"

fun ptr :: "'a ghost \<Rightarrow> addr option" where
  "ptr \<langle>\<rangle> = None"
| "ptr \<langle>_, (a, _), _\<rangle> = Some a"

fun links :: "'a memory \<Rightarrow> 'a ghost \<Rightarrow> bool" where
  "links m \<langle>\<rangle> = True"
| "links m \<langle>l, (a, k), r\<rangle> =
     ((\<exists>p. m a = Some \<lparr>key = k, left_child = ptr l, right_child = ptr r, parent = p\<rparr>) \<and> links m l \<and> links m r)"

fun parents :: "'a memory \<Rightarrow> addr option \<Rightarrow> 'a ghost \<Rightarrow> bool" where
  "parents m par \<langle>\<rangle> = True"
| "parents m par \<langle>l, (a, k), r\<rangle> =
     (map_option parent (m a) = Some par \<and> parents m (Some a) l \<and> parents m (Some a) r)"

abbreviation addrs :: "'a ghost \<Rightarrow> addr list" where
  "addrs t \<equiv> map fst (inorder t)"

abbreviation keys :: "'a ghost \<Rightarrow> 'a list" where
  "keys t \<equiv> map snd (inorder t)"

definition holds :: "('a \<Rightarrow> 'a \<Rightarrow> bool) \<Rightarrow> 'a bst \<Rightarrow> 'a ghost \<Rightarrow> bool" where
  "holds cmp T t \<longleftrightarrow> links (memory T) t \<and> root T = ptr t \<and> distinct (addrs t) \<and>
     dom (memory T) = set (addrs t) \<and> bst_size T = length (inorder t) \<and>
     sorted_wrt cmp (keys t) \<and> (\<forall>a \<in> set (addrs t). a < next_addr T)"

definition threaded :: "'a bst \<Rightarrow> 'a ghost \<Rightarrow> bool" where
  "threaded T t \<longleftrightarrow> parents (memory T) None t"

lemmas holdsD = holds_def [THEN iffD1, THEN conjunct1]
  holds_def [THEN iffD1, THEN conjunct2, THEN conjunct1]

lemma node_links_frame: "links m t \<Longrightarrow> (\<And>a. a \<in> set (addrs t) \<Longrightarrow> m' a = m a) \<Longrightarrow> links m' t"
  by (induction m t rule: links.induct) auto

lemma parents_frame: "parents m par t \<Longrightarrow> (\<And>a. a \<in> set (addrs t) \<Longrightarrow> m' a = m a) \<Longrightarrow> parents m' par t"
  by (induction m par t rule: parents.induct) auto

lemma ptr_None [simp]: "ptr t = None \<longleftrightarrow> t = \<langle>\<rangle>"
  by (cases t rule: ptr.cases) auto

lemma ptr_Some: "ptr t = Some a \<Longrightarrow> a \<in> set (addrs t)"
  by (cases t rule: ptr.cases) auto

section \<open>Descent\<close>

fun place :: "('a \<Rightarrow> 'a \<Rightarrow> bool) \<Rightarrow> 'a \<Rightarrow> 'a ghost \<Rightarrow> addr \<Rightarrow> addr + addr" where
  "place cmp k \<langle>\<rangle> before = Inr before"
| "place cmp k \<langle>l, (a, x), r\<rangle> before =
     (if cmp k x then place cmp k l a else if cmp x k then place cmp k r a else Inl a)"

lemma find_place_eq: "links m t \<Longrightarrow> find_place cmp m k (ptr t) before = Some (place cmp k t before)"
  by (induction cmp k t before rule: place.induct) (auto simp: find_place.simps)

lemma find_unique_eq:
  "links m t \<Longrightarrow> find_unique cmp m k (ptr t) = Some (case place cmp k t before of Inl a \<Rightarrow> Some a | Inr _ \<Rightarrow> None)"
  by (induction cmp k t before rule: place.induct) (auto simp: find_unique.simps)

lemma place_Inl:
  "place cmp k t before = Inl a \<Longrightarrow> \<exists>x. (a, x) \<in> set (inorder t) \<and> \<not> cmp k x \<and> \<not> cmp x k"
  by (induction cmp k t before rule: place.induct) (auto split: if_splits)

lemma place_Inr_addr: "place cmp k t before = Inr b \<Longrightarrow> t \<noteq> \<langle>\<rangle> \<Longrightarrow> b \<in> set (addrs t)"
proof (induction cmp k t before rule: place.induct)
  case (2 cmp k l a x r before)
  then show ?case by (cases "l = \<langle>\<rangle>"; cases "r = \<langle>\<rangle>") (auto split: if_splits)
qed simp

fun tree_insert :: "('a \<Rightarrow> 'a \<Rightarrow> bool) \<Rightarrow> addr \<Rightarrow> 'a \<Rightarrow> 'a ghost \<Rightarrow> 'a ghost" where
  "tree_insert cmp a k \<langle>\<rangle> = \<langle>\<langle>\<rangle>, (a, k), \<langle>\<rangle>\<rangle>"
| "tree_insert cmp a k \<langle>l, (b, x), r\<rangle> =
     (if cmp k x then \<langle>tree_insert cmp a k l, (b, x), r\<rangle> else \<langle>l, (b, x), tree_insert cmp a k r\<rangle>)"

lemma tree_insert_mset: "mset (inorder (tree_insert cmp a k t)) = add_mset (a, k) (mset (inorder t))"
  by (induction cmp a k t rule: tree_insert.induct) auto

lemma tree_insert_set [simp]: "set_tree (tree_insert cmp a k t) = insert (a, k) (set_tree t)"
  by (induction cmp a k t rule: tree_insert.induct) auto

lemma tree_insert_size [simp]: "size (tree_insert cmp a k t) = size t + 1"
  by (induction cmp a k t rule: tree_insert.induct) auto

lemma tree_insert_distinct:
  "a \<notin> set (addrs t) \<Longrightarrow> distinct (addrs t) \<Longrightarrow> distinct (addrs (tree_insert cmp a k t))"
  by (induction cmp a k t rule: tree_insert.induct) auto

lemma tree_insert_ptr: "t \<noteq> \<langle>\<rangle> \<Longrightarrow> ptr (tree_insert cmp a k t) = ptr t"
  by (cases t rule: ptr.cases) auto

text \<open>The two writes that link the new node.\<close>

definition linked_in :: "('a \<Rightarrow> 'a \<Rightarrow> bool) \<Rightarrow> 'a \<Rightarrow> addr \<Rightarrow> addr \<Rightarrow> 'a bst_node \<Rightarrow> 'a memory \<Rightarrow> 'a memory" where
  "linked_in cmp k a b n m =
     m(b \<mapsto> if cmp k (key n) then n\<lparr>left_child := Some a\<rparr> else n\<lparr>right_child := Some a\<rparr>,
       a \<mapsto> \<lparr>key = k, left_child = None, right_child = None, parent = Some b\<rparr>)"

lemma linked_in_frame [simp]:
  assumes "a \<notin> fst ` set_tree t" "b \<notin> fst ` set_tree t"
  shows "links (linked_in cmp k a b n m) t = links m t"
    "parents (linked_in cmp k a b n m) par t = parents m par t"
  using assms by (auto simp: linked_in_def elim!: node_links_frame parents_frame)

lemma linked_in_apply [simp]:
  "linked_in cmp k a b n m a = Some \<lparr>key = k, left_child = None, right_child = None, parent = Some b\<rparr>"
  "a \<noteq> b \<Longrightarrow> linked_in cmp k a b n m b =
     Some (if cmp k (key n) then n\<lparr>left_child := Some a\<rparr> else n\<lparr>right_child := Some a\<rparr>)"
  "c \<noteq> a \<Longrightarrow> c \<noteq> b \<Longrightarrow> linked_in cmp k a b n m c = m c"
  by (auto simp: linked_in_def)

lemma link_new_node:
  assumes "place cmp k t before = Inr b" "links m t" "t \<noteq> \<langle>\<rangle>"
    and "a \<notin> fst ` set_tree t" "distinct (addrs t)"
  shows "\<exists>n. m b = Some n \<and> links (linked_in cmp k a b n m) (tree_insert cmp a k t) \<and>
    (parents m par t \<longrightarrow> parents (linked_in cmp k a b n m) par (tree_insert cmp a k t))"
  using assms
proof (induction cmp k t before arbitrary: par rule: place.induct)
  case (2 cmp k l c x r before)
  show ?case
  proof (cases "cmp k x")
    case True
    show ?thesis
    proof (cases "l = \<langle>\<rangle>")
      case empty: True
      with True "2.prems" show ?thesis by auto
    next
      case False
      from True "2.prems" have pl: "place cmp k l c = Inr b" by simp
      with False have b: "b \<in> fst ` set_tree l" using place_Inr_addr by fastforce
      with "2.prems" have "b \<noteq> c" "a \<noteq> c" "b \<notin> fst ` set_tree r" "a \<notin> fst ` set_tree r" by auto
      with "2.IH"(1) [OF True pl _ False, of "Some c"] "2.prems" True False show ?thesis
        by (auto simp: tree_insert_ptr)
    qed
  next
    case left: False
    with "2.prems" have "cmp x k" by (auto split: if_splits)
    show ?thesis
    proof (cases "r = \<langle>\<rangle>")
      case True
      with left \<open>cmp x k\<close> "2.prems" show ?thesis by auto
    next
      case False
      from left \<open>cmp x k\<close> "2.prems" have pl: "place cmp k r c = Inr b" by simp
      with False have b: "b \<in> fst ` set_tree r" using place_Inr_addr by fastforce
      with "2.prems" have "b \<noteq> c" "a \<noteq> c" "b \<notin> fst ` set_tree l" "a \<notin> fst ` set_tree l" by auto
      with "2.IH"(2) [OF left \<open>cmp x k\<close> pl _ False, of "Some c"] "2.prems" left False show ?thesis
        by (auto simp: tree_insert_ptr)
    qed
  qed
qed simp

context comparator
begin

lemma place_Inr:
  assumes "sorted_wrt cmp (keys t)" "place cmp k t before = Inr b" "x \<in> snd ` set_tree t"
  shows "cmp k x \<or> cmp x k"
  using assms
proof (induction t arbitrary: before)
  case (Node l p r)
  obtain a y where p [simp]: "p = (a, y)" by (cases p)
  from Node.prems(1) have s: "sorted_wrt cmp (keys l)" "sorted_wrt cmp (keys r)"
    "\<And>z. z \<in> snd ` set_tree l \<Longrightarrow> cmp z y" "\<And>z. z \<in> snd ` set_tree r \<Longrightarrow> cmp y z"
    by (auto simp: sorted_wrt_append)
  from Node.prems(3) consider "x \<in> snd ` set_tree l" | "x = y" | "x \<in> snd ` set_tree r" by auto
  then show ?case
  proof cases
    case 1
    with s(3) have "cmp x y" by blast
    with 1 Node.prems(2) s(1) Node.IH(1) show ?thesis by (auto split: if_splits dest: trans)
  next
    case 2
    with Node.prems(2) show ?thesis by (auto split: if_splits)
  next
    case 3
    with s(4) have "cmp y x" by blast
    with 3 Node.prems(2) s(2) Node.IH(2) show ?thesis by (auto split: if_splits dest: trans)
  qed
qed simp

lemma tree_insert_sorted:
  assumes "sorted_wrt cmp (keys t)" "place cmp k t before = Inr b"
  shows "sorted_wrt cmp (keys (tree_insert cmp a k t))"
  using assms
proof (induction t arbitrary: before)
  case (Node l p r)
  obtain c y where p [simp]: "p = (c, y)" by (cases p)
  from Node.prems(1) have s: "sorted_wrt cmp (keys l)" "sorted_wrt cmp (keys r)"
    "\<And>z. z \<in> snd ` set_tree l \<Longrightarrow> cmp z y" "\<And>z. z \<in> snd ` set_tree r \<Longrightarrow> cmp y z"
    "\<And>z w. z \<in> snd ` set_tree l \<Longrightarrow> w \<in> snd ` set_tree r \<Longrightarrow> cmp z w"
    by (auto simp: sorted_wrt_append)
  show ?case
  proof (cases "cmp k y")
    case True
    then have "\<And>z. z \<in> snd ` set_tree r \<Longrightarrow> cmp k z" using s(4) trans by blast
    with True s Node.IH(1) Node.prems(2) show ?thesis by (auto simp: sorted_wrt_append)
  next
    case False
    with Node.prems(2) have "cmp y k" "place cmp k r c = Inr b" by (auto split: if_splits)
    then have "\<And>z. z \<in> snd ` set_tree l \<Longrightarrow> cmp z k" using s(3) trans by blast
    with False \<open>cmp y k\<close> \<open>place cmp k r c = Inr b\<close> s Node.IH(2) show ?thesis by (auto simp: sorted_wrt_append)
  qed
qed simp

text \<open>Insertion of a fresh key links a new node, of a present one gives the node back.\<close>

lemma bst_insert_holds:
  assumes h: "holds cmp T t"
  shows "\<exists>a b T' t'. bst_insert cmp k T = Some ((a, b), T') \<and> holds cmp T' t' \<and>
    (threaded T t \<longrightarrow> threaded T' t') \<and>
    (if b then mset (keys t') = add_mset k (mset (keys t)) \<and> (\<forall>x \<in> set (keys t). cmp k x \<or> cmp x k)
     else t' = t \<and> (\<exists>x. (a, x) \<in> set_tree t \<and> \<not> cmp k x \<and> \<not> cmp x k))"
proof -
  let ?a = "next_addr T"
  let ?n = "\<lparr>key = k, left_child = None, right_child = None, parent = None\<rparr>"
  let ?m = "(memory T)(?a \<mapsto> ?n)"
  from h have d: "links (memory T) t" "root T = ptr t" "distinct (addrs t)" "dom (memory T) = fst ` set_tree t"
    "bst_size T = length (inorder t)" "sorted_wrt cmp (keys t)" "\<And>a. a \<in> fst ` set_tree t \<Longrightarrow> a < ?a"
    unfolding holds_def by auto
  then have fresh: "?a \<notin> fst ` set_tree t" by blast
  then have other: "a \<noteq> ?a" if "a \<in> set (addrs t)" for a using that by (metis set_inorder set_map)
  have lm: "links ?m t" using d(1) by (rule node_links_frame) (erule fun_upd_other [OF other])
  have pm: "threaded T t \<Longrightarrow> parents ?m None t"
    unfolding threaded_def by (erule parents_frame) (erule fun_upd_other [OF other])
  show ?thesis
  proof (cases "t = \<langle>\<rangle>")
    case True
    with d have "memory T = Map.empty" by simp
    with True d show ?thesis
      by (intro exI [of _ ?a] exI [of _ True]
          exI [of _ "T\<lparr>memory := ?m, next_addr := ?a + 1, root := Some ?a, bst_size := bst_size T + 1\<rparr>"]
          exI [of _ "\<langle>\<langle>\<rangle>, (?a, k), \<langle>\<rangle>\<rangle>"])
         (simp add: bst_insert_def construct_node_def insert_unique_node_def holds_def threaded_def)
  next
    case False
    then obtain r where r: "ptr t = Some r" by (cases "ptr t") auto
    have e: "find_place cmp ?m k (Some r) r = Some (place cmp k t r)"
      using find_place_eq [OF lm, of cmp k r] r by simp
    show ?thesis
    proof (cases "place cmp k t r")
      case (Inl dup)
      have "bst_insert cmp k T = Some ((dup, False), T\<lparr>next_addr := ?a + 1\<rparr>)"
        using d(2) r e Inl fresh d(4)
        by (auto simp: bst_insert_def construct_node_def insert_unique_node_def destroy_node_def
            fun_upd_idem domIff)
      with place_Inl [OF Inl] h show ?thesis
        by (intro exI [of _ dup] exI [of _ False] exI [of _ "T\<lparr>next_addr := ?a + 1\<rparr>"] exI [of _ t])
           (auto simp: holds_def threaded_def less_SucI)
    next
      case (Inr b)
      from link_new_node [OF Inr lm False fresh d(3), of None] obtain n where
        n: "?m b = Some n" "links (linked_in cmp k ?a b n ?m) (tree_insert cmp ?a k t)"
          "parents ?m None t \<Longrightarrow> parents (linked_in cmp k ?a b n ?m) None (tree_insert cmp ?a k t)"
        by blast
      note b = other [OF place_Inr_addr [OF Inr False]] place_Inr_addr [OF Inr False]
      let ?T = "T\<lparr>next_addr := ?a + 1, memory := linked_in cmp k ?a b n ?m, bst_size := bst_size T + 1\<rparr>"
      have "bst_insert cmp k T = Some ((?a, True), ?T)"
        using d(2) r e Inr n(1) b
        by (simp add: bst_insert_def construct_node_def insert_unique_node_def node_updates linked_in_def
            fun_upd_twist)
      moreover have "holds cmp ?T (tree_insert cmp ?a k t)"
        using d n(2) tree_insert_distinct [of ?a t cmp k] fresh tree_insert_sorted [OF d(6) Inr]
          tree_insert_ptr [OF False] b
        by (auto simp: holds_def linked_in_def less_SucI)
      moreover have "mset (keys (tree_insert cmp ?a k t)) = add_mset k (mset (keys t))"
        by (simp add: tree_insert_mset)
      ultimately show ?thesis
        using n(3) pm place_Inr [OF d(6) Inr]
        by (intro exI [of _ ?a] exI [of _ True] exI [of _ ?T] exI [of _ "tree_insert cmp ?a k t"])
           (auto simp: threaded_def)
    qed
  qed
qed

end

section \<open>Traversal\<close>

lemma hd_inorder: "ptr t = Some a \<Longrightarrow> hd (inorder t @ xs) = hd (inorder t)"
  by (cases t) (auto simp: hd_append)

lemma leftmost_eq: "links m t \<Longrightarrow> ptr t = Some a \<Longrightarrow> leftmost m a = Some (fst (hd (inorder t)))"
proof (induction t arbitrary: a)
  case (Node l p r)
  then show ?case
    by (cases p; cases "ptr l") (auto simp: leftmost.simps [of m a] hd_inorder)
qed simp

lemma climb_left:
  assumes "m a = Some n" "parent n = Some p" "m p = Some pn" "left_child pn = Some a"
  shows "climb m a = Some (Some p)"
  using assms by (simp add: climb.simps is_left_child_def)

lemma climb_right:
  assumes "m a = Some n" "parent n = Some p" "m p = Some pn" "left_child pn \<noteq> Some a"
  shows "climb m a = climb m p"
  by (subst climb.simps) (simp add: assms is_left_child_def)

text \<open>
  From the leftmost node of a subtree, the iterator reads the subtree's keys in order and goes on with the
  first ancestor that has the subtree on its left.
\<close>

lemma read_subtree:
  assumes "links m t" "parents m par t" "distinct (addrs t)" "ptr t = Some a"
  shows "read_from m (Some (fst (hd (inorder t)))) =
    do { p \<leftarrow> climb m a; ks \<leftarrow> read_from m p; Some (keys t @ ks) }"
  using assms
proof (induction t arbitrary: a par)
  case (Node l x r)
  obtain k where x [simp]: "x = (a, k)" using Node.prems(4) by (cases x) simp
  obtain n where n: "m a = Some n" "key n = k" "left_child n = ptr l" "right_child n = ptr r"
    using Node.prems(1) by auto
  have here: "read_from m (Some a) = do { p \<leftarrow> climb m a; ks \<leftarrow> read_from m p; Some (k # keys r @ ks) }"
  proof (cases "ptr r")
    case None
    then have "r = \<langle>\<rangle>" by simp
    with n show ?thesis
      by (simp add: read_from.simps [of m "Some a"] find_next_node_def)
  next
    case (Some ar)
    from Some have ar: "ar \<in> fst ` set_tree r" using ptr_Some by fastforce
    obtain rn where rn: "m ar = Some rn" "parent rn = Some a"
      using Node.prems(2) Some by (cases r rule: ptr.cases) auto
    have "left_child n \<noteq> Some ar"
      using n(3) ar Node.prems(3) ptr_Some [of l ar] by auto
    with rn n(1) have "climb m ar = climb m a" by (intro climb_right)
    moreover have "read_from m (Some (fst (hd (inorder r)))) =
        do { p \<leftarrow> climb m ar; ks \<leftarrow> read_from m p; Some (keys r @ ks) }"
      using Node.prems Some by (intro Node.IH(2)) auto
    moreover have "leftmost m ar = Some (fst (hd (inorder r)))"
      using leftmost_eq [of m r ar] Node.prems(1) Some by simp
    ultimately show ?thesis
      using n Some by (simp add: read_from.simps [of m "Some a"] find_next_node_def bind_assoc)
  qed
  show ?case
  proof (cases "ptr l")
    case None
    with here show ?thesis by simp
  next
    case (Some al)
    obtain ln where ln: "m al = Some ln" "parent ln = Some a"
      using Node.prems(2) Some by (cases l rule: ptr.cases) auto
    with n Some have "climb m al = Some (Some a)" by (intro climb_left) auto
    moreover have "read_from m (Some (fst (hd (inorder l)))) =
        do { p \<leftarrow> climb m al; ks \<leftarrow> read_from m p; Some (keys l @ ks) }"
      using Node.prems Some by (intro Node.IH(1)) auto
    moreover have "inorder l \<noteq> []" using Some by (cases l) auto
    ultimately show ?thesis using here by (simp add: bind_assoc)
  qed
qed simp

lemma bst_read_threaded:
  assumes "holds cmp T t" "threaded T t"
  shows "bst_read T = Some (keys t)"
proof (cases "ptr t")
  case None
  with assms show ?thesis
    by (simp add: holds_def bst_read_def bst_begin_def leftmost_node_def read_from.simps)
next
  case (Some a)
  from assms have h: "links (memory T) t" "parents (memory T) None t" "distinct (addrs t)" "root T = Some a"
    using Some by (auto simp: holds_def threaded_def)
  obtain n where "memory T a = Some n" "parent n = None"
    using h(2) Some by (cases t rule: ptr.cases) auto
  then have "climb (memory T) a = Some None" by (simp add: climb.simps)
  with read_subtree [OF h(1-3) Some] leftmost_eq [OF h(1) Some] h(4) show ?thesis
    by (simp add: bst_read_def bst_begin_def leftmost_node_def read_from.simps [of _ None])
qed

section \<open>Sequences of insertions and look-ups\<close>

lemma new_bst_holds: "holds cmp new_bst \<langle>\<rangle>" "threaded new_bst \<langle>\<rangle>"
  by (simp_all add: holds_def threaded_def new_bst_def)

text \<open>No two keys are equivalent.\<close>

definition distinct_by :: "('a \<Rightarrow> 'a \<Rightarrow> bool) \<Rightarrow> 'a list \<Rightarrow> bool" where
  "distinct_by cmp = sorted_wrt (\<lambda>x y. cmp x y \<or> cmp y x)"

context comparator
begin

definition equiv :: "'a \<Rightarrow> 'a \<Rightarrow> bool" where
  "equiv x y \<longleftrightarrow> \<not> cmp x y \<and> \<not> cmp y x"

lemma equiv_trans: "equiv x y \<Longrightarrow> equiv y z \<Longrightarrow> equiv x z"
  unfolding equiv_def using weak by blast

lemma equiv_refl [simp]: "equiv x x"
  by (simp add: equiv_def irrefl)

lemma insert_range_holds:
  assumes "holds cmp T t" "threaded T t"
  shows "\<exists>T' t'. insert_range cmp ks T = Some T' \<and> holds cmp T' t' \<and> threaded T' t' \<and>
    mset (keys t') \<subseteq># mset (keys t) + mset ks \<and>
    (\<forall>x \<in> set (keys t) \<union> set ks. \<exists>y \<in> set (keys t'). equiv x y) \<and>
    (bst_size T' = bst_size T + length ks \<longleftrightarrow>
       distinct_by cmp ks \<and> (\<forall>x \<in> set (keys t). \<forall>y \<in> set ks. cmp x y \<or> cmp y x))"
  using assms
proof (induction ks arbitrary: T t)
  case Nil
  then show ?case
    by (intro exI [of _ T] exI [of _ t]) (auto simp: distinct_by_def holds_def intro: bexI [of "\<lambda>y. equiv (snd x) (snd y)" x for x, OF equiv_refl])
next
  case (Cons k ks)
  from bst_insert_holds [OF Cons.prems(1), of k] Cons.prems(2) obtain a b T1 t1 where
    i: "bst_insert cmp k T = Some ((a, b), T1)" "holds cmp T1 t1" "threaded T1 t1"
    and b: "if b then mset (keys t1) = add_mset k (mset (keys t)) \<and> (\<forall>x \<in> set (keys t). cmp k x \<or> cmp x k)
       else t1 = t \<and> (\<exists>x. (a, x) \<in> set_tree t \<and> \<not> cmp k x \<and> \<not> cmp x k)"
    by blast
  from Cons.IH [OF i(2,3)] obtain T' t' where
    r: "insert_range cmp ks T1 = Some T'" "holds cmp T' t'" "threaded T' t'"
      "mset (keys t') \<subseteq># mset (keys t1) + mset ks"
    and eqv: "\<forall>x \<in> set (keys t1) \<union> set ks. \<exists>y \<in> set (keys t'). equiv x y"
    and sz: "bst_size T' = bst_size T1 + length ks \<longleftrightarrow>
       distinct_by cmp ks \<and> (\<forall>x \<in> set (keys t1). \<forall>y \<in> set ks. cmp x y \<or> cmp y x)"
    by blast
  have size: "bst_size T = length (keys t)" "bst_size T1 = length (keys t1)" "bst_size T' = length (keys t')"
    using Cons.prems(1) i(2) r(2) by (simp_all add: holds_def)
  have goal: "mset (keys t') \<subseteq># mset (keys t) + mset (k # ks) \<and>
    (\<forall>x \<in> set (keys t) \<union> set (k # ks). \<exists>y \<in> set (keys t'). equiv x y) \<and>
    (bst_size T' = bst_size T + length (k # ks) \<longleftrightarrow>
       distinct_by cmp (k # ks) \<and> (\<forall>x \<in> set (keys t). \<forall>y \<in> set (k # ks). cmp x y \<or> cmp y x))"
  proof (cases b)
    case True
    with b have m: "mset (keys t1) = add_mset k (mset (keys t))" and f: "\<forall>x \<in> set (keys t). cmp k x \<or> cmp x k"
      by simp_all
    from mset_eq_setD [of "keys t1" "k # keys t"] m have st: "set (keys t1) = insert k (set (keys t))" by simp
    from mset_eq_length [of "keys t1" "k # keys t"] m have "bst_size T1 = bst_size T + 1"
      unfolding size by simp
    with sz [unfolded st ball_simps] f
    have "bst_size T' = bst_size T + length (k # ks) \<longleftrightarrow>
       distinct_by cmp (k # ks) \<and> (\<forall>x \<in> set (keys t). \<forall>y \<in> set (k # ks). cmp x y \<or> cmp y x)"
      by (auto simp: distinct_by_def)
    moreover have "\<forall>x \<in> set (keys t) \<union> set (k # ks). \<exists>y \<in> set (keys t'). equiv x y"
      using eqv st by auto
    ultimately show ?thesis using r(4) m by simp
  next
    case False
    with b obtain x where t1: "t1 = t" and x: "x \<in> set (keys t)" "equiv k x"
      by (force simp: equiv_def)
    from size_mset_mono [OF r(4)] have "bst_size T' < bst_size T + length (k # ks)"
      unfolding size t1 by (simp only: size_union size_mset list.size)
    moreover have "\<not> (\<forall>x \<in> set (keys t). \<forall>y \<in> set (k # ks). cmp x y \<or> cmp y x)"
      using x by (auto simp: equiv_def)
    moreover have "\<exists>y \<in> set (keys t'). equiv k y" using eqv x t1 equiv_trans by blast
    moreover have "mset (keys t') \<subseteq># mset (keys t) + mset (k # ks)"
      using r(4) unfolding t1
      by (rule subset_mset.order_trans) (simp add: subset_mset.le_iff_add)
    ultimately show ?thesis using eqv t1 by auto
  qed
  have "insert_range cmp (k # ks) T = Some T'" using i(1) r(1) by simp
  with r(2,3) goal show ?case by blast
qed

lemma bst_find_holds:
  assumes "holds cmp T t"
  shows "\<exists>p. bst_find cmp k T = Some p \<and>
    (case p of None \<Rightarrow> \<forall>x \<in> set (keys t). \<not> equiv k x | Some a \<Rightarrow> \<exists>x. (a, x) \<in> set_tree t \<and> equiv k x)"
proof -
  from assms have h: "links (memory T) t" "root T = ptr t" "sorted_wrt cmp (keys t)"
    unfolding holds_def by auto
  show ?thesis
    using find_unique_eq [OF h(1), of cmp k 0] h(2) place_Inl [of cmp k t 0] place_Inr [OF h(3), of k 0]
    by (cases "place cmp k t 0") (auto simp: bst_find_def equiv_def)
qed

end

text \<open>Under \<open>std::less\<close> the tree is an ordered set in the sense of the common contract.\<close>

definition bst_valid :: "'a::linorder bst \<Rightarrow> bool" where
  "bst_valid T \<longleftrightarrow> (\<exists>t. holds std_less T t \<and> threaded T t)"

definition bst_keys :: "'a bst \<Rightarrow> 'a list" where
  "bst_keys T = the (bst_read T)"

definition bst_add :: "'a::linorder \<Rightarrow> 'a bst \<Rightarrow> (bool \<times> 'a bst) option" where
  "bst_add k T = map_option (\<lambda>((_, b), T'). (b, T')) (bst_insert std_less k T)"

lemma bst_keys_eq: "holds cmp T t \<Longrightarrow> threaded T t \<Longrightarrow> bst_keys T = keys t"
  by (simp add: bst_keys_def bst_read_threaded)

interpretation bst: ordered_set bst_valid bst_keys bst_add
proof
  fix T :: "'a bst" and x
  assume "bst_valid T"
  then obtain t where t: "holds std_less T t" "threaded T t" by (auto simp: bst_valid_def)
  show "sorted_wrt (<) (bst_keys T)"
    using t unfolding bst_keys_eq [OF t] by (simp add: holds_def std_less_def [abs_def])
  from less.bst_insert_holds [OF t(1), of x] t(2) obtain a b T' t' where
    i: "bst_insert std_less x T = Some ((a, b), T')" "holds std_less T' t'" "threaded T' t'"
    and b: "if b then mset (keys t') = add_mset x (mset (keys t)) \<and> (\<forall>y \<in> set (keys t). std_less x y \<or> std_less y x)
       else t' = t \<and> (\<exists>y. (a, y) \<in> set_tree t \<and> \<not> std_less x y \<and> \<not> std_less y x)"
    by blast
  have "set (keys t') = insert x (set (keys t)) \<and> b = (x \<notin> set (keys t))"
  proof (cases b)
    case True
    with b mset_eq_setD [of "keys t'" "x # keys t"] show ?thesis by (auto simp: std_less_def)
  next
    case False
    with b have "t' = t" "x \<in> snd ` set_tree t" by (force simp: std_less_def not_less)+
    with False show ?thesis by auto
  qed
  with i t show "\<exists>T'. bst_add x T = Some (x \<notin> set (bst_keys T), T') \<and> bst_valid T' \<and>
      set (bst_keys T') = insert x (set (bst_keys T))"
    by (intro exI [of _ T']) (auto simp: bst_add_def bst_valid_def bst_keys_eq)
qed

end
