(* ===== verification/BS_Tree_Erase.thy ===== *)
theory BS_Tree_Erase
  imports BS_Tree
begin

text \<open>
  Erasure and destruction of \<open>binary_search_tree\<close>. \<open>EraseUnique\<close> finds the parent of the node that it takes
  out through the parent pointer, and never updates the parent pointer of the node that it puts in: it is
  right on a tree whose parent pointers are right, and leaves one on which they may not be.
\<close>

section \<open>Subtrees\<close>

lemma links_update [simp]: "a \<notin> fst ` set_tree t \<Longrightarrow> links (m(a := v)) t = links m t"
  by (induction m t rule: links.induct) (auto simp: image_Un)

fun subtree_at :: "addr \<Rightarrow> 'a ghost \<Rightarrow> 'a ghost" where
  "subtree_at a \<langle>\<rangle> = \<langle>\<rangle>"
| "subtree_at a \<langle>l, (b, x), r\<rangle> =
     (if b = a then \<langle>l, (b, x), r\<rangle> else if a \<in> fst ` set_tree l then subtree_at a l else subtree_at a r)"

fun graft :: "addr \<Rightarrow> 'a ghost \<Rightarrow> 'a ghost \<Rightarrow> 'a ghost" where
  "graft a s \<langle>\<rangle> = \<langle>\<rangle>"
| "graft a s \<langle>l, (b, x), r\<rangle> = (if b = a then s else \<langle>graft a s l, (b, x), graft a s r\<rangle>)"

lemma graft_other [simp]: "a \<notin> fst ` set_tree t \<Longrightarrow> graft a s t = t"
  by (induction a s t rule: graft.induct) auto

lemma subtree_at_node:
  assumes "(a, x) \<in> set_tree t" "distinct (addrs t)"
  shows "\<exists>l r. subtree_at a t = \<langle>l, (a, x), r\<rangle>"
  using assms
proof (induction a t rule: subtree_at.induct)
  case (2 a l b y r)
  have d: "(a, x) \<in> set_tree l \<Longrightarrow> a \<in> fst ` set_tree l" "(a, x) \<in> set_tree r \<Longrightarrow> a \<in> fst ` set_tree r"
    by force+
  from "2.prems"(2) have "b \<notin> fst ` set_tree l" "b \<notin> fst ` set_tree r"
    "fst ` set_tree l \<inter> fst ` set_tree r = {}" "distinct (addrs l)" "distinct (addrs r)" by auto
  with "2.prems"(1) d "2.IH" show ?case by (cases "b = a"; cases "a \<in> fst ` set_tree l") auto
qed simp

lemma subtree_at_subset: "set_tree (subtree_at a t) \<subseteq> set_tree t"
  by (induction a t rule: subtree_at.induct) auto

lemma subtree_at_addrs: "fst ` set_tree (subtree_at a t) \<subseteq> fst ` set_tree t"
  using subtree_at_subset by (rule image_mono)

lemma subtree_at_links: "links m t \<Longrightarrow> links m (subtree_at a t)"
  by (induction a t rule: subtree_at.induct) auto

lemma subtree_at_parents: "parents m par t \<Longrightarrow> \<exists>par'. parents m par' (subtree_at a t)"
  by (induction a t arbitrary: par rule: subtree_at.induct) (auto, blast?)

lemma inorder_graft:
  assumes "a \<in> fst ` set_tree t" "distinct (addrs t)"
  shows "\<exists>us vs. inorder t = us @ inorder (subtree_at a t) @ vs \<and> (\<forall>s. inorder (graft a s t) = us @ inorder s @ vs)"
  using assms
proof (induction a t rule: subtree_at.induct)
  case (2 a l b y r)
  show ?case
  proof (cases "b = a")
    case True
    then show ?thesis by (intro exI [of _ "[]"]) simp
  next
    case False
    show ?thesis
    proof (cases "a \<in> fst ` set_tree l")
      case True
      with "2.prems"(2) have "a \<notin> fst ` set_tree r" by auto
      moreover from "2.IH"(1) [OF False True True] "2.prems"(2) obtain us vs where
        "inorder l = us @ inorder (subtree_at a l) @ vs" "\<forall>s. inorder (graft a s l) = us @ inorder s @ vs" by auto
      ultimately show ?thesis using False True
        by (intro exI [of _ us] exI [of _ "vs @ (b, y) # inorder r"]) simp
    next
      case r: False
      with False "2.prems"(1) have "a \<in> fst ` set_tree r" by auto
      from "2.IH"(2) [OF False r this] "2.prems"(2) obtain us vs where
        "inorder r = us @ inorder (subtree_at a r) @ vs" "\<forall>s. inorder (graft a s r) = us @ inorder s @ vs" by auto
      with False r show ?thesis
        by (intro exI [of _ "inorder l @ (b, y) # us"] exI [of _ vs]) simp
    qed
  qed
qed simp

section \<open>The tree cell by cell\<close>

fun cells :: "'a ghost \<Rightarrow> (addr \<times> 'a \<times> addr option \<times> addr option) set" where
  "cells \<langle>\<rangle> = {}"
| "cells \<langle>l, (a, x), r\<rangle> = insert (a, x, ptr l, ptr r) (cells l \<union> cells r)"

lemma links_cells:
  "links m t \<longleftrightarrow> (\<forall>(a, x, pl, pr) \<in> cells t.
     \<exists>p. m a = Some \<lparr>key = x, left_child = pl, right_child = pr, parent = p\<rparr>)"
  by (induction m t rule: links.induct) (simp_all add: ball_Un)

lemma node_ptr_addr: "ptr t = Some a \<Longrightarrow> a \<in> fst ` set_tree t"
  by (cases t rule: ptr.cases) auto

lemma cells_addr: "(a, x, pl, pr) \<in> cells t \<Longrightarrow> (a, x) \<in> set_tree t"
  by (induction t rule: cells.induct) auto

lemma cells_child:
  "(c, x, pl, pr) \<in> cells t \<Longrightarrow> pl = Some a \<or> pr = Some a \<Longrightarrow> parents m par t \<Longrightarrow>
   map_option parent (m a) = Some (Some c)"
proof (induction m par t rule: parents.induct)
  case (2 m par l b y r)
  then show ?case by (cases l rule: ptr.cases; cases r rule: ptr.cases) auto
qed simp

lemma cells_not_both: "(c, x, pl, pr) \<in> cells t \<Longrightarrow> distinct (addrs t) \<Longrightarrow> pl = Some a \<Longrightarrow> pr \<noteq> Some a"
proof (induction t rule: cells.induct)
  case (2 l b y r)
  from "2.prems"(2) have "fst ` set_tree l \<inter> fst ` set_tree r = {}" by auto
  with node_ptr_addr [of l a] node_ptr_addr [of r a] have "ptr l = Some a \<Longrightarrow> ptr r \<noteq> Some a" by blast
  with 2 show ?case by auto
qed simp

lemma cells_parent_ex:
  assumes "a \<in> fst ` set_tree t" "ptr t \<noteq> Some a" "distinct (addrs t)"
  shows "\<exists>c x pl pr. (c, x, pl, pr) \<in> cells t \<and> (pl = Some a \<or> pr = Some a) \<and>
    c \<notin> fst ` set_tree (subtree_at a t)"
  using assms
proof (induction a t rule: subtree_at.induct)
  case (2 a l b y r)
  from "2.prems" have d: "b \<noteq> a" "distinct (addrs l)" "distinct (addrs r)" "b \<notin> fst ` set_tree l"
    "b \<notin> fst ` set_tree r" by auto
  show ?case
  proof (cases "a \<in> fst ` set_tree l")
    case True
    show ?thesis
    proof (cases "ptr l = Some a")
      case top: True
      have "b \<notin> fst ` set_tree (subtree_at a l)" using d(4) subtree_at_addrs [of a l] by blast
      with top d(1) True show ?thesis
        by (intro exI [of _ b] exI [of _ y] exI [of _ "ptr l"] exI [of _ "ptr r"]) simp
    next
      case False
      from "2.IH"(1) [OF d(1) True True False d(2)] True d(1) show ?thesis by auto
    qed
  next
    case left: False
    with "2.prems"(1) d(1) have ar: "a \<in> fst ` set_tree r" by auto
    show ?thesis
    proof (cases "ptr r = Some a")
      case True
      have "b \<notin> fst ` set_tree (subtree_at a r)" using d(5) subtree_at_addrs [of a r] by blast
      with True d(1) left show ?thesis
        by (intro exI [of _ b] exI [of _ y] exI [of _ "ptr l"] exI [of _ "ptr r"]) simp
    next
      case False
      from "2.IH"(2) [OF d(1) left ar False d(3)] left d(1) show ?thesis by auto
    qed
  qed
qed simp

text \<open>Grafting redirects the pointers to \<open>a\<close>, and keeps every other cell outside the subtree at \<open>a\<close>.\<close>

definition redirect :: "addr \<Rightarrow> addr option \<Rightarrow> addr option \<Rightarrow> addr option" where
  "redirect a q p = (if p = Some a then q else p)"

lemma redirect_same [simp]: "redirect a (Some a) p = p"
  by (simp add: redirect_def)

lemma ptr_graft [simp]: "ptr (graft a s t) = redirect a (ptr s) (ptr t)"
  by (cases t rule: ptr.cases) (auto simp: redirect_def)

text \<open>A node of one side that is outside the side's subtree at \<open>a\<close> is outside that of the whole.\<close>

lemma outside_subtree:
  assumes "distinct (addrs \<langle>l, (b, y), r\<rangle>)" "b \<noteq> a"
  shows "c \<in> fst ` set_tree l \<Longrightarrow> c \<notin> fst ` set_tree (subtree_at a l) \<Longrightarrow>
      c \<notin> fst ` set_tree (subtree_at a \<langle>l, (b, y), r\<rangle>)"
    and "c \<in> fst ` set_tree r \<Longrightarrow> c \<notin> fst ` set_tree (subtree_at a r) \<Longrightarrow>
      c \<notin> fst ` set_tree (subtree_at a \<langle>l, (b, y), r\<rangle>)"
    and "b \<notin> fst ` set_tree (subtree_at a \<langle>l, (b, y), r\<rangle>)"
proof -
  have d: "fst ` set_tree l \<inter> fst ` set_tree r = {}" "b \<notin> fst ` set_tree l" "b \<notin> fst ` set_tree r"
    using assms(1) by auto
  have e: "subtree_at a \<langle>l, (b, y), r\<rangle> = (if a \<in> fst ` set_tree l then subtree_at a l else subtree_at a r)"
    using assms(2) by simp
  note sub = subsetD [OF subtree_at_addrs [of a l], of c] subsetD [OF subtree_at_addrs [of a r], of c]
  show "c \<in> fst ` set_tree l \<Longrightarrow> c \<notin> fst ` set_tree (subtree_at a l) \<Longrightarrow>
      c \<notin> fst ` set_tree (subtree_at a \<langle>l, (b, y), r\<rangle>)"
    using d(1) sub(2) unfolding e disjoint_iff by metis
  show "c \<in> fst ` set_tree r \<Longrightarrow> c \<notin> fst ` set_tree (subtree_at a r) \<Longrightarrow>
      c \<notin> fst ` set_tree (subtree_at a \<langle>l, (b, y), r\<rangle>)"
    using d(1) sub(1) unfolding e disjoint_iff by metis
  show "b \<notin> fst ` set_tree (subtree_at a \<langle>l, (b, y), r\<rangle>)"
    using d(2,3) subtree_at_addrs [of a l] subtree_at_addrs [of a r] unfolding e subset_iff by metis
qed

lemma cells_graft:
  assumes "cell \<in> cells (graft a s t)" "distinct (addrs t)"
  shows "cell \<in> cells s \<or> (\<exists>c x pl pr. cell = (c, x, redirect a (ptr s) pl, redirect a (ptr s) pr) \<and>
    (c, x, pl, pr) \<in> cells t \<and> c \<notin> fst ` set_tree (subtree_at a t))"
  using assms
proof (induction t rule: cells.induct)
  case (2 l b y r)
  show ?case
  proof (cases "b = a")
    case True
    with "2.prems" show ?thesis by simp
  next
    case False
    note out = outside_subtree [OF "2.prems"(2) False]
    from False "2.prems"(1) consider "cell = (b, y, redirect a (ptr s) (ptr l), redirect a (ptr s) (ptr r))"
      | "cell \<in> cells (graft a s l)" | "cell \<in> cells (graft a s r)" by auto
    then show ?thesis
    proof cases
      case 1
      with out(3) show ?thesis
        by (intro disjI2 exI [of _ b] exI [of _ y] exI [of _ "ptr l"] exI [of _ "ptr r"]) simp
    next
      case 2
      with "2.IH"(1) "2.prems"(2) consider "cell \<in> cells s"
        | c x pl pr where "cell = (c, x, redirect a (ptr s) pl, redirect a (ptr s) pr)"
          "(c, x, pl, pr) \<in> cells l" "c \<notin> fst ` set_tree (subtree_at a l)" by auto
      then show ?thesis
      proof cases
        case (2 c x pl pr)
        with out(1) [of c] cells_addr [OF 2(2)] show ?thesis
          by (intro disjI2 exI [of _ c] exI [of _ x] exI [of _ pl] exI [of _ pr]) (simp add: rev_image_eqI)
      qed simp
    next
      case 3
      with "2.IH"(2) "2.prems"(2) consider "cell \<in> cells s"
        | c x pl pr where "cell = (c, x, redirect a (ptr s) pl, redirect a (ptr s) pr)"
          "(c, x, pl, pr) \<in> cells r" "c \<notin> fst ` set_tree (subtree_at a r)" by auto
      then show ?thesis
      proof cases
        case (2 c x pl pr)
        with out(2) [of c] cells_addr [OF 2(2)] show ?thesis
          by (intro disjI2 exI [of _ c] exI [of _ x] exI [of _ pl] exI [of _ pr]) (simp add: rev_image_eqI)
      qed simp
    qed
  qed
qed simp

lemma links_graft:
  assumes "links m' s" "distinct (addrs t)"
    and "\<And>c x pl pr. (c, x, pl, pr) \<in> cells t \<Longrightarrow> c \<notin> fst ` set_tree (subtree_at a t) \<Longrightarrow>
      \<exists>p. m' c = Some \<lparr>key = x, left_child = redirect a (ptr s) pl, right_child = redirect a (ptr s) pr, parent = p\<rparr>"
  shows "links m' (graft a s t)"
  unfolding links_cells
proof (intro ballI, clarify)
  fix c x pl pr
  assume "(c, x, pl, pr) \<in> cells (graft a s t)"
  from cells_graft [OF this assms(2)] assms
  show "\<exists>p. m' c = Some \<lparr>key = x, left_child = pl, right_child = pr, parent = p\<rparr>"
    unfolding links_cells by auto
qed

text \<open>A new subtree below the same address.\<close>

lemma links_graft_same:
  assumes "links m t" "distinct (addrs t)" "links m' s" "ptr s = Some a"
    and "\<And>c. c \<notin> fst ` set_tree (subtree_at a t) \<Longrightarrow> m' c = m c"
  shows "links m' (graft a s t)" "ptr (graft a s t) = ptr t"
proof -
  show "links m' (graft a s t)"
    using assms(1) by (intro links_graft [OF assms(3,2)]) (auto simp: assms(4,5) links_cells)
qed (simp add: assms(4))

text \<open>
  \<open>with_child\<close> is the node that \<open>replace_child\<close> writes; a new subtree below the parent whose child field it
  redirects.
\<close>

definition with_child :: "addr \<Rightarrow> addr option \<Rightarrow> 'a bst_node \<Rightarrow> 'a bst_node" where
  "with_child a child n = (if left_child n = Some a then n\<lparr>left_child := child\<rparr> else n\<lparr>right_child := child\<rparr>)"

lemma replace_child_eq: "m p = Some n \<Longrightarrow> replace_child p a child m = Some (m(p \<mapsto> with_child a child n))"
  by (simp add: replace_child_def with_child_def node_updates)

lemma links_graft_child:
  assumes t: "links m t" "parents m par t" "distinct (addrs t)" and a: "a \<in> fst ` set_tree t" "ptr t \<noteq> Some a"
  obtains an p pn where "m a = Some an" "parent an = Some p" "m p = Some pn" "p \<in> fst ` set_tree t"
    "p \<notin> fst ` set_tree (subtree_at a t)"
    "\<And>m' s. links m' s \<Longrightarrow> m' p = Some (with_child a (ptr s) pn) \<Longrightarrow>
       (\<And>c. c \<noteq> p \<Longrightarrow> c \<notin> fst ` set_tree (subtree_at a t) \<Longrightarrow> m' c = m c) \<Longrightarrow>
       links m' (graft a s t) \<and> ptr (graft a s t) = ptr t"
proof -
  from cells_parent_ex [OF a t(3)] obtain p x pl pr where
    p: "(p, x, pl, pr) \<in> cells t" "pl = Some a \<or> pr = Some a" "p \<notin> fst ` set_tree (subtree_at a t)" by blast
  from cells_child [OF p(1,2) t(2)] obtain an where an: "m a = Some an" "parent an = Some p" by auto
  from t(1) p(1) obtain pp where
    pn: "m p = Some \<lparr>key = x, left_child = pl, right_child = pr, parent = pp\<rparr>" (is "_ = Some ?pn")
    unfolding links_cells by blast
  have "p \<in> fst ` set_tree t" using cells_addr [OF p(1)] by force
  moreover have "links m' (graft a s t) \<and> ptr (graft a s t) = ptr t"
    if m': "links m' s" "m' p = Some (with_child a (ptr s) ?pn)"
      "\<And>c. c \<noteq> p \<Longrightarrow> c \<notin> fst ` set_tree (subtree_at a t) \<Longrightarrow> m' c = m c" for m' s
  proof
    show "links m' (graft a s t)"
    proof (rule links_graft [OF m'(1) t(3)])
      fix c y ql qr
      assume c: "(c, y, ql, qr) \<in> cells t" "c \<notin> fst ` set_tree (subtree_at a t)"
      with t(1) obtain cp where mc: "m c = Some \<lparr>key = y, left_child = ql, right_child = qr, parent = cp\<rparr>"
        unfolding links_cells by blast
      show "\<exists>p. m' c = Some \<lparr>key = y, left_child = redirect a (ptr s) ql, right_child = redirect a (ptr s) qr, parent = p\<rparr>"
      proof (cases "c = p")
        case True
        with mc pn have "y = x" "ql = pl" "qr = pr" by simp_all
        with True m'(2) p(2) cells_not_both [OF p(1) t(3), of a] show ?thesis
          by (auto simp: with_child_def redirect_def)
      next
        case False
        have "ql \<noteq> Some a \<and> qr \<noteq> Some a"
          using cells_child [OF c(1) _ t(2), of a] an False by auto
        with m'(3) [OF False c(2)] mc show ?thesis by (simp add: redirect_def)
      qed
    qed
  qed (use a(2) in \<open>simp add: redirect_def\<close>)
  ultimately show thesis using that an pn p(3) by blast
qed

section \<open>Erasure\<close>

lemma leftmost_subtree:
  assumes "distinct (addrs t)" "inorder t = (c, x) # xs"
  obtains r where "subtree_at c t = \<langle>\<langle>\<rangle>, (c, x), r\<rangle>" "\<And>s. inorder s = inorder r \<Longrightarrow> inorder (graft c s t) = xs"
proof -
  have c: "(c, x) \<in> set_tree t" using assms(2) by (metis list.set_intros(1) set_inorder)
  then have "c \<in> fst ` set_tree t" by force
  from inorder_graft [OF this assms(1)] obtain us vs where
    io: "inorder t = us @ inorder (subtree_at c t) @ vs" "\<And>s. inorder (graft c s t) = us @ inorder s @ vs"
    by blast
  from subtree_at_node [OF c assms(1)] obtain l r where sub: "subtree_at c t = \<langle>l, (c, x), r\<rangle>" by blast
  have "us @ inorder l = []"
  proof (rule ccontr)
    assume "us @ inorder l \<noteq> []"
    then obtain y ys where ys: "us @ inorder l = y # ys" by (cases "us @ inorder l") auto
    have "inorder t = (us @ inorder l) @ (c, x) # inorder r @ vs" using io(1) sub by simp
    with ys assms show False by auto
  qed
  then have us: "us = []" and "inorder l = []" by simp_all
  then have "l = \<langle>\<rangle>" by (cases l) auto
  with sub us io(1) assms(2) have "subtree_at c t = \<langle>\<langle>\<rangle>, (c, x), r\<rangle>" "xs = inorder r @ vs" by simp_all
  then show thesis using io(2) us by (intro that [of r]) simp_all
qed

text \<open>What is to be shown of the memory and the tree that an erasure leaves.\<close>

definition erased :: "'a bst \<Rightarrow> 'a ghost \<Rightarrow> 'a \<Rightarrow> 'a memory \<Rightarrow> addr option \<Rightarrow> 'a ghost \<Rightarrow> bool" where
  "erased T t x m' root' t' \<longleftrightarrow> links m' t' \<and> ptr t' = root' \<and>
     (\<exists>as bs d. addrs t = as @ d # bs \<and> addrs t' = as @ bs \<and> dom m' = dom (memory T) - {d}) \<and>
     (\<exists>ks ls. keys t = ks @ x # ls \<and> keys t' = ks @ ls)"

lemma erasedI:
  assumes "inorder t = us @ (d, x) # vs" "inorder t' = us @ vs"
    and "links m' t'" "ptr t' = root'" "dom m' = dom (memory T) - {d}"
  shows "erased T t x m' root' t'"
  using assms unfolding erased_def
  by (intro conjI exI [of _ "map fst us"] exI [of _ "map fst vs"] exI [of _ d]
      exI [of _ "map snd us"] exI [of _ "map snd vs"]) simp_all

context comparator
begin

lemma erased_holds:
  assumes T: "holds cmp T t" and e: "erased T t x m' root' t'" and x: "equiv k x"
  shows "holds cmp (T\<lparr>memory := m', root := root', bst_size := bst_size T - 1\<rparr>) t'"
    "keys t' = filter (\<lambda>y. \<not> equiv k y) (keys t)"
proof -
  from e obtain as bs d ks ls where
    e: "links m' t'" "ptr t' = root'" "addrs t = as @ d # bs" "addrs t' = as @ bs"
      "dom m' = dom (memory T) - {d}" "keys t = ks @ x # ls" "keys t' = ks @ ls"
    unfolding erased_def by (elim conjE exE) (rule that)
  from T have T: "distinct (addrs t)" "dom (memory T) = set (addrs t)" "bst_size T = length (inorder t)"
    "sorted_wrt cmp (keys t)" "\<forall>a \<in> set (addrs t). a < next_addr T"
    unfolding holds_def by blast+
  have "length (inorder t) = length (inorder t') + 1"
    using arg_cong [OF e(3), of length] arg_cong [OF e(4), of length] by simp
  then show "holds cmp (T\<lparr>memory := m', root := root', bst_size := bst_size T - 1\<rparr>) t'"
    using T e unfolding holds_def by (auto simp: sorted_wrt_append)
  have "y \<in> set ks \<union> set ls \<Longrightarrow> cmp x y \<or> cmp y x" for y
    using T(4) unfolding e(6) by (auto simp: sorted_wrt_append)
  then have "y \<in> set ks \<union> set ls \<Longrightarrow> \<not> equiv k y" for y
    using x unfolding equiv_def by (meson weak)
  with x show "keys t' = filter (\<lambda>y. \<not> equiv k y) (keys t)"
    unfolding e(6,7) by (simp add: filter_id_conv)
qed

text \<open>A node with at most one child is replaced by that child.\<close>

lemma erase_one:
  assumes T: "holds cmp T t" "threaded T t" and a: "(a, x) \<in> set_tree t"
    and sub: "subtree_at a t = \<langle>l, (a, x), r\<rangle>" and s: "s = (if l = \<langle>\<rangle> then r else l)" "l = \<langle>\<rangle> \<or> r = \<langle>\<rangle>"
  shows "\<exists>m'. erased T t x m' (if root T = Some a then ptr s else root T) (graft a s t) \<and>
    (if root T = Some a then destroy_node a (memory T) = Some m'
     else \<exists>n p m1. memory T a = Some n \<and> parent n = Some p \<and>
       replace_child p a (ptr s) (memory T) = Some m1 \<and> destroy_node a m1 = Some m')"
proof -
  from T have h: "links (memory T) t" "root T = ptr t" "distinct (addrs t)" "parents (memory T) None t"
    "dom (memory T) = fst ` set_tree t"
    unfolding holds_def threaded_def by auto
  have at: "a \<in> fst ` set_tree t" using a by force
  from inorder_graft [OF at h(3)] obtain us vs where
    io: "inorder t = us @ inorder (subtree_at a t) @ vs" "\<And>s. inorder (graft a s t) = us @ inorder s @ vs"
    by blast
  have io_s: "inorder l @ inorder r = inorder s" using s by auto
  have ls: "links (memory T) s" using subtree_at_links [OF h(1), of a] s sub by auto
  from h(3) io(1) sub have "a \<notin> fst ` set_tree l" "a \<notin> fst ` set_tree r" by auto
  with s have as: "a \<notin> fst ` set_tree s" by simp
  have "inorder t = (us @ inorder l) @ (a, x) # (inorder r @ vs)" using io(1) sub by simp
  moreover have "inorder (graft a s t) = (us @ inorder l) @ (inorder r @ vs)" using io(2) io_s by simp
  ultimately have lists: "erased T t x m' root' (graft a s t)"
    if "links m' (graft a s t)" "ptr (graft a s t) = root'" "dom m' = dom (memory T) - {a}" for m' root'
    using that by (rule erasedI)
  have alive: "memory T a \<noteq> None" using at h(5) by blast
  show ?thesis
  proof (cases "root T = Some a")
    case True
    let ?m = "(memory T)(a := None)"
    have "links ?m s" using ls as by simp
    moreover have "graft a s t = s" using True h(2) by (cases t rule: ptr.cases) auto
    ultimately have "erased T t x ?m (ptr s) (graft a s t)" by (intro lists) auto
    with True alive show ?thesis by (auto simp: destroy_node_def)
  next
    case False
    with h(2) have nr: "ptr t \<noteq> Some a" by simp
    from links_graft_child [OF h(1,4,3) at nr] obtain n p pn where
      p: "memory T a = Some n" "parent n = Some p" "memory T p = Some pn" "p \<in> fst ` set_tree t"
        "p \<notin> fst ` set_tree (subtree_at a t)"
      and g: "\<And>m' s. links m' s \<Longrightarrow> m' p = Some (with_child a (ptr s) pn) \<Longrightarrow>
       (\<And>c. c \<noteq> p \<Longrightarrow> c \<notin> fst ` set_tree (subtree_at a t) \<Longrightarrow> m' c = memory T c) \<Longrightarrow>
       links m' (graft a s t) \<and> ptr (graft a s t) = ptr t" by blast
    let ?m1 = "(memory T)(p \<mapsto> with_child a (ptr s) pn)"
    let ?m = "?m1(a := None)"
    have pa: "p \<noteq> a" "p \<notin> fst ` set_tree s" using p(5) sub s by (auto split: if_splits)
    have "links ?m s" using ls as pa(2) by simp
    then have "links ?m (graft a s t) \<and> ptr (graft a s t) = ptr t"
      using pa sub by (intro g) auto
    moreover have "dom ?m = dom (memory T) - {a}" using p(3) pa by auto
    ultimately have "erased T t x ?m (root T) (graft a s t)" using h(2) by (intro lists) auto
    moreover have "replace_child p a (ptr s) (memory T) = Some ?m1" using p(3) by (rule replace_child_eq)
    moreover have "destroy_node a ?m1 = Some ?m" using alive pa by (simp add: destroy_node_def)
    ultimately show ?thesis using False p(1,2) by auto
  qed
qed

text \<open>A node with two children takes the key of the leftmost node on its right, which is taken out.\<close>

lemma take_out_leftmost:
  assumes m: "links m \<langle>l, (a, x), r\<rangle>" "parents m par \<langle>l, (a, x), r\<rangle>" and d: "distinct (addrs \<langle>l, (a, x), r\<rangle>)"
    and ir: "inorder r = (c, xc) # rest"
  shows "\<exists>cn m1 p m2 m' u. m c = Some cn \<and> set_key a (key cn) m = Some m1 \<and> parent cn = Some p \<and>
    replace_child p c (right_child cn) m1 = Some m2 \<and> destroy_node c m2 = Some m' \<and>
    links m' u \<and> ptr u = Some a \<and> inorder u = inorder l @ (a, xc) # rest \<and> dom m' = dom m - {c} \<and>
    (\<forall>e. e \<notin> fst ` set_tree \<langle>l, (a, x), r\<rangle> \<longrightarrow> m' e = m e)"
proof -
  from d have dr: "distinct (addrs r)" by simp
  from leftmost_subtree [OF dr ir] obtain rc where
    rc: "subtree_at c r = \<langle>\<langle>\<rangle>, (c, xc), rc\<rangle>" "\<And>s. inorder s = inorder rc \<Longrightarrow> inorder (graft c s r) = rest"
    by metis
  have "(c, xc) \<in> set_tree r" using ir by (metis list.set_intros(1) set_inorder)
  then have "c \<in> fst ` set_tree r" by force
  with d have ca: "c \<noteq> a" "c \<notin> fst ` set_tree l" "c \<in> fst ` set_tree r" by auto
  obtain an where an: "m a = Some an" "left_child an = ptr l" "right_child an = ptr r" "parent an = par"
    using m by auto
  let ?m1 = "m(a \<mapsto> an\<lparr>key := xc\<rparr>)"
  let ?u = "\<langle>l, (a, xc), r\<rangle>"
  have aout: "a \<notin> fst ` set_tree l" "a \<notin> fst ` set_tree r" using d by auto
  have u: "links ?m1 ?u" "parents ?m1 par ?u" "distinct (addrs ?u)" "c \<in> fst ` set_tree ?u" "ptr ?u \<noteq> Some c"
    using m an aout d ca by (cases an; auto elim!: parents_frame)+
  have usub: "subtree_at c ?u = \<langle>\<langle>\<rangle>, (c, xc), rc\<rangle>" using ca rc(1) by auto
  from links_graft_child [OF u] obtain cn p pn where
    p: "?m1 c = Some cn" "parent cn = Some p" "?m1 p = Some pn" "p \<in> fst ` set_tree ?u"
      "p \<notin> fst ` set_tree (subtree_at c ?u)"
    and g: "\<And>m' s. links m' s \<Longrightarrow> m' p = Some (with_child c (ptr s) pn) \<Longrightarrow>
       (\<And>d. d \<noteq> p \<Longrightarrow> d \<notin> fst ` set_tree (subtree_at c ?u) \<Longrightarrow> m' d = ?m1 d) \<Longrightarrow>
       links m' (graft c s ?u) \<and> ptr (graft c s ?u) = ptr ?u" by blast
  have lc: "links m \<langle>\<langle>\<rangle>, (c, xc), rc\<rangle>" using subtree_at_links [of m r c] m(1) rc(1) by simp
  with p(1) ca(1) have cn: "m c = Some cn" "key cn = xc" "right_child cn = ptr rc" by auto
  let ?m2 = "?m1(p \<mapsto> with_child c (ptr rc) pn)"
  let ?m = "?m2(c := None)"
  have pc: "p \<noteq> c" "p \<notin> fst ` set_tree rc" using p(5) usub by auto
  have "distinct (addrs (subtree_at c r))"
    using inorder_graft [OF ca(3) dr] dr by auto
  then have crc: "c \<notin> fst ` set_tree rc" using rc(1) by simp
  have "a \<notin> fst ` set_tree rc" using subtree_at_addrs [of c r] rc(1) aout(2) by auto
  then have "links ?m rc" using crc pc(2) lc by simp
  then have gu: "links ?m (graft c rc ?u)" "ptr (graft c rc ?u) = Some a"
    using g [of ?m rc] pc usub by auto
  moreover have "inorder (graft c rc ?u) = inorder l @ (a, xc) # rest"
    using ca rc(2) [OF refl] by simp
  moreover have "dom ?m = dom m - {c}" using p(3) pc an(1) by (auto split: if_splits)
  moreover have "\<forall>e. e \<notin> fst ` set_tree \<langle>l, (a, x), r\<rangle> \<longrightarrow> ?m e = m e"
    using p(4) ca(3) by auto
  moreover have "destroy_node c ?m2 = Some ?m" using p(1) pc by (simp add: destroy_node_def)
  moreover have "set_key a (key cn) m = Some ?m1" using an(1) cn(2) by (simp add: set_key_def)
  moreover have "replace_child p c (right_child cn) ?m1 = Some ?m2" unfolding cn(3) using p(3) by (rule replace_child_eq)
  ultimately show ?thesis using cn(1) p(2) by blast
qed

lemma erase_two:
  assumes T: "holds cmp T t" "threaded T t" and a: "(a, x) \<in> set_tree t"
    and sub: "subtree_at a t = \<langle>l, (a, x), r\<rangle>" and r: "ptr r = Some ra"
  shows "\<exists>m' t' c cn m1 p m2. leftmost (memory T) ra = Some c \<and> memory T c = Some cn \<and>
    set_key a (key cn) (memory T) = Some m1 \<and> parent cn = Some p \<and>
    replace_child p c (right_child cn) m1 = Some m2 \<and> destroy_node c m2 = Some m' \<and>
    erased T t x m' (root T) t'"
proof -
  from T have h: "links (memory T) t" "root T = ptr t" "distinct (addrs t)" "parents (memory T) None t"
    unfolding holds_def threaded_def by auto
  have at: "a \<in> fst ` set_tree t" using a by force
  from inorder_graft [OF at h(3)] obtain us vs where
    io: "inorder t = us @ inorder (subtree_at a t) @ vs" "\<And>s. inorder (graft a s t) = us @ inorder s @ vs"
    by blast
  have lsub: "links (memory T) \<langle>l, (a, x), r\<rangle>" using subtree_at_links [OF h(1), of a] sub by simp
  from subtree_at_parents [OF h(4), of a] obtain par where
    psub: "parents (memory T) par \<langle>l, (a, x), r\<rangle>" unfolding sub by blast
  have "distinct (addrs (subtree_at a t))" using h(3) unfolding io(1) map_append distinct_append by blast
  then have dsub: "distinct (addrs \<langle>l, (a, x), r\<rangle>)" unfolding sub .
  from r obtain c xc rest where ir: "inorder r = (c, xc) # rest" by (cases "inorder r"; cases r) auto
  from take_out_leftmost [OF lsub psub dsub ir] obtain cn m1 p m2 m' u where
    s: "memory T c = Some cn" "set_key a (key cn) (memory T) = Some m1" "parent cn = Some p"
      "replace_child p c (right_child cn) m1 = Some m2" "destroy_node c m2 = Some m'"
    and u: "links m' u" "ptr u = Some a" "inorder u = inorder l @ (a, xc) # rest"
    and m': "dom m' = dom (memory T) - {c}"
      "\<forall>e. e \<notin> fst ` set_tree \<langle>l, (a, x), r\<rangle> \<longrightarrow> m' e = memory T e"
    by (elim exE conjE) (rule that)
  from m'(2) have out: "\<And>e. e \<notin> fst ` set_tree (subtree_at a t) \<Longrightarrow> m' e = memory T e" unfolding sub by blast
  have "leftmost (memory T) ra = Some c" using leftmost_eq [of "memory T" r ra] lsub r ir by simp
  moreover have "erased T t x m' (root T) (graft a u t)"
    unfolding erased_def h(2)
    using links_graft_same [OF h(1,3) u(1,2) out] io sub ir u(3) m'(1)
    by (intro conjI exI [of _ "map fst (us @ inorder l @ [(a, x)])"] exI [of _ "map fst (rest @ vs)"] exI [of _ c]
        exI [of _ "map snd (us @ inorder l)"] exI [of _ "xc # map snd (rest @ vs)"]) simp_all
  ultimately show ?thesis using s by blast
qed

lemma erase_unique_holds:
  assumes T: "holds cmp T t" "threaded T t"
  shows "\<exists>T' t'. erase_unique cmp k T = Some (\<exists>x \<in> set (keys t). equiv k x, T') \<and> holds cmp T' t' \<and>
    keys t' = filter (\<lambda>y. \<not> equiv k y) (keys t)"
proof -
  from bst_find_holds [OF T(1), of k] obtain p where p: "bst_find cmp k T = Some p"
    "case p of None \<Rightarrow> \<forall>x \<in> set (keys t). \<not> equiv k x | Some a \<Rightarrow> \<exists>x. (a, x) \<in> set_tree t \<and> equiv k x"
    by blast
  show ?thesis
  proof (cases p)
    case None
    with p T show ?thesis
      by (intro exI [of _ T] exI [of _ t]) (auto simp: erase_unique_def filter_id_conv)
  next
    case (Some a)
    with p obtain x where x: "(a, x) \<in> set_tree t" "equiv k x" by auto
    then have ex: "\<exists>x \<in> set (keys t). equiv k x" by force
    from T have d: "links (memory T) t" "distinct (addrs t)" unfolding holds_def by auto
    from subtree_at_node [OF x(1) d(2)] obtain l r where sub: "subtree_at a t = \<langle>l, (a, x), r\<rangle>" by blast
    from subtree_at_links [OF d(1), of a] sub obtain n where
      n: "memory T a = Some n" "left_child n = ptr l" "right_child n = ptr r" by auto
    have fin: ?thesis
      if "erased T t x m' root' t'"
        "erase_unique cmp k T = Some (True, T\<lparr>memory := m', root := root', bst_size := bst_size T - 1\<rparr>)" for m' root' t'
      using that erased_holds [OF T(1) that(1) x(2)] ex by auto
    show ?thesis
    proof (cases "l = \<langle>\<rangle> \<or> r = \<langle>\<rangle>")
      case True
      define s where "s = (if l = \<langle>\<rangle> then r else l)"
      from erase_one [OF T x(1) sub s_def True] obtain m' where
        m': "erased T t x m' (if root T = Some a then ptr s else root T) (graft a s t)"
        and steps: "if root T = Some a then destroy_node a (memory T) = Some m'
          else \<exists>n p m1. memory T a = Some n \<and> parent n = Some p \<and>
            replace_child p a (ptr s) (memory T) = Some m1 \<and> destroy_node a m1 = Some m'" by blast
      show ?thesis
        using True steps n p(1) Some
        by (intro fin [OF m'])
           (cases "ptr l"; cases "ptr r"; auto simp: erase_unique_def s_def split: if_splits)
    next
      case False
      then obtain la ra where lr: "ptr l = Some la" "ptr r = Some ra" by (cases "ptr l"; cases "ptr r") auto
      from erase_two [OF T x(1) sub lr(2)] obtain m' t' c cn m1 q m2 where
        "leftmost (memory T) ra = Some c" "memory T c = Some cn"
        "set_key a (key cn) (memory T) = Some m1" "parent cn = Some q"
        "replace_child q c (right_child cn) m1 = Some m2" "destroy_node c m2 = Some m'"
        "erased T t x m' (root T) t'" by blast
      with n p(1) Some lr show ?thesis by (intro fin [of m' "root T" t']) (simp_all add: erase_unique_def)
    qed
  qed
qed

end

section \<open>Destruction\<close>

lemma destroy_subtree_links:
  assumes "links m t" "distinct (addrs t)"
  shows "destroy_subtree m (ptr t) = Some (m |` (- fst ` set_tree t))"
  using assms
proof (induction "size t * size t + size (left t)" arbitrary: m t rule: less_induct)
  case less
  show ?case
  proof (cases t rule: ptr.cases)
    case 1
    then show ?thesis by (simp add: destroy_subtree.simps restrict_map_def)
  next
    case (2 l a k r)
    then obtain p where n: "m a = Some \<lparr>key = k, left_child = ptr l, right_child = ptr r, parent = p\<rparr>"
      using less.prems by auto
    have ar: "a \<notin> fst ` set_tree r" "a \<notin> fst ` set_tree l" using less.prems 2 by auto
    show ?thesis
    proof (cases l rule: ptr.cases)
      case 1
      have "destroy_subtree (m(a := None)) (ptr r) = Some (m(a := None) |` (- fst ` set_tree r))"
      proof (rule less.hyps)
        have "size (left r) \<le> size r" by (cases r) auto
        then show "size r * size r + size (left r) < size t * size t + size (left t)"
          using 1 2 by simp
      qed (use less.prems 2 ar in simp_all)
      moreover have "m(a := None) |` (- fst ` set_tree r) = m |` (- fst ` set_tree t)"
        using 1 2 by (auto simp: fun_eq_iff restrict_map_def)
      ultimately show ?thesis
        using 1 2 n by (simp add: destroy_subtree.simps [of m "Some a"] destroy_node_def)
    next
      case l: (2 ll b kb lr)
      then obtain q where bn: "m b = Some \<lparr>key = kb, left_child = ptr ll, right_child = ptr lr, parent = q\<rparr>"
        using less.prems 2 by auto
      let ?m = "m(a \<mapsto> \<lparr>key = k, left_child = ptr lr, right_child = ptr r, parent = p\<rparr>,
        b \<mapsto> \<lparr>key = kb, left_child = ptr ll, right_child = Some a, parent = q\<rparr>)"
      let ?t = "\<langle>ll, (b, kb), \<langle>lr, (a, k), r\<rangle>\<rangle>"
      have br: "a \<noteq> b" "b \<notin> fst ` set_tree r" "b \<notin> fst ` set_tree ll" "b \<notin> fst ` set_tree lr"
        using less.prems 2 l by auto
      have "destroy_subtree ?m (ptr ?t) = Some (?m |` (- fst ` set_tree ?t))"
      proof (rule less.hyps)
        show "size ?t * size ?t + size (left ?t) < size t * size t + size (left t)"
          using 2 l by (simp add: add.assoc)
      qed (use less.prems 2 l ar br in auto)
      moreover have "?m |` (- fst ` set_tree ?t) = m |` (- fst ` set_tree t)"
        using 2 l by (auto simp: fun_eq_iff restrict_map_def)
      ultimately show ?thesis
        using 2 l n bn br by (simp add: destroy_subtree.simps [of m "Some a"] node_updates)
    qed
  qed
qed

lemma bst_clear_holds:
  assumes "holds cmp T t"
  shows "bst_clear T = Some (T\<lparr>memory := Map.empty, root := None, bst_size := 0\<rparr>)"
proof -
  from assms have h: "links (memory T) t" "root T = ptr t" "distinct (addrs t)" "dom (memory T) = fst ` set_tree t"
    unfolding holds_def by auto
  have "memory T |` (- fst ` set_tree t) = Map.empty"
    using h(4) by (auto simp: fun_eq_iff restrict_map_def)
  with destroy_subtree_links [OF h(1,3)] h(2) show ?thesis by (simp add: bst_clear_def)
qed

section \<open>Properties\<close>

context comparator
begin

lemma set_of_insertions:
  "\<exists>T ks. insert_range cmp xs new_bst = Some T \<and> bst_read T = Some ks \<and> bst_size T = length ks \<and>
    sorted_wrt cmp ks \<and> set ks \<subseteq> set xs \<and> (\<forall>x \<in> set xs. \<exists>k \<in> set ks. equiv x k) \<and>
    (\<exists>p. bst_find cmp y T = Some p \<and> (p \<noteq> None) = (\<exists>x \<in> set xs. equiv y x)) \<and>
    (\<exists>T' t'. erase_unique cmp y T = Some (\<exists>x \<in> set xs. equiv y x, T') \<and> holds cmp T' t' \<and>
       keys t' = filter (\<lambda>k. \<not> equiv y k) ks) \<and>
    (\<exists>T'. bst_clear T = Some T' \<and> memory T' = Map.empty \<and> root T' = None \<and> bst_size T' = 0)"
proof -
  from insert_range_holds [OF new_bst_holds, of xs] obtain T t where
    T: "insert_range cmp xs new_bst = Some T" "holds cmp T t" "threaded T t"
    and sub: "mset (keys t) \<subseteq># mset xs" and all: "\<forall>x \<in> set xs. \<exists>k \<in> set (keys t). equiv x k" by auto
  have sub: "set (keys t) \<subseteq> set xs" using set_mset_mono [OF sub] by simp
  have eq: "(\<exists>k \<in> set (keys t). equiv y k) \<longleftrightarrow> (\<exists>x \<in> set xs. equiv y x)"
    using sub all equiv_trans by blast
  from bst_find_holds [OF T(2), of y] obtain p where p: "bst_find cmp y T = Some p"
    "case p of None \<Rightarrow> \<forall>x \<in> set (keys t). \<not> equiv y x | Some a \<Rightarrow> \<exists>x. (a, x) \<in> set_tree t \<and> equiv y x" by blast
  then have "(p \<noteq> None) = (\<exists>k \<in> set (keys t). equiv y k)" by (cases p) force+
  with p(1) have f: "\<exists>p. bst_find cmp y T = Some p \<and> (p \<noteq> None) = (\<exists>x \<in> set xs. equiv y x)"
    unfolding eq by blast
  have c: "\<exists>T'. bst_clear T = Some T' \<and> memory T' = Map.empty \<and> root T' = None \<and> bst_size T' = 0"
    using bst_clear_holds [OF T(2)] by simp
  note e = erase_unique_holds [OF T(2,3), of y, unfolded eq]
  have "bst_size T = length (keys t)" "sorted_wrt cmp (keys t)" using T(2) by (simp_all add: holds_def)
  with T(1) bst_read_threaded [OF T(2,3)] sub all f e c show ?thesis by blast
qed

end

text \<open>
  C8: \<open>binary_search_tree\<close> under any strict weak order: after any sequence of insertions into an empty tree
  the iterators read the keys in strictly increasing order, one for every inserted key up to equivalence;
  \<open>Find\<close> and \<open>Erase\<close> answer whether a key is there, \<open>Erase\<close> takes out exactly it, and \<open>Clear\<close> leaves no
  node allocated.
\<close>

theorem bst_refines_set:
  assumes "comparator cmp"
  shows "\<exists>T ks. insert_range cmp xs new_bst = Some T \<and> bst_read T = Some ks \<and> bst_size T = length ks \<and>
    sorted_wrt cmp ks \<and> set ks \<subseteq> set xs \<and> (\<forall>x \<in> set xs. \<exists>k \<in> set ks. \<not> cmp x k \<and> \<not> cmp k x) \<and>
    (\<exists>p. bst_find cmp y T = Some p \<and> (p \<noteq> None) = (\<exists>x \<in> set xs. \<not> cmp y x \<and> \<not> cmp x y)) \<and>
    (\<exists>T' t'. erase_unique cmp y T = Some (\<exists>x \<in> set xs. \<not> cmp y x \<and> \<not> cmp x y, T') \<and> holds cmp T' t' \<and>
       keys t' = filter (\<lambda>k. \<not> (\<not> cmp y k \<and> \<not> cmp k y)) ks) \<and>
    (\<exists>T'. bst_clear T = Some T' \<and> memory T' = Map.empty \<and> root T' = None \<and> bst_size T' = 0)"
  by (rule comparator.set_of_insertions [OF assms, unfolded comparator.equiv_def [OF assms]])

theorem bst_refines_set_witness:
  "\<exists>T ks. insert_range std_less [2, 1, 2, 3::int] new_bst = Some T \<and> bst_read T = Some ks \<and> bst_size T = length ks \<and>
    sorted_wrt std_less ks \<and> set ks \<subseteq> set [2, 1, 2, 3::int] \<and>
    (\<forall>x \<in> set [2, 1, 2, 3::int]. \<exists>k \<in> set ks. \<not> std_less x k \<and> \<not> std_less k x) \<and>
    (\<exists>p. bst_find std_less (2::int) T = Some p \<and> (p \<noteq> None) = (\<exists>x \<in> set [2, 1, 2, 3::int]. \<not> std_less 2 x \<and> \<not> std_less x 2)) \<and>
    (\<exists>T' t'. erase_unique std_less (2::int) T = Some (\<exists>x \<in> set [2, 1, 2, 3::int]. \<not> std_less 2 x \<and> \<not> std_less x 2, T') \<and>
       holds std_less T' t' \<and> keys t' = filter (\<lambda>k. \<not> (\<not> std_less (2::int) k \<and> \<not> std_less k 2)) ks) \<and>
    (\<exists>T'. bst_clear T = Some T' \<and> memory T' = Map.empty \<and> root T' = None \<and> bst_size T' = 0)"
  by (rule bst_refines_set [OF less.comparator_axioms])

text \<open>
  After an \<open>Erase\<close> the parent pointer of the node that was moved up may dangle: erasing 2 and then 1
  from 3, 2, 1 dereferences a destroyed node, and so does reading the keys after the first erasure.
\<close>

theorem bst_erase_dangling:
  "\<exists>T T'. insert_range std_less [3, 2, 1::int] new_bst = Some T \<and>
    erase_unique std_less 2 T = Some (True, T') \<and>
    erase_unique std_less 1 T' = None \<and> bst_read T' = None"
proof -
  let ?T = "the (insert_range std_less [3, 2, 1::int] new_bst)"
  let ?T' = "snd (the (erase_unique std_less 2 ?T))"
  have "\<not> Option.is_none (insert_range std_less [3, 2, 1::int] new_bst)" by code_simp
  moreover have "map_option fst (erase_unique std_less 2 ?T) = Some True" by code_simp
  moreover have "Option.is_none (erase_unique std_less 1 ?T')" by code_simp
  moreover have "bst_read ?T' = None" by code_simp
  ultimately show ?thesis
    by (intro exI [of _ ?T] exI [of _ ?T']) (auto simp: Option.is_none_def)
qed

end
