(* ===== verification/Sort_Tree.thy ===== *)
theory Sort_Tree
  imports BS_Tree
begin

text \<open>
  Binary tree sort (\<open>algorithm/detail/binary_tree_sort.hpp\<close> and its overloads in
  \<open>algorithm/binary_tree_sort/binary_tree_sort_seq.hpp\<close>): insert the range into a \<open>binary_search_tree\<close>,
  refuse duplicates, and copy the tree back over the range.
\<close>

datatype tree_sort_error = Dublicate_Not_Supported

text \<open>The policy's tree comes in empty or not; \<open>std::copy\<close> overwrites the beginning of the range.\<close>

definition binary_tree_sort_policy :: "('a \<Rightarrow> 'a \<Rightarrow> bool) \<Rightarrow> 'a list \<Rightarrow> 'a bst \<Rightarrow> (tree_sort_error + 'a list) option" where
  "binary_tree_sort_policy cmp xs binary_tree =
     do { T \<leftarrow> insert_range cmp xs binary_tree;
          if bst_size T \<noteq> length xs then Some (Inl Dublicate_Not_Supported)
          else do { ks \<leftarrow> bst_read T; Some (Inr (ks @ drop (length ks) xs)) } }"

definition binary_tree_sort_by :: "('a \<Rightarrow> 'a \<Rightarrow> bool) \<Rightarrow> 'a list \<Rightarrow> (tree_sort_error + 'a list) option" where
  "binary_tree_sort_by cmp xs = binary_tree_sort_policy cmp xs new_bst"

definition binary_tree_sort :: "'a::linorder list \<Rightarrow> (tree_sort_error + 'a list) option" where
  "binary_tree_sort xs = binary_tree_sort_by std_less xs"

definition binary_tree_sort_iter :: "'a::linorder list \<Rightarrow> (tree_sort_error + 'a list) option" where
  "binary_tree_sort_iter xs = binary_tree_sort_policy std_less xs new_bst"

context comparator
begin

lemma tree_sort:
  "if distinct_by cmp xs
   then \<exists>ys. binary_tree_sort_by cmp xs = Some (Inr ys) \<and> mset ys = mset xs \<and> sorted_wrt cmp ys
   else binary_tree_sort_by cmp xs = Some (Inl Dublicate_Not_Supported)"
proof -
  from insert_range_holds [OF new_bst_holds, of xs] obtain T t where
    T: "insert_range cmp xs new_bst = Some T" "holds cmp T t" "threaded T t"
    and sub: "mset (keys t) \<subseteq># mset xs"
    and sz: "bst_size T = length xs \<longleftrightarrow> distinct_by cmp xs" by (auto simp: new_bst_def)
  have k: "bst_size T = length (keys t)" "sorted_wrt cmp (keys t)" using T(2) by (simp_all add: holds_def)
  show ?thesis
  proof (cases "distinct_by cmp xs")
    case True
    with sz k(1) have len: "length (keys t) = length xs" by simp
    with sub have "mset (keys t) = mset xs"
      by (metis mset_subset_size size_mset subset_mset.le_imp_less_or_eq less_irrefl)
    with True T(1) k(2) sz len bst_read_threaded [OF T(2,3)] show ?thesis
      by (auto simp: binary_tree_sort_by_def binary_tree_sort_policy_def)
  next
    case False
    with sz T(1) show ?thesis
      by (simp add: binary_tree_sort_by_def binary_tree_sort_policy_def)
  qed
qed

end

section \<open>Properties\<close>

text \<open>
  Binary tree sort never fails to return; on a range without equivalent elements it yields the sorted
  permutation, on any other it throws and leaves the range alone.
\<close>

theorem binary_tree_sort_correct:
  assumes "comparator cmp"
  shows "if distinct_by cmp xs
    then \<exists>ys. binary_tree_sort_by cmp xs = Some (Inr ys) \<and> mset ys = mset xs \<and> sorted_wrt cmp ys
    else binary_tree_sort_by cmp xs = Some (Inl Dublicate_Not_Supported)"
  by (rule comparator.tree_sort [OF assms])

theorem binary_tree_sort_correct_witness:
  "(\<exists>ys. binary_tree_sort_by std_greater [3, 1, 2::int] = Some (Inr ys) \<and> mset ys = mset [3, 1, 2] \<and>
     sorted_wrt std_greater ys) \<and>
   binary_tree_sort_by std_greater [1, 2, 1::int] = Some (Inl Dublicate_Not_Supported)"
  using binary_tree_sort_correct [OF greater.comparator_axioms, of "[3, 1, 2::int]"]
    binary_tree_sort_correct [OF greater.comparator_axioms, of "[1, 2, 1::int]"]
  by (simp add: distinct_by_def std_greater_def [abs_def])

end
