(* ===== verification/RB_Tree.thy ===== *)
theory RB_Tree
  imports Set_Contract "HOL-Library.Tree" "HOL-Library.Monad_Syntax"
begin

text \<open>
  \<open>RBTree\<close> of \<open>container/tree/rb_tree.hpp\<close>: nodes with child and parent pointers and a colour in memory.
  The functions follow the pointers as the code does; \<open>None\<close> is a dereference of a null or dangling pointer
  (or a loop that does not end).
\<close>

type_synonym addr = nat

datatype color = Red | Black

record 'a rb_node =
  key :: 'a
  left_child :: "addr option"
  right_child :: "addr option"
  parent :: "addr option"
  color_of :: color

type_synonym 'a memory = "addr \<rightharpoonup> 'a rb_node"

record 'a rb_tree =
  memory :: "'a memory"
  next_addr :: addr
  root :: "addr option"

definition new_rb_tree :: "'a rb_tree" where
  "new_rb_tree = \<lparr>memory = Map.empty, next_addr = 0, root = None\<rparr>"

section \<open>Nodes\<close>

definition update :: "addr \<Rightarrow> ('a rb_node \<Rightarrow> 'a rb_node) \<Rightarrow> 'a rb_tree \<Rightarrow> 'a rb_tree option" where
  "update a f T = do { n \<leftarrow> memory T a; Some (T\<lparr>memory := (memory T)(a \<mapsto> f n)\<rparr>) }"

definition get_parent :: "addr \<Rightarrow> 'a rb_tree \<Rightarrow> addr option option" where
  "get_parent a T = do { n \<leftarrow> memory T a; Some (parent n) }"

definition get_grandparent :: "addr \<Rightarrow> 'a rb_tree \<Rightarrow> addr option option" where
  "get_grandparent a T = do {
     n \<leftarrow> memory T a;
     case parent n of None \<Rightarrow> Some None | Some p \<Rightarrow> do { pn \<leftarrow> memory T p; Some (parent pn) } }"

definition get_uncle :: "addr \<Rightarrow> 'a rb_tree \<Rightarrow> addr option option" where
  "get_uncle a T = do {
     grandparent \<leftarrow> get_grandparent a T;
     case grandparent of
       None \<Rightarrow> Some None
     | Some g \<Rightarrow> do {
         n \<leftarrow> memory T a;
         gn \<leftarrow> memory T g;
         Some (if parent n = left_child gn then right_child gn else left_child gn) } }"

definition is_color :: "addr \<Rightarrow> color \<Rightarrow> 'a rb_tree \<Rightarrow> bool option" where
  "is_color a c T = do { n \<leftarrow> memory T a; Some (color_of n = c) }"

fun flip :: "color \<Rightarrow> color" where
  "flip Red = Black"
| "flip Black = Red"

definition recolor :: "addr \<Rightarrow> 'a rb_tree \<Rightarrow> 'a rb_tree option" where
  "recolor a T = update a (\<lambda>n. n\<lparr>color_of := flip (color_of n)\<rparr>) T"

section \<open>Rotations\<close>

definition small_left_rotation :: "addr \<Rightarrow> 'a rb_tree \<Rightarrow> 'a rb_tree option" where
  "small_left_rotation subtree T = do {
     n \<leftarrow> memory T subtree;
     right_subtree \<leftarrow> right_child n;
     rn \<leftarrow> memory T right_subtree;
     T1 \<leftarrow> update subtree (\<lambda>n. n\<lparr>right_child := left_child rn\<rparr>) T;
     T2 \<leftarrow> (case left_child rn of None \<Rightarrow> Some T1 | Some l \<Rightarrow> update l (\<lambda>n. n\<lparr>parent := Some subtree\<rparr>) T1);
     T3 \<leftarrow> update right_subtree (\<lambda>rn. rn\<lparr>parent := parent n\<rparr>) T2;
     T4 \<leftarrow> (case parent n of
              None \<Rightarrow> Some (T3\<lparr>root := Some right_subtree\<rparr>)
            | Some p \<Rightarrow> update p (\<lambda>pn. if left_child pn = Some subtree then pn\<lparr>left_child := Some right_subtree\<rparr>
                                      else pn\<lparr>right_child := Some right_subtree\<rparr>) T3);
     T5 \<leftarrow> update right_subtree (\<lambda>rn. rn\<lparr>left_child := Some subtree\<rparr>) T4;
     update subtree (\<lambda>n. n\<lparr>parent := Some right_subtree\<rparr>) T5 }"

definition small_right_rotation :: "addr \<Rightarrow> 'a rb_tree \<Rightarrow> 'a rb_tree option" where
  "small_right_rotation subtree T = do {
     n \<leftarrow> memory T subtree;
     left_subtree \<leftarrow> left_child n;
     ln \<leftarrow> memory T left_subtree;
     T1 \<leftarrow> update subtree (\<lambda>n. n\<lparr>left_child := right_child ln\<rparr>) T;
     T2 \<leftarrow> (case right_child ln of None \<Rightarrow> Some T1 | Some r \<Rightarrow> update r (\<lambda>n. n\<lparr>parent := Some subtree\<rparr>) T1);
     T3 \<leftarrow> update left_subtree (\<lambda>ln. ln\<lparr>parent := parent n\<rparr>) T2;
     T4 \<leftarrow> (case parent n of
              None \<Rightarrow> Some (T3\<lparr>root := Some left_subtree\<rparr>)
            | Some p \<Rightarrow> update p (\<lambda>pn. if right_child pn = Some subtree then pn\<lparr>right_child := Some left_subtree\<rparr>
                                      else pn\<lparr>left_child := Some left_subtree\<rparr>) T3);
     T5 \<leftarrow> update left_subtree (\<lambda>ln. ln\<lparr>right_child := Some subtree\<rparr>) T4;
     update subtree (\<lambda>n. n\<lparr>parent := Some left_subtree\<rparr>) T5 }"

section \<open>Balancing\<close>

text \<open>Case 3.1 (both sides): parent, uncle and grandparent change colour.\<close>

definition recolor_family :: "addr \<Rightarrow> addr \<Rightarrow> 'a rb_tree \<Rightarrow> (addr \<times> 'a rb_tree) option" where
  "recolor_family subtree uncle T = do {
     T1 \<leftarrow> recolor uncle T;
     p \<leftarrow> get_parent subtree T1; p \<leftarrow> p;
     T2 \<leftarrow> recolor p T1;
     g \<leftarrow> get_grandparent subtree T2; g \<leftarrow> g;
     T3 \<leftarrow> recolor g T2;
     g \<leftarrow> get_grandparent subtree T3; g \<leftarrow> g;
     Some (g, T3) }"

text \<open>Case 3.2: an inner node is first rotated outwards.\<close>

definition rotate_left_at_grandparent :: "addr \<Rightarrow> 'a rb_tree \<Rightarrow> (addr \<times> 'a rb_tree) option" where
  "rotate_left_at_grandparent subtree T = do {
     p \<leftarrow> get_parent subtree T; p \<leftarrow> p;
     pn \<leftarrow> memory T p;
     (s, T1) \<leftarrow> (if left_child pn = Some subtree then do { T1 \<leftarrow> small_right_rotation p T; Some (p, T1) }
                 else Some (subtree, T));
     p \<leftarrow> get_parent s T1; p \<leftarrow> p;
     T2 \<leftarrow> recolor p T1;
     g \<leftarrow> get_grandparent s T2; g \<leftarrow> g;
     T3 \<leftarrow> recolor g T2;
     g \<leftarrow> get_grandparent s T3; g \<leftarrow> g;
     T4 \<leftarrow> small_left_rotation g T3;
     Some (s, T4) }"

definition rotate_right_at_grandparent :: "addr \<Rightarrow> 'a rb_tree \<Rightarrow> (addr \<times> 'a rb_tree) option" where
  "rotate_right_at_grandparent subtree T = do {
     p \<leftarrow> get_parent subtree T; p \<leftarrow> p;
     pn \<leftarrow> memory T p;
     (s, T1) \<leftarrow> (if right_child pn = Some subtree then do { T1 \<leftarrow> small_left_rotation p T; Some (p, T1) }
                 else Some (subtree, T));
     p \<leftarrow> get_parent s T1; p \<leftarrow> p;
     T2 \<leftarrow> recolor p T1;
     g \<leftarrow> get_grandparent s T2; g \<leftarrow> g;
     T3 \<leftarrow> recolor g T2;
     g \<leftarrow> get_grandparent s T3; g \<leftarrow> g;
     T4 \<leftarrow> small_right_rotation g T3;
     Some (s, T4) }"

text \<open>The body of the loop, and the loop.\<close>

definition balance_step :: "addr \<Rightarrow> 'a rb_tree \<Rightarrow> (addr \<times> 'a rb_tree) option" where
  "balance_step subtree T = do {
     p \<leftarrow> get_parent subtree T;
     g \<leftarrow> get_grandparent subtree T; g \<leftarrow> g;
     gn \<leftarrow> memory T g;
     uncle \<leftarrow> get_uncle subtree T;
     red_uncle \<leftarrow> (case uncle of None \<Rightarrow> Some False | Some u \<Rightarrow> is_color u Red T);
     if red_uncle then recolor_family subtree (the uncle) T
     else if p = right_child gn then rotate_left_at_grandparent subtree T
     else rotate_right_at_grandparent subtree T }"

partial_function (option) balancing_loop :: "addr \<Rightarrow> 'a rb_tree \<Rightarrow> 'a rb_tree option" where
  "balancing_loop subtree T = do {
     p \<leftarrow> get_parent subtree T; p \<leftarrow> p;
     red \<leftarrow> is_color p Red T;
     if \<not> red then Some T
     else do {
       (s, T') \<leftarrow> balance_step subtree T;
       if root T' = Some s then Some T' else balancing_loop s T' } }"

declare balancing_loop.simps [code]

definition balancing_subtree :: "addr \<Rightarrow> 'a rb_tree \<Rightarrow> 'a rb_tree option" where
  "balancing_subtree subtree T = do {
     T' \<leftarrow> balancing_loop subtree T;
     r \<leftarrow> root T';
     update r (\<lambda>n. n\<lparr>color_of := Black\<rparr>) T' }"

section \<open>Operations\<close>

text \<open>The descent of \<open>Insert\<close>: the last node before the null child.\<close>

partial_function (option) find_parent :: "'a::linorder \<Rightarrow> addr option \<Rightarrow> addr option \<Rightarrow> 'a memory \<Rightarrow> addr option option" where
  "find_parent k parent_node child m =
     (case child of
        None \<Rightarrow> Some parent_node
      | Some a \<Rightarrow> do { n \<leftarrow> m a; find_parent k child (if k < key n then left_child n else right_child n) m })"

definition rb_insert :: "'a::linorder \<Rightarrow> 'a rb_tree \<Rightarrow> 'a rb_tree option" where
  "rb_insert k T =
     (let new = next_addr T;
          T0 = T\<lparr>memory := (memory T)(new \<mapsto> \<lparr>key = k, left_child = None, right_child = None, parent = None, color_of = Red\<rparr>),
                 next_addr := new + 1\<rparr>
      in do {
        p \<leftarrow> find_parent k None (root T0) (memory T0);
        T1 \<leftarrow> update new (\<lambda>n. n\<lparr>parent := p\<rparr>) T0;
        case p of
          None \<Rightarrow> do { T2 \<leftarrow> update new (\<lambda>n. n\<lparr>color_of := Black\<rparr>) T1; Some (T2\<lparr>root := Some new\<rparr>) }
        | Some p \<Rightarrow> do {
            T2 \<leftarrow> update p (\<lambda>pn. if k < key pn then pn\<lparr>left_child := Some new\<rparr> else pn\<lparr>right_child := Some new\<rparr>) T1;
            g \<leftarrow> get_grandparent new T2;
            if g = None then Some T2 else balancing_subtree new T2 } })"

partial_function (option) node_max_depth :: "'a memory \<Rightarrow> addr \<Rightarrow> int option" where
  "node_max_depth m a = do {
     n \<leftarrow> m a;
     l \<leftarrow> (case left_child n of None \<Rightarrow> Some 0 | Some b \<Rightarrow> node_max_depth m b);
     r \<leftarrow> (case right_child n of None \<Rightarrow> Some 0 | Some b \<Rightarrow> node_max_depth m b);
     Some (1 + max l r) }"

partial_function (option) node_min_depth :: "'a memory \<Rightarrow> addr \<Rightarrow> int option" where
  "node_min_depth m a = do {
     n \<leftarrow> m a;
     l \<leftarrow> (case left_child n of None \<Rightarrow> Some 0 | Some b \<Rightarrow> node_min_depth m b);
     r \<leftarrow> (case right_child n of None \<Rightarrow> Some 0 | Some b \<Rightarrow> node_min_depth m b);
     Some (1 + min l r) }"

partial_function (option) node_contains :: "'a memory \<Rightarrow> 'a \<Rightarrow> addr \<Rightarrow> bool option" where
  "node_contains m k a = do {
     n \<leftarrow> m a;
     if key n = k then Some True
     else do {
       l \<leftarrow> (case left_child n of None \<Rightarrow> Some False | Some b \<Rightarrow> node_contains m k b);
       if l then Some True
       else (case right_child n of None \<Rightarrow> Some False | Some b \<Rightarrow> node_contains m k b) } }"

partial_function (option) visit_impl :: "'a memory \<Rightarrow> addr option \<Rightarrow> 'a list option" where
  "visit_impl m p =
     (case p of
        None \<Rightarrow> Some []
      | Some a \<Rightarrow> do {
          n \<leftarrow> m a;
          xs \<leftarrow> visit_impl m (left_child n);
          ys \<leftarrow> visit_impl m (right_child n);
          Some (xs @ key n # ys) })"

partial_function (option) node_destroy :: "addr \<Rightarrow> 'a memory \<Rightarrow> 'a memory option" where
  "node_destroy a m = do {
     n \<leftarrow> m a;
     m1 \<leftarrow> (case left_child n of None \<Rightarrow> Some m | Some l \<Rightarrow> do { m' \<leftarrow> node_destroy l m; Some (m'(l := None)) });
     n \<leftarrow> m1 a;
     (case right_child n of None \<Rightarrow> Some m1 | Some r \<Rightarrow> do { m' \<leftarrow> node_destroy r m1; Some (m'(r := None)) }) }"

definition rb_max_depth :: "'a rb_tree \<Rightarrow> int option" where
  "rb_max_depth T = (case root T of None \<Rightarrow> Some (- 1) | Some a \<Rightarrow> map_option (\<lambda>d. d - 1) (node_max_depth (memory T) a))"

definition rb_min_depth :: "'a rb_tree \<Rightarrow> int option" where
  "rb_min_depth T = (case root T of None \<Rightarrow> Some (- 1) | Some a \<Rightarrow> map_option (\<lambda>d. d - 1) (node_min_depth (memory T) a))"

definition rb_contains :: "'a \<Rightarrow> 'a rb_tree \<Rightarrow> bool option" where
  "rb_contains k T = (case root T of None \<Rightarrow> Some False | Some a \<Rightarrow> node_contains (memory T) k a)"

definition rb_visit :: "'a rb_tree \<Rightarrow> 'a list option" where
  "rb_visit T = visit_impl (memory T) (root T)"

definition rb_destroy :: "'a rb_tree \<Rightarrow> 'a memory option" where
  "rb_destroy T =
     (case root T of None \<Rightarrow> Some (memory T) | Some a \<Rightarrow> map_option (\<lambda>m. m(a := None)) (node_destroy a (memory T)))"

declare find_parent.simps [code] node_max_depth.simps [code] node_min_depth.simps [code]
  node_contains.simps [code] visit_impl.simps [code] node_destroy.simps [code]

fun rb_insert_list :: "'a::linorder list \<Rightarrow> 'a rb_tree \<Rightarrow> 'a rb_tree option" where
  "rb_insert_list [] T = Some T"
| "rb_insert_list (k # ks) T = do { T' \<leftarrow> rb_insert k T; rb_insert_list ks T' }"

end
