(* ===== verification/RB_Tree_Proofs.thy ===== *)
theory RB_Tree_Proofs
  imports RB_Tree
begin

text \<open>
  The tree that the memory of an \<open>RBTree\<close> holds, seen from one of its nodes: the subtree there and the path
  to the root. Rotations and recolourings are first shown on that view, then balancing on the invariant of
  red-black trees, then the operations.
\<close>

section \<open>Trees and paths in memory\<close>

type_synonym 'a cell = "addr \<times> 'a \<times> color"

type_synonym 'a ghost = "'a cell tree"

datatype 'a frame =
    On_Left "'a cell" "'a ghost"
  | On_Right "'a ghost" "'a cell"

type_synonym 'a path = "'a frame list"

fun ptr :: "'a ghost \<Rightarrow> addr option" where
  "ptr \<langle>\<rangle> = None"
| "ptr \<langle>_, (a, _), _\<rangle> = Some a"

fun frame_addr :: "'a frame \<Rightarrow> addr" where
  "frame_addr (On_Left (a, _) _) = a"
| "frame_addr (On_Right _ (a, _)) = a"

fun up :: "'a path \<Rightarrow> addr option" where
  "up [] = None"
| "up (f # _) = Some (frame_addr f)"

fun root_of :: "addr option \<Rightarrow> 'a path \<Rightarrow> addr option" where
  "root_of p [] = p"
| "root_of p (f # fs) = root_of (Some (frame_addr f)) fs"

fun plug :: "'a ghost \<Rightarrow> 'a path \<Rightarrow> 'a ghost" where
  "plug t [] = t"
| "plug t (On_Left x r # fs) = plug \<langle>t, x, r\<rangle> fs"
| "plug t (On_Right l x # fs) = plug \<langle>l, x, t\<rangle> fs"

fun tree_in :: "'a memory \<Rightarrow> addr option \<Rightarrow> 'a ghost \<Rightarrow> bool" where
  "tree_in m par \<langle>\<rangle> = True"
| "tree_in m par \<langle>l, (a, k, c), r\<rangle> =
     (m a = Some \<lparr>key = k, left_child = ptr l, right_child = ptr r, parent = par, color_of = c\<rparr> \<and>
      tree_in m (Some a) l \<and> tree_in m (Some a) r)"

fun path_in :: "'a memory \<Rightarrow> addr option \<Rightarrow> 'a path \<Rightarrow> bool" where
  "path_in m p [] = True"
| "path_in m p (On_Left (a, k, c) r # fs) =
     (m a = Some \<lparr>key = k, left_child = p, right_child = ptr r, parent = up fs, color_of = c\<rparr> \<and>
      tree_in m (Some a) r \<and> path_in m (Some a) fs)"
| "path_in m p (On_Right l (a, k, c) # fs) =
     (m a = Some \<lparr>key = k, left_child = ptr l, right_child = p, parent = up fs, color_of = c\<rparr> \<and>
      tree_in m (Some a) l \<and> path_in m (Some a) fs)"

abbreviation addrs :: "'a ghost \<Rightarrow> addr set" where
  "addrs t \<equiv> fst ` set_tree t"

fun frame_cells :: "'a frame \<Rightarrow> 'a cell list" where
  "frame_cells (On_Left x r) = x # inorder r"
| "frame_cells (On_Right l x) = x # inorder l"

abbreviation path_cells :: "'a path \<Rightarrow> 'a cell list" where
  "path_cells fs \<equiv> concat (map frame_cells fs)"

abbreviation path_addrs :: "'a path \<Rightarrow> addr set" where
  "path_addrs fs \<equiv> fst ` set (path_cells fs)"

text \<open>The tree of \<open>T\<close> is \<open>plug t fs\<close>, and \<open>t\<close> is reached by the path \<open>fs\<close>.\<close>

definition at :: "'a rb_tree \<Rightarrow> 'a ghost \<Rightarrow> 'a path \<Rightarrow> bool" where
  "at T t fs \<longleftrightarrow> tree_in (memory T) (up fs) t \<and> path_in (memory T) (ptr t) fs \<and> root T = root_of (ptr t) fs \<and>
     distinct (map fst (inorder (plug t fs))) \<and> dom (memory T) = addrs (plug t fs) \<and>
     (\<forall>a \<in> dom (memory T). a < next_addr T)"

lemma at_up_left: "at T t (On_Left x r # fs) \<longleftrightarrow> at T \<langle>t, x, r\<rangle> fs"
  by (cases x) (simp add: at_def conj_ac)

lemma at_up_right: "at T t (On_Right l x # fs) \<longleftrightarrow> at T \<langle>l, x, t\<rangle> fs"
  by (cases x) (simp add: at_def conj_ac)

lemma at_plug: "at T t fs \<longleftrightarrow> at T (plug t fs) []"
  by (induction t fs rule: plug.induct) (simp_all add: at_up_left at_up_right)

lemma tree_in_frame [simp]: "a \<notin> addrs t \<Longrightarrow> tree_in (m(a := v)) par t = tree_in m par t"
  by (induction m par t rule: tree_in.induct) (auto simp: image_Un)

lemma path_in_frame [simp]: "a \<notin> path_addrs fs \<Longrightarrow> path_in (m(a := v)) p fs = path_in m p fs"
  by (induction m p fs rule: path_in.induct) (auto simp: image_Un)

lemma plug_mset: "mset (inorder (plug t fs)) = mset (inorder t @ path_cells fs)"
  by (induction t fs rule: plug.induct) simp_all

lemma plug_distinct:
  "distinct (map fst (inorder (plug t fs))) \<longleftrightarrow> distinct (map fst (inorder t @ path_cells fs))"
  by (rule mset_eq_imp_distinct_iff) (metis mset_map plug_mset)

lemma plug_addrs: "addrs (plug t fs) = addrs t \<union> path_addrs fs"
  by (metis plug_mset image_Un set_append set_inorder set_mset_mset)

lemma atD:
  assumes "at T t fs"
  shows "tree_in (memory T) (up fs) t" "path_in (memory T) (ptr t) fs" "root T = root_of (ptr t) fs"
    "distinct (map fst (inorder t))" "distinct (map fst (path_cells fs))"
    "\<And>a. a \<in> addrs t \<Longrightarrow> a \<notin> path_addrs fs"
    "dom (memory T) = addrs t \<union> path_addrs fs" "\<And>a. a \<in> dom (memory T) \<Longrightarrow> a < next_addr T"
  using assms unfolding at_def plug_distinct plug_addrs by auto

lemma atI:
  assumes "tree_in (memory T) (up fs) t" "path_in (memory T) (ptr t) fs" "root T = root_of (ptr t) fs"
    "distinct (map fst (inorder t @ path_cells fs))"
    "dom (memory T) = addrs t \<union> path_addrs fs" "\<And>a. a \<in> dom (memory T) \<Longrightarrow> a < next_addr T"
  shows "at T t fs"
  using assms unfolding at_def plug_distinct plug_addrs by auto

text \<open>Another tree over the same addresses, with the path redirected to it.\<close>

lemma at_replace:
  assumes "at T t fs" "memory T' = m'" "tree_in m' (up fs) t'" "path_in m' (ptr t') fs"
    "root T' = root_of (ptr t') fs" "mset (map fst (inorder t')) = mset (map fst (inorder t))"
    "dom m' = dom (memory T)" "next_addr T' = next_addr T"
  shows "at T' t' fs"
proof (rule atI)
  note d = atD [OF assms(1)]
  have s: "addrs t' = addrs t" using mset_eq_setD [OF assms(6)] by simp
  have "distinct (map fst (inorder t'))" using assms(6) d(4) by (metis mset_eq_imp_distinct_iff)
  then show "distinct (map fst (inorder t' @ path_cells fs))"
    using d(5,6) s by auto
  show "dom (memory T') = addrs t' \<union> path_addrs fs" using d(7) s assms(2,7) by simp
qed (use assms atD(8) [OF assms(1)] in auto)

section \<open>Rotations\<close>

text \<open>The writes to the parent pointer of a subtree's root, and to the child pointer of its parent.\<close>

definition reparent :: "'a ghost \<Rightarrow> addr \<Rightarrow> 'a memory \<Rightarrow> 'a memory" where
  "reparent t q m = (case ptr t of None \<Rightarrow> m | Some b \<Rightarrow> m(b := map_option (\<lambda>n. n\<lparr>parent := Some q\<rparr>) (m b)))"

definition redirect :: "addr \<Rightarrow> 'a path \<Rightarrow> 'a memory \<Rightarrow> 'a memory" where
  "redirect new fs m =
     (case fs of
        [] \<Rightarrow> m
      | On_Left (a, _) _ # _ \<Rightarrow> m(a := map_option (\<lambda>n. n\<lparr>left_child := Some new\<rparr>) (m a))
      | On_Right _ (a, _) # _ \<Rightarrow> m(a := map_option (\<lambda>n. n\<lparr>right_child := Some new\<rparr>) (m a)))"

lemma ptr_addr: "ptr t = Some a \<Longrightarrow> a \<in> addrs t"
  by (cases t rule: ptr.cases) auto

lemma up_addr: "up fs = Some a \<Longrightarrow> a \<in> path_addrs fs"
  by (cases fs rule: up.cases; cases "hd fs") auto

lemma tree_in_reparent:
  "tree_in m par t \<Longrightarrow> distinct (map fst (inorder t)) \<Longrightarrow> tree_in (reparent t q m) (Some q) t"
  by (cases t rule: ptr.cases) (auto simp: reparent_def)

lemma reparent_other: "a \<notin> addrs t \<Longrightarrow> reparent t q m a = m a"
  using ptr_addr [of t a] by (auto simp: reparent_def split: option.split)

lemma reparent_frame:
  "addrs t \<inter> addrs t' = {} \<Longrightarrow> tree_in (reparent t q m) par t' = tree_in m par t'"
  "addrs t \<inter> path_addrs fs = {} \<Longrightarrow> path_in (reparent t q m) p fs = path_in m p fs"
  using ptr_addr [of t] by (auto simp: reparent_def disjoint_iff split: option.split)

lemma redirect_other: "a \<notin> path_addrs fs \<Longrightarrow> redirect new fs m a = m a"
  by (auto simp: redirect_def split: list.split frame.split)

lemma redirect_frame: "addrs t \<inter> path_addrs fs = {} \<Longrightarrow> tree_in (redirect new fs m) par t = tree_in m par t"
proof (cases "up fs")
  case (Some a)
  then obtain v where "redirect new fs m = m(a := v)"
    by (cases fs; cases "hd fs") (auto simp: redirect_def)
  moreover assume "addrs t \<inter> path_addrs fs = {}"
  with up_addr [OF Some] have "a \<notin> addrs t" by blast
  ultimately show ?thesis by simp
qed (cases fs; simp add: redirect_def)

lemma path_in_redirect:
  "path_in m p fs \<Longrightarrow> distinct (map fst (path_cells fs)) \<Longrightarrow> path_in (redirect new fs m) (Some new) fs"
  by (cases fs; cases "hd fs") (auto simp: redirect_def)

lemma dom_redirect [simp]: "dom (redirect new fs m) = dom m"
  by (auto simp: redirect_def split: list.split frame.split)

lemma dom_reparent [simp]: "dom (reparent t q m) = dom m"
  by (auto simp: reparent_def split: option.split)

lemma root_of_redirect: "root_of (Some b) fs = (if fs = [] then Some b else root_of p fs)"
  by (cases fs) auto

text \<open>The memory after a rotation: \<open>s\<close> goes down, \<open>r\<close> comes up, \<open>B\<close> changes its parent.\<close>

definition rotated :: "'a cell \<Rightarrow> 'a cell \<Rightarrow> 'a ghost \<Rightarrow> 'a ghost \<Rightarrow> 'a ghost \<Rightarrow> bool \<Rightarrow> 'a path \<Rightarrow> 'a memory \<Rightarrow> 'a memory" where
  "rotated x y A B C to_left fs m =
     (case (x, y) of ((s, ks, cs), (r, kr, cr)) \<Rightarrow>
       (redirect r fs (reparent B s m))
         (r \<mapsto> \<lparr>key = kr, left_child = (if to_left then Some s else ptr C), right_child = (if to_left then ptr C else Some s),
                parent = up fs, color_of = cr\<rparr>,
          s \<mapsto> \<lparr>key = ks, left_child = (if to_left then ptr A else ptr B), right_child = (if to_left then ptr B else ptr A),
                parent = Some r, color_of = cs\<rparr>))"

lemma small_left_rotation_eq:
  assumes "at T \<langle>A, (s, ks, cs), \<langle>B, (r, kr, cr), C\<rangle>\<rangle> fs"
  shows "small_left_rotation s T =
    Some (T\<lparr>memory := rotated (s, ks, cs) (r, kr, cr) A B C True fs (memory T),
            root := (if fs = [] then Some r else root T)\<rparr>)"
proof -
  note d = atD [OF assms]
  have out: "s \<noteq> r" "s \<notin> addrs B" "r \<notin> addrs B" "s \<notin> path_addrs fs" "r \<notin> path_addrs fs"
    "addrs B \<inter> path_addrs fs = {}"
    using d(4) d(6) by auto
  show ?thesis
  proof (cases fs)
    case Nil
    show ?thesis
      using d(1) out Nil
      by (cases B rule: ptr.cases)
         (auto simp: small_left_rotation_def update_def rotated_def reparent_def redirect_def fun_eq_iff)
  next
    case (Cons f fs')
    then show ?thesis
      using d(1,2,3) out
      by (cases B rule: ptr.cases; cases f)
         (auto simp: small_left_rotation_def update_def rotated_def reparent_def redirect_def fun_eq_iff
           dest!: ptr_addr)
  qed
qed

lemma small_right_rotation_eq:
  assumes "at T \<langle>\<langle>C, (r, kr, cr), B\<rangle>, (s, ks, cs), A\<rangle> fs"
  shows "small_right_rotation s T =
    Some (T\<lparr>memory := rotated (s, ks, cs) (r, kr, cr) A B C False fs (memory T),
            root := (if fs = [] then Some r else root T)\<rparr>)"
proof -
  note d = atD [OF assms]
  have out: "s \<noteq> r" "s \<notin> addrs B" "r \<notin> addrs B" "s \<notin> path_addrs fs" "r \<notin> path_addrs fs"
    "addrs B \<inter> path_addrs fs = {}"
    using d(4) d(6) by auto
  show ?thesis
  proof (cases fs)
    case Nil
    show ?thesis
      using d(1) out Nil
      by (cases B rule: ptr.cases)
         (auto simp: small_right_rotation_def update_def rotated_def reparent_def redirect_def fun_eq_iff)
  next
    case (Cons f fs')
    then show ?thesis
      using d(1,2,3) out
      by (cases B rule: ptr.cases; cases f)
         (auto simp: small_right_rotation_def update_def rotated_def reparent_def redirect_def fun_eq_iff
           dest!: ptr_addr)
  qed
qed

text \<open>The trees of a rotation, to the left or (mirrored) to the right.\<close>

definition node :: "bool \<Rightarrow> 'a ghost \<Rightarrow> 'a cell \<Rightarrow> 'a ghost \<Rightarrow> 'a ghost" where
  "node to_left l x r = (if to_left then \<langle>l, x, r\<rangle> else \<langle>r, x, l\<rangle>)"

lemma addrs_node: "addrs (node b l x r) = insert (fst x) (addrs l \<union> addrs r)"
  by (auto simp: node_def)

lemma rotated_at:
  assumes "at T (node b A (s, ks, cs) (node b B (r, kr, cr) C)) fs"
  shows "at (T\<lparr>memory := rotated (s, ks, cs) (r, kr, cr) A B C b fs (memory T),
    root := (if fs = [] then Some r else root T)\<rparr>) (node b (node b A (s, ks, cs) B) (r, kr, cr) C) fs"
    (is "at ?T ?t fs")
proof (rule at_replace [OF assms])
  note d = atD [OF assms]
  let ?m = "rotated (s, ks, cs) (r, kr, cr) A B C b fs (memory T)"
  have out: "s \<noteq> r" "s \<notin> addrs A" "r \<notin> addrs A" "s \<notin> addrs B" "r \<notin> addrs B" "s \<notin> addrs C" "r \<notin> addrs C"
    "addrs A \<inter> addrs B = {}" "addrs B \<inter> addrs C = {}" "addrs B \<inter> addrs A = {}" "distinct (map fst (inorder B))"
    using d(4) by (auto simp: node_def split: if_splits)
  have path: "s \<notin> path_addrs fs" "r \<notin> path_addrs fs" "addrs A \<inter> path_addrs fs = {}" "addrs B \<inter> path_addrs fs = {}"
    "addrs C \<inter> path_addrs fs = {}"
    using d(6) unfolding addrs_node disjoint_iff fst_conv by (metis UnI1 UnI2 insertI1 insertI2)+
  have B: "tree_in (reparent B s (memory T)) (Some s) B"
    using d(1) out(11) by (cases b) (auto simp: node_def intro: tree_in_reparent)
  have AC: "tree_in (memory T) (Some s) A" "tree_in (memory T) (Some r) C"
    using d(1) by (auto simp: node_def split: if_splits)
  show "tree_in ?m (up fs) ?t"
    using out path B AC
    by (cases b) (simp_all add: node_def rotated_def redirect_frame reparent_frame)
  have "path_in (redirect r fs (reparent B s (memory T))) (Some r) fs"
    using d(2,5) path by (intro path_in_redirect) (auto simp: reparent_frame node_def split: if_splits)
  then show "path_in ?m (ptr ?t) fs" using path by (simp add: rotated_def node_def)
  show "mset (map fst (inorder ?t)) = mset (map fst (inorder (node b A (s, ks, cs) (node b B (r, kr, cr) C))))"
    by (cases b) (simp_all add: node_def ac_simps)
  have "{s, r} \<subseteq> dom (memory T)" using d(1) by (auto simp: node_def split: if_splits)
  then show "dom ?m = dom (memory T)" by (auto simp: rotated_def)
  show "root ?T = root_of (ptr ?t) fs" using d(3) by (cases fs) (auto simp: node_def)
qed simp_all

lemma small_left_rotation_at:
  assumes "at T \<langle>A, (s, ks, cs), \<langle>B, (r, kr, cr), C\<rangle>\<rangle> fs"
  shows "\<exists>T'. small_left_rotation s T = Some T' \<and> at T' \<langle>\<langle>A, (s, ks, cs), B\<rangle>, (r, kr, cr), C\<rangle> fs"
  using small_left_rotation_eq [OF assms] rotated_at [of T True A s ks cs B r kr cr C fs] assms
  by (simp add: node_def)

lemma small_right_rotation_at:
  assumes "at T \<langle>\<langle>C, (r, kr, cr), B\<rangle>, (s, ks, cs), A\<rangle> fs"
  shows "\<exists>T'. small_right_rotation s T = Some T' \<and> at T' \<langle>C, (r, kr, cr), \<langle>B, (s, ks, cs), A\<rangle>\<rangle> fs"
  using small_right_rotation_eq [OF assms] rotated_at [of T False A s ks cs B r kr cr C fs] assms
  by (simp add: node_def)

section \<open>Recolouring\<close>

definition flip_at :: "addr \<Rightarrow> 'a ghost \<Rightarrow> 'a ghost" where
  "flip_at a = map_tree (\<lambda>(b, k, c). (b, k, if b = a then flip c else c))"

lemma flip_at_simps [simp]:
  "flip_at a \<langle>\<rangle> = \<langle>\<rangle>"
  "flip_at a \<langle>l, (b, k, c), r\<rangle> = \<langle>flip_at a l, (b, k, if b = a then flip c else c), flip_at a r\<rangle>"
  by (simp_all add: flip_at_def)

lemma flip_at_other [simp]: "a \<notin> addrs t \<Longrightarrow> flip_at a t = t"
  by (induction t) (auto simp: image_Un)

lemma ptr_flip_at [simp]: "ptr (flip_at a t) = ptr t"
  by (cases t rule: ptr.cases) auto

lemma addrs_flip_at: "map fst (inorder (flip_at a t)) = map fst (inorder t)"
  by (induction t) auto

lemma tree_in_recolor:
  "tree_in m par t \<Longrightarrow> tree_in (m(a := map_option (\<lambda>n. n\<lparr>color_of := flip (color_of n)\<rparr>) (m a))) par (flip_at a t)"
  by (induction m par t rule: tree_in.induct) auto

lemma recolor_at:
  assumes "at T t fs" "a \<in> addrs t"
  shows "\<exists>T'. recolor a T = Some T' \<and> at T' (flip_at a t) fs"
proof -
  note d = atD [OF assms(1)]
  from d(7) assms(2) obtain n where n: "memory T a = Some n" by blast
  let ?m = "(memory T)(a := map_option (\<lambda>n. n\<lparr>color_of := flip (color_of n)\<rparr>) (memory T a))"
  have "recolor a T = Some (T\<lparr>memory := ?m\<rparr>)" by (simp add: recolor_def update_def n)
  moreover have "at (T\<lparr>memory := ?m\<rparr>) (flip_at a t) fs"
  proof (rule at_replace [OF assms(1)])
    show "tree_in ?m (up fs) (flip_at a t)" using d(1) by (rule tree_in_recolor)
    show "path_in ?m (ptr (flip_at a t)) fs" using d(2,6) assms(2) by simp
    show "mset (map fst (inorder (flip_at a t))) = mset (map fst (inorder t))" by (simp only: addrs_flip_at)
    show "dom ?m = dom (memory T)" using n by auto
  qed (use d(3) in simp_all)
  ultimately show ?thesis by blast
qed

end
