(* ===== verification/RB_Tree_Balance.thy ===== *)
theory RB_Tree_Balance
  imports RB_Tree_Proofs
begin

text \<open>
  The invariant of red-black trees, stated of a tree and of a path to the root, and what \<open>BalancingSubtree\<close>
  does to a tree whose only fault is a red node with a red parent.
\<close>

section \<open>The invariant\<close>

fun col :: "'a ghost \<Rightarrow> color" where
  "col \<langle>\<rangle> = Black"
| "col \<langle>_, (_, _, c), _\<rangle> = c"

fun black_height :: "'a ghost \<Rightarrow> nat" where
  "black_height \<langle>\<rangle> = 0"
| "black_height \<langle>l, (_, _, c), _\<rangle> = black_height l + (if c = Black then 1 else 0)"

fun rb_ok :: "'a ghost \<Rightarrow> bool" where
  "rb_ok \<langle>\<rangle> = True"
| "rb_ok \<langle>l, (_, _, c), r\<rangle> =
     (rb_ok l \<and> rb_ok r \<and> black_height l = black_height r \<and> (c = Red \<longrightarrow> col l = Black \<and> col r = Black))"

fun frame_col :: "'a frame \<Rightarrow> color" where
  "frame_col (On_Left (_, _, c) _) = c"
| "frame_col (On_Right _ (_, _, c)) = c"

fun sibling :: "'a frame \<Rightarrow> 'a ghost" where
  "sibling (On_Left _ r) = r"
| "sibling (On_Right l _) = l"

text \<open>The path takes a tree of black height \<open>h\<close>; a red node on it has a black parent.\<close>

fun path_ok :: "nat \<Rightarrow> 'a path \<Rightarrow> bool" where
  "path_ok h [] = True"
| "path_ok h (f # fs) =
     (rb_ok (sibling f) \<and> black_height (sibling f) = h \<and>
      (frame_col f = Red \<longrightarrow> col (sibling f) = Black \<and> fs \<noteq> [] \<and> frame_col (hd fs) = Black) \<and>
      path_ok (h + (if frame_col f = Black then 1 else 0)) fs)"

abbreviation keys :: "'a ghost \<Rightarrow> 'a list" where
  "keys t \<equiv> map (fst \<circ> snd) (inorder t)"

lemma plug_ok:
  "rb_ok t \<Longrightarrow> path_ok (black_height t) fs \<Longrightarrow> (col t = Red \<Longrightarrow> fs = [] \<or> frame_col (hd fs) = Black) \<Longrightarrow>
   rb_ok (plug t fs)"
proof (induction t fs rule: plug.induct)
  case (2 t x r fs)
  obtain a k c where x: "x = (a, k, c)" by (cases x)
  show ?case
    using 2(2-4) unfolding x plug.simps by (intro 2(1) [unfolded x]; cases c; cases "col t"; auto)
next
  case (3 t l x fs)
  obtain a k c where x: "x = (a, k, c)" by (cases x)
  show ?case
    using 3(2-4) unfolding x plug.simps by (intro 3(1) [unfolded x]; cases c; cases "col t"; auto)
qed simp

lemma plug_keys: "keys t = keys t' \<Longrightarrow> keys (plug t fs) = keys (plug t' fs)"
proof (induction t fs arbitrary: t' rule: plug.induct)
  case (2 t x r fs)
  from 2(1) [of "\<langle>t', x, r\<rangle>"] 2(2) show ?case by simp
next
  case (3 t l x fs)
  from 3(1) [of "\<langle>l, x, t'\<rangle>"] 3(2) show ?case by simp
qed simp

section \<open>The steps of the loop\<close>

lemma at_parent:
  assumes "at T t (f # fs)" "ptr t = Some x"
  shows "get_parent x T = Some (Some (frame_addr f))" "is_color (frame_addr f) c T = Some (frame_col f = c)"
    "root T \<noteq> Some x"
proof -
  note d = atD [OF assms(1)]
  show "get_parent x T = Some (Some (frame_addr f))"
    using d(1) assms(2) by (cases t rule: ptr.cases) (auto simp: get_parent_def)
  show "is_color (frame_addr f) c T = Some (frame_col f = c)"
    using d(2) by (cases f) (auto simp: is_color_def split: prod.splits)
  have "\<exists>a \<in> path_addrs (f # fs). root_of p (f # fs) = Some a" for p
  proof (induction fs arbitrary: p f)
    case Nil
    then show ?case by (cases f) auto
  next
    case (Cons g fs)
    from Cons [of g "Some (frame_addr f)"] show ?case by auto
  qed
  then obtain a where "root T = Some a" "a \<in> path_addrs (f # fs)" using d(3) by metis
  moreover have "x \<notin> path_addrs (f # fs)" using d(6) ptr_addr [OF assms(2)] .
  ultimately show "root T \<noteq> Some x" by auto
qed

lemma loop_stop: "at T t (f # fs) \<Longrightarrow> ptr t = Some x \<Longrightarrow> frame_col f = Black \<Longrightarrow> balancing_loop x T = Some T"
  by (simp add: balancing_loop.simps at_parent)

text \<open>The family of a node: \<open>x\<close> the root of \<open>t\<close>, \<open>p\<close> its parent, \<open>g\<close> its grandparent, \<open>U\<close> the uncle's subtree.\<close>

definition family :: "bool \<Rightarrow> bool \<Rightarrow> 'a ghost \<Rightarrow> 'a cell \<Rightarrow> 'a ghost \<Rightarrow> 'a cell \<Rightarrow> 'a ghost \<Rightarrow> 'a ghost" where
  "family b b' U g S p t = node b U g (node b' S p t)"

lemma family_reads:
  assumes "at T (family b b' U (g, kg, cg) S (p, kp, cp) t) fs" "ptr t = Some x"
  shows "get_parent x T = Some (Some p)" "get_grandparent x T = Some (Some g)" "get_uncle x T = Some (ptr U)"
    "\<exists>gn. memory T g = Some gn \<and> (right_child gn = Some p \<longleftrightarrow> b)"
    "\<exists>pn. memory T p = Some pn \<and> (left_child pn = Some x \<longleftrightarrow> \<not> b') \<and> (right_child pn = Some x \<longleftrightarrow> b')"
    "ptr U = Some u \<Longrightarrow> is_color u c T = Some (col U = c)"
proof -
  note d = atD [OF assms(1)]
  from d(4) assms(2) have x: "x \<notin> addrs S" "x \<noteq> p" "x \<noteq> g" "p \<notin> addrs U" "p \<noteq> g"
    using ptr_addr [OF assms(2)] by (auto simp: family_def node_def split: if_splits)
  then have ne: "ptr S \<noteq> Some x" "ptr U \<noteq> Some p" using ptr_addr [of S x] ptr_addr [of U p] by blast+
  obtain tl k c tr where t: "t = \<langle>tl, (x, k, c), tr\<rangle>" using assms(2) by (cases t rule: ptr.cases) auto
  show "get_parent x T = Some (Some p)" "get_grandparent x T = Some (Some g)" "get_uncle x T = Some (ptr U)"
    "\<exists>gn. memory T g = Some gn \<and> (right_child gn = Some p \<longleftrightarrow> b)"
    "\<exists>pn. memory T p = Some pn \<and> (left_child pn = Some x \<longleftrightarrow> \<not> b') \<and> (right_child pn = Some x \<longleftrightarrow> b')"
    using d(1) ne x t
    by (cases b; cases b'; simp add: family_def node_def get_parent_def get_grandparent_def get_uncle_def)+
  show "is_color u c T = Some (col U = c)" if "ptr U = Some u" for c
    using d(1) that by (cases U rule: ptr.cases) (auto simp: family_def node_def is_color_def split: if_splits)
qed

definition frame :: "bool \<Rightarrow> 'a ghost \<Rightarrow> 'a cell \<Rightarrow> 'a frame" where
  "frame to_left S x = (if to_left then On_Right S x else On_Left x S)"

lemma frame_simps [simp]:
  "sibling (frame b S x) = S" "frame_addr (frame b S x) = fst x" "frame_col (frame b S x) = snd (snd x)"
  "plug t (frame b S x # fs) = plug (node b S x t) fs"
  by (cases x; simp add: frame_def node_def)+

lemma frame_cases: obtains b S a k c where "f = frame b S (a, k, c)"
proof (cases f)
  case (On_Left x r)
  then show ?thesis using that [of False r] by (cases x) (simp add: frame_def)
next
  case (On_Right l x)
  then show ?thesis using that [of True l] by (cases x) (simp add: frame_def)
qed

lemma at_frame: "at T t (frame b S x # fs) \<longleftrightarrow> at T (node b S x t) fs"
  by (simp add: frame_def node_def at_up_left at_up_right)

lemma at_family: "at T t (frame b' S p # frame b U g # fs) \<longleftrightarrow> at T (family b b' U g S p t) fs"
  by (simp add: at_frame family_def)

lemma node_simps [simp]:
  "ptr (node b S x t) = Some (fst x)" "col (node b S x t) = snd (snd x)"
  "rb_ok (node b S (a, k, c) t) \<longleftrightarrow> rb_ok S \<and> rb_ok t \<and> black_height S = black_height t \<and>
     (c = Red \<longrightarrow> col S = Black \<and> col t = Black)"
  by (cases x; auto simp: node_def)+

lemma black_height_node:
  "black_height S = black_height t \<Longrightarrow> black_height (node b S (a, k, c) t) = black_height t + (if c = Black then 1 else 0)"
  by (simp add: node_def)

text \<open>Recolouring a member of the family.\<close>

lemma family_recolor:
  assumes "at T (family b b' U (g, kg, cg) S (p, kp, cp) t) fs"
  shows "\<exists>T'. recolor p T = Some T' \<and> at T' (family b b' U (g, kg, cg) S (p, kp, flip cp) t) fs"
    "\<exists>T'. recolor g T = Some T' \<and> at T' (family b b' U (g, kg, flip cg) S (p, kp, cp) t) fs"
    "U = \<langle>ul, (u, ku, cu), ur\<rangle> \<Longrightarrow>
     \<exists>T'. recolor u T = Some T' \<and> at T' (family b b' \<langle>ul, (u, ku, flip cu), ur\<rangle> (g, kg, cg) S (p, kp, cp) t) fs"
proof -
  note d = atD(4) [OF assms]
  have "flip_at p (family b b' U (g, kg, cg) S (p, kp, cp) t) = family b b' U (g, kg, cg) S (p, kp, flip cp) t"
    "flip_at g (family b b' U (g, kg, cg) S (p, kp, cp) t) = family b b' U (g, kg, flip cg) S (p, kp, cp) t"
    "p \<in> addrs (family b b' U (g, kg, cg) S (p, kp, cp) t)" "g \<in> addrs (family b b' U (g, kg, cg) S (p, kp, cp) t)"
    using d by (cases b; cases b'; auto simp: family_def node_def)+
  then show "\<exists>T'. recolor p T = Some T' \<and> at T' (family b b' U (g, kg, cg) S (p, kp, flip cp) t) fs"
    "\<exists>T'. recolor g T = Some T' \<and> at T' (family b b' U (g, kg, flip cg) S (p, kp, cp) t) fs"
    using recolor_at [OF assms, of p] recolor_at [OF assms, of g] by simp_all
  assume U: "U = \<langle>ul, (u, ku, cu), ur\<rangle>"
  then have "flip_at u (family b b' U (g, kg, cg) S (p, kp, cp) t) =
      family b b' \<langle>ul, (u, ku, flip cu), ur\<rangle> (g, kg, cg) S (p, kp, cp) t"
    "u \<in> addrs (family b b' U (g, kg, cg) S (p, kp, cp) t)"
    using d by (cases b; cases b'; auto simp: family_def node_def)+
  then show "\<exists>T'. recolor u T = Some T' \<and> at T' (family b b' \<langle>ul, (u, ku, flip cu), ur\<rangle> (g, kg, cg) S (p, kp, cp) t) fs"
    using recolor_at [OF assms, of u] by simp
qed

lemma recolor_family_at:
  assumes "at T (family b b' \<langle>ul, (u, ku, cu), ur\<rangle> (g, kg, cg) S (p, kp, cp) t) fs" "ptr t = Some x"
  shows "\<exists>T'. recolor_family x u T = Some (g, T') \<and>
    at T' (family b b' \<langle>ul, (u, ku, flip cu), ur\<rangle> (g, kg, flip cg) S (p, kp, flip cp) t) fs"
proof -
  obtain T1 where T1: "recolor u T = Some T1" and at1: "at T1 (family b b' \<langle>ul, (u, ku, flip cu), ur\<rangle> (g, kg, cg) S (p, kp, cp) t) fs"
    using family_recolor(3) [OF assms(1) refl] by blast
  obtain T2 where T2: "recolor p T1 = Some T2" and at2: "at T2 (family b b' \<langle>ul, (u, ku, flip cu), ur\<rangle> (g, kg, cg) S (p, kp, flip cp) t) fs"
    using family_recolor(1) [OF at1] by blast
  obtain T3 where T3: "recolor g T2 = Some T3"
    and at3: "at T3 (family b b' \<langle>ul, (u, ku, flip cu), ur\<rangle> (g, kg, flip cg) S (p, kp, flip cp) t) fs"
    using family_recolor(2) [OF at2] by blast
  show ?thesis
    using T1 T2 T3 at3 family_reads(1) [OF at1 assms(2)] family_reads(2) [OF at2 assms(2)] family_reads(2) [OF at3 assms(2)]
    by (simp add: recolor_family_def)
qed

text \<open>The outer rotation, after the two recolourings.\<close>

lemma outer_rotation:
  assumes "at T (family b b U (g, kg, cg) S (p, kp, cp) t) fs" "ptr t = Some x"
  shows "\<exists>T'. do {
      p \<leftarrow> get_parent x T; p \<leftarrow> p;
      T2 \<leftarrow> recolor p T;
      g \<leftarrow> get_grandparent x T2; g \<leftarrow> g;
      T3 \<leftarrow> recolor g T2;
      g \<leftarrow> get_grandparent x T3; g \<leftarrow> g;
      T4 \<leftarrow> (if b then small_left_rotation g T3 else small_right_rotation g T3);
      Some (x, T4) } = Some (x, T') \<and>
    at T' (node b (node b U (g, kg, flip cg) S) (p, kp, flip cp) t) fs"
proof -
  obtain T2 where T2: "recolor p T = Some T2" and at2: "at T2 (family b b U (g, kg, cg) S (p, kp, flip cp) t) fs"
    using family_recolor(1) [OF assms(1)] by blast
  obtain T3 where T3: "recolor g T2 = Some T3" and at3: "at T3 (family b b U (g, kg, flip cg) S (p, kp, flip cp) t) fs"
    using family_recolor(2) [OF at2] by blast
  have "\<exists>T'. (if b then small_left_rotation g T3 else small_right_rotation g T3) = Some T' \<and>
      at T' (node b (node b U (g, kg, flip cg) S) (p, kp, flip cp) t) fs"
    using at3 small_left_rotation_at [of T3 U g kg "flip cg" S p kp "flip cp" t fs]
      small_right_rotation_at [of T3 t p kp "flip cp" S g kg "flip cg" U fs]
    by (cases b) (simp_all add: family_def node_def)
  then show ?thesis
    using T2 T3 family_reads(1) [OF assms] family_reads(2) [OF at2 assms(2)] family_reads(2) [OF at3 assms(2)]
    by auto
qed

lemma rotate_outer:
  assumes "at T (family b b U (g, kg, cg) S (p, kp, cp) t) fs" "ptr t = Some x"
  shows "\<exists>T'. (if b then rotate_left_at_grandparent x T else rotate_right_at_grandparent x T) = Some (x, T') \<and>
    at T' (node b (node b U (g, kg, flip cg) S) (p, kp, flip cp) t) fs"
proof -
  obtain pn where pn: "memory T p = Some pn" "left_child pn = Some x \<longleftrightarrow> \<not> b" "right_child pn = Some x \<longleftrightarrow> b"
    using family_reads(5) [OF assms] by blast
  show ?thesis
    using outer_rotation [OF assms] pn family_reads(1) [OF assms]
    by (cases b) (simp_all add: rotate_left_at_grandparent_def rotate_right_at_grandparent_def)
qed

lemma inner_rotation:
  assumes "at T (family b (\<not> b) U g S (p, kp, cp) (node b L (x, k, c) R)) fs"
  shows "\<exists>T'. (if b then small_right_rotation p T else small_left_rotation p T) = Some T' \<and>
    at T' (family b b U g L (x, k, c) (node b R (p, kp, cp) S)) fs"
proof -
  have "at T (node (\<not> b) S (p, kp, cp) (node b L (x, k, c) R)) (frame b U g # fs)"
    using assms by (simp add: family_def at_frame)
  then have "\<exists>T'. (if b then small_right_rotation p T else small_left_rotation p T) = Some T' \<and>
    at T' (node b L (x, k, c) (node b R (p, kp, cp) S)) (frame b U g # fs)"
    using small_left_rotation_at [of T S p kp cp R x k c L] small_right_rotation_at [of T L x k c R p kp cp S]
    by (cases b) (simp_all add: node_def)
  then show ?thesis by (simp add: family_def at_frame)
qed

lemma rotate_inner:
  assumes "at T (family b (\<not> b) U (g, kg, cg) S (p, kp, cp) (node b L (x, k, c) R)) fs"
  shows "\<exists>T'. (if b then rotate_left_at_grandparent x T else rotate_right_at_grandparent x T) = Some (p, T') \<and>
    at T' (node b (node b U (g, kg, flip cg) L) (x, k, flip c) (node b R (p, kp, cp) S)) fs"
proof -
  have x: "ptr (node b L (x, k, c) R) = Some x" by simp
  obtain pn where pn: "memory T p = Some pn" "left_child pn = Some x \<longleftrightarrow> b" "right_child pn = Some x \<longleftrightarrow> \<not> b"
    using family_reads(5) [OF assms x] by blast
  obtain T1 where T1: "(if b then small_right_rotation p T else small_left_rotation p T) = Some T1"
    and at1: "at T1 (family b b U (g, kg, cg) L (x, k, c) (node b R (p, kp, cp) S)) fs"
    using inner_rotation [OF assms] by blast
  show ?thesis
    using outer_rotation [OF at1, of p] pn T1 family_reads(1) [OF assms x]
    by (cases b) (simp_all add: rotate_left_at_grandparent_def rotate_right_at_grandparent_def)
qed

lemma keys_node: "keys (node b l (a, k, c) r) = (if b then keys l @ k # keys r else keys r @ k # keys l)"
  by (simp add: node_def)

lemma rotation_stops:
  assumes "at T (node b l (p, k, Black) t) fs" "ptr t = Some s"
  shows "root T \<noteq> Some s" "balancing_loop s T = Some T"
  using at_parent(3) [of T t "frame b l (p, k, Black)" fs s] loop_stop [of T t "frame b l (p, k, Black)" fs s] assms
  by (simp_all add: at_frame)

lemma rotate_ok:
  assumes "at T (family b b' U (g, kg, Black) S (p, kp, Red) t) fs" "ptr t = Some x" "col t = Red"
    and "rb_ok t" "rb_ok S" "rb_ok U" "black_height S = black_height t" "black_height U = black_height t"
      "col S = Black" "col U = Black"
  obtains s T' t' where "(if b then rotate_left_at_grandparent x T else rotate_right_at_grandparent x T) = Some (s, T')"
    "root T' \<noteq> Some s" "balancing_loop s T' = Some T'" "at T' t' fs" "rb_ok t'" "col t' = Black"
    "black_height t' = black_height t + 1" "keys t' = keys (family b b' U (g, kg, Black) S (p, kp, Red) t)"
proof (cases "b' = b")
  case True
  let ?t = "node b (node b U (g, kg, Red) S) (p, kp, Black) t"
  obtain T' where r: "(if b then rotate_left_at_grandparent x T else rotate_right_at_grandparent x T) = Some (x, T')"
    and a: "at T' ?t fs"
    using rotate_outer [OF assms(1) [unfolded True] assms(2)] by auto
  show ?thesis
    using rotation_stops [OF a assms(2)] assms
    by (intro that [OF r _ _ a])
       (simp_all add: True black_height_node keys_node family_def)
next
  case False
  then have b': "b' = (\<not> b)" by blast
  from assms(2,3) obtain k l r where "t = \<langle>l, (x, k, Red), r\<rangle>" by (cases t rule: ptr.cases) auto
  then obtain L R where t: "t = node b L (x, k, Red) R" unfolding node_def by (cases b) auto
  let ?t = "node b (node b U (g, kg, Red) L) (x, k, Black) (node b R (p, kp, Red) S)"
  obtain T' where r: "(if b then rotate_left_at_grandparent x T else rotate_right_at_grandparent x T) = Some (p, T')"
    and a: "at T' ?t fs"
    using rotate_inner [OF assms(1) [unfolded b' t]] by auto
  have h: "black_height t = black_height R" "black_height L = black_height R" and ok: "rb_ok L" "rb_ok R" "col L = Black" "col R = Black"
    using assms(4) by (simp_all add: t black_height_node)
  have SU: "black_height S = black_height R" "black_height U = black_height R" using assms(7,8) h by simp_all
  have p: "ptr (node b R (p, kp, Red) S) = Some p" by simp
  have keys: "keys ?t = keys (family b b' U (g, kg, Black) S (p, kp, Red) t)"
    by (simp add: t b' keys_node family_def)
  have "rb_ok ?t" using assms(5,6,9,10) ok h(2) SU by (simp add: black_height_node)
  moreover have "black_height ?t = black_height t + 1" unfolding h(1) by (simp add: black_height_node h(2) SU)
  ultimately show ?thesis
    using rotation_stops [OF a p] keys by (intro that [OF r _ _ a]) simp_all
qed

section \<open>The loop\<close>

theorem balancing_loop_ok:
  assumes "at T t fs" "ptr t = Some x" "col t = Red" "rb_ok t" "path_ok (black_height t) fs" "fs \<noteq> []"
  shows "\<exists>T' t'. balancing_loop x T = Some T' \<and> at T' t' [] \<and> rb_ok t' \<and> keys t' = keys (plug t fs)"
  using assms
proof (induction "length fs" arbitrary: T t fs x rule: less_induct)
  case less
  then obtain f fs1 where fs: "fs = f # fs1" by (cases fs) auto
  show ?case
  proof (cases "frame_col f")
    case Black
    then have "rb_ok (plug t fs)" using less.prems by (intro plug_ok) (auto simp: fs)
    with loop_stop [of T t f fs1 x] less.prems Black at_plug [of T t fs] fs show ?thesis by auto
  next
    case Red
    with less.prems(5) fs obtain f2 fs2 where fs1: "fs1 = f2 # fs2" and b2: "frame_col f2 = Black"
      by (cases fs1) auto
    obtain b' S p kp cp where f: "f = frame b' S (p, kp, cp)" by (rule frame_cases)
    obtain b U g kg cg where f2: "f2 = frame b U (g, kg, cg)" by (rule frame_cases)
    have c: "cp = Red" "cg = Black" using Red b2 f f2 by simp_all
    let ?F = "family b b' U (g, kg, Black) S (p, kp, Red) t"
    have F: "at T ?F fs2" using less.prems(1) by (simp add: fs fs1 f f2 c at_family)
    have ok: "rb_ok S" "black_height S = black_height t" "col S = Black" "rb_ok U" "black_height U = black_height t"
      "path_ok (black_height t + 1) fs2"
      using less.prems(5) by (simp_all add: fs fs1 f f2 c)
    have plug: "plug t fs = plug ?F fs2" by (simp add: fs fs1 f f2 c family_def)
    note reads = family_reads [OF F less.prems(2)]
    have par: "get_parent x T = Some (Some p)" "is_color p Red T = Some True"
      using at_parent [of T t f fs1 x] less.prems Red fs f by simp_all
    obtain gn where gn: "memory T g = Some gn" "right_child gn = Some p \<longleftrightarrow> b" using reads(4) by blast
    show ?thesis
    proof (cases "col U")
      case Red
      then obtain ul u ku ur where U: "U = \<langle>ul, (u, ku, Red), ur\<rangle>" by (cases U rule: col.cases) auto
      let ?F' = "family b b' \<langle>ul, (u, ku, Black), ur\<rangle> (g, kg, Red) S (p, kp, Black) t"
      obtain T' where T': "recolor_family x u T = Some (g, T')" "at T' ?F' fs2"
        using recolor_family_at [OF F [unfolded U] less.prems(2)] by auto
      have step: "balance_step x T = Some (g, T')"
        using reads T' par gn by (simp add: balance_step_def U)
      have F': "ptr ?F' = Some g" "col ?F' = Red" "rb_ok ?F'" "black_height ?F' = black_height t + 1"
        using ok less.prems(4) by (simp_all add: family_def black_height_node U)
      have keys: "keys ?F' = keys ?F" by (simp add: family_def keys_node U)
      show ?thesis
      proof (cases "fs2 = []")
        case True
        then have "root T' = Some g" using T'(2) F'(1) by (simp add: at_def)
        then have "balancing_loop x T = Some T'" using par step by (simp add: balancing_loop.simps)
        then show ?thesis using T'(2) F' keys plug True by auto
      next
        case False
        then have "root T' \<noteq> Some g" using at_parent(3) [of T' ?F' "hd fs2" "tl fs2" g] T'(2) F'(1) by simp
        then have "balancing_loop x T = balancing_loop g T'" using par step by (subst balancing_loop.simps) simp
        moreover have "path_ok (black_height ?F') fs2" using ok F' by simp
        moreover have "length fs2 < length fs" by (simp add: fs fs1)
        ultimately show ?thesis
          using less.hyps [OF _ T'(2) F'(1-3)] False plug_keys [OF keys, of fs2] plug by simp
      qed
    next
      case Black
      obtain s T' t' where r: "(if b then rotate_left_at_grandparent x T else rotate_right_at_grandparent x T) = Some (s, T')"
        "root T' \<noteq> Some s" "balancing_loop s T' = Some T'" "at T' t' fs2" "rb_ok t'" "col t' = Black"
        "black_height t' = black_height t + 1" "keys t' = keys ?F"
        using rotate_ok [OF F less.prems(2-4) ok(1,4,2,5,3) Black] .
      have red: "(case ptr U of None \<Rightarrow> Some False | Some u \<Rightarrow> is_color u Red T) = Some False"
        using reads(6) Black by (cases "ptr U") auto
      have "balance_step x T = Some (s, T')"
        using r(1) reads(1-3) red gn by (simp add: balance_step_def eq_commute [of "Some p"] split: if_splits)
      then have "balancing_loop x T = Some T'" using par r(2,3) by (subst balancing_loop.simps) simp
      moreover have "rb_ok (plug t' fs2)" using r ok by (intro plug_ok) simp_all
      ultimately show ?thesis
        using r(4) at_plug [of T' t' fs2] plug plug_keys [OF r(8), of fs2] by auto
    qed
  qed
qed

end
