(* ===== verification/Bag_Contract.thy ===== *)
theory Bag_Contract
  imports Prelude "HOL-Library.Multiset"
begin

text \<open>
  What the trees that keep duplicate keys (\<open>RbTree\<close>, \<open>BTree\<close>) promise: as long as the container is below its capacity an
  insertion succeeds and adds one occurrence of the key, and the search answers membership. An operation whose value is
  \<open>None\<close> has no defined behaviour.
\<close>

definition fits :: "nat \<Rightarrow> nat option \<Rightarrow> bool" where
  "fits n limit \<longleftrightarrow> (case limit of None \<Rightarrow> True | Some k \<Rightarrow> n \<le> k)"

locale key_bag =
  fixes valid :: "'t \<Rightarrow> 'a multiset \<Rightarrow> bool"
    and capacity :: "'t \<Rightarrow> nat option"
    and ins :: "'a \<Rightarrow> 't \<Rightarrow> 't option"
    and has :: "'a \<Rightarrow> 't \<Rightarrow> bool option"
  assumes ins_law: "valid T M \<Longrightarrow> fits (Suc (size M)) (capacity T) \<Longrightarrow>
      \<exists>T'. ins x T = Some T' \<and> valid T' (add_mset x M) \<and> capacity T' = capacity T"
    and has_law: "valid T M \<Longrightarrow> has x T = Some (x \<in># M)"

text \<open>A client that inserts a sequence of keys.\<close>

fun insert_keys :: "('a \<Rightarrow> 't \<Rightarrow> 't option) \<Rightarrow> 'a list \<Rightarrow> 't \<Rightarrow> 't option" where
  "insert_keys ins [] T = Some T"
| "insert_keys ins (x # xs) T = (case ins x T of None \<Rightarrow> None | Some T' \<Rightarrow> insert_keys ins xs T')"

context key_bag
begin

lemma insert_keys_valid:
  "valid T M \<Longrightarrow> fits (size M + length xs) (capacity T) \<Longrightarrow>
    \<exists>T'. insert_keys ins xs T = Some T' \<and> valid T' (M + mset xs) \<and> (\<forall>k. has k T' = Some (k \<in># M + mset xs))"
proof (induction xs arbitrary: T M)
  case Nil
  then show ?case using has_law [of T M] by simp
next
  case (Cons x xs)
  have "fits (Suc (size M)) (capacity T)" using Cons.prems(2) by (auto simp: fits_def split: option.splits)
  from ins_law [OF Cons.prems(1) this, of x] obtain T1 where
    T1: "ins x T = Some T1" "valid T1 (add_mset x M)" "capacity T1 = capacity T" by blast
  have "fits (size (add_mset x M) + length xs) (capacity T1)" using Cons.prems(2) T1(3) by simp
  from Cons.IH [OF T1(2) this] T1(1) show ?case by simp
qed

end

end
