(* ===== verification/RB_Tree_Insert.thy ===== *)
theory RB_Tree_Insert
  imports RB_Tree_Balance "HOL-Library.Multiset" Bag_Contract
begin

text \<open>
  \<open>Insert\<close>, \<open>Visit\<close>, \<open>Contains\<close>, \<open>MaxDepth\<close>, \<open>MinDepth\<close> and the destructor of \<open>RBTree\<close>, on the trees held in memory.
\<close>

section \<open>The descent\<close>

fun down :: "'a::linorder \<Rightarrow> 'a ghost \<Rightarrow> 'a path \<Rightarrow> 'a path" where
  "down k \<langle>\<rangle> fs = fs"
| "down k \<langle>l, (a, k', c), r\<rangle> fs =
     (if k < k' then down k l (On_Left (a, k', c) r # fs) else down k r (On_Right l (a, k', c) # fs))"

fun bst_insert :: "'a::linorder cell \<Rightarrow> 'a ghost \<Rightarrow> 'a ghost" where
  "bst_insert n \<langle>\<rangle> = \<langle>\<langle>\<rangle>, n, \<langle>\<rangle>\<rangle>"
| "bst_insert n \<langle>l, x, r\<rangle> = (if fst (snd n) < fst (snd x) then \<langle>bst_insert n l, x, r\<rangle> else \<langle>l, x, bst_insert n r\<rangle>)"

lemma find_parent_down: "tree_in m par t \<Longrightarrow> find_parent k (up fs) (ptr t) m = Some (up (down k t fs))"
proof (induction k t fs arbitrary: par rule: down.induct)
  case (2 k l a k' c r fs)
  then show ?case
    using 2(1) [of "Some a"] 2(2) [of "Some a"] by (subst find_parent.simps) simp
qed (simp add: find_parent.simps)

lemma plug_down: "plug \<langle>\<langle>\<rangle>, (a, k, c), \<langle>\<rangle>\<rangle> (down k t fs) = plug (bst_insert (a, k, c) t) fs"
  by (induction k t fs rule: down.induct) simp_all

lemma plug_down_leaf: "plug \<langle>\<rangle> (down k t fs) = plug t fs"
  by (induction k t fs rule: down.induct) simp_all

lemma down_path_ok:
  "rb_ok t \<Longrightarrow> path_ok (black_height t) fs \<Longrightarrow> (col t = Red \<Longrightarrow> fs \<noteq> [] \<and> frame_col (hd fs) = Black) \<Longrightarrow>
   path_ok 0 (down k t fs)"
proof (induction k t fs rule: down.induct)
  case (2 k l a k' c r fs)
  show ?case
  proof (cases "k < k'")
    case True
    then show ?thesis using 2(1) [OF True] 2(3-5) True by (cases c) auto
  next
    case False
    then show ?thesis using 2(2) [OF False] 2(3-5) False by (cases c) auto
  qed
qed simp

fun side_ok :: "'a::linorder \<Rightarrow> 'a path \<Rightarrow> bool" where
  "side_ok k [] = True"
| "side_ok k (On_Left (_, k', _) _ # _) = (k < k')"
| "side_ok k (On_Right _ (_, k', _) # _) = (\<not> k < k')"

lemma down_side: "side_ok k fs \<Longrightarrow> side_ok k (down k t fs)"
  by (induction k t fs rule: down.induct) auto

lemma mset_bst_insert: "mset (inorder (bst_insert n t)) = add_mset n (mset (inorder t))"
  by (induction t) auto

lemma mset_keys_bst_insert: "mset (keys (bst_insert (a, k, c) t)) = add_mset k (mset (keys t))"
  unfolding mset_map mset_bst_insert by simp

lemma keys_bst_insert: "set (keys (bst_insert (a, k, c) t)) = insert k (set (keys t))"
  using arg_cong [OF mset_keys_bst_insert, of set_mset] unfolding set_mset_add_mset_insert set_mset_mset .

lemma sorted_mid:
  fixes x :: "'a::linorder"
  shows "sorted (xs @ x # ys) \<longleftrightarrow> sorted xs \<and> sorted ys \<and> (\<forall>y \<in> set xs. y \<le> x) \<and> (\<forall>y \<in> set ys. x \<le> y)"
  unfolding sorted_append by (auto intro: order_trans)

lemma keys_Node: "keys \<langle>l, (a, k, c), r\<rangle> = keys l @ k # keys r"
  by simp

lemma sorted_bst_insert: "sorted (keys t) \<Longrightarrow> sorted (keys (bst_insert (a, k, c) t))"
proof (induction t)
  case (Node l x r)
  obtain b kx cx where x: "x = (b, kx, cx)" by (cases x)
  show ?case
  proof (cases "k < kx")
    case True
    then show ?thesis
      using Node unfolding x bst_insert.simps fst_conv snd_conv if_P [OF True] keys_Node sorted_mid keys_bst_insert
      by (metis insert_iff order_less_imp_le)
  next
    case False
    then show ?thesis
      using Node unfolding x bst_insert.simps fst_conv snd_conv if_not_P [OF False] keys_Node sorted_mid keys_bst_insert
      by (metis insert_iff not_less)
  qed
qed simp

section \<open>Insertion\<close>

text \<open>The state between the calls: a red-black tree with a black root, its keys in order.\<close>

definition rb_inv :: "'a::linorder rb_tree \<Rightarrow> 'a ghost \<Rightarrow> bool" where
  "rb_inv T t \<longleftrightarrow> at T t [] \<and> rb_ok t \<and> col t = Black \<and> sorted (keys t)"

lemma rb_inv_new: "rb_inv new_rb_tree \<langle>\<rangle>"
  by (simp add: rb_inv_def at_def new_rb_tree_def)

text \<open>Hanging the new node under the last node of the path.\<close>

lemma attach_at:
  assumes "at T \<langle>\<rangle> fs" "fs \<noteq> []" "side_ok k fs"
    and "n = \<lparr>key = k, left_child = None, right_child = None, parent = up fs, color_of = Red\<rparr>"
  shows "\<exists>T'. update (the (up fs)) (\<lambda>pn. if k < key pn then pn\<lparr>left_child := Some (next_addr T)\<rparr> else pn\<lparr>right_child := Some (next_addr T)\<rparr>)
      (T\<lparr>memory := (memory T)(next_addr T \<mapsto> n), next_addr := next_addr T + 1\<rparr>) = Some T' \<and>
    at T' \<langle>\<langle>\<rangle>, (next_addr T, k, Red), \<langle>\<rangle>\<rangle> fs"
proof -
  note d = atD [OF assms(1)]
  let ?new = "next_addr T"
  let ?m = "(memory T)(?new \<mapsto> n)"
  have new: "?new \<notin> path_addrs fs" using d(7,8) by auto
  have p: "path_in ?m None fs" using d(2) new by simp
  have eq: "update (the (up fs)) (\<lambda>pn. if k < key pn then pn\<lparr>left_child := Some ?new\<rparr> else pn\<lparr>right_child := Some ?new\<rparr>)
      (T\<lparr>memory := ?m, next_addr := ?new + 1\<rparr>) = Some (T\<lparr>memory := redirect ?new fs ?m, next_addr := ?new + 1\<rparr>)"
    using p assms(2,3) by (cases "(k, fs)" rule: side_ok.cases) (auto simp: update_def redirect_def)
  have "at (T\<lparr>memory := redirect ?new fs ?m, next_addr := ?new + 1\<rparr>) \<langle>\<langle>\<rangle>, (?new, k, Red), \<langle>\<rangle>\<rangle> fs"
  proof (rule atI)
    show "tree_in (memory (T\<lparr>memory := redirect ?new fs ?m, next_addr := ?new + 1\<rparr>)) (up fs) \<langle>\<langle>\<rangle>, (?new, k, Red), \<langle>\<rangle>\<rangle>"
      using new assms(4) by (simp add: redirect_other)
    show "path_in (memory (T\<lparr>memory := redirect ?new fs ?m, next_addr := ?new + 1\<rparr>)) (ptr \<langle>\<langle>\<rangle>, (?new, k, Red), \<langle>\<rangle>\<rangle>) fs"
      using path_in_redirect [OF p d(5)] by simp
    show "root (T\<lparr>memory := redirect ?new fs ?m, next_addr := ?new + 1\<rparr>) = root_of (ptr \<langle>\<langle>\<rangle>, (?new, k, Red), \<langle>\<rangle>\<rangle>) fs"
      using d(3) assms(2) by (cases fs) simp_all
    show "distinct (map fst (inorder \<langle>\<langle>\<rangle>, (?new, k, Red), \<langle>\<rangle>\<rangle> @ path_cells fs))" using d(5) new by simp
    show "dom (memory (T\<lparr>memory := redirect ?new fs ?m, next_addr := ?new + 1\<rparr>)) =
        addrs \<langle>\<langle>\<rangle>, (?new, k, Red), \<langle>\<rangle>\<rangle> \<union> path_addrs fs"
      using d(7) by simp
    show "a < next_addr (T\<lparr>memory := redirect ?new fs ?m, next_addr := ?new + 1\<rparr>)"
      if "a \<in> dom (memory (T\<lparr>memory := redirect ?new fs ?m, next_addr := ?new + 1\<rparr>))" for a
      using that d(8) [of a] by (auto simp: less_Suc_eq)
  qed
  with eq show ?thesis by blast
qed

lemma blacken_root:
  assumes "at T t []" "rb_ok t" "keys t \<noteq> []"
  shows "\<exists>T' t'. do { r \<leftarrow> root T; update r (\<lambda>n. n\<lparr>color_of := Black\<rparr>) T } = Some T' \<and> at T' t' [] \<and> rb_ok t' \<and>
    col t' = Black \<and> keys t' = keys t"
proof -
  from assms(3) obtain l a k c r where t: "t = \<langle>l, (a, k, c), r\<rangle>" by (cases t rule: ptr.cases) auto
  note d = atD [OF assms(1)]
  let ?m = "(memory T)(a \<mapsto> \<lparr>key = k, left_child = ptr l, right_child = ptr r, parent = None, color_of = Black\<rparr>)"
  have "do { r \<leftarrow> root T; update r (\<lambda>n. n\<lparr>color_of := Black\<rparr>) T } = Some (T\<lparr>memory := ?m\<rparr>)"
    using d(1,3) by (simp add: t update_def)
  moreover have "at (T\<lparr>memory := ?m\<rparr>) \<langle>l, (a, k, Black), r\<rangle> []"
    using d(1,3,4,7) by (intro at_replace [OF assms(1), where m' = ?m]) (auto simp: t)
  ultimately show ?thesis
    using assms(2) by (intro exI [of _ "T\<lparr>memory := ?m\<rparr>"] exI [of _ "\<langle>l, (a, k, Black), r\<rangle>"]) (simp add: t)
qed

lemma rb_insert_ok:
  assumes "rb_inv T t"
  shows "\<exists>T' t'. rb_insert k T = Some T' \<and> rb_inv T' t' \<and> mset (keys t') = add_mset k (mset (keys t))"
proof -
  have a: "at T t []" and ok: "rb_ok t" "col t = Black" "sorted (keys t)" using assms by (simp_all add: rb_inv_def)
  define fs where "fs = down k t []"
  define new where "new = next_addr T"
  define n where "n = \<lparr>key = k, left_child = None, right_child = None, parent = up fs, color_of = Red\<rparr>"
  note d = atD [OF a]
  have "new \<notin> addrs t" using d(7,8) by (auto simp: new_def)
  then have find: "find_parent k None (root T) ((memory T)(new \<mapsto> v)) = Some (up fs)" for v
    using find_parent_down [of "(memory T)(new \<mapsto> v)" None t k "[]"] d(1,3) by (simp add: fs_def)
  have leaf: "at T \<langle>\<rangle> fs" using a at_plug [of T "\<langle>\<rangle>" fs] by (simp add: fs_def plug_down_leaf)
  have path: "path_ok 0 fs" "side_ok k fs" unfolding fs_def using ok by (auto intro!: down_path_ok down_side)
  let ?t = "bst_insert (new, k, Red) t"
  have plug: "plug \<langle>\<langle>\<rangle>, (new, k, Red), \<langle>\<rangle>\<rangle> fs = ?t" by (simp add: fs_def plug_down)
  have new_keys: "sorted (keys ?t)" "mset (keys ?t) = add_mset k (mset (keys t))"
    by (rule sorted_bst_insert [OF ok(3)], rule mset_keys_bst_insert)
  have upd: "update new (\<lambda>n. n\<lparr>parent := up fs\<rparr>)
      (T\<lparr>memory := (memory T)(new \<mapsto> \<lparr>key = k, left_child = None, right_child = None, parent = None, color_of = Red\<rparr>),
         next_addr := new + 1\<rparr>) = Some (T\<lparr>memory := (memory T)(new \<mapsto> n), next_addr := new + 1\<rparr>)"
    by (simp add: update_def n_def)
  show ?thesis
  proof (cases "up fs")
    case None
    then have fs: "fs = []" by (cases fs) simp_all
    then have t: "t = \<langle>\<rangle>" using plug_down_leaf [of k t "[]"] by (simp add: fs_def)
    let ?T = "T\<lparr>memory := (memory T)(new \<mapsto> n\<lparr>color_of := Black\<rparr>), next_addr := new + 1, root := Some new\<rparr>"
    have "rb_insert k T = Some ?T"
      using find upd None by (simp add: rb_insert_def Let_def flip: new_def) (simp add: update_def)
    moreover have "rb_inv ?T \<langle>\<langle>\<rangle>, (new, k, Black), \<langle>\<rangle>\<rangle>"
      using d(7,8) None by (auto simp: rb_inv_def at_def n_def t)
    ultimately show ?thesis using t by (intro exI conjI) auto
  next
    case (Some p)
    then obtain f fs' where fs: "fs = f # fs'" by (cases fs) simp_all
    obtain T2 where T2: "update p (\<lambda>pn. if k < key pn then pn\<lparr>left_child := Some new\<rparr> else pn\<lparr>right_child := Some new\<rparr>)
        (T\<lparr>memory := (memory T)(new \<mapsto> n), next_addr := new + 1\<rparr>) = Some T2"
      and at2: "at T2 \<langle>\<langle>\<rangle>, (new, k, Red), \<langle>\<rangle>\<rangle> fs"
      using attach_at [OF leaf _ path(2) n_def] fs Some unfolding new_def by auto
    have gp: "get_grandparent new T2 = Some (up fs')"
      using atD(1,2) [OF at2] by (cases f) (auto simp: get_grandparent_def fs split: prod.splits)
    have ins: "rb_insert k T = (if up fs' = None then Some T2 else balancing_subtree new T2)"
      using find upd Some T2 gp by (simp add: rb_insert_def Let_def flip: new_def)
    show ?thesis
    proof (cases "fs' = []")
      case True
      have "rb_ok (plug \<langle>\<langle>\<rangle>, (new, k, Red), \<langle>\<rangle>\<rangle> fs)" "frame_col f = Black"
        using path(1) True by (auto intro!: plug_ok simp: fs; cases "frame_col f"; simp)+
      moreover from this(2) have "col ?t = Black" unfolding plug [symmetric] fs True by (cases f) auto
      moreover have "at T2 ?t []" using at2 plug unfolding at_plug [of T2 _ fs] by simp
      ultimately have "rb_inv T2 ?t" using new_keys plug by (simp add: rb_inv_def)
      with ins True new_keys(2) show ?thesis by auto
    next
      case False
      then have "up fs' \<noteq> None" by (cases fs') simp_all
      obtain T3 t3 where T3: "balancing_loop new T2 = Some T3" "at T3 t3 []" "rb_ok t3" "keys t3 = keys ?t"
        using balancing_loop_ok [OF at2, of new] path(1) fs plug by auto
      have "keys t3 \<noteq> []" using T3(4) new_keys(2) by (metis add_mset_not_empty mset.simps(1))
      then obtain T4 t4 where T4: "do { r \<leftarrow> root T3; update r (\<lambda>n. n\<lparr>color_of := Black\<rparr>) T3 } = Some T4" "at T4 t4 []"
        "rb_ok t4" "col t4 = Black" "keys t4 = keys t3"
        using blacken_root [OF T3(2,3)] by blast
      have "rb_insert k T = Some T4"
        using ins \<open>up fs' \<noteq> None\<close> T3(1) T4(1) by (simp add: balancing_subtree_def)
      moreover have "rb_inv T4 t4" using T4 T3(4) new_keys(1) by (simp add: rb_inv_def)
      ultimately show ?thesis using T4(5) T3(4) new_keys(2) by metis
    qed
  qed
qed

section \<open>The readers and the destructor\<close>

lemma ghost_cases:
  obtains (Leaf) "t = \<langle>\<rangle>" | (Node) l a k c r where "t = \<langle>l, (a, k, c), r\<rangle>"
  by (cases t) (auto simp: split_paired_all)

lemma ptr_cases: "(t :: 'a ghost) = \<langle>\<rangle> \<or> (\<exists>l a k c r. t = \<langle>l, (a, k, c), r\<rangle>)"
  by (cases t rule: ghost_cases) auto

lemma node_max_depth_eq: "tree_in m par t \<Longrightarrow> ptr t = Some a \<Longrightarrow> node_max_depth m a = Some (int (height t))"
proof (induction m par t arbitrary: a rule: tree_in.induct)
  case (2 m par l b k c r)
  then show ?case
    using ptr_cases [of l] ptr_cases [of r] by (subst node_max_depth.simps) auto
qed simp

lemma node_min_depth_eq: "tree_in m par t \<Longrightarrow> ptr t = Some a \<Longrightarrow> node_min_depth m a = Some (int (min_height t))"
proof (induction m par t arbitrary: a rule: tree_in.induct)
  case (2 m par l b k c r)
  then show ?case
    using ptr_cases [of l] ptr_cases [of r] by (subst node_min_depth.simps) auto
qed simp

lemma node_contains_eq: "tree_in m par t \<Longrightarrow> ptr t = Some a \<Longrightarrow> node_contains m x a = Some (x \<in> set (keys t))"
proof (induction m par t arbitrary: a rule: tree_in.induct)
  case (2 m par l b k c r)
  then show ?case
    using ptr_cases [of l] ptr_cases [of r] by (subst node_contains.simps) (auto simp: image_iff)
qed simp

lemma visit_impl_eq: "tree_in m par t \<Longrightarrow> visit_impl m (ptr t) = Some (keys t)"
proof (induction m par t rule: tree_in.induct)
  case (2 m par l b k c r)
  then show ?case by (subst visit_impl.simps) simp
qed (simp add: visit_impl.simps)

lemma tree_in_cong: "(\<And>b. b \<in> addrs t \<Longrightarrow> m' b = m b) \<Longrightarrow> tree_in m' p t = tree_in m p t"
  by (induction m p t rule: tree_in.induct) auto

lemma restrict_out: "X \<inter> A = {} \<Longrightarrow> b \<in> X \<Longrightarrow> (m |` (- A)) b = m b"
  by (auto simp: restrict_map_def)

lemma tree_in_restrict: "addrs t \<inter> A = {} \<Longrightarrow> tree_in (m |` (- A)) p t = tree_in m p t"
  by (rule tree_in_cong) (rule restrict_out)

lemma node_destroy_eq:
  "tree_in m par \<langle>l, (a, k, c), r\<rangle> \<Longrightarrow> distinct (map fst (inorder \<langle>l, (a, k, c), r\<rangle>)) \<Longrightarrow>
   node_destroy a m = Some (m |` (- (addrs l \<union> addrs r)))"
proof (induction "size l + size r" arbitrary: m par l a k c r rule: less_induct)
  case less
  have step: "(case ptr t of None \<Rightarrow> Some m' | Some b \<Rightarrow> do { m'' \<leftarrow> node_destroy b m'; Some (m''(b := None)) }) =
      Some (m' |` (- addrs t))"
    if "tree_in m' (Some a) t" "distinct (map fst (inorder t))" "t = l \<or> t = r" for t m'
  proof (cases t rule: ghost_cases)
    case Leaf
    then show ?thesis by (simp add: restrict_map_def)
  next
    case (Node tl b kb cb tr)
    have "size tl + size tr < size l + size r" using that(3) Node by auto
    then have "node_destroy b m' = Some (m' |` (- (addrs tl \<union> addrs tr)))" using less.hyps that(1,2) Node by blast
    then show ?thesis using Node by (auto simp: restrict_map_def fun_eq_iff)
  qed
  have d: "addrs l \<inter> addrs r = {}" "a \<notin> addrs l" "a \<notin> addrs r" "distinct (map fst (inorder l))" "distinct (map fst (inorder r))"
    using less.prems(2) by auto
  have r: "tree_in (m |` (- addrs l)) (Some a) r" using less.prems(1) tree_in_restrict [of r "addrs l"] d(1) by (simp add: Int_commute)
  have l: "tree_in m (Some a) l"
    and n: "m a = Some \<lparr>key = k, left_child = ptr l, right_child = ptr r, parent = par, color_of = c\<rparr>"
    using less.prems(1) by simp_all
  have n': "(m |` (- addrs l)) a = Some \<lparr>key = k, left_child = ptr l, right_child = ptr r, parent = par, color_of = c\<rparr>"
    using n d(2) by simp
  have "m |` (- addrs l) |` (- addrs r) = m |` (- (addrs l \<union> addrs r))" by (simp add: Compl_Un)
  moreover note step [OF l d(4) disjI1 [OF refl]] step [OF r d(5) disjI2 [OF refl]]
  ultimately show ?case
    by (subst node_destroy.simps) (simp only: n n' Option.bind.bind_lunit rb_node.simps)
qed

section \<open>Heights\<close>

lemma black_height_min: "rb_ok t \<Longrightarrow> black_height t \<le> min_height t"
  by (induction t rule: rb_ok.induct) auto

lemma height_black_height: "rb_ok t \<Longrightarrow> height t \<le> 2 * black_height t + (if col t = Red then 1 else 0)"
proof (induction t rule: rb_ok.induct)
  case (2 l a k c r)
  then show ?case by (cases c) (auto split: if_splits)
qed simp

lemma height_log:
  assumes "rb_ok t" "col t = Black"
  shows "height t \<le> 2 * min_height t" "2 ^ height t \<le> (size1 t) ^ 2"
proof -
  show h: "height t \<le> 2 * min_height t"
    using height_black_height [OF assms(1)] black_height_min [OF assms(1)] assms(2) by simp
  then have "2 ^ height t \<le> (2::nat) ^ (2 * min_height t)" by (rule power_increasing) simp
  also have "\<dots> = (2 ^ min_height t) ^ 2" by (simp only: mult.commute [of 2] power_mult)
  also have "\<dots> \<le> (size1 t) ^ 2" using min_height_size1 by (rule power_mono) simp
  finally show "2 ^ height t \<le> (size1 t) ^ 2" .
qed

section \<open>Sequences of insertions\<close>

lemma rb_inv_readers:
  assumes "rb_inv T t"
  shows "rb_visit T = Some (keys t)" "rb_contains k T = Some (k \<in> set (keys t))"
    "rb_max_depth T = Some (int (height t) - 1)" "rb_min_depth T = Some (int (min_height t) - 1)"
    "rb_destroy T = Some Map.empty"
proof -
  have a: "at T t []" using assms by (simp add: rb_inv_def)
  note d = atD [OF a]
  have t: "tree_in (memory T) None t" "root T = ptr t" using d(1,3) by simp_all
  show "rb_visit T = Some (keys t)" using visit_impl_eq [OF t(1)] t(2) by (simp add: rb_visit_def)
  show "rb_contains k T = Some (k \<in> set (keys t))"
    using node_contains_eq [OF t(1)] t(2) ptr_cases [of t] by (auto simp: rb_contains_def)
  show "rb_max_depth T = Some (int (height t) - 1)" "rb_min_depth T = Some (int (min_height t) - 1)"
    using node_max_depth_eq [OF t(1)] node_min_depth_eq [OF t(1)] t(2) ptr_cases [of t]
    by (auto simp: rb_max_depth_def rb_min_depth_def)
  show "rb_destroy T = Some Map.empty"
  proof (cases t rule: ghost_cases)
    case Leaf
    then show ?thesis using d(7) t(2) by (simp add: rb_destroy_def)
  next
    case (Node l b k c r)
    have "(memory T |` (- (addrs l \<union> addrs r)))(b := None) = Map.empty"
      using d(7) by (auto simp: Node restrict_map_def fun_eq_iff domIff)
    then show ?thesis
      using node_destroy_eq [OF t(1) [unfolded Node]] d(4) t(2) by (simp add: rb_destroy_def Node)
  qed
qed

text \<open>The tree is a bag in the sense of the common contract, without a limit.\<close>

definition rb_valid :: "'a::linorder rb_tree \<Rightarrow> 'a multiset \<Rightarrow> bool" where
  "rb_valid T M \<longleftrightarrow> (\<exists>t. rb_inv T t \<and> mset (keys t) = M)"

interpretation rb: key_bag rb_valid "\<lambda>_. None" rb_insert rb_contains
proof
  fix T :: "'a rb_tree" and M and x
  assume "rb_valid T M"
  then obtain t where t: "rb_inv T t" "mset (keys t) = M" by (auto simp: rb_valid_def simp del: mset_map)
  show "\<exists>T'. rb_insert x T = Some T' \<and> rb_valid T' (add_mset x M) \<and> (None :: nat option) = None"
    using rb_insert_ok [OF t(1), of x] t(2) by (auto simp: rb_valid_def simp del: mset_map)
  have "set (keys t) = set_mset M" using t(2) by (metis set_mset_mset)
  then show "rb_contains x T = Some (x \<in># M)" using rb_inv_readers(2) [OF t(1), of x] by simp
qed

lemma rb_insert_list_keys: "rb_insert_list ks T = insert_keys rb_insert ks T"
  by (induction ks arbitrary: T) (auto split: option.splits bind_splits)

lemma rb_insert_list_ok:
  "rb_inv T t \<Longrightarrow> \<exists>T' t'. rb_insert_list ks T = Some T' \<and> rb_inv T' t' \<and> mset (keys t') = mset (keys t) + mset ks"
  using rb.insert_keys_valid [of T "mset (keys t)" ks] by (auto simp: rb_valid_def fits_def rb_insert_list_keys simp del: mset_map)

text \<open>
  C5: after any sequence of insertions a red-black tree visits its keys in sorted order (duplicates kept),
  \<open>Contains\<close> answers membership, and its destructor deletes every node it allocated, none of them twice.
\<close>

theorem rb_tree_sorted_keys:
  "\<exists>T. rb_insert_list ks new_rb_tree = Some T \<and> rb_visit T = Some (sort ks) \<and>
     (\<forall>k. rb_contains k T = Some (k \<in> set ks)) \<and> rb_destroy T = Some Map.empty"
proof -
  obtain T t where T: "rb_insert_list ks new_rb_tree = Some T" "rb_inv T t" "mset (keys t) = mset ks"
    using rb_insert_list_ok [OF rb_inv_new, of ks] by auto
  have "keys t = sort ks"
    using T(2,3) by (intro properties_for_sort [symmetric]) (simp_all add: rb_inv_def)
  then show ?thesis using T(1) rb_inv_readers [OF T(2)] by (intro exI [of _ T]) (simp del: set_map)
qed

text \<open>
  C6: the tree stays balanced: the longest path to a leaf is at most twice the shortest (in nodes), and has
  at most \<open>2 log\<^sub>2 (n + 1)\<close> nodes after \<open>n\<close> insertions.
\<close>

theorem rb_tree_balanced:
  "\<exists>T longest shortest. rb_insert_list ks new_rb_tree = Some T \<and> rb_max_depth T = Some (longest - 1) \<and>
     rb_min_depth T = Some (shortest - 1) \<and> longest \<le> 2 * shortest \<and> 2 ^ nat longest \<le> (length ks + 1) ^ 2"
proof -
  obtain T t where T: "rb_insert_list ks new_rb_tree = Some T" "rb_inv T t" "mset (keys t) = mset ks"
    using rb_insert_list_ok [OF rb_inv_new, of ks] by auto
  have "length (keys t) = length ks" using T(3) by (metis size_mset)
  then have "size1 t = length ks + 1" by (simp add: size1_size)
  then show ?thesis
    using T(1,2) rb_inv_readers(3,4) [OF T(2)] height_log [of t] unfolding rb_inv_def
    by (intro exI [of _ T] exI [of _ "int (height t)"] exI [of _ "int (min_height t)"]) simp
qed

end
