(* ===== verification/Shared_Ptr.thy ===== *)
theory Shared_Ptr
  imports Prelude "HOL-Library.Monad_Syntax"
begin

text \<open>
  \<open>shared_ptr\<close> of \<open>memory/shared_ptr.hpp\<close>. The world has the shared pointers that are alive (by name), the
  objects, reference counters and deleters in memory, and the objects that the client got from \<open>new\<close> and has
  not handed over. A step is one constructor, destructor, assignment, \<open>reset\<close> or \<open>swap\<close>; the temporary inside of an
  assignment has a name of its own. A thread reaches a counter only through a pointer that
  it keeps alive, and only the thread whose decrement gives 0 frees, so sequences of steps also are the
  interleavings of threads. A shared pointer that is a member of an object is a name like the others, which is destroyed by
  a step of its own. \<open>None\<close> is a dereference of a null or dangling pointer or a double delete.
\<close>

type_synonym addr = nat

type_synonym name = nat

record shared_ptr =
  data_ptr :: "addr option"
  ref_count :: "addr option"
  deleter :: "addr option"

record 'a world =
  pointers :: "name \<rightharpoonup> shared_ptr"
  objects :: "addr \<rightharpoonup> 'a"
  counters :: "addr \<rightharpoonup> int"
  deleters :: "addr set"
  fresh :: addr
  raw :: "addr set"

definition empty_ptr :: shared_ptr where
  "empty_ptr = \<lparr>data_ptr = None, ref_count = None, deleter = None\<rparr>"

definition empty_world :: "'a world" where
  "empty_world = \<lparr>pointers = Map.empty, objects = Map.empty, counters = Map.empty, deleters = {}, fresh = 0, raw = {}\<rparr>"

section \<open>Constructors and destructor\<close>

definition sp_default :: "name \<Rightarrow> 'a world \<Rightarrow> 'a world option" where
  "sp_default x w = Some (w\<lparr>pointers := (pointers w)(x \<mapsto> empty_ptr)\<rparr>)"

text \<open>The pointer may be null; the counter and the deleter are allocated nevertheless.\<close>

definition sp_wrap :: "name \<Rightarrow> addr option \<Rightarrow> 'a world \<Rightarrow> 'a world option" where
  "sp_wrap x p w =
     (let c = fresh w; d = fresh w + 1
      in Some (w\<lparr>pointers := (pointers w)(x \<mapsto> \<lparr>data_ptr = p, ref_count = Some c, deleter = Some d\<rparr>),
                 counters := (counters w)(c \<mapsto> 1), deleters := insert d (deleters w), fresh := fresh w + 2,
                 raw := raw w - set_option p\<rparr>))"

text \<open>A \<open>new T(v)\<close> of the client.\<close>

definition new_object :: "'a \<Rightarrow> 'a world \<Rightarrow> addr \<times> 'a world" where
  "new_object v w =
     (fresh w, w\<lparr>objects := (objects w)(fresh w \<mapsto> v), fresh := fresh w + 1, raw := insert (fresh w) (raw w)\<rparr>)"

definition make_shared :: "name \<Rightarrow> 'a \<Rightarrow> 'a world \<Rightarrow> 'a world option" where
  "make_shared x v w = (case new_object v w of (p, w') \<Rightarrow> sp_wrap x (Some p) w')"

definition sp_copy :: "name \<Rightarrow> name \<Rightarrow> 'a world \<Rightarrow> 'a world option" where
  "sp_copy x other w = do {
     s \<leftarrow> pointers w other;
     if data_ptr s \<noteq> None
     then do { c \<leftarrow> ref_count s; n \<leftarrow> counters w c;
               Some (w\<lparr>pointers := (pointers w)(x \<mapsto> s), counters := (counters w)(c \<mapsto> n + 1)\<rparr>) }
     else Some (w\<lparr>pointers := (pointers w)(x \<mapsto> s)\<rparr>) }"

text \<open>\<open>std::exchange\<close> of the three members of \<open>other\<close> into \<open>x\<close>: the move constructor, and the end of the move assignment.\<close>

definition sp_exchange :: "name \<Rightarrow> name \<Rightarrow> 'a world \<Rightarrow> 'a world option" where
  "sp_exchange x other w = do {
     s \<leftarrow> pointers w other;
     Some (w\<lparr>pointers := (pointers w)(other \<mapsto> empty_ptr, x \<mapsto> s)\<rparr>) }"

definition sp_destroy :: "name \<Rightarrow> 'a world \<Rightarrow> 'a world option" where
  "sp_destroy x w = do {
     s \<leftarrow> pointers w x;
     let w' = w\<lparr>pointers := (pointers w)(x := None)\<rparr>;
     case data_ptr s of
       None \<Rightarrow> Some w'
     | Some p \<Rightarrow> do {
         c \<leftarrow> ref_count s;
         n \<leftarrow> counters w c;
         if n - 1 = 0
         then do {
           d \<leftarrow> deleter s;
           if p \<notin> dom (objects w) \<or> d \<notin> deleters w then None
           else Some (w'\<lparr>counters := (counters w)(c := None), objects := (objects w)(p := None),
                        deleters := deleters w - {d}\<rparr>) }
         else Some (w'\<lparr>counters := (counters w)(c \<mapsto> n - 1)\<rparr>) } }"

definition sp_swap :: "name \<Rightarrow> name \<Rightarrow> 'a world \<Rightarrow> 'a world option" where
  "sp_swap x y w = do {
     s \<leftarrow> pointers w x;
     s' \<leftarrow> pointers w y;
     Some (w\<lparr>pointers := (pointers w)(x \<mapsto> s', y \<mapsto> s)\<rparr>) }"

section \<open>Assignments and resets\<close>

definition copy_assign :: "name \<Rightarrow> name \<Rightarrow> name \<Rightarrow> 'a world \<Rightarrow> 'a world option" where
  "copy_assign tmp x other w =
     (if other = x then Some w
      else do { w1 \<leftarrow> sp_copy tmp other w; w2 \<leftarrow> sp_swap tmp x w1; sp_destroy tmp w2 })"

definition reset :: "name \<Rightarrow> name \<Rightarrow> 'a world \<Rightarrow> 'a world option" where
  "reset tmp x w = do { w1 \<leftarrow> sp_default tmp w; w2 \<leftarrow> sp_swap tmp x w1; sp_destroy tmp w2 }"

definition move_assign :: "name \<Rightarrow> name \<Rightarrow> name \<Rightarrow> 'a world \<Rightarrow> 'a world option" where
  "move_assign tmp x other w = do { w1 \<leftarrow> reset tmp x w; sp_exchange x other w1 }"

definition reset_raw :: "name \<Rightarrow> name \<Rightarrow> addr option \<Rightarrow> 'a world \<Rightarrow> 'a world option" where
  "reset_raw tmp x p w = do { w1 \<leftarrow> sp_wrap tmp p w; w2 \<leftarrow> sp_swap tmp x w1; sp_destroy tmp w2 }"

section \<open>Programs\<close>

datatype 'a sp_step =
    Default name
  | Make name 'a
  | New 'a
  | Wrap name "addr option"
  | Copy name name
  | Move name name
  | Destroy name
  | Swap name name
  | Copy_Assign name name name
  | Move_Assign name name name
  | Reset name name
  | Reset_Raw name name "addr option"

fun exec :: "'a sp_step \<Rightarrow> 'a world \<Rightarrow> 'a world option" where
  "exec (Default x) w = sp_default x w"
| "exec (Make x v) w = make_shared x v w"
| "exec (New v) w = Some (snd (new_object v w))"
| "exec (Wrap x p) w = sp_wrap x p w"
| "exec (Copy x y) w = sp_copy x y w"
| "exec (Move x y) w = sp_exchange x y w"
| "exec (Destroy x) w = sp_destroy x w"
| "exec (Swap x y) w = sp_swap x y w"
| "exec (Copy_Assign tmp x y) w = copy_assign tmp x y w"
| "exec (Move_Assign tmp x y) w = move_assign tmp x y w"
| "exec (Reset tmp x) w = reset tmp x w"
| "exec (Reset_Raw tmp x p) w = reset_raw tmp x p w"

text \<open>
  What a C++ program may do: construct a new name, use the names that are alive, and wrap a null pointer or a pointer that
  it owns. The pointer assigned from may be the one assigned to.
\<close>

fun allowed :: "'a sp_step \<Rightarrow> 'a world \<Rightarrow> bool" where
  "allowed (Default x) w = (pointers w x = None)"
| "allowed (Make x v) w = (pointers w x = None)"
| "allowed (New v) w = True"
| "allowed (Wrap x p) w = (pointers w x = None \<and> set_option p \<subseteq> raw w)"
| "allowed (Copy x y) w = (pointers w x = None \<and> pointers w y \<noteq> None)"
| "allowed (Move x y) w = (pointers w x = None \<and> pointers w y \<noteq> None)"
| "allowed (Destroy x) w = (pointers w x \<noteq> None)"
| "allowed (Swap x y) w = (pointers w x \<noteq> None \<and> pointers w y \<noteq> None)"
| "allowed (Copy_Assign tmp x y) w = (pointers w tmp = None \<and> pointers w x \<noteq> None \<and> pointers w y \<noteq> None)"
| "allowed (Move_Assign tmp x y) w = (pointers w tmp = None \<and> pointers w x \<noteq> None \<and> pointers w y \<noteq> None)"
| "allowed (Reset tmp x) w = (pointers w tmp = None \<and> pointers w x \<noteq> None)"
| "allowed (Reset_Raw tmp x p) w = (pointers w tmp = None \<and> pointers w x \<noteq> None \<and> set_option p \<subseteq> raw w)"

fun client :: "'a sp_step list \<Rightarrow> 'a world \<Rightarrow> 'a world option" where
  "client [] w = Some w"
| "client (step # steps) w = (if allowed step w then do { w' \<leftarrow> exec step w; client steps w' } else client steps w)"

text \<open>How many of the steps that are executed wrap a null pointer.\<close>

fun wraps_null :: "'a sp_step \<Rightarrow> bool" where
  "wraps_null (Wrap x p) = (p = None)"
| "wraps_null (Reset_Raw tmp x p) = (p = None)"
| "wraps_null _ = False"

fun null_wraps :: "'a sp_step list \<Rightarrow> 'a world \<Rightarrow> nat" where
  "null_wraps [] w = 0"
| "null_wraps (step # steps) w =
     (if allowed step w
      then (if wraps_null step then 1 else 0) + (case exec step w of None \<Rightarrow> 0 | Some w' \<Rightarrow> null_wraps steps w')
      else null_wraps steps w)"

section \<open>Observers\<close>

definition sp_get :: "name \<Rightarrow> 'a world \<Rightarrow> addr option option" where
  "sp_get x w = map_option data_ptr (pointers w x)"

definition sp_deref :: "name \<Rightarrow> 'a world \<Rightarrow> 'a option" where
  "sp_deref x w = do { s \<leftarrow> pointers w x; p \<leftarrow> data_ptr s; objects w p }"

definition use_count :: "name \<Rightarrow> 'a world \<Rightarrow> int option" where
  "use_count x w = do {
     s \<leftarrow> pointers w x;
     if data_ptr s \<noteq> None then do { c \<leftarrow> ref_count s; counters w c } else Some 0 }"

definition sp_unique :: "name \<Rightarrow> 'a world \<Rightarrow> bool option" where
  "sp_unique x w = map_option (\<lambda>n. n = 1) (use_count x w)"

definition sp_bool :: "name \<Rightarrow> 'a world \<Rightarrow> bool option" where
  "sp_bool x w = map_option (\<lambda>s. data_ptr s \<noteq> None) (pointers w x)"

definition sp_equal :: "name \<Rightarrow> name \<Rightarrow> 'a world \<Rightarrow> bool option" where
  "sp_equal x y w = do { p \<leftarrow> sp_get x w; q \<leftarrow> sp_get y w; Some (p = q) }"

definition sp_not_equal :: "name \<Rightarrow> name \<Rightarrow> 'a world \<Rightarrow> bool option" where
  "sp_not_equal x y w = do { p \<leftarrow> sp_get x w; q \<leftarrow> sp_get y w; Some (p \<noteq> q) }"

definition sp_is_null :: "name \<Rightarrow> 'a world \<Rightarrow> bool option" where
  "sp_is_null x w = map_option Not (sp_bool x w)"

section \<open>Ownership\<close>

text \<open>How many pointers alive have the value \<open>s\<close>; the values with an object that some pointer has.\<close>

definition holders :: "(name \<rightharpoonup> shared_ptr) \<Rightarrow> shared_ptr \<Rightarrow> nat" where
  "holders P s = card {x. P x = Some s}"

definition held :: "(name \<rightharpoonup> shared_ptr) \<Rightarrow> shared_ptr \<Rightarrow> bool" where
  "held P s \<longleftrightarrow> data_ptr s \<noteq> None \<and> holders P s > 0"

definition overlap :: "shared_ptr \<Rightarrow> shared_ptr \<Rightarrow> bool" where
  "overlap s s' \<longleftrightarrow> data_ptr s = data_ptr s' \<or> ref_count s = ref_count s' \<or> deleter s = deleter s'"

text \<open>A value owns an object, a counter that holds the number of its holders, and a deleter.\<close>

definition owns :: "'a world \<Rightarrow> shared_ptr \<Rightarrow> bool" where
  "owns w s \<longleftrightarrow> (\<exists>p. data_ptr s = Some p \<and> p \<in> dom (objects w) \<and> p \<notin> raw w) \<and>
     (\<exists>d. deleter s = Some d \<and> d \<in> deleters w) \<and>
     (\<exists>c. ref_count s = Some c \<and> counters w c = Some (int (holders (pointers w) s)))"

lemma ownsE:
  assumes "owns w s"
  obtains p c d where "data_ptr s = Some p" "ref_count s = Some c" "deleter s = Some d"
    "p \<in> dom (objects w)" "p \<notin> raw w" "d \<in> deleters w" "counters w c = Some (int (holders (pointers w) s))"
  using assms by (auto simp: owns_def)

text \<open>Everything in memory has an owner, except for the counters \<open>N\<close> of wrapped null pointers and their deleters.\<close>

definition no_leak :: "addr set \<Rightarrow> 'a world \<Rightarrow> bool" where
  "no_leak N w \<longleftrightarrow>
     (\<forall>p \<in> dom (objects w). p \<in> raw w \<or> (\<exists>s. held (pointers w) s \<and> data_ptr s = Some p)) \<and>
     (\<forall>c \<in> dom (counters w) - N. \<exists>s. held (pointers w) s \<and> ref_count s = Some c) \<and>
     (\<forall>d \<in> deleters w - Suc ` N. \<exists>s. held (pointers w) s \<and> deleter s = Some d)"

definition left_behind :: "addr set \<Rightarrow> 'a world \<Rightarrow> bool" where
  "left_behind N w \<longleftrightarrow> finite N \<and> N \<subseteq> dom (counters w) \<and> Suc ` N \<subseteq> deleters w \<and>
     (\<forall>s c d. held (pointers w) s \<longrightarrow> ref_count s = Some c \<longrightarrow> deleter s = Some d \<longrightarrow> c \<notin> N \<and> d \<notin> Suc ` N)"

definition consistent :: "addr set \<Rightarrow> 'a world \<Rightarrow> bool" where
  "consistent N w \<longleftrightarrow> finite (dom (pointers w)) \<and> (\<forall>s. held (pointers w) s \<longrightarrow> owns w s) \<and>
     (\<forall>s s'. held (pointers w) s \<longrightarrow> held (pointers w) s' \<longrightarrow> overlap s s' \<longrightarrow> s = s') \<and>
     no_leak N w \<and> left_behind N w \<and> raw w \<subseteq> dom (objects w) \<and>
     (\<forall>a \<in> dom (objects w) \<union> dom (counters w) \<union> deleters w. a < fresh w)"

lemma empty_consistent: "consistent {} empty_world"
  by (simp add: consistent_def empty_world_def held_def holders_def no_leak_def left_behind_def)

lemma holders_finite: "finite (dom P) \<Longrightarrow> finite {x. P x = Some s}"
  by (rule finite_subset [of _ "dom P"]) auto

lemma held_pointer: "finite (dom P) \<Longrightarrow> P x = Some s \<Longrightarrow> data_ptr s \<noteq> None \<Longrightarrow> held P s"
  by (auto simp: held_def holders_def card_gt_0_iff holders_finite)

lemma held_ex: "held P s \<Longrightarrow> \<exists>x. P x = Some s"
  by (auto simp: held_def holders_def card_gt_0_iff)

lemma holders_add:
  assumes "finite (dom P)" "P x = None"
  shows "holders (P(x \<mapsto> s)) t = holders P t + (if t = s then 1 else 0)"
proof -
  have "{y. (P(x \<mapsto> s)) y = Some t} = (if t = s then insert x {y. P y = Some t} else {y. P y = Some t})"
    using assms(2) by auto
  then show ?thesis using assms(2) by (simp add: holders_def holders_finite [OF assms(1)])
qed

lemma holders_remove:
  assumes "finite (dom P)" "P x = Some s"
  shows "holders (P(x := None)) t = holders P t - (if t = s then 1 else 0)"
    "P x = Some t \<Longrightarrow> holders P t > 0"
proof -
  have "{y. (P(x := None)) y = Some t} = (if t = s then {y. P y = Some t} - {x} else {y. P y = Some t})"
    using assms(2) by auto
  then show "holders (P(x := None)) t = holders P t - (if t = s then 1 else 0)"
    using assms(2) by (simp add: holders_def card_Diff_singleton_if)
qed (use assms in \<open>auto simp: holders_def card_gt_0_iff holders_finite\<close>)

lemma holders_update:
  assumes "finite (dom P)" "P x = Some u"
  shows "holders (P(x \<mapsto> s)) t = holders P t - (if t = u then 1 else 0) + (if t = s then 1 else 0)"
proof -
  have "P(x \<mapsto> s) = (P(x := None))(x \<mapsto> s)" by simp
  moreover have "finite (dom (P(x := None)))" using assms(1) by simp
  ultimately show ?thesis using holders_add [of "P(x := None)" x s t] holders_remove(1) [OF assms, of t] by simp
qed

section \<open>Every step keeps it\<close>

text \<open>Pointers may change places, and those without an object come and go.\<close>

lemma consistent_pointers:
  assumes w: "consistent N w" and P: "finite (dom P)"
    and same: "\<And>s. data_ptr s \<noteq> None \<Longrightarrow> holders P s = holders (pointers w) s"
  shows "consistent N (w\<lparr>pointers := P\<rparr>)"
proof -
  have h: "held P s = held (pointers w) s" for s using same by (auto simp: held_def)
  moreover have "held (pointers w) s \<Longrightarrow> holders P s = holders (pointers w) s" for s
    using same by (auto simp: held_def)
  ultimately show ?thesis
    using w P by (auto simp: consistent_def owns_def no_leak_def left_behind_def)
qed

lemma empty_no_data [simp]: "data_ptr empty_ptr = None"
  by (simp add: empty_ptr_def)

lemma add_no_data:
  assumes "consistent N w" "pointers w x = None" "data_ptr s = None"
  shows "consistent N (w\<lparr>pointers := (pointers w)(x \<mapsto> s)\<rparr>)"
proof -
  have "finite (dom (pointers w))" using assms(1) by (simp add: consistent_def)
  then show ?thesis
    by (intro consistent_pointers [OF assms(1)]) (use assms(2,3) in \<open>auto simp: holders_add\<close>)
qed

lemma sp_default_consistent:
  assumes "consistent N w" "pointers w x = None"
  shows "\<exists>w'. sp_default x w = Some w' \<and> consistent N w'"
  using add_no_data [OF assms] by (simp add: sp_default_def)

lemma sp_exchange_consistent:
  assumes w: "consistent N w" and x: "pointers w x = None \<or> pointers w x = Some empty_ptr" and y: "pointers w y \<noteq> None"
  shows "\<exists>w'. sp_exchange x y w = Some w' \<and> consistent N w'"
proof -
  from y obtain s where s: "pointers w y = Some s" by auto
  let ?P = "(pointers w)(y \<mapsto> empty_ptr)"
  have fin: "finite (dom (pointers w))" "finite (dom ?P)" using w by (simp_all add: consistent_def)
  have "holders (?P(x \<mapsto> s)) t = holders (pointers w) t" if d: "data_ptr t \<noteq> None" for t
  proof (cases "x = y")
    case True
    with x s show ?thesis by (auto simp: fun_upd_idem)
  next
    case False
    have t: "t \<noteq> empty_ptr" using d by auto
    have "holders (?P(x \<mapsto> s)) t = holders ?P t + (if t = s then 1 else 0)"
      using x False t holders_add [OF fin(2), of x s t] holders_update [OF fin(2), of x empty_ptr s t] by auto
    also have "\<dots> = holders (pointers w) t"
      using holders_update [OF fin(1) s, of empty_ptr t] holders_remove(2) [OF fin(1) s] s t by auto
    finally show ?thesis .
  qed
  with w s fin show ?thesis unfolding sp_exchange_def by (auto intro!: consistent_pointers)
qed

lemma sp_swap_consistent:
  assumes w: "consistent N w" and "pointers w x \<noteq> None" "pointers w y \<noteq> None"
  shows "\<exists>w'. sp_swap x y w = Some w' \<and> consistent N w'"
proof -
  from assms obtain s s' where s: "pointers w x = Some s" "pointers w y = Some s'" by auto
  let ?P = "(pointers w)(x \<mapsto> s')"
  have fin: "finite (dom (pointers w))" "finite (dom ?P)" using w by (simp_all add: consistent_def)
  have "holders (?P(y \<mapsto> s)) t = holders (pointers w) t" for t
  proof (cases "x = y")
    case True
    with s show ?thesis by (auto simp: fun_upd_idem)
  next
    case False
    then have "holders (?P(y \<mapsto> s)) t = holders ?P t - (if t = s' then 1 else 0) + (if t = s then 1 else 0)"
      using s holders_update [OF fin(2), of y s' s t] by simp
    also have "\<dots> = holders (pointers w) t"
      using holders_update [OF fin(1) s(1), of s' t] holders_remove(2) [OF fin(1) s(1)] s by auto
    finally show ?thesis .
  qed
  with w s fin show ?thesis unfolding sp_swap_def by (auto intro!: consistent_pointers)
qed

text \<open>A fresh counter and deleter for an object of the client.\<close>

lemma consistentD:
  assumes "consistent N w"
  shows "finite (dom (pointers w))" "\<And>s. held (pointers w) s \<Longrightarrow> owns w s"
    "\<And>s s'. held (pointers w) s \<Longrightarrow> held (pointers w) s' \<Longrightarrow> overlap s s' \<Longrightarrow> s = s'"
    "no_leak N w" "left_behind N w" "raw w \<subseteq> dom (objects w)"
    "\<And>a. a \<in> dom (objects w) \<union> dom (counters w) \<union> deleters w \<Longrightarrow> a < fresh w"
  using assms by (auto simp: consistent_def)

lemma left_behind_low:
  assumes "consistent N w" "c \<in> N"
  shows "c < fresh w \<and> Suc c < fresh w"
  using consistentD(5,7) [OF assms(1)] assms(2) unfolding left_behind_def by blast

lemma sp_wrap_consistent:
  assumes w: "consistent N w" and x: "pointers w x = None" and p: "p \<in> raw w"
  shows "\<exists>w'. sp_wrap x (Some p) w = Some w' \<and> consistent N w'"
proof -
  define d where "d = fresh w + 1"
  define s where "s = \<lparr>data_ptr = Some p, ref_count = Some (fresh w), deleter = Some d\<rparr>"
  have sd: "data_ptr s = Some p" "ref_count s = Some (fresh w)" "deleter s = Some d" by (simp_all add: s_def)
  let ?P = "(pointers w)(x \<mapsto> s)"
  note fin = consistentD(1) [OF w] and own = consistentD(2) [OF w] and uniq = consistentD(3) [OF w]
    and leak = consistentD(4) [OF w] and left = consistentD(5) [OF w] and raw = consistentD(6) [OF w]
    and low = consistentD(7) [OF w]
  have apart: "\<not> overlap t s \<and> \<not> overlap s t \<and> t \<noteq> s" if "held (pointers w) t" for t
  proof -
    from own [OF that] obtain q c e where t: "data_ptr t = Some q" "ref_count t = Some c" "deleter t = Some e"
      "q \<notin> raw w" "e \<in> deleters w" "c \<in> dom (counters w)" by (rule ownsE) auto
    with p low [of c] low [of e] sd show ?thesis by (auto simp: overlap_def d_def)
  qed
  have new: "holders (pointers w) s = 0" using apart [of s] sd(1) by (auto simp: held_def)
  have h: "held ?P t \<longleftrightarrow> held (pointers w) t \<or> t = s" "holders ?P t = holders (pointers w) t + (if t = s then 1 else 0)" for t
    using holders_add [OF fin x, of s t] sd(1) by (auto simp: held_def)
  let ?w = "w\<lparr>pointers := ?P, counters := (counters w)(fresh w \<mapsto> 1),
    deleters := insert d (deleters w), fresh := fresh w + 2, raw := raw w - {p}\<rparr>"
  have "owns ?w t" if "held ?P t" for t
  proof (cases "t = s")
    case True
    then show ?thesis using p raw new h(2) [of s] sd by (auto simp: owns_def)
  next
    case False
    with that h(1) have "held (pointers w) t" by blast
    from own [OF this] obtain q c e where "data_ptr t = Some q" "ref_count t = Some c" "deleter t = Some e"
      "q \<in> dom (objects w)" "q \<notin> raw w" "e \<in> deleters w" "counters w c = Some (int (holders (pointers w) t))"
      by (rule ownsE)
    with low [of c] h(2) [of t] False show ?thesis by (auto simp: owns_def)
  qed
  moreover have "no_leak N ?w"
    using leak sd unfolding no_leak_def by (auto simp: h(1))
  moreover have "left_behind N ?w"
  proof -
    have "fresh w \<notin> N" "d \<notin> Suc ` N" using left_behind_low [OF w] by (auto simp: d_def)
    with left sd show ?thesis unfolding left_behind_def by (auto simp: h(1))
  qed
  ultimately have "consistent N ?w"
    using fin uniq apart raw low unfolding consistent_def by (auto simp: h(1) d_def less_Suc_eq)
  then show ?thesis by (simp add: sp_wrap_def s_def d_def Let_def)
qed

text \<open>For a null pointer they stay behind.\<close>

lemma sp_wrap_null:
  assumes w: "consistent N w" and x: "pointers w x = None"
  shows "\<exists>w'. sp_wrap x None w = Some w' \<and> consistent (insert (fresh w) N) w'" "fresh w \<notin> N"
proof -
  let ?s = "\<lparr>data_ptr = None, ref_count = Some (fresh w), deleter = Some (fresh w + 1)\<rparr>"
  let ?w = "w\<lparr>counters := (counters w)(fresh w \<mapsto> 1), deleters := insert (Suc (fresh w)) (deleters w), fresh := fresh w + 2\<rparr>"
  note own = consistentD(2) [OF w] and leak = consistentD(4) [OF w] and left = consistentD(5) [OF w]
    and low = consistentD(7) [OF w]
  have new: "counters w (fresh w) = None" "Suc (fresh w) \<notin> deleters w" using low by fastforce+
  have "owns ?w t" if "held (pointers w) t" for t
    using own [OF that] new by (auto simp: owns_def)
  moreover have "no_leak (insert (fresh w) N) ?w" using leak by (auto simp: no_leak_def)
  moreover have "left_behind (insert (fresh w) N) ?w"
  proof -
    have "c \<noteq> fresh w \<and> d \<noteq> Suc (fresh w)" if t: "held (pointers w) t" "ref_count t = Some c" "deleter t = Some d" for t c d
      using own [OF t(1)] t(2,3) new by (auto simp: owns_def)
    with left show ?thesis by (auto simp: left_behind_def)
  qed
  ultimately have "consistent (insert (fresh w) N) ?w"
    using w by (auto simp: consistent_def less_Suc_eq)
  from add_no_data [OF this, of x ?s] x have "consistent (insert (fresh w) N) (?w\<lparr>pointers := (pointers w)(x \<mapsto> ?s)\<rparr>)" by simp
  moreover have "sp_wrap x None w = Some (?w\<lparr>pointers := (pointers w)(x \<mapsto> ?s)\<rparr>)"
    by (cases w) (simp add: sp_wrap_def Let_def)
  ultimately show "\<exists>w'. sp_wrap x None w = Some w' \<and> consistent (insert (fresh w) N) w'" by blast
  show "fresh w \<notin> N" using left_behind_low [OF w] by blast
qed

lemma new_object_consistent:
  assumes w: "consistent N w"
  shows "consistent N (snd (new_object v w))"
proof -
  let ?w = "snd (new_object v w)"
  have f: "fresh w \<notin> dom (objects w)" using w unfolding consistent_def by blast
  have eqs: "pointers ?w = pointers w" "counters ?w = counters w" "deleters ?w = deleters w"
    "objects ?w = (objects w)(fresh w \<mapsto> v)" "raw ?w = insert (fresh w) (raw w)" "fresh ?w = fresh w + 1"
    by (simp_all add: new_object_def)
  have "owns ?w s" if "owns w s" for s
    using that f unfolding owns_def eqs by auto
  moreover have "no_leak N ?w" using w unfolding consistent_def no_leak_def eqs by auto
  moreover have "left_behind N ?w" using w unfolding consistent_def left_behind_def eqs by auto
  ultimately show ?thesis using w unfolding consistent_def eqs by (auto simp: less_SucI)
qed

lemma make_shared_consistent:
  assumes "consistent N w" "pointers w x = None"
  shows "\<exists>w'. make_shared x v w = Some w' \<and> consistent N w'"
  using sp_wrap_consistent [OF new_object_consistent [OF assms(1), of v], of x "fresh w"] assms(2)
  by (simp add: make_shared_def new_object_def)

text \<open>Copying raises the counter, destruction lowers it, the last one frees.\<close>

lemma sp_copy_consistent:
  assumes w: "consistent N w" and x: "pointers w x = None" and y: "pointers w y \<noteq> None"
  shows "\<exists>w'. sp_copy x y w = Some w' \<and> consistent N w'"
proof -
  from y obtain s where s: "pointers w y = Some s" by auto
  note fin = consistentD(1) [OF w] and own = consistentD(2) [OF w]
  show ?thesis
  proof (cases "data_ptr s = None")
    case True
    with add_no_data [OF w x] s show ?thesis by (simp add: sp_copy_def)
  next
    case False
    with s fin have hs: "held (pointers w) s" by (rule_tac held_pointer)
    have uniq: "\<And>t. held (pointers w) t \<Longrightarrow> overlap t s \<Longrightarrow> t = s" using consistentD(3) [OF w] hs by blast
    from own [OF hs] obtain p c d where o: "data_ptr s = Some p" "ref_count s = Some c" "deleter s = Some d"
      "p \<in> dom (objects w)" "p \<notin> raw w" "d \<in> deleters w" "counters w c = Some (int (holders (pointers w) s))"
      by (rule ownsE)
    let ?P = "(pointers w)(x \<mapsto> s)"
    let ?w = "w\<lparr>pointers := ?P, counters := (counters w)(c \<mapsto> int (holders (pointers w) s) + 1)\<rparr>"
    have h: "held ?P t \<longleftrightarrow> held (pointers w) t" "holders ?P t = holders (pointers w) t + (if t = s then 1 else 0)" for t
      using holders_add [OF fin x, of s t] hs by (auto simp: held_def)
    have "owns ?w t" if "held (pointers w) t" for t
    proof (cases "t = s")
      case True
      with own [OF hs] o show ?thesis by (auto simp: owns_def h(2))
    next
      case False
      with uniq [OF that] o(2) have "ref_count t \<noteq> Some c" by (auto simp: overlap_def)
      with own [OF that] False show ?thesis by (auto simp: owns_def h(2))
    qed
    moreover have "no_leak N ?w" using w o(7) by (auto simp: consistent_def no_leak_def h(1))
    moreover have "left_behind N ?w" using w by (auto simp: consistent_def left_behind_def h(1))
    ultimately have "consistent N ?w" using w o(7) by (auto simp: consistent_def h(1))
    with s o show ?thesis by (simp add: sp_copy_def)
  qed
qed

lemma sp_destroy_consistent:
  assumes w: "consistent N w" and x: "pointers w x \<noteq> None"
  shows "\<exists>w'. sp_destroy x w = Some w' \<and> consistent N w'"
proof -
  from x obtain s where s: "pointers w x = Some s" by auto
  note fin = consistentD(1) [OF w] and own = consistentD(2) [OF w]
  let ?P = "(pointers w)(x := None)"
  note hr = holders_remove(1) [OF fin s]
  show ?thesis
  proof (cases "data_ptr s = None")
    case True
    have "consistent N (w\<lparr>pointers := ?P\<rparr>)"
      by (rule consistent_pointers [OF w]) (use fin hr True in auto)
    with s True show ?thesis by (simp add: sp_destroy_def)
  next
    case False
    with s fin have hs: "held (pointers w) s" by (rule_tac held_pointer)
    have uniq: "\<And>t. held (pointers w) t \<Longrightarrow> t \<noteq> s \<Longrightarrow> \<not> overlap t s" using consistentD(3) [OF w] hs by blast
    from own [OF hs] obtain p c d where o: "data_ptr s = Some p" "ref_count s = Some c" "deleter s = Some d"
      "p \<in> dom (objects w)" "p \<notin> raw w" "d \<in> deleters w" "counters w c = Some (int (holders (pointers w) s))"
      by (rule ownsE)
    have apart: "data_ptr t \<noteq> Some p \<and> ref_count t \<noteq> Some c \<and> deleter t \<noteq> Some d"
      if "held (pointers w) t" "t \<noteq> s" for t
      using uniq [OF that] o(1-3) by (auto simp: overlap_def)
    have pos: "holders (pointers w) s > 0" using hs by (simp add: held_def)
    have cd: "c \<notin> N" "d \<notin> Suc ` N" using consistentD(5) [OF w] hs o(2,3) unfolding left_behind_def by blast+
    show ?thesis
    proof (cases "holders (pointers w) s = 1")
      case True
      let ?w = "w\<lparr>pointers := ?P, counters := (counters w)(c := None), objects := (objects w)(p := None),
        deleters := deleters w - {d}\<rparr>"
      have h: "held ?P t \<longleftrightarrow> held (pointers w) t \<and> t \<noteq> s" for t using hr [of t] True by (auto simp: held_def)
      have "owns ?w t" if "held (pointers w) t" "t \<noteq> s" for t
        using own [OF that(1)] apart [OF that] that(2) hr [of t] by (auto simp: owns_def)
      moreover have "no_leak N ?w"
      proof -
        note leak = consistentD(4) [OF w]
        have ex: "\<exists>t. held ?P t \<and> f t = Some a"
          if "\<exists>t. held (pointers w) t \<and> f t = Some a" "f s = Some b" "a \<noteq> b" for f :: "shared_ptr \<Rightarrow> addr option" and a b
          using that by (auto simp: h)
        have "q \<in> raw w \<or> (\<exists>t. held ?P t \<and> data_ptr t = Some q)" if "q \<in> dom (objects w)" "q \<noteq> p" for q
          using leak that ex [of data_ptr q p] o(1) unfolding no_leak_def by blast
        moreover have "\<exists>t. held ?P t \<and> ref_count t = Some q" if "q \<in> dom (counters w) - N" "q \<noteq> c" for q
          using leak that ex [of ref_count q c] o(2) unfolding no_leak_def by blast
        moreover have "\<exists>t. held ?P t \<and> deleter t = Some q" if "q \<in> deleters w - Suc ` N" "q \<noteq> d" for q
          using leak that ex [of deleter q d] o(3) unfolding no_leak_def by blast
        ultimately show ?thesis unfolding no_leak_def by auto
      qed
      moreover have "left_behind N ?w" using consistentD(5) [OF w] cd by (auto simp: left_behind_def h)
      moreover have "raw w \<subseteq> dom (objects ?w)" using w o(5) by (auto simp: consistent_def)
      ultimately have "consistent N ?w" using w fin unfolding consistent_def by (auto simp: h)
      with s o True show ?thesis by (simp add: sp_destroy_def)
    next
      case False
      let ?w = "w\<lparr>pointers := ?P, counters := (counters w)(c \<mapsto> int (holders (pointers w) s) - 1)\<rparr>"
      have h: "held ?P t \<longleftrightarrow> held (pointers w) t" for t using hr [of t] False by (auto simp: held_def)
      have "owns ?w t" if "held (pointers w) t" for t
      proof (cases "t = s")
        case True
        with own [OF hs] o(1-3) pos hr [of s] show ?thesis by (auto simp: owns_def of_nat_diff)
      next
        case False
        with own [OF that] apart [OF that] hr [of t] show ?thesis by (auto simp: owns_def)
      qed
      moreover have "no_leak N ?w" using w o(7) by (auto simp: consistent_def no_leak_def h)
      moreover have "left_behind N ?w" using consistentD(5) [OF w] by (auto simp: left_behind_def h)
      ultimately have "consistent N ?w" using w o(7) fin by (auto simp: consistent_def h)
      with s o False pos show ?thesis by (simp add: sp_destroy_def)
    qed
  qed
qed

section \<open>Assignments\<close>

text \<open>A temporary that takes the old value away: the end of every assignment.\<close>

lemma swap_and_destroy:
  assumes w: "consistent N w" and t: "pointers w tmp = Some s" and x: "pointers w x = Some s'" "tmp \<noteq> x"
  shows "\<exists>w1 w'. sp_swap tmp x w = Some w1 \<and> sp_destroy tmp w1 = Some w' \<and> consistent N w' \<and>
    pointers w' = (pointers w)(x \<mapsto> s, tmp := None)"
proof -
  from sp_swap_consistent [OF w, of tmp x] t x obtain w1 where
    w1: "sp_swap tmp x w = Some w1" "consistent N w1" by auto
  then have p1: "pointers w1 = (pointers w)(tmp \<mapsto> s', x \<mapsto> s)" using t x by (auto simp: sp_swap_def)
  from sp_destroy_consistent [OF w1(2), of tmp] p1 x(2) obtain w2 where
    w2: "sp_destroy tmp w1 = Some w2" "consistent N w2" by auto
  have "pointers w2 = (pointers w1)(tmp := None)"
    using w2(1) by (auto simp: sp_destroy_def Let_def split: bind_splits option.splits if_splits)
  then show ?thesis using w1 w2 p1 x(2) by (auto simp: fun_upd_twist)
qed

lemma replace_pointer:
  assumes w: "consistent N w1" "pointers w1 = (pointers w)(tmp \<mapsto> s)" and x: "pointers w x \<noteq> None" "pointers w tmp = None"
  shows "\<exists>w'. (do { w2 \<leftarrow> sp_swap tmp x w1; sp_destroy tmp w2 }) = Some w' \<and> consistent N w' \<and>
    pointers w' = (pointers w)(x \<mapsto> s)"
proof -
  from x obtain s' where s': "pointers w1 x = Some s'" "tmp \<noteq> x" unfolding w(2) by (cases "tmp = x") auto
  have "(pointers w)(tmp := None) = pointers w" using x(2) by auto
  with swap_and_destroy [OF w(1), of tmp s x s'] w(2) s' show ?thesis by (auto simp: fun_upd_twist)
qed

lemma sp_copy_pointers: "sp_copy x y w = Some w' \<Longrightarrow> pointers w' = (pointers w)(x := pointers w y)"
  by (auto simp: sp_copy_def split: bind_splits if_splits)

lemma copy_assign_run:
  assumes w: "consistent N w" and x: "pointers w x \<noteq> None" "pointers w y = Some s" "pointers w tmp = None"
  shows "\<exists>w'. copy_assign tmp x y w = Some w' \<and> consistent N w' \<and> pointers w' = (pointers w)(x \<mapsto> s)"
proof (cases "y = x")
  case True
  with w x show ?thesis by (auto simp: copy_assign_def)
next
  case False
  from sp_copy_consistent [OF w x(3), of y] x(2) obtain w1 where
    w1: "sp_copy tmp y w = Some w1" "consistent N w1" by auto
  from sp_copy_pointers [OF w1(1)] x(2) have "pointers w1 = (pointers w)(tmp \<mapsto> s)" by simp
  from replace_pointer [OF w1(2) this x(1,3)] w1(1) False show ?thesis by (simp add: copy_assign_def)
qed

lemma reset_run:
  assumes w: "consistent N w" and x: "pointers w x \<noteq> None" "pointers w tmp = None"
  shows "\<exists>w'. reset tmp x w = Some w' \<and> consistent N w' \<and> pointers w' = (pointers w)(x \<mapsto> empty_ptr)"
proof -
  from sp_default_consistent [OF w x(2)] obtain w1 where
    w1: "sp_default tmp w = Some w1" "consistent N w1" by auto
  then have "pointers w1 = (pointers w)(tmp \<mapsto> empty_ptr)" by (auto simp: sp_default_def)
  from replace_pointer [OF w1(2) this x] w1(1) show ?thesis by (simp add: reset_def)
qed

lemma move_assign_run:
  assumes w: "consistent N w" and x: "pointers w x \<noteq> None" "pointers w y = Some s" "pointers w tmp = None"
  shows "\<exists>w'. move_assign tmp x y w = Some w' \<and> consistent N w' \<and>
    pointers w' = (if x = y then (pointers w)(x \<mapsto> empty_ptr) else (pointers w)(x \<mapsto> s, y \<mapsto> empty_ptr))"
proof -
  from reset_run [OF w x(1,3)] obtain w1 where
    w1: "reset tmp x w = Some w1" "consistent N w1" "pointers w1 = (pointers w)(x \<mapsto> empty_ptr)" by blast
  have "pointers w1 x = Some empty_ptr" "pointers w1 y \<noteq> None" using w1(3) x by auto
  with sp_exchange_consistent [OF w1(2), of x y] obtain w2 where
    w2: "sp_exchange x y w1 = Some w2" "consistent N w2" by blast
  then have "pointers w2 = (if x = y then (pointers w)(x \<mapsto> empty_ptr) else (pointers w)(x \<mapsto> s, y \<mapsto> empty_ptr))"
    using w1(3) x by (auto simp: sp_exchange_def fun_upd_twist)
  with w1(1) w2 show ?thesis by (auto simp: move_assign_def)
qed

lemma reset_raw_run:
  assumes w1: "sp_wrap tmp p w = Some w1" "consistent N w1" and x: "pointers w x \<noteq> None" "pointers w tmp = None"
  shows "\<exists>w' s. reset_raw tmp x p w = Some w' \<and> consistent N w' \<and> pointers w' = (pointers w)(x \<mapsto> s) \<and> data_ptr s = p"
proof -
  let ?s = "\<lparr>data_ptr = p, ref_count = Some (fresh w), deleter = Some (fresh w + 1)\<rparr>"
  have "pointers w1 = (pointers w)(tmp \<mapsto> ?s)" using w1(1) by (auto simp: sp_wrap_def Let_def)
  from replace_pointer [OF w1(2) this x] w1(1) show ?thesis
    by (auto simp: reset_raw_def intro!: exI [of _ ?s])
qed

section \<open>Programs keep it\<close>

lemma exec_consistent:
  assumes w: "consistent N w" and ok: "allowed step w"
  shows "\<exists>w' N'. exec step w = Some w' \<and> consistent N' w' \<and> card N' = card N + (if wraps_null step then 1 else 0)"
proof -
  have fin: "finite N" using consistentD(5) [OF w] by (simp add: left_behind_def)
  have wrapped: "\<exists>w' N'. sp_wrap x p w = Some w' \<and> consistent N' w' \<and> card N' = card N + (if p = None then 1 else 0)"
    if "pointers w x = None" "set_option p \<subseteq> raw w" for x p
  proof (cases p)
    case None
    from sp_wrap_null(1) [OF w that(1)] obtain w' where
      "sp_wrap x None w = Some w'" "consistent (insert (fresh w) N) w'" by blast
    with None sp_wrap_null(2) [OF w that(1)] fin show ?thesis
      by (intro exI [of _ w'] exI [of _ "insert (fresh w) N"]) simp
  next
    case (Some a)
    with sp_wrap_consistent [OF w that(1), of a] that(2) obtain w' where
      "sp_wrap x p w = Some w'" "consistent N w'" by auto
    with Some show ?thesis by (intro exI [of _ w'] exI [of _ N]) simp
  qed
  have plain: ?thesis if "\<exists>w'. exec step w = Some w' \<and> consistent N w'" "\<not> wraps_null step"
    using that by auto
  show ?thesis
  proof (cases step)
    case (Wrap x p)
    with wrapped [of x p] ok show ?thesis by simp
  next
    case (Reset_Raw tmp x p)
    with wrapped [of tmp p] ok obtain w1 N' where
      1: "sp_wrap tmp p w = Some w1" "consistent N' w1" "card N' = card N + (if p = None then 1 else 0)" by auto
    with reset_raw_run [OF 1(1,2), of x] Reset_Raw ok show ?thesis by fastforce
  next
    case (Copy_Assign tmp x y)
    with ok obtain s where "pointers w tmp = None" "pointers w x \<noteq> None" "pointers w y = Some s" by auto
    with copy_assign_run [OF w, of x y s tmp] have "\<exists>w'. copy_assign tmp x y w = Some w' \<and> consistent N w'" by blast
    with Copy_Assign show ?thesis by (intro plain) simp_all
  next
    case (Move_Assign tmp x y)
    with ok obtain s where "pointers w tmp = None" "pointers w x \<noteq> None" "pointers w y = Some s" by auto
    with move_assign_run [OF w, of x y s tmp] have "\<exists>w'. move_assign tmp x y w = Some w' \<and> consistent N w'" by blast
    with Move_Assign show ?thesis by (intro plain) simp_all
  next
    case (Reset tmp x)
    with reset_run [OF w, of x tmp] ok have "\<exists>w'. reset tmp x w = Some w' \<and> consistent N w'" by auto
    with Reset show ?thesis by (intro plain) simp_all
  qed (use w ok in \<open>intro plain; simp add: sp_default_consistent make_shared_consistent new_object_consistent sp_copy_consistent
         sp_exchange_consistent sp_destroy_consistent sp_swap_consistent del: new_object_def\<close>)+
qed

lemma client_consistent:
  "consistent N w \<Longrightarrow> \<exists>w' N'. client steps w = Some w' \<and> consistent N' w' \<and> card N' = card N + null_wraps steps w"
proof (induction steps arbitrary: N w)
  case (Cons step steps)
  show ?case
  proof (cases "allowed step w")
    case True
    from exec_consistent [OF Cons.prems True] obtain w1 N1 where
      1: "exec step w = Some w1" "consistent N1 w1" "card N1 = card N + (if wraps_null step then 1 else 0)" by blast
    from Cons.IH [OF 1(2)] 1 True show ?thesis by fastforce
  qed (use Cons in auto)
qed auto

section \<open>Observations\<close>

lemma consistent_observers:
  assumes w: "consistent N w" and x: "pointers w x = Some s" "data_ptr s \<noteq> None"
  shows "\<exists>v. sp_deref x w = Some v" "use_count x w = Some (int (card {y. sp_get y w = sp_get x w}))"
proof -
  from w x have hs: "held (pointers w) s" unfolding consistent_def by (intro held_pointer) auto
  with w have "owns w s" by (simp add: consistent_def)
  then obtain p c d where o: "data_ptr s = Some p" "ref_count s = Some c" "p \<in> dom (objects w)"
    "counters w c = Some (int (holders (pointers w) s))" by (rule ownsE) auto
  have "t = s" if "pointers w y = Some t" "data_ptr t = data_ptr s" for y t
  proof -
    have "data_ptr t \<noteq> None" using that(2) o(1) by simp
    with that(1) w have "held (pointers w) t" unfolding consistent_def by (intro held_pointer) auto
    with w hs that(2) show ?thesis unfolding consistent_def overlap_def by blast
  qed
  then have "{y. sp_get y w = sp_get x w} = {y. pointers w y = Some s}"
    using x(1) by (auto simp: sp_get_def)
  then show "use_count x w = Some (int (card {y. sp_get y w = sp_get x w}))"
    using x o by (simp add: use_count_def holders_def)
  show "\<exists>v. sp_deref x w = Some v" using x o by (auto simp: sp_deref_def)
qed

text \<open>One counter and one deleter for each object that is owned, and those that were left behind.\<close>

lemma consistent_counts:
  assumes w: "consistent N w"
  shows "finite (dom (counters w))" "finite (deleters w)"
    "card (dom (counters w)) = card (dom (objects w) - raw w) + card N"
    "card (deleters w) = card (dom (objects w) - raw w) + card N"
proof -
  let ?H = "{s. held (pointers w) s}"
  note own = consistentD(2) [OF w] and uniq = consistentD(3) [OF w] and leak = consistentD(4) [OF w]
    and left = consistentD(5) [OF w]
  have "?H \<subseteq> ran (pointers w)" using held_ex by (auto simp: ran_def)
  then have finH: "finite ?H" using consistentD(1) [OF w] finite_ran finite_subset by blast
  have obj: "dom (objects w) - raw w = (the \<circ> data_ptr) ` ?H"
  proof -
    have "(the \<circ> data_ptr) s \<in> dom (objects w) - raw w" if "held (pointers w) s" for s
      using own [OF that] by (auto simp: owns_def)
    moreover have "p \<in> (the \<circ> data_ptr) ` ?H" if "p \<in> dom (objects w) - raw w" for p
    proof -
      from leak that obtain s where "held (pointers w) s" "data_ptr s = Some p" unfolding no_leak_def by blast
      then show ?thesis by (intro image_eqI [of _ _ s]) simp_all
    qed
    ultimately show ?thesis by blast
  qed
  have cnt: "dom (counters w) = (the \<circ> ref_count) ` ?H \<union> N" "(the \<circ> ref_count) ` ?H \<inter> N = {}"
  proof -
    have "(the \<circ> ref_count) s \<in> dom (counters w) - N" if "held (pointers w) s" for s
      using own [OF that] left that by (auto simp: owns_def left_behind_def)
    moreover have "c \<in> (the \<circ> ref_count) ` ?H" if "c \<in> dom (counters w) - N" for c
    proof -
      from leak that obtain s where "held (pointers w) s" "ref_count s = Some c" unfolding no_leak_def by blast
      then show ?thesis by (intro image_eqI [of _ _ s]) simp_all
    qed
    moreover have "N \<subseteq> dom (counters w)" using left by (simp add: left_behind_def)
    ultimately show "dom (counters w) = (the \<circ> ref_count) ` ?H \<union> N" "(the \<circ> ref_count) ` ?H \<inter> N = {}" by blast+
  qed
  have del: "deleters w = (the \<circ> deleter) ` ?H \<union> Suc ` N" "(the \<circ> deleter) ` ?H \<inter> Suc ` N = {}"
  proof -
    have "(the \<circ> deleter) s \<in> deleters w - Suc ` N" if "held (pointers w) s" for s
      using own [OF that] left that unfolding owns_def left_behind_def by fastforce
    moreover have "d \<in> (the \<circ> deleter) ` ?H" if "d \<in> deleters w - Suc ` N" for d
    proof -
      from leak that obtain s where "held (pointers w) s" "deleter s = Some d" unfolding no_leak_def by blast
      then show ?thesis by (intro image_eqI [of _ _ s]) simp_all
    qed
    moreover have "Suc ` N \<subseteq> deleters w" using left by (simp add: left_behind_def)
    ultimately show "deleters w = (the \<circ> deleter) ` ?H \<union> Suc ` N" "(the \<circ> deleter) ` ?H \<inter> Suc ` N = {}" by blast+
  qed
  have finN: "finite N" using left by (simp add: left_behind_def)
  have some: "data_ptr s \<noteq> None" "ref_count s \<noteq> None" "deleter s \<noteq> None" if "held (pointers w) s" for s
    using own [OF that] by (auto simp: owns_def)
  have inj_of: "inj_on (the \<circ> f) ?H"
    if "\<And>s. held (pointers w) s \<Longrightarrow> f s \<noteq> None" "\<And>s t. f s = f t \<Longrightarrow> overlap s t" for f :: "shared_ptr \<Rightarrow> addr option"
  proof (rule inj_onI)
    fix s t assume st: "s \<in> ?H" "t \<in> ?H" "(the \<circ> f) s = (the \<circ> f) t"
    then have "f s \<noteq> None" "f t \<noteq> None" using that(1) by simp_all
    with st(3) have "f s = f t" by auto
    with st(1,2) uniq that(2) show "s = t" by blast
  qed
  have inj: "inj_on (the \<circ> data_ptr) ?H" "inj_on (the \<circ> ref_count) ?H" "inj_on (the \<circ> deleter) ?H"
    by (rule inj_of; simp add: some overlap_def)+
  show "finite (dom (counters w))" "finite (deleters w)" using cnt(1) del(1) finH finN by simp_all
  have "card (dom (objects w) - raw w) = card ?H" unfolding obj by (rule card_image [OF inj(1)])
  moreover have "card (dom (counters w)) = card ?H + card N"
    unfolding cnt(1) using card_Un_disjoint [OF _ finN cnt(2)] finH card_image [OF inj(2)] by simp
  moreover have "card (deleters w) = card ?H + card N"
    unfolding del(1) using card_Un_disjoint [OF _ _ del(2)] finH finN card_image [OF inj(3)] by (simp add: card_image)
  ultimately show "card (dom (counters w)) = card (dom (objects w) - raw w) + card N"
    "card (deleters w) = card (dom (objects w) - raw w) + card N" by simp_all
qed

section \<open>Properties\<close>

text \<open>
  C7: A program constructs, copies, moves, swaps, copy- and move-assigns (from itself, too), resets and destroys shared
  pointers and wraps null pointers and objects it owns, of the class itself or of a derived one whose base begins where
  it begins, in any order. No step reads through a null or dangling pointer or
  frees twice; every pointer with an object leads to an object that is alive, \<open>use_count\<close> is the number of pointers to that
  object, and 0 for a null pointer; an object is alive as long as a pointer to it (or the program) owns it.
  There is one counter and one deleter for each owned object; in addition each wrap of a null pointer leaves a counter and a
  deleter behind for ever. So when all pointers are gone the only objects left are those that the program owns itself,
  and no counter or deleter is left unless a null pointer was wrapped.
\<close>

theorem shared_ptr_ownership:
  "\<exists>w. client steps empty_world = Some w \<and>
    (\<forall>x s. pointers w x = Some s \<longrightarrow>
       (if data_ptr s = None then use_count x w = Some 0
        else (\<exists>v. sp_deref x w = Some v) \<and> use_count x w = Some (int (card {y. sp_get y w = sp_get x w})))) \<and>
    (\<forall>p \<in> dom (objects w). p \<in> raw w \<or> (\<exists>x. sp_get x w = Some (Some p))) \<and>
    card (dom (counters w)) = card (dom (objects w) - raw w) + null_wraps steps empty_world \<and>
    card (deleters w) = card (dom (objects w) - raw w) + null_wraps steps empty_world \<and>
    (pointers w = Map.empty \<longrightarrow> dom (objects w) = raw w \<and>
       (null_wraps steps empty_world = 0 \<longrightarrow> counters w = Map.empty \<and> deleters w = {}))"
proof -
  from client_consistent [OF empty_consistent, of steps] obtain w N where
    w: "client steps empty_world = Some w" "consistent N w" "card N = null_wraps steps empty_world" by auto
  note leak = consistentD(4) [OF w(2)] and raw = consistentD(6) [OF w(2)] and counts = consistent_counts [OF w(2)]
  have get: "\<exists>x. sp_get x w = Some (Some p)" if "held (pointers w) s" "data_ptr s = Some p" for s p
    using held_ex [OF that(1)] that(2) by (auto simp: sp_get_def)
  have alive: "\<forall>p \<in> dom (objects w). p \<in> raw w \<or> (\<exists>x. sp_get x w = Some (Some p))"
    using leak get unfolding no_leak_def by blast
  have objs: "dom (objects w) = raw w" if "pointers w = Map.empty"
    using alive raw that by (auto simp: sp_get_def)
  have "counters w = Map.empty \<and> deleters w = {}" if "pointers w = Map.empty" "null_wraps steps empty_world = 0"
  proof -
    have "card (dom (counters w)) = 0" "card (deleters w) = 0" using counts(3,4) objs [OF that(1)] w(3) that(2) by simp_all
    with counts(1,2) show ?thesis by simp
  qed
  moreover have "use_count x w = Some 0" if "pointers w x = Some s" "data_ptr s = None" for x s
    using that by (simp add: use_count_def)
  ultimately show ?thesis
    using w(1,3) alive objs counts(3,4) consistent_observers [OF w(2)] by (intro exI [of _ w]) auto
qed

theorem shared_ptr_ownership_witness:
  "\<exists>w. client [Make 0 (7::int), Copy 1 0, Destroy 0, New 8, Make 2 9, Copy_Assign 3 1 2, Reset 3 2, Destroy 1, Destroy 2] empty_world = Some w \<and>
     pointers w = Map.empty \<and> dom (objects w) = raw w \<and> counters w = Map.empty \<and> deleters w = {}"
  using shared_ptr_ownership [of "[Make 0 (7::int), Copy 1 0, Destroy 0, New 8, Make 2 9, Copy_Assign 3 1 2, Reset 3 2, Destroy 1, Destroy 2]"]
  by (auto simp: empty_world_def make_shared_def new_object_def sp_wrap_def sp_copy_def sp_destroy_def copy_assign_def
      reset_def sp_swap_def sp_default_def empty_ptr_def Let_def)

text \<open>
  In every state that a program reaches, copy assignment, move assignment and \<open>reset\<close> of a live pointer
  succeed and change exactly the pointers they are to: the left side takes the right side's value, a
  moved-from pointer is empty, and what the left side owned alone is freed.
\<close>

theorem shared_ptr_assignments:
  assumes "client steps empty_world = Some w" "pointers w x \<noteq> None" "pointers w y = Some s" "x \<noteq> y"
    and "pointers w tmp = None"
  shows "\<exists>c m r N. copy_assign tmp x y w = Some c \<and> pointers c = (pointers w)(x \<mapsto> s) \<and>
    move_assign tmp x y w = Some m \<and> pointers m = (pointers w)(x \<mapsto> s, y \<mapsto> empty_ptr) \<and>
    reset tmp x w = Some r \<and> pointers r = (pointers w)(x \<mapsto> empty_ptr) \<and>
    consistent N c \<and> consistent N m \<and> consistent N r"
proof -
  from client_consistent [OF empty_consistent, of steps] assms(1) obtain N where w: "consistent N w" by auto
  show ?thesis
    using copy_assign_run [OF w assms(2,3,5)] move_assign_run [OF w assms(2,3,5)] reset_run [OF w assms(2,5)] assms(4)
    by auto
qed

text \<open>
  A shared pointer made from a null raw pointer allocates a counter and a deleter that its destructor does
  not free.
\<close>

theorem wrap_null_leaks:
  "\<exists>w w'. sp_wrap 0 None empty_world = Some w \<and> sp_destroy 0 w = Some w' \<and>
     pointers w' = Map.empty \<and> counters w' 0 = Some 1 \<and> deleters w' = {1}"
  by (simp add: sp_wrap_def sp_destroy_def empty_world_def Let_def)

text \<open>
  The pointer to an object of a derived class, wrapped for a base that lies at an offset in the object: \<open>ptr_\<close> is the
  address of the base, and the deleter casts that address to the derived class without going back. For an offset
  0 it is \<open>sp_wrap\<close>; for another one the destructor deletes at an address where no object begins.
\<close>

definition sp_wrap_derived :: "name \<Rightarrow> addr \<Rightarrow> nat \<Rightarrow> 'a world \<Rightarrow> 'a world option" where
  "sp_wrap_derived x p offset w = map_option (\<lambda>w'. w'\<lparr>raw := raw w - {p}\<rparr>) (sp_wrap x (Some (p + offset)) w)"

lemma sp_wrap_derived_0: "sp_wrap_derived x p 0 w = sp_wrap x (Some p) w"
  by (simp add: sp_wrap_derived_def sp_wrap_def Let_def)

lemma derived_at_offset_deleted_wrongly:
  assumes "offset > 0"
  shows "(do { w \<leftarrow> sp_wrap_derived 0 0 offset (snd (new_object v empty_world)); sp_destroy 0 w }) = None"
  using assms by (simp add: sp_wrap_derived_def sp_wrap_def sp_destroy_def new_object_def empty_world_def Let_def)

end
