(* ===== verification/Extendible_Hash.thy ===== *)
theory Extendible_Hash
  imports Prelude "HOL-Library.Monad_Syntax"
begin

text \<open>
  \<open>extendible_hashtable\<close> of \<open>container/hash/extendible_hashtable.hpp\<close>. Buckets are shared between the entries
  of the directory, so they live in a heap (a list that grows; \<open>shared_ptr\<close> keeps them alive) and an entry is
  a position in it. \<open>std::hash\<close> is a parameter; the chain is a \<open>std::map\<close>, an association list in key order.
  A failing \<open>DSAC_ASSERT\<close> is an error value; \<open>None\<close> is an insertion that splits for ever.
\<close>

type_synonym addr = nat

record ('k, 'v) bucket =
  local_depth :: nat
  bucket_capacity :: nat
  chain :: "('k \<times> 'v) list"

record ('k, 'v) directory =
  bucket_heap :: "('k, 'v) bucket list"
  global_depth :: nat
  buckets :: "addr list"

datatype assertion =
    Not_Enough_Space
  | Depth_Greater_Than_Directory
  | Split_Not_Possible
  | Not_The_Split_Image

section \<open>Buckets\<close>

definition make_bucket :: "nat \<Rightarrow> nat \<Rightarrow> ('k, 'v) bucket" where
  "make_bucket depth capacity = \<lparr>local_depth = depth, bucket_capacity = capacity, chain = []\<rparr>"

definition has_capacity :: "('k, 'v) bucket \<Rightarrow> bool" where
  "has_capacity b = (length (chain b) < bucket_capacity b)"

fun insert_or_assign :: "'k::linorder \<Rightarrow> 'v \<Rightarrow> ('k \<times> 'v) list \<Rightarrow> ('k \<times> 'v) list" where
  "insert_or_assign k v [] = [(k, v)]"
| "insert_or_assign k v ((k', v') # c) =
     (if k < k' then (k, v) # (k', v') # c
      else if k = k' then (k, v) # c else (k', v') # insert_or_assign k v c)"

definition bucket_insert :: "'k::linorder \<Rightarrow> 'v \<Rightarrow> ('k, 'v) bucket \<Rightarrow> assertion + ('k, 'v) bucket" where
  "bucket_insert k v b =
     (if has_capacity b then Inr (b\<lparr>chain := insert_or_assign k v (chain b)\<rparr>) else Inl Not_Enough_Space)"

definition bucket_contains :: "'k \<Rightarrow> ('k, 'v) bucket \<Rightarrow> bool" where
  "bucket_contains k b = (k \<in> fst ` set (chain b))"

section \<open>Directory\<close>

definition new_directory :: "nat \<Rightarrow> nat \<Rightarrow> ('k, 'v) directory" where
  "new_directory depth capacity =
     \<lparr>bucket_heap = replicate (2 ^ depth) (make_bucket depth capacity), global_depth = depth, buckets = [0..<2 ^ depth]\<rparr>"

definition index_of :: "('k \<Rightarrow> nat) \<Rightarrow> 'k \<Rightarrow> ('k, 'v) directory \<Rightarrow> nat" where
  "index_of hash k d = hash k mod 2 ^ global_depth d"

definition get_bucket_by_key :: "('k \<Rightarrow> nat) \<Rightarrow> 'k \<Rightarrow> ('k, 'v) directory \<Rightarrow> addr" where
  "get_bucket_by_key hash k d = buckets d ! index_of hash k d"

definition double_directory :: "('k, 'v) directory \<Rightarrow> ('k, 'v) directory" where
  "double_directory d = d\<lparr>buckets := buckets d @ buckets d, global_depth := global_depth d + 1\<rparr>"

text \<open>Steps 1 to 4 of \<open>insert\<close>: the directory in which the full bucket is replaced by two empty ones.\<close>

definition split_bucket :: "nat \<Rightarrow> addr \<Rightarrow> ('k, 'v) directory \<Rightarrow> assertion + ('k, 'v) directory" where
  "split_bucket index original d =
     (let depth = local_depth (bucket_heap d ! original);
          capacity = bucket_capacity (bucket_heap d ! original)
      in if \<not> depth \<le> global_depth d then Inl Depth_Greater_Than_Directory
      else let d1 = (if depth = global_depth d then double_directory d else d) in
        if \<not> depth < global_depth d1 then Inl Split_Not_Possible
        else let d2 = d1\<lparr>bucket_heap := (bucket_heap d1)[original := (bucket_heap d1 ! original)\<lparr>local_depth := depth + 1\<rparr>]\<rparr>;
                 image = flip_bit depth index
          in if buckets d2 ! image \<noteq> original then Inl Not_The_Split_Image
          else let n = length (bucket_heap d2); b = make_bucket (depth + 1) capacity
            in Inr (d2\<lparr>bucket_heap := bucket_heap d2 @ [b, b], buckets := (buckets d2)[image := n, index := n + 1]\<rparr>))"

text \<open>A loop whose body may fail.\<close>

primrec each :: "('a \<Rightarrow> 's \<Rightarrow> (assertion + 's) option) \<Rightarrow> 'a list \<Rightarrow> 's \<Rightarrow> (assertion + 's) option" where
  "each f [] s = Some (Inr s)"
| "each f (x # xs) s = do { r \<leftarrow> f x s; case r of Inl e \<Rightarrow> Some (Inl e) | Inr s' \<Rightarrow> each f xs s' }"

lemma each_mono [partial_function_mono]:
  assumes "\<And>x s. mono_option (\<lambda>f. B f x s)"
  shows "mono_option (\<lambda>f. each (B f) xs s)"
proof (induction xs arbitrary: s)
  case (Cons x xs)
  have "mono_option (\<lambda>f. case r of Inl e \<Rightarrow> Some (Inl e) | Inr s' \<Rightarrow> each (B f) xs s')" for r
    using Cons by (cases r) (auto intro: partial_function_mono)
  then show ?case unfolding each.simps by (intro bind_mono assms)
qed (simp add: partial_function_mono)

text \<open>
  The loop reads the chain of the original bucket, which is full: the insertions in it may replace or split
  buckets, but none changes a full chain.
\<close>

partial_function (option) dir_insert :: "('k::linorder \<Rightarrow> nat) \<Rightarrow> 'k \<times> 'v \<Rightarrow> ('k, 'v) directory \<Rightarrow>
    (assertion + ('k, 'v) directory) option" where
  "dir_insert hash kv d =
     (let index = index_of hash (fst kv) d;
          original = buckets d ! index
      in if \<not> has_capacity (bucket_heap d ! original)
         then (case split_bucket index original d of
             Inl e \<Rightarrow> Some (Inl e)
           | Inr d' \<Rightarrow> each (dir_insert hash) (chain (bucket_heap d ! original) @ [kv]) d')
         else (case bucket_insert (fst kv) (snd kv) (bucket_heap d ! get_bucket_by_key hash (fst kv) d) of
             Inl e \<Rightarrow> Some (Inl e)
           | Inr b \<Rightarrow> Some (Inr (d\<lparr>bucket_heap := (bucket_heap d)[get_bucket_by_key hash (fst kv) d := b]\<rparr>))))"

declare dir_insert.simps [code]

definition dir_size :: "('k, 'v) directory \<Rightarrow> nat" where
  "dir_size d = length (buckets d)"

definition dir_contains :: "('k \<Rightarrow> nat) \<Rightarrow> 'k \<Rightarrow> ('k, 'v) directory \<Rightarrow> bool" where
  "dir_contains hash k d = bucket_contains k (bucket_heap d ! get_bucket_by_key hash k d)"

text \<open>A client that inserts a sequence of pairs.\<close>

definition insert_pairs :: "('k::linorder \<Rightarrow> nat) \<Rightarrow> ('k \<times> 'v) list \<Rightarrow> ('k, 'v) directory \<Rightarrow>
    (assertion + ('k, 'v) directory) option" where
  "insert_pairs hash = each (dir_insert hash)"

section \<open>What is stored and what is found\<close>

abbreviation keys_of :: "('k, 'v) bucket \<Rightarrow> 'k set" where
  "keys_of b \<equiv> fst ` set (chain b)"

definition found :: "('k \<Rightarrow> nat) \<Rightarrow> ('k, 'v) directory \<Rightarrow> 'k set" where
  "found hash d = {k. dir_contains hash k d}"

definition stored :: "('k, 'v) directory \<Rightarrow> 'k set" where
  "stored d = (\<Union>i < length (buckets d). keys_of (bucket_heap d ! (buckets d ! i)))"

text \<open>A power of two of entries, each leading to a bucket; no bucket holds more than it may.\<close>

definition directory_ok :: "('k, 'v) directory \<Rightarrow> bool" where
  "directory_ok d \<longleftrightarrow> length (buckets d) = 2 ^ global_depth d \<and>
     (\<forall>i < length (buckets d). buckets d ! i < length (bucket_heap d)) \<and>
     (\<forall>b \<in> set (bucket_heap d). length (chain b) \<le> bucket_capacity b)"

lemma index_bound: "directory_ok d \<Longrightarrow> index_of hash k d < length (buckets d)"
  by (simp add: directory_ok_def index_of_def)

lemma found_stored: "directory_ok d \<Longrightarrow> found hash d \<subseteq> stored d"
  using index_bound by (fastforce simp: found_def stored_def dir_contains_def get_bucket_by_key_def bucket_contains_def)

lemma new_directory_ok: "directory_ok (new_directory n c)" "stored (new_directory n c) = {}"
  by (auto simp: directory_ok_def new_directory_def stored_def make_bucket_def)

lemma insert_or_assign_keys [simp]: "fst ` set (insert_or_assign k v c) = insert k (fst ` set c)"
  by (induction k v c rule: insert_or_assign.induct) (simp_all add: insert_commute)

lemma insert_or_assign_length: "length (insert_or_assign k v c) \<le> length c + 1"
  by (induction c) auto

lemma flip_bit_bound:
  fixes i :: nat
  assumes "n < k" "i < 2 ^ k"
  shows "flip_bit n i < 2 ^ k"
proof -
  have "take_bit k (flip_bit n i) = flip_bit n i"
    using assms by (simp add: take_bit_flip_bit_eq take_bit_nat_eq_self)
  then show ?thesis by (simp add: take_bit_nat_eq_self_iff)
qed

lemma double_directory_facts:
  assumes "directory_ok d"
  shows "directory_ok (double_directory d)" "stored (double_directory d) = stored d"
    "get_bucket_by_key hash k (double_directory d) = get_bucket_by_key hash k d"
    "i < length (buckets d) \<Longrightarrow> buckets (double_directory d) ! i = buckets d ! i"
proof -
  from assms have len: "length (buckets d) = 2 ^ global_depth d" by (simp add: directory_ok_def)
  have nth: "(buckets d @ buckets d) ! j = buckets d ! (j mod 2 ^ global_depth d)" if "j < 2 * 2 ^ global_depth d" for j
    using that len by (auto simp: nth_append mod_if)
  show "get_bucket_by_key hash k (double_directory d) = get_bucket_by_key hash k d"
    by (simp add: get_bucket_by_key_def index_of_def double_directory_def nth mod_mod_cancel)
  show "directory_ok (double_directory d)"
    using assms by (auto simp: directory_ok_def double_directory_def nth_append)
  show "stored (double_directory d) = stored d"
    by (auto simp: stored_def double_directory_def nth_append split: if_splits; force)
  show "i < length (buckets d) \<Longrightarrow> buckets (double_directory d) ! i = buckets d ! i"
    by (simp add: double_directory_def nth_append)
qed

text \<open>After a split, what is not found is in the original bucket.\<close>

lemma split_bucket_facts:
  assumes ok: "directory_ok d" and i: "index < length (buckets d)" "original = buckets d ! index"
    and s: "split_bucket index original d = Inr d'"
  shows "directory_ok d'" "stored d' \<subseteq> stored d"
    "found hash d \<subseteq> found hash d' \<union> keys_of (bucket_heap d ! original)"
proof -
  define depth where "depth = local_depth (bucket_heap d ! original)"
  define d1 where "d1 = (if depth = global_depth d then double_directory d else d)"
  define b where "b = (make_bucket (depth + 1) (bucket_capacity (bucket_heap d ! original)) :: ('a, 'b) bucket)"
  define heap where "heap = (bucket_heap d1)[original := (bucket_heap d1 ! original)\<lparr>local_depth := depth + 1\<rparr>]"
  define image where "image = flip_bit depth index"
  note doubled = double_directory_facts [OF ok]
  have d1: "directory_ok d1" "stored d1 = stored d" "get_bucket_by_key hash k d1 = get_bucket_by_key hash k d"
    "buckets d1 ! index = original" "index < length (buckets d1)" "bucket_heap d1 = bucket_heap d" for k
    unfolding d1_def using ok i doubled by (auto simp: double_directory_def)
  from s have d': "d' = d1\<lparr>bucket_heap := heap @ [b, b], buckets := (buckets d1)[image := length heap, index := length heap + 1]\<rparr>"
    and dep: "depth < global_depth d1" and im: "buckets d1 ! image = original"
    by (auto simp: split_bucket_def Let_def depth_def d1_def b_def heap_def image_def double_directory_def
        split: if_splits)
  from d1(1) have len: "length (buckets d1) = 2 ^ global_depth d1"
    and ptr: "\<And>j. j < length (buckets d1) \<Longrightarrow> buckets d1 ! j < length heap"
    and cap: "\<And>b. b \<in> set (bucket_heap d1) \<Longrightarrow> length (chain b) \<le> bucket_capacity b"
    by (auto simp: directory_ok_def heap_def)
  have image: "image < length (buckets d1)"
    unfolding len image_def using dep d1(5) len by (auto intro: flip_bit_bound)
  have orig: "original < length heap" using ptr [OF d1(5)] d1(4) by simp
  then have chain: "chain (heap ! p) = chain (bucket_heap d ! p)" "p < length heap \<Longrightarrow> bucket_capacity (heap ! p) = bucket_capacity (bucket_heap d ! p)" for p
    using d1(6) by (auto simp: heap_def nth_list_update)
  have entry: "j < length (buckets d1) \<Longrightarrow>
      keys_of (bucket_heap d' ! (buckets d' ! j)) = (if j = image \<or> j = index then {} else keys_of (bucket_heap d ! (buckets d1 ! j)))" for j
    using ptr [of j] chain(1) image d1(5) by (auto simp: d' nth_list_update nth_append b_def make_bucket_def)
  show "directory_ok d'"
    unfolding directory_ok_def
  proof (intro conjI)
    show "length (buckets d') = 2 ^ global_depth d'" by (simp add: d' len)
    show "\<forall>i < length (buckets d'). buckets d' ! i < length (bucket_heap d')"
      using ptr image d1(5) by (auto simp: d' nth_list_update less_Suc_eq)
    have "length (chain x) \<le> bucket_capacity x" if "x \<in> set heap" for x
    proof -
      from that obtain q where q: "q < length heap" "heap ! q = x" by (auto simp: in_set_conv_nth)
      then have "bucket_heap d ! q \<in> set (bucket_heap d1)" unfolding d1(6) by (simp add: heap_def d1(6))
      from cap [OF this] chain(1) [of q] chain(2) [OF q(1)] q(2) show ?thesis by simp
    qed
    then show "\<forall>b \<in> set (bucket_heap d'). length (chain b) \<le> bucket_capacity b"
      by (auto simp: d' b_def make_bucket_def)
  qed
  show "stored d' \<subseteq> stored d"
    unfolding d1(2) [symmetric] using entry d1(6) by (auto simp: stored_def d' split: if_splits)
  show "found hash d \<subseteq> found hash d' \<union> keys_of (bucket_heap d ! original)"
  proof
    fix k assume k: "k \<in> found hash d"
    let ?j = "index_of hash k d1"
    have j: "?j < length (buckets d1)" using d1(1) by (rule index_bound)
    have "k \<in> keys_of (bucket_heap d ! (buckets d1 ! ?j))"
      using k d1(3) [of k] by (simp add: found_def dir_contains_def bucket_contains_def get_bucket_by_key_def)
    moreover have "index_of hash k d' = ?j" by (simp add: d' index_of_def)
    ultimately show "k \<in> found hash d' \<union> keys_of (bucket_heap d ! original)"
      using entry [OF j] im d1(4)
      by (auto simp: found_def dir_contains_def bucket_contains_def get_bucket_by_key_def)
  qed
qed

section \<open>Insertion\<close>

text \<open>What one insertion does to a directory.\<close>

definition inserts :: "('k \<Rightarrow> nat) \<Rightarrow> 'k set \<Rightarrow> ('k, 'v) directory \<Rightarrow> ('k, 'v) directory \<Rightarrow> bool" where
  "inserts hash K d d' \<longleftrightarrow> directory_ok d' \<and> K \<union> found hash d \<subseteq> found hash d' \<and> stored d' \<subseteq> K \<union> stored d"

lemma each_inserts:
  assumes "each f xs d = Some (Inr d')" "directory_ok d"
    and "\<And>x d d'. f x d = Some (Inr d') \<Longrightarrow> directory_ok d \<Longrightarrow> inserts hash {fst x} d d'"
  shows "inserts hash (fst ` set xs) d d'"
  using assms(1,2)
proof (induction xs arbitrary: d)
  case Nil
  then show ?case by (simp add: inserts_def)
next
  case (Cons x xs)
  from Cons.prems(1) obtain d1 where d1: "f x d = Some (Inr d1)" "each f xs d1 = Some (Inr d')"
    by (auto split: bind_splits sum.splits)
  note step = assms(3) [OF d1(1) Cons.prems(2)]
  then have "directory_ok d1" by (simp add: inserts_def)
  from Cons.IH [OF d1(2) this] step show ?case unfolding inserts_def by auto
qed

lemma inserts_after_split:
  assumes "inserts hash (insert k C) d1 d'" "C \<subseteq> stored d" "stored d1 \<subseteq> stored d" "found hash d \<subseteq> found hash d1 \<union> C"
  shows "inserts hash {k} d d'"
  using assms unfolding inserts_def by blast

lemma bucket_insert_inserts:
  assumes ok: "directory_ok d" and cap: "has_capacity (bucket_heap d ! get_bucket_by_key hash k d)"
  shows "\<exists>b. bucket_insert k v (bucket_heap d ! get_bucket_by_key hash k d) = Inr b \<and>
    inserts hash {k} d (d\<lparr>bucket_heap := (bucket_heap d)[get_bucket_by_key hash k d := b]\<rparr>)"
proof -
  let ?p = "get_bucket_by_key hash k d"
  let ?b = "(bucket_heap d ! ?p)\<lparr>chain := insert_or_assign k v (chain (bucket_heap d ! ?p))\<rparr>"
  let ?d = "d\<lparr>bucket_heap := (bucket_heap d)[?p := ?b]\<rparr>"
  have p: "?p < length (bucket_heap d)"
    using ok index_bound [OF ok, of hash k] by (simp add: directory_ok_def get_bucket_by_key_def)
  have keys: "keys_of (bucket_heap ?d ! q) = keys_of (bucket_heap d ! q) \<union> (if q = ?p then {k} else {})" for q
    using p by (auto simp: nth_list_update)
  have "length (chain ?b) \<le> bucket_capacity ?b"
    using cap insert_or_assign_length [of k v "chain (bucket_heap d ! ?p)"] by (simp add: has_capacity_def)
  then have "directory_ok ?d"
    using ok p by (auto simp: directory_ok_def dest!: set_update_subset_insert [THEN subsetD])
  moreover have "{k} \<union> found hash d \<subseteq> found hash ?d"
  proof -
    have gb: "get_bucket_by_key hash k' ?d = get_bucket_by_key hash k' d" for k'
      by (simp add: get_bucket_by_key_def index_of_def)
    show ?thesis unfolding found_def dir_contains_def bucket_contains_def gb keys by auto
  qed
  moreover have "stored ?d \<subseteq> {k} \<union> stored d"
    unfolding stored_def using keys by (auto split: if_splits)
  ultimately show ?thesis using cap by (simp add: bucket_insert_def inserts_def)
qed

lemma dir_insert_inserts:
  assumes "dir_insert hash kv d = Some (Inr d')" "directory_ok d"
  shows "inserts hash {fst kv} d d'"
proof -
  have "\<forall>d'. r = Inr d' \<longrightarrow> directory_ok d \<longrightarrow> inserts hash {fst kv} d d'" if "dir_insert hash kv d = Some r" for r
  proof (rule dir_insert.raw_induct [OF _ that], goal_cases)
    case step: (1 dir_insert hash kv d r)
    let ?i = "index_of hash (fst kv) d"
    let ?p = "buckets d ! ?i"
    show ?case
    proof (intro allI impI)
      fix d' assume r: "r = Inr d'" and ok: "directory_ok d"
      show "inserts hash {fst kv} d d'"
      proof (cases "has_capacity (bucket_heap d ! ?p)")
        case True
        with bucket_insert_inserts [OF ok, of hash "fst kv" "snd kv"] step(2) r show ?thesis
          by (auto simp: get_bucket_by_key_def Let_def)
      next
        case False
        with step(2) r obtain d1 where d1: "split_bucket ?i ?p d = Inr d1"
          "each (dir_insert hash) (chain (bucket_heap d ! ?p) @ [kv]) d1 = Some (Inr d')"
          by (auto simp: Let_def split: sum.splits)
        note sp = split_bucket_facts [OF ok index_bound [OF ok] refl d1(1)]
        have "inserts hash (fst ` set (chain (bucket_heap d ! ?p) @ [kv])) d1 d'"
          using d1(2) sp(1) step(1) by (rule_tac each_inserts) auto
        moreover have "keys_of (bucket_heap d ! ?p) \<subseteq> stored d"
          using index_bound [OF ok] by (auto simp: stored_def)
        moreover have "fst ` set (chain (bucket_heap d ! ?p) @ [kv]) = insert (fst kv) (keys_of (bucket_heap d ! ?p))"
          by simp
        ultimately show ?thesis using sp(2,3) by (intro inserts_after_split) simp_all
      qed
    qed
  qed
  with assms show ?thesis by blast
qed

section \<open>Properties\<close>

text \<open>
  C12: whenever a sequence of insertions into an empty table returns, \<open>contains\<close> is true of exactly the
  inserted keys, the directory has a power of two of entries and no bucket holds more than its capacity; an
  insertion into a bucket with space does return.
\<close>

theorem extendible_hashtable_contains:
  assumes "insert_pairs hash kvs (new_directory depth capacity) = Some (Inr d)"
  shows "(dir_contains hash k d \<longleftrightarrow> k \<in> fst ` set kvs) \<and> dir_size d = 2 ^ global_depth d \<and>
    (\<forall>b \<in> set (bucket_heap d). length (chain b) \<le> bucket_capacity b) \<and>
    (has_capacity (bucket_heap d ! get_bucket_by_key hash k d) \<longrightarrow>
       (\<exists>d'. dir_insert hash (k, v) d = Some (Inr d')))"
proof -
  have ins: "inserts hash (fst ` set kvs) (new_directory depth capacity) d"
    using assms new_directory_ok(1) dir_insert_inserts unfolding insert_pairs_def by (rule each_inserts)
  then have ok: "directory_ok d" and "fst ` set kvs \<subseteq> found hash d" "stored d \<subseteq> fst ` set kvs"
    unfolding inserts_def new_directory_ok(2) by auto
  with found_stored [OF ok, of hash] have "dir_contains hash k d \<longleftrightarrow> k \<in> fst ` set kvs"
    by (auto simp: found_def)
  moreover have "dir_size d = 2 ^ global_depth d" "\<forall>b \<in> set (bucket_heap d). length (chain b) \<le> bucket_capacity b"
    using ok by (simp_all add: directory_ok_def dir_size_def)
  moreover have "\<exists>d'. dir_insert hash (k, v) d = Some (Inr d')"
    if "has_capacity (bucket_heap d ! get_bucket_by_key hash k d)"
    using that bucket_insert_inserts [OF ok that, of v]
    by (subst dir_insert.simps) (auto simp: get_bucket_by_key_def Let_def)
  ultimately show ?thesis by blast
qed

theorem extendible_hashtable_contains_witness:
  "\<exists>d. insert_pairs id [(0, ''a''), (4, ''b''), (1, ''c''::string)] (new_directory 0 1) = Some (Inr d) \<and>
     (dir_contains id 4 d \<longleftrightarrow> (4::nat) \<in> fst ` set [(0, ''a''), (4, ''b''), (1, ''c''::string)]) \<and>
     dir_size d = 2 ^ global_depth d"
proof -
  let ?r = "insert_pairs id [(0::nat, ''a''), (4, ''b''), (1, ''c''::string)] (new_directory 0 1)"
  have "(case ?r of Some (Inr _) \<Rightarrow> True | _ \<Rightarrow> False)" by code_simp
  then obtain d where d: "?r = Some (Inr d)" by (auto split: option.splits sum.splits)
  show ?thesis
    using d extendible_hashtable_contains [OF d] by blast
qed

text \<open>
  A split of a bucket that more than two entries share replaces only two of the entries; the others
  keep leading to the full bucket, and the next insertion through them fails the assertion that the split
  image is the original bucket.
\<close>

theorem extendible_hashtable_stale_entries:
  "(\<exists>d. insert_pairs id (map (\<lambda>k. (k, k)) [0, 4, 1, 3::nat]) (new_directory 0 1) = Some (Inr d)) \<and>
   insert_pairs id (map (\<lambda>k. (k, k)) [0, 4, 1, 3, 5::nat]) (new_directory 0 1) = Some (Inl Not_The_Split_Image)"
proof -
  let ?r = "insert_pairs id (map (\<lambda>k. (k, k)) [0, 4, 1, 3::nat]) (new_directory 0 1)"
  let ?f = "insert_pairs id (map (\<lambda>k. (k, k)) [0, 4, 1, 3, 5::nat]) (new_directory 0 1)"
  have "(case ?r of Some (Inr _) \<Rightarrow> True | _ \<Rightarrow> False)" by code_simp
  moreover have "(case ?f of Some (Inl e) \<Rightarrow> e = Not_The_Split_Image | _ \<Rightarrow> False)" by code_simp
  ultimately show ?thesis by (auto split: option.splits sum.splits)
qed

end
