(* ===== verification/Uninitialized.thy ===== *)
theory Uninitialized
  imports Prelude "HOL-Library.Monad_Syntax"
begin

text \<open>
  \<open>container/detail/construct.hpp\<close>: allocation, construction and destruction of elements in raw memory, with
  exceptions. A block of memory is a list of cells; a pointer is a block and an offset, as in the C++ abstract
  machine. A program returns \<open>None\<close> for undefined behaviour (a cell used against its state, a pointer outside its
  block, a block freed twice or with another size, or with living elements in it), \<open>Inl\<close> for an exception.
\<close>

section \<open>Memory\<close>

type_synonym name = nat

type_synonym allocator = nat

datatype pointer = Null | Ptr nat nat

text \<open>A cell is raw, or holds an object; the value of a moved-from object is not specified (\<open>Obj None\<close>).\<close>

datatype 'a cell = Raw | Obj "'a option"

record 'a block =
  cells :: "'a cell list"
  allocated_by :: allocator

datatype exn = Range_Error | Bad_Alloc | Element_Throws

record dynamic_array_data =
  start :: pointer
  finish :: pointer
  end_of_storage :: pointer

record dynamic_array =
  allocator_of :: allocator
  storage :: dynamic_array_data

record 'a world =
  arrays :: "name \<rightharpoonup> dynamic_array"
  blocks :: "nat \<rightharpoonup> 'a block"
  fresh :: nat
  ticks :: nat

text \<open>
  What the element type and the allocator say. The constructions, assignments and allocations are numbered:
  \<open>element_fails t\<close> and \<open>alloc_fails t\<close> say whether number \<open>t\<close> throws.
\<close>

record traits =
  element_fails :: "nat \<Rightarrow> bool"
  alloc_fails :: "nat \<Rightarrow> bool"
  nothrow_move :: bool
  copy_constructible :: bool
  max_size :: nat
  propagate_on_copy_assignment :: bool
  is_always_equal :: bool
  select_on_copy :: "allocator \<Rightarrow> allocator"

type_synonym ('a, 'r) prog = "'a world \<Rightarrow> ((exn + 'r) \<times> 'a world) option"

definition return :: "'r \<Rightarrow> ('a, 'r) prog" where
  "return r w = Some (Inr r, w)"

definition throw :: "exn \<Rightarrow> ('a, 'r) prog" where
  "throw e w = Some (Inl e, w)"

definition undefined_behaviour :: "('a, 'r) prog" where
  "undefined_behaviour w = None"

definition bnd :: "('a, 'r) prog \<Rightarrow> ('r \<Rightarrow> ('a, 's) prog) \<Rightarrow> ('a, 's) prog" where
  "bnd m f w = do { (r, w') \<leftarrow> m w; case r of Inl e \<Rightarrow> Some (Inl e, w') | Inr x \<Rightarrow> f x w' }"

text \<open>\<open>try { m } catch (...) { c; throw; }\<close>\<close>

definition on_throw :: "('a, 'r) prog \<Rightarrow> ('a, 'u) prog \<Rightarrow> ('a, 'r) prog" where
  "on_throw m c w = do {
     (r, w') \<leftarrow> m w;
     case r of Inl e \<Rightarrow> do { (_, w'') \<leftarrow> c w'; Some (Inl e, w'') } | Inr x \<Rightarrow> Some (Inr x, w') }"

section \<open>Cells and pointers\<close>

definition get_cell :: "pointer \<Rightarrow> 'a world \<Rightarrow> 'a cell option" where
  "get_cell p w =
     (case p of
        Null \<Rightarrow> None
      | Ptr b i \<Rightarrow> do { bl \<leftarrow> blocks w b; if i < length (cells bl) then Some (cells bl ! i) else None })"

definition set_cell :: "pointer \<Rightarrow> 'a cell \<Rightarrow> ('a, unit) prog" where
  "set_cell p c w =
     (case p of
        Null \<Rightarrow> None
      | Ptr b i \<Rightarrow> do {
          bl \<leftarrow> blocks w b;
          if i < length (cells bl)
          then Some (Inr (), w\<lparr>blocks := (blocks w)(b \<mapsto> bl\<lparr>cells := (cells bl)[i := c]\<rparr>)\<rparr>)
          else None })"

definition advance :: "pointer \<Rightarrow> nat \<Rightarrow> pointer" where
  "advance p n = (case p of Null \<Rightarrow> Null | Ptr b i \<Rightarrow> Ptr b (i + n))"

text \<open>\<open>q - p\<close>, for pointers of one block (or both null) with \<open>p\<close> not after \<open>q\<close>.\<close>

definition distance :: "pointer \<Rightarrow> pointer \<Rightarrow> nat option" where
  "distance p q =
     (case (p, q) of
        (Null, Null) \<Rightarrow> Some 0
      | (Ptr b i, Ptr c j) \<Rightarrow> (if b = c \<and> i \<le> j then Some (j - i) else None)
      | _ \<Rightarrow> None)"

definition between :: "pointer \<Rightarrow> pointer \<Rightarrow> (nat \<Rightarrow> ('a, 'r) prog) \<Rightarrow> ('a, 'r) prog" where
  "between p q f w = do { n \<leftarrow> distance p q; f n w }"

definition tick :: "'a world \<Rightarrow> 'a world" where
  "tick w = w\<lparr>ticks := ticks w + 1\<rparr>"

section \<open>Construction and destruction\<close>

text \<open>
  The argument of a constructor or assignment: an lvalue outside the arrays, a temporary, an lvalue or an rvalue
  of an element.
\<close>

datatype 'a source = Value 'a | Temporary "'a option" | Copy_Of pointer | Move_Of pointer

fun moves :: "'a source \<Rightarrow> bool" where
  "moves (Value _) = False"
| "moves (Temporary _) = True"
| "moves (Copy_Of _) = False"
| "moves (Move_Of _) = True"

text \<open>What a moved-from object holds is not specified, nor what a move that throws leaves.\<close>

definition take_source :: "traits \<Rightarrow> 'a source \<Rightarrow> ('a, 'a option) prog" where
  "take_source tr s w =
     (let throws = element_fails tr (ticks w) \<and> \<not> (moves s \<and> nothrow_move tr);
          result = (\<lambda>v. if throws then Inl Element_Throws else Inr v)
      in case s of
           Value v \<Rightarrow> Some (result (Some v), tick w)
         | Temporary v \<Rightarrow> Some (result v, tick w)
         | Copy_Of p \<Rightarrow> do { c \<leftarrow> get_cell p w; case c of Raw \<Rightarrow> None | Obj v \<Rightarrow> Some (result v, tick w) }
         | Move_Of p \<Rightarrow> do {
             c \<leftarrow> get_cell p w;
             case c of Raw \<Rightarrow> None | Obj v \<Rightarrow> do { (_, w') \<leftarrow> set_cell p (Obj None) w; Some (result v, tick w') } })"

definition construct :: "traits \<Rightarrow> pointer \<Rightarrow> 'a source \<Rightarrow> ('a, unit) prog" where
  "construct tr p s = bnd (take_source tr s) (\<lambda>v w. if get_cell p w = Some Raw then set_cell p (Obj v) w else None)"

definition destroy_at :: "pointer \<Rightarrow> ('a, unit) prog" where
  "destroy_at p w = do { c \<leftarrow> get_cell p w; case c of Raw \<Rightarrow> None | Obj _ \<Rightarrow> set_cell p Raw w }"

fun destroy_n :: "pointer \<Rightarrow> nat \<Rightarrow> ('a, unit) prog" where
  "destroy_n p 0 = return ()"
| "destroy_n p (Suc n) = bnd (destroy_at p) (\<lambda>_. destroy_n (advance p 1) n)"

definition destroy :: "pointer \<Rightarrow> pointer \<Rightarrow> ('a, unit) prog" where
  "destroy first stop = between first stop (destroy_n first)"

definition alloc_equal :: "traits \<Rightarrow> allocator \<Rightarrow> allocator \<Rightarrow> bool" where
  "alloc_equal tr a b \<longleftrightarrow> is_always_equal tr \<or> a = b"

definition allocate :: "traits \<Rightarrow> nat \<Rightarrow> allocator \<Rightarrow> ('a, pointer) prog" where
  "allocate tr n a w =
     (if n = 0 then Some (Inr Null, w)
      else if max_size tr < n \<or> alloc_fails tr (ticks w) then Some (Inl Bad_Alloc, tick w)
      else let b = fresh w
           in Some (Inr (Ptr b 0), tick (w\<lparr>blocks := (blocks w)(b \<mapsto> \<lparr>cells = replicate n Raw, allocated_by = a\<rparr>),
                                            fresh := b + 1\<rparr>)))"

definition deallocate :: "traits \<Rightarrow> pointer \<Rightarrow> nat \<Rightarrow> allocator \<Rightarrow> ('a, unit) prog" where
  "deallocate tr p n a w =
     (case p of
        Null \<Rightarrow> Some (Inr (), w)
      | Ptr b i \<Rightarrow> do {
          bl \<leftarrow> blocks w b;
          if i = 0 \<and> length (cells bl) = n \<and> (\<forall>c \<in> set (cells bl). c = Raw) \<and> alloc_equal tr a (allocated_by bl)
          then Some (Inr (), w\<lparr>blocks := (blocks w)(b := None)\<rparr>) else None })"

text \<open>
  The loop that all the \<open>uninitialized_\<close> functions share: element \<open>i\<close> from the \<open>i\<close>-th source; when a construction
  throws, the elements from \<open>d_first\<close> up to the current one are destroyed and the exception goes on.
\<close>

fun construct_all :: "traits \<Rightarrow> pointer \<Rightarrow> nat \<Rightarrow> 'a source list \<Rightarrow> ('a, pointer) prog" where
  "construct_all tr d_first i [] = return (advance d_first i)"
| "construct_all tr d_first i (s # ss) =
     bnd (on_throw (construct tr (advance d_first i) s) (destroy_n d_first i))
         (\<lambda>_. construct_all tr d_first (Suc i) ss)"

definition copies :: "pointer \<Rightarrow> nat \<Rightarrow> 'a source list" where
  "copies first n = map (\<lambda>i. Copy_Of (advance first i)) [0..<n]"

definition movings :: "pointer \<Rightarrow> nat \<Rightarrow> 'a source list" where
  "movings first n = map (\<lambda>i. Move_Of (advance first i)) [0..<n]"

definition uninitialized_copy :: "traits \<Rightarrow> pointer \<Rightarrow> pointer \<Rightarrow> pointer \<Rightarrow> ('a, pointer) prog" where
  "uninitialized_copy tr first stop d_first = between first stop (\<lambda>n. construct_all tr d_first 0 (copies first n))"

definition uninitialized_move :: "traits \<Rightarrow> pointer \<Rightarrow> pointer \<Rightarrow> pointer \<Rightarrow> ('a, pointer) prog" where
  "uninitialized_move tr first stop d_first = between first stop (\<lambda>n. construct_all tr d_first 0 (movings first n))"

definition uninitialized_move_if_noexcept :: "traits \<Rightarrow> pointer \<Rightarrow> pointer \<Rightarrow> pointer \<Rightarrow> ('a, pointer) prog" where
  "uninitialized_move_if_noexcept tr first stop d_first =
     (if \<not> nothrow_move tr \<and> copy_constructible tr then uninitialized_copy tr first stop d_first
      else uninitialized_move tr first stop d_first)"

definition uninitialized_fill_n :: "traits \<Rightarrow> pointer \<Rightarrow> nat \<Rightarrow> 'a \<Rightarrow> ('a, unit) prog" where
  "uninitialized_fill_n tr first n v = bnd (construct_all tr first 0 (replicate n (Value v))) (\<lambda>_. return ())"

definition alloc_on_copy :: "traits \<Rightarrow> allocator \<Rightarrow> allocator \<Rightarrow> allocator" where
  "alloc_on_copy tr one two = (if propagate_on_copy_assignment tr then two else one)"

text \<open>The iterators decide whether the elements are copied or (\<open>make_move_iterator\<close>) moved.\<close>

definition allocate_and_copy ::
    "traits \<Rightarrow> nat \<Rightarrow> (nat \<Rightarrow> 'a source list) \<Rightarrow> pointer \<Rightarrow> pointer \<Rightarrow> allocator \<Rightarrow> ('a, pointer) prog" where
  "allocate_and_copy tr n elements first stop a =
     bnd (allocate tr n a) (\<lambda>result.
       on_throw (bnd (between first stop (\<lambda>k. construct_all tr result 0 (elements k))) (\<lambda>_. return result))
                (deallocate tr result n a))"

section \<open>What the functions do to the blocks\<close>

lemma bnd_simps [simp]:
  "bnd (return x) f = f x" "bnd (throw e) f = throw e" "m w = None \<Longrightarrow> bnd m f w = None"
  "m w = Some (Inl e, w') \<Longrightarrow> bnd m f w = Some (Inl e, w')"
  "m w = Some (Inr x, w') \<Longrightarrow> bnd m f w = f x w'"
  by (simp_all add: bnd_def return_def throw_def fun_eq_iff)

lemma on_throw_simps [simp]:
  "on_throw (return x) c = return x"
  "m w = Some (Inr x, w') \<Longrightarrow> on_throw m c w = Some (Inr x, w')"
  "m w = Some (Inl e, w') \<Longrightarrow> c w' = Some (r, w'') \<Longrightarrow> on_throw m c w = Some (Inl e, w'')"
  by (simp_all add: on_throw_def return_def fun_eq_iff)

lemma pointer_simps [simp]:
  "advance Null n = Null" "advance (Ptr b i) n = Ptr b (i + n)" "advance p 0 = p"
  "distance Null Null = Some 0" "distance (Ptr b i) (Ptr b (i + n)) = Some n" "distance (Ptr b 0) (Ptr b n) = Some n"
  by (cases p; simp add: advance_def distance_def)+

lemma between_simps [simp]: "distance p q = Some n \<Longrightarrow> between p q f w = f n w"
  by (simp add: between_def)

definition put_block :: "nat \<Rightarrow> allocator \<Rightarrow> 'a cell list \<Rightarrow> 'a world \<Rightarrow> 'a world" where
  "put_block b a cs w = w\<lparr>blocks := (blocks w)(b \<mapsto> \<lparr>cells = cs, allocated_by = a\<rparr>)\<rparr>"

definition has_block :: "'a world \<Rightarrow> nat \<Rightarrow> allocator \<Rightarrow> 'a cell list \<Rightarrow> bool" where
  "has_block w b a cs \<longleftrightarrow> blocks w b = Some \<lparr>cells = cs, allocated_by = a\<rparr>"

lemma put_block_simps [simp]:
  "arrays (put_block b a cs w) = arrays w" "fresh (put_block b a cs w) = fresh w" "ticks (put_block b a cs w) = ticks w"
  "has_block (put_block b a cs w) c a' cs' \<longleftrightarrow> (if b = c then a = a' \<and> cs = cs' else has_block w c a' cs')"
  "put_block b a cs (put_block b a' cs' w) = put_block b a cs w"
  by (auto simp: put_block_def has_block_def)

lemma put_block_same: "has_block w b a cs \<Longrightarrow> put_block b a cs w = w"
  by (simp add: put_block_def has_block_def fun_upd_idem)

lemma put_block_commute: "b \<noteq> c \<Longrightarrow> put_block b a cs (put_block c a' cs' w) = put_block c a' cs' (put_block b a cs w)"
  by (simp add: put_block_def fun_upd_twist)

lemma tick_simps [simp]:
  "arrays (tick w) = arrays w" "fresh (tick w) = fresh w" "blocks (tick w) = blocks w" "ticks (tick w) = Suc (ticks w)"
  "has_block (tick w) b a cs = has_block w b a cs" "put_block b a cs (tick w) = tick (put_block b a cs w)"
  by (simp_all add: tick_def has_block_def put_block_def)

lemma get_cell_block: "has_block w b a cs \<Longrightarrow> i < length cs \<Longrightarrow> get_cell (Ptr b i) w = Some (cs ! i)"
  by (simp add: get_cell_def has_block_def)

lemma set_cell_block:
  "has_block w b a cs \<Longrightarrow> i < length cs \<Longrightarrow> set_cell (Ptr b i) c w = Some (Inr (), put_block b a (cs[i := c]) w)"
  by (simp add: set_cell_def has_block_def put_block_def)

lemma destroy_n_block:
  "has_block w b a (xs @ map Obj vs @ ys) \<Longrightarrow> i = length xs \<Longrightarrow> n = length vs \<Longrightarrow>
   destroy_n (Ptr b i) n w = Some (Inr (), put_block b a (xs @ replicate n Raw @ ys) w)"
proof (induction vs arbitrary: w xs i n)
  case Nil
  then show ?case by (simp add: return_def put_block_same)
next
  case (Cons v vs)
  let ?w = "put_block b a (xs @ Raw # map Obj vs @ ys) w"
  have "destroy_at (Ptr b i) w = Some (Inr (), ?w)"
    using Cons.prems by (simp add: destroy_at_def get_cell_block set_cell_block)
  moreover have "has_block ?w b a ((xs @ [Raw]) @ map Obj vs @ ys)" by simp
  note Cons.IH [OF this refl refl]
  ultimately show ?case using Cons.prems by simp
qed

definition src :: "bool \<Rightarrow> pointer \<Rightarrow> 'a source" where
  "src mv p = (if mv then Move_Of p else Copy_Of p)"

definition moved :: "bool \<Rightarrow> nat \<Rightarrow> 'a option list \<Rightarrow> 'a option list" where
  "moved mv k vs = (if mv then replicate k None @ drop k vs else vs)"

lemma moved_simps [simp]:
  "length (moved mv k vs) = (if mv then k + (length vs - k) else length vs)" "moved mv 0 vs = vs" "moved False k vs = vs"
  "k < length vs \<Longrightarrow> moved mv k vs ! k = vs ! k"
  by (simp_all add: moved_def nth_append)

lemma moved_update: "k < length vs \<Longrightarrow> (moved True k vs)[k := None] = moved True (Suc k) vs"
  by (simp add: moved_def list_update_append Cons_nth_drop_Suc [symmetric] replicate_append_same)

lemma copies_movings: "copies p n = map (\<lambda>i. src False (advance p i)) [0..<n]"
  "movings p n = map (\<lambda>i. src True (advance p i)) [0..<n]"
  by (simp_all add: copies_def movings_def src_def)

definition source_throws :: "traits \<Rightarrow> bool \<Rightarrow> 'a world \<Rightarrow> bool" where
  "source_throws tr mv w \<longleftrightarrow> element_fails tr (ticks w) \<and> \<not> (mv \<and> nothrow_move tr)"

lemma take_source_outside:
  "take_source tr (Value v) w = Some (if source_throws tr False w then Inl Element_Throws else Inr (Some v), tick w)"
  "take_source tr (Temporary u) w = Some (if source_throws tr True w then Inl Element_Throws else Inr u, tick w)"
  by (simp_all add: take_source_def source_throws_def)

lemma take_source_cell:
  assumes "has_block w c a (map Obj vs @ ys)" "j < length vs"
  shows "take_source tr (src mv (Ptr c j)) w =
    Some (if source_throws tr mv w then Inl Element_Throws else Inr (vs ! j),
          tick (if mv then put_block c a (map Obj (vs[j := None]) @ ys) w else w))"
  using assms
  by (simp add: take_source_def source_throws_def src_def get_cell_block set_cell_block nth_append list_update_append map_update)

lemma construct_cell:
  assumes "take_source tr s w = Some (r, w')" "has_block w' b a cs" "i < length cs" "cs ! i = Raw"
  shows "construct tr (Ptr b i) s w =
    (case r of Inl e \<Rightarrow> Some (Inl e, w') | Inr v \<Rightarrow> Some (Inr (), put_block b a (cs[i := Obj v]) w'))"
  using assms by (simp add: construct_def bnd_def get_cell_block set_cell_block split: sum.split)

lemma fill_raw:
  "length us = i \<Longrightarrow> (map Obj us @ replicate (Suc n) Raw @ zs)[i := Obj v] = map Obj (us @ [v]) @ replicate n Raw @ zs"
  by (simp add: list_update_append)

text \<open>One round of the loop that builds the elements \<open>us\<close> of block \<open>b\<close>.\<close>

lemma construct_all_round:
  assumes "take_source tr s w = Some (r, w')" "has_block w' b a (map Obj us @ replicate (Suc n) Raw @ zs)" "length us = i"
  shows "construct_all tr (Ptr b 0) i (s # ss) w =
    (case r of
       Inl e \<Rightarrow> Some (Inl e, put_block b a (replicate (i + Suc n) Raw @ zs) w')
     | Inr v \<Rightarrow> construct_all tr (Ptr b 0) (Suc i) ss (put_block b a (map Obj (us @ [v]) @ replicate n Raw @ zs) w'))"
proof (cases r)
  case (Inl e)
  then have "construct tr (Ptr b i) s w = Some (Inl e, w')"
    using construct_cell [OF assms(1,2)] assms(3) by (simp add: nth_append)
  moreover have "destroy_n (Ptr b 0) i w' = Some (Inr (), put_block b a (replicate (i + Suc n) Raw @ zs) w')"
    using destroy_n_block [of w' b a "[]" us "replicate (Suc n) Raw @ zs" 0 i] assms(2,3)
    unfolding replicate_add append_assoc by simp
  ultimately show ?thesis using Inl by simp
next
  case (Inr v)
  then have "construct tr (Ptr b i) s w = Some (Inr (), put_block b a (map Obj (us @ [v]) @ replicate n Raw @ zs) w')"
    using construct_cell [OF assms(1,2)] assms(3) fill_raw [OF assms(3), of n zs v] by (simp add: nth_append)
  then show ?thesis using Inr by simp
qed

text \<open>Elements from values.\<close>

lemma construct_values:
  "has_block w b a (map Obj us @ replicate (length vs) Raw @ zs) \<Longrightarrow> length us = i \<Longrightarrow>
   \<exists>t. construct_all tr (Ptr b 0) i (map Value vs) w =
         Some (Inr (Ptr b (i + length vs)), put_block b a (map Obj (us @ map Some vs) @ zs) (w\<lparr>ticks := t\<rparr>)) \<or>
       (\<exists>t'. element_fails tr t') \<and>
       construct_all tr (Ptr b 0) i (map Value vs) w =
         Some (Inl Element_Throws, put_block b a (replicate (i + length vs) Raw @ zs) (w\<lparr>ticks := t\<rparr>))"
proof (induction vs arbitrary: w us i)
  case Nil
  then show ?case
    by (intro exI [of _ "ticks w"]) (auto simp: return_def put_block_same)
next
  case (Cons v vs)
  have blk: "has_block (tick w) b a (map Obj us @ replicate (Suc (length vs)) Raw @ zs)" using Cons.prems(1) by simp
  note round = construct_all_round [OF take_source_outside(1) blk Cons.prems(2)]
  show ?case
  proof (cases "element_fails tr (ticks w)")
    case True
    then show ?thesis
      using round by (intro exI [of _ "Suc (ticks w)"]) (auto simp: source_throws_def tick_def put_block_def)
  next
    case False
    let ?w = "put_block b a (map Obj (us @ [Some v]) @ replicate (length vs) Raw @ zs) (tick w)"
    have step: "construct_all tr (Ptr b 0) i (map Value (v # vs)) w = construct_all tr (Ptr b 0) (Suc i) (map Value vs) ?w"
      using round False by (simp add: source_throws_def)
    have "has_block ?w b a (map Obj (us @ [Some v]) @ replicate (length vs) Raw @ zs)" by simp
    from Cons.IH [OF this, of "Suc i"] Cons.prems(2) obtain t where
      "construct_all tr (Ptr b 0) (Suc i) (map Value vs) ?w =
         Some (Inr (Ptr b (Suc i + length vs)), put_block b a (map Obj ((us @ [Some v]) @ map Some vs) @ zs) (?w\<lparr>ticks := t\<rparr>)) \<or>
       (\<exists>t'. element_fails tr t') \<and>
       construct_all tr (Ptr b 0) (Suc i) (map Value vs) ?w =
         Some (Inl Element_Throws, put_block b a (replicate (Suc i + length vs) Raw @ zs) (?w\<lparr>ticks := t\<rparr>))"
      by auto
    then show ?thesis
      unfolding step by (intro exI [of _ t]) (auto simp: put_block_def tick_def)
  qed
qed

text \<open>Elements copied or moved out of another block.\<close>

lemma construct_transfer:
  assumes "b \<noteq> c" "n = length vs - i" "i \<le> length vs" "has_block w b a (map Obj (take i vs) @ replicate n Raw @ zs)"
    and "has_block w c a' (map Obj (moved mv i vs) @ zs')"
  shows "\<exists>t k. k \<le> length vs \<and>
       (construct_all tr (Ptr b 0) i (map (\<lambda>j. src mv (Ptr c j)) [i..<length vs]) w =
         Some (Inr (Ptr b (length vs)),
           put_block b a (map Obj vs @ zs) (put_block c a' (map Obj (moved mv (length vs) vs) @ zs') (w\<lparr>ticks := t\<rparr>))) \<or>
       (\<exists>t'. element_fails tr t') \<and> \<not> (mv \<and> nothrow_move tr) \<and>
       construct_all tr (Ptr b 0) i (map (\<lambda>j. src mv (Ptr c j)) [i..<length vs]) w =
         Some (Inl Element_Throws, put_block b a (replicate (length vs) Raw @ zs)
           (put_block c a' (map Obj (moved mv k vs) @ zs') (w\<lparr>ticks := t\<rparr>))))"
  using assms
proof (induction n arbitrary: w i)
  case 0
  then have i: "i = length vs" by simp
  then have "put_block b a (map Obj vs @ zs) (put_block c a' (map Obj (moved mv (length vs) vs) @ zs') w) = w"
    using 0(4,5) by (simp add: put_block_same)
  then show ?case
    using i by (intro exI [of _ "ticks w"] exI [of _ i]) (auto simp: return_def)
next
  case (Suc n)
  then have i: "i < length vs" by simp
  define w1 where "w1 = (if mv then put_block c a' (map Obj (moved mv (Suc i) vs) @ zs') w else w)"
  have "i < length (moved mv i vs)" using i by simp
  from take_source_cell [OF Suc.prems(5) this, of tr mv]
  have take: "take_source tr (src mv (Ptr c i)) w =
      Some (if source_throws tr mv w then Inl Element_Throws else Inr (vs ! i), tick w1)"
    using i by (auto simp: w1_def moved_update)
  have blk: "has_block (tick w1) b a (map Obj (take i vs) @ replicate (Suc n) Raw @ zs)"
    using Suc.prems(1,4) by (simp add: w1_def)
  have blk': "has_block w1 c a' (map Obj (moved mv (Suc i) vs) @ zs')"
    using Suc.prems(5) by (cases mv) (simp_all add: w1_def)
  have len: "length (take i vs) = i" using i by simp
  note round = construct_all_round [OF take blk len]
  have upt: "map (\<lambda>j. src mv (Ptr c j)) [i..<length vs] = src mv (Ptr c i) # map (\<lambda>j. src mv (Ptr c j)) [Suc i..<length vs]"
    using i by (simp add: upt_conv_Cons)
  have w1: "put_block c a' (map Obj (moved mv (Suc i) vs) @ zs') w = w1"
    using Suc.prems(5) by (cases mv) (simp_all add: w1_def put_block_same)
  show ?case
  proof (cases "source_throws tr mv w")
    case True
    have "i + Suc n = length vs" using Suc.prems(2) i by simp
    then show ?thesis
      using True round i unfolding upt
      by (intro exI [of _ "Suc (ticks w)"] exI [of _ "Suc i"])
         (auto simp: source_throws_def w1 [symmetric] tick_def put_block_def)
  next
    case False
    let ?w = "put_block b a (map Obj (take i vs @ [vs ! i]) @ replicate n Raw @ zs) (tick w1)"
    have step: "construct_all tr (Ptr b 0) i (map (\<lambda>j. src mv (Ptr c j)) [i..<length vs]) w =
        construct_all tr (Ptr b 0) (Suc i) (map (\<lambda>j. src mv (Ptr c j)) [Suc i..<length vs]) ?w"
      using round False unfolding upt by simp
    have t: "take (Suc i) vs = take i vs @ [vs ! i]" using i by (rule take_Suc_conv_app_nth)
    have "has_block ?w b a (map Obj (take (Suc i) vs) @ replicate n Raw @ zs)" by (simp add: t)
    moreover have "has_block ?w c a' (map Obj (moved mv (Suc i) vs) @ zs')" using blk' Suc.prems(1) by simp
    moreover have "n = length vs - Suc i" "Suc i \<le> length vs" using Suc.prems(2) i by simp_all
    ultimately obtain t k where k: "k \<le> length vs" and
      "construct_all tr (Ptr b 0) (Suc i) (map (\<lambda>j. src mv (Ptr c j)) [Suc i..<length vs]) ?w =
         Some (Inr (Ptr b (length vs)),
           put_block b a (map Obj vs @ zs) (put_block c a' (map Obj (moved mv (length vs) vs) @ zs') (?w\<lparr>ticks := t\<rparr>))) \<or>
       (\<exists>t'. element_fails tr t') \<and> \<not> (mv \<and> nothrow_move tr) \<and>
       construct_all tr (Ptr b 0) (Suc i) (map (\<lambda>j. src mv (Ptr c j)) [Suc i..<length vs]) ?w =
         Some (Inl Element_Throws, put_block b a (replicate (length vs) Raw @ zs)
           (put_block c a' (map Obj (moved mv k vs) @ zs') (?w\<lparr>ticks := t\<rparr>)))"
      using Suc.IH [of "Suc i" ?w] Suc.prems(1) by blast
    moreover have "put_block b a X (put_block c a' Y (?w\<lparr>ticks := t\<rparr>)) = put_block b a X (put_block c a' Y (w\<lparr>ticks := t\<rparr>))" for X Y
      using Suc.prems(1) by (simp add: w1_def put_block_def tick_def fun_upd_twist)
    ultimately show ?thesis
      unfolding step by (intro exI [of _ t] exI [of _ k]) simp
  qed
qed

lemma construct_copies:
  assumes "b \<noteq> c" "has_block w b a (replicate (length vs) Raw @ zs)" "has_block w c a' (map Obj vs @ zs')"
  shows "\<exists>t. construct_all tr (Ptr b 0) 0 (copies (Ptr c 0) (length vs)) w =
         Some (Inr (Ptr b (length vs)), put_block b a (map Obj vs @ zs) (w\<lparr>ticks := t\<rparr>)) \<or>
       (\<exists>t'. element_fails tr t') \<and>
       construct_all tr (Ptr b 0) 0 (copies (Ptr c 0) (length vs)) w =
         Some (Inl Element_Throws, put_block b a (replicate (length vs) Raw @ zs) (w\<lparr>ticks := t\<rparr>))"
proof -
  have "put_block c a' (map Obj vs @ zs') (w\<lparr>ticks := t\<rparr>) = w\<lparr>ticks := t\<rparr>" for t
    using assms(3) by (intro put_block_same) (simp add: has_block_def)
  then show ?thesis
    using construct_transfer [OF assms(1), of "length vs" vs 0 w a zs a' False zs' tr] assms(2,3)
    by (auto simp: copies_movings)
qed

lemma construct_movings:
  assumes "b \<noteq> c" "has_block w b a (replicate (length vs) Raw @ zs)" "has_block w c a' (map Obj vs @ zs')"
  shows "\<exists>t us. length us = length vs \<and>
       (construct_all tr (Ptr b 0) 0 (movings (Ptr c 0) (length vs)) w =
         Some (Inr (Ptr b (length vs)), put_block b a (map Obj vs @ zs) (put_block c a' (map Obj us @ zs') (w\<lparr>ticks := t\<rparr>))) \<or>
       (\<exists>t'. element_fails tr t') \<and> \<not> nothrow_move tr \<and>
       construct_all tr (Ptr b 0) 0 (movings (Ptr c 0) (length vs)) w =
         Some (Inl Element_Throws,
           put_block b a (replicate (length vs) Raw @ zs) (put_block c a' (map Obj us @ zs') (w\<lparr>ticks := t\<rparr>))))"
proof -
  obtain t k where k: "k \<le> length vs" and
    "construct_all tr (Ptr b 0) 0 (movings (Ptr c 0) (length vs)) w =
       Some (Inr (Ptr b (length vs)),
         put_block b a (map Obj vs @ zs) (put_block c a' (map Obj (moved True (length vs) vs) @ zs') (w\<lparr>ticks := t\<rparr>))) \<or>
     (\<exists>t'. element_fails tr t') \<and> \<not> nothrow_move tr \<and>
     construct_all tr (Ptr b 0) 0 (movings (Ptr c 0) (length vs)) w =
       Some (Inl Element_Throws, put_block b a (replicate (length vs) Raw @ zs)
         (put_block c a' (map Obj (moved True k vs) @ zs') (w\<lparr>ticks := t\<rparr>)))"
    using construct_transfer [OF assms(1), of "length vs" vs 0 w a zs a' True zs' tr] assms(2,3)
    by (auto simp: copies_movings)
  moreover have "length (moved True k vs) = length vs" using k by simp
  moreover have "length (moved True (length vs) vs) = length vs" by simp
  ultimately show ?thesis by blast
qed

end
