(* ===== verification/Dynamic_Array.thy ===== *)
theory Dynamic_Array
  imports Uninitialized
begin

text \<open>
  \<open>dynamic_array\<close> of \<open>container/dynamic_array.hpp\<close>. The arrays are named objects of the world; an operation works on
  the array \<open>this\<close>, so that self assignment and references to own elements are visible.
\<close>

section \<open>The members\<close>

definition empty_data :: dynamic_array_data where
  "empty_data = \<lparr>start = Null, finish = Null, end_of_storage = Null\<rparr>"

definition this :: "name \<Rightarrow> (dynamic_array \<Rightarrow> ('a, 'r) prog) \<Rightarrow> ('a, 'r) prog" where
  "this x f w = do { d \<leftarrow> arrays w x; f d w }"

definition put_array :: "name \<Rightarrow> dynamic_array \<Rightarrow> ('a, unit) prog" where
  "put_array x d w = Some (Inr (), w\<lparr>arrays := (arrays w)(x \<mapsto> d)\<rparr>)"

definition drop_array :: "name \<Rightarrow> ('a, unit) prog" where
  "drop_array x w = Some (Inr (), w\<lparr>arrays := (arrays w)(x := None)\<rparr>)"

definition set_storage :: "name \<Rightarrow> (dynamic_array_data \<Rightarrow> dynamic_array_data) \<Rightarrow> ('a, unit) prog" where
  "set_storage x f = this x (\<lambda>d. put_array x (d\<lparr>storage := f (storage d)\<rparr>))"

section \<open>\<open>dynamic_array_data\<close> and \<open>dynamic_array_base\<close>\<close>

definition copy_data :: "dynamic_array_data \<Rightarrow> dynamic_array_data \<Rightarrow> dynamic_array_data" where
  "copy_data self other =
     self\<lparr>start := start other, finish := finish other, end_of_storage := end_of_storage other\<rparr>"

definition swap_data :: "dynamic_array_data \<Rightarrow> dynamic_array_data \<Rightarrow> dynamic_array_data \<times> dynamic_array_data" where
  "swap_data self other =
     (let tmp = copy_data empty_data self; self' = copy_data self other in (self', copy_data other tmp))"

definition base_new :: "name \<Rightarrow> allocator \<Rightarrow> ('a, unit) prog" where
  "base_new x a = put_array x \<lparr>allocator_of = a, storage = empty_data\<rparr>"

definition base_new_n :: "traits \<Rightarrow> name \<Rightarrow> nat \<Rightarrow> allocator \<Rightarrow> ('a, unit) prog" where
  "base_new_n tr x n a =
     bnd (allocate tr n a) (\<lambda>p.
       put_array x \<lparr>allocator_of = a, storage = \<lparr>start = p, finish = p, end_of_storage = advance p n\<rparr>\<rparr>)"

definition base_move :: "name \<Rightarrow> name \<Rightarrow> ('a, unit) prog" where
  "base_move x other = this other (\<lambda>o'.
     bnd (put_array other (o'\<lparr>storage := empty_data\<rparr>)) (\<lambda>_. put_array x o'))"

definition base_destroy :: "traits \<Rightarrow> name \<Rightarrow> ('a, unit) prog" where
  "base_destroy tr x = this x (\<lambda>d.
     between (start (storage d)) (end_of_storage (storage d)) (\<lambda>n.
       bnd (deallocate tr (start (storage d)) n (allocator_of d)) (\<lambda>_. drop_array x)))"

section \<open>Constructors and destructor\<close>

text \<open>When the body of a constructor throws, the base that is already constructed is destroyed.\<close>

definition array_new :: "name \<Rightarrow> allocator \<Rightarrow> ('a, unit) prog" where
  "array_new x a = base_new x a"

definition array_fill :: "traits \<Rightarrow> name \<Rightarrow> nat \<Rightarrow> 'a \<Rightarrow> allocator \<Rightarrow> ('a, unit) prog" where
  "array_fill tr x n v a =
     bnd (base_new_n tr x n a) (\<lambda>_.
       on_throw (this x (\<lambda>d.
           bnd (uninitialized_fill_n tr (start (storage d)) n v) (\<lambda>_.
             set_storage x (\<lambda>s. s\<lparr>finish := end_of_storage s\<rparr>))))
         (base_destroy tr x))"

definition array_list :: "traits \<Rightarrow> name \<Rightarrow> 'a list \<Rightarrow> allocator \<Rightarrow> ('a, unit) prog" where
  "array_list tr x vs a =
     bnd (base_new x a) (\<lambda>_.
       on_throw (bnd (allocate tr (length vs) a) (\<lambda>p.
           bnd (set_storage x (\<lambda>s. s\<lparr>start := p, end_of_storage := advance p (length vs)\<rparr>)) (\<lambda>_.
             bnd (construct_all tr p 0 (map Value vs)) (\<lambda>q. set_storage x (\<lambda>s. s\<lparr>finish := q\<rparr>)))))
         (base_destroy tr x))"

definition array_copy :: "traits \<Rightarrow> name \<Rightarrow> name \<Rightarrow> ('a, unit) prog" where
  "array_copy tr x other = this other (\<lambda>o'.
     between (start (storage o')) (finish (storage o')) (\<lambda>n.
       bnd (base_new_n tr x n (select_on_copy tr (allocator_of o'))) (\<lambda>_.
         on_throw (this x (\<lambda>d.
             bnd (uninitialized_copy tr (start (storage o')) (finish (storage o')) (start (storage d))) (\<lambda>q.
               set_storage x (\<lambda>s. s\<lparr>finish := q\<rparr>))))
           (base_destroy tr x))))"

definition array_destroy :: "traits \<Rightarrow> name \<Rightarrow> ('a, unit) prog" where
  "array_destroy tr x = this x (\<lambda>d.
     bnd (destroy (start (storage d)) (finish (storage d))) (\<lambda>_. base_destroy tr x))"

section \<open>Observers\<close>

definition array_size :: "name \<Rightarrow> ('a, nat) prog" where
  "array_size x = this x (\<lambda>d. between (start (storage d)) (finish (storage d)) return)"

definition array_capacity :: "name \<Rightarrow> ('a, nat) prog" where
  "array_capacity x = this x (\<lambda>d. between (start (storage d)) (end_of_storage (storage d)) return)"

definition array_empty :: "name \<Rightarrow> ('a, bool) prog" where
  "array_empty x = this x (\<lambda>d. return (start (storage d) = finish (storage d)))"

definition array_at :: "name \<Rightarrow> nat \<Rightarrow> ('a, pointer) prog" where
  "array_at x n = this x (\<lambda>d. return (advance (start (storage d)) n))"

section \<open>Modifiers\<close>

definition array_clear :: "name \<Rightarrow> ('a, unit) prog" where
  "array_clear x = this x (\<lambda>d.
     bnd (destroy (start (storage d)) (finish (storage d))) (\<lambda>_. set_storage x (\<lambda>s. s\<lparr>finish := start s\<rparr>)))"

text \<open>\<open>size_type\<close> has 64 bits.\<close>

definition twice_size :: "traits \<Rightarrow> nat \<Rightarrow> exn + nat" where
  "twice_size tr current_size =
     (let ms = max_size tr; len = (current_size + max current_size 1) mod 2 ^ 64
      in if (2 ^ 64 + ms - current_size) mod 2 ^ 64 < 1 then Inl Range_Error
         else Inr (if len < current_size \<or> len > ms then ms else len))"

text \<open>
  The new element is made as a temporary from the arguments and moved into place before the elements are moved
  (\<open>T{args...}\<close> with one argument of type \<open>T\<close> is its copy or move, which holds for an element class without a constructor from
  an initializer list of such values); the handler destroys it whenever \<open>new_finish\<close> is still null.
\<close>

definition realloc_and_insert :: "traits \<Rightarrow> name \<Rightarrow> 'a source \<Rightarrow> ('a, unit) prog" where
  "realloc_and_insert tr x arg = this x (\<lambda>d.
     let s = storage d in
     between (start s) (finish s) (\<lambda>n.
       case twice_size tr n of
         Inl e \<Rightarrow> throw e
       | Inr new_size \<Rightarrow>
           bnd (allocate tr new_size (allocator_of d)) (\<lambda>new_start.
           bnd (on_throw
                 (bnd (take_source tr arg) (\<lambda>v.
                  bnd (construct tr (advance new_start n) (Temporary v)) (\<lambda>_.
                  uninitialized_move_if_noexcept tr (start s) (finish s) new_start)))
                 (bnd (destroy_at (advance new_start n)) (\<lambda>_. deallocate tr new_start new_size (allocator_of d))))
            (\<lambda>new_finish.
           bnd (destroy (start s) (finish s)) (\<lambda>_.
           between (start s) (end_of_storage s) (\<lambda>cap.
           bnd (deallocate tr (start s) cap (allocator_of d)) (\<lambda>_.
           set_storage x (\<lambda>_. \<lparr>start = new_start, finish = advance new_finish 1,
                                end_of_storage = advance new_start new_size\<rparr>))))))))"

text \<open>\<open>push_back\<close> (of an lvalue or an rvalue) and \<open>emplace_back\<close>.\<close>

definition push_back :: "traits \<Rightarrow> name \<Rightarrow> 'a source \<Rightarrow> ('a, unit) prog" where
  "push_back tr x arg = this x (\<lambda>d.
     if finish (storage d) \<noteq> end_of_storage (storage d)
     then bnd (construct tr (finish (storage d)) arg) (\<lambda>_. set_storage x (\<lambda>s. s\<lparr>finish := advance (finish s) 1\<rparr>))
     else realloc_and_insert tr x arg)"

definition reserve :: "traits \<Rightarrow> name \<Rightarrow> nat \<Rightarrow> ('a, unit) prog" where
  "reserve tr x n = this x (\<lambda>d.
     let s = storage d in
     if n > max_size tr then throw Range_Error
     else between (start s) (end_of_storage s) (\<lambda>cap.
       if cap < n then
         between (start s) (finish s) (\<lambda>current_size.
         bnd (allocate_and_copy tr n (movings (start s)) (start s) (finish s) (allocator_of d)) (\<lambda>p.
         bnd (destroy (start s) (finish s)) (\<lambda>_.
         bnd (deallocate tr (start s) cap (allocator_of d)) (\<lambda>_.
         set_storage x (\<lambda>_. \<lparr>start = p, finish = advance p current_size, end_of_storage = advance p n\<rparr>)))))
       else return ()))"

text \<open>\<open>std::copy\<close> onto living elements: copy assignments, each of which may throw.\<close>

fun assign_all :: "traits \<Rightarrow> pointer \<Rightarrow> 'a source list \<Rightarrow> ('a, pointer) prog" where
  "assign_all tr d [] = return d"
| "assign_all tr d (s # ss) =
     bnd (take_source tr s) (\<lambda>v.
     bnd (\<lambda>w. case get_cell d w of Some (Obj _) \<Rightarrow> set_cell d (Obj v) w | _ \<Rightarrow> None) (\<lambda>_.
     assign_all tr (advance d 1) ss))"

text \<open>The first part of the copy assignment: what the allocators ask for.\<close>

definition assign_allocator :: "traits \<Rightarrow> name \<Rightarrow> name \<Rightarrow> ('a, unit) prog" where
  "assign_allocator tr x other =
     (if propagate_on_copy_assignment tr
      then this x (\<lambda>d. this other (\<lambda>o'.
        bnd (if is_always_equal tr \<and> \<not> alloc_equal tr (allocator_of d) (allocator_of o')
             then bnd (array_clear x) (\<lambda>_.
                  between (start (storage d)) (end_of_storage (storage d)) (\<lambda>cap.
                  bnd (deallocate tr (start (storage d)) cap (allocator_of d)) (\<lambda>_.
                  set_storage x (\<lambda>_. empty_data))))
             else return ()) (\<lambda>_.
        this x (\<lambda>d. put_array x (d\<lparr>allocator_of := alloc_on_copy tr (allocator_of d) (allocator_of o')\<rparr>)))))
      else return ())"

definition assign_elements :: "traits \<Rightarrow> name \<Rightarrow> name \<Rightarrow> ('a, unit) prog" where
  "assign_elements tr x other =
     this other (\<lambda>o'. this x (\<lambda>d.
       let s = storage d; s' = storage o' in
       between (start s') (finish s') (\<lambda>xsize.
       between (start s) (end_of_storage s) (\<lambda>cap.
       between (start s) (finish s) (\<lambda>sz.
       bnd (if xsize > cap then
              bnd (allocate_and_copy tr xsize (copies (start s')) (start s') (finish s') (allocator_of d)) (\<lambda>tmp.
              bnd (destroy (start s) (finish s)) (\<lambda>_.
              bnd (deallocate tr (start s) cap (allocator_of d)) (\<lambda>_.
              set_storage x (\<lambda>s. s\<lparr>start := tmp, end_of_storage := advance tmp xsize\<rparr>))))
            else if sz \<ge> xsize then
              bnd (assign_all tr (start s) (copies (start s') xsize)) (\<lambda>q. destroy q (finish s))
            else
              bnd (assign_all tr (start s) (copies (start s') sz)) (\<lambda>_.
              bnd (uninitialized_copy tr (advance (start s') sz) (finish s') (finish s)) (\<lambda>_. return ())))
         (\<lambda>_. set_storage x (\<lambda>s. s\<lparr>finish := advance (start s) xsize\<rparr>)))))))"

definition assign :: "traits \<Rightarrow> name \<Rightarrow> name \<Rightarrow> ('a, unit) prog" where
  "assign tr x other =
     (if other = x then return ()
      else bnd (assign_allocator tr x other) (\<lambda>_. assign_elements tr x other))"

section \<open>Reading\<close>

fun read_cells :: "pointer \<Rightarrow> nat \<Rightarrow> 'a world \<Rightarrow> 'a option list option" where
  "read_cells p 0 w = Some []"
| "read_cells p (Suc n) w = do {
     c \<leftarrow> get_cell p w;
     case c of Raw \<Rightarrow> None | Obj v \<Rightarrow> do { vs \<leftarrow> read_cells (advance p 1) n w; Some (v # vs) } }"

text \<open>The elements from \<open>begin()\<close> to \<open>end()\<close>.\<close>

definition contents :: "name \<Rightarrow> 'a world \<Rightarrow> 'a option list option" where
  "contents x w = do { d \<leftarrow> arrays w x; n \<leftarrow> distance (start (storage d)) (finish (storage d));
     read_cells (start (storage d)) n w }"

text \<open>
  \<open>std::equal\<close> over both ranges; it compares the elements if the lengths agree. The inner \<open>None\<close> is a result that is not
  specified, as it depends on the value of an element that was moved from (it may still be the old one).
\<close>

fun equal_elements :: "'a option list \<Rightarrow> 'a option list \<Rightarrow> bool option" where
  "equal_elements (Some v # vs) (Some u # us) = (if v = u then equal_elements vs us else Some False)"
| "equal_elements [] [] = Some True"
| "equal_elements _ _ = None"

definition array_equal :: "name \<Rightarrow> name \<Rightarrow> 'a world \<Rightarrow> bool option option" where
  "array_equal x y w = do { xs \<leftarrow> contents x w; ys \<leftarrow> contents y w;
     Some (if length xs \<noteq> length ys then Some False else equal_elements xs ys) }"

end
