(* ===== verification/Dynamic_Array_Proofs.thy ===== *)
theory Dynamic_Array_Proofs
  imports Dynamic_Array
begin

text \<open>
  The lists that the arrays of a world hold, the ownership of blocks, and what each operation of \<open>dynamic_array\<close>
  does to them, exceptions included.
\<close>

section \<open>The invariant\<close>

definition array_ok :: "traits \<Rightarrow> 'a world \<Rightarrow> dynamic_array \<Rightarrow> 'a option list \<Rightarrow> bool" where
  "array_ok tr w d vs \<longleftrightarrow>
     storage d = empty_data \<and> vs = [] \<or>
     (\<exists>b k a. storage d = \<lparr>start = Ptr b 0, finish = Ptr b (length vs), end_of_storage = Ptr b (length vs + k)\<rparr> \<and>
        0 < length vs + k \<and> length vs + k \<le> max_size tr \<and> has_block w b a (map Obj vs @ replicate k Raw) \<and> alloc_equal tr (allocator_of d) a)"

definition block_of :: "dynamic_array \<Rightarrow> nat option" where
  "block_of d = (case start (storage d) of Null \<Rightarrow> None | Ptr b _ \<Rightarrow> Some b)"

definition block_at :: "'a world \<Rightarrow> name \<Rightarrow> nat option" where
  "block_at w x = (case arrays w x of None \<Rightarrow> None | Some d \<Rightarrow> block_of d)"

text \<open>Every array holds its list, in a block of its own, and every block belongs to an array.\<close>

definition holds :: "traits \<Rightarrow> 'a world \<Rightarrow> (name \<rightharpoonup> 'a option list) \<Rightarrow> bool" where
  "holds tr w f \<longleftrightarrow>
     (\<forall>x. rel_option (array_ok tr w) (arrays w x) (f x)) \<and>
     (\<forall>x y b. block_at w x = Some b \<longrightarrow> block_at w y = Some b \<longrightarrow> x = y) \<and>
     (\<forall>b. blocks w b \<noteq> None \<longrightarrow> (\<exists>x. block_at w x = Some b) \<and> b < fresh w)"

lemma holdsD:
  assumes "holds tr w f"
  shows "f x = Some vs \<Longrightarrow> \<exists>d. arrays w x = Some d \<and> array_ok tr w d vs" "f x = None \<Longrightarrow> arrays w x = None"
    "arrays w x = Some d \<Longrightarrow> \<exists>vs. f x = Some vs \<and> array_ok tr w d vs" "rel_option (array_ok tr w) (arrays w x) (f x)"
    "block_at w x = Some b \<Longrightarrow> block_at w y = Some b \<Longrightarrow> x = y"
    "blocks w b \<noteq> None \<Longrightarrow> \<exists>x. block_at w x = Some b" "blocks w b \<noteq> None \<Longrightarrow> b < fresh w"
proof -
  show r: "rel_option (array_ok tr w) (arrays w x) (f x)" for x using assms by (simp add: holds_def)
  show "f x = Some vs \<Longrightarrow> \<exists>d. arrays w x = Some d \<and> array_ok tr w d vs" "f x = None \<Longrightarrow> arrays w x = None"
    "arrays w x = Some d \<Longrightarrow> \<exists>vs. f x = Some vs \<and> array_ok tr w d vs"
    using r [of x] by (auto simp: option_rel_Some1 option_rel_Some2)
qed (use assms in \<open>unfold holds_def, blast+\<close>)

lemma array_ok_block:
  assumes "array_ok tr w d vs"
  shows "block_of d = Some b \<Longrightarrow> blocks w b \<noteq> None"
  using assms by (auto simp: array_ok_def block_of_def has_block_def empty_data_def)

lemma array_ok_cong:
  assumes "\<And>b. block_of d = Some b \<Longrightarrow> blocks w' b = blocks w b"
  shows "array_ok tr w' d vs = array_ok tr w d vs"
  using assms by (auto simp: array_ok_def block_of_def has_block_def)

text \<open>An operation on one array changes at most its old and its new block.\<close>

lemma holds_update:
  assumes h: "holds tr w f" and arr: "arrays w' = (arrays w)(x \<mapsto> d')" "array_ok tr w' d' vs'"
    and own: "\<And>b. block_of d' = Some b \<Longrightarrow> blocks w b = None \<or> block_at w x = Some b"
    and same: "\<And>b. block_of d' \<noteq> Some b \<Longrightarrow> block_at w x \<noteq> Some b \<Longrightarrow> blocks w' b = blocks w b"
    and freed: "\<And>b. block_at w x = Some b \<Longrightarrow> block_of d' \<noteq> Some b \<Longrightarrow> blocks w' b = None"
    and new: "\<And>b. block_of d' = Some b \<Longrightarrow> b < fresh w'" "fresh w \<le> fresh w'"
  shows "holds tr w' (f(x \<mapsto> vs'))"
proof -
  have other: "array_ok tr w' d vs \<and> block_of d' \<noteq> Some b" if "arrays w y = Some d" "array_ok tr w d vs" "y \<noteq> x" "block_of d = Some b" for y d vs b
  proof -
    have b: "block_at w y = Some b" "blocks w b \<noteq> None"
      using that array_ok_block [OF that(2)] by (auto simp: block_at_def)
    then have "block_at w x \<noteq> Some b" using holdsD(5) [OF h, of x b y] that(3) by blast
    then have "block_of d' \<noteq> Some b" "blocks w' b = blocks w b" using own [of b] same [of b] b(2) by blast+
    with that(2,4) show ?thesis using array_ok_cong [of d w' w] by auto
  qed
  have none: "array_ok tr w' d vs" if "array_ok tr w d vs" "block_of d = None" for d vs
    using that array_ok_cong [of d w' w] by auto
  have bl: "block_at w' y = (if y = x then block_of d' else block_at w y)" for y
    using arr(1) by (simp add: block_at_def)
  have "array_ok tr w' d vs" if "arrays w y = Some d" "array_ok tr w d vs" "y \<noteq> x" for y d vs
    using other [OF that] none [OF that(2)] by (cases "block_of d") auto
  then have "rel_option (array_ok tr w') (arrays w' y) ((f(x \<mapsto> vs')) y)" for y
    using arr holdsD(4) [OF h, of y] by (cases "arrays w y"; cases "f y"; cases "y = x") auto
  moreover have "y = z" if "block_at w' y = Some b" "block_at w' z = Some b" for y z b
  proof -
    have "False" if b: "block_of d' = Some b" "block_at w u = Some b" "u \<noteq> x" for u
    proof -
      from b(2) obtain d where d: "arrays w u = Some d" "block_of d = Some b" by (auto simp: block_at_def split: option.splits)
      with holdsD(3) [OF h] obtain vs where "array_ok tr w d vs" by blast
      from other [OF d(1) this b(3) d(2)] b(1) show False by simp
    qed
    with that show ?thesis using holdsD(5) [OF h] unfolding bl by (auto split: if_splits)
  qed
  moreover have "(\<exists>y. block_at w' y = Some b) \<and> b < fresh w'" if "blocks w' b \<noteq> None" for b
  proof (cases "block_of d' = Some b")
    case True
    then show ?thesis using new(1) bl [of x] by auto
  next
    case False
    with freed [of b] that have x: "block_at w x \<noteq> Some b" by auto
    have b: "blocks w b \<noteq> None" using same [OF False x] that by simp
    obtain y where y: "block_at w y = Some b" using holdsD(6) [OF h b] by blast
    then have "block_at w' y = Some b" using x bl by (cases "y = x") simp_all
    moreover have "b < fresh w'" using holdsD(7) [OF h b] new(2) by simp
    ultimately show ?thesis by blast
  qed
  ultimately show ?thesis unfolding holds_def by blast
qed

lemma holds_remove:
  assumes h: "holds tr w f" and arr: "arrays w' = (arrays w)(x := None)"
    and blk: "\<And>b. blocks w' b = (if block_at w x = Some b then None else blocks w b)" and "fresh w' = fresh w"
  shows "holds tr w' (f(x := None))"
proof -
  have other: "array_ok tr w' d vs" if "arrays w y = Some d" "array_ok tr w d vs" "y \<noteq> x" for y d vs
  proof -
    have "blocks w' b = blocks w b" if "block_of d = Some b" for b
      using that \<open>arrays w y = Some d\<close> \<open>y \<noteq> x\<close> holdsD(5) [OF h, of x b y] blk by (auto simp: block_at_def)
    then show ?thesis using that(2) array_ok_cong [of d w' w] by blast
  qed
  have bl: "block_at w' y = (if y = x then None else block_at w y)" for y
    using arr by (simp add: block_at_def)
  have "rel_option (array_ok tr w') (arrays w' y) ((f(x := None)) y)" for y
    using arr other holdsD(4) [OF h, of y] by (cases "arrays w y"; cases "f y"; cases "y = x") auto
  moreover have "\<exists>y. block_at w' y = Some b" "b < fresh w'" if "blocks w' b \<noteq> None" for b
    using that holdsD(6,7) [OF h, of b] bl blk assms(4) by (metis)+
  moreover have "y = z" if "block_at w' y = Some b" "block_at w' z = Some b" for y z b
    using that holdsD(5) [OF h] unfolding bl by (auto split: if_splits)
  ultimately show ?thesis unfolding holds_def by blast
qed

lemma array_ok_ticks [simp]: "array_ok tr (w\<lparr>ticks := t\<rparr>) = array_ok tr w" "array_ok tr (tick w) = array_ok tr w"
  by (simp_all add: array_ok_def has_block_def tick_def fun_eq_iff)

lemma holds_ticks [simp]: "holds tr (w\<lparr>ticks := t\<rparr>) f = holds tr w f" "holds tr (tick w) f = holds tr w f"
  by (simp_all add: holds_def block_at_def)

lemma holds_same:
  assumes "holds tr w f" "arrays w' = arrays w" "blocks w' = blocks w" "fresh w \<le> fresh w'"
  shows "holds tr w' f"
proof -
  have "array_ok tr w' = array_ok tr w" using assms(3) by (simp add: array_ok_def has_block_def fun_eq_iff)
  with assms show ?thesis by (auto simp: holds_def block_at_def)
qed

lemma array_ok_cases:
  assumes "array_ok tr w d vs"
  obtains (Empty) "storage d = empty_data" "vs = []"
  | (Block) b k a where "storage d = \<lparr>start = Ptr b 0, finish = Ptr b (length vs), end_of_storage = Ptr b (length vs + k)\<rparr>"
      "0 < length vs + k" "has_block w b a (map Obj vs @ replicate k Raw)" "length vs + k \<le> max_size tr" "alloc_equal tr (allocator_of d) a" "block_of d = Some b"
  using assms unfolding array_ok_def by (auto simp: block_of_def)

lemma this_simps [simp]:
  "arrays w x = Some d \<Longrightarrow> this x f w = f d w"
  "put_array x d w = Some (Inr (), w\<lparr>arrays := (arrays w)(x \<mapsto> d)\<rparr>)"
  "drop_array x w = Some (Inr (), w\<lparr>arrays := (arrays w)(x := None)\<rparr>)"
  "arrays w x = Some d \<Longrightarrow> set_storage x g w = Some (Inr (), w\<lparr>arrays := (arrays w)(x \<mapsto> d\<lparr>storage := g (storage d)\<rparr>)\<rparr>)"
  by (simp_all add: this_def put_array_def drop_array_def set_storage_def)

lemma empty_data_simps [simp]: "start empty_data = Null" "finish empty_data = Null" "end_of_storage empty_data = Null"
  by (simp_all add: empty_data_def)

definition no_room :: "traits \<Rightarrow> nat \<Rightarrow> 'a world \<Rightarrow> bool" where
  "no_room tr n w \<longleftrightarrow> max_size tr < n \<or> alloc_fails tr (ticks w)"

lemma allocate_cases:
  assumes "0 < n"
  shows "allocate tr n a w =
    (if no_room tr n w then Some (Inl Bad_Alloc, tick w)
     else Some (Inr (Ptr (fresh w) 0), tick (put_block (fresh w) a (replicate n Raw) (w\<lparr>fresh := Suc (fresh w)\<rparr>))))"
  using assms by (simp add: allocate_def put_block_def Let_def no_room_def)

lemma deallocate_raw:
  "deallocate tr Null n a w = Some (Inr (), w)"
  "has_block w b a' (replicate n Raw) \<Longrightarrow> alloc_equal tr a a' \<Longrightarrow>
   deallocate tr (Ptr b 0) n a w = Some (Inr (), w\<lparr>blocks := (blocks w)(b := None)\<rparr>)"
  by (simp_all add: deallocate_def has_block_def)

lemma fresh_none: "holds tr w f \<Longrightarrow> blocks w (fresh w) = None"
  using holdsD(7) [of tr w f "fresh w"] by (cases "blocks w (fresh w)") auto

section \<open>Construction and destruction\<close>

text \<open>A constructor's body made \<open>us\<close> in a new block, or failed.\<close>

lemma built_ok:
  assumes "holds tr w f" "arrays w' = (arrays w)(x \<mapsto> d)" "f x = None" "0 < length us + k" "length us + k \<le> max_size tr"
    and "storage d = \<lparr>start = Ptr (fresh w) 0, finish = Ptr (fresh w) (length us), end_of_storage = Ptr (fresh w) (length us + k)\<rparr>"
    and "blocks w' = (blocks w)(fresh w \<mapsto> \<lparr>cells = map Obj us @ replicate k Raw, allocated_by = a\<rparr>)"
    and "fresh w < fresh w'" "alloc_equal tr (allocator_of d) a"
  shows "holds tr w' (f(x \<mapsto> us))"
proof (rule holds_update [OF assms(1,2)])
  have b: "block_of d = Some (fresh w)" using assms(6) by (simp add: block_of_def)
  have x: "block_at w x = None" using holdsD(2) [OF assms(1,3)] by (simp add: block_at_def)
  show "array_ok tr w' d us"
    using assms(4-6,9) unfolding array_ok_def
    by (intro disjI2 exI [of _ "fresh w"] exI [of _ k] exI [of _ a]) (simp add: assms(7) has_block_def)
  show "blocks w c = None \<or> block_at w x = Some c" if "block_of d = Some c" for c
    using that b fresh_none [OF assms(1)] by simp
  show "blocks w' c = blocks w c" if "block_of d \<noteq> Some c" "block_at w x \<noteq> Some c" for c
    using that b assms(7) by simp
  show "blocks w' c = None" if "block_at w x = Some c" "block_of d \<noteq> Some c" for c
    using that x by simp
  show "c < fresh w'" if "block_of d = Some c" for c using that b assms(8) by simp
  show "fresh w \<le> fresh w'" using assms(8) by simp
qed

lemma empty_ok:
  assumes "holds tr w f" "arrays w' = (arrays w)(x \<mapsto> d)" "f x = None" "storage d = empty_data" "blocks w' = blocks w"
    and "fresh w \<le> fresh w'"
  shows "holds tr w' (f(x \<mapsto> []))"
proof (rule holds_update [OF assms(1,2)])
  have x: "block_at w x = None" "block_of d = None"
    using holdsD(2) [OF assms(1,3)] assms(4) by (simp_all add: block_at_def block_of_def)
  show "array_ok tr w' d []" using assms(4) by (simp add: array_ok_def)
qed (use assms(4-6) holdsD(2) [OF assms(1,3)] in \<open>simp_all add: block_of_def block_at_def\<close>)

lemma base_destroy_raw:
  "arrays w x = Some d \<Longrightarrow> start (storage d) = Null \<Longrightarrow> end_of_storage (storage d) = Null \<Longrightarrow>
   base_destroy tr x w = Some (Inr (), w\<lparr>arrays := (arrays w)(x := None)\<rparr>)"
  "arrays w x = Some d \<Longrightarrow> start (storage d) = Ptr b 0 \<Longrightarrow> end_of_storage (storage d) = Ptr b n \<Longrightarrow>
   has_block w b a (replicate n Raw) \<Longrightarrow> alloc_equal tr (allocator_of d) a \<Longrightarrow>
   base_destroy tr x w = Some (Inr (), w\<lparr>arrays := (arrays w)(x := None), blocks := (blocks w)(b := None)\<rparr>)"
  by (simp_all add: base_destroy_def deallocate_raw)

lemma alloc_equal_refl [simp]: "alloc_equal tr a a"
  by (simp add: alloc_equal_def)

text \<open>
  An operation runs without undefined behaviour, and does what \<open>f'\<close> says or throws and leaves all arrays as they
  were (the strong exception guarantee).
\<close>

definition yields ::
    "traits \<Rightarrow> ('a, unit) prog \<Rightarrow> 'a world \<Rightarrow> (name \<rightharpoonup> 'a option list) \<Rightarrow> (name \<rightharpoonup> 'a option list) \<Rightarrow> bool" where
  "yields tr p w f f' \<longleftrightarrow>
     (\<exists>r w'. p w = Some (r, w') \<and>
       (case r of Inr _ \<Rightarrow> holds tr w' f' | Inl e \<Rightarrow> holds tr w' f \<and> (e = Element_Throws \<longrightarrow> (\<exists>t. element_fails tr t))))"

lemma yieldsI:
  "p w = Some (Inr (), w') \<Longrightarrow> holds tr w' f' \<Longrightarrow> yields tr p w f f'"
  "p w = Some (Inl e, w') \<Longrightarrow> holds tr w' f \<Longrightarrow> (e = Element_Throws \<Longrightarrow> \<exists>t. element_fails tr t) \<Longrightarrow> yields tr p w f f'"
  by (auto simp: yields_def)

lemma yieldsE:
  assumes "yields tr p w f f'"
  obtains (Done) w' where "p w = Some (Inr (), w')" "holds tr w' f'"
  | (Thrown) e w' where "p w = Some (Inl e, w')" "holds tr w' f"
  using assms unfolding yields_def
proof (elim exE conjE)
  fix r w' assume "p w = Some (r, w')"
    and "case r of Inr _ \<Rightarrow> holds tr w' f' | Inl e \<Rightarrow> holds tr w' f \<and> (e = Element_Throws \<longrightarrow> (\<exists>t. element_fails tr t))"
  then show thesis using that by (cases r) simp_all
qed

lemma array_new_ok:
  assumes "holds tr w f" "f x = None"
  shows "yields tr (array_new x a) w f (f(x \<mapsto> []))"
proof -
  let ?d = "\<lparr>allocator_of = a, storage = empty_data\<rparr>"
  have "holds tr (w\<lparr>arrays := (arrays w)(x \<mapsto> ?d)\<rparr>) (f(x \<mapsto> []))"
    by (rule empty_ok [OF assms(1) _ assms(2), where d = ?d]) simp_all
  then show ?thesis by (intro yieldsI(1)) (simp_all add: array_new_def base_new_def)
qed

text \<open>A constructor's body threw after it had cleaned the new block.\<close>

lemma body_fails:
  assumes "holds tr w f" "f x = None" "arrays w' = (arrays w)(x \<mapsto> d)"
    and "blocks w' = (blocks w)(fresh w \<mapsto> \<lparr>cells = replicate n Raw, allocated_by = a\<rparr>)" "fresh w \<le> fresh w'"
    and "start (storage d) = Ptr (fresh w) 0" "end_of_storage (storage d) = Ptr (fresh w) n" "alloc_equal tr (allocator_of d) a"
  shows "\<exists>w''. base_destroy tr x w' = Some (Inr (), w'') \<and> holds tr w'' f"
proof -
  let ?w = "w'\<lparr>arrays := (arrays w')(x := None), blocks := (blocks w')(fresh w := None)\<rparr>"
  have "base_destroy tr x w' = Some (Inr (), ?w)"
    using assms(3-8) by (intro base_destroy_raw(2)) (simp_all add: has_block_def)
  moreover have "holds tr ?w f"
    using assms(3-5) holdsD(2) [OF assms(1,2)] fresh_none [OF assms(1)]
    by (intro holds_same [OF assms(1)]) (auto simp: fun_upd_idem)
  ultimately show ?thesis by blast
qed

lemma array_fill_ok:
  assumes h: "holds tr w f" "f x = None"
  shows "yields tr (array_fill tr x n v a) w f (f(x \<mapsto> replicate n (Some v)))"
proof (cases "n = 0")
  case True
  let ?w = "w\<lparr>arrays := (arrays w)(x \<mapsto> \<lparr>allocator_of = a, storage = empty_data\<rparr>)\<rparr>"
  have "array_fill tr x n v a w = Some (Inr (), ?w)"
    using True
    by (simp add: array_fill_def base_new_n_def allocate_def bnd_def on_throw_def uninitialized_fill_n_def return_def empty_data_def)
  with True show ?thesis by (intro yieldsI(1)) (auto intro: empty_ok [OF h(1) _ h(2)])
next
  case False
  let ?b = "fresh w"
  let ?d = "\<lparr>allocator_of = a, storage = \<lparr>start = Ptr ?b 0, finish = Ptr ?b 0, end_of_storage = Ptr ?b n\<rparr>\<rparr>"
  let ?w0 = "tick (put_block ?b a (replicate n Raw) (w\<lparr>fresh := Suc ?b\<rparr>))"
  let ?w1 = "?w0\<lparr>arrays := (arrays w)(x \<mapsto> ?d)\<rparr>"
  show ?thesis
  proof (cases "no_room tr n w")
    case True
    then have "array_fill tr x n v a w = Some (Inl Bad_Alloc, tick w)"
      using False by (simp add: array_fill_def base_new_n_def allocate_cases)
    then show ?thesis by (rule yieldsI(2)) (use h in simp_all)
  next
    case ok: False
    have base: "base_new_n tr x n a w = Some (Inr (), ?w1)"
      using False ok by (simp add: base_new_n_def allocate_cases)
    have "has_block ?w1 ?b a (map Obj [] @ replicate (length (replicate n v)) Raw @ [])"
      by (simp add: has_block_def put_block_def)
    from construct_values [OF this, of 0 tr] obtain t where c:
      "construct_all tr (Ptr ?b 0) 0 (map Value (replicate n v)) ?w1 =
         Some (Inr (Ptr ?b n), put_block ?b a (map Obj (replicate n (Some v))) (?w1\<lparr>ticks := t\<rparr>)) \<or>
       (\<exists>t'. element_fails tr t') \<and>
       construct_all tr (Ptr ?b 0) 0 (map Value (replicate n v)) ?w1 =
         Some (Inl Element_Throws, put_block ?b a (replicate n Raw) (?w1\<lparr>ticks := t\<rparr>))" (is "?ok \<or> ?thrown") by auto
    from c show ?thesis
    proof
      assume ?ok
      let ?d' = "?d\<lparr>storage := (storage ?d)\<lparr>finish := Ptr ?b n\<rparr>\<rparr>"
      let ?w2 = "(put_block ?b a (map Obj (replicate n (Some v))) (?w1\<lparr>ticks := t\<rparr>))\<lparr>arrays := (arrays ?w1)(x \<mapsto> ?d')\<rparr>"
      have "array_fill tr x n v a w = Some (Inr (), ?w2)"
        using base \<open>?ok\<close> by (simp add: array_fill_def uninitialized_fill_n_def bnd_def on_throw_def return_def)
      moreover have "holds tr ?w2 (f(x \<mapsto> replicate n (Some v)))"
        using False ok by (intro built_ok [OF h(1) _ h(2), where k = 0 and d = ?d' and a = a]) (simp_all add: put_block_def no_room_def)
      ultimately show ?thesis by (rule yieldsI(1))
    next
      assume thrown: ?thrown
      let ?w2 = "put_block ?b a (replicate n Raw) (?w1\<lparr>ticks := t\<rparr>)"
      obtain w'' where w'': "base_destroy tr x ?w2 = Some (Inr (), w'')" "holds tr w'' f"
        using body_fails [OF h(1,2), of ?w2 ?d n a] by (auto simp: put_block_def)
      have "array_fill tr x n v a w = Some (Inl Element_Throws, w'')"
        using base thrown w''(1) by (simp add: array_fill_def uninitialized_fill_n_def bnd_def on_throw_def)
      then show ?thesis using w''(2) thrown by (intro yieldsI(2)) simp_all
    qed
  qed
qed

lemma array_list_ok:
  assumes h: "holds tr w f" "f x = None"
  shows "yields tr (array_list tr x vs a) w f (f(x \<mapsto> map Some vs))"
proof (cases "vs = []")
  case True
  let ?w = "w\<lparr>arrays := (arrays w)(x \<mapsto> \<lparr>allocator_of = a, storage = empty_data\<rparr>)\<rparr>"
  have "array_list tr x vs a w = Some (Inr (), ?w)"
    using True by (simp add: array_list_def base_new_def allocate_def bnd_def on_throw_def return_def empty_data_def)
  with True show ?thesis by (intro yieldsI(1)) (auto intro: empty_ok [OF h(1) _ h(2)])
next
  case False
  then have len: "0 < length vs" by simp
  let ?b = "fresh w" and ?n = "length vs"
  let ?empty = "\<lparr>allocator_of = a, storage = empty_data\<rparr>"
  let ?d = "\<lparr>allocator_of = a, storage = \<lparr>start = Ptr ?b 0, finish = Null, end_of_storage = Ptr ?b ?n\<rparr>\<rparr>"
  define w0 where "w0 = w\<lparr>arrays := (arrays w)(x \<mapsto> ?empty)\<rparr>"
  have w0: "arrays w0 x = Some ?empty" "fresh w0 = fresh w" "ticks w0 = ticks w" by (simp_all add: w0_def)
  have no: "no_room tr ?n w0 = no_room tr ?n w" by (simp add: no_room_def w0)
  have base: "base_new x a w = Some (Inr (), w0)" by (simp add: base_new_def w0_def)
  show ?thesis
  proof (cases "no_room tr ?n w")
    case True
    then have "allocate tr ?n a w0 = Some (Inl Bad_Alloc, tick w0)" using allocate_cases [OF len, of tr a w0] w0 no by simp
    moreover have "base_destroy tr x (tick w0) = Some (Inr (), (tick w0)\<lparr>arrays := (arrays (tick w0))(x := None)\<rparr>)"
      using w0 by (intro base_destroy_raw(1) [where d = ?empty]) simp_all
    ultimately have "array_list tr x vs a w = Some (Inl Bad_Alloc, (tick w0)\<lparr>arrays := (arrays (tick w0))(x := None)\<rparr>)"
      using base by (simp add: array_list_def bnd_def on_throw_def)
    moreover have "holds tr ((tick w0)\<lparr>arrays := (arrays (tick w0))(x := None)\<rparr>) f"
      using holdsD(2) [OF h] by (intro holds_same [OF h(1)]) (auto simp: w0_def fun_upd_idem)
    ultimately show ?thesis by (rule yieldsI(2)) simp
  next
    case ok: False
    define w1 where "w1 = tick (put_block ?b a (replicate ?n Raw) (w0\<lparr>fresh := Suc ?b\<rparr>))"
    have alloc: "allocate tr ?n a w0 = Some (Inr (Ptr ?b 0), w1)"
      using ok allocate_cases [OF len, of tr a w0] w0 no by (simp add: w1_def)
    define w2 where "w2 = w1\<lparr>arrays := (arrays w)(x \<mapsto> ?d)\<rparr>"
    have "arrays w1 = (arrays w)(x \<mapsto> ?empty)" by (simp add: w1_def w0_def)
    then have set: "set_storage x (\<lambda>s. s\<lparr>start := Ptr ?b 0, end_of_storage := advance (Ptr ?b 0) ?n\<rparr>) w1 = Some (Inr (), w2)"
      by (simp add: w2_def empty_data_def)
    have w2: "arrays w2 = (arrays w)(x \<mapsto> ?d)" "blocks w2 = (blocks w)(?b \<mapsto> \<lparr>cells = replicate ?n Raw, allocated_by = a\<rparr>)"
      "fresh w2 = Suc ?b"
      by (simp_all add: w2_def w1_def w0_def put_block_def)
    then have "has_block w2 ?b a (map Obj [] @ replicate ?n Raw @ [])" by (simp add: has_block_def)
    from construct_values [OF this, of 0 tr] obtain t where c:
      "construct_all tr (Ptr ?b 0) 0 (map Value vs) w2 =
         Some (Inr (Ptr ?b ?n), put_block ?b a (map Obj (map Some vs)) (w2\<lparr>ticks := t\<rparr>)) \<or>
       (\<exists>t'. element_fails tr t') \<and>
       construct_all tr (Ptr ?b 0) 0 (map Value vs) w2 =
         Some (Inl Element_Throws, put_block ?b a (replicate ?n Raw) (w2\<lparr>ticks := t\<rparr>))" (is "?ok \<or> ?thrown") by auto
    from c show ?thesis
    proof
      assume ?ok
      let ?d' = "?d\<lparr>storage := (storage ?d)\<lparr>finish := Ptr ?b ?n\<rparr>\<rparr>"
      define w3 where "w3 = put_block ?b a (map Obj (map Some vs)) (w2\<lparr>ticks := t\<rparr>)"
      have "set_storage x (\<lambda>s. s\<lparr>finish := Ptr ?b ?n\<rparr>) w3 = Some (Inr (), w3\<lparr>arrays := (arrays w)(x \<mapsto> ?d')\<rparr>)"
        using w2(1) by (simp add: w3_def)
      moreover have "construct_all tr (Ptr ?b 0) 0 (map Value vs) w2 = Some (Inr (Ptr ?b ?n), w3)"
        using \<open>?ok\<close> by (simp only: w3_def)
      ultimately have "array_list tr x vs a w = Some (Inr (), w3\<lparr>arrays := (arrays w)(x \<mapsto> ?d')\<rparr>)"
        using base alloc set by (simp add: array_list_def bnd_def on_throw_def)
      moreover have "holds tr (w3\<lparr>arrays := (arrays w)(x \<mapsto> ?d')\<rparr>) (f(x \<mapsto> map Some vs))"
        using False ok w2
        by (intro built_ok [OF h(1) _ h(2), where k = 0 and d = ?d' and a = a]) (simp_all add: put_block_def w3_def no_room_def)
      ultimately show ?thesis by (rule yieldsI(1))
    next
      assume thrown: ?thrown
      let ?w3 = "put_block ?b a (replicate ?n Raw) (w2\<lparr>ticks := t\<rparr>)"
      obtain w'' where w'': "base_destroy tr x ?w3 = Some (Inr (), w'')" "holds tr w'' f"
        using body_fails [OF h(1,2), of ?w3 ?d ?n a] w2 by (auto simp: put_block_def)
      have "array_list tr x vs a w = Some (Inl Element_Throws, w'')"
        using base alloc set thrown w''(1) by (simp add: array_list_def bnd_def on_throw_def)
      then show ?thesis by (rule yieldsI(2)) (use w''(2) thrown in simp_all)
    qed
  qed
qed

lemma array_copy_ok:
  assumes h: "holds tr w f" "f x = None" "f y = Some vs"
  shows "yields tr (array_copy tr x y) w f (f(x \<mapsto> vs))"
proof -
  obtain e where e: "arrays w y = Some e" "array_ok tr w e vs" using holdsD(1) [OF h(1,3)] by blast
  let ?a = "select_on_copy tr (allocator_of e)"
  have none: ?thesis if "vs = []"
  proof -
    let ?w = "w\<lparr>arrays := (arrays w)(x \<mapsto> \<lparr>allocator_of = ?a, storage = empty_data\<rparr>)\<rparr>"
    have "array_copy tr x y w = Some (Inr (), ?w)"
      using e that
      by (auto simp: array_copy_def base_new_n_def allocate_def bnd_def on_throw_def uninitialized_copy_def copies_def return_def
            empty_data_def elim!: array_ok_cases)
    with that show ?thesis by (intro yieldsI(1)) (auto intro: empty_ok [OF h(1) _ h(2)])
  qed
  from e(2) show ?thesis
  proof (cases rule: array_ok_cases)
    case Empty
    then show ?thesis using none by blast
  next
    case (Block c k a)
    let ?b = "fresh w" and ?n = "length vs"
    have bc: "?b \<noteq> c" using Block(3) fresh_none [OF h(1)] by (auto simp: has_block_def)
    show ?thesis
    proof (cases "vs = []")
      case False
      then have len: "0 < ?n" by simp
      let ?d = "\<lparr>allocator_of = ?a, storage = \<lparr>start = Ptr ?b 0, finish = Ptr ?b 0, end_of_storage = Ptr ?b ?n\<rparr>\<rparr>"
      show ?thesis
      proof (cases "no_room tr ?n w")
        case True
        then have "array_copy tr x y w = Some (Inl Bad_Alloc, tick w)"
          using len e(1) Block by (simp add: array_copy_def base_new_n_def allocate_cases)
        then show ?thesis by (rule yieldsI(2)) (use h in simp_all)
      next
        case ok: False
        define w1 where "w1 = (tick (put_block ?b ?a (replicate ?n Raw) (w\<lparr>fresh := Suc ?b\<rparr>)))\<lparr>arrays := (arrays w)(x \<mapsto> ?d)\<rparr>"
        have base: "base_new_n tr x ?n ?a w = Some (Inr (), w1)"
          using len ok by (simp add: base_new_n_def allocate_cases w1_def)
        have w1: "arrays w1 = (arrays w)(x \<mapsto> ?d)" "fresh w1 = Suc ?b"
          "blocks w1 = (blocks w)(?b \<mapsto> \<lparr>cells = replicate ?n Raw, allocated_by = ?a\<rparr>)"
          by (simp_all add: w1_def put_block_def)
        have "has_block w1 ?b ?a (replicate ?n Raw @ [])" "has_block w1 c a (map Obj vs @ replicate k Raw)"
          using Block(3) bc w1 by (simp_all add: has_block_def)
        from construct_copies [OF bc this, of tr] obtain t where c:
          "construct_all tr (Ptr ?b 0) 0 (copies (Ptr c 0) ?n) w1 =
             Some (Inr (Ptr ?b ?n), put_block ?b ?a (map Obj vs) (w1\<lparr>ticks := t\<rparr>)) \<or>
           (\<exists>t'. element_fails tr t') \<and>
           construct_all tr (Ptr ?b 0) 0 (copies (Ptr c 0) ?n) w1 =
             Some (Inl Element_Throws, put_block ?b ?a (replicate ?n Raw) (w1\<lparr>ticks := t\<rparr>))" (is "?ok \<or> ?thrown")
          by auto
        from c show ?thesis
        proof
          assume ?ok
          let ?d' = "?d\<lparr>storage := (storage ?d)\<lparr>finish := Ptr ?b ?n\<rparr>\<rparr>"
          let ?w2 = "(put_block ?b ?a (map Obj vs) (w1\<lparr>ticks := t\<rparr>))\<lparr>arrays := (arrays w)(x \<mapsto> ?d')\<rparr>"
          have "array_copy tr x y w = Some (Inr (), ?w2)"
            using base \<open>?ok\<close> e(1) Block w1(1) by (simp add: array_copy_def uninitialized_copy_def bnd_def on_throw_def)
          moreover have "holds tr ?w2 (f(x \<mapsto> vs))"
            using False ok w1 by (intro built_ok [OF h(1) _ h(2), where k = 0 and d = ?d' and a = ?a]) (simp_all add: put_block_def no_room_def)
          ultimately show ?thesis by (rule yieldsI(1))
        next
          assume thrown: ?thrown
          let ?w2 = "put_block ?b ?a (replicate ?n Raw) (w1\<lparr>ticks := t\<rparr>)"
          obtain w'' where w'': "base_destroy tr x ?w2 = Some (Inr (), w'')" "holds tr w'' f"
            using body_fails [OF h(1,2), of ?w2 ?d ?n ?a] w1 by (auto simp: put_block_def)
          have "array_copy tr x y w = Some (Inl Element_Throws, w'')"
            using base thrown w''(1) e(1) Block w1(1) by (simp add: array_copy_def uninitialized_copy_def bnd_def on_throw_def)
          then show ?thesis by (rule yieldsI(2)) (use w''(2) thrown in simp_all)
        qed
      qed
    qed (use none in blast)
  qed
qed

lemma array_destroy_ok:
  assumes "holds tr w f" "f x = Some vs"
  shows "\<exists>w'. array_destroy tr x w = Some (Inr (), w') \<and> holds tr w' (f(x := None))"
proof -
  obtain d where d: "arrays w x = Some d" "array_ok tr w d vs" using holdsD(1) [OF assms] by blast
  from d(2) show ?thesis
  proof (cases rule: array_ok_cases)
    case Empty
    let ?w = "w\<lparr>arrays := (arrays w)(x := None)\<rparr>"
    have "block_at w x = None" using d(1) Empty by (simp add: block_at_def block_of_def)
    then have "holds tr ?w (f(x := None))" by (intro holds_remove [OF assms(1)]) simp_all
    moreover have "array_destroy tr x w = Some (Inr (), ?w)"
      using d(1) Empty by (simp add: array_destroy_def destroy_def base_destroy_raw return_def)
    ultimately show ?thesis by blast
  next
    case (Block b k a)
    let ?w1 = "put_block b a (replicate (length vs + k) Raw) w"
    let ?w = "?w1\<lparr>arrays := (arrays w)(x := None), blocks := (blocks ?w1)(b := None)\<rparr>"
    have "destroy_n (Ptr b 0) (length vs) w = Some (Inr (), ?w1)"
      using destroy_n_block [of w b a "[]" vs "replicate k Raw" 0 "length vs"] Block(3)
      by (simp add: replicate_add)
    then have "array_destroy tr x w = Some (Inr (), ?w)"
      using d(1) Block base_destroy_raw(2) [of ?w1 x d b "length vs + k" a tr] by (simp add: array_destroy_def destroy_def)
    moreover have "holds tr ?w (f(x := None))"
      using d(1) Block(6) by (intro holds_remove [OF assms(1)]) (auto simp: block_at_def put_block_def)
    ultimately show ?thesis by blast
  qed
qed

lemma array_clear_ok:
  assumes "holds tr w f" "f x = Some vs"
  shows "\<exists>w'. array_clear x w = Some (Inr (), w') \<and> holds tr w' (f(x \<mapsto> [])) \<and> arrays w' x \<noteq> None"
proof -
  obtain d where d: "arrays w x = Some d" "array_ok tr w d vs" using holdsD(1) [OF assms] by blast
  from d(2) show ?thesis
  proof (cases rule: array_ok_cases)
    case Empty
    then have "array_clear x w = Some (Inr (), w)"
      using d(1) by (simp add: array_clear_def destroy_def return_def empty_data_def fun_upd_idem)
    then show ?thesis using assms d(1) Empty by (auto simp: fun_upd_idem)
  next
    case (Block b k a)
    let ?w1 = "put_block b a (replicate (length vs + k) Raw) w"
    let ?d = "d\<lparr>storage := \<lparr>start = Ptr b 0, finish = Ptr b 0, end_of_storage = Ptr b (length vs + k)\<rparr>\<rparr>"
    let ?w = "?w1\<lparr>arrays := (arrays w)(x \<mapsto> ?d)\<rparr>"
    have "destroy_n (Ptr b 0) (length vs) w = Some (Inr (), ?w1)"
      using destroy_n_block [of w b a "[]" vs "replicate k Raw" 0 "length vs"] Block(3)
      by (simp add: replicate_add)
    then have "array_clear x w = Some (Inr (), ?w)"
      using d(1) Block by (simp add: array_clear_def destroy_def)
    moreover have "holds tr ?w (f(x \<mapsto> []))"
    proof (rule holds_update [OF assms(1)])
      show "array_ok tr ?w ?d []"
        using Block unfolding array_ok_def
        by (intro disjI2 exI [of _ b] exI [of _ "length vs + k"] exI [of _ a]) (simp add: put_block_def has_block_def)
      have x: "block_at w x = Some b" using d(1) Block(6) by (simp add: block_at_def)
      then show "blocks w c = None \<or> block_at w x = Some c" if "block_of ?d = Some c" for c
        using that by (simp add: block_of_def)
      show "blocks ?w c = blocks w c" if "block_of ?d \<noteq> Some c" for c
        using that by (simp add: block_of_def put_block_def)
      show "blocks ?w c = None" if "block_at w x = Some c" "block_of ?d \<noteq> Some c" for c
        using that x by (simp add: block_of_def)
      show "c < fresh ?w" if "block_of ?d = Some c" for c
        using that holdsD(7) [OF assms(1), of b] Block(3) by (simp add: block_of_def has_block_def)
    qed simp_all
    ultimately show ?thesis by auto
  qed
qed

lemma array_move_ok:
  assumes h: "holds tr w f" "f x = None" "f y = Some vs"
  shows "yields tr (base_move x y) w f (f(x \<mapsto> vs, y \<mapsto> []))"
proof -
  obtain e where e: "arrays w y = Some e" "array_ok tr w e vs" using holdsD(1) [OF h(1,3)] by blast
  have xy: "x \<noteq> y" using h by auto
  let ?w = "w\<lparr>arrays := (arrays w)(y \<mapsto> e\<lparr>storage := empty_data\<rparr>, x \<mapsto> e)\<rparr>"
  have ok: "array_ok tr ?w = array_ok tr w" by (simp add: array_ok_def has_block_def fun_eq_iff)
  have bl: "block_at ?w z = (if z = x then block_at w y else if z = y then None else block_at w z)" for z
    using e(1) by (simp add: block_at_def block_of_def)
  have x: "block_at w x = None" using holdsD(2) [OF h(1,2)] by (simp add: block_at_def)
  have "rel_option (array_ok tr ?w) (arrays ?w z) ((f(x \<mapsto> vs, y \<mapsto> [])) z)" for z
    using holdsD(4) [OF h(1), of z] xy e(2) unfolding ok by (auto simp: array_ok_def)
  moreover have "z = z'" if "block_at ?w z = Some b" "block_at ?w z' = Some b" for z z' b
    using that holdsD(5) [OF h(1)] unfolding bl by (auto split: if_splits)
  moreover have "(\<exists>z. block_at ?w z = Some b) \<and> b < fresh ?w" if "blocks ?w b \<noteq> None" for b
  proof -
    have "blocks w b \<noteq> None" using that by simp
    from holdsD(6,7) [OF h(1) this] obtain z where z: "block_at w z = Some b" "b < fresh w" by blast
    then have "block_at ?w (if z = y then x else z) = Some b" using x unfolding bl by auto
    with z(2) show ?thesis by auto
  qed
  ultimately have "holds tr ?w (f(x \<mapsto> vs, y \<mapsto> []))" unfolding holds_def by blast
  moreover have "base_move x y w = Some (Inr (), ?w)"
    using e(1) by (simp add: base_move_def)
  ultimately show ?thesis by (intro yieldsI(1))
qed

section \<open>Growing\<close>

text \<open>Destroying the elements of an array's block and freeing the block.\<close>

definition release :: "traits \<Rightarrow> dynamic_array \<Rightarrow> nat \<Rightarrow> ('a, unit) prog" where
  "release tr d cap =
     bnd (destroy (start (storage d)) (finish (storage d))) (\<lambda>_. deallocate tr (start (storage d)) cap (allocator_of d))"

lemma release_ok:
  assumes "array_ok tr w d us" "distance (start (storage d)) (end_of_storage (storage d)) = Some cap"
  shows "\<exists>w'. release tr d cap w = Some (Inr (), w') \<and> arrays w' = arrays w \<and> fresh w' = fresh w \<and>
    (\<forall>b. blocks w' b = (if block_of d = Some b then None else blocks w b))"
  using assms(1)
proof (cases rule: array_ok_cases)
  case Empty
  then show ?thesis
    by (intro exI [of _ w]) (simp add: release_def destroy_def deallocate_raw(1) block_of_def return_def)
next
  case (Block b k a)
  let ?w1 = "put_block b a (replicate (length us + k) Raw) w"
  have cap: "cap = length us + k" using Block(1) assms(2) by simp
  have "destroy_n (Ptr b 0) (length us) w = Some (Inr (), ?w1)"
    using destroy_n_block [of w b a "[]" us "replicate k Raw" 0 "length us"] Block(3) by (simp add: replicate_add)
  moreover have "deallocate tr (Ptr b 0) cap (allocator_of d) ?w1 = Some (Inr (), ?w1\<lparr>blocks := (blocks ?w1)(b := None)\<rparr>)"
    using Block cap by (intro deallocate_raw(2)) auto
  ultimately have "release tr d cap w = Some (Inr (), ?w1\<lparr>blocks := (blocks ?w1)(b := None)\<rparr>)"
    using Block by (simp add: release_def destroy_def)
  then show ?thesis using Block(6) by (auto simp: put_block_def)
qed

lemma copies_not_movings: "copies p \<noteq> movings p"
proof
  assume "copies p = movings p"
  from fun_cong [OF this, of 1] show False by (simp add: copies_def movings_def)
qed

text \<open>Moving (or copying) an array's elements into another block.\<close>

lemma relocate_ok:
  assumes "array_ok tr w d us" "has_block w nb a (replicate (length us) Raw @ zs)" "block_of d \<noteq> Some nb"
    and "elements = copies (start (storage d)) \<or> elements = movings (start (storage d))"
  shows "\<exists>w' r us'. between (start (storage d)) (finish (storage d)) (\<lambda>n. construct_all tr (Ptr nb 0) 0 (elements n)) w = Some (r, w') \<and>
    array_ok tr w' d us' \<and> arrays w' = arrays w \<and> fresh w' = fresh w \<and>
    (elements = copies (start (storage d)) \<longrightarrow> us' = us \<and> (\<forall>b. b \<noteq> nb \<longrightarrow> blocks w' b = blocks w b)) \<and>
    (\<forall>b. block_of d \<noteq> Some b \<longrightarrow> b \<noteq> nb \<longrightarrow> blocks w' b = blocks w b) \<and>
    (case r of
       Inr p \<Rightarrow> p = Ptr nb (length us) \<and> has_block w' nb a (map Obj us @ zs)
     | Inl e \<Rightarrow> e = Element_Throws \<and> (\<exists>t. element_fails tr t) \<and> has_block w' nb a (replicate (length us) Raw @ zs) \<and>
         (elements = movings (start (storage d)) \<longrightarrow> \<not> nothrow_move tr))"
  using assms(1)
proof (cases rule: array_ok_cases)
  case Empty
  then show ?thesis
    using assms(1,2,4) by (intro exI [of _ w] exI [of _ us]) (auto simp: copies_def movings_def return_def)
next
  case (Block c k a')
  have c: "nb \<noteq> c" using assms(3) Block(6) by auto
  have len: "length (us :: 'a option list) \<le> max_size tr" using Block(4) by simp
  have d: "array_ok tr (put_block nb a cs (put_block c a' (map Obj us' @ replicate k Raw) (w\<lparr>ticks := t\<rparr>))) d us'"
    if "length us' = length us" for cs us' t
    using Block that c unfolding array_ok_def
    by (intro disjI2 exI [of _ c] exI [of _ k] exI [of _ a']) (simp add: put_block_def has_block_def)
  show ?thesis
  proof (cases "elements = copies (start (storage d))")
    case True
    have "put_block c a' (map Obj us @ replicate k Raw) (w\<lparr>ticks := t\<rparr>) = w\<lparr>ticks := t\<rparr>" for t
      using Block(3) by (intro put_block_same) (simp add: has_block_def)
    then have d': "array_ok tr (put_block nb a cs (w\<lparr>ticks := t\<rparr>)) d us" for cs t using d [OF refl, of cs t] by simp
    from construct_copies [OF c assms(2) Block(3), of tr] obtain t where
      "construct_all tr (Ptr nb 0) 0 (copies (Ptr c 0) (length us)) w =
         Some (Inr (Ptr nb (length us)), put_block nb a (map Obj us @ zs) (w\<lparr>ticks := t\<rparr>)) \<or>
       (\<exists>t'. element_fails tr t') \<and> construct_all tr (Ptr nb 0) 0 (copies (Ptr c 0) (length us)) w =
         Some (Inl Element_Throws, put_block nb a (replicate (length us) Raw @ zs) (w\<lparr>ticks := t\<rparr>))" by blast
    then show ?thesis
    proof (elim disjE conjE)
      assume "construct_all tr (Ptr nb 0) 0 (copies (Ptr c 0) (length us)) w =
         Some (Inr (Ptr nb (length us)), put_block nb a (map Obj us @ zs) (w\<lparr>ticks := t\<rparr>))"
      then show ?thesis
        using True Block(1,6) d' [of "map Obj us @ zs" t]
        by (intro exI [of _ "put_block nb a (map Obj us @ zs) (w\<lparr>ticks := t\<rparr>)"] exI [of _ "Inr (Ptr nb (length us))"] exI [of _ us])
           (simp add: put_block_def has_block_def)
    next
      assume "\<exists>t'. element_fails tr t'" "construct_all tr (Ptr nb 0) 0 (copies (Ptr c 0) (length us)) w =
         Some (Inl Element_Throws, put_block nb a (replicate (length us) Raw @ zs) (w\<lparr>ticks := t\<rparr>))"
      then show ?thesis
        using True Block(1,6) d' [of "replicate (length us) Raw @ zs" t]
        by (intro exI [of _ "put_block nb a (replicate (length us) Raw @ zs) (w\<lparr>ticks := t\<rparr>)"] exI [of _ "Inl Element_Throws"] exI [of _ us])
           (simp add: put_block_def has_block_def copies_not_movings)
    qed
  next
    case False
    with assms(4) have mv: "elements = movings (Ptr c 0)" using Block(1) by simp
    from construct_movings [OF c assms(2) Block(3), of tr] obtain t us' where us': "length us' = length us" and
      "construct_all tr (Ptr nb 0) 0 (movings (Ptr c 0) (length us)) w =
         Some (Inr (Ptr nb (length us)), put_block nb a (map Obj us @ zs) (put_block c a' (map Obj us' @ replicate k Raw) (w\<lparr>ticks := t\<rparr>))) \<or>
       (\<exists>t'. element_fails tr t') \<and> \<not> nothrow_move tr \<and>
       construct_all tr (Ptr nb 0) 0 (movings (Ptr c 0) (length us)) w =
         Some (Inl Element_Throws, put_block nb a (replicate (length us) Raw @ zs)
           (put_block c a' (map Obj us' @ replicate k Raw) (w\<lparr>ticks := t\<rparr>)))" by blast
    then show ?thesis
    proof (elim disjE conjE)
      let ?w = "put_block nb a (map Obj us @ zs) (put_block c a' (map Obj us' @ replicate k Raw) (w\<lparr>ticks := t\<rparr>))"
      assume "construct_all tr (Ptr nb 0) 0 (movings (Ptr c 0) (length us)) w = Some (Inr (Ptr nb (length us)), ?w)"
      then show ?thesis
        using False mv Block(1,6) d [OF us', of "map Obj us @ zs" t]
        by (intro exI [of _ ?w] exI [of _ "Inr (Ptr nb (length us))"] exI [of _ us']) (simp add: put_block_def has_block_def)
    next
      let ?w = "put_block nb a (replicate (length us) Raw @ zs) (put_block c a' (map Obj us' @ replicate k Raw) (w\<lparr>ticks := t\<rparr>))"
      assume "\<exists>t'. element_fails tr t'" "\<not> nothrow_move tr"
        "construct_all tr (Ptr nb 0) 0 (movings (Ptr c 0) (length us)) w = Some (Inl Element_Throws, ?w)"
      then show ?thesis
        using False mv Block(1,6) d [OF us', of "replicate (length us) Raw @ zs" t]
        by (intro exI [of _ ?w] exI [of _ "Inl Element_Throws"] exI [of _ us']) (simp add: put_block_def has_block_def)
    qed
  qed
qed

text \<open>The array has got a new block, the old one is freed.\<close>

lemma installed_ok:
  assumes h: "holds tr w f" and x: "arrays w x = Some d" and arr: "arrays w' = (arrays w)(x \<mapsto> d')"
    and st: "storage d' = \<lparr>start = Ptr nb 0, finish = Ptr nb (length us), end_of_storage = Ptr nb (length us + k)\<rparr>"
    and sz: "0 < length us + k" "length us + k \<le> max_size tr" "alloc_equal tr (allocator_of d') a"
    and blk: "has_block w' nb a (map Obj us @ replicate k Raw)" "blocks w nb = None"
      "\<And>b. b \<noteq> nb \<Longrightarrow> blocks w' b = (if block_of d = Some b then None else blocks w b)"
    and fresh: "nb < fresh w'" "fresh w \<le> fresh w'"
  shows "holds tr w' (f(x \<mapsto> us))"
proof (rule holds_update [OF h arr])
  have b: "block_of d' = Some nb" using st by (simp add: block_of_def)
  have "block_at w x = block_of d" using x by (simp add: block_at_def)
  then show "blocks w' c = blocks w c" if "block_of d' \<noteq> Some c" "block_at w x \<noteq> Some c" for c
    using that b blk(3) by auto
  show "blocks w' c = None" if "block_at w x = Some c" "block_of d' \<noteq> Some c" for c
    using that b blk(3) \<open>block_at w x = block_of d\<close> by auto
  show "array_ok tr w' d' us"
    using st sz blk(1) unfolding array_ok_def by (intro disjI2 exI [of _ nb] exI [of _ k] exI [of _ a]) simp
  show "blocks w c = None \<or> block_at w x = Some c" if "block_of d' = Some c" for c using that b blk(2) by simp
  show "c < fresh w'" if "block_of d' = Some c" for c using that b fresh(1) by simp
qed (rule fresh(2))

lemma twice_size_ok:
  assumes "n \<le> max_size tr" "max_size tr < 2 ^ 64"
  shows "twice_size tr n = Inl Range_Error \<or> (\<exists>m. twice_size tr n = Inr m \<and> n < m \<and> m \<le> max_size tr)"
proof -
  have "(2 ^ 64 + max_size tr - n) mod 2 ^ 64 = (max_size tr - n) mod 2 ^ 64"
    using assms(1) by (metis Nat.add_diff_assoc mod_add_self1)
  then have room: "(2 ^ 64 + max_size tr - n) mod 2 ^ 64 < 1 \<longleftrightarrow> n = max_size tr" using assms by auto
  have "n + max n 1 < 2 ^ 64 \<or> (n + max n 1) mod 2 ^ 64 < n"
  proof (rule disjCI)
    assume "\<not> (n + max n 1) mod 2 ^ 64 < n"
    moreover have "(n + max n 1) mod 2 ^ 64 = n + max n 1 - 2 ^ 64" if "2 ^ 64 \<le> n + max n 1"
    proof -
      have "n + max n 1 - 2 ^ 64 < 2 ^ 64" using assms by simp
      then show ?thesis using that by (simp add: le_mod_geq)
    qed
    ultimately show "n + max n 1 < 2 ^ 64" using assms by (cases "2 ^ 64 \<le> n + max n 1") auto
  qed
  with room assms show ?thesis unfolding twice_size_def Let_def by auto
qed

lemma moves_src [simp]: "moves (src mv p) = mv"
  by (simp add: src_def)

text \<open>The argument \<open>s\<close> of an insertion has the value \<open>v\<close>; taking it leaves the arrays \<open>f1\<close>.\<close>

definition denotes ::
    "'a world \<Rightarrow> (name \<rightharpoonup> 'a option list) \<Rightarrow> 'a source \<Rightarrow> 'a option \<Rightarrow> (name \<rightharpoonup> 'a option list) \<Rightarrow> bool" where
  "denotes w f s v f1 \<longleftrightarrow>
     (\<exists>u. s = Value u \<and> v = Some u \<and> f1 = f) \<or>
     (\<exists>mv y j d vs. arrays w y = Some d \<and> f y = Some vs \<and> j < length vs \<and> s = src mv (advance (start (storage d)) j) \<and>
        v = vs ! j \<and> f1 = (if mv then f(y \<mapsto> vs[j := None]) else f))"

lemma touch_ok:
  assumes h: "holds tr w f" "arrays w y = Some d" "f y = Some vs" "length us = length vs"
    and "block_of d = Some c" "has_block w c a (map Obj vs @ replicate k Raw)" "storage d =
      \<lparr>start = Ptr c 0, finish = Ptr c (length vs), end_of_storage = Ptr c (length vs + k)\<rparr>"
    and sz: "0 < length vs + k" "length vs + k \<le> max_size tr" "alloc_equal tr (allocator_of d) a"
  shows "holds tr (put_block c a (map Obj us @ replicate k Raw) w) (f(y \<mapsto> us))"
proof (rule holds_update [OF h(1), where d' = d])
  have y: "block_at w y = Some c" using h(2) assms(5) by (simp add: block_at_def)
  show "array_ok tr (put_block c a (map Obj us @ replicate k Raw) w) d us"
    using assms unfolding array_ok_def by (intro disjI2 exI [of _ c] exI [of _ k] exI [of _ a]) simp
  show "b < fresh (put_block c a (map Obj us @ replicate k Raw) w)" if "block_of d = Some b" for b
    using that holdsD(7) [OF h(1), of b] assms(5,6) by (auto simp: has_block_def)
  show "blocks (put_block c a (map Obj us @ replicate k Raw) w) b = blocks w b"
    if "block_of d \<noteq> Some b" "block_at w y \<noteq> Some b" for b
    using that assms(5) by (auto simp: put_block_def)
  show "blocks w b = None \<or> block_at w y = Some b" if "block_of d = Some b" for b using that y assms(5) by simp
  show "blocks (put_block c a (map Obj us @ replicate k Raw) w) b = None" if "block_at w y = Some b" "block_of d \<noteq> Some b" for b
    using that y assms(5) by simp
qed (use h(2) in \<open>simp_all add: fun_upd_idem\<close>)

lemma denotes_take:
  fixes w :: "'a world"
  assumes h: "holds tr w f" "denotes w f s v f1"
  obtains upd :: "'a world \<Rightarrow> 'a world" where
    "\<And>w'. (\<And>b. blocks w b \<noteq> None \<Longrightarrow> blocks w' b = blocks w b) \<Longrightarrow>
      take_source tr s w' = Some (if source_throws tr (moves s) w' then Inl Element_Throws else Inr v, tick (upd w')) \<and>
      (\<forall>b. blocks (upd w') b = (if blocks w b = None then blocks w' b else blocks (upd w) b))"
    "\<And>w'. arrays (upd w') = arrays w' \<and> fresh (upd w') = fresh w' \<and> ticks (upd w') = ticks w'"
    "holds tr (upd w) f1"
proof -
  from h(2) consider (Value) u where "s = Value u" "v = Some u" "f1 = f"
    | (Element) mv y j d vs where "arrays w y = Some d" "f y = Some vs" "j < length vs" "s = src mv (advance (start (storage d)) j)"
        "v = vs ! j" "f1 = (if mv then f(y \<mapsto> vs[j := None]) else f)"
    unfolding denotes_def by blast
  then show ?thesis
  proof cases
    case Value
    then show ?thesis using h(1) by (intro that [of id]) (simp_all add: take_source_outside)
  next
    case Element
    obtain vs' where "f y = Some vs'" "array_ok tr w d vs'" using holdsD(3) [OF h(1) Element(1)] by blast
    then have "array_ok tr w d vs" using Element(2) by simp
    then show ?thesis
    proof (cases rule: array_ok_cases)
      case (Block c k a)
      let ?us = "if mv then vs[j := None] else vs"
      let ?upd = "put_block c a (map Obj ?us @ replicate k Raw)"
      have s: "s = src mv (Ptr c j)" "moves s = mv" using Element(4) Block(1) by (simp_all add: src_def)
      have upd: "?upd w' = (if mv then put_block c a (map Obj (vs[j := None]) @ replicate k Raw) w' else w')"
        if "blocks w' c = blocks w c" for w' :: "'a world"
        using that Block(3) by (auto simp: has_block_def intro!: put_block_same)
      have c: "blocks w c \<noteq> None" using Block(3) by (simp add: has_block_def)
      show ?thesis
      proof (rule that [of ?upd])
        fix w' :: "'a world" assume "\<And>b. blocks w b \<noteq> None \<Longrightarrow> blocks w' b = blocks w b"
        then have w': "blocks w' c = blocks w c" using c by blast
        then have "has_block w' c a (map Obj vs @ replicate k Raw)" using Block(3) by (simp add: has_block_def)
        from take_source_cell [OF this Element(3), of tr mv]
        have "take_source tr s w' = Some (if source_throws tr (moves s) w' then Inl Element_Throws else Inr v, tick (?upd w'))"
          unfolding upd [OF w'] s Element(5) by simp
        moreover have "blocks (?upd w') b = (if blocks w b = None then blocks w' b else blocks (?upd w) b)" for b
          using c \<open>\<And>b. blocks w b \<noteq> None \<Longrightarrow> blocks w' b = blocks w b\<close> by (auto simp: put_block_def)
        ultimately show "take_source tr s w' = Some (if source_throws tr (moves s) w' then Inl Element_Throws else Inr v, tick (?upd w')) \<and>
          (\<forall>b. blocks (?upd w') b = (if blocks w b = None then blocks w' b else blocks (?upd w) b))" by blast
      next
        have "holds tr (?upd w) (f(y \<mapsto> ?us))"
          using Element(1,2) Block by (intro touch_ok [OF h(1), where d = d and vs = vs]) simp_all
        moreover have "f(y \<mapsto> ?us) = f1" using Element(2,6) by (auto simp: fun_upd_idem)
        ultimately show "holds tr (?upd w) f1" by simp
      qed simp
    qed (use Element(3) in simp)
  qed
qed

end
