(* ===== verification/Dynamic_Array_Ops.thy ===== *)
theory Dynamic_Array_Ops
  imports Dynamic_Array_Proofs
begin

text \<open>
  \<open>push_back\<close>, \<open>emplace_back\<close>, \<open>reserve\<close> and assignment of \<open>dynamic_array\<close>, and programs that use arrays.
\<close>

section \<open>Insertion at the end\<close>

definition full :: "dynamic_array \<Rightarrow> bool" where
  "full d \<longleftrightarrow> finish (storage d) = end_of_storage (storage d)"

text \<open>With room behind the last element.\<close>

lemma push_back_room:
  assumes h: "holds tr w f" "denotes w f s v f1" and d: "arrays w x = Some d" "\<not> full d" "f1 x = Some us"
  shows "\<exists>r w'. push_back tr x s w = Some (r, w') \<and>
    (case r of Inr _ \<Rightarrow> holds tr w' (f1(x \<mapsto> us @ [v])) | Inl e \<Rightarrow> e = Element_Throws \<and> source_throws tr (moves s) w \<and> holds tr w' f1)"
proof -
  obtain upd where take: "take_source tr s w = Some (if source_throws tr (moves s) w then Inl Element_Throws else Inr v, tick (upd w))"
    and sel: "arrays (upd w) = arrays w" and h1: "holds tr (upd w) f1"
    using denotes_take [OF h] by (metis (no_types, lifting))
  let ?w1 = "tick (upd w)"
  have "array_ok tr (upd w) d us" using holdsD(3) [OF h1] d(1,3) sel by fastforce
  then show ?thesis
  proof (cases rule: array_ok_cases)
    case Empty
    then show ?thesis using d(2) by (simp add: full_def)
  next
    case (Block b k a)
    then obtain k' where k: "k = Suc k'" using d(2) by (cases k) (simp_all add: full_def)
    have blk: "has_block ?w1 b a (map Obj us @ replicate k Raw)" using Block(3) by simp
    note con = construct_cell [OF take blk, of "length us"]
    show ?thesis
    proof (cases "source_throws tr (moves s) w")
      case True
      then have "push_back tr x s w = Some (Inl Element_Throws, ?w1)"
        using con d Block k by (simp add: push_back_def full_def nth_append)
      then show ?thesis using h1 True by simp
    next
      case False
      let ?w2 = "put_block b a (map Obj (us @ [v]) @ replicate k' Raw) ?w1"
      let ?d = "d\<lparr>storage := (storage d)\<lparr>finish := Ptr b (Suc (length us))\<rparr>\<rparr>"
      let ?w3 = "?w2\<lparr>arrays := (arrays w)(x \<mapsto> ?d)\<rparr>"
      have "construct tr (Ptr b (length us)) s w = Some (Inr (), ?w2)"
        using con False k by (simp add: nth_append list_update_append)
      then have "push_back tr x s w = Some (Inr (), ?w3)"
        using d Block k sel by (simp add: push_back_def full_def)
      moreover have "holds tr ?w3 (f1(x \<mapsto> us @ [v]))"
      proof (rule holds_update [OF h1, where d' = ?d])
        have x: "block_at (upd w) x = Some b" using d(1) sel Block(6) by (simp add: block_at_def)
        have b: "block_of ?d = Some b" using Block(1) by (simp add: block_of_def)
        show "array_ok tr ?w3 ?d (us @ [v])"
          using Block k unfolding array_ok_def
          by (intro disjI2 exI [of _ b] exI [of _ k'] exI [of _ a]) (simp add: has_block_def put_block_def)
        show "c < fresh ?w3" if "block_of ?d = Some c" for c
          using that b holdsD(7) [OF h1, of b] Block(3) by (simp add: has_block_def)
        show "blocks (upd w) c = None \<or> block_at (upd w) x = Some c" if "block_of ?d = Some c" for c
          using that b x by simp
        show "blocks ?w3 c = blocks (upd w) c" if "block_of ?d \<noteq> Some c" for c
          using that b by (auto simp: put_block_def)
        show "blocks ?w3 c = None" if "block_at (upd w) x = Some c" "block_of ?d \<noteq> Some c" for c
          using that b x by simp
      qed (simp_all add: sel)
      ultimately show ?thesis by auto
    qed
  qed
qed

text \<open>The arguments of \<open>uninitialized_move_if_noexcept\<close> as a list of sources.\<close>

lemma move_if_noexcept_elements:
  obtains elements where "uninitialized_move_if_noexcept tr first stop = (\<lambda>d. between first stop (\<lambda>n. construct_all tr d 0 (elements n)))"
    "elements = copies first \<or> elements = movings first \<and> (nothrow_move tr \<or> \<not> copy_constructible tr)"
  by (cases "\<not> nothrow_move tr \<and> copy_constructible tr")
     (auto simp: uninitialized_move_if_noexcept_def uninitialized_copy_def uninitialized_move_def fun_eq_iff)

lemma realloc_unfold:
  assumes "arrays w x = Some d" "distance (start (storage d)) (finish (storage d)) = Some n" "twice_size tr n = Inr m"
    and "distance (start (storage d)) (end_of_storage (storage d)) = Some cap"
    and "allocate tr m (allocator_of d) w = Some (Inr new_start, w1)" "take_source tr s w1 = Some (Inr v, w2)"
    and "construct tr (advance new_start n) (Temporary v) w2 = Some (Inr (), w3)"
    and "uninitialized_move_if_noexcept tr (start (storage d)) (finish (storage d)) new_start w3 = Some (Inr new_finish, w4)"
    and "release tr d cap w4 = Some (Inr (), w5)"
  shows "realloc_and_insert tr x s w = set_storage x (\<lambda>_. \<lparr>start = new_start, finish = advance new_finish 1,
      end_of_storage = advance new_start m\<rparr>) w5"
proof -
  obtain w4' where "destroy (start (storage d)) (finish (storage d)) w4 = Some (Inr (), w4')"
    "deallocate tr (start (storage d)) cap (allocator_of d) w4' = Some (Inr (), w5)"
    using assms(9) by (auto simp: release_def bnd_def split: Option.bind_splits sum.splits)
  with assms show ?thesis
    by (simp add: realloc_and_insert_def Let_def on_throw_def)
qed

lemma realloc_unfold_throw:
  assumes "arrays w x = Some d" "distance (start (storage d)) (finish (storage d)) = Some n" "twice_size tr n = Inr m"
    and "allocate tr m (allocator_of d) w = Some (Inr new_start, w1)" "take_source tr s w1 = Some (Inr v, w2)"
    and "construct tr (advance new_start n) (Temporary v) w2 = Some (Inr (), w3)"
    and "uninitialized_move_if_noexcept tr (start (storage d)) (finish (storage d)) new_start w3 = Some (Inl e, w4)"
    and "destroy_at (advance new_start n) w4 = Some (Inr (), w5)"
    and "deallocate tr new_start m (allocator_of d) w5 = Some (Inr (), w6)"
  shows "realloc_and_insert tr x s w = Some (Inl e, w6)"
  using assms by (simp add: realloc_and_insert_def Let_def on_throw_def)

lemma source_throws_cong: "ticks w' = ticks w \<Longrightarrow> source_throws tr mv w' = source_throws tr mv w"
  by (simp add: source_throws_def)

lemma array_ok_distance:
  assumes "array_ok tr w d us"
  shows "distance (start (storage d)) (finish (storage d)) = Some (length us)" "length us \<le> max_size tr"
    "\<exists>cap. distance (start (storage d)) (end_of_storage (storage d)) = Some cap \<and> length us \<le> cap"
  using assms by (cases rule: array_ok_cases; auto)+

lemma array_ok_same: "array_ok tr w d vs \<Longrightarrow> (\<And>b. block_of d = Some b \<Longrightarrow> blocks w' b = blocks w b) \<Longrightarrow> array_ok tr w' d vs"
  using array_ok_cong [of d w' w] by blast

text \<open>The same array in another state of its own block.\<close>

lemma holds_rewritten:
  assumes "holds tr w f" "arrays w x = Some d" "arrays w' = arrays w" "array_ok tr w' d us" "fresh w \<le> fresh w'"
    and "\<And>b. block_of d \<noteq> Some b \<Longrightarrow> blocks w' b = blocks w b"
  shows "holds tr w' (f(x \<mapsto> us))"
proof (rule holds_update [OF assms(1) _ assms(4)])
  have x: "block_at w x = block_of d" using assms(2) by (simp add: block_at_def)
  show "arrays w' = (arrays w)(x \<mapsto> d)" using assms(2,3) by (simp add: fun_upd_idem)
  obtain vs where "array_ok tr w d vs" using holdsD(3) [OF assms(1,2)] by blast
  from array_ok_block [OF this] holdsD(7) [OF assms(1)] assms(5)
  show "b < fresh w'" if "block_of d = Some b" for b using that by (meson order_less_le_trans)
qed (use assms(2,5,6) in \<open>auto simp: block_at_def\<close>)

text \<open>Without room: the only exceptions are those of the allocator and of copies of the old elements.\<close>

lemma push_back_realloc:
  assumes h: "holds tr w f" "denotes w f s v f1" and d: "arrays w x = Some d" "full d" "f1 x = Some us"
    and sz: "max_size tr < 2 ^ 64" and strong: "nothrow_move tr \<or> copy_constructible tr"
    and ok: "\<not> source_throws tr (moves s) (tick w)" "\<not> source_throws tr True (tick (tick w))"
  shows "\<exists>r w'. push_back tr x s w = Some (r, w') \<and>
    (case r of
       Inr _ \<Rightarrow> holds tr w' (f1(x \<mapsto> us @ [v]))
     | Inl e \<Rightarrow> (if e = Element_Throws then (\<exists>t. element_fails tr t) \<and> holds tr w' f1 else holds tr w' f))"
proof -
  obtain upd :: "'a world \<Rightarrow> 'a world" where
    take: "\<And>w'. (\<And>b. blocks w b \<noteq> None \<Longrightarrow> blocks w' b = blocks w b) \<Longrightarrow>
      take_source tr s w' = Some (if source_throws tr (moves s) w' then Inl Element_Throws else Inr v, tick (upd w')) \<and>
      (\<forall>b. blocks (upd w') b = (if blocks w b = None then blocks w' b else blocks (upd w) b))"
    and sel: "\<And>w'. arrays (upd w') = arrays w' \<and> fresh (upd w') = fresh w' \<and> ticks (upd w') = ticks w'"
    and h1: "holds tr (upd w) f1"
    using denotes_take [OF h] by blast
  have upd_d: "array_ok tr (upd w) d us" using holdsD(3) [OF h1] d(1,3) sel by fastforce
  define n where "n = length us"
  note dist = array_ok_distance [OF upd_d, folded n_def]
  obtain cap where cap: "distance (start (storage d)) (end_of_storage (storage d)) = Some cap" using dist(3) by blast
  have push: "push_back tr x s w = realloc_and_insert tr x s w" using d(1,2) by (simp add: push_back_def full_def)
  consider "twice_size tr n = Inl Range_Error" | m where "twice_size tr n = Inr m" "n < m" "m \<le> max_size tr"
    using twice_size_ok [OF dist(2) sz] by blast
  then show ?thesis
  proof cases
    case 1
    then have "push_back tr x s w = Some (Inl Range_Error, w)"
      using d(1) dist(1) by (simp add: push realloc_and_insert_def Let_def throw_def)
    then show ?thesis using h(1) by simp
  next
    case 2
    let ?a = "allocator_of d" and ?b = "fresh w"
    show ?thesis
    proof (cases "no_room tr m w")
      case True
      then have "allocate tr m ?a w = Some (Inl Bad_Alloc, tick w)" using allocate_cases [of m tr ?a w] 2(2) by simp
      then have "push_back tr x s w = Some (Inl Bad_Alloc, tick w)"
        using d(1) dist(1) 2(1) by (simp add: push realloc_and_insert_def Let_def)
      then show ?thesis using h(1) by simp
    next
      case False
      define w1 where "w1 = tick (put_block ?b ?a (replicate m Raw) (w\<lparr>fresh := Suc ?b\<rparr>))"
      have alloc: "allocate tr m ?a w = Some (Inr (Ptr ?b 0), w1)"
        using allocate_cases [of m tr ?a w] 2(2) False by (simp add: w1_def)
      have w1: "arrays w1 = arrays w" "fresh w1 = Suc ?b" "ticks w1 = Suc (ticks w)"
        "blocks w1 = (blocks w)(?b \<mapsto> \<lparr>cells = replicate m Raw, allocated_by = ?a\<rparr>)"
        by (simp_all add: w1_def put_block_def)
      have none: "blocks w ?b = None" "blocks (upd w) ?b = None"
        using fresh_none [OF h(1)] fresh_none [OF h1] sel by simp_all
      have "blocks w1 b = blocks w b" if "blocks w b \<noteq> None" for b using that none w1(4) by auto
      note t1 = take [OF this]
      have "source_throws tr (moves s) w1 = source_throws tr (moves s) (tick w)"
        using w1(3) by (intro source_throws_cong) simp
      with t1 ok(1) have t1': "take_source tr s w1 = Some (Inr v, tick (upd w1))" by simp
      define w2 where "w2 = tick (upd w1)"
      have "blocks (upd w) b = None" if "blocks w b = None" for b
        using take [of w] that by (metis (mono_tags, lifting))
      then have w2: "arrays w2 = arrays w" "fresh w2 = Suc ?b" "ticks w2 = Suc (Suc (ticks w))"
        "blocks w2 = (blocks (upd w))(?b \<mapsto> \<lparr>cells = replicate m Raw, allocated_by = ?a\<rparr>)"
        using t1 w1 none by (auto simp: w2_def sel fun_eq_iff)
      define rest where "rest = Obj v # replicate (m - Suc n) Raw"
      have m: "replicate m Raw = replicate n Raw @ Raw # replicate (m - Suc n) Raw"
        using 2(2) by (metis Suc_diff_Suc add_diff_inverse_nat less_imp_le_nat not_less replicate_Suc replicate_add)
      define w3 where "w3 = put_block ?b ?a (replicate n Raw @ rest) (tick w2)"
      have blk: "has_block (tick w2) ?b ?a (replicate m Raw)" using w2(4) by (simp add: has_block_def)
      have "\<not> source_throws tr True w2" using ok(2) w2(3) by (simp add: source_throws_def)
      then have con: "construct tr (advance (Ptr ?b 0) n) (Temporary v) w2 = Some (Inr (), w3)"
        using construct_cell [OF take_source_outside(2) blk, of n] 2(2)
        by (simp add: w3_def rest_def) (simp add: m list_update_append)
      have w3: "arrays w3 = arrays w" "fresh w3 = Suc ?b" "has_block w3 ?b ?a (replicate (length us) Raw @ rest)"
        "blocks w3 = (blocks (upd w))(?b \<mapsto> \<lparr>cells = replicate n Raw @ rest, allocated_by = ?a\<rparr>)"
        using w2 by (simp_all add: w3_def n_def put_block_def has_block_def)
      have new: "block_of d \<noteq> Some ?b" using array_ok_block [OF upd_d] none(2) by auto
      have w3_d: "array_ok tr w3 d us" by (rule array_ok_same [OF upd_d]) (use new w3(4) in auto)
      obtain elements where
        un: "uninitialized_move_if_noexcept tr (start (storage d)) (finish (storage d)) =
          (\<lambda>p. between (start (storage d)) (finish (storage d)) (\<lambda>n. construct_all tr p 0 (elements n)) :: ('a, pointer) prog)"
        and el: "elements = copies (start (storage d)) \<or>
          elements = movings (start (storage d)) \<and> (nothrow_move tr \<or> \<not> copy_constructible tr)"
        by (rule move_if_noexcept_elements)
      obtain w4 r us' where
        tr4: "uninitialized_move_if_noexcept tr (start (storage d)) (finish (storage d)) (Ptr ?b 0) w3 = Some (r, w4)"
        and w4: "array_ok tr w4 d us'" "arrays w4 = arrays w3" "fresh w4 = fresh w3"
          "elements = copies (start (storage d)) \<longrightarrow> us' = us \<and> (\<forall>b. b \<noteq> ?b \<longrightarrow> blocks w4 b = blocks w3 b)"
          "\<And>b. block_of d \<noteq> Some b \<Longrightarrow> b \<noteq> ?b \<Longrightarrow> blocks w4 b = blocks w3 b"
        and r: "case r of
           Inr p \<Rightarrow> p = Ptr ?b (length us) \<and> has_block w4 ?b ?a (map Obj us @ rest)
         | Inl e \<Rightarrow> e = Element_Throws \<and> (\<exists>t. element_fails tr t) \<and> has_block w4 ?b ?a (replicate (length us) Raw @ rest) \<and>
             (elements = movings (start (storage d)) \<longrightarrow> \<not> nothrow_move tr)"
        using relocate_ok [OF w3_d w3(3) new, of elements] el unfolding un by blast
      show ?thesis
      proof (cases r)
        case (Inl e)
        then have e: "e = Element_Throws" "\<exists>t. element_fails tr t" "has_block w4 ?b ?a (replicate n Raw @ rest)"
          and us': "us' = us" using r el w4(4) strong by (auto simp: n_def)
        let ?w5 = "put_block ?b ?a (replicate m Raw) w4"
        let ?w6 = "?w5\<lparr>blocks := (blocks ?w5)(?b := None)\<rparr>"
        have "destroy_at (advance (Ptr ?b 0) n) w4 = Some (Inr (), ?w5)"
          using get_cell_block [OF e(3), of n] set_cell_block [OF e(3), of n Raw]
          by (simp add: destroy_at_def rest_def m list_update_append nth_append)
        moreover have "deallocate tr (Ptr ?b 0) m ?a ?w5 = Some (Inr (), ?w6)"
          by (rule deallocate_raw(2) [where a' = ?a]) simp_all
        ultimately have "push_back tr x s w = Some (Inl e, ?w6)"
          using realloc_unfold_throw [OF d(1) dist(1) 2(1) alloc t1' [folded w2_def] con tr4 [unfolded Inl]] push by simp
        moreover have "holds tr ?w6 (f1(x \<mapsto> us))"
        proof (rule holds_rewritten [OF h1, where d = d])
          show "array_ok tr ?w6 d us"
            by (rule array_ok_same [OF w4(1) [unfolded us']]) (use new in \<open>auto simp: put_block_def\<close>)
          show "blocks ?w6 b = blocks (upd w) b" if "block_of d \<noteq> Some b" for b
            using w4(5) [OF that] w3(4) none by (auto simp: put_block_def)
        qed (use d(1) sel w4 w3 in simp_all)
        ultimately show ?thesis using e d(3) by (simp add: fun_upd_idem)
      next
        case (Inr p)
        then have p: "p = Ptr ?b n" "has_block w4 ?b ?a (map Obj (us @ [v]) @ replicate (m - Suc n) Raw)"
          using r by (simp_all add: n_def rest_def)
        obtain w5 where rel: "release tr d cap w4 = Some (Inr (), w5)"
          and w5: "arrays w5 = arrays w4" "fresh w5 = fresh w4"
            "\<And>b. blocks w5 b = (if block_of d = Some b then None else blocks w4 b)"
          using release_ok [OF w4(1) cap] by blast
        let ?d = "d\<lparr>storage := \<lparr>start = Ptr ?b 0, finish = Ptr ?b (Suc n), end_of_storage = Ptr ?b m\<rparr>\<rparr>"
        let ?w6 = "w5\<lparr>arrays := (arrays w)(x \<mapsto> ?d)\<rparr>"
        have "push_back tr x s w = Some (Inr (), ?w6)"
          using realloc_unfold [OF d(1) dist(1) 2(1) cap alloc t1' [folded w2_def] con tr4 [unfolded Inr] rel] push d(1)
          by (simp add: p w5 w4 w3)
        moreover have "holds tr ?w6 (f1(x \<mapsto> us @ [v]))"
        proof (rule installed_ok [OF h1, where d = d and d' = ?d and nb = ?b and k = "m - Suc n" and a = ?a])
          show "has_block ?w6 ?b ?a (map Obj (us @ [v]) @ replicate (m - Suc n) Raw)"
            using p(2) w5(3) [of ?b] new by (simp add: has_block_def)
          show "blocks ?w6 b = (if block_of d = Some b then None else blocks (upd w) b)" if "b \<noteq> ?b" for b
            using w5(3) [of b] w4(5) [of b] w3(4) that by simp
        qed (use d(1) sel w5 w4 w3 none 2 in \<open>simp_all add: n_def\<close>)
        ultimately show ?thesis by auto
      qed
    qed
  qed
qed

section \<open>Reservation and assignment\<close>

text \<open>\<open>allocate_and_copy\<close> of an array's elements, when nothing but the allocation can throw.\<close>

lemma allocate_and_copy_ok:
  assumes h: "holds tr w f" "arrays w y = Some d" "f y = Some us" and n: "length us \<le> n" "0 < n" "n \<le> max_size tr"
    and el: "elements = copies (start (storage d)) \<and> (\<forall>t. \<not> element_fails tr t) \<or>
       elements = movings (start (storage d)) \<and> (nothrow_move tr \<or> (\<forall>t. \<not> element_fails tr t))"
  shows "\<exists>w' r us'. allocate_and_copy tr n elements (start (storage d)) (finish (storage d)) a w = Some (r, w') \<and>
    array_ok tr w' d us' \<and> arrays w' = arrays w \<and> fresh w \<le> fresh w' \<and>
    (elements = copies (start (storage d)) \<longrightarrow> us' = us \<and> (\<forall>b. b \<noteq> fresh w \<longrightarrow> blocks w' b = blocks w b)) \<and>
    (case r of
       Inr p \<Rightarrow> p = Ptr (fresh w) 0 \<and> has_block w' (fresh w) a (map Obj us @ replicate (n - length us) Raw) \<and>
         fresh w < fresh w' \<and> (\<forall>b. block_of d \<noteq> Some b \<longrightarrow> b \<noteq> fresh w \<longrightarrow> blocks w' b = blocks w b)
     | Inl e \<Rightarrow> e = Bad_Alloc \<and> w' = tick w)"
proof -
  have d: "array_ok tr w d us" using holdsD(3) [OF h(1,2)] h(3) by auto
  let ?b = "fresh w"
  show ?thesis
  proof (cases "no_room tr n w")
    case True
    then have "allocate_and_copy tr n elements (start (storage d)) (finish (storage d)) a w = Some (Inl Bad_Alloc, tick w)"
      using allocate_cases [OF n(2), of tr a w] by (simp add: allocate_and_copy_def)
    then show ?thesis using d by (intro exI [of _ "tick w"] exI [of _ "Inl Bad_Alloc"] exI [of _ us]) simp
  next
    case False
    define w1 where "w1 = tick (put_block ?b a (replicate n Raw) (w\<lparr>fresh := Suc ?b\<rparr>))"
    have alloc: "allocate tr n a w = Some (Inr (Ptr ?b 0), w1)"
      using allocate_cases [OF n(2), of tr a w] False by (simp add: w1_def)
    have w1: "arrays w1 = arrays w" "fresh w1 = Suc ?b" "blocks w1 = (blocks w)(?b \<mapsto> \<lparr>cells = replicate n Raw, allocated_by = a\<rparr>)"
      by (simp_all add: w1_def put_block_def)
    have "replicate n Raw = replicate (length us) Raw @ replicate (n - length us) Raw"
      using n(1) by (metis le_add_diff_inverse replicate_add)
    then have blk: "has_block w1 ?b a (replicate (length us) Raw @ replicate (n - length us) Raw)"
      using w1(3) by (simp add: has_block_def)
    have new: "block_of d \<noteq> Some ?b" using array_ok_block [OF d] fresh_none [OF h(1)] by auto
    have d1: "array_ok tr w1 d us" by (rule array_ok_same [OF d]) (use new w1(3) in auto)
    from el have "elements = copies (start (storage d)) \<or> elements = movings (start (storage d))" by blast
    from relocate_ok [OF d1 blk new this] obtain w2 r us' where
      run: "between (start (storage d)) (finish (storage d)) (\<lambda>n. construct_all tr (Ptr ?b 0) 0 (elements n)) w1 = Some (r, w2)"
      and w2: "array_ok tr w2 d us'" "arrays w2 = arrays w1" "fresh w2 = fresh w1"
        "elements = copies (start (storage d)) \<longrightarrow> us' = us \<and> (\<forall>b. b \<noteq> ?b \<longrightarrow> blocks w2 b = blocks w1 b)"
        "\<And>b. block_of d \<noteq> Some b \<Longrightarrow> b \<noteq> ?b \<Longrightarrow> blocks w2 b = blocks w1 b"
      and r: "case r of
           Inr p \<Rightarrow> p = Ptr ?b (length us) \<and> has_block w2 ?b a (map Obj us @ replicate (n - length us) Raw)
         | Inl e \<Rightarrow> e = Element_Throws \<and> (\<exists>t. element_fails tr t) \<and> has_block w2 ?b a (replicate (length us) Raw @ replicate (n - length us) Raw) \<and>
             (elements = movings (start (storage d)) \<longrightarrow> \<not> nothrow_move tr)"
      by blast
    show ?thesis
    proof (cases r)
      case (Inr p)
      then have "allocate_and_copy tr n elements (start (storage d)) (finish (storage d)) a w = Some (Inr (Ptr ?b 0), w2)"
        using alloc run by (simp add: allocate_and_copy_def on_throw_def bnd_def return_def)
      moreover have "has_block w2 ?b a (map Obj us @ replicate (n - length us) Raw)" using r Inr by simp
      ultimately show ?thesis
        using w2 w1 by (intro exI [of _ w2] exI [of _ "Inr (Ptr ?b 0)"] exI [of _ us']) auto
    next
      case (Inl e)
      then have e: "e = Element_Throws" "\<exists>t. element_fails tr t"
        and blk2: "has_block w2 ?b a (replicate (length us) Raw @ replicate (n - length us) Raw)" using r by simp_all
      have False using r Inl el by auto
      then show ?thesis ..
    qed
  qed
qed

lemma allocate_and_copy_release:
  assumes "allocate_and_copy tr n elements (start (storage d)) (finish (storage d)) a w = Some (Inr p, w1)"
    and "release tr d' cap w1 = Some (Inr (), w2)"
  shows "bnd (allocate_and_copy tr n elements (start (storage d)) (finish (storage d)) a) (\<lambda>p.
      bnd (destroy (start (storage d')) (finish (storage d'))) (\<lambda>_.
      bnd (deallocate tr (start (storage d')) cap (allocator_of d')) (\<lambda>_. g p))) w = g p w2"
proof -
  obtain w1' where "destroy (start (storage d')) (finish (storage d')) w1 = Some (Inr (), w1')"
    "deallocate tr (start (storage d')) cap (allocator_of d') w1' = Some (Inr (), w2)"
    using assms(2) by (auto simp: release_def bnd_def split: Option.bind_splits sum.splits)
  with assms(1) show ?thesis by simp
qed

lemma reserve_ok:
  assumes h: "holds tr w f" "f x = Some us" and safe: "nothrow_move tr \<or> (\<forall>t. \<not> element_fails tr t)"
  shows "yields tr (reserve tr x n) w f f"
proof -
  obtain d where d: "arrays w x = Some d" "array_ok tr w d us" using holdsD(1) [OF h] by blast
  note dist = array_ok_distance [OF d(2)]
  obtain cap where cap: "distance (start (storage d)) (end_of_storage (storage d)) = Some cap" "length us \<le> cap"
    using dist(3) by blast
  consider "max_size tr < n" | "n \<le> max_size tr" "n \<le> cap" | "n \<le> max_size tr" "cap < n" by linarith
  then show ?thesis
  proof cases
    case 1
    then have "reserve tr x n w = Some (Inl Range_Error, w)" using d(1) by (simp add: reserve_def Let_def throw_def)
    then show ?thesis by (rule yieldsI(2)) (use h in simp_all)
  next
    case 2
    then have "reserve tr x n w = Some (Inr (), w)" using d(1) cap by (simp add: reserve_def Let_def return_def)
    then show ?thesis by (rule yieldsI(1)) (use h in simp_all)
  next
    case 3
    let ?b = "fresh w" and ?a = "allocator_of d"
    have n: "length us \<le> n" "0 < n" "n \<le> max_size tr" using 3 cap by simp_all
    have res: "reserve tr x n w =
      bnd (allocate_and_copy tr n (movings (start (storage d))) (start (storage d)) (finish (storage d)) ?a) (\<lambda>p.
      bnd (destroy (start (storage d)) (finish (storage d))) (\<lambda>_.
      bnd (deallocate tr (start (storage d)) cap ?a) (\<lambda>_.
      set_storage x (\<lambda>_. \<lparr>start = p, finish = advance p (length us), end_of_storage = advance p n\<rparr>)))) w"
      using d(1) cap dist(1) 3 by (simp add: reserve_def Let_def)
    obtain w1 r us' where run: "allocate_and_copy tr n (movings (start (storage d))) (start (storage d)) (finish (storage d)) ?a w = Some (r, w1)"
      and w1: "array_ok tr w1 d us'" "arrays w1 = arrays w" "fresh w \<le> fresh w1"
      and r: "case r of
         Inr p \<Rightarrow> p = Ptr ?b 0 \<and> has_block w1 ?b ?a (map Obj us @ replicate (n - length us) Raw) \<and>
           ?b < fresh w1 \<and> (\<forall>b. block_of d \<noteq> Some b \<longrightarrow> b \<noteq> ?b \<longrightarrow> blocks w1 b = blocks w b)
       | Inl e \<Rightarrow> e = Bad_Alloc \<and> w1 = tick w"
      using allocate_and_copy_ok [OF h(1) d(1) h(2) n, of "movings (start (storage d))" ?a] safe by blast
    show ?thesis
    proof (cases r)
      case (Inl e)
      then have "reserve tr x n w = Some (Inl Bad_Alloc, tick w)" using res run r by simp
      then show ?thesis by (rule yieldsI(2)) (use h in simp_all)
    next
      case (Inr p)
      obtain w2 where rel: "release tr d cap w1 = Some (Inr (), w2)" and w2: "arrays w2 = arrays w1" "fresh w2 = fresh w1"
        "\<And>b. blocks w2 b = (if block_of d = Some b then None else blocks w1 b)"
        using release_ok [OF w1(1) cap(1)] by blast
      have none: "blocks w ?b = None" using fresh_none [OF h(1)] .
      then have new: "block_of d \<noteq> Some ?b" using array_ok_block [OF d(2)] by auto
      let ?d = "d\<lparr>storage := \<lparr>start = Ptr ?b 0, finish = Ptr ?b (length us), end_of_storage = Ptr ?b n\<rparr>\<rparr>"
      let ?w3 = "w2\<lparr>arrays := (arrays w)(x \<mapsto> ?d)\<rparr>"
      have "reserve tr x n w = Some (Inr (), ?w3)"
        unfolding res allocate_and_copy_release [OF run [unfolded Inr] rel] using r Inr d(1) w1 w2 by simp
      moreover have "holds tr ?w3 (f(x \<mapsto> us))"
      proof (rule installed_ok [OF h(1) d(1), where d' = ?d and nb = ?b and k = "n - length us" and a = ?a])
        show "has_block ?w3 ?b ?a (map Obj us @ replicate (n - length us) Raw)"
          using r Inr w2(3) [of ?b] new by (simp add: has_block_def)
        show "blocks ?w3 b = (if block_of d = Some b then None else blocks w b)" if "b \<noteq> ?b" for b
          using w2(3) [of b] r Inr that by simp
      qed (use r Inr w1 w2 none n in simp_all)
      ultimately show ?thesis using h(2) by (intro yieldsI(1)) (simp_all add: fun_upd_idem)
    qed
  qed
qed

text \<open>Copies between blocks at any offset, when no element operation throws.\<close>

lemma construct_copies_at:
  assumes "\<forall>t. \<not> element_fails tr t" "b \<noteq> c" "has_block w c a' (pre' @ map Obj vs @ zs')" "length pre' = i'"
    and "has_block w b a (pre @ map Obj (take i vs) @ replicate n Raw @ zs)" "length pre = l" "n = length vs - i" "i \<le> length vs"
  shows "\<exists>t. construct_all tr (Ptr b l) i (map (\<lambda>j. Copy_Of (Ptr c (i' + j))) [i..<length vs]) w =
    Some (Inr (Ptr b (l + length vs)), put_block b a (pre @ map Obj vs @ zs) (w\<lparr>ticks := t\<rparr>))"
  using assms(3,5,7,8)
proof (induction n arbitrary: w i)
  case 0
  then have "put_block b a (pre @ map Obj vs @ zs) w = w" by (intro put_block_same) simp
  with 0 show ?case by (intro exI [of _ "ticks w"]) (simp add: return_def)
next
  case (Suc n)
  then have i: "i < length vs" by simp
  have get: "get_cell (Ptr c (i' + i)) w = Some (Obj (vs ! i))"
    using get_cell_block [OF Suc.prems(1), of "i' + i"] i assms(4) by (simp add: nth_append)
  have take: "take_source tr (Copy_Of (Ptr c (i' + i))) w = Some (Inr (vs ! i), tick w)"
    using get assms(1) by (simp add: take_source_def)
  let ?w = "put_block b a (pre @ map Obj (take i vs @ [vs ! i]) @ replicate n Raw @ zs) (tick w)"
  have "has_block (tick w) b a (pre @ map Obj (take i vs) @ replicate (Suc n) Raw @ zs)" using Suc.prems(2) by simp
  from construct_cell [OF take this, of "l + i"] have con: "construct tr (Ptr b (l + i)) (Copy_Of (Ptr c (i' + i))) w = Some (Inr (), ?w)"
    using i assms(6) by (simp add: nth_append list_update_append)
  have t: "take (Suc i) vs = take i vs @ [vs ! i]" using i by (rule take_Suc_conv_app_nth)
  have "has_block ?w c a' (pre' @ map Obj vs @ zs')" "has_block ?w b a (pre @ map Obj (take (Suc i) vs) @ replicate n Raw @ zs)"
    using Suc.prems(1) assms(2) by (simp_all add: t)
  moreover have "n = length vs - Suc i" "Suc i \<le> length vs" using Suc.prems(3) i by simp_all
  ultimately obtain t where
    "construct_all tr (Ptr b l) (Suc i) (map (\<lambda>j. Copy_Of (Ptr c (i' + j))) [Suc i..<length vs]) ?w =
      Some (Inr (Ptr b (l + length vs)), put_block b a (pre @ map Obj vs @ zs) (?w\<lparr>ticks := t\<rparr>))" using Suc.IH by blast
  then show ?case
    using con i by (intro exI [of _ t]) (simp add: upt_conv_Cons put_block_def tick_def)
qed

lemma assign_all_ok:
  assumes "\<forall>t. \<not> element_fails tr t" "b \<noteq> c" "has_block w c a' (pre' @ map Obj vs @ zs')" "length pre' = i'"
    and "has_block w b a (pre @ map Obj us @ zs)" "length pre = l" "length us = length vs"
  shows "\<exists>t. assign_all tr (Ptr b l) (map (\<lambda>j. Copy_Of (Ptr c (i' + j))) [0..<length vs]) w =
    Some (Inr (Ptr b (l + length vs)), put_block b a (pre @ map Obj vs @ zs) (w\<lparr>ticks := t\<rparr>))"
  using assms(3-)
proof (induction vs arbitrary: w pre' i' pre us l)
  case Nil
  then have "put_block b a (pre @ zs) w = w" by (intro put_block_same) simp
  with Nil show ?case by (intro exI [of _ "ticks w"]) (simp add: return_def)
next
  case (Cons v vs)
  then obtain u us' where us: "us = u # us'" by (cases us) auto
  have get: "get_cell (Ptr c i') w = Some (Obj v)" "get_cell (Ptr b l) (tick w) = Some (Obj u)"
    using get_cell_block [OF Cons.prems(1), of i'] get_cell_block [of "tick w" b a "pre @ map Obj us @ zs" l] Cons.prems us
    by (simp_all add: nth_append)
  have take: "take_source tr (Copy_Of (Ptr c i')) w = Some (Inr v, tick w)"
    using get assms(1) by (simp add: take_source_def)
  let ?w = "put_block b a (pre @ Obj v # map Obj us' @ zs) (tick w)"
  have set: "set_cell (Ptr b l) (Obj v) (tick w) = Some (Inr (), ?w)"
    using set_cell_block [of "tick w" b a "pre @ map Obj us @ zs" l "Obj v"] Cons.prems us by (simp add: list_update_append)
  have "has_block ?w c a' ((pre' @ [Obj v]) @ map Obj vs @ zs')" "has_block ?w b a ((pre @ [Obj v]) @ map Obj us' @ zs)"
    using Cons.prems(1) assms(2) by simp_all
  from Cons.IH [OF this(1) refl this(2) refl] Cons.prems us obtain t where
    "assign_all tr (Ptr b (Suc l)) (map (\<lambda>j. Copy_Of (Ptr c (Suc i' + j))) [0..<length vs]) ?w =
      Some (Inr (Ptr b (Suc l + length vs)), put_block b a ((pre @ [Obj v]) @ map Obj vs @ zs) (?w\<lparr>ticks := t\<rparr>))" by auto
  moreover have L: "map (\<lambda>j. Copy_Of (Ptr c (i' + j))) [0..<length (v # vs)] =
      Copy_Of (Ptr c i') # map (\<lambda>j. Copy_Of (Ptr c (Suc i' + j))) [0..<length vs]"
    by (simp add: upt_conv_Cons map_Suc_upt [symmetric] del: upt_Suc)
  ultimately show ?case
    using take get set unfolding L by (intro exI [of _ t]) (simp add: put_block_def tick_def bnd_def)
qed

lemma copies_at: "copies (Ptr c i) n = map (\<lambda>j. Copy_Of (Ptr c (i + j))) [0..<n]"
  by (simp add: copies_def)

lemma assign_allocator_ok:
  assumes h: "holds tr w f" "arrays w x = Some d" "arrays w y = Some e" and eq: "propagate_on_copy_assignment tr \<longrightarrow> is_always_equal tr"
  shows "\<exists>a w'. assign_allocator tr x y w = Some (Inr (), w') \<and> arrays w' = (arrays w)(x \<mapsto> d\<lparr>allocator_of := a\<rparr>) \<and> holds tr w' f"
proof (cases "propagate_on_copy_assignment tr")
  case False
  then have "assign_allocator tr x y w = Some (Inr (), w)" by (simp add: assign_allocator_def return_def)
  then show ?thesis using h by (intro exI [of _ "allocator_of d"] exI [of _ w]) (simp add: fun_upd_idem)
next
  case True
  let ?d = "d\<lparr>allocator_of := allocator_of e\<rparr>"
  let ?w = "w\<lparr>arrays := (arrays w)(x \<mapsto> ?d)\<rparr>"
  have "assign_allocator tr x y w = Some (Inr (), ?w)"
    using True h eq by (simp add: assign_allocator_def return_def alloc_equal_def alloc_on_copy_def)
  moreover obtain vs where vs: "f x = Some vs" "array_ok tr w d vs" using holdsD(3) [OF h(1,2)] by blast
  have "holds tr ?w (f(x \<mapsto> vs))"
  proof (rule holds_update [OF h(1), where d' = ?d])
    show "array_ok tr ?w ?d vs" using vs(2) eq True by (auto simp: array_ok_def has_block_def alloc_equal_def)
    have b: "block_of ?d = block_of d" "block_at w x = block_of d" using h(2) by (simp_all add: block_of_def block_at_def)
    show "c < fresh ?w" if "block_of ?d = Some c" for c
      using that b holdsD(7) [OF h(1), of c] array_ok_block [OF vs(2), of c] by simp
    show "blocks ?w c = None" if "block_at w x = Some c" "block_of ?d \<noteq> Some c" for c using that b by simp
    show "blocks w c = None \<or> block_at w x = Some c" if "block_of ?d = Some c" for c using that b by simp
  qed simp_all
  ultimately show ?thesis using vs(1) by (intro exI [of _ "allocator_of e"] exI [of _ ?w]) (simp add: fun_upd_idem)
qed

text \<open>The elements are assigned in place: the array keeps its block.\<close>

lemma in_place_ok:
  assumes h: "holds tr w f" "arrays w x = Some d" "f x = Some us"
    and st: "storage d = \<lparr>start = Ptr b 0, finish = Ptr b (length us), end_of_storage = Ptr b cap\<rparr>"
    and blk: "has_block w b a cs" "length vs \<le> cap"
  shows "holds tr ((put_block b a (map Obj vs @ replicate (cap - length vs) Raw) (w\<lparr>ticks := t\<rparr>))
    \<lparr>arrays := (arrays w)(x \<mapsto> d\<lparr>storage := (storage d)\<lparr>finish := Ptr b (length vs)\<rparr>\<rparr>)\<rparr>) (f(x \<mapsto> vs))"
    (is "holds tr ?w _")
proof (rule holds_update [OF h(1)])
  let ?d = "d\<lparr>storage := (storage d)\<lparr>finish := Ptr b (length vs)\<rparr>\<rparr>"
  have b: "block_of ?d = Some b" "block_at w x = Some b" using st h(2) by (simp_all add: block_of_def block_at_def)
  have "array_ok tr w d us" using holdsD(3) [OF h(1,2)] h(3) by auto
  then have "0 < cap" "cap \<le> max_size tr" "alloc_equal tr (allocator_of d) a"
    using st blk(1) by (auto simp: array_ok_def empty_data_def has_block_def)
  then show "array_ok tr ?w ?d vs"
    using st blk(2) unfolding array_ok_def
    by (intro disjI2 exI [of _ b] exI [of _ "cap - length vs"] exI [of _ a]) (simp add: has_block_def put_block_def)
  show "c < fresh ?w" if "block_of ?d = Some c" for c
    using that b holdsD(7) [OF h(1), of b] blk(1) by (simp add: has_block_def)
  show "blocks ?w c = None" if "block_at w x = Some c" "block_of ?d \<noteq> Some c" for c using that b by simp
  show "blocks w c = None \<or> block_at w x = Some c" if "block_of ?d = Some c" for c using that b by simp
  show "blocks ?w c = blocks w c" if "block_of ?d \<noteq> Some c" for c using that b by (auto simp: put_block_def)
qed simp_all

lemma assign_elements_ok:
  fixes w :: "'a world"
  assumes h: "holds tr w f" "f x = Some us" "f y = Some vs" "x \<noteq> y" and never: "\<forall>t. \<not> element_fails tr t"
  shows "yields tr (assign_elements tr x y) w f (f(x \<mapsto> vs))"
proof -
  obtain d e where d: "arrays w x = Some d" "array_ok tr w d us" and e: "arrays w y = Some e" "array_ok tr w e vs"
    using holdsD(1) [OF h(1,2)] holdsD(1) [OF h(1,3)] by blast
  note dist = array_ok_distance [OF d(2)] and edist = array_ok_distance [OF e(2)]
  obtain cap where cap: "distance (start (storage d)) (end_of_storage (storage d)) = Some cap" "length us \<le> cap"
    using dist(3) by blast
  have bc: "b \<noteq> c" if "block_of d = Some b" "block_of e = Some c" for b c
    using that holdsD(5) [OF h(1), of x b y] h(4) d(1) e(1) by (auto simp: block_at_def)
  consider (Grow) "cap < length vs" | (Shrink) "length vs \<le> length us" | (Fill) "length us < length vs" "length vs \<le> cap"
    by linarith
  then show ?thesis
  proof cases
    case Grow
    let ?b = "fresh w" and ?a = "allocator_of d"
    have asn: "assign_elements tr x y w =
      bnd (bnd (allocate_and_copy tr (length vs) (copies (start (storage e))) (start (storage e)) (finish (storage e)) ?a) (\<lambda>p.
      bnd (destroy (start (storage d)) (finish (storage d))) (\<lambda>_.
      bnd (deallocate tr (start (storage d)) cap ?a) (\<lambda>_.
      set_storage x (\<lambda>s. s\<lparr>start := p, end_of_storage := advance p (length vs)\<rparr>)))))
      (\<lambda>_. set_storage x (\<lambda>s. s\<lparr>finish := advance (start s) (length vs)\<rparr>)) w"
      using d(1) e(1) cap(1) dist(1) edist(1) Grow by (simp add: assign_elements_def Let_def)
    have pos: "0 < length vs" using Grow by linarith
    obtain w1 r where
      run: "allocate_and_copy tr (length vs) (copies (start (storage e))) (start (storage e)) (finish (storage e)) ?a w = Some (r, w1)"
      and w1: "array_ok tr w1 e vs" "arrays w1 = arrays w" "fresh w \<le> fresh w1" "\<forall>b. b \<noteq> ?b \<longrightarrow> blocks w1 b = blocks w b"
      and r: "case r of
         Inr p \<Rightarrow> p = Ptr ?b 0 \<and> has_block w1 ?b ?a (map Obj vs @ replicate (length vs - length vs) Raw) \<and>
           ?b < fresh w1 \<and> (\<forall>b. block_of e \<noteq> Some b \<longrightarrow> b \<noteq> ?b \<longrightarrow> blocks w1 b = blocks w b)
       | Inl e \<Rightarrow> e = Bad_Alloc \<and> w1 = tick w"
      using allocate_and_copy_ok [OF h(1) e(1) h(3) order_refl pos edist(2), of "copies (start (storage e))" ?a] never by blast
    show ?thesis
    proof (cases r)
      case (Inl e)
      then have "assign_elements tr x y w = Some (Inl Bad_Alloc, tick w)" unfolding asn using run r by (simp add: bnd_def)
      then show ?thesis by (rule yieldsI(2)) (use h in simp_all)
    next
      case (Inr p)
      have none: "blocks w ?b = None" using fresh_none [OF h(1)] .
      have new: "block_of d \<noteq> Some ?b" "block_of e \<noteq> Some ?b" using array_ok_block [OF d(2)] array_ok_block [OF e(2)] none by auto
      have d1: "array_ok tr w1 d us"
        by (rule array_ok_same [OF d(2)]) (use r Inr new bc in auto)
      obtain w2 where rel: "release tr d cap w1 = Some (Inr (), w2)" and w2: "arrays w2 = arrays w1" "fresh w2 = fresh w1"
        "\<And>b. blocks w2 b = (if block_of d = Some b then None else blocks w1 b)"
        using release_ok [OF d1 cap(1)] by blast
      let ?d = "d\<lparr>storage := (storage d)\<lparr>start := Ptr ?b 0, end_of_storage := Ptr ?b (length vs), finish := Ptr ?b (length vs)\<rparr>\<rparr>"
      let ?w3 = "w2\<lparr>arrays := (arrays w)(x \<mapsto> ?d)\<rparr>"
      have "bnd (allocate_and_copy tr (length vs) (copies (start (storage e))) (start (storage e)) (finish (storage e)) ?a) (\<lambda>p.
        bnd (destroy (start (storage d)) (finish (storage d))) (\<lambda>_.
        bnd (deallocate tr (start (storage d)) cap ?a) (\<lambda>_.
        set_storage x (\<lambda>s. s\<lparr>start := p, end_of_storage := advance p (length vs)\<rparr>)))) w =
        Some (Inr (), w2\<lparr>arrays := (arrays w)(x \<mapsto> d\<lparr>storage := (storage d)\<lparr>start := Ptr ?b 0, end_of_storage := Ptr ?b (length vs)\<rparr>\<rparr>)\<rparr>)"
        unfolding allocate_and_copy_release [OF run [unfolded Inr] rel] using r Inr d(1) w1 w2 by simp
      then have "assign_elements tr x y w = Some (Inr (), ?w3)" unfolding asn by simp
      moreover have "holds tr ?w3 (f(x \<mapsto> vs))"
      proof (rule installed_ok [OF h(1) d(1), where d' = ?d and nb = ?b and k = 0 and a = ?a])
        show "storage ?d = \<lparr>start = Ptr ?b 0, finish = Ptr ?b (length vs), end_of_storage = Ptr ?b (length vs + 0)\<rparr>"
          by (cases "storage d") simp
        show "has_block ?w3 ?b ?a (map Obj vs @ replicate 0 Raw)"
          using r Inr w2(3) [of ?b] new by (simp add: has_block_def)
        show "blocks ?w3 b = (if block_of d = Some b then None else blocks w b)" if "b \<noteq> ?b" for b
          using w2(3) [of b] w1(4) that by simp
      qed (use r Inr w1 w2 none pos edist(2) in simp_all)
      ultimately show ?thesis by (rule yieldsI(1))
    qed
  next
    case Shrink
    show ?thesis
    proof (cases "vs = []")
      case True
      have asn: "assign_elements tr x y w = bnd (destroy (start (storage d)) (finish (storage d)))
          (\<lambda>_. set_storage x (\<lambda>s. s\<lparr>finish := start s\<rparr>)) w"
        using True d(1) e(1) cap(1) dist(1) edist(1) by (simp add: assign_elements_def Let_def copies_def bnd_def return_def)
      have "assign_elements tr x y w = array_clear x w"
        unfolding asn using d(1) by (simp add: array_clear_def)
      with array_clear_ok [OF h(1,2)] True show ?thesis by (auto intro: yieldsI(1))
    next
      case False
      with Shrink have "us \<noteq> []" by auto
      with d(2) obtain b k a where B: "storage d = \<lparr>start = Ptr b 0, finish = Ptr b (length us), end_of_storage = Ptr b (length us + k)\<rparr>"
        "has_block w b a (map Obj us @ replicate k Raw)" "block_of d = Some b"
        by (cases rule: array_ok_cases) auto
      from e(2) False obtain c k' a' where C: "storage e = \<lparr>start = Ptr c 0, finish = Ptr c (length vs), end_of_storage = Ptr c (length vs + k')\<rparr>"
        "has_block w c a' (map Obj vs @ replicate k' Raw)" "block_of e = Some c"
        by (cases rule: array_ok_cases) auto
      let ?n = "length vs"
      have us: "us = take ?n us @ drop ?n us" by simp
      have "has_block w b a ([] @ map Obj (take ?n us) @ map Obj (drop ?n us) @ replicate k Raw)"
        using B(2) by (simp flip: map_append append_assoc)
      then have "\<exists>t. assign_all tr (Ptr b 0) (map (\<lambda>j. Copy_Of (Ptr c (0 + j))) [0..<?n]) w =
          Some (Inr (Ptr b (0 + ?n)), put_block b a ([] @ map Obj vs @ map Obj (drop ?n us) @ replicate k Raw) (w\<lparr>ticks := t\<rparr>))"
        using C(2) Shrink
        by (intro assign_all_ok [OF never bc [OF B(3) C(3)], where a' = a' and pre' = "[]" and zs' = "replicate k' Raw" and us = "take ?n us"]) simp_all
      then obtain t where asg: "assign_all tr (Ptr b 0) (copies (Ptr c 0) ?n) w =
          Some (Inr (Ptr b ?n), put_block b a (map Obj vs @ map Obj (drop ?n us) @ replicate k Raw) (w\<lparr>ticks := t\<rparr>))"
        (is "_ = Some (_, ?w1)") by (auto simp: copies_at)
      have "has_block ?w1 b a (map Obj vs @ map Obj (drop ?n us) @ replicate k Raw)" by simp
      from destroy_n_block [OF this, of ?n "length us - ?n"]
      have des: "destroy_n (Ptr b ?n) (length us - ?n) ?w1 =
          Some (Inr (), put_block b a (map Obj vs @ replicate (length us - ?n) Raw @ replicate k Raw) (w\<lparr>ticks := t\<rparr>))" (is "_ = Some (_, ?w2)")
        by simp
      have "distance (Ptr b ?n) (Ptr b (length us)) = Some (length us - ?n)" using Shrink by (simp add: distance_def)
      then have "assign_elements tr x y w =
          Some (Inr (), ?w2\<lparr>arrays := (arrays w)(x \<mapsto> d\<lparr>storage := (storage d)\<lparr>finish := Ptr b ?n\<rparr>\<rparr>)\<rparr>)"
        using asg des Shrink B(1) C(1) d(1) e(1) by (simp add: assign_elements_def Let_def destroy_def bnd_def)
      moreover have "?w2 = put_block b a (map Obj vs @ replicate (length us + k - ?n) Raw) (w\<lparr>ticks := t\<rparr>)"
        using Shrink by (simp flip: replicate_add)
      ultimately show ?thesis
        using in_place_ok [OF h(1) d(1) h(2), of b "length us + k" a _ vs t] B Shrink by (intro yieldsI(1)) simp_all
    qed
  next
    case Fill
    then have "0 < cap" by simp
    with d(2) cap(1) obtain b k a where B: "storage d = \<lparr>start = Ptr b 0, finish = Ptr b (length us), end_of_storage = Ptr b (length us + k)\<rparr>"
      "has_block w b a (map Obj us @ replicate k Raw)" "block_of d = Some b" "cap = length us + k"
      by (cases rule: array_ok_cases) auto
    from e(2) Fill obtain c k' a' where C: "storage e = \<lparr>start = Ptr c 0, finish = Ptr c (length vs), end_of_storage = Ptr c (length vs + k')\<rparr>"
      "has_block w c a' (map Obj vs @ replicate k' Raw)" "block_of e = Some c"
      by (cases rule: array_ok_cases) auto
    let ?n = "length us" and ?m = "length vs - length us"
    note ne = bc [OF B(3) C(3)]
    have vs: "map Obj vs = map Obj (take ?n vs) @ map Obj (drop ?n vs)" by (simp flip: map_append)
    have "has_block w c a' ([] @ map Obj (take ?n vs) @ map Obj (drop ?n vs) @ replicate k' Raw)"
      using C(2) unfolding vs by simp
    then have "\<exists>t. assign_all tr (Ptr b 0) (map (\<lambda>j. Copy_Of (Ptr c (0 + j))) [0..<length (take ?n vs)]) w =
        Some (Inr (Ptr b (0 + length (take ?n vs))), put_block b a ([] @ map Obj (take ?n vs) @ replicate k Raw) (w\<lparr>ticks := t\<rparr>))"
      using B(2) Fill
      by (intro assign_all_ok [OF never ne, where a' = a' and pre' = "[]" and us = us and zs' = "map Obj (drop ?n vs) @ replicate k' Raw"]) simp_all
    then obtain t where asg: "assign_all tr (Ptr b 0) (copies (Ptr c 0) ?n) w =
        Some (Inr (Ptr b ?n), put_block b a (map Obj (take ?n vs) @ replicate k Raw) (w\<lparr>ticks := t\<rparr>))"
      (is "_ = Some (_, ?w1)") using Fill by (auto simp: copies_at)
    have "k = ?m + (cap - length vs)" using Fill B(4) by simp
    then have k: "replicate k Raw = replicate ?m Raw @ replicate (cap - length vs) (Raw :: 'a cell)"
      by (simp only: replicate_add)
    define w1 where "w1 = put_block b a (map Obj (take ?n vs) @ replicate k Raw) (w\<lparr>ticks := t\<rparr>)"
    have w1: "has_block w1 b a (map Obj (take ?n vs) @ replicate k Raw)" "has_block w1 c a' (map Obj vs @ replicate k' Raw)"
      using C(2) ne by (simp_all add: w1_def has_block_def put_block_def)
    have "\<exists>t'. construct_all tr (Ptr b ?n) 0 (map (\<lambda>j. Copy_Of (Ptr c (?n + j))) [0..<length (drop ?n vs)]) w1 =
        Some (Inr (Ptr b (?n + length (drop ?n vs))),
          put_block b a (map Obj (take ?n vs) @ map Obj (drop ?n vs) @ replicate (cap - length vs) Raw) (w1\<lparr>ticks := t'\<rparr>))"
    proof (rule construct_copies_at [OF never ne])
      show "has_block w1 c a' (map Obj (take ?n vs) @ map Obj (drop ?n vs) @ replicate k' Raw)"
        using w1(2) unfolding vs by simp
      show "has_block w1 b a (map Obj (take ?n vs) @ map Obj (take 0 (drop ?n vs)) @ replicate ?m Raw @ replicate (cap - length vs) Raw)"
        using w1(1) unfolding k by simp
    qed (use Fill in simp_all)
    then obtain t' where con: "construct_all tr (Ptr b ?n) 0 (copies (Ptr c ?n) ?m) w1 =
        Some (Inr (Ptr b (length vs)), put_block b a (map Obj (take ?n vs) @ map Obj (drop ?n vs) @ replicate (cap - length vs) Raw) (w1\<lparr>ticks := t'\<rparr>))"
      using Fill by (auto simp: copies_at)
    have fin: "put_block b a (map Obj (take ?n vs) @ map Obj (drop ?n vs) @ replicate (cap - length vs) Raw) (w1\<lparr>ticks := t'\<rparr>) =
        put_block b a (map Obj vs @ replicate (cap - length vs) Raw) (w\<lparr>ticks := t'\<rparr>)" (is "_ = ?w2")
      unfolding vs append_assoc by (simp add: put_block_def w1_def)
    have dis: "distance (Ptr c ?n) (Ptr c (length vs)) = Some ?m" using Fill by (simp add: distance_def)
    have "assign_elements tr x y w =
        Some (Inr (), ?w2\<lparr>arrays := (arrays w)(x \<mapsto> d\<lparr>storage := (storage d)\<lparr>finish := Ptr b (length vs)\<rparr>\<rparr>)\<rparr>)"
      using asg [folded w1_def] con [unfolded fin] dis Fill B C(1) d(1) e(1)
      by (simp add: assign_elements_def Let_def uninitialized_copy_def bnd_def return_def)
    then show ?thesis
      using in_place_ok [OF h(1) d(1) h(2), of b cap a _ vs t'] B Fill by (intro yieldsI(1)) simp_all
  qed
qed

lemma assign_ok:
  assumes h: "holds tr w f" "f x = Some us" "f y = Some vs" and never: "\<forall>t. \<not> element_fails tr t"
    and eq: "propagate_on_copy_assignment tr \<longrightarrow> is_always_equal tr"
  shows "yields tr (assign tr x y) w f (f(x \<mapsto> vs))"
proof (cases "y = x")
  case True
  then have "assign tr x y w = Some (Inr (), w)" "f(x \<mapsto> vs) = f" using h by (auto simp: assign_def return_def)
  then show ?thesis using h(1) by (auto intro: yieldsI(1))
next
  case False
  obtain d e where d: "arrays w x = Some d" and e: "arrays w y = Some e"
    using holdsD(1) [OF h(1,2)] holdsD(1) [OF h(1,3)] by blast
  obtain w' where w': "assign_allocator tr x y w = Some (Inr (), w')" "holds tr w' f"
    using assign_allocator_ok [OF h(1) d e eq] by blast
  have "assign tr x y w = assign_elements tr x y w'" using False w'(1) by (simp add: assign_def)
  with assign_elements_ok [OF w'(2) h(2,3) _ never] False show ?thesis by (auto simp: yields_def)
qed

end
