(* ===== verification/Dynamic_Array_Spec.thy ===== *)
theory Dynamic_Array_Spec
  imports Dynamic_Array_Ops
begin

text \<open>
  Programs that use dynamic arrays, and the lists that they stand for: the refinement, the exception guarantee of
  \<open>push_back\<close>, and the two states in which the code goes wrong.
\<close>

section \<open>Programs\<close>

datatype 'a command =
    New name allocator
  | Fill name nat 'a allocator
  | Of_List name "'a list" allocator
  | Copy_New name name
  | Move_New name name
  | Destroy name
  | Assign name name
  | Push name 'a
  | Push_Element bool name name nat
  | Clear name
  | Reserve name nat

fun exec :: "traits \<Rightarrow> 'a command \<Rightarrow> ('a, unit) prog" where
  "exec tr (New x a) = array_new x a"
| "exec tr (Fill x n v a) = array_fill tr x n v a"
| "exec tr (Of_List x vs a) = array_list tr x vs a"
| "exec tr (Copy_New x y) = array_copy tr x y"
| "exec tr (Move_New x y) = base_move x y"
| "exec tr (Destroy x) = array_destroy tr x"
| "exec tr (Assign x y) = assign tr x y"
| "exec tr (Push x v) = push_back tr x (Value v)"
| "exec tr (Push_Element mv x y j) = bnd (array_at y j) (\<lambda>p. push_back tr x (src mv p))"
| "exec tr (Clear x) = array_clear x"
| "exec tr (Reserve x n) = reserve tr x n"

text \<open>The program stops at the first exception.\<close>

fun run :: "traits \<Rightarrow> 'a command list \<Rightarrow> ('a, unit) prog" where
  "run tr [] = return ()"
| "run tr (c # cs) = bnd (exec tr c) (\<lambda>_. run tr cs)"

definition new_world :: "'a world" where
  "new_world = \<lparr>arrays = Map.empty, blocks = Map.empty, fresh = 0, ticks = 0\<rparr>"

section \<open>The lists\<close>

type_synonym 'a lists = "name \<rightharpoonup> 'a option list"

text \<open>\<open>None\<close>: the command is not legal (a name used twice, an array that does not live, an index out of range).\<close>

fun spec_step :: "'a command \<Rightarrow> 'a lists \<Rightarrow> 'a lists option" where
  "spec_step (New x a) f = (if f x = None then Some (f(x \<mapsto> [])) else None)"
| "spec_step (Fill x n v a) f = (if f x = None then Some (f(x \<mapsto> replicate n (Some v))) else None)"
| "spec_step (Of_List x vs a) f = (if f x = None then Some (f(x \<mapsto> map Some vs)) else None)"
| "spec_step (Copy_New x y) f = (if f x = None then do { vs \<leftarrow> f y; Some (f(x \<mapsto> vs)) } else None)"
| "spec_step (Move_New x y) f = (if f x = None then do { vs \<leftarrow> f y; Some (f(x \<mapsto> vs, y \<mapsto> [])) } else None)"
| "spec_step (Destroy x) f = do { _ \<leftarrow> f x; Some (f(x := None)) }"
| "spec_step (Assign x y) f = do { _ \<leftarrow> f x; vs \<leftarrow> f y; Some (f(x \<mapsto> vs)) }"
| "spec_step (Push x v) f = do { us \<leftarrow> f x; Some (f(x \<mapsto> us @ [Some v])) }"
| "spec_step (Push_Element mv x y j) f = do {
     vs \<leftarrow> f y;
     if j < length vs
     then do { let f1 = (if mv then f(y \<mapsto> vs[j := None]) else f); us \<leftarrow> f1 x; Some (f1(x \<mapsto> us @ [vs ! j])) }
     else None }"
| "spec_step (Clear x) f = do { _ \<leftarrow> f x; Some (f(x \<mapsto> [])) }"
| "spec_step (Reserve x n) f = do { _ \<leftarrow> f x; Some f }"

fun run_spec :: "'a command list \<Rightarrow> 'a lists \<Rightarrow> 'a lists option" where
  "run_spec [] f = Some f"
| "run_spec (c # cs) f = do { f' \<leftarrow> spec_step c f; run_spec cs f' }"

section \<open>Observations\<close>

lemma read_cells_block:
  "has_block w b a (pre @ map Obj vs @ zs) \<Longrightarrow> length pre = i \<Longrightarrow> read_cells (Ptr b i) (length vs) w = Some vs"
proof (induction vs arbitrary: pre i)
  case (Cons v vs)
  have "has_block w b a ((pre @ [Obj v]) @ map Obj vs @ zs)" using Cons.prems(1) by simp
  from Cons.IH [OF this refl] Cons.prems show ?case
    using get_cell_block [OF Cons.prems(1), of i] by (simp add: nth_append)
qed simp

lemma holds_contents:
  assumes "holds tr w f"
  shows "contents x w = f x"
proof (cases "f x")
  case None
  then show ?thesis using holdsD(2) [OF assms] by (simp add: contents_def)
next
  case (Some vs)
  from holdsD(1) [OF assms this] obtain d where d: "arrays w x = Some d" "array_ok tr w d vs" by blast
  from d(2) show ?thesis
    using d(1) Some read_cells_block [of w _ _ "[]" vs "replicate _ Raw" 0]
    by (cases rule: array_ok_cases) (simp_all add: contents_def)
qed


lemma new_world_holds: "holds tr new_world Map.empty"
  by (simp add: holds_def new_world_def block_at_def)

section \<open>Refinement\<close>

lemma push_back_yields:
  assumes h: "holds tr w f" "denotes w f s v f1" "f x \<noteq> None" "f1 x = Some us"
    and ok: "\<forall>t. \<not> element_fails tr t" "max_size tr < 2 ^ 64" "nothrow_move tr \<or> copy_constructible tr"
  shows "yields tr (push_back tr x s) w f (f1(x \<mapsto> us @ [v]))"
proof -
  obtain d where d: "arrays w x = Some d" using h(1,3) holdsD(1) by blast
  have never: "\<not> source_throws tr mv u" for mv and u :: "'a world" using ok(1) by (simp add: source_throws_def)
  show ?thesis
  proof (cases "full d")
    case True
    from push_back_realloc [OF h(1,2) d True h(4) ok(2,3) never never] obtain r w' where
      "push_back tr x s w = Some (r, w')" "case r of Inr _ \<Rightarrow> holds tr w' (f1(x \<mapsto> us @ [v]))
       | Inl e \<Rightarrow> (if e = Element_Throws then (\<exists>t. element_fails tr t) \<and> holds tr w' f1 else holds tr w' f)" by blast
    then show ?thesis using ok(1) by (cases r) (auto intro: yieldsI split: if_splits)
  next
    case False
    from push_back_room [OF h(1,2) d False h(4)] obtain r w' where
      "push_back tr x s w = Some (r, w')" "case r of Inr _ \<Rightarrow> holds tr w' (f1(x \<mapsto> us @ [v]))
       | Inl e \<Rightarrow> e = Element_Throws \<and> source_throws tr (moves s) w \<and> holds tr w' f1" by blast
    then show ?thesis using never by (cases r) (auto intro: yieldsI)
  qed
qed

lemma exec_refines:
  assumes h: "holds tr w f" "spec_step c f = Some f'"
    and ok: "\<forall>t. \<not> element_fails tr t" "max_size tr < 2 ^ 64" "nothrow_move tr \<or> copy_constructible tr"
      "propagate_on_copy_assignment tr \<longrightarrow> is_always_equal tr"
  shows "yields tr (exec tr c) w f f'"
proof (cases c)
  case (Push_Element mv x y j)
  from h(2) obtain vs us where y: "f y = Some vs" "j < length vs"
    and x: "(if mv then f(y \<mapsto> vs[j := None]) else f) x = Some us"
    and f': "f' = (if mv then f(y \<mapsto> vs[j := None]) else f)(x \<mapsto> us @ [vs ! j])"
    by (auto simp: Push_Element Let_def split: Option.bind_splits if_splits)
  obtain e where e: "arrays w y = Some e" using holdsD(1) [OF h(1) y(1)] by blast
  have "denotes w f (src mv (advance (start (storage e)) j)) (vs ! j) (if mv then f(y \<mapsto> vs[j := None]) else f)"
    unfolding denotes_def using e y by blast
  moreover have "f x \<noteq> None" using x y(1) by (auto split: if_splits)
  ultimately have "yields tr (push_back tr x (src mv (advance (start (storage e)) j))) w f f'"
    unfolding f' using push_back_yields [of tr w f _ _ "if mv then f(y \<mapsto> vs[j := None]) else f"] h(1) x ok(1-3) by blast
  then show ?thesis using e by (simp add: Push_Element yields_def array_at_def return_def bnd_def)
next
  case (Push x v)
  then show ?thesis
    using h push_back_yields [OF h(1), of "Value v" "Some v" f x] ok
    by (auto simp: denotes_def split: Option.bind_splits)
next
  case (Destroy x)
  then show ?thesis using h array_destroy_ok [OF h(1)] by (auto intro: yieldsI(1) split: Option.bind_splits)
next
  case (Clear x)
  then show ?thesis using h array_clear_ok [OF h(1)] by (auto intro: yieldsI(1) split: Option.bind_splits)
qed (use h ok in \<open>auto intro: array_new_ok array_fill_ok array_list_ok array_copy_ok array_move_ok assign_ok reserve_ok
       split: Option.bind_splits if_splits\<close>)

lemma run_refines:
  assumes ok: "\<forall>t. \<not> element_fails tr t" "max_size tr < 2 ^ 64" "nothrow_move tr \<or> copy_constructible tr"
      "propagate_on_copy_assignment tr \<longrightarrow> is_always_equal tr"
  shows "holds tr w f \<Longrightarrow> run_spec cs f = Some f' \<Longrightarrow>
    \<exists>r w' n g. run tr cs w = Some (r, w') \<and> n \<le> length cs \<and> (r = Inr () \<longrightarrow> n = length cs) \<and>
      run_spec (take n cs) f = Some g \<and> holds tr w' g"
proof (induction cs arbitrary: w f)
  case Nil
  then show ?case by (auto simp: return_def)
next
  case (Cons c cs)
  then obtain f1 where f1: "spec_step c f = Some f1" "run_spec cs f1 = Some f'" by (auto split: Option.bind_splits)
  from exec_refines [OF Cons.prems(1) f1(1) ok] show ?case
  proof (cases rule: yieldsE)
    case (Thrown e w1)
    then show ?thesis
      by (intro exI [of _ "Inl e"] exI [of _ w1] exI [of _ 0] exI [of _ f]) simp
  next
    case (Done w1)
    with Cons.IH [OF _ f1(2), of w1] obtain r' w' n g where
      "run tr cs w1 = Some (r', w')" "n \<le> length cs" "r' = Inr () \<longrightarrow> n = length cs" "run_spec (take n cs) f1 = Some g" "holds tr w' g"
      by auto
    then show ?thesis
      using Done f1(1) by (intro exI [of _ r'] exI [of _ w'] exI [of _ "Suc n"] exI [of _ g]) simp
  qed
qed


text \<open>For evaluation: the size computation with integers.\<close>

lemma twice_size_int [code]:
  "twice_size tr n =
     (let ms = int (max_size tr); m = int n; len = (m + max m 1) mod 18446744073709551616
      in if max 0 (18446744073709551616 + ms - m) mod 18446744073709551616 < 1 then Inl Range_Error
         else Inr (nat (if len < m \<or> len > ms then ms else len)))"
proof -
  define M :: nat where "M = 18446744073709551616"
  have M: "int M = 18446744073709551616" "2 ^ 64 = M" by (simp_all add: M_def)
  have 1: "max 0 (int M + int ms - int n) mod int M = int ((M + ms - n) mod M)" for ms
    by (simp add: zmod_int of_nat_diff max_def)
  have 2: "(int n + max (int n) 1) mod int M = int ((n + max n 1) mod M)"
    by (simp add: zmod_int of_nat_max)
  have 3: "int k < 1 \<longleftrightarrow> k < 1" for k by simp
  show ?thesis
    unfolding twice_size_def Let_def M(1) [symmetric] M(2) 1 2 3 of_nat_less_iff
    by (intro if_cong refl arg_cong [of _ _ Inr]) simp
qed

definition std_traits :: traits where
  "std_traits = \<lparr>element_fails = (\<lambda>_. False), alloc_fails = (\<lambda>_. False), nothrow_move = True, copy_constructible = True,
     max_size = 8, propagate_on_copy_assignment = False, is_always_equal = True, select_on_copy = id\<rparr>"


lemma equal_elements_sound:
  "equal_elements vs us = Some b \<Longrightarrow> b = (vs = us)"
  "None \<notin> set vs \<union> set us \<Longrightarrow> length vs = length us \<Longrightarrow> equal_elements vs us = Some (vs = us)"
  by (induction vs us rule: equal_elements.induct) (auto split: if_splits)

text \<open>
  C40: Every array that a program leaves is well formed, for programs of legal commands, elements and allocators as in the
  refinement of lists (operations that do not throw; a \<open>noexcept\<close> move or a copy; an allocator that does not propagate on copy
  assignment or is always equal; \<open>max_size\<close> below \<open>2 ^ 64\<close>). \<open>size()\<close>, \<open>empty()\<close> and \<open>operator[]\<close> agree with the elements between \<open>begin()\<close> and
  \<open>end()\<close>, every index below \<open>size()\<close> leads to a living element, and \<open>size()\<close> is at most \<open>capacity()\<close>, which is at most
  \<open>max_size\<close>. \<open>operator==\<close> decides the equality of two arrays of different sizes, and of two arrays without moved-from
  elements; with moved-from elements, whose values are not specified, the result is either not specified or right.
\<close>

theorem dynamic_array_well_formed:
  assumes "\<forall>t. \<not> element_fails tr t" "max_size tr < 2 ^ 64" "nothrow_move tr \<or> copy_constructible tr"
    and "propagate_on_copy_assignment tr \<longrightarrow> is_always_equal tr" "run_spec cs Map.empty = Some f"
    and "run tr cs new_world = Some (r, w)" "contents x w = Some vs" "contents y w = Some us"
  shows "array_size x w = Some (Inr (length vs), w) \<and> array_empty x w = Some (Inr (vs = []), w) \<and>
    (\<exists>cap. array_capacity x w = Some (Inr cap, w) \<and> length vs \<le> cap \<and> cap \<le> max_size tr) \<and>
    (\<forall>i < length vs. \<exists>p. array_at x i w = Some (Inr p, w) \<and> get_cell p w = Some (Obj (vs ! i))) \<and>
    (length vs \<noteq> length us \<or> None \<notin> set vs \<union> set us \<longrightarrow> array_equal x y w = Some (Some (vs = us))) \<and>
    (\<forall>b. array_equal x y w = Some (Some b) \<longrightarrow> b = (vs = us)) \<and> array_equal x y w \<noteq> None"
proof -
  have eq: "(length vs \<noteq> length us \<or> None \<notin> set vs \<union> set us \<longrightarrow> array_equal x y w = Some (Some (vs = us))) \<and>
      (\<forall>b. array_equal x y w = Some (Some b) \<longrightarrow> b = (vs = us)) \<and> array_equal x y w \<noteq> None"
  proof (cases "length vs = length us")
    case True
    then have "array_equal x y w = Some (equal_elements vs us)" using assms(7,8) by (simp add: array_equal_def)
    with True equal_elements_sound [of vs us] show ?thesis by (metis option.distinct(1) option.inject)
  next
    case False
    then have "array_equal x y w = Some (Some False)" "vs \<noteq> us" using assms(7,8) by (auto simp: array_equal_def)
    then show ?thesis by simp
  qed
  obtain g where g: "holds tr w g" using run_refines [OF assms(1-4) new_world_holds assms(5)] assms(6) by auto
  with assms(7) have "g x = Some vs" by (simp add: holds_contents)
  then obtain d where d: "arrays w x = Some d" "array_ok tr w d vs" using holdsD(1) [OF g] by blast
  from d(2) show ?thesis
  proof (cases rule: array_ok_cases)
    case Empty
    with d(1) have "array_size x w = Some (Inr (length vs), w) \<and> array_empty x w = Some (Inr (vs = []), w) \<and>
      (\<exists>cap. array_capacity x w = Some (Inr cap, w) \<and> length vs \<le> cap \<and> cap \<le> max_size tr) \<and>
      (\<forall>i < length vs. \<exists>p. array_at x i w = Some (Inr p, w) \<and> get_cell p w = Some (Obj (vs ! i)))"
      by (simp add: array_size_def array_empty_def array_capacity_def return_def)
    with eq show ?thesis by blast
  next
    case (Block b k a)
    have "get_cell (Ptr b i) w = Some (Obj (vs ! i))" if "i < length vs" for i
      using get_cell_block [OF Block(3), of i] that by (simp add: nth_append)
    with Block d(1) have "array_size x w = Some (Inr (length vs), w) \<and> array_empty x w = Some (Inr (vs = []), w) \<and>
      (\<exists>cap. array_capacity x w = Some (Inr cap, w) \<and> length vs \<le> cap \<and> cap \<le> max_size tr) \<and>
      (\<forall>i < length vs. \<exists>p. array_at x i w = Some (Inr p, w) \<and> get_cell p w = Some (Obj (vs ! i)))"
      by (auto simp: array_size_def array_empty_def array_capacity_def array_at_def return_def)
    then show ?thesis using eq by blast
  qed
qed

theorem dynamic_array_well_formed_witness:
  "\<exists>w. run std_traits [Fill 0 2 (5::int) 0, Push 0 6] new_world = Some (Inr (), w) \<and>
     array_size 0 w = Some (Inr 3, w) \<and> (\<exists>cap. array_capacity 0 w = Some (Inr cap, w) \<and> 3 \<le> cap) \<and>
     array_equal 0 0 w = Some (Some True)"
proof -
  have "map_option (\<lambda>(r, w). (r, contents 0 w)) (run std_traits [Fill 0 2 (5::int) 0, Push 0 6] new_world) =
      Some (Inr (), Some [Some 5, Some 5, Some 6])"
    by code_simp
  then obtain w where w: "run std_traits [Fill 0 2 (5::int) 0, Push 0 6] new_world = Some (Inr (), w)"
    "contents 0 w = Some [Some 5, Some 5, Some 6]"
    by (auto simp: map_option_case split: option.splits)
  have "\<exists>f. run_spec [Fill 0 2 (5::int) 0, Push 0 6] Map.empty = Some f" by simp
  then show ?thesis
    using dynamic_array_well_formed [OF _ _ _ _ _ w w(2)] w(1) by (fastforce simp: std_traits_def)
qed

text \<open>A moved-from element and the value it had: the comparison is not specified.\<close>

lemma moved_from_unspecified:
  "map_option (\<lambda>(r, w). (r, array_equal 0 1 w))
     (run std_traits [Of_List 0 [1::int] 0, Of_List 1 [1] 0, New 2 0, Push_Element True 2 0 0] new_world) =
   Some (Inr (), Some None)"
  by code_simp

lemma swap_data_swaps: "swap_data d d' = (d', d)"
  by (simp add: swap_data_def copy_data_def)

text \<open>
  C10: \<open>push_back\<close> of an lvalue has the strong exception guarantee: for elements that move without exceptions or
  can be copied, either the value is appended or every array is unchanged, whatever throws, provided that the two
  constructions that put the new element into a new block do not throw.
\<close>

theorem push_back_strong_guarantee:
  assumes "holds tr w f" "denotes w f s v f" "\<not> moves s" "arrays w x = Some d" "f x = Some us"
    and "max_size tr < 2 ^ 64" "nothrow_move tr \<or> copy_constructible tr"
    and "full d \<longrightarrow> \<not> source_throws tr False (tick w) \<and> \<not> source_throws tr True (tick (tick w))"
  shows "\<exists>r w'. push_back tr x s w = Some (r, w') \<and>
    (\<forall>y. contents y w' = (if r = Inr () \<and> y = x then Some (us @ [v]) else contents y w))"
proof -
  have "\<exists>r w'. push_back tr x s w = Some (r, w') \<and> (case r of Inr _ \<Rightarrow> holds tr w' (f(x \<mapsto> us @ [v])) | Inl _ \<Rightarrow> holds tr w' f)"
  proof (cases "full d")
    case True
    with assms(3,8) have "\<not> source_throws tr (moves s) (tick w)" "\<not> source_throws tr True (tick (tick w))" by simp_all
    from push_back_realloc [OF assms(1,2,4) True assms(5-7) this] obtain r w' where
      "push_back tr x s w = Some (r, w')" "case r of Inr _ \<Rightarrow> holds tr w' (f(x \<mapsto> us @ [v]))
       | Inl e \<Rightarrow> (if e = Element_Throws then (\<exists>t. element_fails tr t) \<and> holds tr w' f else holds tr w' f)" by blast
    then show ?thesis by (intro exI [of _ r] exI [of _ w']) (cases r; simp split: if_splits)
  next
    case False
    from push_back_room [OF assms(1,2,4) False assms(5)] obtain r w' where
      "push_back tr x s w = Some (r, w')" "case r of Inr _ \<Rightarrow> holds tr w' (f(x \<mapsto> us @ [v]))
       | Inl e \<Rightarrow> e = Element_Throws \<and> source_throws tr (moves s) w \<and> holds tr w' f" by blast
    then show ?thesis by (intro exI [of _ r] exI [of _ w']) (cases r; simp)
  qed
  then obtain r w' where r: "push_back tr x s w = Some (r, w')"
    "case r of Inr _ \<Rightarrow> holds tr w' (f(x \<mapsto> us @ [v])) | Inl _ \<Rightarrow> holds tr w' f" by blast
  show ?thesis
  proof (cases r)
    case (Inl e)
    with r show ?thesis by (intro exI [of _ r] exI [of _ w']) (simp add: holds_contents [OF assms(1)] holds_contents)
  next
    case (Inr u)
    with r(2) have "holds tr w' (f(x \<mapsto> us @ [v]))" by simp
    with r(1) Inr show ?thesis
      by (intro exI [of _ r] exI [of _ w']) (simp add: holds_contents [OF assms(1)] holds_contents)
  qed
qed


text \<open>One array with the single element 7 and no room; the fourth operation, the copy of 7 into the new block, throws.\<close>

definition one_world :: "int world" where
  "one_world = \<lparr>
     arrays = [0 \<mapsto> \<lparr>allocator_of = 0, storage = \<lparr>start = Ptr 0 0, finish = Ptr 0 1, end_of_storage = Ptr 0 1\<rparr>\<rparr>],
     blocks = [0 \<mapsto> \<lparr>cells = [Obj (Some 7)], allocated_by = 0\<rparr>], fresh = 1, ticks = 0\<rparr>"

definition throwing_traits :: "nat \<Rightarrow> traits" where
  "throwing_traits n = std_traits\<lparr>element_fails := (\<lambda>t. t = n), nothrow_move := False\<rparr>"

lemma one_world_holds: "holds (throwing_traits n) one_world [0 \<mapsto> [Some 7]]"
  by (auto simp: holds_def one_world_def array_ok_def block_at_def block_of_def has_block_def throwing_traits_def
      std_traits_def alloc_equal_def empty_data_def split: if_splits)

theorem push_back_strong_guarantee_witness:
  "\<exists>r w'. push_back (throwing_traits 3) 0 (Value 8) one_world = Some (r, w') \<and>
    contents 0 w' = (if r = Inr () then Some [Some 7, Some 8] else Some [Some 7])"
proof -
  have "contents 0 one_world = Some [Some (7::int)]" using holds_contents [OF one_world_holds] by simp
  then show ?thesis
    using push_back_strong_guarantee [OF one_world_holds [of 3], of "Value 8" "Some 8" 0 _ "[Some 7]"]
    by (fastforce simp: denotes_def one_world_def throwing_traits_def std_traits_def source_throws_def tick_def)
qed

section \<open>Two defects\<close>

text \<open>
  The condition of \<open>push_back_strong_guarantee\<close> is necessary: when the construction of the new element in the new
  block throws, the handler of \<open>realloc_and_insert\<close> destroys an element that does not exist.
\<close>

theorem realloc_handler_destroys_raw_memory: "push_back (throwing_traits 1) 0 (Value 8) one_world = None"
  by code_simp

text \<open>
  The allocator's condition in \<open>operator=\<close> is inverted: an allocator that propagates and is not always equal replaces
  the old allocator while the old block is still held, and the block is then freed with the wrong allocator.
\<close>

definition stateful_traits :: traits where
  "stateful_traits = std_traits\<lparr>propagate_on_copy_assignment := True, is_always_equal := False\<rparr>"

theorem assign_frees_with_the_wrong_allocator:
  "run stateful_traits [Of_List 0 [1::int] 0, Of_List 1 [2] 1, Assign 0 1, Destroy 0] new_world = None"
  by code_simp

end
