(* ===== verification/Thread_Pool.thy ===== *)
theory Thread_Pool
  imports Prelude Counting "HOL-Library.Sublist"
begin

text \<open>
  \<open>unbounded_blocking_mpmc_queue\<close> of \<open>concurrency/executors/blocking_queue.hpp\<close> and the static thread pool of
  \<open>concurrency/executors/static_thread_pool.cpp\<close> that is built on it. The workers, the threads that call \<open>submit\<close>
  and the one that calls \<open>join\<close> interleave; a critical section of the queue's \<open>std::mutex\<close> is one step.
  \<open>push\<close> notifies after it has left the critical section, so the notification is a step of its own;
  \<open>std::condition_variable\<close> is its documented behaviour: \<open>notify_one\<close> wakes one sleeper if there is one, and a
  sleeper may wake up without a notification.
\<close>

section \<open>The queue\<close>

definition push :: "'a \<Rightarrow> 'a list \<Rightarrow> 'a list" where
  "push v b = b @ [v]"

text \<open>\<open>None\<close>: \<open>front\<close> of an empty deque.\<close>

fun pop_no_lock :: "'a list \<Rightarrow> ('a \<times> 'a list) option" where
  "pop_no_lock [] = None"
| "pop_no_lock (v # b) = Some (v, b)"

section \<open>The pool\<close>

text \<open>
  A worker is before the critical section of \<open>pop\<close>, back in it after a wake-up, asleep, running a task, or has left
  its loop. The thread in \<open>join\<close> still has to push some poison pills, is between a push and its notification, or
  waits for the worker with the given index. A task is \<open>Some\<close>, the empty function is \<open>None\<close>.
\<close>

datatype 'a wpoint = W_Pop | W_Woken | W_Sleep | W_Run 'a | W_Done

datatype jpoint = J_Idle | J_Push nat | J_Notify nat | J_Join nat | J_Done

text \<open>
  \<open>notifies\<close> counts the threads in \<open>submit\<close> between the critical section and \<open>notify_one\<close>. The rest is history:
  all that was pushed and popped, in order, what had been pushed when \<open>join\<close> was called, and the tasks that
  have returned.
\<close>

record 'a pool =
  buffer :: "'a option list"
  wpoints :: "'a wpoint list"
  notifies :: nat
  joiner :: jpoint
  pushed :: "'a option list"
  popped :: "'a option list"
  before_join :: "'a option list"
  finished :: "'a list"

text \<open>\<open>start_worker_threads\<close>.\<close>

definition new_pool :: "nat \<Rightarrow> 'a pool" where
  "new_pool workers = \<lparr>buffer = [], wpoints = replicate workers W_Pop, notifies = 0, joiner = J_Idle, pushed = [],
     popped = [], before_join = [], finished = []\<rparr>"

definition enqueue :: "'a option \<Rightarrow> 'a pool \<Rightarrow> 'a pool" where
  "enqueue v s = s\<lparr>buffer := push v (buffer s), pushed := pushed s @ [v]\<rparr>"

text \<open>\<open>submit\<close> up to its notification.\<close>

definition submit :: "'a option \<Rightarrow> 'a pool \<Rightarrow> 'a pool" where
  "submit v s = enqueue v s\<lparr>notifies := notifies s + 1\<rparr>"

text \<open>The critical section of \<open>pop\<close>: wait on an empty buffer, else take the front; \<open>while (auto task = pop())\<close>.\<close>

definition pop :: "nat \<Rightarrow> 'a pool \<Rightarrow> 'a pool" where
  "pop i s =
     (case pop_no_lock (buffer s) of
        None \<Rightarrow> s\<lparr>wpoints := (wpoints s)[i := W_Sleep]\<rparr>
      | Some (v, b) \<Rightarrow>
          s\<lparr>buffer := b, popped := popped s @ [v],
            wpoints := (wpoints s)[i := (case v of None \<Rightarrow> W_Done | Some t \<Rightarrow> W_Run t)]\<rparr>)"

text \<open>One step of \<open>worker_routine\<close>; \<open>None\<close>: the worker cannot move.\<close>

definition worker_routine :: "nat \<Rightarrow> 'a pool \<Rightarrow> 'a pool option" where
  "worker_routine i s =
     (case wpoints s ! i of
        W_Pop \<Rightarrow> Some (pop i s)
      | W_Woken \<Rightarrow> Some (pop i s)
      | W_Sleep \<Rightarrow> None
      | W_Run t \<Rightarrow> Some (s\<lparr>wpoints := (wpoints s)[i := W_Pop], finished := finished s @ [t]\<rparr>)
      | W_Done \<Rightarrow> None)"

text \<open>\<open>notify_one\<close>: the given sleeper, or nobody when none sleeps.\<close>

fun notify_one :: "nat option \<Rightarrow> 'a pool \<Rightarrow> 'a pool option" where
  "notify_one None s = (if W_Sleep \<in> set (wpoints s) then None else Some s)"
| "notify_one (Some i) s =
     (if i < length (wpoints s) \<and> wpoints s ! i = W_Sleep then Some (s\<lparr>wpoints := (wpoints s)[i := W_Woken]\<rparr>) else None)"

text \<open>One step of \<open>join\<close>, the notifications apart.\<close>

definition join_step :: "'a pool \<Rightarrow> 'a pool option" where
  "join_step s =
     (case joiner s of
        J_Push (Suc k) \<Rightarrow> Some (enqueue None s\<lparr>joiner := J_Notify k\<rparr>)
      | J_Push 0 \<Rightarrow> Some (s\<lparr>joiner := J_Join 0\<rparr>)
      | J_Join i \<Rightarrow>
          (if i < length (wpoints s)
           then if wpoints s ! i = W_Done then Some (s\<lparr>joiner := J_Join (i + 1)\<rparr>) else None
           else Some (s\<lparr>joiner := J_Done\<rparr>))
      | _ \<Rightarrow> None)"

inductive pool_work :: "'a pool \<Rightarrow> 'a pool \<Rightarrow> bool" where
  worker: "i < length (wpoints s) \<Longrightarrow> worker_routine i s = Some s' \<Longrightarrow> pool_work s s'"
| notify: "0 < notifies s \<Longrightarrow> notify_one x s = Some s' \<Longrightarrow> pool_work s (s'\<lparr>notifies := notifies s' - 1\<rparr>)"
| join_notify: "joiner s = J_Notify k \<Longrightarrow> notify_one x s = Some s' \<Longrightarrow> pool_work s (s'\<lparr>joiner := J_Push k\<rparr>)"
| joins: "join_step s = Some s' \<Longrightarrow> pool_work s s'"

inductive pool_env :: "'a pool \<Rightarrow> 'a pool \<Rightarrow> bool" where
  submits: "pool_env s (submit v s)"
| spurious: "notify_one (Some i) s = Some s' \<Longrightarrow> pool_env s s'"
| call_join: "joiner s = J_Idle \<Longrightarrow>
    pool_env s (s\<lparr>joiner := J_Push (length (wpoints s)), before_join := pushed s\<rparr>)"

definition pool_step :: "'a pool \<Rightarrow> 'a pool \<Rightarrow> bool" where
  "pool_step s s' \<longleftrightarrow> pool_work s s' \<or> pool_env s s'"

section \<open>The invariant\<close>

text \<open>The tasks that the workers run.\<close>

fun running :: "'a wpoint list \<Rightarrow> 'a multiset" where
  "running [] = {#}"
| "running (W_Run t # ws) = {#t#} + running ws"
| "running (_ # ws) = running ws"

fun tasks :: "'a option list \<Rightarrow> 'a list" where
  "tasks [] = []"
| "tasks (None # vs) = tasks vs"
| "tasks (Some t # vs) = t # tasks vs"

text \<open>The poison pills that \<open>join\<close> has pushed.\<close>

fun pills :: "jpoint \<Rightarrow> nat \<Rightarrow> nat" where
  "pills J_Idle n = 0"
| "pills (J_Push k) n = n - k"
| "pills (J_Notify k) n = n - k"
| "pills _ n = n"

fun left :: "jpoint \<Rightarrow> nat" where
  "left (J_Push k) = k"
| "left (J_Notify k) = k"
| "left _ = 0"

definition history_ok :: "nat \<Rightarrow> 'a pool \<Rightarrow> bool" where
  "history_ok n s \<longleftrightarrow> length (wpoints s) = n \<and> pushed s = popped s @ buffer s \<and>
     mset (tasks (popped s)) = running (wpoints s) + mset (finished s) \<and>
     cnt (\<lambda>w. w = W_Done) (wpoints s) = count_list (popped s) None"

definition pills_ok :: "nat \<Rightarrow> 'a pool \<Rightarrow> bool" where
  "pills_ok n s \<longleftrightarrow> pills (joiner s) n \<le> count_list (pushed s) None \<and> left (joiner s) \<le> n"

text \<open>No lost wake-up: while somebody sleeps, every value in the buffer has a notification under way or an awake worker.\<close>

definition wake_ok :: "'a pool \<Rightarrow> bool" where
  "wake_ok s \<longleftrightarrow> (W_Sleep \<in> set (wpoints s) \<longrightarrow>
     length (buffer s) \<le> notifies s + cnt (\<lambda>w. w = W_Woken) (wpoints s) + (case joiner s of J_Notify _ \<Rightarrow> 1 | _ \<Rightarrow> 0))"

definition join_ok :: "nat \<Rightarrow> 'a pool \<Rightarrow> bool" where
  "join_ok n s \<longleftrightarrow> (joiner s \<noteq> J_Idle \<longrightarrow> prefix (before_join s) (pushed s)) \<and>
     (case joiner s of
        J_Join i \<Rightarrow> \<forall>j < i. j < n \<longrightarrow> wpoints s ! j = W_Done
      | J_Done \<Rightarrow> \<forall>j < n. wpoints s ! j = W_Done
      | _ \<Rightarrow> True)"

definition pool_inv :: "nat \<Rightarrow> 'a pool \<Rightarrow> bool" where
  "pool_inv n s \<longleftrightarrow> history_ok n s \<and> pills_ok n s \<and> wake_ok s \<and> join_ok n s"

lemmas pool_parts = history_ok_def pills_ok_def wake_ok_def join_ok_def

lemma running_Cons: "running (u # ws) = running [u] + running ws"
  by (cases u) auto

lemma running_append: "running (us @ ws) = running us + running ws"
  by (induction us rule: running.induct) auto

lemma running_update:
  assumes "i < length ws"
  shows "running (ws[i := w]) + running [ws ! i] = running ws + running [w]"
proof -
  have "running ws = running (take i ws @ [ws ! i] @ drop (Suc i) ws)" using id_take_nth_drop [OF assms] by simp
  moreover have "running (ws[i := w]) = running (take i ws @ [w] @ drop (Suc i) ws)" using upd_conv_take_nth_drop [OF assms] by simp
  ultimately show ?thesis by (simp add: running_append del: append_Cons append_Nil)
qed

lemma tasks_append [simp]: "tasks (xs @ ys) = tasks xs @ tasks ys"
  by (induction xs rule: tasks.induct) auto

lemma running_replicate [simp]: "running (replicate n W_Pop) = {#}" "running (replicate n W_Done) = {#}"
  by (induction n) auto

lemma sleeper_update: "W_Sleep \<in> set (ws[i := w]) \<Longrightarrow> w \<noteq> W_Sleep \<Longrightarrow> W_Sleep \<in> set ws"
  using set_update_subset_insert [of ws i w] by auto

lemma new_pool_inv: "pool_inv n (new_pool n)"
  by (simp add: pool_inv_def pool_parts new_pool_def cnt_replicate)

lemma enqueue_simps [simp]:
  "buffer (enqueue v s) = buffer s @ [v]" "pushed (enqueue v s) = pushed s @ [v]" "wpoints (enqueue v s) = wpoints s"
  "notifies (enqueue v s) = notifies s" "joiner (enqueue v s) = joiner s" "popped (enqueue v s) = popped s"
  "before_join (enqueue v s) = before_join s" "finished (enqueue v s) = finished s"
  by (simp_all add: enqueue_def push_def)

lemma join_ok_cong:
  "joiner s' = joiner s \<Longrightarrow> before_join s' = before_join s \<Longrightarrow> pushed s' = pushed s \<Longrightarrow> wpoints s' = wpoints s \<Longrightarrow>
     join_ok n s' = join_ok n s"
  by (cases "joiner s") (simp_all add: join_ok_def)

lemma pool_invI: "history_ok n s \<Longrightarrow> pills_ok n s \<Longrightarrow> wake_ok s \<Longrightarrow> join_ok n s \<Longrightarrow> pool_inv n s"
  by (simp add: pool_inv_def)

lemma pool_invD: "pool_inv n s \<Longrightarrow> history_ok n s" "pool_inv n s \<Longrightarrow> pills_ok n s" "pool_inv n s \<Longrightarrow> wake_ok s"
    "pool_inv n s \<Longrightarrow> join_ok n s"
  by (simp_all add: pool_inv_def)

lemma submit_inv:
  assumes "pool_inv n s"
  shows "pool_inv n (submit v s)"
proof (rule pool_invI)
  note inv = pool_invD [OF assms]
  show "history_ok n (submit v s)" using inv(1) by (simp add: history_ok_def submit_def)
  show "pills_ok n (submit v s)" using inv(2) by (simp add: pills_ok_def submit_def)
  show "wake_ok (submit v s)" using inv(3) by (simp add: wake_ok_def submit_def)
  show "join_ok n (submit v s)" using inv(4) by (cases "joiner s") (simp_all add: join_ok_def submit_def)
qed

lemma call_join_inv:
  assumes "pool_inv n s" "joiner s = J_Idle"
  shows "pool_inv n (s\<lparr>joiner := J_Push (length (wpoints s)), before_join := pushed s\<rparr>)"
proof (rule pool_invI)
  let ?s = "s\<lparr>joiner := J_Push (length (wpoints s)), before_join := pushed s\<rparr>"
  note inv = pool_invD [OF assms(1)]
  show "history_ok n ?s" using inv(1) by (simp add: history_ok_def)
  show "pills_ok n ?s" using inv(1) by (simp add: pills_ok_def history_ok_def)
  show "wake_ok ?s" using inv(3) assms(2) by (simp add: wake_ok_def)
  show "join_ok n ?s" by (simp add: join_ok_def)
qed

lemma push_pill_inv:
  assumes "pool_inv n s" "joiner s = J_Push (Suc k)"
  shows "pool_inv n (enqueue None s\<lparr>joiner := J_Notify k\<rparr>)"
proof (rule pool_invI)
  let ?s = "enqueue None s\<lparr>joiner := J_Notify k\<rparr>"
  note inv = pool_invD [OF assms(1)]
  show "history_ok n ?s" using inv(1) by (simp add: history_ok_def)
  show "pills_ok n ?s" using inv(2) assms(2) by (auto simp: pills_ok_def)
  show "wake_ok ?s" using inv(3) assms(2) by (simp add: wake_ok_def)
  show "join_ok n ?s" using inv(4) assms(2) by (simp add: join_ok_def)
qed

lemma joiner_moves_inv:
  assumes "pool_inv n s" "join_ok n (s\<lparr>joiner := j\<rparr>)" "pills (joiner s) n = pills j n" "left j \<le> n"
    and "\<And>k. joiner s \<noteq> J_Notify k"
  shows "pool_inv n (s\<lparr>joiner := j\<rparr>)"
proof (rule pool_invI)
  note inv = pool_invD [OF assms(1)]
  show "history_ok n (s\<lparr>joiner := j\<rparr>)" using inv(1) by (simp add: history_ok_def)
  show "pills_ok n (s\<lparr>joiner := j\<rparr>)" using inv(2) assms(3,4) by (simp add: pills_ok_def)
  show "wake_ok (s\<lparr>joiner := j\<rparr>)" using inv(3) assms(5) unfolding wake_ok_def by (cases "joiner s"; cases j) auto
qed (rule assms(2))

lemma join_step_inv:
  assumes inv: "pool_inv n s" and s': "join_step s = Some s'"
  shows "pool_inv n s'"
proof (cases "joiner s")
  case J_Idle
  with s' show ?thesis by (simp add: join_step_def)
next
  case (J_Push k)
  show ?thesis
  proof (cases k)
    case 0
    have "join_ok n (s\<lparr>joiner := J_Join 0\<rparr>)" using pool_invD(4) [OF inv] J_Push by (simp add: join_ok_def)
    with J_Push 0 have "pool_inv n (s\<lparr>joiner := J_Join 0\<rparr>)" by (intro joiner_moves_inv [OF inv]) simp_all
    with s' J_Push 0 show ?thesis by (simp add: join_step_def)
  next
    case (Suc k')
    with s' J_Push push_pill_inv [OF inv] show ?thesis by (simp add: join_step_def)
  qed
next
  case (J_Notify k)
  with s' show ?thesis by (simp add: join_step_def)
next
  case (J_Join i)
  have len: "length (wpoints s) = n" using pool_invD(1) [OF inv] by (simp add: history_ok_def)
  show ?thesis
  proof (cases "i < n")
    case True
    with s' J_Join len have over: "wpoints s ! i = W_Done" and s': "s' = s\<lparr>joiner := J_Join (i + 1)\<rparr>"
      by (auto simp: join_step_def split: if_splits)
    have "join_ok n s'" unfolding s' using pool_invD(4) [OF inv] J_Join over by (auto simp: join_ok_def less_Suc_eq)
    then show ?thesis unfolding s' using J_Join by (intro joiner_moves_inv [OF inv]) simp_all
  next
    case False
    with s' J_Join len have s': "s' = s\<lparr>joiner := J_Done\<rparr>" by (simp add: join_step_def)
    have "join_ok n s'" unfolding s' using pool_invD(4) [OF inv] J_Join False by (auto simp: join_ok_def)
    then show ?thesis unfolding s' using J_Join by (intro joiner_moves_inv [OF inv]) simp_all
  qed
next
  case J_Done
  with s' show ?thesis by (simp add: join_step_def)
qed

text \<open>A step that changes only the point of worker \<open>i\<close>, a sleeper or not.\<close>

lemma join_ok_update:
  assumes "join_ok n s" "wpoints s ! i \<noteq> W_Done"
  shows "join_ok n (s\<lparr>wpoints := (wpoints s)[i := w]\<rparr>)"
proof -
  have "(wpoints s)[i := w] ! j = W_Done" if "wpoints s ! j = W_Done" for j
    using that assms(2) by (cases "i = j") auto
  with assms(1) show ?thesis by (cases "joiner s") (auto simp: join_ok_def)
qed

lemma history_update:
  assumes "history_ok n s" "i < n" "wpoints s ! i \<in> {W_Pop, W_Woken, W_Sleep}" "w \<in> {W_Pop, W_Woken, W_Sleep}"
  shows "history_ok n (s\<lparr>wpoints := (wpoints s)[i := w]\<rparr>)"
proof -
  have i: "i < length (wpoints s)" using assms(1,2) by (simp add: history_ok_def)
  have "running ((wpoints s)[i := w]) = running (wpoints s)"
    using running_update [OF i, of w] assms(3,4) by auto
  moreover have "cnt (\<lambda>w. w = W_Done) ((wpoints s)[i := w]) = cnt (\<lambda>w. w = W_Done) (wpoints s)"
    using cnt_upd [OF i, of "\<lambda>w. w = W_Done" w] assms(3,4) by auto
  ultimately show ?thesis using assms(1) by (simp add: history_ok_def)
qed

text \<open>A sleeper that is notified: one notification less, one awake worker more.\<close>

lemma woken_inv:
  assumes inv: "pool_inv n s" and i: "i < n" "wpoints s ! i = W_Sleep"
  shows "pool_inv n (s\<lparr>wpoints := (wpoints s)[i := W_Woken]\<rparr>)" (is "pool_inv n ?s")
    and "wake_ok (s\<lparr>wpoints := (wpoints s)[i := W_Woken], notifies := notifies s - 1\<rparr>)"
    and "joiner s = J_Notify k \<Longrightarrow> wake_ok (s\<lparr>wpoints := (wpoints s)[i := W_Woken], joiner := J_Push k\<rparr>)"
proof -
  have len: "i < length (wpoints s)" using pool_invD(1) [OF inv] i(1) by (simp add: history_ok_def)
  have cnt: "cnt (\<lambda>w. w = W_Woken) ((wpoints s)[i := W_Woken]) = cnt (\<lambda>w. w = W_Woken) (wpoints s) + 1"
    using cnt_upd [OF len, of "\<lambda>w. w = W_Woken" W_Woken] i(2) by simp
  have "W_Sleep \<in> set (wpoints s)" using len i(2) nth_mem by metis
  then have wake: "length (buffer s) \<le> notifies s + cnt (\<lambda>w. w = W_Woken) (wpoints s) + (case joiner s of J_Notify _ \<Rightarrow> 1 | _ \<Rightarrow> 0)"
    using pool_invD(3) [OF inv] by (simp add: wake_ok_def)
  show "wake_ok (s\<lparr>wpoints := (wpoints s)[i := W_Woken], notifies := notifies s - 1\<rparr>)"
    using wake by (auto simp: wake_ok_def cnt)
  show "joiner s = J_Notify k \<Longrightarrow> wake_ok (s\<lparr>wpoints := (wpoints s)[i := W_Woken], joiner := J_Push k\<rparr>)"
    using wake by (simp add: wake_ok_def cnt)
  show "pool_inv n ?s"
  proof (rule pool_invI)
    show "history_ok n ?s" using history_update [OF pool_invD(1) [OF inv] i(1)] i(2) by simp
    show "pills_ok n ?s" using pool_invD(2) [OF inv] by (simp add: pills_ok_def)
    show "wake_ok ?s" using wake by (simp add: wake_ok_def cnt)
    show "join_ok n ?s" using pool_invD(4) [OF inv] i(2) by (intro join_ok_update) simp_all
  qed
qed

lemma fewer_notifies_inv:
  assumes "pool_inv n s" "wake_ok (s\<lparr>notifies := m\<rparr>)"
  shows "pool_inv n (s\<lparr>notifies := m\<rparr>)"
  using pool_invD [OF assms(1)] assms(2) join_ok_cong [of "s\<lparr>notifies := m\<rparr>" s n]
  by (intro pool_invI) (simp_all add: history_ok_def pills_ok_def)

lemma joiner_notified_inv:
  assumes "pool_inv n s" "joiner s = J_Notify k" "wake_ok (s\<lparr>joiner := J_Push k\<rparr>)"
  shows "pool_inv n (s\<lparr>joiner := J_Push k\<rparr>)"
  using pool_invD [OF assms(1)] assms(2,3)
  by (intro pool_invI) (simp_all add: history_ok_def pills_ok_def join_ok_def)

lemma notify_oneE:
  assumes "notify_one x s = Some s'"
  obtains (Nobody) "W_Sleep \<notin> set (wpoints s)" "s' = s"
  | (Sleeper) i where "i < length (wpoints s)" "wpoints s ! i = W_Sleep" "s' = s\<lparr>wpoints := (wpoints s)[i := W_Woken]\<rparr>"
proof (cases x)
  case None
  with assms that(1) show thesis by (simp split: if_splits)
next
  case (Some i)
  with assms that(2) [of i] show thesis by (simp split: if_splits)
qed

lemma notified_inv:
  assumes inv: "pool_inv n s" and x: "notify_one x s = Some s'"
  shows "pool_inv n s'" "pool_inv n (s'\<lparr>notifies := notifies s' - 1\<rparr>)"
    "joiner s = J_Notify k \<Longrightarrow> pool_inv n (s'\<lparr>joiner := J_Push k\<rparr>)"
proof -
  have len: "length (wpoints s) = n" using pool_invD(1) [OF inv] by (simp add: history_ok_def)
  have "pool_inv n s' \<and> wake_ok (s'\<lparr>notifies := notifies s' - 1\<rparr>) \<and> joiner s' = joiner s \<and>
      (joiner s = J_Notify k \<longrightarrow> wake_ok (s'\<lparr>joiner := J_Push k\<rparr>))"
    using x
  proof (cases rule: notify_oneE)
    case Nobody
    with inv show ?thesis by (simp add: wake_ok_def)
  next
    case (Sleeper i)
    with woken_inv [OF inv] len show ?thesis by simp
  qed
  then show "pool_inv n s'" "pool_inv n (s'\<lparr>notifies := notifies s' - 1\<rparr>)"
    "joiner s = J_Notify k \<Longrightarrow> pool_inv n (s'\<lparr>joiner := J_Push k\<rparr>)"
    by (simp_all add: fewer_notifies_inv joiner_notified_inv)
qed

lemma pop_inv:
  assumes inv: "pool_inv n s" and i: "i < n" "wpoints s ! i = W_Pop \<or> wpoints s ! i = W_Woken"
  shows "pool_inv n (pop i s)"
proof (cases "buffer s")
  case Nil
  then have s': "pop i s = s\<lparr>wpoints := (wpoints s)[i := W_Sleep]\<rparr>" by (simp add: pop_def)
  show ?thesis
    unfolding s'
  proof (rule pool_invI)
    let ?s = "s\<lparr>wpoints := (wpoints s)[i := W_Sleep]\<rparr>"
    show "history_ok n ?s" using history_update [OF pool_invD(1) [OF inv] i(1)] i(2) by auto
    show "pills_ok n ?s" using pool_invD(2) [OF inv] by (simp add: pills_ok_def)
    show "wake_ok ?s" using Nil by (simp add: wake_ok_def)
    show "join_ok n ?s" using pool_invD(4) [OF inv] i(2) by (intro join_ok_update) auto
  qed
next
  case (Cons v b)
  define w where "w = (case v of None \<Rightarrow> W_Done | Some t \<Rightarrow> W_Run t)"
  let ?w = "wpoints s"
  have len: "i < length ?w" using pool_invD(1) [OF inv] i(1) by (simp add: history_ok_def)
  have 1: "running (?w[i := w]) = running ?w + mset (tasks [v])"
    using running_update [OF len, of w] i(2) by (auto simp: w_def split: option.splits)
  have 2: "cnt (\<lambda>w. w = W_Done) (?w[i := w]) = cnt (\<lambda>w. w = W_Done) ?w + count_list [v] None"
    using cnt_upd [OF len, of "\<lambda>w. w = W_Done" w] i(2) by (auto simp: w_def split: option.splits)
  have 3: "cnt (\<lambda>w. w = W_Woken) ?w \<le> Suc (cnt (\<lambda>w. w = W_Woken) (?w[i := w]))"
    using cnt_upd [OF len, of "\<lambda>w. w = W_Woken" w] by (auto simp: w_def split: option.splits)
  have 4: "W_Sleep \<in> set (?w[i := w]) \<Longrightarrow> W_Sleep \<in> set ?w"
    by (erule sleeper_update) (simp add: w_def split: option.splits)
  have s': "pop i s = s\<lparr>wpoints := ?w[i := w], buffer := b, popped := popped s @ [v]\<rparr>"
    by (simp add: pop_def Cons w_def)
  show ?thesis
    unfolding s'
  proof (rule pool_invI)
    let ?s = "s\<lparr>wpoints := ?w[i := w], buffer := b, popped := popped s @ [v]\<rparr>"
    show "history_ok n ?s" using pool_invD(1) [OF inv] Cons by (simp add: history_ok_def 1 2)
    show "pills_ok n ?s" using pool_invD(2) [OF inv] by (simp add: pills_ok_def)
    show "wake_ok ?s"
      unfolding wake_ok_def
    proof
      assume "W_Sleep \<in> set (wpoints ?s)"
      then have "W_Sleep \<in> set ?w" using 4 by simp
      then have "length (buffer s) \<le> notifies s + cnt (\<lambda>w. w = W_Woken) ?w + (case joiner s of J_Notify _ \<Rightarrow> 1 | _ \<Rightarrow> 0)"
        using pool_invD(3) [OF inv] by (simp add: wake_ok_def)
      with 3 Cons show "length (buffer ?s) \<le> notifies ?s + cnt (\<lambda>w. w = W_Woken) (wpoints ?s) +
          (case joiner ?s of J_Notify _ \<Rightarrow> 1 | _ \<Rightarrow> 0)" by simp
    qed
    have "join_ok n (s\<lparr>wpoints := ?w[i := w]\<rparr>)" using pool_invD(4) [OF inv] i(2) by (intro join_ok_update) auto
    then show "join_ok n ?s" by (rule join_ok_cong [THEN iffD2, rotated 4]) simp_all
  qed
qed

text \<open>A worker whose task has returned.\<close>

lemma return_inv:
  assumes inv: "pool_inv n s" and i: "i < n" "wpoints s ! i = W_Run t"
  shows "pool_inv n (s\<lparr>wpoints := (wpoints s)[i := W_Pop], finished := finished s @ [t]\<rparr>)"
proof (rule pool_invI)
  let ?w = "wpoints s" let ?s = "s\<lparr>wpoints := ?w[i := W_Pop], finished := finished s @ [t]\<rparr>"
  have len: "i < length ?w" using pool_invD(1) [OF inv] i(1) by (simp add: history_ok_def)
  have "running ?w = running (?w[i := W_Pop]) + {#t#}" using running_update [OF len, of W_Pop] i(2) by simp
  moreover have "cnt (\<lambda>w. w = W_Done) (?w[i := W_Pop]) = cnt (\<lambda>w. w = W_Done) ?w"
    using cnt_upd [OF len, of "\<lambda>w. w = W_Done" W_Pop] i(2) by simp
  ultimately show "history_ok n ?s" using pool_invD(1) [OF inv] by (simp add: history_ok_def)
  show "pills_ok n ?s" using pool_invD(2) [OF inv] by (simp add: pills_ok_def)
  have "cnt (\<lambda>w. w = W_Woken) (?w[i := W_Pop]) = cnt (\<lambda>w. w = W_Woken) ?w"
    using cnt_upd [OF len, of "\<lambda>w. w = W_Woken" W_Pop] i(2) by simp
  moreover have "W_Sleep \<in> set (?w[i := W_Pop]) \<Longrightarrow> W_Sleep \<in> set ?w" by (erule sleeper_update) simp
  ultimately show "wake_ok ?s" using pool_invD(3) [OF inv] by (auto simp: wake_ok_def)
  have "join_ok n (s\<lparr>wpoints := ?w[i := W_Pop]\<rparr>)" using pool_invD(4) [OF inv] i(2) by (intro join_ok_update) simp_all
  then show "join_ok n ?s"
    by (rule join_ok_cong [THEN iffD2, rotated 4]) simp_all
qed

lemma worker_inv:
  assumes inv: "pool_inv n s" and i: "i < length (wpoints s)" "worker_routine i s = Some s'"
  shows "pool_inv n s'"
proof -
  have "i < n" using pool_invD(1) [OF inv] i(1) by (simp add: history_ok_def)
  with i(2) show ?thesis
    by (auto simp: worker_routine_def split: wpoint.splits intro: pop_inv [OF inv] return_inv [OF inv])
qed

lemma pool_step_inv: "pool_step s s' \<Longrightarrow> pool_inv n s \<Longrightarrow> pool_inv n s'"
  unfolding pool_step_def
  by (auto elim!: pool_work.cases pool_env.cases intro: worker_inv notified_inv join_step_inv submit_inv call_join_inv)

lemma pool_reachable_inv: "pool_step\<^sup>*\<^sup>* (new_pool n) s \<Longrightarrow> pool_inv n s"
  by (induction rule: rtranclp_induct) (auto intro: new_pool_inv pool_step_inv)

section \<open>What the pool promises\<close>

lemma tasks_prefix: "prefix xs ys \<Longrightarrow> mset (tasks xs) \<subseteq># mset (tasks ys)"
  by (auto simp: prefix_def)

lemma prefix_before_pill:
  assumes "prefix b (p @ q)" "None \<in> set p" "None \<notin> set b"
  shows "prefix b p"
  using assms by (auto simp: prefix_append)

text \<open>
  C17: The tasks are taken from the queue in the order in which they were submitted, and each of them is run exactly
  once: the tasks that have been taken are the running ones and the finished ones.
\<close>

theorem thread_pool_fifo_exactly_once:
  assumes "pool_step\<^sup>*\<^sup>* (new_pool n) s"
  shows "pushed s = popped s @ buffer s \<and> mset (tasks (popped s)) = running (wpoints s) + mset (finished s)"
  using pool_invD(1) [OF pool_reachable_inv [OF assms]] by (simp add: history_ok_def)

text \<open>
  C15: When \<open>join\<close> returns, every worker has left its loop and every task submitted before the call of \<open>join\<close> has
  been run to its end, however the submitting threads, the workers, the notifications and spurious wake-ups
  interleave (with at least one worker, and if none of these tasks is the empty function, which stops a worker).
\<close>

theorem thread_pool_join_runs_all:
  assumes "pool_step\<^sup>*\<^sup>* (new_pool n) s" "joiner s = J_Done" "0 < n" "None \<notin> set (before_join s)"
  shows "mset (tasks (before_join s)) \<subseteq># mset (finished s) \<and> (\<forall>w \<in> set (wpoints s). w = W_Done)"
proof -
  note inv = pool_invD [OF pool_reachable_inv [OF assms(1)]]
  have h: "length (wpoints s) = n" "pushed s = popped s @ buffer s"
    "mset (tasks (popped s)) = running (wpoints s) + mset (finished s)"
    "cnt (\<lambda>w. w = W_Done) (wpoints s) = count_list (popped s) None"
    using inv(1) by (simp_all add: history_ok_def)
  have over: "\<forall>w \<in> set (wpoints s). w = W_Done"
    using inv(4) assms(2) h(1) by (auto simp: join_ok_def in_set_conv_nth)
  then have "wpoints s = replicate n W_Done" using h(1) by (metis replicate_length_same)
  then have "running (wpoints s) = {#}" "count_list (popped s) None = n"
    using h(4) by (simp_all add: cnt_replicate)
  moreover have "None \<in> set (popped s)" using calculation(2) assms(3) count_list_0_iff by (metis less_irrefl)
  then have "prefix (before_join s) (popped s)"
    using inv(4) assms(2,4) h(2) prefix_before_pill [of "before_join s" "popped s" "buffer s"] by (simp add: join_ok_def)
  ultimately show ?thesis using over h(3) tasks_prefix [of "before_join s" "popped s"] by simp
qed

section \<open>Progress\<close>

fun joiner_weight :: "nat \<Rightarrow> jpoint \<Rightarrow> nat" where
  "joiner_weight n J_Idle = 0"
| "joiner_weight n (J_Push k) = 6 * k + n + 2"
| "joiner_weight n (J_Notify k) = 6 * k + n + 4"
| "joiner_weight n (J_Join i) = n - i + 1"
| "joiner_weight n J_Done = 0"

fun worker_weight :: "'a wpoint \<Rightarrow> nat" where
  "worker_weight W_Pop = 1"
| "worker_weight W_Woken = 1"
| "worker_weight W_Sleep = 0"
| "worker_weight (W_Run t) = 2"
| "worker_weight W_Done = 0"

definition pool_measure :: "'a pool \<Rightarrow> nat" where
  "pool_measure s = joiner_weight (length (wpoints s)) (joiner s) + 2 * length (buffer s) + 2 * notifies s +
     sum_list (map worker_weight (wpoints s))"

lemma weight_update:
  "i < length ws \<Longrightarrow> sum_list (map worker_weight (ws[i := w])) + worker_weight (ws ! i) =
     sum_list (map worker_weight ws) + worker_weight w"
proof (induction ws arbitrary: i)
  case (Cons u ws)
  then show ?case by (cases i) auto
qed simp

lemma pool_work_decreases: "pool_work s s' \<Longrightarrow> pool_measure s' < pool_measure s"
proof (induction rule: pool_work.induct)
  case (worker i s s')
  note upd = weight_update [OF worker(1)]
  show ?case
  proof (cases "\<exists>t. wpoints s ! i = W_Run t")
    case True
    then show ?thesis using worker upd [of W_Pop] by (auto simp: worker_routine_def pool_measure_def)
  next
    case False
    with worker(2) have s': "s' = pop i s" and "worker_weight (wpoints s ! i) = 1"
      by (auto simp: worker_routine_def split: wpoint.splits)
    then show ?thesis
      using upd [of W_Sleep] upd [of W_Done] upd [of "W_Run _"]
      by (cases "buffer s") (auto simp: pop_def pool_measure_def split: option.splits)
  qed
next
  case (notify s x s')
  from notify(2) show ?case
  proof (cases rule: notify_oneE)
    case Nobody
    with notify(1) show ?thesis by (simp add: pool_measure_def)
  next
    case (Sleeper i)
    with notify(1) weight_update [OF Sleeper(1), of W_Woken] show ?thesis by (simp add: pool_measure_def)
  qed
next
  case (join_notify s k x s')
  from join_notify(2) show ?case
  proof (cases rule: notify_oneE)
    case Nobody
    with join_notify(1) show ?thesis by (simp add: pool_measure_def)
  next
    case (Sleeper i)
    with join_notify(1) weight_update [OF Sleeper(1), of W_Woken] show ?thesis by (simp add: pool_measure_def)
  qed
next
  case (joins s s')
  then show ?case
    by (auto simp: join_step_def pool_measure_def split: jpoint.splits nat.splits if_splits)
qed

lemma cnt_full: "cnt P xs = length xs \<longleftrightarrow> (\<forall>x \<in> set xs. P x)"
proof (induction xs)
  case (Cons x xs)
  have "length (filter P xs) \<noteq> Suc (length xs)" using length_filter_le [of P xs] by linarith
  then show ?case using Cons by (simp add: cnt_def)
qed (simp add: cnt_def)

lemma notify_enabled: "\<exists>x s'. notify_one x s = Some s'"
proof (cases "W_Sleep \<in> set (wpoints s)")
  case True
  then obtain i where "i < length (wpoints s)" "wpoints s ! i = W_Sleep" by (auto simp: in_set_conv_nth)
  then show ?thesis by (intro exI [of _ "Some i"]) simp
next
  case False
  then show ?thesis by (intro exI [of _ None]) simp
qed

text \<open>While \<open>join\<close> has not returned, some thread can move.\<close>

lemma join_enabled:
  assumes inv: "pool_inv n s" and "joiner s \<noteq> J_Idle" "joiner s \<noteq> J_Done"
  shows "\<exists>s'. pool_work s s'"
proof (cases "\<exists>i. joiner s = J_Join i \<and> i < n \<and> wpoints s ! i \<noteq> W_Done")
  case False
  show ?thesis
  proof (cases "\<exists>k. joiner s = J_Notify k")
    case True
    with notify_enabled [of s] show ?thesis by (blast intro: pool_work.join_notify)
  next
    case no: False
    have "\<exists>s'. join_step s = Some s'"
      using False no assms pool_invD(1) [OF inv]
      by (auto simp: join_step_def history_ok_def split: jpoint.splits nat.splits)
    then show ?thesis by (blast intro: pool_work.joins)
  qed
next
  case True
  then obtain i where i: "joiner s = J_Join i" "i < n" "wpoints s ! i \<noteq> W_Done" by blast
  have len: "length (wpoints s) = n" using pool_invD(1) [OF inv] by (simp add: history_ok_def)
  show ?thesis
  proof (cases "worker_routine i s")
    case (Some s')
    with i(2) len show ?thesis by (blast intro: pool_work.worker)
  next
    case None
    with i(3) have sleep: "wpoints s ! i = W_Sleep" by (auto simp: worker_routine_def split: wpoint.splits)
    have "cnt (\<lambda>w. w = W_Done) (wpoints s) < n"
      using i(2,3) len cnt_full [of "\<lambda>w. w = W_Done" "wpoints s"] cnt_le_length [of "\<lambda>w. w = W_Done" "wpoints s"] nth_mem [of i "wpoints s"]
      by auto
    moreover have "n \<le> count_list (pushed s) None" using pool_invD(2) [OF inv] i(1) by (simp add: pills_ok_def)
    ultimately have "buffer s \<noteq> []" using pool_invD(1) [OF inv] by (auto simp: history_ok_def)
    moreover have "W_Sleep \<in> set (wpoints s)" using sleep i(2) len nth_mem by metis
    ultimately have "0 < notifies s \<or> 0 < cnt (\<lambda>w. w = W_Woken) (wpoints s)"
      using pool_invD(3) [OF inv] i(1) by (auto simp: wake_ok_def simp flip: length_greater_0_conv)
    then show ?thesis
    proof
      assume "0 < notifies s"
      with notify_enabled [of s] show ?thesis by (blast intro: pool_work.notify)
    next
      assume "0 < cnt (\<lambda>w. w = W_Woken) (wpoints s)"
      then obtain j where "j < length (wpoints s)" "wpoints s ! j = W_Woken" by (auto simp: cnt_ex)
      then show ?thesis by (intro exI pool_work.worker [of j]) (simp_all add: worker_routine_def)
    qed
  qed
qed

lemma joiner_stays:
  assumes "pool_work s t" "joiner s \<noteq> J_Idle"
  shows "joiner t \<noteq> J_Idle"
  using assms
proof (induction rule: pool_work.induct)
  case (worker i s s')
  then show ?case by (auto simp: worker_routine_def pop_def split: wpoint.splits option.splits)
next
  case (notify s x s')
  from notify(2) show ?case by (cases rule: notify_oneE) (use notify(3) in simp_all)
next
  case (join_notify s k x s')
  show ?case by simp
next
  case (joins s s')
  then show ?case by (auto simp: join_step_def split: jpoint.splits nat.splits if_splits)
qed

text \<open>
  C16: \<open>join\<close> cannot hang: no wake-up is lost. While \<open>join\<close> has not returned some thread can move, and every move
  of the workers, of the notifying threads and of \<open>join\<close> itself decreases a measure, so that when nothing more is
  submitted and the tasks return, all schedules lead to the return of \<open>join\<close>.
\<close>

theorem thread_pool_join_returns:
  assumes "pool_step\<^sup>*\<^sup>* (new_pool n) s" "joiner s \<noteq> J_Idle"
  shows "(joiner s = J_Done \<or> (\<exists>s'. pool_work s s')) \<and> (\<forall>s'. pool_work s s' \<longrightarrow> pool_measure s' < pool_measure s) \<and>
    (\<exists>s'. pool_work\<^sup>*\<^sup>* s s' \<and> joiner s' = J_Done)"
proof -
  have inv: "pool_inv n s" using pool_reachable_inv assms(1) by blast
  have "\<exists>s'. pool_work\<^sup>*\<^sup>* s s' \<and> joiner s' = J_Done" using inv assms(2)
  proof (induction "pool_measure s" arbitrary: s rule: less_induct)
    case less
    show ?case
    proof (cases "joiner s = J_Done")
      case False
      then obtain t where t: "pool_work s t" using join_enabled less.prems by blast
      have "joiner t \<noteq> J_Idle" using joiner_stays [OF t] less.prems(2) by simp
      moreover have "pool_inv n t" using pool_step_inv t less.prems(1) by (auto simp: pool_step_def)
      ultimately obtain s' where "pool_work\<^sup>*\<^sup>* t s'" "joiner s' = J_Done"
        using less.hyps [OF pool_work_decreases [OF t]] by blast
      with t show ?thesis by (meson converse_rtranclp_into_rtranclp)
    qed auto
  qed
  then show ?thesis using join_enabled [OF inv assms(2)] pool_work_decreases by blast
qed

section \<open>A run\<close>

text \<open>One worker, the task 7, and \<open>join\<close>.\<close>

definition finished_pool :: "nat pool" where
  "finished_pool = \<lparr>buffer = [], wpoints = [W_Done], notifies = 1, joiner = J_Done, pushed = [Some 7, None],
     popped = [Some 7, None], before_join = [Some 7], finished = [7]\<rparr>"

lemma pool_run: "pool_step\<^sup>*\<^sup>* (new_pool 1) finished_pool"
proof -
  define a :: "nat pool" where "a = submit (Some 7) (new_pool 1)"
  define b where "b = a\<lparr>joiner := J_Push (length (wpoints a)), before_join := pushed a\<rparr>"
  define c where "c = enqueue None b\<lparr>joiner := J_Notify 0\<rparr>"
  define d where "d = c\<lparr>joiner := J_Push 0\<rparr>"
  define e where "e = d\<lparr>joiner := J_Join 0\<rparr>"
  define f where "f = pop 0 e"
  define g where "g = f\<lparr>wpoints := (wpoints f)[0 := W_Pop], finished := finished f @ [7]\<rparr>"
  define h where "h = pop 0 g"
  define i where "i = h\<lparr>joiner := J_Join 1\<rparr>"
  define j where "j = i\<lparr>joiner := J_Done\<rparr>"
  note defs = new_pool_def submit_def enqueue_def push_def pop_def a_def b_def c_def d_def e_def f_def g_def h_def i_def j_def
  have "pool_step (new_pool 1) a" unfolding a_def pool_step_def by (blast intro: submits)
  moreover have "pool_step a b" unfolding b_def pool_step_def by (intro disjI2 call_join) (simp add: defs)
  moreover have "pool_step b c" unfolding pool_step_def by (intro disjI1 joins) (simp add: join_step_def defs)
  moreover have "pool_step c d" unfolding pool_step_def d_def
    by (intro disjI1 join_notify [of _ _ None]) (simp_all add: defs)
  moreover have "pool_step d e" unfolding pool_step_def by (intro disjI1 joins) (simp add: join_step_def defs)
  moreover have "pool_step e f" unfolding pool_step_def by (intro disjI1 worker [of 0]) (simp_all add: worker_routine_def defs)
  moreover have "pool_step f g" unfolding pool_step_def by (intro disjI1 worker [of 0]) (simp_all add: worker_routine_def defs)
  moreover have "pool_step g h" unfolding pool_step_def by (intro disjI1 worker [of 0]) (simp_all add: worker_routine_def defs)
  moreover have "pool_step h i" unfolding pool_step_def by (intro disjI1 joins) (simp add: join_step_def defs)
  moreover have "pool_step i j" unfolding pool_step_def by (intro disjI1 joins) (simp add: join_step_def defs)
  ultimately have "pool_step\<^sup>*\<^sup>* (new_pool 1) j" by (meson r_into_rtranclp rtranclp_trans)
  moreover have "j = finished_pool" by (simp add: defs finished_pool_def)
  ultimately show ?thesis by simp
qed

theorem thread_pool_fifo_exactly_once_witness:
  "mset (tasks (popped finished_pool)) = running (wpoints finished_pool) + mset (finished finished_pool)"
  using thread_pool_fifo_exactly_once [OF pool_run] by blast

theorem thread_pool_join_runs_all_witness:
  "mset (tasks (before_join finished_pool)) \<subseteq># mset (finished finished_pool)"
  using thread_pool_join_runs_all [OF pool_run] by (simp add: finished_pool_def)

theorem thread_pool_join_returns_witness:
  "\<exists>s'. pool_work\<^sup>*\<^sup>* finished_pool s' \<and> joiner s' = J_Done"
  using thread_pool_join_returns [OF pool_run] by (simp add: finished_pool_def)

text \<open>A task that is submitted after \<open>join\<close> was called may never run: here it stays in the buffer.\<close>

theorem submitted_after_join_lost: "\<exists>s. pool_step\<^sup>*\<^sup>* (new_pool 1) s \<and> joiner s = J_Done \<and> buffer s = [Some (8::nat)]"
proof -
  have "pool_step finished_pool (submit (Some 8) finished_pool)" unfolding pool_step_def by (blast intro: submits)
  then have "pool_step\<^sup>*\<^sup>* (new_pool 1) (submit (Some 8) finished_pool)" using pool_run by (rule rtranclp.rtrancl_into_rtrancl [rotated])
  then show ?thesis by (intro exI [of _ "submit (Some 8) finished_pool"]) (simp add: submit_def enqueue_def push_def finished_pool_def)
qed

end
