(* ===== verification/Stack_Spec.thy ===== *)
theory Stack_Spec
  imports Prelude
begin

text \<open>
  The sequential specification that the lock-free and the blocking stack share: a history of events replayed on a list,
  whose front is the top; and the contract of a linearizable stack, which both interpret.
\<close>

text \<open>What an operation has done, at the step where it takes effect.\<close>

datatype 'a event = Pushed 'a | Popped "'a option"

text \<open>The histories of a stack: the stack that they lead to, or \<open>None\<close> when a pop did not return the top.\<close>

fun replay :: "'a event list \<Rightarrow> 'a list \<Rightarrow> 'a list option" where
  "replay [] xs = Some xs"
| "replay (Pushed v # es) xs = replay es (v # xs)"
| "replay (Popped None # es) [] = replay es []"
| "replay (Popped (Some v) # es) (x # xs) = (if x = v then replay es xs else None)"
| "replay (Popped _ # es) xs = None"

lemma replay_append: "replay (es @ fs) xs = (case replay es xs of None \<Rightarrow> None | Some ys \<Rightarrow> replay fs ys)"
  by (induction es xs rule: replay.induct) auto

fun pushed :: "'a event list \<Rightarrow> 'a list" where
  "pushed [] = []"
| "pushed (Pushed v # es) = v # pushed es"
| "pushed (Popped _ # es) = pushed es"

fun popped :: "'a event list \<Rightarrow> 'a list" where
  "popped [] = []"
| "popped (Popped (Some v) # es) = v # popped es"
| "popped (_ # es) = popped es"

lemma replay_conserves: "replay es xs = Some ys \<Longrightarrow> mset (pushed es) + mset xs = mset (popped es) + mset ys"
  by (induction es xs rule: replay.induct) (auto split: if_splits)

text \<open>
  A concurrent stack: its steps, the history of its operations in the order in which they take effect, and the contents
  that a state stands for. Every history is one of a sequential stack with those contents.
\<close>

locale linearizable_stack =
  fixes init :: 's
    and step :: "'s \<Rightarrow> 's \<Rightarrow> bool"
    and events :: "'s \<Rightarrow> 'a event list"
    and stands_for :: "'s \<Rightarrow> 'a list \<Rightarrow> bool"
  assumes linearizable: "step\<^sup>*\<^sup>* init s \<Longrightarrow> \<exists>xs. stands_for s xs \<and> replay (events s) [] = Some xs"
begin

text \<open>No value is lost, duplicated or made up: the values pushed are those popped and those still there.\<close>

lemma values_conserved:
  assumes "step\<^sup>*\<^sup>* init s"
  shows "\<exists>xs. stands_for s xs \<and> mset (pushed (events s)) = mset (popped (events s)) + mset xs"
proof -
  obtain xs where xs: "stands_for s xs" "replay (events s) [] = Some xs" using linearizable [OF assms] by blast
  from replay_conserves [OF xs(2)] xs(1) show ?thesis by auto
qed

end

end
