(* ===== verification/Lock_Free_Stack.thy ===== *)
theory Lock_Free_Stack
  imports Prelude Counting Stack_Spec
begin

text \<open>
  \<open>lock_free_stack\<close> of \<open>concurrency/lockfree/stack.hpp\<close>: any number of threads that push and pop. A step is one
  access to shared memory (an atomic operation, or an access to a node); the atomics are sequentially consistent.
  Nodes live in memory under addresses, so that an access to a deleted node is visible as a fault, and the allocator
  may give the address of a deleted node to a new one.
\<close>

section \<open>The code\<close>

type_synonym addr = nat

text \<open>
  The points of \<open>push\<close> and \<open>pop\<close>. From \<open>Try_Load\<close> to \<open>Erase\<close> the thread is in \<open>try_to_erase_free_list\<close>; the first
  argument is the node that \<open>pop\<close> has unlinked with its value, or \<open>None\<close> when the stack was empty.
\<close>

datatype 'a lpoint =
    Idle
  | Push_Load 'a
  | Push_New 'a "addr option"
  | Push_Cas 'a addr
  | Push_Return 'a
  | Pop_Enter
  | Pop_Load
  | Pop_Next addr
  | Pop_Cas addr "addr option"
  | Pop_Take addr
  | Try_Load "(addr \<times> 'a) option"
  | Try_Count "(addr \<times> 'a) option" addr
  | Try_Cas "(addr \<times> 'a) option" addr
  | Erase "(addr \<times> 'a) option" "addr option"
  | Pop_Dec "(addr \<times> 'a) option"
  | Pop_Delete addr 'a
  | Free_Load addr 'a
  | Free_Store addr 'a "addr option"
  | Free_Cas addr 'a
  | Pop_Return "'a option"

text \<open>
  \<open>used\<close> are the addresses given out so far, \<open>log\<close> the events in order, \<open>effect\<close> the event of each thread's current
  operation; these three are history and not read by the code.
\<close>

record 'a lf_stack =
  memory :: "addr \<Rightarrow> ('a \<times> addr option) option"
  stack :: "addr option"
  free_stack :: "addr option"
  popped_count :: nat
  points :: "'a lpoint list"
  used :: "addr list"
  log :: "'a event list"
  effect :: "'a event option list"

definition new_lf_stack :: "nat \<Rightarrow> 'a lf_stack" where
  "new_lf_stack n = \<lparr>memory = (\<lambda>_. None), stack = None, free_stack = None, popped_count = 0, points = replicate n Idle,
     used = [], log = [], effect = replicate n None\<rparr>"

definition goto :: "nat \<Rightarrow> 'a lpoint \<Rightarrow> 'a lf_stack \<Rightarrow> 'a lf_stack" where
  "goto i p s = s\<lparr>points := (points s)[i := p]\<rparr>"

definition happens :: "nat \<Rightarrow> 'a event \<Rightarrow> 'a lf_stack \<Rightarrow> 'a lf_stack" where
  "happens i e s = s\<lparr>log := log s @ [e], effect := (effect s)[i := Some e]\<rparr>"

definition set_next :: "addr \<Rightarrow> addr option \<Rightarrow> 'a lf_stack \<Rightarrow> 'a lf_stack option" where
  "set_next c n s = (case memory s c of None \<Rightarrow> None | Some (v, _) \<Rightarrow> Some (s\<lparr>memory := (memory s)(c := Some (v, n))\<rparr>))"

definition delete_node :: "addr \<Rightarrow> 'a lf_stack \<Rightarrow> 'a lf_stack option" where
  "delete_node c s = (if memory s c = None then None else Some (s\<lparr>memory := (memory s)(c := None)\<rparr>))"

text \<open>The value of \<open>current\<close> that \<open>pop\<close> has just read from \<open>stack_\<close>; a null pointer means empty.\<close>

definition pop_current :: "nat \<Rightarrow> addr option \<Rightarrow> 'a lf_stack \<Rightarrow> 'a lf_stack" where
  "pop_current i current s =
     (case current of None \<Rightarrow> goto i (Try_Load None) (happens i (Popped None) s) | Some c \<Rightarrow> goto i (Pop_Next c) s)"

text \<open>
  \<open>weak_fails\<close>: the weak exchange fails although the values agree; \<open>new_addr\<close>: what \<open>new\<close> returns. \<open>None\<close> is an access
  to a node that does not exist.
\<close>

record choice =
  weak_fails :: bool
  new_addr :: addr

fun lf_code :: "choice \<Rightarrow> nat \<Rightarrow> 'a lpoint \<Rightarrow> 'a lf_stack \<Rightarrow> 'a lf_stack option" where
  "lf_code ch i Idle s = Some s"
| "lf_code ch i (Push_Load v) s = Some (goto i (Push_New v (stack s)) s)"
| "lf_code ch i (Push_New v n) s =
     (let p = new_addr ch in Some (goto i (Push_Cas v p) (s\<lparr>memory := (memory s)(p := Some (v, n)), used := p # used s\<rparr>)))"
| "lf_code ch i (Push_Cas v p) s =
     (case memory s p of
        None \<Rightarrow> None
      | Some (_, n) \<Rightarrow>
          if stack s = n \<and> \<not> weak_fails ch
          then Some (goto i (Push_Return v) (happens i (Pushed v) (s\<lparr>stack := Some p\<rparr>)))
          else set_next p (stack s) s)"
| "lf_code ch i (Push_Return v) s = Some (goto i Idle s)"
| "lf_code ch i Pop_Enter s = Some (goto i Pop_Load (s\<lparr>popped_count := popped_count s + 1\<rparr>))"
| "lf_code ch i Pop_Load s = Some (pop_current i (stack s) s)"
| "lf_code ch i (Pop_Next c) s =
     (case memory s c of None \<Rightarrow> None | Some (_, n) \<Rightarrow> Some (goto i (Pop_Cas c n) s))"
| "lf_code ch i (Pop_Cas c n) s =
     (if stack s = Some c \<and> \<not> weak_fails ch
      then Some (goto i (Pop_Take c) (happens i (Popped (map_option fst (memory s c))) (s\<lparr>stack := n\<rparr>)))
      else Some (pop_current i (stack s) s))"
| "lf_code ch i (Pop_Take c) s =
     (case memory s c of None \<Rightarrow> None | Some (v, _) \<Rightarrow> Some (goto i (Try_Load (Some (c, v))) s))"
| "lf_code ch i (Try_Load k) s =
     (case free_stack s of None \<Rightarrow> Some (goto i (Pop_Dec k) s) | Some f \<Rightarrow> Some (goto i (Try_Count k f) s))"
| "lf_code ch i (Try_Count k f) s =
     (if popped_count s = 1 then Some (goto i (Try_Cas k f) s) else Some (goto i (Pop_Dec k) s))"
| "lf_code ch i (Try_Cas k f) s =
     (if free_stack s = Some f then Some (goto i (Erase k (Some f)) (s\<lparr>free_stack := None\<rparr>)) else Some (goto i (Pop_Dec k) s))"
| "lf_code ch i (Erase k None) s = Some (goto i (Pop_Dec k) s)"
| "lf_code ch i (Erase k (Some c)) s =
     (case memory s c of
        None \<Rightarrow> None
      | Some (_, n) \<Rightarrow> (case delete_node c s of None \<Rightarrow> None | Some s \<Rightarrow> Some (goto i (Erase k n) s)))"
| "lf_code ch i (Pop_Dec k) s =
     (let s = s\<lparr>popped_count := popped_count s - 1\<rparr> in
      case k of
        None \<Rightarrow> Some (goto i (Pop_Return None) s)
      | Some (c, v) \<Rightarrow> if popped_count s = 0 then Some (goto i (Pop_Delete c v) s) else Some (goto i (Free_Load c v) s))"
| "lf_code ch i (Pop_Delete c v) s =
     (case delete_node c s of None \<Rightarrow> None | Some s \<Rightarrow> Some (goto i (Pop_Return (Some v)) s))"
| "lf_code ch i (Free_Load c v) s = Some (goto i (Free_Store c v (free_stack s)) s)"
| "lf_code ch i (Free_Store c v n) s =
     (case set_next c n s of None \<Rightarrow> None | Some s \<Rightarrow> Some (goto i (Free_Cas c v) s))"
| "lf_code ch i (Free_Cas c v) s =
     (case memory s c of
        None \<Rightarrow> None
      | Some (_, n) \<Rightarrow>
          if free_stack s = n \<and> \<not> weak_fails ch
          then Some (goto i (Pop_Return (Some v)) (s\<lparr>free_stack := Some c\<rparr>))
          else set_next c (free_stack s) s)"
| "lf_code ch i (Pop_Return r) s = Some (goto i Idle s)"

text \<open>The allocator gives out an address that holds no node; unless \<open>reuse\<close>, one that never has.\<close>

definition may_allocate :: "bool \<Rightarrow> addr \<Rightarrow> 'a lf_stack \<Rightarrow> bool" where
  "may_allocate reuse p s \<longleftrightarrow> memory s p = None \<and> (reuse \<or> p \<notin> set (used s))"

definition may_run :: "bool \<Rightarrow> choice \<Rightarrow> nat \<Rightarrow> 'a lf_stack \<Rightarrow> bool" where
  "may_run reuse ch i s \<longleftrightarrow> i < length (points s) \<and> points s ! i \<noteq> Idle \<and>
     (case points s ! i of Push_New _ _ \<Rightarrow> may_allocate reuse (new_addr ch) s | _ \<Rightarrow> True)"

definition call :: "nat \<Rightarrow> 'a lpoint \<Rightarrow> 'a lf_stack \<Rightarrow> 'a lf_stack" where
  "call i p s = goto i p (s\<lparr>effect := (effect s)[i := None]\<rparr>)"

inductive lf_step :: "bool \<Rightarrow> 'a lf_stack \<Rightarrow> 'a lf_stack \<Rightarrow> bool" for reuse where
  call_push: "i < length (points s) \<Longrightarrow> points s ! i = Idle \<Longrightarrow> lf_step reuse s (call i (Push_Load v) s)"
| call_pop: "i < length (points s) \<Longrightarrow> points s ! i = Idle \<Longrightarrow> lf_step reuse s (call i Pop_Enter s)"
| runs: "may_run reuse ch i s \<Longrightarrow> lf_code ch i (points s ! i) s = Some s' \<Longrightarrow> lf_step reuse s s'"

text \<open>Some thread may access a node that has been deleted, or delete it again.\<close>

definition faults :: "bool \<Rightarrow> 'a lf_stack \<Rightarrow> bool" where
  "faults reuse s \<longleftrightarrow> (\<exists>ch i. may_run reuse ch i s \<and> lf_code ch i (points s ! i) s = None)"

text \<open>\<open>~lock_free_stack\<close>.\<close>

fun erase_list :: "nat \<Rightarrow> addr option \<Rightarrow> 'a lf_stack \<Rightarrow> 'a lf_stack option" where
  "erase_list fuel None s = Some s"
| "erase_list 0 (Some c) s = None"
| "erase_list (Suc fuel) (Some c) s =
     (case memory s c of
        None \<Rightarrow> None
      | Some (_, n) \<Rightarrow> (case delete_node c s of None \<Rightarrow> None | Some s \<Rightarrow> erase_list fuel n s))"

definition lf_destroy :: "nat \<Rightarrow> 'a lf_stack \<Rightarrow> 'a lf_stack option" where
  "lf_destroy fuel s = (case erase_list fuel (stack s) s of None \<Rightarrow> None | Some s' \<Rightarrow> erase_list fuel (free_stack s) s')"

section \<open>The specification\<close>

text \<open>The list of addresses that starts at a pointer, and what it holds.\<close>

fun linked :: "(addr \<Rightarrow> ('a \<times> addr option) option) \<Rightarrow> addr option \<Rightarrow> addr list \<Rightarrow> bool" where
  "linked m p [] \<longleftrightarrow> p = None"
| "linked m p (a # cs) \<longleftrightarrow> p = Some a \<and> (\<exists>v n. m a = Some (v, n) \<and> linked m n cs)"

definition node_values :: "(addr \<Rightarrow> ('a \<times> addr option) option) \<Rightarrow> addr list \<Rightarrow> 'a list" where
  "node_values m cs = map (fst \<circ> the \<circ> m) cs"


section \<open>A schedule that breaks it\<close>

text \<open>A schedule names the thread that moves; an idle thread starts the given operation.\<close>

datatype 'a move = Call nat "'a lpoint" | Run nat addr

fun run_schedule :: "bool \<Rightarrow> 'a move list \<Rightarrow> 'a lf_stack \<Rightarrow> 'a lf_stack option" where
  "run_schedule reuse [] s = Some s"
| "run_schedule reuse (Call i p # ms) s =
     (if i < length (points s) \<and> (case points s ! i of Idle \<Rightarrow> True | _ \<Rightarrow> False) \<and>
         (case p of Push_Load _ \<Rightarrow> True | Pop_Enter \<Rightarrow> True | _ \<Rightarrow> False)
      then run_schedule reuse ms (call i p s) else None)"
| "run_schedule reuse (Run i a # ms) s =
     (let ch = \<lparr>weak_fails = False, new_addr = a\<rparr> in
      if i < length (points s) \<and> (case points s ! i of Idle \<Rightarrow> False | _ \<Rightarrow> True) \<and>
         (case points s ! i of Push_New _ _ \<Rightarrow> (case memory s a of None \<Rightarrow> True | _ \<Rightarrow> False) \<and> (reuse \<or> a \<notin> set (used s)) | _ \<Rightarrow> True)
      then case lf_code ch i (points s ! i) s of None \<Rightarrow> None | Some s' \<Rightarrow> run_schedule reuse ms s'
      else None)"

lemma run_schedule_reachable: "run_schedule reuse ms s = Some s' \<Longrightarrow> (lf_step reuse)\<^sup>*\<^sup>* s s'"
proof (induction reuse ms s rule: run_schedule.induct)
  case (2 reuse i p ms s)
  then have c: "i < length (points s)" "points s ! i = Idle" "p = Pop_Enter \<or> (\<exists>v. p = Push_Load v)"
    "run_schedule reuse ms (call i p s) = Some s'"
    by (auto split: if_splits lpoint.splits)
  then have "lf_step reuse s (call i p s)" by (auto intro: call_push call_pop)
  moreover have "(lf_step reuse)\<^sup>*\<^sup>* (call i p s) s'" by (rule "2.IH") (use 2(2) c in \<open>auto split: if_splits\<close>)
  ultimately show ?case by (rule converse_rtranclp_into_rtranclp)
next
  case (3 reuse i a ms s)
  let ?ch = "\<lparr>weak_fails = False, new_addr = a\<rparr>"
  from 3(2) obtain t where t: "lf_code ?ch i (points s ! i) s = Some t" "run_schedule reuse ms t = Some s'"
    and may: "may_run reuse ?ch i s"
    by (auto simp: Let_def may_run_def may_allocate_def split: if_splits option.splits lpoint.splits)
  have "lf_step reuse s t" using may t(1) by (rule runs)
  moreover have "(lf_step reuse)\<^sup>*\<^sup>* t s'"
    by (rule "3.IH" [OF refl _ t]) (use 3(2) in \<open>auto simp: Let_def split: if_splits\<close>)
  ultimately show ?case by (rule converse_rtranclp_into_rtranclp)
qed simp

text \<open>
  Thread 0 pushes 1 and 2, pops 2 while thread 1 has entered \<open>pop\<close>, so that the node goes to the free list.
\<close>

definition runs_of :: "nat \<Rightarrow> nat \<Rightarrow> nat move list" where
  "runs_of n i = replicate n (Run i 0)"

definition aba_schedule :: "nat move list" where
  "aba_schedule =
     \<comment> \<open>node 10 is put on the free list: 1 enters, 0 pushes and pops it\<close>
     [Call 0 (Push_Load 5), Run 0 0, Run 0 10, Run 0 0, Run 0 0,
      Call 1 Pop_Enter, Run 1 0, Call 0 Pop_Enter] @ runs_of 11 0 @
     \<comment> \<open>1 finds the stack empty, loads the free list (10), sees that it is alone\<close>
     runs_of 3 1 @
     \<comment> \<open>2 enters, finds the stack empty and loads the free list (10)\<close>
     [Call 2 Pop_Enter] @ runs_of 3 2 @
     \<comment> \<open>1 takes the free list, deletes 10 and returns\<close>
     runs_of 5 1 @
     \<comment> \<open>2 sees that it is alone\<close>
     runs_of 1 2 @
     \<comment> \<open>0 pushes a node, which gets the address 10; 1 reads the top in pop\<close>
     [Call 0 (Push_Load 6), Run 0 0, Run 0 10, Run 0 0, Run 0 0, Call 1 Pop_Enter, Run 1 0, Run 1 0, Call 0 Pop_Enter] @
     \<comment> \<open>0 pops it and puts it on the free list\<close>
     runs_of 10 0 @
     \<comment> \<open>2 takes the free list and deletes 10\<close>
     runs_of 2 2"

text \<open>Node 10 is on the free list and thread 0 is about to write its \<open>next\<close>, which thread 1 may read now.\<close>

definition race_schedule :: "nat move list" where
  "race_schedule =
     [Call 0 (Push_Load 5), Run 0 0, Run 0 10, Run 0 0, Run 0 0, Call 1 Pop_Enter, Run 1 0, Run 1 0, Call 0 Pop_Enter] @ runs_of 8 0"

theorem lock_free_stack_use_after_free: "\<exists>s :: nat lf_stack. (lf_step True)\<^sup>*\<^sup>* (new_lf_stack 3) s \<and> faults True s"
proof -
  have "map_option (\<lambda>s. (memory s 10, points s)) (run_schedule True aba_schedule (new_lf_stack 3)) =
      Some (None, [Pop_Return (Some 6), Pop_Next 10, Erase None None])"
    by code_simp
  then obtain s where s: "run_schedule True aba_schedule (new_lf_stack 3) = Some s" "memory s 10 = None"
    "points s = [Pop_Return (Some 6), Pop_Next 10, Erase None None]"
    by (auto simp: map_option_case split: option.splits)
  then have "may_run True ch 1 s" "lf_code ch 1 (points s ! 1) s = None" for ch
    by (simp_all add: may_run_def)
  then have "faults True s" unfolding faults_def by blast
  with run_schedule_reachable [OF s(1)] show ?thesis by blast
qed

text \<open>
  \<open>next\<close> is not atomic: a thread may write it while another reads it, which is a data race in the C++ memory model
  (the model's steps are sequentially consistent and give it a meaning).
\<close>

theorem lock_free_stack_data_race:
  "\<exists>s :: nat lf_stack. (lf_step False)\<^sup>*\<^sup>* (new_lf_stack 2) s \<and> points s = [Free_Store 10 5 None, Pop_Next 10]"
proof -
  have "map_option points (run_schedule False race_schedule (new_lf_stack 2)) = Some [Free_Store 10 5 None, Pop_Next 10]"
    by code_simp
  then obtain s where s: "run_schedule False race_schedule (new_lf_stack 2) = Some s"
    "points s = [Free_Store 10 5 None, Pop_Next 10]"
    by (auto simp: map_option_case split: option.splits)
  with run_schedule_reachable [OF s(1)] show ?thesis by blast
qed

end
