(* ===== verification/Lock_Free_Safety.thy ===== *)
theory Lock_Free_Safety
  imports Lock_Free_Stack
begin

text \<open>
  The lock-free stack is memory safe and linearizable when the allocator does not hand out an address twice. Every
  node has a place: on the stack, on the free list, owned by a thread, or on a list that a thread erases. A thread in
  \<open>pop\<close> that has read a node but not yet unlinked it has a hazard on it; the invariant keeps such nodes alive.
\<close>

section \<open>Places\<close>

datatype place = Nowhere | On_Stack | On_Free | Mine nat | Erasing nat

fun owned :: "'a lpoint \<Rightarrow> addr option" where
  "owned (Push_Cas v p) = Some p"
| "owned (Pop_Take c) = Some c"
| "owned (Try_Load k) = map_option fst k"
| "owned (Try_Count k f) = map_option fst k"
| "owned (Try_Cas k f) = map_option fst k"
| "owned (Erase k p) = map_option fst k"
| "owned (Pop_Dec k) = map_option fst k"
| "owned (Pop_Delete c v) = Some c"
| "owned (Free_Load c v) = Some c"
| "owned (Free_Store c v n) = Some c"
| "owned (Free_Cas c v) = Some c"
| "owned _ = None"

text \<open>The node that a thread owns was on the stack, and other threads may still have a hazard on it.\<close>

fun retiring :: "'a lpoint \<Rightarrow> bool" where
  "retiring (Push_Cas v p) = False"
| "retiring (Pop_Delete c v) = False"
| "retiring p = (owned p \<noteq> None)"

fun hazard :: "'a lpoint \<Rightarrow> addr option" where
  "hazard (Pop_Next c) = Some c"
| "hazard (Pop_Cas c n) = Some c"
| "hazard _ = None"

fun erase_from :: "'a lpoint \<Rightarrow> addr option" where
  "erase_from (Erase k p) = p"
| "erase_from _ = None"

text \<open>Counted in \<open>popped_count\<close>.\<close>

fun inside :: "'a lpoint \<Rightarrow> bool" where
  "inside Pop_Load = True"
| "inside (Pop_Next c) = True"
| "inside (Pop_Cas c n) = True"
| "inside (Pop_Take c) = True"
| "inside (Try_Load k) = True"
| "inside (Try_Count k f) = True"
| "inside (Try_Cas k f) = True"
| "inside (Erase k p) = True"
| "inside (Pop_Dec k) = True"
| "inside _ = False"

lemma hazard_inside: "hazard p \<noteq> None \<Longrightarrow> inside p"
  by (cases p) auto

text \<open>What the thread's operation has done so far.\<close>

fun effect_of :: "(addr \<Rightarrow> ('a \<times> addr option) option) \<Rightarrow> 'a lpoint \<Rightarrow> 'a event option \<Rightarrow> bool" where
  "effect_of m Idle e = True"
| "effect_of m (Push_Cas v p) e = ((\<exists>n. m p = Some (v, n)) \<and> e = None)"
| "effect_of m (Push_Return v) e = (e = Some (Pushed v))"
| "effect_of m (Pop_Take c) e = (\<exists>v n. m c = Some (v, n) \<and> e = Some (Popped (Some v)))"
| "effect_of m (Try_Load k) e = (e = Some (Popped (map_option snd k)))"
| "effect_of m (Try_Count k f) e = (e = Some (Popped (map_option snd k)))"
| "effect_of m (Try_Cas k f) e = (e = Some (Popped (map_option snd k)))"
| "effect_of m (Erase k p) e = (e = Some (Popped (map_option snd k)))"
| "effect_of m (Pop_Dec k) e = (e = Some (Popped (map_option snd k)))"
| "effect_of m (Pop_Delete c v) e = (e = Some (Popped (Some v)))"
| "effect_of m (Free_Load c v) e = (e = Some (Popped (Some v)))"
| "effect_of m (Free_Store c v n) e = (e = Some (Popped (Some v)))"
| "effect_of m (Free_Cas c v) e = (e = Some (Popped (Some v)))"
| "effect_of m (Pop_Return r) e = (e = Some (Popped r))"
| "effect_of m _ e = (e = None)"

section \<open>The invariant\<close>

type_synonym 'a mem = "addr \<Rightarrow> ('a \<times> addr option) option"

definition mem_ok :: "'a mem \<Rightarrow> addr set \<Rightarrow> (addr \<Rightarrow> place) \<Rightarrow> bool" where
  "mem_ok m u pl \<longleftrightarrow> (\<forall>a. pl a = Nowhere \<longleftrightarrow> m a = None) \<and> (\<forall>a. pl a \<noteq> Nowhere \<longrightarrow> a \<in> u)"

definition list_ok :: "'a mem \<Rightarrow> (addr \<Rightarrow> place) \<Rightarrow> addr option \<Rightarrow> addr list \<Rightarrow> place \<Rightarrow> bool" where
  "list_ok m pl p xs w \<longleftrightarrow> linked m p xs \<and> distinct xs \<and> (\<forall>a. a \<in> set xs \<longleftrightarrow> pl a = w)"

definition own_ok :: "(nat \<Rightarrow> 'a lpoint) \<Rightarrow> (addr \<Rightarrow> place) \<Rightarrow> bool" where
  "own_ok pt pl \<longleftrightarrow> (\<forall>i a. pl a = Mine i \<longleftrightarrow> owned (pt i) = Some a)"

definition erase_ok :: "'a mem \<Rightarrow> (nat \<Rightarrow> 'a lpoint) \<Rightarrow> (addr \<Rightarrow> place) \<Rightarrow> bool" where
  "erase_ok m pt pl \<longleftrightarrow> (\<forall>i. \<exists>es. list_ok m pl (erase_from (pt i)) es (Erasing i))"

definition shared :: "(nat \<Rightarrow> 'a lpoint) \<Rightarrow> (addr \<Rightarrow> place) \<Rightarrow> addr \<Rightarrow> bool" where
  "shared pt pl c \<longleftrightarrow> pl c = On_Stack \<or> pl c = On_Free \<or> (\<exists>j. pl c = Mine j \<and> retiring (pt j))"

definition hazard_ok :: "(nat \<Rightarrow> 'a lpoint) \<Rightarrow> (addr \<Rightarrow> place) \<Rightarrow> bool" where
  "hazard_ok pt pl \<longleftrightarrow> (\<forall>i c. hazard (pt i) = Some c \<longrightarrow> shared pt pl c)"

definition next_ok :: "'a mem \<Rightarrow> (nat \<Rightarrow> 'a lpoint) \<Rightarrow> (addr \<Rightarrow> place) \<Rightarrow> bool" where
  "next_ok m pt pl \<longleftrightarrow> (\<forall>i c n. pt i = Pop_Cas c n \<longrightarrow> pl c = On_Stack \<longrightarrow> (\<exists>v. m c = Some (v, n)))"

definition retired :: "addr set \<Rightarrow> (addr \<Rightarrow> place) \<Rightarrow> addr \<Rightarrow> bool" where
  "retired u pl f \<longleftrightarrow> f \<in> u \<and> (pl f = Nowhere \<or> pl f = On_Free \<or> (\<exists>j. pl f = Erasing j))"

definition retired_ok :: "(nat \<Rightarrow> 'a lpoint) \<Rightarrow> addr set \<Rightarrow> (addr \<Rightarrow> place) \<Rightarrow> bool" where
  "retired_ok pt u pl \<longleftrightarrow> (\<forall>i k f. pt i = Try_Count k f \<or> pt i = Try_Cas k f \<longrightarrow> retired u pl f)"

definition above :: "addr list \<Rightarrow> addr \<Rightarrow> addr \<Rightarrow> bool" where
  "above xs h f \<longleftrightarrow> (\<exists>pre suf. xs = pre @ f # suf \<and> h \<in> set pre)"

text \<open>
  A thread that has seen itself alone and is about to take the free list from \<open>f\<close> on: hazards came later, so they are
  above \<open>f\<close>.
\<close>

definition order_ok :: "(nat \<Rightarrow> 'a lpoint) \<Rightarrow> (addr \<Rightarrow> place) \<Rightarrow> addr list \<Rightarrow> bool" where
  "order_ok pt pl fr \<longleftrightarrow> (\<forall>i j k f h. pt i = Try_Cas k f \<longrightarrow> hazard (pt j) = Some h \<longrightarrow> pl h = On_Free \<longrightarrow>
     pl f = On_Free \<longrightarrow> above fr h f)"

definition spec_ok :: "'a mem \<Rightarrow> 'a event list \<Rightarrow> addr list \<Rightarrow> bool" where
  "spec_ok m l stk \<longleftrightarrow> replay l [] = Some (node_values m stk)"

definition effect_ok :: "'a mem \<Rightarrow> (nat \<Rightarrow> 'a lpoint) \<Rightarrow> (nat \<Rightarrow> 'a event option) \<Rightarrow> bool" where
  "effect_ok m pt eff \<longleftrightarrow> (\<forall>i. effect_of m (pt i) (eff i))"

definition lf_parts :: "'a mem \<Rightarrow> addr option \<Rightarrow> addr option \<Rightarrow> addr set \<Rightarrow> 'a event list \<Rightarrow> (nat \<Rightarrow> 'a lpoint) \<Rightarrow>
    (nat \<Rightarrow> 'a event option) \<Rightarrow> (addr \<Rightarrow> place) \<Rightarrow> addr list \<Rightarrow> addr list \<Rightarrow> bool" where
  "lf_parts m tp free u l pt eff pl stk fr \<longleftrightarrow>
     mem_ok m u pl \<and> list_ok m pl tp stk On_Stack \<and> list_ok m pl free fr On_Free \<and> own_ok pt pl \<and> erase_ok m pt pl \<and>
     hazard_ok pt pl \<and> next_ok m pt pl \<and> retired_ok pt u pl \<and> order_ok pt pl fr \<and> spec_ok m l stk \<and> effect_ok m pt eff"

lemma lf_partsI:
  "mem_ok m u pl \<Longrightarrow> list_ok m pl tp stk On_Stack \<Longrightarrow> list_ok m pl free fr On_Free \<Longrightarrow> own_ok pt pl \<Longrightarrow>
   erase_ok m pt pl \<Longrightarrow> hazard_ok pt pl \<Longrightarrow> next_ok m pt pl \<Longrightarrow> retired_ok pt u pl \<Longrightarrow> order_ok pt pl fr \<Longrightarrow>
   spec_ok m l stk \<Longrightarrow> effect_ok m pt eff \<Longrightarrow> lf_parts m tp free u l pt eff pl stk fr"
  by (simp add: lf_parts_def)

lemma lf_partsD:
  assumes "lf_parts m tp free u l pt eff pl stk fr"
  shows "mem_ok m u pl" "list_ok m pl tp stk On_Stack" "list_ok m pl free fr On_Free" "own_ok pt pl"
    "erase_ok m pt pl" "hazard_ok pt pl" "next_ok m pt pl" "retired_ok pt u pl" "order_ok pt pl fr"
    "spec_ok m l stk" "effect_ok m pt eff"
  using assms by (simp_all add: lf_parts_def)

lemma own_update:
  assumes "own_ok pt pl" "\<And>a. owned p = Some a \<longleftrightarrow> pl' a = Mine i" "\<And>j a. j \<noteq> i \<Longrightarrow> pl' a = Mine j \<longleftrightarrow> pl a = Mine j"
  shows "own_ok (pt(i := p)) pl'"
  using assms by (auto simp: own_ok_def)

lemma shared_update:
  assumes "shared pt pl c" "pl' c = pl c \<or> pl' c = On_Stack \<or> pl' c = On_Free \<or> pl' c = Mine i \<and> retiring p"
    and "pl c = Mine i \<Longrightarrow> retiring p \<or> pl' c = On_Stack \<or> pl' c = On_Free"
  shows "shared (pt(i := p)) pl' c"
proof -
  consider "pl c = On_Stack \<or> pl c = On_Free" | j where "pl c = Mine j" "retiring (pt j)"
    using assms(1) by (auto simp: shared_def)
  then show ?thesis
  proof cases
    case 1
    with assms(2) show ?thesis by (auto simp: shared_def)
  next
    case (2 j)
    with assms(2,3) show ?thesis by (cases "j = i") (auto simp: shared_def)
  qed
qed

lemma retired_update:
  assumes "retired_ok pt u pl" "\<And>k f. p = Try_Count k f \<or> p = Try_Cas k f \<Longrightarrow> retired u' pl' f"
    and "\<And>f. retired u pl f \<Longrightarrow> retired u' pl' f"
  shows "retired_ok (pt(i := p)) u' pl'"
  using assms by (simp add: retired_ok_def)

lemma linked_cong: "(\<And>a. a \<in> set xs \<Longrightarrow> m' a = m a) \<Longrightarrow> linked m' p xs = linked m p xs"
  by (induction xs arbitrary: p) auto

lemma list_ok_frame:
  assumes "list_ok m pl p xs w" "\<And>a. pl a = w \<Longrightarrow> m' a = m a" "\<And>a. pl' a = w \<longleftrightarrow> pl a = w"
  shows "list_ok m' pl' p xs w"
  using assms linked_cong [of xs m' m p] by (simp add: list_ok_def)

lemma node_values_cong: "(\<And>a. a \<in> set xs \<Longrightarrow> map_option fst (m' a) = map_option fst (m a)) \<Longrightarrow> (\<And>a. a \<in> set xs \<Longrightarrow> m a \<noteq> None) \<Longrightarrow>
    node_values m' xs = node_values m xs"
  by (induction xs) (fastforce simp: node_values_def)+

section \<open>Steps that only move a thread\<close>

lemma effect_ok_upd:
  "effect_ok m pt eff \<Longrightarrow> effect_of m p e \<Longrightarrow> effect_ok m (pt(i := p)) (eff(i := e))"
  by (simp add: effect_ok_def)

lemma effect_ok_same:
  "effect_ok m pt eff \<Longrightarrow> effect_of m p (eff i) \<Longrightarrow> effect_ok m (pt(i := p)) eff"
  by (simp add: effect_ok_def)

lemma move_parts:
  assumes inv: "lf_parts m tp free u l pt eff pl stk fr"
    and same: "owned p = owned (pt i)" "erase_from p = erase_from (pt i)"
    and ret: "retiring (pt i) \<Longrightarrow> retiring p \<or> (\<forall>j. hazard (pt j) = None)"
    and haz: "\<And>c. hazard p = Some c \<Longrightarrow> pl c = On_Stack \<or> hazard (pt i) = Some c"
    and nxt: "\<And>c n. p = Pop_Cas c n \<Longrightarrow> pl c = On_Stack \<Longrightarrow> \<exists>v. m c = Some (v, n)"
    and old: "\<And>k f. p = Try_Count k f \<or> p = Try_Cas k f \<Longrightarrow> retired u pl f"
    and alone: "\<And>k f. p = Try_Cas k f \<Longrightarrow> \<forall>j. hazard (pt j) = None"
    and spec: "spec_ok m l' stk" and eff: "effect_of m p e"
  shows "lf_parts m tp free u l' (pt(i := p)) (eff(i := e)) pl stk fr"
proof (rule lf_partsI)
  note inv = lf_partsD [OF inv]
  show "mem_ok m u pl" "list_ok m pl tp stk On_Stack" "list_ok m pl free fr On_Free" by (rule inv)+
  show "own_ok (pt(i := p)) pl" using inv(4) same(1) by (simp add: own_ok_def)
  show "erase_ok m (pt(i := p)) pl" using inv(5) same(2) by (simp add: erase_ok_def)
  have shared: "shared (pt(i := p)) pl c" if "shared pt pl c" "retiring (pt i) \<Longrightarrow> retiring p" for c
    using that by (auto simp: shared_def)
  show "hazard_ok (pt(i := p)) pl"
    unfolding hazard_ok_def
  proof (intro allI impI)
    fix j c assume c: "hazard ((pt(i := p)) j) = Some c"
    show "shared (pt(i := p)) pl c"
    proof (cases "pl c = On_Stack")
      case False
      with c haz obtain j' where j': "hazard (pt j') = Some c" by (auto split: if_splits)
      with inv(6) have "shared pt pl c" by (auto simp: hazard_ok_def)
      then show ?thesis by (rule shared) (use ret j' in force)
    qed (simp add: shared_def)
  qed
  show "next_ok m (pt(i := p)) pl" using inv(7) nxt by (simp add: next_ok_def)
  show "retired_ok (pt(i := p)) u pl" using inv(8) old by (simp add: retired_ok_def)
  show "order_ok (pt(i := p)) pl fr"
    unfolding order_ok_def
  proof (intro allI impI)
    fix i' j k f h
    assume a: "(pt(i := p)) i' = Try_Cas k f" "hazard ((pt(i := p)) j) = Some h" "pl h = On_Free" "pl f = On_Free"
    have "\<exists>j'. hazard (pt j') = Some h" using a(2,3) haz [of h] by (auto split: if_splits)
    then obtain j' where j': "hazard (pt j') = Some h" by blast
    have "pt i' = Try_Cas k f" using a(1) alone j' by (auto split: if_splits)
    with inv(9) j' a(3,4) show "above fr h f" by (auto simp: order_ok_def)
  qed
  show "spec_ok m l' stk" by (rule spec)
  show "effect_ok m (pt(i := p)) (eff(i := e))" by (rule effect_ok_upd [OF inv(11) eff])
qed

section \<open>Steps that change memory\<close>

lemma mem_okD:
  assumes "mem_ok m u pl"
  shows "pl a \<noteq> Nowhere \<Longrightarrow> \<exists>v n. m a = Some (v, n)" "pl a \<noteq> Nowhere \<Longrightarrow> a \<in> u" "pl a = Nowhere \<Longrightarrow> m a = None"
    "m a = Some x \<Longrightarrow> pl a \<noteq> Nowhere"
  using assms by (cases "m a"; auto simp: mem_ok_def)+

lemma mem_okI:
  "(\<And>a. pl a = Nowhere \<Longrightarrow> m a = None) \<Longrightarrow> (\<And>a. m a = None \<Longrightarrow> pl a = Nowhere) \<Longrightarrow> (\<And>a. pl a \<noteq> Nowhere \<Longrightarrow> a \<in> u) \<Longrightarrow> mem_ok m u pl"
  by (auto simp: mem_ok_def)

lemma erase_frame:
  assumes "erase_ok m pt pl" "\<And>a j. pl a = Erasing j \<Longrightarrow> m' a = m a" "\<And>a j. pl' a = Erasing j \<longleftrightarrow> pl a = Erasing j"
    and "\<And>j. erase_from (pt' j) = erase_from (pt j)"
  shows "erase_ok m' pt' pl'"
  unfolding erase_ok_def
proof
  fix j
  obtain es where "list_ok m pl (erase_from (pt j)) es (Erasing j)" using assms(1) by (auto simp: erase_ok_def)
  then have "list_ok m' pl' (erase_from (pt j)) es (Erasing j)" by (rule list_ok_frame) (use assms(2,3) in auto)
  then show "\<exists>es. list_ok m' pl' (erase_from (pt' j)) es (Erasing j)" using assms(4) by auto
qed

lemma values_same:
  assumes "list_ok m pl p stk w" "\<And>a. pl a = w \<Longrightarrow> m' a = m a"
  shows "node_values m' stk = node_values m stk"
  using assms by (auto simp: node_values_def list_ok_def)

lemma set_next_parts:
  assumes inv: "lf_parts m tp free u l pt eff pl stk fr" and c: "pl c = Mine i" "m c = Some (v, n)"
  shows "lf_parts (m(c \<mapsto> (v, n'))) tp free u l pt eff pl stk fr"
proof (rule lf_partsI)
  note inv = lf_partsD [OF inv]
  let ?m = "m(c \<mapsto> (v, n'))"
  show "mem_ok ?m u pl" using inv(1) c(1) unfolding mem_ok_def by (metis fun_upd_apply option.distinct(1) place.distinct(5))
  show "list_ok ?m pl tp stk On_Stack" by (rule list_ok_frame [OF inv(2)]) (use c(1) in auto)
  show "list_ok ?m pl free fr On_Free" by (rule list_ok_frame [OF inv(3)]) (use c(1) in auto)
  show "own_ok pt pl" "hazard_ok pt pl" "retired_ok pt u pl" "order_ok pt pl fr" by (rule inv)+
  show "erase_ok ?m pt pl" by (rule erase_frame [OF inv(5)]) (use c(1) in auto)
  show "next_ok ?m pt pl" using inv(7) c(1) by (auto simp: next_ok_def)
  have "node_values ?m stk = node_values m stk" by (rule values_same [OF inv(2)]) (use c(1) in auto)
  with inv(10) show "spec_ok ?m l stk" by (simp add: spec_ok_def)
  have "effect_of ?m p e" if "effect_of m p e" for p e
    using that c(2) by (cases p) auto
  with inv(11) show "effect_ok ?m pt eff" by (auto simp: effect_ok_def)
qed

lemma new_parts:
  assumes inv: "lf_parts m tp free u l pt eff pl stk fr" and i: "pt i = Push_New v n" and p: "p \<notin> u"
  shows "lf_parts (m(p \<mapsto> (v, n))) tp free (insert p u) l (pt(i := Push_Cas v p)) eff (pl(p := Mine i)) stk fr"
proof (rule lf_partsI)
  note inv = lf_partsD [OF inv]
  let ?m = "m(p \<mapsto> (v, n))" and ?pl = "pl(p := Mine i)" and ?pt = "pt(i := Push_Cas v p)"
  have np: "pl p = Nowhere" using mem_okD(2) [OF inv(1)] p by blast
  have none: "pl a \<noteq> Mine i" for a using inv(4) i by (simp add: own_ok_def)
  show "mem_ok ?m (insert p u) ?pl" using inv(1) unfolding mem_ok_def by (metis (mono_tags) fun_upd_apply insertCI option.distinct(1) place.distinct(5))
  show "list_ok ?m ?pl tp stk On_Stack" by (rule list_ok_frame [OF inv(2)]) (use np in auto)
  show "list_ok ?m ?pl free fr On_Free" by (rule list_ok_frame [OF inv(3)]) (use np in auto)
  show "own_ok ?pt ?pl" by (rule own_update [OF inv(4)]) (use np none in auto)
  show "erase_ok ?m ?pt ?pl" by (rule erase_frame [OF inv(5)]) (use np i in auto)
  have "shared ?pt ?pl c" if "shared pt pl c" for c
    by (rule shared_update [OF that]) (use that np none in \<open>auto simp: shared_def\<close>)
  then show "hazard_ok ?pt ?pl" using inv(6) by (auto simp: hazard_ok_def)
  show "next_ok ?m ?pt ?pl" using inv(7) np by (auto simp: next_ok_def)
  show "retired_ok ?pt (insert p u) ?pl"
    by (rule retired_update [OF inv(8)]) (use p in \<open>auto simp: retired_def\<close>)
  show "order_ok ?pt ?pl fr" using inv(9) by (auto simp: order_ok_def)
  have "node_values ?m stk = node_values m stk" by (rule values_same [OF inv(2)]) (use np in auto)
  with inv(10) show "spec_ok ?m l stk" by (simp add: spec_ok_def)
  have "effect_of ?m q e" if "effect_of m q e" for q e
    using that mem_okD(3) [OF inv(1) np] by (cases q) auto
  moreover have "eff i = None" using inv(11) i by (auto simp: effect_ok_def dest: spec [of _ i])
  ultimately show "effect_ok ?m ?pt eff" using inv(11) by (auto simp: effect_ok_def)
qed

lemma push_parts:
  assumes inv: "lf_parts m tp free u l pt eff pl stk fr" and i: "pt i = Push_Cas v p" "m p = Some (v', tp)"
  shows "lf_parts m (Some p) free u (l @ [Pushed v]) (pt(i := Push_Return v)) (eff(i := Some (Pushed v)))
    (pl(p := On_Stack)) (p # stk) fr"
proof (rule lf_partsI)
  note inv = lf_partsD [OF inv]
  let ?pl = "pl(p := On_Stack)" and ?pt = "pt(i := Push_Return v)"
  have mine: "pl a = Mine i \<longleftrightarrow> a = p" for a using inv(4) i by (auto simp: own_ok_def)
  have v: "v' = v" using inv(11) i by (auto simp: effect_ok_def dest!: spec [of _ i])
  have "pl p = Mine i" using mine by blast
  then have "\<not> shared pt pl p" using i(1) by (simp add: shared_def)
  then have unseen: "hazard (pt j) \<noteq> Some p" for j using inv(6) by (auto simp: hazard_ok_def)
  show "mem_ok m u ?pl" using inv(1) \<open>pl p = Mine i\<close> i(2) unfolding mem_ok_def by (metis fun_upd_apply option.distinct(1) place.distinct(1) place.distinct(5))
  have "p \<notin> set stk" using inv(2) \<open>pl p = Mine i\<close> by (simp add: list_ok_def)
  then show "list_ok m ?pl (Some p) (p # stk) On_Stack"
    using inv(2) i(2) by (auto simp: list_ok_def)
  show "list_ok m ?pl free fr On_Free" by (rule list_ok_frame [OF inv(3)]) (use \<open>pl p = Mine i\<close> in auto)
  show "own_ok ?pt ?pl" by (rule own_update [OF inv(4)]) (auto simp: mine, simp add: \<open>pl p = Mine i\<close>)
  show "erase_ok m ?pt ?pl" by (rule erase_frame [OF inv(5)]) (use \<open>pl p = Mine i\<close> i(1) in auto)
  have "shared ?pt ?pl c" if "shared pt pl c" for c
    by (rule shared_update [OF that]) (use mine in auto)
  then show "hazard_ok ?pt ?pl" using inv(6) by (auto simp: hazard_ok_def)
  show "next_ok m ?pt ?pl" using inv(7) unseen by (auto simp: next_ok_def) (metis hazard.simps(2))
  show "retired_ok ?pt u ?pl" by (rule retired_update [OF inv(8)]) (use \<open>pl p = Mine i\<close> in \<open>auto simp: retired_def\<close>)
  show "order_ok ?pt ?pl fr" using inv(9) by (auto simp: order_ok_def)
  show "spec_ok m (l @ [Pushed v]) (p # stk)"
    using inv(10) i(2) v by (simp add: spec_ok_def replay_append node_values_def)
  show "effect_ok m ?pt (eff(i := Some (Pushed v)))" using inv(11) by (intro effect_ok_upd) simp_all
qed

lemma pop_parts:
  assumes inv: "lf_parts m (Some c) free u l pt eff pl stk fr" and i: "pt i = Pop_Cas c n"
  shows "\<exists>v rest. m c = Some (v, n) \<and> lf_parts m n free u (l @ [Popped (Some v)]) (pt(i := Pop_Take c))
    (eff(i := Some (Popped (Some v)))) (pl(c := Mine i)) rest fr"
proof -
  note inv = lf_partsD [OF inv]
  let ?pl = "pl(c := Mine i)" and ?pt = "pt(i := Pop_Take c)"
  obtain rest where stk: "stk = c # rest" using inv(2) by (cases stk) (auto simp: list_ok_def)
  then have on: "pl c = On_Stack" using inv(2) by (auto simp: list_ok_def)
  then obtain v where v: "m c = Some (v, n)" using inv(7) i unfolding next_ok_def by blast
  have none: "pl a \<noteq> Mine i" for a using inv(4) i by (simp add: own_ok_def)
  have "lf_parts m n free u (l @ [Popped (Some v)]) ?pt (eff(i := Some (Popped (Some v)))) ?pl rest fr"
  proof (rule lf_partsI)
    show "mem_ok m u ?pl" using inv(1) v on unfolding mem_ok_def by (metis fun_upd_apply option.distinct(1) place.distinct(1) place.distinct(5))
    show "list_ok m ?pl n rest On_Stack" using inv(2) stk v by (auto simp: list_ok_def)
    show "list_ok m ?pl free fr On_Free" by (rule list_ok_frame [OF inv(3)]) (use on in auto)
    show "own_ok ?pt ?pl" by (rule own_update [OF inv(4)]) (use on none in auto)
    show "erase_ok m ?pt ?pl" by (rule erase_frame [OF inv(5)]) (use on i in auto)
    have "shared ?pt ?pl a" if "shared pt pl a" for a
      by (rule shared_update [OF that]) (use none in auto)
    then show "hazard_ok ?pt ?pl" using inv(6) by (auto simp: hazard_ok_def)
    show "next_ok m ?pt ?pl" using inv(7) by (auto simp: next_ok_def)
    show "retired_ok ?pt u ?pl" by (rule retired_update [OF inv(8)]) (use on in \<open>auto simp: retired_def\<close>)
    show "order_ok ?pt ?pl fr" using inv(9) by (auto simp: order_ok_def)
    show "spec_ok m (l @ [Popped (Some v)]) rest"
      using inv(10) v stk by (simp add: spec_ok_def replay_append node_values_def)
    show "effect_ok m ?pt (eff(i := Some (Popped (Some v))))" using inv(11) v by (intro effect_ok_upd) simp_all
  qed
  with v show ?thesis by blast
qed

lemma take_free_parts:
  assumes inv: "lf_parts m tp (Some f) u l pt eff pl stk fr" and i: "pt i = Try_Cas k f"
  shows "lf_parts m tp None u l (pt(i := Erase k (Some f))) eff (\<lambda>a. if pl a = On_Free then Erasing i else pl a) stk []"
proof (rule lf_partsI)
  note inv = lf_partsD [OF inv]
  let ?pl = "\<lambda>a. if pl a = On_Free then Erasing i else pl a" and ?pt = "pt(i := Erase k (Some f))"
  obtain rest where fr: "fr = f # rest" using inv(3) by (cases fr) (auto simp: list_ok_def)
  have safe: "pl h \<noteq> On_Free" if "hazard (pt j) = Some h" for j h
  proof
    assume "pl h = On_Free"
    moreover have "pl f = On_Free" using inv(3) fr by (auto simp: list_ok_def)
    ultimately have "above fr h f" using inv(9) i that by (auto simp: order_ok_def)
    moreover have "distinct fr" using inv(3) by (simp add: list_ok_def)
    ultimately show False by (auto simp: above_def fr Cons_eq_append_conv)
  qed
  have none: "pl a \<noteq> Erasing i" for a
    using inv(5) i unfolding erase_ok_def list_ok_def
    by (metis erase_from.simps(14) linked.simps(2) list.exhaust list.set_intros(1) option.distinct(1) empty_iff list.set(1))
  show "mem_ok m u ?pl" using inv(1) unfolding mem_ok_def by (metis place.distinct(3) place.distinct(7))
  show "list_ok m ?pl tp stk On_Stack" by (rule list_ok_frame [OF inv(2)]) auto
  show "list_ok m ?pl None [] On_Free" by (auto simp: list_ok_def)
  have "owned (Erase k (Some f)) = Some a \<longleftrightarrow> pl a = Mine i" for a using inv(4) i by (simp add: own_ok_def)
  then show "own_ok ?pt ?pl" by (intro own_update [OF inv(4)]) auto
  show "erase_ok m ?pt ?pl"
    unfolding erase_ok_def
  proof
    fix j
    show "\<exists>es. list_ok m ?pl (erase_from (?pt j)) es (Erasing j)"
    proof (cases "j = i")
      case True
      with inv(3) none show ?thesis by (intro exI [of _ fr]) (auto simp: list_ok_def)
    next
      case False
      obtain es where "list_ok m pl (erase_from (pt j)) es (Erasing j)" using inv(5) by (auto simp: erase_ok_def)
      then have "list_ok m ?pl (erase_from (pt j)) es (Erasing j)" by (rule list_ok_frame) (use False in auto)
      with False show ?thesis by auto
    qed
  qed
  have "shared ?pt ?pl a" if "shared pt pl a" "pl a \<noteq> On_Free" for a
  proof (rule shared_update [OF that(1)])
    assume "pl a = Mine i"
    then have "owned (pt i) = Some a" using inv(4) by (simp add: own_ok_def)
    then show "retiring (Erase k (Some f)) \<or> ?pl a = On_Stack \<or> ?pl a = On_Free" using i by auto
  qed (use that(2) in auto)
  then show "hazard_ok ?pt ?pl" using inv(6) safe by (auto simp: hazard_ok_def)
  show "next_ok m ?pt ?pl" using inv(7) by (auto simp: next_ok_def)
  show "retired_ok ?pt u ?pl" by (rule retired_update [OF inv(8)]) (auto simp: retired_def)
  show "order_ok ?pt ?pl []" by (auto simp: order_ok_def)
  show "spec_ok m l stk" by (rule inv)
  have "effect_of m (Erase k (Some f)) (eff i)" using inv(11) i by (auto simp: effect_ok_def dest: spec [of _ i])
  then show "effect_ok m ?pt eff" by (rule effect_ok_same [OF inv(11)])
qed

lemma effect_of_delete: "effect_of m p e \<Longrightarrow> owned p \<noteq> Some c \<Longrightarrow> effect_of (m(c := None)) p e"
  by (cases p) auto

lemma erase_parts:
  assumes inv: "lf_parts m tp free u l pt eff pl stk fr" and i: "pt i = Erase k (Some c)"
  shows "\<exists>v n. m c = Some (v, n) \<and> lf_parts (m(c := None)) tp free u l (pt(i := Erase k n)) eff (pl(c := Nowhere)) stk fr"
proof -
  note inv = lf_partsD [OF inv]
  obtain es where es: "list_ok m pl (Some c) es (Erasing i)"
    using inv(5) i unfolding erase_ok_def by (metis erase_from.simps(1))
  then obtain rest v n where es': "es = c # rest" "m c = Some (v, n)" "linked m n rest"
    by (cases es) (auto simp: list_ok_def)
  then have on: "pl c = Erasing i" using es by (auto simp: list_ok_def)
  let ?m = "m(c := None)" and ?pl = "pl(c := Nowhere)" and ?pt = "pt(i := Erase k n)"
  have "lf_parts ?m tp free u l ?pt eff ?pl stk fr"
  proof (rule lf_partsI)
    show "mem_ok ?m u ?pl" using inv(1) unfolding mem_ok_def by (metis fun_upd_apply)
    show "list_ok ?m ?pl tp stk On_Stack" by (rule list_ok_frame [OF inv(2)]) (use on in auto)
    show "list_ok ?m ?pl free fr On_Free" by (rule list_ok_frame [OF inv(3)]) (use on in auto)
    have "owned (Erase k n) = Some a \<longleftrightarrow> pl a = Mine i" for a using inv(4) i by (simp add: own_ok_def)
    with on show "own_ok ?pt ?pl" by (intro own_update [OF inv(4)]) auto
    show "erase_ok ?m ?pt ?pl"
      unfolding erase_ok_def
    proof
      fix j
      show "\<exists>es. list_ok ?m ?pl (erase_from (?pt j)) es (Erasing j)"
      proof (cases "j = i")
        case True
        have "c \<notin> set rest" using es es'(1) by (simp add: list_ok_def)
        then have "linked ?m n rest = linked m n rest" by (intro linked_cong) auto
        then have "linked ?m n rest" using es'(3) by simp
        with True es es'(1) show ?thesis by (intro exI [of _ rest]) (auto simp: list_ok_def)
      next
        case False
        obtain es where "list_ok m pl (erase_from (pt j)) es (Erasing j)" using inv(5) by (auto simp: erase_ok_def)
        then have "list_ok ?m ?pl (erase_from (pt j)) es (Erasing j)" by (rule list_ok_frame) (use False on in auto)
        with False show ?thesis by auto
      qed
    qed
    have "shared ?pt ?pl a" if "shared pt pl a" for a
    proof (rule shared_update [OF that])
      show "?pl a = pl a \<or> ?pl a = On_Stack \<or> ?pl a = On_Free \<or> ?pl a = Mine i \<and> retiring (Erase k n)"
        using that on by (auto simp: shared_def)
      assume "pl a = Mine i"
      then have "owned (pt i) = Some a" using inv(4) by (simp add: own_ok_def)
      then show "retiring (Erase k n) \<or> ?pl a = On_Stack \<or> ?pl a = On_Free" using i by auto
    qed
    then show "hazard_ok ?pt ?pl" using inv(6) by (auto simp: hazard_ok_def)
    show "next_ok ?m ?pt ?pl" using inv(7) by (auto simp: next_ok_def)
    show "retired_ok ?pt u ?pl" by (rule retired_update [OF inv(8)]) (auto simp: retired_def)
    show "order_ok ?pt ?pl fr" using inv(9) by (auto simp: order_ok_def)
    have "node_values ?m stk = node_values m stk" by (rule values_same [OF inv(2)]) (use on in auto)
    with inv(10) show "spec_ok ?m l stk" by (simp add: spec_ok_def)
    have "owned q \<noteq> Some c" if "q = pt j" for q j using inv(4) on that unfolding own_ok_def by (metis place.distinct(19))
    then have "effect_of ?m (pt j) (eff j)" for j
      using inv(11) effect_of_delete [of m "pt j" "eff j" c] by (auto simp: effect_ok_def)
    moreover have "effect_of ?m (Erase k n) (eff i)" using inv(11) i by (auto simp: effect_ok_def dest!: spec [of _ i])
    ultimately show "effect_ok ?m ?pt eff" by (simp add: effect_ok_def)
  qed
  with es'(2) show ?thesis by blast
qed

lemma delete_parts:
  assumes inv: "lf_parts m tp free u l pt eff pl stk fr" and i: "pt i = Pop_Delete c v"
  shows "(\<exists>x. m c = Some x) \<and> lf_parts (m(c := None)) tp free u l (pt(i := Pop_Return (Some v))) eff (pl(c := Nowhere)) stk fr"
proof -
  note inv = lf_partsD [OF inv]
  let ?m = "m(c := None)" and ?pl = "pl(c := Nowhere)" and ?pt = "pt(i := Pop_Return (Some v))"
  have mine: "pl a = Mine i \<longleftrightarrow> a = c" for a using inv(4) i by (auto simp: own_ok_def)
  then have on: "pl c = Mine i" by blast
  have "\<not> shared pt pl c" using on i by (simp add: shared_def)
  then have unseen: "hazard (pt j) \<noteq> Some c" for j using inv(6) by (auto simp: hazard_ok_def)
  have "lf_parts ?m tp free u l ?pt eff ?pl stk fr"
  proof (rule lf_partsI)
    show "mem_ok ?m u ?pl" using inv(1) unfolding mem_ok_def by (metis fun_upd_apply)
    show "list_ok ?m ?pl tp stk On_Stack" by (rule list_ok_frame [OF inv(2)]) (use on in auto)
    show "list_ok ?m ?pl free fr On_Free" by (rule list_ok_frame [OF inv(3)]) (use on in auto)
    show "own_ok ?pt ?pl" by (rule own_update [OF inv(4)]) (auto simp: mine, simp add: on)
    show "erase_ok ?m ?pt ?pl" by (rule erase_frame [OF inv(5)]) (use on i in auto)
    have "shared ?pt ?pl a" if "shared pt pl a" "a \<noteq> c" for a
      by (rule shared_update [OF that(1)]) (use that mine in auto)
    then show "hazard_ok ?pt ?pl" using inv(6) unseen by (auto simp: hazard_ok_def)
    show "next_ok ?m ?pt ?pl" using inv(7) by (auto simp: next_ok_def)
    show "retired_ok ?pt u ?pl" by (rule retired_update [OF inv(8)]) (auto simp: retired_def)
    show "order_ok ?pt ?pl fr" using inv(9) by (auto simp: order_ok_def)
    have "node_values ?m stk = node_values m stk" by (rule values_same [OF inv(2)]) (use on in auto)
    with inv(10) show "spec_ok ?m l stk" by (simp add: spec_ok_def)
    have "owned (pt j) \<noteq> Some c" if "j \<noteq> i" for j using inv(4) on that unfolding own_ok_def by (metis place.inject(1))
    then have "effect_of ?m (pt j) (eff j)" if "j \<noteq> i" for j
      using inv(11) that effect_of_delete [of m "pt j" "eff j" c] by (auto simp: effect_ok_def)
    moreover have "effect_of ?m (Pop_Return (Some v)) (eff i)" using inv(11) i by (auto simp: effect_ok_def dest!: spec [of _ i])
    ultimately show "effect_ok ?m ?pt eff" by (simp add: effect_ok_def)
  qed
  with mem_okD(1) [OF inv(1), of c] on show ?thesis by auto
qed

lemma free_parts:
  assumes inv: "lf_parts m tp free u l pt eff pl stk fr" and i: "pt i = Free_Cas c v" "m c = Some (v', free)"
  shows "lf_parts m tp (Some c) u l (pt(i := Pop_Return (Some v))) eff (pl(c := On_Free)) stk (c # fr)"
proof (rule lf_partsI)
  note inv = lf_partsD [OF inv]
  let ?pl = "pl(c := On_Free)" and ?pt = "pt(i := Pop_Return (Some v))"
  have mine: "pl a = Mine i \<longleftrightarrow> a = c" for a using inv(4) i by (auto simp: own_ok_def)
  then have on: "pl c = Mine i" by blast
  show "mem_ok m u ?pl" using inv(1) on unfolding mem_ok_def by (metis fun_upd_apply place.distinct(3) place.distinct(5))
  show "list_ok m ?pl tp stk On_Stack" by (rule list_ok_frame [OF inv(2)]) (use on in auto)
  have "c \<notin> set fr" using inv(3) on by (simp add: list_ok_def)
  then show "list_ok m ?pl (Some c) (c # fr) On_Free" using inv(3) i(2) by (auto simp: list_ok_def)
  show "own_ok ?pt ?pl" by (rule own_update [OF inv(4)]) (auto simp: mine, simp add: on)
  show "erase_ok m ?pt ?pl" by (rule erase_frame [OF inv(5)]) (use on i(1) in auto)
  have "shared ?pt ?pl a" if "shared pt pl a" for a
    by (rule shared_update [OF that]) (use mine in auto)
  then show "hazard_ok ?pt ?pl" using inv(6) by (auto simp: hazard_ok_def)
  show "next_ok m ?pt ?pl" using inv(7) by (auto simp: next_ok_def)
  show "retired_ok ?pt u ?pl" by (rule retired_update [OF inv(8)]) (use on in \<open>auto simp: retired_def\<close>)
  show "order_ok ?pt ?pl (c # fr)"
    unfolding order_ok_def
  proof (intro allI impI)
    fix i' j k f h
    assume a: "?pt i' = Try_Cas k f" "hazard (?pt j) = Some h" "?pl h = On_Free" "?pl f = On_Free"
    then have b: "pt i' = Try_Cas k f" "hazard (pt j) = Some h" by (auto split: if_splits)
    then have "retired u pl f" using inv(8) unfolding retired_ok_def by blast
    then have "f \<noteq> c" using on by (auto simp: retired_def)
    then have f: "pl f = On_Free" using a(4) by simp
    then have "f \<in> set fr" using inv(3) by (simp add: list_ok_def)
    show "above (c # fr) h f"
    proof (cases "h = c")
      case True
      obtain pre suf where "fr = pre @ f # suf" using split_list [OF \<open>f \<in> set fr\<close>] by blast
      with True show ?thesis unfolding above_def by (intro exI [of _ "c # pre"] exI [of _ suf]) simp
    next
      case False
      then have "above fr h f" using inv(9) b f a(3) by (auto simp: order_ok_def)
      then obtain pre suf where "fr = pre @ f # suf" "h \<in> set pre" by (auto simp: above_def)
      then show ?thesis unfolding above_def by (intro exI [of _ "c # pre"] exI [of _ suf]) simp
    qed
  qed
  show "spec_ok m l stk" by (rule inv)
  have "effect_of m (Pop_Return (Some v)) (eff i)" using inv(11) i(1) by (auto simp: effect_ok_def dest!: spec [of _ i])
  then show "effect_ok m ?pt eff" by (rule effect_ok_same [OF inv(11)])
qed

section \<open>The invariant of the stack\<close>

definition pt_of :: "'a lf_stack \<Rightarrow> nat \<Rightarrow> 'a lpoint" where
  "pt_of s i = (if i < length (points s) then points s ! i else Idle)"

definition eff_of :: "'a lf_stack \<Rightarrow> nat \<Rightarrow> 'a event option" where
  "eff_of s i = (if i < length (effect s) then effect s ! i else None)"

definition lf_ok :: "'a lf_stack \<Rightarrow> bool" where
  "lf_ok s \<longleftrightarrow> length (effect s) = length (points s) \<and> popped_count s = cnt inside (points s) \<and>
     (\<exists>pl stk fr. lf_parts (memory s) (stack s) (free_stack s) (set (used s)) (log s) (pt_of s) (eff_of s) pl stk fr)"

lemma goto_simps [simp]:
  "memory (goto i p s) = memory s" "stack (goto i p s) = stack s" "free_stack (goto i p s) = free_stack s"
  "used (goto i p s) = used s" "log (goto i p s) = log s" "effect (goto i p s) = effect s"
  "popped_count (goto i p s) = popped_count s" "points (goto i p s) = (points s)[i := p]"
  by (simp_all add: goto_def)

lemma happens_simps [simp]:
  "memory (happens i e s) = memory s" "stack (happens i e s) = stack s" "free_stack (happens i e s) = free_stack s"
  "used (happens i e s) = used s" "log (happens i e s) = log s @ [e]" "effect (happens i e s) = (effect s)[i := Some e]"
  "popped_count (happens i e s) = popped_count s" "points (happens i e s) = points s"
  by (simp_all add: happens_def)

lemma pt_of_upd: "i < length (points s) \<Longrightarrow> points t = (points s)[i := p] \<Longrightarrow> pt_of t = (pt_of s)(i := p)"
  by (auto simp: pt_of_def fun_eq_iff)

lemma eff_of_upd: "i < length (effect s) \<Longrightarrow> effect t = (effect s)[i := e] \<Longrightarrow> eff_of t = (eff_of s)(i := e)"
  by (auto simp: eff_of_def fun_eq_iff)

text \<open>Rebuilding the invariant after thread \<open>i\<close> has moved to \<open>p\<close>.\<close>

lemma lf_okI:
  assumes "length (effect s) = length (points s)" "popped_count s = cnt inside (points s)" "i < length (points s)"
    and "points t = (points s)[i := p]" "effect t = effect s \<and> e = eff_of s i \<or> effect t = (effect s)[i := e]"
    and "popped_count t + (if inside (points s ! i) then 1 else 0) = popped_count s + (if inside p then 1 else 0)"
    and "lf_parts (memory t) (stack t) (free_stack t) (set (used t)) (log t) ((pt_of s)(i := p)) ((eff_of s)(i := e)) pl stk fr"
  shows "lf_ok t"
proof -
  have "pt_of t = (pt_of s)(i := p)" by (rule pt_of_upd [OF assms(3,4)])
  moreover have "eff_of t = (eff_of s)(i := e)"
    using assms(5) eff_of_upd [of i s t e] assms(1,3) by (auto simp: eff_of_def fun_eq_iff)
  moreover have "popped_count t = cnt inside (points t)"
    using cnt_update [OF assms(3), of inside p] assms(2,4,6) by simp
  moreover have "length (effect t) = length (points t)" using assms(1,4,5) by auto
  ultimately show ?thesis using assms(7) unfolding lf_ok_def by metis
qed

lemma new_lf_ok: "lf_ok (new_lf_stack n :: 'a lf_stack)"
proof -
  define s :: "'a lf_stack" where "s = new_lf_stack n"
  have s: "memory s = (\<lambda>_. None)" "stack s = None" "free_stack s = None" "used s = []" "log s = []"
    "pt_of s = (\<lambda>_. Idle)" "eff_of s = (\<lambda>_. None)"
    by (auto simp: s_def new_lf_stack_def pt_of_def eff_of_def)
  have "lf_parts (memory s) (stack s) (free_stack s) (set (used s)) (log s) (pt_of s) (eff_of s) (\<lambda>_. Nowhere) [] []"
    by (intro lf_partsI)
       (auto simp: s mem_ok_def list_ok_def own_ok_def erase_ok_def hazard_ok_def next_ok_def retired_ok_def order_ok_def
         spec_ok_def effect_ok_def node_values_def)
  then have "lf_ok s" unfolding lf_ok_def by (intro conjI exI) (simp_all add: s_def new_lf_stack_def cnt_replicate)
  then show ?thesis by (simp add: s_def)
qed

text \<open>When a thread inside \<open>pop\<close> sees the count 1 no other thread has a hazard.\<close>

lemma alone_no_hazard:
  assumes "popped_count s = cnt inside (points s)" "i < length (points s)" "inside (points s ! i)"
    and "hazard (points s ! i) = None" "popped_count s = 1"
  shows "hazard (pt_of s j) = None"
proof (rule ccontr)
  assume h: "hazard (pt_of s j) \<noteq> None"
  then have "j < length (points s)" "hazard (points s ! j) \<noteq> None" by (auto simp: pt_of_def split: if_splits)
  moreover from this have "inside (points s ! j)" using hazard_inside by blast
  ultimately have "i = j" using cnt_one_unique [of inside "points s" i j] assms by simp
  with assms(4) h show False by (simp add: pt_of_def split: if_splits)
qed

lemma goto_ok:
  assumes ok: "lf_ok s" and i: "i < length (points s)" "q = points s ! i"
    and same: "owned p = owned q" "erase_from p = erase_from q" "retiring q \<Longrightarrow> retiring p" "inside p = inside q"
    and simple: "hazard p = None" "\<And>k f. p \<noteq> Try_Count k f" "\<And>k f. p \<noteq> Try_Cas k f"
    and eff: "effect_of (memory s) p (eff_of s i)"
  shows "lf_ok (goto i p s)"
proof -
  obtain pl stk fr where len: "length (effect s) = length (points s)" and cnt: "popped_count s = cnt inside (points s)" and
    inv: "lf_parts (memory s) (stack s) (free_stack s) (set (used s)) (log s) (pt_of s) (eff_of s) pl stk fr"
    using ok unfolding lf_ok_def by blast
  have "lf_parts (memory s) (stack s) (free_stack s) (set (used s)) (log s) ((pt_of s)(i := p)) ((eff_of s)(i := eff_of s i)) pl stk fr"
    by (rule move_parts [OF inv])
       (use i same simple eff lf_partsD(10) [OF inv] in \<open>auto simp: pt_of_def\<close>)
  then show ?thesis
    by (intro lf_okI [OF len cnt i(1), of "goto i p s" p "eff_of s i"]) (use i same(4) in simp_all)
qed

text \<open>Reading \<open>stack_\<close> into \<open>current\<close>.\<close>

lemma pop_current_ok:
  assumes ok: "lf_ok s" and i: "i < length (points s)" "points s ! i = Pop_Load \<or> (\<exists>c n. points s ! i = Pop_Cas c n)"
  shows "lf_ok (pop_current i (stack s) s)"
proof -
  obtain pl stk fr where len: "length (effect s) = length (points s)" and cnt: "popped_count s = cnt inside (points s)" and
    inv: "lf_parts (memory s) (stack s) (free_stack s) (set (used s)) (log s) (pt_of s) (eff_of s) pl stk fr"
    using ok unfolding lf_ok_def by blast
  have pt: "pt_of s i = points s ! i" using i(1) by (simp add: pt_of_def)
  have eff: "eff_of s i = None" using lf_partsD(11) [OF inv] i(2) pt by (auto simp: effect_ok_def dest!: spec [of _ i])
  have here: "owned (points s ! i) = None" "erase_from (points s ! i) = None" "\<not> retiring (points s ! i)" "inside (points s ! i)"
    using i(2) by auto
  note stk = lf_partsD(2) [OF inv]
  show ?thesis
  proof (cases "stack s")
    case None
    then have "stk = []" using stk by (cases stk) (auto simp: list_ok_def)
    with lf_partsD(10) [OF inv] have spec: "spec_ok (memory s) (log s @ [Popped None]) stk"
      by (simp add: spec_ok_def replay_append node_values_def)
    have "lf_parts (memory s) (stack s) (free_stack s) (set (used s)) (log s @ [Popped None]) ((pt_of s)(i := Try_Load None))
        ((eff_of s)(i := Some (Popped None))) pl stk fr"
      by (rule move_parts [OF inv]) (use here pt spec in auto)
    then show ?thesis
      unfolding None pop_current_def
      by (intro lf_okI [OF len cnt i(1), of _ "Try_Load None" "Some (Popped None)"]) (use i(1) len here None in simp_all)
  next
    case (Some c)
    then have on: "pl c = On_Stack" using stk by (cases stk) (auto simp: list_ok_def)
    have "lf_parts (memory s) (stack s) (free_stack s) (set (used s)) (log s) ((pt_of s)(i := Pop_Next c))
        ((eff_of s)(i := eff_of s i)) pl stk fr"
      by (rule move_parts [OF inv]) (use here pt on eff lf_partsD(10) [OF inv] in auto)
    then show ?thesis
      unfolding Some pop_current_def
      by (intro lf_okI [OF len cnt i(1), of _ "Pop_Next c" "eff_of s i"]) (use i(1) len here Some in simp_all)
  qed
qed

text \<open>Every step is defined (no access to a deleted node) and keeps the invariant.\<close>

lemma lf_code_ok:
  assumes ok: "lf_ok s" and may: "may_run False ch i s"
  shows "\<exists>s'. lf_code ch i (points s ! i) s = Some s' \<and> lf_ok s'"
proof -
  have i: "i < length (points s)" and ni: "points s ! i \<noteq> Idle" using may by (simp_all add: may_run_def)
  obtain pl stk fr where len: "length (effect s) = length (points s)" and cnt: "popped_count s = cnt inside (points s)" and
    inv: "lf_parts (memory s) (stack s) (free_stack s) (set (used s)) (log s) (pt_of s) (eff_of s) pl stk fr"
    using ok unfolding lf_ok_def by blast
  note parts = lf_partsD [OF inv] and rebuild = lf_okI [OF len cnt i] and go = goto_ok [OF ok i refl]
  have pt: "pt_of s i = points s ! i" using i by (simp add: pt_of_def)
  have eff: "effect_of (memory s) (points s ! i) (eff_of s i)" using parts(11) pt by (auto simp: effect_ok_def dest: spec [of _ i])
  have own: "pl a = Mine i \<longleftrightarrow> owned (points s ! i) = Some a" for a using parts(4) pt by (auto simp: own_ok_def)
  have own_node: "\<exists>v n. memory s c = Some (v, n)" if "owned (points s ! i) = Some c" for c
    using mem_okD(1) [OF parts(1), of c] own [of c] that by simp
  have in_pos: "0 < popped_count s" if "inside (points s ! i)" using cnt cnt_pos [of i "points s" inside] i that by simp
  have alone: "hazard (pt_of s j) = None" if "inside (points s ! i)" "hazard (points s ! i) = None" "popped_count s = 1" for j
    by (rule alone_no_hazard [OF cnt i that])
  show ?thesis
  proof (cases "points s ! i")
    case Idle
    with ni show ?thesis by simp
  next
    case (Push_Load v)
    have "lf_ok (goto i (Push_New v (stack s)) s)" by (rule go) (use Push_Load eff in simp_all)
    with Push_Load show ?thesis by simp
  next
    case (Push_New v n)
    let ?p = "new_addr ch"
    have "?p \<notin> set (used s)" using may Push_New by (simp add: may_run_def may_allocate_def)
    from new_parts [OF inv _ this, of i v n] pt Push_New
    have "lf_parts ((memory s)(?p \<mapsto> (v, n))) (stack s) (free_stack s) (insert ?p (set (used s))) (log s) ((pt_of s)(i := Push_Cas v ?p))
        ((eff_of s)(i := eff_of s i)) (pl(?p := Mine i)) stk fr" by simp
    then have "lf_ok (goto i (Push_Cas v ?p) (s\<lparr>memory := (memory s)(?p \<mapsto> (v, n)), used := ?p # used s\<rparr>))"
      by (intro rebuild [of _ "Push_Cas v ?p" "eff_of s i"]) (use Push_New in simp_all)
    with Push_New show ?thesis by (simp add: Let_def)
  next
    case (Push_Cas v p)
    then obtain v' n where p: "memory s p = Some (v', n)" using own_node [of p] by auto
    show ?thesis
    proof (cases "stack s = n \<and> \<not> weak_fails ch")
      case True
      from push_parts [OF inv, of i v p v'] p True pt Push_Cas
      have "lf_parts (memory s) (Some p) (free_stack s) (set (used s)) (log s @ [Pushed v]) ((pt_of s)(i := Push_Return v))
          ((eff_of s)(i := Some (Pushed v))) (pl(p := On_Stack)) (p # stk) fr" by simp
      then have "lf_ok (goto i (Push_Return v) (happens i (Pushed v) (s\<lparr>stack := Some p\<rparr>)))"
        by (intro rebuild [of _ "Push_Return v" "Some (Pushed v)"]) (use Push_Cas in \<open>simp_all add: happens_def goto_def\<close>)
      with Push_Cas p True show ?thesis by simp
    next
      case False
      have "pl p = Mine i" using own Push_Cas by simp
      from set_next_parts [OF inv this p, of "stack s"]
      have "lf_parts ((memory s)(p \<mapsto> (v', stack s))) (stack s) (free_stack s) (set (used s)) (log s) ((pt_of s)(i := Push_Cas v p))
          ((eff_of s)(i := eff_of s i)) pl stk fr" using pt Push_Cas by (metis fun_upd_triv)
      then have "lf_ok (s\<lparr>memory := (memory s)(p \<mapsto> (v', stack s))\<rparr>)"
        by (intro rebuild [of _ "Push_Cas v p" "eff_of s i"]) (use Push_Cas in simp_all, metis list_update_id)
      with Push_Cas p False show ?thesis by (auto simp: set_next_def)
    qed
  next
    case (Push_Return v)
    have "lf_ok (goto i Idle s)" by (rule go) (use Push_Return in simp_all)
    with Push_Return show ?thesis by simp
  next
    case Pop_Enter
    have "lf_parts (memory s) (stack s) (free_stack s) (set (used s)) (log s) ((pt_of s)(i := Pop_Load)) ((eff_of s)(i := eff_of s i)) pl stk fr"
      by (rule move_parts [OF inv]) (use pt Pop_Enter eff parts(10) in simp_all)
    then have "lf_ok (goto i Pop_Load (s\<lparr>popped_count := popped_count s + 1\<rparr>))"
      by (intro rebuild [of _ Pop_Load "eff_of s i"]) (use Pop_Enter in simp_all)
    with Pop_Enter show ?thesis by simp
  next
    case Pop_Load
    with pop_current_ok [OF ok i] show ?thesis by simp
  next
    case (Pop_Next c)
    have "shared (pt_of s) pl c" using parts(6) pt Pop_Next unfolding hazard_ok_def by (metis hazard.simps(1))
    then have "pl c \<noteq> Nowhere" by (auto simp: shared_def)
    then obtain v n where c: "memory s c = Some (v, n)" using mem_okD(1) [OF parts(1)] by blast
    have "lf_parts (memory s) (stack s) (free_stack s) (set (used s)) (log s) ((pt_of s)(i := Pop_Cas c n)) ((eff_of s)(i := eff_of s i)) pl stk fr"
      by (rule move_parts [OF inv]) (use pt Pop_Next c eff parts(10) in simp_all)
    then have "lf_ok (goto i (Pop_Cas c n) s)"
      by (intro rebuild [of _ "Pop_Cas c n" "eff_of s i"]) (use Pop_Next in simp_all)
    with Pop_Next c show ?thesis by simp
  next
    case (Pop_Cas c n)
    show ?thesis
    proof (cases "stack s = Some c \<and> \<not> weak_fails ch")
      case True
      from pop_parts [OF inv [unfolded conjunct1 [OF True]]] pt Pop_Cas obtain v rest where c: "memory s c = Some (v, n)"
        and p: "lf_parts (memory s) n (free_stack s) (set (used s)) (log s @ [Popped (Some v)]) ((pt_of s)(i := Pop_Take c))
          ((eff_of s)(i := Some (Popped (Some v)))) (pl(c := Mine i)) rest fr" by metis
      have "lf_ok (goto i (Pop_Take c) (happens i (Popped (Some v)) (s\<lparr>stack := n\<rparr>)))"
        by (rule rebuild [of _ "Pop_Take c" "Some (Popped (Some v))"]) (use Pop_Cas p in \<open>simp_all add: happens_def goto_def\<close>)
      with Pop_Cas True c show ?thesis by simp
    next
      case False
      with Pop_Cas pop_current_ok [OF ok i] show ?thesis by auto
    qed
  next
    case (Pop_Take c)
    then obtain v n where c: "memory s c = Some (v, n)" using own_node [of c] by auto
    have "lf_ok (goto i (Try_Load (Some (c, v))) s)" by (rule go) (use Pop_Take eff c in simp_all)
    with Pop_Take c show ?thesis by simp
  next
    case (Try_Load k)
    show ?thesis
    proof (cases "free_stack s")
      case None
      have "lf_ok (goto i (Pop_Dec k) s)" by (rule go) (use Try_Load eff in simp_all)
      with Try_Load None show ?thesis by simp
    next
      case (Some f)
      then have f: "pl f = On_Free" using parts(3) by (cases fr) (auto simp: list_ok_def)
      then have "retired (set (used s)) pl f" using mem_okD(2) [OF parts(1), of f] by (simp add: retired_def)
      then have "lf_parts (memory s) (stack s) (free_stack s) (set (used s)) (log s) ((pt_of s)(i := Try_Count k f)) ((eff_of s)(i := eff_of s i)) pl stk fr"
        by (intro move_parts [OF inv]) (use pt Try_Load eff parts(10) in simp_all)
      then have "lf_ok (goto i (Try_Count k f) s)"
        by (intro rebuild [of _ "Try_Count k f" "eff_of s i"]) (use Try_Load in simp_all)
      with Try_Load Some show ?thesis by simp
    qed
  next
    case (Try_Count k f)
    show ?thesis
    proof (cases "popped_count s = 1")
      case True
      have "retired (set (used s)) pl f" using parts(8) [unfolded retired_ok_def, rule_format, of i k f] pt Try_Count by simp
      then have "lf_parts (memory s) (stack s) (free_stack s) (set (used s)) (log s) ((pt_of s)(i := Try_Cas k f)) ((eff_of s)(i := eff_of s i)) pl stk fr"
        using alone True Try_Count by (intro move_parts [OF inv]) (use pt eff parts(10) in simp_all)
      then have "lf_ok (goto i (Try_Cas k f) s)"
        by (intro rebuild [of _ "Try_Cas k f" "eff_of s i"]) (use Try_Count in simp_all)
      with Try_Count True show ?thesis by simp
    next
      case False
      have "lf_ok (goto i (Pop_Dec k) s)" by (rule go) (use Try_Count eff in simp_all)
      with Try_Count False show ?thesis by simp
    qed
  next
    case (Try_Cas k f)
    show ?thesis
    proof (cases "free_stack s = Some f")
      case True
      from take_free_parts [OF inv [unfolded True], of i k] pt Try_Cas
      have "lf_parts (memory s) (stack s) None (set (used s)) (log s) ((pt_of s)(i := Erase k (Some f))) ((eff_of s)(i := eff_of s i))
          (\<lambda>a. if pl a = On_Free then Erasing i else pl a) stk []" by simp
      then have "lf_ok (goto i (Erase k (Some f)) (s\<lparr>free_stack := None\<rparr>))"
        by (intro rebuild [of _ "Erase k (Some f)" "eff_of s i"]) (use Try_Cas in simp_all)
      with Try_Cas True show ?thesis by simp
    next
      case False
      have "lf_ok (goto i (Pop_Dec k) s)" by (rule go) (use Try_Cas eff in simp_all)
      with Try_Cas False show ?thesis by simp
    qed
  next
    case (Erase k q)
    show ?thesis
    proof (cases q)
      case None
      have "lf_ok (goto i (Pop_Dec k) s)" by (rule go) (use Erase None eff in simp_all)
      with Erase None show ?thesis by simp
    next
      case (Some c)
      from erase_parts [OF inv, of i k c] pt Erase Some obtain v n where c: "memory s c = Some (v, n)"
        and p: "lf_parts ((memory s)(c := None)) (stack s) (free_stack s) (set (used s)) (log s) ((pt_of s)(i := Erase k n))
          ((eff_of s)(i := eff_of s i)) (pl(c := Nowhere)) stk fr" by auto
      have "lf_ok (goto i (Erase k n) (s\<lparr>memory := (memory s)(c := None)\<rparr>))"
        by (rule rebuild [of _ "Erase k n" "eff_of s i"]) (use Erase p in simp_all)
      with Erase Some c show ?thesis by (simp add: delete_node_def)
    qed
  next
    case (Pop_Dec k)
    have pos: "0 < popped_count s" using in_pos Pop_Dec by simp
    show ?thesis
    proof (cases k)
      case None
      have "lf_parts (memory s) (stack s) (free_stack s) (set (used s)) (log s) ((pt_of s)(i := Pop_Return None)) ((eff_of s)(i := eff_of s i)) pl stk fr"
        by (rule move_parts [OF inv]) (use pt Pop_Dec None eff parts(10) in simp_all)
      then have "lf_ok (goto i (Pop_Return None) (s\<lparr>popped_count := popped_count s - 1\<rparr>))"
        by (intro rebuild [of _ "Pop_Return None" "eff_of s i"]) (use Pop_Dec pos in simp_all)
      with Pop_Dec None show ?thesis by (simp add: Let_def)
    next
      case (Some cv)
      obtain c v where cv: "cv = (c, v)" by fastforce
      show ?thesis
      proof (cases "popped_count s = 1")
        case True
        have "lf_parts (memory s) (stack s) (free_stack s) (set (used s)) (log s) ((pt_of s)(i := Pop_Delete c v)) ((eff_of s)(i := eff_of s i)) pl stk fr"
          using alone True Pop_Dec by (intro move_parts [OF inv]) (use pt Some cv eff parts(10) in simp_all)
        then have "lf_ok (goto i (Pop_Delete c v) (s\<lparr>popped_count := popped_count s - 1\<rparr>))"
          by (intro rebuild [of _ "Pop_Delete c v" "eff_of s i"]) (use Pop_Dec pos in simp_all)
        with Pop_Dec Some cv True show ?thesis by (simp add: Let_def)
      next
        case False
        have "lf_parts (memory s) (stack s) (free_stack s) (set (used s)) (log s) ((pt_of s)(i := Free_Load c v)) ((eff_of s)(i := eff_of s i)) pl stk fr"
          by (rule move_parts [OF inv]) (use pt Pop_Dec Some cv eff parts(10) in simp_all)
        then have "lf_ok (goto i (Free_Load c v) (s\<lparr>popped_count := popped_count s - 1\<rparr>))"
          by (intro rebuild [of _ "Free_Load c v" "eff_of s i"]) (use Pop_Dec pos in simp_all)
        with Pop_Dec Some cv False pos show ?thesis by (simp add: Let_def)
      qed
    qed
  next
    case (Pop_Delete c v)
    from delete_parts [OF inv, of i c v] pt Pop_Delete obtain x where c: "memory s c = Some x"
      and p: "lf_parts ((memory s)(c := None)) (stack s) (free_stack s) (set (used s)) (log s) ((pt_of s)(i := Pop_Return (Some v)))
        ((eff_of s)(i := eff_of s i)) (pl(c := Nowhere)) stk fr" by auto
    have "lf_ok (goto i (Pop_Return (Some v)) (s\<lparr>memory := (memory s)(c := None)\<rparr>))"
      by (rule rebuild [of _ "Pop_Return (Some v)" "eff_of s i"]) (use Pop_Delete p in simp_all)
    with Pop_Delete c show ?thesis by (simp add: delete_node_def)
  next
    case (Free_Load c v)
    have "lf_ok (goto i (Free_Store c v (free_stack s)) s)" by (rule go) (use Free_Load eff in simp_all)
    with Free_Load show ?thesis by simp
  next
    case (Free_Store c v n)
    then obtain v' n' where c: "memory s c = Some (v', n')" using own_node [of c] by auto
    have "pl c = Mine i" using own Free_Store by simp
    from set_next_parts [OF inv this c, of n]
    have "lf_parts ((memory s)(c \<mapsto> (v', n))) (stack s) (free_stack s) (set (used s)) (log s) ((pt_of s)(i := Free_Store c v n))
        ((eff_of s)(i := eff_of s i)) pl stk fr" using pt Free_Store by (metis fun_upd_triv)
    then have "lf_ok (s\<lparr>memory := (memory s)(c \<mapsto> (v', n))\<rparr>)"
      by (intro rebuild [of _ "Free_Store c v n" "eff_of s i"]) (use Free_Store in simp_all, metis list_update_id)
    then have "lf_ok (goto i (Free_Cas c v) (s\<lparr>memory := (memory s)(c \<mapsto> (v', n))\<rparr>))"
      by (rule goto_ok [of _ i "Free_Store c v n"]) (use i Free_Store eff in \<open>simp_all add: eff_of_def split: if_splits\<close>)
    with Free_Store c show ?thesis by (simp add: set_next_def)
  next
    case (Free_Cas c v)
    then obtain v' n where c: "memory s c = Some (v', n)" using own_node [of c] by auto
    show ?thesis
    proof (cases "free_stack s = n \<and> \<not> weak_fails ch")
      case True
      from free_parts [OF inv, of i c v v'] c True pt Free_Cas
      have "lf_parts (memory s) (stack s) (Some c) (set (used s)) (log s) ((pt_of s)(i := Pop_Return (Some v))) ((eff_of s)(i := eff_of s i))
          (pl(c := On_Free)) stk (c # fr)" by simp
      then have "lf_ok (goto i (Pop_Return (Some v)) (s\<lparr>free_stack := Some c\<rparr>))"
        by (intro rebuild [of _ "Pop_Return (Some v)" "eff_of s i"]) (use Free_Cas in simp_all)
      with Free_Cas c True show ?thesis by simp
    next
      case False
      have "pl c = Mine i" using own Free_Cas by simp
      from set_next_parts [OF inv this c, of "free_stack s"]
      have "lf_parts ((memory s)(c \<mapsto> (v', free_stack s))) (stack s) (free_stack s) (set (used s)) (log s) ((pt_of s)(i := Free_Cas c v))
          ((eff_of s)(i := eff_of s i)) pl stk fr" using pt Free_Cas by (metis fun_upd_triv)
      then have "lf_ok (s\<lparr>memory := (memory s)(c \<mapsto> (v', free_stack s))\<rparr>)"
        by (intro rebuild [of _ "Free_Cas c v" "eff_of s i"]) (use Free_Cas in simp_all, metis list_update_id)
      with Free_Cas c False show ?thesis by (auto simp: set_next_def)
    qed
  next
    case (Pop_Return r)
    have "lf_ok (goto i Idle s)" by (rule go) (use Pop_Return in simp_all)
    with Pop_Return show ?thesis by simp
  qed
qed

section \<open>Safety\<close>

lemma call_ok:
  assumes ok: "lf_ok s" and i: "i < length (points s)" "points s ! i = Idle" "p = Pop_Enter \<or> (\<exists>v. p = Push_Load v)"
  shows "lf_ok (call i p s)"
proof -
  obtain pl stk fr where len: "length (effect s) = length (points s)" and cnt: "popped_count s = cnt inside (points s)" and
    inv: "lf_parts (memory s) (stack s) (free_stack s) (set (used s)) (log s) (pt_of s) (eff_of s) pl stk fr"
    using ok unfolding lf_ok_def by blast
  have "lf_parts (memory s) (stack s) (free_stack s) (set (used s)) (log s) ((pt_of s)(i := p)) ((eff_of s)(i := None)) pl stk fr"
    by (rule move_parts [OF inv]) (use i lf_partsD(10) [OF inv] in \<open>auto simp: pt_of_def\<close>)
  then show ?thesis
    unfolding call_def by (intro lf_okI [OF len cnt i(1), of _ p None]) (use i in auto)
qed

lemma lf_step_ok: "lf_step False s s' \<Longrightarrow> lf_ok s \<Longrightarrow> lf_ok s'"
proof (induction rule: lf_step.induct)
  case (runs ch i s s')
  with lf_code_ok [OF runs(3,1)] show ?case by simp
qed (auto intro: call_ok)

lemma lf_reachable_ok: "(lf_step False)\<^sup>*\<^sup>* (new_lf_stack n) s \<Longrightarrow> lf_ok s"
  by (induction rule: rtranclp_induct) (auto intro: new_lf_ok lf_step_ok)

lemma lf_effect:
  assumes ok: "lf_ok s" and i: "i < length (points s)"
  shows "effect_of (memory s) (points s ! i) (effect s ! i)"
proof -
  obtain pl stk fr where "length (effect s) = length (points s)"
    "lf_parts (memory s) (stack s) (free_stack s) (set (used s)) (log s) (pt_of s) (eff_of s) pl stk fr"
    using ok unfolding lf_ok_def by blast
  then show ?thesis using lf_partsD(11) i by (fastforce simp: effect_ok_def pt_of_def eff_of_def dest: spec [of _ i])
qed

definition lf_stands_for :: "'a lf_stack \<Rightarrow> 'a list \<Rightarrow> bool" where
  "lf_stands_for s xs \<longleftrightarrow> (\<exists>cs. linked (memory s) (stack s) cs \<and> xs = node_values (memory s) cs)"

lemma lf_linearizable: "lf_ok s \<Longrightarrow> \<exists>xs. lf_stands_for s xs \<and> replay (log s) [] = Some xs"
proof -
  assume "lf_ok s"
  then obtain pl stk fr where inv: "lf_parts (memory s) (stack s) (free_stack s) (set (used s)) (log s) (pt_of s) (eff_of s) pl stk fr"
    unfolding lf_ok_def by blast
  show ?thesis using lf_partsD(2,10) [OF inv] by (auto simp: lf_stands_for_def list_ok_def spec_ok_def)
qed

interpretation lf: linearizable_stack "new_lf_stack n" "lf_step False" log lf_stands_for for n
  by unfold_locales (rule lf_linearizable [OF lf_reachable_ok])

lemma lock_free_stack_conserves:
  "(lf_step False)\<^sup>*\<^sup>* (new_lf_stack n) s \<Longrightarrow>
    \<exists>xs. lf_stands_for s xs \<and> mset (pushed (log s)) = mset (popped (log s)) + mset xs"
  by (rule lf.values_conserved)

text \<open>
  C18: The lock-free stack is memory safe and linearizable if the allocator never gives out an address twice. For any
  number of threads and every interleaving of their atomic accesses, no thread accesses or deletes a node that has been
  deleted; the operations, in the order of the steps at which they take effect, are a history of a sequential
  stack whose contents are the values of the linked nodes; and what an operation returns is what it did at that step.
\<close>

theorem lock_free_stack_linearizable:
  assumes "(lf_step False)\<^sup>*\<^sup>* (new_lf_stack n) s"
  shows "\<not> faults False s \<and>
    (\<exists>cs. linked (memory s) (stack s) cs \<and> replay (log s) [] = Some (node_values (memory s) cs)) \<and>
    (\<forall>i < length (points s). (\<forall>v. points s ! i = Push_Return v \<longrightarrow> effect s ! i = Some (Pushed v)) \<and>
       (\<forall>r. points s ! i = Pop_Return r \<longrightarrow> effect s ! i = Some (Popped r)))"
proof -
  have ok: "lf_ok s" using lf_reachable_ok [OF assms] .
  have "\<not> faults False s" using lf_code_ok [OF ok] by (fastforce simp: faults_def)
  moreover have "\<exists>cs. linked (memory s) (stack s) cs \<and> replay (log s) [] = Some (node_values (memory s) cs)"
    using lf_linearizable [OF ok] by (auto simp: lf_stands_for_def)
  moreover have "effect s ! i = Some (Pushed v)" if "i < length (points s)" "points s ! i = Push_Return v" for i v
    using lf_effect [OF ok that(1)] that(2) by simp
  moreover have "effect s ! i = Some (Popped r)" if "i < length (points s)" "points s ! i = Pop_Return r" for i r
    using lf_effect [OF ok that(1)] that(2) by simp
  ultimately show ?thesis by blast
qed

lemma lf_code_log:
  assumes "lf_code ch i p s = Some s'" "effect_of (memory s) p (effect s ! i)" "i < length (points s)"
  shows "log s' = log s \<or> (\<exists>e. effect s ! i = None \<and> effect s' = (effect s)[i := Some e] \<and> log s' = log s @ [e])"
  using assms
  by (cases "(ch, i, p, s)" rule: lf_code.cases)
     (force simp: pop_current_def set_next_def delete_node_def Let_def split: option.splits if_splits)+

text \<open>
  Each operation of the lock-free stack takes effect at most once between its call and its return: a step adds at
  most one event to the history, for a thread whose operation has not taken effect yet.
\<close>

theorem lock_free_stack_effects_once:
  assumes "(lf_step False)\<^sup>*\<^sup>* (new_lf_stack n) s" "lf_step False s s'"
  shows "log s' = log s \<or>
    (\<exists>i e. i < length (points s) \<and> effect s ! i = None \<and> effect s' = (effect s)[i := Some e] \<and> log s' = log s @ [e])"
  using assms(2)
proof cases
  case (runs ch i)
  have i: "i < length (points s)" using runs(1) by (simp add: may_run_def)
  from lf_code_log [OF runs(2) lf_effect [OF lf_reachable_ok [OF assms(1)] i] i] i show ?thesis by blast
qed (simp_all add: call_def)

section \<open>The destructor\<close>

lemma erase_list_linked:
  "linked (memory s) p cs \<Longrightarrow> distinct cs \<Longrightarrow> length cs \<le> fuel \<Longrightarrow>
   \<exists>s'. erase_list fuel p s = Some s' \<and> memory s' = (\<lambda>a. if a \<in> set cs then None else memory s a) \<and>
     free_stack s' = free_stack s"
proof (induction fuel p s arbitrary: cs rule: erase_list.induct)
  case (1 fuel s)
  then have "cs = []" by (cases cs) auto
  then show ?case by simp
next
  case (2 c s)
  then show ?case by simp
next
  case (3 fuel c s)
  then obtain rest v n where cs: "cs = c # rest" "memory s c = Some (v, n)" "linked (memory s) n rest"
    by (cases cs) auto
  let ?s = "s\<lparr>memory := (memory s)(c := None)\<rparr>"
  have del: "delete_node c s = Some ?s" using cs(2) by (simp add: delete_node_def)
  have "linked (memory ?s) n rest = linked (memory s) n rest"
    using 3(3) cs(1) by (intro linked_cong) auto
  with cs(3) have l: "linked (memory ?s) n rest" by simp
  have "\<exists>s'. erase_list fuel n ?s = Some s' \<and> memory s' = (\<lambda>a. if a \<in> set rest then None else memory ?s a) \<and> free_stack s' = free_stack ?s"
    by (rule "3.IH" [OF cs(2) refl del l]) (use 3(3,4) cs(1) in simp_all)
  then show ?case using cs del by (auto simp: fun_eq_iff)
qed

text \<open>
  The lock-free stack does not leak: when no operation is running, the destructor deletes every node that exists,
  each one once. (The fuel is the number of nodes ever allocated, so the two erasing loops end.)
\<close>

theorem lock_free_stack_destroys_all:
  assumes "(lf_step False)\<^sup>*\<^sup>* (new_lf_stack n) s" "\<forall>p \<in> set (points s). p = Idle"
  shows "\<exists>s'. lf_destroy (length (used s)) s = Some s' \<and> (\<forall>a. memory s' a = None)"
proof -
  obtain pl stk fr where inv: "lf_parts (memory s) (stack s) (free_stack s) (set (used s)) (log s) (pt_of s) (eff_of s) pl stk fr"
    using lf_reachable_ok [OF assms(1)] unfolding lf_ok_def by blast
  note parts = lf_partsD [OF inv]
  have idle: "pt_of s i = Idle" for i using assms(2) by (simp add: pt_of_def)
  have used: "pl a \<noteq> Nowhere \<Longrightarrow> a \<in> set (used s)" for a using mem_okD(2) [OF parts(1)] .
  have bound: "length xs \<le> length (used s)" if "distinct xs" "\<And>a. a \<in> set xs \<Longrightarrow> pl a \<noteq> Nowhere" for xs
  proof -
    have "card (set xs) \<le> card (set (used s))" using that(2) used by (intro card_mono) auto
    then show ?thesis using distinct_card [OF that(1)] card_length [of "used s"] by linarith
  qed
  have stk: "linked (memory s) (stack s) stk" "distinct stk" "\<And>a. a \<in> set stk \<longleftrightarrow> pl a = On_Stack"
    and fr: "linked (memory s) (free_stack s) fr" "distinct fr" "\<And>a. a \<in> set fr \<longleftrightarrow> pl a = On_Free"
    using parts(2,3) by (auto simp: list_ok_def)
  obtain s1 where s1: "erase_list (length (used s)) (stack s) s = Some s1" "free_stack s1 = free_stack s"
    "memory s1 = (\<lambda>a. if a \<in> set stk then None else memory s a)"
    using erase_list_linked [OF stk(1,2) bound [OF stk(2)]] stk(3) by auto
  have "linked (memory s1) (free_stack s) fr = linked (memory s) (free_stack s) fr"
    using stk(3) fr(3) by (intro linked_cong) (simp add: s1(3))
  with fr(1) obtain s2 where s2: "erase_list (length (used s)) (free_stack s) s1 = Some s2"
    "memory s2 = (\<lambda>a. if a \<in> set fr then None else memory s1 a)"
    using erase_list_linked [OF _ fr(2) bound [OF fr(2)], of s1 "free_stack s"] fr(3) by auto
  have "memory s2 a = None" for a
  proof (cases "pl a")
    case (Mine i)
    then show ?thesis using parts(4) idle by (auto simp: own_ok_def)
  next
    case (Erasing i)
    obtain es where "list_ok (memory s) pl (erase_from (pt_of s i)) es (Erasing i)" using parts(5) by (auto simp: erase_ok_def)
    with Erasing idle show ?thesis by (cases es) (auto simp: list_ok_def)
  qed (use s1(3) s2(2) stk(3) fr(3) mem_okD(3) [OF parts(1)] in auto)
  with s1 s2 show ?thesis by (auto simp: lf_destroy_def)
qed

section \<open>Concrete runs\<close>

definition push_schedule :: "nat move list" where
  "push_schedule = [Call 0 (Push_Load 5), Run 0 0, Run 0 10, Run 0 0, Run 0 0]"

lemma push_run:
  "\<exists>s :: nat lf_stack. (lf_step False)\<^sup>*\<^sup>* (new_lf_stack 2) s \<and> points s = [Idle, Idle] \<and> log s = [Pushed 5]"
proof -
  have "map_option (\<lambda>s. (points s, log s)) (run_schedule False push_schedule (new_lf_stack 2)) =
      Some ([Idle, Idle], [Pushed 5])"
    by code_simp
  then show ?thesis using run_schedule_reachable [of False push_schedule "new_lf_stack 2"]
    by (auto simp: map_option_case split: option.splits)
qed

theorem lock_free_stack_linearizable_witness:
  "\<exists>s :: nat lf_stack. log s = [Pushed 5] \<and> \<not> faults False s \<and>
     (\<exists>cs. linked (memory s) (stack s) cs \<and> node_values (memory s) cs = [5])"
proof -
  obtain s :: "nat lf_stack" where s: "(lf_step False)\<^sup>*\<^sup>* (new_lf_stack 2) s" "log s = [Pushed 5]" using push_run by blast
  from lock_free_stack_linearizable [OF s(1)] s(2) show ?thesis by (intro exI [of _ s]) auto
qed

theorem lock_free_stack_effects_once_witness:
  "\<exists>s s' :: nat lf_stack. lf_step False s s' \<and> log s = [Pushed 5] \<and> length (log s') \<le> 2"
proof -
  obtain s :: "nat lf_stack" where s: "(lf_step False)\<^sup>*\<^sup>* (new_lf_stack 2) s" "points s = [Idle, Idle]" "log s = [Pushed 5]"
    using push_run by blast
  have "lf_step False s (call 0 Pop_Enter s)" using s(2) by (intro call_pop) simp_all
  from lock_free_stack_effects_once [OF s(1) this] this s(3) show ?thesis
    by (intro exI [of _ s] exI [of _ "call 0 Pop_Enter s"]) auto
qed

theorem lock_free_stack_destroys_all_witness:
  "\<exists>s s' :: nat lf_stack. log s = [Pushed 5] \<and> lf_destroy (length (used s)) s = Some s' \<and> (\<forall>a. memory s' a = None)"
proof -
  obtain s :: "nat lf_stack" where s: "(lf_step False)\<^sup>*\<^sup>* (new_lf_stack 2) s" "points s = [Idle, Idle]" "log s = [Pushed 5]"
    using push_run by blast
  from lock_free_stack_destroys_all [OF s(1)] s(2,3) show ?thesis by auto
qed

end
