(* ===== verification/Blocking_Stack.thy ===== *)
theory Blocking_Stack
  imports Locks Stack_Spec
begin

text \<open>
  \<open>blocking_stack\<close> of \<open>concurrency/container/blocking_stack.hpp\<close>: a \<open>std::stack\<close> behind the library's \<open>mutex\<close>, on the
  model of the mutex in \<open>Locks\<close>. Between the threads' steps in \<open>lock\<close> and \<open>unlock\<close> the thread that is inside makes its
  accesses to the \<open>std::stack\<close> one by one (\<open>empty\<close>, \<open>top\<close>, \<open>pop\<close>, \<open>push\<close>). The history uses the events and the
  sequential specification of the lock-free stack.
\<close>

datatype 'a bop = B_None | B_Push 'a | B_Pop | B_Top | B_Remove 'a | B_Done "'a event"

record 'a blocking_stack =
  lock_word :: mutex
  contents :: "'a list"
  ops :: "'a bop list"
  history :: "'a event list"

definition new_blocking_stack :: "nat \<Rightarrow> 'a blocking_stack" where
  "new_blocking_stack n = \<lparr>lock_word = new_mutex n, contents = [], ops = replicate n B_None, history = []\<rparr>"

text \<open>One access of the critical section; the front of the list is the top. \<open>None\<close>: \<open>top\<close> or \<open>pop\<close> of an empty stack.\<close>

fun section_access :: "'a bop \<Rightarrow> 'a list \<Rightarrow> ('a bop \<times> 'a list \<times> 'a event list) option" where
  "section_access (B_Push v) xs = Some (B_Done (Pushed v), v # xs, [Pushed v])"
| "section_access B_Pop xs = (if xs \<noteq> [] then Some (B_Top, xs, []) else Some (B_Done (Popped None), xs, [Popped None]))"
| "section_access B_Top (x # xs) = Some (B_Remove x, x # xs, [])"
| "section_access (B_Remove v) (x # xs) = Some (B_Done (Popped (Some v)), xs, [Popped (Some v)])"
| "section_access _ _ = None"

fun in_section :: "'a bop \<Rightarrow> bool" where
  "in_section B_Top = True"
| "in_section (B_Remove v) = True"
| "in_section _ = False"

fun is_done :: "'a bop \<Rightarrow> bool" where
  "is_done (B_Done e) = True"
| "is_done _ = False"

fun waiting :: "'a bop \<Rightarrow> bool" where
  "waiting (B_Push v) = True"
| "waiting B_Pop = True"
| "waiting _ = False"

text \<open>
  A step of the mutex: a thread begins to lock for an operation that waits, and begins to unlock when its critical
  section is over.
\<close>

inductive bs_step :: "'a blocking_stack \<Rightarrow> 'a blocking_stack \<Rightarrow> bool" where
  calls: "i < length (ops s) \<Longrightarrow> ops s ! i = B_None \<Longrightarrow> points (lock_word s) ! i = M_Out \<Longrightarrow> waiting p \<Longrightarrow>
    bs_step s (s\<lparr>ops := (ops s)[i := p]\<rparr>)"
| locking: "mutex_step (lock_word s) m \<Longrightarrow>
    (\<And>i. i < length (ops s) \<Longrightarrow> points (lock_word s) ! i = M_Out \<Longrightarrow> points m ! i \<noteq> M_Out \<Longrightarrow> waiting (ops s ! i)) \<Longrightarrow>
    (\<And>i. i < length (ops s) \<Longrightarrow> points (lock_word s) ! i = M_In \<Longrightarrow> points m ! i \<noteq> M_In \<Longrightarrow> is_done (ops s ! i)) \<Longrightarrow>
    bs_step s (s\<lparr>lock_word := m\<rparr>)"
| accesses: "i < length (ops s) \<Longrightarrow> points (lock_word s) ! i = M_In \<Longrightarrow> section_access (ops s ! i) (contents s) = Some (p, xs, es) \<Longrightarrow>
    bs_step s (s\<lparr>ops := (ops s)[i := p], contents := xs, history := history s @ es\<rparr>)"
| returns: "i < length (ops s) \<Longrightarrow> ops s ! i = B_Done e \<Longrightarrow> points (lock_word s) ! i = M_Out \<Longrightarrow>
    bs_step s (s\<lparr>ops := (ops s)[i := B_None]\<rparr>)"

text \<open>What a thread in the middle of its critical section knows of the stack.\<close>

fun knows :: "'a bop \<Rightarrow> 'a list \<Rightarrow> bool" where
  "knows B_Top xs = (xs \<noteq> [])"
| "knows (B_Remove v) xs = (\<exists>rest. xs = v # rest)"
| "knows _ xs = True"

definition bs_ok :: "'a blocking_stack \<Rightarrow> bool" where
  "bs_ok s \<longleftrightarrow> mutex_inv (lock_word s) \<and> length (points (lock_word s)) = length (ops s) \<and>
     replay (history s) [] = Some (contents s) \<and>
     (\<forall>i < length (ops s). (in_section (ops s ! i) \<longrightarrow> points (lock_word s) ! i = M_In) \<and> knows (ops s ! i) (contents s))"

lemma mutex_step_length: "mutex_step m m' \<Longrightarrow> length (points m') = length (points m)"
  by (induction rule: mutex_step.induct) auto

lemma new_bs_ok: "bs_ok (new_blocking_stack n)"
  by (simp add: bs_ok_def new_blocking_stack_def new_mutex_inv) (simp add: new_mutex_def)

lemma access_spec:
  "section_access p xs = Some (q, ys, es) \<Longrightarrow> knows p xs \<Longrightarrow>
     knows q ys \<and> replay es xs = Some ys \<and> (in_section q \<longrightarrow> ys = xs)"
  by (induction p xs rule: section_access.induct) (auto split: if_splits)

lemma knows_outside: "\<not> in_section p \<Longrightarrow> knows p xs"
  by (cases p) auto

lemma bs_step_ok:
  assumes "bs_step s s'" "bs_ok s"
  shows "bs_ok s'"
  using assms(1)
proof cases
  case (calls i p)
  moreover have "knows p xs" "\<not> in_section p" for xs using calls(5) by (cases p; simp)+
  ultimately show ?thesis using assms(2) by (auto simp: bs_ok_def nth_list_update)
next
  case (locking m)
  have "mutex_inv m" using mutex_inv_step [OF locking(2)] assms(2) by (simp add: bs_ok_def)
  moreover have "points m ! i = M_In" if "i < length (ops s)" "in_section (ops s ! i)" for i
  proof (rule ccontr)
    assume "points m ! i \<noteq> M_In"
    moreover have "points (lock_word s) ! i = M_In" using that assms(2) by (simp add: bs_ok_def)
    ultimately have "is_done (ops s ! i)" using locking(4) that(1) by blast
    with that(2) show False by (cases "ops s ! i") auto
  qed
  ultimately show ?thesis using assms(2) mutex_step_length [OF locking(2)] by (simp add: bs_ok_def locking(1))
next
  case (accesses i p xs es)
  have ok: "mutex_inv (lock_word s)" "length (points (lock_word s)) = length (ops s)" "knows (ops s ! i) (contents s)"
    using assms(2) accesses(2) by (simp_all add: bs_ok_def)
  note spec = access_spec [OF accesses(4) ok(3)]
  have "cnt (\<lambda>p. p = M_In) (points (lock_word s)) \<le> 1" using futex_lock.inv_one ok(1) .
  then have "j = i" if "j < length (ops s)" "points (lock_word s) ! j = M_In" for j
    using cnt_one_unique [of "\<lambda>p. p = M_In" "points (lock_word s)" j i] that accesses(2,3) ok(2) by simp
  then have "knows (ops s ! j) xs" if "j < length (ops s)" "j \<noteq> i" for j
    using that assms(2) knows_outside [of "ops s ! j" xs] by (auto simp: bs_ok_def)
  then show ?thesis
    using assms(2) spec accesses(2,3) unfolding accesses(1)
    by (auto simp: bs_ok_def nth_list_update replay_append)
next
  case (returns i e)
  then show ?thesis using assms(2) by (auto simp: bs_ok_def nth_list_update)
qed

lemma bs_reachable_ok: "bs_step\<^sup>*\<^sup>* (new_blocking_stack n) s \<Longrightarrow> bs_ok s"
  by (induction rule: rtranclp_induct) (auto intro: new_bs_ok bs_step_ok)

interpretation bs: linearizable_stack "new_blocking_stack n" bs_step history "\<lambda>s xs. contents s = xs" for n
proof
  fix s :: "'a blocking_stack"
  assume "bs_step\<^sup>*\<^sup>* (new_blocking_stack n) s"
  from bs_reachable_ok [OF this] show "\<exists>xs. contents s = xs \<and> replay (history s) [] = Some xs" by (simp add: bs_ok_def)
qed

lemma blocking_stack_conserves:
  "bs_step\<^sup>*\<^sup>* (new_blocking_stack n) s \<Longrightarrow> mset (pushed (history s)) = mset (popped (history s)) + mset (contents s)"
  using bs.values_conserved by fastforce

text \<open>
  C20: The blocking stack is a stack: the pushes and pops, in the order in which they access the \<open>std::stack\<close>, are a
  history of a sequential stack with the current contents; no operation reads or removes the top of an empty
  stack; and a thread that has read the top removes exactly that value (no other thread comes in between, because the
  mutex admits one thread at a time).
\<close>

theorem blocking_stack_is_stack:
  assumes "bs_step\<^sup>*\<^sup>* (new_blocking_stack n) s"
  shows "replay (history s) [] = Some (contents s) \<and>
    (\<forall>i < length (ops s). points (lock_word s) ! i = M_In \<longrightarrow> ops s ! i \<noteq> B_None \<longrightarrow> \<not> is_done (ops s ! i) \<longrightarrow>
       section_access (ops s ! i) (contents s) \<noteq> None) \<and>
    (\<forall>i < length (ops s). \<forall>v. ops s ! i = B_Remove v \<longrightarrow> (\<exists>rest. contents s = v # rest))"
proof -
  have ok: "bs_ok s" using bs_reachable_ok [OF assms] .
  have k: "knows (ops s ! i) (contents s)" if "i < length (ops s)" for i using ok that by (simp add: bs_ok_def)
  have "section_access p xs \<noteq> None" if "knows p xs" "p \<noteq> B_None" "\<not> is_done p" for p xs
    using that by (cases "(p, xs)" rule: section_access.cases) auto
  with k ok show ?thesis by (fastforce simp: bs_ok_def)
qed

theorem blocking_stack_is_stack_witness:
  "\<exists>s. bs_step\<^sup>*\<^sup>* (new_blocking_stack 1) s \<and> history s = [Pushed (4::nat)] \<and> contents s = [4]"
proof -
  define a :: "nat blocking_stack" where "a = (new_blocking_stack 1)\<lparr>ops := [B_Push 4]\<rparr>"
  define b where "b = a\<lparr>lock_word := \<lparr>word = 0, points = [M_Cas]\<rparr>\<rparr>"
  define c where "c = b\<lparr>lock_word := \<lparr>word = 1, points = [M_In]\<rparr>\<rparr>"
  define d where "d = c\<lparr>ops := [B_Done (Pushed 4)], contents := [4], history := [Pushed 4]\<rparr>"
  note defs = new_blocking_stack_def new_mutex_def a_def b_def c_def d_def
  have "bs_step (new_blocking_stack 1) a"
    using calls [of 0 "new_blocking_stack 1" "B_Push (4::nat)"] by (simp add: defs)
  moreover have "bs_step a b"
    using locking [of a "\<lparr>word = 0, points = [M_Cas]\<rparr>"] call_lock [of 0 "lock_word a"] by (simp add: defs)
  moreover have "bs_step b c"
    using locking [of b "\<lparr>word = 1, points = [M_In]\<rparr>"] lock [of 0 "lock_word b" M_In 1]
    by (simp add: defs lock_step_def compare_and_set_def)
  moreover have "bs_step c d"
    using accesses [of 0 c "B_Done (Pushed 4)" "[4]" "[Pushed 4]"] by (simp add: defs)
  ultimately have run: "bs_step\<^sup>*\<^sup>* (new_blocking_stack 1) d" by (meson r_into_rtranclp rtranclp_trans)
  from blocking_stack_is_stack [OF run] run show ?thesis by (intro exI [of _ d]) (simp add: d_def)
qed

end
