(* ===== verification/Graphviz_Lexer.thy ===== *)
theory Graphviz_Lexer
  imports Prelude "HOL-Library.Char_ord" "HOL-Library.List_Lexorder"
begin

text \<open>
  \<open>graphviz_lexical_analyzer\<close> (\<open>container/graph/detail/graphviz_lexical_analyzer.hpp\<close> and \<open>.cpp\<close>) on a text of
  ASCII characters; \<open>std::isspace\<close> and \<open>std::isalpha\<close> of other bytes are undefined where \<open>char\<close> is signed (here they
  belong to no class, as in the C library's table for the "C" locale).
\<close>

section \<open>The code\<close>

datatype token = Identifier | Keyword | Literal | Operator | Punctuator | Eof

type_synonym lexeme = "token \<times> string"

record lexer =
  graphviz :: string
  sp :: nat

definition new_lexer :: "string \<Rightarrow> lexer" where
  "new_lexer text = \<lparr>graphviz = text, sp = 0\<rparr>"

definition is_space :: "char \<Rightarrow> bool" where
  "is_space c \<longleftrightarrow> of_char c \<in> {9, 10, 11, 12, 13, 32 :: nat}"

definition is_digit :: "char \<Rightarrow> bool" where
  "is_digit c \<longleftrightarrow> 48 \<le> (of_char c :: nat) \<and> of_char c \<le> (57 :: nat)"

definition is_alpha :: "char \<Rightarrow> bool" where
  "is_alpha c \<longleftrightarrow> (65 \<le> (of_char c :: nat) \<and> of_char c \<le> (90 :: nat)) \<or> (97 \<le> (of_char c :: nat) \<and> of_char c \<le> (122 :: nat))"

definition dot_keywords :: "string list" where
  "dot_keywords = [''graph'', ''digraph'']"

definition operators :: "(char \<times> string list) list" where
  "operators = [(CHR ''-'', [''--'', ''->'']), (CHR ''='', [''='']) ]"

definition punctuations :: "(char \<times> string list) list" where
  "punctuations = [(CHR '';'', ['';'']), (CHR ''{'', [''{'']), (CHR ''}'', [''}'']), (CHR ''['', [''['']), (CHR '']'', ['']''])]"

definition allowed_identifier_symbols :: "char list" where
  "allowed_identifier_symbols = [CHR ''_'', CHR ''-'']"

definition token_fallback :: lexeme where
  "token_fallback = (Eof, '''')"

definition is_identifier :: "char \<Rightarrow> bool" where
  "is_identifier c \<longleftrightarrow> is_alpha c \<or> is_digit c \<or> c \<in> set allowed_identifier_symbols"

definition is_literal :: "char \<Rightarrow> bool" where
  "is_literal c \<longleftrightarrow> is_digit c \<or> c = CHR ''.''"

text \<open>Each \<open>get_next\<close> returns an expected: \<open>None\<close> is the unexpected case.\<close>

definition get_next_keyword :: "lexer \<Rightarrow> lexeme option \<times> lexer" where
  "get_next_keyword l =
     (if length (graphviz l) \<le> sp l then (Some token_fallback, l)
      else if is_alpha (graphviz l ! sp l) then
        let word = takeWhile is_identifier (drop (sp l) (graphviz l))
        in (Some (if word \<in> set dot_keywords then Keyword else Identifier, word), l\<lparr>sp := sp l + length word\<rparr>)
      else (None, l))"

definition get_next_literal :: "lexer \<Rightarrow> lexeme option \<times> lexer" where
  "get_next_literal l =
     (if length (graphviz l) \<le> sp l then (Some token_fallback, l)
      else if is_digit (graphviz l ! sp l) then
        let literal = takeWhile is_literal (drop (sp l) (graphviz l))
        in (Some (Literal, literal), l\<lparr>sp := sp l + length literal\<rparr>)
      else (None, l))"

text \<open>The loop over \<open>max_size\<close>: the longest entity that the text starts with.\<close>

fun try_sizes :: "string list \<Rightarrow> string \<Rightarrow> nat \<Rightarrow> string option" where
  "try_sizes entity rest 0 = None"
| "try_sizes entity rest (Suc n) =
     (if take (Suc n) rest \<in> set entity then Some (take (Suc n) rest) else try_sizes entity rest n)"

definition get_next :: "token \<Rightarrow> lexer \<Rightarrow> lexeme option \<times> lexer" where
  "get_next token_type l =
     (if length (graphviz l) \<le> sp l then (Some token_fallback, l)
      else let entities = (if token_type = Operator then operators else punctuations) in
        case map_of entities (graphviz l ! sp l) of
          None \<Rightarrow> (None, l)
        | Some entity \<Rightarrow>
            let max_combination = Max (set entity);
                max_size = min (length max_combination) (length (graphviz l) - sp l) in
            case try_sizes entity (drop (sp l) (graphviz l)) max_size of
              None \<Rightarrow> (None, l)
            | Some data \<Rightarrow> (Some (token_type, data), l\<lparr>sp := sp l + length data\<rparr>))"

text \<open>\<open>or_else\<close> of an expected.\<close>

definition or_else :: "lexeme option \<times> lexer \<Rightarrow> (lexer \<Rightarrow> lexeme option \<times> lexer) \<Rightarrow> lexeme option \<times> lexer" where
  "or_else r f = (case r of (Some t, l) \<Rightarrow> (Some t, l) | (None, l) \<Rightarrow> f l)"

definition skip_spaces :: "lexer \<Rightarrow> lexer" where
  "skip_spaces l = l\<lparr>sp := sp l + length (takeWhile is_space (drop (sp l) (graphviz l)))\<rparr>"

definition get_next_token :: "lexer \<Rightarrow> lexeme \<times> lexer" where
  "get_next_token l =
     (case or_else (or_else (or_else (get_next_keyword (skip_spaces l)) get_next_literal) (get_next Punctuator)) (get_next Operator)
      of (Some t, l) \<Rightarrow> (t, l) | (None, l) \<Rightarrow> (token_fallback, l))"

section \<open>The tokens of a text\<close>

text \<open>The code reads from a position; the specification reads from the front of what is left.\<close>

definition remaining :: "lexer \<Rightarrow> string" where
  "remaining l = drop (sp l) (graphviz l)"

fun symbol :: "string \<Rightarrow> string option" where
  "symbol (c # cs) =
     (if c \<in> set '';{}[]='' then Some [c]
      else if c = CHR ''-'' \<and> cs \<noteq> [] \<and> hd cs \<in> {CHR ''-'', CHR ''>''} then Some [c, hd cs] else None)"
| "symbol [] = None"

definition classify :: "string \<Rightarrow> token" where
  "classify w =
     (if w = [] then Eof else if is_alpha (hd w) then if w \<in> set dot_keywords then Keyword else Identifier
      else if is_digit (hd w) then Literal else if w \<in> {''='', ''--'', ''->''} then Operator else Punctuator)"

fun first_word :: "string \<Rightarrow> string" where
  "first_word [] = []"
| "first_word (c # cs) =
     (if is_alpha c then takeWhile is_identifier (c # cs)
      else if is_digit c then takeWhile is_literal (c # cs)
      else case symbol (c # cs) of Some w \<Rightarrow> w | None \<Rightarrow> [])"

definition next_word :: "string \<Rightarrow> string" where
  "next_word t = first_word (dropWhile is_space t)"

definition after_word :: "string \<Rightarrow> string" where
  "after_word t = drop (length (next_word t)) (dropWhile is_space t)"

lemma char_not_space: "c \<in> set '';{}[]=-'' \<Longrightarrow> \<not> is_alpha c \<and> \<not> is_digit c \<and> \<not> is_space c"
  by (auto simp: is_alpha_def is_digit_def is_space_def)

lemma max_operators: "Max {''--'', ''->''} = ''->''"
proof -
  have "''--'' \<le> ''->''" by (simp add: list_le_def list_less_def less_char_def)
  then show ?thesis by (simp add: max_def)
qed

lemma try_two: "try_sizes es r 2 = (if take 2 r \<in> set es then Some (take 2 r) else if take 1 r \<in> set es then Some (take 1 r) else None)"
  by (simp add: numeral_2_eq_2)

lemma try_one: "try_sizes es r (Suc 0) = (if take 1 r \<in> set es then Some (take 1 r) else None)"
  by simp

text \<open>The two tables together recognise exactly the symbols.\<close>

lemma tables_symbol:
  assumes "remaining l = c # cs"
  shows "or_else (get_next Punctuator l) (get_next Operator) =
    (case symbol (c # cs) of None \<Rightarrow> (None, l) | Some w \<Rightarrow> (Some (classify w, w), l\<lparr>sp := sp l + length w\<rparr>))"
proof -
  have l: "\<not> length (graphviz l) \<le> sp l" "graphviz l ! sp l = c" "drop (sp l) (graphviz l) = c # cs"
    "length (graphviz l) - sp l = Suc (length cs)"
    using assms unfolding remaining_def by (auto simp: nth_via_drop) (metis length_drop length_Cons)
  consider "c \<in> set '';{}[]''" | "c = CHR ''=''" | "c = CHR ''-''" | "c \<notin> set '';{}[]=-''" by auto
  then show ?thesis
  proof cases
    case 3
    have ops: "get_next Punctuator l = (None, l)" using l 3 by (simp add: get_next_def punctuations_def)
    show ?thesis
    proof (cases cs)
      case Nil
      then show ?thesis using l 3 ops
        by (simp add: or_else_def get_next_def operators_def max_operators try_one)
    next
      case (Cons d ds)
      have "min 2 (Suc (length cs)) = 2" using Cons by simp
      then show ?thesis using l 3 ops Cons
        by (auto simp: or_else_def get_next_def operators_def max_operators try_two classify_def is_alpha_def is_digit_def)
    qed
  qed (use l in \<open>auto simp: or_else_def get_next_def punctuations_def operators_def try_one classify_def is_alpha_def is_digit_def\<close>)
qed

lemma classify_word: "is_alpha c \<Longrightarrow> classify (c # cs) = (if c # cs \<in> set dot_keywords then Keyword else Identifier)"
  by (simp add: classify_def)

lemma classify_literal: "is_digit c \<Longrightarrow> classify (c # cs) = Literal"
  by (auto simp: classify_def is_alpha_def is_digit_def)

lemma get_next_token_eq:
  "get_next_token l = (let w = next_word (remaining l) in
     ((classify w, w), l\<lparr>sp := sp l + length (takeWhile is_space (remaining l)) + length w\<rparr>))"
proof -
  let ?l = "skip_spaces l"
  have r: "remaining ?l = dropWhile is_space (remaining l)"
    by (simp add: remaining_def skip_spaces_def dropWhile_eq_drop add.commute)
  have l: "?l = l\<lparr>sp := sp l + length (takeWhile is_space (remaining l))\<rparr>" by (simp add: skip_spaces_def remaining_def)
  show ?thesis
  proof (cases "remaining ?l")
    case Nil
    then have "length (graphviz ?l) \<le> sp ?l" by (simp add: remaining_def)
    moreover have "dropWhile is_space (remaining l) = []" using Nil r by (simp only:)
    then have "next_word (remaining l) = []" by (simp only: next_word_def first_word.simps)
    ultimately show ?thesis using l
      by (simp add: get_next_token_def get_next_keyword_def or_else_def token_fallback_def classify_def)
  next
    case (Cons c cs)
    then have len: "\<not> length (graphviz ?l) \<le> sp ?l" and c: "graphviz ?l ! sp ?l = c" and d: "drop (sp ?l) (graphviz ?l) = c # cs"
      by (auto simp: remaining_def nth_via_drop)
    have w: "next_word (remaining l) = first_word (c # cs)" using r Cons by (simp add: next_word_def)
    consider "is_alpha c" | "\<not> is_alpha c" "is_digit c" | "\<not> is_alpha c" "\<not> is_digit c" by blast
    then show ?thesis
    proof cases
      case 1
      then have "is_identifier c" by (simp add: is_identifier_def)
      then show ?thesis using 1 len c d w l
        by (simp add: get_next_token_def get_next_keyword_def or_else_def Let_def classify_word)
    next
      case 2
      then have "is_literal c" by (simp add: is_literal_def)
      then show ?thesis using 2 len c d w l
        by (simp add: get_next_token_def get_next_keyword_def get_next_literal_def or_else_def Let_def classify_literal)
    next
      case 3
      have "or_else (or_else (get_next_keyword ?l) get_next_literal) (get_next Punctuator) = get_next Punctuator ?l"
        using 3 len c by (simp add: get_next_keyword_def get_next_literal_def or_else_def)
      then show ?thesis using 3 w l tables_symbol [OF Cons]
        by (simp add: get_next_token_def Let_def token_fallback_def classify_def split: option.splits)
    qed
  qed
qed

lemma symbol_prefix: "symbol t = Some w \<Longrightarrow> w \<noteq> [] \<and> (\<exists>r. t = w @ r)"
  by (cases t; cases "tl t") (auto split: if_splits)

lemma first_word_prefix: "\<exists>r. t = first_word t @ r"
proof (cases t)
  case (Cons c cs)
  have tw: "\<exists>r. t = takeWhile P t @ r" for P by (metis takeWhile_dropWhile_id)
  consider "is_alpha c" | "\<not> is_alpha c" "is_digit c" | "\<not> is_alpha c" "\<not> is_digit c" by blast
  then show ?thesis
    by cases (use tw [of is_identifier] tw [of is_literal] symbol_prefix [of t] Cons in
      \<open>simp_all del: takeWhile.simps symbol.simps split: option.split\<close>)
qed simp

lemma classify_Eof: "classify w = Eof \<longleftrightarrow> w = []"
  by (simp add: classify_def)

text \<open>What is left after a token; an empty token means the end of the input or a character of no token.\<close>

lemma next_token_remaining: "remaining (snd (get_next_token l)) = after_word (remaining l)"
  by (simp add: get_next_token_eq Let_def remaining_def after_word_def dropWhile_eq_drop add.commute add.left_commute)

lemma next_token_word: "fst (get_next_token l) = (classify (next_word (remaining l)), next_word (remaining l))"
  by (simp add: get_next_token_eq Let_def)

lemma after_word_less: "next_word t \<noteq> [] \<Longrightarrow> length (after_word t) < length t"
  using first_word_prefix [of "dropWhile is_space t"] length_dropWhile_le [of is_space t]
  by (cases "next_word t") (auto simp: next_word_def after_word_def dest: arg_cong [of _ _ length])

lemma after_word_le: "length (after_word t) \<le> length t"
  using length_dropWhile_le [of is_space t] by (simp add: after_word_def le_diff_conv)

function words :: "string \<Rightarrow> string list" where
  "words t = (if next_word t = [] then [] else next_word t # words (after_word t))"
  by auto
termination by (relation "measure length") (auto intro: after_word_less)

declare words.simps [simp del]

section \<open>Printing words\<close>

definition valid_word :: "string \<Rightarrow> bool" where
  "valid_word w \<longleftrightarrow> w \<noteq> [] \<and> first_word w = w"

definition unwords :: "string list \<Rightarrow> string" where
  "unwords ws = concat (map (\<lambda>w. w @ '' '') ws)"

lemma no_space: "\<not> is_alpha (CHR '' '')" "\<not> is_digit (CHR '' '')" "\<not> is_identifier (CHR '' '')" "\<not> is_literal (CHR '' '')"
    "is_space (CHR '' '')"
  by (simp_all add: is_alpha_def is_digit_def is_identifier_def is_literal_def is_space_def allowed_identifier_symbols_def)

lemma class_not_space: "is_alpha c \<Longrightarrow> \<not> is_space c" "is_digit c \<Longrightarrow> \<not> is_space c"
  by (auto simp: is_alpha_def is_digit_def is_space_def)

lemma first_word_not_space: "is_space c \<Longrightarrow> first_word (c # cs) = []"
proof -
  assume "is_space c"
  then have "\<not> is_alpha c" "\<not> is_digit c" "c \<notin> set '';{}[]=-''" using char_not_space class_not_space by blast+
  then show ?thesis by simp
qed

lemma takeWhile_space:
  assumes "takeWhile P w = w" "\<not> P (CHR '' '')"
  shows "takeWhile P (w @ '' '' @ t) = w"
proof -
  have "\<And>x. x \<in> set w \<Longrightarrow> P x" using assms(1) set_takeWhileD by metis
  then show ?thesis using takeWhile_append2 [of w P "'' '' @ t"] assms(2) by simp
qed

lemma first_word_append:
  assumes "valid_word w"
  shows "first_word (w @ '' '' @ t) = w"
proof (cases w)
  case Nil
  with assms show ?thesis by (simp add: valid_word_def)
next
  case (Cons c cs)
  consider "is_alpha c" | "\<not> is_alpha c" "is_digit c" | "\<not> is_alpha c" "\<not> is_digit c" by blast
  then show ?thesis
  proof cases
    case 1
    then have "takeWhile is_identifier w = w" using assms Cons by (simp add: valid_word_def del: takeWhile.simps)
    from takeWhile_space [OF this no_space(3)] 1 Cons show ?thesis by (simp del: takeWhile.simps)
  next
    case 2
    then have "takeWhile is_literal w = w" using assms Cons by (simp add: valid_word_def del: takeWhile.simps)
    from takeWhile_space [OF this no_space(4)] 2 Cons show ?thesis by (simp del: takeWhile.simps)
  next
    case 3
    then have "symbol w = Some w" using assms Cons
      by (simp add: valid_word_def del: symbol.simps split: option.splits)
    then have "symbol (w @ '' '' @ t) = Some w" using Cons by (cases cs) (auto split: if_splits)
    then show ?thesis using 3 Cons by (simp del: symbol.simps)
  qed
qed

lemma valid_word_start: "valid_word w \<Longrightarrow> dropWhile is_space (w @ t) = w @ t"
  using first_word_not_space by (cases w) (auto simp: valid_word_def)

lemma words_cons:
  assumes "valid_word w"
  shows "words (w @ '' '' @ t) = w # words ('' '' @ t)"
proof -
  note start = valid_word_start [OF assms, of "'' '' @ t"]
  have nw: "next_word (w @ '' '' @ t) = w"
    unfolding next_word_def start by (rule first_word_append [OF assms])
  moreover have "after_word (w @ '' '' @ t) = '' '' @ t" unfolding after_word_def nw start by simp
  moreover have "w \<noteq> []" using assms by (simp add: valid_word_def)
  ultimately show ?thesis using words.simps [of "w @ '' '' @ t"] by (simp only: if_False)
qed

lemma words_space: "words ('' '' @ t) = words t"
  using no_space(5) by (subst (1 2) words.simps) (simp add: next_word_def after_word_def)

lemma words_unwords: "\<forall>w \<in> set ws. valid_word w \<Longrightarrow> words (unwords ws) = ws"
proof (induction ws)
  case Nil
  then show ?case by (simp add: unwords_def words.simps next_word_def)
next
  case (Cons w ws)
  then have "words (unwords (w # ws)) = w # words ('' '' @ unwords ws)"
    using words_cons [of w "unwords ws"] by (simp add: unwords_def)
  then show ?case using Cons words_space [of "unwords ws"] by simp
qed

lemma first_word_idem: "first_word (first_word t) = first_word t"
proof (cases t)
  case (Cons c cs)
  consider "is_alpha c" | "\<not> is_alpha c" "is_digit c" | "\<not> is_alpha c" "\<not> is_digit c" by blast
  then show ?thesis
  proof cases
    case 1
    then have "is_identifier c" by (simp add: is_identifier_def)
    with 1 Cons show ?thesis by simp
  next
    case 2
    then have "is_literal c" by (simp add: is_literal_def)
    with 2 Cons show ?thesis by simp
  next
    case 3
    with Cons show ?thesis by (auto split: option.splits if_splits)
  qed
qed simp

lemma words_valid: "w \<in> set (words t) \<Longrightarrow> valid_word w"
proof (induction t rule: words.induct)
  case (1 t)
  then show ?case using first_word_idem [of "dropWhile is_space t"]
    by (subst (asm) (2) words.simps) (auto simp: valid_word_def next_word_def split: if_splits)
qed

end
