(* ===== verification/Graphviz_Syntax.thy ===== *)
theory Graphviz_Syntax
  imports Graphviz_Lexer
begin

text \<open>
  The syntax tree (\<open>container/graph/detail/graphviz_abstract_syntax_tree.hpp\<close> and \<open>.cpp\<close>) and the recursive descent parser
  (\<open>graphviz_syntax_analyzer.hpp\<close> and \<open>.cpp\<close>), on the lexer of \<open>Graphviz_Lexer\<close>. A reference to a tree may be null;
  the exception \<open>unexpected_syntax\<close> is \<open>Inl\<close>.
\<close>

section \<open>The syntax tree\<close>

datatype kind = K_Node | K_Direct_Graph | K_Undirect_Graph | K_Statements | K_Direct_Edge | K_Undirect_Edge
  | K_Attribute | K_Attributes

text \<open>The arrays hold references that are not null: the loops that fill them stop at a null reference.\<close>

datatype ast =
    Node string "ast option"
  | Direct_Graph string "ast option"
  | Undirect_Graph string "ast option"
  | Statements "ast list"
  | Direct_Edge "ast option" "ast option"
  | Undirect_Edge "ast option" "ast option"
  | Attribute string string
  | Attributes "ast list"

type_synonym ast_ref = "ast option"

fun what :: "ast \<Rightarrow> kind" where
  "what (Node n a) = K_Node"
| "what (Direct_Graph n s) = K_Direct_Graph"
| "what (Undirect_Graph n s) = K_Undirect_Graph"
| "what (Statements s) = K_Statements"
| "what (Direct_Edge l r) = K_Direct_Edge"
| "what (Undirect_Edge l r) = K_Undirect_Edge"
| "what (Attribute k v) = K_Attribute"
| "what (Attributes a) = K_Attributes"

section \<open>The parser\<close>

datatype syntax_error = Unexpected_Syntax

record analyzer =
  tokenizer :: lexer
  current_token :: lexeme

type_synonym 'a parsed = "syntax_error + 'a \<times> analyzer"

definition then_do :: "'a parsed \<Rightarrow> ('a \<Rightarrow> analyzer \<Rightarrow> 'b parsed) \<Rightarrow> 'b parsed" where
  "then_do m f = (case m of Inl e \<Rightarrow> Inl e | Inr (x, p) \<Rightarrow> f x p)"

lemma then_do_cong [fundef_cong]:
  "m = m' \<Longrightarrow> (\<And>x p. m' = Inr (x, p) \<Longrightarrow> f x p = f' x p) \<Longrightarrow> then_do m f = then_do m' f'"
  by (auto simp: then_do_def split: sum.splits)

lemma then_do_simps [simp]: "then_do (Inl e) f = Inl e" "then_do (Inr (x, p)) f = f x p"
  by (simp_all add: then_do_def)

lemma then_do_Inr: "then_do m f = Inr r \<longleftrightarrow> (\<exists>x p. m = Inr (x, p) \<and> f x p = Inr r)"
  by (auto simp: then_do_def split: sum.splits)

definition new_analyzer :: "string \<Rightarrow> analyzer" where
  "new_analyzer text = (case get_next_token (new_lexer text) of (t, l) \<Rightarrow> \<lparr>tokenizer = l, current_token = t\<rparr>)"

text \<open>\<open>std::exchange(current_token_, tokenizer_.get_next_token())\<close>\<close>

definition exchange :: "analyzer \<Rightarrow> string \<times> analyzer" where
  "exchange p = (case get_next_token (tokenizer p) of (t, l) \<Rightarrow> (snd (current_token p), \<lparr>tokenizer = l, current_token = t\<rparr>))"

definition get_token :: "token \<Rightarrow> analyzer \<Rightarrow> string parsed" where
  "get_token expected_token p = (if fst (current_token p) \<noteq> expected_token then Inl Unexpected_Syntax else Inr (exchange p))"

definition get_token_maybe :: "token \<Rightarrow> analyzer \<Rightarrow> string option \<times> analyzer" where
  "get_token_maybe expected_token p =
     (if fst (current_token p) \<noteq> expected_token then (None, p) else (case exchange p of (w, p') \<Rightarrow> (Some w, p')))"

definition get_connection_kind :: "string \<Rightarrow> syntax_error + kind" where
  "get_connection_kind connection =
     (if connection \<in> {''->'', ''--''} then Inr (if connection = ''->'' then K_Direct_Edge else K_Undirect_Edge)
      else Inl Unexpected_Syntax)"

definition make_edge_by_kind :: "kind \<Rightarrow> ast_ref \<Rightarrow> ast_ref \<Rightarrow> syntax_error + ast_ref" where
  "make_edge_by_kind k from_node to_node =
     (case k of K_Undirect_Edge \<Rightarrow> Inr (Some (Undirect_Edge from_node to_node))
      | K_Direct_Edge \<Rightarrow> Inr (Some (Direct_Edge from_node to_node))
      | _ \<Rightarrow> Inl Unexpected_Syntax)"

definition get_graph_kind :: "string \<Rightarrow> syntax_error + kind" where
  "get_graph_kind graph =
     (if graph \<in> {''graph'', ''digraph''} then Inr (if graph = ''digraph'' then K_Direct_Graph else K_Undirect_Graph)
      else Inl Unexpected_Syntax)"

definition make_graph_by_kind :: "kind \<Rightarrow> string \<Rightarrow> ast_ref \<Rightarrow> syntax_error + ast_ref" where
  "make_graph_by_kind k graph_name child =
     (case k of K_Direct_Graph \<Rightarrow> Inr (Some (Direct_Graph graph_name child))
      | K_Undirect_Graph \<Rightarrow> Inr (Some (Undirect_Graph graph_name child))
      | _ \<Rightarrow> Inl Unexpected_Syntax)"

text \<open>A value or an exception that does not touch the parser.\<close>

definition pure :: "analyzer \<Rightarrow> syntax_error + 'a \<Rightarrow> 'a parsed" where
  "pure p r = (case r of Inl e \<Rightarrow> Inl e | Inr x \<Rightarrow> Inr (x, p))"

definition attribute :: "analyzer \<Rightarrow> ast_ref parsed" where
  "attribute p =
     (if fst (current_token p) \<noteq> Identifier then Inr (None, p)
      else then_do (get_token Identifier p) (\<lambda>key p.
        then_do (get_token Operator p) (\<lambda>op p.
        if op \<noteq> ''='' then Inl Unexpected_Syntax
        else case get_token_maybe Identifier p of
          (Some v, p) \<Rightarrow> Inr (Some (Attribute key v), p)
        | (None, p) \<Rightarrow>
            (case get_token_maybe Literal p of
               (Some v, p) \<Rightarrow> Inr (Some (Attribute key v), p)
             | (None, p) \<Rightarrow> Inl Unexpected_Syntax))))"

text \<open>The words that the parser has not consumed yet.\<close>

definition stream :: "analyzer \<Rightarrow> string list" where
  "stream p = (if fst (current_token p) = Eof then [] else snd (current_token p) # words (remaining (tokenizer p)))"

lemma stream_exchange: "stream (snd (exchange p)) = words (remaining (tokenizer p))"
  using next_token_remaining [of "tokenizer p"] next_token_word [of "tokenizer p"]
  by (auto simp: exchange_def stream_def words.simps [of "remaining (tokenizer p)"] classify_Eof eq_commute [of Eof] split: prod.splits)

lemma exchange_word: "fst (exchange p) = snd (current_token p)"
  by (simp add: exchange_def split: prod.splits)

lemma get_token_stream:
  "get_token t p = Inr (w, p') \<Longrightarrow> t \<noteq> Eof \<Longrightarrow> stream p = w # stream p' \<and> w = snd (current_token p) \<and> fst (current_token p) = t"
  using stream_exchange [of p] exchange_word [of p]
  by (cases "exchange p") (auto simp: get_token_def stream_def split: if_splits)

lemma get_token_maybe_stream:
  "get_token_maybe t p = (Some w, p') \<Longrightarrow> t \<noteq> Eof \<Longrightarrow> stream p = w # stream p' \<and> w = snd (current_token p) \<and> fst (current_token p) = t"
  "get_token_maybe t p = (None, p') \<Longrightarrow> p' = p \<and> fst (current_token p) \<noteq> t"
  using stream_exchange [of p] exchange_word [of p]
  by (cases "exchange p"; auto simp: get_token_maybe_def stream_def split: if_splits)+

lemma attribute_shorter: "attribute p = Inr (Some a, p') \<Longrightarrow> length (stream p') < length (stream p)"
  by (auto simp: attribute_def then_do_Inr split: if_splits prod.splits option.splits
      dest!: get_token_stream get_token_maybe_stream(1) get_token_maybe_stream(2))

function attributes_loop :: "ast list \<Rightarrow> analyzer \<Rightarrow> ast list parsed" where
  "attributes_loop attributes p =
     then_do (attribute p) (\<lambda>attr p. case attr of None \<Rightarrow> Inr (attributes, p) | Some a \<Rightarrow> attributes_loop (attributes @ [a]) p)"
  by pat_completeness auto
termination
  by (relation "measure (\<lambda>(attributes, p). length (stream p))") (auto dest: attribute_shorter)

declare attributes_loop.simps [simp del]

definition attributes_list :: "analyzer \<Rightarrow> ast_ref parsed" where
  "attributes_list p =
     (if snd (current_token p) \<noteq> ''['' then Inr (None, p)
      else then_do (get_token Punctuator p) (\<lambda>_ p.
        then_do (attributes_loop [] p) (\<lambda>attributes p.
        then_do (get_token Punctuator p) (\<lambda>w p.
        if w \<noteq> '']'' then Inl Unexpected_Syntax else Inr (Some (Attributes attributes), p)))))"

definition node_statement :: "analyzer \<Rightarrow> ast_ref parsed" where
  "node_statement p =
     (case get_token_maybe Identifier p of
        (None, p) \<Rightarrow> Inr (None, p)
      | (Some node_name, p) \<Rightarrow> then_do (attributes_list p) (\<lambda>attributes p. Inr (Some (Node node_name attributes), p)))"

lemma attributes_loop_shorter: "attributes_loop as p = Inr (bs, p') \<Longrightarrow> length (stream p') \<le> length (stream p)"
proof (induction as p arbitrary: bs p' rule: attributes_loop.induct)
  case (1 as p)
  from 1(2) obtain attr q where q: "attribute p = Inr (attr, q)"
    and r: "(case attr of None \<Rightarrow> Inr (as, q) | Some a \<Rightarrow> attributes_loop (as @ [a]) q) = Inr (bs, p')"
    by (subst (asm) attributes_loop.simps) (auto simp: then_do_Inr)
  show ?case
  proof (cases attr)
    case None
    with q r show ?thesis
      by (auto simp: attribute_def then_do_Inr split: if_splits prod.splits option.splits)
  next
    case (Some a)
    with r 1(1) [OF q Some] attribute_shorter [of p a q] q show ?thesis by fastforce
  qed
qed

lemma attributes_list_shorter: "attributes_list p = Inr (a, p') \<Longrightarrow> length (stream p') \<le> length (stream p)"
  by (auto simp: attributes_list_def then_do_Inr split: if_splits dest!: get_token_stream attributes_loop_shorter)

lemma node_statement_shorter: "node_statement p = Inr (a, p') \<Longrightarrow> length (stream p') \<le> length (stream p)"
  by (fastforce simp: node_statement_def then_do_Inr split: prod.splits option.splits
      dest: get_token_maybe_stream(1) get_token_maybe_stream(2) attributes_list_shorter)

function statement :: "analyzer \<Rightarrow> ast_ref parsed" where
  "statement p =
     then_do (node_statement p) (\<lambda>left_node p.
       case get_token_maybe Operator p of
         (Some operator, q) \<Rightarrow>
           if operator \<notin> {''->'', ''--''} then Inl Unexpected_Syntax
           else then_do (pure q (get_connection_kind operator)) (\<lambda>connection_kind q.
             then_do (statement q) (\<lambda>right_node q. pure q (make_edge_by_kind connection_kind left_node right_node)))
       | (None, q) \<Rightarrow> Inr (left_node, q))"
  by pat_completeness auto
termination
  by (relation "measure (length \<circ> stream)")
     (auto simp: pure_def split: sum.splits dest!: node_statement_shorter get_token_maybe_stream(1) [OF sym])

declare statement.simps [simp del]

lemma pure_Inr: "pure p r = Inr (x, q) \<longleftrightarrow> r = Inr x \<and> q = p"
  by (auto simp: pure_def split: sum.splits)

lemma statement_shorter: "statement p = Inr (a, p') \<Longrightarrow> length (stream p') \<le> length (stream p)"
proof (induction p arbitrary: a p' rule: statement.induct)
  case (1 p)
  from 1(2) obtain left q where q: "node_statement p = Inr (left, q)"
    and r: "(case get_token_maybe Operator q of
         (Some operator, q) \<Rightarrow>
           if operator \<notin> {''->'', ''--''} then Inl Unexpected_Syntax
           else then_do (pure q (get_connection_kind operator)) (\<lambda>connection_kind q.
             then_do (statement q) (\<lambda>right_node q. pure q (make_edge_by_kind connection_kind left right_node)))
       | (None, q) \<Rightarrow> Inr (left, q)) = Inr (a, p')"
    by (subst (asm) statement.simps) (auto simp: then_do_Inr)
  note len = node_statement_shorter [OF q]
  obtain op q' where op: "get_token_maybe Operator q = (op, q')" by fastforce
  show ?case
  proof (cases op)
    case None
    with op r len show ?thesis by (auto dest: get_token_maybe_stream(2))
  next
    case (Some w)
    from op Some r obtain k right q'' where k: "w \<in> {''->'', ''--''}" "get_connection_kind w = Inr k"
      and s: "statement q' = Inr (right, q'')" "p' = q''"
      by (auto simp: then_do_Inr pure_Inr split: if_splits)
    have "\<not> w \<notin> {''->'', ''--''}" "pure q' (get_connection_kind w) = Inr (k, q')" using k by (simp_all add: pure_Inr)
    from "1.IH" [OF q op [symmetric] Some this s(1)] have "length (stream q'') \<le> length (stream q')" .
    then show ?thesis using s(2) len op Some by (auto dest!: get_token_maybe_stream(1))
  qed
qed

function statements_loop :: "ast list \<Rightarrow> analyzer \<Rightarrow> ast list parsed" where
  "statements_loop statements p =
     then_do (statement p) (\<lambda>stmt p.
       case stmt of
         None \<Rightarrow> Inr (statements, p)
       | Some s \<Rightarrow> then_do (get_token Punctuator p) (\<lambda>w p.
           if w \<noteq> '';'' then Inl Unexpected_Syntax else statements_loop (statements @ [s]) p))"
  by pat_completeness auto
termination
  by (relation "measure (\<lambda>(statements, p). length (stream p))") (auto dest!: statement_shorter get_token_stream)

declare statements_loop.simps [simp del]

definition statement_list :: "analyzer \<Rightarrow> ast_ref parsed" where
  "statement_list p = then_do (statements_loop [] p) (\<lambda>statements p. Inr (Some (Statements statements), p))"

definition graph :: "analyzer \<Rightarrow> ast_ref parsed" where
  "graph p =
     then_do (get_token Keyword p) (\<lambda>graph_type p.
     if graph_type \<notin> {''graph'', ''digraph''} then Inl Unexpected_Syntax
     else then_do (get_token Identifier p) (\<lambda>graph_name p.
     then_do (get_token Punctuator p) (\<lambda>w p.
     if w \<noteq> ''{'' then Inl Unexpected_Syntax
     else then_do (pure p (get_graph_kind graph_type)) (\<lambda>graph_kind p.
     then_do (statement_list p) (\<lambda>statements p.
     then_do (pure p (make_graph_by_kind graph_kind graph_name statements)) (\<lambda>graph_root p.
     then_do (get_token Punctuator p) (\<lambda>w p.
     if w \<noteq> ''}'' then Inl Unexpected_Syntax else Inr (graph_root, p))))))))"

definition parse :: "analyzer \<Rightarrow> ast_ref parsed" where
  "parse p = graph p"

end
