(* ===== verification/Graphviz_Grammar.thy ===== *)
theory Graphviz_Grammar
  imports Graphviz_Syntax
begin

text \<open>
  The words of a syntax tree, the trees that the parser accepts, and the grammar of the README of
  \<open>container/graph/detail\<close>. The parser is shown to accept exactly the texts whose words are those of an accepted tree, and
  the documented grammar to be those of them without three liberties that the parser takes: an edge may lack an end, a list of
  attributes may be empty, and the value of an attribute may be a literal.
\<close>

section \<open>The accepted trees\<close>

fun ast_words :: "ast \<Rightarrow> string list" where
  "ast_words (Node n a) = n # (case a of None \<Rightarrow> [] | Some a \<Rightarrow> ast_words a)"
| "ast_words (Direct_Graph n s) = [''digraph'', n, ''{''] @ (case s of None \<Rightarrow> [] | Some s \<Rightarrow> ast_words s) @ [''}'']"
| "ast_words (Undirect_Graph n s) = [''graph'', n, ''{''] @ (case s of None \<Rightarrow> [] | Some s \<Rightarrow> ast_words s) @ [''}'']"
| "ast_words (Statements ss) = concat (map (\<lambda>s. ast_words s @ ['';'']) ss)"
| "ast_words (Direct_Edge l r) = (case l of None \<Rightarrow> [] | Some l \<Rightarrow> ast_words l) @ [''->''] @ (case r of None \<Rightarrow> [] | Some r \<Rightarrow> ast_words r)"
| "ast_words (Undirect_Edge l r) = (case l of None \<Rightarrow> [] | Some l \<Rightarrow> ast_words l) @ [''--''] @ (case r of None \<Rightarrow> [] | Some r \<Rightarrow> ast_words r)"
| "ast_words (Attribute k v) = [k, ''='', v]"
| "ast_words (Attributes as) = ''['' # concat (map ast_words as) @ ['']'']"

fun ref_words :: "ast_ref \<Rightarrow> string list" where
  "ref_words None = []"
| "ref_words (Some a) = ast_words a"

text \<open>
  What the parser accepts: the ends of an edge may be missing, as in \<open>-> b\<close> and \<open>a ->\<close>, a list of attributes may be empty, and
  a value may be a literal.
\<close>

fun is_attribute :: "ast \<Rightarrow> bool" where
  "is_attribute (Attribute k v) = (classify k = Identifier \<and> classify v \<in> {Identifier, Literal})"
| "is_attribute _ = False"

fun is_attributes :: "ast_ref \<Rightarrow> bool" where
  "is_attributes None = True"
| "is_attributes (Some (Attributes as)) = (\<forall>a \<in> set as. is_attribute a)"
| "is_attributes _ = False"

fun is_node :: "ast_ref \<Rightarrow> bool" where
  "is_node None = True"
| "is_node (Some (Node n a)) = (classify n = Identifier \<and> is_attributes a)"
| "is_node _ = False"

fun is_statement :: "ast_ref \<Rightarrow> bool" where
  "is_statement (Some (Direct_Edge l r)) = (is_node l \<and> is_statement r)"
| "is_statement (Some (Undirect_Edge l r)) = (is_node l \<and> is_statement r)"
| "is_statement r = is_node r"

fun is_statements :: "ast_ref \<Rightarrow> bool" where
  "is_statements (Some (Statements ss)) = (\<forall>s \<in> set ss. is_statement (Some s))"
| "is_statements _ = False"

fun is_graph :: "ast_ref \<Rightarrow> bool" where
  "is_graph (Some (Direct_Graph n s)) = (classify n = Identifier \<and> is_statements s)"
| "is_graph (Some (Undirect_Graph n s)) = (classify n = Identifier \<and> is_statements s)"
| "is_graph _ = False"

section \<open>The documented grammar\<close>

text \<open>The productions of the README, on words.\<close>

inductive doc_attr :: "string list \<Rightarrow> bool" where
  "classify k = Identifier \<Longrightarrow> classify v = Identifier \<Longrightarrow> doc_attr [k, ''='', v]"

inductive doc_attrs :: "string list \<Rightarrow> bool" where
  one_attr: "doc_attr u \<Longrightarrow> doc_attrs u"
| more_attrs: "doc_attr u \<Longrightarrow> doc_attrs us \<Longrightarrow> doc_attrs (u @ us)"

inductive doc_attr_list :: "string list \<Rightarrow> bool" where
  no_attr_list: "doc_attr_list []"
| attr_list: "doc_attrs us \<Longrightarrow> doc_attr_list (''['' # us @ ['']''])"

inductive doc_node :: "string list \<Rightarrow> bool" where
  "classify n = Identifier \<Longrightarrow> doc_attr_list us \<Longrightarrow> doc_node (n # us)"

inductive doc_statement :: "string list \<Rightarrow> bool" where
  single_node: "doc_node us \<Longrightarrow> doc_statement us"
| chain: "doc_node us \<Longrightarrow> op \<in> {''--'', ''->''} \<Longrightarrow> doc_statement vs \<Longrightarrow> doc_statement (us @ op # vs)"

inductive doc_statements :: "string list \<Rightarrow> bool" where
  no_statement: "doc_statements []"
| more_statements: "doc_statement us \<Longrightarrow> doc_statements vs \<Longrightarrow> doc_statements (us @ '';'' # vs)"

inductive doc_graph :: "string list \<Rightarrow> bool" where
  "ty \<in> {''graph'', ''digraph''} \<Longrightarrow> classify n = Identifier \<Longrightarrow> doc_statements us \<Longrightarrow>
   doc_graph ([ty, n, ''{''] @ us @ [''}''])"

text \<open>The trees in which the parser took none of its liberties.\<close>

fun documented :: "ast_ref \<Rightarrow> bool" where
  "documented None = False"
| "documented (Some (Node n None)) = True"
| "documented (Some (Node n (Some a))) = documented (Some a)"
| "documented (Some (Direct_Graph n s)) = documented s"
| "documented (Some (Undirect_Graph n s)) = documented s"
| "documented (Some (Statements ss)) = (\<forall>s \<in> set ss. documented (Some s))"
| "documented (Some (Direct_Edge l r)) = (documented l \<and> documented r)"
| "documented (Some (Undirect_Edge l r)) = (documented l \<and> documented r)"
| "documented (Some (Attribute k v)) = (classify v = Identifier)"
| "documented (Some (Attributes as)) = (as \<noteq> [] \<and> (\<forall>a \<in> set as. documented (Some a)))"

lemma ast_words_refs [simp]:
  "ast_words (Node n a) = n # ref_words a"
  "ast_words (Direct_Graph n s) = [''digraph'', n, ''{''] @ ref_words s @ [''}'']"
  "ast_words (Undirect_Graph n s) = [''graph'', n, ''{''] @ ref_words s @ [''}'']"
  "ast_words (Direct_Edge l r) = ref_words l @ [''->''] @ ref_words r"
  "ast_words (Undirect_Edge l r) = ref_words l @ [''--''] @ ref_words r"
  by (simp_all split: option.split)

declare ast_words.simps(1,2,3,5,6) [simp del]

section \<open>Tokens\<close>

text \<open>The current token is the classification of its text.\<close>

definition sane :: "analyzer \<Rightarrow> bool" where
  "sane p \<longleftrightarrow> fst (current_token p) = classify (snd (current_token p))"

lemma sane_exchange: "sane (snd (exchange p))"
  using next_token_word [of "tokenizer p"] by (auto simp: sane_def exchange_def split: prod.splits)

lemma sane_new: "sane (new_analyzer text)" "stream (new_analyzer text) = words text"
proof -
  let ?p = "\<lparr>tokenizer = new_lexer text, current_token = token_fallback\<rparr>"
  have "new_analyzer text = snd (exchange ?p)" by (simp add: new_analyzer_def exchange_def split: prod.splits)
  moreover have "remaining (tokenizer ?p) = text" by (simp add: remaining_def new_lexer_def)
  ultimately show "sane (new_analyzer text)" "stream (new_analyzer text) = words text"
    using sane_exchange [of ?p] stream_exchange [of ?p] by simp_all
qed

lemma classify_symbols [simp]:
  "classify ''['' = Punctuator" "classify '']'' = Punctuator" "classify ''{'' = Punctuator" "classify ''}'' = Punctuator"
  "classify '';'' = Punctuator" "classify ''='' = Operator" "classify ''->'' = Operator" "classify ''--'' = Operator"
  "classify ''graph'' = Keyword" "classify ''digraph'' = Keyword"
  by (simp_all add: classify_def is_alpha_def is_digit_def dot_keywords_def)

text \<open>A sane parser is at the first word of its stream.\<close>

lemma sane_current:
  "sane p \<Longrightarrow> stream p = w # ws \<Longrightarrow> current_token p = (classify w, w) \<and> stream (snd (exchange p)) = ws"
  "sane p \<Longrightarrow> stream p = [] \<Longrightarrow> current_token p = (Eof, [])"
proof -
  assume a: "sane p" "stream p = w # ws"
  then have "snd (current_token p) = w \<and> words (remaining (tokenizer p)) = ws" by (simp add: stream_def split: if_splits)
  with a(1) show "current_token p = (classify w, w) \<and> stream (snd (exchange p)) = ws"
    by (simp add: sane_def stream_exchange prod_eq_iff)
next
  assume a: "sane p" "stream p = []"
  then have "fst (current_token p) = Eof" by (simp add: stream_def split: if_splits)
  with a(1) have "classify (snd (current_token p)) = Eof" by (simp add: sane_def)
  with \<open>fst (current_token p) = Eof\<close> show "current_token p = (Eof, [])" by (simp add: classify_Eof prod_eq_iff)
qed

definition moved :: "analyzer \<Rightarrow> string list \<Rightarrow> bool" where
  "moved p ws \<longleftrightarrow> sane p \<and> stream p = ws"

lemma movedD: "moved p (w # ws) \<Longrightarrow> current_token p = (classify w, w) \<and> moved (snd (exchange p)) ws"
  using sane_current(1) sane_exchange by (auto simp: moved_def)

lemma take_token:
  assumes "moved p (w # ws)"
  shows "classify w = t \<Longrightarrow> \<exists>q. get_token t p = Inr (w, q) \<and> moved q ws"
    and "classify w = t \<Longrightarrow> \<exists>q. get_token_maybe t p = (Some w, q) \<and> moved q ws"
    and "classify w \<noteq> t \<Longrightarrow> get_token_maybe t p = (None, p)"
  using movedD [OF assms] exchange_word [of p]
  by (auto simp: get_token_def get_token_maybe_def prod_eq_iff split: prod.splits)

section \<open>The parser reads every tree of the grammar\<close>

lemma attribute_complete:
  assumes "is_attribute a" "moved p (ast_words a @ ws)"
  shows "\<exists>q. attribute p = Inr (Some a, q) \<and> moved q ws"
proof -
  from assms(1) obtain k v where a: "a = Attribute k v" "classify k = Identifier" "classify v \<in> {Identifier, Literal}"
    by (cases a) auto
  have p: "moved p (k # ''='' # v # ws)" using assms(2) a(1) by simp
  then have cur: "fst (current_token p) = Identifier" using movedD a(2) by fastforce
  obtain p1 where p1: "get_token Identifier p = Inr (k, p1)" "moved p1 (''='' # v # ws)" using take_token(1) [OF p a(2)] by blast
  obtain p2 where p2: "get_token Operator p1 = Inr (''='', p2)" "moved p2 (v # ws)" using take_token(1) [OF p1(2)] by auto
  consider "classify v = Identifier" | "classify v = Literal" using a(3) by blast
  then show ?thesis
  proof cases
    case 1
    from take_token(2) [OF p2(2) 1] cur p1(1) p2(1) a(1) show ?thesis by (auto simp: attribute_def)
  next
    case 2
    with take_token(3) [OF p2(2), of Identifier] have "get_token_maybe Identifier p2 = (None, p2)" by simp
    with take_token(2) [OF p2(2) 2] cur p1(1) p2(1) a(1) show ?thesis by (auto simp: attribute_def)
  qed
qed

lemma attribute_none: "moved p (w # ws) \<Longrightarrow> classify w \<noteq> Identifier \<Longrightarrow> attribute p = Inr (None, p)"
  using movedD by (fastforce simp: attribute_def)

lemma attributes_loop_complete:
  assumes "\<forall>a \<in> set as. is_attribute a" "moved p (concat (map ast_words as) @ '']'' # ws)"
  shows "\<exists>q. attributes_loop bs p = Inr (bs @ as, q) \<and> moved q ('']'' # ws)"
  using assms
proof (induction as arbitrary: bs p)
  case Nil
  then show ?case using attribute_none [of p "'']''" ws] by (simp add: attributes_loop.simps)
next
  case (Cons a as)
  then obtain q where q: "attribute p = Inr (Some a, q)" "moved q (concat (map ast_words as) @ '']'' # ws)"
    using attribute_complete [of a p "concat (map ast_words as) @ '']'' # ws"] by auto
  from Cons(1) [OF _ q(2), of "bs @ [a]"] Cons(2) q(1) show ?case by (subst attributes_loop.simps) simp
qed

lemma attributes_list_complete:
  assumes "is_attributes a" "moved p (ref_words a @ ws)" "a = None \<Longrightarrow> ws = [] \<or> hd ws \<noteq> ''[''"
  shows "\<exists>q. attributes_list p = Inr (a, q) \<and> moved q ws"
proof (cases a)
  case None
  then have "snd (current_token p) \<noteq> ''[''"
    using assms(2,3) sane_current [of p] by (cases ws) (auto simp: moved_def)
  with None assms(2) show ?thesis by (simp add: attributes_list_def)
next
  case (Some b)
  with assms(1) obtain as where b: "b = Attributes as" "\<forall>a \<in> set as. is_attribute a" by (cases b) auto
  have p: "moved p (''['' # concat (map ast_words as) @ '']'' # ws)" using assms(2) Some b(1) by simp
  obtain p1 where p1: "get_token Punctuator p = Inr (''['', p1)" "moved p1 (concat (map ast_words as) @ '']'' # ws)"
    using take_token(1) [OF p] by auto
  obtain p2 where p2: "attributes_loop [] p1 = Inr (as, p2)" "moved p2 ('']'' # ws)"
    using attributes_loop_complete [OF b(2) p1(2), of "[]"] by auto
  from take_token(1) [OF p2(2), of Punctuator] obtain p3 where p3: "get_token Punctuator p2 = Inr ('']'', p3)" "moved p3 ws" by auto
  have "snd (current_token p) = ''[''" using movedD [OF p] by simp
  with p1 p2 p3 Some b(1) show ?thesis by (simp add: attributes_list_def)
qed

lemma node_statement_complete:
  assumes "is_node a" "moved p (ref_words a @ w # ws)" "classify w \<noteq> Identifier" "w \<noteq> ''[''"
  shows "\<exists>q. node_statement p = Inr (a, q) \<and> moved q (w # ws)"
proof (cases a)
  case None
  then show ?thesis using take_token(3) [of p w ws Identifier] assms(2,3) by (simp add: node_statement_def)
next
  case (Some b)
  with assms(1) obtain n as where b: "b = Node n as" "classify n = Identifier" "is_attributes as" by (cases b) auto
  have p: "moved p (n # ref_words as @ w # ws)" using assms(2) Some b(1) by simp
  from take_token(2) [OF p b(2)] obtain p1 where
    p1: "get_token_maybe Identifier p = (Some n, p1)" "moved p1 (ref_words as @ w # ws)" by blast
  from attributes_list_complete [OF b(3) p1(2)] assms(4) p1(1) Some b(1) show ?thesis by (auto simp: node_statement_def)
qed

lemma statement_edge:
  assumes "is_node l" "moved p (ref_words l @ op # ws)" "op = ''->'' \<or> op = ''--''"
    and right: "\<And>q. moved q ws \<Longrightarrow> \<exists>q'. statement q = Inr (r, q') \<and> moved q' us"
  shows "\<exists>q. statement p = Inr (Some ((if op = ''->'' then Direct_Edge else Undirect_Edge) l r), q) \<and> moved q us"
proof -
  obtain p1 where p1: "node_statement p = Inr (l, p1)" "moved p1 (op # ws)"
    using node_statement_complete [OF assms(1,2)] assms(3) by fastforce
  obtain p2 where p2: "get_token_maybe Operator p1 = (Some op, p2)" "moved p2 ws"
    using take_token(2) [OF p1(2), of Operator] assms(3) by auto
  obtain p3 where p3: "statement p2 = Inr (r, p3)" "moved p3 us" using right [OF p2(2)] by blast
  show ?thesis using p1(1) p2(1) p3 assms(3)
    by (subst statement.simps) (auto simp: pure_def get_connection_kind_def make_edge_by_kind_def)
qed

lemma statement_complete:
  assumes "is_statement a" "moved p (ref_words a @ w # ws)" "classify w = Punctuator" "w \<noteq> ''[''"
  shows "\<exists>q. statement p = Inr (a, q) \<and> moved q (w # ws)"
proof -
  have plain: "\<exists>q. statement p = Inr (a, q) \<and> moved q (w # ws)" if a: "is_node a" and p: "moved p (ref_words a @ w # ws)" for a p
  proof -
    obtain p1 where p1: "node_statement p = Inr (a, p1)" "moved p1 (w # ws)"
      using node_statement_complete [OF a p] assms(3,4) by auto
    with take_token(3) [OF p1(2), of Operator] assms(3) show ?thesis by (subst statement.simps) simp
  qed
  show ?thesis
    using assms(1,2)
  proof (induction a arbitrary: p rule: is_statement.induct)
    case (1 l r)
    then show ?case using statement_edge [of l p "''->''" "ref_words r @ w # ws" r "w # ws"] by auto
  next
    case (2 l r)
    then show ?case using statement_edge [of l p "''--''" "ref_words r @ w # ws" r "w # ws"] by auto
  qed (use plain in \<open>auto\<close>)
qed

lemma statements_loop_complete:
  assumes "\<forall>s \<in> set ss. is_statement (Some s)" "moved p (concat (map (\<lambda>s. ast_words s @ ['';'']) ss) @ ''}'' # ws)"
  shows "\<exists>q. statements_loop bs p = Inr (bs @ ss, q) \<and> moved q (''}'' # ws)"
  using assms
proof (induction ss arbitrary: bs p)
  case Nil
  then show ?case using statement_complete [of None p "''}''" ws] by (subst statements_loop.simps) auto
next
  case (Cons s ss)
  let ?rest = "concat (map (\<lambda>s. ast_words s @ ['';'']) ss) @ ''}'' # ws"
  obtain p1 where p1: "statement p = Inr (Some s, p1)" "moved p1 ('';'' # ?rest)"
    using statement_complete [of "Some s" p "'';''" ?rest] Cons(2,3) by auto
  obtain p2 where p2: "get_token Punctuator p1 = Inr ('';'', p2)" "moved p2 ?rest"
    using take_token(1) [OF p1(2), of Punctuator] by auto
  from Cons(1) [OF _ p2(2), of "bs @ [s]"] Cons(2) p1(1) p2(1) show ?case by (subst statements_loop.simps) simp
qed

lemma statement_list_complete:
  assumes "is_statements s" "moved p (ref_words s @ ''}'' # ws)"
  shows "\<exists>q. statement_list p = Inr (s, q) \<and> moved q (''}'' # ws)"
proof -
  from assms(1) obtain ss where s: "s = Some (Statements ss)" "\<forall>s \<in> set ss. is_statement (Some s)"
    by (cases s rule: is_statements.cases) auto
  from statements_loop_complete [OF s(2), of p ws "[]"] assms(2) s(1) show ?thesis by (auto simp: statement_list_def)
qed

lemma graph_complete:
  assumes "moved p (ty # n # ''{'' # ref_words s @ ''}'' # ws)" "ty = ''digraph'' \<or> ty = ''graph''"
    and "classify n = Identifier" "is_statements s"
  shows "\<exists>q. graph p = Inr (Some ((if ty = ''digraph'' then Direct_Graph else Undirect_Graph) n s), q) \<and> moved q ws"
proof -
  obtain p1 where p1: "get_token Keyword p = Inr (ty, p1)" "moved p1 (n # ''{'' # ref_words s @ ''}'' # ws)"
    using take_token(1) [OF assms(1), of Keyword] assms(2) by auto
  obtain p2 where p2: "get_token Identifier p1 = Inr (n, p2)" "moved p2 (''{'' # ref_words s @ ''}'' # ws)"
    using take_token(1) [OF p1(2) assms(3)] by auto
  obtain p3 where p3: "get_token Punctuator p2 = Inr (''{'', p3)" "moved p3 (ref_words s @ ''}'' # ws)"
    using take_token(1) [OF p2(2), of Punctuator] by auto
  obtain p4 where p4: "statement_list p3 = Inr (s, p4)" "moved p4 (''}'' # ws)"
    using statement_list_complete [OF assms(4) p3(2)] by auto
  obtain p5 where p5: "get_token Punctuator p4 = Inr (''}'', p5)" "moved p5 ws"
    using take_token(1) [OF p4(2), of Punctuator] by auto
  show ?thesis using p1(1) p2(1) p3(1) p4(1) p5 assms(2)
    by (auto simp: graph_def pure_def get_graph_kind_def make_graph_by_kind_def)
qed

lemma parse_complete:
  assumes "is_graph a" "moved p (ref_words a @ ws)"
  shows "\<exists>q. parse p = Inr (a, q) \<and> moved q ws"
  using assms
proof (induction a rule: is_graph.induct)
  case (1 n s)
  then show ?case using graph_complete [of p "''digraph''" n s ws] by (simp add: parse_def)
next
  case (2 n s)
  then show ?case using graph_complete [of p "''graph''" n s ws] by (simp add: parse_def)
qed auto

section \<open>The parser reads nothing else\<close>

lemma take_sound:
  assumes "sane p" "t \<noteq> Eof"
  shows "get_token t p = Inr (w, q) \<Longrightarrow> sane q \<and> stream p = w # stream q \<and> classify w = t"
    and "get_token_maybe t p = (Some w, q) \<Longrightarrow> sane q \<and> stream p = w # stream q \<and> classify w = t"
proof -
  assume g: "get_token t p = Inr (w, q)"
  then have "q = snd (exchange p)" by (auto simp: get_token_def split: if_splits)
  with get_token_stream [OF g assms(2)] sane_exchange [of p] assms(1)
  show "sane q \<and> stream p = w # stream q \<and> classify w = t" by (auto simp: sane_def)
next
  assume g: "get_token_maybe t p = (Some w, q)"
  then have "q = snd (exchange p)" by (auto simp: get_token_maybe_def split: if_splits prod.splits)
  with get_token_maybe_stream(1) [OF g assms(2)] sane_exchange [of p] assms(1)
  show "sane q \<and> stream p = w # stream q \<and> classify w = t" by (auto simp: sane_def)
qed

text \<open>What a parsing function has read: the words of its tree.\<close>

definition reads :: "analyzer \<Rightarrow> string list \<Rightarrow> analyzer \<Rightarrow> bool" where
  "reads p ws q \<longleftrightarrow> sane q \<and> stream p = ws @ stream q"

lemma attribute_sound:
  assumes "sane p" "attribute p = Inr (a, q)"
  shows "reads p (ref_words a) q \<and> (\<forall>b. a = Some b \<longrightarrow> is_attribute b)"
proof (cases "fst (current_token p) = Identifier")
  case False
  with assms show ?thesis by (auto simp: attribute_def reads_def)
next
  case True
  with assms(2) obtain key p1 p2 where
    p1: "get_token Identifier p = Inr (key, p1)" and p2: "get_token Operator p1 = Inr (''='', p2)"
    and r: "(case get_token_maybe Identifier p2 of
          (Some v, p) \<Rightarrow> Inr (Some (Attribute key v), p)
        | (None, p) \<Rightarrow> (case get_token_maybe Literal p of
               (Some v, p) \<Rightarrow> Inr (Some (Attribute key v), p) | (None, p) \<Rightarrow> Inl Unexpected_Syntax)) = Inr (a, q)"
    by (auto simp: attribute_def then_do_Inr split: if_splits)
  note s1 = take_sound(1) [OF assms(1) _ p1, simplified]
  note s2 = take_sound(1) [OF _ _ p2, simplified]
  have "\<exists>v t. t \<in> {Identifier, Literal} \<and> get_token_maybe t p2 = (Some v, q) \<and> a = Some (Attribute key v)"
    using r get_token_maybe_stream(2) [of Identifier p2] by (fastforce split: prod.splits option.splits)
  then obtain v t where v: "t \<in> {Identifier, Literal}" "get_token_maybe t p2 = (Some v, q)" "a = Some (Attribute key v)" by blast
  then have "t \<noteq> Eof" by auto
  from take_sound(2) [OF _ this v(2)] s1 s2 v show ?thesis by (auto simp: reads_def)
qed

lemma attributes_loop_sound:
  "sane p \<Longrightarrow> \<forall>b \<in> set as. is_attribute b \<Longrightarrow> attributes_loop as p = Inr (bs, q) \<Longrightarrow>
   \<exists>cs. bs = as @ cs \<and> reads p (concat (map ast_words cs)) q \<and> (\<forall>b \<in> set bs. is_attribute b)"
proof (induction as p arbitrary: bs q rule: attributes_loop.induct)
  case (1 as p)
  from 1(4) obtain attr p1 where p1: "attribute p = Inr (attr, p1)"
    and r: "(case attr of None \<Rightarrow> Inr (as, p1) | Some a \<Rightarrow> attributes_loop (as @ [a]) p1) = Inr (bs, q)"
    by (subst (asm) attributes_loop.simps) (auto simp: then_do_Inr)
  note s = attribute_sound [OF 1(2) p1]
  show ?case
  proof (cases attr)
    case None
    with r s 1(3) show ?thesis by (auto simp: reads_def)
  next
    case (Some a)
    with r 1(1) [OF p1 Some, of bs q] s 1(3) obtain cs where
      "bs = (as @ [a]) @ cs" "reads p1 (concat (map ast_words cs)) q" "\<forall>b \<in> set bs. is_attribute b"
      by (auto simp: reads_def)
    with s Some show ?thesis by (intro exI [of _ "a # cs"]) (simp add: reads_def)
  qed
qed

lemma attributes_list_sound:
  assumes "sane p" "attributes_list p = Inr (a, q)"
  shows "reads p (ref_words a) q \<and> is_attributes a"
proof (cases "snd (current_token p) = ''[''")
  case False
  with assms show ?thesis by (auto simp: attributes_list_def reads_def)
next
  case True
  with assms(2) obtain p1 as p2 where p1: "get_token Punctuator p = Inr (''['', p1)"
    and p2: "attributes_loop [] p1 = Inr (as, p2)" and p3: "get_token Punctuator p2 = Inr ('']'', q)"
    and a: "a = Some (Attributes as)"
    using exchange_word [of p] by (fastforce simp: attributes_list_def then_do_Inr get_token_def split: if_splits)
  note s1 = take_sound(1) [OF assms(1) _ p1, simplified]
  then obtain s2: "reads p1 (concat (map ast_words as)) p2" "\<forall>b \<in> set as. is_attribute b"
    using attributes_loop_sound [OF _ _ p2] by auto
  then have "sane p2" by (simp add: reads_def)
  from take_sound(1) [OF this _ p3] s1 s2 a show ?thesis by (auto simp: reads_def)
qed

lemma node_statement_sound:
  assumes "sane p" "node_statement p = Inr (a, q)"
  shows "reads p (ref_words a) q \<and> is_node a"
proof -
  obtain n p1 where g: "get_token_maybe Identifier p = (n, p1)" by fastforce
  show ?thesis
  proof (cases n)
    case None
    with g assms get_token_maybe_stream(2) [of Identifier p p1] show ?thesis by (auto simp: node_statement_def reads_def)
  next
    case (Some name)
    note s = take_sound(2) [OF assms(1) _ g [unfolded Some], simplified]
    from assms(2) g Some obtain as where as: "attributes_list p1 = Inr (as, q)" "a = Some (Node name as)"
      by (auto simp: node_statement_def then_do_Inr)
    from attributes_list_sound [OF _ as(1)] s as(2) show ?thesis by (auto simp: reads_def)
  qed
qed

lemma readsD: "reads p ws q \<Longrightarrow> sane q \<and> stream p = ws @ stream q"
  by (simp add: reads_def)

lemma node_is_statement: "is_node a \<Longrightarrow> is_statement a"
  by (cases a rule: is_node.cases) auto

lemma statement_sound: "sane p \<Longrightarrow> statement p = Inr (a, q) \<Longrightarrow> reads p (ref_words a) q \<and> is_statement a"
proof (induction p arbitrary: a q rule: statement.induct)
  case (1 p)
  from 1(3) obtain left p1 where p1: "node_statement p = Inr (left, p1)"
    and r: "(case get_token_maybe Operator p1 of
         (Some operator, q) \<Rightarrow>
           if operator \<notin> {''->'', ''--''} then Inl Unexpected_Syntax
           else then_do (pure q (get_connection_kind operator)) (\<lambda>connection_kind q.
             then_do (statement q) (\<lambda>right_node q. pure q (make_edge_by_kind connection_kind left right_node)))
       | (None, q) \<Rightarrow> Inr (left, q)) = Inr (a, q)"
    by (subst (asm) statement.simps) (auto simp: then_do_Inr)
  note s1 = node_statement_sound [OF 1(2) p1]
  then have sane1: "sane p1" by (simp add: reads_def)
  obtain op p2 where op: "get_token_maybe Operator p1 = (op, p2)" by fastforce
  show ?case
  proof (cases op)
    case None
    with op r s1 get_token_maybe_stream(2) [of Operator p1 p2] show ?thesis by (auto simp: node_is_statement)
  next
    case (Some w)
    from r op Some have w: "\<not> w \<notin> {''->'', ''--''}" by (auto split: if_splits)
    then obtain k where k: "get_connection_kind w = Inr k" "k = (if w = ''->'' then K_Direct_Edge else K_Undirect_Edge)"
      by (auto simp: get_connection_kind_def)
    from r op Some w k(1) obtain right where s: "statement p2 = Inr (right, q)" "make_edge_by_kind k left right = Inr a"
      by (auto simp: then_do_Inr pure_Inr)
    have "pure p2 (get_connection_kind w) = Inr (k, p2)" using k by (simp add: pure_Inr)
    note s2 = take_sound(2) [OF sane1 _ op [unfolded Some], simplified]
    from "1.IH" [OF p1 op [symmetric] Some w \<open>pure p2 _ = _\<close> _ s(1)] s1 s2 s(2) k(2) w
    show ?thesis by (auto simp: reads_def make_edge_by_kind_def)
  qed
qed

lemma statements_loop_sound:
  "sane p \<Longrightarrow> \<forall>s \<in> set ss. is_statement (Some s) \<Longrightarrow> statements_loop ss p = Inr (ts, q) \<Longrightarrow>
   \<exists>us. ts = ss @ us \<and> reads p (concat (map (\<lambda>s. ast_words s @ ['';'']) us)) q \<and> (\<forall>s \<in> set ts. is_statement (Some s))"
proof (induction ss p arbitrary: ts q rule: statements_loop.induct)
  case (1 ss p)
  from 1(4) obtain stmt p1 where p1: "statement p = Inr (stmt, p1)"
    and r: "(case stmt of None \<Rightarrow> Inr (ss, p1)
       | Some s \<Rightarrow> then_do (get_token Punctuator p1) (\<lambda>w p.
           if w \<noteq> '';'' then Inl Unexpected_Syntax else statements_loop (ss @ [s]) p)) = Inr (ts, q)"
    by (subst (asm) statements_loop.simps) (auto simp: then_do_Inr)
  note s1 = statement_sound [OF 1(2) p1]
  then have sane1: "sane p1" by (simp add: reads_def)
  show ?case
  proof (cases stmt)
    case None
    with r s1 1(3) show ?thesis by (auto simp: reads_def)
  next
    case (Some s)
    with r obtain p2 where p2: "get_token Punctuator p1 = Inr ('';'', p2)" "statements_loop (ss @ [s]) p2 = Inr (ts, q)"
      by (auto simp: then_do_Inr split: if_splits)
    note s2 = take_sound(1) [OF sane1 _ p2(1), simplified]
    from "1.IH" [OF p1 Some p2(1) _ _ _ p2(2)] s1 s2 Some 1(3) obtain us where
      "ts = (ss @ [s]) @ us" "reads p2 (concat (map (\<lambda>s. ast_words s @ ['';'']) us)) q" "\<forall>s \<in> set ts. is_statement (Some s)"
      by auto
    with s1 s2 Some show ?thesis by (intro exI [of _ "s # us"]) (simp add: reads_def)
  qed
qed

lemma statement_list_sound:
  "sane p \<Longrightarrow> statement_list p = Inr (a, q) \<Longrightarrow> reads p (ref_words a) q \<and> is_statements a"
  using statements_loop_sound [of p "[]"] by (fastforce simp: statement_list_def then_do_Inr)

lemma graph_sound:
  assumes "sane p" "graph p = Inr (a, q)"
  shows "reads p (ref_words a) q \<and> is_graph a"
proof -
  from assms(2) obtain ty p1 n p2 p3 ss p4 where
    ty: "get_token Keyword p = Inr (ty, p1)" "ty = ''graph'' \<or> ty = ''digraph''"
    and n: "get_token Identifier p1 = Inr (n, p2)" and b: "get_token Punctuator p2 = Inr (''{'', p3)"
    and ss: "statement_list p3 = Inr (ss, p4)" and c: "get_token Punctuator p4 = Inr (''}'', q)"
    and a: "a = Some ((if ty = ''digraph'' then Direct_Graph else Undirect_Graph) n ss)"
    by (auto simp: graph_def then_do_Inr pure_Inr get_graph_kind_def make_graph_by_kind_def split: if_splits)
  note s1 = take_sound(1) [OF assms(1) _ ty(1), simplified]
  note s2 = take_sound(1) [OF _ _ n, simplified]
  note s3 = take_sound(1) [OF _ _ b, simplified]
  have sane3: "sane p3" using s1 s2 s3 by blast
  note s4 = statement_list_sound [OF this ss]
  then have "sane p4" by (simp add: reads_def)
  from take_sound(1) [OF this _ c] s1 s2 s3 s4 a ty(2) show ?thesis by (auto simp: reads_def)
qed

section \<open>The documented texts\<close>

text \<open>Each derivation has a tree.\<close>

lemma doc_attr_tree: "doc_attr us \<Longrightarrow> \<exists>a. is_attribute a \<and> documented (Some a) \<and> ast_words a = us"
proof (induction rule: doc_attr.induct)
  case (1 k v)
  then show ?case by (intro exI [of _ "Attribute k v"]) simp
qed

lemma doc_attrs_tree:
  "doc_attrs us \<Longrightarrow> \<exists>as. as \<noteq> [] \<and> (\<forall>a \<in> set as. is_attribute a \<and> documented (Some a)) \<and> concat (map ast_words as) = us"
proof (induction rule: doc_attrs.induct)
  case (one_attr u)
  from doc_attr_tree [OF this] obtain a where "is_attribute a" "documented (Some a)" "ast_words a = u" by blast
  then show ?case by (intro exI [of _ "[a]"]) simp
next
  case (more_attrs u us)
  from doc_attr_tree [OF more_attrs(1)] more_attrs.IH obtain a as where
    "is_attribute a" "documented (Some a)" "ast_words a = u"
    "\<forall>a \<in> set as. is_attribute a \<and> documented (Some a)" "concat (map ast_words as) = us" by blast
  then show ?case by (intro exI [of _ "a # as"]) simp
qed

lemma doc_attr_list_tree:
  "doc_attr_list us \<Longrightarrow> \<exists>a. is_attributes a \<and> (a = None \<or> documented a) \<and> ref_words a = us"
proof (induction rule: doc_attr_list.induct)
  case (attr_list us)
  from doc_attrs_tree [OF this] obtain as where
    "as \<noteq> []" "\<forall>a \<in> set as. is_attribute a \<and> documented (Some a)" "concat (map ast_words as) = us" by blast
  then show ?case by (intro exI [of _ "Some (Attributes as)"]) simp
qed (intro exI [of _ None], simp)

lemma doc_node_tree: "doc_node us \<Longrightarrow> \<exists>a. is_node a \<and> documented a \<and> ref_words a = us"
proof (induction rule: doc_node.induct)
  case (1 n us)
  from doc_attr_list_tree [OF 1(2)] obtain a where "is_attributes a" "a = None \<or> documented a" "ref_words a = us" by blast
  then show ?case using 1(1) by (intro exI [of _ "Some (Node n a)"]) (cases a; simp)
qed

lemma doc_statement_tree: "doc_statement us \<Longrightarrow> \<exists>a. is_statement a \<and> documented a \<and> ref_words a = us"
proof (induction rule: doc_statement.induct)
  case (single_node us)
  from doc_node_tree [OF this] show ?case using node_is_statement by blast
next
  case (chain us op vs)
  from doc_node_tree [OF chain(1)] chain.IH obtain l r where
    "is_node l" "documented l" "ref_words l = us" "is_statement r" "documented r" "ref_words r = vs" by blast
  then show ?case using chain(2)
    by (intro exI [of _ "Some ((if op = ''->'' then Direct_Edge else Undirect_Edge) l r)"]) auto
qed

lemma doc_statements_tree:
  "doc_statements us \<Longrightarrow> \<exists>ss. (\<forall>s \<in> set ss. is_statement (Some s) \<and> documented (Some s)) \<and>
    concat (map (\<lambda>s. ast_words s @ ['';'']) ss) = us"
proof (induction rule: doc_statements.induct)
  case (more_statements us vs)
  from doc_statement_tree [OF more_statements(1)] obtain a where
    a: "is_statement a" "documented a" "ref_words a = us" by blast
  then obtain s where "a = Some s" by (cases a) auto
  with a more_statements.IH obtain ss where
    "is_statement (Some s)" "documented (Some s)" "ast_words s = us"
    "\<forall>s \<in> set ss. is_statement (Some s) \<and> documented (Some s)" "concat (map (\<lambda>s. ast_words s @ ['';'']) ss) = vs" by auto
  then show ?case by (intro exI [of _ "s # ss"]) simp
qed (intro exI [of _ "[]"], simp)

lemma doc_graph_tree: "doc_graph us \<Longrightarrow> \<exists>a. is_graph a \<and> documented a \<and> ref_words a = us"
proof (induction rule: doc_graph.induct)
  case (1 ty n us)
  from doc_statements_tree [OF 1(3)] obtain ss where
    "\<forall>s \<in> set ss. is_statement (Some s) \<and> documented (Some s)" "concat (map (\<lambda>s. ast_words s @ ['';'']) ss) = us" by blast
  then show ?case using 1(1,2)
    by (intro exI [of _ "Some ((if ty = ''digraph'' then Direct_Graph else Undirect_Graph) n (Some (Statements ss)))"]) auto
qed

text \<open>Each documented tree has a derivation.\<close>

lemma attribute_doc: "is_attribute a \<Longrightarrow> documented (Some a) \<Longrightarrow> doc_attr (ast_words a)"
  by (cases a) (auto intro: doc_attr.intros)

lemma attributes_doc:
  "as \<noteq> [] \<Longrightarrow> \<forall>a \<in> set as. is_attribute a \<and> documented (Some a) \<Longrightarrow> doc_attrs (concat (map ast_words as))"
proof (induction as)
  case (Cons a as)
  then have a: "doc_attr (ast_words a)" using attribute_doc by simp
  show ?case
  proof (cases "as = []")
    case True
    then show ?thesis using one_attr [OF a] by simp
  next
    case False
    then show ?thesis using more_attrs [OF a] Cons by simp
  qed
qed simp

lemma node_doc: "is_node a \<Longrightarrow> documented a \<Longrightarrow> doc_node (ref_words a)"
proof -
  assume a: "is_node a" "documented a"
  then obtain n as where n: "a = Some (Node n as)" "classify n = Identifier" "is_attributes as"
    by (cases a rule: is_node.cases) auto
  have "doc_attr_list (ref_words as)"
  proof (cases as)
    case None
    then show ?thesis by (simp add: no_attr_list)
  next
    case (Some b)
    with n(3) obtain bs where b: "b = Attributes bs" "\<forall>b \<in> set bs. is_attribute b" by (cases b) auto
    with a(2) n(1) Some have "bs \<noteq> []" "\<forall>b \<in> set bs. is_attribute b \<and> documented (Some b)" by auto
    from attr_list [OF attributes_doc [OF this]] show ?thesis using Some b(1) by simp
  qed
  with n show ?thesis by (simp add: doc_node.intros)
qed

lemma node_statement_doc:
  "classify n = Identifier \<Longrightarrow> is_attributes as \<Longrightarrow> documented (Some (Node n as)) \<Longrightarrow> doc_statement (n # ref_words as)"
  using single_node [OF node_doc [of "Some (Node n as)"]] by simp

lemma statement_doc: "is_statement a \<Longrightarrow> documented a \<Longrightarrow> doc_statement (ref_words a)"
proof (induction a rule: is_statement.induct)
  case (1 l r)
  then show ?case using chain [OF node_doc [of l], of "''->''" "ref_words r"] by auto
next
  case (2 l r)
  then show ?case using chain [OF node_doc [of l], of "''--''" "ref_words r"] by auto
qed (auto intro: node_statement_doc)

lemma statements_doc:
  "\<forall>s \<in> set ss. is_statement (Some s) \<and> documented (Some s) \<Longrightarrow>
   doc_statements (concat (map (\<lambda>s. ast_words s @ ['';'']) ss))"
proof (induction ss)
  case (Cons s ss)
  then have "doc_statement (ast_words s)" using statement_doc [of "Some s"] by simp
  from more_statements [OF this] Cons show ?case by simp
qed (simp add: no_statement)

lemma graph_doc: "is_graph a \<Longrightarrow> documented a \<Longrightarrow> doc_graph (ref_words a)"
proof -
  assume a: "is_graph a" "documented a"
  then obtain n s where n: "a = Some (Direct_Graph n s) \<or> a = Some (Undirect_Graph n s)" "classify n = Identifier" "is_statements s"
    by (cases a rule: is_graph.cases) auto
  then obtain ss where s: "s = Some (Statements ss)" "\<forall>s \<in> set ss. is_statement (Some s)"
    by (cases s rule: is_statements.cases) auto
  with a(2) n(1) have "doc_statements (ref_words s)" using statements_doc [of ss] by auto
  from doc_graph.intros [OF _ n(2) this, of "''graph''"] doc_graph.intros [OF _ n(2) this, of "''digraph''"]
  show ?thesis using n(1) by auto
qed

section \<open>Properties\<close>

text \<open>
  C34: The parser returns on every text. It returns the tree \<open>a\<close> if and only if the words of the text begin with the words of
  \<open>a\<close>, and \<open>a\<close> is an accepted graph; if there is no such graph it throws \<open>unexpected_syntax\<close>. What follows the closing bracket
  is not read. The accepted graphs are more than the grammar of the README: a text begins with a graph of that
  grammar if and only if the parser returns a tree in which every edge has both ends, no list of attributes is empty and
  every value is an identifier. So it accepts every documented text, and the others that it accepts use one of these three liberties.
\<close>

theorem graphviz_parser_correct:
  "((\<exists>q. parse (new_analyzer input) = Inr (a, q)) \<longleftrightarrow> is_graph a \<and> (\<exists>rest. words input = ref_words a @ rest)) \<and>
   (parse (new_analyzer input) = Inl Unexpected_Syntax \<longleftrightarrow> \<not> (\<exists>b rest. is_graph b \<and> words input = ref_words b @ rest)) \<and>
   ((\<exists>us rest. doc_graph us \<and> words input = us @ rest) \<longleftrightarrow>
      (\<exists>b q. parse (new_analyzer input) = Inr (b, q) \<and> documented b))"
proof -
  have sound: "is_graph b \<and> (\<exists>rest. words input = ref_words b @ rest)" if "parse (new_analyzer input) = Inr (b, q)" for b q
    using graph_sound [of "new_analyzer input" b q] that sane_new [of input] by (auto simp: parse_def reads_def)
  have complete: "\<exists>q. parse (new_analyzer input) = Inr (b, q)" if "is_graph b" "words input = ref_words b @ rest" for b rest
    using parse_complete [OF that(1), of "new_analyzer input" rest] that(2) sane_new [of input] by (auto simp: moved_def)
  have "parse (new_analyzer input) = Inl Unexpected_Syntax \<or> (\<exists>b q. parse (new_analyzer input) = Inr (b, q))"
    by (metis (full_types) old.sum.exhaust surj_pair syntax_error.exhaust)
  with sound complete have
    "((\<exists>q. parse (new_analyzer input) = Inr (a, q)) \<longleftrightarrow> is_graph a \<and> (\<exists>rest. words input = ref_words a @ rest)) \<and>
     (parse (new_analyzer input) = Inl Unexpected_Syntax \<longleftrightarrow> \<not> (\<exists>b rest. is_graph b \<and> words input = ref_words b @ rest))"
    by fastforce
  moreover have "\<exists>b q. parse (new_analyzer input) = Inr (b, q) \<and> documented b"
    if "doc_graph us" "words input = us @ rest" for us rest
    using doc_graph_tree [OF that(1)] complete that(2) by blast
  moreover have "\<exists>us rest. doc_graph us \<and> words input = us @ rest"
    if "parse (new_analyzer input) = Inr (b, q)" "documented b" for b q
    using sound [OF that(1)] graph_doc [OF _ that(2)] by blast
  ultimately show ?thesis by blast
qed

text \<open>Texts that are accepted and not documented, one for each liberty.\<close>

lemma parser_liberties:
  assumes "ws \<in> {[''graph'', ''g'', ''{'', ''--'', '';'', ''}''],
    [''graph'', ''g'', ''{'', ''a'', ''['', '']'', '';'', ''}''],
    [''graph'', ''g'', ''{'', ''a'', ''['', ''k'', ''='', ''1'', '']'', '';'', ''}'']}"
  shows "\<exists>b q. parse (new_analyzer (unwords ws)) = Inr (b, q) \<and> \<not> documented b"
proof -
  have "\<forall>w \<in> set ws. valid_word w"
    using assms by (auto simp: valid_word_def classify_def dot_keywords_def is_alpha_def is_digit_def is_identifier_def
       is_literal_def allowed_identifier_symbols_def)
  then have ws: "words (unwords ws) = ws" by (rule words_unwords)
  define E where "E = Undirect_Graph ''g'' (Some (Statements [Undirect_Edge None None]))"
  define N where "N as = Undirect_Graph ''g'' (Some (Statements [Node ''a'' (Some (Attributes as))]))" for as
  have c: "classify ''g'' = Identifier" "classify ''a'' = Identifier" "classify ''k'' = Identifier" "classify ''1'' = Literal"
    by (simp_all add: classify_def is_alpha_def is_digit_def dot_keywords_def)
  from assms consider "ws = ast_words E" | "ws = ast_words (N [])" | "ws = ast_words (N [Attribute ''k'' ''1''])"
    by (auto simp: E_def N_def)
  then have "\<exists>a. is_graph (Some a) \<and> \<not> documented (Some a) \<and> ws = ref_words (Some a) @ []"
  proof cases
    case 1
    then show ?thesis by (intro exI [of _ E]) (simp add: c, simp add: E_def c)
  next
    case 2
    then show ?thesis by (intro exI [of _ "N []"]) (simp add: c, simp add: N_def c)
  next
    case 3
    then show ?thesis by (intro exI [of _ "N [Attribute ''k'' ''1'']"]) (simp add: c, simp add: N_def c)
  qed
  then obtain a where a: "is_graph (Some a)" "\<not> documented (Some a)" "ws = ref_words (Some a) @ []" by blast
  have "moved (new_analyzer (unwords ws)) (ref_words (Some a) @ [])"
    using sane_new [of "unwords ws"] ws a(3) by (simp add: moved_def)
  from parse_complete [OF a(1) this] a(2) show ?thesis by blast
qed

definition print_ast :: "ast \<Rightarrow> string" where
  "print_ast a = unwords (ast_words a)"

text \<open>
  C35: Round trip: printing an accepted graph, with a space after each word, and parsing the text gives the
  graph back, if its names and values are words of the lexer.
\<close>

theorem graphviz_round_trip:
  assumes "is_graph (Some a)" "\<forall>w \<in> set (ast_words a). valid_word w"
  shows "\<exists>q. parse (new_analyzer (print_ast a)) = Inr (Some a, q)"
proof -
  have w: "words (print_ast a) = ref_words (Some a) @ []" using words_unwords [OF assms(2)] by (simp add: print_ast_def)
  from parse_complete [OF assms(1), of "new_analyzer (print_ast a)" "[]"] sane_new [of "print_ast a"] w
  show ?thesis by (auto simp: moved_def)
qed

definition small_digraph :: ast where
  "small_digraph = Direct_Graph ''g'' (Some (Statements
     [Direct_Edge (Some (Node ''a'' (Some (Attributes [Attribute ''x'' ''1.5''])))) (Some (Node ''b'' None))]))"

theorem graphviz_round_trip_witness:
  "\<exists>q. parse (new_analyzer (print_ast small_digraph)) = Inr (Some small_digraph, q)"
  by (rule graphviz_round_trip)
     (simp_all add: small_digraph_def valid_word_def classify_def dot_keywords_def is_alpha_def is_digit_def is_identifier_def
       is_literal_def allowed_identifier_symbols_def)

end
