(* ===== verification/Graphviz_Reader.thy ===== *)
theory Graphviz_Reader
  imports Graphviz_Grammar Directed_Graph
begin

text \<open>
  \<open>read_graphviz\<close> (\<open>container/graph/read_graphviz.hpp\<close>): the graph of a DOT text, on the parser and on the model of
  \<open>directed_graph\<close>. The client's \<open>N::make\<close>, \<open>E::make\<close> and \<open>directed_graph_semantic\<close> are parameters. \<open>None\<close> is the
  dereference of a null reference, or a call through an entry past the end of the visitor's table.
\<close>

section \<open>The code\<close>

datatype read_error = Syntax_Error | Loop_Error

record ('n, 'e, 'nk, 'ek) semantic =
  make_node :: "string \<Rightarrow> 'n"
  make_edge :: "string \<Rightarrow> 'e"
  node_key :: "'n \<Rightarrow> 'nk"
  edge_key :: "'e \<Rightarrow> 'ek"

type_synonym ('n, 'e, 'nk, 'ek, 'a) reading = "(read_error + 'a \<times> ('n, 'e, 'nk, 'ek) directed_graph) option"

definition and_then :: "('n, 'e, 'nk, 'ek, 'a) reading \<Rightarrow>
    ('a \<Rightarrow> ('n, 'e, 'nk, 'ek) directed_graph \<Rightarrow> ('n, 'e, 'nk, 'ek, 'b) reading) \<Rightarrow> ('n, 'e, 'nk, 'ek, 'b) reading" where
  "and_then m f = (case m of None \<Rightarrow> None | Some (Inl e) \<Rightarrow> Some (Inl e) | Some (Inr (x, g)) \<Rightarrow> f x g)"

lemma and_then_simps [simp]:
  "and_then None f = None" "and_then (Some (Inl e)) f = Some (Inl e)" "and_then (Some (Inr (x, g))) f = f x g"
  by (simp_all add: and_then_def)

text \<open>
  \<open>visit\<close> with a visitor that takes one kind of tree; of the other kinds it returns null. The table of \<open>visit\<close> has
  one entry less than there are kinds, and \<open>attributes\<close> is the last kind.
\<close>

definition visit :: "kind \<Rightarrow> (ast \<Rightarrow> ('n, 'e, 'nk, 'ek) directed_graph \<Rightarrow> ('n, 'e, 'nk, 'ek, ast_ref) reading) \<Rightarrow>
    ast_ref \<Rightarrow> ('n, 'e, 'nk, 'ek) directed_graph \<Rightarrow> ('n, 'e, 'nk, 'ek, ast_ref) reading" where
  "visit takes f base g =
     (case base of
        None \<Rightarrow> None
      | Some a \<Rightarrow> if what a = K_Attributes then None else if what a = takes then f a g else Some (Inr (None, g)))"

lemma visit_cong [fundef_cong]:
  "takes = takes' \<Longrightarrow> base = base' \<Longrightarrow> g = g' \<Longrightarrow> (\<And>a. base' = Some a \<Longrightarrow> f a g' = f' a g') \<Longrightarrow>
   visit takes f base g = visit takes' f' base' g'"
  by (auto simp: visit_def split: option.splits)

text \<open>\<open>unsafe_to<ast_node_node>\<close> and \<open>get_name\<close>: the name of a reference to a node; null for a null or other reference.\<close>

fun node_name :: "ast_ref \<Rightarrow> string option" where
  "node_name (Some (Node n a)) = Some n"
| "node_name _ = None"

definition insert_named_edge :: "('n, 'e, 'nk, 'ek) semantic \<Rightarrow> string \<Rightarrow> string \<Rightarrow> ('n, 'e, 'nk, 'ek) directed_graph \<Rightarrow>
    ('n, 'e, 'nk, 'ek, unit) reading" where
  "insert_named_edge sem from_name to_name g =
     (case insert_node (node_key sem) (make_node sem from_name) g of
        ((from_node, _), g) \<Rightarrow>
          (case insert_node (node_key sem) (make_node sem to_name) g of
             ((to_node, _), g) \<Rightarrow>
               (case insert_direct_edge (edge_key sem) from_node to_node (make_edge sem (from_name @ ''_'' @ to_name)) g of
                  None \<Rightarrow> None
                | Some (Inl _) \<Rightarrow> Some (Inl Loop_Error)
                | Some (Inr (_, g)) \<Rightarrow> Some (Inr ((), g)))))"

fun process_statement :: "('n, 'e, 'nk, 'ek) semantic \<Rightarrow> ast \<Rightarrow> ('n, 'e, 'nk, 'ek) directed_graph \<Rightarrow>
    ('n, 'e, 'nk, 'ek, ast_ref) reading" where
  "process_statement sem (Direct_Edge from_node to_node) g =
     and_then
       (if node_name to_node \<noteq> None then Some (Inr (to_node, g))
        else visit K_Direct_Edge (process_statement sem) to_node g)
       (\<lambda>to_node g.
         case node_name from_node of
           None \<Rightarrow> None
         | Some from_name \<Rightarrow>
             (case node_name to_node of
                None \<Rightarrow> None
              | Some to_name \<Rightarrow>
                  and_then (insert_named_edge sem from_name to_name g) (\<lambda>_ g. Some (Inr (from_node, g)))))"
| "process_statement sem a g = None"

fun process_statements :: "('n, 'e, 'nk, 'ek) semantic \<Rightarrow> ast list \<Rightarrow> ('n, 'e, 'nk, 'ek) directed_graph \<Rightarrow>
    ('n, 'e, 'nk, 'ek, ast_ref) reading" where
  "process_statements sem [] g = Some (Inr (None, g))"
| "process_statements sem (s # ss) g =
     and_then (visit K_Direct_Edge (process_statement sem) (Some s) g) (\<lambda>_ g. process_statements sem ss g)"

fun get_statements :: "ast \<Rightarrow> ast_ref" where
  "get_statements (Direct_Graph n s) = s"
| "get_statements _ = None"

fun elements :: "ast \<Rightarrow> ast list" where
  "elements (Statements ss) = ss"
| "elements _ = []"

definition read_graphviz :: "('n, 'e, 'nk, 'ek) semantic \<Rightarrow> string \<Rightarrow>
    (read_error + ('n, 'e, 'nk, 'ek) directed_graph) option" where
  "read_graphviz sem dot =
     (case parse (new_analyzer dot) of
        Inl _ \<Rightarrow> Some (Inl Syntax_Error)
      | Inr (root, _) \<Rightarrow>
          (case and_then (visit K_Direct_Graph (\<lambda>a g. Some (Inr (get_statements a, g))) root empty_graph)
              (\<lambda>statements g. visit K_Statements (\<lambda>a g. process_statements sem (elements a) g) statements g) of
             None \<Rightarrow> None
           | Some (Inl e) \<Rightarrow> Some (Inl e)
           | Some (Inr (_, g)) \<Rightarrow> Some (Inr g)))"

section \<open>The graph of a list of edges\<close>

text \<open>The names along a chain \<open>a -> b -> c\<close>, and its edges.\<close>

fun chain :: "ast_ref \<Rightarrow> string list option" where
  "chain (Some (Node n a)) = Some [n]"
| "chain (Some (Direct_Edge l r)) =
     (case node_name l of None \<Rightarrow> None | Some n \<Rightarrow> (case chain r of None \<Rightarrow> None | Some ns \<Rightarrow> Some (n # ns)))"
| "chain _ = None"

definition pairs :: "string list \<Rightarrow> (string \<times> string) set" where
  "pairs ns = set (zip ns (tl ns))"

fun edge_name :: "string \<times> string \<Rightarrow> string" where
  "edge_name (u, v) = u @ ''_'' @ v"

text \<open>The client's keys tell different names apart.\<close>

definition faithful :: "('n, 'e, 'nk, 'ek) semantic \<Rightarrow> bool" where
  "faithful sem \<longleftrightarrow> inj (\<lambda>s. node_key sem (make_node sem s)) \<and> inj (\<lambda>s. edge_key sem (make_edge sem s))"

text \<open>The node of a name.\<close>

definition named :: "('n, 'e, 'nk, 'ek) semantic \<Rightarrow> string \<Rightarrow> ('n, 'e, 'nk, 'ek) directed_graph \<Rightarrow> ptr option" where
  "named sem s g = get_node (node_key sem (make_node sem s)) g"

definition represents :: "('n, 'e, 'nk, 'ek) semantic \<Rightarrow> ('n, 'e, 'nk, 'ek) directed_graph \<Rightarrow> (string \<times> string) set \<Rightarrow> bool" where
  "represents sem g E \<longleftrightarrow> graph_ok (node_key sem) (edge_key sem) g \<and>
     (\<forall>s. named sem s g \<noteq> None \<longleftrightarrow> s \<in> Field E) \<and>
     (\<forall>u v p q. named sem u g = Some p \<longrightarrow> named sem v g = Some q \<longrightarrow> (q \<in> set (next_nodes g p) \<longleftrightarrow> (u, v) \<in> E)) \<and>
     (\<forall>s. get_edge (edge_key sem (make_edge sem s)) g \<noteq> None \<longleftrightarrow> s \<in> edge_name ` E)"

lemma representsD:
  assumes "represents sem g E"
  shows "graph_ok (node_key sem) (edge_key sem) g" "named sem s g \<noteq> None \<longleftrightarrow> s \<in> Field E"
    and "named sem u g = Some p \<Longrightarrow> named sem v g = Some q \<Longrightarrow> q \<in> set (next_nodes g p) \<longleftrightarrow> (u, v) \<in> E"
    and "get_edge (edge_key sem (make_edge sem s)) g \<noteq> None \<longleftrightarrow> s \<in> edge_name ` E"
  using assms unfolding represents_def by blast+

lemma represents_empty: "represents sem empty_graph {}"
  using empty_graph_ok [of "node_key sem" "edge_key sem"]
  by (simp add: represents_def named_def get_node_def get_edge_def empty_graph_def)

lemma named_unique:
  assumes "graph_ok (node_key sem) (edge_key sem) g" "faithful sem" "named sem u g = Some p" "named sem v g = Some p"
  shows "u = v"
  using get_node_bound(2) [OF assms(1)] assms(2-4) unfolding named_def faithful_def by (metis injD)

text \<open>Inserting a node keeps the others and the edges.\<close>

lemma insert_named_node:
  assumes "graph_ok (node_key sem) (edge_key sem) g" "faithful sem"
  shows "\<exists>p b g'. insert_node (node_key sem) (make_node sem s) g = ((Some p, b), g') \<and>
    graph_ok (node_key sem) (edge_key sem) g' \<and> next_nodes g' = next_nodes g \<and> named sem s g' = Some p \<and>
    (\<forall>k. k \<noteq> s \<longrightarrow> named sem k g' = named sem k g) \<and> (\<forall>k. get_edge k g' = get_edge k g) \<and>
    (named sem s g \<noteq> None \<longrightarrow> g' = g)"
proof -
  obtain p g' where ins: "insert_node (node_key sem) (make_node sem s) g = ((Some p, get_node (node_key sem (make_node sem s)) g = None), g')"
    "graph_ok (node_key sem) (edge_key sem) g'" "next_nodes g' = next_nodes g"
    "get_node (node_key sem (make_node sem s)) g' = Some p"
    "\<forall>k. k \<noteq> node_key sem (make_node sem s) \<longrightarrow> get_node k g' = get_node k g"
    using insert_node_ok [OF assms(1), of "make_node sem s"] by blast
  have "named sem k g' = named sem k g" if "k \<noteq> s" for k
    using ins(5) that assms(2) by (auto simp: named_def faithful_def inj_def)
  moreover have "(\<forall>k. get_edge k g' = get_edge k g) \<and> (named sem s g \<noteq> None \<longrightarrow> g' = g)"
    using ins(1) by (auto simp: insert_node_def named_def get_node_def get_edge_def Let_def split: option.splits)
  ultimately show ?thesis using ins by (auto simp: named_def)
qed

lemma unknown_successors:
  assumes "graph_ok (node_key sem) (edge_key sem) g" "\<not> p < length (node_heap g)"
  shows "next_nodes g p = []" "p \<notin> set (next_nodes g q)"
  using assms next_nodes_closed [of g q] by (auto simp: next_nodes_def graph_ok_def)

lemma insert_edge_represents:
  assumes rep: "represents sem g E" and faith: "faithful sem" and "u \<noteq> v"
    and inj: "inj_on edge_name (insert (u, v) E)"
  shows "\<exists>g'. insert_named_edge sem u v g = Some (Inr ((), g')) \<and> represents sem g' (insert (u, v) E)"
proof -
  note r = representsD [OF rep]
  obtain p b1 g1 where n1: "insert_node (node_key sem) (make_node sem u) g = ((Some p, b1), g1)"
    "graph_ok (node_key sem) (edge_key sem) g1" "next_nodes g1 = next_nodes g" "named sem u g1 = Some p"
    "\<forall>k. k \<noteq> u \<longrightarrow> named sem k g1 = named sem k g" "\<forall>k. get_edge k g1 = get_edge k g" "named sem u g \<noteq> None \<longrightarrow> g1 = g"
    using insert_named_node [OF r(1) faith, of u] by blast
  obtain q b2 g2 where n2: "insert_node (node_key sem) (make_node sem v) g1 = ((Some q, b2), g2)"
    "graph_ok (node_key sem) (edge_key sem) g2" "next_nodes g2 = next_nodes g1" "named sem v g2 = Some q"
    "\<forall>k. k \<noteq> v \<longrightarrow> named sem k g2 = named sem k g1" "\<forall>k. get_edge k g2 = get_edge k g1" "named sem v g1 \<noteq> None \<longrightarrow> g2 = g1"
    using insert_named_node [OF n1(2) faith, of v] by blast
  have pq: "named sem u g2 = Some p" "named sem v g2 = Some q" using n1(4) n2(4,5) assms(3) by auto
  have "p \<noteq> q" using named_unique [OF n2(2) faith pq(1)] pq(2) assms(3) by auto
  have bound: "p < length (node_heap g2)" "q < length (node_heap g2)"
    using get_node_bound(1) [OF n2(2)] pq by (simp_all add: named_def)
  let ?k = "edge_key sem (make_edge sem (edge_name (u, v)))"
  have edges: "get_edge k g2 = get_edge k g" for k using n1(6) n2(6) by simp
  have names: "named sem s g2 = (if s = u then Some p else if s = v then Some q else named sem s g)" for s
    using pq n1(5) n2(5) by auto
  have old: "y \<in> set (next_nodes g x) \<longleftrightarrow> (a, b) \<in> E" if xy: "named sem a g2 = Some x" "named sem b g2 = Some y" for a b x y
  proof (cases "named sem a g = None \<or> named sem b g = None")
    case True
    then have "(a, b) \<notin> E" using r(2) [of a] r(2) [of b] by (auto intro: FieldI1 FieldI2)
    moreover have "y \<notin> set (next_nodes g x)"
    proof
      assume y: "y \<in> set (next_nodes g x)"
      have kept: "named sem s g \<noteq> None" if "named sem s g2 = Some z" "z < length (node_heap g)" for s z
      proof -
        have "node_heap g2 ! z = node_heap g ! z \<and> length (node_heap g) \<le> length (node_heap g2)"
          using n1(1) n2(1) that(2)
          by (auto simp: insert_node_def Let_def nth_append split: option.splits)
        with get_node_bound(2) [OF n2(2) that(1) [unfolded named_def]]
        have "node_key sem (node (node_heap g ! z)) = node_key sem (make_node sem s)" by simp
        moreover have "get_node (node_key sem (node (node_heap g ! z))) g = Some z"
          using r(1) that(2) unfolding graph_ok_def indexed_def get_node_def node_keys_def by auto
        ultimately show ?thesis by (simp add: named_def)
      qed
      have "x < length (node_heap g)" "y < length (node_heap g)"
        using y unknown_successors [OF r(1)] by (metis empty_iff list.set(1), blast)
      with kept xy True show False by blast
    qed
    ultimately show ?thesis by simp
  next
    case False
    then have "named sem a g = Some x" "named sem b g = Some y"
      using xy names n1(7) n2(7) n1(5) n2(5) by (metis option.exhaust)+
    then show ?thesis using r(3) by blast
  qed
  show ?thesis
  proof (cases "(u, v) \<in> E")
    case True
    then have "get_edge ?k g2 \<noteq> None" unfolding edges using r(4) [of "edge_name (u, v)"] by blast
    then obtain e where "get_edge ?k g2 = Some e" by blast
    then have "insert_named_edge sem u v g = Some (Inr ((), g2))"
      using n1(1) n2(1) \<open>p \<noteq> q\<close> by (simp add: insert_named_edge_def insert_direct_edge_def get_edge_def)
    moreover have "g2 = g"
    proof -
      have "u \<in> Field E" "v \<in> Field E" using True by (auto simp: Field_def)
      with r(2) n1(7) n2(7) show ?thesis by blast
    qed
    ultimately show ?thesis using rep True by (simp add: insert_absorb)
  next
    case False
    have "edge_name (u, v) \<notin> edge_name ` E" using inj False by (auto simp: inj_on_def)
    then have new: "get_edge ?k g2 = None" unfolding edges using r(4) [of "edge_name (u, v)"] by blast
    obtain e g3 where e: "insert_direct_edge (edge_key sem) (Some p) (Some q) (make_edge sem (edge_name (u, v))) g2 = Some (Inr ((Some e, True), g3))"
      "graph_ok (node_key sem) (edge_key sem) g3" "next_nodes g3 = (next_nodes g2)(p := next_nodes g2 p @ [q])"
      "get_edge ?k g3 = Some e" "\<forall>k. get_node k g3 = get_node k g2"
      using insert_edge_ok [where node_key = "node_key sem" and edge_key = "edge_key sem", OF n2(2) bound \<open>p \<noteq> q\<close> new] by blast
    have "insert_named_edge sem u v g = Some (Inr ((), g3))"
      using n1(1) n2(1) e(1) by (simp add: insert_named_edge_def)
    moreover have "represents sem g3 (insert (u, v) E)"
      unfolding represents_def
    proof (intro conjI allI impI)
      show "graph_ok (node_key sem) (edge_key sem) g3" by (rule e(2))
      have n3: "named sem s g3 = named sem s g2" for s using e(5) by (simp add: named_def)
      show "named sem s g3 \<noteq> None \<longleftrightarrow> s \<in> Field (insert (u, v) E)" for s
        using n3 names r(2) by (auto simp: Field_def)
      show "(y \<in> set (next_nodes g3 x)) = ((a, b) \<in> insert (u, v) E)" if "named sem a g3 = Some x" "named sem b g3 = Some y" for a b x y
      proof -
        have "x = p \<longleftrightarrow> a = u" "y = q \<longleftrightarrow> b = v"
          using that pq n3 named_unique [OF n2(2) faith] by auto
        with old [of a x b y] that n3 e(3) n1(3) n2(3) show ?thesis by auto
      qed
      show "get_edge (edge_key sem (make_edge sem s)) g3 \<noteq> None \<longleftrightarrow> s \<in> edge_name ` insert (u, v) E" for s
      proof (cases "s = edge_name (u, v)")
        case True
        with e(4) show ?thesis by simp
      next
        case False
        then have "edge_key sem (make_edge sem s) \<noteq> ?k" using faith by (auto simp: faithful_def inj_def)
        then have "get_edge (edge_key sem (make_edge sem s)) g3 = get_edge (edge_key sem (make_edge sem s)) g2"
          using e(1) \<open>p \<noteq> q\<close> by (auto simp: insert_direct_edge_def get_edge_def Let_def split: option.splits)
        with False edges r(4) [of s] show ?thesis by auto
      qed
    qed
    ultimately show ?thesis by blast
  qed
qed

lemma insert_loop:
  assumes "represents sem g E" "faithful sem"
  shows "insert_named_edge sem u u g = Some (Inl Loop_Error)"
proof -
  obtain p b g' where n: "insert_node (node_key sem) (make_node sem u) g = ((Some p, b), g')"
    "graph_ok (node_key sem) (edge_key sem) g'" "named sem u g' = Some p"
    using insert_named_node [OF representsD(1) [OF assms(1)] assms(2), of u] by blast
  then have "insert_node (node_key sem) (make_node sem u) g' = ((Some p, False), g')"
    by (simp add: insert_node_def named_def get_node_def)
  with n show ?thesis by (simp add: insert_named_edge_def insert_direct_edge_def)
qed

lemma chain_start: "chain r = Some ns \<Longrightarrow> ns \<noteq> []"
  by (cases r rule: chain.cases) (auto split: option.splits)

lemma pairs_simps [simp]: "pairs [n] = {}" "pairs (n # m # ns) = insert (n, m) (pairs (m # ns))"
  by (simp_all add: pairs_def)

lemma process_chain:
  assumes "faithful sem"
  shows "represents sem g E \<Longrightarrow> what a = K_Direct_Edge \<Longrightarrow> chain (Some a) = Some ns \<Longrightarrow> inj_on edge_name (pairs ns \<union> E) \<Longrightarrow>
    (if \<exists>u. (u, u) \<in> pairs ns then process_statement sem a g = Some (Inl Loop_Error)
     else \<exists>r g'. process_statement sem a g = Some (Inr (r, g')) \<and> node_name r = Some (hd ns) \<and> represents sem g' (pairs ns \<union> E))"
proof (induction a arbitrary: g E ns)
  case (Direct_Edge l r)
  from Direct_Edge.prems(3) obtain n ms where n: "node_name l = Some n" "chain r = Some ms" "ns = n # ms"
    by (auto split: option.splits)
  show ?case
  proof (cases "node_name r")
    case (Some m)
    then obtain at where "r = Some (Node m at)" by (cases r rule: node_name.cases) auto
    with n(2) have ms: "ms = [m]" by simp
    show ?thesis
    proof (cases "n = m")
      case True
      then show ?thesis using insert_loop [OF Direct_Edge.prems(1) assms] Some n ms by simp
    next
      case False
      from insert_edge_represents [OF Direct_Edge.prems(1) assms False] Direct_Edge.prems(4) n(3) ms obtain g' where
        "insert_named_edge sem n m g = Some (Inr ((), g'))" "represents sem g' (insert (n, m) E)" by auto
      with Some n ms False show ?thesis by auto
    qed
  next
    case None
    with n(2) obtain b where b: "r = Some b" "what b = K_Direct_Edge"
      by (cases r rule: chain.cases) (auto split: option.splits)
    obtain m ks where ms: "ms = m # ks" using chain_start [OF n(2)] by (cases ms) auto
    have sub: "inj_on edge_name (pairs ms \<union> E)"
      using Direct_Edge.prems(4) n(3) ms by (auto intro: inj_on_subset)
    have ih: "if \<exists>u. (u, u) \<in> pairs ms then process_statement sem b g = Some (Inl Loop_Error)
      else \<exists>r g'. process_statement sem b g = Some (Inr (r, g')) \<and> node_name r = Some (hd ms) \<and> represents sem g' (pairs ms \<union> E)"
      by (rule Direct_Edge.IH(2) [OF _ Direct_Edge.prems(1) b(2) _ sub]) (use b(1) n(2) in auto)
    have visit: "visit K_Direct_Edge (process_statement sem) r g = process_statement sem b g" using b by (simp add: visit_def)
    show ?thesis
    proof (cases "\<exists>u. (u, u) \<in> pairs ms")
      case True
      with ih visit None n ms show ?thesis by auto
    next
      case False
      with ih obtain r' g' where r': "process_statement sem b g = Some (Inr (r', g'))" "node_name r' = Some m"
        "represents sem g' (pairs ms \<union> E)" using ms by auto
      show ?thesis
      proof (cases "n = m")
        case True
        then show ?thesis using insert_loop [OF r'(3) assms] r' visit None n ms by auto
      next
        case False
        have "inj_on edge_name (insert (n, m) (pairs ms \<union> E))" using Direct_Edge.prems(4) n(3) ms by simp
        from insert_edge_represents [OF r'(3) assms False this] obtain g2 where
          "insert_named_edge sem n m g' = Some (Inr ((), g2))" "represents sem g2 (insert (n, m) (pairs ms \<union> E))" by blast
        with r' visit None n ms False \<open>\<not> (\<exists>u. (u, u) \<in> pairs ms)\<close> show ?thesis by auto
      qed
    qed
  qed
qed auto

text \<open>The edges of all the chains of a list of statements.\<close>

definition all_pairs :: "ast list \<Rightarrow> (string \<times> string) set" where
  "all_pairs ss = (\<Union>s \<in> set ss. case chain (Some s) of None \<Rightarrow> {} | Some ns \<Rightarrow> pairs ns)"

lemma process_all:
  assumes "faithful sem"
  shows "represents sem g E \<Longrightarrow> \<forall>s \<in> set ss. chain (Some s) \<noteq> None \<Longrightarrow> inj_on edge_name (all_pairs ss \<union> E) \<Longrightarrow>
    (if \<exists>u. (u, u) \<in> all_pairs ss then process_statements sem ss g = Some (Inl Loop_Error)
     else \<exists>r g'. process_statements sem ss g = Some (Inr (r, g')) \<and> represents sem g' (all_pairs ss \<union> E))"
proof (induction ss arbitrary: g E)
  case Nil
  then show ?case by (simp add: all_pairs_def)
next
  case (Cons s ss)
  from Cons.prems(2) obtain ns where ns: "chain (Some s) = Some ns" by auto
  have all: "all_pairs (s # ss) = pairs ns \<union> all_pairs ss" using ns by (simp add: all_pairs_def)
  have sub: "inj_on edge_name (pairs ns \<union> E)" "inj_on edge_name (all_pairs ss \<union> (pairs ns \<union> E))"
    using Cons.prems(3) unfolding all by (auto intro: inj_on_subset simp: Un_ac)
  show ?case
  proof (cases "what s = K_Direct_Edge")
    case True
    then have visit: "visit K_Direct_Edge (process_statement sem) (Some s) g = process_statement sem s g" by (simp add: visit_def)
    note step = process_chain [OF assms Cons.prems(1) True ns sub(1)]
    show ?thesis
    proof (cases "\<exists>u. (u, u) \<in> pairs ns")
      case True
      with step visit all show ?thesis by auto
    next
      case False
      with step obtain r g' where r: "process_statement sem s g = Some (Inr (r, g'))" "represents sem g' (pairs ns \<union> E)" by auto
      from Cons.IH [OF r(2) _ sub(2)] Cons.prems(2) False r(1) visit show ?thesis
        unfolding all by (auto simp: Un_ac split: if_splits)
    qed
  next
    case False
    then have "pairs ns = {}" "visit K_Direct_Edge (process_statement sem) (Some s) g = Some (Inr (None, g))"
      using ns by (cases s; auto simp: visit_def split: option.splits)+
    with Cons.IH [OF Cons.prems(1)] Cons.prems(2) sub(2) show ?thesis unfolding all by auto
  qed
qed

section \<open>Properties\<close>

lemma read_parsed:
  assumes "words dot = ref_words (Some a) @ rest" "is_graph (Some a)"
  shows "\<exists>q. parse (new_analyzer dot) = Inr (Some a, q)"
  using parse_complete [OF assms(2), of "new_analyzer dot" rest] sane_new [of dot] assms(1) by (auto simp: moved_def)

text \<open>
  C33: \<open>read_graphviz\<close> builds the graph of the text: for every text whose words are those of a digraph of chains of
  named nodes (with or without attributes) it dereferences no null reference; it throws if some edge leads from a node to
  itself, and otherwise returns a well-formed graph that has exactly the nodes that occur on edges and exactly the
  edges of the chains. The client's keys are to tell names apart, and the edges' joined names have to be different.
\<close>

theorem read_graphviz_builds_graph:
  assumes "faithful sem"
    and "words dot = ast_words (Direct_Graph name (Some (Statements ss))) @ rest" "classify name = Identifier"
    and "\<forall>s \<in> set ss. is_statement (Some s) \<and> chain (Some s) \<noteq> None" "inj_on edge_name (all_pairs ss)"
  shows "if \<exists>u. (u, u) \<in> all_pairs ss then read_graphviz sem dot = Some (Inl Loop_Error)
    else \<exists>g. read_graphviz sem dot = Some (Inr g) \<and> represents sem g (all_pairs ss)"
proof -
  obtain q where q: "parse (new_analyzer dot) = Inr (Some (Direct_Graph name (Some (Statements ss))), q)"
    using read_parsed [of dot "Direct_Graph name (Some (Statements ss))" rest] assms(2-4) by auto
  have "read_graphviz sem dot = (case process_statements sem ss empty_graph of
      None \<Rightarrow> None | Some (Inl e) \<Rightarrow> Some (Inl e) | Some (Inr (_, g)) \<Rightarrow> Some (Inr g))"
    by (simp add: read_graphviz_def q visit_def)
  moreover note process_all [OF assms(1) represents_empty, of ss] assms(4,5)
  ultimately show ?thesis by (auto split: if_splits)
qed

definition plain :: "(string, string, string, string) semantic" where
  "plain = \<lparr>make_node = id, make_edge = id, node_key = id, edge_key = id\<rparr>"

text \<open>The successors of each named node of a graph.\<close>

definition successors :: "(string, string, string, string) directed_graph \<Rightarrow> (string \<times> string list) list" where
  "successors g = map (\<lambda>n. (node n, map (\<lambda>e. case edge_to (edge_heap g ! e) of Some q \<Rightarrow> node (node_heap g ! q) | None \<Rightarrow> [])
     (out_edges n))) (node_heap g)"

fun outcome :: "(read_error + (string, string, string, string) directed_graph) option \<Rightarrow>
    (read_error + (string \<times> string list) list) option" where
  "outcome None = None"
| "outcome (Some (Inl e)) = Some (Inl e)"
| "outcome (Some (Inr g)) = Some (Inr (successors g))"

lemma outcome_None: "outcome r = None \<longleftrightarrow> r = None"
  by (cases r rule: outcome.cases) auto

lemma example_words:
  "words ''digraph g { a -> b -> c; }'' = ast_words (Direct_Graph ''g'' (Some (Statements
     [Direct_Edge (Some (Node ''a'' None)) (Some (Direct_Edge (Some (Node ''b'' None)) (Some (Node ''c'' None))))])))"
  by code_simp

lemma example_outcome: "outcome (read_graphviz plain ''digraph g { a -> b -> c; }'') = Some (Inr [(''b'', [''c'']), (''c'', []), (''a'', [''b''])])"
  by code_simp

theorem read_graphviz_builds_graph_witness:
  "\<exists>g. read_graphviz plain ''digraph g { a -> b -> c; }'' = Some (Inr g) \<and> represents plain g {(''a'', ''b''), (''b'', ''c'')}"
proof -
  let ?ss = "[Direct_Edge (Some (Node ''a'' None)) (Some (Direct_Edge (Some (Node ''b'' None)) (Some (Node ''c'' None))))]"
  have sem: "faithful plain" by (simp add: faithful_def plain_def inj_def)
  have ss: "classify ''g'' = Identifier" "\<forall>s \<in> set ?ss. is_statement (Some s) \<and> chain (Some s) \<noteq> None"
    by (simp_all add: classify_def is_alpha_def is_digit_def dot_keywords_def)
  have ps: "all_pairs ?ss = {(''a'', ''b''), (''b'', ''c'')}" by (auto simp: all_pairs_def)
  have inj: "inj_on edge_name (all_pairs ?ss)" by (simp add: ps)
  have no: "\<not> (\<exists>u. (u, u) \<in> all_pairs ?ss)" by (simp add: ps)
  have ws: "words ''digraph g { a -> b -> c; }'' = ast_words (Direct_Graph ''g'' (Some (Statements ?ss))) @ []"
    using example_words by simp
  from read_graphviz_builds_graph [OF sem ws ss inj, unfolded if_not_P [OF no], unfolded ps] show ?thesis .
qed

text \<open>
  A text of an undirected graph is accepted by the parser, but \<open>visit\<close> returns null for its tree, and the second
  \<open>visit\<close> dereferences it.
\<close>

lemma read_graphviz_undirected:
  assumes "words dot = ast_words (Undirect_Graph name s) @ rest" "is_graph (Some (Undirect_Graph name s))"
  shows "read_graphviz sem dot = None"
proof -
  obtain q where q: "parse (new_analyzer dot) = Inr (Some (Undirect_Graph name s), q)"
    using read_parsed [of dot "Undirect_Graph name s" rest] assms by auto
  show ?thesis by (simp add: read_graphviz_def q visit_def)
qed

text \<open>
  The parser accepts an edge without an end, and \<open>read_graphviz\<close> dereferences it. Without a space before the arrow the hyphen
  belongs to the identifier and the text is rejected. Two edges whose joined names agree are one edge. A node statement
  without an edge is dropped.
\<close>

lemma read_graphviz_defects:
  "read_graphviz plain ''digraph g { a -> ; }'' = None"
  "read_graphviz plain ''digraph g { -> a; }'' = None"
  "outcome (read_graphviz plain ''digraph g { a->b; }'') = Some (Inl Syntax_Error)"
  "outcome (read_graphviz plain ''digraph g { a_b -> c; a -> b_c; }'') =
    Some (Inr [(''a_b'', [''c'']), (''c'', []), (''a'', []), (''b_c'', [])])"
  "outcome (read_graphviz plain ''digraph g { d; }'') = Some (Inr [])"
proof -
  have "outcome (read_graphviz plain ''digraph g { a -> ; }'') = None" "outcome (read_graphviz plain ''digraph g { -> a; }'') = None"
    by code_simp+
  then show "read_graphviz plain ''digraph g { a -> ; }'' = None" "read_graphviz plain ''digraph g { -> a; }'' = None"
    by (simp_all only: outcome_None)
qed code_simp+

end
