(* ===== verification/Next_Permutation.thy ===== *)
theory Next_Permutation
  imports Prelude "HOL-Library.List_Lexorder" "HOL-Library.Char_ord"
begin

text \<open>
  \<open>std::next_permutation\<close>, as the standard documents it, on a list: the next arrangement in lexicographic order, or
  nothing when the list is the last one. The loop \<open>do ... while (next_permutation)\<close> from a sorted list visits
  every arrangement.
\<close>

fun next_permutation :: "'a::linorder list \<Rightarrow> 'a list option" where
  "next_permutation [] = None"
| "next_permutation (x # xs) =
     (case next_permutation xs of
        Some ys \<Rightarrow> Some (x # ys)
      | None \<Rightarrow>
          (case sort (filter (\<lambda>y. x < y) xs) of
             [] \<Rightarrow> None
           | y # _ \<Rightarrow> Some (y # sort (remove1 y (x # xs)))))"

lemma sort_Nil: "sort xs = [] \<longleftrightarrow> xs = []"
  by (metis length_0_conv length_sort)

lemma sort_least: "mset us = mset vs \<Longrightarrow> sort vs \<le> us" for us vs :: "'a::linorder list"
proof (induction us arbitrary: vs)
  case (Cons u us)
  have ms: "mset (sort vs) = mset (u # us)" using Cons.prems by simp
  obtain w ws where w: "sort vs = w # ws" using ms by (cases "sort vs") auto
  have s: "sorted (w # ws)" "mset (w # ws) = mset (u # us)" using w ms sorted_sort [where xs = vs] by simp_all
  have "u \<in> set (w # ws)" using mset_eq_setD [OF s(2)] by simp
  then have "w \<le> u" using s(1) by auto
  show ?case
  proof (cases "w = u")
    case True
    then have "mset us = mset ws" using s(2) by simp
    then have "sort ws \<le> us" by (rule Cons.IH)
    moreover have "sort ws = ws" using s(1) by (simp add: sorted_sort_id)
    ultimately show ?thesis using w True by simp
  next
    case False
    with \<open>w \<le> u\<close> w show ?thesis by simp
  qed
qed simp

lemma next_permutation_None:
  "next_permutation xs = None \<Longrightarrow> mset us = mset xs \<Longrightarrow> us \<le> xs"
proof (induction xs arbitrary: us)
  case (Cons x xs)
  obtain u vs where u: "us = u # vs" using Cons.prems(2) by (cases us) auto
  have none: "next_permutation xs = None" using Cons.prems(1) by (auto split: option.splits)
  then have small: "\<forall>y \<in> set xs. y \<le> x"
    using Cons.prems(1) by (auto simp: sort_Nil filter_empty_conv not_less split: list.splits)
  have "u \<in> set (x # xs)" using Cons.prems(2) u by (metis list.set_intros(1) mset_eq_setD)
  with small have "u \<le> x" by auto
  moreover have "vs \<le> xs" if "u = x" using Cons.IH [OF none, of vs] Cons.prems(2) u that by simp
  ultimately show ?case using u by auto
qed simp

lemma next_permutation_Some:
  "next_permutation xs = Some ys \<Longrightarrow>
   mset ys = mset xs \<and> xs < ys \<and> (\<forall>us. mset us = mset xs \<longrightarrow> xs < us \<longrightarrow> ys \<le> us)"
proof (induction xs arbitrary: ys)
  case (Cons x xs)
  show ?case
  proof (cases "next_permutation xs")
    case (Some zs)
    then have ys: "ys = x # zs" using Cons.prems by simp
    note ih = Cons.IH [OF Some]
    have "ys \<le> us" if "mset us = mset (x # xs)" "x # xs < us" for us
    proof -
      from that(1) have "us \<noteq> []" by auto
      then obtain u vs where u: "us = u # vs" by (cases us) auto
      have "x < u \<or> x = u \<and> xs < vs" using that(2) u by simp
      then show ?thesis using ih that(1) u ys by auto
    qed
    with ih ys show ?thesis by simp
  next
    case None
    with Cons.prems obtain y l where y: "sort (filter (\<lambda>y. x < y) xs) = y # l" and ys: "ys = y # sort (remove1 y (x # xs))"
      by (auto split: list.splits)
    have "set (y # l) = {z \<in> set xs. x < z}" using y by (metis set_filter set_sort)
    moreover have "sorted (y # l)" using y by (metis sorted_sort)
    ultimately have y1: "y \<in> set xs" "x < y" "\<forall>z \<in> set xs. x < z \<longrightarrow> y \<le> z" by auto
    have "mset ys = mset (x # xs)" using y1(1) ys by simp
    moreover have "ys \<le> us" if "mset us = mset (x # xs)" "x # xs < us" for us
    proof -
      from that(1) have "us \<noteq> []" by auto
      then obtain u vs where u: "us = u # vs" by (cases us) auto
      have "\<not> (x = u \<and> xs < vs)" using next_permutation_None [OF None, of vs] that(1) u by auto
      then have "x < u" using that(2) u by auto
      moreover have "u \<in> set (x # xs)" using that(1) u by (metis list.set_intros(1) mset_eq_setD)
      ultimately have "y \<le> u" using y1(3) by auto
      moreover have "sort (remove1 y (x # xs)) \<le> vs" if "y = u"
      proof (rule sort_least)
        have "add_mset u (mset vs) = mset (x # xs)" using \<open>mset us = _\<close> u by simp
        then have "mset vs = mset (x # xs) - {#u#}" by (metis add_mset_remove_trivial)
        then show "mset vs = mset (remove1 y (x # xs))" using that by (simp only: mset_remove1)
      qed
      ultimately show ?thesis using u ys by auto
    qed
    ultimately show ?thesis using y1 ys by simp
  qed
qed simp

lemma finite_arrangements: "finite {us. mset us = mset xs}"
  by (rule finite_subset [OF _ finite_lists_length_eq [of "set xs" "length xs"]]) (auto dest: mset_eq_setD mset_eq_length)

function arrangements :: "'a::linorder list \<Rightarrow> 'a list list" where
  "arrangements xs = xs # (case next_permutation xs of None \<Rightarrow> [] | Some ys \<Rightarrow> arrangements ys)"
  by auto
termination
proof (relation "measure (\<lambda>xs. card {us. mset us = mset xs \<and> xs < us})")
  fix xs ys :: "'a::linorder list"
  assume "next_permutation xs = Some ys"
  from next_permutation_Some [OF this] have "{us. mset us = mset ys \<and> ys < us} \<subset> {us. mset us = mset xs \<and> xs < us}" by auto
  then show "(ys, xs) \<in> measure (\<lambda>xs. card {us. mset us = mset xs \<and> xs < us})"
    using finite_arrangements [of xs] by (auto intro: psubset_card_mono finite_subset)
qed simp

declare arrangements.simps [simp del]

lemma arrangements_set: "set (arrangements xs) = {us. mset us = mset xs \<and> xs \<le> us}"
proof (induction xs rule: arrangements.induct)
  case (1 xs)
  show ?case
  proof (cases "next_permutation xs")
    case None
    have "us = xs" if "mset us = mset xs" "xs \<le> us" for us using next_permutation_None [OF None that(1)] that(2) by simp
    with None show ?thesis by (subst arrangements.simps) auto
  next
    case (Some ys)
    note n = next_permutation_Some [OF Some]
    have step: "{us. mset us = mset xs \<and> xs \<le> us} = insert xs {us. mset us = mset ys \<and> ys \<le> us}"
    proof (rule set_eqI)
      fix us
      show "us \<in> {us. mset us = mset xs \<and> xs \<le> us} \<longleftrightarrow> us \<in> insert xs {us. mset us = mset ys \<and> ys \<le> us}"
        using n by (cases "us = xs") auto
    qed
    show ?thesis unfolding step using 1 [OF Some] Some by (subst arrangements.simps) simp
  qed
qed

lemma arrangements_sorted: "sorted xs \<Longrightarrow> set (arrangements xs) = {us. mset us = mset xs}"
  using sort_least [of _ xs] by (auto simp: arrangements_set sorted_sort_id)

end
