(* ===== verification/Travelling_Salesman.thy ===== *)
theory Travelling_Salesman
  imports Next_Permutation "HOL-Library.Word"
begin

text \<open>
  The travelling salesman problem (\<open>container/graph/travelling_salesman_problem.hpp\<close> and \<open>.cpp\<close>): the dynamic program
  of Held and Karp over subsets in the bits of an \<open>int\<close>. Indices and subsets are natural numbers, costs integers with
  the range of \<open>int\<close>. The exception of \<open>std::stoi\<close> is \<open>Inl Out_Of_Range\<close>; an index out of range or a signed overflow is
  \<open>Inl Undefined\<close>.
\<close>

unbundle bit_operations_syntax

section \<open>Loops and checked operations\<close>

datatype tsp_error = Out_Of_Range | Undefined

type_synonym 'a checked = "tsp_error + 'a"

definition proceed :: "'a checked \<Rightarrow> ('a \<Rightarrow> 'b checked) \<Rightarrow> 'b checked" where
  "proceed m f = (case m of Inl e \<Rightarrow> Inl e | Inr x \<Rightarrow> f x)"

lemma proceed_simps [simp]: "proceed (Inl e) f = Inl e" "proceed (Inr x) f = f x"
  by (simp_all add: proceed_def)

fun for_each :: "'a list \<Rightarrow> ('a \<Rightarrow> 's \<Rightarrow> 's checked) \<Rightarrow> 's \<Rightarrow> 's checked" where
  "for_each [] f s = Inr s"
| "for_each (x # xs) f s = proceed (f x s) (for_each xs f)"

text \<open>The rule for a loop: an invariant indexed by the elements it has been through.\<close>

lemma for_each_rule:
  assumes "P [] s"
    and "\<And>pre x post s. xs = pre @ x # post \<Longrightarrow> P pre s \<Longrightarrow> \<exists>s'. f x s = Inr s' \<and> P (pre @ [x]) s'"
  shows "\<exists>s'. for_each xs f s = Inr s' \<and> P xs s'"
proof -
  have "\<exists>s'. for_each post f s = Inr s' \<and> P xs s'" if "xs = pre @ post" "P pre s" for pre post s
    using that
  proof (induction post arbitrary: pre s)
    case (Cons x post)
    from assms(2) [OF Cons.prems] obtain s' where "f x s = Inr s'" "P (pre @ [x]) s'" by blast
    with Cons.IH [of "pre @ [x]" s'] Cons.prems(1) show ?case by simp
  qed simp
  from this [of "[]" xs s] assms(1) show ?thesis by simp
qed

definition int_max :: int where
  "int_max = 2147483647"

definition add_int :: "int \<Rightarrow> int \<Rightarrow> int checked" where
  "add_int a b = (if - int_max - 1 \<le> a + b \<and> a + b \<le> int_max then Inr (a + b) else Inl Undefined)"

section \<open>The graph\<close>

type_synonym matrix = "int list list"

definition cell :: "matrix \<Rightarrow> nat \<Rightarrow> nat \<Rightarrow> int checked" where
  "cell m i j = (if i < length m \<and> j < length (m ! i) then Inr (m ! i ! j) else Inl Undefined)"

definition put :: "matrix \<Rightarrow> nat \<Rightarrow> nat \<Rightarrow> int \<Rightarrow> matrix checked" where
  "put m i j v = (if i < length m \<and> j < length (m ! i) then Inr (m[i := (m ! i)[j := v]]) else Inl Undefined)"

definition complete_graph :: "nat \<Rightarrow> matrix" where
  "complete_graph n = replicate n (replicate n 0)"

definition add_edge :: "nat \<Rightarrow> nat \<Rightarrow> int \<Rightarrow> matrix \<Rightarrow> matrix checked" where
  "add_edge from_id to_id cost g = put g from_id to_id cost"

definition get_cost :: "matrix \<Rightarrow> nat \<Rightarrow> nat \<Rightarrow> int checked" where
  "get_cost g from_id to_id = cell g from_id to_id"

definition matrix_size :: "matrix \<Rightarrow> nat" where
  "matrix_size g = length g"

section \<open>The subsets of a size\<close>

text \<open>\<open>std::stoi\<close> of a string of digits.\<close>

definition stoi :: "string \<Rightarrow> nat checked" where
  "stoi str = (let n = foldl (\<lambda>n c. 10 * n + (of_char c - 48)) 0 str in
     if int n \<le> int_max then Inr n else Inl Out_Of_Range)"

fun convert_loop :: "nat \<Rightarrow> nat \<Rightarrow> nat \<Rightarrow> nat" where
  "convert_loop n factor acc =
     (if n = 0 then acc else convert_loop (n div 10) (factor * 2) (acc + (n mod 10) * factor))"

declare convert_loop.simps [simp del]

definition convert_binary :: "nat \<Rightarrow> nat" where
  "convert_binary n = convert_loop n 1 0"

fun convert_all :: "string list \<Rightarrow> nat list checked" where
  "convert_all [] = Inr []"
| "convert_all (str # strs) =
     proceed (stoi str) (\<lambda>n. proceed (convert_all strs) (\<lambda>ns. Inr (convert_binary n # ns)))"

definition combinations :: "nat \<Rightarrow> nat \<Rightarrow> nat list checked" where
  "combinations bits length_of =
     convert_all (arrangements (replicate (length_of - bits) (CHR ''0'') @ replicate bits (CHR ''1'')))"

section \<open>The dynamic program\<close>

definition not_in :: "nat \<Rightarrow> nat \<Rightarrow> bool" where
  "not_in node sub \<longleftrightarrow> push_bit node 1 AND sub = 0"

definition setup_memo :: "matrix \<Rightarrow> nat \<Rightarrow> nat \<Rightarrow> matrix \<Rightarrow> matrix checked" where
  "setup_memo g start n memo =
     for_each [0..<n] (\<lambda>node_id memo.
       if node_id \<noteq> start
       then proceed (get_cost g start node_id) (\<lambda>c. put memo node_id (push_bit start 1 OR push_bit node_id 1) c)
       else Inr memo) memo"

definition min_dist :: "matrix \<Rightarrow> matrix \<Rightarrow> nat \<Rightarrow> nat \<Rightarrow> nat \<Rightarrow> nat \<Rightarrow> int checked" where
  "min_dist g memo start n sub to_id =
     (let subset_without_next = sub XOR push_bit to_id 1 in
      for_each [0..<n] (\<lambda>e d.
        if e = start \<or> e = to_id \<or> not_in e sub then Inr d
        else proceed (cell memo e subset_without_next) (\<lambda>m.
             proceed (get_cost g e to_id) (\<lambda>c.
             proceed (add_int m c) (\<lambda>new_dist. Inr (min d new_dist))))) int_max)"

definition solve_subset :: "matrix \<Rightarrow> nat \<Rightarrow> nat \<Rightarrow> nat \<Rightarrow> matrix \<Rightarrow> matrix checked" where
  "solve_subset g start n sub memo =
     for_each [0..<n] (\<lambda>to_id memo.
       if to_id = start \<or> not_in to_id sub then Inr memo
       else proceed (min_dist g memo start n sub to_id) (put memo to_id sub)) memo"

definition solve_table :: "matrix \<Rightarrow> nat \<Rightarrow> nat \<Rightarrow> matrix \<Rightarrow> matrix checked" where
  "solve_table g start n memo =
     for_each [3..<n + 1] (\<lambda>r memo.
       proceed (combinations r n) (\<lambda>subsets.
         for_each subsets (\<lambda>sub memo.
           if not_in start sub then Inr memo else solve_subset g start n sub memo) memo)) memo"

definition find_min_cost :: "matrix \<Rightarrow> matrix \<Rightarrow> nat \<Rightarrow> nat \<Rightarrow> int checked" where
  "find_min_cost g memo start n =
     (let end_state = push_bit n 1 - 1 in
      for_each [0..<n] (\<lambda>e min_tour_cost.
        if e \<noteq> start
        then proceed (cell memo e end_state) (\<lambda>m.
             proceed (get_cost g e start) (\<lambda>c.
             proceed (add_int m c) (\<lambda>tour_cost. Inr (min min_tour_cost tour_cost))))
        else Inr min_tour_cost) int_max)"

text \<open>The inner loop of \<open>FindOptimalTour\<close>; the index -1 is \<open>None\<close>.\<close>

definition find_index :: "matrix \<Rightarrow> matrix \<Rightarrow> nat \<Rightarrow> nat \<Rightarrow> nat \<Rightarrow> nat \<Rightarrow> nat option checked" where
  "find_index g memo start n last_index state =
     for_each [0..<n] (\<lambda>j index.
       if j = start \<or> not_in j state then Inr index
       else let i = (case index of None \<Rightarrow> j | Some i \<Rightarrow> i) in
         proceed (cell memo i state) (\<lambda>m. proceed (get_cost g i last_index) (\<lambda>c. proceed (add_int m c) (\<lambda>prev_dist.
         proceed (cell memo j state) (\<lambda>m. proceed (get_cost g j last_index) (\<lambda>c. proceed (add_int m c) (\<lambda>new_dist.
         Inr (Some (if new_dist < prev_dist then j else i))))))))) None"

definition find_optimal_tour :: "matrix \<Rightarrow> matrix \<Rightarrow> nat \<Rightarrow> nat \<Rightarrow> nat list checked" where
  "find_optimal_tour g memo start n =
     proceed (for_each (rev [1..<n]) (\<lambda>i (last_index, state, tour).
         proceed (find_index g memo start n last_index state) (\<lambda>index.
           case index of
             None \<Rightarrow> Inl Undefined
           | Some index \<Rightarrow> Inr (index, state XOR push_bit index 1, tour[i := index])))
         (start, push_bit n 1 - 1, replicate (n + 1) 0))
       (\<lambda>(_, _, tour). Inr (tour[0 := start, length tour - 1 := start]))"

record tsp_result =
  tour :: "nat list"
  min_cost :: int

definition solve :: "matrix \<Rightarrow> nat \<Rightarrow> tsp_result checked" where
  "solve g start =
     (let n = matrix_size g; memo = replicate n (replicate (push_bit n 1) 0) in
      proceed (setup_memo g start n memo) (\<lambda>memo.
      proceed (solve_table g start n memo) (\<lambda>memo.
      proceed (find_optimal_tour g memo start n) (\<lambda>tour.
      proceed (find_min_cost g memo start n) (\<lambda>min_cost.
      Inr \<lparr>tour = tour, min_cost = min_cost\<rparr>)))))"

end
