(* ===== verification/Travelling_Salesman_Proofs.thy ===== *)
theory Travelling_Salesman_Proofs
  imports Travelling_Salesman
begin

text \<open>
  The travelling salesman's tour is optimal: the subsets are enumerated completely, the table holds the least cost of
  every path, and the walk back through the table finds a tour of the least cost.
\<close>

section \<open>The subsets\<close>

text \<open>The bits of a subset of the first \<open>n\<close> nodes.\<close>

definition code :: "nat \<Rightarrow> nat set \<Rightarrow> nat" where
  "code n A = horner_sum of_bool 2 (map (\<lambda>i. i \<in> A) [0..<n])"

lemma bit_code: "bit (code n A) i \<longleftrightarrow> i < n \<and> i \<in> A"
  by (auto simp: code_def bit_horner_sum_bit_iff)

lemma code_less: "code n A < 2 ^ n"
proof -
  have "horner_sum of_bool 2 (map (\<lambda>i. i \<in> A) [0..<n]) < (2::nat) ^ length (map (\<lambda>i. i \<in> A) [0..<n])"
    by (rule horner_sum_of_bool_2_less)
  then show ?thesis by (simp add: code_def)
qed

lemma code_bits: "(\<And>i. bit m i \<Longrightarrow> i < n) \<Longrightarrow> code n {i. bit m i} = m"
  by (auto simp: bit_eq_iff bit_code)

lemma code_inj: "code n A = code n B \<Longrightarrow> A \<subseteq> {..<n} \<Longrightarrow> B \<subseteq> {..<n} \<Longrightarrow> A = B"
  using bit_code [of n A] bit_code [of n B] by (metis lessThan_iff subsetD subsetI subset_antisym)

lemma not_in_code: "i < n \<Longrightarrow> not_in i (code n A) \<longleftrightarrow> i \<notin> A"
  by (simp add: not_in_def and.commute [of "2 ^ i"] and_exp_eq_0_iff_not_bit bit_code)

lemma code_xor: "i < n \<Longrightarrow> i \<in> A \<Longrightarrow> code n A XOR push_bit i 1 = code n (A - {i})"
  by (rule bit_eqI) (auto simp: bit_code bit_xor_iff bit_exp_iff)

lemma code_pair: "i < n \<Longrightarrow> j < n \<Longrightarrow> push_bit i 1 OR push_bit j 1 = code n {i, j}"
  by (rule bit_eqI) (auto simp: bit_code bit_or_iff bit_exp_iff)

lemma code_full: "push_bit n 1 - 1 = code n {..<n}"
proof -
  have "push_bit n 1 - 1 = (Bit_Operations.mask n :: nat)" by (simp add: mask_eq_exp_minus_1)
  then show ?thesis by (simp add: bit_eq_iff bit_code bit_mask_iff)
qed

subsection \<open>Strings of binary digits\<close>

definition decimal :: "string \<Rightarrow> nat" where
  "decimal str = foldl (\<lambda>n c. 10 * n + (of_char c - 48)) 0 str"

definition digits :: "string \<Rightarrow> bool" where
  "digits str \<longleftrightarrow> set str \<subseteq> {CHR ''0'', CHR ''1''}"

fun digit_sum :: "nat \<Rightarrow> nat" where
  "digit_sum n = (if n = 0 then 0 else n mod 10 + 2 * digit_sum (n div 10))"

declare digit_sum.simps [simp del]

lemma convert_loop_sum: "convert_loop n f t = t + f * digit_sum n"
proof (induction n f t rule: convert_loop.induct)
  case (1 n f t)
  show ?case
  proof (cases "n = 0")
    case True
    then show ?thesis by (simp add: convert_loop.simps digit_sum.simps)
  next
    case False
    then show ?thesis using 1
      by (subst convert_loop.simps, subst digit_sum.simps) (simp add: algebra_simps)
  qed
qed

lemma digit_sum_step: "d < 10 \<Longrightarrow> digit_sum (10 * m + d) = d + 2 * digit_sum m"
  by (cases "10 * m + d = 0") (subst digit_sum.simps; simp add: digit_sum.simps)+

lemma convert_decimal:
  "digits str \<Longrightarrow> convert_binary (decimal str) = horner_sum of_bool 2 (map (\<lambda>c. c = CHR ''1'') (rev str))"
proof (induction str rule: rev_induct)
  case Nil
  then show ?case by (simp add: convert_binary_def decimal_def convert_loop.simps)
next
  case (snoc c str)
  then have c: "c = CHR ''0'' \<or> c = CHR ''1''" "digits str" by (auto simp: digits_def)
  have "decimal (str @ [c]) = 10 * decimal str + of_bool (c = CHR ''1'')" using c(1) by (auto simp: decimal_def)
  then show ?case using snoc.IH [OF c(2)] digit_sum_step [of "of_bool (c = CHR ''1'')" "decimal str"]
    by (simp add: convert_binary_def convert_loop_sum)
qed

lemma decimal_bound: "digits str \<Longrightarrow> 9 * decimal str + 1 \<le> 10 ^ length str"
proof (induction str rule: rev_induct)
  case (snoc c str)
  then have c: "c = CHR ''0'' \<or> c = CHR ''1''" "digits str" by (auto simp: digits_def)
  have "decimal (str @ [c]) = 10 * decimal str + of_bool (c = CHR ''1'')" using c(1) by (auto simp: decimal_def)
  then show ?case using snoc.IH [OF c(2)] by (auto simp: of_bool_def)
qed (simp add: decimal_def)

lemma stoi_digits: "stoi str = (if int (decimal str) \<le> int_max then Inr (decimal str) else Inl Out_Of_Range)"
  by (simp add: stoi_def decimal_def Let_def)

lemma stoi_small:
  assumes "digits str" "length str \<le> 10"
  shows "stoi str = Inr (decimal str)"
proof -
  have "(10::nat) ^ length str \<le> 10 ^ 10" using assms(2) by (rule power_increasing) simp
  with decimal_bound [OF assms(1)] show ?thesis by (simp add: stoi_digits int_max_def)
qed

lemma convert_all_ok:
  "\<forall>str \<in> set strs. stoi str = Inr (decimal str) \<Longrightarrow> convert_all strs = Inr (map (convert_binary \<circ> decimal) strs)"
  by (induction strs) auto

lemma convert_all_throws:
  "str \<in> set strs \<Longrightarrow> stoi str = Inl Out_Of_Range \<Longrightarrow> convert_all strs = Inl Out_Of_Range"
proof (induction strs)
  case (Cons s strs)
  have "stoi s = Inr (decimal s) \<or> stoi s = Inl Out_Of_Range" by (simp add: stoi_digits)
  then show ?case
  proof
    assume s: "stoi s = Inr (decimal s)"
    with Cons.prems have "str \<in> set strs" by auto
    with Cons.IH [OF _ Cons.prems(2)] s show ?thesis by simp
  qed simp
qed simp

lemma digits_count: "digits str \<Longrightarrow> count_list str (CHR ''0'') + count_list str (CHR ''1'') = length str"
  unfolding digits_def by (induction str) auto

lemma binary_strings:
  assumes "r \<le> n"
  shows "set (arrangements (replicate (n - r) (CHR ''0'') @ replicate r (CHR ''1''))) =
    {str. digits str \<and> length str = n \<and> count_list str (CHR ''1'') = r}"
proof -
  let ?str = "replicate (n - r) (CHR ''0'') @ replicate r (CHR ''1'')"
  have "sorted ?str" by (simp add: sorted_append sorted_replicate less_eq_char_def)
  then have "set (arrangements ?str) = {us. mset us = mset ?str}" by (rule arrangements_sorted)
  also have "\<dots> = {str. digits str \<and> length str = n \<and> count_list str (CHR ''1'') = r}"
  proof (intro Collect_cong iffI)
    fix us
    assume us: "mset us = mset ?str"
    have "set us \<subseteq> {CHR ''0'', CHR ''1''}" using mset_eq_setD [OF us] by auto
    moreover have "length us = n" using mset_eq_length [OF us] assms by simp
    moreover have "count_list us (CHR ''1'') = r"
      using arg_cong [OF us, of "\<lambda>m. count m (CHR ''1'')"] by (simp add: count_mset)
    ultimately show "digits us \<and> length us = n \<and> count_list us (CHR ''1'') = r" by (simp add: digits_def)
  next
    fix us
    assume us: "digits us \<and> length us = n \<and> count_list us (CHR ''1'') = r"
    note total = digits_count [OF us [THEN conjunct1]]
    show "mset us = mset ?str"
    proof (rule multiset_eqI)
      fix c
      consider "c = CHR ''0''" | "c = CHR ''1''" | "c \<notin> {CHR ''0'', CHR ''1''}" by blast
      then show "count (mset us) c = count (mset ?str) c"
      proof cases
        case 3
        then have "c \<notin> set us" using us by (auto simp: digits_def)
        with 3 show ?thesis by (simp add: count_mset count_list_0_iff)
      qed (use us total in \<open>simp_all add: count_mset\<close>)
    qed
  qed
  finally show ?thesis .
qed

text \<open>The string of a set of nodes.\<close>

definition string_of :: "nat \<Rightarrow> nat set \<Rightarrow> string" where
  "string_of n A = rev (map (\<lambda>i. if i \<in> A then CHR ''1'' else CHR ''0'') [0..<n])"

lemma string_of_props:
  assumes "A \<subseteq> {..<n}"
  shows "digits (string_of n A)" "length (string_of n A) = n" "count_list (string_of n A) (CHR ''1'') = card A"
    "horner_sum of_bool 2 (map (\<lambda>c. c = CHR ''1'') (rev (string_of n A))) = code n A"
proof -
  have "count_list (map (\<lambda>i. if i \<in> A then CHR ''1'' else CHR ''0'') xs) (CHR ''1'') = card (A \<inter> set xs)" if "distinct xs" for xs
    using that by (induction xs) (auto simp: Int_insert_right)
  from this [of "[0..<n]"] assms show "count_list (string_of n A) (CHR ''1'') = card A"
    by (simp add: string_of_def Int_absorb2 atLeast0LessThan flip: count_mset)
  show "horner_sum of_bool 2 (map (\<lambda>c. c = CHR ''1'') (rev (string_of n A))) = code n A"
    by (simp add: string_of_def code_def comp_def if_distrib [of "\<lambda>c. c = CHR ''1''"] cong: if_cong)
qed (auto simp: string_of_def digits_def)

lemma string_of_all:
  assumes "digits str" "length str = n"
  shows "str = string_of n {i. i < n \<and> rev str ! i = CHR ''1''}"
proof -
  have "rev str ! i = (if rev str ! i = CHR ''1'' then CHR ''1'' else CHR ''0'')" if "i < n" for i
    using assms that nth_mem [of i "rev str"] by (auto simp: digits_def)
  then have "rev str = map (\<lambda>i. if i < n \<and> rev str ! i = CHR ''1'' then CHR ''1'' else CHR ''0'') [0..<n]"
    using assms(2) by (intro nth_equalityI) auto
  then show ?thesis unfolding string_of_def by (simp add: rev_swap)
qed

lemma combinations_complete:
  assumes "r \<le> n" "n \<le> 10"
  shows "\<exists>ss. combinations r n = Inr ss \<and> set ss = {code n A | A. A \<subseteq> {..<n} \<and> card A = r}"
proof -
  let ?strs = "arrangements (replicate (n - r) (CHR ''0'') @ replicate r (CHR ''1''))"
  note strs = binary_strings [OF assms(1)]
  have "combinations r n = Inr (map (convert_binary \<circ> decimal) ?strs)"
    unfolding combinations_def by (rule convert_all_ok) (use strs assms(2) in \<open>auto intro: stoi_small\<close>)
  moreover have "convert_binary (decimal (string_of n A)) = code n A" if "A \<subseteq> {..<n}" for A
    using string_of_props [OF that] convert_decimal by simp
  then have "(convert_binary \<circ> decimal) ` {str. digits str \<and> length str = n \<and> count_list str (CHR ''1'') = r} =
      {code n A | A. A \<subseteq> {..<n} \<and> card A = r}"
  proof (intro equalityI subsetI)
    fix m
    assume conv: "\<And>A. A \<subseteq> {..<n} \<Longrightarrow> convert_binary (decimal (string_of n A)) = code n A"
      and "m \<in> (convert_binary \<circ> decimal) ` {str. digits str \<and> length str = n \<and> count_list str (CHR ''1'') = r}"
    then obtain str where str: "digits str" "length str = n" "count_list str (CHR ''1'') = r" "m = convert_binary (decimal str)" by auto
    let ?A = "{i. i < n \<and> rev str ! i = CHR ''1''}"
    have A: "?A \<subseteq> {..<n}" by auto
    have "card ?A = r" using string_of_props(3) [OF A] str(3) string_of_all [OF str(1,2)] by simp
    with conv [OF A] str(4) string_of_all [OF str(1,2)] A show "m \<in> {code n A | A. A \<subseteq> {..<n} \<and> card A = r}" by auto
  next
    fix m
    assume conv: "\<And>A. A \<subseteq> {..<n} \<Longrightarrow> convert_binary (decimal (string_of n A)) = code n A"
      and "m \<in> {code n A | A. A \<subseteq> {..<n} \<and> card A = r}"
    then obtain A where A: "A \<subseteq> {..<n}" "card A = r" "m = code n A" by auto
    with conv [OF A(1)] string_of_props [OF A(1)]
    show "m \<in> (convert_binary \<circ> decimal) ` {str. digits str \<and> length str = n \<and> count_list str (CHR ''1'') = r}"
      by (intro image_eqI [of _ _ "string_of n A"]) simp_all
  qed
  ultimately show ?thesis using strs by simp
qed

lemma combinations_throw:
  assumes "0 < r" "r \<le> n" "11 \<le> n"
  shows "combinations r n = Inl Out_Of_Range"
proof -
  let ?str = "replicate r (CHR ''1'') @ replicate (n - r) (CHR ''0'')"
  have fold: "foldl (\<lambda>n c. 10 * n + (of_char c - 48)) k str \<ge> k * 10 ^ length str" for k :: nat and str :: string
  proof (induction str arbitrary: k)
    case (Cons c str)
    have "k * 10 ^ length (c # str) \<le> (10 * k + (of_char c - 48)) * 10 ^ length str" by (simp add: algebra_simps)
    also have "\<dots> \<le> foldl (\<lambda>n c. 10 * n + (of_char c - 48)) (10 * k + (of_char c - 48)) str" by (rule Cons.IH)
    finally show ?case by simp
  qed simp
  obtain r' where "r = Suc r'" using assms(1) by (cases r) auto
  then have str: "?str = CHR ''1'' # replicate r' (CHR ''1'') @ replicate (n - r) (CHR ''0'')" by simp
  have "10 ^ 10 \<le> (10::nat) ^ (n - 1)" using assms(3) by (intro power_increasing) auto
  also have "\<dots> = 10 ^ length (replicate r' (CHR ''1'') @ replicate (n - r) (CHR ''0''))" using assms(2) \<open>r = Suc r'\<close> by simp
  also have "\<dots> \<le> decimal ?str" unfolding decimal_def str using fold [of 1 "replicate r' (CHR ''1'') @ replicate (n - r) (CHR ''0'')"] by simp
  finally have "stoi ?str = Inl Out_Of_Range" by (simp add: stoi_digits int_max_def)
  moreover have "?str \<in> set (arrangements (replicate (n - r) (CHR ''0'') @ replicate r (CHR ''1'')))"
    unfolding binary_strings [OF assms(2)] using assms(2) by (auto simp: digits_def simp flip: count_mset)
  ultimately show ?thesis unfolding combinations_def by (intro convert_all_throws) auto
qed

section \<open>Least costs\<close>

text \<open>The cost of walking from a node along a list of nodes.\<close>

fun path_cost :: "matrix \<Rightarrow> nat \<Rightarrow> nat list \<Rightarrow> int" where
  "path_cost g a [] = 0"
| "path_cost g a (b # bs) = g ! a ! b + path_cost g b bs"

text \<open>\<open>v\<close> is the least cost of a path from \<open>s\<close> through exactly the nodes of \<open>A\<close>, each once, to \<open>e\<close>.\<close>

definition least_cost :: "matrix \<Rightarrow> nat \<Rightarrow> nat set \<Rightarrow> nat \<Rightarrow> int \<Rightarrow> bool" where
  "least_cost g s A e v \<longleftrightarrow> (\<exists>p. distinct p \<and> set p = A \<and> path_cost g s (p @ [e]) = v) \<and>
     (\<forall>p. distinct p \<longrightarrow> set p = A \<longrightarrow> v \<le> path_cost g s (p @ [e]))"

lemma path_cost_append: "path_cost g a (p @ b # q) = path_cost g a (p @ [b]) + path_cost g b q"
  by (induction p arbitrary: a) auto

lemma least_cost_empty: "least_cost g s {} e (g ! s ! e)"
  by (simp add: least_cost_def)

lemma least_cost_unique: "least_cost g s A e v \<Longrightarrow> least_cost g s A e w \<Longrightarrow> v = w"
  unfolding least_cost_def by (metis order_antisym)

lemma least_cost_step:
  assumes "f \<in> A" "\<And>f. f \<in> A \<Longrightarrow> least_cost g s (A - {f}) f (D f)" "\<And>f'. f' \<in> A \<Longrightarrow> D f + g ! f ! e \<le> D f' + g ! f' ! e"
  shows "least_cost g s A e (D f + g ! f ! e)"
  unfolding least_cost_def
proof (intro conjI allI impI)
  obtain p where p: "distinct p" "set p = A - {f}" "path_cost g s (p @ [f]) = D f"
    using assms(2) [OF assms(1)] by (auto simp: least_cost_def)
  have "path_cost g s ((p @ [f]) @ [e]) = D f + g ! f ! e" using p(3) path_cost_append [of g s p f "[e]"] by simp
  then show "\<exists>p. distinct p \<and> set p = A \<and> path_cost g s (p @ [e]) = D f + g ! f ! e"
    using p assms(1) by (intro exI [of _ "p @ [f]"]) auto
next
  fix p
  assume p: "distinct p" "set p = A"
  then have "p \<noteq> []" using assms(1) by auto
  then obtain q f' where q: "p = q @ [f']" by (cases p rule: rev_cases) auto
  have "D f' \<le> path_cost g s (q @ [f'])"
    using assms(2) [of f'] p q by (auto simp: least_cost_def)
  then have "D f' + g ! f' ! e \<le> path_cost g s (p @ [e])" using q path_cost_append [of g s q f' "[e]"] by simp
  with assms(3) [of f'] p q show "D f + g ! f ! e \<le> path_cost g s (p @ [e])" by force
qed

text \<open>Costs are bounded, so that no sum overflows.\<close>

definition bounded :: "matrix \<Rightarrow> int \<Rightarrow> bool" where
  "bounded g b \<longleftrightarrow> 0 \<le> b \<and> (\<forall>row \<in> set g. length row = length g \<and> (\<forall>c \<in> set row. \<bar>c\<bar> \<le> b)) \<and> int (length g) * b \<le> int_max"

lemma boundedD: "bounded g b \<Longrightarrow> i < length g \<Longrightarrow> j < length g \<Longrightarrow> \<bar>g ! i ! j\<bar> \<le> b"
  by (metis bounded_def nth_mem)

lemma bounded_cell: "bounded g b \<Longrightarrow> i < length g \<Longrightarrow> j < length g \<Longrightarrow> get_cost g i j = Inr (g ! i ! j)"
  by (auto simp: bounded_def get_cost_def cell_def)

lemma path_cost_bound:
  "bounded g b \<Longrightarrow> a < length g \<Longrightarrow> set p \<subseteq> {..<length g} \<Longrightarrow> \<bar>path_cost g a p\<bar> \<le> int (length p) * b"
proof (induction p arbitrary: a)
  case (Cons x p)
  then have "\<bar>g ! a ! x\<bar> \<le> b" "\<bar>path_cost g x p\<bar> \<le> int (length p) * b" by (auto intro: boundedD)
  then show ?case by (simp add: algebra_simps)
qed simp

lemma least_cost_bound:
  assumes "least_cost g s A e v" "bounded g b" "A \<subseteq> {..<length g}" "e < length g" "s < length g"
  shows "\<bar>v\<bar> \<le> (int (card A) + 1) * b"
proof -
  obtain p where p: "distinct p" "set p = A" "path_cost g s (p @ [e]) = v" using assms(1) by (auto simp: least_cost_def)
  have "\<bar>v\<bar> \<le> int (length (p @ [e])) * b" using path_cost_bound [OF assms(2,5), of "p @ [e]"] p assms(3,4) by auto
  then show ?thesis using p(1,2) distinct_card by (simp add: algebra_simps) fastforce
qed

text \<open>Adding an edge to the least cost of a path that leaves two nodes out.\<close>

lemma add_ok:
  assumes "least_cost g s (A - {f}) f v" "f \<in> A" "bounded g b" "A \<subseteq> {..<length g} - {s}" "e < length g" "s < length g"
  shows "add_int v (g ! f ! e) = Inr (v + g ! f ! e)" "v + g ! f ! e \<le> int_max"
proof -
  have fin: "finite A" using assms(4) finite_subset by blast
  have "card A < card {..<length g}" using assms(4,6) by (intro psubset_card_mono) auto
  then have "card (A - {f}) + 2 \<le> length g" using assms(2) fin card_gt_0_iff [of A] by (auto simp: card_Diff_singleton)
  then have c: "int (card (A - {f})) + 2 \<le> int (length g)" by linarith
  have f: "f < length g" using assms(2,4) by auto
  have "\<bar>v\<bar> \<le> (int (card (A - {f})) + 1) * b"
    by (rule least_cost_bound [OF assms(1,3) _ f assms(6)]) (use assms(4) in auto)
  moreover have "\<bar>g ! f ! e\<bar> \<le> b" by (rule boundedD [OF assms(3) f assms(5)])
  moreover have "(int (card (A - {f})) + 2) * b \<le> int (length g) * b"
    using c assms(3) by (intro mult_right_mono) (auto simp: bounded_def)
  moreover have "int (length g) * b \<le> int_max" using assms(3) by (simp add: bounded_def)
  ultimately have "\<bar>v + g ! f ! e\<bar> \<le> int_max" by (simp add: algebra_simps)
  then show "add_int v (g ! f ! e) = Inr (v + g ! f ! e)" "v + g ! f ! e \<le> int_max" by (auto simp: add_int_def)
qed

section \<open>The table\<close>

definition shaped :: "nat \<Rightarrow> matrix \<Rightarrow> bool" where
  "shaped n memo \<longleftrightarrow> length memo = n \<and> (\<forall>i < n. length (memo ! i) = 2 ^ n)"

text \<open>The entries for a path from \<open>s\<close> through \<open>A\<close> to \<open>e\<close>.\<close>

definition entry :: "nat \<Rightarrow> nat \<Rightarrow> nat set \<Rightarrow> nat" where
  "entry n s A = code n (insert s A)"

definition correct_entry :: "matrix \<Rightarrow> nat \<Rightarrow> matrix \<Rightarrow> nat set \<Rightarrow> nat \<Rightarrow> bool" where
  "correct_entry g s memo A e \<longleftrightarrow> least_cost g s (A - {e}) e (memo ! e ! entry (length g) s A)"

definition table_ok :: "matrix \<Rightarrow> nat \<Rightarrow> nat \<Rightarrow> matrix \<Rightarrow> bool" where
  "table_ok g s k memo \<longleftrightarrow> shaped (length g) memo \<and>
     (\<forall>A e. A \<subseteq> {..<length g} - {s} \<longrightarrow> e \<in> A \<longrightarrow> card A + 1 \<le> k \<longrightarrow> correct_entry g s memo A e)"

lemma shaped_cell: "shaped n memo \<Longrightarrow> i < n \<Longrightarrow> cell memo i (code n A) = Inr (memo ! i ! code n A)"
  using code_less [of n A] by (simp add: shaped_def cell_def)

lemma shaped_put:
  "shaped n memo \<Longrightarrow> i < n \<Longrightarrow> \<exists>memo'. put memo i (code n A) v = Inr memo' \<and> shaped n memo' \<and>
     memo' ! i ! code n A = v \<and> (\<forall>e j. e \<noteq> i \<or> j \<noteq> code n A \<longrightarrow> memo' ! e ! j = memo ! e ! j)"
  using code_less [of n A]
  by (auto simp: shaped_def put_def nth_list_update)

lemma entry_inj: "A \<subseteq> {..<n} - {s} \<Longrightarrow> B \<subseteq> {..<n} - {s} \<Longrightarrow> s < n \<Longrightarrow> entry n s A = entry n s B \<Longrightarrow> A = B"
  using code_inj [of n "insert s A" "insert s B"] by (auto simp: entry_def)

lemma min_loop:
  assumes f: "\<And>e d. e \<in> set xs \<Longrightarrow> f e d = (if good e then Inr (min d (v e)) else Inr d)"
    and ex: "\<exists>e \<in> set xs. good e" and small: "\<And>e. e \<in> set xs \<Longrightarrow> good e \<Longrightarrow> v e \<le> int_max"
  shows "\<exists>e \<in> set xs. good e \<and> for_each xs f int_max = Inr (v e) \<and> (\<forall>e' \<in> set xs. good e' \<longrightarrow> v e \<le> v e')"
proof -
  define P where "P pre d \<longleftrightarrow> (\<forall>e \<in> set pre. good e \<longrightarrow> d \<le> v e) \<and> (d = int_max \<or> (\<exists>e \<in> set pre. good e \<and> d = v e))" for pre d
  have "\<exists>d. for_each xs f int_max = Inr d \<and> P xs d"
  proof (rule for_each_rule)
    fix pre x post d
    assume x: "xs = pre @ x # post" "P pre d"
    then have "f x d = (if good x then Inr (min d (v x)) else Inr d)" using f by simp
    with x(2) show "\<exists>d'. f x d = Inr d' \<and> P (pre @ [x]) d'" by (auto simp: P_def min_def)
  qed (simp add: P_def)
  then obtain d where d: "for_each xs f int_max = Inr d" "P xs d" by blast
  obtain e where "e \<in> set xs" "good e" "d = v e"
    using d(2) ex small unfolding P_def by (metis order_antisym)
  with d show ?thesis by (auto simp: P_def)
qed

lemma entry_member: "A \<subseteq> {..<n} - {s} \<Longrightarrow> e < n \<Longrightarrow> s < n \<Longrightarrow> e = s \<or> not_in e (entry n s A) \<longleftrightarrow> e \<notin> A"
  by (auto simp: entry_def not_in_code)

lemma entry_remove: "A \<subseteq> {..<n} - {s} \<Longrightarrow> e \<in> A \<Longrightarrow> entry n s A XOR push_bit e 1 = entry n s (A - {e})"
  using code_xor [of e n "insert s A"] by (auto simp: entry_def insert_Diff_if split: if_splits)

lemma entry_cell: "shaped n memo \<Longrightarrow> e < n \<Longrightarrow> cell memo e (entry n s A) = Inr (memo ! e ! entry n s A)"
  by (simp add: entry_def shaped_cell)

text \<open>The sum of an entry and an edge.\<close>

lemma entry_edge:
  assumes "A \<subseteq> {..<n} - {s}" "f \<in> A" "e < n" "shaped n memo" "correct_entry g s memo A f"
    and bounded_g: "bounded g b" and start_in: "s < n" and size_n: "n = length g"
  shows "proceed (cell memo f (entry n s A)) (\<lambda>m. proceed (get_cost g f e) (\<lambda>c. proceed (add_int m c) k)) =
      k (memo ! f ! entry n s A + g ! f ! e)"
    and "memo ! f ! entry n s A + g ! f ! e \<le> int_max"
proof -
  have f: "f < n" using assms(1,2) by auto
  have lc: "least_cost g s (A - {f}) f (memo ! f ! entry n s A)" using assms(5) size_n by (simp add: correct_entry_def)
  from add_ok [OF lc assms(2) bounded_g, of e] assms(1,3) start_in size_n
  have add: "add_int (memo ! f ! entry n s A) (g ! f ! e) = Inr (memo ! f ! entry n s A + g ! f ! e)"
    "memo ! f ! entry n s A + g ! f ! e \<le> int_max" by auto
  show "memo ! f ! entry n s A + g ! f ! e \<le> int_max" by (rule add(2))
  show "proceed (cell memo f (entry n s A)) (\<lambda>m. proceed (get_cost g f e) (\<lambda>c. proceed (add_int m c) k)) =
      k (memo ! f ! entry n s A + g ! f ! e)"
    using bounded_cell [OF bounded_g, of f e] assms(3) f size_n add(1) entry_cell [OF assms(4) f] by simp
qed

lemma min_dist_ok:
  assumes A: "A \<subseteq> {..<n} - {s}" "e \<in> A" "A - {e} \<noteq> {}"
    and memo: "shaped n memo" "\<And>f. f \<in> A - {e} \<Longrightarrow> correct_entry g s memo (A - {e}) f"
    and bounded_g: "bounded g b" and start_in: "s < n" and size_n: "n = length g"
  shows "\<exists>v. min_dist g memo s n (entry n s A) e = Inr v \<and> least_cost g s (A - {e}) e v"
proof -
  let ?B = "A - {e}"
  let ?v = "\<lambda>f. memo ! f ! entry n s ?B + g ! f ! e"
  have B: "?B \<subseteq> {..<n} - {s}" "e < n" using A by auto
  note step = entry_edge(1) [OF B(1) _ B(2) memo(1) memo(2) bounded_g start_in size_n]
  have "\<exists>f \<in> set [0..<n]. f \<in> ?B \<and> min_dist g memo s n (entry n s A) e = Inr (?v f) \<and> (\<forall>f' \<in> set [0..<n]. f' \<in> ?B \<longrightarrow> ?v f \<le> ?v f')"
    unfolding min_dist_def Let_def entry_remove [OF A(1,2)]
  proof (rule min_loop)
    fix f d
    assume "f \<in> set [0..<n]"
    then have member: "f = s \<or> f = e \<or> not_in f (entry n s A) \<longleftrightarrow> f \<notin> ?B" using entry_member [OF A(1) _ start_in, of f] by auto
    show "(if f = s \<or> f = e \<or> not_in f (entry n s A) then Inr d
        else proceed (cell memo f (entry n s (A - {e}))) (\<lambda>m. proceed (get_cost g f e) (\<lambda>c.
          proceed (add_int m c) (\<lambda>new_dist. Inr (min d new_dist))))) =
        (if f \<in> ?B then Inr (min d (?v f)) else Inr d)"
    proof (cases "f \<in> ?B")
      case True
      then have "\<not> (f = s \<or> f = e \<or> not_in f (entry n s A))" using member by blast
      then show ?thesis unfolding if_P [OF True] by (simp only: if_False step [OF True True])
    next
      case False
      then have "f = s \<or> f = e \<or> not_in f (entry n s A)" using member by blast
      then show ?thesis unfolding if_not_P [OF False] by (simp only: if_True)
    qed
  next
    obtain f where f: "f \<in> ?B" using A(3) by blast
    then have "f < n" using B(1) by auto
    with f show "\<exists>f \<in> set [0..<n]. f \<in> ?B" by (intro bexI [of _ f]) simp_all
  next
    fix f
    assume "f \<in> ?B"
    then show "?v f \<le> int_max" using entry_edge(2) [OF B(1) _ B(2) memo(1) memo(2) bounded_g start_in size_n] by blast
  qed
  then obtain f where f: "f \<in> ?B" "min_dist g memo s n (entry n s A) e = Inr (?v f)" "\<forall>f' \<in> set [0..<n]. f' \<in> ?B \<longrightarrow> ?v f \<le> ?v f'" by blast
  have "least_cost g s ?B e (?v f)"
  proof (rule least_cost_step [OF f(1), where D = "\<lambda>f. memo ! f ! entry n s ?B"])
    show "least_cost g s (?B - {f}) f (memo ! f ! entry n s ?B)" if "f \<in> ?B" for f
      using memo(2) [OF that] size_n by (simp add: correct_entry_def)
    show "?v f \<le> ?v f'" if "f' \<in> ?B" for f' using f(3) B(1) that by auto
  qed
  with f(2) show ?thesis by blast
qed

lemma correct_entry_cong:
  "memo' ! e ! entry (length g) s A = memo ! e ! entry (length g) s A \<Longrightarrow> correct_entry g s memo' A e = correct_entry g s memo A e"
  by (simp add: correct_entry_def)

lemma solve_subset_ok:
  assumes A: "A \<subseteq> {..<n} - {s}" "2 \<le> card A" and memo: "shaped n memo"
    and sub: "\<And>B f. B \<subset> A \<Longrightarrow> card B + 1 = card A \<Longrightarrow> f \<in> B \<Longrightarrow> correct_entry g s memo B f"
    and bounded_g: "bounded g b" and start_in: "s < n" and size_n: "n = length g"
  shows "\<exists>memo'. solve_subset g s n (entry n s A) memo = Inr memo' \<and> shaped n memo' \<and>
    (\<forall>e j. j \<noteq> entry n s A \<longrightarrow> memo' ! e ! j = memo ! e ! j) \<and> (\<forall>e \<in> A. correct_entry g s memo' A e)"
proof -
  define P where "P pre m \<longleftrightarrow> shaped n m \<and> (\<forall>e j. j \<noteq> entry n s A \<longrightarrow> m ! e ! j = memo ! e ! j) \<and>
    (\<forall>e \<in> set pre. e \<in> A \<longrightarrow> correct_entry g s m A e)" for pre m
  have "\<exists>m. solve_subset g s n (entry n s A) memo = Inr m \<and> P [0..<n] m"
    unfolding solve_subset_def
  proof (rule for_each_rule)
    show "P [] memo" using memo by (simp add: P_def)
  next
    fix pre e post m
    assume x: "[0..<n] = pre @ e # post" and m: "P pre m"
    have "e \<in> set (pre @ e # post)" by simp
    then have "e < n" unfolding x [symmetric] by simp
    show "\<exists>m'. (if e = s \<or> not_in e (entry n s A) then Inr m
        else proceed (min_dist g m s n (entry n s A) e) (put m e (entry n s A))) = Inr m' \<and> P (pre @ [e]) m'"
    proof (cases "e \<in> A")
      case False
      then show ?thesis using entry_member [OF A(1) \<open>e < n\<close> start_in] m by (auto simp: P_def)
    next
      case True
      have fin: "finite A" using A(1) finite_subset by blast
      have ne: "A - {e} \<noteq> {}"
      proof
        assume "A - {e} = {}"
        then have "card A \<le> card {e}" by (intro card_mono) auto
        with A(2) show False by simp
      qed
      have "correct_entry g s m (A - {e}) f" if "f \<in> A - {e}" for f
      proof -
        have "entry n s (A - {e}) \<noteq> entry n s A" using entry_inj [of "A - {e}" n s A] A(1) True start_in by auto
        then have "correct_entry g s m (A - {e}) f = correct_entry g s memo (A - {e}) f"
          using m size_n by (intro correct_entry_cong) (simp add: P_def)
        moreover have "card (A - {e}) + 1 = card A" using True fin card_Suc_Diff1 by fastforce
        ultimately show ?thesis using sub [of "A - {e}" f] that True by auto
      qed
      with min_dist_ok [OF A(1) True ne _ _ bounded_g start_in size_n, of m] m obtain v where
        v: "min_dist g m s n (entry n s A) e = Inr v" "least_cost g s (A - {e}) e v" by (auto simp: P_def)
      have sh: "shaped n m" using m by (simp add: P_def)
      from shaped_put [OF sh \<open>e < n\<close>, of "insert s A" v] obtain m' where
        m': "put m e (entry n s A) v = Inr m'" "shaped n m'" "m' ! e ! entry n s A = v"
          "\<forall>i j. i \<noteq> e \<or> j \<noteq> entry n s A \<longrightarrow> m' ! i ! j = m ! i ! j" by (auto simp: entry_def)
      have "correct_entry g s m' A i" if "i \<in> set (pre @ [e])" "i \<in> A" for i
      proof (cases "i = e")
        case True
        then show ?thesis using v(2) m'(3) size_n by (simp add: correct_entry_def)
      next
        case False
        then have "correct_entry g s m' A i = correct_entry g s m A i" using m'(4) size_n by (intro correct_entry_cong) auto
        then show ?thesis using m that False by (auto simp: P_def)
      qed
      moreover have "\<forall>i j. j \<noteq> entry n s A \<longrightarrow> m' ! i ! j = memo ! i ! j" using m m'(4) by (auto simp: P_def)
      ultimately have "P (pre @ [e]) m'" using m'(2) by (simp add: P_def)
      then show ?thesis using v(1) m'(1) True entry_member [OF A(1) \<open>e < n\<close> start_in] by auto
    qed
  qed
  then obtain m where m: "solve_subset g s n (entry n s A) memo = Inr m" "P [0..<n] m" by blast
  moreover have "set [0..<n] = {..<n}" by auto
  then have "\<forall>e \<in> A. e \<in> set [0..<n]" using A(1) by blast
  ultimately show ?thesis by (auto simp: P_def simp del: set_upt)
qed

lemma table_okD:
  "table_ok g s k memo \<Longrightarrow> A \<subseteq> {..<length g} - {s} \<Longrightarrow> e \<in> A \<Longrightarrow> card A + 1 \<le> k \<Longrightarrow> correct_entry g s memo A e"
  "table_ok g s k memo \<Longrightarrow> shaped (length g) memo"
  by (auto simp: table_ok_def)

lemma shaped_new: "shaped n (replicate n (replicate (push_bit n 1) 0))"
  by (simp add: shaped_def)

lemma setup_ok:
  assumes memo: "shaped n memo" and bounded_g: "bounded g b" and start_in: "s < n" and size_n: "n = length g"
  shows "\<exists>memo'. setup_memo g s n memo = Inr memo' \<and> table_ok g s 2 memo'"
proof -
  define P where "P pre m \<longleftrightarrow> shaped n m \<and> (\<forall>e \<in> set pre. e \<noteq> s \<longrightarrow> m ! e ! code n {s, e} = g ! s ! e)" for pre m
  have "\<exists>m. setup_memo g s n memo = Inr m \<and> P [0..<n] m"
    unfolding setup_memo_def
  proof (rule for_each_rule)
    show "P [] memo" using memo by (simp add: P_def)
  next
    fix pre e post m
    assume x: "[0..<n] = pre @ e # post" and m: "P pre m"
    have "e \<in> set (pre @ e # post)" by simp
    then have e: "e < n" unfolding x [symmetric] by simp
    have "e \<notin> set pre" using distinct_upt [of 0 n] unfolding x by auto
    show "\<exists>m'. (if e \<noteq> s then proceed (get_cost g s e) (put m e (push_bit s 1 OR push_bit e 1)) else Inr m) = Inr m' \<and> P (pre @ [e]) m'"
    proof (cases "e = s")
      case True
      with m show ?thesis by (auto simp: P_def)
    next
      case False
      have sh: "shaped n m" using m by (simp add: P_def)
      from shaped_put [OF sh e, of "{s, e}" "g ! s ! e"] obtain m' where
        m': "put m e (code n {s, e}) (g ! s ! e) = Inr m'" "shaped n m'" "m' ! e ! code n {s, e} = g ! s ! e"
          "\<forall>i j. i \<noteq> e \<or> j \<noteq> code n {s, e} \<longrightarrow> m' ! i ! j = m ! i ! j" by blast
      have "m' ! i ! code n {s, i} = g ! s ! i" if "i \<in> set (pre @ [e])" "i \<noteq> s" for i
      proof (cases "i = e")
        case False
        then have "m' ! i ! code n {s, i} = m ! i ! code n {s, i}" using m'(4) by blast
        then show ?thesis using that m False by (simp add: P_def)
      qed (use m'(3) in simp)
      then have "P (pre @ [e]) m'" using m'(2) by (simp add: P_def)
      then show ?thesis
        using False m'(1) bounded_cell [OF bounded_g, of s e] start_in e size_n code_pair [OF start_in e] by simp
    qed
  qed
  then obtain m where m: "setup_memo g s n memo = Inr m" "P [0..<n] m" by blast
  have "correct_entry g s m A e" if A: "A \<subseteq> {..<length g} - {s}" "e \<in> A" "card A + 1 \<le> 2" for A e
  proof -
    have "finite A" using A(1) finite_subset by blast
    then have "A = {e}" using A(2,3) card_le_Suc0_iff_eq [of A] by auto
    moreover have "e < n" "e \<noteq> s" using A(1,2) size_n by auto
    ultimately show ?thesis using m(2) size_n least_cost_empty [of g s e] by (simp add: P_def correct_entry_def entry_def)
  qed
  with m show ?thesis using size_n by (auto simp: table_ok_def P_def)
qed

lemma level_ok:
  assumes table: "table_ok g s k memo" and k: "2 \<le> k" "k < n" "n \<le> 10"
    and bounded_g: "bounded g b" and start_in: "s < n" and size_n: "n = length g"
  shows "\<exists>memo'. proceed (combinations (k + 1) n) (\<lambda>subsets. for_each subsets (\<lambda>sub memo.
      if not_in s sub then Inr memo else solve_subset g s n sub memo) memo) = Inr memo' \<and> table_ok g s (k + 1) memo'"
proof -
  obtain ss where ss: "combinations (k + 1) n = Inr ss" "set ss = {code n A | A. A \<subseteq> {..<n} \<and> card A = k + 1}"
    using combinations_complete [of "k + 1" n] k by auto
  define P where "P pre m \<longleftrightarrow> table_ok g s k m \<and>
    (\<forall>A e. A \<subseteq> {..<n} - {s} \<longrightarrow> card A = k \<longrightarrow> entry n s A \<in> set pre \<longrightarrow> e \<in> A \<longrightarrow> correct_entry g s m A e)" for pre m
  have "\<exists>m. for_each ss (\<lambda>sub memo. if not_in s sub then Inr memo else solve_subset g s n sub memo) memo = Inr m \<and> P ss m"
  proof (rule for_each_rule)
    show "P [] memo" using table by (simp add: P_def)
  next
    fix pre x post m
    assume x: "ss = pre @ x # post" and m: "P pre m"
    have "x \<in> set ss" using x by simp
    then obtain B where B: "x = code n B" "B \<subseteq> {..<n}" "card B = k + 1" using ss(2) by auto
    show "\<exists>m'. (if not_in s x then Inr m else solve_subset g s n x m) = Inr m' \<and> P (pre @ [x]) m'"
    proof (cases "s \<in> B")
      case False
      then have "not_in s x" using not_in_code [OF start_in] B(1) by blast
      moreover have "entry n s A \<noteq> x" for A
        using False start_in bit_code [of n "insert s A" s] bit_code [of n B s] B(1) by (auto simp: entry_def)
      ultimately show ?thesis using m by (simp add: P_def)
    next
      case True
      let ?A = "B - {s}"
      have fin: "finite B" using B(2) finite_subset by blast
      have A: "?A \<subseteq> {..<n} - {s}" "card ?A = k" "x = entry n s ?A" using B True fin by (auto simp: entry_def insert_absorb)
      have t: "table_ok g s k m" using m by (simp add: P_def)
      have sub: "correct_entry g s m C f" if "C \<subset> ?A" "card C + 1 = card ?A" "f \<in> C" for C f
        by (rule table_okD(1) [OF t]) (use that A(1,2) size_n in auto)
      from solve_subset_ok [OF A(1) _ _ sub bounded_g start_in size_n] k A(2) table_okD(2) [OF t] size_n obtain m' where
        m': "solve_subset g s n x m = Inr m'" "shaped n m'" "\<forall>e j. j \<noteq> x \<longrightarrow> m' ! e ! j = m ! e ! j"
          "\<forall>e \<in> ?A. correct_entry g s m' ?A e" unfolding A(3) by blast
      have other: "correct_entry g s m' C e = correct_entry g s m C e" if "C \<subseteq> {..<n} - {s}" "C \<noteq> ?A" for C e
      proof -
        have "entry n s C \<noteq> x" using entry_inj [OF that(1) A(1) start_in] that(2) A(3) by blast
        then show ?thesis using m'(3) size_n by (intro correct_entry_cong) auto
      qed
      have "table_ok g s k m'"
        unfolding table_ok_def
      proof (intro conjI allI impI)
        show "shaped (length g) m'" using m'(2) size_n by simp
        fix C e
        assume C: "C \<subseteq> {..<length g} - {s}" "e \<in> C" "card C + 1 \<le> k"
        then have "C \<noteq> ?A" using A(2) by auto
        with other [of C e] table_okD(1) [OF t C] C(1) size_n show "correct_entry g s m' C e" by simp
      qed
      moreover have "correct_entry g s m' C e" if "C \<subseteq> {..<n} - {s}" "card C = k" "entry n s C \<in> set (pre @ [x])" "e \<in> C" for C e
      proof (cases "C = ?A")
        case True
        with m'(4) that(4) show ?thesis by blast
      next
        case False
        then have "entry n s C \<noteq> x" using entry_inj [OF that(1) A(1) start_in] A(3) by blast
        with that m have "correct_entry g s m C e" by (auto simp: P_def)
        with other [OF that(1) False] show ?thesis by simp
      qed
      ultimately have "P (pre @ [x]) m'" by (simp add: P_def)
      moreover have "\<not> not_in s x" using not_in_code [OF start_in] B(1) True by blast
      ultimately show ?thesis using m'(1) by auto
    qed
  qed
  then obtain m where m: "for_each ss (\<lambda>sub memo. if not_in s sub then Inr memo else solve_subset g s n sub memo) memo = Inr m" "P ss m"
    by blast
  have "correct_entry g s m A e" if A: "A \<subseteq> {..<length g} - {s}" "e \<in> A" "card A + 1 \<le> k + 1" for A e
  proof (cases "card A = k")
    case True
    have fin: "finite A" using A(1) finite_subset by blast
    have "s \<notin> A" using A(1) by blast
    then have "card (insert s A) = k + 1" "insert s A \<subseteq> {..<n}" using True fin A(1) start_in size_n by auto
    then have "entry n s A \<in> set ss" unfolding ss(2) entry_def by blast
    with m(2) True A size_n show ?thesis by (auto simp: P_def)
  next
    case False
    with A(3) have "card A + 1 \<le> k" by simp
    with table_okD(1) [OF _ A(1,2)] m(2) show ?thesis by (auto simp: P_def)
  qed
  then have "table_ok g s (k + 1) m" using m(2) by (simp add: table_ok_def P_def)
  with m(1) ss(1) show ?thesis by auto
qed

lemma solve_table_ok:
  assumes "table_ok g s 2 memo" "2 \<le> n" "n \<le> 10" "bounded g b" "s < n" "n = length g"
  shows "\<exists>memo'. solve_table g s n memo = Inr memo' \<and> table_ok g s n memo'"
proof -
  define P :: "nat list \<Rightarrow> matrix \<Rightarrow> bool" where "P pre m \<longleftrightarrow> table_ok g s (2 + length pre) m" for pre m
  have "\<exists>m. solve_table g s n memo = Inr m \<and> P [3..<n + 1] m"
    unfolding solve_table_def
  proof (rule for_each_rule)
    show "P [] memo" using assms(1) by (simp add: P_def)
  next
    fix pre x post m
    assume x: "[3..<n + 1] = pre @ x # post" and m: "P pre m"
    have "length pre < length [3..<n + 1]" unfolding x by simp
    then have len: "length pre + 2 < n" using assms(2) by (simp del: upt_Suc)
    have "x = [3..<n + 1] ! length pre" unfolding x by simp
    then have r: "x = (2 + length pre) + 1" using len by (simp add: nth_upt del: upt_Suc)
    from level_ok [OF m [unfolded P_def] _ _ assms(3-6)] len
    show "\<exists>m'. proceed (combinations x n) (\<lambda>subsets. for_each subsets (\<lambda>sub memo.
      if not_in s sub then Inr memo else solve_subset g s n sub memo) m) = Inr m' \<and> P (pre @ [x]) m'"
      unfolding r P_def by (simp add: add.commute)
  qed
  moreover have "2 + length [3..<n + 1] = n" using assms(2) by (simp del: upt_Suc)
  ultimately show ?thesis unfolding P_def by (metis (no_types))
qed

section \<open>The cost and the tour\<close>

lemma entry_full: "s < n \<Longrightarrow> push_bit n 1 - 1 = entry n s ({..<n} - {s})"
  using code_full [of n] by (simp add: entry_def insert_Diff_single insert_absorb)

lemma find_min_cost_ok:
  assumes table: "table_ok g s n memo" and two: "2 \<le> n"
    and bounded_g: "bounded g b" and start_in: "s < n" and size_n: "n = length g"
  shows "\<exists>v. find_min_cost g memo s n = Inr v \<and> least_cost g s ({..<n} - {s}) s v"
proof -
  let ?A = "{..<n} - {s}"
  let ?v = "\<lambda>f. memo ! f ! entry n s ?A + g ! f ! s"
  have A: "?A \<subseteq> {..<n} - {s}" "card ?A + 1 \<le> n" using start_in by auto
  have shape: "shaped n memo" using table_okD(2) [OF table] size_n by simp
  have entries: "correct_entry g s memo ?A f" if "f \<in> ?A" for f
    using table_okD(1) [OF table _ that A(2)] size_n by blast
  note step = entry_edge(1) [OF A(1) _ start_in shape entries bounded_g start_in size_n]
  have "\<exists>f \<in> set [0..<n]. f \<noteq> s \<and> find_min_cost g memo s n = Inr (?v f) \<and> (\<forall>f' \<in> set [0..<n]. f' \<noteq> s \<longrightarrow> ?v f \<le> ?v f')"
    unfolding find_min_cost_def Let_def entry_full [OF start_in]
  proof (rule min_loop)
    fix f d
    assume "f \<in> set [0..<n]"
    then have f: "f \<noteq> s \<Longrightarrow> f \<in> ?A" by simp
    show "(if f \<noteq> s then proceed (cell memo f (entry n s ?A)) (\<lambda>m. proceed (get_cost g f s) (\<lambda>c.
        proceed (add_int m c) (\<lambda>tour_cost. Inr (min d tour_cost)))) else Inr d) =
      (if f \<noteq> s then Inr (min d (?v f)) else Inr d)"
    proof (cases "f = s")
      case False
      then show ?thesis by (simp only: step [OF f [OF False] f [OF False]] simp_thms if_True)
    qed simp
  next
    have "(if s = 0 then 1 else 0) \<in> set [0..<n] \<and> (if s = 0 then 1 else 0) \<noteq> s" using two by auto
    then show "\<exists>f \<in> set [0..<n]. f \<noteq> s" by blast
  next
    fix f
    assume "f \<in> set [0..<n]" "f \<noteq> s"
    then have "f \<in> ?A" by simp
    then show "?v f \<le> int_max" using entry_edge(2) [OF A(1) _ start_in shape entries bounded_g start_in size_n] by blast
  qed
  then obtain f where f: "f < n" "f \<noteq> s" "find_min_cost g memo s n = Inr (?v f)" "\<forall>f' < n. f' \<noteq> s \<longrightarrow> ?v f \<le> ?v f'" by auto
  have "least_cost g s ?A s (?v f)"
  proof (rule least_cost_step [where D = "\<lambda>f. memo ! f ! entry n s ?A"])
    show "least_cost g s (?A - {f}) f (memo ! f ! entry n s ?A)" if "f \<in> ?A" for f
      using entries [OF that] size_n by (simp add: correct_entry_def)
  qed (use f in auto)
  with f(3) show ?thesis by blast
qed

lemma find_index_ok:
  assumes table: "table_ok g s n memo" and A: "A \<subseteq> {..<n} - {s}" "A \<noteq> {}" and l: "l < n"
    and bounded_g: "bounded g b" and start_in: "s < n" and size_n: "n = length g"
  shows "\<exists>f. f \<in> A \<and> find_index g memo s n l (entry n s A) = Inr (Some f) \<and> least_cost g s (A - {f}) f (memo ! f ! entry n s A) \<and>
    least_cost g s A l (memo ! f ! entry n s A + g ! f ! l)"
proof -
  let ?v = "\<lambda>f. memo ! f ! entry n s A + g ! f ! l"
  have "card A < card {..<n}" using A(1) start_in by (intro psubset_card_mono) auto
  then have card_A: "card A + 1 \<le> n" by simp
  have shape: "shaped n memo" using table_okD(2) [OF table] size_n by simp
  have entries: "correct_entry g s memo A f" if "f \<in> A" for f
    using table_okD(1) [OF table _ that card_A] A(1) size_n by blast
  note step = entry_edge(1) [OF A(1) _ l shape entries bounded_g start_in size_n]
  define P where "P pre i \<longleftrightarrow> (case i of None \<Rightarrow> set pre \<inter> A = {} | Some f \<Rightarrow> f \<in> A \<and> (\<forall>f' \<in> set pre. f' \<in> A \<longrightarrow> ?v f \<le> ?v f'))"
    for pre i
  have "\<exists>i. find_index g memo s n l (entry n s A) = Inr i \<and> P [0..<n] i"
    unfolding find_index_def
  proof (rule for_each_rule)
    show "P [] None" by (simp add: P_def)
  next
    fix pre j post i
    assume x: "[0..<n] = pre @ j # post" and i: "P pre i"
    have "j \<in> set (pre @ j # post)" by simp
    then have j: "j < n" unfolding x [symmetric] by simp
    show "\<exists>i'. (if j = s \<or> not_in j (entry n s A) then Inr i
        else let i = case i of None \<Rightarrow> j | Some i \<Rightarrow> i in
          proceed (cell memo i (entry n s A)) (\<lambda>m. proceed (get_cost g i l) (\<lambda>c. proceed (add_int m c) (\<lambda>prev_dist.
          proceed (cell memo j (entry n s A)) (\<lambda>m. proceed (get_cost g j l) (\<lambda>c. proceed (add_int m c) (\<lambda>new_dist.
          Inr (Some (if new_dist < prev_dist then j else i))))))))) = Inr i' \<and> P (pre @ [j]) i'"
    proof (cases "j \<in> A")
      case False
      with i show ?thesis using entry_member [OF A(1) j start_in] by (auto simp: P_def split: option.splits)
    next
      case True
      define f where "f = (case i of None \<Rightarrow> j | Some i \<Rightarrow> i)"
      have f: "f \<in> A" using i True by (auto simp: P_def f_def split: option.splits)
      have old: "\<forall>f' \<in> set pre. f' \<in> A \<longrightarrow> ?v f \<le> ?v f'" using i by (auto simp: P_def f_def split: option.splits)
      have "P (pre @ [j]) (Some (if ?v j < ?v f then j else f))"
        using f True old by (fastforce simp: P_def)
      then show ?thesis
        using entry_member [OF A(1) j start_in] True
        by (simp only: f_def [symmetric] Let_def step [OF f f] step [OF True True] simp_thms if_False not_True_eq_False) blast
    qed
  qed
  then obtain i where i: "find_index g memo s n l (entry n s A) = Inr i" "P [0..<n] i" by blast
  have all: "f' \<in> set [0..<n]" if "f' \<in> A" for f' using A(1) that by auto
  from A(2) obtain a where "a \<in> A" by blast
  with all i(2) obtain f where f: "i = Some f" "f \<in> A" "\<forall>f' \<in> A. ?v f \<le> ?v f'"
    unfolding P_def by (cases i) (auto simp del: set_upt)
  have lc: "least_cost g s (A - {f}) f (memo ! f ! entry n s A)" if "f \<in> A" for f
    using entries [OF that] size_n by (simp add: correct_entry_def)
  have "least_cost g s A l (?v f)"
    by (rule least_cost_step [where D = "\<lambda>f. memo ! f ! entry n s A", OF f(2) lc]) (use f(3) in auto)
  with f i(1) lc show ?thesis by blast
qed

lemma find_optimal_tour_ok:
  assumes table: "table_ok g s n memo" and two: "2 \<le> n" and V: "least_cost g s ({..<n} - {s}) s V"
    and bounded_g: "bounded g b" and start_in: "s < n" and size_n: "n = length g"
  shows "\<exists>q. find_optimal_tour g memo s n = Inr (s # q @ [s]) \<and> distinct q \<and> set q = {..<n} - {s} \<and> path_cost g s (q @ [s]) = V"
proof -
  let ?N = "{..<n} - {s}"
  define P :: "nat list \<Rightarrow> nat \<times> nat \<times> nat list \<Rightarrow> bool" where
    "P pre t \<longleftrightarrow> (case t of (l, state, trip) \<Rightarrow> \<exists>q X y. trip = X @ q @ [y] \<and> length q = length pre \<and> length X + length pre = n \<and>
       distinct q \<and> set q \<subseteq> ?N \<and> state = entry n s (?N - set q) \<and> l = hd (q @ [s]) \<and>
       (\<forall>w. least_cost g s (?N - set q) l w \<longrightarrow> w + path_cost g l (tl (q @ [s])) = V))" for pre t
  define body where "body = (\<lambda>i (last_index, state, trip).
         proceed (find_index g memo s n last_index state) (\<lambda>index.
           case index of None \<Rightarrow> Inl Undefined | Some index \<Rightarrow> Inr (index, state XOR push_bit index 1, trip[i := index])))"
  have "\<exists>t. for_each (rev [1..<n]) body
         (s, push_bit n 1 - 1, replicate (n + 1) 0) = Inr t \<and> P (rev [1..<n]) t"
  proof (rule for_each_rule)
    have "replicate (n + 1) 0 = replicate n 0 @ [] @ [0::nat]" by (simp add: replicate_append_same)
    moreover have "w + path_cost g s [] = V" if "least_cost g s ?N s w" for w
      using least_cost_unique [OF V that] by simp
    ultimately show "P [] (s, push_bit n 1 - 1, replicate (n + 1) 0)"
      unfolding P_def entry_full [OF start_in] prod.case
      by (intro exI [of _ "[]"] exI [of _ "replicate n 0"] exI [of _ 0]) auto
  next
    fix pre i post t
    assume x: "rev [1..<n] = pre @ i # post" and P: "P pre t"
    have len: "length pre + 1 < n" using arg_cong [OF x, of length] by simp
    have "i = rev [1..<n] ! length pre" unfolding x by simp
    then have i: "i + length pre + 1 = n" using len by (simp add: rev_nth)
    obtain l state trip where t: "t = (l, state, trip)" by (cases t)
    obtain q X y where q: "trip = X @ q @ [y]" "length q = length pre" "length X + length pre = n" "distinct q" "set q \<subseteq> ?N"
      "state = entry n s (?N - set q)" "l = hd (q @ [s])"
      "\<forall>w. least_cost g s (?N - set q) l w \<longrightarrow> w + path_cost g l (tl (q @ [s])) = V"
      using P unfolding P_def t prod.case by blast
    let ?A = "?N - set q"
    have "card (set q) < card ?N" using q(2,4) len start_in by (simp add: distinct_card)
    then have A: "?A \<subseteq> ?N" "?A \<noteq> {}" using card_mono [of "set q" ?N] by auto
    have l: "l < n" using q(5,7) start_in by (cases q) auto
    from find_index_ok [OF table A l bounded_g start_in size_n] obtain f where
      f: "f \<in> ?A" "find_index g memo s n l state = Inr (Some f)" "least_cost g s (?A - {f}) f (memo ! f ! entry n s ?A)"
        "least_cost g s ?A l (memo ! f ! entry n s ?A + g ! f ! l)" unfolding q(6) by blast
    obtain X' x' where X: "X = X' @ [x']" "length X' = i" using q(3) i by (cases X rule: rev_cases) auto
    have rest: "?A - {f} = ?N - set (f # q)" by auto
    have "state XOR push_bit f 1 = entry n s (?N - set (f # q))"
      using entry_remove [OF A(1) f(1)] q(6) rest by simp
    moreover have "trip[i := f] = X' @ (f # q) @ [y]" using q(1) X by (simp add: list_update_append)
    moreover have "w + path_cost g f (q @ [s]) = V" if "least_cost g s (?N - set (f # q)) f w" for w
    proof -
      have "w = memo ! f ! entry n s ?A" using least_cost_unique [OF that [folded rest] f(3)] .
      moreover have "q @ [s] = l # tl (q @ [s])" using q(7) by (cases q) auto
      then have "path_cost g f (q @ [s]) = g ! f ! l + path_cost g l (tl (q @ [s]))" by (metis path_cost.simps(2))
      ultimately show ?thesis using q(8) f(4) by auto
    qed
    ultimately have "P (pre @ [i]) (f, state XOR push_bit f 1, trip[i := f])"
      unfolding P_def prod.case using q f(1) X i
      by (intro exI [of _ "f # q"] exI [of _ X'] exI [of _ y]) auto
    with f(2) t show "\<exists>t'. body i t = Inr t' \<and> P (pre @ [i]) t'" by (simp add: body_def)
  qed
  then obtain t where loop: "for_each (rev [1..<n]) body (s, push_bit n 1 - 1, replicate (n + 1) 0) = Inr t" "P (rev [1..<n]) t"
    by blast
  obtain l state trip where t: "t = (l, state, trip)" by (cases t)
  from loop(2) obtain q X y where q: "trip = X @ q @ [y]" "length q = n - 1" "length X = 1" "distinct q" "set q \<subseteq> ?N"
      "l = hd (q @ [s])" "\<forall>w. least_cost g s (?N - set q) l w \<longrightarrow> w + path_cost g l (tl (q @ [s])) = V"
    unfolding P_def t using two by auto
  have all: "set q = ?N" using q(2,4,5) start_in by (intro card_subset_eq) (auto simp: distinct_card)
  have "q @ [s] = l # tl (q @ [s])" using q(6) by (cases q) auto
  moreover have "g ! s ! l + path_cost g l (tl (q @ [s])) = V" using q(7) all least_cost_empty by simp
  ultimately have cost: "path_cost g s (q @ [s]) = V" by (metis path_cost.simps(2))
  obtain x where "X = [x]" using q(3) by (cases X) auto
  then have "trip[0 := s, length trip - 1 := s] = s # q @ [s]" using q(1) by (simp add: list_update_append)
  then have "find_optimal_tour g memo s n = Inr (s # q @ [s])" unfolding find_optimal_tour_def body_def [symmetric] loop(1) t by simp
  with q(4) all cost show ?thesis by blast
qed

section \<open>Properties\<close>

text \<open>
  C31: The travelling salesman's solution is optimal. For a square matrix of \<open>n\<close> rows, \<open>n\<close> from 2 to 10, a start among the
  nodes and costs of either sign whose absolute values are all at most some \<open>b\<close> with \<open>n * b\<close> at most the greatest \<open>int\<close>
  (so that no sum of up to \<open>n\<close> of them overflows), \<open>Solve\<close> throws nothing, reads only inside its tables and overflows nowhere; it
  returns a tour from the start through every other node once and back, the cost of that tour, and no such tour costs less.
\<close>

theorem travelling_salesman_optimal:
  assumes "2 \<le> length g" "length g \<le> 10" "s < length g" "bounded g b"
  shows "\<exists>r q. solve g s = Inr r \<and> tour r = s # q @ [s] \<and> distinct q \<and> set q = {..<length g} - {s} \<and>
    min_cost r = path_cost g s (q @ [s]) \<and>
    (\<forall>p. distinct p \<longrightarrow> set p = {..<length g} - {s} \<longrightarrow> min_cost r \<le> path_cost g s (p @ [s]))"
proof -
  let ?n = "length g"
  obtain m1 where m1: "setup_memo g s ?n (replicate ?n (replicate (push_bit ?n 1) 0)) = Inr m1" "table_ok g s 2 m1"
    using setup_ok [OF shaped_new assms(4,3) refl] by blast
  obtain m2 where m2: "solve_table g s ?n m1 = Inr m2" "table_ok g s ?n m2"
    using solve_table_ok [OF m1(2) assms(1,2,4,3) refl] by blast
  obtain v where v: "find_min_cost g m2 s ?n = Inr v" "least_cost g s ({..<?n} - {s}) s v"
    using find_min_cost_ok [OF m2(2) assms(1,4,3) refl] by blast
  obtain q where q: "find_optimal_tour g m2 s ?n = Inr (s # q @ [s])" "distinct q" "set q = {..<?n} - {s}"
    "path_cost g s (q @ [s]) = v" using find_optimal_tour_ok [OF m2(2) assms(1) v(2) assms(4,3) refl] by blast
  have "solve g s = Inr \<lparr>tour = s # q @ [s], min_cost = v\<rparr>"
    using m1(1) m2(1) v(1) q(1) by (simp add: solve_def matrix_size_def Let_def)
  with q v(2) show ?thesis by (auto simp: least_cost_def)
qed

definition four_cities :: matrix where
  "four_cities = [[0, 4, 1, 9], [3, 0, 6, 11], [4, 1, 0, 2], [6, 5, -4, 0]]"

lemma four_cities_solved: "solve four_cities 0 = Inr \<lparr>tour = [0, 3, 2, 1, 0], min_cost = 9\<rparr>"
  by code_simp

text \<open>
  It does not suffice that the cost of every tour is an \<open>int\<close>: the table also adds up parts of tours, and here one of
  them overflows.
\<close>

definition large_costs :: matrix where
  "large_costs = [[0, int_max, int_max, 0], [0, 0, int_max, - int_max], [0, 0, 0, - int_max], [- int_max, 0, 0, 0]]"

lemma large_costs_overflow: "solve large_costs 0 = Inl Undefined"
  by code_simp

theorem travelling_salesman_optimal_witness:
  "\<exists>q. solve four_cities 0 = Inr \<lparr>tour = 0 # q @ [0], min_cost = 9\<rparr> \<and> distinct q \<and> set q = {..<4} - {0} \<and>
     path_cost four_cities 0 (q @ [0]) = 9"
proof -
  have len: "length four_cities = 4" by (simp add: four_cities_def)
  have "bounded four_cities 11" by (simp add: bounded_def four_cities_def int_max_def)
  from travelling_salesman_optimal [OF _ _ _ this, of 0] obtain r q where
    "solve four_cities 0 = Inr r" "tour r = 0 # q @ [0]" "distinct q" "set q = {..<4} - {0}"
    "min_cost r = path_cost four_cities 0 (q @ [0])" by (auto simp: len)
  with four_cities_solved show ?thesis by (intro exI [of _ q]) simp
qed

text \<open>
  From 11 nodes on the decimal reading of the bit strings overflows, and the library throws
  \<open>std::out_of_range\<close>. (From 31 nodes on already the size \<open>1 << N\<close> of the table is out of range.)
\<close>

theorem travelling_salesman_throws:
  assumes "11 \<le> length g" "s < length g" "bounded g b"
  shows "solve g s = Inl Out_Of_Range"
proof -
  let ?n = "length g"
  obtain m1 where m1: "setup_memo g s ?n (replicate ?n (replicate (push_bit ?n 1) 0)) = Inr m1"
    using setup_ok [OF shaped_new assms(3,2) refl] by blast
  have "[3..<?n + 1] = 3 # [4..<?n + 1]" using assms(1) by (subst upt_conv_Cons) auto
  then have "solve_table g s ?n m1 = Inl Out_Of_Range"
    using combinations_throw [of 3 ?n] assms(1) by (simp add: solve_table_def del: upt_Suc)
  with m1 show ?thesis by (simp add: solve_def matrix_size_def Let_def)
qed

text \<open>With one node the code reports the largest \<open>int\<close> as the cost of the tour.\<close>

lemma travelling_salesman_single: "solve [[0]] 0 = Inr \<lparr>tour = [0, 0], min_cost = int_max\<rparr>"
  by code_simp

end
