(* ===== verification/B_Tree.thy ===== *)
theory B_Tree
  imports Prelude "HOL-Library.Monad_Syntax"
begin

text \<open>
  \<open>BTree\<close> (\<open>container/tree/b_tree.hpp\<close> and \<open>b_tree-inl.hpp\<close>): nodes in memory under addresses. \<open>None\<close> is the dereference or
  deletion of a node that does not exist, an index or iterator out of range, or a failed assertion.
\<close>

section \<open>The code\<close>

record 'a bnode =
  degree :: nat
  keys :: "'a list"
  children :: "nat list"

type_synonym 'a bmem = "'a bnode option list"

record 'a btree =
  min_degree :: nat
  root :: "nat option"
  memory :: "'a bmem"

definition load :: "nat \<Rightarrow> 'a bmem \<Rightarrow> 'a bnode option" where
  "load a m = (if a < length m then m ! a else None)"

definition store :: "nat \<Rightarrow> 'a bnode \<Rightarrow> 'a bmem \<Rightarrow> 'a bmem option" where
  "store a n m = (if load a m = None then None else Some (m[a := Some n]))"

definition delete :: "nat \<Rightarrow> 'a bmem \<Rightarrow> 'a bmem option" where
  "delete a m = (if load a m = None then None else Some (m[a := None]))"

definition new_node :: "nat \<Rightarrow> 'a bmem \<Rightarrow> nat \<times> 'a bmem" where
  "new_node t m = (length m, m @ [Some \<lparr>degree = t, keys = [], children = []\<rparr>])"

text \<open>\<open>vector::insert\<close> before an index, and the two searches of the standard library on a sorted vector.\<close>

definition insert_at :: "nat \<Rightarrow> 'b \<Rightarrow> 'b list \<Rightarrow> 'b list option" where
  "insert_at i x xs = (if i \<le> length xs then Some (take i xs @ x # drop i xs) else None)"

definition upper_bound :: "'a::linorder list \<Rightarrow> 'a \<Rightarrow> nat" where
  "upper_bound xs key = length (takeWhile (\<lambda>k. \<not> key < k) xs)"

definition lower_bound :: "'a::linorder list \<Rightarrow> 'a \<Rightarrow> nat" where
  "lower_bound xs key = length (takeWhile (\<lambda>k. k < key) xs)"

definition add_key_by_index :: "nat \<Rightarrow> nat \<Rightarrow> 'a::linorder \<Rightarrow> 'a bmem \<Rightarrow> 'a bmem option" where
  "add_key_by_index a index key m =
     do { n \<leftarrow> load a m;
          ks \<leftarrow> insert_at index key (keys n);
          if sorted ks then store a (n\<lparr>keys := ks\<rparr>) m else None }"

definition get_key :: "nat \<Rightarrow> nat \<Rightarrow> 'a bmem \<Rightarrow> 'a option" where
  "get_key a index m = do { n \<leftarrow> load a m; if index < length (keys n) then Some (keys n ! index) else None }"

definition remove_key :: "nat \<Rightarrow> 'a \<Rightarrow> 'a bmem \<Rightarrow> 'a bmem option" where
  "remove_key a key m =
     do { n \<leftarrow> load a m; if key \<in> set (keys n) then store a (n\<lparr>keys := remove1 key (keys n)\<rparr>) m else None }"

definition add_child :: "nat \<Rightarrow> nat \<Rightarrow> 'a bmem \<Rightarrow> 'a bmem option" where
  "add_child a c m = do { n \<leftarrow> load a m; store a (n\<lparr>children := children n @ [c]\<rparr>) m }"

definition add_child_by_index :: "nat \<Rightarrow> nat \<Rightarrow> nat \<Rightarrow> 'a bmem \<Rightarrow> 'a bmem option" where
  "add_child_by_index a index c m =
     do { n \<leftarrow> load a m; cs \<leftarrow> insert_at index c (children n); store a (n\<lparr>children := cs\<rparr>) m }"

definition get_child :: "nat \<Rightarrow> nat \<Rightarrow> 'a bmem \<Rightarrow> nat option" where
  "get_child a index m = do { n \<leftarrow> load a m; if index < length (children n) then Some (children n ! index) else None }"

definition is_leaf :: "nat \<Rightarrow> 'a bmem \<Rightarrow> bool option" where
  "is_leaf a m = do { n \<leftarrow> load a m; Some (children n = []) }"

definition is_keys_full :: "nat \<Rightarrow> 'a bmem \<Rightarrow> bool option" where
  "is_keys_full a m = do { n \<leftarrow> load a m; Some (int (length (keys n)) = 2 * int (degree n) - 1) }"

definition add_key_impl :: "nat \<Rightarrow> 'a::linorder \<Rightarrow> 'a bmem \<Rightarrow> 'a bmem option" where
  "add_key_impl a key m =
     do { n \<leftarrow> load a m;
          ks \<leftarrow> insert_at (upper_bound (keys n) key) key (keys n);
          if sorted ks then store a (n\<lparr>keys := ks\<rparr>) m else None }"

text \<open>\<open>AddKey\<close> of the node that \<open>SplitChild\<close> has just created, which has no children.\<close>

definition add_key_new :: "nat \<Rightarrow> 'a::linorder \<Rightarrow> 'a bmem \<Rightarrow> 'a bmem option" where
  "add_key_new a key m = do { leaf \<leftarrow> is_leaf a m; if leaf then add_key_impl a key m else None }"

fun copy_keys :: "nat list \<Rightarrow> nat \<Rightarrow> nat \<Rightarrow> 'a::linorder bmem \<Rightarrow> 'a bmem option" where
  "copy_keys [] from_node to_node m = Some m"
| "copy_keys (j # js) from_node to_node m =
     do { k \<leftarrow> get_key from_node j m; m \<leftarrow> add_key_new to_node k m; copy_keys js from_node to_node m }"

fun copy_children :: "nat list \<Rightarrow> nat \<Rightarrow> nat \<Rightarrow> 'a bmem \<Rightarrow> 'a bmem option" where
  "copy_children [] from_node to_node m = Some m"
| "copy_children (j # js) from_node to_node m =
     do { c \<leftarrow> get_child from_node j m; m \<leftarrow> add_child to_node c m; copy_children js from_node to_node m }"

fun remove_keys :: "nat list \<Rightarrow> nat \<Rightarrow> 'a bmem \<Rightarrow> 'a bmem option" where
  "remove_keys [] a m = Some m"
| "remove_keys (j # js) a m = do { k \<leftarrow> get_key a j m; m \<leftarrow> remove_key a k m; remove_keys js a m }"

definition split_child :: "nat \<Rightarrow> nat \<Rightarrow> nat \<Rightarrow> 'a::linorder bmem \<Rightarrow> 'a bmem option" where
  "split_child a index c m =
     do { n \<leftarrow> load a m;
          child \<leftarrow> load c m;
          let t = degree n;
          let (new_addr, m) = new_node (degree child) m;
          m \<leftarrow> copy_keys (map (\<lambda>j. j + t) [0..<t - 1]) c new_addr m;
          leaf \<leftarrow> is_leaf c m;
          m \<leftarrow> (if \<not> leaf then copy_children (map (\<lambda>j. j + t) [0..<t - 1]) c new_addr m else Some m);
          m \<leftarrow> add_child_by_index a (index + 1) new_addr m;
          k \<leftarrow> get_key c (t - 1) m;
          m \<leftarrow> add_key_by_index a index k m;
          remove_keys (rev [t - 1..<2 * t - 1]) c m }"

partial_function (option) add_key :: "nat \<Rightarrow> 'a::linorder \<Rightarrow> 'a bmem \<Rightarrow> 'a bmem option" where
  "add_key a key m =
     do { leaf \<leftarrow> is_leaf a m;
          if leaf then add_key_impl a key m
          else do {
            n \<leftarrow> load a m;
            let index = upper_bound (keys n) key;
            consider_node \<leftarrow> get_child a index m;
            full \<leftarrow> is_keys_full consider_node m;
            (index, m) \<leftarrow> (if full then do {
                m \<leftarrow> split_child a index consider_node m;
                k \<leftarrow> get_key a index m;
                Some (if k < key then index + 1 else index, m) }
              else Some (index, m));
            c \<leftarrow> get_child a index m;
            add_key c key m } }"

partial_function (option) node_contains :: "nat \<Rightarrow> 'a::linorder \<Rightarrow> 'a bmem \<Rightarrow> bool option" where
  "node_contains a key m =
     do { n \<leftarrow> load a m;
          let index = lower_bound (keys n) key;
          found \<leftarrow> (if index < length (keys n) then do { k \<leftarrow> get_key a index m; Some (k = key) } else Some False);
          leaf \<leftarrow> is_leaf a m;
          if found then Some True
          else if leaf then Some False
          else do { c \<leftarrow> get_child a index m; node_contains c key m } }"

partial_function (option) destroy_children :: "nat list \<Rightarrow> 'a bmem \<Rightarrow> 'a bmem option" where
  "destroy_children cs m =
     (case cs of
        [] \<Rightarrow> Some m
      | c # cs \<Rightarrow>
          do { child \<leftarrow> load c m;
               m \<leftarrow> destroy_children (children child) m;
               m \<leftarrow> delete c m;
               destroy_children cs m })"

definition node_destroy :: "nat \<Rightarrow> 'a bmem \<Rightarrow> 'a bmem option" where
  "node_destroy a m = do { n \<leftarrow> load a m; destroy_children (children n) m }"

declare add_key.simps [code] node_contains.simps [code] destroy_children.simps [code]

definition new_btree :: "nat \<Rightarrow> 'a btree" where
  "new_btree t = \<lparr>min_degree = t, root = None, memory = []\<rparr>"

definition btree_destroy :: "'a btree \<Rightarrow> 'a bmem option" where
  "btree_destroy T =
     (case root T of
        None \<Rightarrow> Some (memory T)
      | Some r \<Rightarrow> do { m \<leftarrow> node_destroy r (memory T); delete r m })"

definition btree_insert :: "'a::linorder \<Rightarrow> 'a btree \<Rightarrow> 'a btree option" where
  "btree_insert key T =
     (case root T of
        None \<Rightarrow>
          (let (r, m) = new_node (min_degree T) (memory T) in
           do { m \<leftarrow> add_key r key m; Some (T\<lparr>root := Some r, memory := m\<rparr>) })
      | Some r \<Rightarrow>
          do { full \<leftarrow> is_keys_full r (memory T);
               if full then
                 let (a, m) = new_node (min_degree T) (memory T) in
                 do { m \<leftarrow> add_child a r m;
                      m \<leftarrow> split_child a 0 r m;
                      k \<leftarrow> get_key a 0 m;
                      c \<leftarrow> get_child a (if k < key then 1 else 0) m;
                      m \<leftarrow> add_key c key m;
                      Some (T\<lparr>root := Some a, memory := m\<rparr>) }
               else do { m \<leftarrow> add_key r key (memory T); Some (T\<lparr>memory := m\<rparr>) } })"

definition btree_contains :: "'a::linorder \<Rightarrow> 'a btree \<Rightarrow> bool option" where
  "btree_contains key T = (case root T of None \<Rightarrow> Some False | Some r \<Rightarrow> node_contains r key (memory T))"

fun insert_all :: "'a::linorder list \<Rightarrow> 'a btree \<Rightarrow> 'a btree option" where
  "insert_all [] T = Some T"
| "insert_all (x # xs) T = do { T \<leftarrow> btree_insert x T; insert_all xs T }"

end
