(* ===== verification/B_Tree_Proofs.thy ===== *)
theory B_Tree_Proofs
  imports B_Tree Bag_Contract
begin

text \<open>
  While the B-tree has at most two levels it is a correct multiset: insertion, the split of a leaf, search and
  destruction. The split of an inner node is where the code goes wrong. The proofs see the memory as a map (\<open>view\<close>) and a
  tree of two levels as the parts left and right of the child that the operation visits.
\<close>

section \<open>Memory\<close>

definition view :: "'a bmem \<Rightarrow> nat \<Rightarrow> 'a bnode option" where
  "view m a = load a m"

lemma view_store: "view m a = Some x \<Longrightarrow> \<exists>m'. store a n m = Some m' \<and> view m' = (view m)(a \<mapsto> n)"
  by (auto simp: view_def store_def load_def fun_eq_iff nth_list_update split: if_splits)

lemma view_delete: "view m a = Some x \<Longrightarrow> \<exists>m'. delete a m = Some m' \<and> view m' = (view m)(a := None)"
  by (auto simp: view_def delete_def load_def fun_eq_iff nth_list_update split: if_splits)

lemma view_new: "new_node t m = (a, m') \<Longrightarrow> view m a = None \<and> view m' = (view m)(a \<mapsto> \<lparr>degree = t, keys = [], children = []\<rparr>)"
  by (auto simp: view_def new_node_def load_def fun_eq_iff nth_append)

lemma view_nil [simp]: "view [] = (\<lambda>_. None)"
  by (auto simp: view_def load_def)

lemma view_empty: "view m = (\<lambda>_. None) \<Longrightarrow> set m \<subseteq> {None}"
  by (fastforce simp: view_def load_def fun_eq_iff in_set_conv_nth split: if_splits)

lemma view_load [simp]: "load a m = view m a"
  by (simp add: view_def)

abbreviation leaf :: "nat \<Rightarrow> 'a list \<Rightarrow> 'a bnode" where
  "leaf t l \<equiv> \<lparr>degree = t, keys = l, children = []\<rparr>"

section \<open>Sorted lists\<close>

definition ins :: "'a::linorder \<Rightarrow> 'a list \<Rightarrow> 'a list" where
  "ins key l = takeWhile (\<lambda>k. \<not> key < k) l @ key # dropWhile (\<lambda>k. \<not> key < k) l"

lemma ins_upper_bound: "insert_at (upper_bound l key) key l = Some (ins key l)"
  by (simp add: insert_at_def upper_bound_def ins_def length_takeWhile_le takeWhile_eq_take dropWhile_eq_drop flip: takeWhile_eq_take)

lemma mset_ins [simp]: "mset (ins key l) = add_mset key (mset l)"
  using arg_cong [OF takeWhile_dropWhile_id [of "\<lambda>k. \<not> key < k" l], of mset] by (simp add: ins_def del: takeWhile_dropWhile_id)

lemma length_ins [simp]: "length (ins key l) = Suc (length l)"
  by (metis mset_ins size_add_mset size_mset)

lemma set_ins [simp]: "set (ins key l) = insert key (set l)"
  by (metis mset_ins set_mset_add_mset_insert set_mset_mset)

lemma sorted_ins: "sorted l \<Longrightarrow> sorted (ins key l)"
proof (induction l)
  case (Cons x l)
  have "ins key (x # l) = (if key < x then key # x # l else x # ins key l)" by (simp add: ins_def)
  with Cons show ?case by auto
qed (simp add: ins_def)

lemma ins_last: "\<forall>x \<in> set l. x \<le> key \<Longrightarrow> ins key l = l @ [key]"
  by (induction l) (auto simp: ins_def)

lemma remove1_last: "sorted (l @ [x]) \<Longrightarrow> remove1 x (l @ [x]) = l"
proof (induction l)
  case (Cons y l)
  show ?case
  proof (cases "y = x")
    case True
    with Cons.prems have "\<forall>z \<in> set l. z = x" by (auto intro: order.antisym simp: sorted_append)
    then have "l = replicate (length l) x" by (simp add: replicate_length_same)
    then have "l @ [x] = x # l" by (metis replicate_append_same)
    with True show ?thesis by simp
  qed (use Cons in auto)
qed simp

lemma takeWhile_sorted:
  "sorted xs \<Longrightarrow> (\<And>x y. x \<le> y \<Longrightarrow> P y \<Longrightarrow> P x) \<Longrightarrow> \<forall>x \<in> set (dropWhile P xs). \<not> P x" for xs :: "'a::linorder list"
proof (induction xs)
  case (Cons x xs)
  then show ?case by (cases "P x") auto
qed simp

section \<open>Operations on leaves\<close>

lemma add_key_impl_leaf:
  assumes "view m a = Some (leaf t l)" "sorted l"
  shows "\<exists>m'. add_key_impl a key m = Some m' \<and> view m' = (view m)(a \<mapsto> leaf t (ins key l))"
  using view_store [OF assms(1), of "leaf t (ins key l)"] assms sorted_ins [OF assms(2)]
  by (simp add: add_key_impl_def ins_upper_bound)

lemma add_key_leaf:
  assumes "view m a = Some (leaf t l)" "sorted l"
  shows "\<exists>m'. add_key a key m = Some m' \<and> view m' = (view m)(a \<mapsto> leaf t (ins key l))"
  using add_key_impl_leaf [OF assms] assms(1) by (subst add_key.simps) (simp add: is_leaf_def)

lemma copy_keys_leaf:
  assumes "c \<noteq> d"
  shows "view m c = Some (leaf t kc) \<Longrightarrow> view m d = Some (leaf t kd) \<Longrightarrow> sorted (kd @ map ((!) kc) js) \<Longrightarrow> \<forall>j \<in> set js. j < length kc \<Longrightarrow>
    \<exists>m'. copy_keys js c d m = Some m' \<and> view m' = (view m)(d \<mapsto> leaf t (kd @ map ((!) kc) js))"
proof (induction js arbitrary: m kd)
  case Nil
  then show ?case by (simp add: map_upd_triv)
next
  case (Cons j js)
  have "sorted kd" "\<forall>x \<in> set kd. x \<le> kc ! j" using Cons.prems(3) by (auto simp: sorted_append)
  then obtain m1 where m1: "add_key_impl d (kc ! j) m = Some m1" "view m1 = (view m)(d \<mapsto> leaf t (kd @ [kc ! j]))"
    using add_key_impl_leaf [OF Cons.prems(2), of "kc ! j"] ins_last [of kd "kc ! j"] by auto
  have "\<exists>m'. copy_keys js c d m1 = Some m' \<and> view m' = (view m1)(d \<mapsto> leaf t ((kd @ [kc ! j]) @ map ((!) kc) js))"
    by (rule Cons.IH) (use Cons.prems m1 assms in auto)
  with m1 Cons.prems show ?case by (auto simp: get_key_def add_key_new_def is_leaf_def)
qed

lemma remove_keys_leaf:
  assumes "sorted (ka @ kb)"
  shows "view m c = Some (leaf t (ka @ kb)) \<Longrightarrow>
    \<exists>m'. remove_keys (rev [length ka..<length ka + length kb]) c m = Some m' \<and> view m' = (view m)(c \<mapsto> leaf t ka)"
  using assms
proof (induction kb arbitrary: m rule: rev_induct)
  case Nil
  then show ?case by (simp add: map_upd_triv)
next
  case (snoc x kb)
  have "remove1 x (ka @ kb @ [x]) = ka @ kb" using remove1_last [of "ka @ kb" x] snoc.prems(2) by simp
  with view_store [OF snoc.prems(1), of "leaf t (ka @ kb)"] snoc.prems(1)
  obtain m1 where m1: "remove_key c x m = Some m1" "view m1 = (view m)(c \<mapsto> leaf t (ka @ kb))"
    by (auto simp: remove_key_def)
  have "\<exists>m'. remove_keys (rev [length ka..<length ka + length kb]) c m1 = Some m' \<and> view m' = (view m1)(c \<mapsto> leaf t ka)"
    by (rule snoc.IH) (use m1 snoc.prems in \<open>auto simp: sorted_append\<close>)
  moreover have "get_key c (length ka + length kb) m = Some x" using snoc.prems(1) by (simp add: get_key_def nth_append)
  ultimately show ?case using m1 by (auto simp: fun_upd_def fun_eq_iff)
qed

text \<open>The split of a full leaf.\<close>

lemma split_leaf:
  assumes a: "view m a = Some \<lparr>degree = t, keys = ks1 @ ks2, children = C1 @ c # C2\<rparr>" and c: "view m c = Some (leaf t (la @ x # lb))"
    and len: "length la = t - 1" "length lb = t - 1" "1 \<le> t" "length ks1 = length C1" and ac: "a \<noteq> c"
    and sorted: "sorted (la @ x # lb)" "sorted (ks1 @ x # ks2)"
  shows "\<exists>m' d. split_child a (length C1) c m = Some m' \<and> view m d = None \<and>
    view m' = (view m)(c \<mapsto> leaf t la, d \<mapsto> leaf t lb, a \<mapsto> \<lparr>degree = t, keys = ks1 @ x # ks2, children = C1 @ c # d # C2\<rparr>)"
proof -
  obtain d m1 where new: "new_node t m = (d, m1)" by fastforce
  note n = view_new [OF new]
  have d: "d \<noteq> a" "d \<noteq> c" using n a c by auto
  let ?js = "map (\<lambda>j. j + t) [0..<t - 1]"
  have "map ((!) (la @ x # lb)) ?js = lb"
  proof (rule nth_equalityI)
    fix i
    assume "i < length (map ((!) (la @ x # lb)) ?js)"
    then have i: "i < t - 1" by simp
    then obtain j where "i + t = length la + Suc j" "j = i" using len by force
    then have "(la @ x # lb) ! (i + t) = lb ! i" by (simp only: nth_append_length_plus nth_Cons_Suc)
    with i show "map ((!) (la @ x # lb)) ?js ! i = lb ! i" by simp
  qed (use len in simp)
  then have "\<exists>m2. copy_keys ?js c d m1 = Some m2 \<and> view m2 = (view m1)(d \<mapsto> leaf t ([] @ lb))"
    using copy_keys_leaf [of c d m1 t "la @ x # lb" "[]" ?js] d n c sorted(1) len by (auto simp: sorted_append)
  then obtain m2 where m2: "copy_keys ?js c d m1 = Some m2" "view m2 = (view m1)(d \<mapsto> leaf t lb)" by auto
  have va: "view m2 a = Some \<lparr>degree = t, keys = ks1 @ ks2, children = C1 @ c # C2\<rparr>" and vc: "view m2 c = Some (leaf t (la @ x # lb))"
    using m2(2) n a c d by auto
  obtain m3 where m3: "add_child_by_index a (length C1 + 1) d m2 = Some m3"
    "view m3 = (view m2)(a \<mapsto> \<lparr>degree = t, keys = ks1 @ ks2, children = C1 @ c # d # C2\<rparr>)"
    using view_store [OF va, of "\<lparr>degree = t, keys = ks1 @ ks2, children = C1 @ c # d # C2\<rparr>"] va
    by (auto simp: add_child_by_index_def insert_at_def)
  have va3: "view m3 a = Some \<lparr>degree = t, keys = ks1 @ ks2, children = C1 @ c # d # C2\<rparr>" using m3(2) by simp
  have k: "get_key c (t - 1) m3 = Some x" using m3(2) vc ac len by (simp add: get_key_def nth_append)
  obtain m4 where m4: "add_key_by_index a (length C1) x m3 = Some m4"
    "view m4 = (view m3)(a \<mapsto> \<lparr>degree = t, keys = ks1 @ x # ks2, children = C1 @ c # d # C2\<rparr>)"
    using view_store [OF va3, of "\<lparr>degree = t, keys = ks1 @ x # ks2, children = C1 @ c # d # C2\<rparr>"] va3 sorted(2)
    by (auto simp: add_key_by_index_def insert_at_def simp flip: len(4))
  have "view m4 c = Some (leaf t (la @ x # lb))" using m4(2) m3(2) vc ac by simp
  from remove_keys_leaf [OF sorted(1) this] obtain m5 where
    m5: "remove_keys (rev [length la..<length la + length (x # lb)]) c m4 = Some m5" "view m5 = (view m4)(c \<mapsto> leaf t la)" by blast
  have js: "[length la..<length la + length (x # lb)] = [t - 1..<2 * t - 1]" using len by (simp add: mult_2 del: upt_Suc)
  have "split_child a (length C1) c m = Some m5"
    using a c new m2(1) vc m3(1) k m4(1) m5(1) js
    by (simp add: split_child_def is_leaf_def Let_def del: upt_Suc)
  moreover have "view m5 = (view m)(c \<mapsto> leaf t la, d \<mapsto> leaf t lb, a \<mapsto> \<lparr>degree = t, keys = ks1 @ x # ks2, children = C1 @ c # d # C2\<rparr>)"
    using m5(2) m4(2) m3(2) m2(2) n d ac by (auto simp: fun_eq_iff)
  ultimately show ?thesis using n by blast
qed

section \<open>Two levels\<close>

definition left_part :: "'a list \<Rightarrow> 'a list list \<Rightarrow> 'a list" where
  "left_part ks L = concat (map2 (\<lambda>l k. l @ [k]) L ks)"

definition right_part :: "'a list \<Rightarrow> 'a list list \<Rightarrow> 'a list" where
  "right_part ks L = concat (map2 (\<lambda>k l. k # l) ks L)"

definition inorder :: "'a list \<Rightarrow> 'a list list \<Rightarrow> 'a list" where
  "inorder ks L = hd L @ right_part ks (tl L)"

definition level_memory :: "nat \<Rightarrow> nat \<Rightarrow> 'a list \<Rightarrow> nat list \<Rightarrow> 'a list list \<Rightarrow> nat \<Rightarrow> 'a bnode option" where
  "level_memory t r ks cs L = (map_of (zip cs (map (leaf t) L)))(r \<mapsto> \<lparr>degree = t, keys = ks, children = cs\<rparr>)"

definition two_level :: "nat \<Rightarrow> 'a::linorder bmem \<Rightarrow> nat \<Rightarrow> 'a list \<Rightarrow> nat list \<Rightarrow> 'a list list \<Rightarrow> bool" where
  "two_level t m r ks cs L \<longleftrightarrow>
     view m = level_memory t r ks cs L \<and> distinct (r # cs) \<and> length L = length cs \<and> length cs = Suc (length ks) \<and>
     sorted (inorder ks L) \<and> (\<forall>l \<in> set L. t - 1 \<le> length l \<and> length l \<le> 2 * t - 1)"

lemma left_part_simps [simp]: "left_part [] [] = []" "left_part (k # ks) (l # L) = l @ k # left_part ks L"
  by (simp_all add: left_part_def)

lemma right_part_simps [simp]: "right_part [] L = []" "right_part (k # ks) (l # L) = k # l @ right_part ks L"
  by (simp_all add: right_part_def)

lemma inorder_split:
  "length L1 = length ks1 \<Longrightarrow> inorder (ks1 @ ks2) (L1 @ l # L2) = left_part ks1 L1 @ l @ right_part ks2 L2"
proof (induction L1 ks1 rule: list_induct2)
  case (Cons l1 L1 k ks1)
  then show ?case by (cases L1) (auto simp: inorder_def)
qed (simp add: inorder_def)

lemma left_part_le: "length L = length ks \<Longrightarrow> sorted (left_part ks L) \<Longrightarrow> \<forall>k \<in> set ks. P k \<Longrightarrow> (\<And>x y. x \<le> y \<Longrightarrow> P y \<Longrightarrow> P x) \<Longrightarrow>
  \<forall>x \<in> set (left_part ks L). P x" for ks :: "'a::linorder list"
  by (induction L ks rule: list_induct2) (auto simp: sorted_append)

lemma right_part_ge: "length L = length ks \<Longrightarrow> sorted (right_part ks L) \<Longrightarrow> \<forall>k \<in> set ks. P k \<Longrightarrow> (\<And>x y. x \<le> y \<Longrightarrow> P x \<Longrightarrow> P y) \<Longrightarrow>
  \<forall>x \<in> set (right_part ks L). P x" for ks :: "'a::linorder list"
  by (induction L ks rule: list_induct2) (auto simp: sorted_append)

lemma map_of_zip_middle:
  "length L1 = length C1 \<Longrightarrow> c \<notin> set C1 \<Longrightarrow> map_of (zip (C1 @ c # C2) (map f (L1 @ l # L2))) = (map_of (zip (C1 @ C2) (map f (L1 @ L2))))(c \<mapsto> f l)"
  by (induction L1 C1 rule: list_induct2) (auto simp: fun_upd_twist)

lemma level_memory_middle:
  "length L1 = length C1 \<Longrightarrow> distinct (r # C1 @ c # C2) \<Longrightarrow>
    level_memory t r ks (C1 @ c # C2) (L1 @ l # L2) =
      (map_of (zip (C1 @ C2) (map (leaf t) (L1 @ L2))))(c \<mapsto> leaf t l, r \<mapsto> \<lparr>degree = t, keys = ks, children = C1 @ c # C2\<rparr>)"
  by (simp add: level_memory_def map_of_zip_middle del: zip_append map_append zip_append2)

lemma left_part_keys: "length L = length ks \<Longrightarrow> set ks \<subseteq> set (left_part ks L) \<and> (sorted (left_part ks L) \<longrightarrow> sorted ks)"
  for ks :: "'a::linorder list"
  by (induction L ks rule: list_induct2) (auto simp: sorted_append)

lemma right_part_keys: "length L = length ks \<Longrightarrow> set ks \<subseteq> set (right_part ks L) \<and> (sorted (right_part ks L) \<longrightarrow> sorted ks)"
  for ks :: "'a::linorder list"
  by (induction L ks rule: list_induct2) (auto simp: sorted_append)

lemma level_memory_None: "length L = length cs \<Longrightarrow> level_memory t r ks cs L a = None \<longleftrightarrow> a \<notin> set (r # cs)"
  by (auto simp: level_memory_def map_of_zip_is_None)

text \<open>Insertion into a leaf that is not full, between the keys that surround it.\<close>

lemma insert_child:
  assumes tl: "two_level t m r (ks1 @ ks2) (C1 @ c # C2) (L1 @ l # L2)"
    and len: "length C1 = length ks1" "length L1 = length ks1" "length l < 2 * t - 1"
    and bounds: "\<forall>k \<in> set ks1. k \<le> key" "\<forall>k \<in> set ks2. key \<le> k"
  shows "\<exists>m'. add_key c key m = Some m' \<and> two_level t m' r (ks1 @ ks2) (C1 @ c # C2) (L1 @ ins key l # L2)"
proof -
  note t = tl [unfolded two_level_def]
  have d: "distinct (r # C1 @ c # C2)" and L2: "length L2 = length ks2" using t len by auto
  have mem: "view m = level_memory t r (ks1 @ ks2) (C1 @ c # C2) (L1 @ l # L2)" using t by blast
  have sorted: "sorted (left_part ks1 L1 @ l @ right_part ks2 L2)" using t inorder_split [of L1 ks1 ks2 l L2] len by simp
  have c: "view m c = Some (leaf t l)" using mem level_memory_middle [of L1 C1 r c C2] d len by auto
  obtain m' where m': "add_key c key m = Some m'" "view m' = (view m)(c \<mapsto> leaf t (ins key l))"
    using add_key_leaf [OF c, of key] sorted by (auto simp: sorted_append)
  have "view m' = level_memory t r (ks1 @ ks2) (C1 @ c # C2) (L1 @ ins key l # L2)"
    using m'(2) mem level_memory_middle [of L1 C1 r c C2] d len by (auto simp: fun_eq_iff)
  moreover have "sorted (left_part ks1 L1 @ ins key l @ right_part ks2 L2)"
    using sorted left_part_le [of L1 ks1 "\<lambda>x. x \<le> key"] right_part_ge [of L2 ks2 "\<lambda>x. key \<le> x"] len L2 bounds sorted_ins [of l key]
    by (auto simp: sorted_append)
  ultimately have "two_level t m' r (ks1 @ ks2) (C1 @ c # C2) (L1 @ ins key l # L2)"
    using t len inorder_split [of L1 ks1 ks2 "ins key l" L2] by (auto simp: two_level_def)
  with m'(1) show ?thesis by blast
qed

text \<open>The split of a full leaf under the root.\<close>

lemma split_leaf_level:
  assumes tl: "two_level t m r (ks1 @ ks2) (C1 @ c # C2) (L1 @ (la @ x # lb) # L2)"
    and len: "length C1 = length ks1" "length L1 = length ks1" "length la = t - 1" "length lb = t - 1" "1 \<le> t"
  shows "\<exists>m' d. split_child r (length ks1) c m = Some m' \<and>
    two_level t m' r (ks1 @ x # ks2) (C1 @ c # d # C2) (L1 @ la # lb # L2)"
proof -
  note t = tl [unfolded two_level_def]
  have d: "distinct (r # C1 @ c # C2)" and L2: "length L2 = length ks2" "length L2 = length C2" using t len by auto
  have mem: "view m = level_memory t r (ks1 @ ks2) (C1 @ c # C2) (L1 @ (la @ x # lb) # L2)" using t by blast
  have sorted: "sorted (left_part ks1 L1 @ (la @ x # lb) @ right_part ks2 L2)"
    using t inorder_split [of L1 ks1 ks2 "la @ x # lb" L2] len by simp
  note lm = level_memory_middle [of L1 C1 r c C2, OF _ d]
  have c: "view m c = Some (leaf t (la @ x # lb))" and r: "view m r = Some \<lparr>degree = t, keys = ks1 @ ks2, children = C1 @ c # C2\<rparr>"
    using mem lm d len by auto
  have lp: "\<forall>k \<in> set ks1. k \<le> x" and rp: "\<forall>k \<in> set ks2. x \<le> k" and s: "sorted ks1" "sorted ks2"
    using sorted left_part_keys [of L1 ks1] right_part_keys [of L2 ks2] len L2 by (auto simp: sorted_append)
  have s': "sorted (ks1 @ x # ks2)" using s lp rp by (auto simp: sorted_append intro: order_trans)
  obtain m' d' where m': "split_child r (length C1) c m = Some m'" "view m d' = None"
    "view m' = (view m)(c \<mapsto> leaf t la, d' \<mapsto> leaf t lb, r \<mapsto> \<lparr>degree = t, keys = ks1 @ x # ks2, children = C1 @ c # d' # C2\<rparr>)"
    using split_leaf [OF r c] len d sorted s' by (auto simp: sorted_append)
  have fresh: "d' \<notin> set (r # C1 @ c # C2)"
    using m'(2) mem level_memory_None [of "L1 @ (la @ x # lb) # L2" "C1 @ c # C2"] len L2 by auto
  have "view m' = level_memory t r (ks1 @ x # ks2) (C1 @ c # d' # C2) (L1 @ la # lb # L2)"
    using m'(3) mem lm len d fresh level_memory_middle [of "L1 @ [la]" "C1 @ [c]" r d' C2 t "ks1 @ x # ks2" lb L2]
      map_of_zip_middle [of L1 C1 c C2 "leaf t" la L2]
    by (auto simp: fun_eq_iff)
  moreover have "inorder (ks1 @ x # ks2) (L1 @ la # lb # L2) = left_part ks1 L1 @ (la @ x # lb) @ right_part ks2 L2"
    using inorder_split [of L1 ks1 "x # ks2" la "lb # L2"] len by simp
  ultimately have "two_level t m' r (ks1 @ x # ks2) (C1 @ c # d' # C2) (L1 @ la # lb # L2)"
    using t sorted fresh len by (auto simp: two_level_def)
  with m'(1) len show ?thesis by auto
qed

lemma two_level_parts:
  assumes "length cs = Suc (length ks)" "length L = length cs" "ks = ks1 @ ks2"
  obtains C1 c C2 L1 l L2 where "cs = C1 @ c # C2" "L = L1 @ l # L2" "length C1 = length ks1" "length L1 = length ks1"
    "length L2 = length ks2" "length C2 = length ks2"
proof -
  have i: "length ks1 < length cs" "length ks1 < length L" using assms by auto
  show ?thesis
    by (rule that [OF id_take_nth_drop [OF i(1)] id_take_nth_drop [OF i(2)]]) (use assms i in auto)
qed

lemma split_middle:
  assumes "length l = 2 * t - 1" "1 \<le> t"
  obtains la x lb where "l = la @ x # lb" "length la = t - 1" "length lb = t - 1"
proof -
  have "t - 1 < length l" using assms by simp
  from that [OF id_take_nth_drop [OF this]] show ?thesis using assms by auto
qed

lemma load_root: "two_level t m r ks cs L \<Longrightarrow> view m r = Some \<lparr>degree = t, keys = ks, children = cs\<rparr>"
  by (simp add: two_level_def level_memory_def)

lemma load_child:
  assumes "two_level t m r ks (C1 @ c # C2) (L1 @ l # L2)" "length L1 = length C1"
  shows "view m c = Some (leaf t l)"
  using assms level_memory_middle [of L1 C1 r c C2] by (simp add: two_level_def)

lemma two_level_keys: "two_level t m r ks cs L \<Longrightarrow> sorted ks"
  using right_part_keys [of "tl L" ks] by (simp add: two_level_def inorder_def sorted_append)

text \<open>A full leaf is split and the key goes into the half on its side.\<close>

lemma split_insert:
  assumes tl: "two_level t m r (ks1 @ ks2) (C1 @ c # C2) (L1 @ l # L2)"
    and len: "length C1 = length ks1" "length L1 = length ks1" "length l = 2 * t - 1" "1 \<le> t"
    and bounds: "\<forall>k \<in> set ks1. k \<le> key" "\<forall>k \<in> set ks2. key \<le> k"
  shows "\<exists>m1 x c' m2 cs' L'. split_child r (length ks1) c m = Some m1 \<and> get_key r (length ks1) m1 = Some x \<and>
    get_child r (if x < key then length ks1 + 1 else length ks1) m1 = Some c' \<and> add_key c' key m1 = Some m2 \<and>
    two_level t m2 r (ks1 @ x # ks2) cs' L' \<and>
    mset (inorder (ks1 @ x # ks2) L') = add_mset key (mset (inorder (ks1 @ ks2) (L1 @ l # L2)))"
proof -
  obtain la x lb where l: "l = la @ x # lb" and ll: "length la = t - 1" "length lb = t - 1"
    using split_middle [OF len(3,4)] by metis
  from split_leaf_level [OF tl [unfolded l] len(1,2) ll len(4)]
  obtain m1 d where m1: "split_child r (length ks1) c m = Some m1" and t1: "two_level t m1 r (ks1 @ x # ks2) (C1 @ c # d # C2) (L1 @ la # lb # L2)"
    by auto
  have k: "get_key r (length ks1) m1 = Some x" using load_root [OF t1] by (simp add: get_key_def)
  have e: "inorder (ks1 @ ks2) (L1 @ l # L2) = left_part ks1 L1 @ (la @ x # lb) @ right_part ks2 L2"
    using inorder_split [of L1 ks1 ks2 l L2] len l by simp
  show ?thesis
  proof (cases "x < key")
    case True
    have "\<exists>m2. add_key d key m1 = Some m2 \<and> two_level t m2 r ((ks1 @ [x]) @ ks2) ((C1 @ [c]) @ d # C2) ((L1 @ [la]) @ ins key lb # L2)"
      by (rule insert_child) (use t1 len ll bounds True in auto)
    then obtain m2 where m2: "add_key d key m1 = Some m2" "two_level t m2 r (ks1 @ x # ks2) (C1 @ c # d # C2) (L1 @ la # ins key lb # L2)" by auto
    have "get_child r (length ks1 + 1) m1 = Some d" using load_root [OF t1] len by (simp add: get_child_def nth_append)
    moreover have "mset (inorder (ks1 @ x # ks2) (L1 @ la # ins key lb # L2)) = add_mset key (mset (inorder (ks1 @ ks2) (L1 @ l # L2)))"
      using inorder_split [of L1 ks1 "x # ks2" la "ins key lb # L2"] len e by simp
    ultimately show ?thesis using m1 k m2 True
      by (intro exI [of _ m1] exI [of _ x] exI [of _ d] exI [of _ m2] exI [of _ "C1 @ c # d # C2"] exI [of _ "L1 @ la # ins key lb # L2"]) simp
  next
    case False
    have "\<exists>m2. add_key c key m1 = Some m2 \<and> two_level t m2 r (ks1 @ x # ks2) (C1 @ c # d # C2) (L1 @ ins key la # lb # L2)"
      by (rule insert_child [OF t1]) (use len ll bounds False in auto)
    then obtain m2 where m2: "add_key c key m1 = Some m2" "two_level t m2 r (ks1 @ x # ks2) (C1 @ c # d # C2) (L1 @ ins key la # lb # L2)" by auto
    have "get_child r (length ks1) m1 = Some c" using load_root [OF t1] len by (simp add: get_child_def nth_append)
    moreover have "mset (inorder (ks1 @ x # ks2) (L1 @ ins key la # lb # L2)) = add_mset key (mset (inorder (ks1 @ ks2) (L1 @ l # L2)))"
      using inorder_split [of L1 ks1 "x # ks2" "ins key la" "lb # L2"] len e by simp
    ultimately show ?thesis using m1 k m2 False
      by (intro exI [of _ m1] exI [of _ x] exI [of _ c] exI [of _ m2] exI [of _ "C1 @ c # d # C2"] exI [of _ "L1 @ ins key la # lb # L2"]) simp
  qed
qed

lemma left_part_length: "length L = length ks \<Longrightarrow> \<forall>l \<in> set L. t - 1 \<le> length l \<Longrightarrow> length ks * t \<le> length (left_part ks L)"
  by (induction L ks rule: list_induct2) auto

lemma right_part_length: "length L = length ks \<Longrightarrow> \<forall>l \<in> set L. t - 1 \<le> length l \<Longrightarrow> length ks * t \<le> length (right_part ks L)"
  by (induction L ks rule: list_induct2) auto

lemma inorder_length:
  assumes "two_level t m r (ks1 @ ks2) cs (L1 @ l # L2)" "length L1 = length ks1" "length l = 2 * t - 1" "1 \<le> t"
  shows "(length (ks1 @ ks2) + 2) * t \<le> Suc (length (inorder (ks1 @ ks2) (L1 @ l # L2)))"
proof -
  have "length L2 = length ks2" using assms by (auto simp: two_level_def)
  moreover have "length ks1 * t \<le> length (left_part ks1 L1)" "length ks2 * t \<le> length (right_part ks2 L2)"
    using left_part_length [of L1 ks1 t] right_part_length [of L2 ks2 t] assms calculation by (auto simp: two_level_def)
  ultimately show ?thesis using assms inorder_split [of L1 ks1 ks2 l L2] by (simp add: algebra_simps)
qed

lemma add_key_root:
  assumes tl: "two_level t m r ks cs L" and t: "1 \<le> t"
  shows "\<exists>m' ks' cs' L'. add_key r key m = Some m' \<and> two_level t m' r ks' cs' L' \<and>
    mset (inorder ks' L') = add_mset key (mset (inorder ks L)) \<and>
    (ks' = ks \<or> length ks' = Suc (length ks) \<and> (length ks' + 1) * t \<le> length (inorder ks' L'))"
proof -
  define ks1 where "ks1 = takeWhile (\<lambda>k. \<not> key < k) ks"
  define ks2 where "ks2 = dropWhile (\<lambda>k. \<not> key < k) ks"
  have ks: "ks = ks1 @ ks2" by (simp add: ks1_def ks2_def)
  have idx: "upper_bound ks key = length ks1" by (simp add: upper_bound_def ks1_def)
  obtain C1 c C2 L1 l L2 where p: "cs = C1 @ c # C2" "L = L1 @ l # L2" "length C1 = length ks1" "length L1 = length ks1"
    "length L2 = length ks2" "length C2 = length ks2"
    using two_level_parts [of cs ks L ks1 ks2] tl ks unfolding two_level_def by metis
  have sorted: "sorted ks" by (rule two_level_keys [OF tl])
  have b1: "\<forall>k \<in> set ks1. k \<le> key" unfolding ks1_def using set_takeWhileD by fastforce
  have b2: "\<forall>k \<in> set ks2. \<not> \<not> key < k" unfolding ks2_def by (rule takeWhile_sorted [OF sorted]) auto
  then have b2: "\<forall>k \<in> set ks2. key \<le> k" by auto
  note bounds = b1 b2
  note tl' = tl [unfolded ks p(1,2)]
  note r = load_root [OF tl'] and c = load_child [OF tl', unfolded p(3,4), OF refl]
  have child: "get_child r (length ks1) m = Some c" using r p by (simp add: get_child_def nth_append)
  have leaf: "is_leaf r m = Some False" using r by (simp add: is_leaf_def)
  have full: "is_keys_full c m = Some (length l = 2 * t - 1)" using c t by (auto simp: is_keys_full_def)
  have upper: "upper_bound (ks1 @ ks2) key = length ks1" using idx ks by simp
  show ?thesis
  proof (cases "length l = 2 * t - 1")
    case True
    from split_insert [OF tl' p(3,4) True t bounds]
    obtain m1 x c' m2 cs' L' where h: "split_child r (length ks1) c m = Some m1" "get_key r (length ks1) m1 = Some x"
      "get_child r (if x < key then length ks1 + 1 else length ks1) m1 = Some c'" "add_key c' key m1 = Some m2"
      "two_level t m2 r (ks1 @ x # ks2) cs' L'"
      "mset (inorder (ks1 @ x # ks2) L') = add_mset key (mset (inorder (ks1 @ ks2) (L1 @ l # L2)))" by blast
    have "add_key r key m = Some m2"
      by (subst add_key.simps) (use leaf r child full True h(1-4) upper in simp)
    moreover have "length (inorder (ks1 @ x # ks2) L') = Suc (length (inorder (ks1 @ ks2) (L1 @ l # L2)))"
      using arg_cong [OF h(6), of size] by simp
    ultimately show ?thesis using h(5,6) ks p inorder_length [OF tl' p(4) True t] by (intro exI conjI) auto
  next
    case False
    then have "length l < 2 * t - 1" using tl p(2) by (auto simp: two_level_def)
    from insert_child [OF tl' p(3,4) this bounds]
    obtain m' where h: "add_key c key m = Some m'" "two_level t m' r (ks1 @ ks2) (C1 @ c # C2) (L1 @ ins key l # L2)" by blast
    have "add_key r key m = Some m'"
      by (subst add_key.simps) (use leaf r child full False h(1) upper in simp)
    moreover have "mset (inorder (ks1 @ ks2) (L1 @ ins key l # L2)) = add_mset key (mset (inorder (ks1 @ ks2) (L1 @ l # L2)))"
      using inorder_split [of L1 ks1 ks2 _ L2] p by simp
    ultimately show ?thesis using h(2) ks p by blast
  qed
qed

section \<open>The tree\<close>

definition one_level :: "nat \<Rightarrow> 'a::linorder bmem \<Rightarrow> nat \<Rightarrow> 'a list \<Rightarrow> bool" where
  "one_level t m r l \<longleftrightarrow> view m = [r \<mapsto> leaf t l] \<and> sorted l \<and> length l \<le> 2 * t - 1"

definition holds_keys :: "'a::linorder btree \<Rightarrow> 'a multiset \<Rightarrow> bool" where
  "holds_keys T M \<longleftrightarrow>
     (case root T of
        None \<Rightarrow> memory T = [] \<and> M = {#}
      | Some r \<Rightarrow>
          (\<exists>l. one_level (min_degree T) (memory T) r l \<and> mset l = M) \<or>
          (\<exists>ks cs L. two_level (min_degree T) (memory T) r ks cs L \<and> mset (inorder ks L) = M \<and>
             (length ks + 1) * min_degree T \<le> size M))"

lemma insert_first:
  assumes "root T = None" "memory T = []" "1 \<le> min_degree T"
  shows "\<exists>T'. btree_insert key T = Some T' \<and> holds_keys T' {#key#} \<and> min_degree T' = min_degree T"
proof -
  obtain a m where new: "new_node (min_degree T) (memory T) = (a, m)" by fastforce
  have m: "view m = [a \<mapsto> leaf (min_degree T) []]"
    using view_new [OF new] assms(2) by simp
  then have "view m a = Some (leaf (min_degree T) [])" by simp
  from add_key_leaf [OF this, of key] obtain m' where
    m': "add_key a key m = Some m'" "view m' = (view m)(a \<mapsto> leaf (min_degree T) (ins key []))" by auto
  have "one_level (min_degree T) m' a [key]" using m'(2) m assms(3) by (simp add: one_level_def ins_def)
  then show ?thesis using new m'(1) assms by (simp add: btree_insert_def holds_keys_def)
qed

lemma insert_one_level:
  assumes r: "root T = Some r" and l: "one_level (min_degree T) (memory T) r l" and t: "1 \<le> min_degree T"
  shows "\<exists>T'. btree_insert key T = Some T' \<and> holds_keys T' (add_mset key (mset l)) \<and> min_degree T' = min_degree T"
proof (cases "length l = 2 * min_degree T - 1")
  case False
  let ?t = "min_degree T"
  have lr: "view (memory T) r = Some (leaf ?t l)" "sorted l" using l by (auto simp: one_level_def)
  from add_key_leaf [OF lr, of key] obtain m where
    m: "add_key r key (memory T) = Some m" "view m = (view (memory T))(r \<mapsto> leaf ?t (ins key l))" by auto
  have "one_level ?t m r (ins key l)" using m(2) l False sorted_ins [of l key] by (auto simp: one_level_def)
  moreover have "is_keys_full r (memory T) = Some False" using lr False t by (auto simp: is_keys_full_def)
  ultimately show ?thesis using r m(1) by (auto simp: btree_insert_def holds_keys_def intro!: exI [of _ "ins key l"])
next
  case True
  let ?t = "min_degree T"
  have lr: "view (memory T) = [r \<mapsto> leaf ?t l]" "sorted l" using l by (auto simp: one_level_def)
  obtain a m1 where new: "new_node ?t (memory T) = (a, m1)" by fastforce
  have ar: "a \<noteq> r" using view_new [OF new] lr by auto
  have "view m1 a = Some (leaf ?t [])" using view_new [OF new] by simp
  from view_store [OF this, of "\<lparr>degree = ?t, keys = [], children = [r]\<rparr>"] this
  obtain m2 where m2: "add_child a r m1 = Some m2" "view m2 = (view m1)(a \<mapsto> \<lparr>degree = ?t, keys = [], children = [r]\<rparr>)"
    by (auto simp: add_child_def)
  have "two_level ?t m2 a ([] @ []) ([] @ r # []) ([] @ l # [])"
    using m2(2) view_new [OF new] lr ar True l by (auto simp: two_level_def level_memory_def inorder_def)
  from split_insert [OF this _ _ True t, of key]
  obtain m3 x c m4 cs' L' where h: "split_child a 0 r m2 = Some m3" "get_key a 0 m3 = Some x"
    "get_child a (if x < key then 1 else 0) m3 = Some c" "add_key c key m3 = Some m4" "two_level ?t m4 a [x] cs' L'"
    "mset (inorder [x] L') = add_mset key (mset l)"
    by (auto simp: inorder_def cong: if_cong)
  have "is_keys_full r (memory T) = Some True" using lr True t by (auto simp: is_keys_full_def)
  then have ins: "btree_insert key T = Some (T\<lparr>root := Some a, memory := m4\<rparr>)"
    using r new m2(1) h(1-4) by (simp add: btree_insert_def)
  have "holds_keys (T\<lparr>root := Some a, memory := m4\<rparr>) (add_mset key (mset l))"
    using h(5,6) True t by (auto simp: holds_keys_def intro!: exI [of _ "[x]"] exI [of _ cs'] exI [of _ L'])
  then show ?thesis using ins by simp
qed

lemma insert_two_level:
  assumes r: "root T = Some r" and tl: "two_level (min_degree T) (memory T) r ks cs L" and t: "1 \<le> min_degree T"
    and n: "(length ks + 1) * min_degree T \<le> length (inorder ks L)" "length (inorder ks L) < 2 * min_degree T * min_degree T"
  shows "\<exists>T'. btree_insert key T = Some T' \<and> holds_keys T' (add_mset key (mset (inorder ks L))) \<and> min_degree T' = min_degree T"
proof -
  let ?t = "min_degree T"
  have "(length ks + 1) * ?t < (2 * ?t) * ?t" using n by linarith
  then have "length ks + 1 < 2 * ?t" by (metis mult_less_cancel2)
  then have "is_keys_full r (memory T) = Some False" using load_root [OF tl] by (auto simp: is_keys_full_def)
  moreover obtain m' ks' cs' L' where h: "add_key r key (memory T) = Some m'" "two_level ?t m' r ks' cs' L'"
    "mset (inorder ks' L') = add_mset key (mset (inorder ks L))"
    "ks' = ks \<or> length ks' = Suc (length ks) \<and> (length ks' + 1) * ?t \<le> length (inorder ks' L')"
    using add_key_root [OF tl t, of key] by blast
  have len: "length (inorder ks' L') = Suc (length (inorder ks L))" using arg_cong [OF h(3), of size] by simp
  have "(length ks' + 1) * ?t \<le> Suc (length (inorder ks L))" using h(4) n(1) unfolding len by auto
  then have "holds_keys (T\<lparr>memory := m'\<rparr>) (add_mset key (mset (inorder ks L)))"
    using h(2,3) r by (auto simp: holds_keys_def intro!: exI [of _ ks'] exI [of _ cs'] exI [of _ L'])
  ultimately show ?thesis using r h(1) by (auto simp: btree_insert_def)
qed

lemma insert_holds_keys:
  assumes "holds_keys T M" "size M < 2 * min_degree T * min_degree T"
  shows "\<exists>T'. btree_insert key T = Some T' \<and> holds_keys T' (add_mset key M) \<and> min_degree T' = min_degree T"
proof -
  have t: "1 \<le> min_degree T" using assms(2) by (cases "min_degree T") auto
  show ?thesis
  proof (cases "root T")
    case None
    then show ?thesis using insert_first [OF None _ t] assms(1) by (simp add: holds_keys_def)
  next
    case (Some r)
    then consider l where "one_level (min_degree T) (memory T) r l" "M = mset l" |
      ks cs L where "two_level (min_degree T) (memory T) r ks cs L" "M = mset (inorder ks L)" "(length ks + 1) * min_degree T \<le> size M"
      using assms(1) by (auto simp: holds_keys_def)
    then show ?thesis
    proof cases
      case 1
      then show ?thesis using insert_one_level [OF Some 1(1) t] by simp
    next
      case 2
      then show ?thesis using insert_two_level [OF Some 2(1) t] assms(2) by simp
    qed
  qed
qed

section \<open>Search\<close>

lemma hd_if_member: "sorted ks \<Longrightarrow> \<forall>k \<in> set ks. key \<le> k \<Longrightarrow> key \<in> set ks \<longleftrightarrow> ks \<noteq> [] \<and> hd ks = key"
  for key :: "'a::linorder"
  by (cases ks) (auto intro: order.antisym)

lemma lower_bound_split:
  assumes "sorted ks"
  obtains ks1 ks2 where "ks = ks1 @ ks2" "lower_bound ks key = length ks1" "\<forall>k \<in> set ks1. k < key" "\<forall>k \<in> set ks2. key \<le> k"
    "key \<in> set ks2 \<longleftrightarrow> ks2 \<noteq> [] \<and> hd ks2 = key"
proof -
  let ?ks2 = "dropWhile (\<lambda>k. k < key) ks"
  have s: "sorted ?ks2" using assms by (metis sorted_append takeWhile_dropWhile_id)
  have "\<forall>k \<in> set ?ks2. \<not> k < key" by (rule takeWhile_sorted [OF assms]) auto
  then have ge: "\<forall>k \<in> set ?ks2. key \<le> k" by (simp add: not_less)
  have iff: "key \<in> set ?ks2 \<longleftrightarrow> ?ks2 \<noteq> [] \<and> hd ?ks2 = key" by (rule hd_if_member [OF s ge])
  have tw: "\<forall>k \<in> set (takeWhile (\<lambda>k. k < key) ks). k < key" using set_takeWhileD by fastforce
  show ?thesis by (rule that [OF _ _ tw ge iff]) (simp_all add: lower_bound_def)
qed

lemma contains_leaf:
  assumes "view m a = Some (leaf t l)" "sorted l"
  shows "node_contains a key m = Some (key \<in> set l)"
proof -
  obtain ks1 ks2 where p: "l = ks1 @ ks2" "lower_bound l key = length ks1" "\<forall>k \<in> set ks1. k < key" "\<forall>k \<in> set ks2. key \<le> k"
    "key \<in> set ks2 \<longleftrightarrow> ks2 \<noteq> [] \<and> hd ks2 = key"
    by (rule lower_bound_split [OF assms(2)])
  show ?thesis
    using assms p by (cases ks2; subst node_contains.simps) (auto simp: get_key_def is_leaf_def nth_append)
qed

lemma contains_two_level:
  assumes tl: "two_level t m r ks cs L"
  shows "node_contains r key m = Some (key \<in> set (inorder ks L))"
proof -
  obtain ks1 ks2 where p: "ks = ks1 @ ks2" "lower_bound ks key = length ks1" "\<forall>k \<in> set ks1. k < key" "\<forall>k \<in> set ks2. key \<le> k"
    "key \<in> set ks2 \<longleftrightarrow> ks2 \<noteq> [] \<and> hd ks2 = key"
    by (rule lower_bound_split [OF two_level_keys [OF tl]])
  obtain C1 c C2 L1 l L2 where q: "cs = C1 @ c # C2" "L = L1 @ l # L2" "length C1 = length ks1" "length L1 = length ks1"
    "length L2 = length ks2" "length C2 = length ks2"
    using two_level_parts [of cs ks L ks1 ks2] tl p(1) unfolding two_level_def by metis
  note tl' = tl [unfolded p(1) q(1,2)]
  note r = load_root [OF tl'] and c = load_child [OF tl', unfolded q(3,4), OF refl]
  have e: "inorder ks L = left_part ks1 L1 @ l @ right_part ks2 L2" using inorder_split [of L1 ks1 ks2 l L2] p q by simp
  have sorted: "sorted (left_part ks1 L1)" "sorted l" "sorted (right_part ks2 L2)"
    using tl e by (auto simp: two_level_def sorted_append)
  have left: "\<forall>x \<in> set (left_part ks1 L1). x < key" by (rule left_part_le [OF q(4) sorted(1) p(3)]) auto
  show ?thesis
  proof (cases "ks2 \<noteq> [] \<and> hd ks2 = key")
    case True
    then have "key \<in> set (inorder ks L)" using e q(5) by (cases ks2; cases L2) auto
    with True r p(1,2) show ?thesis by (subst node_contains.simps) (auto simp: get_key_def is_leaf_def nth_append hd_conv_nth)
  next
    case False
    have "\<forall>k \<in> set ks2. key < k"
      using False p(4) two_level_keys [OF tl] p(1) by (cases ks2) (auto simp: sorted_append less_le)
    then have right: "\<forall>x \<in> set (right_part ks2 L2). key < x" by (rule right_part_ge [OF q(5) sorted(3)]) auto
    have "node_contains r key m = node_contains c key m"
      using r p(1,2) q False by (subst node_contains.simps) (cases ks2, auto simp: get_key_def get_child_def is_leaf_def nth_append)
    also have "\<dots> = Some (key \<in> set l)" by (rule contains_leaf [OF c sorted(2)])
    also have "key \<in> set l \<longleftrightarrow> key \<in> set (inorder ks L)" using e left right by auto
    finally show ?thesis .
  qed
qed

lemma contains_holds_keys: "holds_keys T M \<Longrightarrow> btree_contains key T = Some (key \<in># M)"
  by (auto simp: holds_keys_def btree_contains_def one_level_def contains_leaf contains_two_level split: option.splits)

text \<open>Up to \<open>2 t\<^sup>2\<close> keys the tree is a bag in the sense of the common contract.\<close>

definition btree_capacity :: "'a btree \<Rightarrow> nat option" where
  "btree_capacity T = Some (2 * min_degree T * min_degree T)"

interpretation btree: key_bag holds_keys btree_capacity btree_insert btree_contains
proof
  fix T :: "'a btree" and M and x
  assume "holds_keys T M" "fits (Suc (size M)) (btree_capacity T)"
  then show "\<exists>T'. btree_insert x T = Some T' \<and> holds_keys T' (add_mset x M) \<and> btree_capacity T' = btree_capacity T"
    using insert_holds_keys [of T M x] by (auto simp: btree_capacity_def fits_def)
qed (rule contains_holds_keys)

lemma insert_all_keys: "insert_all xs T = insert_keys btree_insert xs T"
  by (induction xs arbitrary: T) (auto split: option.splits bind_splits)

section \<open>Destruction\<close>

lemma destroy_leaves:
  "distinct cs \<Longrightarrow> \<forall>c \<in> set cs. \<exists>l. view m c = Some (leaf t l) \<Longrightarrow>
    \<exists>m'. destroy_children cs m = Some m' \<and> (\<forall>a. view m' a = (if a \<in> set cs then None else view m a))"
proof (induction cs arbitrary: m)
  case (Cons c cs)
  obtain l where c: "view m c = Some (leaf t l)" using Cons.prems by auto
  have none: "destroy_children [] m = Some m" by (subst destroy_children.simps) simp
  obtain m1 where m1: "delete c m = Some m1" "view m1 = (view m)(c := None)" using view_delete [OF c] by auto
  have rest: "\<forall>c' \<in> set cs. \<exists>l. view m1 c' = Some (leaf t l)" using Cons.prems m1(2) by auto
  obtain m' where m': "destroy_children cs m1 = Some m'" "\<forall>a. view m' a = (if a \<in> set cs then None else view m1 a)"
    using Cons.IH [of m1] Cons.prems(1) rest by auto
  have "destroy_children (c # cs) m = Some m'" using c none m1(1) m'(1) by (subst destroy_children.simps) simp
  with m' m1(2) show ?case by auto
qed (subst destroy_children.simps, simp)

lemma destroy_holds_keys:
  assumes "holds_keys T M"
  shows "\<exists>m. btree_destroy T = Some m \<and> set m \<subseteq> {None}"
proof (cases "root T")
  case None
  then show ?thesis using assms by (auto simp: holds_keys_def btree_destroy_def)
next
  case (Some r)
  have "\<exists>cs ks. view (memory T) r = Some \<lparr>degree = min_degree T, keys = ks, children = cs\<rparr> \<and> distinct (r # cs) \<and>
    (\<forall>c \<in> set cs. \<exists>l. view (memory T) c = Some (leaf (min_degree T) l)) \<and> (\<forall>a. a \<notin> set (r # cs) \<longrightarrow> view (memory T) a = None)"
    using assms Some
  proof (auto simp: holds_keys_def, goal_cases)
    case (1 l)
    then show ?case by (auto simp: one_level_def)
  next
    case (2 ks cs L)
    have "\<forall>c \<in> set cs. \<exists>l. view (memory T) c = Some (leaf (min_degree T) l)"
    proof
      fix c
      assume "c \<in> set cs"
      then obtain C1 C2 where C: "cs = C1 @ c # C2" by (meson split_list)
      have "length C1 < length L" using 2(2) C by (simp add: two_level_def)
      from id_take_nth_drop [OF this] load_child [of _ _ _ ks C1 c C2 "take (length C1) L" "L ! length C1"] 2(2) C
      show "\<exists>l. view (memory T) c = Some (leaf (min_degree T) l)" by (metis \<open>length C1 < length L\<close> length_take min.absorb4)
    qed
    moreover have "\<forall>a. a \<notin> set (r # cs) \<longrightarrow> view (memory T) a = None"
      using 2(2) level_memory_None [of L cs] by (simp add: two_level_def)
    ultimately show ?case using 2(2) load_root [OF 2(2)] by (auto simp: two_level_def)
  qed
  then obtain cs ks where h: "view (memory T) r = Some \<lparr>degree = min_degree T, keys = ks, children = cs\<rparr>" "distinct (r # cs)"
    "\<forall>c \<in> set cs. \<exists>l. view (memory T) c = Some (leaf (min_degree T) l)" "\<forall>a. a \<notin> set (r # cs) \<longrightarrow> view (memory T) a = None" by blast
  obtain m1 where m1: "destroy_children cs (memory T) = Some m1" "\<forall>a. view m1 a = (if a \<in> set cs then None else view (memory T) a)"
    using destroy_leaves [OF _ h(3)] h(2) by auto
  have "view m1 r = Some \<lparr>degree = min_degree T, keys = ks, children = cs\<rparr>" using m1(2) h(1,2) by auto
  from view_delete [OF this] obtain m2 where m2: "delete r m1 = Some m2" "view m2 = (view m1)(r := None)" by blast
  have "view m2 = (\<lambda>_. None)" using m2(2) m1(2) h(4) by (auto simp: fun_eq_iff)
  moreover have "btree_destroy T = Some m2" using Some h(1) m1(1) m2(1) by (simp add: btree_destroy_def node_destroy_def)
  ultimately show ?thesis using view_empty by blast
qed

section \<open>The promise of the tree and its limit\<close>

text \<open>
  C32: A B-tree of minimal degree t accepts any 2 t^2 keys: every insertion succeeds, \<open>Contains\<close> then answers
  membership among the inserted keys, and the destructor deletes every node exactly once.
\<close>

theorem b_tree_correct:
  "length xs \<le> 2 * t * t \<Longrightarrow>
    \<exists>T. insert_all xs (new_btree t) = Some T \<and> (\<forall>key. btree_contains key T = Some (key \<in> set xs)) \<and>
      (\<exists>m. btree_destroy T = Some m \<and> set m \<subseteq> {None})"
  for xs :: "'a::linorder list"
proof -
  assume "length xs \<le> 2 * t * t"
  moreover have "holds_keys (new_btree t) ({#} :: 'a multiset)" by (simp add: holds_keys_def new_btree_def)
  ultimately obtain T where T: "insert_all xs (new_btree t) = Some T" "holds_keys T (mset xs)"
    "\<forall>key. btree_contains key T = Some (key \<in># mset xs)"
    using btree.insert_keys_valid [of "new_btree t" "{#}" xs] by (auto simp: new_btree_def btree_capacity_def fits_def insert_all_keys)
  with destroy_holds_keys [OF T(2)] show ?thesis by simp
qed

theorem b_tree_correct_witness:
  "\<exists>T. insert_all [3, 1, 4, 1, 5, 9, 2, 6 :: nat] (new_btree 2) = Some T \<and>
    btree_contains 9 T = Some True \<and> btree_contains 7 T = Some False"
  using b_tree_correct [of "[3, 1, 4, 1, 5, 9, 2, 6 :: nat]" 2] by auto

text \<open>
  The bound is tight: the ninth key of a tree of degree two splits an inner node; the new node gets one child for its
  one key, and the insertion then asks for its second child.
\<close>

lemma b_tree_inner_split_fails: "insert_all [1, 2, 3, 4, 5, 6, 7, 8, 9 :: nat] (new_btree 2) = None"
  by code_simp

end
