(* ===== verification/Singleton.thy ===== *)
theory Singleton
  imports Prelude "HOL-Library.Monad_Syntax" "HOL-Library.Multiset_Order"
begin

text \<open>
  \<open>pattern/singleton/singleton.hpp\<close>: the functions that run at exit (\<open>TAtExit\<close>) and the lazily constructed singleton,
  with one step per atomic access of a thread. A pointer to a singleton is the number of the construction whose object it
  denotes; the constructor itself is the environment's: it returns, throws, or asks for the same singleton again.
\<close>

section \<open>Functions that run at exit\<close>

record 'f exit_func =
  ex_func :: 'f
  ex_priority :: nat
  ex_number :: nat

definition exit_less :: "'f exit_func \<Rightarrow> 'f exit_func \<Rightarrow> bool" where
  "exit_less l r \<longleftrightarrow> ex_priority l < ex_priority r \<or> ex_priority l = ex_priority r \<and> ex_number l < ex_number r"

record 'f at_exit_state =
  finish_started :: bool
  exit_store :: "'f exit_func list"
  exit_items :: "'f exit_func list"

definition new_at_exit :: "'f at_exit_state" where
  "new_at_exit = \<lparr>finish_started = False, exit_store = [], exit_items = []\<rparr>"

definition exit_register :: "'f \<Rightarrow> nat \<Rightarrow> 'f at_exit_state \<Rightarrow> 'f at_exit_state" where
  "exit_register f p a =
     (let c = \<lparr>ex_func = f, ex_priority = p, ex_number = length (exit_store a)\<rparr>
      in a\<lparr>exit_store := exit_store a @ [c], exit_items := c # exit_items a\<rparr>)"

text \<open>\<open>priority_queue::top\<close>: an element that is smaller than no other.\<close>

fun top_item :: "'f exit_func \<Rightarrow> 'f exit_func list \<Rightarrow> 'f exit_func" where
  "top_item c [] = c"
| "top_item c (d # ds) = top_item (if exit_less c d then d else c) ds"

text \<open>
  \<open>Finish\<close> with the functions it ran, in order. A function runs with the lock released; \<open>registers f\<close> is what is
  registered meanwhile, by \<open>f\<close> itself or by other threads. An exception of a function is dropped.
\<close>

partial_function (option) finish_loop :: "('f \<Rightarrow> ('f \<times> nat) list) \<Rightarrow> 'f at_exit_state \<Rightarrow> ('f exit_func list \<times> 'f at_exit_state) option" where
  "finish_loop registers a =
     (case exit_items a of
        [] \<Rightarrow> Some ([], a)
      | d # ds \<Rightarrow>
          let c = top_item d ds;
              a = a\<lparr>exit_items := remove1 c (exit_items a)\<rparr>;
              a = fold (\<lambda>(f, p). exit_register f p) (registers (ex_func c)) a
          in do { (called, a) \<leftarrow> finish_loop registers a; Some (c # called, a) })"

declare finish_loop.simps [code]

definition finish :: "('f \<Rightarrow> ('f \<times> nat) list) \<Rightarrow> 'f at_exit_state \<Rightarrow> ('f exit_func list \<times> 'f at_exit_state) option" where
  "finish registers a = finish_loop registers (a\<lparr>finish_started := True\<rparr>)"

text \<open>The instance behind \<open>atExitPtr\<close>; \<open>OnExit\<close> finishes and destroys it.\<close>

definition exit_instance :: "'f at_exit_state option \<Rightarrow> 'f at_exit_state" where
  "exit_instance g = (case g of Some a \<Rightarrow> a | None \<Rightarrow> new_at_exit)"

definition at_exit :: "'f \<Rightarrow> nat \<Rightarrow> 'f at_exit_state option \<Rightarrow> 'f at_exit_state option" where
  "at_exit f p g = Some (exit_register f p (exit_instance g))"

definition on_exit :: "('f \<Rightarrow> ('f \<times> nat) list) \<Rightarrow> 'f at_exit_state option \<Rightarrow> ('f exit_func list \<times> 'f at_exit_state option) option" where
  "on_exit registers g =
     (case g of None \<Rightarrow> Some ([], None) | Some a \<Rightarrow> do { (called, a) \<leftarrow> finish registers a; Some (called, None) })"

text \<open>
  \<open>Instance\<close>, called by any number of threads: the pointer is checked before and after the lock is taken.
  \<open>on_exit_count\<close> counts the registrations of \<open>OnExit\<close> with \<open>atexit\<close>, \<open>built\<close> the objects placed in \<open>atExitMem\<close>.
\<close>

datatype instance_pc = Inst_Load | Inst_Lock | Inst_Check | Inst_Atexit | Inst_New | Inst_Store | Inst_Unlock | Inst_Done

record instance_state =
  at_exit_ptr :: bool
  at_exit_lock :: "nat option"
  on_exit_count :: nat
  built :: nat
  instance_pcs :: "instance_pc list"

definition new_instance_state :: "nat \<Rightarrow> instance_state" where
  "new_instance_state n = \<lparr>at_exit_ptr = False, at_exit_lock = None, on_exit_count = 0, built = 0, instance_pcs = replicate n Inst_Load\<rparr>"

definition instance_goto :: "nat \<Rightarrow> instance_pc \<Rightarrow> instance_state \<Rightarrow> instance_state" where
  "instance_goto i pc s = s\<lparr>instance_pcs := (instance_pcs s)[i := pc]\<rparr>"

definition instance_step :: "nat \<Rightarrow> instance_state \<Rightarrow> instance_state" where
  "instance_step i s =
     (if i < length (instance_pcs s) then
        (case instance_pcs s ! i of
           Inst_Load \<Rightarrow> instance_goto i (if at_exit_ptr s then Inst_Done else Inst_Lock) s
         | Inst_Lock \<Rightarrow> (if at_exit_lock s = None then instance_goto i Inst_Check (s\<lparr>at_exit_lock := Some i\<rparr>) else s)
         | Inst_Check \<Rightarrow> instance_goto i (if at_exit_ptr s then Inst_Unlock else Inst_Atexit) s
         | Inst_Atexit \<Rightarrow> instance_goto i Inst_New (s\<lparr>on_exit_count := on_exit_count s + 1\<rparr>)
         | Inst_New \<Rightarrow> instance_goto i Inst_Store (s\<lparr>built := built s + 1\<rparr>)
         | Inst_Store \<Rightarrow> instance_goto i Inst_Unlock (s\<lparr>at_exit_ptr := True\<rparr>)
         | Inst_Unlock \<Rightarrow> instance_goto i Inst_Done (s\<lparr>at_exit_lock := None\<rparr>)
         | Inst_Done \<Rightarrow> s)
      else s)"

section \<open>The singleton\<close>

datatype singleton_pc =
    Load_Fast
  | Assert_Not_Owner
  | Try_Lock
  | Spin_Load
  | Spin_Lock
  | Load_Slow
  | Construct
  | Register_Destroyer nat
  | Store_Ptr nat
  | Assert_Owner "nat option"
  | Store_Unlocked "nat option"
  | Returned nat
  | Thrown
  | Aborted

datatype outcome = Normal | Throws | Recurses

text \<open>
  \<open>frames\<close> are the calls of each thread, the innermost first: a constructor that asks for its own singleton is a call
  inside \<open>Construct\<close>. \<open>objects\<close> are the objects constructed and not destroyed, \<open>returned_ptrs\<close> what calls have returned.
\<close>

record singleton =
  instance_ptr :: "nat option"
  init_lock :: "nat option"
  exits :: "nat at_exit_state option"
  constructed :: nat
  objects :: "nat list"
  frames :: "singleton_pc list list"
  returned_ptrs :: "nat list"

definition new_singleton :: "nat \<Rightarrow> singleton" where
  "new_singleton n =
     \<lparr>instance_ptr = None, init_lock = None, exits = None, constructed = 0, objects = [], frames = replicate n [Load_Fast], returned_ptrs = []\<rparr>"

definition goto :: "nat \<Rightarrow> singleton_pc \<Rightarrow> singleton_pc list \<Rightarrow> singleton \<Rightarrow> singleton" where
  "goto i pc rest s = s\<lparr>frames := (frames s)[i := pc # rest]\<rparr>"

text \<open>\<open>compare_exchange_strong\<close> of the owner, from nobody to the thread.\<close>

definition my_atomic_try_lock :: "nat \<Rightarrow> singleton \<Rightarrow> bool \<times> singleton" where
  "my_atomic_try_lock i s = (if init_lock s = None then (True, s\<lparr>init_lock := Some i\<rparr>) else (False, s))"

definition lock_recursive_step :: "nat \<Rightarrow> singleton_pc \<Rightarrow> singleton_pc list \<Rightarrow> singleton \<Rightarrow> singleton" where
  "lock_recursive_step i pc rest s =
     (case pc of
        Assert_Not_Owner \<Rightarrow> goto i (if init_lock s \<noteq> Some i then Try_Lock else Aborted) rest s
      | Try_Lock \<Rightarrow> (let (ok, s) = my_atomic_try_lock i s in goto i (if ok then Load_Slow else Spin_Load) rest s)
      | Spin_Load \<Rightarrow> goto i (if init_lock s = None then Spin_Lock else Spin_Load) rest s
      | Spin_Lock \<Rightarrow> (let (ok, s) = my_atomic_try_lock i s in goto i (if ok then Load_Slow else Spin_Load) rest s)
      | _ \<Rightarrow> s)"

definition unlock_recursive_step :: "nat \<Rightarrow> singleton_pc \<Rightarrow> singleton_pc list \<Rightarrow> singleton \<Rightarrow> singleton" where
  "unlock_recursive_step i pc rest s =
     (case pc of
        Assert_Owner ret \<Rightarrow> goto i (if init_lock s = Some i then Store_Unlocked ret else Aborted) rest s
      | Store_Unlocked ret \<Rightarrow> goto i (case ret of Some r \<Rightarrow> Returned r | None \<Rightarrow> Thrown) rest (s\<lparr>init_lock := None\<rparr>)
      | _ \<Rightarrow> s)"

definition destroyer :: "nat \<Rightarrow> singleton \<Rightarrow> singleton" where
  "destroyer p s = s\<lparr>objects := remove1 p (objects s)\<rparr>"

definition singleton_base_step :: "nat \<Rightarrow> nat \<Rightarrow> outcome \<Rightarrow> singleton_pc \<Rightarrow> singleton_pc list \<Rightarrow> singleton \<Rightarrow> singleton" where
  "singleton_base_step prio i ev pc rest s =
     (case pc of
        Load_Slow \<Rightarrow> goto i (case instance_ptr s of Some p \<Rightarrow> Assert_Owner (Some p) | None \<Rightarrow> Construct) rest s
      | Construct \<Rightarrow>
          (case ev of
             Normal \<Rightarrow> goto i (Register_Destroyer (constructed s)) rest
               (s\<lparr>objects := constructed s # objects s, constructed := constructed s + 1\<rparr>)
           | Throws \<Rightarrow> goto i (Assert_Owner None) rest s
           | Recurses \<Rightarrow> goto i Load_Fast (Construct # rest) s)
      | Register_Destroyer r \<Rightarrow>
          (if ev = Normal then goto i (Store_Ptr r) rest (s\<lparr>exits := at_exit r prio (exits s)\<rparr>)
           else goto i (Assert_Owner None) rest (destroyer r s))
      | Store_Ptr r \<Rightarrow> goto i (Assert_Owner (Some r)) rest (s\<lparr>instance_ptr := Some r\<rparr>)
      | _ \<Rightarrow> s)"

text \<open>
  A step of thread \<open>i\<close>. A finished outermost call is followed by the next one; an exception of a nested call is the
  constructor's, and a nested call that returns lets the constructor go on.
\<close>

definition singleton_step :: "nat \<Rightarrow> nat \<times> outcome \<Rightarrow> singleton \<Rightarrow> singleton" where
  "singleton_step prio e s =
     (let (i, ev) = e in
      if i < length (frames s) then
        (case frames s ! i of
           [] \<Rightarrow> s
         | pc # rest \<Rightarrow>
             (case pc of
                Load_Fast \<Rightarrow> goto i (case instance_ptr s of Some p \<Rightarrow> Returned p | None \<Rightarrow> Assert_Not_Owner) rest s
              | Returned r \<Rightarrow>
                  (case rest of
                     [] \<Rightarrow> goto i Load_Fast [] (s\<lparr>returned_ptrs := r # returned_ptrs s\<rparr>)
                   | pc # rest \<Rightarrow> goto i pc rest (s\<lparr>returned_ptrs := r # returned_ptrs s\<rparr>))
              | Thrown \<Rightarrow> (case rest of [] \<Rightarrow> goto i Load_Fast [] s | pc # rest \<Rightarrow> goto i (Assert_Owner None) rest s)
              | Aborted \<Rightarrow> s
              | Assert_Owner ret \<Rightarrow> unlock_recursive_step i pc rest s
              | Store_Unlocked ret \<Rightarrow> unlock_recursive_step i pc rest s
              | _ \<Rightarrow>
                  (if pc \<in> {Assert_Not_Owner, Try_Lock, Spin_Load, Spin_Lock} then lock_recursive_step i pc rest s
                   else singleton_base_step prio i ev pc rest s)))
      else s)"

definition singleton_run :: "nat \<Rightarrow> (nat \<times> outcome) list \<Rightarrow> singleton \<Rightarrow> singleton" where
  "singleton_run prio sched s = fold (singleton_step prio) sched s"

end
