(* ===== verification/Singleton_Proofs.thy ===== *)
theory Singleton_Proofs
  imports Singleton
begin

text \<open>
  The functions at exit run once each, the highest priority and latest registration first; \<open>Instance\<close> builds one
  object; all calls of a singleton return the one object, whose destroyer is registered exactly once, in every
  interleaving, with constructors that throw or ask for the singleton again.
\<close>

section \<open>Functions at exit\<close>

lemma exit_less_trans: "exit_less a b \<Longrightarrow> exit_less b c \<Longrightarrow> exit_less a c"
  by (auto simp: exit_less_def)

lemma exit_less_total: "ex_number a \<noteq> ex_number b \<Longrightarrow> \<not> exit_less a b \<Longrightarrow> exit_less b a"
  by (auto simp: exit_less_def)

lemma top_item_mem: "top_item c ds \<in> set (c # ds)"
  by (induction ds arbitrary: c) (auto split: if_splits)

lemma top_item_max: "d \<in> set (c # ds) \<Longrightarrow> \<not> exit_less (top_item c ds) d"
proof (induction ds arbitrary: c d)
  case Nil
  then show ?case by (simp add: exit_less_def)
next
  case (Cons x ds)
  show ?case
  proof (cases "exit_less c x")
    case True
    have "\<not> exit_less (top_item x ds) x" using Cons.IH [of x x] by simp
    moreover have "exit_less (top_item x ds) x" if "exit_less (top_item x ds) c" by (rule exit_less_trans [OF that True])
    ultimately show ?thesis using True Cons.IH [of d x] Cons.prems by auto
  next
    case False
    have c: "\<not> exit_less (top_item c ds) c" using Cons.IH [of c c] by simp
    have "\<not> exit_less (top_item c ds) x"
    proof
      assume less: "exit_less (top_item c ds) x"
      from c False less show False by (auto simp: exit_less_def)
    qed
    with False Cons.IH [of d c] Cons.prems c show ?thesis by auto
  qed
qed

text \<open>The queue holds registered functions, each under its position in the store.\<close>

definition exit_ok :: "'f at_exit_state \<Rightarrow> bool" where
  "exit_ok a \<longleftrightarrow> map ex_number (exit_store a) = [0..<length (exit_store a)] \<and> mset (exit_items a) \<subseteq># mset (exit_store a)"

lemma exit_ok_new [simp]: "exit_ok new_at_exit"
  by (simp add: exit_ok_def new_at_exit_def)

lemma exit_ok_register [simp]: "exit_ok a \<Longrightarrow> exit_ok (exit_register f p a)"
  by (simp add: exit_ok_def exit_register_def Let_def)

definition register_all :: "('f \<times> nat) list \<Rightarrow> 'f at_exit_state \<Rightarrow> 'f at_exit_state" where
  "register_all rs a = fold (\<lambda>(f, p). exit_register f p) rs a"

lemma register_all_simps [simp]: "register_all [] a = a" "register_all ((f, p) # rs) a = register_all rs (exit_register f p a)"
  by (simp_all add: register_all_def)

lemma register_all_ok: "exit_ok a \<Longrightarrow> exit_ok (register_all rs a)"
  by (induction rs arbitrary: a) auto

lemma register_all_effect:
  "\<exists>new. exit_store (register_all rs a) = exit_store a @ new \<and> mset (exit_items (register_all rs a)) = mset (exit_items a) + mset new \<and>
    map ex_func new = map fst rs \<and> (\<forall>c \<in> set new. length (exit_store a) \<le> ex_number c) \<and>
    finish_started (register_all rs a) = finish_started a"
proof (induction rs arbitrary: a)
  case (Cons r rs)
  obtain f p where r: "r = (f, p)" by fastforce
  let ?a = "exit_register f p a"
  from Cons.IH [of ?a] obtain new where new: "exit_store (register_all rs ?a) = exit_store ?a @ new"
    "mset (exit_items (register_all rs ?a)) = mset (exit_items ?a) + mset new" "map ex_func new = map fst rs"
    "\<forall>c \<in> set new. length (exit_store ?a) \<le> ex_number c" "finish_started (register_all rs ?a) = finish_started ?a" by blast
  let ?c = "\<lparr>ex_func = f, ex_priority = p, ex_number = length (exit_store a)\<rparr>"
  show ?case using new r by (intro exI [of _ "?c # new"]) (auto simp: exit_register_def Let_def dest: bspec)
qed simp

lemma exit_ok_numbers:
  assumes "exit_ok a" "c \<in> set (exit_items a)"
  shows "ex_number c < length (exit_store a)"
proof -
  have "c \<in> set (exit_store a)" using assms by (metis exit_ok_def mset_subset_eqD set_mset_mset)
  then have "ex_number c \<in> set (map ex_number (exit_store a))" by simp
  also have "map ex_number (exit_store a) = [0..<length (exit_store a)]" using assms(1) unfolding exit_ok_def by blast
  finally show ?thesis by simp
qed

lemma distinct_sub_mset: "mset xs \<subseteq># mset ys \<Longrightarrow> distinct ys \<Longrightarrow> distinct xs"
proof -
  assume sub: "mset xs \<subseteq># mset ys" and d: "distinct ys"
  obtain zs where "mset ys = mset (xs @ zs)" using sub by (metis ex_mset mset_append mset_subset_eq_exists_conv)
  then have "distinct (xs @ zs)" using d mset_eq_imp_distinct_iff by blast
  then show ?thesis by simp
qed

lemma exit_ok_distinct: "exit_ok a \<Longrightarrow> distinct (map ex_number (exit_items a))"
proof (rule distinct_sub_mset [of _ "map ex_number (exit_store a)"])
  assume ok: "exit_ok a"
  show "mset (map ex_number (exit_items a)) \<subseteq># mset (map ex_number (exit_store a))"
    unfolding mset_map using ok exit_ok_def image_mset_subseteq_mono by blast
  have "map ex_number (exit_store a) = [0..<length (exit_store a)]" using ok unfolding exit_ok_def by blast
  then show "distinct (map ex_number (exit_store a))" by (metis distinct_upt)
qed

lemma finish_loop_nil: "exit_items a = [] \<Longrightarrow> finish_loop h a = Some ([], a)"
  by (subst finish_loop.simps) simp

lemma finish_loop_cons:
  assumes "exit_items a = d # ds" "c = top_item d ds" "a1 = register_all (h (ex_func c)) (a\<lparr>exit_items := remove1 c (d # ds)\<rparr>)"
    "finish_loop h a1 = Some (called, a')"
  shows "finish_loop h a = Some (c # called, a')"
  using assms by (subst finish_loop.simps) (simp add: Let_def register_all_def)

definition registers_downwards :: "('f \<Rightarrow> nat) \<Rightarrow> ('f \<Rightarrow> ('f \<times> nat) list) \<Rightarrow> bool" where
  "registers_downwards rank h \<longleftrightarrow> (\<forall>f. \<forall>(g, p) \<in> set (h f). rank g < rank f)"

lemma finish_loop_runs:
  assumes rank: "registers_downwards rank h" and ok: "exit_ok a"
  shows "\<exists>called new a'. finish_loop h a = Some (called, a') \<and> exit_items a' = [] \<and> exit_store a' = exit_store a @ new \<and>
    mset called = mset (exit_items a) + mset new \<and> (\<forall>c \<in> set new. length (exit_store a) \<le> ex_number c) \<and>
    sorted_wrt (\<lambda>x y. ex_number y < length (exit_store a) \<longrightarrow> exit_less y x) called"
  using ok
proof (induction "image_mset (\<lambda>c. rank (ex_func c)) (mset (exit_items a))" arbitrary: a rule: wf_induct_rule [OF wf_mult1 [OF wf_less]])
  case (1 a)
  show ?case
  proof (cases "exit_items a")
    case Nil
    then show ?thesis by (intro exI [of _ "[]"] exI [of _ a]) (simp add: finish_loop_nil)
  next
    case (Cons d ds)
    define c where "c = top_item d ds"
    define a0 where "a0 = a\<lparr>exit_items := remove1 c (d # ds)\<rparr>"
    define a1 where "a1 = register_all (h (ex_func c)) a0"
    have c: "c \<in> set (exit_items a)" using top_item_mem [of d ds] Cons c_def by simp
    have items: "mset (exit_items a) = add_mset c (mset (exit_items a0))" 
      using insert_DiffM [of c "mset (exit_items a)"] c by (simp add: a0_def flip: Cons)
    have "mset (exit_items a0) \<subseteq># mset (exit_items a)" unfolding items by simp
    moreover have store: "exit_store a0 = exit_store a" by (simp add: a0_def)
    ultimately have ok0: "exit_ok a0" using 1(2) unfolding exit_ok_def by (metis subset_mset.order_trans)
    obtain new1 where new1: "exit_store a1 = exit_store a @ new1" "mset (exit_items a1) = mset (exit_items a0) + mset new1"
      "map ex_func new1 = map fst (h (ex_func c))" "\<forall>x \<in> set new1. length (exit_store a) \<le> ex_number x"
      using register_all_effect [of "h (ex_func c)" a0] store unfolding a1_def by metis
    have less: "rank (ex_func x) < rank (ex_func c)" if x: "x \<in> set new1" for x
    proof -
      have "ex_func x \<in> set (map ex_func new1)" using x by simp
      then obtain p where "(ex_func x, p) \<in> set (h (ex_func c))" unfolding new1(3) by force
      then show ?thesis using rank by (auto simp: registers_downwards_def)
    qed
    let ?r = "\<lambda>a. image_mset (\<lambda>c. rank (ex_func c)) (mset (exit_items a))"
    have dec: "(?r a1, ?r a) \<in> mult1 {(x, y). x < y}"
      by (rule mult1I [where a = "rank (ex_func c)" and K = "image_mset (\<lambda>c. rank (ex_func c)) (mset new1)"])
        (use items new1(2) less in auto)
    have "exit_ok a1" unfolding a1_def by (rule register_all_ok [OF ok0])
    from 1(1) [OF dec this] obtain called new2 a' where
      r: "finish_loop h a1 = Some (called, a')" "exit_items a' = []" "exit_store a' = exit_store a1 @ new2"
      "mset called = mset (exit_items a1) + mset new2" "\<forall>c \<in> set new2. length (exit_store a1) \<le> ex_number c"
      "sorted_wrt (\<lambda>x y. ex_number y < length (exit_store a1) \<longrightarrow> exit_less y x) called" by blast
    have "finish_loop h a = Some (c # called, a')"
      by (rule finish_loop_cons [OF Cons c_def _ r(1)]) (simp add: a1_def a0_def)
    moreover have "exit_less y c" if y: "y \<in> set called" "ex_number y < length (exit_store a)" for y
    proof -
      have "y \<in># mset (exit_items a0) + mset new1 + mset new2" using y(1) r(4) new1(2) by (metis set_mset_mset)
      then have y0: "y \<in> set (exit_items a0)" using y(2) new1(1,4) r(5) by force
      have "distinct (ex_number c # map ex_number (exit_items a0))"
        using exit_ok_distinct [OF 1(2)] mset_eq_imp_distinct_iff [of "map ex_number (exit_items a)" "map ex_number (c # exit_items a0)"] items
        by simp
      then have "ex_number y \<noteq> ex_number c" using y0 by (metis distinct.simps(2) image_eqI list.set_map)
      moreover have "\<not> exit_less c y" 
        using top_item_max [of y d ds] y0 set_remove1_subset [of c "d # ds"] unfolding c_def a0_def by auto
      ultimately show ?thesis using exit_less_total by metis
    qed
    moreover have "sorted_wrt (\<lambda>x y. ex_number y < length (exit_store a) \<longrightarrow> exit_less y x) called"
      by (rule sorted_wrt_mono_rel [OF _ r(6)]) (simp add: new1(1))
    ultimately show ?thesis using r new1 items
      by (intro exI [of _ "c # called"] exI [of _ "new1 @ new2"] exI [of _ a']) auto
  qed
qed

text \<open>
  \<open>OnExit\<close> with functions that register further functions of smaller rank: every registered function is called exactly
  once, and of those registered before, the one of higher priority or, at equal priority, the later one first.
\<close>

theorem on_exit_order:
  "exit_ok a \<Longrightarrow> registers_downwards rank h \<Longrightarrow>
    \<exists>called new. on_exit h (Some a) = Some (called, None) \<and> mset called = mset (exit_items a) + mset new \<and>
      (\<forall>c \<in> set new. length (exit_store a) \<le> ex_number c) \<and>
      sorted_wrt (\<lambda>x y. ex_number y < length (exit_store a) \<longrightarrow> exit_less y x) called"
proof -
  assume ok: "exit_ok a" and rank: "registers_downwards rank h"
  have "exit_ok (a\<lparr>finish_started := True\<rparr>)" using ok by (simp add: exit_ok_def)
  from finish_loop_runs [OF rank this] obtain called new a' where
    r: "finish_loop h (a\<lparr>finish_started := True\<rparr>) = Some (called, a')" "mset called = mset (exit_items a) + mset new"
    "\<forall>c \<in> set new. length (exit_store a) \<le> ex_number c"
    "sorted_wrt (\<lambda>x y. ex_number y < length (exit_store a) \<longrightarrow> exit_less y x) called" by auto
  then show ?thesis by (intro exI [of _ called] exI [of _ new]) (simp add: on_exit_def finish_def)
qed

theorem on_exit_order_witness:
  "\<exists>called. on_exit (\<lambda>f. if f = (2 :: nat) then [(0, 9)] else []) (at_exit 1 5 (at_exit 2 7 (at_exit 3 5 None))) = Some (called, None) \<and>
    size (mset called) \<ge> 3"
proof -
  let ?h = "\<lambda>f. if f = (2 :: nat) then [(0 :: nat, 9 :: nat)] else []"
  obtain a :: "nat at_exit_state" where a: "at_exit 1 5 (at_exit 2 7 (at_exit 3 5 None)) = Some a" "exit_ok a" "length (exit_items a) = 3"
    by (simp add: at_exit_def exit_instance_def) (simp add: exit_register_def new_at_exit_def Let_def)
  have "\<exists>called new. on_exit ?h (Some a) = Some (called, None) \<and> mset called = mset (exit_items a) + mset new \<and>
      (\<forall>c \<in> set new. length (exit_store a) \<le> ex_number c) \<and>
      sorted_wrt (\<lambda>x y. ex_number y < length (exit_store a) \<longrightarrow> exit_less y x) called"
    by (rule on_exit_order [where rank = "\<lambda>f. f"]) (use a in \<open>auto simp: registers_downwards_def\<close>)
  then show ?thesis using a by fastforce
qed

section \<open>The instance behind the functions at exit\<close>

definition inside :: "instance_pc \<Rightarrow> bool" where
  "inside pc \<longleftrightarrow> pc \<in> {Inst_Check, Inst_Atexit, Inst_New, Inst_Store, Inst_Unlock}"

definition idle_counts :: "bool \<Rightarrow> nat \<times> nat" where
  "idle_counts p = (if p then (1, 1) else (0, 0))"

definition thread_ok :: "bool \<Rightarrow> bool \<Rightarrow> nat \<times> nat \<Rightarrow> instance_pc \<Rightarrow> bool" where
  "thread_ok own p counts pc \<longleftrightarrow>
     inside pc = own \<and>
     (case pc of
        Inst_Done \<Rightarrow> p
      | Inst_Check \<Rightarrow> counts = idle_counts p
      | Inst_Atexit \<Rightarrow> counts = (0, 0) \<and> \<not> p
      | Inst_New \<Rightarrow> counts = (0, 1) \<and> \<not> p
      | Inst_Store \<Rightarrow> counts = (1, 1) \<and> \<not> p
      | Inst_Unlock \<Rightarrow> counts = (1, 1) \<and> p
      | _ \<Rightarrow> True)"

definition counts_of :: "instance_state \<Rightarrow> nat \<times> nat" where
  "counts_of s = (built s, on_exit_count s)"

definition instance_inv :: "instance_state \<Rightarrow> bool" where
  "instance_inv s \<longleftrightarrow>
     (\<forall>i < length (instance_pcs s). thread_ok (at_exit_lock s = Some i) (at_exit_ptr s) (counts_of s) (instance_pcs s ! i)) \<and>
     (case at_exit_lock s of None \<Rightarrow> counts_of s = idle_counts (at_exit_ptr s) | Some j \<Rightarrow> j < length (instance_pcs s))"

lemma thread_ok_outside: "thread_ok False p counts pc \<Longrightarrow> (p \<Longrightarrow> p') \<Longrightarrow> thread_ok False p' counts' pc"
  by (auto simp: thread_ok_def inside_def split: instance_pc.splits)

lemma instance_update:
  assumes inv: "instance_inv s" and i: "i < length (instance_pcs s)"
    and pcs: "instance_pcs s' = (instance_pcs s)[i := pc]"
    and ok: "thread_ok (at_exit_lock s' = Some i) (at_exit_ptr s') (counts_of s') pc"
    and lock: "at_exit_lock s' = at_exit_lock s \<or> {at_exit_lock s, at_exit_lock s'} = {None, Some i}"
    and data: "at_exit_lock s = Some i \<or> at_exit_ptr s' = at_exit_ptr s \<and> counts_of s' = counts_of s"
    and ptr: "at_exit_ptr s \<Longrightarrow> at_exit_ptr s'"
    and idle: "at_exit_lock s' = None \<Longrightarrow> counts_of s' = idle_counts (at_exit_ptr s')"
  shows "instance_inv s'"
proof -
  have "thread_ok (at_exit_lock s' = Some j) (at_exit_ptr s') (counts_of s') (instance_pcs s' ! j)" if j: "j < length (instance_pcs s)" for j
  proof (cases "j = i")
    case True
    with ok pcs i show ?thesis by simp
  next
    case False
    have same: "at_exit_lock s' = Some j \<longleftrightarrow> at_exit_lock s = Some j" using lock False by (auto simp: doubleton_eq_iff)
    have old: "thread_ok (at_exit_lock s = Some j) (at_exit_ptr s) (counts_of s) (instance_pcs s ! j)"
      using inv j by (simp add: instance_inv_def)
    show ?thesis
    proof (cases "at_exit_lock s = Some j")
      case True
      with False data old same pcs show ?thesis by simp
    next
      case out: False
      from thread_ok_outside [OF old [unfolded eq_False [THEN iffD2, OF out]] ptr] out same pcs False show ?thesis by simp
    qed
  qed
  moreover have "case at_exit_lock s' of None \<Rightarrow> counts_of s' = idle_counts (at_exit_ptr s') | Some j \<Rightarrow> j < length (instance_pcs s')"
    using lock idle inv i pcs by (auto simp: instance_inv_def doubleton_eq_iff split: option.splits)
  ultimately show ?thesis using pcs by (simp add: instance_inv_def)
qed

lemma instance_inv_new: "instance_inv (new_instance_state n)"
  by (auto simp: instance_inv_def new_instance_state_def inside_def thread_ok_def counts_of_def idle_counts_def)

lemma instance_inv_step:
  assumes inv: "instance_inv s"
  shows "instance_inv (instance_step i s)"
proof (cases "i < length (instance_pcs s)")
  case True
  have ok: "thread_ok (at_exit_lock s = Some i) (at_exit_ptr s) (counts_of s) (instance_pcs s ! i)"
    using inv True by (simp add: instance_inv_def)
  have idle: "at_exit_lock s = None \<Longrightarrow> counts_of s = idle_counts (at_exit_ptr s)" using inv by (simp add: instance_inv_def)
  show ?thesis
  proof (cases "instance_pcs s ! i = Inst_Done \<or> instance_pcs s ! i = Inst_Lock \<and> at_exit_lock s \<noteq> None")
    case True
    then show ?thesis using inv by (auto simp: instance_step_def)
  next
    case False
    show ?thesis
      using ok idle True False
      by (cases "instance_pcs s ! i"; intro instance_update [OF inv True, where pc = "instance_pcs (instance_step i s) ! i"])
        (auto simp: instance_step_def instance_goto_def thread_ok_def inside_def counts_of_def idle_counts_def)
  qed
qed (use inv in \<open>simp add: instance_step_def\<close>)

text \<open>
  In every interleaving of callers of \<open>Instance\<close> at most one object is built and \<open>OnExit\<close> is registered at most once;
  a caller that returns finds the pointer set, the object built and \<open>OnExit\<close> registered.
\<close>

theorem instance_built_once:
  "let s = fold instance_step sched (new_instance_state n) in
    built s \<le> 1 \<and> on_exit_count s \<le> 1 \<and> (Inst_Done \<notin> set (instance_pcs s) \<or> at_exit_ptr s \<and> built s = 1 \<and> on_exit_count s = 1)"
proof -
  define s where "s = fold instance_step sched (new_instance_state n)"
  have inv: "instance_inv s"
    unfolding s_def by (rule fold_invariant [where Q = "\<lambda>_. True"]) (auto intro: instance_inv_step instance_inv_new)
  have counts: "built s \<le> 1 \<and> on_exit_count s \<le> 1 \<and> (at_exit_ptr s \<longrightarrow> built s = 1 \<and> on_exit_count s = 1)"
  proof (cases "at_exit_lock s")
    case None
    then show ?thesis using inv by (auto simp: instance_inv_def counts_of_def idle_counts_def split: if_splits)
  next
    case (Some j)
    then have "thread_ok True (at_exit_ptr s) (counts_of s) (instance_pcs s ! j)" using inv by (auto simp: instance_inv_def)
    then show ?thesis by (auto simp: thread_ok_def inside_def counts_of_def idle_counts_def split: instance_pc.splits if_splits)
  qed
  moreover have "at_exit_ptr s" if "Inst_Done \<in> set (instance_pcs s)"
    using that inv by (auto simp: in_set_conv_nth instance_inv_def thread_ok_def)
  ultimately show ?thesis unfolding s_def Let_def by blast
qed

section \<open>The singleton\<close>

definition destroyers :: "singleton \<Rightarrow> nat list" where
  "destroyers s = (case exits s of None \<Rightarrow> [] | Some a \<Rightarrow> map ex_func (exit_items a))"

text \<open>What a thread's calls may assume: \<open>own\<close> says that the thread holds the lock.\<close>

definition call_ok :: "bool \<Rightarrow> nat option \<Rightarrow> nat list \<Rightarrow> nat list \<Rightarrow> singleton_pc list \<Rightarrow> bool" where
  "call_ok own p objs ds fs \<longleftrightarrow>
     (case fs of
        [pc] \<Rightarrow>
          (case pc of
             Load_Slow \<Rightarrow> own
           | Construct \<Rightarrow> own \<and> p = None \<and> objs = [] \<and> ds = []
           | Register_Destroyer r \<Rightarrow> own \<and> p = None \<and> objs = [r] \<and> ds = []
           | Store_Ptr r \<Rightarrow> own \<and> p = None \<and> objs = [r] \<and> ds = [r]
           | Assert_Owner ret \<Rightarrow> own \<and> (ret = None \<or> p = ret)
           | Store_Unlocked ret \<Rightarrow> own \<and> (ret = None \<or> p = ret)
           | Returned r \<Rightarrow> \<not> own \<and> p = Some r
           | Aborted \<Rightarrow> False
           | _ \<Rightarrow> \<not> own)
      | [pc, Construct] \<Rightarrow> own \<and> p = None \<and> objs = [] \<and> ds = [] \<and> pc \<in> {Load_Fast, Assert_Not_Owner, Aborted}
      | _ \<Rightarrow> False)"

definition mid_way :: "singleton_pc list \<Rightarrow> bool" where
  "mid_way fs \<longleftrightarrow> (\<exists>r. fs = [Register_Destroyer r] \<or> fs = [Store_Ptr r])"

definition settled :: "nat option \<Rightarrow> nat list \<Rightarrow> nat list \<Rightarrow> bool" where
  "settled p objs ds \<longleftrightarrow> objs = (case p of None \<Rightarrow> [] | Some r \<Rightarrow> [r]) \<and> ds = objs"

definition singleton_inv :: "singleton \<Rightarrow> bool" where
  "singleton_inv s \<longleftrightarrow>
     (\<forall>i < length (frames s). call_ok (init_lock s = Some i) (instance_ptr s) (objects s) (destroyers s) (frames s ! i)) \<and>
     (\<forall>i. init_lock s = Some i \<longrightarrow> i < length (frames s)) \<and>
     ((\<exists>i < length (frames s). mid_way (frames s ! i)) \<or> settled (instance_ptr s) (objects s) (destroyers s)) \<and>
     (\<forall>r \<in> set (returned_ptrs s). instance_ptr s = Some r)"

lemma call_ok_outside: "call_ok False p objs ds fs \<Longrightarrow> (p = None \<or> p' = p) \<Longrightarrow> call_ok False p' objs' ds' fs"
  by (auto simp: call_ok_def split: list.splits singleton_pc.splits)

lemma mid_way_owns: "call_ok own p objs ds fs \<Longrightarrow> mid_way fs \<Longrightarrow> own"
  by (auto simp: call_ok_def mid_way_def)

lemma singleton_update:
  assumes inv: "singleton_inv s" and i: "i < length (frames s)"
    and frames: "frames s' = (frames s)[i := fs]"
    and ok: "call_ok (init_lock s' = Some i) (instance_ptr s') (objects s') (destroyers s') fs"
    and lock: "init_lock s' = init_lock s \<or> {init_lock s, init_lock s'} = {None, Some i}"
    and data: "init_lock s = Some i \<or> instance_ptr s' = instance_ptr s \<and> objects s' = objects s \<and> destroyers s' = destroyers s"
    and ptr: "instance_ptr s = None \<or> instance_ptr s' = instance_ptr s"
    and mid: "init_lock s = Some i \<Longrightarrow> mid_way fs \<or> settled (instance_ptr s') (objects s') (destroyers s')"
    and ret: "\<forall>r \<in> set (returned_ptrs s'). instance_ptr s' = Some r"
  shows "singleton_inv s'"
proof -
  have same: "init_lock s' = Some j \<longleftrightarrow> init_lock s = Some j" if "j \<noteq> i" for j
    using lock that by (auto simp: doubleton_eq_iff)
  have old: "call_ok (init_lock s = Some j) (instance_ptr s) (objects s) (destroyers s) (frames s ! j)" if "j < length (frames s)" for j
    using inv that by (simp add: singleton_inv_def)
  have "call_ok (init_lock s' = Some j) (instance_ptr s') (objects s') (destroyers s') (frames s' ! j)" if j: "j < length (frames s)" for j
  proof (cases "j = i")
    case True
    with ok frames i show ?thesis by simp
  next
    case False
    show ?thesis
    proof (cases "init_lock s = Some j")
      case True
      with False data old [OF j] same [OF False] frames show ?thesis by simp
    next
      case out: False
      from call_ok_outside [OF old [OF j, unfolded eq_False [THEN iffD2, OF out]] ptr] out same [OF False] frames False show ?thesis by simp
    qed
  qed
  moreover have "(\<exists>j < length (frames s'). mid_way (frames s' ! j)) \<or> settled (instance_ptr s') (objects s') (destroyers s')"
  proof (cases "init_lock s = Some i")
    case True
    from mid [OF this] show ?thesis using frames i by auto
  next
    case False
    then have "\<not> mid_way (frames s ! i)" using mid_way_owns [OF old [OF i]] by blast
    then show ?thesis using inv data False frames i unfolding singleton_inv_def by (metis length_list_update nth_list_update_neq)
  qed
  moreover have "j < length (frames s')" if "init_lock s' = Some j" for j
    using that same [of j] inv i frames by (cases "j = i") (auto simp: singleton_inv_def)
  ultimately show ?thesis using frames ret by (simp add: singleton_inv_def)
qed

lemma destroyers_at_exit [simp]: "destroyers (s\<lparr>exits := at_exit r p (exits s)\<rparr>) = r # destroyers s"
  by (auto simp: destroyers_def at_exit_def exit_register_def exit_instance_def new_at_exit_def Let_def split: option.splits)

lemma destroyers_update [simp]:
  "destroyers (s\<lparr>frames := fs\<rparr>) = destroyers s" "destroyers (s\<lparr>init_lock := l\<rparr>) = destroyers s"
  "destroyers (s\<lparr>instance_ptr := p\<rparr>) = destroyers s" "destroyers (s\<lparr>objects := os\<rparr>) = destroyers s"
  "destroyers (s\<lparr>constructed := c\<rparr>) = destroyers s" "destroyers (s\<lparr>returned_ptrs := rs\<rparr>) = destroyers s"
  by (simp_all add: destroyers_def)

lemma call_shapes:
  assumes "call_ok own p objs ds fs"
  obtains pc where "fs = [pc]" | pc where "fs = [pc, Construct]" "pc \<in> {Load_Fast, Assert_Not_Owner, Aborted}"
  using assms by (auto simp: call_ok_def split: list.splits singleton_pc.splits)

lemma singleton_inv_step:
  assumes inv: "singleton_inv s"
  shows "singleton_inv (singleton_step prio (i, ev) s)"
proof (cases "i < length (frames s)")
  case True
  have ok: "call_ok (init_lock s = Some i) (instance_ptr s) (objects s) (destroyers s) (frames s ! i)"
    using inv True by (simp add: singleton_inv_def)
  have settled: "settled (instance_ptr s) (objects s) (destroyers s)" if "init_lock s = Some i" "\<not> mid_way (frames s ! i)"
    using inv that mid_way_owns unfolding singleton_inv_def by (metis option.inject)
  have ret: "\<forall>r \<in> set (returned_ptrs s). instance_ptr s = Some r" using inv by (simp add: singleton_inv_def)
  note defs = singleton_step_def lock_recursive_step_def unlock_recursive_step_def singleton_base_step_def goto_def
    my_atomic_try_lock_def destroyer_def call_ok_def settled_def mid_way_def
  note update = singleton_update [OF inv True, where fs = "frames (singleton_step prio (i, ev) s) ! i"]
  from ok show ?thesis
  proof (cases rule: call_shapes)
    case (1 pc)
    show ?thesis
      using ok settled ret True 1
      by (cases pc; cases ev; intro update) (auto simp: defs split: option.splits if_splits)
  next
    case (2 pc)
    show ?thesis
    proof (cases "pc = Aborted")
      case aborted: True
      then have "singleton_step prio (i, ev) s = s" using 2 by (simp add: singleton_step_def)
      with inv show ?thesis by simp
    next
      case False
      show ?thesis
        using ok settled ret True 2 False
        by (cases pc; intro update) (auto simp: defs split: option.splits if_splits)
    qed
  qed
qed (use inv in \<open>simp add: singleton_step_def\<close>)

lemma singleton_inv_new: "singleton_inv (new_singleton n)"
  by (simp add: singleton_inv_def new_singleton_def call_ok_def settled_def destroyers_def)

lemma singleton_inv_run: "singleton_inv (singleton_run prio sched (new_singleton n))"
  unfolding singleton_run_def
  by (rule fold_invariant [where Q = "\<lambda>_. True"]) (auto intro: singleton_inv_step singleton_inv_new)

text \<open>Constructors that do not ask for their own singleton never meet the assertion.\<close>

lemma frames_step: "ev \<noteq> Recurses \<Longrightarrow> \<forall>fs \<in> set (frames s). length fs = 1 \<Longrightarrow> \<forall>fs \<in> set (frames (singleton_step prio (i, ev) s)). length fs = 1"
proof (cases "i < length (frames s)")
  case True
  assume ev: "ev \<noteq> Recurses" and one: "\<forall>fs \<in> set (frames s). length fs = 1"
  have "length (frames s ! i) = 1" using one True by simp
  then obtain pc where pc: "frames s ! i = [pc]" by (auto simp: length_Suc_conv)
  have "\<exists>pc'. frames (singleton_step prio (i, ev) s) = (frames s)[i := [pc']] \<or> frames (singleton_step prio (i, ev) s) = frames s"
    using True ev pc
    by (cases pc; cases ev) (auto simp: singleton_step_def lock_recursive_step_def unlock_recursive_step_def singleton_base_step_def goto_def
        my_atomic_try_lock_def destroyer_def split: option.splits)
  then obtain pc' where "frames (singleton_step prio (i, ev) s) = (frames s)[i := [pc']] \<or> frames (singleton_step prio (i, ev) s) = frames s"
    by blast
  then have "set (frames (singleton_step prio (i, ev) s)) \<subseteq> insert [pc'] (set (frames s))"
    using set_update_subset_insert by (metis subset_insertI)
  with one show ?thesis by auto
qed (simp add: singleton_step_def)

lemma singleton_no_abort:
  assumes "\<forall>(i, ev) \<in> set sched. ev \<noteq> Recurses"
  shows "\<forall>fs \<in> set (frames (singleton_run prio sched (new_singleton n))). \<exists>pc. fs = [pc] \<and> pc \<noteq> Aborted"
proof -
  let ?s = "singleton_run prio sched (new_singleton n)"
  have "\<forall>fs \<in> set (frames ?s). length fs = 1"
    unfolding singleton_run_def
    by (rule fold_invariant [where Q = "\<lambda>(i, ev). ev \<noteq> Recurses"]) (use assms frames_step in \<open>auto simp: new_singleton_def\<close>)
  moreover have "fs \<noteq> [Aborted]" if "fs \<in> set (frames ?s)" for fs
    using that singleton_inv_run [of prio sched n] by (auto simp: singleton_inv_def in_set_conv_nth call_ok_def)
  ultimately show ?thesis by (auto simp: length_Suc_conv)
qed

text \<open>
  C21: In every interleaving of any number of threads, with constructors that return, throw or ask for their own
  singleton: at most one object lives in the buffer, every call that returned gave the same pointer and its object is
  alive with its destroyer registered exactly once, the assertion fails only in a call made by the constructor itself,
  and whenever no thread is initializing, the functions run at exit destroy exactly that object.
\<close>

theorem singleton_unique:
  "let s = singleton_run prio sched (new_singleton n) in
    length (objects s) \<le> 1 \<and>
    set (returned_ptrs s) \<subseteq> set_option (instance_ptr s) \<and>
    (instance_ptr s = None \<or> objects s = [the (instance_ptr s)] \<and> map ex_func (exit_items (the (exits s))) = objects s) \<and>
    [Aborted] \<notin> set (frames s) \<and>
    ((\<exists>i. init_lock s = Some i) \<or> (\<exists>called. on_exit (\<lambda>_. []) (exits s) = Some (called, None) \<and> map ex_func called = objects s))"
proof -
  define s where "s = singleton_run prio sched (new_singleton n)"
  have inv: "singleton_inv s" unfolding s_def by (rule singleton_inv_run)
  have mid: "length (objects s) \<le> 1 \<and> instance_ptr s = None \<and> init_lock s = Some i" if "mid_way (frames s ! i)" "i < length (frames s)" for i
    using inv that by (auto simp: singleton_inv_def mid_way_def call_ok_def)
  have cases: "(\<exists>i. init_lock s = Some i) \<and> length (objects s) \<le> 1 \<and> instance_ptr s = None \<or> settled (instance_ptr s) (objects s) (destroyers s)"
    using inv mid unfolding singleton_inv_def by blast
  have "length (objects s) \<le> 1" using cases by (auto simp: settled_def split: option.splits)
  moreover have "set (returned_ptrs s) \<subseteq> set_option (instance_ptr s)" using inv by (auto simp: singleton_inv_def)
  moreover have "instance_ptr s = None \<or> objects s = [the (instance_ptr s)] \<and> map ex_func (exit_items (the (exits s))) = objects s"
    using cases by (auto simp: settled_def destroyers_def split: option.splits)
  moreover have "[Aborted] \<notin> set (frames s)" using inv by (auto simp: singleton_inv_def in_set_conv_nth call_ok_def)
  moreover have "\<exists>called. on_exit (\<lambda>_. []) (exits s) = Some (called, None) \<and> map ex_func called = objects s"
    if s: "settled (instance_ptr s) (objects s) (destroyers s)"
  proof (cases "exits s")
    case None
    with s show ?thesis by (auto simp: on_exit_def settled_def destroyers_def)
  next
    case (Some a)
    with s have "exit_items a = [] \<and> objects s = [] \<or> (\<exists>c. exit_items a = [c] \<and> objects s = [ex_func c])"
      by (auto simp: settled_def destroyers_def split: option.splits)
    then show ?thesis
      using Some finish_loop_nil [of "a\<lparr>finish_started := True\<rparr>" "\<lambda>_. []"]
        finish_loop_nil [of "a\<lparr>finish_started := True, exit_items := []\<rparr>" "\<lambda>_. []"]
        finish_loop_cons [of "a\<lparr>finish_started := True\<rparr>" _ "[]" _ _ "\<lambda>_. []" "[]"]
      by (auto simp: on_exit_def finish_def)
  qed
  ultimately show ?thesis using cases unfolding s_def Let_def by blast
qed

end
