(* ===== verification/Registrator.thy ===== *)
theory Registrator
  imports Prelude "HOL-Library.Monad_Syntax"
begin

text \<open>
  The factory of user components (\<open>pattern/registrator\<close>): names with the constructors registered under them, behind a
  singleton that is built on first use (\<open>Singleton\<close>). Each operation runs under the factory's lock. What a derived
  component's constructor builds is the parameter \<open>make_derived\<close>.
\<close>

section \<open>The code\<close>

datatype factory_exception = Factory_Component_Duplicate string

type_synonym 'd factory = "(string \<times> 'd) list"

definition factory_contains :: "string \<Rightarrow> 'd factory \<Rightarrow> bool" where
  "factory_contains component_name F = (map_of F component_name \<noteq> None)"

definition factory_register :: "'d \<Rightarrow> string \<Rightarrow> 'd factory \<Rightarrow> factory_exception + 'd factory" where
  "factory_register derived component_name F =
     (if factory_contains component_name F then Inl (Factory_Component_Duplicate component_name)
      else Inr (F @ [(component_name, derived)]))"

definition get_factory_keys :: "'d factory \<Rightarrow> string set" where
  "get_factory_keys F = set (map fst F)"

definition get_factory_constructor_unsafe :: "string \<Rightarrow> 'd factory \<Rightarrow> 'd option" where
  "get_factory_constructor_unsafe component_name F = map_of F component_name"

definition factory_constructor_construct :: "('d \<Rightarrow> 'a \<Rightarrow> 'b) \<Rightarrow> 'd \<Rightarrow> 'a \<Rightarrow> 'b" where
  "factory_constructor_construct make_derived derived args = make_derived derived args"

definition construct_impl :: "('d \<Rightarrow> 'a \<Rightarrow> 'b) \<Rightarrow> string \<Rightarrow> 'a \<Rightarrow> 'd factory \<Rightarrow> 'b option" where
  "construct_impl make_derived component_name args F =
     (case get_factory_constructor_unsafe component_name F of
        None \<Rightarrow> None
      | Some constructor \<Rightarrow> Some (factory_constructor_construct make_derived constructor args))"

text \<open>The static interface; \<open>None\<close> is the singleton before its first use.\<close>

definition factory_singleton :: "'d factory option \<Rightarrow> 'd factory" where
  "factory_singleton g = (case g of None \<Rightarrow> [] | Some F \<Rightarrow> F)"

definition contains_component :: "string \<Rightarrow> 'd factory option \<Rightarrow> bool \<times> 'd factory option" where
  "contains_component component_name g = (let F = factory_singleton g in (factory_contains component_name F, Some F))"

definition construct_component :: "('d \<Rightarrow> 'a \<Rightarrow> 'b) \<Rightarrow> string \<Rightarrow> 'a \<Rightarrow> 'd factory option \<Rightarrow> 'b option \<times> 'd factory option" where
  "construct_component make_derived component_name args g =
     (let F = factory_singleton g in (construct_impl make_derived component_name args F, Some F))"

definition get_registered_keys :: "'d factory option \<Rightarrow> string set \<times> 'd factory option" where
  "get_registered_keys g = (let F = factory_singleton g in (get_factory_keys F, Some F))"

definition registractor_named :: "'d \<Rightarrow> string \<Rightarrow> 'd factory option \<Rightarrow> factory_exception option \<times> 'd factory option" where
  "registractor_named derived component_name g =
     (let F = factory_singleton g
      in case factory_register derived component_name F of Inl e \<Rightarrow> (Some e, Some F) | Inr F \<Rightarrow> (None, Some F))"

definition registractor :: "('d \<Rightarrow> string) \<Rightarrow> 'd \<Rightarrow> 'd factory option \<Rightarrow> factory_exception option \<times> 'd factory option" where
  "registractor get_type_name derived g = registractor_named derived (get_type_name derived) g"

section \<open>Registrations\<close>

text \<open>A sequence of registrations, each of whose exceptions the caller handles.\<close>

fun register_components :: "('d \<times> string) list \<Rightarrow> 'd factory option \<Rightarrow> factory_exception option list \<times> 'd factory option" where
  "register_components [] g = ([], g)"
| "register_components ((d, n) # rs) g =
     (let (e, g) = registractor_named d n g; (es, g) = register_components rs g in (e # es, g))"

lemma factory_contains_iff: "factory_contains n F \<longleftrightarrow> n \<in> fst ` set F"
  by (simp add: factory_contains_def map_of_eq_None_iff)

lemma factory_singleton_Some [simp]: "factory_singleton (Some F) = F"
  by (simp add: factory_singleton_def)

lemma registractor_named_run:
  "registractor_named d n g =
     (if factory_contains n (factory_singleton g) then (Some (Factory_Component_Duplicate n), Some (factory_singleton g))
      else (None, Some (factory_singleton g @ [(n, d)])))"
  by (simp add: registractor_named_def factory_register_def Let_def)

lemma register_components_lookup:
  "map_of (factory_singleton (snd (register_components rs g))) =
     map_of (map (\<lambda>(d, n). (n, d)) rs) ++ map_of (factory_singleton g)"
proof (induction rs g rule: register_components.induct)
  case (2 d n rs g)
  obtain e g1 where g1: "registractor_named d n g = (e, g1)" by fastforce
  have "map_of (factory_singleton g1) = [n \<mapsto> d] ++ map_of (factory_singleton g)"
    using g1 by (auto simp: registractor_named_run factory_singleton_def factory_contains_def map_add_def fun_eq_iff split: option.splits if_splits)
  with 2 g1 show ?case by (auto simp: Let_def split: prod.splits simp flip: map_add_assoc) (auto simp: map_add_def fun_eq_iff split: option.splits)
qed simp

text \<open>
  The first registration of a name wins: \<open>construct\<close> builds the component registered first under the name and a null
  pointer for an unknown name, \<open>contains\<close> and \<open>get_registered_keys\<close> answer the names, and exactly the registrations of a
  name that is already taken throw.
\<close>

theorem first_registration_wins:
  fixes rs :: "('d \<times> string) list"
  defines "g \<equiv> snd (register_components rs None)"
  shows "fst (construct_component make_derived n args g) =
      map_option (\<lambda>d. make_derived d args) (map_of (map (\<lambda>(d, n). (n, d)) rs) n)"
    and "fst (contains_component n g) \<longleftrightarrow> n \<in> snd ` set rs"
    and "fst (get_registered_keys g) = snd ` set rs"
proof -
  have lookup: "map_of (factory_singleton g) = map_of (map (\<lambda>(d, n). (n, d)) rs)"
    unfolding g_def using register_components_lookup [of rs None] by (simp add: factory_singleton_def)
  have names: "fst ` set (map (\<lambda>(d, n). (n, d)) rs) = snd ` set rs" by force
  show "fst (construct_component make_derived n args g) = map_option (\<lambda>d. make_derived d args) (map_of (map (\<lambda>(d, n). (n, d)) rs) n)"
    by (simp add: construct_component_def construct_impl_def get_factory_constructor_unsafe_def lookup Let_def
        factory_constructor_construct_def split: option.splits)
  show "fst (contains_component n g) \<longleftrightarrow> n \<in> snd ` set rs"
    using map_of_eq_None_iff [of "map (\<lambda>(d, n). (n, d)) rs" n]
    unfolding contains_component_def factory_contains_def Let_def lookup names by simp
  have "dom (map_of (factory_singleton g)) = snd ` set rs" unfolding lookup dom_map_of_conv_image_fst names ..
  then show "fst (get_registered_keys g) = snd ` set rs"
    by (simp add: get_registered_keys_def get_factory_keys_def Let_def dom_map_of_conv_image_fst)
qed

lemma register_components_duplicates:
  "fst (register_components rs g) =
     map (\<lambda>i. if snd (rs ! i) \<in> fst ` set (factory_singleton g) \<union> snd ` set (take i rs) then Some (Factory_Component_Duplicate (snd (rs ! i))) else None)
       [0..<length rs]"
proof (induction rs g rule: register_components.induct)
  case (2 d n rs g)
  obtain e g1 where g1: "registractor_named d n g = (e, g1)" by fastforce
  have mem: "fst ` set (factory_singleton g1) = insert n (fst ` set (factory_singleton g))"
    using g1 [symmetric] by (simp add: registractor_named_run factory_contains_iff insert_absorb split: if_splits)
  have e: "e = (if n \<in> fst ` set (factory_singleton g) then Some (Factory_Component_Duplicate n) else None)"
    using g1 [symmetric] by (simp add: registractor_named_run factory_contains_iff split: if_splits)
  show ?case
    using 2 [OF g1 [symmetric] refl] unfolding mem
    by (simp add: g1 Let_def split_beta e upt_conv_Cons map_Suc_upt [symmetric] del: upt_Suc)
qed simp

end
