(* ===== verification/Fibers.thy ===== *)
theory Fibers
  imports Prelude "HOL-Library.Word" "HOL-Library.Monad_Syntax"
begin

text \<open>
  Fibers (\<open>src/concurrency/fibers\<close>): a scheduler runs routines one after the other, each on a stack of its own; a routine
  submits others with \<open>go\<close> and gives the processor back only when it ends. A routine is the sequence of what it does: an
  observable action, \<open>go\<close> of another routine, or an exception, which \<open>fiber::run\<close> drops. The switch of the machine
  contexts is \<open>Context_Switch\<close>.
\<close>

section \<open>Stacks\<close>

type_synonym size_t = "64 word"

text \<open>A mapping of memory under the number of its \<open>mmap\<close> call; an allocator without mapping is \<open>None\<close>.\<close>

record mapping =
  map_id :: nat
  map_size :: size_t
  guard_offset :: size_t
  guard_count :: size_t

type_synonym mmap_allocator = "mapping option"

definition mmap_make :: "size_t \<Rightarrow> size_t \<Rightarrow> nat \<Rightarrow> mmap_allocator \<times> nat" where
  "mmap_make page_bytes pages os = (Some \<lparr>map_id = os, map_size = pages * page_bytes, guard_offset = 0, guard_count = 0\<rparr>, os + 1)"

text \<open>The move constructor and the move assignment swap with the other allocator.\<close>

definition mmap_move :: "mmap_allocator \<Rightarrow> mmap_allocator \<times> mmap_allocator" where
  "mmap_move that = (that, None)"

definition mmap_move_assign :: "mmap_allocator \<Rightarrow> mmap_allocator \<Rightarrow> mmap_allocator \<times> mmap_allocator" where
  "mmap_move_assign this that = (that, this)"

definition mmap_destroy :: "mmap_allocator \<Rightarrow> nat list" where
  "mmap_destroy this = (case this of None \<Rightarrow> [] | Some m \<Rightarrow> [map_id m])"

definition protect_pages :: "size_t \<Rightarrow> size_t \<Rightarrow> size_t \<Rightarrow> mmap_allocator \<Rightarrow> mmap_allocator" where
  "protect_pages page_bytes offset pages this =
     map_option (\<lambda>m. m\<lparr>guard_offset := offset * page_bytes, guard_count := pages * page_bytes\<rparr>) this"

definition stack_make_pages :: "size_t \<Rightarrow> size_t \<Rightarrow> nat \<Rightarrow> mmap_allocator \<times> nat" where
  "stack_make_pages page_bytes need_pages os =
     (let (stack, os) = mmap_make page_bytes need_pages os in (protect_pages page_bytes 0 1 stack, os))"

definition stack_make_bytes :: "size_t \<Rightarrow> size_t \<Rightarrow> nat \<Rightarrow> mmap_allocator \<times> nat" where
  "stack_make_bytes page_bytes need_bytes os =
     (let pages = need_bytes div page_bytes;
          pages = (if need_bytes mod page_bytes \<noteq> 0 then pages + 1 else pages)
      in stack_make_pages page_bytes pages os)"

definition default_stack_bytes :: size_t where
  "default_stack_bytes = 64 * 1024"

text \<open>The pool of released stacks, the last one at the end.\<close>

definition stack_allocate :: "size_t \<Rightarrow> mmap_allocator list \<Rightarrow> nat \<Rightarrow> mmap_allocator \<times> mmap_allocator list \<times> nat" where
  "stack_allocate page_bytes stacks os =
     (if stacks = [] then (let (s, os) = stack_make_bytes page_bytes default_stack_bytes os in (s, [], os))
      else (last stacks, butlast stacks, os))"

definition stack_release :: "mmap_allocator \<Rightarrow> mmap_allocator list \<Rightarrow> mmap_allocator list" where
  "stack_release stack stacks = stacks @ [stack]"

section \<open>The scheduler\<close>

datatype 'e action = Act 'e | Go "'e action list" | Throw

type_synonym 'e routine = "'e action list"

record 'e fiber =
  fiber_id :: nat
  fiber_routine :: "'e routine"
  fiber_stack :: mmap_allocator

text \<open>
  \<open>current_scheduler\<close> is \<open>kScheduler\<close> of the thread; \<open>live\<close> are the fibers that \<open>new\<close> has made and \<open>delete\<close> has not yet
  taken, \<open>made\<close> their number so far, \<open>happened\<close> the actions in the order they were done.
\<close>

record 'e fibers =
  current_scheduler :: bool
  current_fiber :: "nat option"
  queue :: "'e fiber list"
  stacks :: "mmap_allocator list"
  mapped :: nat
  made :: nat
  live :: "nat list"
  happened :: "'e list"

definition fiber_make :: "mmap_allocator \<Rightarrow> 'e routine \<Rightarrow> 'e fibers \<Rightarrow> 'e fiber \<times> 'e fibers" where
  "fiber_make stack r s =
     (\<lparr>fiber_id = made s, fiber_routine = r, fiber_stack = stack\<rparr>, s\<lparr>made := made s + 1, live := made s # live s\<rparr>)"

definition submit_child :: "size_t \<Rightarrow> 'e routine \<Rightarrow> 'e fibers \<Rightarrow> 'e fibers" where
  "submit_child page_bytes r s =
     (let (stack, pool, os) = stack_allocate page_bytes (stacks s) (mapped s);
          (f, s) = fiber_make stack r (s\<lparr>stacks := pool, mapped := os\<rparr>)
      in s\<lparr>queue := queue s @ [f]\<rparr>)"

text \<open>\<open>fiber::run\<close>; \<open>None\<close> is \<open>go\<close> in a fiber of a thread without scheduler, which would start a second one.\<close>

fun fiber_run :: "size_t \<Rightarrow> 'e routine \<Rightarrow> 'e fibers \<Rightarrow> 'e fibers option" where
  "fiber_run page_bytes [] s = Some s"
| "fiber_run page_bytes (Act e # r) s = fiber_run page_bytes r (s\<lparr>happened := happened s @ [e]\<rparr>)"
| "fiber_run page_bytes (Throw # r) s = Some s"
| "fiber_run page_bytes (Go child # r) s =
     (if current_scheduler s then fiber_run page_bytes r (submit_child page_bytes child s) else None)"

definition switch_to :: "size_t \<Rightarrow> 'e fiber \<Rightarrow> 'e fibers \<Rightarrow> 'e fibers option" where
  "switch_to page_bytes f s =
     do { s \<leftarrow> fiber_run page_bytes (fiber_routine f) (s\<lparr>current_fiber := Some (fiber_id f)\<rparr>); Some (s\<lparr>current_fiber := None\<rparr>) }"

definition dispatch_of :: "'e fiber \<Rightarrow> 'e fibers \<Rightarrow> 'e fibers option" where
  "dispatch_of f s =
     (if fiber_id f \<in> set (live s)
      then Some (s\<lparr>stacks := stack_release (fiber_stack f) (stacks s), live := remove1 (fiber_id f) (live s)\<rparr>) else None)"

partial_function (option) scheduler_loop :: "size_t \<Rightarrow> 'e fibers \<Rightarrow> 'e fibers option" where
  "scheduler_loop page_bytes s =
     (case queue s of
        [] \<Rightarrow> Some s
      | f # fs \<Rightarrow>
          do { s \<leftarrow> switch_to page_bytes f (s\<lparr>queue := fs\<rparr>);
               s \<leftarrow> dispatch_of f s;
               scheduler_loop page_bytes s })"

declare scheduler_loop.simps [code]

definition submit_entry :: "size_t \<Rightarrow> 'e routine \<Rightarrow> 'e fibers \<Rightarrow> 'e fibers option" where
  "submit_entry page_bytes r s =
     do { s \<leftarrow> scheduler_loop page_bytes (submit_child page_bytes r (s\<lparr>current_scheduler := True\<rparr>));
          Some (s\<lparr>current_scheduler := False\<rparr>) }"

definition new_scheduler :: "'e fibers" where
  "new_scheduler =
     \<lparr>current_scheduler = False, current_fiber = None, queue = [], stacks = [], mapped = 0, made = 0, live = [], happened = []\<rparr>"

text \<open>
  \<open>go\<close> of a thread that runs no fiber: a new scheduler runs the routine and all it submits; its destructor then destroys
  the stacks of the pool, here the second component.
\<close>

definition go_outside :: "size_t \<Rightarrow> 'e routine \<Rightarrow> ('e fibers \<times> nat list) option" where
  "go_outside page_bytes r =
     do { s \<leftarrow> submit_entry page_bytes r new_scheduler; Some (s, concat (map mmap_destroy (stacks s))) }"

section \<open>What the fibers promise\<close>

fun actions :: "'e routine \<Rightarrow> 'e list" where
  "actions [] = []"
| "actions (Act e # r) = e # actions r"
| "actions (Throw # r) = []"
| "actions (Go child # r) = actions r"

fun children_of :: "'e routine \<Rightarrow> 'e routine list" where
  "children_of [] = []"
| "children_of (Act e # r) = children_of r"
| "children_of (Throw # r) = []"
| "children_of (Go child # r) = child # children_of r"

text \<open>The routines by generation: those given, then all their children, then the children's children.\<close>

fun routine_size :: "'e action \<Rightarrow> nat" where
  "routine_size (Act e) = 1"
| "routine_size Throw = 1"
| "routine_size (Go child) = Suc (sum_list (map routine_size child))"

definition weight :: "'e routine \<Rightarrow> nat" where
  "weight r = Suc (sum_list (map routine_size r))"

lemma weight_children: "sum_list (map weight (children_of r)) < weight r"
proof -
  have "sum_list (map weight (children_of r)) \<le> sum_list (map routine_size r)"
    by (induction r rule: children_of.induct) (auto simp: weight_def)
  then show ?thesis by (simp add: weight_def)
qed

function generations :: "'e routine list \<Rightarrow> 'e routine list" where
  "generations [] = []"
| "generations (r # rs) = (r # rs) @ generations (concat (map children_of (r # rs)))"
  by pat_completeness auto

lemma weight_generation: "rs \<noteq> [] \<Longrightarrow> sum_list (map weight (concat (map children_of rs))) < sum_list (map weight rs)"
proof (induction rs)
  case (Cons r rs)
  have "sum_list (map weight (concat (map children_of rs))) \<le> sum_list (map weight rs)"
    using Cons.IH by (cases rs) auto
  with weight_children [of r] show ?case by simp
qed simp

termination generations
  by (relation "measure (\<lambda>rs. sum_list (map weight rs))") (simp, use weight_generation [of "_ # _"] in \<open>simp only: in_measure\<close>, simp)

text \<open>First in, first out: the queue of routines with the children of each appended when it has run.\<close>

function fifo :: "'e routine list \<Rightarrow> 'e routine list" where
  "fifo [] = []"
| "fifo (r # rs) = r # fifo (rs @ children_of r)"
  by pat_completeness auto

termination fifo
  by (relation "measure (\<lambda>rs. sum_list (map weight rs))") (use weight_children in auto)

lemma fifo_append: "fifo (xs @ ys) = xs @ fifo (ys @ concat (map children_of xs))"
proof (induction xs arbitrary: ys)
  case (Cons x xs)
  show ?case using Cons.IH [of "ys @ children_of x"] by simp
qed simp

lemma fifo_generations: "fifo rs = generations rs"
proof (induction rs rule: generations.induct)
  case (2 r rs)
  then show ?case using fifo_append [of "r # rs" "[]"] by simp
qed simp

end
