(* ===== verification/Fibers_Proofs.thy ===== *)
theory Fibers_Proofs
  imports Fibers
begin

text \<open>
  Every routine submitted runs once, generation by generation; every fiber is deleted and every stack is unmapped once.
\<close>

section \<open>Stacks\<close>

definition stack_ids :: "mmap_allocator list \<Rightarrow> nat list" where
  "stack_ids ss = concat (map mmap_destroy ss)"

lemma stack_ids_simps [simp]: "stack_ids [] = []" "stack_ids (s # ss) = mmap_destroy s @ stack_ids ss"
  "stack_ids (xs @ ys) = stack_ids xs @ stack_ids ys"
  by (simp_all add: stack_ids_def)

lemma stack_allocate_ids:
  "stack_allocate page_bytes pool os = (s, pool', os') \<Longrightarrow>
    mset (mmap_destroy s @ stack_ids pool') + mset [0..<os] = mset (stack_ids pool) + mset [0..<os'] \<and> os \<le> os' \<and> os' \<le> os + 1"
proof (cases pool rule: rev_cases)
  case Nil
  assume "stack_allocate page_bytes pool os = (s, pool', os')"
  with Nil have "mmap_destroy s = [os]" "pool' = []" "os' = os + 1"
    by (auto simp: stack_allocate_def stack_make_bytes_def stack_make_pages_def mmap_make_def protect_pages_def mmap_destroy_def Let_def)
  with Nil show ?thesis by simp
next
  case (snoc pool0 s0)
  assume "stack_allocate page_bytes pool os = (s, pool', os')"
  with snoc show ?thesis by (auto simp: stack_allocate_def)
qed

lemma mmap_move_ids: "mmap_move that = (this, that') \<Longrightarrow> mset (mmap_destroy this) + mset (mmap_destroy that') = mset (mmap_destroy that)"
  and mmap_move_assign_ids: "mmap_move_assign this0 that = (this, that') \<Longrightarrow>
    mset (mmap_destroy this) + mset (mmap_destroy that') = mset (mmap_destroy this0) + mset (mmap_destroy that)"
  by (auto simp: mmap_move_def mmap_move_assign_def mmap_destroy_def)

text \<open>
  A stack of \<open>need_bytes\<close> is the least number of pages that holds them, but its lowest page is protected, so what can be used is
  less than what was asked for.
\<close>

lemma stack_make_bytes_size:
  assumes page: "0 < page_bytes" and need: "unat need_bytes + unat page_bytes < 2 ^ 64"
    and make: "stack_make_bytes page_bytes need_bytes os = (Some m, os')"
  shows "unat need_bytes \<le> unat (map_size m)" "unat (map_size m) < unat need_bytes + unat page_bytes"
    and "guard_offset m = 0" "guard_count m = page_bytes"
proof -
  let ?n = "unat need_bytes" and ?p = "unat page_bytes"
  define k where "k = (if ?n mod ?p = 0 then ?n div ?p else ?n div ?p + 1)"
  define pages where "pages = (if need_bytes mod page_bytes \<noteq> 0 then need_bytes div page_bytes + 1 else need_bytes div page_bytes)"
  have p: "0 < ?p" using page by (simp add: word_less_nat_alt)
  have m: "map_size m = pages * page_bytes" "guard_offset m = 0" "guard_count m = page_bytes"
    using make by (auto simp: stack_make_bytes_def stack_make_pages_def mmap_make_def protect_pages_def pages_def Let_def split: if_splits)
  have mod0: "need_bytes mod page_bytes = 0 \<longleftrightarrow> ?n mod ?p = 0" by (simp add: unat_eq_0 [symmetric] unat_mod)
  have kp: "?n \<le> k * ?p" "k * ?p < ?n + ?p"
  proof -
    define q where "q = ?n div ?p * ?p"
    define d where "d = ?n mod ?p"
    have "q + d = ?n" "d < ?p" "k * ?p = q + (if d = 0 then 0 else ?p)"
      using p by (simp_all add: q_def d_def k_def div_mult_mod_eq)
    then show "?n \<le> k * ?p" "k * ?p < ?n + ?p" by (auto split: if_splits)
  qed
  have "k \<le> k * ?p" using p by (cases ?p) auto
  have n64: "?n div ?p < 2 ^ 64" using need div_le_dividend [of ?n ?p] by linarith
  have "k < 2 ^ 64" using \<open>k \<le> k * ?p\<close> kp need by linarith
  moreover have "unat pages = k mod 2 ^ 64"
    using n64 by (simp add: pages_def k_def mod0 unat_div unat_word_ariths)
  ultimately have "unat pages = k" by simp
  then have "unat (map_size m) = k * ?p" using kp need by (simp add: m(1) unat_word_ariths)
  with kp show "?n \<le> unat (map_size m)" "unat (map_size m) < ?n + ?p" by simp_all
  show "guard_offset m = 0" "guard_count m = page_bytes" by (rule m)+
qed

lemma default_stack_usable: "fst (stack_make_bytes 4096 default_stack_bytes 0) = Some m \<Longrightarrow> unat (map_size m) - unat (guard_count m) = 60 * 1024"
  by (simp add: stack_make_bytes_def stack_make_pages_def mmap_make_def protect_pages_def default_stack_bytes_def Let_def split: if_splits) auto

section \<open>The scheduler\<close>

text \<open>The running fibers \<open>fs\<close> and the queue are exactly the live ones, and hold with the pool every mapping exactly once.\<close>

definition fibers_ok :: "'e fiber list \<Rightarrow> 'e fibers \<Rightarrow> bool" where
  "fibers_ok fs s \<longleftrightarrow>
     mset (map fiber_id (fs @ queue s)) = mset (live s) \<and> distinct (live s) \<and> (\<forall>i \<in> set (live s). i < made s) \<and>
     mset (stack_ids (map fiber_stack (fs @ queue s) @ stacks s)) = mset [0..<mapped s] \<and> mapped s \<le> made s"

lemma mset_exchange: "a + b + m = s + u \<Longrightarrow> s + c = m \<Longrightarrow> a + b + c = u" for a b c m s u :: "'a multiset"
proof -
  assume h: "a + b + m = s + u" "s + c = m"
  have "s + (a + b + c) = a + b + (s + c)" by (simp add: ac_simps)
  also have "\<dots> = s + u" unfolding h(2) by (rule h(1))
  finally show ?thesis by simp
qed

lemma submit_child_effect:
  assumes "fibers_ok fs s"
  shows "fibers_ok fs (submit_child page_bytes r s)"
    and "map fiber_routine (queue (submit_child page_bytes r s)) = map fiber_routine (queue s) @ [r]"
    and "happened (submit_child page_bytes r s) = happened s" "current_scheduler (submit_child page_bytes r s) = current_scheduler s"
    and "current_fiber (submit_child page_bytes r s) = current_fiber s" "made (submit_child page_bytes r s) = made s + 1"
proof -
  obtain st pool os where a: "stack_allocate page_bytes (stacks s) (mapped s) = (st, pool, os)" by (metis prod_cases3)
  note ids = stack_allocate_ids [OF a]
  have new: "made s \<notin> set (live s)" using assms by (auto simp: fibers_ok_def)
  have "mset (stack_ids (stacks s)) + (mset (stack_ids (map fiber_stack fs)) + mset (stack_ids (map fiber_stack (queue s)))) = mset [0..<mapped s]"
    using assms by (simp add: fibers_ok_def ac_simps)
  from mset_exchange [OF conjunct1 [OF ids, unfolded mset_append] this]
  show "fibers_ok fs (submit_child page_bytes r s)"
    using assms ids new
    by (auto simp: fibers_ok_def submit_child_def fiber_make_def a ac_simps simp del: mset_upt)
qed (auto simp: submit_child_def fiber_make_def split: prod.splits)

lemma fiber_run_effect:
  assumes "current_scheduler s" "fibers_ok fs s"
  shows "\<exists>s'. fiber_run page_bytes r s = Some s' \<and> fibers_ok fs s' \<and> current_scheduler s' \<and> current_fiber s' = current_fiber s \<and>
    happened s' = happened s @ actions r \<and> map fiber_routine (queue s') = map fiber_routine (queue s) @ children_of r \<and>
    made s' = made s + length (children_of r)"
  using assms
proof (induction page_bytes r s rule: fiber_run.induct)
  case (2 page_bytes e r s)
  then show ?case by (fastforce simp: fibers_ok_def)
next
  case (4 page_bytes child r s)
  from 4(1) [OF 4(2)] submit_child_effect [OF 4(3), of page_bytes child] 4(2)
  show ?case by auto
qed auto

lemma scheduler_loop_effect:
  assumes "current_scheduler s" "fibers_ok [] s" "rs = map fiber_routine (queue s)"
  shows "\<exists>s'. scheduler_loop page_bytes s = Some s' \<and> queue s' = [] \<and> fibers_ok [] s' \<and>
    happened s' = happened s @ concat (map actions (fifo rs)) \<and> made s' + length rs = made s + length (fifo rs)"
  using assms
proof (induction rs arbitrary: s rule: fifo.induct)
  case 1
  then show ?case by (subst scheduler_loop.simps) simp
next
  case (2 r rs)
  then obtain f fs where q: "queue s = f # fs" "r = fiber_routine f" "rs = map fiber_routine fs" by auto
  let ?s = "s\<lparr>queue := fs, current_fiber := Some (fiber_id f)\<rparr>"
  have "fibers_ok [f] ?s" using 2(3) q by (simp add: fibers_ok_def)
  then obtain s1 where s1: "fiber_run page_bytes r ?s = Some s1" "fibers_ok [f] s1" "current_scheduler s1"
    "happened s1 = happened s @ actions r" "map fiber_routine (queue s1) = rs @ children_of r" "made s1 = made s + length (children_of r)"
    using fiber_run_effect [of ?s "[f]" page_bytes r] 2(2) q by auto
  let ?s2 = "s1\<lparr>current_fiber := None\<rparr>"
  let ?s3 = "?s2\<lparr>stacks := stacks s1 @ [fiber_stack f], live := remove1 (fiber_id f) (live s1)\<rparr>"
  have f: "fiber_id f \<in> set (live s1)" using s1(2) by (metis append_Cons fibers_ok_def list.set_intros(1) list.simps(9) mset_eq_setD)
  have "mset (live s1) = add_mset (fiber_id f) (mset (map fiber_id (queue s1)))" using s1(2) by (simp add: fibers_ok_def)
  then have "fibers_ok [] ?s3" using s1(2) by (auto simp: fibers_ok_def ac_simps simp del: mset_upt dest: notin_set_remove1)
  moreover have "current_scheduler ?s3" "rs @ children_of r = map fiber_routine (queue ?s3)" using s1(3,5) by simp_all
  ultimately obtain s' where s': "scheduler_loop page_bytes ?s3 = Some s'" "queue s' = []" "fibers_ok [] s'"
    "happened s' = happened ?s3 @ concat (map actions (fifo (rs @ children_of r)))"
    "made s' + length (rs @ children_of r) = made ?s3 + length (fifo (rs @ children_of r))"
    using 2(1) [of ?s3] by blast
  have "switch_to page_bytes f (s\<lparr>queue := fs\<rparr>) = Some ?s2" "dispatch_of f ?s2 = Some ?s3"
    using s1(1) f q(2) by (simp_all add: switch_to_def dispatch_of_def stack_release_def)
  then have "scheduler_loop page_bytes s = Some s'" using s'(1) q(1) by (subst scheduler_loop.simps) simp
  with s' s1 show ?case by simp
qed

text \<open>
  C22: \<open>go\<close> outside a fiber returns, whatever the routine submits: every routine submitted runs exactly once, generation
  by generation and in the order of submission, an exception ending only its own routine; every fiber made is deleted and
  every stack mapped is unmapped, each exactly once, and no more stacks are mapped than fibers made.
\<close>

theorem fibers_run_all:
  "\<exists>s freed. go_outside page_bytes r = Some (s, freed) \<and> happened s = concat (map actions (generations [r])) \<and>
    made s = length (generations [r]) \<and> live s = [] \<and> queue s = [] \<and> \<not> current_scheduler s \<and>
    mset freed = mset [0..<mapped s] \<and> mapped s \<le> made s"
proof -
  let ?s0 = "submit_child page_bytes r (new_scheduler\<lparr>current_scheduler := True\<rparr>)"
  have "fibers_ok [] (new_scheduler\<lparr>current_scheduler := True\<rparr>)" by (simp add: fibers_ok_def new_scheduler_def)
  note sub = submit_child_effect [OF this, of page_bytes r]
  have start: "current_scheduler ?s0" "happened ?s0 = []" "made ?s0 = 1" "[r] = map fiber_routine (queue ?s0)"
    using sub(2-6) by (simp_all add: new_scheduler_def)
  obtain s' where s': "scheduler_loop page_bytes ?s0 = Some s'" "queue s' = []" "fibers_ok [] s'"
    "happened s' = concat (map actions (fifo [r]))" "made s' + 1 = 1 + length (fifo [r])"
    using scheduler_loop_effect [OF start(1) sub(1) start(4), of page_bytes] start(2,3) by auto
  have "go_outside page_bytes r = Some (s'\<lparr>current_scheduler := False\<rparr>, stack_ids (stacks s'))"
    using s'(1) by (simp add: go_outside_def submit_entry_def stack_ids_def)
  moreover have "live s' = []" "mset (stack_ids (stacks s')) = mset [0..<mapped s']" "mapped s' \<le> made s'"
    using s'(2,3) by (simp_all add: fibers_ok_def)
  ultimately show ?thesis using s' fifo_generations [of "[r]"]
    by (intro exI [of _ "s'\<lparr>current_scheduler := False\<rparr>"] exI [of _ "stack_ids (stacks s')"]) simp
qed

end
