(* ===== verification/Context_Switch.thy ===== *)
theory Context_Switch
  imports Prelude "HOL-Library.Word" "HOL-Library.Monad_Syntax"
begin

unbundle bit_operations_syntax

text \<open>
  The switch of execution contexts (\<open>execution_context.cpp\<close>, \<open>switch_machine_context.S\<close>): the two assembly routines,
  instruction by instruction, on a processor with the registers they name and a memory of aligned quadwords. \<open>None\<close> is an
  access that is not aligned.
\<close>

section \<open>The processor\<close>

datatype reg = RAX | RBX | RBP | RSP | RSI | RDI | RDX | R11 | R12 | R13 | R14 | R15

datatype instr =
    Mov reg reg
  | Load reg reg
  | Store reg "64 word" reg
  | Push reg
  | Push_Imm "64 word"
  | Pop reg
  | Add_Imm "64 word" reg
  | And_Imm "64 word" reg
  | Ret

record cpu =
  regs :: "reg \<Rightarrow> 64 word"
  quads :: "64 word \<Rightarrow> 64 word"
  rip :: "64 word"

definition aligned :: "64 word \<Rightarrow> bool" where
  "aligned a \<longleftrightarrow> uint a mod 8 = 0"

definition read_quad :: "64 word \<Rightarrow> cpu \<Rightarrow> 64 word option" where
  "read_quad a c = (if aligned a then Some (quads c a) else None)"

definition write_quad :: "64 word \<Rightarrow> 64 word \<Rightarrow> cpu \<Rightarrow> cpu option" where
  "write_quad a v c = (if aligned a then Some (c\<lparr>quads := (quads c)(a := v)\<rparr>) else None)"

definition set_reg :: "reg \<Rightarrow> 64 word \<Rightarrow> cpu \<Rightarrow> cpu" where
  "set_reg r v c = c\<lparr>regs := (regs c)(r := v)\<rparr>"

definition push :: "64 word \<Rightarrow> cpu \<Rightarrow> cpu option" where
  "push v c = (let c = set_reg RSP (regs c RSP - 8) c in write_quad (regs c RSP) v c)"

text \<open>The operands are in the order of the assembly: \<open>movq (%rsi), %rsp\<close> is \<open>Load RSI RSP\<close>, \<open>movq %rdx, 8(%rsp)\<close> is \<open>Store RDX 8 RSP\<close>.\<close>

fun exec :: "instr \<Rightarrow> cpu \<Rightarrow> cpu option" where
  "exec (Mov a b) c = Some (set_reg b (regs c a) c)"
| "exec (Load a b) c = do { v \<leftarrow> read_quad (regs c a) c; Some (set_reg b v c) }"
| "exec (Store a off b) c = write_quad (regs c b + off) (regs c a) c"
| "exec (Push a) c = push (regs c a) c"
| "exec (Push_Imm v) c = push v c"
| "exec (Pop a) c = do { v \<leftarrow> read_quad (regs c RSP) c; Some (set_reg a v (set_reg RSP (regs c RSP + 8) c)) }"
| "exec (Add_Imm v a) c = Some (set_reg a (regs c a + v) c)"
| "exec (And_Imm v a) c = Some (set_reg a (regs c a AND v) c)"
| "exec Ret c = do { v \<leftarrow> read_quad (regs c RSP) c; Some ((set_reg RSP (regs c RSP + 8) c)\<lparr>rip := v\<rparr>) }"

fun exec_all :: "instr list \<Rightarrow> cpu \<Rightarrow> cpu option" where
  "exec_all [] c = Some c"
| "exec_all (i # p) c = do { c \<leftarrow> exec i c; exec_all p c }"

section \<open>The routines\<close>

definition setup_machine_context :: "instr list" where
  "setup_machine_context =
     [Mov RSP R11, Mov RDI RSP,
      Add_Imm (- 64) RSP,
      And_Imm (- 16) RSP, Add_Imm 8 RSP,
      Store RDX 8 RSP,
      Push RSI,
      Push_Imm 0, Push_Imm 0, Push_Imm 0, Push_Imm 0, Push_Imm 0, Push_Imm 0,
      Mov RSP RAX,
      Mov R11 RSP,
      Ret]"

definition switch_machine_context :: "instr list" where
  "switch_machine_context =
     [Push R15, Push R14, Push R13, Push R12,
      Push RBX, Push RBP,
      Store RSP 0 RDI,
      Load RSI RSP,
      Pop RBP, Pop RBX,
      Pop R12, Pop R13, Pop R14, Pop R15,
      Ret]"

text \<open>
  What a caller of \<open>switch_machine_context\<close> relies on: the callee-saved registers, where it goes on and its stack pointer;
  as they are in the processor, as they will be when the running call returns, and as they are stored in a suspended context.
\<close>

record context_view =
  saved_regs :: "64 word list"
  resume_at :: "64 word"
  resume_sp :: "64 word"

definition running :: "cpu \<Rightarrow> context_view" where
  "running c = \<lparr>saved_regs = map (regs c) [RBP, RBX, R12, R13, R14, R15], resume_at = rip c, resume_sp = regs c RSP\<rparr>"

definition calling :: "cpu \<Rightarrow> context_view" where
  "calling c = \<lparr>saved_regs = map (regs c) [RBP, RBX, R12, R13, R14, R15], resume_at = quads c (regs c RSP), resume_sp = regs c RSP + 8\<rparr>"

definition suspended :: "64 word \<Rightarrow> cpu \<Rightarrow> context_view" where
  "suspended sp c =
     \<lparr>saved_regs = map (quads c) [sp, sp + 8, sp + 16, sp + 24, sp + 32, sp + 40], resume_at = quads c (sp + 48), resume_sp = sp + 56\<rparr>"

text \<open>The cells of a suspended context whose stack pointer is \<open>sp\<close>.\<close>

definition frame_cells :: "64 word \<Rightarrow> 64 word set" where
  "frame_cells sp = {sp, sp + 8, sp + 16, sp + 24, sp + 32, sp + 40, sp + 48}"

text \<open>A call from C++: the arguments go to the registers, the address after the call onto the stack.\<close>

definition call :: "instr list \<Rightarrow> 64 word \<Rightarrow> cpu \<Rightarrow> cpu option" where
  "call p return_address c = do { c \<leftarrow> push return_address c; exec_all p c }"

text \<open>
  \<open>machine_context::setup\<close> and \<open>switch_to\<close>; \<open>this\<close> and \<open>target\<close> are the addresses of the fields \<open>rsp_\<close>, \<open>trampoline_executor\<close> that
  of the function.
\<close>

definition context_setup :: "64 word \<Rightarrow> 64 word \<Rightarrow> 64 word \<Rightarrow> 64 word \<Rightarrow> 64 word \<Rightarrow> 64 word \<Rightarrow> cpu \<Rightarrow> cpu option" where
  "context_setup this stack_data stack_size trampoline_executor trampoline return_address c =
     do { c \<leftarrow> call setup_machine_context return_address
                 (set_reg RDI (stack_data + stack_size) (set_reg RSI trampoline_executor (set_reg RDX trampoline c)));
          write_quad this (regs c RAX) c }"

definition context_switch_to :: "64 word \<Rightarrow> 64 word \<Rightarrow> 64 word \<Rightarrow> cpu \<Rightarrow> cpu option" where
  "context_switch_to this target return_address c =
     call switch_machine_context return_address (set_reg RDI this (set_reg RSI target c))"

section \<open>Alignment\<close>

lemma aligned_add: "aligned a \<Longrightarrow> aligned b \<Longrightarrow> aligned (a + b)"
  and aligned_diff: "aligned a \<Longrightarrow> aligned b \<Longrightarrow> aligned (a - b)"
  unfolding aligned_def mod_eq_0_iff_dvd by (simp_all add: uint_word_ariths dvd_mod_iff)

lemma aligned_numerals [simp]: "aligned 0" "aligned 8" "aligned 16" "aligned 24" "aligned 32" "aligned 40" "aligned 48" "aligned 56" "aligned 64"
  by (simp_all add: aligned_def)

lemma aligned_offsets:
  "aligned a \<Longrightarrow> aligned (a + 8) \<and> aligned (a + 16) \<and> aligned (a + 24) \<and> aligned (a + 32) \<and> aligned (a + 40) \<and> aligned (a + 48) \<and>
    aligned (a - 8) \<and> aligned (a - 16) \<and> aligned (a - 24) \<and> aligned (a - 32) \<and> aligned (a - 40) \<and> aligned (a - 48) \<and> aligned (a - 56)"
  by (intro conjI aligned_add aligned_diff aligned_numerals; assumption)

lemma and_minus_16: "take_bit 4 (x AND - 16) = (0 :: 64 word)"
proof -
  have "(- 16 :: 64 word) = NOT (mask 4)" by (simp only: mask_eq_exp_minus_1 not_eq_complement) simp
  then show ?thesis by (simp only: take_bit_eq_mask and.assoc bit.conj_cancel_left and_zero_eq)
qed

section \<open>The switch\<close>

lemma sub_sub: "a - 8 - 8 = a - (16 :: 64 word)" "a - 16 - 8 = a - (24 :: 64 word)" "a - 24 - 8 = a - (32 :: 64 word)"
  "a - 32 - 8 = a - (40 :: 64 word)" "a - 40 - 8 = a - (48 :: 64 word)"
  by (simp_all only: diff_diff_eq) simp_all

lemma pushes:
  assumes "aligned (regs c RSP)"
  shows "exec_all [Push R15, Push R14, Push R13, Push R12, Push RBX, Push RBP] c =
    Some (c\<lparr>regs := (regs c)(RSP := regs c RSP - 48),
      quads := (quads c)(regs c RSP - 8 := regs c R15, regs c RSP - 16 := regs c R14, regs c RSP - 24 := regs c R13,
        regs c RSP - 32 := regs c R12, regs c RSP - 40 := regs c RBX, regs c RSP - 48 := regs c RBP)\<rparr>)"
  using aligned_offsets [OF assms]
  by (simp add: push_def write_quad_def set_reg_def Let_def sub_sub)

lemma store_load:
  assumes "aligned (regs c RDI)" "aligned (regs c RSI)" "regs c RSI \<noteq> regs c RDI"
  shows "exec_all [Store RSP 0 RDI, Load RSI RSP] c =
    Some (c\<lparr>regs := (regs c)(RSP := quads c (regs c RSI)), quads := (quads c)(regs c RDI := regs c RSP)\<rparr>)"
  using assms by (simp add: write_quad_def read_quad_def set_reg_def)

lemma add_add: "a + 8 + 8 = a + (16 :: 64 word)" "a + 16 + 8 = a + (24 :: 64 word)" "a + 24 + 8 = a + (32 :: 64 word)"
  "a + 32 + 8 = a + (40 :: 64 word)" "a + 40 + 8 = a + (48 :: 64 word)" "a + 48 + 8 = a + (56 :: 64 word)"
  by (simp_all only: add.assoc) simp_all

lemma pops:
  assumes "aligned (regs c RSP)"
  shows "\<exists>c'. exec_all [Pop RBP, Pop RBX, Pop R12, Pop R13, Pop R14, Pop R15, Ret] c = Some c' \<and>
    running c' = suspended (regs c RSP) c \<and> quads c' = quads c"
  using assms aligned_offsets [OF assms]
  by (simp add: read_quad_def set_reg_def add_add running_def suspended_def)

lemma sub_add: "a - 48 + 8 = a - (40 :: 64 word)" "a - 48 + 16 = a - (32 :: 64 word)" "a - 48 + 24 = a - (24 :: 64 word)"
  "a - 48 + 32 = a - (16 :: 64 word)" "a - 48 + 40 = a - (8 :: 64 word)" "a - 48 + 48 = (a :: 64 word)" "a - 48 + 56 = a + (8 :: 64 word)"
  by simp_all

lemma exec_all_append: "exec_all (p @ q) c = do { c \<leftarrow> exec_all p c; exec_all q c }"
  by (induction p arbitrary: c) (auto split: bind_splits)

text \<open>
  A switch suspends the caller under its stack pointer, stored in the context it leaves, and goes on as the context whose
  stack pointer it finds in the other one; it writes nothing else.
\<close>

lemma switch_runs:
  assumes al: "aligned (regs c RSP)" "aligned (regs c RDI)" "aligned (regs c RSI)" "aligned (quads c (regs c RSI))"
    and cells: "regs c RSI \<noteq> regs c RDI" "{regs c RSI, regs c RDI} \<inter> frame_cells (regs c RSP - 48) = {}"
      "(frame_cells (regs c RSP - 48) \<union> {regs c RDI}) \<inter> frame_cells (quads c (regs c RSI)) = {}"
  shows "\<exists>c'. exec_all switch_machine_context c = Some c' \<and> running c' = suspended (quads c (regs c RSI)) c \<and>
    quads c' (regs c RDI) = regs c RSP - 48 \<and> suspended (regs c RSP - 48) c' = calling c \<and>
    (\<forall>a. a \<notin> frame_cells (regs c RSP - 48) \<union> {regs c RDI} \<longrightarrow> quads c' a = quads c a)"
proof -
  let ?s = "regs c RSP" and ?d = "regs c RDI" and ?t = "quads c (regs c RSI)"
  let ?m = "(quads c)(?s - 8 := regs c R15, ?s - 16 := regs c R14, ?s - 24 := regs c R13, ?s - 32 := regs c R12,
      ?s - 40 := regs c RBX, ?s - 48 := regs c RBP)"
  have frame: "frame_cells (?s - 48) = {?s - 48, ?s - 40, ?s - 32, ?s - 24, ?s - 16, ?s - 8, ?s}"
    by (simp add: frame_cells_def)
  define c1 where "c1 = c\<lparr>regs := (regs c)(RSP := ?s - 48), quads := ?m\<rparr>"
  have c1: "exec_all [Push R15, Push R14, Push R13, Push R12, Push RBX, Push RBP] c = Some c1"
    unfolding c1_def by (rule pushes [OF al(1)])
  have r1: "regs c1 RDI = ?d" "regs c1 RSI = regs c RSI" "regs c1 RSP = ?s - 48" "quads c1 = ?m" by (simp_all add: c1_def)
  have t1: "?m (regs c RSI) = ?t" using cells(2) unfolding frame by auto
  define c2 where "c2 = c1\<lparr>regs := (regs c1)(RSP := ?t), quads := ?m(?d := ?s - 48)\<rparr>"
  have c2: "exec_all [Store RSP 0 RDI, Load RSI RSP] c1 = Some c2"
    using store_load [of c1] al cells(1) r1 t1 by (simp add: c2_def)
  have "regs c2 RSP = ?t" by (simp add: c2_def)
  with pops [of c2] al(4) obtain c3 where c3: "exec_all [Pop RBP, Pop RBX, Pop R12, Pop R13, Pop R14, Pop R15, Ret] c2 = Some c3"
    "running c3 = suspended ?t c2" "quads c3 = ?m(?d := ?s - 48)" by (auto simp: c2_def)
  have parts: "switch_machine_context = [Push R15, Push R14, Push R13, Push R12, Push RBX, Push RBP] @
      [Store RSP 0 RDI, Load RSI RSP] @ [Pop RBP, Pop RBX, Pop R12, Pop R13, Pop R14, Pop R15, Ret]"
    by (simp add: switch_machine_context_def)
  have "exec_all switch_machine_context c = Some c3"
    by (simp only: parts exec_all_append c1 c2 c3(1) Option.bind.simps)
  moreover have "suspended ?t c2 = suspended ?t c"
  proof -
    have "(?m(?d := ?s - 48)) a = quads c a" if "a \<in> frame_cells ?t" for a
      using that cells(3) unfolding frame by auto
    then show ?thesis by (simp add: suspended_def frame_cells_def c2_def)
  qed
  moreover have "suspended (?s - 48) c3 = calling c"
  proof -
    have ne: "?d \<noteq> ?s - 48" "?d \<noteq> ?s - 40" "?d \<noteq> ?s - 32" "?d \<noteq> ?s - 24" "?d \<noteq> ?s - 16" "?d \<noteq> ?s - 8" "?d \<noteq> ?s"
      using cells(2) unfolding frame by auto
    have "quads c3 (?s - 48) = regs c RBP" "quads c3 (?s - 40) = regs c RBX" "quads c3 (?s - 32) = regs c R12"
      "quads c3 (?s - 24) = regs c R13" "quads c3 (?s - 16) = regs c R14" "quads c3 (?s - 8) = regs c R15" "quads c3 ?s = quads c ?s"
      using ne by (simp_all add: c3(3) not_sym [OF ne(1)])
    then show ?thesis by (simp only: suspended_def calling_def sub_add list.map)
  qed
  moreover have "quads c3 a = quads c a" if "a \<notin> frame_cells (?s - 48) \<union> {?d}" for a
    using that unfolding frame c3(3) by simp
  ultimately show ?thesis using c3(2,3) by auto
qed

text \<open>
  The context of a caller that goes on at \<open>return_address\<close>, and what a switch needs: aligned addresses, and the two
  contexts, the frame it builds and the frame it resumes in different places.
\<close>

definition caller_view :: "64 word \<Rightarrow> cpu \<Rightarrow> context_view" where
  "caller_view return_address c =
     \<lparr>saved_regs = map (regs c) [RBP, RBX, R12, R13, R14, R15], resume_at = return_address, resume_sp = regs c RSP\<rparr>"

definition switch_ok :: "64 word \<Rightarrow> 64 word \<Rightarrow> cpu \<Rightarrow> bool" where
  "switch_ok this target c \<longleftrightarrow>
     aligned (regs c RSP) \<and> aligned this \<and> aligned target \<and> aligned (quads c target) \<and> this \<noteq> target \<and>
     {this, target} \<inter> frame_cells (regs c RSP - 56) = {} \<and>
     (frame_cells (regs c RSP - 56) \<union> {this}) \<inter> frame_cells (quads c target) = {}"

lemma push_runs:
  assumes "aligned (regs c RSP)"
  shows "\<exists>c'. push v c = Some c' \<and> regs c' = (regs c)(RSP := regs c RSP - 8) \<and> quads c' = (quads c)(regs c RSP - 8 := v) \<and> rip c' = rip c"
  using aligned_offsets [OF assms] by (simp add: push_def write_quad_def set_reg_def)

lemma context_switch_runs:
  assumes ok: "switch_ok this target c"
  shows "\<exists>c'. context_switch_to this target ra c = Some c' \<and> running c' = suspended (quads c target) c \<and>
    quads c' this = regs c RSP - 56 \<and> suspended (regs c RSP - 56) c' = caller_view ra c \<and>
    (\<forall>a. a \<notin> frame_cells (regs c RSP - 56) \<union> {this} \<longrightarrow> quads c' a = quads c a)"
proof -
  let ?c = "set_reg RDI this (set_reg RSI target c)" and ?s = "regs c RSP"
  note ok' = ok [unfolded switch_ok_def]
  have r: "regs ?c RSP = ?s" "quads ?c = quads c" by (simp_all add: set_reg_def)
  obtain c1 where c1: "push ra ?c = Some c1" "regs c1 = (regs ?c)(RSP := ?s - 8)" "quads c1 = (quads c)(?s - 8 := ra)"
    using push_runs [of ?c ra] ok' r by auto
  have top: "?s - 8 \<in> frame_cells (?s - 56)" by (simp add: frame_cells_def)
  have regs1: "regs c1 RSP = ?s - 8" "regs c1 RDI = this" "regs c1 RSI = target" by (simp_all add: c1(2) set_reg_def)
  have t: "quads c1 target = quads c target" using ok' top by (auto simp: c1(3))
  have sp: "?s - 8 - 48 = ?s - 56" by simp
  have al: "aligned (?s - 8)" using aligned_offsets [of ?s] ok' by blast
  obtain c2 where c2: "exec_all switch_machine_context c1 = Some c2" "running c2 = suspended (quads c target) c1"
    "quads c2 this = ?s - 56" "suspended (?s - 56) c2 = calling c1"
    "\<forall>a. a \<notin> frame_cells (?s - 56) \<union> {this} \<longrightarrow> quads c2 a = quads c1 a"
    using switch_runs [of c1] ok' al unfolding regs1 t sp by auto
  have "suspended (quads c target) c1 = suspended (quads c target) c"
  proof -
    have "quads c1 a = quads c a" if "a \<in> frame_cells (quads c target)" for a
      using that ok' top by (auto simp: c1(3))
    then show ?thesis by (simp add: suspended_def frame_cells_def)
  qed
  moreover have "calling c1 = caller_view ra c" using c1(2,3) by (simp add: calling_def caller_view_def set_reg_def)
  moreover have "quads c2 a = quads c a" if "a \<notin> frame_cells (?s - 56) \<union> {this}" for a
    using c2(5) that top by (auto simp: c1(3))
  ultimately show ?thesis using c1(1) c2 by (auto simp: context_switch_to_def call_def)
qed

text \<open>
  C23: A switch goes on exactly where the target context was suspended; and whatever runs in between, as long as it leaves
  the frame of the suspended context and its stored stack pointer alone, the switch back makes the first call return with
  its callee-saved registers and its stack pointer as they were.
\<close>

theorem context_switch_round_trip:
  assumes "switch_ok this target c"
    and "switch_ok other this d"
    and "context_switch_to this target ra c = Some c'"
    and "\<forall>a \<in> frame_cells (regs c RSP - 56) \<union> {this}. quads d a = quads c' a"
  shows "running c' = suspended (quads c target) c \<and> (\<exists>d'. context_switch_to other this ra' d = Some d' \<and> running d' = caller_view ra c)"
proof -
  from context_switch_runs [OF assms(1), of ra] assms(3)
  have c': "running c' = suspended (quads c target) c" "quads c' this = regs c RSP - 56" "suspended (regs c RSP - 56) c' = caller_view ra c" by auto
  from context_switch_runs [OF assms(2), of ra'] obtain d' where d': "context_switch_to other this ra' d = Some d'"
    "running d' = suspended (quads d this) d" by blast
  have "quads d this = regs c RSP - 56" using assms(4) c'(2) by simp
  moreover have "suspended (regs c RSP - 56) d = suspended (regs c RSP - 56) c'"
    using assms(4) by (simp add: suspended_def frame_cells_def)
  ultimately show ?thesis using c' d' by simp
qed

section \<open>A fresh context\<close>

definition stack_top :: "64 word \<Rightarrow> 64 word" where
  "stack_top bottom = ((bottom - 64) AND - 16) + 8"

lemma aligned_stack_top: "aligned (stack_top bottom)" "uint (stack_top bottom + 8) mod 16 = 0"
proof -
  let ?b = "(bottom - 64) AND - 16 :: 64 word"
  have "take_bit 4 (uint ?b) = 0" using and_minus_16 [of "bottom - 64"] by (simp flip: unsigned_take_bit_eq)
  then have b: "uint ?b mod 16 = 0" by (simp add: take_bit_eq_mod)
  then have "aligned ?b" unfolding aligned_def mod_eq_0_iff_dvd by (rule dvd_trans [rotated]) simp
  then show "aligned (stack_top bottom)" unfolding stack_top_def by (rule aligned_add) simp
  have "stack_top bottom + 8 = ?b + 16" by (simp add: stack_top_def)
  then show "uint (stack_top bottom + 8) mod 16 = 0"
    using b unfolding mod_eq_0_iff_dvd by (simp add: uint_word_ariths dvd_mod_iff)
qed

lemma uint_and_minus_16: "uint (x AND - 16 :: 64 word) = uint x - uint x mod 16"
proof -
  have m: "(- 16 :: 64 word) = NOT (mask 4)" by (simp only: mask_eq_exp_minus_1 not_eq_complement) simp
  have "(x AND NOT (mask 4)) + (x AND mask 4) = (x AND NOT (mask 4)) OR (x AND mask 4)"
    by (rule disjunctive_add) (simp add: bit_simps)
  also have "\<dots> = x" by (rule bit_word_eqI) (auto simp: bit_simps)
  finally have "x AND - 16 = x - take_bit 4 x" unfolding m take_bit_eq_mask by (metis add_diff_cancel_right')
  moreover have "uint (take_bit 4 x) = uint x mod 16" by (simp add: unsigned_take_bit_eq take_bit_eq_mod uint_mod)
  moreover have "0 \<le> uint x - uint x mod 16" "uint x - uint x mod 16 < 2 ^ 64"
    using uint_bounded [of x] by (simp_all add: zmod_le_nonneg_dividend order_le_less_trans [of _ "uint x"])
  ultimately show ?thesis by (simp add: uint_word_ariths)
qed

text \<open>What the set-up writes lies in the top 128 bytes of the stack.\<close>

lemma stack_top_bounds:
  assumes "128 \<le> uint bottom"
  shows "uint bottom - 128 < uint (stack_top bottom - 56)" "uint (stack_top bottom + 8) + 8 \<le> uint bottom"
proof -
  let ?b = "(bottom - 64) AND - 16 :: 64 word"
  have hi: "uint bottom < 2 ^ 64" using uint_bounded [of bottom] by simp
  have d: "uint (bottom - 64) = uint bottom - 64" using assms hi by (simp add: uint_word_ariths)
  have b: "uint ?b = uint bottom - 64 - (uint bottom - 64) mod 16" unfolding uint_and_minus_16 d ..
  have r: "0 \<le> (uint bottom - 64) mod 16" "(uint bottom - 64) mod 16 < 16" by simp_all
  have e: "stack_top bottom - 56 = ?b - 48" "stack_top bottom + 8 = ?b + 16" by (simp_all add: stack_top_def)
  have "uint (?b - 48) = uint ?b - 48" using b r assms hi by (simp add: uint_word_ariths)
  then show "uint bottom - 128 < uint (stack_top bottom - 56)" using b r e by simp
  have "uint (?b + 16) = uint ?b + 16" using b r assms hi by (simp add: uint_word_ariths)
  then show "uint (stack_top bottom + 8) + 8 \<le> uint bottom" using b r unfolding e(2) by linarith
qed

lemma push_imms:
  assumes "aligned (regs c RSP)"
  shows "exec_all [Push RSI, Push_Imm 0, Push_Imm 0, Push_Imm 0, Push_Imm 0, Push_Imm 0, Push_Imm 0] c =
    Some (c\<lparr>regs := (regs c)(RSP := regs c RSP - 56),
      quads := (quads c)(regs c RSP - 8 := regs c RSI, regs c RSP - 16 := 0, regs c RSP - 24 := 0,
        regs c RSP - 32 := 0, regs c RSP - 40 := 0, regs c RSP - 48 := 0, regs c RSP - 56 := 0)\<rparr>)"
proof -
  have "a - 48 - 8 = a - (56 :: 64 word)" for a by (simp only: diff_diff_eq) simp
  then show ?thesis using aligned_offsets [OF assms] by (simp add: push_def write_quad_def set_reg_def Let_def sub_sub)
qed

definition fresh_cells :: "64 word \<Rightarrow> 64 word set" where
  "fresh_cells t = insert (t + 8) (frame_cells (t - 56))"

lemma setup_runs:
  fixes c
  defines "t \<equiv> stack_top (regs c RDI)"
  assumes al: "aligned (regs c RSP)" and ret: "regs c RSP \<notin> fresh_cells t"
  shows "\<exists>c'. exec_all setup_machine_context c = Some c' \<and> running c' = calling c \<and> regs c' RAX = t - 56 \<and>
    suspended (t - 56) c' = \<lparr>saved_regs = [0, 0, 0, 0, 0, 0], resume_at = regs c RSI, resume_sp = t\<rparr> \<and>
    quads c' (t + 8) = regs c RDX \<and> (\<forall>a. a \<notin> fresh_cells t \<longrightarrow> quads c' a = quads c a)"
proof -
  let ?A = "[Mov RSP R11, Mov RDI RSP, Add_Imm (- 64) RSP, And_Imm (- 16) RSP, Add_Imm 8 RSP, Store RDX 8 RSP]"
  let ?B = "[Push RSI, Push_Imm 0, Push_Imm 0, Push_Imm 0, Push_Imm 0, Push_Imm 0, Push_Imm 0]"
  let ?C = "[Mov RSP RAX, Mov R11 RSP, Ret]"
  have parts: "setup_machine_context = ?A @ ?B @ ?C" by (simp add: setup_machine_context_def)
  have t: "aligned t" unfolding t_def by (rule aligned_stack_top)
  define c1 where "c1 = c\<lparr>regs := (regs c)(R11 := regs c RSP, RSP := t), quads := (quads c)(t + 8 := regs c RDX)\<rparr>"
  have c1: "exec_all ?A c = Some c1"
    using aligned_offsets [OF t]
    by (simp add: set_reg_def write_quad_def c1_def stack_top_def t_def fun_upd_twist)
  define m where "m = (quads c1)(t - 8 := regs c RSI, t - 16 := 0, t - 24 := 0, t - 32 := 0, t - 40 := 0, t - 48 := 0, t - 56 := 0)"
  define c2 where "c2 = c1\<lparr>regs := (regs c1)(RSP := t - 56), quads := m\<rparr>"
  have r1: "regs c1 RSP = t" "regs c1 RSI = regs c RSI" by (simp_all add: c1_def)
  have c2: "exec_all ?B c1 = Some c2" using push_imms [of c1] t unfolding r1 by (simp add: c2_def m_def)
  have frame: "fresh_cells t = {t + 8, t - 56, t - 48, t - 40, t - 32, t - 24, t - 16, t - 8}"
    by (simp add: fresh_cells_def frame_cells_def insert_commute)
  have m: "m a = quads c a" if "a \<notin> fresh_cells t" for a using that unfolding frame by (simp add: m_def c1_def)
  define c3 where "c3 = c2\<lparr>regs := (regs c2)(RAX := t - 56, RSP := regs c RSP + 8), rip := quads c (regs c RSP)\<rparr>"
  have c3: "exec_all ?C c2 = Some c3"
    using al m [OF ret] by (simp add: read_quad_def set_reg_def c3_def c2_def c1_def fun_upd_twist)
  have "exec_all setup_machine_context c = Some c3" by (simp only: parts exec_all_append c1 c2 c3 Option.bind.simps)
  moreover have "running c3 = calling c" by (simp add: running_def calling_def c3_def c2_def c1_def)
  moreover have "regs c3 RAX = t - 56" by (simp add: c3_def)
  moreover have "suspended (t - 56) c3 = \<lparr>saved_regs = [0, 0, 0, 0, 0, 0], resume_at = regs c RSI, resume_sp = t\<rparr>"
  proof -
    have q: "m (t - 56) = 0" "m (t - 48) = 0" "m (t - 40) = 0" "m (t - 32) = 0" "m (t - 24) = 0" "m (t - 16) = 0" "m (t - 8) = regs c RSI"
      by (simp_all add: m_def)
    have o: "t - 56 + 8 = t - 48" "t - 56 + 16 = t - 40" "t - 56 + 24 = t - 32" "t - 56 + 32 = t - 24" "t - 56 + 40 = t - 16"
      "t - 56 + 48 = t - 8" "t - 56 + 56 = t" by simp_all
    have "quads c3 = m" by (simp add: c3_def c2_def)
    then show ?thesis by (simp only: suspended_def o q list.map)
  qed
  moreover have "quads c3 (t + 8) = regs c RDX" by (simp add: c3_def c2_def m_def c1_def)
  moreover have "\<forall>a. a \<notin> fresh_cells t \<longrightarrow> quads c3 a = quads c a" using m by (simp add: c3_def c2_def)
  ultimately show ?thesis by blast
qed

text \<open>
  \<open>setup\<close> of a context on a stack of its own: the caller goes on unchanged, and the switch to the context enters
  \<open>trampoline_executor\<close> with its argument in the place of the seventh parameter and the stack aligned as a function expects it.
\<close>

lemma context_setup_runs:
  fixes stack_data stack_size
  defines "t \<equiv> stack_top (stack_data + stack_size)"
  assumes al: "aligned (regs c RSP)" "aligned this" and own: "{this, regs c RSP - 8} \<inter> fresh_cells t = {}" "this \<noteq> regs c RSP - 8"
  shows "\<exists>c'. context_setup this stack_data stack_size trampoline_executor trampoline ra c = Some c' \<and>
    running c' = caller_view ra c \<and> quads c' this = t - 56 \<and>
    suspended (t - 56) c' = \<lparr>saved_regs = [0, 0, 0, 0, 0, 0], resume_at = trampoline_executor, resume_sp = t\<rparr> \<and>
    quads c' (t + 8) = trampoline \<and> (\<forall>a. a \<notin> fresh_cells t \<union> {this, regs c RSP - 8} \<longrightarrow> quads c' a = quads c a)"
proof -
  let ?c = "set_reg RDI (stack_data + stack_size) (set_reg RSI trampoline_executor (set_reg RDX trampoline c))"
  have r: "regs ?c RSP = regs c RSP" "quads ?c = quads c" by (simp_all add: set_reg_def)
  obtain c1 where c1: "push ra ?c = Some c1" "regs c1 = (regs ?c)(RSP := regs c RSP - 8)" "quads c1 = (quads c)(regs c RSP - 8 := ra)"
    using push_runs [of ?c ra] al r by auto
  have r1: "regs c1 RSP = regs c RSP - 8" "regs c1 RDI = stack_data + stack_size" "regs c1 RSI = trampoline_executor" "regs c1 RDX = trampoline"
    by (simp_all add: c1(2) set_reg_def)
  have al1: "aligned (regs c RSP - 8)" using aligned_offsets [OF al(1)] by blast
  obtain c2 where c2: "exec_all setup_machine_context c1 = Some c2" "running c2 = calling c1" "regs c2 RAX = t - 56"
    "suspended (t - 56) c2 = \<lparr>saved_regs = [0, 0, 0, 0, 0, 0], resume_at = trampoline_executor, resume_sp = t\<rparr>"
    "quads c2 (t + 8) = trampoline" "\<forall>a. a \<notin> fresh_cells t \<longrightarrow> quads c2 a = quads c1 a"
    using setup_runs [of c1] al1 own unfolding r1 t_def by auto
  define c3 where "c3 = c2\<lparr>quads := (quads c2)(this := t - 56)\<rparr>"
  have "context_setup this stack_data stack_size trampoline_executor trampoline ra c = Some c3"
    using c1(1) c2(1,3) al(2) by (simp add: context_setup_def call_def write_quad_def c3_def)
  moreover have "running c3 = caller_view ra c"
    using c2(2) c1(2,3) by (simp add: c3_def running_def calling_def caller_view_def set_reg_def)
  moreover have keep: "quads c3 a = quads c2 a" if "a \<in> fresh_cells t" for a using that own by (auto simp: c3_def)
  moreover have "suspended (t - 56) c3 = suspended (t - 56) c2"
    using keep by (simp add: suspended_def fresh_cells_def frame_cells_def)
  moreover have "quads c3 (t + 8) = trampoline" using keep c2(5) by (simp add: fresh_cells_def)
  moreover have "quads c3 a = quads c a" if "a \<notin> fresh_cells t \<union> {this, regs c RSP - 8}" for a
    using that c2(6) by (simp add: c3_def c1(3))
  ultimately show ?thesis using c2(4) by (simp add: c3_def)
qed

lemma fresh_context_starts:
  fixes stack_data stack_size
  defines "t \<equiv> stack_top (stack_data + stack_size)"
  assumes su: "context_setup target stack_data stack_size trampoline_executor trampoline ra c = Some c'"
    "aligned (regs c RSP)" "aligned target" "{target, regs c RSP - 8} \<inter> fresh_cells t = {}" "target \<noteq> regs c RSP - 8"
    and kept: "\<forall>a \<in> insert target (fresh_cells t). quads d a = quads c' a"
    and ok: "switch_ok this target d" "t + 8 \<notin> insert this (frame_cells (regs d RSP - 56))"
  shows "\<exists>d'. context_switch_to this target ra' d = Some d' \<and>
    running d' = \<lparr>saved_regs = [0, 0, 0, 0, 0, 0], resume_at = trampoline_executor, resume_sp = t\<rparr> \<and>
    quads d' (t + 8) = trampoline \<and> uint (t + 8) mod 16 = 0"
proof -
  from context_setup_runs [OF su(2,3), of stack_data stack_size trampoline_executor trampoline ra] su
  have c': "quads c' target = t - 56" "suspended (t - 56) c' = \<lparr>saved_regs = [0, 0, 0, 0, 0, 0], resume_at = trampoline_executor, resume_sp = t\<rparr>"
    "quads c' (t + 8) = trampoline" unfolding t_def by auto
  have d: "quads d target = t - 56" "quads d (t + 8) = trampoline" using kept c' by (simp_all add: fresh_cells_def)
  have s: "suspended (t - 56) d = suspended (t - 56) c'"
    using kept by (simp add: suspended_def fresh_cells_def frame_cells_def)
  from context_switch_runs [OF ok(1), of ra'] show ?thesis
    unfolding d(1) s c'(2) using ok(2) d(2) aligned_stack_top(2) [of "stack_data + stack_size"] unfolding t_def by auto
qed

section \<open>A switch and back\<close>

text \<open>Two contexts on stacks at 4096 and 8192 with their stored stack pointers at 64 and 72.\<close>

definition ping :: cpu where
  "ping = \<lparr>regs = (\<lambda>r. case r of RSP \<Rightarrow> 4096 | RBX \<Rightarrow> 7 | R15 \<Rightarrow> 9 | _ \<Rightarrow> 0),
     quads = (\<lambda>a. if a = 72 then 8192 - 56 else if a = 8184 then 42 else 0), rip = 0\<rparr>"

lemma ping_ok: "switch_ok 64 72 ping"
  by (simp add: switch_ok_def ping_def frame_cells_def aligned_def)

theorem context_switch_round_trip_witness:
  "\<exists>c' d'. context_switch_to 64 72 100 ping = Some c' \<and> rip c' = 42 \<and> context_switch_to 72 64 200 c' = Some d' \<and>
    rip d' = 100 \<and> regs d' RBX = 7 \<and> regs d' R15 = 9 \<and> regs d' RSP = 4096"
proof -
  obtain c' where c': "context_switch_to 64 72 100 ping = Some c'" "running c' = suspended (quads ping 72) ping" "quads c' 64 = regs ping RSP - 56"
    using context_switch_runs [OF ping_ok, of 100] by blast
  have sp: "regs c' RSP = 8192" using c'(2) by (simp add: running_def suspended_def ping_def)
  have "switch_ok 72 64 c'"
    using c'(3) sp by (simp add: switch_ok_def ping_def frame_cells_def aligned_def)
  from context_switch_round_trip [OF ping_ok this c'(1)] obtain d' where
    "context_switch_to 72 64 200 c' = Some d'" "running d' = caller_view 100 ping" by auto
  with c' show ?thesis by (auto simp: running_def caller_view_def suspended_def ping_def)
qed

end
