(* ===== verification/Spec2Isabelle.thy ===== *)
theory Spec2Isabelle
  imports Sort_Simple Sort_Shaker Sort_Heap Sort_Merge Sort_Quick Binary_Heap AVL_Tree Hash_Table Disjoint_Set
    Lru_Cache Lru_K_Cache Coroutine First_N Locks Sync_Objects
    Digraph_Search Graph_Lifetime Registry
    BS_Tree_Erase Sort_Tree RB_Tree_Insert Shared_Ptr Extendible_Hash Dynamic_Array_Spec Thread_Pool
    Lock_Free_Safety Blocking_Stack Graphviz_Reader Travelling_Salesman_Proofs B_Tree_Proofs
    Singleton_Proofs Registrator Fibers_Proofs Context_Switch
begin

text \<open>
  A model of \<open>dsac\<close>, a C++ library of data structures, algorithms, caches, concurrency primitives and
  futures, and of its example of a replicated register, with the theorems that make it correct. Paths are relative to
  \<open>include/dsac\<close> unless they start with \<open>src\<close> or \<open>examples\<close>.

  \<^bold>\<open>Conventions.\<close> A class is a record of its members, an operation a function from the old object (and the memory, where
  it uses pointers) to the new one. \<open>None\<close> is undefined behaviour (a null or dangling dereference, an index out
  of range, a double delete) or, for a loop defined by \<open>partial_function\<close>, a loop that does not end; a thrown
  exception is \<open>Inl\<close>. Comparators, hash functions, element operations and allocators are parameters. Concurrent
  objects are step relations over any number of threads, one atomic access, system call or critical section per step,
  with sequentially consistent atomics. Sizes are natural numbers; where the code depends on the width of
  \<open>std::size_t\<close> the arithmetic is modulo \<open>2 ^ 64\<close>. \<open>Prelude\<close> holds the shared vocabulary and the comparator
  contract, \<open>Counting\<close> the counting of threads at a program point.

  \<^bold>\<open>Algorithms\<close> (\<open>algorithm\<close>). \<open>Sort_Simple\<close>: \<open>is_sorted\<close>, bubble, insertion and selection sort.
  \<open>Sort_Heap\<close>, \<open>Sort_Merge\<close>, \<open>Sort_Quick\<close>, \<open>Sort_Shaker\<close> (shaker and shell sort): the other sorts, with \<open>Heap_Order\<close>
  for the array heaps.
  \<open>Sort_Tree\<close>: \<open>binary_tree_sort\<close> on the model of the binary search tree. Each sort is shown to permute its input
  into an ordered range, the quick sorts for elements that the conversion of their pivot to \<open>int\<close> keeps.

  \<^bold>\<open>Containers\<close> (\<open>container\<close>). \<open>Binary_Heap\<close> (\<open>heap\<close>); \<open>AVL_Tree\<close>, \<open>BS_Tree\<close> with
  \<open>BS_Tree_Erase\<close>, \<open>RB_Tree\<close> with \<open>RB_Tree_Proofs\<close>, \<open>RB_Tree_Balance\<close> and \<open>RB_Tree_Insert\<close> (\<open>tree\<close>;
  the last two as nodes with pointers in a heap) and \<open>B_Tree\<close> with \<open>B_Tree_Proofs\<close> (nodes in memory too; correct up to
  \<open>2 t\<^sup>2\<close> keys, after which a split of an inner node fails). The first two interpret the contract \<open>Set_Contract\<close>, the trees
  that keep duplicates \<open>Bag_Contract\<close>. \<open>Hash_Table\<close>
  and \<open>Extendible_Hash\<close> (\<open>hash\<close>), with \<open>Map_Contract\<close>; \<open>Intrusive_List\<close> (\<open>intrusive\<close>) and
  \<open>Indexed_List\<close>, the pair of a hash set and an intrusive list that both caches keep; \<open>Disjoint_Set\<close>,
  \<open>Directed_Graph\<close> with \<open>Graph_Lifetime\<close> (what its destructor frees), \<open>Digraph\<close> (\<open>graph\<close>).
  \<open>Uninitialized\<close> models raw memory, objects, exceptions and allocators (\<open>detail/construct.hpp\<close>); on it \<open>Dynamic_Array\<close> is the code of \<open>dynamic_array\<close>, \<open>Dynamic_Array_Proofs\<close>
  and \<open>Dynamic_Array_Ops\<close> its invariant and operations, \<open>Dynamic_Array_Spec\<close> the refinement of lists by programs that
  use many arrays and the exception guarantee. The lemmas show that each container keeps its invariant and refines a
  set, map, sequence or partition.

  \<^bold>\<open>Graph searches.\<close> \<open>Graph_Search\<close> is the invariant that breadth first (\<open>Directed_Graph\<close>), depth first and Dijkstra's
  search (\<open>Digraph_Search\<close>) share, a locale that both kinds of graph instantiate.

  \<^bold>\<open>The travelling salesman\<close> (\<open>src/container/graph/travelling_salesman_problem.cpp\<close>). \<open>Next_Permutation\<close> is the standard
  algorithm that enumerates the subsets as bit strings, \<open>Travelling_Salesman\<close> the table of the dynamic programming,
  \<open>Travelling_Salesman_Proofs\<close> that the cost and the tour it returns are the optimum over all tours of up to ten nodes.

  \<^bold>\<open>Graphviz\<close> (\<open>container/graph/detail\<close>, \<open>read_graphviz.hpp\<close>). \<open>Graphviz_Lexer\<close> and \<open>Graphviz_Syntax\<close> are the analyzers,
  \<open>Graphviz_Grammar\<close> the trees that the parser accepts, the grammar of the README, which is stricter, the equivalence of the
  parser with both and the round trip of printing and parsing, \<open>Graphviz_Reader\<close> the construction of a directed graph from a text.

  \<^bold>\<open>Caches\<close> (\<open>cache\<close>). \<open>Lru_Cache\<close> and \<open>Lru_K_Cache\<close> refine lists in order of recency.

  \<^bold>\<open>Memory\<close> (\<open>memory\<close>). \<open>Shared_Ptr\<close>: the reference counter equals the number of owners, the object is freed once, and nothing is left
  but the counters and deleters of wrapped null pointers.

  \<^bold>\<open>Concurrency\<close> (\<open>concurrency\<close>, \<open>src/concurrency\<close>). \<open>Locks\<close>: the futex mutex, the spin lock and \<open>unique_lock\<close>.
  \<open>Sync_Objects\<close>: barrier, semaphore, mvar. \<open>Thread_Pool\<close>: the blocking queue and the static thread pool.
  \<open>Shared_State\<close>: the rendezvous of a producer and a consumer on which futures rest; \<open>Future\<close>: the sequential
  interface (\<open>then\<close>, \<open>get\<close>, \<open>async_via\<close>, promises) on a world of such states; \<open>Coroutine\<close>: coroutines that return and await futures; \<open>First_N\<close>: the combinators.
  \<open>Stack_Spec\<close> is the contract of a linearizable stack; \<open>Lock_Free_Stack\<close> with \<open>Lock_Free_Safety\<close> and \<open>Blocking_Stack\<close> are
  the two concurrent stacks that implement it. \<open>Fibers\<close> with \<open>Fibers_Proofs\<close>: the scheduler, its stacks and \<open>go\<close>;
  \<open>Context_Switch\<close>: the assembly that sets up and switches the fibers' contexts, instruction by instruction.
  The lemmas show mutual exclusion, exactly-once delivery, phases of the barrier, absence of lost wake-ups and that
  \<open>join\<close> runs all tasks, that the stacks are linearizable, and that every fiber runs, is deleted and gives back its stack once.

  \<^bold>\<open>Patterns\<close> (\<open>pattern\<close>). \<open>Singleton\<close> with \<open>Singleton_Proofs\<close>: the lazily constructed singleton in any interleaving of
  threads, and the functions that run at exit in the order of priority; \<open>Registrator\<close>: the factory of named components.

  \<^bold>\<open>Example\<close> (\<open>examples/dist.registry.replication\<close>). \<open>Registry\<close>: the register of a replica, the requests, the
  coordinator's quorum reads and writes on the results that \<open>First_N\<close> delivers.

  \<^bold>\<open>How the parts meet.\<close> The caches use the intrusive list, the tree sort the search tree, both futures and
  combinators the shared state, the registry the combinator \<open>first_n\<close> (its results are the states that the model
  of \<open>First_N\<close> reaches). The locales \<open>comparator\<close>, \<open>ordered_set\<close>, \<open>key_bag\<close>, \<open>map_container\<close>, \<open>priority_queue\<close>,
  \<open>node_sequence\<close>, \<open>equivalence_builder\<close>, \<open>exclusive_lock\<close>, \<open>linearizable_stack\<close> and
  \<open>search_space\<close> state the interfaces and are interpreted on the models.

  \<^bold>\<open>Bounds and fuel.\<close> Recursion is structural, has a measure, or is a \<open>partial_function\<close> whose result is
  shown to exist; only the destructor of the lock-free stack takes fuel, the number of nodes ever allocated, which is enough. Integers of type \<open>int\<close> that index vectors are taken without overflow, which holds below
  \<open>2 ^ 30\<close> elements. Concrete parameters (numbers of threads, sizes) appear only in witnesses.

  \<^bold>\<open>Defects.\<close> Where the code is wrong a lemma exhibits it: \<open>avl_delete_unbalanced\<close>, \<open>bst_erase_dangling\<close>,
  \<open>extendible_hashtable_stale_entries\<close>, \<open>wrap_null_leaks\<close>, \<open>lru_k_get_overfills_buffer\<close>, \<open>dijkstra_defects\<close>,
  \<open>first_n_null_future\<close>, \<open>semaphore_lost_wakeup\<close>, \<open>quorum_read_stale\<close>, \<open>write_without_replicas\<close>,
  \<open>realloc_handler_destroys_raw_memory\<close>, \<open>assign_frees_with_the_wrong_allocator\<close>, \<open>submitted_after_join_lost\<close>,
  \<open>lock_free_stack_use_after_free\<close>, \<open>lock_free_stack_data_race\<close>, \<open>read_graphviz_defects\<close>, \<open>read_graphviz_undirected\<close>,
  \<open>quick_sort_pivot_truncates\<close>, \<open>derived_at_offset_deleted_wrongly\<close>, \<open>travelling_salesman_throws\<close>, \<open>travelling_salesman_single\<close>, \<open>b_tree_inner_split_fails\<close>, \<open>graph_copy_double_free\<close>,
  \<open>default_stack_usable\<close>.

  \<^bold>\<open>Not modelled.\<close> Sockets and HTTP (the network examples and the vendored \<open>httplib\<close>); the vendored \<open>expected\<close>,
  \<open>function2\<close> and \<open>not_null\<close>; the layout and the destruction of coroutine frames, which the compiler
  generates; \<open>cache.hpp\<close>, an interface without code; the iterator wrappers of the containers, which forward to
  pointers; weak memory orders; failure of \<open>mmap\<close>; and allocation failure outside of \<open>dynamic_array\<close>.
\<close>

section \<open>Properties of several components\<close>

text \<open>
  C38: The sorts of the library that compare with \<open>operator<\<close> compute the same function, the reference sort of the
  logic: bubble, insertion and selection sort with \<open>std::less\<close>, heap sort, merge sort, both shaker sorts (the second one
  always ends) and the shell sort; and \<open>is_sorted\<close> accepts exactly its results.
\<close>

theorem sorting_algorithms_agree:
  fixes arr :: "'a::linorder list"
  shows "bubble_sort std_less arr = sort arr \<and> insertion_sort std_less arr = sort arr \<and>
    selection_sort std_less arr = sort arr \<and> heap_sort arr = sort arr \<and> merge_sort arr = sort arr \<and>
    shaker_sort_v1 arr = sort arr \<and> shaker_sort_v2 arr = Some (sort arr) \<and> shell_sort arr = sort arr \<and>
    (is_sorted std_less arr \<longleftrightarrow> sort arr = arr)"
proof -
  have ref: "ys = sort arr" if "sorted ys" "mset ys = mset arr" for ys
    using properties_for_sort [OF that(2,1)] by simp
  have sorted: "is_sorted std_less ys \<longleftrightarrow> sorted ys" for ys :: "'a list"
    by (simp add: less.is_sorted_sound sorted_by_less)
  then have "is_sorted std_less arr \<longleftrightarrow> sort arr = arr"
    using sorted_sort [of arr] sorted_sort_id [of arr] by metis
  then show ?thesis
    using ref sorted comparison_sorts_correct [OF less.comparator_axioms, of arr]
      heap_sort_correct [of arr] merge_sort_correct [of arr] shaker_and_shell_sorts_correct [of arr] by auto
qed

end
